(* ===== verification/Prelude.thy ===== *)
theory Prelude
  imports Main "HOL-Library.Monad_Syntax" "HOL-Library.Code_Target_Nat" "HOL-Library.Sublist"
begin

text \<open>
  Shared vocabulary of the development: the Qt string type, the decimal printing and parsing
  routines of \<open>QString\<close> that the sources call, checked 64-bit signed arithmetic, and the
  collections of facts the component theories hand to the simplifier.

  A \<open>QString\<close> is a sequence of UTF-16 code units. A code unit is represented by its number, so a
  \<open>qstring\<close> is a list of naturals and a literal of the sources is written \<open>q ''...''\<close>.

  A signed 64-bit value (\<open>qint64\<close>, \<open>CAmount\<close>) is an \<open>int\<close>. Where the C++ expression can leave the
  64-bit range the result is an \<open>option\<close>: \<open>chk64\<close> is \<open>None\<close> there, because signed overflow has no
  defined result.
\<close>

named_theorems qstr_simps \<open>evaluation of literals and of the QString routines\<close>
named_theorems sig_simps \<open>definitions of operations that emit Qt signals\<close>

section \<open>Code units and strings\<close>

type_synonym qchar = nat
type_synonym qstring = "nat list"

text \<open>A \<open>std::string\<close>: its bytes.\<close>

type_synonym bytes = "nat list"

text \<open>The values of Core's \<open>UniValue\<close>; a number is kept as its text.\<close>

datatype UniValue = VNULL | VBOOL bool | VNUM bytes | VSTR bytes | VARR "UniValue list" | VOBJ "(bytes \<times> UniValue) list"

definition q :: "string \<Rightarrow> qstring" where
  "q s = map of_char s"

lemma q_simps [simp, qstr_simps]:
  "q [] = []"
  "q (c # cs) = of_char c # q cs"
  by (simp_all add: q_def)

abbreviation is_digit :: "qchar \<Rightarrow> bool" where
  "is_digit c \<equiv> 48 \<le> c \<and> c \<le> 57"

text \<open>\<open>QChar::isSpace\<close>: ASCII white space and the Unicode separator categories.\<close>

definition isSpace :: "qchar \<Rightarrow> bool" where
  "isSpace c \<longleftrightarrow> c = 32 \<or> (9 \<le> c \<and> c \<le> 13) \<or> c = 133 \<or> c = 160 \<or> c = 5760 \<or>
     (8192 \<le> c \<and> c \<le> 8202) \<or> c = 8232 \<or> c = 8233 \<or> c = 8239 \<or> c = 8287 \<or> c = 12288"

definition trimmed :: "qstring \<Rightarrow> qstring" where
  "trimmed s = rev (dropWhile isSpace (rev (dropWhile isSpace s)))"

text \<open>\<open>\s\<close> of a regular expression.\<close>

definition re_space :: "qchar \<Rightarrow> bool" where
  "re_space c \<longleftrightarrow> c = 32 \<or> 9 \<le> c \<and> c \<le> 13"

text \<open>\<open>QString::split(sep)\<close> keeps empty parts; the empty string has the single part "".\<close>

fun split_on :: "qchar \<Rightarrow> qstring \<Rightarrow> qstring list" where
  "split_on sep [] = [[]]"
| "split_on sep (c # cs) =
     (if c = sep then [] # split_on sep cs
      else (case split_on sep cs of [] \<Rightarrow> [[c]] | p # ps \<Rightarrow> (c # p) # ps))"

definition leftJustified :: "nat \<Rightarrow> qchar \<Rightarrow> qstring \<Rightarrow> qstring" where
  "leftJustified width fill s = s @ replicate (width - length s) fill"

definition rightJustified :: "nat \<Rightarrow> qchar \<Rightarrow> qstring \<Rightarrow> qstring" where
  "rightJustified width fill s = replicate (width - length s) fill @ s"

section \<open>Decimal numbers\<close>

text \<open>\<open>QString::number\<close> in base ten, on a magnitude and on a signed value.\<close>

fun number_nat :: "nat \<Rightarrow> qstring" where
  "number_nat n = (if n < 10 then [48 + n] else number_nat (n div 10) @ [48 + n mod 10])"

declare number_nat.simps [simp del]

definition number :: "int \<Rightarrow> qstring" where
  "number n = (if n < 0 then 45 # number_nat (nat (- n)) else number_nat (nat n))"

definition dec_value :: "qstring \<Rightarrow> nat" where
  "dec_value s = foldl (\<lambda>a c. 10 * a + (c - 48)) 0 s"

text \<open>
  \<open>QString::toLongLong()\<close>: surrounding white space is ignored, an optional sign is accepted, and
  the result is 0 when the rest is not a non-empty run of digits or does not fit 64 bits.
\<close>

definition i64_min :: int where "i64_min = - (2 ^ 63)"
definition i64_max :: int where "i64_max = 2 ^ 63 - 1"

definition in_i64 :: "int \<Rightarrow> bool" where
  "in_i64 x \<longleftrightarrow> i64_min \<le> x \<and> x \<le> i64_max"

definition chk64 :: "int \<Rightarrow> int option" where
  "chk64 x = (if in_i64 x then Some x else None)"

definition toLongLong :: "qstring \<Rightarrow> int" where
  "toLongLong s =
     (let t = trimmed s;
          neg = (t \<noteq> [] \<and> hd t = 45);
          body = (if t \<noteq> [] \<and> (hd t = 45 \<or> hd t = 43) then tl t else t);
          v = (if neg then - int (dec_value body) else int (dec_value body))
      in if body \<noteq> [] \<and> list_all is_digit body \<and> in_i64 v then v else 0)"

lemmas i64_defs = in_i64_def i64_min_def i64_max_def

lemma chk64_Some_iff [simp]: "chk64 x = Some y \<longleftrightarrow> in_i64 x \<and> y = x"
  by (auto simp: chk64_def)

lemma chk64_None_iff [simp]: "chk64 x = None \<longleftrightarrow> \<not> in_i64 x"
  by (simp add: chk64_def)

lemma chk64_in [simp]: "in_i64 x \<Longrightarrow> chk64 x = Some x"
  by simp

section \<open>Facts about the decimal routines\<close>

lemma dec_value_Nil [simp]: "dec_value [] = 0"
  by (simp add: dec_value_def)

lemma dec_value_snoc [simp]: "dec_value (s @ [c]) = 10 * dec_value s + (c - 48)"
  by (simp add: dec_value_def)

lemma dec_value_append: "dec_value (s @ t) = dec_value s * 10 ^ length t + dec_value t"
  by (induction t rule: rev_induct) (simp_all flip: append_assoc add: algebra_simps)

lemma dec_value_single [simp]: "dec_value [c] = c - 48"
  by (simp add: dec_value_def)

lemma dec_value_zeros [simp]: "dec_value (replicate k 48 @ s) = dec_value s"
proof -
  have "dec_value (replicate k 48) = 0"
    by (induction k) (simp_all add: replicate_append_same [symmetric])
  then show ?thesis by (simp add: dec_value_append)
qed

lemma dec_value_less: "list_all is_digit s \<Longrightarrow> dec_value s < 10 ^ length s"
proof (induction s rule: rev_induct)
  case (snoc c s)
  then have "dec_value s + 1 \<le> 10 ^ length s" "c - 48 \<le> 9" by auto
  then show ?case by simp
qed simp

lemma number_nat_value [simp]: "dec_value (number_nat n) = n"
proof (induction n rule: number_nat.induct)
  case (1 n)
  then show ?case by (simp add: number_nat.simps [of n])
qed

lemma number_nat_digits [simp]: "list_all is_digit (number_nat n)"
proof (induction n rule: number_nat.induct)
  case (1 n)
  have "n mod 10 \<le> 9" by simp
  with 1 show ?case by (simp add: number_nat.simps [of n])
qed

lemma number_nat_not_Nil [simp]: "number_nat n \<noteq> []"
  by (simp add: number_nat.simps [of n])

lemma number_nat_length: "n < 10 ^ k \<Longrightarrow> 0 < k \<Longrightarrow> length (number_nat n) \<le> k"
proof (induction n arbitrary: k rule: number_nat.induct)
  case (1 n)
  show ?case
  proof (cases "n < 10")
    case True
    then show ?thesis using "1.prems" by (simp add: number_nat.simps [of n])
  next
    case False
    with "1.prems" obtain j where k: "k = Suc j" "0 < j"
      by (cases k; cases "k - 1") auto
    with "1.prems" have "n div 10 < 10 ^ j" by (simp add: less_mult_imp_div_less)
    with "1.IH" [OF False this k(2)] False show ?thesis
      by (simp add: number_nat.simps [of n] k)
  qed
qed

lemma rightJustified_value [simp]: "dec_value (rightJustified w 48 s) = dec_value s"
  by (simp add: rightJustified_def)

lemma rightJustified_number_length:
  "n < 10 ^ w \<Longrightarrow> 0 < w \<Longrightarrow> length (rightJustified w 48 (number_nat n)) = w"
  using number_nat_length [of n w] by (simp add: rightJustified_def)

lemma list_all_replicate_digit [simp]: "list_all is_digit (replicate k 48)"
  by (induction k) simp_all

lemma rightJustified_digits [simp]:
  "list_all is_digit s \<Longrightarrow> list_all is_digit (rightJustified w 48 s)"
  by (simp add: rightJustified_def)

lemma leftJustified_digits [simp]:
  "list_all is_digit s \<Longrightarrow> list_all is_digit (leftJustified w 48 s)"
  by (simp add: leftJustified_def)

lemma digit_not_space: "is_digit c \<Longrightarrow> \<not> isSpace c"
  by (auto simp: isSpace_def)

lemma trimmed_digits [simp]: "list_all is_digit s \<Longrightarrow> trimmed s = s"
proof -
  assume d: "list_all is_digit s"
  have id: "dropWhile isSpace t = t" if "list_all is_digit t" for t
    using that digit_not_space by (cases t) auto
  from d have "list_all is_digit (rev s)" by (simp add: list_all_iff)
  with d show ?thesis by (simp add: trimmed_def id)
qed

lemma toLongLong_digits:
  assumes "list_all is_digit s" "s \<noteq> []"
  shows "toLongLong s = (if int (dec_value s) \<le> i64_max then int (dec_value s) else 0)"
proof -
  obtain c t where s: "s = c # t" using assms(2) by (cases s) auto
  with assms(1) have "c \<noteq> 45" "c \<noteq> 43" by auto
  then show ?thesis using assms s
    by (simp add: toLongLong_def Let_def in_i64_def i64_min_def)
qed

lemma toLongLong_number [simp]: "int n \<le> i64_max \<Longrightarrow> toLongLong (number_nat n) = int n"
  by (simp add: toLongLong_digits)

section \<open>Facts about splitting\<close>

lemma split_on_not_Nil [simp]: "split_on sep s \<noteq> []"
  by (induction s) (auto split: list.splits)

lemma split_on_none: "sep \<notin> set s \<Longrightarrow> split_on sep s = [s]"
  by (induction s) auto

lemma split_on_append: "sep \<notin> set s \<Longrightarrow> split_on sep (s @ sep # t) = s # split_on sep t"
  by (induction s) auto

lemma split_on_length: "length (split_on sep s) = Suc (count_list s sep)"
  by (induction s) (auto split: list.splits)

lemma split_on_parts: "p \<in> set (split_on sep s) \<Longrightarrow> sep \<notin> set p \<and> set p \<subseteq> set s"
proof (induction s arbitrary: p)
  case (Cons c cs)
  show ?case
  proof (cases "split_on sep cs")
    case (Cons r rs)
    with Cons.IH have "\<forall>p \<in> set (r # rs). sep \<notin> set p \<and> set p \<subseteq> set cs" by simp
    with Cons Cons.prems show ?thesis by (auto split: if_splits)
  qed simp
qed simp

lemma list_all_take [intro]: "list_all P xs \<Longrightarrow> list_all P (take n xs)"
  by (simp add: list_all_length)

lemma digits_no_sep: "list_all is_digit s \<Longrightarrow> \<not> is_digit c \<Longrightarrow> c \<notin> set s"
  by (auto simp: list_all_iff)

section \<open>Slots run by emitted signals\<close>

text \<open>
  An operation that emits is a function from a state to the new state and its log of signals.
  \<open>andthen\<close> runs a second operation after a first one. \<open>run_slots h sigs\<close> delivers a sequence of
  emitted signals over direct connections: for each signal the object's own slots, \<open>h\<close>, run at
  once, and then the signal is logged through \<open>wrap\<close> for the listeners that connected later.
\<close>

definition andthen :: "'s \<times> 'g list \<Rightarrow> ('s \<Rightarrow> 's \<times> 'g list) \<Rightarrow> 's \<times> 'g list" where
  "andthen r f = (let (s, l) = r; (s', l') = f s in (s', l @ l'))"

primrec run_slots :: "('e \<Rightarrow> 'g) \<Rightarrow> ('e \<Rightarrow> 's \<Rightarrow> 's \<times> 'g list) \<Rightarrow> 'e list \<Rightarrow> 's \<Rightarrow> 's \<times> 'g list" where
  "run_slots wrap h [] s = (s, [])"
| "run_slots wrap h (e # es) s =
     andthen (andthen (h e s) (\<lambda>s. (s, [wrap e]))) (run_slots wrap h es)"

lemma andthen_fst [simp]: "fst (andthen r f) = fst (f (fst r))"
  by (simp add: andthen_def Let_def split: prod.splits)

lemma andthen_snd: "snd (andthen r f) = snd r @ snd (f (fst r))"
  by (simp add: andthen_def Let_def split: prod.splits)

lemma andthen_pair: "andthen (s, l) f = (fst (f s), l @ snd (f s))"
  by (simp add: andthen_def Let_def split: prod.splits)

text \<open>A property every slot keeps holds after delivering any signals.\<close>

lemma run_slots_keeps:
  "(\<And>e s. P s \<Longrightarrow> P (fst (h e s))) \<Longrightarrow> P s \<Longrightarrow> P (fst (run_slots wrap h es s))"
  by (induction es arbitrary: s) simp_all

lemma run_slots_log: "set (map wrap es) \<subseteq> set (snd (run_slots wrap h es s))"
  by (induction es arbitrary: s) (auto simp: andthen_snd)

section \<open>Property notification\<close>

text \<open>
  A QML binding on a property with a \<open>NOTIFY\<close> signal re-reads the property when, and only when, an
  operation emits that signal. \<open>binding_run\<close> runs operations of an object with such a binding
  beside it: the second component is what the binding shows. A step that is \<open>None\<close> has no defined
  outcome, and neither has the run.
\<close>

fun binding_run ::
  "('op \<Rightarrow> 's \<Rightarrow> ('s \<times> 'sig list) option) \<Rightarrow> ('s \<Rightarrow> 'v) \<Rightarrow> 'sig \<Rightarrow> 'op list \<Rightarrow> 's \<times> 'v \<Rightarrow> ('s \<times> 'v) option"
where
  "binding_run step view sig [] (s, shown) = Some (s, shown)"
| "binding_run step view sig (op # ops) (s, shown) =
     (case step op s of
        None \<Rightarrow> None
      | Some (s', sigs) \<Rightarrow>
          binding_run step view sig ops (s', if sig \<in> set sigs then view s' else shown))"

locale notifying =
  fixes step :: "'op \<Rightarrow> 's \<Rightarrow> ('s \<times> 'sig list) option"
    and view :: "'s \<Rightarrow> 'v"
    and sig :: 'sig
  assumes notifies: "step op s = Some (s', sigs) \<Longrightarrow> view s' \<noteq> view s \<Longrightarrow> sig \<in> set sigs"
begin

text \<open>The client's lemma: a binding that starts right is right after any run.\<close>

lemma binding_coherent:
  "binding_run step view sig ops (s, view s) = Some (s', shown) \<Longrightarrow> shown = view s'"
proof (induction ops arbitrary: s)
  case (Cons op ops)
  then obtain t sigs where t: "step op s = Some (t, sigs)"
    by (auto split: option.splits)
  have "(if sig \<in> set sigs then view t else view s) = view t"
    using notifies [OF t] by metis
  with Cons t show ?case by simp
qed simp

end

end
