(* ===== verification/Units.thy ===== *)
theory Units
  imports Prelude
begin

text \<open>
  \<open>src/qml/bitcoinunits.{h,cpp}\<close>: the four display units, the canonical decimal formatter
  \<open>QmlBitcoinUnits::format\<close> with its digit grouping loop, the locale-aware formatter
  \<open>formatForDisplay\<close>, and the unit labels. The locale object is code outside the repository and
  enters as a record of functions.
\<close>

section \<open>Definitions\<close>

datatype QmlUnit = QBTC | QmBTC | QuBTC | QSAT

datatype SeparatorStyle = NEVER | STANDARD | ALWAYS

definition THIN_SP_CP :: qchar where
  "THIN_SP_CP = 8201"

fun factor :: "QmlUnit \<Rightarrow> int" where
  "factor QBTC = 100000000"
| "factor QmBTC = 100000"
| "factor QuBTC = 100"
| "factor QSAT = 1"

fun decimals :: "QmlUnit \<Rightarrow> nat" where
  "decimals QBTC = 8"
| "decimals QmBTC = 5"
| "decimals QuBTC = 2"
| "decimals QSAT = 0"

text \<open>The loop \<open>for (i = 3; i < q_size; i += 3) quotient_str.insert(q_size - i, thin_sp)\<close>.\<close>

function insert_separators :: "nat \<Rightarrow> nat \<Rightarrow> qstring \<Rightarrow> qstring" where
  "insert_separators q_size i s =
     (if i < q_size
      then insert_separators q_size (i + 3) (take (q_size - i) s @ THIN_SP_CP # drop (q_size - i) s)
      else s)"
  by pat_completeness auto
termination
  by (relation "measure (\<lambda>(q_size, i, s). q_size - i)") auto

declare insert_separators.simps [simp del]

definition group_quotient :: "SeparatorStyle \<Rightarrow> qstring \<Rightarrow> qstring" where
  "group_quotient separators s =
     (let q_size = length s
      in if separators = ALWAYS \<or> (separators = STANDARD \<and> q_size > 4)
         then insert_separators q_size 3 s else s)"

text \<open>
  \<open>None\<close> is the negation of the smallest 64-bit value, the only overflow of the routine.
\<close>

definition format :: "QmlUnit \<Rightarrow> int \<Rightarrow> bool \<Rightarrow> SeparatorStyle \<Rightarrow> qstring option" where
  "format unit n plussign separators = do {
     n_abs \<leftarrow> chk64 (if n > 0 then n else - n);
     let coin = factor unit;
     let quotient_str = group_quotient separators (number (n_abs div coin));
     let quotient_str =
       (if n < 0 then 45 # quotient_str
        else if plussign \<and> n > 0 then 43 # quotient_str else quotient_str);
     if decimals unit = 0 then Some quotient_str
     else Some (quotient_str @ q ''.'' @ rightJustified (decimals unit) 48 (number (n_abs mod coin)))
   }"

text \<open>
  What the code uses of a \<open>QLocale\<close>: \<open>toString\<close> of an unsigned value with and without the
  \<open>OmitGroupSeparator\<close> option, and four strings.
\<close>

record QLocale =
  toString :: "bool \<Rightarrow> nat \<Rightarrow> qstring"
  decimalPoint :: qstring
  zeroDigit :: qstring
  negativeSign :: qstring
  positiveSign :: qstring

definition formatForDisplay :: "QmlUnit \<Rightarrow> int \<Rightarrow> bool \<Rightarrow> QLocale \<Rightarrow> qstring" where
  "formatForDisplay unit amount plussign loc =
     (let magnitude = (if amount = i64_min then nat i64_max + 1 else nat \<bar>amount\<bar>);
          divisor = nat (factor unit);
          result = toString loc False (magnitude div divisor);
          precision = decimals unit;
          result =
            (if precision > 0 then
               let remainder = magnitude mod divisor;
                   padding = precision - length (number_nat remainder)
               in result @ decimalPoint loc @ concat (replicate padding (zeroDigit loc))
                    @ toString loc True remainder
             else result)
      in if amount < 0 then negativeSign loc @ result
         else if plussign \<and> amount > 0 then positiveSign loc @ result
         else result)"

definition fromDisplayUnit :: "int \<Rightarrow> QmlUnit" where
  "fromDisplayUnit display_unit =
     (if display_unit = 0 then QBTC
      else if display_unit = 1 then QmBTC
      else if display_unit = 2 then QuBTC
      else if display_unit = 3 then QSAT
      else QBTC)"

fun unit_label :: "QmlUnit \<Rightarrow> qstring" where
  "unit_label QBTC = q ''BTC''"
| "unit_label QmBTC = q ''mBTC''"
| "unit_label QuBTC = q ''bits''"
| "unit_label QSAT = q ''sat''"

definition label_for :: "QmlUnit \<Rightarrow> int \<Rightarrow> qstring" where
  "label_for unit amount =
     (if unit = QSAT then (if amount = 1 \<or> amount = - 1 then q ''sat'' else q ''sats'')
      else unit_label unit)"

text \<open>U+20BF is the bitcoin sign.\<close>

fun displayLabel :: "QmlUnit \<Rightarrow> int \<Rightarrow> qstring" where
  "displayLabel QBTC amount = [8383]"
| "displayLabel QmBTC amount = q ''mBTC''"
| "displayLabel QuBTC amount = q ''bits''"
| "displayLabel QSAT amount = label_for QSAT amount"

section \<open>The factor of a unit and its number of decimals agree\<close>

lemma factor_decimals: "factor u = 10 ^ decimals u"
  by (cases u) simp_all

lemma factor_pos [simp]: "0 < factor u"
  by (cases u) simp_all

lemma nat_factor: "nat (factor u) = 10 ^ decimals u"
  by (cases u) simp_all

section \<open>Digit grouping\<close>

lemma number_nonneg: "0 \<le> n \<Longrightarrow> number n = number_nat (nat n)"
  by (simp add: number_def)

lemma format_abs:
  "n \<noteq> i64_min \<Longrightarrow> in_i64 n \<Longrightarrow> chk64 (if n > 0 then n else - n) = Some \<bar>n\<bar>"
  by (auto simp: i64_defs)

text \<open>
  Removing the thin spaces gives the digits back: by computation induction, every iteration
  inserts one thin space and nothing else.
\<close>

lemma insert_separators_filter:
  "filter (\<lambda>c. c \<noteq> THIN_SP_CP) (insert_separators n i s) = filter (\<lambda>c. c \<noteq> THIN_SP_CP) s"
proof (induction n i s rule: insert_separators.induct)
  case (1 n i s)
  have "filter (\<lambda>c. c \<noteq> THIN_SP_CP) (take (n - i) s) @ filter (\<lambda>c. c \<noteq> THIN_SP_CP) (drop (n - i) s)
      = filter (\<lambda>c. c \<noteq> THIN_SP_CP) s"
    by (simp flip: filter_append)
  with 1 show ?case by (simp add: insert_separators.simps [of n i s])
qed

text \<open>
  The reference: cut a digit string from the right into groups of three. Inserting at
  \<open>q_size - i\<close> for growing \<open>i\<close> never moves a position still to be visited.
\<close>

function group3 :: "qstring \<Rightarrow> qstring" where
  "group3 s = (if length s \<le> 3 then s
     else group3 (take (length s - 3) s) @ THIN_SP_CP # drop (length s - 3) s)"
  by pat_completeness auto
termination
  by (relation "measure length") auto

declare group3.simps [simp del]

lemma insert_separators_group3:
  assumes "length s = n - i + 3" "i < n + 3"
  shows "insert_separators n i (s @ t) = group3 s @ t"
  using assms
proof (induction n i "s @ t" arbitrary: s t rule: insert_separators.induct)
  case (1 n i s t)
  show ?case
  proof (cases "i < n")
    case True
    let ?a = "take (n - i) s" and ?b = "THIN_SP_CP # drop (n - i) s @ t"
    have "insert_separators n (i + 3) (?a @ ?b) = group3 ?a @ ?b"
    proof (cases "n - i \<ge> 3")
      case True
      then show ?thesis using "1.hyps" [OF \<open>i < n\<close>, of ?a ?b] "1.prems" by simp
    next
      case False
      then have "\<not> i + 3 < n" by simp
      then have "insert_separators n (i + 3) (?a @ ?b) = ?a @ ?b"
        by (simp add: insert_separators.simps [of n "i + 3"])
      then show ?thesis using False "1.prems" by (simp add: group3.simps [of ?a])
    qed
    then show ?thesis using True "1.prems"
      by (simp add: insert_separators.simps [of n i] group3.simps [of s])
  next
    case False
    then show ?thesis using "1.prems"
      by (simp add: insert_separators.simps [of n i] group3.simps [of s])
  qed
qed

lemma group_quotient_filter:
  assumes "list_all is_digit s"
  shows "filter (\<lambda>c. c \<noteq> THIN_SP_CP) (group_quotient sep s) = s"
proof -
  have "filter (\<lambda>c. c \<noteq> THIN_SP_CP) s = s"
    using assms by (auto simp: list_all_iff THIN_SP_CP_def intro!: filter_True)
  then show ?thesis by (simp add: group_quotient_def Let_def insert_separators_filter)
qed

text \<open>Grouping is the reference cut, also for strings of fewer than four digits.\<close>

lemma insert_separators_3: "insert_separators (length s) 3 s = group3 s"
proof (cases "3 \<le> length s")
  case True
  then show ?thesis using insert_separators_group3 [of s "length s" 3 "[]"] by fastforce
next
  case False
  then show ?thesis by (simp add: insert_separators.simps [of _ 3] group3.simps [of s])
qed

section \<open>The formatted text\<close>

text \<open>Both formatters, spelled out on the values where the canonical one is defined.\<close>

lemma format_eq:
  assumes "in_i64 n" "n \<noteq> i64_min"
  shows "format u n plussign sep = Some (
     (if n < 0 then [45] else if plussign \<and> n > 0 then [43] else []) @
     group_quotient sep (number_nat (nat \<bar>n\<bar> div 10 ^ decimals u)) @
     (if decimals u = 0 then []
      else 46 # rightJustified (decimals u) 48 (number_nat (nat \<bar>n\<bar> mod 10 ^ decimals u))))"
proof -
  define m where "m = \<bar>n\<bar>"
  have m: "0 \<le> m" and abs: "chk64 (if n > 0 then n else - n) = Some m"
    using assms by (simp_all add: m_def format_abs)
  have "number (m div factor u) = number_nat (nat m div 10 ^ decimals u)"
    and "number (m mod factor u) = number_nat (nat m mod 10 ^ decimals u)"
    using m by (simp_all add: number_nonneg pos_imp_zdiv_nonneg_iff nat_div_distrib
        nat_mod_distrib nat_factor order_less_imp_le)
  then show ?thesis
    unfolding m_def [symmetric] by (simp add: format_def abs Let_def)
qed

text \<open>
  the grouping loop of \<open>format\<close> only inserts thin spaces, three digits apart counted from the
  right: with separators the integer part is the reference grouping of the digits the same call
  prints without separators, and deleting the thin spaces gives exactly that text back.
\<close>

theorem format_grouping:
  assumes "in_i64 n" "n \<noteq> i64_min"
  shows "\<exists>sgn digits rest. format u n p NEVER = Some (sgn @ digits @ rest) \<and>
           format u n p ALWAYS = Some (sgn @ group3 digits @ rest) \<and>
           format u n p STANDARD =
             Some (sgn @ (if length digits > 4 then group3 digits else digits) @ rest) \<and>
           filter (\<lambda>c. c \<noteq> THIN_SP_CP) (group3 digits) = digits \<and>
           list_all is_digit digits \<and> dec_value digits = nat \<bar>n\<bar> div nat (factor u)"
proof (intro exI conjI)
  let ?d = "number_nat (nat \<bar>n\<bar> div 10 ^ decimals u)"
  show "format u n p NEVER = Some ((if n < 0 then [45] else if p \<and> n > 0 then [43] else []) @ ?d @
      (if decimals u = 0 then []
       else 46 # rightJustified (decimals u) 48 (number_nat (nat \<bar>n\<bar> mod 10 ^ decimals u))))"
    by (simp add: format_eq [OF assms] group_quotient_def)
  show "filter (\<lambda>c. c \<noteq> THIN_SP_CP) (group3 ?d) = ?d"
    using group_quotient_filter [of ?d ALWAYS]
    by (simp add: group_quotient_def Let_def insert_separators_3)
qed (simp_all add: format_eq [OF assms] group_quotient_def Let_def insert_separators_3 nat_factor)

theorem format_grouping_witness:
  "\<exists>sgn digits rest. format QBTC (- 1234567890000000) False NEVER = Some (sgn @ digits @ rest) \<and>
     format QBTC (- 1234567890000000) False ALWAYS = Some (sgn @ group3 digits @ rest) \<and>
     dec_value digits = 12345678"
  using format_grouping [of "- 1234567890000000" QBTC False] by (auto simp: i64_defs)

text \<open>
  The locale whose digits, point and signs are those of \<open>QString::number\<close>.
\<close>

definition c_locale :: QLocale where
  "c_locale = \<lparr>toString = (\<lambda>_. number_nat), decimalPoint = q ''.'', zeroDigit = q ''0'',
     negativeSign = q ''-'', positiveSign = q ''+''\<rparr>"

lemma concat_replicate_single: "concat (replicate k [c]) = replicate k c"
  by (induction k) simp_all

text \<open>
  the localised formatter agrees with the canonical one: in a locale that prints numbers
  without grouping, a point and ASCII signs, \<open>formatForDisplay\<close> gives the text of \<open>format\<close>
  without separators for every 64-bit amount except the smallest, and there it still gives a text,
  the one of magnitude \<open>2 ^ 63\<close>, where the canonical routine overflows.
\<close>

theorem formatForDisplay_canonical:
  assumes "in_i64 n"
  shows "format u n p NEVER = (if n = i64_min then None else Some (formatForDisplay u n p c_locale))
     \<and> formatForDisplay u i64_min p c_locale =
         45 # formatForDisplay u (2 ^ 63) False c_locale"
proof (cases "n = i64_min")
  case True
  then show ?thesis
    by (simp add: format_def formatForDisplay_def c_locale_def i64_defs chk64_def Let_def)
next
  case False
  have pad: "replicate (d - length (number_nat k)) 48 @ number_nat k = rightJustified d 48 (number_nat k)"
    for d k by (simp add: rightJustified_def)
  from False show ?thesis
    by (simp add: format_eq [OF assms False] formatForDisplay_def c_locale_def Let_def nat_factor
        group_quotient_def concat_replicate_single pad i64_min_def i64_max_def)
qed

theorem formatForDisplay_canonical_witness:
  "format QSAT (- 42) False NEVER = Some (formatForDisplay QSAT (- 42) False c_locale)"
  using formatForDisplay_canonical [of "- 42" QSAT False] by (simp add: i64_defs)

end
