(* ===== verification/Amount.thy ===== *)
theory Amount
  imports Units
begin

text \<open>
  \<open>src/qml/bitcoinamount.{h,cpp}\<close>: the amount behind every amount field. The object is a record
  of its three members; an operation returns the new object with the list of signals it emits, in
  order. \<open>COIN\<close> is a constant of Bitcoin Core's \<open>consensus/amount.h\<close> and a parameter here.
\<close>

section \<open>Definitions\<close>

datatype Unit = BTC | MilliBTC | MicroBTC | SAT

record BitcoinAmount =
  m_satoshi :: int
  m_isSet :: bool
  m_unit :: Unit

datatype AmountSignal = unitChanged | amountChanged | displayChanged | displayWithUnitChanged

definition new_BitcoinAmount :: BitcoinAmount where
  "new_BitcoinAmount = \<lparr>m_satoshi = 0, m_isSet = False, m_unit = BTC\<rparr>"

fun UnitFactor :: "int \<Rightarrow> Unit \<Rightarrow> int" where
  "UnitFactor COIN BTC = COIN"
| "UnitFactor COIN MilliBTC = 100000"
| "UnitFactor COIN MicroBTC = 100"
| "UnitFactor COIN SAT = 1"

fun UnitDecimals :: "Unit \<Rightarrow> nat" where
  "UnitDecimals BTC = 8"
| "UnitDecimals MilliBTC = 5"
| "UnitDecimals MicroBTC = 2"
| "UnitDecimals SAT = 0"

fun ToQmlUnit :: "Unit \<Rightarrow> QmlUnit" where
  "ToQmlUnit BTC = QBTC"
| "ToQmlUnit MilliBTC = QmBTC"
| "ToQmlUnit MicroBTC = QuBTC"
| "ToQmlUnit SAT = QSAT"

text \<open>\<open>parts\<close> is computed once, before the points are reduced to one, as in the source.\<close>

definition sanitize :: "Unit \<Rightarrow> qstring \<Rightarrow> qstring" where
  "sanitize unit text =
     (let result = filter (\<lambda>c. is_digit c \<or> c = 46) text;
          parts = split_on 46 result;
          result = (if length parts > 2 then parts ! 0 @ q ''.'' @ parts ! 1 else result);
          dec = UnitDecimals unit
      in if length parts = 2 \<and> length (parts ! 1) > dec
         then parts ! 0 @ q ''.'' @ take dec (parts ! 1) else result)"

definition setSatoshi :: "int \<Rightarrow> BitcoinAmount \<Rightarrow> BitcoinAmount \<times> AmountSignal list" where
  "setSatoshi new_amount a =
     (if m_satoshi a \<noteq> new_amount \<or> \<not> m_isSet a then
        let label_changes = (m_unit a = SAT \<and> ((\<bar>m_satoshi a\<bar> = 1) \<noteq> (\<bar>new_amount\<bar> = 1)))
        in (a\<lparr>m_isSet := True, m_satoshi := new_amount\<rparr>,
            (if label_changes then [unitChanged] else []) @
            [amountChanged, displayChanged, displayWithUnitChanged])
      else (a, []))"

definition amount_clear :: "BitcoinAmount \<Rightarrow> BitcoinAmount \<times> AmountSignal list" where
  "amount_clear a =
     (if \<not> m_isSet a \<and> m_satoshi a = 0 then (a, [])
      else
        let label_changes = (m_unit a = SAT \<and> \<bar>m_satoshi a\<bar> = 1)
        in (a\<lparr>m_satoshi := 0, m_isSet := False\<rparr>,
            (if label_changes then [unitChanged] else []) @
            [amountChanged, displayChanged, displayWithUnitChanged]))"

definition setUnit :: "Unit \<Rightarrow> BitcoinAmount \<Rightarrow> BitcoinAmount \<times> AmountSignal list" where
  "setUnit unit a =
     (if m_unit a = unit then (a, [])
      else (a\<lparr>m_unit := unit\<rparr>, [unitChanged, displayChanged, displayWithUnitChanged]))"

definition unitLabel :: "BitcoinAmount \<Rightarrow> qstring" where
  "unitLabel a = label_for (ToQmlUnit (m_unit a)) (m_satoshi a)"

definition flipUnit :: "BitcoinAmount \<Rightarrow> BitcoinAmount \<times> AmountSignal list" where
  "flipUnit a = (a\<lparr>m_unit := (if m_unit a = SAT then BTC else SAT)\<rparr>,
     [unitChanged, displayChanged, displayWithUnitChanged])"

text \<open>C++ division and remainder agree with \<open>div\<close> and \<open>mod\<close> on the non-negative operands here.\<close>

definition satsToBtcString :: "int \<Rightarrow> int \<Rightarrow> qstring option" where
  "satsToBtcString COIN sat = do {
     let negative = (sat < 0);
     absSat \<leftarrow> chk64 (if negative then - sat else sat);
     let wholePart = absSat div COIN;
     let fracInt = absSat mod COIN;
     let fracPart = rightJustified 8 48 (number fracInt);
     let result = number wholePart @ q ''.'' @ fracPart;
     Some (if negative then 45 # result else result)
   }"

definition toDisplay :: "BitcoinAmount \<Rightarrow> qstring option" where
  "toDisplay a =
     (if \<not> m_isSet a then Some []
      else format (ToQmlUnit (m_unit a)) (m_satoshi a) False NEVER)"

definition displayWithUnit :: "BitcoinAmount \<Rightarrow> qstring option" where
  "displayWithUnit a = do {
     display \<leftarrow> toDisplay a;
     Some (if display = [] then [] else display @ q '' '' @ unitLabel a)
   }"

definition localizedDisplay :: "QLocale \<Rightarrow> BitcoinAmount \<Rightarrow> qstring" where
  "localizedDisplay loc a =
     (if \<not> m_isSet a then [] else formatForDisplay (ToQmlUnit (m_unit a)) (m_satoshi a) False loc)"

definition localizedDisplayWithUnit :: "QLocale \<Rightarrow> BitcoinAmount \<Rightarrow> qstring" where
  "localizedDisplayWithUnit loc a =
     (if \<not> m_isSet a then []
      else localizedDisplay loc a @ q '' '' @ label_for (ToQmlUnit (m_unit a)) (m_satoshi a))"

text \<open>\<open>None\<close> is the overflow of \<open>whole * factor + frac\<close>, which the guard does not exclude.\<close>

definition displayToSats :: "int \<Rightarrow> Unit \<Rightarrow> qstring \<Rightarrow> int option" where
  "displayToSats COIN unit sanitized =
     (if sanitized = [] \<or> sanitized = q ''.'' then Some 0
      else
        let cleaned = (if hd sanitized = 46 then 48 # sanitized else sanitized);
            parts = split_on 46 cleaned;
            whole = (if parts ! 0 = [] then 0 else toLongLong (parts ! 0));
            dec = UnitDecimals unit;
            frac = (if length parts = 2 then toLongLong (leftJustified dec 48 (parts ! 1)) else 0);
            fac = UnitFactor COIN unit
        in if whole > i64_max div fac then Some i64_max
           else chk64 (whole * fac + frac))"

definition fromDisplay :: "int \<Rightarrow> qstring \<Rightarrow> BitcoinAmount \<Rightarrow> (BitcoinAmount \<times> AmountSignal list) option" where
  "fromDisplay COIN text a =
     (if trimmed text = [] then Some (amount_clear a)
      else do {
        newSat \<leftarrow>
          (if m_unit a = SAT then
             let digitsOnly = filter is_digit text
             in Some (if trimmed digitsOnly = [] then 0 else toLongLong digitsOnly)
           else displayToSats COIN (m_unit a) (sanitize (m_unit a) text));
        Some (setSatoshi newSat a)
      })"

definition format_slot :: "BitcoinAmount \<Rightarrow> BitcoinAmount \<times> AmountSignal list" where
  "format_slot a = (a, [displayChanged, displayWithUnitChanged])"

text \<open>The operations QML can invoke on the object, as one step.\<close>

datatype AmountOp =
  SetSatoshi int | Clear | SetUnit Unit | FlipUnit | FromDisplay qstring | FormatSlot

fun amount_step :: "int \<Rightarrow> AmountOp \<Rightarrow> BitcoinAmount \<Rightarrow> (BitcoinAmount \<times> AmountSignal list) option" where
  "amount_step COIN (SetSatoshi n) a = Some (setSatoshi n a)"
| "amount_step COIN Clear a = Some (amount_clear a)"
| "amount_step COIN (SetUnit u) a = Some (setUnit u a)"
| "amount_step COIN FlipUnit a = Some (flipUnit a)"
| "amount_step COIN (FromDisplay s) a = fromDisplay COIN s a"
| "amount_step COIN FormatSlot a = Some (format_slot a)"

section \<open>Units\<close>

lemma UnitDecimals_decimals: "UnitDecimals u = decimals (ToQmlUnit u)"
  by (cases u) simp_all

lemma UnitFactor_power: "COIN = 100000000 \<Longrightarrow> UnitFactor COIN u = 10 ^ UnitDecimals u"
  by (cases u) simp_all

lemma UnitDecimals_0: "UnitDecimals u = 0 \<longleftrightarrow> u = SAT"
  by (cases u) simp_all

section \<open>Sanitising\<close>

text \<open>Every part of the filtered text is a run of digits.\<close>

lemma sanitize_parts_digits:
  "p \<in> set (split_on 46 (filter (\<lambda>c. is_digit c \<or> c = 46) str)) \<Longrightarrow> list_all is_digit p"
  using split_on_parts [of p 46 "filter (\<lambda>c. is_digit c \<or> c = 46) str"]
  by (auto simp: list_all_iff)

lemma split_on_two:
  assumes "length (split_on sep s) = 2"
  shows "s = split_on sep s ! 0 @ sep # split_on sep s ! 1"
  using assms
proof (induction s)
  case (Cons c cs)
  show ?case
  proof (cases "c = sep")
    case True
    with Cons.prems have "count_list cs sep = 0" by (simp add: split_on_length)
    then have "sep \<notin> set cs" by (simp add: count_list_0_iff)
    with True show ?thesis by (simp add: split_on_none)
  next
    case False
    with Cons show ?thesis by (cases "split_on sep cs") auto
  qed
qed simp

text \<open>
  The shape of a sanitised text: digits alone, or digits, one point and digits; the fraction is
  cut to the unit's decimals when the input has a single point.
\<close>

lemma sanitize_shape:
  "\<exists>w f. list_all is_digit w \<and> list_all is_digit f \<and>
     (sanitize u str = w \<or> sanitize u str = w @ 46 # f) \<and>
     (count_list str 46 \<le> 1 \<longrightarrow> length f \<le> UnitDecimals u)"
proof -
  let ?r = "filter (\<lambda>c. is_digit c \<or> c = 46) str"
  let ?p = "split_on 46 ?r"
  have cnt: "length ?p = Suc (count_list str 46)"
    unfolding split_on_length by (induction str) auto
  have dig: "i < length ?p \<Longrightarrow> list_all is_digit (?p ! i)" for i
    by (rule sanitize_parts_digits [where str = str]) simp
  consider "length ?p = 1" | "length ?p = 2" | "length ?p > 2" using cnt by linarith
  then show ?thesis
  proof cases
    case 1
    then have "sanitize u str = ?r" by (simp add: sanitize_def)
    moreover have "46 \<notin> set ?r" using 1 by (simp add: split_on_length count_list_0_iff)
    moreover from this have "list_all is_digit ?r" by (auto simp: list_all_iff)
    ultimately show ?thesis by (intro exI [of _ ?r] exI [of _ "[]"]) simp
  next
    case 2
    let ?f = "take (UnitDecimals u) (?p ! 1)"
    have "list_all is_digit (?p ! 0)" "list_all is_digit (?p ! 1)" using dig 2 by auto
    moreover from this have "list_all is_digit ?f" by (intro list_all_take)
    moreover have "sanitize u str = ?p ! 0 @ 46 # ?f"
      using 2 split_on_two [OF 2, symmetric] by (simp add: sanitize_def Let_def)
    ultimately show ?thesis by (intro exI [of _ "?p ! 0"] exI [of _ ?f]) simp
  next
    case 3
    have "list_all is_digit (?p ! 0)" "list_all is_digit (?p ! 1)" using dig 3 by auto
    with 3 cnt show ?thesis
      by (intro exI [of _ "?p ! 0"] exI [of _ "?p ! 1"]) (auto simp: sanitize_def Let_def)
  qed
qed

lemma sanitize_decimal_id:
  assumes "list_all is_digit w" "list_all is_digit f" "length f \<le> UnitDecimals u"
  shows "sanitize u (w @ 46 # f) = w @ 46 # f"
proof -
  have id: "filter (\<lambda>c. is_digit c \<or> c = 46) (w @ 46 # f) = w @ 46 # f"
    using assms by (auto simp: list_all_iff intro!: filter_True)
  have "split_on 46 (w @ 46 # f) = [w, f]"
    using assms digits_no_sep [of w 46] digits_no_sep [of f 46]
    by (simp add: split_on_append split_on_none)
  with assms(3) show ?thesis by (simp only: sanitize_def id) simp
qed

section \<open>Parsing\<close>

text \<open>
  A sanitised decimal is worth its digits: the whole part times the factor plus the padded
  fraction. A whole part beyond 64 bits is read as 0, one beyond the factor's share saturates.
\<close>

lemma leftJustified_value:
  "dec_value (leftJustified d 48 f) = dec_value f * 10 ^ (d - length f)"
proof -
  have "dec_value (replicate k 48) = 0" for k using dec_value_zeros [of k "[]"] by simp
  then show ?thesis by (simp add: leftJustified_def dec_value_append)
qed

lemma fraction_bound:
  assumes "list_all is_digit f" "length f \<le> UnitDecimals u"
  shows "int (dec_value f * 10 ^ (UnitDecimals u - length f)) < 10 ^ UnitDecimals u"
proof -
  have "dec_value (leftJustified (UnitDecimals u) 48 f) < 10 ^ UnitDecimals u"
    using dec_value_less [of "leftJustified (UnitDecimals u) 48 f"] assms
    by (simp add: leftJustified_def)
  then have "dec_value f * 10 ^ (UnitDecimals u - length f) < 10 ^ UnitDecimals u"
    by (simp add: leftJustified_value)
  then have "int (dec_value f * 10 ^ (UnitDecimals u - length f)) < int (10 ^ UnitDecimals u)"
    by (simp only: of_nat_less_iff)
  then show ?thesis by simp
qed

lemma power_decimals_le: "(10::int) ^ UnitDecimals u \<le> i64_max"
  by (cases u) (simp_all add: i64_max_def)

lemma displayToSats_eq:
  assumes "COIN = 100000000" "list_all is_digit w" "w \<noteq> []" "list_all is_digit f"
    "length f \<le> UnitDecimals u" "u \<noteq> SAT"
  shows "displayToSats COIN u (w @ 46 # f) =
     (let whole = (if int (dec_value w) \<le> i64_max then int (dec_value w) else 0)
      in if whole > i64_max div 10 ^ UnitDecimals u then Some i64_max
         else chk64 (whole * 10 ^ UnitDecimals u +
                     int (dec_value f * 10 ^ (UnitDecimals u - length f))))"
proof -
  have just: "leftJustified (UnitDecimals u) 48 f \<noteq> []"
    using assms(5,6) by (auto simp: leftJustified_def simp flip: UnitDecimals_0)
  have fmax: "int (dec_value f * 10 ^ (UnitDecimals u - length f)) \<le> i64_max"
    using fraction_bound [OF assms(4,5)] power_decimals_le [of u] by linarith
  obtain c cs where w: "w = c # cs" using assms(3) by (cases w) auto
  then have c: "c \<noteq> 46" using assms(2) by auto
  have sp: "split_on 46 (w @ 46 # f) = [w, f]"
    using assms digits_no_sep [of w 46] digits_no_sep [of f 46]
    by (simp add: split_on_append split_on_none)
  have hd: "hd (w @ 46 # f) \<noteq> 46" "w @ 46 # f \<noteq> []" "w @ 46 # f \<noteq> q ''.''"
    using w c by auto
  have fr: "toLongLong (leftJustified (UnitDecimals u) 48 f) =
      int (dec_value f * 10 ^ (UnitDecimals u - length f))"
    using fmax by (simp add: toLongLong_digits [OF leftJustified_digits [OF assms(4)] just]
        leftJustified_value)
  show ?thesis
    unfolding displayToSats_def using hd
    by (simp only: if_False sp Let_def UnitFactor_power [OF assms(1)])
      (simp add: assms(3) fr toLongLong_digits [OF assms(2,3)])
qed

lemma displayToSats_decimal:
  assumes "COIN = 100000000" "list_all is_digit w" "w \<noteq> []" "list_all is_digit f"
    "length f = UnitDecimals u" "u \<noteq> SAT"
    "int (dec_value w) \<le> i64_max div 10 ^ UnitDecimals u"
  shows "displayToSats COIN u (w @ 46 # f) =
     chk64 (int (dec_value w) * 10 ^ UnitDecimals u + int (dec_value f))"
proof -
  have "i64_max div 10 ^ UnitDecimals u \<le> i64_max" by (cases u) (simp_all add: i64_max_def)
  with assms(7) have "int (dec_value w) \<le> i64_max" by linarith
  with assms show ?thesis by (simp add: displayToSats_eq Let_def)
qed

section \<open>Properties\<close>

text \<open>The fraction a unit prints has exactly the unit's decimals and is worth the remainder.\<close>

lemma printed_fraction:
  "length (rightJustified (decimals u) 48 (number_nat (k mod 10 ^ decimals u))) = decimals u"
  if "decimals u \<noteq> 0"
  using that by (intro rightJustified_number_length) simp_all

lemma quotient_bound:
  "in_i64 n \<Longrightarrow> n \<noteq> i64_min \<Longrightarrow> int (nat \<bar>n\<bar> div 10 ^ d) \<le> i64_max div 10 ^ d"
proof -
  assume "in_i64 n" "n \<noteq> i64_min"
  then have "\<bar>n\<bar> \<le> i64_max" by (auto simp: i64_defs)
  then show ?thesis by (simp add: zdiv_int zdiv_mono1)
qed

lemma toDisplay_filtered:
  assumes "in_i64 n" "n \<noteq> i64_min"
  shows "format QSAT n False NEVER = Some s \<Longrightarrow> filter is_digit s = number_nat (nat \<bar>n\<bar>)"
proof -
  assume "format QSAT n False NEVER = Some s"
  then have "s = (if n < 0 then [45] else []) @ number_nat (nat \<bar>n\<bar>)"
    using assms by (simp add: format_eq group_quotient_def split: if_splits)
  then show ?thesis using number_nat_digits [of "nat \<bar>n\<bar>"]
    by (auto simp: list_all_iff intro!: filter_True)
qed

lemma toDisplay_sanitized:
  assumes "in_i64 n" "n \<noteq> i64_min" "u \<noteq> SAT" "format (ToQmlUnit u) n False NEVER = Some s"
  shows "sanitize u s = number_nat (nat \<bar>n\<bar> div 10 ^ UnitDecimals u) @ 46 #
     rightJustified (UnitDecimals u) 48 (number_nat (nat \<bar>n\<bar> mod 10 ^ UnitDecimals u))"
    (is "_ = ?w @ 46 # ?f")
proof -
  have d: "decimals (ToQmlUnit u) \<noteq> 0"
    using assms(3) by (simp add: UnitDecimals_0 flip: UnitDecimals_decimals)
  have s: "s = (if n < 0 then [45] else []) @ ?w @ 46 # ?f"
    using assms d by (auto simp: format_eq group_quotient_def UnitDecimals_decimals)
  have "sanitize u s = sanitize u (?w @ 46 # ?f)" by (simp add: s sanitize_def)
  also have "\<dots> = ?w @ 46 # ?f"
    using printed_fraction [OF d] by (intro sanitize_decimal_id) (simp_all add: UnitDecimals_decimals)
  finally show ?thesis .
qed

lemma trimmed_not_Nil: "c \<in> set s \<Longrightarrow> \<not> isSpace c \<Longrightarrow> trimmed s \<noteq> []"
proof
  assume c: "c \<in> set s" "\<not> isSpace c" and "trimmed s = []"
  then have "\<forall>x \<in> set (dropWhile isSpace s). isSpace x" by (simp add: trimmed_def)
  with c show False
    by (metis Un_iff set_append set_takeWhileD takeWhile_dropWhile_id)
qed

lemma displayed_not_blank:
  assumes "in_i64 n" "n \<noteq> i64_min" "format u n False NEVER = Some s"
  shows "trimmed s \<noteq> []"
proof -
  let ?d = "number_nat (nat \<bar>n\<bar> div 10 ^ decimals u)"
  have "set ?d \<subseteq> set s" using assms by (auto simp: format_eq group_quotient_def)
  moreover have "hd ?d \<in> set ?d" by simp
  moreover have "is_digit (hd ?d)" using number_nat_digits [of "nat \<bar>n\<bar> div 10 ^ decimals u"]
    by (simp add: list_all_iff)
  ultimately show ?thesis by (intro trimmed_not_Nil [of "hd ?d"] digit_not_space) auto
qed

text \<open>
  C36: displaying an amount and reading the text back restores its magnitude, in every unit and for
  every 64-bit amount but the smallest: \<open>toDisplay\<close> gives a text, and \<open>fromDisplay\<close> of it leaves
  a set amount of \<open>\<bar>n\<bar>\<close> satoshi in the same unit. A non-negative amount is restored exactly.
\<close>

theorem display_roundtrip:
  assumes coin: "COIN = 100000000" and a: "m_isSet a" "in_i64 (m_satoshi a)" "m_satoshi a \<noteq> i64_min"
  shows "\<exists>s sigs. toDisplay a = Some s \<and>
     fromDisplay COIN s a = Some (a\<lparr>m_satoshi := \<bar>m_satoshi a\<bar>\<rparr>, sigs)"
proof -
  let ?n = "m_satoshi a" and ?u = "m_unit a"
  obtain s where s: "format (ToQmlUnit ?u) ?n False NEVER = Some s"
    using a by (simp add: format_eq)
  have blank: "trimmed s \<noteq> []" using displayed_not_blank a s by blast
  have abs: "in_i64 \<bar>?n\<bar>" using a by (auto simp: i64_defs)
  have parse: "(if ?u = SAT then
             let digitsOnly = filter is_digit s
             in Some (if trimmed digitsOnly = [] then 0 else toLongLong digitsOnly)
           else displayToSats COIN ?u (sanitize ?u s)) = Some \<bar>?n\<bar>"
  proof (cases "?u = SAT")
    case True
    then have "filter is_digit s = number_nat (nat \<bar>?n\<bar>)" using toDisplay_filtered a s by simp
    with True abs show ?thesis by (simp add: in_i64_def)
  next
    case False
    let ?d = "UnitDecimals ?u"
    have len: "length (rightJustified ?d 48 (number_nat (nat \<bar>?n\<bar> mod 10 ^ ?d))) = ?d"
      using False printed_fraction [of "ToQmlUnit ?u"]
      by (simp add: UnitDecimals_0 flip: UnitDecimals_decimals)
    have "displayToSats COIN ?u (sanitize ?u s) =
        chk64 (int (nat \<bar>?n\<bar> div 10 ^ ?d) * 10 ^ ?d + int (nat \<bar>?n\<bar> mod 10 ^ ?d))"
      using displayToSats_decimal [OF coin, of _ _ ?u] len False quotient_bound [of ?n ?d] a
      by (simp add: toDisplay_sanitized [OF a(2,3) False s])
    also have "int (nat \<bar>?n\<bar> div 10 ^ ?d) * 10 ^ ?d + int (nat \<bar>?n\<bar> mod 10 ^ ?d) = \<bar>?n\<bar>"
      by (simp only: zdiv_int zmod_int of_nat_power) (simp add: div_mult_mod_eq)
    finally show ?thesis using False abs by simp
  qed
  have "fromDisplay COIN s a = Some (setSatoshi \<bar>?n\<bar> a)"
    unfolding fromDisplay_def using blank by (simp only: if_False parse bind.bind_lunit)
  moreover have "fst (setSatoshi \<bar>?n\<bar> a) = a\<lparr>m_satoshi := \<bar>?n\<bar>\<rparr>"
    using a(1) by (auto simp: setSatoshi_def Let_def)
  ultimately show ?thesis using s a(1) by (metis toDisplay_def prod.collapse)
qed

theorem display_roundtrip_witness:
  "let a = \<lparr>m_satoshi = 123456789, m_isSet = True, m_unit = MilliBTC\<rparr>
   in \<exists>s sigs. toDisplay a = Some s \<and> fromDisplay 100000000 s a = Some (a, sigs)"
  using display_roundtrip [of 100000000 "\<lparr>m_satoshi = 123456789, m_isSet = True, m_unit = MilliBTC\<rparr>"]
  by (simp add: i64_defs)

text \<open>
  what the user types into an amount field becomes a plain decimal: whatever the text, the
  sanitised text is digits with at most one point, and when the text has at most one point its
  fraction has at most the unit's decimals.
\<close>

theorem sanitize_wellformed:
  "set (sanitize u str) \<subseteq> {48..57} \<union> {46} \<and> count_list (sanitize u str) 46 \<le> 1 \<and>
   (count_list str 46 \<le> 1 \<longrightarrow> length (concat (tl (split_on 46 (sanitize u str)))) \<le> UnitDecimals u)"
proof -
  obtain w f where w: "list_all is_digit w" and f: "list_all is_digit f"
    and eq: "sanitize u str = w \<or> sanitize u str = w @ 46 # f"
    and len: "count_list str 46 \<le> 1 \<longrightarrow> length f \<le> UnitDecimals u"
    using sanitize_shape [of u str] by blast
  have n: "46 \<notin> set w" "46 \<notin> set f" using w f by (auto simp: list_all_iff)
  from eq show ?thesis
  proof
    assume "sanitize u str = w"
    with w n show ?thesis by (auto simp: list_all_iff split_on_none)
  next
    assume "sanitize u str = w @ 46 # f"
    with w f n len show ?thesis
      by (auto simp: list_all_iff split_on_append split_on_none)
  qed
qed

theorem sanitize_wellformed_witness:
  "length (concat (tl (split_on 46 (sanitize MicroBTC (q ''1,2.345''))))) \<le> 2"
  using sanitize_wellformed [of MicroBTC "q ''1,2.345''"] by simp

text \<open>
  the fraction is not limited when the text has a second point, because the parts counted are
  those of the text before the points were reduced to one: typing \<open>1.123456789.5\<close> in a BTC field
  keeps nine decimals, sanitising again would cut them, and the nine digits are read as a count of
  satoshi, so the field holds 2.23456789 BTC instead of 1.12345678 BTC.
\<close>

theorem sanitize_second_point:
  "sanitize BTC (q ''1.123456789.5'') = q ''1.123456789'' \<and>
   sanitize BTC (sanitize BTC (q ''1.123456789.5'')) = q ''1.12345678'' \<and>
   map_option (m_satoshi \<circ> fst) (fromDisplay 100000000 (q ''1.123456789.5'') new_BitcoinAmount)
     = Some 223456789"
  by code_simp

text \<open>
  reading an amount with at most the unit's decimals: the value is exact whenever the whole
  part is below the largest whole amount that 64 bits hold; above it the result saturates, at the
  largest one itself the sum overflows exactly when the fraction exceeds the room that is left, and
  a whole part that is itself not a 64-bit number counts as 0.
\<close>

theorem displayToSats_exact:
  assumes "COIN = 100000000" "list_all is_digit w" "w \<noteq> []" "list_all is_digit f"
    "length f \<le> UnitDecimals u" "u \<noteq> SAT"
  defines "fac \<equiv> 10 ^ UnitDecimals u"
    and "frac \<equiv> int (dec_value f * 10 ^ (UnitDecimals u - length f))"
  shows "displayToSats COIN u (w @ 46 # f) =
     (if int (dec_value w) > i64_max then Some frac
      else if int (dec_value w) > i64_max div fac then Some i64_max
      else if int (dec_value w) = i64_max div fac \<and> frac > i64_max mod fac then None
      else Some (int (dec_value w) * fac + frac))"
proof -
  let ?w = "int (dec_value w)"
  have frac: "0 \<le> frac" "frac < fac" using fraction_bound [OF assms(4,5)] by (simp_all add: frac_def fac_def)
  have fac: "0 < fac" by (simp add: fac_def)
  have max: "i64_max = i64_max div fac * fac + i64_max mod fac" by (simp add: div_mult_mod_eq)
  have small: "?w * fac + frac \<le> i64_max" if "?w < i64_max div fac"
  proof -
    have "(?w + 1) * fac \<le> i64_max div fac * fac" using that fac by (intro mult_right_mono) auto
    moreover have "0 \<le> i64_max mod fac" using fac by simp
    moreover have "(?w + 1) * fac = ?w * fac + fac" by (simp add: algebra_simps)
    ultimately show ?thesis using max frac(2) by linarith
  qed
  have range: "in_i64 x \<longleftrightarrow> x \<le> i64_max" if "0 \<le> x" for x using that by (auto simp: i64_defs)
  have pos: "0 \<le> ?w * fac + frac" using frac fac by simp
  have q: "0 \<le> i64_max div fac" using fac by (simp add: pos_imp_zdiv_nonneg_iff i64_max_def)
  consider "?w < i64_max div fac" | "?w = i64_max div fac" | "?w > i64_max div fac" by linarith
  then have "(if ?w > i64_max div fac then Some i64_max else chk64 (?w * fac + frac)) =
      (if ?w > i64_max div fac then Some i64_max
       else if ?w = i64_max div fac \<and> frac > i64_max mod fac then None
       else Some (?w * fac + frac))"
  proof cases
    case 1
    then show ?thesis using small [OF 1] range [OF pos] by simp
  next
    case 2
    then have "?w * fac = i64_max div fac * fac" by simp
    then have "?w * fac = i64_max - i64_max mod fac" using max by linarith
    then have "in_i64 (?w * fac + frac) \<longleftrightarrow> frac \<le> i64_max mod fac"
      using range [OF pos] by linarith
    with 2 show ?thesis by (auto simp: chk64_def)
  qed simp
  note core = this
  have "in_i64 frac" using frac power_decimals_le [of u] by (simp add: range fac_def)
  note eq = displayToSats_eq [OF assms(1-6), folded fac_def frac_def]
  show ?thesis
  proof (cases "?w > i64_max")
    case True
    then show ?thesis using eq q \<open>in_i64 frac\<close> by simp
  next
    case False
    then have "displayToSats COIN u (w @ 46 # f) =
        (if ?w > i64_max div fac then Some i64_max else chk64 (?w * fac + frac))"
      by (simp add: eq not_less)
    with False core show ?thesis by (simp only: if_False)
  qed
qed

theorem displayToSats_exact_witness:
  "displayToSats 100000000 BTC (q ''92233720368'' @ 46 # q ''99999999'') = None"
  using displayToSats_exact [of 100000000 "q ''92233720368''" "q ''99999999''" BTC]
  by (simp add: i64_max_def dec_value_def)

text \<open>
  The five bound properties of the object with their \<open>NOTIFY\<close> signals, as declared in the header.
\<close>

lemmas amount_op_defs = setSatoshi_def amount_clear_def setUnit_def flipUnit_def fromDisplay_def
  format_slot_def

lemma setSatoshi_cases:
  "setSatoshi n a = (a', sigs) \<Longrightarrow>
     (a' = a \<and> m_satoshi a = n \<and> m_isSet a \<and> sigs = []) \<or>
     (a' = a\<lparr>m_isSet := True, m_satoshi := n\<rparr> \<and>
      {amountChanged, displayChanged, displayWithUnitChanged} \<subseteq> set sigs \<and>
      (m_unit a = SAT \<and> (\<bar>m_satoshi a\<bar> = 1) \<noteq> (\<bar>n\<bar> = 1) \<longrightarrow> unitChanged \<in> set sigs))"
  by (auto simp: setSatoshi_def Let_def split: if_splits)

text \<open>
  Every step leaves the object alone, or changes the unit and says so, or changes the amount or
  its presence and says so.
\<close>

lemma amount_step_cases:
  assumes "amount_step COIN op a = Some (a', sigs)"
  shows "a' = a
    \<or> (m_satoshi a' = m_satoshi a \<and> m_isSet a' = m_isSet a \<and>
       {unitChanged, displayChanged, displayWithUnitChanged} \<subseteq> set sigs)
    \<or> (m_unit a' = m_unit a \<and> {amountChanged, displayChanged, displayWithUnitChanged} \<subseteq> set sigs)"
proof (cases op)
  case (SetSatoshi n)
  with assms show ?thesis using setSatoshi_cases [of n a a' sigs] by auto
next
  case (FromDisplay s)
  show ?thesis
  proof (cases "trimmed s = []")
    case True
    with FromDisplay assms show ?thesis
      by (auto simp: fromDisplay_def amount_clear_def Let_def split: if_splits)
  next
    case False
    with FromDisplay assms obtain n where "setSatoshi n a = (a', sigs)"
      by (auto simp: fromDisplay_def Let_def bind_eq_Some_conv split: if_splits)
    then show ?thesis using setSatoshi_cases [of n a a' sigs] by auto
  qed
qed (use assms in \<open>auto simp: amount_op_defs Let_def split: if_splits\<close>)

interpretation satoshi_property: notifying "amount_step COIN" m_satoshi amountChanged
  by unfold_locales (drule amount_step_cases, auto)

interpretation unit_property: notifying "amount_step COIN" m_unit unitChanged
  by unfold_locales (drule amount_step_cases, auto)

interpretation display_property: notifying "amount_step COIN" toDisplay displayChanged
  by unfold_locales (drule amount_step_cases, auto)

interpretation displayWithUnit_property:
  notifying "amount_step COIN" displayWithUnit displayWithUnitChanged
  by unfold_locales (drule amount_step_cases, auto)

interpretation unitLabel_property: notifying "amount_step COIN" unitLabel displayWithUnitChanged
  by unfold_locales (drule amount_step_cases, auto)

text \<open>
  a QML binding on the satoshi value, the unit, the display text, the labelled display text or
  the unit label of an amount is never stale: after any sequence of operations on the object, a
  binding that re-reads its property exactly when the \<open>NOTIFY\<close> signal declared for it is emitted
  shows the current value.
\<close>

theorem amount_bindings_coherent:
  "binding_run (amount_step COIN) m_satoshi amountChanged ops (a, m_satoshi a) = Some (a1, v1) \<Longrightarrow>
   binding_run (amount_step COIN) m_unit unitChanged ops (a, m_unit a) = Some (a2, v2) \<Longrightarrow>
   binding_run (amount_step COIN) toDisplay displayChanged ops (a, toDisplay a) = Some (a3, v3) \<Longrightarrow>
   binding_run (amount_step COIN) displayWithUnit displayWithUnitChanged ops
     (a, displayWithUnit a) = Some (a4, v4) \<Longrightarrow>
   binding_run (amount_step COIN) unitLabel displayWithUnitChanged ops
     (a, unitLabel a) = Some (a5, v5) \<Longrightarrow>
   v1 = m_satoshi a1 \<and> v2 = m_unit a2 \<and> v3 = toDisplay a3 \<and> v4 = displayWithUnit a4 \<and>
   v5 = unitLabel a5"
  by (intro conjI satoshi_property.binding_coherent unit_property.binding_coherent
      display_property.binding_coherent displayWithUnit_property.binding_coherent
      unitLabel_property.binding_coherent)

theorem amount_bindings_coherent_witness:
  "let ops = [SetSatoshi 1, FlipUnit, SetSatoshi 7];
       run = binding_run (amount_step 100000000) unitLabel displayWithUnitChanged ops
               (new_BitcoinAmount, unitLabel new_BitcoinAmount)
   in run = Some (\<lparr>m_satoshi = 7, m_isSet = True, m_unit = SAT\<rparr>, q ''sats'')"
  using amount_bindings_coherent [of 100000000 "[SetSatoshi 1, FlipUnit, SetSatoshi 7]" new_BitcoinAmount]
  by (simp add: new_BitcoinAmount_def setSatoshi_def flipUnit_def unitLabel_def label_for_def Let_def)

end
