(* ===== verification/Address.thy ===== *)
theory Address
  imports Prelude
begin

text \<open>
  \<open>src/qml/models/bitcoinaddress.{h,cpp}\<close>: the address behind the recipient field. Typing
  filters the text to address characters, caps it at 90, formats it in groups of four and maps the
  text cursor into the formatted text. Each loop of the source is a recursive function.
\<close>

section \<open>Definitions\<close>

record BitcoinAddress =
  m_address :: qstring
  m_formattedAddress :: qstring

datatype AddressSignal = addressChanged | formattedAddressChanged | ellipsesAddressChanged

definition MAX_BITCOIN_ADDRESS_LENGTH :: nat where
  "MAX_BITCOIN_ADDRESS_LENGTH = 90"

definition IsBitcoinAddressChar :: "qchar \<Rightarrow> bool" where
  "IsBitcoinAddressChar ch \<longleftrightarrow>
     (ch \<ge> 48 \<and> ch \<le> 57) \<or> (ch \<ge> 97 \<and> ch \<le> 122) \<or>
     (ch \<ge> 65 \<and> ch \<le> 90 \<and> ch \<noteq> 73 \<and> ch \<noteq> 79)"

text \<open>The static \<open>formattedAddress(address)\<close>: a blank before every index divisible by four but 0.\<close>

fun format_loop :: "nat \<Rightarrow> qstring \<Rightarrow> qstring \<Rightarrow> qstring" where
  "format_loop i fmt [] = fmt"
| "format_loop i fmt (c # cs) =
     format_loop (Suc i) ((if i > 0 \<and> i mod 4 = 0 then fmt @ [32] else fmt) @ [c]) cs"

definition formattedAddress :: "qstring \<Rightarrow> qstring" where
  "formattedAddress address = format_loop 0 [] address"

definition ellipsesAddress :: "qstring \<Rightarrow> qstring" where
  "ellipsesAddress address =
     (if length address > 8 then
        let left = take 4 address @ q '' '' @ take 4 (drop 4 address);
            right = take 4 (drop (length address - 8) address) @ q '' '' @
                    drop (length address - 4) address
        in left @ q '' ... '' @ right
      else address)"

text \<open>Step 1: the valid characters among the first \<open>lenIn\<close>.\<close>

fun count_valid :: "nat \<Rightarrow> qstring \<Rightarrow> nat" where
  "count_valid n [] = 0"
| "count_valid n (c # cs) =
     (if n = 0 then 0 else (if IsBitcoinAddressChar c then 1 else 0) + count_valid (n - 1) cs)"

text \<open>Step 2: filter, leaving the loop once 90 characters are collected.\<close>

fun raw_loop :: "qstring \<Rightarrow> qstring \<Rightarrow> qstring" where
  "raw_loop raw [] = raw"
| "raw_loop raw (c # cs) =
     (if IsBitcoinAddressChar c then
        let raw = raw @ [c]
        in if length raw \<ge> MAX_BITCOIN_ADDRESS_LENGTH then raw else raw_loop raw cs
      else raw_loop raw cs)"

text \<open>Step 4: walk the formatted text until \<open>posInClean\<close> characters other than blanks are passed.\<close>

fun cursor_loop :: "nat \<Rightarrow> nat \<Rightarrow> qstring \<Rightarrow> nat" where
  "cursor_loop posInClean seen [] = 0"
| "cursor_loop posInClean seen (c # cs) =
     (if seen < posInClean
      then Suc (cursor_loop posInClean (if c \<noteq> 32 then Suc seen else seen) cs)
      else 0)"

definition setAddress ::
  "qstring \<Rightarrow> int \<Rightarrow> BitcoinAddress \<Rightarrow> nat \<times> BitcoinAddress \<times> AddressSignal list" where
  "setAddress input cursorPosition a =
     (let lenIn = nat (min (max cursorPosition 0) (int (length input)));
          posInClean = count_valid lenIn input;
          raw = raw_loop [] input;
          fmt = formattedAddress raw;
          newCursor = cursor_loop posInClean 0 fmt
      in if raw = m_address a \<and> fmt = m_formattedAddress a
         then (newCursor, a, if input \<noteq> fmt then [formattedAddressChanged] else [])
         else (newCursor, a\<lparr>m_address := raw, m_formattedAddress := fmt\<rparr>,
               [addressChanged, formattedAddressChanged, ellipsesAddressChanged]))"

text \<open>The constructor sets the given text on empty members, cursor 0.\<close>

definition new_BitcoinAddress :: "qstring \<Rightarrow> BitcoinAddress" where
  "new_BitcoinAddress address =
     fst (snd (setAddress address 0 \<lparr>m_address = [], m_formattedAddress = []\<rparr>))"

definition address_isEmpty :: "BitcoinAddress \<Rightarrow> bool" where
  "address_isEmpty a \<longleftrightarrow> m_address a = []"

section \<open>The loops\<close>

lemma valid_not_blank: "IsBitcoinAddressChar c \<Longrightarrow> c \<noteq> 32"
  by (auto simp: IsBitcoinAddressChar_def)

text \<open>The capped filter is the first ninety characters of the filtered text.\<close>

lemma raw_loop_take:
  "length raw < MAX_BITCOIN_ADDRESS_LENGTH \<Longrightarrow>
   raw_loop raw cs = take MAX_BITCOIN_ADDRESS_LENGTH (raw @ filter IsBitcoinAddressChar cs)"
proof (induction cs arbitrary: raw)
  case (Cons c cs)
  show ?case
  proof (cases "IsBitcoinAddressChar c \<and> Suc (length raw) \<ge> MAX_BITCOIN_ADDRESS_LENGTH")
    case True
    with Cons.prems have "MAX_BITCOIN_ADDRESS_LENGTH = Suc (length raw)" by simp
    then have "MAX_BITCOIN_ADDRESS_LENGTH - length raw = 1" by simp
    with True Cons.prems show ?thesis by simp
  next
    case False
    then show ?thesis using Cons.prems Cons.IH [of "raw @ [c]"] Cons.IH [of raw]
      by (cases "IsBitcoinAddressChar c") (simp_all del: take_append)
  qed
qed simp

lemma raw_eq: "raw_loop [] s = take 90 (filter IsBitcoinAddressChar s)"
  by (simp add: raw_loop_take MAX_BITCOIN_ADDRESS_LENGTH_def)

lemma count_valid_filter: "count_valid n s = length (filter IsBitcoinAddressChar (take n s))"
proof (induction n s rule: count_valid.induct)
  case (2 n c cs)
  then show ?case by (cases n) simp_all
qed simp

text \<open>The formatting loop without its accumulator.\<close>

fun blanks :: "nat \<Rightarrow> qstring \<Rightarrow> qstring" where
  "blanks i [] = []"
| "blanks i (c # cs) = (if i > 0 \<and> i mod 4 = 0 then [32, c] else [c]) @ blanks (Suc i) cs"

lemma format_loop_blanks: "format_loop i fmt cs = fmt @ blanks i cs"
  by (induction cs arbitrary: i fmt) auto

lemma blanks_filter:
  "list_all IsBitcoinAddressChar cs \<Longrightarrow> filter (\<lambda>c. c \<noteq> 32) (blanks i cs) = cs"
  by (induction cs arbitrary: i) (auto dest: valid_not_blank)

lemma blanks_filter_valid:
  "list_all IsBitcoinAddressChar cs \<Longrightarrow> filter IsBitcoinAddressChar (blanks i cs) = cs"
  by (induction cs arbitrary: i) (auto simp: IsBitcoinAddressChar_def)

lemma formattedAddress_blanks: "formattedAddress s = blanks 0 s"
  by (simp add: formattedAddress_def format_loop_blanks)

text \<open>
  The reference: groups of four, joined by a blank.
\<close>

fun groups4 :: "qstring \<Rightarrow> qstring list" where
  "groups4 (a # b # c # d # rest) = [a, b, c, d] # groups4 rest"
| "groups4 [] = []"
| "groups4 s = [s]"

lemma mod4_steps:
  "i mod 4 = 0 \<Longrightarrow> Suc i mod 4 = 1"
  "i mod 4 = 0 \<Longrightarrow> Suc (Suc i) mod 4 = 2"
  "i mod 4 = 0 \<Longrightarrow> (3 + i) mod 4 = 3"
  "i mod 4 = 0 \<Longrightarrow> Suc (Suc (Suc (Suc i))) mod 4 = 0" for i :: nat
  by presburger+

lemma blanks_shift: "i > 0 \<Longrightarrow> i mod 4 = 0 \<Longrightarrow>
  blanks i s = concat (map (\<lambda>g. 32 # g) (groups4 s))"
  by (induction s arbitrary: i rule: groups4.induct) (simp_all add: mod4_steps)

lemma formattedAddress_groups:
  "formattedAddress s = (case groups4 s of [] \<Rightarrow> [] | g # gs \<Rightarrow> g @ concat (map (\<lambda>g. 32 # g) gs))"
  by (cases s rule: groups4.cases) (simp_all add: formattedAddress_blanks blanks_shift)

text \<open>The cursor loop stops after the wanted number of characters, or at the end.\<close>

lemma cursor_loop_le: "cursor_loop p seen fmt \<le> length fmt"
  by (induction p seen fmt rule: cursor_loop.induct) auto

lemma cursor_loop_count:
  "seen + length (filter (\<lambda>c. c \<noteq> 32) (take (cursor_loop p seen fmt) fmt)) =
     max seen (min p (seen + length (filter (\<lambda>c. c \<noteq> 32) fmt)))"
proof (induction p seen fmt rule: cursor_loop.induct)
  case (2 p seen c cs)
  then show ?case by (cases "seen < p") auto
qed auto

section \<open>Invariant\<close>

definition address_ok :: "BitcoinAddress \<Rightarrow> bool" where
  "address_ok a \<longleftrightarrow>
     list_all IsBitcoinAddressChar (m_address a) \<and> length (m_address a) \<le> 90 \<and>
     m_formattedAddress a = formattedAddress (m_address a)"

lemma raw_valid: "list_all IsBitcoinAddressChar (take n (filter IsBitcoinAddressChar s))"
  by (rule list_all_take) (simp add: list_all_iff)

lemma setAddress_state:
  "fst (snd (setAddress input cur a)) =
     a\<lparr>m_address := raw_loop [] input, m_formattedAddress := formattedAddress (raw_loop [] input)\<rparr>"
  by (cases a) (auto simp: setAddress_def Let_def)

lemma setAddress_ok: "address_ok (fst (snd (setAddress input cur a)))"
  by (simp add: setAddress_state address_ok_def raw_eq raw_valid)

lemma new_BitcoinAddress_ok: "address_ok (new_BitcoinAddress s)"
  by (simp add: new_BitcoinAddress_def setAddress_ok)

lemma raw_loop_formatted:
  assumes "list_all IsBitcoinAddressChar s" "length s \<le> 90"
  shows "raw_loop [] (formattedAddress s) = s"
  using assms by (simp add: raw_eq formattedAddress_blanks blanks_filter_valid)

section \<open>Properties\<close>

text \<open>
  whatever is typed or pasted, the stored address is the first ninety address characters of
  the text and the formatted address is those characters in groups of four separated by single
  blanks, from which deleting the blanks gives the address back; feeding the formatted text back
  stores the same two values and emits nothing.
\<close>

theorem setAddress_correct:
  assumes "setAddress input cur a = (newCursor, a', sigs)"
  shows "m_address a' = take 90 (filter IsBitcoinAddressChar input) \<and>
     m_formattedAddress a' = (case groups4 (m_address a') of
        [] \<Rightarrow> [] | g # gs \<Rightarrow> g @ concat (map (\<lambda>g. 32 # g) gs)) \<and>
     filter (\<lambda>c. c \<noteq> 32) (m_formattedAddress a') = m_address a' \<and>
     snd (setAddress (m_formattedAddress a') cur' a') = (a', [])"
proof -
  have a': "a' = fst (snd (setAddress input cur a))" using assms by simp
  have ok: "address_ok a'" unfolding a' by (rule setAddress_ok)
  then have "raw_loop [] (m_formattedAddress a') = m_address a'"
    by (simp add: address_ok_def raw_loop_formatted)
  then have "snd (setAddress (m_formattedAddress a') cur' a') = (a', [])"
    using ok by (simp add: setAddress_def Let_def address_ok_def)
  moreover have "m_address a' = take 90 (filter IsBitcoinAddressChar input)"
    by (simp add: a' setAddress_state raw_eq)
  ultimately show ?thesis using ok
    by (simp add: address_ok_def formattedAddress_groups [symmetric] formattedAddress_blanks blanks_filter)
qed

theorem setAddress_correct_witness:
  "let a = new_BitcoinAddress [];
       a' = fst (snd (setAddress (q ''bc1-qxyz Ow'') 3 a))
   in m_formattedAddress a' = q ''bc1q xyzw'' \<and> m_address a' = q ''bc1qxyzw'' \<and>
      snd (setAddress (m_formattedAddress a') 0 a') = (a', [])"
  using setAddress_correct [of "q ''bc1-qxyz Ow''" 3 "new_BitcoinAddress []" _ _ _ 0]
  by (simp add: setAddress_state new_BitcoinAddress_def formattedAddress_def
      MAX_BITCOIN_ADDRESS_LENGTH_def IsBitcoinAddressChar_def setAddress_def Let_def)

text \<open>
  the text cursor keeps its logical place: the returned position lies inside the formatted
  text, and the number of address characters left of it is the number of address characters that
  were left of the old cursor, or all ninety kept ones if that is fewer.
\<close>

theorem setAddress_cursor:
  assumes "0 \<le> cur" "cur \<le> int (length input)" "setAddress input cur a = (newCursor, a', sigs)"
  shows "newCursor \<le> length (m_formattedAddress a') \<and>
     length (filter (\<lambda>c. c \<noteq> 32) (take newCursor (m_formattedAddress a'))) =
       min (length (filter IsBitcoinAddressChar (take (nat cur) input))) (length (m_address a'))"
proof -
  have a': "a' = fst (snd (setAddress input cur a))" using assms by simp
  have ok: "address_ok a'" unfolding a' by (rule setAddress_ok)
  have "nat (min (max cur 0) (int (length input))) = nat cur" using assms by simp
  then have cur: "newCursor =
      cursor_loop (length (filter IsBitcoinAddressChar (take (nat cur) input))) 0 (m_formattedAddress a')"
    using assms by (auto simp: setAddress_def Let_def count_valid_filter split: if_splits)
  have "length (filter (\<lambda>c. c \<noteq> 32) (m_formattedAddress a')) = length (m_address a')"
    using ok by (simp add: address_ok_def formattedAddress_blanks blanks_filter)
  then show ?thesis using cursor_loop_count [of 0 _ "m_formattedAddress a'"]
    by (simp add: cur cursor_loop_le)
qed

theorem setAddress_cursor_witness:
  "let r = setAddress (q ''bc1qa'') 5 (new_BitcoinAddress [])
   in fst r \<le> length (m_formattedAddress (fst (snd r)))"
  using setAddress_cursor [of 5 "q ''bc1qa''" "new_BitcoinAddress []"]
  by (cases "setAddress (q ''bc1qa'') 5 (new_BitcoinAddress [])") simp

text \<open>The bound properties of the object.\<close>

definition address_step ::
  "qstring \<times> int \<Rightarrow> BitcoinAddress \<Rightarrow> (BitcoinAddress \<times> AddressSignal list) option" where
  "address_step op a = Some (snd (setAddress (fst op) (snd op) a))"

lemma address_step_cases:
  "address_step op a = Some (a', sigs) \<Longrightarrow>
     a' = a \<or> {addressChanged, formattedAddressChanged, ellipsesAddressChanged} \<subseteq> set sigs"
  by (auto simp: address_step_def setAddress_def Let_def split: if_splits)

interpretation address_property: notifying address_step m_address addressChanged
  by unfold_locales (drule address_step_cases, auto)

interpretation formattedAddress_property:
  notifying address_step m_formattedAddress formattedAddressChanged
  by unfold_locales (drule address_step_cases, auto)

interpretation ellipsesAddress_property:
  notifying address_step "\<lambda>a. ellipsesAddress (m_address a)" ellipsesAddressChanged
  by unfold_locales (drule address_step_cases, auto)

end
