(* ===== verification/Recipient.thy ===== *)
theory Recipient
  imports Amount Address
begin

text \<open>
  \<open>src/qml/models/sendrecipient.{h,cpp}\<close>: one recipient of a payment, made of an address object,
  an amount object and texts. The constructor connects slots to the signals of the two objects;
  every change of them therefore runs the validation, in the order the signals are emitted.

  Bitcoin Core's address and policy functions are parameters (the record \<open>core\<close>), and so is the
  wallet, of which the class reads the dust relay fee and the balance: each operation has the wallet as it
  is at that moment, and what a validation saw of it is kept beside the object. An error text is one of the
  messages the source passes to \<open>tr\<close>; the code only compares it and asks whether it is empty.
\<close>

section \<open>Definitions\<close>

record 'dest core =
  IsValidDestinationString :: "qstring \<Rightarrow> bool"
  IsValidMainDestinationString :: "qstring \<Rightarrow> bool"
  IsValidTestNetDestinationString :: "qstring \<Rightarrow> bool"
  DecodeDestination :: "qstring \<Rightarrow> 'dest"
  IsDust :: "int \<Rightarrow> 'dest \<Rightarrow> int \<Rightarrow> bool"
  MAX_MONEY :: int
  DUST_RELAY_TX_FEE :: int
  COIN_value :: int

record wallet_view =
  dustRelayFee :: int
  balanceSatoshi :: int

datatype AddressError = NoAddressError | ValidForMainnet | ValidForTestnet | InvalidAddressFormat

datatype AmountError =
  NoAmountError | NotGreaterThanZero | ExceedsMaximum | TooSmallToSend | ExceedsBalance

record SendRecipient =
  r_address :: BitcoinAddress
  m_addressError :: AddressError
  m_label :: qstring
  m_message :: qstring
  m_request_label :: qstring
  m_request_address :: qstring
  r_amount :: BitcoinAmount
  m_amountError :: AmountError

datatype RecipientSignal =
  paymentRequestChanged | recipientAddressChanged | addressErrorChanged | amountErrorChanged
  | labelChanged | messageChanged | isValidChanged
  | FromAddress AddressSignal | FromAmount AmountSignal

type_synonym recipient_update = "SendRecipient \<times> RecipientSignal list"

definition new_SendRecipient :: SendRecipient where
  "new_SendRecipient =
     \<lparr>r_address = new_BitcoinAddress [], m_addressError = NoAddressError, m_label = [],
      m_message = [], m_request_label = [], m_request_address = [],
      r_amount = new_BitcoinAmount, m_amountError = NoAmountError\<rparr>"

definition setAddressError :: "AddressError \<Rightarrow> SendRecipient \<Rightarrow> recipient_update" where
  "setAddressError error r =
     (if m_addressError r \<noteq> error then (r\<lparr>m_addressError := error\<rparr>, [addressErrorChanged]) else (r, []))"

definition setAmountError :: "AmountError \<Rightarrow> SendRecipient \<Rightarrow> recipient_update" where
  "setAmountError error r =
     (if m_amountError r \<noteq> error then (r\<lparr>m_amountError := error\<rparr>, [amountErrorChanged]) else (r, []))"

definition setLabel :: "qstring \<Rightarrow> SendRecipient \<Rightarrow> recipient_update" where
  "setLabel lbl r =
     (if m_label r \<noteq> lbl then (r\<lparr>m_label := lbl\<rparr>, [labelChanged]) else (r, []))"

definition setMessage :: "qstring \<Rightarrow> SendRecipient \<Rightarrow> recipient_update" where
  "setMessage msg r =
     (if m_message r \<noteq> msg then (r\<lparr>m_message := msg\<rparr>, [messageChanged]) else (r, []))"

definition validateAmount :: "'dest core \<Rightarrow> wallet_view option \<Rightarrow> SendRecipient \<Rightarrow> recipient_update" where
  "validateAmount core wallet r =
     (let sat = m_satoshi (r_amount r);
          error =
            (if m_isSet (r_amount r) then
               if sat \<le> 0 then NotGreaterThanZero
               else if sat > MAX_MONEY core then ExceedsMaximum
               else if \<not> address_isEmpty (r_address r) \<and> m_addressError r = NoAddressError \<and>
                       IsDust core sat (DecodeDestination core (m_address (r_address r)))
                         (case wallet of Some w \<Rightarrow> dustRelayFee w | None \<Rightarrow> DUST_RELAY_TX_FEE core)
               then TooSmallToSend
               else if (case wallet of Some w \<Rightarrow> sat > balanceSatoshi w | None \<Rightarrow> False)
               then ExceedsBalance
               else NoAmountError
             else NoAmountError)
      in andthen (setAmountError error r) (\<lambda>r. (r, [isValidChanged])))"

definition validateAddress :: "'dest core \<Rightarrow> wallet_view option \<Rightarrow> SendRecipient \<Rightarrow> recipient_update" where
  "validateAddress core wallet r =
     (let addr = m_address (r_address r);
          error =
            (if \<not> address_isEmpty (r_address r) \<and> \<not> IsValidDestinationString core addr then
               if IsValidMainDestinationString core addr then ValidForMainnet
               else if IsValidTestNetDestinationString core addr then ValidForTestnet
               else InvalidAddressFormat
             else NoAddressError)
      in andthen (setAddressError error r) (validateAmount core wallet))"

text \<open>The lambda connected to \<open>BitcoinAddress::addressChanged\<close> by the constructor.\<close>

definition on_addressChanged :: "SendRecipient \<Rightarrow> recipient_update" where
  "on_addressChanged r =
     (if m_request_address r \<noteq> [] \<and> m_request_address r \<noteq> m_address (r_address r) then
        andthen (setMessage [] (r\<lparr>m_request_address := [], m_request_label := []\<rparr>))
          (\<lambda>r. (r, [paymentRequestChanged]))
      else (r, []))"

definition address_slots ::
  "'dest core \<Rightarrow> wallet_view option \<Rightarrow> AddressSignal \<Rightarrow> SendRecipient \<Rightarrow> recipient_update" where
  "address_slots core wallet s r =
     (case s of
        addressChanged \<Rightarrow> on_addressChanged r
      | formattedAddressChanged \<Rightarrow> validateAddress core wallet r
      | ellipsesAddressChanged \<Rightarrow> (r, []))"

definition amount_slots ::
  "'dest core \<Rightarrow> wallet_view option \<Rightarrow> AmountSignal \<Rightarrow> SendRecipient \<Rightarrow> recipient_update" where
  "amount_slots core wallet s r = (if s = amountChanged then validateAmount core wallet r else (r, []))"

text \<open>A call of \<open>setAddress\<close> on the address object, with the connected slots.\<close>

definition edit_address ::
  "'dest core \<Rightarrow> wallet_view option \<Rightarrow> qstring \<Rightarrow> int \<Rightarrow> SendRecipient \<Rightarrow> recipient_update" where
  "edit_address core wallet input cursor r =
     (let (_, a', sigs) = setAddress input cursor (r_address r)
      in run_slots FromAddress (address_slots core wallet) sigs (r\<lparr>r_address := a'\<rparr>))"

text \<open>An update of the amount object, with the connected slots.\<close>

definition edit_amount ::
  "'dest core \<Rightarrow> wallet_view option \<Rightarrow> BitcoinAmount \<times> AmountSignal list \<Rightarrow> SendRecipient \<Rightarrow> recipient_update" where
  "edit_amount core wallet upd r =
     run_slots FromAmount (amount_slots core wallet) (snd upd) (r\<lparr>r_amount := fst upd\<rparr>)"

definition recipient_setAddress ::
  "'dest core \<Rightarrow> wallet_view option \<Rightarrow> qstring \<Rightarrow> SendRecipient \<Rightarrow> recipient_update" where
  "recipient_setAddress core wallet address r =
     (if m_address (r_address r) \<noteq> address then
        andthen (andthen (edit_address core wallet address 0 r) (\<lambda>r. (r, [recipientAddressChanged])))
          (validateAddress core wallet)
      else (r, []))"

definition cAmount :: "SendRecipient \<Rightarrow> int" where
  "cAmount r = m_satoshi (r_amount r)"

definition applyPaymentRequest ::
  "'dest core \<Rightarrow> wallet_view option \<Rightarrow> qstring \<Rightarrow> qstring \<Rightarrow> qstring \<Rightarrow> SendRecipient \<Rightarrow> recipient_update" where
  "applyPaymentRequest core wallet address pay_to msg r =
     andthen (andthen (recipient_setAddress core wallet address r)
       (\<lambda>r. setMessage msg
          (r\<lparr>m_request_address := m_address (r_address r), m_request_label := pay_to\<rparr>)))
       (\<lambda>r. (r, [paymentRequestChanged]))"

definition recipient_clear :: "'dest core \<Rightarrow> wallet_view option \<Rightarrow> SendRecipient \<Rightarrow> recipient_update" where
  "recipient_clear core wallet r =
     andthen (andthen (andthen
       (r\<lparr>m_request_address := [], m_request_label := [], m_label := [], m_message := []\<rparr>,
        [paymentRequestChanged])
       (edit_address core wallet [] 0))
       (\<lambda>r. edit_amount core wallet (amount_clear (r_amount r)) r))
       (\<lambda>r. (r, [recipientAddressChanged, labelChanged, messageChanged]))"

definition isValid :: "SendRecipient \<Rightarrow> bool" where
  "isValid r \<longleftrightarrow> m_addressError r = NoAddressError \<and> m_amountError r = NoAmountError \<and>
     m_satoshi (r_amount r) > 0 \<and> \<not> address_isEmpty (r_address r)"

definition hasPaymentRequest :: "SendRecipient \<Rightarrow> bool" where
  "hasPaymentRequest r \<longleftrightarrow> m_request_address r \<noteq> []"

text \<open>What QML can do with a recipient, as one step.\<close>

datatype RecipientOp =
  EditAddress qstring int | SetAddressText qstring | EditAmount AmountOp
  | SetLabel qstring | SetMessage qstring | ApplyPaymentRequest qstring qstring qstring | ClearRecipient

fun recipient_step ::
  "'dest core \<Rightarrow> wallet_view option \<Rightarrow> RecipientOp \<Rightarrow> SendRecipient \<Rightarrow> recipient_update option" where
  "recipient_step core wallet (EditAddress s cur) r = Some (edit_address core wallet s cur r)"
| "recipient_step core wallet (SetAddressText s) r = Some (recipient_setAddress core wallet s r)"
| "recipient_step core wallet (EditAmount op) r =
     map_option (\<lambda>upd. edit_amount core wallet upd r) (amount_step (COIN_value core) op (r_amount r))"
| "recipient_step core wallet (SetLabel s) r = Some (setLabel s r)"
| "recipient_step core wallet (SetMessage s) r = Some (setMessage s r)"
| "recipient_step core wallet (ApplyPaymentRequest a p m) r = Some (applyPaymentRequest core wallet a p m r)"
| "recipient_step core wallet ClearRecipient r = Some (recipient_clear core wallet r)"

section \<open>Invariant\<close>

text \<open>The error the address and the amount deserve, as functions of the data.\<close>

definition address_error_of :: "'dest core \<Rightarrow> qstring \<Rightarrow> AddressError" where
  "address_error_of core addr =
     (if addr = [] \<or> IsValidDestinationString core addr then NoAddressError
      else if IsValidMainDestinationString core addr then ValidForMainnet
      else if IsValidTestNetDestinationString core addr then ValidForTestnet
      else InvalidAddressFormat)"

definition dust_fee :: "'dest core \<Rightarrow> wallet_view option \<Rightarrow> int" where
  "dust_fee core wallet = (case wallet of Some w \<Rightarrow> dustRelayFee w | None \<Rightarrow> DUST_RELAY_TX_FEE core)"

definition over_balance :: "wallet_view option \<Rightarrow> int \<Rightarrow> bool" where
  "over_balance wallet sat \<longleftrightarrow> (case wallet of Some w \<Rightarrow> sat > balanceSatoshi w | None \<Rightarrow> False)"

definition amount_error_of ::
  "'dest core \<Rightarrow> wallet_view option \<Rightarrow> BitcoinAmount \<Rightarrow> qstring \<Rightarrow> AddressError \<Rightarrow> AmountError" where
  "amount_error_of core wallet amt addr aerr =
     (if \<not> m_isSet amt then NoAmountError
      else if m_satoshi amt \<le> 0 then NotGreaterThanZero
      else if m_satoshi amt > MAX_MONEY core then ExceedsMaximum
      else if addr \<noteq> [] \<and> aerr = NoAddressError \<and>
              IsDust core (m_satoshi amt) (DecodeDestination core addr) (dust_fee core wallet)
      then TooSmallToSend
      else if over_balance wallet (m_satoshi amt) then ExceedsBalance
      else NoAmountError)"

definition amount_ok :: "BitcoinAmount \<Rightarrow> bool" where
  "amount_ok a \<longleftrightarrow> (m_isSet a \<or> m_satoshi a = 0)"

definition recipient_ok :: "'dest core \<Rightarrow> wallet_view option \<Rightarrow> SendRecipient \<Rightarrow> bool" where
  "recipient_ok core wallet r \<longleftrightarrow>
     address_ok (r_address r) \<and> amount_ok (r_amount r) \<and>
     m_addressError r = address_error_of core (m_address (r_address r)) \<and>
     m_amountError r =
       amount_error_of core wallet (r_amount r) (m_address (r_address r)) (m_addressError r) \<and>
     (m_request_address r = [] \<or> m_request_address r = m_address (r_address r))"

lemma setAddressError_fst [simp]: "fst (setAddressError e r) = r\<lparr>m_addressError := e\<rparr>"
  by (cases r) (simp add: setAddressError_def)

lemma setAmountError_fst [simp]: "fst (setAmountError e r) = r\<lparr>m_amountError := e\<rparr>"
  by (cases r) (simp add: setAmountError_def)

lemma setMessage_fst [simp]: "fst (setMessage e r) = r\<lparr>m_message := e\<rparr>"
  by (cases r) (simp add: setMessage_def)

lemma setLabel_fst [simp]: "fst (setLabel e r) = r\<lparr>m_label := e\<rparr>"
  by (cases r) (simp add: setLabel_def)

lemma validateAmount_fst [simp]:
  "fst (validateAmount core wallet r) =
     r\<lparr>m_amountError := amount_error_of core wallet (r_amount r) (m_address (r_address r)) (m_addressError r)\<rparr>"
  by (simp add: validateAmount_def Let_def amount_error_of_def address_isEmpty_def dust_fee_def
      over_balance_def)

lemma validateAddress_fst [simp]:
  "fst (validateAddress core wallet r) =
     r\<lparr>m_addressError := address_error_of core (m_address (r_address r)),
       m_amountError := amount_error_of core wallet (r_amount r) (m_address (r_address r))
         (address_error_of core (m_address (r_address r)))\<rparr>"
  by (simp add: validateAddress_def Let_def address_error_of_def address_isEmpty_def)

lemma on_addressChanged_fst:
  "fst (on_addressChanged r) =
     (if m_request_address r \<noteq> [] \<and> m_request_address r \<noteq> m_address (r_address r)
      then r\<lparr>m_request_address := [], m_request_label := [], m_message := []\<rparr> else r)"
  by (simp add: on_addressChanged_def)

text \<open>The three ways a call on the address object can end.\<close>

lemma setAddress_cases:
  obtains (same) n where "setAddress s cur a = (n, a, [])"
  | (notify) n where "setAddress s cur a = (n, a, [formattedAddressChanged])"
  | (change) n a' where
      "setAddress s cur a = (n, a', [addressChanged, formattedAddressChanged, ellipsesAddressChanged])"
proof (cases "snd (snd (setAddress s cur a)) = []
    \<or> snd (snd (setAddress s cur a)) = [formattedAddressChanged]")
  case True
  then have "fst (snd (setAddress s cur a)) = a" by (auto simp: setAddress_def Let_def split: if_splits)
  with True same notify show ?thesis by (metis prod.collapse)
next
  case False
  then have "snd (snd (setAddress s cur a)) =
      [addressChanged, formattedAddressChanged, ellipsesAddressChanged]"
    by (auto simp: setAddress_def Let_def split: if_splits)
  with change show ?thesis by (metis prod.collapse)
qed

lemma edit_address_frame [simp]:
  "r_amount (fst (edit_address core wallet s cur r)) = r_amount r"
  by (cases rule: setAddress_cases [of s cur "r_address r"])
    (simp_all add: edit_address_def address_slots_def on_addressChanged_fst)

lemma edit_address_address [simp]:
  "r_address (fst (edit_address core wallet s cur r)) = fst (snd (setAddress s cur (r_address r)))"
  by (cases rule: setAddress_cases [of s cur "r_address r"])
    (simp_all add: edit_address_def address_slots_def on_addressChanged_fst)

text \<open>
  Delivering the amount's signals validates the amount exactly when \<open>amountChanged\<close> is among them.
\<close>

lemma amount_slots_fst:
  "fst (run_slots FromAmount (amount_slots core wallet) sigs r) =
     (if amountChanged \<in> set sigs then fst (validateAmount core wallet r) else r)"
  by (induction sigs arbitrary: r) (auto simp: amount_slots_def)

lemma amount_step_ok:
  assumes "amount_step COIN op a = Some (a', sigs)" "amount_ok a"
  shows "amount_ok a'"
proof (cases op)
  case (FromDisplay s)
  with assms show ?thesis
    by (auto simp: amount_ok_def amount_op_defs Let_def bind_eq_Some_conv split: if_splits)
qed (use assms in \<open>auto simp: amount_ok_def amount_op_defs Let_def split: if_splits\<close>)

lemma amount_step_silent:
  assumes "amount_step COIN op a = Some (a', sigs)" "amountChanged \<notin> set sigs"
  shows "m_satoshi a' = m_satoshi a \<and> m_isSet a' = m_isSet a"
  using amount_step_cases [OF assms(1)] assms(2) by auto

text \<open>Clearing or exchanging the payment request and the texts does not touch what is validated.\<close>

lemma recipient_ok_texts [simp]:
  "recipient_ok core wallet (r\<lparr>m_label := l\<rparr>) = recipient_ok core wallet r"
  "recipient_ok core wallet (r\<lparr>m_message := m\<rparr>) = recipient_ok core wallet r"
  "recipient_ok core wallet (r\<lparr>m_request_label := x\<rparr>) = recipient_ok core wallet r"
  by (simp_all add: recipient_ok_def)

lemma recipient_ok_request:
  "recipient_ok core wallet r \<Longrightarrow> addr = [] \<or> addr = m_address (r_address r) \<Longrightarrow>
   recipient_ok core wallet (r\<lparr>m_request_address := addr\<rparr>)"
  by (simp add: recipient_ok_def)

text \<open>
  The wallet is read when the amount is validated, and the validation emits \<open>isValidChanged\<close>: \<open>seen\<close> is the wallet as it was
  when the amount was last validated. After an update with the wallet \<open>w\<close> the errors are those for \<open>w\<close> if the
  update validated, and still those for \<open>seen\<close> otherwise.
\<close>

definition checked :: "'dest core \<Rightarrow> wallet_view option \<Rightarrow> wallet_view option \<Rightarrow> recipient_update \<Rightarrow> bool" where
  "checked core w seen u \<longleftrightarrow> recipient_ok core (if isValidChanged \<in> set (snd u) then w else seen) (fst u)"

lemma checked_quiet: "recipient_ok core seen (fst u) \<Longrightarrow> isValidChanged \<notin> set (snd u) \<Longrightarrow> checked core w seen u"
  by (simp add: checked_def)

lemma checked_andthen:
  assumes "checked core w seen u" "\<And>s. recipient_ok core s (fst u) \<Longrightarrow> checked core w s (f (fst u))"
  shows "checked core w seen (andthen u f)"
  using assms(1) assms(2) [of "if isValidChanged \<in> set (snd u) then w else seen"]
  by (auto simp: checked_def andthen_snd split: if_splits)

lemma validateAmount_log [simp]: "isValidChanged \<in> set (snd (validateAmount core wallet r))"
  by (simp add: validateAmount_def Let_def andthen_snd)

lemma validateAddress_log [simp]: "isValidChanged \<in> set (snd (validateAddress core wallet r))"
  by (simp add: validateAddress_def Let_def andthen_snd)

lemma amount_slots_log:
  "isValidChanged \<in> set (snd (run_slots FromAmount (amount_slots core wallet) sigs r)) \<longleftrightarrow> amountChanged \<in> set sigs"
  by (induction sigs arbitrary: r) (auto simp: andthen_snd amount_slots_def)

lemma edit_address_checked:
  assumes "recipient_ok core seen r"
  shows "checked core w seen (edit_address core w s cur r)"
proof (cases rule: setAddress_cases [of s cur "r_address r"])
  case (change n a')
  then have "address_ok a'" using setAddress_ok [of s cur "r_address r"] by simp
  with change assms show ?thesis
    by (auto simp: checked_def edit_address_def address_slots_def on_addressChanged_fst recipient_ok_def andthen_snd)
qed (use assms in \<open>auto simp: checked_def edit_address_def address_slots_def recipient_ok_def andthen_snd\<close>)

lemma edit_amount_checked:
  assumes "recipient_ok core seen r" "amount_step COIN op (r_amount r) = Some upd"
  shows "checked core w seen (edit_amount core w upd r)"
proof -
  obtain a' sigs where upd: "upd = (a', sigs)" by (cases upd)
  have ok: "amount_ok a'" using amount_step_ok assms upd by (auto simp: recipient_ok_def)
  show ?thesis
  proof (cases "amountChanged \<in> set sigs")
    case True
    with assms ok upd show ?thesis
      by (simp add: checked_def edit_amount_def amount_slots_fst amount_slots_log recipient_ok_def)
  next
    case False
    with amount_step_silent assms upd have "m_satoshi a' = m_satoshi (r_amount r)"
      "m_isSet a' = m_isSet (r_amount r)" by blast+
    with False assms ok upd show ?thesis
      by (simp add: checked_def edit_amount_def amount_slots_fst amount_slots_log recipient_ok_def amount_error_of_def)
  qed
qed

lemma recipient_setAddress_checked:
  assumes "recipient_ok core seen r"
  shows "checked core w seen (recipient_setAddress core w s r)"
  using edit_address_checked [OF assms, of w s 0] assms
  by (auto simp: checked_def recipient_setAddress_def recipient_ok_def andthen_snd split: if_splits)

lemma recipient_step_checked:
  assumes "recipient_ok core seen r" "recipient_step core w op r = Some u"
  shows "checked core w seen u"
proof (cases op)
  case (EditAddress s cur)
  then show ?thesis using assms edit_address_checked [OF assms(1), of w s cur] by simp
next
  case (SetAddressText s)
  then show ?thesis using assms recipient_setAddress_checked [OF assms(1), of w s] by simp
next
  case (EditAmount aop)
  then obtain upd where "amount_step (COIN_value core) aop (r_amount r) = Some upd"
    "edit_amount core w upd r = u" using assms by auto
  then show ?thesis using edit_amount_checked [OF assms(1)] by blast
next
  case (SetLabel s)
  then show ?thesis using assms by (auto intro!: checked_quiet simp: setLabel_def split: if_splits)
next
  case (SetMessage s)
  then show ?thesis using assms by (auto intro!: checked_quiet simp: setMessage_def split: if_splits)
next
  case (ApplyPaymentRequest a p m)
  have "checked core w seen (applyPaymentRequest core w a p m r)"
    unfolding applyPaymentRequest_def
    by (intro checked_andthen recipient_setAddress_checked assms(1))
      (auto intro!: checked_quiet simp: setMessage_def recipient_ok_request)
  then show ?thesis using assms ApplyPaymentRequest by simp
next
  case ClearRecipient
  have "checked core w seen (recipient_clear core w r)"
    unfolding recipient_clear_def
  proof (rule checked_andthen [OF checked_andthen [OF checked_andthen]])
    show "checked core w seen (r\<lparr>m_request_address := [], m_request_label := [], m_label := [], m_message := []\<rparr>, [paymentRequestChanged])"
      using recipient_ok_request [OF assms(1)] by (intro checked_quiet) simp_all
  next
    fix s x assume "recipient_ok core s x"
    then show "checked core w s (edit_amount core w (amount_clear (r_amount x)) x)"
      by (rule edit_amount_checked [where op = Clear and COIN = 0]) simp
  qed (rule edit_address_checked, assumption, rule checked_quiet, simp_all)
  then show ?thesis using assms ClearRecipient by simp
qed

lemma new_SendRecipient_ok: "recipient_ok core wallet new_SendRecipient"
proof -
  have "m_address (new_BitcoinAddress []) = []"
    by (simp add: new_BitcoinAddress_def setAddress_state)
  then show ?thesis
    by (simp add: recipient_ok_def new_SendRecipient_def new_BitcoinAddress_ok amount_ok_def
        new_BitcoinAmount_def address_error_of_def amount_error_of_def)
qed

section \<open>Signals of a step\<close>

text \<open>
  What the validity depends on, and what the payment-request properties depend on. A step that
  changes the first logs \<open>isValidChanged\<close>, one that changes the second \<open>paymentRequestChanged\<close>.
\<close>

definition validity_data ::
  "SendRecipient \<Rightarrow> BitcoinAddress \<times> int \<times> AddressError \<times> AmountError" where
  "validity_data r = (r_address r, m_satoshi (r_amount r), m_addressError r, m_amountError r)"

definition request_data :: "SendRecipient \<Rightarrow> qstring \<times> qstring" where
  "request_data r = (m_request_address r, m_request_label r)"

lemma edit_address_log:
  "(validity_data (fst (edit_address core wallet s cur r)) \<noteq> validity_data r \<longrightarrow>
      isValidChanged \<in> set (snd (edit_address core wallet s cur r))) \<and>
   (request_data (fst (edit_address core wallet s cur r)) \<noteq> request_data r \<longrightarrow>
      paymentRequestChanged \<in> set (snd (edit_address core wallet s cur r)))"
  by (cases rule: setAddress_cases [of s cur "r_address r"])
    (simp_all add: edit_address_def address_slots_def andthen_snd on_addressChanged_def
      validity_data_def request_data_def)

lemma edit_amount_log:
  assumes "amount_step COIN op (r_amount r) = Some upd"
  shows "(validity_data (fst (edit_amount core wallet upd r)) \<noteq> validity_data r \<longrightarrow>
      isValidChanged \<in> set (snd (edit_amount core wallet upd r))) \<and>
    request_data (fst (edit_amount core wallet upd r)) = request_data r"
proof (cases "amountChanged \<in> set (snd upd)")
  case True
  then show ?thesis by (simp add: edit_amount_def amount_slots_log amount_slots_fst request_data_def)
next
  case False
  with amount_step_silent [of COIN op "r_amount r" "fst upd" "snd upd"] assms show ?thesis
    by (simp add: edit_amount_def amount_slots_fst validity_data_def request_data_def)
qed

lemma recipient_setAddress_log:
  "(validity_data (fst (recipient_setAddress core wallet s r)) \<noteq> validity_data r \<longrightarrow>
      isValidChanged \<in> set (snd (recipient_setAddress core wallet s r))) \<and>
   (request_data (fst (recipient_setAddress core wallet s r)) \<noteq> request_data r \<longrightarrow>
      paymentRequestChanged \<in> set (snd (recipient_setAddress core wallet s r)))"
  using edit_address_log [of core wallet s 0 r]
  by (auto simp: recipient_setAddress_def andthen_snd request_data_def)

lemma validity_data_frame [simp]:
  "validity_data (r\<lparr>m_label := l\<rparr>) = validity_data r"
  "validity_data (r\<lparr>m_message := m\<rparr>) = validity_data r"
  "validity_data (r\<lparr>m_request_label := x\<rparr>) = validity_data r"
  "validity_data (r\<lparr>m_request_address := y\<rparr>) = validity_data r"
  by (simp_all add: validity_data_def)

lemma recipient_step_log:
  assumes "recipient_step core wallet op r = Some (r', sigs)"
  shows "(validity_data r' \<noteq> validity_data r \<longrightarrow> isValidChanged \<in> set sigs) \<and>
    (request_data r' \<noteq> request_data r \<longrightarrow> paymentRequestChanged \<in> set sigs)"
proof (cases op)
  case (EditAddress s cur)
  then show ?thesis using assms edit_address_log [of core wallet s cur r] by simp
next
  case (SetAddressText s)
  then show ?thesis using assms recipient_setAddress_log [of core wallet s r] by simp
next
  case (EditAmount aop)
  then obtain upd where u: "amount_step (COIN_value core) aop (r_amount r) = Some upd"
    "edit_amount core wallet upd r = (r', sigs)" using assms by auto
  then show ?thesis using edit_amount_log [OF u(1)] by (metis fst_conv snd_conv)
next
  case (ApplyPaymentRequest a p m)
  then have "(r', sigs) = applyPaymentRequest core wallet a p m r" using assms by simp
  then have "r' = fst (applyPaymentRequest core wallet a p m r)"
    "sigs = snd (applyPaymentRequest core wallet a p m r)" by (metis fst_conv, metis snd_conv)
  then show ?thesis using recipient_setAddress_log [of core wallet a r]
    by (auto simp: applyPaymentRequest_def andthen_snd)
next
  case ClearRecipient
  let ?r = "r\<lparr>m_request_address := [], m_request_label := [], m_label := [], m_message := []\<rparr>"
  let ?e = "edit_address core wallet [] 0 ?r"
  have "amount_step 0 Clear (r_amount (fst ?e)) = Some (amount_clear (r_amount (fst ?e)))" by simp
  note log = edit_amount_log [OF this, of core wallet] edit_address_log [of core wallet "[]" 0 ?r]
  have "(r', sigs) = recipient_clear core wallet r" using assms ClearRecipient by simp
  then have "r' = fst (recipient_clear core wallet r)" "sigs = snd (recipient_clear core wallet r)"
    by (metis fst_conv, metis snd_conv)
  moreover have "validity_data ?r = validity_data r" by simp
  ultimately show ?thesis using log
    by (auto simp: recipient_clear_def andthen_snd)
qed (use assms in \<open>auto simp: setLabel_def setMessage_def request_data_def split: if_splits\<close>)

interpretation isValid_property: notifying "\<lambda>(w, op). recipient_step core w op" isValid isValidChanged
proof unfold_locales
  fix op :: "wallet_view option \<times> RecipientOp" and r r' sigs
  assume "(case op of (w, op) \<Rightarrow> recipient_step core w op) r = Some (r', sigs)" "isValid r' \<noteq> isValid r"
  moreover from this(2) have "validity_data r' \<noteq> validity_data r"
    by (auto simp: isValid_def validity_data_def)
  ultimately show "isValidChanged \<in> set sigs" using recipient_step_log by (cases op) fastforce
qed

interpretation paymentRequest_property:
  notifying "\<lambda>(w, op). recipient_step core w op" request_data paymentRequestChanged
  by unfold_locales (auto split: prod.splits dest: recipient_step_log)

section \<open>Properties\<close>

text \<open>
  Histories. Every operation meets the wallet as it then is; nothing validates again when only the wallet changes.
\<close>

inductive recipient_reachable :: "'dest core \<Rightarrow> wallet_view option \<Rightarrow> SendRecipient \<Rightarrow> bool"
  for core :: "'dest core" where
  recipient_start: "recipient_reachable core w new_SendRecipient"
| recipient_next: "recipient_reachable core seen r \<Longrightarrow> recipient_step core w op r = Some (r', sigs) \<Longrightarrow>
     recipient_reachable core (if isValidChanged \<in> set sigs then w else seen) r'"

lemma recipient_reachable_ok: "recipient_reachable core seen r \<Longrightarrow> recipient_ok core seen r"
  by (induction rule: recipient_reachable.induct)
    (auto simp: new_SendRecipient_ok dest: recipient_step_checked simp: checked_def split: if_splits)

text \<open>A concrete chain and wallet for the witnesses.\<close>

definition sample_core :: "qstring core" where
  "sample_core = \<lparr>IsValidDestinationString = (\<lambda>s. take 4 s = q ''bcrt''),
     IsValidMainDestinationString = (\<lambda>s. take 2 s = q ''bc''),
     IsValidTestNetDestinationString = (\<lambda>s. take 2 s = q ''tb''), DecodeDestination = (\<lambda>s. s),
     IsDust = (\<lambda>n d f. n < f), MAX_MONEY = 2100000000000000, DUST_RELAY_TX_FEE = 3000,
     COIN_value = 100000000\<rparr>"

definition sample_wallet :: wallet_view where
  "sample_wallet = \<lparr>dustRelayFee = 3000, balanceSatoshi = 500000\<rparr>"

definition sample_ops :: "RecipientOp list" where
  "sample_ops = [EditAmount (SetSatoshi 400000), EditAddress (q ''bcrt1qx'') 0]"

text \<open>
  C4: the validity shown for a recipient is exactly payability by the wallet last consulted. After any
  sequence of edits (typing an address, pasting one, editing the amount in any unit, applying a payment request, clearing),
  with a wallet whose balance and fee rate may differ at every one of them, \<open>isValid\<close> holds iff the address is non-empty and valid for the
  current network, the amount is positive, at most \<open>MAX_MONEY\<close>, not dust for that address, and within the
  balance, both by the wallet as it was when \<open>isValidChanged\<close> was last emitted. (A change of the wallet alone validates nothing, so
  the verdict is that of the last validation until the next one.)
\<close>

theorem recipient_valid_iff_payable:
  assumes "recipient_reachable core seen r"
  shows "isValid r \<longleftrightarrow>
     m_address (r_address r) \<noteq> [] \<and> IsValidDestinationString core (m_address (r_address r)) \<and>
     0 < cAmount r \<and> cAmount r \<le> MAX_MONEY core \<and>
     \<not> IsDust core (cAmount r) (DecodeDestination core (m_address (r_address r))) (dust_fee core seen) \<and>
     \<not> over_balance seen (cAmount r)"
proof -
  have "recipient_ok core seen r" using assms by (rule recipient_reachable_ok)
  then show ?thesis
    by (auto simp: recipient_ok_def isValid_def cAmount_def amount_ok_def address_isEmpty_def
        address_error_of_def amount_error_of_def split: if_splits)
qed

lemma recipient_next_fst:
  "recipient_reachable core seen r \<Longrightarrow> recipient_step core w op r = Some upd \<Longrightarrow>
   recipient_reachable core (if isValidChanged \<in> set (snd upd) then w else seen) (fst upd)"
  by (cases upd) (auto dest: recipient_next)

text \<open>The balance grows after the amount was typed, and before the address is.\<close>

definition sample_poor :: wallet_view where
  "sample_poor = \<lparr>dustRelayFee = 3000, balanceSatoshi = 1000\<rparr>"

definition sample_first :: recipient_update where
  "sample_first = edit_amount sample_core (Some sample_poor) (setSatoshi 400000 new_BitcoinAmount) new_SendRecipient"

definition sample_second :: recipient_update where
  "sample_second = edit_address sample_core (Some sample_wallet) (q ''bcrt1qx'') 0 (fst sample_first)"

definition sample_recipient :: SendRecipient where
  "sample_recipient = fst sample_second"

lemma sample_first_reachable: "recipient_reachable sample_core (Some sample_poor) (fst sample_first)"
proof -
  have v: "isValidChanged \<in> set (snd sample_first)" by code_simp
  have "recipient_step sample_core (Some sample_poor) (EditAmount (SetSatoshi 400000)) new_SendRecipient = Some sample_first"
    by (simp add: sample_first_def new_SendRecipient_def)
  from recipient_next_fst [OF recipient_start this] v show ?thesis by simp
qed

lemma sample_reachable: "recipient_reachable sample_core (Some sample_wallet) sample_recipient"
proof -
  have v: "isValidChanged \<in> set (snd sample_second)" by code_simp
  have "recipient_step sample_core (Some sample_wallet) (EditAddress (q ''bcrt1qx'') 0) (fst sample_first) = Some sample_second"
    by (simp add: sample_second_def)
  from recipient_next_fst [OF sample_first_reachable this] v show ?thesis by (simp add: sample_recipient_def)
qed

theorem recipient_valid_iff_payable_witness:
  "isValid sample_recipient \<and> cAmount sample_recipient = 400000 \<and> \<not> isValid (fst sample_first)"
proof -
  have a: "m_address (r_address sample_recipient) = q ''bcrt1qx''"
    "cAmount sample_recipient = 400000" by code_simp+
  have f: "cAmount (fst sample_first) = 400000" by code_simp
  have "isValid sample_recipient" using a recipient_valid_iff_payable [OF sample_reachable]
    by (simp add: sample_core_def sample_wallet_def dust_fee_def over_balance_def)
  moreover have "\<not> isValid (fst sample_first)" using f recipient_valid_iff_payable [OF sample_first_reachable]
    by (simp add: sample_poor_def over_balance_def)
  ultimately show ?thesis using a(2) by blast
qed

text \<open>
  a payment request stays attached to its own address: in every reachable state of a recipient
  that still carries a payment request, the requested address is the address that would be paid, so
  the requester's label is never shown for an address edited afterwards; and a binding on the
  request's address and label is never stale.
\<close>

theorem payment_request_matches_address:
  assumes "recipient_reachable core seen r" "hasPaymentRequest r"
    and "binding_run (\<lambda>(w, op). recipient_step core w op) request_data paymentRequestChanged ops
      (r, request_data r) = Some (r', shown)"
  shows "m_request_address r = m_address (r_address r) \<and> shown = request_data r'"
proof
  from recipient_reachable_ok [OF assms(1)] assms(2)
  show "m_request_address r = m_address (r_address r)"
    by (auto simp: recipient_ok_def hasPaymentRequest_def)
  show "shown = request_data r'" using assms(3) by (rule paymentRequest_property.binding_coherent)
qed

definition sample_request :: SendRecipient where
  "sample_request =
     fst (applyPaymentRequest sample_core None (q ''bcrt1qx'') (q ''shop'') [] new_SendRecipient)"

lemma sample_request_reachable: "recipient_reachable sample_core None sample_request"
  using recipient_next_fst [OF recipient_start, of sample_core None "ApplyPaymentRequest (q ''bcrt1qx'') (q ''shop'') []" _ None]
  by (simp add: sample_request_def)

theorem payment_request_matches_address_witness:
  "hasPaymentRequest sample_request \<and> m_request_address sample_request = q ''bcrt1qx''"
proof -
  have r: "hasPaymentRequest sample_request" by code_simp
  have "m_address (r_address sample_request) = q ''bcrt1qx''" by code_simp
  with payment_request_matches_address [OF sample_request_reachable r, of "[]"] r show ?thesis by simp
qed

text \<open>
  a binding on \<open>isValid\<close> (the one that enables sending) is never stale: after any sequence of
  operations that has a defined outcome, a binding refreshed exactly by \<open>isValidChanged\<close> shows the
  recipient's current validity.
\<close>

theorem isValid_binding_coherent:
  "binding_run (\<lambda>(w, op). recipient_step core w op) isValid isValidChanged ops (r, isValid r) = Some (r', shown)
   \<Longrightarrow> shown = isValid r'"
  by (rule isValid_property.binding_coherent)

theorem isValid_binding_coherent_witness:
  "\<exists>r'. binding_run (\<lambda>(w, op). recipient_step sample_core w op) isValid isValidChanged
     (map (\<lambda>op. (Some sample_wallet, op)) sample_ops) (new_SendRecipient, isValid new_SendRecipient) = Some (r', True) \<and> isValid r'"
proof -
  let ?run = "binding_run (\<lambda>(w, op). recipient_step sample_core w op) isValid isValidChanged
     (map (\<lambda>op. (Some sample_wallet, op)) sample_ops) (new_SendRecipient, isValid new_SendRecipient)"
  have "map_option snd ?run = Some True" by code_simp
  then obtain r' where "?run = Some (r', True)" by auto
  with isValid_binding_coherent [OF this] show ?thesis by blast
qed

end
