(* ===== verification/Recipients.thy ===== *)
theory Recipients
  imports Recipient
begin

text \<open>
  \<open>src/qml/models/sendrecipientslistmodel.cpp\<close>: the recipients of the payment being composed. Every
  recipient object has an identity (the number paired with it), because the list model compares
  object pointers. The slots the model connects to each recipient run on the recipient's signals:
  the total is recomputed, a change of unit is carried over to the other recipients, and views are
  told which row changed. The sum of the amounts is 64-bit, and \<open>None\<close> is its overflow. As for one
  recipient, every operation has the wallet of its moment; nothing validates again when the balance changes.
\<close>

section \<open>Definitions\<close>

record RecipientsModel =
  m_recipients :: "(nat \<times> SendRecipient) list"
  m_current :: int
  m_totalAmount :: int
  m_syncing_units :: bool
  next_object :: nat

datatype Role = AddressRole | LabelRole | AmountRole | MessageRole | FormattedAddressRole | AmountUnitLabelRole

datatype ListSignal =
  rowsInserted int int | rowsRemoved int int | modelReset | dataChanged nat "Role list"
  | countChanged | validationChanged | currentIndexChanged | currentRecipientChanged
  | totalAmountChanged | listCleared | walletSelectionCleared

type_synonym list_update = "(RecipientsModel \<times> ListSignal list) option"

definition amount_of :: "nat \<times> SendRecipient \<Rightarrow> BitcoinAmount" where
  "amount_of p = r_amount (snd p)"

definition new_RecipientsModel :: RecipientsModel where
  "new_RecipientsModel = \<lparr>m_recipients = [(0, new_SendRecipient)], m_current = 0, m_totalAmount = 0,
     m_syncing_units = False, next_object = 1\<rparr>"

text \<open>The loop \<open>total += recipient->amount()->satoshi()\<close>.\<close>

fun sum_amounts :: "int \<Rightarrow> (nat \<times> SendRecipient) list \<Rightarrow> int option" where
  "sum_amounts tot [] = Some tot"
| "sum_amounts tot (p # ps) =
     do { tot' \<leftarrow> chk64 (tot + m_satoshi (amount_of p)); sum_amounts tot' ps }"

definition updateTotalAmount :: "RecipientsModel \<Rightarrow> list_update" where
  "updateTotalAmount m = do {
     tot \<leftarrow> sum_amounts 0 (m_recipients m);
     Some (if m_totalAmount m = tot then (m, [])
           else (m\<lparr>m_totalAmount := tot\<rparr>, [totalAmountChanged]))
   }"

definition currentRecipient :: "RecipientsModel \<Rightarrow> nat option" where
  "currentRecipient m =
     (if m_current m < 0 \<or> m_current m \<ge> int (length (m_recipients m)) then None
      else Some (fst (m_recipients m ! nat (m_current m))))"

definition setCurrentIndex :: "int \<Rightarrow> RecipientsModel \<Rightarrow> RecipientsModel \<times> ListSignal list" where
  "setCurrentIndex row m =
     (if row < 0 \<or> row \<ge> int (length (m_recipients m)) then (m, [])
      else if row = m_current m then (m, [])
      else (m\<lparr>m_current := row\<rparr>, [currentIndexChanged, currentRecipientChanged]))"

definition list_next :: "RecipientsModel \<Rightarrow> RecipientsModel \<times> ListSignal list" where
  "list_next m = setCurrentIndex (m_current m + 1) m"

definition list_prev :: "RecipientsModel \<Rightarrow> RecipientsModel \<times> ListSignal list" where
  "list_prev m = setCurrentIndex (m_current m - 1) m"

text \<open>
  The unit of every other recipient is set while \<open>m_syncing_units\<close> holds, so their own
  \<open>unitChanged\<close> reaches only the row update. (\<open>sync_units u k ps\<close> handles the rows from \<open>k\<close> on.)
\<close>

definition set_recipient_unit :: "Unit \<Rightarrow> SendRecipient \<Rightarrow> SendRecipient" where
  "set_recipient_unit u r = r\<lparr>r_amount := fst (setUnit u (r_amount r))\<rparr>"

definition unit_rows :: "nat \<Rightarrow> Unit \<Rightarrow> SendRecipient \<Rightarrow> ListSignal list" where
  "unit_rows row u r =
     (if unitChanged \<in> set (snd (setUnit u (r_amount r)))
      then [dataChanged row [AmountRole, AmountUnitLabelRole]] else [])"

definition sync_units :: "nat \<Rightarrow> RecipientsModel \<Rightarrow> RecipientsModel \<times> ListSignal list" where
  "sync_units i m =
     (if m_syncing_units m then (m, [])
      else
        let u = m_unit (amount_of (m_recipients m ! i));
            ident = fst (m_recipients m ! i)
        in (m\<lparr>m_recipients := map (\<lambda>p. if fst p \<noteq> ident then (fst p, set_recipient_unit u (snd p)) else p)
               (m_recipients m)\<rparr>,
            concat (map (\<lambda>(row, p). if fst p \<noteq> ident then unit_rows row u (snd p) else [])
               (enumerate 0 (m_recipients m)))))"

text \<open>The slots connected to the recipient in row \<open>i\<close>, in the order of connection.\<close>

fun recipient_slots :: "nat \<Rightarrow> RecipientSignal \<Rightarrow> RecipientsModel \<Rightarrow> list_update" where
  "recipient_slots i labelChanged m = Some (m, [dataChanged i [LabelRole]])"
| "recipient_slots i messageChanged m = Some (m, [dataChanged i [MessageRole]])"
| "recipient_slots i (FromAddress formattedAddressChanged) m =
     Some (m, [dataChanged i [AddressRole, FormattedAddressRole]])"
| "recipient_slots i (FromAddress ellipsesAddressChanged) m =
     Some (m, [dataChanged i [AddressRole, FormattedAddressRole]])"
| "recipient_slots i (FromAmount amountChanged) m = do {
     (m', l) \<leftarrow> updateTotalAmount m;
     Some (m', dataChanged i [AmountRole] # l)
   }"
| "recipient_slots i (FromAmount unitChanged) m =
     Some (andthen (m, [dataChanged i [AmountRole, AmountUnitLabelRole]]) (sync_units i))"
| "recipient_slots i isValidChanged m = Some (m, [validationChanged])"
| "recipient_slots i s m = Some (m, [])"

fun deliver :: "nat \<Rightarrow> RecipientSignal list \<Rightarrow> RecipientsModel \<Rightarrow> list_update" where
  "deliver i [] m = Some (m, [])"
| "deliver i (s # ss) m = do {
     (m1, l1) \<leftarrow> recipient_slots i s m;
     (m2, l2) \<leftarrow> deliver i ss m1;
     Some (m2, l1 @ l2)
   }"

text \<open>An operation on the recipient in row \<open>i\<close>, with the model's slots.\<close>

definition edit_recipient ::
  "'dest core \<Rightarrow> wallet_view option \<Rightarrow> nat \<Rightarrow> RecipientOp \<Rightarrow> RecipientsModel \<Rightarrow> list_update" where
  "edit_recipient core wallet i op m =
     (if i < length (m_recipients m) then do {
        (r', sigs) \<leftarrow> recipient_step core wallet op (snd (m_recipients m ! i));
        deliver i sigs (m\<lparr>m_recipients := (m_recipients m)[i := (fst (m_recipients m ! i), r')]\<rparr>)
      } else Some (m, []))"

text \<open>
  \<open>add()\<close>: the new recipient takes the unit of the current one before it joins the list. Its
  \<open>unitChanged\<close> finds no row for it yet, and carries the unit, which they already have, to the others.
\<close>

definition list_add :: "RecipientsModel \<Rightarrow> RecipientsModel \<times> ListSignal list" where
  "list_add m =
     (let row = length (m_recipients m);
          (r, m1, l1) =
            (if length (m_recipients m) > 0 then
               let u = m_unit (amount_of (m_recipients m ! nat (m_current m)));
                   r' = set_recipient_unit u new_SendRecipient
               in if unitChanged \<in> set (snd (setUnit u (r_amount new_SendRecipient))) \<and> \<not> m_syncing_units m
                  then (r', m\<lparr>m_recipients := map (\<lambda>p. (fst p, set_recipient_unit u (snd p))) (m_recipients m)\<rparr>,
                        concat (map (\<lambda>(row, p). unit_rows row u (snd p)) (enumerate 0 (m_recipients m))))
                  else (r', m, [])
             else (new_SendRecipient, m, []))
      in andthen (m1\<lparr>m_recipients := m_recipients m1 @ [(next_object m, r)], next_object := Suc (next_object m)\<rparr>,
                  l1 @ [rowsInserted (int row) (int row), countChanged, validationChanged])
           (setCurrentIndex (int row)))"

definition removeAt :: "int \<Rightarrow> RecipientsModel \<Rightarrow> list_update" where
  "removeAt row m =
     (if length (m_recipients m) \<le> 1 \<or> row < 0 \<or> row \<ge> int (length (m_recipients m)) then Some (m, [])
      else do {
        let previous = currentRecipient m;
        let rs = take (nat row) (m_recipients m) @ drop (Suc (nat row)) (m_recipients m);
        let cur = (if row < m_current m \<or> m_current m \<ge> int (length rs) then m_current m - 1 else m_current m);
        let m1 = m\<lparr>m_recipients := rs, m_current := cur\<rparr>;
        (m2, l2) \<leftarrow> updateTotalAmount m1;
        Some (m2, [rowsRemoved row row, currentIndexChanged] @
                  (if previous \<noteq> currentRecipient m1 then [currentRecipientChanged] else []) @
                  l2 @ [countChanged, validationChanged])
      })"

definition list_remove :: "RecipientsModel \<Rightarrow> list_update" where
  "list_remove m = removeAt (m_current m) m"

definition list_clear :: "wallet_view option \<Rightarrow> RecipientsModel \<Rightarrow> RecipientsModel \<times> ListSignal list" where
  "list_clear wallet m =
     (m\<lparr>m_recipients := [(next_object m, new_SendRecipient)], m_current := 0, m_totalAmount := 0,
        next_object := Suc (next_object m)\<rparr>,
      [modelReset, countChanged, totalAmountChanged, currentRecipientChanged, currentIndexChanged,
       validationChanged] @ (if wallet \<noteq> None then [walletSelectionCleared] else []) @ [listCleared])"

definition clearToFront :: "RecipientsModel \<Rightarrow> RecipientsModel \<times> ListSignal list" where
  "clearToFront m =
     (let (m1, l1) = (if m_current m \<noteq> 0
                      then (m\<lparr>m_current := 0\<rparr>, [currentRecipientChanged, currentIndexChanged]) else (m, []));
          (m2, l2) = (if length (m_recipients m1) > 1
                      then (m1\<lparr>m_recipients := take 1 (m_recipients m1)\<rparr>,
                            [rowsRemoved 1 (int (length (m_recipients m1)) - 1), countChanged, validationChanged])
                      else (m1, []));
          sat = m_satoshi (amount_of (m_recipients m2 ! 0));
          (m3, l3) = (if m_totalAmount m2 \<noteq> sat then (m2\<lparr>m_totalAmount := sat\<rparr>, [totalAmountChanged]) else (m2, []))
      in (m3, l1 @ l2 @ l3))"

fun valid_loop :: "'dest core \<Rightarrow> 'dest list \<Rightarrow> (nat \<times> SendRecipient) list \<Rightarrow> bool" where
  "valid_loop core destinations [] = True"
| "valid_loop core destinations (p # ps) =
     (if \<not> isValid (snd p) then False
      else
        let destination = DecodeDestination core (m_address (r_address (snd p)))
        in if destination \<in> set destinations then False
           else valid_loop core (destination # destinations) ps)"

definition allValid :: "'dest core \<Rightarrow> RecipientsModel \<Rightarrow> bool" where
  "allValid core m \<longleftrightarrow> m_recipients m \<noteq> [] \<and> valid_loop core [] (m_recipients m)"

datatype ValidationError = NoValidationError | EnterAtLeastOne | CompleteEveryRecipient | AddressesMustBeUnique

fun error_loop :: "'dest core \<Rightarrow> nat \<Rightarrow> 'dest list \<Rightarrow> (nat \<times> SendRecipient) list \<Rightarrow> ValidationError" where
  "error_loop core n destinations [] = NoValidationError"
| "error_loop core n destinations (p # ps) =
     (if \<not> isValid (snd p) then (if n > 1 then CompleteEveryRecipient else NoValidationError)
      else
        let destination = DecodeDestination core (m_address (r_address (snd p)))
        in if destination \<in> set destinations then AddressesMustBeUnique
           else error_loop core n (destination # destinations) ps)"

definition validationError :: "'dest core \<Rightarrow> RecipientsModel \<Rightarrow> ValidationError" where
  "validationError core m =
     (if m_recipients m = [] then EnterAtLeastOne
      else error_loop core (length (m_recipients m)) [] (m_recipients m))"

text \<open>What QML can do with the list, as one step.\<close>

datatype ListOp =
  Add | SetCurrentIndex int | Next | Prev | Remove | RemoveAt int | ClearList | ClearToFront
  | EditRecipient nat RecipientOp

fun list_step :: "'dest core \<Rightarrow> wallet_view option \<Rightarrow> ListOp \<Rightarrow> RecipientsModel \<Rightarrow> list_update" where
  "list_step core wallet Add m = Some (list_add m)"
| "list_step core wallet (SetCurrentIndex row) m = Some (setCurrentIndex row m)"
| "list_step core wallet Next m = Some (list_next m)"
| "list_step core wallet Prev m = Some (list_prev m)"
| "list_step core wallet Remove m = list_remove m"
| "list_step core wallet (RemoveAt row) m = removeAt row m"
| "list_step core wallet ClearList m = Some (list_clear wallet m)"
| "list_step core wallet ClearToFront m = Some (clearToFront m)"
| "list_step core wallet (EditRecipient i op) m = edit_recipient core wallet i op m"

section \<open>Rows up to their unit\<close>

text \<open>
  The slots may change the unit of a row and nothing else of it. \<open>erase\<close> forgets the unit; the sum
  and the validity of a row do not depend on it.
\<close>

definition erase :: "nat \<times> SendRecipient \<Rightarrow> nat \<times> SendRecipient" where
  "erase p = (fst p, (snd p)\<lparr>r_amount := (amount_of p)\<lparr>m_unit := BTC\<rparr>\<rparr>)"

abbreviation rows :: "RecipientsModel \<Rightarrow> (nat \<times> SendRecipient) list" where
  "rows m \<equiv> map erase (m_recipients m)"

lemma erase_simps [simp]:
  "fst (erase p) = fst p"
  "m_satoshi (amount_of (erase p)) = m_satoshi (amount_of p)"
  "erase (i, set_recipient_unit u r) = erase (i, r)"
  by (simp_all add: erase_def amount_of_def set_recipient_unit_def setUnit_def)

lemma unit_set [simp]: "m_unit (amount_of (i, set_recipient_unit u r)) = u"
  by (simp add: amount_of_def set_recipient_unit_def setUnit_def)

lemma sum_amounts_erase: "map erase ps = map erase qs \<Longrightarrow> sum_amounts t ps = sum_amounts t qs"
proof (induction ps arbitrary: qs t)
  case (Cons p ps)
  then obtain p' qs' where q: "qs = p' # qs'" "erase p = erase p'" "map erase ps = map erase qs'"
    by (cases qs) auto
  have "m_satoshi (amount_of p) = m_satoshi (amount_of p')"
    using arg_cong [OF q(2), of "\<lambda>p. m_satoshi (amount_of p)"] by simp
  moreover have "sum_amounts s ps = sum_amounts s qs'" for s using Cons.IH q(3) by blast
  ultimately show ?case by (simp add: q(1))
qed simp

lemma recipient_ok_erase: "recipient_ok core wallet (snd (erase p)) = recipient_ok core wallet (snd p)"
  by (simp add: erase_def amount_of_def recipient_ok_def amount_ok_def amount_error_of_def)

lemma sync_units_rows [simp]: "rows (fst (sync_units i m)) = rows m"
  by (auto simp: sync_units_def Let_def)

lemma sync_units_frame [simp]:
  "m_current (fst (sync_units i m)) = m_current m"
  "m_totalAmount (fst (sync_units i m)) = m_totalAmount m"
  "m_syncing_units (fst (sync_units i m)) = m_syncing_units m"
  "next_object (fst (sync_units i m)) = next_object m"
  by (simp_all add: sync_units_def Let_def)

lemma updateTotalAmount_Some:
  "updateTotalAmount m = Some (m', l) \<Longrightarrow>
     sum_amounts 0 (m_recipients m) = Some (m_totalAmount m') \<and> m' = m\<lparr>m_totalAmount := m_totalAmount m'\<rparr>"
  by (cases m) (auto simp: updateTotalAmount_def bind_eq_Some_conv split: if_splits)

lemma updateTotalAmount_frame:
  assumes "updateTotalAmount m = Some (m', l)"
  shows "m_recipients m' = m_recipients m" "m_current m' = m_current m"
    "m_syncing_units m' = m_syncing_units m" "next_object m' = next_object m"
  using assms by (auto simp: updateTotalAmount_def bind_eq_Some_conv split: if_splits)

text \<open>What one slot call does, and what the delivery of a log of signals does.\<close>

lemma recipient_slots_frame:
  assumes "recipient_slots i s m = Some (m', l)"
  shows "rows m' = rows m \<and> m_current m' = m_current m \<and> m_syncing_units m' = m_syncing_units m \<and>
     next_object m' = next_object m \<and>
     (if s = FromAmount amountChanged then sum_amounts 0 (m_recipients m) = Some (m_totalAmount m')
      else m_totalAmount m' = m_totalAmount m)"
  using assms
proof (cases "(i, s, m)" rule: recipient_slots.cases)
  case (5 j m0)
  with assms obtain l' where "updateTotalAmount m = Some (m', l')"
    by (auto simp: bind_eq_Some_conv)
  from updateTotalAmount_Some [OF this] updateTotalAmount_frame [OF this] 5 show ?thesis by simp
next
  case (6 j m0)
  with assms have "m' = fst (sync_units i m)" by (auto simp: andthen_pair)
  with 6 show ?thesis by simp
qed auto

lemma deliver_frame:
  assumes "deliver i ss m = Some (m', l)"
  shows "rows m' = rows m \<and> m_current m' = m_current m \<and> m_syncing_units m' = m_syncing_units m \<and>
     next_object m' = next_object m \<and>
     (if FromAmount amountChanged \<in> set ss then sum_amounts 0 (m_recipients m) = Some (m_totalAmount m')
      else m_totalAmount m' = m_totalAmount m)"
  using assms
proof (induction ss arbitrary: m l)
  case (Cons s ss)
  then obtain m1 l1 l2 where 1: "recipient_slots i s m = Some (m1, l1)" and 2: "deliver i ss m1 = Some (m', l2)"
    by (auto simp: bind_eq_Some_conv)
  note a = recipient_slots_frame [OF 1] and b = Cons.IH [OF 2]
  from a have "sum_amounts 0 (m_recipients m1) = sum_amounts 0 (m_recipients m)"
    by (intro sum_amounts_erase) simp
  with a b show ?case by (auto split: if_splits)
qed simp

text \<open>Replacing a row by one with the same amount keeps the sum.\<close>

lemma sum_amounts_update:
  "m_satoshi (amount_of p) = m_satoshi (amount_of (ps ! i)) \<Longrightarrow>
   sum_amounts t (ps[i := p]) = sum_amounts t ps"
proof (induction ps arbitrary: t i)
  case (Cons x xs)
  then show ?case by (cases i) simp_all
qed simp

section \<open>One unit for all\<close>

definition uniform :: "Unit \<Rightarrow> RecipientsModel \<Rightarrow> bool" where
  "uniform u m \<longleftrightarrow> (\<forall>p \<in> set (m_recipients m). m_unit (amount_of p) = u)"

abbreviation unit_at :: "nat \<Rightarrow> RecipientsModel \<Rightarrow> Unit" where
  "unit_at i m \<equiv> m_unit (amount_of (m_recipients m ! i))"

lemma rows_length: "rows m' = rows m \<Longrightarrow> length (m_recipients m') = length (m_recipients m)"
  by (rule map_eq_imp_length_eq)

lemma rows_ids: "rows m' = rows m \<Longrightarrow> map fst (m_recipients m') = map fst (m_recipients m)"
  by (drule arg_cong [where f = "map fst"]) (simp add: comp_def)

lemma sync_units_uniform:
  assumes "i < length (m_recipients m)" "\<not> m_syncing_units m" "distinct (map fst (m_recipients m))"
  shows "uniform (unit_at i m) (fst (sync_units i m)) \<and> unit_at i (fst (sync_units i m)) = unit_at i m"
proof -
  let ?u = "unit_at i m"
  let ?f = "\<lambda>p. if fst p \<noteq> fst (m_recipients m ! i) then (fst p, set_recipient_unit ?u (snd p)) else p"
  have rec: "m_recipients (fst (sync_units i m)) = map ?f (m_recipients m)"
    using assms(2) by (simp add: sync_units_def Let_def)
  have "m_unit (amount_of (?f p)) = ?u" if "p \<in> set (m_recipients m)" for p
  proof (cases "fst p = fst (m_recipients m ! i)")
    case True
    then have "p = m_recipients m ! i" using that assms(1,3) by (metis distinct_map inj_onD nth_mem)
    then show ?thesis by simp
  qed simp
  then have "uniform ?u (fst (sync_units i m))"
    unfolding uniform_def rec list.set_map by (intro ballI) (erule imageE, simp only:)
  then show ?thesis using assms(1) by (simp add: rec)
qed

lemma recipient_slots_units:
  assumes "recipient_slots i s m = Some (m', l)" "i < length (m_recipients m)"
    "\<not> m_syncing_units m" "distinct (map fst (m_recipients m))"
  shows "unit_at i m' = unit_at i m \<and>
     (s = FromAmount unitChanged \<or> uniform (unit_at i m) m \<longrightarrow> uniform (unit_at i m) m')"
  using assms(1)
proof (cases "(i, s, m)" rule: recipient_slots.cases)
  case (5 j m0)
  with assms(1) obtain l' where "updateTotalAmount m = Some (m', l')"
    by (auto simp: bind_eq_Some_conv)
  with 5 updateTotalAmount_frame [OF this] show ?thesis by (simp add: uniform_def)
next
  case (6 j m0)
  with assms have "m' = fst (sync_units i m)" by (auto simp: andthen_pair)
  with sync_units_uniform [OF assms(2-4)] show ?thesis by simp
qed auto

lemma deliver_units:
  assumes "deliver i ss m = Some (m', l)" "i < length (m_recipients m)"
    "\<not> m_syncing_units m" "distinct (map fst (m_recipients m))"
    "FromAmount unitChanged \<in> set ss \<or> uniform (unit_at i m) m"
  shows "uniform (unit_at i m) m'"
  using assms
proof (induction ss arbitrary: m l)
  case (Cons s ss)
  then obtain m1 l1 l2 where 1: "recipient_slots i s m = Some (m1, l1)" and 2: "deliver i ss m1 = Some (m', l2)"
    by (auto simp: bind_eq_Some_conv)
  note f = recipient_slots_frame [OF 1]
  note u = recipient_slots_units [OF 1 Cons.prems(2-4)]
  have "length (m_recipients m1) = length (m_recipients m)"
    "map fst (m_recipients m1) = map fst (m_recipients m)"
    using f rows_length rows_ids by blast+
  then show ?case using Cons.IH [OF 2] Cons.prems f u by auto
qed auto

text \<open>The recipient's log names every change of its amount and of its unit.\<close>

lemma edit_amount_mentions:
  "FromAmount ` set (snd upd) \<subseteq> set (snd (edit_amount core wallet upd r))"
  using run_slots_log [of FromAmount "snd upd" "amount_slots core wallet"]
  by (auto simp: edit_amount_def)

lemma edit_amount_amount [simp]: "r_amount (fst (edit_amount core wallet upd r)) = fst upd"
  by (simp add: edit_amount_def amount_slots_fst)

lemma recipient_step_mentions:
  assumes "recipient_step core wallet op r = Some (r', sigs)"
  shows "(m_satoshi (r_amount r') \<noteq> m_satoshi (r_amount r) \<longrightarrow> FromAmount amountChanged \<in> set sigs) \<and>
     (m_unit (r_amount r') \<noteq> m_unit (r_amount r) \<longrightarrow> FromAmount unitChanged \<in> set sigs)"
proof (cases op)
  case (EditAmount aop)
  then obtain a' s' where u: "amount_step (COIN_value core) aop (r_amount r) = Some (a', s')"
    "edit_amount core wallet (a', s') r = (r', sigs)" using assms by auto
  from u(2) have "r_amount r' = a'" using edit_amount_amount [of core wallet "(a', s')" r] by simp
  moreover have "FromAmount ` set s' \<subseteq> set sigs"
    using edit_amount_mentions [of "(a', s')" core wallet r] u(2) by simp
  ultimately show ?thesis using amount_step_cases [OF u(1)] by auto
next
  case ClearRecipient
  define e where "e = fst (edit_address core wallet [] 0
    (r\<lparr>m_request_address := [], m_request_label := [], m_label := [], m_message := []\<rparr>))"
  have a: "r_amount e = r_amount r" by (simp add: e_def)
  have "r' = fst (recipient_clear core wallet r)" "sigs = snd (recipient_clear core wallet r)"
    using assms ClearRecipient by simp_all
  then have "r_amount r' = fst (amount_clear (r_amount r))"
    "FromAmount ` set (snd (amount_clear (r_amount r))) \<subseteq> set sigs"
    using edit_amount_mentions [of "amount_clear (r_amount r)" core wallet e]
    by (auto simp: recipient_clear_def andthen_snd e_def [symmetric] a)
  then show ?thesis by (auto simp: amount_clear_def Let_def split: if_splits)
next
  case (EditAddress s cur)
  then have "r' = fst (edit_address core wallet s cur r)" using assms by simp
  then show ?thesis by simp
next
  case (SetAddressText s)
  then have "r' = fst (recipient_setAddress core wallet s r)" using assms by simp
  then show ?thesis by (simp add: recipient_setAddress_def)
next
  case (ApplyPaymentRequest a p m)
  then have "r' = fst (applyPaymentRequest core wallet a p m r)" using assms by simp
  then show ?thesis by (simp add: applyPaymentRequest_def recipient_setAddress_def)
qed (use assms in \<open>auto simp: setLabel_def setMessage_def split: if_splits\<close>)

section \<open>Invariant\<close>

definition list_ok :: "'dest core \<Rightarrow> (nat \<Rightarrow> wallet_view option) \<Rightarrow> RecipientsModel \<Rightarrow> bool" where
  "list_ok core seen m \<longleftrightarrow>
     0 \<le> m_current m \<and> m_current m < int (length (m_recipients m)) \<and> \<not> m_syncing_units m \<and>
     distinct (map fst (m_recipients m)) \<and> (\<forall>j \<in> fst ` set (m_recipients m). j < next_object m) \<and>
     (\<exists>u. uniform u m) \<and> sum_amounts 0 (m_recipients m) = Some (m_totalAmount m) \<and>
     (\<forall>p \<in> set (m_recipients m). recipient_ok core (seen (fst p)) (snd p))"

lemma list_okD:
  assumes "list_ok core seen m"
  shows "0 \<le> m_current m" "m_current m < int (length (m_recipients m))" "\<not> m_syncing_units m"
    "distinct (map fst (m_recipients m))" "m_recipients m \<noteq> []"
    "uniform (unit_at 0 m) m" "sum_amounts 0 (m_recipients m) = Some (m_totalAmount m)"
proof -
  show ne: "m_recipients m \<noteq> []" using assms by (auto simp: list_ok_def)
  from assms obtain u where "uniform u m" by (auto simp: list_ok_def)
  moreover from this ne have "u = unit_at 0 m" by (simp add: uniform_def)
  ultimately show "uniform (unit_at 0 m) m" by simp
qed (use assms in \<open>auto simp: list_ok_def\<close>)

text \<open>Equal rows up to unit carry the row-wise parts of the invariant over.\<close>

lemma rows_ok:
  assumes "rows m' = rows m" "\<forall>p \<in> set (m_recipients m). recipient_ok core (seen (fst p)) (snd p)"
  shows "\<forall>p \<in> set (m_recipients m'). recipient_ok core (seen (fst p)) (snd p)"
proof
  fix p assume "p \<in> set (m_recipients m')"
  then have "erase p \<in> set (rows m)" using assms(1) by (metis image_eqI list.set_map)
  then obtain p' where "p' \<in> set (m_recipients m)" "erase p = erase p'" by auto
  moreover from this have "fst p = fst p'" by (metis erase_simps(1))
  ultimately show "recipient_ok core (seen (fst p)) (snd p)"
    using assms(2) by (metis recipient_ok_erase)
qed

lemma uniform_nth: "uniform u m \<Longrightarrow> i < length (m_recipients m) \<Longrightarrow> unit_at i m = u"
  by (simp add: uniform_def)

text \<open>
  The wallet each recipient was last validated against. A validation of the recipient in a row reaches the list as
  \<open>validationChanged\<close>.
\<close>

definition seen_after :: "wallet_view option \<Rightarrow> ListOp \<Rightarrow> RecipientsModel \<Rightarrow> ListSignal list \<Rightarrow> (nat \<Rightarrow> wallet_view option) \<Rightarrow> nat \<Rightarrow> wallet_view option" where
  "seen_after w op m l seen =
     (case op of
        EditRecipient i rop \<Rightarrow>
          if i < length (m_recipients m) \<and> validationChanged \<in> set l then seen(fst (m_recipients m ! i) := w) else seen
      | _ \<Rightarrow> seen)"

lemma slots_validation:
  assumes "recipient_slots i s m = Some (m', l)"
  shows "validationChanged \<in> set l \<longleftrightarrow> s = isValidChanged"
  using assms
proof (cases "(i, s, m)" rule: recipient_slots.cases)
  case (5 j m0)
  then show ?thesis using assms by (auto simp: updateTotalAmount_def bind_eq_Some_conv split: if_splits)
next
  case (6 j m0)
  then show ?thesis using assms by (auto simp: andthen_def sync_units_def Let_def unit_rows_def split: if_splits prod.splits)
qed auto

lemma deliver_validation:
  assumes "deliver i ss m = Some (m', l)"
  shows "validationChanged \<in> set l \<longleftrightarrow> isValidChanged \<in> set ss"
  using assms
proof (induction ss arbitrary: m l)
  case (Cons s ss)
  then obtain m1 l1 l2 where 1: "recipient_slots i s m = Some (m1, l1)" "deliver i ss m1 = Some (m', l2)" "l = l1 @ l2"
    by (auto simp: bind_eq_Some_conv)
  then show ?case using slots_validation [OF 1(1)] Cons.IH [OF 1(2)] by auto
qed simp

lemma edit_recipient_ok:
  assumes ok: "list_ok core seen m" and e: "edit_recipient core w i op m = Some (m', l)"
  shows "list_ok core (seen_after w (EditRecipient i op) m l seen) m'"
proof (cases "i < length (m_recipients m)")
  case False
  with ok e show ?thesis by (simp add: edit_recipient_def seen_after_def)
next
  case True
  let ?r = "snd (m_recipients m ! i)"
  from e True obtain r' sigs where s: "recipient_step core w op ?r = Some (r', sigs)"
    and d: "deliver i sigs (m\<lparr>m_recipients := (m_recipients m)[i := (fst (m_recipients m ! i), r')]\<rparr>)
      = Some (m', l)"
    by (auto simp: edit_recipient_def bind_eq_Some_conv)
  define m1 where "m1 = m\<lparr>m_recipients := (m_recipients m)[i := (fst (m_recipients m ! i), r')]\<rparr>"
  note d = d [folded m1_def] and D = list_okD [OF ok]
  have ids: "map fst (m_recipients m1) = map fst (m_recipients m)"
    using True list_update_id [of "map fst (m_recipients m)" i] by (simp add: m1_def map_update)
  have len: "length (m_recipients m1) = length (m_recipients m)" by (simp add: m1_def)
  note f = deliver_frame [OF d]
  let ?k = "fst (m_recipients m ! i)"
  define seen' where "seen' = seen_after w (EditRecipient i op) m l seen"
  have "recipient_ok core (seen ?k) ?r" using ok nth_mem [OF True] by (simp add: list_ok_def)
  from recipient_step_checked [OF this s] have r': "recipient_ok core (seen' ?k) r'"
    using deliver_validation [OF d] True by (simp add: checked_def seen'_def seen_after_def split: if_splits)
  have others: "seen' k = seen k" if "k \<noteq> ?k" for k using that by (simp add: seen'_def seen_after_def)
  have at: "unit_at i m1 = m_unit (r_amount r')" using True by (simp add: m1_def amount_of_def)
  have "FromAmount unitChanged \<in> set sigs \<or> uniform (unit_at i m1) m1"
  proof (cases "FromAmount unitChanged \<in> set sigs")
    case False
    with recipient_step_mentions [OF s] have "m_unit (r_amount r') = m_unit (r_amount ?r)" by blast
    also have "\<dots> = unit_at 0 m" using uniform_nth [OF D(6) True] by (simp add: amount_of_def)
    finally show ?thesis using D(6) at
      by (auto simp: uniform_def m1_def amount_of_def dest!: subsetD [OF set_update_subset_insert])
  qed simp
  then have unif: "uniform (unit_at i m1) m'"
    by (intro deliver_units [OF d]) (use True D ids len in \<open>simp_all add: m1_def\<close>)
  have all: "\<forall>p \<in> set (m_recipients m1). recipient_ok core (seen' (fst p)) (snd p)"
  proof
    fix p assume p: "p \<in> set (m_recipients m1)"
    then obtain j where j: "j < length (m_recipients m)" "p = m_recipients m1 ! j" using len by (metis in_set_conv_nth)
    show "recipient_ok core (seen' (fst p)) (snd p)"
    proof (cases "j = i")
      case True
      then show ?thesis using r' j by (simp add: m1_def)
    next
      case False
      then have "p = m_recipients m ! j" "fst p \<noteq> ?k" using j True D(4) by (simp_all add: m1_def distinct_conv_nth)
      then show ?thesis using ok j(1) others by (simp add: list_ok_def)
    qed
  qed
  have "sum_amounts 0 (m_recipients m') = Some (m_totalAmount m')"
  proof -
    have eq: "sum_amounts 0 (m_recipients m') = sum_amounts 0 (m_recipients m1)"
      using f by (intro sum_amounts_erase) simp
    show ?thesis
    proof (cases "FromAmount amountChanged \<in> set sigs")
      case True
      then show ?thesis using f eq by simp
    next
      case False
      with recipient_step_mentions [OF s] have "m_satoshi (r_amount r') = m_satoshi (r_amount ?r)" by blast
      then have "sum_amounts 0 (m_recipients m1) = sum_amounts 0 (m_recipients m)"
        by (simp add: m1_def sum_amounts_update amount_of_def)
      with False f eq D(7) show ?thesis by (simp add: m1_def)
    qed
  qed
  moreover have "map fst (m_recipients m') = map fst (m_recipients m)"
    using f rows_ids ids by metis
  moreover from this have "fst ` set (m_recipients m') = fst ` set (m_recipients m)"
    by (metis list.set_map)
  moreover have "\<forall>p \<in> set (m_recipients m'). recipient_ok core (seen' (fst p)) (snd p)"
    using f rows_ok [OF _ all] by blast
  moreover have "length (m_recipients m') = length (m_recipients m)"
    using f rows_length [of m' m1] len by simp
  ultimately show ?thesis using ok f unif unfolding list_ok_def seen'_def [symmetric] by (auto simp: m1_def)
qed

lemma sum_amounts_eq: "sum_amounts t ps = Some s \<Longrightarrow> s = t + (\<Sum>p \<leftarrow> ps. m_satoshi (amount_of p))"
proof (induction ps arbitrary: t)
  case (Cons p ps)
  then obtain t' where "sum_amounts t' ps = Some s" "t' = t + m_satoshi (amount_of p)"
    by (auto simp: bind_eq_Some_conv)
  with Cons.IH [of t'] show ?case by simp
qed simp

lemma sum_amounts_append:
  "sum_amounts t (ps @ qs) = Option.bind (sum_amounts t ps) (\<lambda>s. sum_amounts s qs)"
  by (induction ps arbitrary: t) (simp_all add: Option.bind_assoc)

lemma sum_amounts_in: "sum_amounts t ps = Some s \<Longrightarrow> in_i64 t \<Longrightarrow> in_i64 s"
  by (induction ps arbitrary: t) (auto simp: bind_eq_Some_conv)

lemma new_recipient_sum: "sum_amounts 0 [(i, new_SendRecipient)] = Some 0"
  by (simp add: amount_of_def new_SendRecipient_def new_BitcoinAmount_def i64_defs)

lemma new_list_ok: "list_ok core seen new_RecipientsModel"
  using new_recipient_sum [of 0]
  by (auto simp: list_ok_def new_RecipientsModel_def uniform_def new_SendRecipient_ok)

lemma setCurrentIndex_ok:
  "list_ok core seen m \<Longrightarrow> list_ok core seen (fst (setCurrentIndex row m))"
  by (auto simp: setCurrentIndex_def list_ok_def uniform_def)

lemma removeAt_ok:
  assumes ok: "list_ok core seen m" and e: "removeAt row m = Some (m', l)"
  shows "list_ok core seen m'"
proof (cases "length (m_recipients m) \<le> 1 \<or> row < 0 \<or> row \<ge> int (length (m_recipients m))")
  case True
  with e ok show ?thesis by (simp add: removeAt_def)
next
  case False
  let ?rs = "take (nat row) (m_recipients m) @ drop (Suc (nat row)) (m_recipients m)"
  let ?cur = "if row < m_current m \<or> m_current m \<ge> int (length ?rs) then m_current m - 1 else m_current m"
  define m1 where "m1 = m\<lparr>m_recipients := ?rs, m_current := ?cur\<rparr>"
  from e False obtain l2 where u: "updateTotalAmount m1 = Some (m', l2)"
    by (auto simp: removeAt_def Let_def bind_eq_Some_conv m1_def)
  note U = updateTotalAmount_Some [OF u]
  then have m': "m_recipients m' = ?rs" "m_current m' = ?cur" "m_syncing_units m' = m_syncing_units m"
    "next_object m' = next_object m"
    using updateTotalAmount_frame [OF u] by (simp_all add: m1_def)
  have sub: "set ?rs \<subseteq> set (m_recipients m)"
    by (auto dest: in_set_takeD in_set_dropD)
  have len: "int (length ?rs) = int (length (m_recipients m)) - 1" using False by auto
  have "distinct (map fst ?rs)"
  proof -
    have "map fst ?rs = take (nat row) (map fst (m_recipients m)) @ drop (Suc (nat row)) (map fst (m_recipients m))"
      by (simp add: take_map drop_map)
    also have "distinct \<dots>" using list_okD(4) [OF ok]
      by (simp add: set_take_disj_set_drop_if_distinct distinct_take distinct_drop)
    finally show ?thesis .
  qed
  moreover have "sum_amounts 0 ?rs = Some (m_totalAmount m')" using U by (simp add: m1_def)
  moreover have "0 \<le> ?cur" "?cur < int (length ?rs)"
    using list_okD(1,2) [OF ok] len False by (simp_all split: if_splits)
  moreover have "\<exists>u. uniform u m'" using list_okD(6) [OF ok] sub m'(1) by (auto simp: uniform_def)
  ultimately show ?thesis using ok sub m' unfolding list_ok_def by (simp only: m') blast
qed

lemma list_add_ok:
  assumes ok: "list_ok core seen m"
  shows "list_ok core seen (fst (list_add m))"
proof -
  note D = list_okD [OF ok]
  let ?u = "unit_at (nat (m_current m)) m"
  let ?p = "(next_object m, set_recipient_unit ?u new_SendRecipient)"
  have u: "uniform ?u m" using D uniform_nth [OF D(6), of "nat (m_current m)"] by simp
  then have same: "map (\<lambda>p. (fst p, set_recipient_unit ?u (snd p))) (m_recipients m) = m_recipients m"
    by (intro map_idI) (auto simp: uniform_def set_recipient_unit_def setUnit_def amount_of_def)
  define m1 where "m1 = m\<lparr>m_recipients := m_recipients m @ [?p], next_object := Suc (next_object m)\<rparr>"
  have fst_add: "fst (list_add m) = fst (setCurrentIndex (int (length (m_recipients m))) m1)"
    using D(5) same by (simp add: list_add_def Let_def m1_def split: prod.splits)
  have "sum_amounts 0 (m_recipients m1) = Some (m_totalAmount m1)"
    using D(7) sum_amounts_in [OF D(7)] by (simp add: m1_def sum_amounts_append amount_of_def
        set_recipient_unit_def setUnit_def new_SendRecipient_def new_BitcoinAmount_def i64_defs)
  moreover have "recipient_ok core wv (set_recipient_unit ?u new_SendRecipient)" for wv
    using recipient_ok_erase [of core wv ?p]
      recipient_ok_erase [of core wv "(next_object m, new_SendRecipient)"]
      new_SendRecipient_ok [of core wv] by simp
  moreover have "uniform ?u m1" using u by (auto simp: uniform_def m1_def)
  ultimately have "list_ok core seen m1" using ok unfolding list_ok_def by (auto simp: m1_def less_Suc_eq)
  then show ?thesis unfolding fst_add by (rule setCurrentIndex_ok)
qed

lemma clearToFront_ok:
  assumes ok: "list_ok core seen m"
  shows "list_ok core seen (fst (clearToFront m))"
proof -
  note D = list_okD [OF ok]
  obtain p ps where ps: "m_recipients m = p # ps" using D(5) by (cases "m_recipients m") auto
  have "in_i64 (m_satoshi (amount_of p))" using D(7) by (auto simp: ps bind_eq_Some_conv)
  then have "sum_amounts 0 [p] = Some (m_satoshi (amount_of p))" by simp
  moreover have "fst (clearToFront m) =
      m\<lparr>m_current := 0, m_recipients := [p], m_totalAmount := m_satoshi (amount_of p)\<rparr>"
    by (rule RecipientsModel.equality) (auto simp: clearToFront_def Let_def ps)
  ultimately show ?thesis using ok by (auto simp: list_ok_def ps uniform_def)
qed

lemma list_clear_ok: "list_ok core seen m \<Longrightarrow> list_ok core seen (fst (list_clear w m))"
  using new_recipient_sum [of "next_object m"] new_SendRecipient_ok
  by (auto simp: list_ok_def list_clear_def uniform_def)

lemma list_step_ok:
  assumes ok: "list_ok core seen m" and s: "list_step core w op m = Some (m', l)"
  shows "list_ok core (seen_after w op m l seen) m'"
proof (cases "\<exists>i rop. op = EditRecipient i rop")
  case True
  then show ?thesis using edit_recipient_ok [OF ok] s by auto
next
  case False
  then have same: "seen_after w op m l seen = seen" by (cases op) (auto simp: seen_after_def)
  have pair: "list_ok core seen m'" if "list_ok core seen (fst r)" "Some r = Some (m', l)" for r
    using that by auto
  show ?thesis unfolding same using s False
    by (cases op) (auto simp only: list_step.simps list_next_def list_prev_def list_remove_def
        intro: pair list_add_ok setCurrentIndex_ok list_clear_ok clearToFront_ok removeAt_ok ok)
qed

section \<open>Properties\<close>

text \<open>Histories, in which the wallet may be another at every operation.\<close>

inductive list_reachable :: "'dest core \<Rightarrow> (nat \<Rightarrow> wallet_view option) \<Rightarrow> RecipientsModel \<Rightarrow> bool"
  for core :: "'dest core" where
  list_start: "list_reachable core seen new_RecipientsModel"
| list_more: "list_reachable core seen m \<Longrightarrow>
     list_step core w op m = Some (m', l) \<Longrightarrow> list_reachable core (seen_after w op m l seen) m'"

lemma list_reachable_ok: "list_reachable core seen m \<Longrightarrow> list_ok core seen m"
  by (induction rule: list_reachable.induct) (auto intro: new_list_ok list_step_ok)

fun list_run :: "'dest core \<Rightarrow> (wallet_view option \<times> ListOp) list \<Rightarrow> (nat \<Rightarrow> wallet_view option) \<times> RecipientsModel \<Rightarrow>
    ((nat \<Rightarrow> wallet_view option) \<times> RecipientsModel) option" where
  "list_run core [] sm = Some sm"
| "list_run core ((w, op) # ops) (seen, m) =
     do { (m', l) \<leftarrow> list_step core w op m; list_run core ops (seen_after w op m l seen, m') }"

lemma list_run_reachable:
  "list_run core ops (seen, m) = Some (seen', m') \<Longrightarrow> list_reachable core seen m \<Longrightarrow> list_reachable core seen' m'"
proof (induction ops arbitrary: seen m)
  case (Cons x ops)
  obtain w op where x: "x = (w, op)" by (cases x)
  from Cons.prems(1) obtain m1 l where s: "list_step core w op m = Some (m1, l)" "list_run core ops (seen_after w op m l seen, m1) = Some (seen', m')"
    by (auto simp: x bind_eq_Some_conv)
  show ?case by (rule Cons.IH [OF s(2) list_more [OF Cons.prems(2) s(1)]])
qed simp

text \<open>The balance grows between the edits of the first and of the second recipient.\<close>

definition sample_list_ops :: "(wallet_view option \<times> ListOp) list" where
  "sample_list_ops =
     map (\<lambda>op. (Some sample_poor, op))
       [EditRecipient 0 (EditAmount FlipUnit), EditRecipient 0 (EditAmount (SetSatoshi 4000)),
        EditRecipient 0 (EditAddress (q ''bcrt1a'') 0)] @
     map (\<lambda>op. (Some sample_wallet, op))
       [Add, EditRecipient 1 (EditAmount (FromDisplay (q ''5000''))),
        EditRecipient 1 (EditAddress (q ''bcrt1b'') 0)]"

definition sample_final :: "(nat \<Rightarrow> wallet_view option) \<times> RecipientsModel" where
  "sample_final = the (list_run sample_core sample_list_ops (\<lambda>k. None, new_RecipientsModel))"

definition sample_list :: RecipientsModel where
  "sample_list = snd sample_final"

lemma sample_list_reachable: "list_reachable sample_core (fst sample_final) sample_list"
proof -
  have "list_run sample_core sample_list_ops (\<lambda>k. None, new_RecipientsModel) \<noteq> None" by code_simp
  then have "list_run sample_core sample_list_ops (\<lambda>k. None, new_RecipientsModel) = Some (fst sample_final, sample_list)"
    by (auto simp: sample_final_def sample_list_def)
  then show ?thesis by (rule list_run_reachable) (rule list_start)
qed

text \<open>
  C2: the composed payment is always coherent: after any sequence of adding, removing, selecting,
  clearing and editing recipients, with a wallet that may change between them, there is at least one recipient, the current index is one of
  theirs, the displayed total is the exact sum of the recipients' amounts, all recipients show the
  same unit, and the errors of every recipient are the ones its present address and amount deserve by the wallet
  against which this recipient was last validated.
\<close>

theorem recipients_invariant:
  assumes "list_reachable core seen m"
  shows "m_recipients m \<noteq> [] \<and> 0 \<le> m_current m \<and> m_current m < int (length (m_recipients m)) \<and>
     m_totalAmount m = (\<Sum>p \<leftarrow> m_recipients m. cAmount (snd p)) \<and>
     (\<forall>p \<in> set (m_recipients m). \<forall>p' \<in> set (m_recipients m).
        m_unit (r_amount (snd p)) = m_unit (r_amount (snd p'))) \<and>
     (\<forall>p \<in> set (m_recipients m). recipient_ok core (seen (fst p)) (snd p))"
proof -
  note ok = list_reachable_ok [OF assms]
  note D = list_okD [OF ok]
  have "m_totalAmount m = (\<Sum>p \<leftarrow> m_recipients m. cAmount (snd p))"
    using sum_amounts_eq [OF D(7)] by (simp add: cAmount_def amount_of_def)
  moreover have "m_unit (r_amount (snd p)) = unit_at 0 m" if "p \<in> set (m_recipients m)" for p
    using D(6) that by (auto simp: uniform_def amount_of_def)
  ultimately show ?thesis using ok D by (simp add: list_ok_def)
qed

theorem recipients_invariant_witness:
  "length (m_recipients sample_list) = 2 \<and>
   m_totalAmount sample_list = (\<Sum>p \<leftarrow> m_recipients sample_list. cAmount (snd p)) \<and>
   m_totalAmount sample_list = 9000 \<and>
   m_amountError (snd (m_recipients sample_list ! 0)) = ExceedsBalance \<and>
   m_amountError (snd (m_recipients sample_list ! 1)) = NoAmountError"
proof -
  have c: "length (m_recipients sample_list) = 2" "m_totalAmount sample_list = 9000" by code_simp+
  have s: "fst sample_final 0 = Some sample_poor" "fst sample_final 1 = Some sample_wallet"
    "map fst (m_recipients sample_list) = [0, 1]"
    "map (\<lambda>p. (m_isSet (r_amount (snd p)), cAmount (snd p), m_address (r_address (snd p)), m_addressError (snd p))) (m_recipients sample_list) =
       [(True, 4000, q ''bcrt1a'', NoAddressError), (True, 5000, q ''bcrt1b'', NoAddressError)]" by code_simp+
  obtain p p' where ps: "m_recipients sample_list = [p, p']" using c(1) by (auto simp: length_Suc_conv numeral_2_eq_2)
  from conjunct2 [OF conjunct2 [OF conjunct2 [OF conjunct2 [OF conjunct2 [OF recipients_invariant [OF sample_list_reachable]]]]]] ps s
  have ok: "recipient_ok sample_core (Some sample_poor) (snd p)" "recipient_ok sample_core (Some sample_wallet) (snd p')" by simp_all
  then have "m_amountError (snd p) = ExceedsBalance" "m_amountError (snd p') = NoAmountError"
    using s(4) ps by (simp_all add: recipient_ok_def amount_error_of_def cAmount_def over_balance_def dust_fee_def sample_core_def sample_poor_def sample_wallet_def)
  then show ?thesis using c ps recipients_invariant [OF sample_list_reachable] by simp
qed

text \<open>The two validation loops, in closed form.\<close>

abbreviation dest_of :: "'dest core \<Rightarrow> nat \<times> SendRecipient \<Rightarrow> 'dest" where
  "dest_of core p \<equiv> DecodeDestination core (m_address (r_address (snd p)))"

lemma valid_loop_iff:
  "valid_loop core ds ps \<longleftrightarrow>
     (\<forall>p \<in> set ps. isValid (snd p)) \<and> distinct (map (dest_of core) ps) \<and>
     set ds \<inter> dest_of core ` set ps = {}"
  by (induction ps arbitrary: ds) (auto simp: Let_def)

lemma error_loop_none:
  "error_loop core n ds ps = NoValidationError \<longleftrightarrow>
     valid_loop core ds ps \<or> (n \<le> 1 \<and> (\<exists>p \<in> set ps. \<not> isValid (snd p)) \<and>
       valid_loop core ds (takeWhile (\<lambda>p. isValid (snd p)) ps))"
  by (induction ps arbitrary: ds) (auto simp: Let_def)

text \<open>
  sending is enabled exactly for complete payments to different destinations: \<open>allValid\<close> holds
  iff there is a recipient, every recipient is valid and no two decode to the same destination;
  and whenever it does not hold, \<open>validationError\<close> gives a reason, except for a single recipient
  that is still incomplete, and it never complains about a payment that may be sent.
\<close>

theorem allValid_iff:
  "(allValid core m \<longleftrightarrow> m_recipients m \<noteq> [] \<and> (\<forall>p \<in> set (m_recipients m). isValid (snd p)) \<and>
      distinct (map (\<lambda>p. DecodeDestination core (m_address (r_address (snd p)))) (m_recipients m))) \<and>
   (validationError core m = NoValidationError \<longleftrightarrow>
      allValid core m \<or> (\<exists>p. m_recipients m = [p] \<and> \<not> isValid (snd p)))"
proof
  show v: "allValid core m \<longleftrightarrow> m_recipients m \<noteq> [] \<and> (\<forall>p \<in> set (m_recipients m). isValid (snd p)) \<and>
      distinct (map (\<lambda>p. DecodeDestination core (m_address (r_address (snd p)))) (m_recipients m))"
    by (auto simp: allValid_def valid_loop_iff)
  show "validationError core m = NoValidationError \<longleftrightarrow>
      allValid core m \<or> (\<exists>p. m_recipients m = [p] \<and> \<not> isValid (snd p))"
  proof (cases "m_recipients m")
    case (Cons p ps)
    then show ?thesis
      by (cases ps) (auto simp: validationError_def error_loop_none allValid_def Let_def)
  qed (simp add: validationError_def allValid_def)
qed

theorem allValid_iff_witness:
  "\<not> allValid sample_core sample_list \<and> validationError sample_core sample_list \<noteq> NoValidationError"
proof -
  have "\<not> allValid sample_core sample_list" "length (m_recipients sample_list) = 2" by code_simp+
  with allValid_iff [of sample_core sample_list] show ?thesis by auto
qed

lemma currentRecipient_Some:
  "0 \<le> m_current m \<Longrightarrow> m_current m < int (length (m_recipients m)) \<Longrightarrow>
   currentRecipient m = Some (fst (m_recipients m ! nat (m_current m)))"
  by (simp add: currentRecipient_def)

text \<open>
  removing a row keeps the selection: with more than one recipient and a row of the list, the
  row goes, the others keep their order, and the current recipient stays the same object unless it
  was the one removed; then its successor becomes current, or its predecessor if it was the last.
\<close>

theorem removeAt_selection:
  assumes "list_reachable core seen m" "length (m_recipients m) > 1"
    "0 \<le> row" "row < int (length (m_recipients m))" "removeAt row m = Some (m', l)"
  shows "m_recipients m' = take (nat row) (m_recipients m) @ drop (Suc (nat row)) (m_recipients m) \<and>
     currentRecipient m' =
       (if row \<noteq> m_current m then currentRecipient m
        else if Suc (nat row) < length (m_recipients m) then Some (fst (m_recipients m ! Suc (nat row)))
        else Some (fst (m_recipients m ! (nat row - 1))))"
proof -
  note D = list_okD [OF list_reachable_ok [OF assms(1)]]
  let ?rs = "take (nat row) (m_recipients m) @ drop (Suc (nat row)) (m_recipients m)"
  define cur where "cur = (if row < m_current m \<or> m_current m \<ge> int (length ?rs) then m_current m - 1 else m_current m)"
  define m1 where "m1 = m\<lparr>m_recipients := ?rs, m_current := cur\<rparr>"
  from assms obtain l2 where u: "updateTotalAmount m1 = Some (m', l2)"
    by (auto simp: removeAt_def Let_def bind_eq_Some_conv m1_def cur_def)
  have m': "m_recipients m' = ?rs" "m_current m' = cur"
    using updateTotalAmount_frame [OF u] by (simp_all add: m1_def)
  have len: "int (length ?rs) = int (length (m_recipients m)) - 1" using assms by auto
  have nth: "?rs ! i = (if i < nat row then m_recipients m ! i else m_recipients m ! Suc i)"
    if "i < length ?rs" for i using that assms by (auto simp: nth_append)
  have cur: "0 \<le> cur" "cur < int (length ?rs)"
    using D(1,2) len assms by (simp_all add: cur_def split: if_splits)
  then have "currentRecipient m' = Some (fst (?rs ! nat cur))"
    using currentRecipient_Some [of m'] m' by simp
  also have "?rs ! nat cur = (if nat cur < nat row then m_recipients m ! nat cur
      else m_recipients m ! Suc (nat cur))"
  proof (rule nth)
    show "nat cur < length ?rs" using cur by linarith
  qed
  finally have now: "currentRecipient m' = Some (fst (if nat cur < nat row then m_recipients m ! nat cur
      else m_recipients m ! Suc (nat cur)))" .
  consider "row < m_current m" | "m_current m < row" | "m_current m = row" by linarith
  then show ?thesis
  proof cases
    case 1
    then have "cur = m_current m - 1" "\<not> nat cur < nat row" "Suc (nat cur) = nat (m_current m)"
      using assms(3) by (auto simp: cur_def)
    then show ?thesis using 1 now m'(1) currentRecipient_Some [OF D(1,2)] by simp
  next
    case 2
    then have "cur = m_current m" "nat cur < nat row" using len assms(3,4) D(1) by (auto simp: cur_def)
    then show ?thesis using 2 now m'(1) currentRecipient_Some [OF D(1,2)] by simp
  next
    case 3
    show ?thesis
    proof (cases "Suc (nat row) < length (m_recipients m)")
      case True
      then have "cur = row" using 3 len by (auto simp: cur_def)
      then show ?thesis using 3 True now m'(1) by simp
    next
      case False
      then have "cur = row - 1" using 3 len assms(3,4) by (auto simp: cur_def)
      moreover have "nat (row - 1) < nat row" "nat (row - 1) = nat row - 1"
        using False assms(2-4) by auto
      ultimately show ?thesis using 3 False now m'(1) by simp
    qed
  qed
qed

theorem removeAt_selection_witness:
  "map_option (\<lambda>(m, _). currentRecipient m) (removeAt 0 sample_list) = Some (currentRecipient sample_list)"
proof -
  have a: "length (m_recipients sample_list) = 2" "m_current sample_list = 1"
    "removeAt 0 sample_list \<noteq> None" by code_simp+
  then obtain m' l where r: "removeAt 0 sample_list = Some (m', l)" by auto
  from removeAt_selection [OF sample_list_reachable _ _ _ r] a r show ?thesis by simp
qed

text \<open>
  the total is a 64-bit sum of amounts that are not validated yet, so it overflows on
  reachable input: entering 92233720369 BTC twice (each saturates the field at the largest 64-bit
  number) leaves the second edit without a defined outcome.
\<close>

theorem total_overflow_reachable:
  "list_run sample_core (map (\<lambda>op. (None, op))
     [EditRecipient 0 (EditAmount (FromDisplay (q ''92233720369''))), Add,
      EditRecipient 1 (EditAmount (FromDisplay (q ''92233720369'')))]) (\<lambda>k. None, new_RecipientsModel) = None \<and>
   list_run sample_core (map (\<lambda>op. (None, op))
     [EditRecipient 0 (EditAmount (FromDisplay (q ''92233720369''))), Add]) (\<lambda>k. None, new_RecipientsModel) \<noteq> None"
  by code_simp

end
