(* ===== verification/Executor.thy ===== *)
theory Executor
  imports Prelude
begin

text \<open>
  \<open>src/qml/backendexecutor.{h,cpp}\<close>: an object of the GUI thread that runs submitted work on its own
  thread and delivers each completion back on the GUI thread. Three threads take part: the GUI
  thread, the worker thread and the detached thread that joins the worker. Queued invocations are
  explicit queues; an event of the model is one call by the GUI code or one turn of a thread, so a
  list of events is an interleaving.

  A work item is a number (what it computes does not concern the executor). A completion is the list
  of calls it makes on the executor itself, which covers re-entrant submission, shutdown and
  destruction. Task identifiers are 64-bit and wrap.

  The last three fields of the state are histories: the accepted, run and delivered tasks.
\<close>

section \<open>Definitions\<close>

datatype task = Task (task_work: nat) (gui_completion: "gop list")
and gop = GSubmit task | GShutdown | GDestroy

datatype worker_msg = RunTask nat nat | ReleaseTask nat | ReleaseAllAndQuit

datatype gui_msg = CompletedMsg nat | QuitThread | ThreadFinishedMsg | JoinedMsg

datatype thread_state = ThreadRunning | QuitRequested | ThreadExited | ThreadJoining | JoinPosted | ThreadGone

record exec =
  m_gui_completions :: "nat \<Rightarrow> gop list option"
  m_next_task_id :: nat
  m_stopping :: bool
  m_drained :: bool
  owner_alive :: bool
  m_retained_tasks :: "nat \<Rightarrow> nat option"
  worker_queue :: "worker_msg list"
  gui_queue :: "gui_msg list"
  thread_st :: thread_state
  connected :: bool
  accepted_log :: "nat list"
  ran_log :: "nat list"
  delivered_log :: "nat list"

definition new_exec :: exec where
  "new_exec = \<lparr>m_gui_completions = Map.empty, m_next_task_id = 0, m_stopping = False, m_drained = False,
     owner_alive = True, m_retained_tasks = Map.empty, worker_queue = [], gui_queue = [],
     thread_st = ThreadRunning, connected = True, accepted_log = [], ran_log = [], delivered_log = []\<rparr>"

text \<open>\<open>std::map::emplace\<close> leaves an existing entry alone.\<close>

definition emplace :: "'k \<Rightarrow> 'v \<Rightarrow> ('k \<Rightarrow> 'v option) \<Rightarrow> ('k \<Rightarrow> 'v option)" where
  "emplace k v m = (case m k of None \<Rightarrow> m(k := Some v) | Some _ \<Rightarrow> m)"

definition enqueue :: "nat \<Rightarrow> gop list \<Rightarrow> exec \<Rightarrow> bool \<times> exec" where
  "enqueue work completion e =
     (if m_stopping e then (False, e)
      else
        let ident = (m_next_task_id e + 1) mod 2 ^ 64
        in (True, e\<lparr>m_next_task_id := ident,
                    m_gui_completions := emplace ident completion (m_gui_completions e),
                    worker_queue := worker_queue e @ [RunTask ident work],
                    accepted_log := accepted_log e @ [ident]\<rparr>))"

definition shutdown :: "exec \<Rightarrow> exec" where
  "shutdown e =
     (if m_stopping e then e
      else e\<lparr>m_stopping := True, m_gui_completions := Map.empty, connected := False,
             worker_queue := worker_queue e @ [ReleaseAllAndQuit]\<rparr>)"

definition destroy :: "exec \<Rightarrow> exec" where
  "destroy e = (shutdown e)\<lparr>owner_alive := False\<rparr>"

text \<open>A call on the object; the guard pointer of the completion keeps a destroyed object untouched.\<close>

fun gui_call :: "gop \<Rightarrow> exec \<Rightarrow> exec" where
  "gui_call (GSubmit t) e = (if owner_alive e then snd (enqueue (task_work t) (gui_completion t) e) else e)"
| "gui_call GShutdown e = (if owner_alive e then shutdown e else e)"
| "gui_call GDestroy e = (if owner_alive e then destroy e else e)"

text \<open>One event of the worker thread.\<close>

definition worker_turn :: "exec \<Rightarrow> exec option" where
  "worker_turn e =
     (if thread_st e \<noteq> ThreadRunning then None
      else case worker_queue e of
        [] \<Rightarrow> None
      | RunTask ident work # ms \<Rightarrow>
          Some (e\<lparr>worker_queue := ms, m_retained_tasks := emplace ident work (m_retained_tasks e),
                  ran_log := ran_log e @ [ident],
                  gui_queue := gui_queue e @ (if connected e then [CompletedMsg ident] else [])\<rparr>)
      | ReleaseTask ident # ms \<Rightarrow>
          Some (e\<lparr>worker_queue := ms, m_retained_tasks := (m_retained_tasks e)(ident := None)\<rparr>)
      | ReleaseAllAndQuit # ms \<Rightarrow>
          Some (e\<lparr>worker_queue := ms, m_retained_tasks := Map.empty,
                  gui_queue := gui_queue e @ [QuitThread]\<rparr>))"

text \<open>The slot connected to \<open>BackendExecutorWorker::completed\<close>.\<close>

definition on_completed :: "nat \<Rightarrow> exec \<Rightarrow> exec" where
  "on_completed ident e =
     (if \<not> owner_alive e then e
      else case m_gui_completions e ident of
        None \<Rightarrow> e
      | Some completion \<Rightarrow>
          let e1 = e\<lparr>m_gui_completions := (m_gui_completions e)(ident := None),
                     delivered_log := delivered_log e @ [ident]\<rparr>;
              e2 = fold gui_call completion e1
          in if \<not> owner_alive e2 \<or> m_stopping e2 then e2
             else e2\<lparr>worker_queue := worker_queue e2 @ [ReleaseTask ident]\<rparr>)"

text \<open>
  One event of the GUI thread: the queued slot calls, \<open>QThread::quit\<close> on the thread object, the
  \<open>finished\<close> slot that starts the joining thread, and the joining thread's report.
\<close>

definition gui_turn :: "exec \<Rightarrow> exec option" where
  "gui_turn e =
     (case gui_queue e of
        [] \<Rightarrow> None
      | CompletedMsg ident # ms \<Rightarrow> Some (on_completed ident (e\<lparr>gui_queue := ms\<rparr>))
      | QuitThread # ms \<Rightarrow> Some (e\<lparr>gui_queue := ms, thread_st := QuitRequested\<rparr>)
      | ThreadFinishedMsg # ms \<Rightarrow> Some (e\<lparr>gui_queue := ms, thread_st := ThreadJoining\<rparr>)
      | JoinedMsg # ms \<Rightarrow>
          Some (e\<lparr>gui_queue := ms, thread_st := ThreadGone, m_drained := owner_alive e\<rparr>))"

definition thread_exit :: "exec \<Rightarrow> exec option" where
  "thread_exit e =
     (if thread_st e = QuitRequested
      then Some (e\<lparr>thread_st := ThreadExited, gui_queue := gui_queue e @ [ThreadFinishedMsg]\<rparr>) else None)"

definition join_return :: "exec \<Rightarrow> exec option" where
  "join_return e =
     (if thread_st e = ThreadJoining
      then Some (e\<lparr>thread_st := JoinPosted, gui_queue := gui_queue e @ [JoinedMsg]\<rparr>) else None)"

datatype exec_event = Call gop | WorkerTurn | GuiTurn | ThreadExit | JoinReturn

fun exec_step :: "exec_event \<Rightarrow> exec \<Rightarrow> exec option" where
  "exec_step (Call g) e = (if owner_alive e then Some (gui_call g e) else None)"
| "exec_step WorkerTurn e = worker_turn e"
| "exec_step GuiTurn e = gui_turn e"
| "exec_step ThreadExit e = thread_exit e"
| "exec_step JoinReturn e = join_return e"

fun exec_run :: "exec_event list \<Rightarrow> exec \<Rightarrow> exec option" where
  "exec_run [] e = Some e"
| "exec_run (ev # evs) e = Option.bind (exec_step ev e) (exec_run evs)"

text \<open>
  \<open>submit\<close> wraps a work item and the receiver's callbacks: the work's value or exception is stored,
  and the completion calls at most one callback of a receiver that still exists.
\<close>

datatype ('x, 'r) outcome = Threw 'x | Returned 'r

datatype ('x, 'r) callback = CallFailed 'x | CallDone 'r

definition submit_completion :: "bool \<Rightarrow> bool \<Rightarrow> ('x, 'r) outcome \<Rightarrow> ('x, 'r) callback option" where
  "submit_completion receiver_alive has_failed out =
     (if \<not> receiver_alive then None
      else case out of
        Threw x \<Rightarrow> if has_failed then Some (CallFailed x) else None
      | Returned r \<Rightarrow> Some (CallDone r))"

section \<open>Invariant\<close>

definition pending_runs :: "worker_msg list \<Rightarrow> nat list" where
  "pending_runs ms = List.map_filter (\<lambda>m. case m of RunTask i w \<Rightarrow> Some i | _ \<Rightarrow> None) ms"

definition pending_completed :: "gui_msg list \<Rightarrow> nat list" where
  "pending_completed ms = List.map_filter (\<lambda>m. case m of CompletedMsg i \<Rightarrow> Some i | _ \<Rightarrow> None) ms"

lemma pending_simps [simp]:
  "pending_runs [] = []"
  "pending_runs (m # ms) = (case m of RunTask i w \<Rightarrow> [i] | _ \<Rightarrow> []) @ pending_runs ms"
  "pending_runs (ms @ ms') = pending_runs ms @ pending_runs ms'"
  "pending_completed [] = []"
  "pending_completed (g # gs) = (case g of CompletedMsg i \<Rightarrow> [i] | _ \<Rightarrow> []) @ pending_completed gs"
  "pending_completed (gs @ gs') = pending_completed gs @ pending_completed gs'"
  by (simp_all add: pending_runs_def pending_completed_def List.map_filter_def
      split: worker_msg.splits gui_msg.splits)

definition tokens :: "gui_msg list \<Rightarrow> gui_msg list" where
  "tokens gs = filter (\<lambda>g. \<forall>i. g \<noteq> CompletedMsg i) gs"

lemma tokens_simps [simp]:
  "tokens [] = []"
  "tokens (g # gs) = (case g of CompletedMsg i \<Rightarrow> [] | _ \<Rightarrow> [g]) @ tokens gs"
  "tokens (gs @ gs') = tokens gs @ tokens gs'"
  by (simp_all add: tokens_def split: gui_msg.splits)

text \<open>
  The shutdown travels as one token: the last message of the worker's queue, then a message of the
  GUI queue, then the state of the thread, until the thread is joined.
\<close>

definition stage_ok :: "exec \<Rightarrow> bool" where
  "stage_ok e \<longleftrightarrow>
     (if \<not> m_stopping e then
        thread_st e = ThreadRunning \<and> tokens (gui_queue e) = [] \<and> ReleaseAllAndQuit \<notin> set (worker_queue e) \<and>
        connected e \<and> owner_alive e \<and> \<not> m_drained e
      else
        \<not> connected e \<and> m_gui_completions e = Map.empty \<and>
        (m_drained e \<longrightarrow> thread_st e = ThreadGone) \<and>
        (thread_st e = ThreadGone \<and> owner_alive e \<longrightarrow> m_drained e) \<and>
        (case thread_st e of
           ThreadRunning \<Rightarrow>
             (\<exists>ms. worker_queue e = ms @ [ReleaseAllAndQuit] \<and> ReleaseAllAndQuit \<notin> set ms \<and>
                   tokens (gui_queue e) = []) \<or>
             (worker_queue e = [] \<and> tokens (gui_queue e) = [QuitThread] \<and> m_retained_tasks e = Map.empty)
         | QuitRequested \<Rightarrow> worker_queue e = [] \<and> tokens (gui_queue e) = [] \<and> m_retained_tasks e = Map.empty
         | ThreadExited \<Rightarrow> worker_queue e = [] \<and> tokens (gui_queue e) = [ThreadFinishedMsg] \<and> m_retained_tasks e = Map.empty
         | ThreadJoining \<Rightarrow> worker_queue e = [] \<and> tokens (gui_queue e) = [] \<and> m_retained_tasks e = Map.empty
         | JoinPosted \<Rightarrow> worker_queue e = [] \<and> tokens (gui_queue e) = [JoinedMsg] \<and> m_retained_tasks e = Map.empty
         | ThreadGone \<Rightarrow> worker_queue e = [] \<and> tokens (gui_queue e) = [] \<and> m_retained_tasks e = Map.empty))"

text \<open>Identifiers count up from one.\<close>

definition numbered :: "nat list \<Rightarrow> bool" where
  "numbered xs \<longleftrightarrow> xs = [1..<Suc (length xs)]"

lemma numbered_Nil: "numbered []"
  by (simp add: numbered_def)

lemma numbered_set: "numbered xs \<Longrightarrow> set xs = {1..length xs}"
  unfolding numbered_def by (metis atLeastLessThanSuc_atLeastAtMost set_upt)

lemma numbered_distinct: "numbered xs \<Longrightarrow> distinct xs"
  unfolding numbered_def by (metis distinct_upt)

lemma numbered_snoc: "numbered xs \<Longrightarrow> numbered (xs @ [Suc (length xs)])"
proof -
  assume "numbered xs"
  then have "xs @ [Suc (length xs)] = [1..<Suc (length xs)] @ [Suc (length xs)]"
    by (metis numbered_def)
  also have "\<dots> = [1..<Suc (Suc (length xs))]" by simp
  finally show ?thesis by (simp add: numbered_def)
qed

definition exec_inv :: "exec \<Rightarrow> bool" where
  "exec_inv e \<longleftrightarrow>
     stage_ok e \<and>
     m_next_task_id e = length (accepted_log e) \<and> numbered (accepted_log e) \<and>
     ran_log e @ pending_runs (worker_queue e) = accepted_log e \<and>
     (if m_stopping e then prefix (delivered_log e) (ran_log e)
      else delivered_log e @ pending_completed (gui_queue e) = ran_log e \<and>
           (\<forall>i. m_gui_completions e i \<noteq> None \<longleftrightarrow> i \<in> set (accepted_log e) - set (delivered_log e)))"

lemma new_exec_inv: "exec_inv new_exec"
  by (simp add: exec_inv_def stage_ok_def new_exec_def numbered_Nil)

text \<open>Identifiers do not wrap below \<open>2 ^ 64\<close> submissions.\<close>

abbreviation fits :: "exec \<Rightarrow> bool" where
  "fits e \<equiv> length (accepted_log e) < 2 ^ 64"

lemma enqueue_inv:
  assumes inv: "exec_inv e" and fits: "fits (snd (enqueue w c e))"
  shows "exec_inv (snd (enqueue w c e))"
proof (cases "m_stopping e")
  case True
  with inv show ?thesis by (simp add: enqueue_def)
next
  case False
  let ?n = "length (accepted_log e)"
  from False fits have n: "Suc ?n < 2 ^ 64" by (simp add: enqueue_def Let_def)
  from inv have next_id: "m_next_task_id e = ?n" and num: "numbered (accepted_log e)"
    by (simp_all add: exec_inv_def)
  have ident: "(m_next_task_id e + 1) mod 2 ^ 64 = Suc ?n" using n next_id by simp
  have new: "Suc ?n \<notin> set (accepted_log e)" using numbered_set [OF num] by simp
  then have none: "m_gui_completions e (Suc ?n) = None" using inv False by (auto simp: exec_inv_def)
  have sub: "set (delivered_log e) \<subseteq> set (accepted_log e)"
    using inv False unfolding exec_inv_def by (metis Un_upper1 le_sup_iff set_append)
  define e' where "e' = snd (enqueue w c e)"
  have e': "e' = e\<lparr>m_next_task_id := Suc ?n, m_gui_completions := (m_gui_completions e)(Suc ?n := Some c),
      worker_queue := worker_queue e @ [RunTask (Suc ?n) w], accepted_log := accepted_log e @ [Suc ?n]\<rparr>"
    using False none by (simp only: e'_def enqueue_def ident Let_def) (simp add: emplace_def)
  have "stage_ok e'" using inv False by (simp add: exec_inv_def stage_ok_def e')
  moreover have "\<forall>i. m_gui_completions e' i \<noteq> None \<longleftrightarrow>
      i \<in> set (accepted_log e') - set (delivered_log e')"
    using inv False new sub by (auto simp: exec_inv_def e')
  ultimately have "exec_inv e'"
    using inv False numbered_snoc [OF num] by (simp add: exec_inv_def e')
  then show ?thesis by (simp add: e'_def)
qed

lemma shutdown_inv: "exec_inv e \<Longrightarrow> exec_inv (shutdown e)"
  by (cases "m_stopping e") (auto simp: exec_inv_def stage_ok_def shutdown_def intro: prefixI [OF sym])

lemma dead_owner_inv: "exec_inv e \<Longrightarrow> m_stopping e \<Longrightarrow> exec_inv (e\<lparr>owner_alive := False\<rparr>)"
  by (cases "thread_st e") (auto simp: exec_inv_def stage_ok_def)

lemma destroy_inv: "exec_inv e \<Longrightarrow> exec_inv (destroy e)"
  unfolding destroy_def by (intro dead_owner_inv shutdown_inv) (simp_all add: shutdown_def)

lemma gui_call_inv: "exec_inv e \<Longrightarrow> fits (gui_call g e) \<Longrightarrow> exec_inv (gui_call g e)"
  by (cases g; cases "owner_alive e") (simp_all add: enqueue_inv shutdown_inv destroy_inv)

lemma gui_call_accepted: "length (accepted_log e) \<le> length (accepted_log (gui_call g e))"
  by (cases g) (simp_all add: enqueue_def Let_def shutdown_def destroy_def)

lemma gui_calls_accepted: "length (accepted_log e) \<le> length (accepted_log (fold gui_call gs e))"
  by (induction gs arbitrary: e) (auto intro: order_trans [OF gui_call_accepted])

lemma gui_calls_inv: "exec_inv e \<Longrightarrow> fits (fold gui_call gs e) \<Longrightarrow> exec_inv (fold gui_call gs e)"
proof (induction gs arbitrary: e)
  case (Cons g gs)
  then have "fits (gui_call g e)"
    using gui_calls_accepted [of "gui_call g e" gs] by simp
  with Cons show ?case by (simp add: gui_call_inv)
qed simp

lemma release_inv:
  "exec_inv e \<Longrightarrow> \<not> m_stopping e \<Longrightarrow>
   exec_inv (e\<lparr>worker_queue := worker_queue e @ [ReleaseTask i]\<rparr>)"
  by (simp add: exec_inv_def stage_ok_def)

text \<open>
  The state after taking the completion of task \<open>i\<close> out of the map, just before it runs.
\<close>

lemma on_completed_inv:
  assumes inv: "exec_inv e" and q: "gui_queue e = CompletedMsg i # gs"
    and fits: "fits (on_completed i (e\<lparr>gui_queue := gs\<rparr>))"
  shows "exec_inv (on_completed i (e\<lparr>gui_queue := gs\<rparr>))"
proof (cases "m_stopping e")
  case True
  then have "m_gui_completions e = Map.empty" using inv by (simp add: exec_inv_def stage_ok_def)
  then have "on_completed i (e\<lparr>gui_queue := gs\<rparr>) = e\<lparr>gui_queue := gs\<rparr>"
    by (simp add: on_completed_def)
  with inv q True show ?thesis
    by (simp add: exec_inv_def stage_ok_def split: thread_state.splits)
next
  case False
  let ?e1 = "e\<lparr>gui_queue := gs, m_gui_completions := (m_gui_completions e)(i := None),
               delivered_log := delivered_log e @ [i]\<rparr>"
  have alive: "owner_alive e" using inv False by (simp add: exec_inv_def stage_ok_def)
  have ran: "delivered_log e @ i # pending_completed gs = ran_log e"
    and acc: "ran_log e @ pending_runs (worker_queue e) = accepted_log e"
    and dist: "distinct (accepted_log e)"
    using inv False q numbered_distinct by (simp_all add: exec_inv_def)
  have i: "i \<in> set (accepted_log e) - set (delivered_log e)"
    using dist unfolding acc [symmetric] ran [symmetric] by auto
  then obtain c where c: "m_gui_completions e i = Some c"
    using inv False by (auto simp: exec_inv_def)
  let ?e2 = "fold gui_call c ?e1"
  have eq: "on_completed i (e\<lparr>gui_queue := gs\<rparr>) =
      (if \<not> owner_alive ?e2 \<or> m_stopping ?e2 then ?e2
       else ?e2\<lparr>worker_queue := worker_queue ?e2 @ [ReleaseTask i]\<rparr>)"
    using alive c by (simp add: on_completed_def Let_def)
  have "exec_inv ?e1" using inv False q ran c i by (auto simp: exec_inv_def stage_ok_def)
  moreover have "fits ?e2" using fits unfolding eq by (simp split: if_splits)
  ultimately have "exec_inv ?e2" by (rule gui_calls_inv)
  then show ?thesis unfolding eq using release_inv by auto
qed

lemma worker_turn_inv:
  assumes inv: "exec_inv e" and s: "worker_turn e = Some e'"
  shows "exec_inv e'"
proof -
  from s have run: "thread_st e = ThreadRunning" and "worker_queue e \<noteq> []"
    by (auto simp: worker_turn_def split: if_splits)
  then obtain m ms where q: "worker_queue e = m # ms" by (cases "worker_queue e") auto
  show ?thesis
  proof (cases "m_stopping e")
    case False
    then show ?thesis using inv s run q
      by (cases m) (auto simp: exec_inv_def stage_ok_def worker_turn_def)
  next
    case True
    show ?thesis
    proof (cases m)
      case ReleaseAllAndQuit
      then have "ms = []" using inv True run q
        by (auto simp: exec_inv_def stage_ok_def append_eq_Cons_conv Cons_eq_append_conv)
      then show ?thesis using inv s run q True ReleaseAllAndQuit
        by (auto simp: exec_inv_def stage_ok_def worker_turn_def)
    next
      case (RunTask i w)
      then show ?thesis using inv s run q True
        by (auto simp: exec_inv_def stage_ok_def worker_turn_def Cons_eq_append_conv)
    next
      case (ReleaseTask i)
      then show ?thesis using inv s run q True
        by (auto simp: exec_inv_def stage_ok_def worker_turn_def Cons_eq_append_conv)
    qed
  qed
qed

lemma gui_turn_inv:
  assumes inv: "exec_inv e" and s: "gui_turn e = Some e'" and "fits e'"
  shows "exec_inv e'"
proof (cases "gui_queue e")
  case Nil
  with s show ?thesis by (simp add: gui_turn_def)
next
  case (Cons g gs)
  show ?thesis
  proof (cases g)
    case (CompletedMsg i)
    with on_completed_inv [OF inv] assms Cons show ?thesis by (simp add: gui_turn_def)
  qed (use inv s Cons in \<open>auto simp: gui_turn_def exec_inv_def stage_ok_def
        split: if_splits thread_state.splits\<close>)
qed

lemma exec_step_inv:
  assumes "exec_inv e" "exec_step ev e = Some e'" "fits e'"
  shows "exec_inv e'"
proof (cases ev)
  case (Call g)
  with assms show ?thesis by (auto intro: gui_call_inv split: if_splits)
next
  case ThreadExit
  with assms show ?thesis
    by (auto simp: thread_exit_def exec_inv_def stage_ok_def split: if_splits)
next
  case JoinReturn
  with assms show ?thesis
    by (auto simp: join_return_def exec_inv_def stage_ok_def split: if_splits)
qed (use assms in \<open>auto intro: worker_turn_inv gui_turn_inv\<close>)

text \<open>Submissions only grow, so a run that fits at its end fits throughout.\<close>

lemma exec_step_accepted:
  assumes "exec_step ev e = Some e'"
  shows "length (accepted_log e) \<le> length (accepted_log e')"
proof (cases ev)
  case (Call g)
  with assms gui_call_accepted show ?thesis by (auto split: if_splits)
next
  case GuiTurn
  show ?thesis
  proof (cases "gui_queue e")
    case (Cons m ms)
    have "length (accepted_log e) \<le> length (accepted_log (fold gui_call c (e\<lparr>gui_queue := ms,
        m_gui_completions := x, delivered_log := y\<rparr>)))" for c x y
      using gui_calls_accepted [of "e\<lparr>gui_queue := ms, m_gui_completions := x, delivered_log := y\<rparr>" c]
      by simp
    with GuiTurn Cons assms show ?thesis
      by (auto simp: gui_turn_def on_completed_def Let_def split: gui_msg.splits option.splits if_splits)
  qed (use GuiTurn assms in \<open>simp add: gui_turn_def\<close>)
qed (use assms in \<open>auto simp: worker_turn_def thread_exit_def join_return_def
      split: list.splits worker_msg.splits if_splits\<close>)

lemma exec_run_accepted:
  "exec_run evs e = Some e' \<Longrightarrow> length (accepted_log e) \<le> length (accepted_log e')"
proof (induction evs arbitrary: e)
  case (Cons ev evs)
  then obtain e1 where "exec_step ev e = Some e1" "exec_run evs e1 = Some e'"
    by (auto simp: bind_eq_Some_conv)
  with Cons.IH exec_step_accepted show ?case by (meson order_trans)
qed simp

lemma exec_run_inv: "exec_run evs e = Some e' \<Longrightarrow> exec_inv e \<Longrightarrow> fits e' \<Longrightarrow> exec_inv e'"
proof (induction evs arbitrary: e)
  case (Cons ev evs)
  then obtain e1 where 1: "exec_step ev e = Some e1" "exec_run evs e1 = Some e'"
    by (auto simp: bind_eq_Some_conv)
  then have "fits e1" using exec_run_accepted [OF 1(2)] Cons.prems(3) by simp
  with 1 Cons show ?case using exec_step_inv by blast
qed simp

section \<open>The contract of an executor\<close>

text \<open>
  What a client of an executor relies on: completions are a prefix of the runs and the runs a
  prefix of the accepted tasks, whose identifiers are distinct.
\<close>

locale fifo_executor =
  fixes reach :: "'s \<Rightarrow> bool"
    and accepted :: "'s \<Rightarrow> nat list"
    and ran :: "'s \<Rightarrow> nat list"
    and delivered :: "'s \<Rightarrow> nat list"
  assumes fifo_distinct: "reach s \<Longrightarrow> distinct (accepted s)"
    and fifo_ran: "reach s \<Longrightarrow> prefix (ran s) (accepted s)"
    and fifo_delivered: "reach s \<Longrightarrow> prefix (delivered s) (ran s)"
begin

lemma delivered_prefix: "reach s \<Longrightarrow> prefix (delivered s) (accepted s)"
  using fifo_ran fifo_delivered prefix_order.trans by blast

lemma at_most_once: "reach s \<Longrightarrow> distinct (ran s) \<and> distinct (delivered s)"
  using fifo_distinct fifo_ran delivered_prefix by (metis distinct_append prefix_def)

lemma in_submission_order:
  assumes "reach s" "i < j" "j < length (accepted s)" "accepted s ! j \<in> set (delivered s)"
  shows "accepted s ! i \<in> set (delivered s) \<and> accepted s ! i \<in> set (ran s)"
proof -
  obtain r where r: "accepted s = delivered s @ r" using delivered_prefix [OF assms(1)] by (auto simp: prefix_def)
  have "j < length (delivered s)"
  proof (rule ccontr)
    assume "\<not> j < length (delivered s)"
    then have "accepted s ! j \<in> set r" using assms(3) by (simp add: r nth_append)
    with assms(4) fifo_distinct [OF assms(1)] show False by (auto simp: r)
  qed
  then have "accepted s ! i \<in> set (delivered s)" using assms(2) by (simp add: r nth_append)
  with fifo_delivered [OF assms(1)] show ?thesis using set_mono_prefix by blast
qed

end

interpretation backend: fifo_executor exec_inv accepted_log ran_log delivered_log
  by unfold_locales (auto simp: exec_inv_def numbered_distinct split: if_splits intro: prefixI [OF sym])

section \<open>Draining\<close>

text \<open>Everything but calls by GUI code happens by itself.\<close>

definition internal :: "exec_event \<Rightarrow> bool" where
  "internal ev \<longleftrightarrow> (\<forall>g. ev \<noteq> Call g)"

fun stage_weight :: "thread_state \<Rightarrow> nat" where
  "stage_weight ThreadRunning = 4"
| "stage_weight QuitRequested = 4"
| "stage_weight ThreadExited = 2"
| "stage_weight ThreadJoining = 2"
| "stage_weight JoinPosted = 0"
| "stage_weight ThreadGone = 0"

definition drain_measure :: "exec \<Rightarrow> nat" where
  "drain_measure e = 2 * length (worker_queue e) + length (gui_queue e) + stage_weight (thread_st e)"

lemma stopping_completed: "exec_inv e \<Longrightarrow> m_stopping e \<Longrightarrow> on_completed i (e\<lparr>gui_queue := gs\<rparr>) = e\<lparr>gui_queue := gs\<rparr>"
  by (simp add: exec_inv_def stage_ok_def on_completed_def)

text \<open>A turn of a thread during shutdown makes progress and delivers and accepts nothing.\<close>

lemma drain_step:
  assumes inv: "exec_inv e" and stop: "m_stopping e" and i: "internal ev" and s: "exec_step ev e = Some e'"
  shows "drain_measure e' < drain_measure e \<and> m_stopping e' \<and> delivered_log e' = delivered_log e \<and>
     accepted_log e' = accepted_log e"
proof (cases ev)
  case (Call g)
  with i show ?thesis by (simp add: internal_def)
next
  case WorkerTurn
  then show ?thesis using inv stop s
    by (auto simp: worker_turn_def drain_measure_def exec_inv_def stage_ok_def
        split: list.splits worker_msg.splits if_splits)
next
  case GuiTurn
  then show ?thesis using s stop stopping_completed [OF inv stop] inv
    by (auto simp: gui_turn_def drain_measure_def exec_inv_def stage_ok_def
        split: list.splits gui_msg.splits thread_state.splits)
qed (use s stop in \<open>auto simp: thread_exit_def join_return_def drain_measure_def split: if_splits\<close>)

lemma drain_run:
  "exec_run evs e = Some e' \<Longrightarrow> exec_inv e \<Longrightarrow> fits e \<Longrightarrow> m_stopping e \<Longrightarrow> list_all internal evs \<Longrightarrow>
   drain_measure e' + length evs \<le> drain_measure e \<and> exec_inv e' \<and> m_stopping e' \<and>
   delivered_log e' = delivered_log e \<and> accepted_log e' = accepted_log e"
proof (induction evs arbitrary: e)
  case (Cons ev evs)
  then obtain e1 where 1: "exec_step ev e = Some e1" "exec_run evs e1 = Some e'"
    by (auto simp: bind_eq_Some_conv)
  note d = drain_step [OF Cons.prems(2,4) _ 1(1)]
  have "internal ev" using Cons.prems(5) by simp
  note d = d [OF this]
  have "fits e1" using d Cons.prems(3) by simp
  moreover from this have "exec_inv e1" using exec_step_inv Cons.prems(2) 1(1) by blast
  ultimately show ?case using Cons.IH [OF 1(2)] Cons.prems d by auto
qed simp

lemma drain_progress:
  assumes inv: "exec_inv e" and stop: "m_stopping e"
    and stuck: "\<forall>ev. internal ev \<longrightarrow> exec_step ev e = None"
  shows "thread_st e = ThreadGone \<and> worker_queue e = [] \<and> gui_queue e = []"
proof -
  have "worker_turn e = None" "gui_turn e = None" "thread_exit e = None" "join_return e = None"
    using stuck by (metis exec_event.distinct exec_step.simps internal_def)+
  then show ?thesis using inv stop
    by (auto simp: exec_inv_def stage_ok_def worker_turn_def gui_turn_def thread_exit_def join_return_def
        split: list.splits worker_msg.splits gui_msg.splits thread_state.splits if_splits)
qed

section \<open>Properties\<close>

text \<open>
  C3: work runs and completions arrive in submission order, at most once: in every interleaving of
  GUI calls (re-entrant submission, shutdown and destruction from inside completions included) with
  the worker, GUI and joining threads, and below \<open>2 ^ 64\<close> submissions, the completions delivered are
  a prefix of the tasks run, those a prefix of the tasks accepted, and no task occurs twice; so a
  completion runs only after its work and after every earlier completion.
\<close>

theorem executor_order:
  assumes "exec_run evs new_exec = Some e" "length (accepted_log e) < 2 ^ 64"
  shows "prefix (delivered_log e) (ran_log e) \<and> prefix (ran_log e) (accepted_log e) \<and>
     distinct (accepted_log e) \<and>
     (\<forall>i j. i < j \<and> j < length (accepted_log e) \<and> accepted_log e ! j \<in> set (delivered_log e) \<longrightarrow>
        accepted_log e ! i \<in> set (delivered_log e))"
proof -
  have inv: "exec_inv e" using exec_run_inv [OF assms(1) new_exec_inv] assms(2) by simp
  then show ?thesis
    using backend.fifo_delivered backend.fifo_ran backend.fifo_distinct backend.in_submission_order
    by blast
qed

definition sample_calls :: "exec_event list" where
  "sample_calls = [Call (GSubmit (Task 7 [GSubmit (Task 8 [])])), WorkerTurn, GuiTurn, WorkerTurn]"

theorem executor_order_witness:
  "map_option delivered_log (exec_run sample_calls new_exec) = Some [1] \<and>
   map_option ran_log (exec_run sample_calls new_exec) = Some [1, 2] \<and>
   prefix [1] [1, 2 :: nat]"
proof -
  have "map_option (\<lambda>e. (delivered_log e, ran_log e, accepted_log e)) (exec_run sample_calls new_exec)
      = Some ([1], [1, 2], [1, 2])" by code_simp
  then obtain e where e: "exec_run sample_calls new_exec = Some e" "delivered_log e = [1]"
    "ran_log e = [1, 2]" "accepted_log e = [1, 2]" by auto
  with executor_order [OF e(1)] show ?thesis by simp
qed

lemma stopped_call:
  "m_stopping e \<Longrightarrow> m_stopping (gui_call g e) \<and> delivered_log (gui_call g e) = delivered_log e \<and>
     accepted_log (gui_call g e) = accepted_log e"
  by (cases g) (simp_all add: enqueue_def shutdown_def destroy_def)

lemma stopped_run:
  "exec_run evs e = Some e' \<Longrightarrow> exec_inv e \<Longrightarrow> fits e \<Longrightarrow> m_stopping e \<Longrightarrow>
   delivered_log e' = delivered_log e \<and> accepted_log e' = accepted_log e \<and> m_stopping e'"
proof (induction evs arbitrary: e)
  case (Cons ev evs)
  then obtain e1 where 1: "exec_step ev e = Some e1" "exec_run evs e1 = Some e'"
    by (auto simp: bind_eq_Some_conv)
  have d: "m_stopping e1 \<and> delivered_log e1 = delivered_log e \<and> accepted_log e1 = accepted_log e"
  proof (cases "internal ev")
    case True
    with drain_step [OF Cons.prems(2,4) _ 1(1)] show ?thesis by blast
  next
    case False
    with 1(1) stopped_call [OF Cons.prems(4)] show ?thesis by (auto simp: internal_def split: if_splits)
  qed
  then have "fits e1" using Cons.prems(3) by simp
  moreover from this have "exec_inv e1" using exec_step_inv Cons.prems(2) 1(1) by blast
  ultimately show ?case using Cons.IH [OF 1(2)] d by simp
qed simp

text \<open>
  after \<open>shutdown\<close> nothing is delivered and nothing is accepted any more: from a state reached
  with the executor stopping, every further interleaving, calls by GUI code included, leaves the
  delivered completions and the accepted tasks as they are, and a submission is refused.
\<close>

theorem no_completion_after_shutdown:
  assumes "exec_run evs new_exec = Some e" "length (accepted_log e) < 2 ^ 64" "m_stopping e"
    and "exec_run evs' e = Some e'"
  shows "delivered_log e' = delivered_log e \<and> accepted_log e' = accepted_log e \<and>
     enqueue w c e' = (False, e')"
proof -
  have "exec_inv e" using exec_run_inv [OF assms(1) new_exec_inv] assms(2) by simp
  from stopped_run [OF assms(4) this _ assms(3)] assms(2) show ?thesis by (simp add: enqueue_def)
qed

theorem no_completion_after_shutdown_witness:
  "map_option delivered_log
     (Option.bind (exec_run [Call (GSubmit (Task 7 [])), Call GShutdown] new_exec)
        (exec_run [WorkerTurn, WorkerTurn, GuiTurn])) = Some []"
proof -
  let ?evs = "[Call (GSubmit (Task 7 [])), Call GShutdown]" and ?evs' = "[WorkerTurn, WorkerTurn, GuiTurn]"
  have "map_option (\<lambda>e. (delivered_log e, accepted_log e, m_stopping e)) (exec_run ?evs new_exec) = Some ([], [1], True)"
    by code_simp
  then obtain e where e: "exec_run ?evs new_exec = Some e" "delivered_log e = []" "accepted_log e = [1]" "m_stopping e"
    by auto
  have "Option.bind (exec_run ?evs new_exec) (exec_run ?evs') \<noteq> None" by code_simp
  then obtain e' where e': "exec_run ?evs' e = Some e'"
    unfolding e(1) by (auto simp only: Option.bind.simps)
  from no_completion_after_shutdown [OF e(1) _ e(4) e'] e e' show ?thesis by simp
qed

text \<open>
  C38: a shut down executor drains by itself: from every reachable stopping state any sequence of
  thread turns is bounded by \<open>drain_measure\<close>, and where no thread has a turn left, the worker thread
  has been joined, every accepted task has been run, no task is retained any more, and
  \<open>isDrained\<close> holds if the object still exists.
\<close>

theorem executor_drains:
  assumes "exec_run evs new_exec = Some e" "length (accepted_log e) < 2 ^ 64" "m_stopping e"
    and "list_all internal evs'" "exec_run evs' e = Some e'"
  shows "length evs' \<le> drain_measure e \<and>
     ((\<forall>ev. internal ev \<longrightarrow> exec_step ev e' = None) \<longrightarrow>
        thread_st e' = ThreadGone \<and> ran_log e' = accepted_log e \<and> m_retained_tasks e' = Map.empty \<and>
        (owner_alive e' \<longrightarrow> m_drained e'))"
proof -
  have "exec_inv e" using exec_run_inv [OF assms(1) new_exec_inv] assms(2) by simp
  note d = drain_run [OF assms(5) this _ assms(3,4)]
  then have inv: "exec_inv e'" and stop: "m_stopping e'" and acc: "accepted_log e' = accepted_log e"
    and len: "length evs' \<le> drain_measure e" using assms(2) by auto
  show ?thesis
  proof (intro conjI impI len)
    assume "\<forall>ev. internal ev \<longrightarrow> exec_step ev e' = None"
    note p = drain_progress [OF inv stop this]
    show "thread_st e' = ThreadGone" using p by simp
    show "ran_log e' = accepted_log e" using p inv acc by (simp add: exec_inv_def)
    show "m_retained_tasks e' = Map.empty" using p inv stop by (simp add: exec_inv_def stage_ok_def)
    assume "owner_alive e'"
    then show "m_drained e'" using p inv stop by (simp add: exec_inv_def stage_ok_def)
  qed
qed

theorem executor_drains_witness:
  "let evs = [Call (GSubmit (Task 7 [])), Call GShutdown];
       evs' = [WorkerTurn, WorkerTurn, GuiTurn, ThreadExit, GuiTurn, JoinReturn, GuiTurn]
   in length evs' \<le> 8 \<and>
      map_option m_drained (Option.bind (exec_run evs new_exec) (exec_run evs')) = Some True"
proof -
  let ?evs = "[Call (GSubmit (Task 7 [])), Call GShutdown]"
  let ?evs' = "[WorkerTurn, WorkerTurn, GuiTurn, ThreadExit, GuiTurn, JoinReturn, GuiTurn]"
  have "map_option (\<lambda>e. (drain_measure e, accepted_log e, m_stopping e)) (exec_run ?evs new_exec) = Some (8, [1], True)"
    by code_simp
  then obtain e where e: "exec_run ?evs new_exec = Some e" "drain_measure e = 8" "accepted_log e = [1]" "m_stopping e"
    by auto
  have r: "map_option m_drained (Option.bind (exec_run ?evs new_exec) (exec_run ?evs')) = Some True" by code_simp
  then obtain e' where e': "exec_run ?evs' e = Some e'"
    unfolding e(1) by (auto simp only: Option.bind.simps map_option_eq_Some)
  have "list_all internal ?evs'" by (simp add: internal_def)
  from executor_drains [OF e(1) _ e(4) this e'] e r show ?thesis by simp
qed

end
