(* ===== verification/Registry.thy ===== *)
theory Registry
  imports Executor
begin

text \<open>
  The registry of \<open>src/qml/backendexecutor.cpp\<close> and the one of \<open>src/qml/asyncjoin.h\<close>: all executors
  of the application together, the threads being joined, and \<open>shutdownAll\<close>, which calls back once
  everything in the background has stopped.

  Executors are numbered in the order of their construction (the number stands for the thread's
  address, which is unique while the thread exists). A receiver and a callback are numbers. The
  threads that other objects hand to \<open>JoinThreadAsync\<close> are counted by \<open>other_joins\<close>. An event carries
  the \<open>shutdownAll\<close> calls that slots make from inside it.
\<close>

section \<open>Definitions\<close>

type_synonym drain_entry = "nat \<times> nat"

record registry =
  execs :: "exec list"
  owners_by_thread :: "nat list"
  drain_callbacks :: "drain_entry list"
  pending_joins :: nat
  other_joins :: nat
  join_callbacks :: "drain_entry list"
  posted :: "drain_entry list"
  dead_receivers :: "nat list"
  done_log :: "nat list"

definition new_registry :: registry where
  "new_registry = \<lparr>execs = [], owners_by_thread = [], drain_callbacks = [], pending_joins = 0, other_joins = 0,
     join_callbacks = [], posted = [], dead_receivers = [], done_log = []\<rparr>"

definition receiver_alive :: "registry \<Rightarrow> drain_entry \<Rightarrow> bool" where
  "receiver_alive r c \<longleftrightarrow> fst c \<notin> set (dead_receivers r)"

definition notifyIfJoined :: "registry \<Rightarrow> registry" where
  "notifyIfJoined r =
     (if pending_joins r \<noteq> 0 then r
      else r\<lparr>join_callbacks := [], posted := posted r @ filter (receiver_alive r) (join_callbacks r)\<rparr>)"

definition WaitForThreadJoins :: "drain_entry \<Rightarrow> registry \<Rightarrow> registry" where
  "WaitForThreadJoins c r = notifyIfJoined (r\<lparr>join_callbacks := join_callbacks r @ [c]\<rparr>)"

definition notifyIfDrained :: "registry \<Rightarrow> registry" where
  "notifyIfDrained r =
     (if owners_by_thread r \<noteq> [] then r
      else fold (\<lambda>c r. if receiver_alive r c then WaitForThreadJoins c r else r)
             (drain_callbacks r) (r\<lparr>drain_callbacks := []\<rparr>))"

definition shutdown_owner :: "nat \<Rightarrow> registry \<Rightarrow> registry" where
  "shutdown_owner t r =
     (if owner_alive (execs r ! t) then r\<lparr>execs := (execs r)[t := shutdown (execs r ! t)]\<rparr> else r)"

definition shutdownAll :: "drain_entry \<Rightarrow> registry \<Rightarrow> registry" where
  "shutdownAll c r =
     notifyIfDrained (fold shutdown_owner (owners_by_thread r) (r\<lparr>drain_callbacks := drain_callbacks r @ [c]\<rparr>))"

text \<open>What the GUI thread's turn of an executor does beside the executor's own state.\<close>

datatype join_effect = NoJoin | StartJoin | EndJoin

definition turn_effect :: "exec_event \<Rightarrow> exec \<Rightarrow> join_effect" where
  "turn_effect ev e =
     (if ev \<noteq> GuiTurn then NoJoin
      else case gui_queue e of
        ThreadFinishedMsg # ms \<Rightarrow> StartJoin
      | JoinedMsg # ms \<Rightarrow> EndJoin
      | _ \<Rightarrow> NoJoin)"

definition JoinThreadAsync :: "registry \<Rightarrow> registry" where
  "JoinThreadAsync r = r\<lparr>pending_joins := pending_joins r + 1\<rparr>"

definition on_joined :: "nat \<Rightarrow> drain_entry list \<Rightarrow> registry \<Rightarrow> registry" where
  "on_joined t slots r =
     notifyIfJoined (notifyIfDrained
       ((if owner_alive (execs r ! t) then fold shutdownAll slots else id)
         (r\<lparr>pending_joins := pending_joins r - 1, owners_by_thread := remove1 t (owners_by_thread r)\<rparr>)))"

definition other_joined :: "drain_entry list \<Rightarrow> registry \<Rightarrow> registry" where
  "other_joined slots r =
     notifyIfJoined (fold shutdownAll slots
       (r\<lparr>pending_joins := pending_joins r - 1, other_joins := other_joins r - 1\<rparr>))"

definition new_executor :: "registry \<Rightarrow> registry" where
  "new_executor r = r\<lparr>execs := execs r @ [new_exec], owners_by_thread := owners_by_thread r @ [length (execs r)]\<rparr>"

definition exec_turn :: "nat \<Rightarrow> exec_event \<Rightarrow> drain_entry list \<Rightarrow> registry \<Rightarrow> registry option" where
  "exec_turn t ev slots r =
     (if t \<ge> length (execs r) then None
      else case exec_step ev (execs r ! t) of
        None \<Rightarrow> None
      | Some e' \<Rightarrow>
          let r1 = r\<lparr>execs := (execs r)[t := e']\<rparr>
          in Some (case turn_effect ev (execs r ! t) of
               NoJoin \<Rightarrow> r1
             | StartJoin \<Rightarrow> JoinThreadAsync r1
             | EndJoin \<Rightarrow> on_joined t slots r1))"

definition deliver_done :: "registry \<Rightarrow> registry option" where
  "deliver_done r =
     (case posted r of
        [] \<Rightarrow> None
      | c # cs \<Rightarrow>
          Some (r\<lparr>posted := cs, done_log := done_log r @ (if receiver_alive r c then [snd c] else [])\<rparr>))"

datatype reg_event =
    NewExecutor | Exec nat exec_event "drain_entry list" | OtherJoin | OtherJoined "drain_entry list"
  | ShutdownAll drain_entry | Deliver | ReceiverGone nat

fun reg_step :: "reg_event \<Rightarrow> registry \<Rightarrow> registry option" where
  "reg_step NewExecutor r = Some (new_executor r)"
| "reg_step (Exec t ev slots) r = exec_turn t ev slots r"
| "reg_step OtherJoin r = Some (JoinThreadAsync (r\<lparr>other_joins := other_joins r + 1\<rparr>))"
| "reg_step (OtherJoined slots) r = (if other_joins r = 0 then None else Some (other_joined slots r))"
| "reg_step (ShutdownAll c) r = Some (shutdownAll c r)"
| "reg_step Deliver r = deliver_done r"
| "reg_step (ReceiverGone p) r = Some (r\<lparr>dead_receivers := p # dead_receivers r\<rparr>)"

fun reg_run :: "reg_event list \<Rightarrow> registry \<Rightarrow> registry option" where
  "reg_run [] r = Some r"
| "reg_run (ev # evs) r = Option.bind (reg_step ev r) (reg_run evs)"

section \<open>Invariant\<close>

definition joining :: "exec \<Rightarrow> nat" where
  "joining e = (if thread_st e \<in> {ThreadJoining, JoinPosted} then 1 else 0)"

text \<open>A thread is registered until it is joined, and the count of joins is exact.\<close>

definition reg_core :: "registry \<Rightarrow> bool" where
  "reg_core r \<longleftrightarrow>
     (\<forall>e \<in> set (execs r). exec_inv e) \<and> distinct (owners_by_thread r) \<and>
     set (owners_by_thread r) = {t. t < length (execs r) \<and> thread_st (execs r ! t) \<noteq> ThreadGone} \<and>
     pending_joins r = other_joins r + sum_list (map joining (execs r))"

text \<open>No callback waits for something that has already happened.\<close>

definition reg_settled :: "registry \<Rightarrow> bool" where
  "reg_settled r \<longleftrightarrow>
     (drain_callbacks r \<noteq> [] \<longrightarrow> owners_by_thread r \<noteq> []) \<and> (join_callbacks r \<noteq> [] \<longrightarrow> pending_joins r \<noteq> 0)"

definition reg_inv :: "registry \<Rightarrow> bool" where
  "reg_inv r \<longleftrightarrow> reg_core r \<and> reg_settled r"

lemma new_registry_inv: "reg_inv new_registry"
  by (simp add: reg_inv_def reg_core_def reg_settled_def new_registry_def)

section \<open>Callbacks in transit\<close>

definition waiting :: "registry \<Rightarrow> drain_entry list" where
  "waiting r = posted r @ join_callbacks r @ drain_callbacks r"

definition same_threads :: "registry \<Rightarrow> registry \<Rightarrow> bool" where
  "same_threads r r' \<longleftrightarrow> execs r' = execs r \<and> owners_by_thread r' = owners_by_thread r \<and>
     pending_joins r' = pending_joins r \<and> other_joins r' = other_joins r \<and>
     dead_receivers r' = dead_receivers r \<and> done_log r' = done_log r"

text \<open>
  A notification moves entries between the lists: it duplicates none and loses only those of dead
  receivers.
\<close>

definition entries_kept :: "registry \<Rightarrow> registry \<Rightarrow> bool" where
  "entries_kept r r' \<longleftrightarrow>
     length (waiting r') \<le> length (waiting r) \<and>
     (\<forall>cb. count_list (map snd (waiting r')) cb \<le> count_list (map snd (waiting r)) cb) \<and>
     (\<forall>c. receiver_alive r c \<longrightarrow> count_list (waiting r') c = count_list (waiting r) c)"

definition moves :: "registry \<Rightarrow> registry \<Rightarrow> bool" where
  "moves r r' \<longleftrightarrow> same_threads r r' \<and> entries_kept r r'"

lemma moves_refl [simp]: "moves r r"
  by (simp add: moves_def same_threads_def entries_kept_def)

lemma moves_trans: "moves r r1 \<Longrightarrow> moves r1 r2 \<Longrightarrow> moves r r2"
  unfolding moves_def same_threads_def entries_kept_def receiver_alive_def by (metis order_trans)

lemma same_threads_core: "same_threads r r' \<Longrightarrow> reg_core r' = reg_core r"
  by (simp add: same_threads_def reg_core_def)

lemma count_list_filter: "count_list (filter P xs) c = (if P c then count_list xs c else 0)"
  by (induction xs) auto

lemma count_map_filter: "count_list (map f (filter P xs)) c \<le> count_list (map f xs) c"
  by (induction xs) auto

lemma notifyIfJoined_moves: "moves r (notifyIfJoined r)"
  by (simp add: moves_def same_threads_def entries_kept_def notifyIfJoined_def waiting_def count_list_filter count_map_filter)

lemma notifyIfJoined_lists:
  "drain_callbacks (notifyIfJoined r) = drain_callbacks r"
  "set (join_callbacks (notifyIfJoined r)) \<subseteq> set (join_callbacks r)"
  "set (posted (notifyIfJoined r)) \<subseteq> set (posted r) \<union> (if pending_joins r = 0 then set (join_callbacks r) else {})"
  "pending_joins r = 0 \<Longrightarrow> join_callbacks (notifyIfJoined r) = []"
  by (auto simp: notifyIfJoined_def)

text \<open>Moving one drain callback on: the loop body of the executors' \<open>notifyIfDrained\<close>.\<close>

lemma WaitForThreadJoins_moves:
  "moves (r\<lparr>drain_callbacks := c # cs\<rparr>)
     ((if receiver_alive r c then WaitForThreadJoins c r else r)\<lparr>drain_callbacks := cs\<rparr>)"
  by (auto simp: moves_def same_threads_def entries_kept_def WaitForThreadJoins_def notifyIfJoined_def waiting_def
      receiver_alive_def count_list_filter count_map_filter)

lemma drain_loop_moves:
  "moves (r\<lparr>drain_callbacks := cs\<rparr>)
     ((fold (\<lambda>c r. if receiver_alive r c then WaitForThreadJoins c r else r) cs r)\<lparr>drain_callbacks := []\<rparr>)"
proof (induction cs arbitrary: r)
  case (Cons c cs)
  from moves_trans [OF WaitForThreadJoins_moves Cons.IH] show ?case by simp
qed simp

lemma WaitForThreadJoins_lists:
  "drain_callbacks (WaitForThreadJoins c r) = drain_callbacks r"
  "set (join_callbacks (WaitForThreadJoins c r)) \<subseteq> insert c (set (join_callbacks r))"
  "pending_joins (WaitForThreadJoins c r) = pending_joins r"
  "pending_joins r \<noteq> 0 \<Longrightarrow> posted (WaitForThreadJoins c r) = posted r"
  "set (posted (WaitForThreadJoins c r)) \<subseteq> insert c (set (posted r) \<union> set (join_callbacks r))"
  "pending_joins r = 0 \<Longrightarrow> join_callbacks (WaitForThreadJoins c r) = []"
  by (auto simp: WaitForThreadJoins_def notifyIfJoined_def)

lemma drain_loop_lists:
  fixes r :: registry and cs :: "drain_entry list"
  defines "r' \<equiv> fold (\<lambda>c r. if receiver_alive r c then WaitForThreadJoins c r else r) cs r"
  shows "drain_callbacks r' = drain_callbacks r \<and>
     set (join_callbacks r') \<subseteq> set cs \<union> set (join_callbacks r) \<and>
     (pending_joins r \<noteq> 0 \<longrightarrow> posted r' = posted r) \<and>
     set (posted r') \<subseteq> set cs \<union> set (posted r) \<union> set (join_callbacks r) \<and>
     (pending_joins r = 0 \<and> join_callbacks r = [] \<longrightarrow> join_callbacks r' = [])"
  unfolding r'_def
proof (induction cs arbitrary: r)
  case (Cons c cs)
  let ?r1 = "if receiver_alive r c then WaitForThreadJoins c r else r"
  have "drain_callbacks ?r1 = drain_callbacks r \<and>
     set (join_callbacks ?r1) \<subseteq> insert c (set (join_callbacks r)) \<and>
     pending_joins ?r1 = pending_joins r \<and> (pending_joins r \<noteq> 0 \<longrightarrow> posted ?r1 = posted r) \<and>
     set (posted ?r1) \<subseteq> insert c (set (posted r) \<union> set (join_callbacks r)) \<and>
     (pending_joins r = 0 \<and> join_callbacks r = [] \<longrightarrow> join_callbacks ?r1 = [])"
    using WaitForThreadJoins_lists [where c = c and r = r] by auto
  then show ?case using Cons.IH [of ?r1] by (auto simp del: if_split)
qed simp

lemma notifyIfDrained_moves: "moves r (notifyIfDrained r)"
proof (cases "owners_by_thread r = []")
  case True
  let ?f = "fold (\<lambda>c r. if receiver_alive r c then WaitForThreadJoins c r else r) (drain_callbacks r)"
  have "drain_callbacks (?f (r\<lparr>drain_callbacks := []\<rparr>)) = []"
    using drain_loop_lists [where cs = "drain_callbacks r" and r = "r\<lparr>drain_callbacks := []\<rparr>"] by simp
  then have "(?f (r\<lparr>drain_callbacks := []\<rparr>))\<lparr>drain_callbacks := []\<rparr> = ?f (r\<lparr>drain_callbacks := []\<rparr>)"
    by simp
  with drain_loop_moves [of "drain_callbacks r" "r\<lparr>drain_callbacks := []\<rparr>"] True show ?thesis
    by (simp add: notifyIfDrained_def)
qed (simp add: notifyIfDrained_def)

text \<open>What a notification may leave where.\<close>

lemma notifyIfDrained_lists:
  "owners_by_thread r \<noteq> [] \<Longrightarrow> notifyIfDrained r = r"
  "owners_by_thread r = [] \<Longrightarrow> drain_callbacks (notifyIfDrained r) = []"
  "pending_joins r \<noteq> 0 \<Longrightarrow> posted (notifyIfDrained r) = posted r"
  "join_callbacks r = [] \<Longrightarrow> pending_joins r = 0 \<Longrightarrow> join_callbacks (notifyIfDrained r) = []"
  using drain_loop_lists [where cs = "drain_callbacks r" and r = "r\<lparr>drain_callbacks := []\<rparr>"]
  by (auto simp: notifyIfDrained_def)

definition drain_ok :: "registry \<Rightarrow> bool" where
  "drain_ok r \<longleftrightarrow> (drain_callbacks r \<noteq> [] \<longrightarrow> owners_by_thread r \<noteq> [])"

definition join_ok :: "registry \<Rightarrow> bool" where
  "join_ok r \<longleftrightarrow> (join_callbacks r \<noteq> [] \<longrightarrow> pending_joins r \<noteq> 0)"

lemma reg_inv_parts: "reg_inv r \<longleftrightarrow> reg_core r \<and> drain_ok r \<and> join_ok r"
  by (auto simp: reg_inv_def reg_settled_def drain_ok_def join_ok_def)

lemma notifyIfJoined_ok:
  "reg_core (notifyIfJoined r) = reg_core r" "drain_ok r \<Longrightarrow> drain_ok (notifyIfJoined r)" "join_ok (notifyIfJoined r)"
  by (auto simp: reg_core_def drain_ok_def join_ok_def notifyIfJoined_def)

lemma notifyIfDrained_ok:
  "reg_core (notifyIfDrained r) = reg_core r" "drain_ok (notifyIfDrained r)" "join_ok r \<Longrightarrow> join_ok (notifyIfDrained r)"
proof -
  have same: "same_threads r (notifyIfDrained r)" using notifyIfDrained_moves by (simp add: moves_def)
  then show "reg_core (notifyIfDrained r) = reg_core r" by (rule same_threads_core)
  show "drain_ok (notifyIfDrained r)"
    using same notifyIfDrained_lists(2) by (auto simp: drain_ok_def same_threads_def)
  assume "join_ok r"
  then show "join_ok (notifyIfDrained r)"
    using same notifyIfDrained_lists(4) by (auto simp: join_ok_def same_threads_def)
qed

section \<open>Shutting all executors down\<close>

lemma shutdown_keeps [simp]:
  "thread_st (shutdown e) = thread_st e" "owner_alive (shutdown e) = owner_alive e" "joining (shutdown e) = joining e"
  "accepted_log (shutdown e) = accepted_log e" "m_stopping (shutdown e)" "delivered_log (shutdown e) = delivered_log e"
  by (simp_all add: shutdown_def joining_def)

lemma update_core:
  assumes "reg_core r" "t < length (execs r)" "exec_inv e"
    and "thread_st e = ThreadGone \<longleftrightarrow> thread_st (execs r ! t) = ThreadGone" "joining e = joining (execs r ! t)"
  shows "reg_core (r\<lparr>execs := (execs r)[t := e]\<rparr>)"
proof -
  have "map joining ((execs r)[t := e]) = map joining (execs r)"
    using assms(2,5) by (metis list_update_id map_update nth_map)
  moreover have "\<forall>e' \<in> set ((execs r)[t := e]). exec_inv e'"
    using assms(1,3) set_update_subset_insert [of "execs r" t e] by (auto simp: reg_core_def)
  moreover have "{u. u < length (execs r) \<and> thread_st ((execs r)[t := e] ! u) \<noteq> ThreadGone} =
      {u. u < length (execs r) \<and> thread_st (execs r ! u) \<noteq> ThreadGone}"
    using assms(2,4) by (auto simp: nth_list_update)
  ultimately show ?thesis using assms(1) by (simp add: reg_core_def)
qed

lemma shutdown_owner_core: "reg_core r \<Longrightarrow> t < length (execs r) \<Longrightarrow> reg_core (shutdown_owner t r)"
  unfolding shutdown_owner_def using update_core [of r t "shutdown (execs r ! t)"] shutdown_inv
  by (simp add: reg_core_def)

lemma shutdown_owner_keeps [simp]:
  "owners_by_thread (shutdown_owner t r) = owners_by_thread r" "drain_callbacks (shutdown_owner t r) = drain_callbacks r"
  "pending_joins (shutdown_owner t r) = pending_joins r" "other_joins (shutdown_owner t r) = other_joins r"
  "join_callbacks (shutdown_owner t r) = join_callbacks r" "posted (shutdown_owner t r) = posted r"
  "dead_receivers (shutdown_owner t r) = dead_receivers r" "done_log (shutdown_owner t r) = done_log r"
  "length (execs (shutdown_owner t r)) = length (execs r)"
  by (simp_all add: shutdown_owner_def)

lemma shutdown_owners_core:
  "reg_core r \<Longrightarrow> set ts \<subseteq> {..<length (execs r)} \<Longrightarrow> reg_core (fold shutdown_owner ts r)"
  by (induction ts arbitrary: r) (auto simp: shutdown_owner_core)

lemma shutdown_owners_keeps [simp]:
  "owners_by_thread (fold shutdown_owner ts r) = owners_by_thread r"
  "drain_callbacks (fold shutdown_owner ts r) = drain_callbacks r"
  "pending_joins (fold shutdown_owner ts r) = pending_joins r"
  "other_joins (fold shutdown_owner ts r) = other_joins r"
  "join_callbacks (fold shutdown_owner ts r) = join_callbacks r"
  "posted (fold shutdown_owner ts r) = posted r"
  "dead_receivers (fold shutdown_owner ts r) = dead_receivers r"
  "done_log (fold shutdown_owner ts r) = done_log r"
  "length (execs (fold shutdown_owner ts r)) = length (execs r)"
  by (induction ts arbitrary: r) simp_all

lemma shutdown_twice [simp]: "shutdown (shutdown e) = shutdown e"
  by (simp add: shutdown_def)

lemma shutdown_owners_nth:
  "u < length (execs r) \<Longrightarrow> execs (fold shutdown_owner ts r) ! u =
     (if u \<in> set ts \<and> owner_alive (execs r ! u) then shutdown (execs r ! u) else execs r ! u)"
proof (induction ts arbitrary: r)
  case (Cons t ts)
  then show ?case
    by (cases "u = t") (auto simp: shutdown_owner_def nth_list_update)
qed simp

lemma shutdownAll_same:
  "owners_by_thread (shutdownAll c r) = owners_by_thread r" "pending_joins (shutdownAll c r) = pending_joins r"
  "other_joins (shutdownAll c r) = other_joins r" "dead_receivers (shutdownAll c r) = dead_receivers r"
  "done_log (shutdownAll c r) = done_log r"
  "execs (shutdownAll c r) = execs (fold shutdown_owner (owners_by_thread r) (r\<lparr>drain_callbacks := drain_callbacks r @ [c]\<rparr>))"
  using notifyIfDrained_moves [of "fold shutdown_owner (owners_by_thread r) (r\<lparr>drain_callbacks := drain_callbacks r @ [c]\<rparr>)"]
  by (simp_all add: shutdownAll_def moves_def same_threads_def)

lemma core_drain_update [simp]: "reg_core (r\<lparr>drain_callbacks := cs\<rparr>) = reg_core r"
  by (simp add: reg_core_def)

lemma owners_bound: "reg_core r \<Longrightarrow> set (owners_by_thread r) \<subseteq> {..<length (execs r)}"
  by (auto simp: reg_core_def)

lemma shutdownAll_ok:
  "reg_core r \<Longrightarrow> reg_core (shutdownAll c r)" "drain_ok (shutdownAll c r)" "join_ok r \<Longrightarrow> join_ok (shutdownAll c r)"
proof -
  show "drain_ok (shutdownAll c r)" by (simp add: shutdownAll_def notifyIfDrained_ok)
  show "join_ok (shutdownAll c r)" if "join_ok r"
    using that unfolding shutdownAll_def by (intro notifyIfDrained_ok(3)) (simp add: join_ok_def)
  show "reg_core (shutdownAll c r)" if "reg_core r"
    using that owners_bound [OF that] by (simp add: shutdownAll_def notifyIfDrained_ok shutdown_owners_core)
qed

lemma shutdownAll_nth:
  assumes "u < length (execs r)"
  shows "execs (shutdownAll c r) ! u =
     (if u \<in> set (owners_by_thread r) \<and> owner_alive (execs r ! u) then shutdown (execs r ! u) else execs r ! u)"
  using assms shutdown_owners_nth [of u "r\<lparr>drain_callbacks := drain_callbacks r @ [c]\<rparr>"]
  by (simp add: shutdownAll_same)

lemma shutdownAll_length: "length (execs (shutdownAll c r)) = length (execs r)"
  by (simp add: shutdownAll_same)

definition all_stopping :: "registry \<Rightarrow> bool" where
  "all_stopping r \<longleftrightarrow> (\<forall>e \<in> set (execs r). m_stopping e)"

text \<open>An executor that is not stopping is registered and its owner exists, so \<open>shutdownAll\<close> misses none.\<close>

lemma shutdownAll_stops:
  assumes "reg_core r"
  shows "all_stopping (shutdownAll c r)"
  unfolding all_stopping_def all_set_conv_all_nth
proof (intro allI impI)
  fix u assume "u < length (execs (shutdownAll c r))"
  then have u: "u < length (execs r)" by (simp add: shutdownAll_same)
  then have "exec_inv (execs r ! u)" using assms by (simp add: reg_core_def)
  then have "\<not> m_stopping (execs r ! u) \<Longrightarrow> u \<in> set (owners_by_thread r) \<and> owner_alive (execs r ! u)"
    using u assms by (simp add: reg_core_def exec_inv_def stage_ok_def)
  with u show "m_stopping (execs (shutdownAll c r) ! u)" by (auto simp: shutdownAll_nth)
qed

lemma shutdownAlls_ok:
  "reg_core r \<Longrightarrow> reg_core (fold shutdownAll cs r)" "drain_ok r \<Longrightarrow> drain_ok (fold shutdownAll cs r)"
  "join_ok r \<Longrightarrow> join_ok (fold shutdownAll cs r)"
  by (induction cs arbitrary: r) (simp_all add: shutdownAll_ok)

lemma shutdownAlls_same:
  "owners_by_thread (fold shutdownAll cs r) = owners_by_thread r"
  "pending_joins (fold shutdownAll cs r) = pending_joins r"
  "other_joins (fold shutdownAll cs r) = other_joins r"
  "dead_receivers (fold shutdownAll cs r) = dead_receivers r" "done_log (fold shutdownAll cs r) = done_log r"
  "length (execs (fold shutdownAll cs r)) = length (execs r)"
  by (induction cs arbitrary: r) (simp_all add: shutdownAll_same)

section \<open>Turns of an executor\<close>

lemma gui_calls_thread: "thread_st (fold gui_call gs e) = thread_st e"
proof (induction gs arbitrary: e)
  case (Cons g gs)
  have "thread_st (gui_call g e) = thread_st e"
    by (cases g) (simp_all add: enqueue_def Let_def destroy_def)
  with Cons show ?case by simp
qed simp

lemma on_completed_thread: "thread_st (on_completed i e) = thread_st e"
  by (simp add: on_completed_def Let_def gui_calls_thread split: option.split)

text \<open>How a turn moves the thread of its executor, by its effect on the registries.\<close>

lemma exec_step_thread:
  assumes "exec_inv e" "exec_step ev e = Some e'"
  shows "case turn_effect ev e of
      NoJoin \<Rightarrow> (thread_st e' = ThreadGone \<longleftrightarrow> thread_st e = ThreadGone) \<and> joining e' = joining e
    | StartJoin \<Rightarrow> thread_st e \<noteq> ThreadGone \<and> thread_st e' \<noteq> ThreadGone \<and> joining e = 0 \<and> joining e' = 1
    | EndJoin \<Rightarrow> thread_st e \<noteq> ThreadGone \<and> thread_st e' = ThreadGone \<and> joining e = 1 \<and> joining e' = 0"
proof (cases ev)
  case (Call g)
  with assms gui_calls_thread [of "[g]" e] show ?thesis
    by (auto simp: turn_effect_def joining_def split: if_splits)
next
  case GuiTurn
  then obtain m ms where q: "gui_queue e = m # ms" using assms(2) by (cases "gui_queue e") (auto simp: gui_turn_def)
  show ?thesis
  proof (cases m)
    case (CompletedMsg i)
    with GuiTurn q assms show ?thesis by (auto simp: gui_turn_def turn_effect_def on_completed_thread joining_def)
  qed (use GuiTurn q assms in \<open>auto simp: gui_turn_def turn_effect_def joining_def exec_inv_def stage_ok_def
       split: thread_state.splits if_splits\<close>)
qed (use assms in \<open>auto simp: turn_effect_def joining_def worker_turn_def thread_exit_def join_return_def
      split: list.splits worker_msg.splits if_splits\<close>)

lemma execs_set: "reg_core r \<Longrightarrow> t < length (execs r) \<Longrightarrow> exec_inv (execs r ! t)"
  by (simp add: reg_core_def)

lemma joining_update:
  "t < length es \<Longrightarrow> sum_list (map joining (es[t := e])) + joining (es ! t) = sum_list (map joining es) + joining e"
  by (induction es arbitrary: t) (auto simp: nth_Cons split: nat.splits)

lemma inv_update: "reg_core r \<Longrightarrow> exec_inv e \<Longrightarrow> \<forall>e' \<in> set ((execs r)[t := e]). exec_inv e'"
  using set_update_subset_insert [of "execs r" t e] by (auto simp: reg_core_def)

lemma start_join_core:
  assumes "reg_core r" "t < length (execs r)" "exec_inv e" "thread_st (execs r ! t) \<noteq> ThreadGone"
    "thread_st e \<noteq> ThreadGone" "joining (execs r ! t) = 0" "joining e = 1"
  shows "reg_core (JoinThreadAsync (r\<lparr>execs := (execs r)[t := e]\<rparr>))"
  using assms joining_update [of t "execs r" e] inv_update [of r e t]
  by (auto simp: reg_core_def JoinThreadAsync_def nth_list_update)

lemma end_join_core:
  assumes "reg_core r" "t < length (execs r)" "exec_inv e" "thread_st (execs r ! t) \<noteq> ThreadGone"
    "thread_st e = ThreadGone" "joining (execs r ! t) = 1" "joining e = 0"
  shows "reg_core (r\<lparr>execs := (execs r)[t := e], pending_joins := pending_joins r - 1,
     owners_by_thread := remove1 t (owners_by_thread r)\<rparr>)"
  using assms joining_update [of t "execs r" e] inv_update [of r e t]
  by (auto simp: reg_core_def nth_list_update set_remove1_eq)

lemma on_joined_ok:
  assumes "reg_core (r\<lparr>pending_joins := pending_joins r - 1, owners_by_thread := remove1 t (owners_by_thread r)\<rparr>)"
  shows "reg_inv (on_joined t cs r)"
  using assms by (simp add: reg_inv_parts on_joined_def notifyIfJoined_ok notifyIfDrained_ok shutdownAlls_ok)

text \<open>Accepted tasks are never forgotten, so a run that fits at its end fits throughout.\<close>

definition logs :: "registry \<Rightarrow> nat list list" where
  "logs r = map accepted_log (execs r)"

definition grown :: "registry \<Rightarrow> registry \<Rightarrow> bool" where
  "grown r r' \<longleftrightarrow> length (execs r) \<le> length (execs r') \<and>
     (\<forall>u < length (execs r). length (logs r ! u) \<le> length (logs r' ! u))"

abbreviation all_fit :: "registry \<Rightarrow> bool" where
  "all_fit r \<equiv> \<forall>e \<in> set (execs r). fits e"

lemma grown_fits: "grown r r' \<Longrightarrow> all_fit r' \<Longrightarrow> all_fit r"
  unfolding all_set_conv_all_nth
proof (intro allI impI)
  fix u assume a: "grown r r'" "\<forall>u<length (execs r'). fits (execs r' ! u)" "u < length (execs r)"
  then have "u < length (execs r')" "length (logs r ! u) \<le> length (logs r' ! u)" by (auto simp: grown_def)
  with a show "fits (execs r ! u)" by (auto simp: logs_def intro: le_less_trans)
qed

lemma grown_refl: "logs r' = logs r \<Longrightarrow> grown r r'"
  using map_eq_imp_length_eq by (fastforce simp: grown_def logs_def)

lemma grown_trans: "grown r r1 \<Longrightarrow> grown r1 r2 \<Longrightarrow> grown r r2"
  unfolding grown_def by (meson less_le_trans order_trans)

lemma moves_logs: "moves r r' \<Longrightarrow> logs r' = logs r"
  by (simp add: moves_def same_threads_def logs_def)

lemma shutdownAlls_logs: "logs (fold shutdownAll cs r) = logs r"
proof (induction cs arbitrary: r)
  case (Cons c cs)
  have "logs (shutdownAll c r) = logs r"
    by (rule nth_equalityI) (auto simp: logs_def shutdownAll_nth shutdownAll_length)
  with Cons show ?case by simp
qed simp

lemma on_joined_logs: "logs (on_joined t cs r) = logs r"
  using shutdownAlls_logs [of cs "r\<lparr>pending_joins := p, owners_by_thread := os\<rparr>" for p os]
  by (simp add: on_joined_def moves_logs [OF notifyIfJoined_moves] moves_logs [OF notifyIfDrained_moves])
    (simp add: logs_def)

lemma other_joined_logs: "logs (other_joined cs r) = logs r"
  by (simp add: other_joined_def moves_logs [OF notifyIfJoined_moves] shutdownAlls_logs) (simp add: logs_def)

lemma exec_turn_logs:
  assumes "exec_turn t ev cs r = Some r'"
  obtains e' where "t < length (execs r)" "exec_step ev (execs r ! t) = Some e'"
    "logs r' = (logs r)[t := accepted_log e']"
    "r' = (case turn_effect ev (execs r ! t) of NoJoin \<Rightarrow> r\<lparr>execs := (execs r)[t := e']\<rparr>
       | StartJoin \<Rightarrow> JoinThreadAsync (r\<lparr>execs := (execs r)[t := e']\<rparr>)
       | EndJoin \<Rightarrow> on_joined t cs (r\<lparr>execs := (execs r)[t := e']\<rparr>))"
proof -
  from assms obtain e' where e': "t < length (execs r)" "exec_step ev (execs r ! t) = Some e'"
    by (auto simp: exec_turn_def split: if_splits option.splits)
  let ?r1 = "r\<lparr>execs := (execs r)[t := e']\<rparr>"
  have r': "r' = (case turn_effect ev (execs r ! t) of NoJoin \<Rightarrow> ?r1 | StartJoin \<Rightarrow> JoinThreadAsync ?r1
      | EndJoin \<Rightarrow> on_joined t cs ?r1)"
    using assms e' by (simp add: exec_turn_def Let_def)
  have "logs ?r1 = (logs r)[t := accepted_log e']" by (simp add: logs_def map_update)
  moreover have "logs (JoinThreadAsync ?r1) = logs ?r1" by (simp add: logs_def JoinThreadAsync_def)
  ultimately have "logs r' = (logs r)[t := accepted_log e']"
    unfolding r' by (simp add: on_joined_logs split: join_effect.split)
  with e' r' that show ?thesis by blast
qed

lemma exec_turn_inv:
  assumes inv: "reg_inv r" and s: "exec_turn t ev cs r = Some r'" and fits: "\<forall>e \<in> set (execs r'). fits e"
  shows "reg_inv r'"
proof -
  from exec_turn_logs [OF s] obtain e' where t: "t < length (execs r)"
    and e': "exec_step ev (execs r ! t) = Some e'" and logs: "logs r' = (logs r)[t := accepted_log e']"
    and r': "r' = (case turn_effect ev (execs r ! t) of NoJoin \<Rightarrow> r\<lparr>execs := (execs r)[t := e']\<rparr>
       | StartJoin \<Rightarrow> JoinThreadAsync (r\<lparr>execs := (execs r)[t := e']\<rparr>)
       | EndJoin \<Rightarrow> on_joined t cs (r\<lparr>execs := (execs r)[t := e']\<rparr>))" .
  have core: "reg_core r" and ok: "drain_ok r" "join_ok r" using inv by (simp_all add: reg_inv_parts)
  have einv: "exec_inv (execs r ! t)" using core t by (rule execs_set)
  note th = exec_step_thread [OF einv e']
  have "accepted_log e' \<in> set (logs r')" using t logs by (simp add: logs_def set_update_memI)
  then have "fits e'" using fits by (auto simp: logs_def)
  then have "exec_inv e'" using exec_step_inv [OF einv e'] by blast
  then show ?thesis
  proof (cases "turn_effect ev (execs r ! t)")
    case EndJoin
    with th have "reg_core (r\<lparr>execs := (execs r)[t := e'], pending_joins := pending_joins r - 1,
        owners_by_thread := remove1 t (owners_by_thread r)\<rparr>)"
      using end_join_core [OF core t \<open>exec_inv e'\<close>] by simp
    then show ?thesis unfolding r' EndJoin by (simp add: on_joined_ok)
  qed (use th core ok t r' in \<open>simp_all add: reg_inv_parts update_core start_join_core\<close>,
      simp_all add: drain_ok_def join_ok_def JoinThreadAsync_def)
qed

lemma reg_step_grown:
  assumes "reg_step ev r = Some r'"
  shows "grown r r'"
proof (cases ev)
  case NewExecutor
  with assms show ?thesis by (auto simp: grown_def logs_def new_executor_def nth_append)
next
  case (Exec t ev' cs)
  with assms obtain e' where e': "t < length (execs r)" "exec_step ev' (execs r ! t) = Some e'"
    and logs: "logs r' = (logs r)[t := accepted_log e']" by (auto elim: exec_turn_logs)
  have "length (execs r') = length (execs r)" using arg_cong [OF logs, of length] by (simp add: logs_def)
  moreover have "length (logs r ! u) \<le> length (logs r' ! u)" if "u < length (execs r)" for u
    using that exec_step_accepted [OF e'(2)] e'(1) unfolding logs by (auto simp: logs_def nth_list_update)
  ultimately show ?thesis by (simp add: grown_def)
next
  case (ShutdownAll c)
  with assms shutdownAlls_logs [of "[c]" r] show ?thesis by (auto intro: grown_refl)
qed (use assms in \<open>auto intro!: grown_refl simp: other_joined_logs deliver_done_def JoinThreadAsync_def
      split: if_splits list.splits\<close>, auto simp: logs_def)

lemma reg_step_inv:
  assumes inv: "reg_inv r" and s: "reg_step ev r = Some r'" and fits: "all_fit r'"
  shows "reg_inv r'"
proof (cases ev)
  case NewExecutor
  with inv s new_exec_inv show ?thesis
    by (auto simp: reg_inv_parts reg_core_def drain_ok_def join_ok_def new_executor_def new_exec_def joining_def
        nth_append less_Suc_eq)
next
  case (OtherJoined cs)
  let ?r1 = "r\<lparr>pending_joins := pending_joins r - 1, other_joins := other_joins r - 1\<rparr>"
  have "reg_core ?r1" "drain_ok ?r1" using inv OtherJoined s
    by (auto simp: reg_inv_parts reg_core_def drain_ok_def split: if_splits)
  with OtherJoined s show ?thesis
    by (auto simp: reg_inv_parts other_joined_def notifyIfJoined_ok shutdownAlls_ok split: if_splits)
next
  case Deliver
  with inv s show ?thesis
    by (auto simp: reg_inv_parts reg_core_def drain_ok_def join_ok_def deliver_done_def split: list.splits)
next
  case (Exec t ev' cs)
  with inv s fits exec_turn_inv show ?thesis by simp
next
  case (ShutdownAll c)
  with inv s show ?thesis by (auto simp: reg_inv_parts shutdownAll_ok)
qed (use inv s in \<open>auto simp: reg_inv_parts reg_core_def drain_ok_def join_ok_def JoinThreadAsync_def\<close>)

lemma reg_run_grown: "reg_run evs r = Some r' \<Longrightarrow> grown r r'"
proof (induction evs arbitrary: r)
  case Nil
  then show ?case by (simp add: grown_refl)
next
  case (Cons ev evs)
  then obtain r1 where 1: "reg_step ev r = Some r1" "reg_run evs r1 = Some r'"
    by (auto simp: bind_eq_Some_conv)
  from grown_trans [OF reg_step_grown [OF 1(1)] Cons.IH [OF 1(2)]] show ?case .
qed

lemma reg_run_inv: "reg_run evs r = Some r' \<Longrightarrow> reg_inv r \<Longrightarrow> all_fit r' \<Longrightarrow> reg_inv r'"
proof (induction evs arbitrary: r)
  case (Cons ev evs)
  then obtain r1 where 1: "reg_step ev r = Some r1" "reg_run evs r1 = Some r'"
    by (auto simp: bind_eq_Some_conv)
  have "all_fit r1" using grown_fits [OF reg_run_grown [OF 1(2)]] Cons.prems(3) by blast
  then have "reg_inv r1" using reg_step_inv [OF Cons.prems(2) 1(1)] by blast
  with Cons.IH [OF 1(2)] Cons.prems(3) show ?case by blast
qed simp

section \<open>A callback on its way\<close>

text \<open>Where a callback can be, and that it is there exactly once unless its receiver is gone.\<close>

definition placed :: "nat \<Rightarrow> registry \<Rightarrow> bool" where
  "placed cb r \<longleftrightarrow>
     (cb \<in> snd ` set (join_callbacks r) \<union> snd ` set (posted r) \<union> set (done_log r) \<longrightarrow> owners_by_thread r = []) \<and>
     (cb \<in> snd ` set (posted r) \<union> set (done_log r) \<longrightarrow> pending_joins r = 0)"

definition once :: "nat \<Rightarrow> nat \<Rightarrow> registry \<Rightarrow> bool" where
  "once p cb r \<longleftrightarrow>
     count_list (map snd (waiting r)) cb + count_list (done_log r) cb \<le> 1 \<and>
     (receiver_alive r (p, cb) \<longrightarrow> (p, cb) \<in> set (waiting r) \<or> cb \<in> set (done_log r))"

lemma moves_once:
  assumes "moves r r'" "once p cb r"
  shows "once p cb r'"
proof -
  have "count_list (map snd (waiting r')) cb \<le> count_list (map snd (waiting r)) cb" "done_log r' = done_log r"
    "receiver_alive r' (p, cb) = receiver_alive r (p, cb)"
    using assms(1) by (simp_all add: moves_def entries_kept_def same_threads_def receiver_alive_def)
  moreover have "receiver_alive r (p, cb) \<Longrightarrow> (p, cb) \<in> set (waiting r') \<longleftrightarrow> (p, cb) \<in> set (waiting r)"
    using assms(1) unfolding moves_def entries_kept_def by (metis count_list_0_iff)
  ultimately show ?thesis using assms(2) by (auto simp: once_def)
qed

lemma notifyIfJoined_placed: "placed cb r \<Longrightarrow> placed cb (notifyIfJoined r)"
  by (auto simp: placed_def notifyIfJoined_def)

lemma notifyIfDrained_placed:
  assumes "placed cb r"
  shows "placed cb (notifyIfDrained r)"
proof (cases "owners_by_thread r = []")
  case True
  have "same_threads r (notifyIfDrained r)" using notifyIfDrained_moves by (simp add: moves_def)
  then show ?thesis using assms True notifyIfDrained_lists(3) [of r]
    by (cases "pending_joins r = 0") (auto simp: placed_def same_threads_def)
qed (simp add: assms notifyIfDrained_lists)

lemma shutdownAll_placed: "placed cb r \<Longrightarrow> placed cb (shutdownAll c r)"
  unfolding shutdownAll_def by (rule notifyIfDrained_placed) (simp add: placed_def)

lemma shutdownAll_once:
  assumes "once p cb r" "snd c \<noteq> cb"
  shows "once p cb (shutdownAll c r)"
  unfolding shutdownAll_def
  using assms by (intro moves_once [OF notifyIfDrained_moves]) (auto simp: once_def waiting_def receiver_alive_def)

lemma shutdownAll_entry:
  assumes "cb \<notin> snd ` set (waiting r) \<union> set (done_log r)"
  shows "placed cb (shutdownAll (p, cb) r) \<and> once p cb (shutdownAll (p, cb) r)"
proof -
  let ?r1 = "fold shutdown_owner (owners_by_thread r) (r\<lparr>drain_callbacks := drain_callbacks r @ [(p, cb)]\<rparr>)"
  have "placed cb ?r1" using assms by (auto simp: placed_def waiting_def)
  moreover have "count_list (map snd (waiting r)) cb = 0" "count_list (done_log r) cb = 0"
    using assms by (auto simp: count_list_0_iff)
  then have "once p cb ?r1" by (auto simp: once_def waiting_def)
  ultimately show ?thesis
    unfolding shutdownAll_def using notifyIfDrained_placed moves_once [OF notifyIfDrained_moves] by blast
qed

lemma shutdownAlls_entry:
  "placed cb r \<Longrightarrow> placed cb (fold shutdownAll cs r)"
  "once p cb r \<Longrightarrow> cb \<notin> snd ` set cs \<Longrightarrow> once p cb (fold shutdownAll cs r)"
  by (induction cs arbitrary: r) (auto simp: shutdownAll_placed shutdownAll_once)

lemma shutdownAlls_stopping: "all_stopping r \<Longrightarrow> all_stopping (fold shutdownAll cs r)"
proof (induction cs arbitrary: r)
  case (Cons c cs)
  have "all_stopping (shutdownAll c r)"
    using Cons.prems shutdownAll_nth [of _ r c] shutdownAll_length [of c r]
    by (simp add: all_stopping_def all_set_conv_all_nth)
  with Cons.IH show ?case by simp
qed simp

lemma notifyIfJoined_stopping: "all_stopping r \<Longrightarrow> all_stopping (notifyIfJoined r)"
  by (simp add: all_stopping_def notifyIfJoined_def)

text \<open>The events after a shutdown: nothing new is started, and the callback is not registered again.\<close>

fun closing :: "nat \<Rightarrow> reg_event \<Rightarrow> bool" where
  "closing cb NewExecutor = False"
| "closing cb OtherJoin = False"
| "closing cb (Exec t ev slots) = (cb \<notin> snd ` set slots)"
| "closing cb (OtherJoined slots) = (cb \<notin> snd ` set slots)"
| "closing cb (ShutdownAll c) = (snd c \<noteq> cb)"
| "closing cb Deliver = True"
| "closing cb (ReceiverGone p) = True"

definition tracked :: "nat \<Rightarrow> nat \<Rightarrow> registry \<Rightarrow> bool" where
  "tracked p cb r \<longleftrightarrow> reg_inv r \<and> all_stopping r \<and> placed cb r \<and> once p cb r"

lemma step_stopping: "exec_inv e \<Longrightarrow> fits e \<Longrightarrow> m_stopping e \<Longrightarrow> exec_step ev e = Some e' \<Longrightarrow>
    m_stopping e' \<and> accepted_log e' = accepted_log e"
  using stopped_run [of "[ev]" e e'] by simp

lemma on_joined_entry:
  assumes "placed cb r" "once p cb r" "all_stopping r" "cb \<notin> snd ` set cs"
  shows "placed cb (on_joined t cs r) \<and> once p cb (on_joined t cs r) \<and> all_stopping (on_joined t cs r)"
proof -
  let ?r1 = "r\<lparr>pending_joins := pending_joins r - 1, owners_by_thread := remove1 t (owners_by_thread r)\<rparr>"
  let ?r2 = "(if owner_alive (execs r ! t) then fold shutdownAll cs else id) ?r1"
  have "placed cb ?r1" "once p cb ?r1" "all_stopping ?r1"
    using assms by (auto simp: placed_def once_def waiting_def receiver_alive_def all_stopping_def)
  then have 2: "placed cb ?r2" "once p cb ?r2" "all_stopping ?r2"
    using assms(4) by (simp_all add: shutdownAlls_entry shutdownAlls_stopping)
  have m: "moves ?r2 (on_joined t cs r)"
    unfolding on_joined_def using moves_trans [OF notifyIfDrained_moves notifyIfJoined_moves] .
  then have "execs (on_joined t cs r) = execs ?r2" by (simp add: moves_def same_threads_def)
  with 2 moves_once [OF m] show ?thesis
    by (simp add: all_stopping_def on_joined_def notifyIfJoined_placed notifyIfDrained_placed)
qed

lemma start_join_entry:
  "owners_by_thread r \<noteq> [] \<Longrightarrow> placed cb r \<Longrightarrow> once p cb r \<Longrightarrow> all_stopping r \<Longrightarrow>
   placed cb (JoinThreadAsync r) \<and> once p cb (JoinThreadAsync r) \<and> all_stopping (JoinThreadAsync r)"
  by (simp add: JoinThreadAsync_def placed_def once_def waiting_def receiver_alive_def all_stopping_def)

lemma exec_turn_tracked:
  assumes t: "tracked p cb r" and s: "exec_turn u ev cs r = Some r'" and cs: "cb \<notin> snd ` set cs"
    and fits: "all_fit r'"
  shows "tracked p cb r'"
proof -
  from exec_turn_logs [OF s] obtain e' where u: "u < length (execs r)"
    and e': "exec_step ev (execs r ! u) = Some e'"
    and r': "r' = (case turn_effect ev (execs r ! u) of NoJoin \<Rightarrow> r\<lparr>execs := (execs r)[u := e']\<rparr>
       | StartJoin \<Rightarrow> JoinThreadAsync (r\<lparr>execs := (execs r)[u := e']\<rparr>)
       | EndJoin \<Rightarrow> on_joined u cs (r\<lparr>execs := (execs r)[u := e']\<rparr>))" .
  let ?r1 = "r\<lparr>execs := (execs r)[u := e']\<rparr>"
  have core: "reg_core r" and inv: "exec_inv (execs r ! u)"
    using t u by (simp_all add: tracked_def reg_inv_def execs_set)
  have "all_fit r" using grown_fits [OF reg_step_grown [of "Exec u ev cs"]] s fits by simp
  then have "m_stopping e'" using step_stopping [OF inv _ _ e'] t u by (simp add: tracked_def all_stopping_def)
  then have "all_stopping ?r1"
    using t set_update_subset_insert [of "execs r" u e'] by (auto simp: tracked_def all_stopping_def)
  moreover have "placed cb ?r1" "once p cb ?r1"
    using t by (auto simp: tracked_def placed_def once_def waiting_def receiver_alive_def)
  moreover have "turn_effect ev (execs r ! u) = StartJoin \<Longrightarrow> owners_by_thread r \<noteq> []"
    using exec_step_thread [OF inv e'] u core by (auto simp: reg_core_def)
  ultimately have "all_stopping r' \<and> placed cb r' \<and> once p cb r'"
    unfolding r' using on_joined_entry [of cb ?r1 p cs u] cs start_join_entry [of ?r1 cb p]
    by (cases "turn_effect ev (execs r ! u)") simp_all
  moreover have "reg_inv r'" using exec_turn_inv [OF _ s fits] t by (simp add: tracked_def)
  ultimately show ?thesis by (simp add: tracked_def)
qed

lemma deliver_entry:
  assumes "deliver_done r = Some r'" "placed cb r" "once p cb r"
  shows "placed cb r' \<and> once p cb r'"
proof -
  obtain c cs where c: "posted r = c # cs" using assms(1) by (auto simp: deliver_done_def split: list.splits)
  then have r': "r' = r\<lparr>posted := cs, done_log := done_log r @ (if receiver_alive r c then [snd c] else [])\<rparr>"
    using assms(1) by (simp add: deliver_done_def)
  have "placed cb r'" using assms(2) c by (auto simp: placed_def r')
  moreover have "once p cb r'" using assms(3) c
    by (auto simp: once_def r' waiting_def receiver_alive_def)
  ultimately show ?thesis by simp
qed

lemma reg_step_tracked:
  assumes t: "tracked p cb r" and s: "reg_step ev r = Some r'" and c: "closing cb ev" and fits: "all_fit r'"
  shows "tracked p cb r'"
proof -
  have inv: "reg_inv r'" using reg_step_inv [OF _ s fits] t by (simp add: tracked_def)
  have t': "all_stopping r" "placed cb r" "once p cb r" using t by (simp_all add: tracked_def)
  show ?thesis
  proof (cases ev)
    case (Exec u ev' cs)
    with exec_turn_tracked [OF t _ _ fits] s c show ?thesis by simp
  next
    case (OtherJoined cs)
    let ?r1 = "r\<lparr>pending_joins := pending_joins r - 1, other_joins := other_joins r - 1\<rparr>"
    have "placed cb ?r1" "once p cb ?r1" "all_stopping ?r1"
      using t' by (auto simp: placed_def once_def waiting_def receiver_alive_def all_stopping_def)
    then have "placed cb (fold shutdownAll cs ?r1)" "once p cb (fold shutdownAll cs ?r1)"
      "all_stopping (fold shutdownAll cs ?r1)"
      using OtherJoined c by (simp_all add: shutdownAlls_entry shutdownAlls_stopping)
    moreover have "r' = notifyIfJoined (fold shutdownAll cs ?r1)"
      using OtherJoined s by (simp add: other_joined_def split: if_splits)
    ultimately have "placed cb r'" "once p cb r'" "all_stopping r'"
      using moves_once [OF notifyIfJoined_moves] notifyIfJoined_placed notifyIfJoined_stopping by blast+
    with inv show ?thesis by (simp add: tracked_def)
  next
    case (ShutdownAll d)
    with inv s c t' shutdownAlls_stopping [of r "[d]"] show ?thesis
      by (auto simp: tracked_def shutdownAll_placed shutdownAll_once)
  next
    case Deliver
    with inv s t' deliver_entry [of r r' cb p] show ?thesis
      by (auto simp: tracked_def all_stopping_def deliver_done_def split: list.splits)
  next
    case (ReceiverGone q)
    then have r': "r' = r\<lparr>dead_receivers := q # dead_receivers r\<rparr>" using s by simp
    have "placed cb r'" using t'(2) by (simp add: placed_def r')
    moreover have "once p cb r'" using t'(3) by (simp add: once_def waiting_def receiver_alive_def r')
    moreover have "all_stopping r'" using t'(1) by (simp add: all_stopping_def r')
    ultimately show ?thesis using inv by (simp add: tracked_def)
  qed (use c in auto)
qed

lemma reg_run_tracked:
  "reg_run evs r = Some r' \<Longrightarrow> tracked p cb r \<Longrightarrow> list_all (closing cb) evs \<Longrightarrow> all_fit r' \<Longrightarrow> tracked p cb r'"
proof (induction evs arbitrary: r)
  case (Cons ev evs)
  then obtain r1 where 1: "reg_step ev r = Some r1" "reg_run evs r1 = Some r'"
    by (auto simp: bind_eq_Some_conv)
  have "all_fit r1" using grown_fits [OF reg_run_grown [OF 1(2)]] Cons.prems(4) by blast
  then have "tracked p cb r1" using reg_step_tracked [OF Cons.prems(2) 1(1)] Cons.prems(3) by simp
  with Cons.IH [OF 1(2)] Cons.prems(3,4) show ?case by simp
qed simp

section \<open>Termination\<close>

fun internal_reg :: "reg_event \<Rightarrow> bool" where
  "internal_reg (Exec t ev slots) = (internal ev \<and> slots = [])"
| "internal_reg (OtherJoined slots) = (slots = [])"
| "internal_reg Deliver = True"
| "internal_reg _ = False"

definition reg_measure :: "registry \<Rightarrow> nat" where
  "reg_measure r = sum_list (map drain_measure (execs r)) + other_joins r + length (waiting r)"

lemma measure_update:
  "t < length es \<Longrightarrow> drain_measure e < drain_measure (es ! t) \<Longrightarrow>
   sum_list (map drain_measure (es[t := e])) < sum_list (map drain_measure es)"
  by (induction es arbitrary: t) (auto simp: nth_Cons split: nat.splits)

lemma moves_measure: "moves r r' \<Longrightarrow> reg_measure r' \<le> reg_measure r"
  by (simp add: moves_def same_threads_def entries_kept_def reg_measure_def)

lemma on_joined_measure: "reg_measure (on_joined t [] r) \<le> reg_measure r"
proof -
  let ?r1 = "r\<lparr>pending_joins := pending_joins r - 1, owners_by_thread := remove1 t (owners_by_thread r)\<rparr>"
  have "moves ?r1 (on_joined t [] r)"
    using moves_trans [OF notifyIfDrained_moves notifyIfJoined_moves] by (simp add: on_joined_def)
  from moves_measure [OF this] show ?thesis by (simp add: reg_measure_def waiting_def)
qed

lemma reg_step_measure:
  assumes "reg_inv r" "all_stopping r" "internal_reg ev" "reg_step ev r = Some r'"
  shows "reg_measure r' < reg_measure r"
proof (cases ev)
  case (Exec t ev' cs)
  then have cs: "cs = []" "internal ev'" using assms(3) by auto
  from Exec assms(4) obtain e' where t: "t < length (execs r)" and e': "exec_step ev' (execs r ! t) = Some e'"
    and r': "r' = (case turn_effect ev' (execs r ! t) of NoJoin \<Rightarrow> r\<lparr>execs := (execs r)[t := e']\<rparr>
       | StartJoin \<Rightarrow> JoinThreadAsync (r\<lparr>execs := (execs r)[t := e']\<rparr>)
       | EndJoin \<Rightarrow> on_joined t cs (r\<lparr>execs := (execs r)[t := e']\<rparr>))" by (auto elim: exec_turn_logs)
  have "exec_inv (execs r ! t)" "m_stopping (execs r ! t)"
    using assms(1,2) t by (auto simp: reg_inv_def execs_set all_stopping_def)
  from drain_step [OF this cs(2) e'] have "drain_measure e' < drain_measure (execs r ! t)" by blast
  from measure_update [OF t this] have "reg_measure (r\<lparr>execs := (execs r)[t := e']\<rparr>) < reg_measure r"
    by (simp add: reg_measure_def waiting_def)
  moreover have "reg_measure r' \<le> reg_measure (r\<lparr>execs := (execs r)[t := e']\<rparr>)"
    unfolding r' cs(1) using on_joined_measure [of t "r\<lparr>execs := (execs r)[t := e']\<rparr>"]
    by (cases "turn_effect ev' (execs r ! t)") (simp_all add: JoinThreadAsync_def reg_measure_def waiting_def)
  ultimately show ?thesis by simp
next
  case (OtherJoined cs)
  then have r': "r' = notifyIfJoined (r\<lparr>pending_joins := pending_joins r - 1, other_joins := other_joins r - 1\<rparr>)"
    and "other_joins r \<noteq> 0" using assms(3,4) by (auto simp: other_joined_def split: if_splits)
  have "reg_measure (r\<lparr>pending_joins := pending_joins r - 1, other_joins := other_joins r - 1\<rparr>) < reg_measure r"
    using \<open>other_joins r \<noteq> 0\<close> by (simp add: reg_measure_def waiting_def)
  with moves_measure [OF notifyIfJoined_moves] show ?thesis unfolding r' by (rule le_less_trans)
next
  case Deliver
  with assms(4) show ?thesis
    by (auto simp: deliver_done_def reg_measure_def waiting_def split: list.splits)
qed (use assms(3) in auto)

text \<open>Where nothing moves by itself any more, everything has stopped and every callback is out.\<close>

lemma reg_stuck:
  assumes inv: "reg_inv r" and stop: "all_stopping r"
    and stuck: "\<forall>ev. internal_reg ev \<longrightarrow> reg_step ev r = None"
  shows "(\<forall>e \<in> set (execs r). thread_st e = ThreadGone) \<and> pending_joins r = 0 \<and> waiting r = []"
proof -
  have gone: "thread_st (execs r ! t) = ThreadGone" if t: "t < length (execs r)" for t
  proof -
    have "exec_inv (execs r ! t)" "m_stopping (execs r ! t)"
      using inv stop t by (auto simp: reg_inv_def execs_set all_stopping_def)
    moreover have "exec_step ev (execs r ! t) = None" if "internal ev" for ev
    proof -
      have "exec_turn t ev [] r = None" using stuck that by (metis internal_reg.simps(1) reg_step.simps(2))
      then show ?thesis using t by (simp add: exec_turn_def Let_def split: option.splits)
    qed
    ultimately show ?thesis using drain_progress by blast
  qed
  have core: "reg_core r" using inv by (simp add: reg_inv_def)
  have "set (owners_by_thread r) = {}" using core gone by (auto simp: reg_core_def)
  then have "owners_by_thread r = []" by simp
  moreover have "other_joins r = 0"
    using stuck by (metis internal_reg.simps(2) option.distinct(1) reg_step.simps(4))
  then have "pending_joins r = 0" using core gone by (auto simp: reg_core_def joining_def in_set_conv_nth)
  moreover have "posted r = []"
    using stuck by (metis (no_types, lifting) deliver_done_def internal_reg.simps(3) list.exhaust list.simps(5)
        option.distinct(1) reg_step.simps(6))
  ultimately show ?thesis using inv gone
    by (auto simp: reg_inv_parts drain_ok_def join_ok_def waiting_def in_set_conv_nth)
qed

lemma gone_ran: "exec_inv e \<Longrightarrow> thread_st e = ThreadGone \<Longrightarrow> ran_log e = accepted_log e"
  by (auto simp: exec_inv_def stage_ok_def split: if_splits)

lemma no_owners:
  assumes "reg_core r" "owners_by_thread r = []"
  shows "\<forall>e \<in> set (execs r). thread_st e = ThreadGone \<and> ran_log e = accepted_log e"
proof
  fix e assume e: "e \<in> set (execs r)"
  then have "thread_st e = ThreadGone" using assms by (auto simp: reg_core_def in_set_conv_nth)
  moreover have "exec_inv e" using e assms(1) by (simp add: reg_core_def)
  ultimately show "thread_st e = ThreadGone \<and> ran_log e = accepted_log e" using gone_ran by blast
qed

lemma internal_closing: "internal_reg ev \<Longrightarrow> closing cb ev"
  by (cases ev) auto

lemma internal_logs:
  assumes "reg_inv r" "all_stopping r" "all_fit r" "internal_reg ev" "reg_step ev r = Some r'"
  shows "logs r = logs r'"
proof (cases ev)
  case (Exec t ev' cs)
  with assms(5) obtain e' where t: "t < length (execs r)" and e': "exec_step ev' (execs r ! t) = Some e'"
    and logs: "logs r' = (logs r)[t := accepted_log e']" by (auto elim: exec_turn_logs)
  have "exec_inv (execs r ! t)" "m_stopping (execs r ! t)" "fits (execs r ! t)"
    using assms(1,2,3) t by (auto simp: reg_inv_def execs_set all_stopping_def)
  then have "accepted_log e' = logs r ! t" using step_stopping [OF _ _ _ e'] t by (simp add: logs_def)
  with logs show ?thesis by simp
next
  case Deliver
  with assms(5) show ?thesis by (auto simp: deliver_done_def logs_def split: list.splits)
qed (use assms in \<open>auto simp: other_joined_logs split: if_splits\<close>)

lemma internal_bounded:
  "reg_run evs r = Some r' \<Longrightarrow> tracked p cb r \<Longrightarrow> all_fit r \<Longrightarrow> list_all internal_reg evs \<Longrightarrow>
   length evs + reg_measure r' \<le> reg_measure r"
proof (induction evs arbitrary: r)
  case (Cons ev evs)
  then obtain r1 where 1: "reg_step ev r = Some r1" "reg_run evs r1 = Some r'"
    by (auto simp: bind_eq_Some_conv)
  have "reg_measure r1 < reg_measure r"
    using reg_step_measure [OF _ _ _ 1(1)] Cons.prems by (simp add: tracked_def)
  moreover have "all_fit r1"
  proof (rule grown_fits [OF grown_refl Cons.prems(3)])
    show "logs r = logs r1" using internal_logs [OF _ _ Cons.prems(3) _ 1(1)] Cons.prems(2,4)
      by (simp add: tracked_def)
  qed
  moreover have "tracked p cb r1"
    using reg_step_tracked [OF Cons.prems(2) 1(1)] internal_closing Cons.prems(4) \<open>all_fit r1\<close> by simp
  ultimately show ?case using Cons.IH [OF 1(2)] Cons.prems(4) by fastforce
qed simp

section \<open>Properties\<close>

text \<open>
  C17: \<open>shutdownAll\<close> calls back exactly when the background has stopped. Take any history of executors,
  joins and callbacks, call \<open>shutdownAll\<close> with a new callback, and let anything happen afterwards except
  that nothing new is started. Then the callback has run only if every executor's thread has been
  joined with all its accepted tasks run, and no join is outstanding; it has run at most once; from
  every such state the threads take only boundedly many turns by themselves, and where none is left
  the callback has run, provided its receiver still exists.
\<close>

theorem shutdownAll_contract:
  assumes "reg_run evs new_registry = Some r" "cb \<notin> snd ` set (waiting r) \<union> set (done_log r)"
    and "reg_run evs' (shutdownAll (p, cb) r) = Some r'" "list_all (closing cb) evs'"
    and "\<forall>e \<in> set (execs r'). length (accepted_log e) < 2 ^ 64"
  shows "(cb \<in> set (done_log r') \<longrightarrow>
       pending_joins r' = 0 \<and> (\<forall>e \<in> set (execs r'). thread_st e = ThreadGone \<and> ran_log e = accepted_log e)) \<and>
     count_list (done_log r') cb \<le> 1 \<and>
     (\<forall>evs'' r''. list_all internal_reg evs'' \<and> reg_run evs'' r' = Some r'' \<longrightarrow> length evs'' \<le> reg_measure r') \<and>
     ((\<forall>ev. internal_reg ev \<longrightarrow> reg_step ev r' = None) \<and> p \<notin> set (dead_receivers r') \<longrightarrow> cb \<in> set (done_log r'))"
proof -
  have fit1: "all_fit (shutdownAll (p, cb) r)" using grown_fits [OF reg_run_grown [OF assms(3)]] assms(5) by blast
  have "grown r (shutdownAll (p, cb) r)" using shutdownAlls_logs [of "[(p, cb)]" r] by (simp add: grown_refl)
  then have inv: "reg_inv r" using reg_run_inv [OF assms(1) new_registry_inv] grown_fits fit1 by blast
  then have "tracked p cb (shutdownAll (p, cb) r)"
    using shutdownAll_entry [OF assms(2)] by (simp add: tracked_def reg_inv_parts shutdownAll_ok shutdownAll_stops)
  then have t: "tracked p cb r'" by (rule reg_run_tracked [OF assms(3) _ assms(4,5)])
  then have core: "reg_core r'" by (simp add: tracked_def reg_inv_def)
  have "cb \<in> set (done_log r') \<Longrightarrow> pending_joins r' = 0 \<and> owners_by_thread r' = []"
    using t by (auto simp: tracked_def placed_def)
  then have drained: "cb \<in> set (done_log r') \<Longrightarrow> pending_joins r' = 0 \<and>
      (\<forall>e \<in> set (execs r'). thread_st e = ThreadGone \<and> ran_log e = accepted_log e)"
    using no_owners [OF core] by simp
  have stuck: "cb \<in> set (done_log r')"
    if "\<forall>ev. internal_reg ev \<longrightarrow> reg_step ev r' = None" "p \<notin> set (dead_receivers r')"
    using reg_stuck [OF _ _ that(1)] t that(2) by (auto simp: tracked_def once_def receiver_alive_def)
  moreover have "count_list (done_log r') cb \<le> 1" using t by (simp add: tracked_def once_def)
  moreover have "length evs'' \<le> reg_measure r'" if "list_all internal_reg evs''" "reg_run evs'' r' = Some r''"
    for evs'' r'' using internal_bounded [OF that(2) t assms(5) that(1)] by simp
  ultimately show ?thesis using drained stuck by blast
qed

definition sample_drain :: "reg_event list" where
  "sample_drain =
     [Exec 0 WorkerTurn [], Exec 0 WorkerTurn [], Exec 0 GuiTurn [], Exec 0 ThreadExit [], Exec 0 GuiTurn [],
      Exec 0 JoinReturn [], Exec 0 GuiTurn [], OtherJoined [], Deliver]"

theorem shutdownAll_contract_witness:
  "map_option done_log (Option.bind (reg_run [NewExecutor, Exec 0 (Call (GSubmit (Task 7 []))) [], OtherJoin] new_registry)
     (\<lambda>r. reg_run sample_drain (shutdownAll (1, 5) r))) = Some [5] \<and>
   map_option pending_joins (Option.bind (reg_run [NewExecutor, Exec 0 (Call (GSubmit (Task 7 []))) [], OtherJoin] new_registry)
     (\<lambda>r. reg_run sample_drain (shutdownAll (1, 5) r))) = Some 0"
proof -
  let ?evs = "[NewExecutor, Exec 0 (Call (GSubmit (Task 7 []))) [], OtherJoin]"
  have "map_option (\<lambda>r. (waiting r, done_log r)) (reg_run ?evs new_registry) = Some ([], [])" by code_simp
  then obtain r where r: "reg_run ?evs new_registry = Some r" "waiting r = []" "done_log r = []" by auto
  have d: "map_option (\<lambda>r. (done_log r, map (\<lambda>e. length (accepted_log e)) (execs r)))
      (Option.bind (reg_run ?evs new_registry) (\<lambda>r. reg_run sample_drain (shutdownAll (1, 5) r))) = Some ([5], [1])"
    by code_simp
  then obtain r' where "Option.bind (reg_run ?evs new_registry) (\<lambda>r. reg_run sample_drain (shutdownAll (1, 5) r)) = Some r' \<and>
      (done_log r', map (\<lambda>e. length (accepted_log e)) (execs r')) = ([5], [1])"
    unfolding map_option_eq_Some by (elim exE)
  then have r': "reg_run sample_drain (shutdownAll (1, 5) r) = Some r'" "done_log r' = [5]"
    "map (\<lambda>e. length (accepted_log e)) (execs r') = [1]" by (simp_all only: r(1) Option.bind.simps prod.inject)
  have "list_all (closing 5) sample_drain" by code_simp
  from shutdownAll_contract [OF r(1) _ r'(1) this] r(2,3) r'(2,3) have "pending_joins r' = 0" by auto
  then show ?thesis unfolding r(1) using r' by simp
qed


end
