(* ===== verification/Channel.thy ===== *)
theory Channel
  imports Executor
begin

text \<open>
  What a client sees of a \<open>BackendExecutor\<close>: a channel of tasks that are run in order, whose results
  come back in order until the channel is shut down, and which reports once that it has drained. The
  executor of \<open>src/qml/backendexecutor.cpp\<close> refines it action by action: what is submitted, refused, run,
  completed and drained is the same, so the models of its clients use the channel.
\<close>

section \<open>Definitions\<close>

record ('t, 'c) chan =
  ch_tasks :: "'t list"
  ch_done :: "'c list"
  ch_stopped :: bool
  ch_drained :: bool

definition new_chan :: "('t, 'c) chan" where
  "new_chan = \<lparr>ch_tasks = [], ch_done = [], ch_stopped = False, ch_drained = False\<rparr>"

definition ch_submit :: "'t \<Rightarrow> ('t, 'c) chan \<Rightarrow> ('t, 'c) chan" where
  "ch_submit t ch = (if ch_stopped ch then ch else ch\<lparr>ch_tasks := ch_tasks ch @ [t]\<rparr>)"

definition ch_shutdown :: "('t, 'c) chan \<Rightarrow> ('t, 'c) chan" where
  "ch_shutdown ch = (if ch_stopped ch then ch else ch\<lparr>ch_stopped := True, ch_done := []\<rparr>)"

text \<open>The worker finishes the first task with result \<open>c\<close>.\<close>

definition ch_run :: "'c \<Rightarrow> ('t, 'c) chan \<Rightarrow> ('t, 'c) chan" where
  "ch_run c ch = ch\<lparr>ch_tasks := tl (ch_tasks ch), ch_done := ch_done ch @ (if ch_stopped ch then [] else [c])\<rparr>"

definition ch_deliver :: "('t, 'c) chan \<Rightarrow> ('t, 'c) chan" where
  "ch_deliver ch = ch\<lparr>ch_done := tl (ch_done ch)\<rparr>"

definition can_drain :: "('t, 'c) chan \<Rightarrow> bool" where
  "can_drain ch \<longleftrightarrow> ch_stopped ch \<and> ch_tasks ch = [] \<and> \<not> ch_drained ch"

definition ch_drain :: "('t, 'c) chan \<Rightarrow> ('t, 'c) chan" where
  "ch_drain ch = ch\<lparr>ch_drained := True\<rparr>"

text \<open>
  The channel as a labelled system: what is submitted, which task is run with which result and which result is delivered are
  part of the label, and only the oldest waiting task can be run and the oldest result delivered.
\<close>

datatype ('t, 'c) chan_act = Act_submit 't | Act_stop | Act_run 't 'c | Act_deliver 'c | Act_drain

fun chan_do :: "('t, 'c) chan_act \<Rightarrow> ('t, 'c) chan \<Rightarrow> ('t, 'c) chan option" where
  "chan_do (Act_submit t) ch = (if ch_stopped ch then None else Some (ch_submit t ch))"
| "chan_do Act_stop ch = (if ch_stopped ch then None else Some (ch_shutdown ch))"
| "chan_do (Act_run t c) ch = (case ch_tasks ch of [] \<Rightarrow> None | x # xs \<Rightarrow> if x = t then Some (ch_run c ch) else None)"
| "chan_do (Act_deliver c) ch = (case ch_done ch of [] \<Rightarrow> None | x # xs \<Rightarrow> if x = c then Some (ch_deliver ch) else None)"
| "chan_do Act_drain ch = (if can_drain ch then Some (ch_drain ch) else None)"

fun chan_trace :: "('t, 'c) chan_act list \<Rightarrow> ('t, 'c) chan \<Rightarrow> ('t, 'c) chan option" where
  "chan_trace [] ch = Some ch"
| "chan_trace (a # as) ch = Option.bind (chan_do a ch) (chan_trace as)"

fun submits :: "('t, 'c) chan_act list \<Rightarrow> 't list" where
  "submits [] = []"
| "submits (Act_submit t # as) = t # submits as"
| "submits (_ # as) = submits as"

fun runs :: "('t, 'c) chan_act list \<Rightarrow> ('t \<times> 'c) list" where
  "runs [] = []"
| "runs (Act_run t c # as) = (t, c) # runs as"
| "runs (_ # as) = runs as"

fun delivers :: "('t, 'c) chan_act list \<Rightarrow> 'c list" where
  "delivers [] = []"
| "delivers (Act_deliver c # as) = c # delivers as"
| "delivers (_ # as) = delivers as"

lemma submits_append [simp]: "submits (as @ bs) = submits as @ submits bs"
  by (induction as rule: submits.induct) simp_all

lemma runs_append [simp]: "runs (as @ bs) = runs as @ runs bs"
  by (induction as rule: runs.induct) simp_all

lemma delivers_append [simp]: "delivers (as @ bs) = delivers as @ delivers bs"
  by (induction as rule: delivers.induct) simp_all

lemma chan_trace_append: "chan_trace (as @ bs) ch = Option.bind (chan_trace as ch) (chan_trace bs)"
proof (induction as arbitrary: ch)
  case (Cons a as)
  then show ?case by (cases "chan_do a ch") simp_all
qed simp

text \<open>What the channel promises: tasks are run in the order of submission, results come back in the order of the runs.\<close>

lemma chan_fifo:
  assumes "chan_trace as new_chan = Some ch"
  shows "map fst (runs as) @ ch_tasks ch = submits as \<and>
    (\<exists>rest. map snd (runs as) = delivers as @ rest \<and> (\<not> ch_stopped ch \<longrightarrow> rest = ch_done ch)) \<and> (ch_stopped ch \<longrightarrow> ch_done ch = [])"
  using assms
proof (induction as arbitrary: ch rule: rev_induct)
  case (snoc a as)
  then obtain ch0 where 0: "chan_trace as new_chan = Some ch0" "chan_do a ch0 = Some ch" by (auto simp: chan_trace_append bind_eq_Some_conv)
  note ih = snoc.IH [OF 0(1)]
  show ?case
  proof (cases a)
    case (Act_submit t)
    then show ?thesis using ih 0(2) by (auto simp: ch_submit_def split: if_splits)
  next
    case Act_stop
    then show ?thesis using ih 0(2) by (auto simp: ch_shutdown_def split: if_splits)
  next
    case (Act_run t c)
    then show ?thesis using ih 0(2) by (auto simp: ch_run_def split: list.splits if_splits)
  next
    case (Act_deliver c)
    then show ?thesis using ih 0(2) by (auto simp: ch_deliver_def split: list.splits if_splits)
  next
    case Act_drain
    then show ?thesis using ih 0(2) by (auto simp: ch_drain_def split: if_splits)
  qed
qed (simp add: new_chan_def)

section \<open>The executor refines the channel\<close>

definition abs_exec :: "exec \<Rightarrow> (nat, nat) chan" where
  "abs_exec e = \<lparr>ch_tasks = pending_runs (worker_queue e),
     ch_done = (if m_stopping e then [] else pending_completed (gui_queue e)),
     ch_stopped = m_stopping e, ch_drained = m_drained e\<rparr>"

text \<open>
  The executor does what the labels say: its tasks are submitted, run and delivered as in the channel, and the result of a
  task is the task's own.
\<close>

definition performs :: "(nat, nat) chan_act list \<Rightarrow> exec \<Rightarrow> exec \<Rightarrow> bool" where
  "performs as e e' \<longleftrightarrow>
     chan_trace as (abs_exec e) = Some (abs_exec e') \<and> accepted_log e' = accepted_log e @ submits as \<and>
     map (\<lambda>i. (i, i)) (ran_log e') = map (\<lambda>i. (i, i)) (ran_log e) @ runs as \<and> delivered_log e' = delivered_log e @ delivers as"

lemma performs_nothing:
  "abs_exec e' = abs_exec e \<Longrightarrow> accepted_log e' = accepted_log e \<Longrightarrow> ran_log e' = ran_log e \<Longrightarrow> delivered_log e' = delivered_log e \<Longrightarrow> performs [] e e'"
  by (simp add: performs_def)

lemma performs_append: "performs as e e1 \<Longrightarrow> performs bs e1 e2 \<Longrightarrow> performs (as @ bs) e e2"
  by (auto simp: performs_def chan_trace_append)

lemma abs_alive [simp]: "abs_exec (e\<lparr>owner_alive := b\<rparr>) = abs_exec e"
  by (simp add: abs_exec_def)

lemma enqueue_performs: "\<exists>as. performs as e (snd (enqueue w c e))"
proof (cases "m_stopping e")
  case True
  then show ?thesis by (intro exI [of _ "[]"] performs_nothing) (simp_all add: enqueue_def)
next
  case False
  then have "performs [Act_submit ((m_next_task_id e + 1) mod 2 ^ 64)] e (snd (enqueue w c e))"
    by (simp add: performs_def abs_exec_def enqueue_def ch_submit_def Let_def)
  then show ?thesis by blast
qed

lemma shutdown_performs: "\<exists>as. performs as e (Executor.shutdown e)"
proof (cases "m_stopping e")
  case True
  then show ?thesis by (intro exI [of _ "[]"] performs_nothing) (simp_all add: Executor.shutdown_def)
next
  case False
  then have "performs [Act_stop] e (Executor.shutdown e)"
    by (simp add: performs_def abs_exec_def Executor.shutdown_def ch_shutdown_def)
  then show ?thesis by blast
qed

lemma gui_call_performs: "\<exists>as. performs as e (gui_call g e)"
proof -
  have none: "\<exists>as. performs as e e" by (intro exI [of _ "[]"] performs_nothing) simp_all
  show ?thesis
  proof (cases g)
    case (GSubmit t)
    then show ?thesis using enqueue_performs [of e] none by simp
  next
    case GShutdown
    then show ?thesis using shutdown_performs [of e] none by simp
  next
    case GDestroy
    obtain as where "performs as e (Executor.shutdown e)" using shutdown_performs by blast
    then have "performs as e (destroy e)" by (simp add: performs_def destroy_def)
    then show ?thesis using GDestroy none by auto
  qed
qed

lemma gui_calls_perform: "\<exists>as. performs as e (fold gui_call gs e)"
proof (induction gs arbitrary: e)
  case Nil
  show ?case by (intro exI [of _ "[]"] performs_nothing) simp_all
next
  case (Cons g gs)
  then show ?case using gui_call_performs [of e g] performs_append by (fastforce simp del: gui_call.simps)
qed

text \<open>
  The completion slot: the result leaves the channel and the completion's own calls follow. A result
  that comes after the shutdown is not in the channel any more.
\<close>

lemma completion_performs:
  assumes inv: "exec_inv e" and q: "gui_queue e = CompletedMsg i # gs"
  shows "\<exists>as. performs as e (on_completed i (e\<lparr>gui_queue := gs\<rparr>))"
proof (cases "m_stopping e")
  case True
  then have "on_completed i (e\<lparr>gui_queue := gs\<rparr>) = e\<lparr>gui_queue := gs\<rparr>" using inv stopping_completed by blast
  then have "performs [] e (on_completed i (e\<lparr>gui_queue := gs\<rparr>))" using True by (simp add: performs_def abs_exec_def)
  then show ?thesis by blast
next
  case False
  have alive: "owner_alive e" and log: "delivered_log e @ pending_completed (gui_queue e) = ran_log e"
    and known: "\<And>k. m_gui_completions e k \<noteq> None \<longleftrightarrow> k \<in> set (accepted_log e) - set (delivered_log e)"
    and num: "numbered (accepted_log e)" and ran: "ran_log e @ pending_runs (worker_queue e) = accepted_log e"
    using inv False by (auto simp: exec_inv_def stage_ok_def)
  have "distinct (ran_log e)" using numbered_distinct [OF num] ran by (metis distinct_append)
  then have "i \<in> set (ran_log e)" "i \<notin> set (delivered_log e)" using log q by (auto simp flip: log)
  then have "i \<in> set (accepted_log e) - set (delivered_log e)" using ran by (metis DiffI Un_iff set_append)
  then obtain completion where c: "m_gui_completions e i = Some completion" using known by blast
  define e1 where "e1 = e\<lparr>gui_queue := gs, m_gui_completions := (m_gui_completions e)(i := None), delivered_log := delivered_log e @ [i]\<rparr>"
  have 1: "performs [Act_deliver i] e e1" using False q by (simp add: performs_def abs_exec_def e1_def ch_deliver_def)
  obtain as where 2: "performs as e1 (fold gui_call completion e1)" using gui_calls_perform by blast
  define e2 where "e2 = fold gui_call completion e1"
  have "performs [] e2 (e2\<lparr>worker_queue := worker_queue e2 @ [ReleaseTask i]\<rparr>)" by (simp add: performs_def abs_exec_def)
  moreover have "on_completed i (e\<lparr>gui_queue := gs\<rparr>) = (if \<not> owner_alive e2 \<or> m_stopping e2 then e2 else e2\<lparr>worker_queue := worker_queue e2 @ [ReleaseTask i]\<rparr>)"
    using alive c by (simp add: on_completed_def Let_def e2_def e1_def)
  ultimately show ?thesis using performs_append [OF 1 2 [folded e2_def]] performs_append by (metis append_Nil2)
qed

lemma gui_turn_performs:
  assumes inv: "exec_inv e" and s: "gui_turn e = Some e'"
  shows "\<exists>as. performs as e e'"
proof -
  from s obtain m ms where q: "gui_queue e = m # ms" by (cases "gui_queue e") (auto simp: gui_turn_def)
  show ?thesis
  proof (cases m)
    case (CompletedMsg i)
    with completion_performs [OF inv] q s show ?thesis by (simp add: gui_turn_def)
  next
    case JoinedMsg
    then have st: "m_stopping e" "worker_queue e = []" "\<not> m_drained e" using inv q
      by (auto simp: exec_inv_def stage_ok_def split: if_splits thread_state.splits)
    then have "performs (if owner_alive e then [Act_drain] else []) e e'"
      using s q JoinedMsg by (auto simp: performs_def gui_turn_def abs_exec_def ch_drain_def can_drain_def)
    then show ?thesis by blast
  next
    case QuitThread
    then have "performs [] e e'" using s q by (auto simp: performs_def gui_turn_def abs_exec_def)
    then show ?thesis by blast
  next
    case ThreadFinishedMsg
    then have "performs [] e e'" using s q by (auto simp: performs_def gui_turn_def abs_exec_def)
    then show ?thesis by blast
  qed
qed

lemma worker_turn_performs:
  assumes inv: "exec_inv e" and s: "worker_turn e = Some e'"
  shows "\<exists>as. performs as e e'"
proof -
  obtain m ms where q: "worker_queue e = m # ms" using s by (cases "worker_queue e") (auto simp: worker_turn_def split: if_splits)
  show ?thesis
  proof (cases m)
    case (RunTask i w)
    then have "performs [Act_run i i] e e'" using q s inv
      by (auto simp: performs_def worker_turn_def abs_exec_def ch_run_def exec_inv_def stage_ok_def split: if_splits)
    then show ?thesis by blast
  next
    case (ReleaseTask i)
    then have "performs [] e e'" using q s by (auto simp: performs_def worker_turn_def abs_exec_def split: if_splits)
    then show ?thesis by blast
  next
    case ReleaseAllAndQuit
    then have "performs [] e e'" using q s by (auto simp: performs_def worker_turn_def abs_exec_def split: if_splits)
    then show ?thesis by blast
  qed
qed

lemma step_performs:
  assumes inv: "exec_inv e" and s: "exec_step ev e = Some e'"
  shows "\<exists>as. performs as e e'"
proof (cases ev)
  case (Call g)
  then show ?thesis using s gui_call_performs [of e g] by (auto split: if_splits simp del: gui_call.simps)
next
  case ThreadExit
  then have "performs [] e e'" using s by (auto simp: performs_def thread_exit_def abs_exec_def split: if_splits)
  then show ?thesis by blast
next
  case JoinReturn
  then have "performs [] e e'" using s by (auto simp: performs_def join_return_def abs_exec_def split: if_splits)
  then show ?thesis by blast
qed (use s worker_turn_performs [OF inv] gui_turn_performs [OF inv] in simp_all)

lemma run_performs: "exec_inv e \<Longrightarrow> exec_run evs e = Some e' \<Longrightarrow> fits e' \<Longrightarrow> \<exists>as. performs as e e'"
proof (induction evs arbitrary: e)
  case Nil
  then have "performs [] e e'" by (simp add: performs_def)
  then show ?case by blast
next
  case (Cons ev evs)
  then obtain e1 where 1: "exec_step ev e = Some e1" "exec_run evs e1 = Some e'" by (auto simp: bind_eq_Some_conv)
  have "fits e1" using exec_run_accepted [OF 1(2)] Cons.prems(3) by simp
  then have "exec_inv e1" using exec_step_inv [OF Cons.prems(1) 1(1)] by simp
  then obtain bs where "performs bs e1 e'" using Cons.IH [OF _ 1(2) Cons.prems(3)] by blast
  moreover obtain as where "performs as e e1" using step_performs [OF Cons.prems(1) 1(1)] by blast
  ultimately show ?case using performs_append by blast
qed

text \<open>
  C19: the executor implements the channel its clients program against. Every interleaving of calls and of turns of its three
  threads is a trace of the channel that ends in the abstraction of the executor (tasks waiting, results under way, stopped,
  drained), and the labels of the trace are exactly the tasks the executor accepted, ran, each with its own result, and delivered, in
  these orders. The channel runs only its oldest task and delivers only its oldest result.
\<close>

theorem executor_refines_channel:
  assumes "exec_run evs new_exec = Some e" "length (accepted_log e) < 2 ^ 64"
  shows "\<exists>as. chan_trace as new_chan = Some (abs_exec e) \<and> submits as = accepted_log e \<and>
    runs as = map (\<lambda>i. (i, i)) (ran_log e) \<and> delivers as = delivered_log e"
proof -
  obtain as where "performs as new_exec e" using run_performs [OF new_exec_inv assms(1)] assms(2) by blast
  moreover have "abs_exec new_exec = new_chan" "accepted_log new_exec = []" "ran_log new_exec = []" "delivered_log new_exec = []"
    by (simp_all add: abs_exec_def new_exec_def new_chan_def)
  ultimately show ?thesis by (auto simp: performs_def)
qed

text \<open>Two tasks are run and the first is delivered; its completion submits a third.\<close>

theorem executor_refines_channel_witness:
  "\<exists>e as. exec_run [Call (GSubmit (Task 7 [GSubmit (Task 9 [])])), Call (GSubmit (Task 8 [])), WorkerTurn, WorkerTurn, GuiTurn] new_exec = Some e \<and>
     chan_trace as new_chan = Some (abs_exec e) \<and> submits as = [1, 2, 3] \<and> runs as = [(1, 1), (2, 2)] \<and> delivers as = [1] \<and>
     ch_tasks (abs_exec e) = [3] \<and> ch_done (abs_exec e) = [2]"
proof -
  let ?evs = "[Call (GSubmit (Task 7 [GSubmit (Task 9 [])])), Call (GSubmit (Task 8 [])), WorkerTurn, WorkerTurn, GuiTurn]"
  have "map_option (\<lambda>e. (accepted_log e, ran_log e, delivered_log e, ch_tasks (abs_exec e), ch_done (abs_exec e))) (exec_run ?evs new_exec)
     = Some ([1, 2, 3], [1, 2], [1], [3], [2])" by code_simp
  then obtain e where e: "exec_run ?evs new_exec = Some e" "accepted_log e = [1, 2, 3]" "ran_log e = [1, 2]" "delivered_log e = [1]"
    "ch_tasks (abs_exec e) = [3]" "ch_done (abs_exec e) = [2]" by auto
  with executor_refines_channel [OF e(1)] show ?thesis by auto
qed

end
