(* ===== verification/Shutdown.thy ===== *)
theory Shutdown
  imports Channel
begin

text \<open>
  \<open>src/qml/initexecutor.{h,cpp}\<close> and \<open>src/qml/shutdowncoordinator.{h,cpp}\<close>: initialisation, interruption
  and shutdown of the node on two executors, and the coordinator that drains the participants before
  and after the interruption. The coordinator and the init executor call each other through signals,
  so one record holds both.

  The node is not part of the model: what its calls return, and whether and where a task throws (before its
  main call, in it or after it), comes with the event that makes them. Initialisation is two events, so that an interruption can fall between
  \<open>appInitMain\<close> and the subscription. A participant is its number in the order of registration; the
  completion signals its \<open>begin\<close> emits synchronously come with the event. \<open>trace\<close> is the history of the
  observable actions.
\<close>

section \<open>Definitions\<close>

datatype obs =
    NodeInitMain | InitThrew | Subscribed | Unsubscribed
  | NodeStartShutdown | NodeAppShutdown
  | SigInitializeResult bool bool bool | SigInterruptResult | SigShutdownResult | SigRunaway
  | SigShutdownStarted | Begin bool nat | PartDone bool nat | SigFinished

datatype init_task = InitTask | ShutdownTask | RetireTask

datatype init_result = InitResult bool bool bool | InitFailed | ShutdownDone bool | ShutdownFailed | Retired

record shutdown_sys =
  m_initialize_requested :: bool
  m_interrupt_requested :: bool
  m_shutdown_requested :: bool
  m_app_shutdown_complete :: bool
  m_shutdown_result_emitted :: bool
  m_runaway_exception :: bool
  pending_subscription_factory :: bool
  subscription :: bool
  stopping :: bool
  initialization_threw :: bool
  init_alive :: bool
  init_progress :: "bool option"
  init_chan :: "(init_task, init_result) chan"
  interrupt_chan :: "(unit, bool) chan"
  before_completed :: "bool list"
  after_completed :: "bool list"
  m_pending_participants :: nat
  c_shutdown_requested :: bool
  m_draining_before_interrupt :: bool
  m_draining_after_interrupt :: bool
  drain_all_requested :: bool
  trace :: "obs list"

definition new_sys :: "bool \<Rightarrow> nat \<Rightarrow> nat \<Rightarrow> shutdown_sys" where
  "new_sys factory n_before n_after =
     \<lparr>m_initialize_requested = False, m_interrupt_requested = False, m_shutdown_requested = False,
      m_app_shutdown_complete = False, m_shutdown_result_emitted = False, m_runaway_exception = False,
      pending_subscription_factory = factory, subscription = False, stopping = False,
      initialization_threw = False, init_alive = True, init_progress = None, init_chan = new_chan, interrupt_chan = new_chan,
      before_completed = replicate n_before False, after_completed = replicate n_after False,
      m_pending_participants = 0, c_shutdown_requested = False, m_draining_before_interrupt = False,
      m_draining_after_interrupt = False, drain_all_requested = False, trace = []\<rparr>"

definition observe :: "obs \<Rightarrow> shutdown_sys \<Rightarrow> shutdown_sys" where
  "observe x s = s\<lparr>trace := trace s @ [x]\<rparr>"

subsection \<open>The init executor\<close>

definition retireSubscription :: "shutdown_sys \<Rightarrow> shutdown_sys" where
  "retireSubscription s =
     (if subscription s then observe Unsubscribed s else s)\<lparr>subscription := False, pending_subscription_factory := False\<rparr>"

definition handleRunawayException :: "shutdown_sys \<Rightarrow> shutdown_sys" where
  "handleRunawayException s = observe SigRunaway (s\<lparr>m_runaway_exception := True\<rparr>)"

definition init_initialize :: "shutdown_sys \<Rightarrow> shutdown_sys" where
  "init_initialize s =
     (if m_initialize_requested s \<or> m_shutdown_requested s \<or> m_runaway_exception s then s
      else s\<lparr>m_initialize_requested := True, init_chan := ch_submit InitTask (init_chan s)\<rparr>)"

definition init_interrupt :: "shutdown_sys \<Rightarrow> shutdown_sys" where
  "init_interrupt s =
     (if m_interrupt_requested s \<or> m_runaway_exception s then s
      else s\<lparr>m_interrupt_requested := True, stopping := True, interrupt_chan := ch_submit () (interrupt_chan s)\<rparr>)"

definition init_shutdown :: "shutdown_sys \<Rightarrow> shutdown_sys" where
  "init_shutdown s =
     (if m_shutdown_requested s \<or> m_runaway_exception s then s
      else s\<lparr>m_shutdown_requested := True, stopping := True, init_chan := ch_submit ShutdownTask (init_chan s)\<rparr>)"

text \<open>The worker's side of \<open>initialize\<close>, \<open>shutdown\<close>, the destructor's task, and \<open>interrupt\<close>.\<close>

definition init_main :: "bool option \<Rightarrow> shutdown_sys \<Rightarrow> shutdown_sys" where
  "init_main outcome s =
     (case outcome of
        Some success \<Rightarrow> observe NodeInitMain (s\<lparr>init_progress := Some success\<rparr>)
      | None \<Rightarrow> observe InitThrew (observe NodeInitMain
          (s\<lparr>initialization_threw := True, init_chan := ch_run InitFailed (init_chan s)\<rparr>)))"

text \<open>
  Where the work of a task throws: before its main call (the exception of \<open>-test-fatal-exception\<close>, the first
  \<open>shutdownRequested\<close>), in it (the subscription), or after it (\<open>isInitialBlockDownload\<close>, the last \<open>shutdownRequested\<close>,
  \<open>appShutdown\<close>).
\<close>

datatype throw_point = NoThrow | ThrowBefore | ThrowIn | ThrowAfter

definition init_failed :: "shutdown_sys \<Rightarrow> shutdown_sys" where
  "init_failed s = observe InitThrew (s\<lparr>initialization_threw := True, init_chan := ch_run InitFailed (init_chan s)\<rparr>)"

definition init_rest :: "bool \<Rightarrow> bool \<Rightarrow> throw_point \<Rightarrow> bool \<Rightarrow> bool \<Rightarrow> shutdown_sys \<Rightarrow> shutdown_sys" where
  "init_rest success requested_before throws ibd requested s =
     (let s1 = s\<lparr>init_progress := None\<rparr>;
          finish = (\<lambda>s. if throws = ThrowAfter then init_failed s
            else s\<lparr>init_chan := ch_run (InitResult success (success \<and> ibd) requested) (init_chan s)\<rparr>)
      in if throws = ThrowBefore then init_failed s1
         else if success \<and> pending_subscription_factory s \<and> \<not> stopping s \<and> \<not> requested_before then
           let s2 = s1\<lparr>pending_subscription_factory := False\<rparr>
           in if throws = ThrowIn then init_failed s2
              else finish (observe Subscribed (s2\<lparr>subscription := True\<rparr>))
         else finish s1)"

definition shutdown_work :: "throw_point \<Rightarrow> shutdown_sys \<Rightarrow> shutdown_sys" where
  "shutdown_work throws s =
     (if initialization_threw s then s\<lparr>init_chan := ch_run (ShutdownDone False) (init_chan s)\<rparr>
      else if throws = ThrowBefore then s\<lparr>init_chan := ch_run ShutdownFailed (init_chan s)\<rparr>
      else
        let s1 = observe NodeAppShutdown (retireSubscription s)
        in s1\<lparr>init_chan := ch_run (if throws = NoThrow then ShutdownDone True else ShutdownFailed) (init_chan s1)\<rparr>)"

definition interrupt_work :: "bool \<Rightarrow> shutdown_sys \<Rightarrow> shutdown_sys" where
  "interrupt_work throws s = observe NodeStartShutdown (s\<lparr>interrupt_chan := ch_run throws (interrupt_chan s)\<rparr>)"

definition retire_work :: "shutdown_sys \<Rightarrow> shutdown_sys" where
  "retire_work s = (retireSubscription s)\<lparr>init_chan := ch_run Retired (init_chan s)\<rparr>"

definition finishShutdown :: "shutdown_sys \<Rightarrow> shutdown_sys" where
  "finishShutdown s =
     (if m_runaway_exception s \<or> \<not> m_app_shutdown_complete s \<or> m_shutdown_result_emitted s then s
      else if \<not> ch_drained (init_chan s) \<or> \<not> ch_drained (interrupt_chan s) then s
      else (observe SigShutdownResult (s\<lparr>m_shutdown_result_emitted := True\<rparr>))\<lparr>drain_all_requested := True\<rparr>)"

definition init_destroy :: "shutdown_sys \<Rightarrow> shutdown_sys" where
  "init_destroy s =
     s\<lparr>init_alive := False, stopping := True, init_chan := ch_shutdown (ch_submit RetireTask (init_chan s)),
       interrupt_chan := ch_shutdown (interrupt_chan s)\<rparr>"

subsection \<open>The coordinator\<close>

definition participantFinished :: "bool \<Rightarrow> shutdown_sys \<Rightarrow> shutdown_sys" where
  "participantFinished before s =
     (let s1 = s\<lparr>m_pending_participants := m_pending_participants s - 1\<rparr>
      in if m_pending_participants s1 \<noteq> 0 then s1
         else if before then init_interrupt (s1\<lparr>m_draining_before_interrupt := False\<rparr>)
         else init_shutdown s1)"

text \<open>The slot on a participant's completion signal.\<close>

definition participant_signal :: "bool \<Rightarrow> nat \<Rightarrow> shutdown_sys \<Rightarrow> shutdown_sys" where
  "participant_signal before k s =
     (let draining = (if before then m_draining_before_interrupt s else m_draining_after_interrupt s);
          completed = (if before then before_completed s else after_completed s)
      in if k \<ge> length completed \<or> \<not> draining \<or> completed ! k then s
         else participantFinished before (observe (PartDone before k)
           (if before then s\<lparr>before_completed := (before_completed s)[k := True]\<rparr>
            else s\<lparr>after_completed := (after_completed s)[k := True]\<rparr>)))"

definition participant_signals :: "(bool \<times> nat) list \<Rightarrow> shutdown_sys \<Rightarrow> shutdown_sys" where
  "participant_signals ps s = fold (\<lambda>p. participant_signal (fst p) (snd p)) ps s"

text \<open>The loop over the participants' \<open>begin\<close> functions, with what each emits synchronously.\<close>

definition begin_loop :: "bool \<Rightarrow> nat \<Rightarrow> (nat \<Rightarrow> (bool \<times> nat) list) \<Rightarrow> shutdown_sys \<Rightarrow> shutdown_sys" where
  "begin_loop before n sync s =
     fold (\<lambda>k s. participant_signals (sync k) (observe (Begin before k) s)) [0..<n] s"

definition requestShutdown :: "(nat \<Rightarrow> (bool \<times> nat) list) \<Rightarrow> shutdown_sys \<Rightarrow> shutdown_sys" where
  "requestShutdown sync s =
     (if c_shutdown_requested s then s
      else
        let n = length (before_completed s);
            s1 = (observe SigShutdownStarted (s\<lparr>c_shutdown_requested := True\<rparr>))\<lparr>m_pending_participants := n\<rparr>
        in if n = 0 then init_interrupt s1
           else begin_loop True n sync (s1\<lparr>m_draining_before_interrupt := True\<rparr>))"

definition drainAfterInterrupt :: "(nat \<Rightarrow> (bool \<times> nat) list) \<Rightarrow> shutdown_sys \<Rightarrow> shutdown_sys" where
  "drainAfterInterrupt sync s =
     (if m_draining_after_interrupt s then s
      else
        let n = length (after_completed s);
            s1 = s\<lparr>m_draining_after_interrupt := True, m_pending_participants := n\<rparr>
        in if n = 0 then init_shutdown s1 else begin_loop False n sync s1)"

definition addParticipant :: "bool \<Rightarrow> shutdown_sys \<Rightarrow> shutdown_sys" where
  "addParticipant before s =
     (if before then s\<lparr>before_completed := before_completed s @ [False]\<rparr>
      else s\<lparr>after_completed := after_completed s @ [False]\<rparr>)"

subsection \<open>Completions on the GUI thread\<close>

definition init_completion :: "init_result \<Rightarrow> shutdown_sys \<Rightarrow> shutdown_sys" where
  "init_completion res s =
     (case res of
        InitResult success ibd requested \<Rightarrow>
          if m_runaway_exception s then s else observe (SigInitializeResult success ibd requested) s
      | InitFailed \<Rightarrow> handleRunawayException s
      | ShutdownDone completed \<Rightarrow>
          if \<not> completed then s
          else s\<lparr>m_app_shutdown_complete := True, init_chan := ch_shutdown (init_chan s),
                 interrupt_chan := ch_shutdown (interrupt_chan s)\<rparr>
      | ShutdownFailed \<Rightarrow> handleRunawayException s
      | Retired \<Rightarrow> s)"

definition interrupt_completion :: "(nat \<Rightarrow> (bool \<times> nat) list) \<Rightarrow> bool \<Rightarrow> shutdown_sys \<Rightarrow> shutdown_sys" where
  "interrupt_completion sync threw s =
     (if threw then handleRunawayException s
      else if m_runaway_exception s then s
      else drainAfterInterrupt sync (observe SigInterruptResult s))"

subsection \<open>Events\<close>

datatype sys_event =
    AddParticipant bool
  | Initialize
  | RequestShutdown "nat \<Rightarrow> (bool \<times> nat) list"
  | ParticipantSignal bool nat
  | InitMain "bool option"
  | InitRest bool throw_point bool bool
  | ShutdownWork throw_point
  | RetireWork
  | InterruptWork bool
  | InitCompletion
  | InterruptCompletion "nat \<Rightarrow> (bool \<times> nat) list"
  | InitDrained
  | InterruptDrained
  | AllDrained
  | Destroy

text \<open>Work and its threads outlive the objects; everything else needs them.\<close>

fun worker_event :: "sys_event \<Rightarrow> bool" where
  "worker_event (InitMain outcome) = True"
| "worker_event (InitRest requested_before throws ibd requested) = True"
| "worker_event (ShutdownWork throws) = True"
| "worker_event RetireWork = True"
| "worker_event (InterruptWork throws) = True"
| "worker_event _ = False"

fun sys_event_step :: "sys_event \<Rightarrow> shutdown_sys \<Rightarrow> shutdown_sys option" where
  "sys_event_step (AddParticipant b) s = (if c_shutdown_requested s then None else Some (addParticipant b s))"
| "sys_event_step Initialize s = Some (init_initialize s)"
| "sys_event_step (RequestShutdown sync) s = Some (requestShutdown sync s)"
| "sys_event_step (ParticipantSignal b k) s = Some (participant_signal b k s)"
| "sys_event_step (InitMain outcome) s =
     (case ch_tasks (init_chan s) of
        InitTask # ts \<Rightarrow> if init_progress s = None then Some (init_main outcome s) else None
      | _ \<Rightarrow> None)"
| "sys_event_step (InitRest requested_before throws ibd requested) s =
     (case init_progress s of
        None \<Rightarrow> None
      | Some success \<Rightarrow> Some (init_rest success requested_before throws ibd requested s))"
| "sys_event_step (ShutdownWork throws) s =
     (case ch_tasks (init_chan s) of ShutdownTask # ts \<Rightarrow> Some (shutdown_work throws s) | _ \<Rightarrow> None)"
| "sys_event_step RetireWork s =
     (case ch_tasks (init_chan s) of RetireTask # ts \<Rightarrow> Some (retire_work s) | _ \<Rightarrow> None)"
| "sys_event_step (InterruptWork throws) s =
     (case ch_tasks (interrupt_chan s) of [] \<Rightarrow> None | t # ts \<Rightarrow> Some (interrupt_work throws s))"
| "sys_event_step InitCompletion s =
     (case ch_done (init_chan s) of
        [] \<Rightarrow> None
      | r # rs \<Rightarrow> Some (init_completion r (s\<lparr>init_chan := ch_deliver (init_chan s)\<rparr>)))"
| "sys_event_step (InterruptCompletion sync) s =
     (case ch_done (interrupt_chan s) of
        [] \<Rightarrow> None
      | r # rs \<Rightarrow> Some (interrupt_completion sync r (s\<lparr>interrupt_chan := ch_deliver (interrupt_chan s)\<rparr>)))"
| "sys_event_step InitDrained s =
     (if can_drain (init_chan s) then Some (finishShutdown (s\<lparr>init_chan := ch_drain (init_chan s)\<rparr>)) else None)"
| "sys_event_step InterruptDrained s =
     (if can_drain (interrupt_chan s) then Some (finishShutdown (s\<lparr>interrupt_chan := ch_drain (interrupt_chan s)\<rparr>))
      else None)"
| "sys_event_step AllDrained s =
     (if drain_all_requested s then Some (observe SigFinished (s\<lparr>drain_all_requested := False\<rparr>)) else None)"
| "sys_event_step Destroy s = Some (init_destroy s)"

definition sys_step :: "sys_event \<Rightarrow> shutdown_sys \<Rightarrow> shutdown_sys option" where
  "sys_step ev s = (if init_alive s \<or> worker_event ev then sys_event_step ev s else None)"

fun sys_run :: "sys_event list \<Rightarrow> shutdown_sys \<Rightarrow> shutdown_sys option" where
  "sys_run [] s = Some s"
| "sys_run (ev # evs) s = Option.bind (sys_step ev s) (sys_run evs)"

section \<open>The protocol\<close>

text \<open>What must have been observed before each action, and that it has not happened yet.\<close>

fun protocol :: "nat \<Rightarrow> nat \<Rightarrow> obs set \<Rightarrow> obs \<Rightarrow> bool" where
  "protocol nb na X NodeInitMain = (NodeInitMain \<notin> X \<and> NodeAppShutdown \<notin> X)"
| "protocol nb na X InitThrew = (NodeInitMain \<in> X \<and> InitThrew \<notin> X \<and> NodeAppShutdown \<notin> X)"
| "protocol nb na X Subscribed = (NodeInitMain \<in> X \<and> Subscribed \<notin> X \<and> NodeAppShutdown \<notin> X)"
| "protocol nb na X Unsubscribed = (Subscribed \<in> X \<and> Unsubscribed \<notin> X)"
| "protocol nb na X NodeStartShutdown =
     (SigShutdownStarted \<in> X \<and> (\<forall>k < nb. PartDone True k \<in> X) \<and> NodeStartShutdown \<notin> X)"
| "protocol nb na X NodeAppShutdown =
     (SigInterruptResult \<in> X \<and> (\<forall>k < na. PartDone False k \<in> X) \<and> NodeAppShutdown \<notin> X \<and> InitThrew \<notin> X \<and>
      (Subscribed \<in> X \<longrightarrow> Unsubscribed \<in> X))"
| "protocol nb na X (SigInitializeResult success ibd requested) = (NodeInitMain \<in> X \<and> InitThrew \<notin> X)"
| "protocol nb na X SigInterruptResult = (NodeStartShutdown \<in> X \<and> SigInterruptResult \<notin> X)"
| "protocol nb na X SigShutdownResult = (NodeAppShutdown \<in> X \<and> SigShutdownResult \<notin> X)"
| "protocol nb na X SigRunaway = True"
| "protocol nb na X SigShutdownStarted = (SigShutdownStarted \<notin> X)"
| "protocol nb na X (Begin before k) =
     ((if before then SigShutdownStarted \<in> X else SigInterruptResult \<in> X) \<and> Begin before k \<notin> X)"
| "protocol nb na X (PartDone before k) = (k < (if before then nb else na) \<and> PartDone before k \<notin> X)"
| "protocol nb na X SigFinished = (SigShutdownResult \<in> X \<and> SigFinished \<notin> X)"

definition follows :: "(obs set \<Rightarrow> obs \<Rightarrow> bool) \<Rightarrow> obs list \<Rightarrow> bool" where
  "follows P xs \<longleftrightarrow> (\<forall>i < length xs. P (set (take i xs)) (xs ! i))"

lemma follows_Nil [simp]: "follows P []"
  by (simp add: follows_def)

lemma follows_snoc [simp]: "follows P (xs @ [x]) \<longleftrightarrow> follows P xs \<and> P (set xs) x"
  by (auto simp: follows_def less_Suc_eq nth_append)

lemma follows_snoc2 [simp]:
  "follows P (xs @ [x, y]) \<longleftrightarrow> follows P xs \<and> P (set xs) x \<and> P (insert x (set xs)) y"
  using follows_snoc [of P "xs @ [x]" y] by simp

section \<open>Invariant\<close>

text \<open>
  The invariant is a conjunction of parts, each a predicate of the few fields it relates, so that an
  operation leaves the parts whose fields it does not touch literally unchanged. \<open>X\<close> is the set of
  what has been observed.
\<close>

definition before_inv :: "obs set \<Rightarrow> bool list \<Rightarrow> bool \<Rightarrow> bool \<Rightarrow> bool \<Rightarrow> nat \<Rightarrow> bool" where
  "before_inv X completed requested draining interrupt pend \<longleftrightarrow>
     (\<forall>k. PartDone True k \<in> X \<longleftrightarrow> k < length completed \<and> completed ! k) \<and>
     (SigShutdownStarted \<in> X \<longleftrightarrow> requested) \<and>
     (\<not> requested \<longrightarrow> \<not> draining \<and> \<not> interrupt \<and> True \<notin> set completed) \<and>
     (draining \<longrightarrow> \<not> interrupt \<and> pend = count_list completed False) \<and>
     (interrupt \<longrightarrow> False \<notin> set completed)"

definition interrupt_inv :: "obs set \<Rightarrow> bool \<Rightarrow> (unit, bool) chan \<Rightarrow> bool \<Rightarrow> bool \<Rightarrow> bool \<Rightarrow> bool" where
  "interrupt_inv X interrupt ch draining alive complete \<longleftrightarrow>
     (interrupt \<longrightarrow>
        ch_tasks ch = [()] \<and> ch_done ch = [] \<and> NodeStartShutdown \<notin> X \<or> ch_tasks ch = [] \<and> NodeStartShutdown \<in> X) \<and>
     (\<not> interrupt \<longrightarrow> ch_tasks ch = [] \<and> ch_done ch = [] \<and> NodeStartShutdown \<notin> X) \<and>
     length (ch_done ch) \<le> 1 \<and>
     (SigInterruptResult \<in> X \<longleftrightarrow> draining) \<and>
     (draining \<longrightarrow> ch_done ch = [] \<and> NodeStartShutdown \<in> X) \<and>
     (alive \<and> ch_stopped ch \<longrightarrow> complete)"

definition after_inv :: "obs set \<Rightarrow> bool list \<Rightarrow> bool \<Rightarrow> bool \<Rightarrow> nat \<Rightarrow> bool" where
  "after_inv X completed draining shutting pend \<longleftrightarrow>
     (\<forall>k. PartDone False k \<in> X \<longleftrightarrow> k < length completed \<and> completed ! k) \<and>
     (\<not> draining \<longrightarrow> \<not> shutting \<and> True \<notin> set completed) \<and>
     (draining \<longrightarrow> pend = count_list completed False) \<and>
     (shutting \<longrightarrow> False \<notin> set completed)"

definition tasks_inv :: "obs set \<Rightarrow> (init_task, init_result) chan \<Rightarrow> bool \<Rightarrow> bool \<Rightarrow> bool \<Rightarrow> bool option \<Rightarrow> bool \<Rightarrow> bool" where
  "tasks_inv X ch initializing shutting alive progress complete \<longleftrightarrow>
     distinct (ch_tasks ch) \<and>
     (InitTask \<in> set (ch_tasks ch) \<longrightarrow> hd (ch_tasks ch) = InitTask \<and> initializing) \<and>
     (ShutdownTask \<in> set (ch_tasks ch) \<longrightarrow> shutting \<and> NodeAppShutdown \<notin> X) \<and>
     (RetireTask \<in> set (ch_tasks ch) \<longrightarrow> \<not> alive) \<and>
     (progress \<noteq> None \<longrightarrow> InitTask \<in> set (ch_tasks ch)) \<and>
     (alive \<and> ch_stopped ch \<longrightarrow> complete)"

definition main_inv :: "obs set \<Rightarrow> init_task list \<Rightarrow> bool \<Rightarrow> bool \<Rightarrow> bool \<Rightarrow> bool option \<Rightarrow> bool" where
  "main_inv X tasks initializing shutting threw progress \<longleftrightarrow>
     (NodeInitMain \<in> X \<longrightarrow> initializing) \<and>
     (InitThrew \<in> X \<longleftrightarrow> threw) \<and>
     (threw \<longrightarrow> NodeInitMain \<in> X) \<and>
     (InitTask \<in> set tasks \<longrightarrow> NodeAppShutdown \<notin> X \<and> \<not> threw \<and> (NodeInitMain \<in> X \<longleftrightarrow> progress \<noteq> None)) \<and>
     (NodeAppShutdown \<in> X \<longrightarrow> shutting \<and> \<not> threw)"

definition result_inv :: "obs set \<Rightarrow> (init_task, init_result) chan \<Rightarrow> bool \<Rightarrow> bool \<Rightarrow> bool" where
  "result_inv X ch threw complete \<longleftrightarrow>
     (\<forall>x y z. InitResult x y z \<in> set (ch_done ch) \<longrightarrow>
        NodeInitMain \<in> X \<and> \<not> threw \<and> InitTask \<notin> set (ch_tasks ch)) \<and>
     (ShutdownDone True \<in> set (ch_done ch) \<or> complete \<longrightarrow> NodeAppShutdown \<in> X)"

definition subscription_inv :: "obs set \<Rightarrow> bool \<Rightarrow> bool \<Rightarrow> bool" where
  "subscription_inv X factory sub \<longleftrightarrow>
     (factory \<longrightarrow> Subscribed \<notin> X) \<and> (Unsubscribed \<in> X \<longrightarrow> Subscribed \<in> X) \<and>
     (sub \<longleftrightarrow> Subscribed \<in> X \<and> Unsubscribed \<notin> X)"

definition finish_inv :: "obs set \<Rightarrow> bool \<Rightarrow> bool \<Rightarrow> bool" where
  "finish_inv X emitted drain_all \<longleftrightarrow>
     (SigShutdownResult \<in> X \<longleftrightarrow> emitted) \<and> (SigFinished \<in> X \<longleftrightarrow> emitted \<and> \<not> drain_all) \<and> (drain_all \<longrightarrow> emitted)"

definition begin_inv :: "obs set \<Rightarrow> bool \<Rightarrow> bool \<Rightarrow> bool" where
  "begin_inv X requested draining \<longleftrightarrow>
     (\<not> requested \<longrightarrow> (\<forall>k. Begin True k \<notin> X)) \<and> (\<not> draining \<longrightarrow> (\<forall>k. Begin False k \<notin> X))"

definition sys_inv :: "shutdown_sys \<Rightarrow> bool" where
  "sys_inv s \<longleftrightarrow>
     before_inv (set (trace s)) (before_completed s) (c_shutdown_requested s) (m_draining_before_interrupt s)
       (m_interrupt_requested s) (m_pending_participants s) \<and>
     interrupt_inv (set (trace s)) (m_interrupt_requested s) (interrupt_chan s) (m_draining_after_interrupt s)
       (init_alive s) (m_app_shutdown_complete s) \<and>
     after_inv (set (trace s)) (after_completed s) (m_draining_after_interrupt s) (m_shutdown_requested s)
       (m_pending_participants s) \<and>
     tasks_inv (set (trace s)) (init_chan s) (m_initialize_requested s) (m_shutdown_requested s) (init_alive s)
       (init_progress s) (m_app_shutdown_complete s) \<and>
     main_inv (set (trace s)) (ch_tasks (init_chan s)) (m_initialize_requested s) (m_shutdown_requested s)
       (initialization_threw s) (init_progress s) \<and>
     result_inv (set (trace s)) (init_chan s) (initialization_threw s) (m_app_shutdown_complete s) \<and>
     subscription_inv (set (trace s)) (pending_subscription_factory s) (subscription s) \<and>
     finish_inv (set (trace s)) (m_shutdown_result_emitted s) (drain_all_requested s) \<and>
     begin_inv (set (trace s)) (c_shutdown_requested s) (m_draining_after_interrupt s) \<and>
     follows (protocol (length (before_completed s)) (length (after_completed s))) (trace s)"

lemmas part_defs = before_inv_def interrupt_inv_def after_inv_def tasks_inv_def main_inv_def result_inv_def
  subscription_inv_def finish_inv_def begin_inv_def

lemmas chan_defs = ch_submit_def ch_shutdown_def ch_run_def ch_deliver_def ch_drain_def can_drain_def new_chan_def

lemma sys_inv_parts:
  assumes "sys_inv s"
  shows "before_inv (set (trace s)) (before_completed s) (c_shutdown_requested s) (m_draining_before_interrupt s)
       (m_interrupt_requested s) (m_pending_participants s)"
    and "interrupt_inv (set (trace s)) (m_interrupt_requested s) (interrupt_chan s) (m_draining_after_interrupt s)
       (init_alive s) (m_app_shutdown_complete s)"
    and "after_inv (set (trace s)) (after_completed s) (m_draining_after_interrupt s) (m_shutdown_requested s)
       (m_pending_participants s)"
    and "tasks_inv (set (trace s)) (init_chan s) (m_initialize_requested s) (m_shutdown_requested s) (init_alive s)
       (init_progress s) (m_app_shutdown_complete s)"
    and "main_inv (set (trace s)) (ch_tasks (init_chan s)) (m_initialize_requested s) (m_shutdown_requested s)
       (initialization_threw s) (init_progress s)"
    and "result_inv (set (trace s)) (init_chan s) (initialization_threw s) (m_app_shutdown_complete s)"
    and "subscription_inv (set (trace s)) (pending_subscription_factory s) (subscription s)"
    and "finish_inv (set (trace s)) (m_shutdown_result_emitted s) (drain_all_requested s)"
  using assms by (simp_all add: sys_inv_def)

lemma count_incomplete: "True \<notin> set xs \<Longrightarrow> count_list xs False = length xs"
  by (induction xs) auto

lemma new_sys_inv: "sys_inv (new_sys factory nb na)"
  by (auto simp: sys_inv_def part_defs new_sys_def new_chan_def)

text \<open>An observation that a part does not mention.\<close>

lemma before_insert [simp]: "x \<notin> range (PartDone True) \<union> {SigShutdownStarted} \<Longrightarrow>
    before_inv (insert x X) = before_inv X"
  by (intro ext) (auto simp: before_inv_def)

lemma interrupt_insert [simp]: "x \<notin> {NodeStartShutdown, SigInterruptResult} \<Longrightarrow>
    interrupt_inv (insert x X) = interrupt_inv X"
  by (intro ext) (auto simp: interrupt_inv_def)

lemma after_insert [simp]: "x \<notin> range (PartDone False) \<Longrightarrow> after_inv (insert x X) = after_inv X"
  by (intro ext) (auto simp: after_inv_def)

lemma tasks_insert [simp]: "x \<noteq> NodeAppShutdown \<Longrightarrow> tasks_inv (insert x X) = tasks_inv X"
  by (intro ext) (auto simp: tasks_inv_def)

lemma main_insert [simp]: "x \<notin> {NodeInitMain, InitThrew, NodeAppShutdown} \<Longrightarrow> main_inv (insert x X) = main_inv X"
  by (intro ext) (auto simp: main_inv_def)

lemma result_insert [simp]: "x \<notin> {NodeInitMain, NodeAppShutdown} \<Longrightarrow> result_inv (insert x X) = result_inv X"
  by (intro ext) (auto simp: result_inv_def)

lemma subscription_insert [simp]: "x \<notin> {Subscribed, Unsubscribed} \<Longrightarrow>
    subscription_inv (insert x X) = subscription_inv X"
  by (intro ext) (auto simp: subscription_inv_def)

lemma finish_insert [simp]: "x \<notin> {SigShutdownResult, SigFinished} \<Longrightarrow> finish_inv (insert x X) = finish_inv X"
  by (intro ext) (auto simp: finish_inv_def)

lemma begin_insert [simp]: "x \<notin> range (Begin True) \<union> range (Begin False) \<Longrightarrow> begin_inv (insert x X) = begin_inv X"
  by (intro ext) (auto simp: begin_inv_def)

lemma observe_simps [simp]: "trace (observe x s) = trace s @ [x]"
  by (simp add: observe_def)

section \<open>The invariant is kept\<close>

lemma init_initialize_inv:
  assumes inv: "sys_inv s" and alive: "init_alive s"
  shows "sys_inv (init_initialize s)"
proof (cases "m_initialize_requested s \<or> m_shutdown_requested s \<or> m_runaway_exception s")
  case False
  have run: "\<not> ch_stopped (init_chan s)" using inv alive False by (auto simp: sys_inv_def tasks_inv_def main_inv_def result_inv_def)
  have "t \<notin> set (ch_tasks (init_chan s))" for t
    using inv alive False by (cases t) (simp_all add: sys_inv_def tasks_inv_def)
  then have e: "ch_tasks (init_chan s) = []" by (metis list.set_intros(1) neq_Nil_conv)
  show ?thesis using inv False e run
    by (simp add: sys_inv_def init_initialize_def ch_submit_def) (auto simp: tasks_inv_def main_inv_def result_inv_def)
qed (simp add: init_initialize_def inv)

lemma init_interrupt_inv:
  assumes inv: "sys_inv s" and alive: "init_alive s" and c: "c_shutdown_requested s"
    "\<not> m_draining_before_interrupt s" "False \<notin> set (before_completed s)"
  shows "sys_inv (init_interrupt s)"
proof (cases "m_interrupt_requested s \<or> m_runaway_exception s")
  case False
  have "\<not> ch_stopped (interrupt_chan s)" using inv alive False
    by (auto simp: sys_inv_def interrupt_inv_def after_inv_def main_inv_def result_inv_def)
  with inv c False show ?thesis
    by (simp add: sys_inv_def init_interrupt_def ch_submit_def) (auto simp: before_inv_def interrupt_inv_def)
qed (simp add: init_interrupt_def inv)

lemma init_shutdown_inv:
  assumes inv: "sys_inv s" and alive: "init_alive s" and a: "m_draining_after_interrupt s" "False \<notin> set (after_completed s)"
  shows "sys_inv (init_shutdown s)"
proof (cases "m_shutdown_requested s \<or> m_runaway_exception s")
  case False
  have "\<not> ch_stopped (init_chan s)" using inv alive False by (auto simp: sys_inv_def tasks_inv_def main_inv_def result_inv_def)
  with inv a False show ?thesis
    by (simp add: sys_inv_def init_shutdown_def ch_submit_def)
      (cases "ch_tasks (init_chan s)"; auto simp: after_inv_def tasks_inv_def main_inv_def result_inv_def)
qed (simp add: init_shutdown_def inv)

text \<open>What the participants' signals leave alone.\<close>

definition same_phase :: "shutdown_sys \<Rightarrow> shutdown_sys \<Rightarrow> bool" where
  "same_phase s s' \<longleftrightarrow> c_shutdown_requested s' = c_shutdown_requested s \<and>
     m_draining_after_interrupt s' = m_draining_after_interrupt s \<and> init_alive s' = init_alive s \<and>
     length (before_completed s') = length (before_completed s) \<and> length (after_completed s') = length (after_completed s) \<and>
     (\<forall>b k. Begin b k \<in> set (trace s') \<longleftrightarrow> Begin b k \<in> set (trace s))"

lemma same_phase_refl [simp]: "same_phase s s"
  by (simp add: same_phase_def)

lemma same_phase_trans: "same_phase s s1 \<Longrightarrow> same_phase s1 s2 \<Longrightarrow> same_phase s s2"
  by (simp add: same_phase_def)

lemma participant_signal_phase: "same_phase s (participant_signal b k s)"
  by (simp add: same_phase_def participant_signal_def participantFinished_def init_interrupt_def init_shutdown_def
      observe_def Let_def)

lemma count_complete:
  "k < length xs \<Longrightarrow> \<not> xs ! k \<Longrightarrow> Suc (count_list (xs[k := True]) False) = count_list xs False"
  by (induction xs arbitrary: k) (auto simp: nth_Cons split: nat.splits)

lemma set_complete: "k < length xs \<Longrightarrow> False \<notin> set xs \<Longrightarrow> False \<notin> set (xs[k := True])"
  using set_update_subset_insert [of xs k True] by auto

lemma participant_done_inv:
  assumes inv: "sys_inv s" and k: "k < length (before_completed s)" "\<not> before_completed s ! k" and d: "m_draining_before_interrupt s"
  shows "sys_inv ((observe (PartDone True k) (s\<lparr>before_completed := (before_completed s)[k := True]\<rparr>))
     \<lparr>m_pending_participants := m_pending_participants s - 1\<rparr>)"
proof -
  have "\<not> m_draining_after_interrupt s" "PartDone True k \<notin> set (trace s)"
    using inv d k by (auto simp: sys_inv_def before_inv_def interrupt_inv_def)
  moreover have "before_inv (insert (PartDone True k) (set (trace s))) ((before_completed s)[k := True])
      (c_shutdown_requested s) True (m_interrupt_requested s) (m_pending_participants s - 1)"
    using inv d k count_complete [OF k] by (auto simp: sys_inv_def before_inv_def nth_list_update)
  ultimately show ?thesis using inv d k by (simp add: sys_inv_def observe_def image_iff) (auto simp: after_inv_def)
qed

lemma participant_done_after_inv:
  assumes inv: "sys_inv s" and k: "k < length (after_completed s)" "\<not> after_completed s ! k" and d: "m_draining_after_interrupt s"
  shows "sys_inv ((observe (PartDone False k) (s\<lparr>after_completed := (after_completed s)[k := True]\<rparr>))
     \<lparr>m_pending_participants := m_pending_participants s - 1\<rparr>)"
proof -
  have "\<not> m_draining_before_interrupt s" "PartDone False k \<notin> set (trace s)"
    using inv d k by (auto simp: sys_inv_def before_inv_def interrupt_inv_def after_inv_def)
  moreover have "after_inv (insert (PartDone False k) (set (trace s))) ((after_completed s)[k := True]) True
      (m_shutdown_requested s) (m_pending_participants s - 1)"
    using inv d k count_complete [OF k] set_complete [OF k(1)] by (auto simp: sys_inv_def after_inv_def nth_list_update)
  ultimately show ?thesis using inv d k by (simp add: sys_inv_def observe_def image_iff) (auto simp: before_inv_def)
qed

lemma participant_signal_inv:
  assumes inv: "sys_inv s" and alive: "init_alive s"
  shows "sys_inv (participant_signal b k s)"
proof (cases b)
  case True
  show ?thesis
  proof (cases "k < length (before_completed s) \<and> m_draining_before_interrupt s \<and> \<not> before_completed s ! k")
    case a: True
    let ?s1 = "(observe (PartDone True k) (s\<lparr>before_completed := (before_completed s)[k := True]\<rparr>))
      \<lparr>m_pending_participants := m_pending_participants s - 1\<rparr>"
    let ?s2 = "?s1\<lparr>m_draining_before_interrupt := False\<rparr>"
    have s1: "sys_inv ?s1" using participant_done_inv [OF inv] a by blast
    have eq: "participant_signal b k s = (if m_pending_participants s - 1 \<noteq> 0 then ?s1 else init_interrupt ?s2)"
      using a True by (simp add: participant_signal_def participantFinished_def observe_def Let_def)
    have "sys_inv ?s2" using s1 by (simp add: sys_inv_def observe_def) (auto simp: before_inv_def)
    moreover have "c_shutdown_requested ?s2" using inv a by (auto simp: sys_inv_def before_inv_def observe_def)
    moreover have "m_pending_participants s - 1 = 0 \<Longrightarrow> False \<notin> set (before_completed ?s2)"
      using s1 a by (simp add: sys_inv_def before_inv_def observe_def count_list_0_iff)
    ultimately show ?thesis unfolding eq using s1 alive by (auto intro!: init_interrupt_inv simp: observe_def)
  qed (use True inv in \<open>auto simp: participant_signal_def Let_def\<close>)
next
  case False
  show ?thesis
  proof (cases "k < length (after_completed s) \<and> m_draining_after_interrupt s \<and> \<not> after_completed s ! k")
    case a: True
    let ?s1 = "(observe (PartDone False k) (s\<lparr>after_completed := (after_completed s)[k := True]\<rparr>))
      \<lparr>m_pending_participants := m_pending_participants s - 1\<rparr>"
    have s1: "sys_inv ?s1" using participant_done_after_inv [OF inv] a by blast
    have eq: "participant_signal b k s = (if m_pending_participants s - 1 \<noteq> 0 then ?s1 else init_shutdown ?s1)"
      using a False by (simp add: participant_signal_def participantFinished_def observe_def Let_def)
    have "m_pending_participants s - 1 = 0 \<Longrightarrow> False \<notin> set (after_completed ?s1)"
      using s1 a by (simp add: sys_inv_def after_inv_def observe_def count_list_0_iff)
    then show ?thesis unfolding eq using s1 alive a by (auto intro!: init_shutdown_inv simp: observe_def)
  qed (use False inv in \<open>auto simp: participant_signal_def Let_def\<close>)
qed

lemma participant_signals_inv:
  "sys_inv s \<Longrightarrow> init_alive s \<Longrightarrow> sys_inv (participant_signals ps s) \<and> same_phase s (participant_signals ps s)"
proof (induction ps arbitrary: s)
  case (Cons p ps)
  let ?s1 = "participant_signal (fst p) (snd p) s"
  have "sys_inv ?s1" "same_phase s ?s1" using Cons.prems participant_signal_inv participant_signal_phase by blast+
  with Cons.IH [of ?s1] Cons.prems same_phase_trans show ?case
    by (auto simp: participant_signals_def same_phase_def)
qed (simp add: participant_signals_def)

lemma begin_inv_step:
  assumes "sys_inv s" "Begin b k \<notin> set (trace s)" "if b then c_shutdown_requested s else m_draining_after_interrupt s"
  shows "sys_inv (observe (Begin b k) s)"
proof -
  have "if b then SigShutdownStarted \<in> set (trace s) else SigInterruptResult \<in> set (trace s)"
    using assms by (auto simp: sys_inv_def before_inv_def interrupt_inv_def)
  with assms show ?thesis
    by (simp add: sys_inv_def observe_def image_iff) (auto simp: begin_inv_def split: if_splits)
qed

lemma begin_loop_inv:
  assumes "sys_inv s" "init_alive s" "\<forall>k. Begin b k \<notin> set (trace s)"
    and "if b then c_shutdown_requested s else m_draining_after_interrupt s"
  shows "sys_inv (begin_loop b n sync s) \<and> init_alive (begin_loop b n sync s) \<and>
     (if b then c_shutdown_requested (begin_loop b n sync s) else m_draining_after_interrupt (begin_loop b n sync s)) \<and>
     (\<forall>k. Begin b k \<in> set (trace (begin_loop b n sync s)) \<longleftrightarrow> k < n)"
proof (induction n)
  case 0
  with assms show ?case by (simp add: begin_loop_def)
next
  case (Suc n)
  let ?s1 = "begin_loop b n sync s" and ?s2 = "observe (Begin b n) (begin_loop b n sync s)"
  have eq: "begin_loop b (Suc n) sync s = participant_signals (sync n) ?s2" by (simp add: begin_loop_def)
  have "Begin b n \<notin> set (trace ?s1)" using Suc by blast
  then have "sys_inv ?s2" using Suc begin_inv_step by blast
  moreover have "init_alive ?s2" using Suc by (simp add: observe_def)
  ultimately have "sys_inv (participant_signals (sync n) ?s2) \<and> same_phase ?s2 (participant_signals (sync n) ?s2)"
    by (rule participant_signals_inv)
  then show ?case unfolding eq using Suc
    by (cases b) (simp_all add: same_phase_def observe_def less_Suc_eq disj_commute)
qed

lemma requestShutdown_states:
  assumes inv: "sys_inv s" and new: "\<not> c_shutdown_requested s"
  shows "sys_inv ((observe SigShutdownStarted (s\<lparr>c_shutdown_requested := True\<rparr>))
      \<lparr>m_pending_participants := length (before_completed s)\<rparr>)"
    and "sys_inv ((observe SigShutdownStarted (s\<lparr>c_shutdown_requested := True\<rparr>))
      \<lparr>m_pending_participants := length (before_completed s), m_draining_before_interrupt := True\<rparr>)"
proof -
  have no: "SigShutdownStarted \<notin> set (trace s)" "\<not> m_draining_before_interrupt s" "\<not> m_interrupt_requested s"
    and c: "True \<notin> set (before_completed s)"
    using sys_inv_parts(1) [OF inv] new by (simp_all add: before_inv_def)
  have no': "\<not> m_draining_after_interrupt s" using sys_inv_parts(2) [OF inv] no(3) by (auto simp: interrupt_inv_def)
  have "before_inv (insert SigShutdownStarted (set (trace s))) (before_completed s) True d False (length (before_completed s))"
    for d using sys_inv_parts(1) [OF inv] new no count_incomplete [OF c] by (simp add: before_inv_def)
  moreover have "after_inv (set (trace s)) (after_completed s) False (m_shutdown_requested s) (length (before_completed s))"
    using sys_inv_parts(3) [OF inv] no' by (simp add: after_inv_def)
  moreover have "begin_inv (set (trace s)) True False" using inv no' by (simp add: sys_inv_def begin_inv_def)
  ultimately show "sys_inv ((observe SigShutdownStarted (s\<lparr>c_shutdown_requested := True\<rparr>))
      \<lparr>m_pending_participants := length (before_completed s)\<rparr>)"
    "sys_inv ((observe SigShutdownStarted (s\<lparr>c_shutdown_requested := True\<rparr>))
      \<lparr>m_pending_participants := length (before_completed s), m_draining_before_interrupt := True\<rparr>)"
    using inv no no' by (simp_all add: sys_inv_def observe_def image_iff)
qed

lemma requestShutdown_inv:
  assumes inv: "sys_inv s" and alive: "init_alive s"
  shows "sys_inv (requestShutdown sync s)"
proof (cases "c_shutdown_requested s")
  case False
  note s = requestShutdown_states [OF inv False]
  have b: "\<forall>k. Begin True k \<notin> set (trace s)" using inv False by (simp add: sys_inv_def begin_inv_def)
  have no: "\<not> m_draining_before_interrupt s" using sys_inv_parts(1) [OF inv] False by (simp add: before_inv_def)
  have "before_completed s = [] \<Longrightarrow> sys_inv (init_interrupt ((observe SigShutdownStarted (s\<lparr>c_shutdown_requested := True\<rparr>))
      \<lparr>m_pending_participants := length (before_completed s)\<rparr>))"
    using init_interrupt_inv [OF s(1)] alive no by (simp add: observe_def)
  moreover have "sys_inv (begin_loop True (length (before_completed s)) sync
      ((observe SigShutdownStarted (s\<lparr>c_shutdown_requested := True\<rparr>))
      \<lparr>m_pending_participants := length (before_completed s), m_draining_before_interrupt := True\<rparr>))"
    using begin_loop_inv [OF s(2), of True] alive b by (simp add: observe_def)
  ultimately show ?thesis using False by (auto simp: requestShutdown_def Let_def)
qed (simp add: requestShutdown_def inv)

lemma handleRunaway_inv: "sys_inv s \<Longrightarrow> sys_inv (handleRunawayException s)"
  by (simp add: sys_inv_def handleRunawayException_def observe_def image_iff)

text \<open>The states in which an interruption's completion starts the second phase.\<close>

definition after_state :: "shutdown_sys \<Rightarrow> shutdown_sys" where
  "after_state s = (observe SigInterruptResult s)\<lparr>m_draining_after_interrupt := True,
     m_pending_participants := length (after_completed s)\<rparr>"

lemma interrupt_deliver:
  assumes inv: "sys_inv s" and q: "ch_done (interrupt_chan s) = r # rs"
  defines "s0 \<equiv> s\<lparr>interrupt_chan := ch_deliver (interrupt_chan s)\<rparr>"
  shows "sys_inv s0" "sys_inv (after_state s0)" "\<not> m_draining_after_interrupt s" "m_interrupt_requested s"
    "True \<notin> set (after_completed s)" "ch_done (interrupt_chan s0) = []" "\<forall>k. Begin False k \<notin> set (trace s)"
proof -
  have i: "rs = []" "ch_tasks (interrupt_chan s) = []" "NodeStartShutdown \<in> set (trace s)" "m_interrupt_requested s"
    "SigInterruptResult \<notin> set (trace s)" "\<not> m_draining_after_interrupt s"
    using sys_inv_parts(2) [OF inv] q by (auto simp: interrupt_inv_def)
  have s0: "sys_inv s0" using inv i q unfolding s0_def
    by (simp add: sys_inv_def ch_deliver_def) (auto simp: interrupt_inv_def)
  have a: "\<not> m_draining_before_interrupt s" "True \<notin> set (after_completed s)" "\<not> m_shutdown_requested s"
    "\<forall>k. Begin False k \<notin> set (trace s)"
    using sys_inv_parts(1,3) [OF inv] inv i by (auto simp: sys_inv_def before_inv_def after_inv_def begin_inv_def)
  show "sys_inv (after_state s0)" using s0 i a q count_incomplete [OF a(2)] unfolding s0_def after_state_def
    by (simp add: sys_inv_def observe_def image_iff)
      (auto simp: before_inv_def interrupt_inv_def after_inv_def begin_inv_def ch_deliver_def)
  show "ch_done (interrupt_chan s0) = []" using i q by (simp add: s0_def ch_deliver_def)
  show "sys_inv s0" by (rule s0)
  show "\<not> m_draining_after_interrupt s" "m_interrupt_requested s" "True \<notin> set (after_completed s)"
    "\<forall>k. Begin False k \<notin> set (trace s)" using i a by auto
qed

lemma interrupt_completion_cases:
  "interrupt_completion sync r s =
     (if r then handleRunawayException s
      else if m_runaway_exception s then s
      else if m_draining_after_interrupt s then observe SigInterruptResult s
      else if after_completed s = [] then init_shutdown (after_state s)
      else begin_loop False (length (after_completed s)) sync (after_state s))"
  by (simp add: interrupt_completion_def drainAfterInterrupt_def after_state_def Let_def observe_def)

lemma interrupt_completion_inv:
  assumes inv: "sys_inv s" and alive: "init_alive s" and q: "ch_done (interrupt_chan s) = r # rs"
  shows "sys_inv (interrupt_completion sync r (s\<lparr>interrupt_chan := ch_deliver (interrupt_chan s)\<rparr>))"
proof -
  let ?s0 = "s\<lparr>interrupt_chan := ch_deliver (interrupt_chan s)\<rparr>"
  note d = interrupt_deliver [OF inv q]
  have "after_completed s = [] \<Longrightarrow> sys_inv (init_shutdown (after_state ?s0))"
    using init_shutdown_inv [OF d(2)] alive by (simp add: after_state_def observe_def)
  moreover have "sys_inv (begin_loop False (length (after_completed s)) sync (after_state ?s0))"
    using begin_loop_inv [OF d(2), of False] alive d(7) by (simp add: after_state_def observe_def)
  ultimately show ?thesis using d by (simp add: interrupt_completion_cases handleRunaway_inv)
qed

text \<open>The worker's events.\<close>

lemma init_head:
  assumes inv: "sys_inv s" and q: "InitTask \<in> set (ch_tasks (init_chan s))"
  obtains ts where "ch_tasks (init_chan s) = InitTask # ts" "InitTask \<notin> set ts" "distinct ts"
  using sys_inv_parts(4) [OF inv] q by (cases "ch_tasks (init_chan s)") (auto simp: tasks_inv_def)

lemma init_main_inv:
  assumes inv: "sys_inv s" and q: "ch_tasks (init_chan s) = InitTask # ts" and n: "init_progress s = None"
  shows "sys_inv (init_main outcome s)"
proof -
  note t = sys_inv_parts(4) [OF inv] and m = sys_inv_parts(5) [OF inv] and r = sys_inv_parts(6) [OF inv]
  have f: "NodeInitMain \<notin> set (trace s)" "NodeAppShutdown \<notin> set (trace s)" "InitThrew \<notin> set (trace s)"
    "InitTask \<notin> set ts" "distinct ts" "\<not> m_app_shutdown_complete s" "m_initialize_requested s"
    "\<not> initialization_threw s"
    using t m r q n by (auto simp: tasks_inv_def main_inv_def result_inv_def)
  show ?thesis
  proof (cases outcome)
    case (Some success)
    have "tasks_inv (set (trace s)) (init_chan s) (m_initialize_requested s) (m_shutdown_requested s) (init_alive s)
        (Some success) (m_app_shutdown_complete s)" using t q by (simp add: tasks_inv_def)
    moreover have "main_inv (insert NodeInitMain (set (trace s))) (ch_tasks (init_chan s)) (m_initialize_requested s)
        (m_shutdown_requested s) (initialization_threw s) (Some success)" using m q f by (simp add: main_inv_def)
    moreover have "result_inv (insert NodeInitMain (set (trace s))) (init_chan s) (initialization_threw s)
        (m_app_shutdown_complete s)" using r by (auto simp: result_inv_def)
    ultimately show ?thesis using Some inv f by (simp add: init_main_def sys_inv_def observe_def image_iff)
  next
    case None
    have "tasks_inv (set (trace s)) (ch_run InitFailed (init_chan s)) (m_initialize_requested s) (m_shutdown_requested s)
        (init_alive s) (init_progress s) (m_app_shutdown_complete s)"
      using t q n f by (simp add: tasks_inv_def ch_run_def)
    moreover have "main_inv (insert NodeInitMain (insert InitThrew (set (trace s)))) (ch_tasks (ch_run InitFailed (init_chan s)))
        (m_initialize_requested s) (m_shutdown_requested s) True (init_progress s)"
      using m q f by (simp add: main_inv_def ch_run_def)
    moreover have "result_inv (insert NodeInitMain (insert InitThrew (set (trace s)))) (ch_run InitFailed (init_chan s)) True
        (m_app_shutdown_complete s)" using r q f by (simp add: result_inv_def ch_run_def)
    ultimately show ?thesis using None inv f by (simp add: init_main_def sys_inv_def observe_def image_iff)
  qed
qed

text \<open>The end of the initialisation task, however it ends.\<close>

lemma init_end_parts:
  assumes inv: "sys_inv s" and p: "init_progress s \<noteq> None"
  shows "tasks_inv (set (trace s)) (ch_run c (init_chan s)) (m_initialize_requested s) (m_shutdown_requested s)
      (init_alive s) None (m_app_shutdown_complete s)"
    and "main_inv (set (trace s)) (ch_tasks (ch_run c (init_chan s))) (m_initialize_requested s) (m_shutdown_requested s)
      (initialization_threw s) None"
    and "main_inv (insert InitThrew (set (trace s))) (ch_tasks (ch_run c (init_chan s))) (m_initialize_requested s)
      (m_shutdown_requested s) True None"
    and "result_inv (set (trace s)) (ch_run (InitResult x y z) (init_chan s)) (initialization_threw s) (m_app_shutdown_complete s)"
    and "result_inv (set (trace s)) (ch_run InitFailed (init_chan s)) True (m_app_shutdown_complete s)"
    and "NodeInitMain \<in> set (trace s) \<and> NodeAppShutdown \<notin> set (trace s) \<and> InitThrew \<notin> set (trace s)"
proof -
  note t = sys_inv_parts(4) [OF inv] and m = sys_inv_parts(5) [OF inv] and r = sys_inv_parts(6) [OF inv]
  have "InitTask \<in> set (ch_tasks (init_chan s))" using t p by (simp add: tasks_inv_def)
  from init_head [OF inv this] obtain ts where
    ts: "ch_tasks (init_chan s) = InitTask # ts" "InitTask \<notin> set ts" "distinct ts" .
  have f: "NodeInitMain \<in> set (trace s)" "NodeAppShutdown \<notin> set (trace s)" "InitThrew \<notin> set (trace s)"
    "\<not> initialization_threw s" "m_initialize_requested s"
    using m ts p by (auto simp: main_inv_def)
  then show "NodeInitMain \<in> set (trace s) \<and> NodeAppShutdown \<notin> set (trace s) \<and> InitThrew \<notin> set (trace s)" by simp
  show "tasks_inv (set (trace s)) (ch_run c (init_chan s)) (m_initialize_requested s) (m_shutdown_requested s)
      (init_alive s) None (m_app_shutdown_complete s)" using t ts by (simp add: tasks_inv_def ch_run_def)
  show "main_inv (set (trace s)) (ch_tasks (ch_run c (init_chan s))) (m_initialize_requested s) (m_shutdown_requested s)
      (initialization_threw s) None" using m ts f by (simp add: main_inv_def ch_run_def)
  show "main_inv (insert InitThrew (set (trace s))) (ch_tasks (ch_run c (init_chan s))) (m_initialize_requested s)
      (m_shutdown_requested s) True None" using m ts f by (simp add: main_inv_def ch_run_def)
  show "result_inv (set (trace s)) (ch_run (InitResult x y z) (init_chan s)) (initialization_threw s) (m_app_shutdown_complete s)"
    using r ts f by (auto simp: result_inv_def ch_run_def)
  show "result_inv (set (trace s)) (ch_run InitFailed (init_chan s)) True (m_app_shutdown_complete s)"
    using r ts f by (auto simp: result_inv_def ch_run_def)
qed

lemma init_rest_inv:
  assumes inv: "sys_inv s" and p: "init_progress s = Some success"
  shows "sys_inv (init_rest success rb throws ibd rq s)"
proof -
  have p': "init_progress s \<noteq> None" using p by simp
  note e = init_end_parts [OF inv p'] and sub = sys_inv_parts(7) [OF inv]
  have failed: "sys_inv (init_failed (s\<lparr>init_progress := None\<rparr>))"
    using inv e by (simp add: init_failed_def sys_inv_def observe_def image_iff)
  have finished: "sys_inv (s\<lparr>init_progress := None, init_chan := ch_run (InitResult x y z) (init_chan s)\<rparr>)" for x y z
    using inv e by (simp add: sys_inv_def)
  show ?thesis
  proof (cases "throws \<noteq> ThrowBefore \<and> success \<and> pending_subscription_factory s \<and> \<not> stopping s \<and> \<not> rb")
    case False
    with failed finished show ?thesis by (auto simp: init_rest_def Let_def)
  next
    case True
    have sub1: "subscription_inv (set (trace s)) False (subscription s)" using sub by (simp add: subscription_inv_def)
    have sub2: "subscription_inv (insert Subscribed (set (trace s))) False True" "Subscribed \<notin> set (trace s)"
      using sub True by (auto simp: subscription_inv_def)
    define u where "u = s\<lparr>init_progress := None, pending_subscription_factory := False\<rparr>"
    define v where "v = observe Subscribed (u\<lparr>subscription := True\<rparr>)"
    have "init_rest success rb throws ibd rq s = (if throws = ThrowIn then init_failed u else if throws = ThrowAfter then init_failed v
        else v\<lparr>init_chan := ch_run (InitResult success (success \<and> ibd) rq) (init_chan v)\<rparr>)"
      using True by (simp add: init_rest_def Let_def u_def v_def)
    note rest = this
    have "sys_inv (init_failed u)" using sub1 inv e by (simp add: u_def init_failed_def sys_inv_def observe_def image_iff)
    moreover have sub3: "subscription_inv (insert Subscribed (insert InitThrew (set (trace s)))) False True"
      using sub2 by (simp add: subscription_inv_def)
    moreover from sub3 have "sys_inv (init_failed v)" using sub2 sub3 inv e
      by (simp add: u_def v_def init_failed_def sys_inv_def observe_def image_iff insert_commute [of InitThrew Subscribed])
    moreover have "sys_inv (v\<lparr>init_chan := ch_run (InitResult x y z) (init_chan v)\<rparr>)" for x y z using sub2 inv e
      by (simp add: u_def v_def sys_inv_def observe_def image_iff)
    ultimately show ?thesis using rest by simp
  qed
qed

lemma retireSubscription_inv:
  assumes "sys_inv s"
  shows "sys_inv (retireSubscription s)" "Subscribed \<in> set (trace (retireSubscription s)) \<Longrightarrow> Unsubscribed \<in> set (trace (retireSubscription s))"
proof -
  note sub = sys_inv_parts(7) [OF assms]
  have "subscription s \<Longrightarrow> subscription_inv (insert Unsubscribed (set (trace s))) False False"
    "\<not> subscription s \<Longrightarrow> subscription_inv (set (trace s)) False False"
    "subscription s \<Longrightarrow> Subscribed \<in> set (trace s) \<and> Unsubscribed \<notin> set (trace s)"
    using sub by (auto simp: subscription_inv_def)
  with assms show "sys_inv (retireSubscription s)"
    by (simp add: retireSubscription_def sys_inv_def observe_def image_iff)
  show "Subscribed \<in> set (trace (retireSubscription s)) \<Longrightarrow> Unsubscribed \<in> set (trace (retireSubscription s))"
    using sub by (auto simp: retireSubscription_def observe_def subscription_inv_def)
qed

lemma retire_fields:
  "init_chan (retireSubscription s) = init_chan s" "initialization_threw (retireSubscription s) = initialization_threw s"
  "init_progress (retireSubscription s) = init_progress s" "init_alive (retireSubscription s) = init_alive s"
  by (simp_all add: retireSubscription_def observe_def)

lemma shutdown_work_inv:
  assumes inv: "sys_inv s" and q: "ch_tasks (init_chan s) = ShutdownTask # ts"
  shows "sys_inv (shutdown_work throws s)"
proof -
  let ?s = "retireSubscription s"
  have inv1: "sys_inv ?s" and sub: "Subscribed \<in> set (trace ?s) \<longrightarrow> Unsubscribed \<in> set (trace ?s)"
    using retireSubscription_inv [OF inv] by auto
  have q1: "ch_tasks (init_chan ?s) = ShutdownTask # ts" using q by (simp add: retire_fields)
  have tp: "tasks_inv (set (trace s)) (ch_run c (init_chan s)) (m_initialize_requested s) (m_shutdown_requested s)
      (init_alive s) (init_progress s) (m_app_shutdown_complete s)"
    if "sys_inv s" "ch_tasks (init_chan s) = ShutdownTask # ts" for s c
    using sys_inv_parts(4) [OF that(1)] that(2) by (auto simp: tasks_inv_def ch_run_def)
  show ?thesis
  proof (cases "initialization_threw s")
    case True
    have "main_inv (set (trace s)) (ch_tasks (ch_run c (init_chan s))) (m_initialize_requested s) (m_shutdown_requested s)
        True (init_progress s)" for c
      using sys_inv_parts(5) [OF inv] q True by (simp add: main_inv_def ch_run_def)
    moreover have "result_inv (set (trace s)) (ch_run (ShutdownDone False) (init_chan s)) True (m_app_shutdown_complete s)"
      using sys_inv_parts(6) [OF inv] q True by (auto simp: result_inv_def ch_run_def)
    ultimately show ?thesis using True inv tp [OF inv q] by (simp add: shutdown_work_def sys_inv_def)
  next
    case False
    then have nt: "\<not> initialization_threw ?s" by (simp add: retire_fields)
    let ?r = "if throws = NoThrow then ShutdownDone True else ShutdownFailed"
    have before: "sys_inv (s\<lparr>init_chan := ch_run ShutdownFailed (init_chan s)\<rparr>)"
    proof -
      have "main_inv (set (trace s)) (ch_tasks (ch_run ShutdownFailed (init_chan s))) (m_initialize_requested s) (m_shutdown_requested s)
          (initialization_threw s) (init_progress s)"
        using sys_inv_parts(5) [OF inv] q by (simp add: main_inv_def ch_run_def)
      moreover have "result_inv (set (trace s)) (ch_run ShutdownFailed (init_chan s)) (initialization_threw s) (m_app_shutdown_complete s)"
        using sys_inv_parts(6) [OF inv] q by (auto simp: result_inv_def ch_run_def)
      ultimately show ?thesis using inv tp [OF inv q] by (simp add: sys_inv_def)
    qed
    have f: "m_shutdown_requested ?s" "NodeAppShutdown \<notin> set (trace ?s)" "InitTask \<notin> set ts"
      "ShutdownTask \<notin> set ts" "distinct ts" "init_progress ?s = None"
      using sys_inv_parts(4) [OF inv1] q1 by (auto simp: tasks_inv_def)
    have da: "m_draining_after_interrupt ?s" "False \<notin> set (after_completed ?s)"
      using sys_inv_parts(3) [OF inv1] f(1) by (auto simp: after_inv_def)
    then have fin: "\<forall>k < length (after_completed ?s). PartDone False k \<in> set (trace ?s)"
      using sys_inv_parts(3) [OF inv1] by (metis (full_types) after_inv_def nth_mem)
    have "SigInterruptResult \<in> set (trace ?s)" "InitThrew \<notin> set (trace ?s)"
      using sys_inv_parts(2,5) [OF inv1] da nt by (simp_all add: interrupt_inv_def main_inv_def)
    moreover have "tasks_inv (insert NodeAppShutdown (set (trace ?s))) (ch_run ?r (init_chan ?s)) (m_initialize_requested ?s)
        (m_shutdown_requested ?s) (init_alive ?s) (init_progress ?s) (m_app_shutdown_complete ?s)"
      using sys_inv_parts(4) [OF inv1] q1 f by (simp add: tasks_inv_def ch_run_def)
    moreover have "main_inv (insert NodeAppShutdown (set (trace ?s))) (ch_tasks (ch_run ?r (init_chan ?s)))
        (m_initialize_requested ?s) (m_shutdown_requested ?s) (initialization_threw ?s) (init_progress ?s)"
      using sys_inv_parts(5) [OF inv1] q1 f nt by (simp add: main_inv_def ch_run_def)
    moreover have "result_inv (insert NodeAppShutdown (set (trace ?s))) (ch_run ?r (init_chan ?s)) (initialization_threw ?s)
        (m_app_shutdown_complete ?s)"
      using sys_inv_parts(6) [OF inv1] q1 f by (auto simp: result_inv_def ch_run_def)
    ultimately show ?thesis using False inv1 f sub fin before
      by (cases "throws = ThrowBefore") (simp_all add: shutdown_work_def sys_inv_def observe_def image_iff Let_def)
  qed
qed

lemma retire_work_inv:
  assumes inv: "sys_inv s" and q: "ch_tasks (init_chan s) = RetireTask # ts"
  shows "sys_inv (retire_work s)"
proof -
  let ?s = "retireSubscription s"
  have inv1: "sys_inv ?s" using retireSubscription_inv [OF inv] by simp
  have q1: "ch_tasks (init_chan ?s) = RetireTask # ts" using q by (simp add: retire_fields)
  have "tasks_inv (set (trace ?s)) (ch_run Retired (init_chan ?s)) (m_initialize_requested ?s) (m_shutdown_requested ?s)
      (init_alive ?s) (init_progress ?s) (m_app_shutdown_complete ?s)"
    using sys_inv_parts(4) [OF inv1] q1 by (auto simp: tasks_inv_def ch_run_def)
  moreover have "main_inv (set (trace ?s)) (ch_tasks (ch_run Retired (init_chan ?s))) (m_initialize_requested ?s)
      (m_shutdown_requested ?s) (initialization_threw ?s) (init_progress ?s)"
    using sys_inv_parts(4,5) [OF inv1] q1 by (simp add: main_inv_def ch_run_def)
  moreover have "result_inv (set (trace ?s)) (ch_run Retired (init_chan ?s)) (initialization_threw ?s) (m_app_shutdown_complete ?s)"
    using sys_inv_parts(6) [OF inv1] q1 by (auto simp: result_inv_def ch_run_def)
  ultimately show ?thesis using inv1 by (simp add: retire_work_def sys_inv_def retire_fields)
qed

lemma interrupt_work_inv:
  assumes inv: "sys_inv s" and q: "ch_tasks (interrupt_chan s) = t # ts"
  shows "sys_inv (interrupt_work throws s)"
proof -
  note i = sys_inv_parts(2) [OF inv] and b = sys_inv_parts(1) [OF inv]
  have f: "m_interrupt_requested s" "ts = []" "NodeStartShutdown \<notin> set (trace s)" "ch_done (interrupt_chan s) = []"
    "\<not> m_draining_after_interrupt s" "SigInterruptResult \<notin> set (trace s)" "ch_tasks (interrupt_chan s) = [()]"
    using i q by (auto simp: interrupt_inv_def)
  have "c_shutdown_requested s" "False \<notin> set (before_completed s)" using b f by (auto simp: before_inv_def)
  then have p: "SigShutdownStarted \<in> set (trace s)" "\<forall>k < length (before_completed s). PartDone True k \<in> set (trace s)"
    using b by (simp add: before_inv_def, metis (full_types) b before_inv_def nth_mem)
  have "interrupt_inv (insert NodeStartShutdown (set (trace s))) (m_interrupt_requested s) (ch_run throws (interrupt_chan s))
      (m_draining_after_interrupt s) (init_alive s) (m_app_shutdown_complete s)"
    using i f by (simp add: interrupt_inv_def ch_run_def)
  with inv f p show ?thesis by (simp add: interrupt_work_def sys_inv_def observe_def image_iff)
qed

text \<open>The GUI thread's events.\<close>

lemma finishShutdown_inv:
  assumes inv: "sys_inv s"
  shows "sys_inv (finishShutdown s)"
proof (cases "m_runaway_exception s \<or> \<not> m_app_shutdown_complete s \<or> m_shutdown_result_emitted s \<or>
    \<not> ch_drained (init_chan s) \<or> \<not> ch_drained (interrupt_chan s)")
  case False
  have "finish_inv (insert SigShutdownResult (set (trace s))) True True" "SigShutdownResult \<notin> set (trace s)"
    using sys_inv_parts(8) [OF inv] False by (simp_all add: finish_inv_def)
  moreover have "NodeAppShutdown \<in> set (trace s)"
    using sys_inv_parts(6) [OF inv] False by (simp add: result_inv_def)
  ultimately show ?thesis using inv False by (simp add: finishShutdown_def sys_inv_def observe_def image_iff)
qed (use inv in \<open>auto simp: finishShutdown_def\<close>)

lemma drained_parts:
  "tasks_inv X (ch\<lparr>ch_drained := d\<rparr>) = tasks_inv X ch" "result_inv X (ch\<lparr>ch_drained := d\<rparr>) = result_inv X ch"
  "interrupt_inv X i (ch'\<lparr>ch_drained := d\<rparr>) = interrupt_inv X i ch'"
  by (simp_all add: tasks_inv_def result_inv_def interrupt_inv_def fun_eq_iff)

lemma drain_chan_inv:
  assumes inv: "sys_inv s"
  shows "sys_inv (s\<lparr>init_chan := ch_drain (init_chan s)\<rparr>)" "sys_inv (s\<lparr>interrupt_chan := ch_drain (interrupt_chan s)\<rparr>)"
  using inv by (simp_all add: sys_inv_def ch_drain_def drained_parts)

lemma init_deliver_inv:
  assumes inv: "sys_inv s" and q: "ch_done (init_chan s) = r # rs"
  shows "sys_inv (s\<lparr>init_chan := ch_deliver (init_chan s)\<rparr>)"
proof -
  have "result_inv (set (trace s)) (ch_deliver (init_chan s)) (initialization_threw s) (m_app_shutdown_complete s)"
    using sys_inv_parts(6) [OF inv] q by (auto simp: result_inv_def ch_deliver_def)
  moreover have "tasks_inv (set (trace s)) (ch_deliver (init_chan s)) (m_initialize_requested s) (m_shutdown_requested s)
      (init_alive s) (init_progress s) (m_app_shutdown_complete s)"
    using sys_inv_parts(4) [OF inv] by (simp add: tasks_inv_def ch_deliver_def)
  moreover have "ch_tasks (ch_deliver (init_chan s)) = ch_tasks (init_chan s)" by (simp add: ch_deliver_def)
  ultimately show ?thesis using inv by (simp add: sys_inv_def)
qed

lemma app_complete_inv:
  assumes inv: "sys_inv s" and a: "NodeAppShutdown \<in> set (trace s)"
  shows "sys_inv (s\<lparr>m_app_shutdown_complete := True, init_chan := ch_shutdown (init_chan s),
     interrupt_chan := ch_shutdown (interrupt_chan s)\<rparr>)"
proof -
  have "interrupt_inv (set (trace s)) (m_interrupt_requested s) (ch_shutdown (interrupt_chan s))
      (m_draining_after_interrupt s) (init_alive s) True"
    using sys_inv_parts(2) [OF inv] by (auto simp: interrupt_inv_def ch_shutdown_def)
  moreover have "tasks_inv (set (trace s)) (ch_shutdown (init_chan s)) (m_initialize_requested s) (m_shutdown_requested s)
      (init_alive s) (init_progress s) True"
    using sys_inv_parts(4) [OF inv] by (simp add: tasks_inv_def ch_shutdown_def)
  moreover have "result_inv (set (trace s)) (ch_shutdown (init_chan s)) (initialization_threw s) True"
    using sys_inv_parts(6) [OF inv] a by (auto simp: result_inv_def ch_shutdown_def)
  moreover have "ch_tasks (ch_shutdown (init_chan s)) = ch_tasks (init_chan s)" by (simp add: ch_shutdown_def)
  ultimately show ?thesis using inv by (simp add: sys_inv_def)
qed

lemma init_completion_inv:
  assumes inv: "sys_inv s" and q: "ch_done (init_chan s) = r # rs"
  shows "sys_inv (init_completion r (s\<lparr>init_chan := ch_deliver (init_chan s)\<rparr>))"
proof -
  let ?s = "s\<lparr>init_chan := ch_deliver (init_chan s)\<rparr>"
  have s: "sys_inv ?s" using init_deliver_inv [OF inv q] .
  note res = sys_inv_parts(6) [OF inv]
  show ?thesis
  proof (cases r)
    case (InitResult x y z)
    then have "NodeInitMain \<in> set (trace s)" "\<not> initialization_threw s"
      using res q by (auto simp: result_inv_def)
    moreover from this have "InitThrew \<notin> set (trace s)" using sys_inv_parts(5) [OF inv] by (simp add: main_inv_def)
    ultimately show ?thesis using InitResult s by (simp add: init_completion_def sys_inv_def observe_def image_iff)
  next
    case (ShutdownDone c)
    have "c \<Longrightarrow> NodeAppShutdown \<in> set (trace s)" using res q ShutdownDone by (auto simp: result_inv_def)
    with ShutdownDone s app_complete_inv [of ?s] show ?thesis by (simp add: init_completion_def)
  qed (use s handleRunaway_inv in \<open>simp_all add: init_completion_def\<close>)
qed

lemma all_drained_inv:
  assumes inv: "sys_inv s" and d: "drain_all_requested s"
  shows "sys_inv (observe SigFinished (s\<lparr>drain_all_requested := False\<rparr>))"
proof -
  have "finish_inv (insert SigFinished (set (trace s))) (m_shutdown_result_emitted s) False"
    "SigFinished \<notin> set (trace s)" "SigShutdownResult \<in> set (trace s)"
    using sys_inv_parts(8) [OF inv] d by (simp_all add: finish_inv_def)
  with inv show ?thesis by (simp add: sys_inv_def observe_def image_iff)
qed

lemma init_destroy_inv:
  assumes inv: "sys_inv s" and alive: "init_alive s"
  shows "sys_inv (init_destroy s)"
proof -
  let ?ch = "ch_shutdown (ch_submit RetireTask (init_chan s))"
  note t = sys_inv_parts(4) [OF inv]
  have nr: "RetireTask \<notin> set (ch_tasks (init_chan s))" using t alive by (simp add: tasks_inv_def)
  then have "tasks_inv (set (trace s)) ?ch (m_initialize_requested s) (m_shutdown_requested s) False (init_progress s)
      (m_app_shutdown_complete s)"
    using t by (cases "ch_tasks (init_chan s)") (auto simp: tasks_inv_def ch_shutdown_def ch_submit_def)
  moreover have "main_inv (set (trace s)) (ch_tasks ?ch) (m_initialize_requested s) (m_shutdown_requested s)
      (initialization_threw s) (init_progress s)"
    using sys_inv_parts(5) [OF inv] by (simp add: main_inv_def ch_shutdown_def ch_submit_def)
  moreover have "result_inv (set (trace s)) ?ch (initialization_threw s) (m_app_shutdown_complete s)"
    using sys_inv_parts(6) [OF inv] by (auto simp: result_inv_def ch_shutdown_def ch_submit_def)
  moreover have "interrupt_inv (set (trace s)) (m_interrupt_requested s) (ch_shutdown (interrupt_chan s))
      (m_draining_after_interrupt s) False (m_app_shutdown_complete s)"
    using sys_inv_parts(2) [OF inv] by (auto simp: interrupt_inv_def ch_shutdown_def)
  ultimately show ?thesis using inv by (simp add: init_destroy_def sys_inv_def)
qed

text \<open>Registering a participant before the shutdown.\<close>

lemma follows_cong: "follows P xs \<Longrightarrow> (\<And>X x. x \<in> set xs \<Longrightarrow> P X x \<Longrightarrow> Q X x) \<Longrightarrow> follows Q xs"
  by (auto simp: follows_def)

lemma protocol_grow:
  "protocol nb na X x \<Longrightarrow> x \<notin> {NodeStartShutdown, NodeAppShutdown} \<Longrightarrow> protocol (nb + i) (na + j) X x"
  by (cases x) auto

lemma addParticipant_inv:
  assumes inv: "sys_inv s" and c: "\<not> c_shutdown_requested s"
  shows "sys_inv (addParticipant b s)"
proof -
  have n: "\<not> m_interrupt_requested s" "\<not> m_draining_before_interrupt s" "True \<notin> set (before_completed s)"
    using sys_inv_parts(1) [OF inv] c by (simp_all add: before_inv_def)
  then have da: "\<not> m_draining_after_interrupt s" "NodeStartShutdown \<notin> set (trace s)"
    using sys_inv_parts(2) [OF inv] by (auto simp: interrupt_inv_def)
  then have sh: "\<not> m_shutdown_requested s" using sys_inv_parts(3) [OF inv] by (simp add: after_inv_def)
  then have "NodeAppShutdown \<notin> set (trace s)" using sys_inv_parts(5) [OF inv] by (auto simp: main_inv_def)
  then have "follows (protocol (length (before_completed s) + i) (length (after_completed s) + j)) (trace s)" for i j
    using inv da by (auto simp: sys_inv_def elim!: follows_cong intro!: protocol_grow)
  note fol = this [of 1 0] this [of 0 1]
  have "before_inv (set (trace s)) (before_completed s @ [False]) (c_shutdown_requested s) (m_draining_before_interrupt s)
       (m_interrupt_requested s) (m_pending_participants s)"
    using sys_inv_parts(1) [OF inv] n c by (auto simp: before_inv_def nth_append less_Suc_eq)
  moreover have "after_inv (set (trace s)) (after_completed s @ [False]) (m_draining_after_interrupt s)
      (m_shutdown_requested s) (m_pending_participants s)"
    using sys_inv_parts(3) [OF inv] da sh by (auto simp: after_inv_def nth_append less_Suc_eq)
  ultimately show ?thesis using inv fol by (simp add: sys_inv_def addParticipant_def)
qed

lemma sys_step_inv:
  assumes inv: "sys_inv s" and st: "sys_step ev s = Some s'"
  shows "sys_inv s'"
proof -
  have g: "init_alive s \<or> worker_event ev" and st: "sys_event_step ev s = Some s'"
    using st by (auto simp: sys_step_def split: if_splits)
  show ?thesis
  proof (cases ev)
    case (InitMain outcome)
    with inv st show ?thesis by (auto simp: init_main_inv split: list.splits init_task.splits if_splits)
  next
    case (InitRest rb throws ibd rq)
    with inv st show ?thesis by (auto simp: init_rest_inv split: option.splits)
  next
    case (ShutdownWork throws)
    with inv st show ?thesis by (auto simp: shutdown_work_inv split: list.splits init_task.splits)
  next
    case RetireWork
    with inv st show ?thesis by (auto simp: retire_work_inv split: list.splits init_task.splits)
  next
    case (InterruptWork throws)
    with inv st show ?thesis by (auto simp: interrupt_work_inv split: list.splits)
  next
    case InitCompletion
    with inv st show ?thesis by (auto simp: init_completion_inv split: list.splits)
  next
    case (InterruptCompletion sync)
    with inv g st show ?thesis by (auto simp: interrupt_completion_inv split: list.splits)
  next
    case InitDrained
    with st finishShutdown_inv [OF drain_chan_inv(1) [OF inv]] show ?thesis by (auto split: if_splits)
  next
    case InterruptDrained
    with st finishShutdown_inv [OF drain_chan_inv(2) [OF inv]] show ?thesis by (auto split: if_splits)
  qed (use inv g st in \<open>auto simp: addParticipant_inv init_initialize_inv requestShutdown_inv participant_signal_inv
        all_drained_inv init_destroy_inv split: if_splits\<close>)
qed

lemma sys_run_inv: "sys_run evs s = Some s' \<Longrightarrow> sys_inv s \<Longrightarrow> sys_inv s'"
proof (induction evs arbitrary: s)
  case (Cons ev evs)
  then obtain s1 where "sys_step ev s = Some s1" "sys_run evs s1 = Some s'" by (auto simp: bind_eq_Some_conv)
  with Cons sys_step_inv show ?case by blast
qed simp

section \<open>Progress\<close>

text \<open>Nothing gets lost on the way to \<open>finished\<close> as long as nothing throws.\<close>

definition request_live :: "bool \<Rightarrow> bool \<Rightarrow> bool \<Rightarrow> bool \<Rightarrow> bool list \<Rightarrow> bool" where
  "request_live requested runaway interrupt draining completed \<longleftrightarrow>
     (requested \<and> \<not> runaway \<and> \<not> interrupt \<longrightarrow> draining \<and> False \<in> set completed)"

definition interrupt_live :: "obs set \<Rightarrow> bool \<Rightarrow> (unit, bool) chan \<Rightarrow> bool \<Rightarrow> bool \<Rightarrow> bool \<Rightarrow> bool" where
  "interrupt_live X interrupt ch draining runaway alive \<longleftrightarrow>
     (interrupt \<and> alive \<and> \<not> runaway \<and> NodeStartShutdown \<in> X \<and> ch_done ch = [] \<longrightarrow> draining)"

definition after_live :: "bool \<Rightarrow> bool \<Rightarrow> bool list \<Rightarrow> bool \<Rightarrow> bool" where
  "after_live draining runaway completed shutting \<longleftrightarrow> (draining \<and> \<not> runaway \<and> False \<notin> set completed \<longrightarrow> shutting)"

definition shutdown_live :: "bool \<Rightarrow> bool \<Rightarrow> bool \<Rightarrow> bool \<Rightarrow> (init_task, init_result) chan \<Rightarrow> bool \<Rightarrow> bool" where
  "shutdown_live shutting threw runaway alive ch complete \<longleftrightarrow>
     (shutting \<and> \<not> threw \<and> \<not> runaway \<and> alive \<longrightarrow>
        ShutdownTask \<in> set (ch_tasks ch) \<or> ShutdownDone True \<in> set (ch_done ch) \<or> ShutdownFailed \<in> set (ch_done ch) \<or> complete) \<and>
     (threw \<and> alive \<and> \<not> runaway \<longrightarrow> InitFailed \<in> set (ch_done ch))"

definition finish_live ::
    "bool \<Rightarrow> bool \<Rightarrow> bool \<Rightarrow> (init_task, init_result) chan \<Rightarrow> (unit, bool) chan \<Rightarrow> bool \<Rightarrow> bool" where
  "finish_live alive complete runaway ich nch emitted \<longleftrightarrow>
     (complete \<longrightarrow> ch_stopped ich \<and> ch_stopped nch) \<and> (ch_drained ich \<longrightarrow> ch_stopped ich) \<and> (ch_drained nch \<longrightarrow> ch_stopped nch) \<and>
     (complete \<and> alive \<and> \<not> runaway \<and> ch_drained ich \<and> ch_drained nch \<longrightarrow> emitted)"

definition begin_live :: "obs set \<Rightarrow> bool \<Rightarrow> bool \<Rightarrow> nat \<Rightarrow> nat \<Rightarrow> bool" where
  "begin_live X requested draining nb na \<longleftrightarrow>
     (requested \<longrightarrow> (\<forall>k < nb. Begin True k \<in> X)) \<and> (draining \<longrightarrow> (\<forall>k < na. Begin False k \<in> X))"

text \<open>All but the last part also hold inside the loops over the participants.\<close>

definition flow_live :: "shutdown_sys \<Rightarrow> bool" where
  "flow_live s \<longleftrightarrow>
     request_live (c_shutdown_requested s) (m_runaway_exception s) (m_interrupt_requested s)
       (m_draining_before_interrupt s) (before_completed s) \<and>
     interrupt_live (set (trace s)) (m_interrupt_requested s) (interrupt_chan s) (m_draining_after_interrupt s)
       (m_runaway_exception s) (init_alive s) \<and>
     after_live (m_draining_after_interrupt s) (m_runaway_exception s) (after_completed s) (m_shutdown_requested s) \<and>
     shutdown_live (m_shutdown_requested s) (initialization_threw s) (m_runaway_exception s) (init_alive s) (init_chan s)
       (m_app_shutdown_complete s) \<and>
     finish_live (init_alive s) (m_app_shutdown_complete s) (m_runaway_exception s) (init_chan s) (interrupt_chan s)
       (m_shutdown_result_emitted s)"

definition sys_live :: "shutdown_sys \<Rightarrow> bool" where
  "sys_live s \<longleftrightarrow> flow_live s \<and>
     begin_live (set (trace s)) (c_shutdown_requested s) (m_draining_after_interrupt s)
       (length (before_completed s)) (length (after_completed s))"

lemmas live_defs = request_live_def interrupt_live_def after_live_def shutdown_live_def finish_live_def

lemma interrupt_live_insert [simp]: "x \<noteq> NodeStartShutdown \<Longrightarrow> interrupt_live (insert x X) = interrupt_live X"
  by (intro ext) (auto simp: interrupt_live_def)

lemma observe_flow [simp]: "x \<noteq> NodeStartShutdown \<Longrightarrow> flow_live (observe x s) = flow_live s"
  by (simp add: flow_live_def observe_def)

lemma new_sys_live: "sys_live (new_sys factory nb na)"
  by (simp add: sys_live_def flow_live_def live_defs begin_live_def new_sys_def new_chan_def)

text \<open>Submitting a task hides nothing.\<close>

lemma submit_live:
  "shutdown_live a b c d ch e \<Longrightarrow> shutdown_live a b c d (ch_submit t ch) e"
  "finish_live a b c (ch_submit t ch) nch e = finish_live a b c ch nch e"
  "finish_live a b c ch (ch_submit u nch) e = finish_live a b c ch nch e"
  by (auto simp: shutdown_live_def finish_live_def ch_submit_def)

lemma init_initialize_live: "flow_live s \<Longrightarrow> flow_live (init_initialize s)"
  by (auto simp: flow_live_def init_initialize_def submit_live)

lemma init_interrupt_live:
  assumes inv: "sys_inv s" and alive: "init_alive s"
    and l: "flow_live (s\<lparr>m_draining_before_interrupt := True, before_completed := [False]\<rparr>)"
  shows "flow_live (init_interrupt s)"
proof -
  have "\<not> m_interrupt_requested s \<Longrightarrow> NodeStartShutdown \<notin> set (trace s) \<and> \<not> m_draining_after_interrupt s"
    using sys_inv_parts(2) [OF inv] by (auto simp: interrupt_inv_def)
  with l alive show ?thesis
    by (simp add: flow_live_def init_interrupt_def ch_submit_def) (auto simp: live_defs)
qed

lemma init_shutdown_live:
  assumes inv: "sys_inv s" and alive: "init_alive s" and l: "flow_live (s\<lparr>after_completed := [False]\<rparr>)"
  shows "flow_live (init_shutdown s)"
proof -
  have "\<not> m_shutdown_requested s \<Longrightarrow> \<not> m_app_shutdown_complete s"
    using sys_inv_parts(5,6) [OF inv] by (auto simp: main_inv_def result_inv_def)
  then have "\<not> m_shutdown_requested s \<Longrightarrow> \<not> ch_stopped (init_chan s)"
    using sys_inv_parts(4) [OF inv] alive by (auto simp: tasks_inv_def)
  with l alive show ?thesis
    by (simp add: flow_live_def init_shutdown_def ch_submit_def) (auto simp: live_defs)
qed

lemma participant_signal_live:
  assumes inv: "sys_inv s" and alive: "init_alive s" and l: "flow_live s"
  shows "flow_live (participant_signal b k s)"
proof (cases b)
  case True
  show ?thesis
  proof (cases "k < length (before_completed s) \<and> m_draining_before_interrupt s \<and> \<not> before_completed s ! k")
    case a: True
    let ?s1 = "(observe (PartDone True k) (s\<lparr>before_completed := (before_completed s)[k := True]\<rparr>))
      \<lparr>m_pending_participants := m_pending_participants s - 1\<rparr>"
    let ?s2 = "?s1\<lparr>m_draining_before_interrupt := False\<rparr>"
    have s1: "sys_inv ?s1" using participant_done_inv [OF inv] a by blast
    have eq: "participant_signal b k s = (if m_pending_participants s - 1 \<noteq> 0 then ?s1 else init_interrupt ?s2)"
      using a True by (simp add: participant_signal_def participantFinished_def observe_def Let_def)
    have s2: "sys_inv ?s2" using s1 by (simp add: sys_inv_def observe_def) (auto simp: before_inv_def)
    have "m_pending_participants s - 1 = count_list ((before_completed s)[k := True]) False"
      using s1 a by (simp add: sys_inv_def before_inv_def observe_def)
    then have "m_pending_participants s - 1 \<noteq> 0 \<Longrightarrow> False \<in> set ((before_completed s)[k := True])"
      by (metis count_notin)
    then have "m_pending_participants s - 1 \<noteq> 0 \<Longrightarrow> flow_live ?s1"
      using l a by (simp add: flow_live_def observe_def) (auto simp: request_live_def)
    moreover have "flow_live (?s2\<lparr>m_draining_before_interrupt := True, before_completed := [False]\<rparr>)"
      using l by (simp add: flow_live_def observe_def) (auto simp: request_live_def)
    then have "flow_live (init_interrupt ?s2)" using init_interrupt_live [OF s2] alive by (simp add: observe_def)
    ultimately show ?thesis unfolding eq by (auto simp only: split: if_split)
  qed (use True l in \<open>auto simp: participant_signal_def Let_def\<close>)
next
  case False
  show ?thesis
  proof (cases "k < length (after_completed s) \<and> m_draining_after_interrupt s \<and> \<not> after_completed s ! k")
    case a: True
    let ?s1 = "(observe (PartDone False k) (s\<lparr>after_completed := (after_completed s)[k := True]\<rparr>))
      \<lparr>m_pending_participants := m_pending_participants s - 1\<rparr>"
    have s1: "sys_inv ?s1" using participant_done_after_inv [OF inv] a by blast
    have eq: "participant_signal b k s = (if m_pending_participants s - 1 \<noteq> 0 then ?s1 else init_shutdown ?s1)"
      using a False by (simp add: participant_signal_def participantFinished_def observe_def Let_def)
    have "m_pending_participants s - 1 = count_list ((after_completed s)[k := True]) False"
      using s1 a by (simp add: sys_inv_def after_inv_def observe_def)
    then have "m_pending_participants s - 1 \<noteq> 0 \<Longrightarrow> False \<in> set ((after_completed s)[k := True])"
      by (metis count_notin)
    then have "m_pending_participants s - 1 \<noteq> 0 \<Longrightarrow> flow_live ?s1"
      using l by (simp add: flow_live_def observe_def) (auto simp: after_live_def)
    moreover have "flow_live (?s1\<lparr>after_completed := [False]\<rparr>)"
      using l by (simp add: flow_live_def observe_def) (auto simp: after_live_def)
    then have "flow_live (init_shutdown ?s1)" using init_shutdown_live [OF s1] alive by (simp add: observe_def)
    ultimately show ?thesis unfolding eq by (auto simp only: split: if_split)
  qed (use False l in \<open>auto simp: participant_signal_def Let_def\<close>)
qed

lemma participant_signals_live:
  "sys_inv s \<Longrightarrow> init_alive s \<Longrightarrow> flow_live s \<Longrightarrow> flow_live (participant_signals ps s)"
proof (induction ps arbitrary: s)
  case (Cons p ps)
  let ?s1 = "participant_signal (fst p) (snd p) s"
  have "sys_inv ?s1" "flow_live ?s1" using Cons.prems participant_signal_inv participant_signal_live by blast+
  moreover have "init_alive ?s1" using Cons.prems participant_signal_phase [of s] by (simp add: same_phase_def)
  ultimately show ?case using Cons.IH [of ?s1] by (simp add: participant_signals_def)
qed (simp add: participant_signals_def)

lemma begin_loop_live:
  assumes "sys_inv s" "init_alive s" "\<forall>k. Begin b k \<notin> set (trace s)" "flow_live s"
    and "if b then c_shutdown_requested s else m_draining_after_interrupt s"
  shows "flow_live (begin_loop b n sync s)"
proof (induction n)
  case 0
  with assms show ?case by (simp add: begin_loop_def)
next
  case (Suc n)
  let ?s1 = "begin_loop b n sync s" and ?s2 = "observe (Begin b n) (begin_loop b n sync s)"
  note l = begin_loop_inv [OF assms(1-3,5), of n sync]
  have "Begin b n \<notin> set (trace ?s1)" using l by blast
  then have "sys_inv ?s2" using l begin_inv_step by blast
  moreover have "init_alive ?s2" "flow_live ?s2" using l Suc by (simp_all) (simp add: observe_def)
  ultimately have "flow_live (participant_signals (sync n) ?s2)" by (rule participant_signals_live)
  then show ?case by (simp add: begin_loop_def)
qed

text \<open>The signals inside a loop do not unsay what has been observed, and leave the phase alone.\<close>

lemma begin_loop_phase:
  assumes "sys_inv s" "init_alive s" "\<forall>k. Begin b k \<notin> set (trace s)"
    and "if b then c_shutdown_requested s else m_draining_after_interrupt s"
  shows "c_shutdown_requested (begin_loop b n sync s) = c_shutdown_requested s \<and>
     m_draining_after_interrupt (begin_loop b n sync s) = m_draining_after_interrupt s \<and>
     length (before_completed (begin_loop b n sync s)) = length (before_completed s) \<and>
     length (after_completed (begin_loop b n sync s)) = length (after_completed s) \<and>
     (\<forall>k. Begin (\<not> b) k \<in> set (trace (begin_loop b n sync s)) \<longleftrightarrow> Begin (\<not> b) k \<in> set (trace s))"
proof (induction n)
  case (Suc n)
  let ?s1 = "begin_loop b n sync s" and ?s2 = "observe (Begin b n) (begin_loop b n sync s)"
  note l = begin_loop_inv [OF assms, of n sync]
  have "Begin b n \<notin> set (trace ?s1)" using l by blast
  then have "sys_inv ?s2" using l begin_inv_step by blast
  moreover have "init_alive ?s2" using l by (simp add: observe_def)
  ultimately have "same_phase ?s2 (participant_signals (sync n) ?s2)" using participant_signals_inv by blast
  with Suc show ?case by (simp add: begin_loop_def same_phase_def observe_def)
qed (simp add: begin_loop_def)

lemma requestShutdown_live:
  assumes inv: "sys_inv s" and alive: "init_alive s" and live: "sys_live s"
  shows "sys_live (requestShutdown sync s)"
proof (cases "c_shutdown_requested s")
  case False
  let ?n = "length (before_completed s)"
  let ?s1 = "(observe SigShutdownStarted (s\<lparr>c_shutdown_requested := True\<rparr>))\<lparr>m_pending_participants := ?n\<rparr>"
  let ?s2 = "?s1\<lparr>m_draining_before_interrupt := True\<rparr>"
  have b: "\<forall>k. Begin True k \<notin> set (trace s)" using inv False by (simp add: sys_inv_def begin_inv_def)
  have "\<not> m_interrupt_requested s" "True \<notin> set (before_completed s)"
    using sys_inv_parts(1) [OF inv] False by (simp_all add: before_inv_def)
  then have no: "\<not> m_draining_after_interrupt s" using sys_inv_parts(2) [OF inv] by (auto simp: interrupt_inv_def)
  have s1: "sys_inv ?s1" and s2: "sys_inv ?s2" using requestShutdown_states [OF inv False] by auto
  have f: "flow_live (s1\<lparr>m_draining_before_interrupt := True, before_completed := [False]\<rparr>)" if "s1 = ?s1" for s1
    using live unfolding that by (simp add: sys_live_def flow_live_def observe_def) (auto simp: request_live_def)
  show ?thesis
  proof (cases "?n = 0")
    case True
    have "flow_live (init_interrupt ?s1)" using init_interrupt_live [OF s1] f alive by (simp add: observe_def)
    with True False no show ?thesis
      by (simp add: requestShutdown_def sys_live_def Let_def) (simp add: init_interrupt_def observe_def begin_live_def)
  next
    case n: False
    then have "False \<in> set (before_completed s)"
      using \<open>True \<notin> set (before_completed s)\<close> by (cases "before_completed s") auto
    then have "flow_live ?s2" using live
      by (simp add: sys_live_def flow_live_def observe_def) (auto simp: request_live_def)
    moreover have pre: "init_alive ?s2" "\<forall>k. Begin True k \<notin> set (trace ?s2)" "if True then c_shutdown_requested ?s2 else m_draining_after_interrupt ?s2"
      using alive b by (simp_all add: observe_def)
    ultimately have "flow_live (begin_loop True ?n sync ?s2)" using begin_loop_live [OF s2] by blast
    moreover have "begin_live (set (trace (begin_loop True ?n sync ?s2))) (c_shutdown_requested (begin_loop True ?n sync ?s2))
        (m_draining_after_interrupt (begin_loop True ?n sync ?s2)) (length (before_completed (begin_loop True ?n sync ?s2)))
        (length (after_completed (begin_loop True ?n sync ?s2)))"
      using begin_loop_phase [OF s2 pre, of ?n sync] begin_loop_inv [OF s2 pre, of ?n sync] no
      by (simp add: begin_live_def observe_def)
    ultimately show ?thesis using n False by (simp add: requestShutdown_def sys_live_def Let_def)
  qed
qed (simp add: requestShutdown_def live)

lemma handleRunaway_live: "sys_live s \<Longrightarrow> sys_live (handleRunawayException s)"
  by (simp add: sys_live_def flow_live_def handleRunawayException_def observe_def) (simp add: live_defs begin_live_def)

lemma interrupt_completion_live:
  assumes inv: "sys_inv s" and alive: "init_alive s" and live: "sys_live s" and q: "ch_done (interrupt_chan s) = r # rs"
  shows "sys_live (interrupt_completion sync r (s\<lparr>interrupt_chan := ch_deliver (interrupt_chan s)\<rparr>))"
proof -
  let ?s0 = "s\<lparr>interrupt_chan := ch_deliver (interrupt_chan s)\<rparr>"
  let ?s1 = "after_state ?s0"
  note d = interrupt_deliver [OF inv q]
  have fin: "finish_live a b c ich (ch_deliver (interrupt_chan s)) e = finish_live a b c ich (interrupt_chan s) e"
    for a b c ich e by (simp add: finish_live_def ch_deliver_def)
  have run: "sys_live (handleRunawayException ?s0)"
    using live by (simp add: sys_live_def flow_live_def handleRunawayException_def observe_def fin)
      (simp add: live_defs begin_live_def)
  have away: "m_runaway_exception s \<Longrightarrow> sys_live ?s0"
    using live by (simp add: sys_live_def flow_live_def fin) (simp add: interrupt_live_def)
  have f: "flow_live (?s1\<lparr>after_completed := [False]\<rparr>)"
    using live by (simp add: sys_live_def flow_live_def after_state_def observe_def fin)
      (simp add: interrupt_live_def after_live_def)
  have pre: "init_alive ?s1" "\<forall>k. Begin False k \<notin> set (trace ?s1)"
    "if False then c_shutdown_requested ?s1 else m_draining_after_interrupt ?s1"
    using alive d(7) by (simp_all add: after_state_def observe_def)
  have empty: "sys_live (init_shutdown ?s1)" if "after_completed s = []"
  proof -
    have "flow_live (init_shutdown ?s1)" by (rule init_shutdown_live [OF d(2) pre(1) f])
    then show ?thesis using live that
      by (simp add: sys_live_def) (simp add: init_shutdown_def after_state_def observe_def begin_live_def)
  qed
  have "after_completed s \<noteq> [] \<Longrightarrow> False \<in> set (after_completed s)"
    using d(5) by (cases "after_completed s") auto
  then have "after_completed s \<noteq> [] \<Longrightarrow> flow_live ?s1"
    using live by (simp add: sys_live_def flow_live_def after_state_def observe_def fin)
      (simp add: interrupt_live_def after_live_def)
  then have "after_completed s \<noteq> [] \<Longrightarrow> flow_live (begin_loop False (length (after_completed s)) sync ?s1)"
    using begin_loop_live [OF d(2) pre(1,2) _ pre(3)] by blast
  moreover have "begin_live (set (trace (begin_loop False n sync ?s1))) (c_shutdown_requested (begin_loop False n sync ?s1))
      (m_draining_after_interrupt (begin_loop False n sync ?s1)) (length (before_completed (begin_loop False n sync ?s1)))
      (length (after_completed (begin_loop False n sync ?s1)))" if "n = length (after_completed s)" for n
    using begin_loop_phase [OF d(2) pre, of n sync] begin_loop_inv [OF d(2) pre, of n sync] live that
    by (simp add: sys_live_def begin_live_def after_state_def observe_def)
  ultimately show ?thesis using d(3) run away empty by (simp add: interrupt_completion_cases sys_live_def)
qed

text \<open>The worker's events.\<close>

lemma interrupt_work_live:
  assumes inv: "sys_inv s" and live: "sys_live s" and q: "ch_tasks (interrupt_chan s) = t # ts"
  shows "sys_live (interrupt_work throws s)"
proof -
  have "m_interrupt_requested s" "\<not> m_draining_after_interrupt s" "NodeStartShutdown \<notin> set (trace s)"
    using sys_inv_parts(2) [OF inv] q by (auto simp: interrupt_inv_def)
  moreover from this have "\<not> m_shutdown_requested s" using sys_inv_parts(3) [OF inv] by (simp add: after_inv_def)
  then have "\<not> m_app_shutdown_complete s" using sys_inv_parts(5,6) [OF inv] by (auto simp: main_inv_def result_inv_def)
  then have "init_alive s \<Longrightarrow> \<not> ch_stopped (interrupt_chan s)" using sys_inv_parts(2) [OF inv] by (auto simp: interrupt_inv_def)
  ultimately show ?thesis using live
    by (simp add: sys_live_def flow_live_def interrupt_work_def observe_def ch_run_def)
      (auto simp: interrupt_live_def finish_live_def begin_live_def)
qed

lemma run_finish [simp]: "finish_live a b c (ch_run x ch) nch e = finish_live a b c ch nch e"
  by (simp add: finish_live_def ch_run_def)

lemma begin_live_insert: "begin_live X a b m n \<Longrightarrow> begin_live (insert x X) a b m n"
  by (auto simp: begin_live_def)

lemma init_not_stopped:
  assumes inv: "sys_inv s" and q: "InitTask \<in> set (ch_tasks (init_chan s)) \<or> ShutdownTask \<in> set (ch_tasks (init_chan s))"
    and "init_alive s"
  shows "\<not> ch_stopped (init_chan s)"
  using sys_inv_parts(4,5,6) [OF inv] assms(2,3) by (auto simp: tasks_inv_def main_inv_def result_inv_def)

lemma init_main_live:
  assumes inv: "sys_inv s" and live: "sys_live s" and q: "ch_tasks (init_chan s) = InitTask # ts"
  shows "sys_live (init_main outcome s)"
proof (cases outcome)
  case (Some success)
  with live show ?thesis
    by (simp add: init_main_def sys_live_def flow_live_def observe_def begin_live_insert)
next
  case None
  have "init_alive s \<Longrightarrow> \<not> ch_stopped (init_chan s)" using init_not_stopped [OF inv] q by simp
  then have "shutdown_live (m_shutdown_requested s) True (m_runaway_exception s) (init_alive s)
      (ch_run InitFailed (init_chan s)) (m_app_shutdown_complete s)"
    by (auto simp: shutdown_live_def ch_run_def)
  with None live show ?thesis
    by (simp add: init_main_def sys_live_def flow_live_def observe_def begin_live_insert)
qed

lemma init_rest_live:
  assumes inv: "sys_inv s" and live: "sys_live s" and p: "init_progress s = Some success"
  shows "sys_live (init_rest success rb throws ibd rq s)"
proof -
  have "InitTask \<in> set (ch_tasks (init_chan s))" using sys_inv_parts(4) [OF inv] p by (simp add: tasks_inv_def)
  then obtain ts where ts: "ch_tasks (init_chan s) = InitTask # ts" using init_head [OF inv] by metis
  have run: "init_alive s \<Longrightarrow> \<not> ch_stopped (init_chan s)" using init_not_stopped [OF inv] ts by simp
  have nt: "\<not> initialization_threw s" using sys_inv_parts(5) [OF inv] ts by (simp add: main_inv_def)
  have "shutdown_live (m_shutdown_requested s) True (m_runaway_exception s) (init_alive s)
      (ch_run InitFailed (init_chan s)) (m_app_shutdown_complete s)"
    using run by (auto simp: shutdown_live_def ch_run_def)
  moreover have "shutdown_live (m_shutdown_requested s) (initialization_threw s) (m_runaway_exception s) (init_alive s)
      (ch_run (InitResult x y z) (init_chan s)) (m_app_shutdown_complete s)" for x y z
    using live ts nt by (auto simp: sys_live_def flow_live_def shutdown_live_def ch_run_def)
  ultimately show ?thesis using live
    by (simp add: init_rest_def init_failed_def sys_live_def flow_live_def observe_def begin_live_insert Let_def)
qed

lemma retireSubscription_live: "sys_live s \<Longrightarrow> sys_live (retireSubscription s)"
  by (simp add: retireSubscription_def sys_live_def flow_live_def observe_def begin_live_insert)

lemma shutdown_work_live:
  assumes inv: "sys_inv s" and live: "sys_live s" and q: "ch_tasks (init_chan s) = ShutdownTask # ts"
  shows "sys_live (shutdown_work throws s)"
proof (cases "initialization_threw s")
  case True
  have "shutdown_live (m_shutdown_requested s) True (m_runaway_exception s) (init_alive s)
      (ch_run (ShutdownDone False) (init_chan s)) (m_app_shutdown_complete s)"
    using live True by (auto simp: sys_live_def flow_live_def shutdown_live_def ch_run_def)
  with True live show ?thesis by (simp add: shutdown_work_def sys_live_def flow_live_def)
next
  case False
  have "init_alive s \<Longrightarrow> \<not> ch_stopped (init_chan s)" using init_not_stopped [OF inv] q by simp
  then have "shutdown_live a (initialization_threw s) (m_runaway_exception s) (init_alive s)
      (ch_run (if throws = NoThrow then ShutdownDone True else ShutdownFailed) (init_chan s)) (m_app_shutdown_complete s)" for a
    using False by (auto simp: shutdown_live_def ch_run_def)
  moreover have "init_alive s \<Longrightarrow> \<not> ch_stopped (init_chan s)" using init_not_stopped [OF inv] q by simp
  then have "shutdown_live (m_shutdown_requested s) (initialization_threw s) (m_runaway_exception s) (init_alive s)
      (ch_run ShutdownFailed (init_chan s)) (m_app_shutdown_complete s)"
    using False by (auto simp: shutdown_live_def ch_run_def)
  then have "sys_live (s\<lparr>init_chan := ch_run ShutdownFailed (init_chan s)\<rparr>)" using live
    by (simp add: sys_live_def flow_live_def)
  moreover have "sys_live (observe NodeAppShutdown (retireSubscription s))"
    using retireSubscription_live [OF live] by (simp add: sys_live_def) (simp add: observe_def begin_live_insert)
  moreover have "initialization_threw (retireSubscription s) = initialization_threw s"
    "m_runaway_exception (retireSubscription s) = m_runaway_exception s" "init_alive (retireSubscription s) = init_alive s"
    "m_app_shutdown_complete (retireSubscription s) = m_app_shutdown_complete s"
    by (simp_all add: retireSubscription_def observe_def)
  ultimately show ?thesis using False
    by (cases "throws = ThrowBefore") (simp_all add: shutdown_work_def sys_live_def flow_live_def observe_def Let_def retire_fields)
qed

lemma retire_work_live:
  assumes inv: "sys_inv s" and live: "sys_live s" and q: "ch_tasks (init_chan s) = RetireTask # ts"
  shows "sys_live (retire_work s)"
proof -
  have "\<not> init_alive s" using sys_inv_parts(4) [OF inv] q by (simp add: tasks_inv_def)
  then have "shutdown_live a b c (init_alive s) ch d" for a b c ch d by (simp add: shutdown_live_def)
  with retireSubscription_live [OF live] show ?thesis
    by (simp add: retire_work_def sys_live_def flow_live_def retire_fields)
qed

text \<open>The GUI thread's events.\<close>

lemma finishShutdown_live:
  assumes "sys_live (s\<lparr>m_shutdown_result_emitted := True\<rparr>)"
  shows "sys_live (finishShutdown s)"
  using assms by (simp add: finishShutdown_def sys_live_def flow_live_def observe_def begin_live_insert)
    (auto simp: finish_live_def)

lemma drain_live:
  assumes live: "sys_live s"
  shows "can_drain (init_chan s) \<Longrightarrow> sys_live (s\<lparr>init_chan := ch_drain (init_chan s), m_shutdown_result_emitted := True\<rparr>)"
    "can_drain (interrupt_chan s) \<Longrightarrow> sys_live (s\<lparr>interrupt_chan := ch_drain (interrupt_chan s), m_shutdown_result_emitted := True\<rparr>)"
proof -
  have "shutdown_live a b c d (ch_drain ch) e = shutdown_live a b c d ch e"
    "interrupt_live X i (ch_drain ch') g h k = interrupt_live X i ch' g h k" for a b c d ch e X i ch' g h k
    by (simp_all add: shutdown_live_def interrupt_live_def ch_drain_def)
  note same = this
  have fin: "finish_live (init_alive s) (m_app_shutdown_complete s) (m_runaway_exception s) (init_chan s) (interrupt_chan s)
       (m_shutdown_result_emitted s)" using live by (simp add: sys_live_def flow_live_def)
  show "can_drain (init_chan s) \<Longrightarrow> sys_live (s\<lparr>init_chan := ch_drain (init_chan s), m_shutdown_result_emitted := True\<rparr>)"
    using live fin by (simp add: sys_live_def flow_live_def same) (simp add: finish_live_def ch_drain_def can_drain_def)
  show "can_drain (interrupt_chan s) \<Longrightarrow> sys_live (s\<lparr>interrupt_chan := ch_drain (interrupt_chan s), m_shutdown_result_emitted := True\<rparr>)"
    using live fin by (simp add: sys_live_def flow_live_def same) (simp add: finish_live_def ch_drain_def can_drain_def)
qed

lemma observe_live: "x \<noteq> NodeStartShutdown \<Longrightarrow> sys_live s \<Longrightarrow> sys_live (observe x s)"
  by (simp add: sys_live_def) (simp add: observe_def begin_live_insert)

lemma app_complete_live:
  assumes inv: "sys_inv s" and live: "sys_live s" and alive: "init_alive s" and app: "NodeAppShutdown \<in> set (trace s)"
  shows "sys_live (s\<lparr>m_app_shutdown_complete := True, init_chan := ch_shutdown (ch_deliver (init_chan s)),
     interrupt_chan := ch_shutdown (interrupt_chan s)\<rparr>)"
proof -
  have stop: "ch_stopped (init_chan s) \<longrightarrow> m_app_shutdown_complete s"
    using sys_inv_parts(4) [OF inv] alive by (auto simp: tasks_inv_def)
  have "m_draining_after_interrupt s" "\<not> initialization_threw s"
    using sys_inv_parts(3,5) [OF inv] app by (auto simp: after_inv_def main_inv_def)
  then have "interrupt_live (set (trace s)) (m_interrupt_requested s) (ch_shutdown (interrupt_chan s)) (m_draining_after_interrupt s)
      (m_runaway_exception s) (init_alive s)"
    and "shutdown_live (m_shutdown_requested s) (initialization_threw s) (m_runaway_exception s) (init_alive s)
      (ch_shutdown (ch_deliver (init_chan s))) True"
    by (simp_all add: interrupt_live_def shutdown_live_def)
  moreover have "finish_live (init_alive s) True (m_runaway_exception s) (ch_shutdown (ch_deliver (init_chan s)))
      (ch_shutdown (interrupt_chan s)) (m_shutdown_result_emitted s)"
    using live stop by (auto simp: sys_live_def flow_live_def finish_live_def ch_shutdown_def ch_deliver_def)
  ultimately show ?thesis using live by (simp add: sys_live_def flow_live_def)
qed

lemma init_completion_live:
  assumes inv: "sys_inv s" and live: "sys_live s" and alive: "init_alive s" and q: "ch_done (init_chan s) = r # rs"
  shows "sys_live (init_completion r (s\<lparr>init_chan := ch_deliver (init_chan s)\<rparr>))"
proof -
  let ?s0 = "s\<lparr>init_chan := ch_deliver (init_chan s)\<rparr>"
  have fin: "finish_live a b c (ch_deliver (init_chan s)) nch e = finish_live a b c (init_chan s) nch e" for a b c nch e
    by (simp add: finish_live_def ch_deliver_def)
  have sl: "shutdown_live (m_shutdown_requested s) (initialization_threw s) (m_runaway_exception s) (init_alive s)
       (init_chan s) (m_app_shutdown_complete s)" using live by (simp add: sys_live_def flow_live_def)
  have keep: "sys_live ?s0" if "r \<notin> {ShutdownDone True, ShutdownFailed, InitFailed}"
  proof -
    have "shutdown_live (m_shutdown_requested s) (initialization_threw s) (m_runaway_exception s) (init_alive s)
        (ch_deliver (init_chan s)) (m_app_shutdown_complete s)"
      using sl q that by (auto simp: shutdown_live_def ch_deliver_def)
    with live show ?thesis by (simp add: sys_live_def flow_live_def fin)
  qed
  have away: "sys_live (handleRunawayException ?s0)"
    using live by (simp add: handleRunawayException_def sys_live_def flow_live_def observe_def fin)
      (simp add: live_defs begin_live_def)
  show ?thesis
  proof (cases r)
    case (ShutdownDone c)
    then have "c \<Longrightarrow> NodeAppShutdown \<in> set (trace s)"
      using sys_inv_parts(6) [OF inv] q by (auto simp: result_inv_def)
    with ShutdownDone keep app_complete_live [OF inv live alive] show ?thesis
      by (cases c) (simp_all add: init_completion_def)
  qed (use keep away observe_live in \<open>simp_all add: init_completion_def\<close>)
qed

lemma init_destroy_live:
  assumes inv: "sys_inv s" and live: "sys_live s"
  shows "sys_live (init_destroy s)"
  using live by (simp add: sys_live_def flow_live_def init_destroy_def)
    (auto simp: interrupt_live_def shutdown_live_def finish_live_def ch_shutdown_def ch_submit_def)

lemma addParticipant_live:
  assumes inv: "sys_inv s" and live: "sys_live s" and c: "\<not> c_shutdown_requested s"
  shows "sys_live (addParticipant b s)"
proof -
  have "\<not> m_interrupt_requested s" using sys_inv_parts(1) [OF inv] c by (simp add: before_inv_def)
  then have "\<not> m_draining_after_interrupt s" using sys_inv_parts(2) [OF inv] by (auto simp: interrupt_inv_def)
  with live c show ?thesis
    by (simp add: sys_live_def flow_live_def addParticipant_def) (simp add: request_live_def after_live_def begin_live_def)
qed

lemma sys_step_live:
  assumes inv: "sys_inv s" and live: "sys_live s" and st: "sys_step ev s = Some s'"
  shows "sys_live s'"
proof -
  have g: "init_alive s \<or> worker_event ev" and st: "sys_event_step ev s = Some s'"
    using st by (auto simp: sys_step_def split: if_splits)
  have flow: "flow_live s" using live by (simp add: sys_live_def)
  show ?thesis
  proof (cases ev)
    case Initialize
    then have "s' = init_initialize s" using st by simp
    with live init_initialize_live [OF flow] show ?thesis
      by (simp add: sys_live_def) (simp add: init_initialize_def)
  next
    case (ParticipantSignal b k)
    then have s': "s' = participant_signal b k s" and "init_alive s" using st g by auto
    with live participant_signal_live [OF inv _ flow] participant_signal_phase [of s b k] show ?thesis
      by (simp add: sys_live_def begin_live_def same_phase_def)
  next
    case (InitMain outcome)
    with inv live st show ?thesis by (auto simp: init_main_live split: list.splits init_task.splits if_splits)
  next
    case (InitRest rb throws ibd rq)
    with inv live st show ?thesis by (auto simp: init_rest_live split: option.splits)
  next
    case (ShutdownWork throws)
    with inv live st show ?thesis by (auto simp: shutdown_work_live split: list.splits init_task.splits)
  next
    case RetireWork
    with inv live st show ?thesis by (auto simp: retire_work_live split: list.splits init_task.splits)
  next
    case (InterruptWork throws)
    with inv live st show ?thesis by (auto simp: interrupt_work_live split: list.splits)
  next
    case InitCompletion
    with inv live g st show ?thesis by (auto simp: init_completion_live split: list.splits)
  next
    case (InterruptCompletion sync)
    with inv live g st show ?thesis by (auto simp: interrupt_completion_live split: list.splits)
  next
    case InitDrained
    with st drain_live(1) [OF live] finishShutdown_live show ?thesis by (auto split: if_splits)
  next
    case InterruptDrained
    with st drain_live(2) [OF live] finishShutdown_live show ?thesis by (auto split: if_splits)
  next
    case AllDrained
    then have "s' = observe SigFinished (s\<lparr>drain_all_requested := False\<rparr>)" using st by (auto split: if_splits)
    moreover have "sys_live (s\<lparr>drain_all_requested := False\<rparr>)" using live by (simp add: sys_live_def flow_live_def)
    ultimately show ?thesis using observe_live by simp
  qed (use inv live g st in \<open>auto simp: addParticipant_live requestShutdown_live init_destroy_live split: if_splits\<close>)
qed

lemma sys_run_live: "sys_run evs s = Some s' \<Longrightarrow> sys_inv s \<Longrightarrow> sys_live s \<Longrightarrow> sys_live s'"
proof (induction evs arbitrary: s)
  case (Cons ev evs)
  then obtain s1 where "sys_step ev s = Some s1" "sys_run evs s1 = Some s'" by (auto simp: bind_eq_Some_conv)
  with Cons sys_step_inv sys_step_live show ?case by blast
qed simp

section \<open>Termination\<close>

definition task_weight :: "init_task \<Rightarrow> nat" where
  "task_weight t = (if t = InitTask then 3 else 2)"

text \<open>
  How much the threads can still do by themselves: a task is run and its result delivered, an
  executor drains once, and the two submissions that completions can cause are paid for in advance.
\<close>

definition sys_weight :: "shutdown_sys \<Rightarrow> nat" where
  "sys_weight s =
     sum_list (map task_weight (ch_tasks (init_chan s))) + length (ch_done (init_chan s)) +
     2 * length (ch_tasks (interrupt_chan s)) + length (ch_done (interrupt_chan s)) +
     of_bool (init_progress s = None) + 2 * of_bool (\<not> m_interrupt_requested s) + 2 * of_bool (\<not> m_shutdown_requested s) +
     of_bool (\<not> ch_drained (init_chan s)) + of_bool (\<not> ch_drained (interrupt_chan s)) +
     of_bool (\<not> m_shutdown_result_emitted s) + of_bool (drain_all_requested s)"

lemma observe_weight [simp]: "sys_weight (observe x s) = sys_weight s"
  by (simp add: sys_weight_def observe_def)

lemma init_interrupt_weight: "sys_weight (init_interrupt s) \<le> sys_weight s"
  by (auto simp: sys_weight_def init_interrupt_def ch_submit_def)

lemma init_shutdown_weight: "sys_weight (init_shutdown s) \<le> sys_weight s"
  by (auto simp: sys_weight_def init_shutdown_def ch_submit_def task_weight_def)

lemma participant_update_weight:
  "sys_weight (s\<lparr>m_pending_participants := n\<rparr>) = sys_weight s"
  "sys_weight (s\<lparr>m_draining_before_interrupt := b\<rparr>) = sys_weight s"
  "sys_weight (s\<lparr>m_draining_after_interrupt := b\<rparr>) = sys_weight s"
  "sys_weight (s\<lparr>before_completed := xs\<rparr>) = sys_weight s"
  "sys_weight (s\<lparr>after_completed := xs\<rparr>) = sys_weight s"
  by (simp_all add: sys_weight_def)

lemma participant_signal_weight: "sys_weight (participant_signal b k s) \<le> sys_weight s"
proof -
  have "sys_weight (participantFinished b s) \<le> sys_weight s" for s
    using init_interrupt_weight [of "s\<lparr>m_pending_participants := 0, m_draining_before_interrupt := False\<rparr>"]
      init_shutdown_weight [of "s\<lparr>m_pending_participants := 0\<rparr>"]
    by (auto simp: participantFinished_def Let_def participant_update_weight)
  from this [of "observe (PartDone b k) (if b then s\<lparr>before_completed := (before_completed s)[k := True]\<rparr>
      else s\<lparr>after_completed := (after_completed s)[k := True]\<rparr>)"] show ?thesis
    by (auto simp: participant_signal_def Let_def participant_update_weight)
qed

lemma participant_signals_weight: "sys_weight (participant_signals ps s) \<le> sys_weight s"
  unfolding participant_signals_def
  by (induction ps arbitrary: s) (auto intro: order_trans participant_signal_weight)

lemma begin_loop_weight: "sys_weight (begin_loop b n sync s) \<le> sys_weight s"
proof (induction n)
  case (Suc n)
  have "sys_weight (begin_loop b (Suc n) sync s) \<le> sys_weight (observe (Begin b n) (begin_loop b n sync s))"
    unfolding begin_loop_def by (simp only: upt_Suc_append fold_append o_apply fold_simps zero_le participant_signals_weight)
  with Suc show ?case by simp
qed (simp add: begin_loop_def)

lemma interrupt_completion_weight: "sys_weight (interrupt_completion sync r s) \<le> sys_weight s"
proof -
  have "sys_weight (after_state s) = sys_weight s" by (simp add: after_state_def participant_update_weight)
  then have "sys_weight (init_shutdown (after_state s)) \<le> sys_weight s"
    "sys_weight (begin_loop False n sync (after_state s)) \<le> sys_weight s" for n
    using init_shutdown_weight [of "after_state s"] begin_loop_weight [of False n sync "after_state s"] by simp_all
  moreover have "sys_weight (handleRunawayException s) = sys_weight s"
    by (simp add: handleRunawayException_def) (simp add: sys_weight_def)
  ultimately show ?thesis by (simp add: interrupt_completion_cases)
qed

fun internal_sys :: "sys_event \<Rightarrow> bool" where
  "internal_sys (AddParticipant b) = False"
| "internal_sys Initialize = False"
| "internal_sys (RequestShutdown sync) = False"
| "internal_sys (ParticipantSignal b k) = False"
| "internal_sys Destroy = False"
| "internal_sys _ = True"

lemma init_completion_weight: "sys_weight (init_completion r s) \<le> sys_weight s"
  by (cases r) (auto simp: init_completion_def handleRunawayException_def,
      auto simp: sys_weight_def ch_shutdown_def)

lemma finishShutdown_weight: "sys_weight (finishShutdown s) \<le> sys_weight s"
  by (auto simp: finishShutdown_def) (auto simp: sys_weight_def observe_def)

lemma sys_step_weight:
  assumes inv: "sys_inv s" and i: "internal_sys ev" and st: "sys_step ev s = Some s'"
  shows "sys_weight s' < sys_weight s"
proof -
  have st: "sys_event_step ev s = Some s'" using st by (auto simp: sys_step_def split: if_splits)
  show ?thesis
  proof (cases ev)
    case (InitMain outcome)
    then obtain ts where "ch_tasks (init_chan s) = InitTask # ts" "init_progress s = None" "s' = init_main outcome s"
      using st by (auto split: list.splits init_task.splits if_splits)
    then show ?thesis
      by (cases outcome) (simp_all add: init_main_def sys_weight_def ch_run_def observe_def task_weight_def)
  next
    case (InitRest rb throws ibd rq)
    then obtain x where x: "init_progress s = Some x" and s': "s' = init_rest x rb throws ibd rq s"
      using st by (auto split: option.splits)
    then have "InitTask \<in> set (ch_tasks (init_chan s))" using sys_inv_parts(4) [OF inv] by (simp add: tasks_inv_def)
    then obtain ts where "ch_tasks (init_chan s) = InitTask # ts" using init_head [OF inv] by metis
    with x show ?thesis unfolding s'
      by (simp add: init_rest_def init_failed_def sys_weight_def ch_run_def observe_def task_weight_def Let_def)
  next
    case (ShutdownWork throws)
    then obtain ts where "ch_tasks (init_chan s) = ShutdownTask # ts" "s' = shutdown_work throws s"
      using st by (auto split: list.splits init_task.splits)
    then show ?thesis
      by (simp add: shutdown_work_def retireSubscription_def sys_weight_def ch_run_def observe_def task_weight_def Let_def)
  next
    case RetireWork
    then obtain ts where "ch_tasks (init_chan s) = RetireTask # ts" "s' = retire_work s"
      using st by (auto split: list.splits init_task.splits)
    then show ?thesis
      by (simp add: retire_work_def retireSubscription_def sys_weight_def ch_run_def observe_def task_weight_def)
  next
    case (InterruptWork throws)
    then obtain u us where "ch_tasks (interrupt_chan s) = u # us" "s' = interrupt_work throws s"
      using st by (auto split: list.splits)
    then show ?thesis by (simp add: interrupt_work_def sys_weight_def ch_run_def observe_def)
  next
    case InitCompletion
    then obtain r rs where q: "ch_done (init_chan s) = r # rs"
      and s': "s' = init_completion r (s\<lparr>init_chan := ch_deliver (init_chan s)\<rparr>)"
      using st by (auto split: list.splits)
    have "sys_weight (s\<lparr>init_chan := ch_deliver (init_chan s)\<rparr>) < sys_weight s"
      using q by (simp add: sys_weight_def ch_deliver_def)
    with init_completion_weight show ?thesis unfolding s' by (rule le_less_trans)
  next
    case (InterruptCompletion sync)
    then obtain r rs where q: "ch_done (interrupt_chan s) = r # rs"
      and s': "s' = interrupt_completion sync r (s\<lparr>interrupt_chan := ch_deliver (interrupt_chan s)\<rparr>)"
      using st by (auto split: list.splits)
    have "sys_weight (s\<lparr>interrupt_chan := ch_deliver (interrupt_chan s)\<rparr>) < sys_weight s"
      using q by (simp add: sys_weight_def ch_deliver_def)
    with interrupt_completion_weight show ?thesis unfolding s' by (rule le_less_trans)
  next
    case InitDrained
    then have "can_drain (init_chan s)" and s': "s' = finishShutdown (s\<lparr>init_chan := ch_drain (init_chan s)\<rparr>)"
      using st by (auto split: if_splits)
    then have "sys_weight (s\<lparr>init_chan := ch_drain (init_chan s)\<rparr>) < sys_weight s"
      by (simp add: sys_weight_def can_drain_def ch_drain_def)
    with finishShutdown_weight show ?thesis unfolding s' by (rule le_less_trans)
  next
    case InterruptDrained
    then have "can_drain (interrupt_chan s)" and s': "s' = finishShutdown (s\<lparr>interrupt_chan := ch_drain (interrupt_chan s)\<rparr>)"
      using st by (auto split: if_splits)
    then have "sys_weight (s\<lparr>interrupt_chan := ch_drain (interrupt_chan s)\<rparr>) < sys_weight s"
      by (simp add: sys_weight_def can_drain_def ch_drain_def)
    with finishShutdown_weight show ?thesis unfolding s' by (rule le_less_trans)
  next
    case AllDrained
    then have "drain_all_requested s" "s' = observe SigFinished (s\<lparr>drain_all_requested := False\<rparr>)"
      using st by (auto split: if_splits)
    then show ?thesis by (simp add: sys_weight_def observe_def)
  qed (use i in auto)
qed

lemma sys_run_weight:
  "sys_run evs s = Some s' \<Longrightarrow> sys_inv s \<Longrightarrow> list_all internal_sys evs \<Longrightarrow> length evs + sys_weight s' \<le> sys_weight s"
proof (induction evs arbitrary: s)
  case (Cons ev evs)
  then obtain s1 where 1: "sys_step ev s = Some s1" "sys_run evs s1 = Some s'" by (auto simp: bind_eq_Some_conv)
  have "sys_inv s1" using sys_step_inv Cons.prems(2) 1(1) by blast
  moreover have "sys_weight s1 < sys_weight s" using sys_step_weight [OF Cons.prems(2) _ 1(1)] Cons.prems(3) by simp
  ultimately show ?case using Cons.IH [OF 1(2)] Cons.prems(3) by simp
qed simp

section \<open>Where nothing moves any more\<close>

definition sys_stuck :: "shutdown_sys \<Rightarrow> bool" where
  "sys_stuck s \<longleftrightarrow> (\<forall>ev. internal_sys ev \<longrightarrow> sys_step ev s = None)"

lemma stuck_events:
  assumes "sys_stuck s" "init_alive s"
  shows "\<And>x. sys_event_step (InitMain x) s = None" "\<And>a b c d. sys_event_step (InitRest a b c d) s = None"
    "\<And>t. sys_event_step (ShutdownWork t) s = None" "sys_event_step RetireWork s = None"
    "\<And>t. sys_event_step (InterruptWork t) s = None" "sys_event_step InitCompletion s = None"
    "\<And>y. sys_event_step (InterruptCompletion y) s = None" "sys_event_step InitDrained s = None"
    "sys_event_step InterruptDrained s = None" "sys_event_step AllDrained s = None"
  using assms by (auto simp only: sys_stuck_def sys_step_def internal_sys.simps if_True simp_thms)

lemma stuck_channels:
  assumes "sys_stuck s" "init_alive s"
  shows "ch_tasks (init_chan s) = []" "ch_tasks (interrupt_chan s) = []" "ch_done (init_chan s) = []"
    "ch_done (interrupt_chan s) = []" "\<not> can_drain (init_chan s)" "\<not> can_drain (interrupt_chan s)"
    "\<not> drain_all_requested s"
proof -
  note e = stuck_events [OF assms]
  have p: "init_progress s = None" using e(2) [of False NoThrow False False] by (simp split: option.splits)
  show "ch_tasks (init_chan s) = []"
    using e(1) [of None] e(3) [of NoThrow] e(4) p by (auto split: list.splits init_task.splits if_splits)
  show "ch_tasks (interrupt_chan s) = []" using e(5) [of False] by (auto split: list.splits)
  show "ch_done (init_chan s) = []" using e(6) by (auto split: list.splits)
  show "ch_done (interrupt_chan s) = []" using e(7) [of "\<lambda>_. []"] by (auto split: list.splits)
  show "\<not> can_drain (init_chan s)" "\<not> can_drain (interrupt_chan s)" "\<not> drain_all_requested s"
    using e(8,9,10) by (auto split: if_splits)
qed

lemma stuck_finished:
  assumes inv: "sys_inv s" and live: "sys_live s" and alive: "init_alive s" and stuck: "sys_stuck s"
    and req: "c_shutdown_requested s" and ok: "\<not> m_runaway_exception s"
    and parts: "\<forall>b k. Begin b k \<in> set (trace s) \<longrightarrow> PartDone b k \<in> set (trace s)"
  shows "SigFinished \<in> set (trace s)"
proof -
  note q = stuck_channels [OF stuck alive]
  have begun: "\<forall>k < length (before_completed s). before_completed s ! k"
    using live req parts sys_inv_parts(1) [OF inv] by (auto simp: sys_live_def begin_live_def before_inv_def)
  then have "False \<notin> set (before_completed s)" by (auto simp: in_set_conv_nth)
  then have int: "m_interrupt_requested s"
    using live req ok by (auto simp: sys_live_def flow_live_def request_live_def)
  then have "NodeStartShutdown \<in> set (trace s)" using sys_inv_parts(2) [OF inv] q by (simp add: interrupt_inv_def)
  then have da: "m_draining_after_interrupt s"
    using live int alive ok q by (simp add: sys_live_def flow_live_def interrupt_live_def)
  have "\<forall>k < length (after_completed s). after_completed s ! k"
    using live da parts sys_inv_parts(3) [OF inv] by (auto simp: sys_live_def begin_live_def after_inv_def)
  then have "False \<notin> set (after_completed s)" by (auto simp: in_set_conv_nth)
  then have sh: "m_shutdown_requested s" using live da ok by (simp add: sys_live_def flow_live_def after_live_def)
  then have "m_app_shutdown_complete s"
    using live ok alive q by (auto simp: sys_live_def flow_live_def shutdown_live_def)
  moreover from this have "ch_drained (init_chan s)" "ch_drained (interrupt_chan s)"
    using live q by (simp_all add: sys_live_def flow_live_def finish_live_def can_drain_def)
  ultimately have "m_shutdown_result_emitted s"
    using live alive ok by (simp add: sys_live_def flow_live_def finish_live_def)
  then show ?thesis using sys_inv_parts(8) [OF inv] q by (simp add: finish_inv_def)
qed

section \<open>Properties\<close>

text \<open>
  C1: every history of initialisation, interruption and shutdown follows the protocol, whatever the
  interleaving of the two workers, the GUI thread, the participants' signals (repeated, early or
  synchronous ones included) and whatever throws: \<open>startShutdown\<close> is called at most once and only after
  every before-interrupt participant has finished; \<open>appShutdown\<close> is called at most once, only after the
  interruption was reported and every other participant has finished, never once initialisation has
  thrown, and with the subscription released before; participants are begun once and in their phase;
  \<open>interruptResult\<close>, \<open>shutdownResult\<close> and \<open>finished\<close> are emitted at most once and in that order.
\<close>

theorem shutdown_protocol:
  assumes "sys_run evs (new_sys factory nb na) = Some s"
  shows "\<forall>i < length (trace s). protocol (length (before_completed s)) (length (after_completed s))
     (set (take i (trace s))) (trace s ! i)"
  using sys_run_inv [OF assms new_sys_inv] by (simp add: sys_inv_def follows_def)

definition sample_shutdown :: "sys_event list" where
  "sample_shutdown =
     [Initialize, InitMain (Some True), RequestShutdown (\<lambda>_. []), ParticipantSignal True 0, InterruptWork False,
      InterruptCompletion (\<lambda>k. [(False, k)]), InitRest False NoThrow True False, InitCompletion, ShutdownWork NoThrow,
      InitCompletion, InitDrained, InterruptDrained, AllDrained]"

theorem shutdown_protocol_witness:
  "map_option trace (sys_run sample_shutdown (new_sys True 1 1)) =
     Some [NodeInitMain, SigShutdownStarted, Begin True 0, PartDone True 0, NodeStartShutdown, SigInterruptResult,
       Begin False 0, PartDone False 0, SigInitializeResult True True False, NodeAppShutdown, SigShutdownResult, SigFinished] \<and>
   protocol 1 1 {NodeInitMain, SigShutdownStarted, Begin True 0, PartDone True 0} NodeStartShutdown"
proof -
  have t: "map_option (\<lambda>s. (trace s, before_completed s, after_completed s)) (sys_run sample_shutdown (new_sys True 1 1)) =
     Some ([NodeInitMain, SigShutdownStarted, Begin True 0, PartDone True 0, NodeStartShutdown, SigInterruptResult,
       Begin False 0, PartDone False 0, SigInitializeResult True True False, NodeAppShutdown, SigShutdownResult, SigFinished],
       [True], [True])" by code_simp
  then obtain s where s: "sys_run sample_shutdown (new_sys True 1 1) = Some s"
    "trace s = [NodeInitMain, SigShutdownStarted, Begin True 0, PartDone True 0, NodeStartShutdown, SigInterruptResult,
       Begin False 0, PartDone False 0, SigInitializeResult True True False, NodeAppShutdown, SigShutdownResult, SigFinished]"
    "before_completed s = [True]" "after_completed s = [True]" by auto
  have "protocol (length (before_completed s)) (length (after_completed s)) (set (take 4 (trace s))) (trace s ! 4)"
    using shutdown_protocol [OF s(1)] by (rule allE [of _ 4]) (simp add: s(2))
  with s show ?thesis by (simp add: insert_commute)
qed

text \<open>
  C18: a requested shutdown completes: from any reachable state the threads take at most \<open>sys_weight\<close>
  turns by themselves, and where none is left, with every begun participant finished and no runaway
  exception, \<open>finished\<close> has been emitted.
\<close>

theorem shutdown_completes:
  assumes "sys_run evs (new_sys factory nb na) = Some s" "list_all internal_sys evs'" "sys_run evs' s = Some s'"
  shows "length evs' \<le> sys_weight s \<and>
     ((\<forall>ev. internal_sys ev \<longrightarrow> sys_step ev s' = None) \<and> init_alive s' \<and> c_shutdown_requested s' \<and>
      \<not> m_runaway_exception s' \<and> (\<forall>b k. Begin b k \<in> set (trace s') \<longrightarrow> PartDone b k \<in> set (trace s'))
      \<longrightarrow> SigFinished \<in> set (trace s'))"
proof -
  have inv: "sys_inv s" and live: "sys_live s"
    using sys_run_inv [OF assms(1) new_sys_inv] sys_run_live [OF assms(1) new_sys_inv new_sys_live] by auto
  have "sys_inv s'" "sys_live s'" using sys_run_inv [OF assms(3) inv] sys_run_live [OF assms(3) inv live] by auto
  with stuck_finished [of s'] have "sys_stuck s' \<and> init_alive s' \<and> c_shutdown_requested s' \<and> \<not> m_runaway_exception s' \<and>
      (\<forall>b k. Begin b k \<in> set (trace s') \<longrightarrow> PartDone b k \<in> set (trace s')) \<longrightarrow> SigFinished \<in> set (trace s')" by blast
  then show ?thesis using sys_run_weight [OF assms(3) inv assms(2)] by (simp add: sys_stuck_def)
qed

theorem shutdown_completes_witness:
  "length (drop 4 sample_shutdown) \<le> 10 \<and>
   map_option (\<lambda>s. SigFinished \<in> set (trace s)) (Option.bind (sys_run (take 4 sample_shutdown) (new_sys True 1 1))
     (sys_run (drop 4 sample_shutdown))) = Some True"
proof -
  have "map_option sys_weight (sys_run (take 4 sample_shutdown) (new_sys True 1 1)) = Some 10" by code_simp
  then obtain s where s: "sys_run (take 4 sample_shutdown) (new_sys True 1 1) = Some s" "sys_weight s = 10" by auto
  have f: "map_option (\<lambda>s. SigFinished \<in> set (trace s)) (Option.bind (sys_run (take 4 sample_shutdown) (new_sys True 1 1))
     (sys_run (drop 4 sample_shutdown))) = Some True" by code_simp
  then obtain s' where s': "sys_run (drop 4 sample_shutdown) s = Some s'"
    unfolding s(1) Option.bind.simps map_option_eq_Some by blast
  have "list_all internal_sys (drop 4 sample_shutdown)" by code_simp
  from shutdown_completes [OF s(1) this s'] s(2) f show ?thesis by simp
qed

end
