(* ===== verification/Ordering.thy ===== *)
theory Ordering
  imports Prelude "HOL-Library.Multiset"
begin

text \<open>
  Comparators. \<open>std::sort\<close>, \<open>std::stable_sort\<close> and \<open>QSortFilterProxyModel\<close> are specified for comparators
  that are strict weak orders. The locales state that contract; inside them, sorting with a comparator
  is characterised, and for a comparator that decides every pair the result is the only sorted
  arrangement, so that any correct sorting routine returns it. The lemmas after the locales build
  comparators from parts the way the sources write them: by key, reversed, and one after the other.
\<close>

section \<open>Sorting with a comparator\<close>

fun insert_by :: "('a \<Rightarrow> 'a \<Rightarrow> bool) \<Rightarrow> 'a \<Rightarrow> 'a list \<Rightarrow> 'a list" where
  "insert_by lt x [] = [x]"
| "insert_by lt x (y # ys) = (if lt y x then y # insert_by lt x ys else x # y # ys)"

definition sort_by :: "('a \<Rightarrow> 'a \<Rightarrow> bool) \<Rightarrow> 'a list \<Rightarrow> 'a list" where
  "sort_by lt xs = foldr (insert_by lt) xs []"

lemma mset_insert_by [simp]: "mset (insert_by lt x ys) = add_mset x (mset ys)"
  by (induction ys) auto

lemma mset_sort_by [simp]: "mset (sort_by lt xs) = mset xs"
  by (induction xs) (simp_all add: sort_by_def)

lemma set_insert_by [simp]: "set (insert_by lt x ys) = insert x (set ys)"
  by (metis mset_insert_by set_mset_add_mset_insert set_mset_mset)

lemma set_sort_by [simp]: "set (sort_by lt xs) = set xs"
  by (metis mset_sort_by set_mset_mset)

lemma length_sort_by [simp]: "length (sort_by lt xs) = length xs"
  by (metis mset_sort_by size_mset)

lemma distinct_sort_by [simp]: "distinct (sort_by lt xs) = distinct xs"
  by (metis mset_eq_imp_distinct_iff mset_sort_by)

section \<open>The contracts\<close>

locale strict_weak =
  fixes A :: "'a set" and lt :: "'a \<Rightarrow> 'a \<Rightarrow> bool"
  assumes lt_irrefl: "x \<in> A \<Longrightarrow> \<not> lt x x"
    and lt_trans: "x \<in> A \<Longrightarrow> y \<in> A \<Longrightarrow> z \<in> A \<Longrightarrow> lt x y \<Longrightarrow> lt y z \<Longrightarrow> lt x z"
    and lt_between: "x \<in> A \<Longrightarrow> y \<in> A \<Longrightarrow> z \<in> A \<Longrightarrow> lt x z \<Longrightarrow> lt x y \<or> lt y z"
begin

lemma lt_asym: "x \<in> A \<Longrightarrow> y \<in> A \<Longrightarrow> lt x y \<Longrightarrow> \<not> lt y x"
  using lt_irrefl lt_trans by blast

lemma insert_by_sorted:
  "sorted_wrt (\<lambda>x y. \<not> lt y x) ys \<Longrightarrow> x \<in> A \<Longrightarrow> set ys \<subseteq> A \<Longrightarrow> sorted_wrt (\<lambda>x y. \<not> lt y x) (insert_by lt x ys)"
proof (induction ys)
  case (Cons y ys)
  then show ?case using lt_asym [of y x] lt_between [of _ y x] by auto
qed simp

lemma sort_by_sorted: "set xs \<subseteq> A \<Longrightarrow> sorted_wrt (\<lambda>x y. \<not> lt y x) (sort_by lt xs)"
proof (induction xs)
  case (Cons x xs)
  have "set (foldr (insert_by lt) xs []) = set xs" using set_sort_by [of lt xs] by (simp add: sort_by_def)
  with Cons insert_by_sorted show ?case by (simp add: sort_by_def)
qed (simp add: sort_by_def)

end

locale strict_total = strict_weak +
  assumes lt_total: "x \<in> A \<Longrightarrow> y \<in> A \<Longrightarrow> x \<noteq> y \<Longrightarrow> lt x y \<or> lt y x"
begin

lemma sorted_weak_strict:
  "sorted_wrt (\<lambda>x y. \<not> lt y x) ys \<Longrightarrow> distinct ys \<Longrightarrow> set ys \<subseteq> A \<Longrightarrow> sorted_wrt lt ys"
proof (induction ys)
  case (Cons y ys)
  then show ?case using lt_total by auto
qed simp

lemma sort_by_strict: "set xs \<subseteq> A \<Longrightarrow> distinct xs \<Longrightarrow> sorted_wrt lt (sort_by lt xs)"
  using sorted_weak_strict sort_by_sorted by simp

text \<open>Every sorted arrangement of the same elements is the same list.\<close>

lemma sorted_unique:
  "sorted_wrt lt xs \<Longrightarrow> sorted_wrt lt ys \<Longrightarrow> set xs = set ys \<Longrightarrow> set xs \<subseteq> A \<Longrightarrow> xs = ys"
proof (induction xs arbitrary: ys)
  case (Cons x xs)
  then obtain y ys' where ys: "ys = y # ys'" by (cases ys) auto
  have "x = y"
  proof (rule ccontr)
    assume "x \<noteq> y"
    with Cons.prems(3) ys have "x \<in> set ys'" "y \<in> set xs" by auto
    then have "lt y x" "lt x y" using Cons.prems(1,2) ys by auto
    moreover have "x \<in> A" "y \<in> A" using Cons.prems(3,4) ys by auto
    ultimately show False using lt_asym by blast
  qed
  moreover have "x \<notin> set xs" "x \<notin> set ys'"
    using Cons.prems ys \<open>x = y\<close> lt_irrefl by auto
  then have "set xs = set ys'" using Cons.prems(3) ys \<open>x = y\<close> by auto
  ultimately show ?case using Cons.IH [of ys'] Cons.prems ys by auto
qed simp

lemma sort_by_unique:
  assumes "set xs \<subseteq> A" "distinct xs" "sorted_wrt lt ys" "set ys = set xs"
  shows "ys = sort_by lt xs"
  using sorted_unique [OF assms(3) sort_by_strict [OF assms(1,2)]] assms by simp

text \<open>Elements that the comparator keeps together are adjacent.\<close>

lemma sorted_contiguous:
  assumes "sorted_wrt lt ys" "set ys \<subseteq> A" "i \<le> j" "j \<le> l" "l < length ys" "k (ys ! i) = k (ys ! l)"
    and convex: "\<And>x y z. x \<in> A \<Longrightarrow> y \<in> A \<Longrightarrow> z \<in> A \<Longrightarrow> lt x y \<Longrightarrow> lt y z \<Longrightarrow> k x = k z \<Longrightarrow> k y = k x"
  shows "k (ys ! j) = k (ys ! i)"
proof (cases "i = j \<or> j = l")
  case True
  with assms show ?thesis by auto
next
  case False
  then have "i < j" "j < l" using assms(3,4) by auto
  then have "lt (ys ! i) (ys ! j)" "lt (ys ! j) (ys ! l)" using assms(1,5) by (auto simp: sorted_wrt_iff_nth_less)
  moreover have "ys ! i \<in> A" "ys ! j \<in> A" "ys ! l \<in> A" using assms(2-5) by (auto intro!: subsetD [OF assms(2)] nth_mem)
  ultimately show ?thesis using convex assms(6) by blast
qed

end

section \<open>Building comparators\<close>

lemma strict_weak_key: "strict_weak UNIV lt \<Longrightarrow> strict_weak A (\<lambda>x y. lt (k x) (k y))"
  by (auto simp: strict_weak_def)

lemma strict_weak_rev: "strict_weak A lt \<Longrightarrow> strict_weak A (\<lambda>x y. lt y x)"
  unfolding strict_weak_def by blast

lemma strict_total_rev: "strict_total A lt \<Longrightarrow> strict_total A (\<lambda>x y. lt y x)"
  unfolding strict_total_def strict_total_axioms_def using strict_weak_rev by blast

lemma strict_weak_none: "strict_weak A (\<lambda>x y. False)"
  by (simp add: strict_weak_def)

definition then_less :: "('a \<Rightarrow> 'a \<Rightarrow> bool) \<Rightarrow> ('a \<Rightarrow> 'a \<Rightarrow> bool) \<Rightarrow> 'a \<Rightarrow> 'a \<Rightarrow> bool" where
  "then_less lt1 lt2 x y \<longleftrightarrow> lt1 x y \<or> \<not> lt1 y x \<and> lt2 x y"

lemma strict_weak_then:
  assumes "strict_weak A lt1" "strict_weak A lt2"
  shows "strict_weak A (then_less lt1 lt2)"
proof -
  note a = strict_weak.lt_irrefl [OF assms(1)] strict_weak.lt_trans [OF assms(1)] strict_weak.lt_between [OF assms(1)]
  note b = strict_weak.lt_irrefl [OF assms(2)] strict_weak.lt_trans [OF assms(2)] strict_weak.lt_between [OF assms(2)]
  show ?thesis
  proof
    show "\<not> then_less lt1 lt2 x x" if "x \<in> A" for x using that a(1) b(1) by (auto simp: then_less_def)
    show "then_less lt1 lt2 x z" if "x \<in> A" "y \<in> A" "z \<in> A" "then_less lt1 lt2 x y" "then_less lt1 lt2 y z" for x y z
      using that a(2,3) b(2) unfolding then_less_def by meson
    show "then_less lt1 lt2 x y \<or> then_less lt1 lt2 y z" if "x \<in> A" "y \<in> A" "z \<in> A" "then_less lt1 lt2 x z" for x y z
      using that a(2,3) b(3) unfolding then_less_def by meson
  qed
qed

lemma strict_total_then:
  assumes "strict_weak A lt1" "strict_total A lt2"
  shows "strict_total A (then_less lt1 lt2)"
proof -
  have "strict_weak A (then_less lt1 lt2)"
    using strict_weak_then [OF assms(1)] strict_total.axioms(1) [OF assms(2)] by blast
  moreover have "then_less lt1 lt2 x y \<or> then_less lt1 lt2 y x" if "x \<in> A" "y \<in> A" "x \<noteq> y" for x y
    using strict_total.lt_total [OF assms(2) that] by (auto simp: then_less_def)
  ultimately show ?thesis by (simp add: strict_total_def strict_total_axioms_def)
qed

lemma strict_total_key_on:
  assumes "strict_total B lt" "inj_on k A" "k ` A \<subseteq> B"
  shows "strict_total A (\<lambda>x y. lt (k x) (k y))"
proof -
  have k: "k x \<in> B" if "x \<in> A" for x using assms(3) that by blast
  note w = strict_total.axioms(1) [OF assms(1)]
  show ?thesis
  proof
    show "\<not> lt (k x) (k x)" if "x \<in> A" for x using strict_weak.lt_irrefl [OF w k] that .
    show "lt (k x) (k z)" if "x \<in> A" "y \<in> A" "z \<in> A" "lt (k x) (k y)" "lt (k y) (k z)" for x y z
      using strict_weak.lt_trans [OF w k k k] that by blast
    show "lt (k x) (k y) \<or> lt (k y) (k z)" if "x \<in> A" "y \<in> A" "z \<in> A" "lt (k x) (k z)" for x y z
      using strict_weak.lt_between [OF w k k k] that by blast
    show "lt (k x) (k y) \<or> lt (k y) (k x)" if "x \<in> A" "y \<in> A" "x \<noteq> y" for x y
      using strict_total.lt_total [OF assms(1) k k] inj_onD [OF assms(2)] that by blast
  qed
qed

lemma strict_weak_if:
  "strict_weak A f \<Longrightarrow> strict_weak A g \<Longrightarrow> strict_weak A (\<lambda>x y. if b then f x y else g x y)"
  by (cases b) simp_all

lemma strict_total_weak: "strict_total A lt \<Longrightarrow> strict_weak A lt"
  by (rule strict_total.axioms(1))

lemma strict_total_linorder: "strict_total UNIV ((<) :: 'a::linorder \<Rightarrow> 'a \<Rightarrow> bool)"
  by unfold_locales auto

section \<open>String comparison\<close>

text \<open>\<open>operator<\<close> of \<open>QString\<close> compares code units.\<close>

fun qless :: "qstring \<Rightarrow> qstring \<Rightarrow> bool" where
  "qless xs [] = False"
| "qless [] (y # ys) = True"
| "qless (x # xs) (y # ys) = (x < y \<or> x = y \<and> qless xs ys)"

lemma qless_irrefl: "\<not> qless xs xs"
  by (induction xs) auto

lemma qless_trans: "qless xs ys \<Longrightarrow> qless ys zs \<Longrightarrow> qless xs zs"
proof (induction xs ys arbitrary: zs rule: qless.induct)
  case (2 y ys)
  then show ?case by (cases zs) auto
next
  case (3 x xs y ys)
  then show ?case by (cases zs) auto
qed simp

lemma qless_total: "xs \<noteq> ys \<Longrightarrow> qless xs ys \<or> qless ys xs"
  by (induction xs ys rule: qless.induct) (auto simp: neq_Nil_conv)

interpretation qstring_order: strict_total UNIV qless
  by unfold_locales (auto simp: qless_irrefl intro: qless_trans dest: qless_total,
      metis qless_total qless_trans)

text \<open>
  \<open>QString::contains(needle, Qt::CaseInsensitive)\<close>, with the case folding of a code unit as a
  parameter.
\<close>

fun contains_at :: "(qchar \<Rightarrow> qchar) \<Rightarrow> qstring \<Rightarrow> qstring \<Rightarrow> bool" where
  "contains_at f s [] = True"
| "contains_at f [] (n # ns) = False"
| "contains_at f (c # cs) (n # ns) = (f c = f n \<and> contains_at f cs ns)"

fun contains_ci :: "(qchar \<Rightarrow> qchar) \<Rightarrow> qstring \<Rightarrow> qstring \<Rightarrow> bool" where
  "contains_ci f [] needle = (needle = [])"
| "contains_ci f (c # cs) needle = (contains_at f (c # cs) needle \<or> contains_ci f cs needle)"

lemma contains_at_iff: "contains_at f s n \<longleftrightarrow> (\<exists>p r. s = p @ r \<and> map f p = map f n)"
proof (induction f s n rule: contains_at.induct)
  case (3 f c cs n ns)
  show ?case
  proof
    assume "contains_at f (c # cs) (n # ns)"
    then obtain p r where "cs = p @ r" "map f p = map f ns" "f c = f n" using 3 by auto
    then have "c # cs = (c # p) @ r \<and> map f (c # p) = map f (n # ns)" by simp
    then show "\<exists>p r. c # cs = p @ r \<and> map f p = map f (n # ns)" by blast
  qed (use 3 in \<open>auto simp: Cons_eq_append_conv map_eq_Cons_conv\<close>)
qed auto

lemma contains_ci_iff: "contains_ci f s n \<longleftrightarrow> (\<exists>u p r. s = u @ p @ r \<and> map f p = map f n)"
proof (induction s)
  case (Cons c cs)
  have "(\<exists>u p r. c # cs = u @ p @ r \<and> map f p = map f n) \<longleftrightarrow>
      (\<exists>p r. c # cs = p @ r \<and> map f p = map f n) \<or> (\<exists>u p r. cs = u @ p @ r \<and> map f p = map f n)"
    (is "?l \<longleftrightarrow> ?a \<or> ?b")
  proof
    assume ?l
    then obtain u p r where u: "c # cs = u @ p @ r" "map f p = map f n" by blast
    then show "?a \<or> ?b" by (cases u) auto
  next
    assume "?a \<or> ?b"
    then show ?l
    proof
      assume ?a
      then show ?l by (metis append_Nil)
    next
      assume ?b
      then show ?l by (metis append_Cons)
    qed
  qed
  with Cons show ?case by (simp add: contains_at_iff)
qed auto

end
