(* ===== verification/Coins.thy ===== *)
theory Coins
  imports Ordering Amount
begin

text \<open>
  \<open>src/qml/models/coinslistmodel.{h,cpp}\<close> with the coin selection of
  \<open>src/qml/models/walletqmlmodel.cpp\<close> it works on: the filtered, grouped and sorted view of the wallet's
  coins, the selection that can be cancelled, and locking.

  The wallet of Bitcoin Core, its coin control and Qt's locale services are outside the repository.
  The wallet's coin listing, locks and selection are a record; the pure services (hexadecimal
  transaction identifiers, the order of outpoints, scripts and addresses, address labels, case
  folding, collation and date texts) are the functions of the record \<open>coin_env\<close>.
\<close>

section \<open>Definitions\<close>

datatype outpoint = OutPoint (op_hash: nat) (op_n: nat)

record txo =
  is_spent :: bool
  script :: nat
  nValue :: int
  txo_time :: int

record coin_env =
  hex :: "nat \<Rightarrow> qstring"
  op_less :: "outpoint \<Rightarrow> outpoint \<Rightarrow> bool"
  ExtractDestination :: "nat \<Rightarrow> nat option"
  EncodeDestination :: "nat \<Rightarrow> qstring"
  getAddressLabel :: "qstring \<Rightarrow> qstring"
  fold_unit :: "qchar \<Rightarrow> qchar"
  toCaseFolded :: "qstring \<Rightarrow> qstring"
  localeAwareCompare :: "qstring \<Rightarrow> qstring \<Rightarrow> int"
  date_text :: "string \<Rightarrow> int \<Rightarrow> qstring"
  lock_succeeds :: "outpoint \<Rightarrow> bool \<Rightarrow> bool"

record coin_wallet =
  coins_list :: "(nat \<times> (outpoint \<times> txo) list) list"
  locked_coins :: "outpoint list"
  selected_coins :: "outpoint list"

record Coin =
  outpoint :: outpoint
  coin_address :: qstring
  coin_note :: qstring
  coin_amount :: int
  coin_date :: int
  coin_locked :: bool

record CoinsModel =
  m_coins :: "Coin list"
  m_visible :: "nat list"
  m_previous_selection :: "outpoint list option"
  m_search :: qstring
  m_sort :: string
  m_filter :: string
  m_group :: string
  m_min_amount :: int
  m_max_amount :: int
  m_descending :: bool

definition new_CoinsModel :: CoinsModel where
  "new_CoinsModel = \<lparr>m_coins = [], m_visible = [], m_previous_selection = None, m_search = [], m_sort = ''date'',
     m_filter = ''all'', m_group = ''date'', m_min_amount = -1, m_max_amount = -1, m_descending = True\<rparr>"

subsection \<open>The wallet's selection\<close>

definition selectCoin :: "outpoint \<Rightarrow> coin_wallet \<Rightarrow> coin_wallet" where
  "selectCoin o1 w = w\<lparr>selected_coins := List.insert o1 (selected_coins w)\<rparr>"

definition unselectCoin :: "outpoint \<Rightarrow> coin_wallet \<Rightarrow> coin_wallet" where
  "unselectCoin o1 w = w\<lparr>selected_coins := removeAll o1 (selected_coins w)\<rparr>"

definition isSelectedCoin :: "outpoint \<Rightarrow> coin_wallet \<Rightarrow> bool" where
  "isSelectedCoin o1 w \<longleftrightarrow> o1 \<in> set (selected_coins w)"

definition setSelectedCoins :: "outpoint list \<Rightarrow> coin_wallet \<Rightarrow> coin_wallet" where
  "setSelectedCoins outs w = fold selectCoin outs (w\<lparr>selected_coins := []\<rparr>)"

definition lockCoin :: "coin_env \<Rightarrow> bool \<Rightarrow> outpoint \<Rightarrow> coin_wallet \<Rightarrow> bool \<times> coin_wallet" where
  "lockCoin env lock o1 w =
     (if \<not> lock_succeeds env o1 lock then (False, w)
      else (True, w\<lparr>locked_coins := (if lock then List.insert o1 (locked_coins w) else removeAll o1 (locked_coins w))\<rparr>))"

subsection \<open>The view\<close>

definition coin_id :: "coin_env \<Rightarrow> Coin \<Rightarrow> qstring" where
  "coin_id env c = hex env (op_hash (outpoint c)) @ q '':'' @ number_nat (op_n (outpoint c))"

definition groupTitle :: "coin_env \<Rightarrow> CoinsModel \<Rightarrow> Coin \<Rightarrow> qstring" where
  "groupTitle env m c =
     (if m_group m = ''address'' then coin_address c
      else date_text env (if m_group m = ''month'' then ''MMMM yyyy'' else ''MMM d, yyyy'') (coin_date c))"

definition coin_visible :: "coin_env \<Rightarrow> CoinsModel \<Rightarrow> Coin \<Rightarrow> bool" where
  "coin_visible env m c \<longleftrightarrow>
     \<not> (m_search m \<noteq> [] \<and>
        \<not> contains_ci (fold_unit env) (coin_note c) (m_search m) \<and>
        \<not> contains_ci (fold_unit env) (coin_address c) (m_search m) \<and>
        \<not> contains_ci (fold_unit env) (coin_id env c) (m_search m)) \<and>
     \<not> (m_filter m = ''locked'' \<and> \<not> coin_locked c) \<and>
     \<not> (m_filter m = ''spendable'' \<and> coin_locked c) \<and>
     \<not> (m_min_amount m \<ge> 0 \<and> coin_amount c < m_min_amount m) \<and>
     \<not> (m_max_amount m \<ge> 0 \<and> coin_amount c > m_max_amount m)"

definition coin_cmp :: "coin_env \<Rightarrow> CoinsModel \<Rightarrow> Coin \<Rightarrow> Coin \<Rightarrow> int" where
  "coin_cmp env m x y =
     (if m_sort m = ''amount'' then
        (if coin_amount x < coin_amount y then -1 else if coin_amount x > coin_amount y then 1 else 0)
      else if m_sort m = ''label'' then
        localeAwareCompare env (toCaseFolded env (coin_note x)) (toCaseFolded env (coin_note y))
      else (if coin_date x < coin_date y then -1 else if coin_date x > coin_date y then 1 else 0))"

definition coin_less :: "coin_env \<Rightarrow> CoinsModel \<Rightarrow> Coin \<Rightarrow> Coin \<Rightarrow> bool" where
  "coin_less env m x y =
     (if m_group m = ''address'' \<and> coin_address x \<noteq> coin_address y then qless (coin_address x) (coin_address y)
      else
        let by_date = (m_group m = ''month'' \<or> m_group m = ''date'');
            fmt = (if m_group m = ''month'' then ''yyyyMM'' else ''yyyyMMdd'');
            xm = date_text env fmt (coin_date x);
            ym = date_text env fmt (coin_date y)
        in if by_date \<and> xm \<noteq> ym then (if m_descending m then qless ym xm else qless xm ym)
           else
             let cmp = coin_cmp env m x y
             in if cmp = 0 then op_less env (outpoint x) (outpoint y)
                else if m_descending m then cmp > 0 else cmp < 0)"

definition rebuildView :: "coin_env \<Rightarrow> CoinsModel \<Rightarrow> CoinsModel" where
  "rebuildView env m =
     m\<lparr>m_visible := sort_by (\<lambda>a b. coin_less env m (m_coins m ! a) (m_coins m ! b))
        (filter (\<lambda>i. coin_visible env m (m_coins m ! i)) [0..<length (m_coins m)])\<rparr>"

definition coins_rowCount :: "CoinsModel \<Rightarrow> nat" where
  "coins_rowCount m = length (m_visible m)"

definition coin_at :: "CoinsModel \<Rightarrow> nat \<Rightarrow> Coin" where
  "coin_at m row = m_coins m ! (m_visible m ! row)"

definition groupFirst :: "coin_env \<Rightarrow> CoinsModel \<Rightarrow> nat \<Rightarrow> bool" where
  "groupFirst env m row \<longleftrightarrow>
     row = 0 \<or> groupTitle env m (coin_at m (row - 1)) \<noteq> groupTitle env m (coin_at m row)"

definition groupLast :: "coin_env \<Rightarrow> CoinsModel \<Rightarrow> nat \<Rightarrow> bool" where
  "groupLast env m row \<longleftrightarrow>
     row + 1 = coins_rowCount m \<or> groupTitle env m (coin_at m (row + 1)) \<noteq> groupTitle env m (coin_at m row)"

text \<open>The roles of a row; \<open>None\<close> stands for an invalid variant.\<close>

datatype CoinRole = CoinAddress | CoinAmount | CoinDateTime | CoinLabel | CoinLocked | CoinSelected | CoinAmountSatoshi
  | CoinId | CoinGroup | CoinGroupFirst | CoinGroupLast

datatype coin_value = CText qstring | CInt int | CBool bool

definition coins_data :: "coin_env \<Rightarrow> int \<Rightarrow> coin_wallet \<times> CoinsModel \<Rightarrow> int \<Rightarrow> CoinRole \<Rightarrow> coin_value option" where
  "coins_data env COIN = (\<lambda>(w, m) row role.
     if row < 0 \<or> row \<ge> int (coins_rowCount m) then None
     else let coin = coin_at m (nat row) in
       case role of
         CoinAddress \<Rightarrow> Some (CText (coin_address coin))
       | CoinAmount \<Rightarrow> map_option CText (satsToBtcString COIN (coin_amount coin))
       | CoinAmountSatoshi \<Rightarrow> Some (CInt (coin_amount coin))
       | CoinDateTime \<Rightarrow> Some (CInt (coin_date coin))
       | CoinLabel \<Rightarrow> Some (CText (coin_note coin))
       | CoinLocked \<Rightarrow> Some (CBool (coin_locked coin))
       | CoinSelected \<Rightarrow> Some (CBool (isSelectedCoin (outpoint coin) w))
       | CoinId \<Rightarrow> Some (CText (coin_id env coin))
       | CoinGroup \<Rightarrow> Some (CText (groupTitle env m coin))
       | CoinGroupFirst \<Rightarrow> Some (CBool (groupFirst env m (nat row)))
       | CoinGroupLast \<Rightarrow> Some (CBool (groupLast env m (nat row))))"

subsection \<open>Operations\<close>

definition list_unspent :: "coin_env \<Rightarrow> coin_wallet \<Rightarrow> Coin list" where
  "list_unspent env w =
     concat (map (\<lambda>(ancestor, outputs).
       map (\<lambda>(o1, out).
              let destination = (case ExtractDestination env (script out) of None \<Rightarrow> ancestor | Some d \<Rightarrow> d);
                  address = EncodeDestination env destination
              in \<lparr>outpoint = o1, coin_address = address, coin_note = getAddressLabel env address,
                  coin_amount = nValue out, coin_date = txo_time out, coin_locked = o1 \<in> set (locked_coins w)\<rparr>)
         (filter (\<lambda>(o1, out). \<not> is_spent out) outputs))
       (coins_list w))"

type_synonym coin_state = "coin_wallet \<times> CoinsModel"

definition coins_update :: "coin_env \<Rightarrow> coin_state \<Rightarrow> coin_state" where
  "coins_update env = (\<lambda>(w, m).
     let coins = list_unspent env w;
         w1 = fold (\<lambda>sel w. if \<forall>c \<in> set coins. outpoint c \<noteq> sel then unselectCoin sel w else w) (selected_coins w) w
     in (w1, rebuildView env (m\<lparr>m_coins := coins, m_visible := []\<rparr>)))"

definition setSearchText :: "coin_env \<Rightarrow> qstring \<Rightarrow> CoinsModel \<Rightarrow> CoinsModel" where
  "setSearchText env v m = (if m_search m \<noteq> v then rebuildView env (m\<lparr>m_search := v\<rparr>) else m)"

definition setSortBy :: "coin_env \<Rightarrow> string \<Rightarrow> CoinsModel \<Rightarrow> CoinsModel" where
  "setSortBy env v m =
     (if v \<in> {''date'', ''amount'', ''label''} \<and> m_sort m \<noteq> v then rebuildView env (m\<lparr>m_sort := v\<rparr>) else m)"

definition setSortDescending :: "coin_env \<Rightarrow> bool \<Rightarrow> CoinsModel \<Rightarrow> CoinsModel" where
  "setSortDescending env v m = (if m_descending m \<noteq> v then rebuildView env (m\<lparr>m_descending := v\<rparr>) else m)"

definition coins_setFilter :: "coin_env \<Rightarrow> string \<Rightarrow> CoinsModel \<Rightarrow> CoinsModel" where
  "coins_setFilter env v m =
     (if v \<in> {''all'', ''spendable'', ''locked''} \<and> m_filter m \<noteq> v then rebuildView env (m\<lparr>m_filter := v\<rparr>) else m)"

definition coins_setGroupBy :: "coin_env \<Rightarrow> string \<Rightarrow> CoinsModel \<Rightarrow> CoinsModel" where
  "coins_setGroupBy env v m =
     (if v \<in> {''date'', ''month'', ''address''} \<and> m_group m \<noteq> v then rebuildView env (m\<lparr>m_group := v\<rparr>) else m)"

definition coins_setMinAmount :: "coin_env \<Rightarrow> int \<Rightarrow> CoinsModel \<Rightarrow> CoinsModel" where
  "coins_setMinAmount env v m =
     (let v = (if v < 0 then -1 else v)
      in if m_min_amount m \<noteq> v then rebuildView env (m\<lparr>m_min_amount := v\<rparr>) else m)"

definition coins_setMaxAmount :: "coin_env \<Rightarrow> int \<Rightarrow> CoinsModel \<Rightarrow> CoinsModel" where
  "coins_setMaxAmount env v m =
     (let v = (if v < 0 then -1 else v)
      in if m_max_amount m \<noteq> v then rebuildView env (m\<lparr>m_max_amount := v\<rparr>) else m)"

definition toggleCoinSelectionById :: "coin_env \<Rightarrow> qstring \<Rightarrow> coin_state \<Rightarrow> bool \<times> coin_state" where
  "toggleCoinSelectionById env cid = (\<lambda>(w, m).
     case find (\<lambda>c. coin_id env c = cid) (m_coins m) of
       None \<Rightarrow> (False, (w, m))
     | Some c \<Rightarrow>
         (True, (if isSelectedCoin (outpoint c) w then unselectCoin (outpoint c) w else selectCoin (outpoint c) w, m)))"

definition toggleCoinSelection :: "coin_env \<Rightarrow> int \<Rightarrow> coin_state \<Rightarrow> coin_state" where
  "toggleCoinSelection env row = (\<lambda>(w, m).
     if row < 0 \<or> row \<ge> int (coins_rowCount m) then (w, m)
     else snd (toggleCoinSelectionById env (coin_id env (coin_at m (nat row))) (w, m)))"

definition beginSelection :: "coin_env \<Rightarrow> coin_state \<Rightarrow> coin_state" where
  "beginSelection env s =
     (if m_previous_selection (snd s) \<noteq> None then s
      else let (w, m) = coins_update env s in (w, m\<lparr>m_previous_selection := Some (selected_coins w)\<rparr>))"

definition applySelection :: "coin_state \<Rightarrow> coin_state" where
  "applySelection = (\<lambda>(w, m). (w, m\<lparr>m_previous_selection := None\<rparr>))"

definition cancelSelection :: "coin_state \<Rightarrow> coin_state" where
  "cancelSelection = (\<lambda>(w, m).
     case m_previous_selection m of
       None \<Rightarrow> (w, m)
     | Some previous \<Rightarrow>
         (setSelectedCoins (filter (\<lambda>o1. \<exists>c \<in> set (m_coins m). outpoint c = o1) previous) w,
          m\<lparr>m_previous_selection := None\<rparr>))"

fun lock_loop :: "coin_env \<Rightarrow> qstring list \<Rightarrow> bool \<Rightarrow> Coin list \<Rightarrow> bool \<Rightarrow> coin_wallet \<Rightarrow> bool \<times> coin_wallet" where
  "lock_loop env ids locked [] success w = (success, w)"
| "lock_loop env ids locked (c # cs) success w =
     (if coin_id env c \<notin> set ids \<or> coin_locked c = locked then lock_loop env ids locked cs success w
      else
        let (changed, w1) = lockCoin env locked (outpoint c) w
        in lock_loop env ids locked cs (changed \<and> success)
             (if changed \<and> locked then unselectCoin (outpoint c) w1 else w1))"

definition setCoinsLocked :: "coin_env \<Rightarrow> qstring list \<Rightarrow> bool \<Rightarrow> coin_state \<Rightarrow> bool \<times> coin_state" where
  "setCoinsLocked env ids locked = (\<lambda>(w, m).
     let (success, w1) = lock_loop env ids locked (m_coins m) True w
     in (success, coins_update env (w1, m)))"

subsection \<open>Totals\<close>

definition lockedCoinsCount :: "CoinsModel \<Rightarrow> nat" where
  "lockedCoinsCount m = length (filter coin_locked (m_coins m))"

definition selectedCoinsCount :: "coin_state \<Rightarrow> nat" where
  "selectedCoinsCount = (\<lambda>(w, m). length (selected_coins w))"

fun sum_coins :: "(Coin \<Rightarrow> bool) \<Rightarrow> Coin list \<Rightarrow> int \<Rightarrow> int option" where
  "sum_coins P [] acc = Some acc"
| "sum_coins P (c # cs) acc =
     (if P c then Option.bind (chk64 (acc + coin_amount c)) (sum_coins P cs) else sum_coins P cs acc)"

definition totalSelectedSatoshi :: "coin_state \<Rightarrow> int option" where
  "totalSelectedSatoshi = (\<lambda>(w, m). sum_coins (\<lambda>c. isSelectedCoin (outpoint c) w) (m_coins m) 0)"

definition totalSatoshi :: "CoinsModel \<Rightarrow> int option" where
  "totalSatoshi m = sum_coins (\<lambda>c. True) (m_coins m) 0"

definition lockedSatoshi :: "CoinsModel \<Rightarrow> int option" where
  "lockedSatoshi m = sum_coins coin_locked (m_coins m) 0"

definition availableMinAmount :: "CoinsModel \<Rightarrow> int" where
  "availableMinAmount m = (case map coin_amount (m_coins m) of [] \<Rightarrow> 0 | a # as \<Rightarrow> fold min as a)"

definition availableMaxAmount :: "CoinsModel \<Rightarrow> int" where
  "availableMaxAmount m = (case map coin_amount (m_coins m) of [] \<Rightarrow> 0 | a # as \<Rightarrow> fold max as a)"

text \<open>
  The difference to the total of the send form; \<open>None\<close> is an overflow of \<open>CAmount\<close>, which the callers
  exclude by the limit on money.
\<close>

definition totalSelected :: "int \<Rightarrow> coin_state \<Rightarrow> qstring option" where
  "totalSelected COIN s = Option.bind (totalSelectedSatoshi s) (satsToBtcString COIN)"

definition changeAmount :: "int \<Rightarrow> int \<Rightarrow> coin_state \<Rightarrow> qstring option" where
  "changeAmount COIN sendTotal s =
     Option.bind (totalSelectedSatoshi s) (\<lambda>t. Option.bind (chk64 (t - sendTotal)) (\<lambda>d. satsToBtcString COIN \<bar>d\<bar>))"

definition overRequiredAmount :: "int \<Rightarrow> coin_state \<Rightarrow> bool option" where
  "overRequiredAmount sendTotal s = map_option (\<lambda>t. t \<ge> sendTotal) (totalSelectedSatoshi s)"

subsection \<open>Events\<close>

datatype coin_op =
    WalletCoins "(nat \<times> (outpoint \<times> txo) list) list" | CoinUpdate | SearchText qstring | SortBy string | SortDescending bool
  | CoinFilter string | GroupBy string | MinAmount int | MaxAmount int | Toggle int | ToggleId qstring
  | BeginSelection | ApplySelection | CancelSelection | SetLocked "qstring list" bool

text \<open>A change of the wallet's coins reaches the model through the signals connected to \<open>update\<close>.\<close>

fun coin_step :: "coin_env \<Rightarrow> coin_op \<Rightarrow> coin_state \<Rightarrow> coin_state" where
  "coin_step env (WalletCoins cs) s = coins_update env ((fst s)\<lparr>coins_list := cs\<rparr>, snd s)"
| "coin_step env CoinUpdate s = coins_update env s"
| "coin_step env (SearchText v) s = (fst s, setSearchText env v (snd s))"
| "coin_step env (SortBy v) s = (fst s, setSortBy env v (snd s))"
| "coin_step env (SortDescending v) s = (fst s, setSortDescending env v (snd s))"
| "coin_step env (CoinFilter v) s = (fst s, coins_setFilter env v (snd s))"
| "coin_step env (GroupBy v) s = (fst s, coins_setGroupBy env v (snd s))"
| "coin_step env (MinAmount v) s = (fst s, coins_setMinAmount env v (snd s))"
| "coin_step env (MaxAmount v) s = (fst s, coins_setMaxAmount env v (snd s))"
| "coin_step env (Toggle row) s = toggleCoinSelection env row s"
| "coin_step env (ToggleId cid) s = snd (toggleCoinSelectionById env cid s)"
| "coin_step env BeginSelection s = beginSelection env s"
| "coin_step env ApplySelection s = applySelection s"
| "coin_step env CancelSelection s = cancelSelection s"
| "coin_step env (SetLocked ids b) s = snd (setCoinsLocked env ids b s)"

definition coin_run :: "coin_env \<Rightarrow> coin_op list \<Rightarrow> coin_state \<Rightarrow> coin_state" where
  "coin_run env ops s = fold (coin_step env) ops s"

section \<open>What the services promise\<close>

text \<open>
  Outpoints are totally ordered; collation is a consistent three-way comparison; a group's title and
  the date text the view sorts by tell the same dates apart.
\<close>

definition coin_services :: "coin_env \<Rightarrow> bool" where
  "coin_services env \<longleftrightarrow>
     strict_total UNIV (op_less env) \<and>
     strict_weak UNIV (\<lambda>x y. localeAwareCompare env x y < 0) \<and>
     (\<forall>x y. localeAwareCompare env x y > 0 \<longleftrightarrow> localeAwareCompare env y x < 0) \<and>
     (\<forall>d d'. date_text env ''MMMM yyyy'' d = date_text env ''MMMM yyyy'' d' \<longleftrightarrow>
        date_text env ''yyyyMM'' d = date_text env ''yyyyMM'' d') \<and>
     (\<forall>d d'. date_text env ''MMM d, yyyy'' d = date_text env ''MMM d, yyyy'' d' \<longleftrightarrow>
        date_text env ''yyyyMMdd'' d = date_text env ''yyyyMMdd'' d')"

section \<open>The order of the view\<close>

definition group_key :: "coin_env \<Rightarrow> CoinsModel \<Rightarrow> Coin \<Rightarrow> qstring" where
  "group_key env m c =
     (if m_group m = ''address'' then coin_address c
      else date_text env (if m_group m = ''month'' then ''yyyyMM'' else ''yyyyMMdd'') (coin_date c))"

definition group_less :: "coin_env \<Rightarrow> CoinsModel \<Rightarrow> Coin \<Rightarrow> Coin \<Rightarrow> bool" where
  "group_less env m x y =
     (if m_descending m \<and> m_group m \<noteq> ''address'' then qless (group_key env m y) (group_key env m x)
      else qless (group_key env m x) (group_key env m y))"

definition cmp_less :: "coin_env \<Rightarrow> CoinsModel \<Rightarrow> Coin \<Rightarrow> Coin \<Rightarrow> bool" where
  "cmp_less env m x y = (if m_descending m then coin_cmp env m y x < 0 else coin_cmp env m x y < 0)"

lemma coin_cmp_swap: "coin_services env \<Longrightarrow> 0 < coin_cmp env m x y \<longleftrightarrow> coin_cmp env m y x < 0"
  by (auto simp: coin_services_def coin_cmp_def)

definition grouped :: "CoinsModel \<Rightarrow> bool" where
  "grouped m \<longleftrightarrow> m_group m \<in> {''date'', ''month'', ''address''}"

lemma coin_less_then:
  assumes "coin_services env" "grouped m"
  shows "coin_less env m x y =
     then_less (group_less env m) (then_less (cmp_less env m) (\<lambda>x y. op_less env (outpoint x) (outpoint y))) x y"
proof (cases "group_key env m x = group_key env m y")
  case True
  then have "\<not> group_less env m x y" "\<not> group_less env m y x" by (simp_all add: group_less_def qless_irrefl)
  moreover have "coin_less env m x y = (let cmp = coin_cmp env m x y in
      if cmp = 0 then op_less env (outpoint x) (outpoint y) else if m_descending m then cmp > 0 else cmp < 0)"
    using True assms(2) by (auto simp: coin_less_def group_key_def grouped_def Let_def)
  moreover have "coin_cmp env m x y = 0 \<longleftrightarrow> \<not> coin_cmp env m x y < 0 \<and> \<not> coin_cmp env m y x < 0"
    using coin_cmp_swap [OF assms(1), of m x y] by auto
  moreover note coin_cmp_swap [OF assms(1), of m x y] coin_cmp_swap [OF assms(1), of m y x]
  ultimately show ?thesis by (auto simp: then_less_def cmp_less_def Let_def)
next
  case False
  then have "group_less env m x y \<or> group_less env m y x" "\<not> (group_less env m x y \<and> group_less env m y x)"
    using qless_total qstring_order.lt_asym by (auto simp: group_less_def)
  moreover have "coin_less env m x y = group_less env m x y"
    using False assms(2) by (auto simp: coin_less_def group_key_def group_less_def grouped_def Let_def)
  ultimately show ?thesis by (auto simp: then_less_def)
qed

lemma group_less_weak: "strict_weak A (group_less env m)"
proof -
  have "strict_weak A (\<lambda>x y. qless (group_key env m x) (group_key env m y))"
    by (rule strict_weak_key [OF qstring_order.strict_weak_axioms])
  with strict_weak_rev [OF this] show ?thesis unfolding group_less_def by (rule strict_weak_if)
qed

lemma cmp_less_weak:
  assumes "coin_services env"
  shows "strict_weak A (cmp_less env m)"
proof -
  have l: "strict_weak UNIV (\<lambda>x y. localeAwareCompare env x y < 0)" using assms by (simp add: coin_services_def)
  have int: "strict_weak UNIV ((<) :: int \<Rightarrow> int \<Rightarrow> bool)" by (rule strict_total_weak [OF strict_total_linorder])
  have "(\<lambda>x y. coin_cmp env m x y < 0) =
      (if m_sort m = ''amount'' then (\<lambda>x y. coin_amount x < coin_amount y)
       else if m_sort m = ''label'' then
         (\<lambda>x y. localeAwareCompare env (toCaseFolded env (coin_note x)) (toCaseFolded env (coin_note y)) < 0)
       else (\<lambda>x y. coin_date x < coin_date y))"
    by (auto simp: coin_cmp_def fun_eq_iff)
  then have "strict_weak A (\<lambda>x y. coin_cmp env m x y < 0)"
    using strict_weak_key [OF int, of A coin_amount] strict_weak_key [OF int, of A coin_date]
      strict_weak_key [OF l, of A "\<lambda>c. toCaseFolded env (coin_note c)"] by auto
  with strict_weak_rev [OF this] show ?thesis unfolding cmp_less_def by (rule strict_weak_if)
qed

lemma coin_less_total:
  assumes "coin_services env" "grouped m" "inj_on outpoint A"
  shows "strict_total A (coin_less env m)"
proof -
  have "strict_total A (\<lambda>x y. op_less env (outpoint x) (outpoint y))"
    by (rule strict_total_key_on [of UNIV]) (use assms in \<open>simp_all add: coin_services_def\<close>)
  then have "strict_total A (then_less (group_less env m)
      (then_less (cmp_less env m) (\<lambda>x y. op_less env (outpoint x) (outpoint y))))"
    by (intro strict_total_then group_less_weak cmp_less_weak assms(1))
  moreover have "coin_less env m = then_less (group_less env m)
      (then_less (cmp_less env m) (\<lambda>x y. op_less env (outpoint x) (outpoint y)))"
    using coin_less_then [OF assms(1,2)] by (simp add: fun_eq_iff)
  ultimately show ?thesis by simp
qed

text \<open>The comparator the view sorts its row indices with.\<close>

lemma index_less_total:
  assumes "coin_services env" "grouped m" "distinct (map outpoint (m_coins m))"
  shows "strict_total {..<length (m_coins m)} (\<lambda>a b. coin_less env m (m_coins m ! a) (m_coins m ! b))"
proof -
  have "inj_on outpoint (set (m_coins m))" "distinct (m_coins m)" using assms(3) by (simp_all add: distinct_map)
  moreover from this(2) have "inj_on ((!) (m_coins m)) {..<length (m_coins m)}" by (rule inj_on_nth) simp
  moreover have "(!) (m_coins m) ` {..<length (m_coins m)} \<subseteq> set (m_coins m)" by auto
  ultimately show ?thesis
    using strict_total_key_on [OF coin_less_total [OF assms(1,2)]] by blast
qed

section \<open>Invariants\<close>

definition view_ok :: "coin_env \<Rightarrow> CoinsModel \<Rightarrow> bool" where
  "view_ok env m \<longleftrightarrow> grouped m \<and> m = rebuildView env m"

lemma rebuildView_fields [simp]:
  "m_coins (rebuildView env m) = m_coins m" "m_group (rebuildView env m) = m_group m"
  "m_previous_selection (rebuildView env m) = m_previous_selection m" "m_search (rebuildView env m) = m_search m"
  "m_sort (rebuildView env m) = m_sort m" "m_filter (rebuildView env m) = m_filter m"
  "m_min_amount (rebuildView env m) = m_min_amount m" "m_max_amount (rebuildView env m) = m_max_amount m"
  "m_descending (rebuildView env m) = m_descending m"
  by (simp_all add: rebuildView_def)

text \<open>The view depends on the fields other than itself and the remembered selection.\<close>

lemma rebuildView_frame:
  "rebuildView env (m\<lparr>m_visible := v\<rparr>) = rebuildView env m"
  "rebuildView env (m\<lparr>m_previous_selection := p\<rparr>) = (rebuildView env m)\<lparr>m_previous_selection := p\<rparr>"
proof -
  have sel: "m_group (m\<lparr>m_visible := v\<rparr>) = m_group m" "m_descending (m\<lparr>m_visible := v\<rparr>) = m_descending m"
    "m_sort (m\<lparr>m_visible := v\<rparr>) = m_sort m" "m_filter (m\<lparr>m_visible := v\<rparr>) = m_filter m"
    "m_search (m\<lparr>m_visible := v\<rparr>) = m_search m" "m_min_amount (m\<lparr>m_visible := v\<rparr>) = m_min_amount m"
    "m_max_amount (m\<lparr>m_visible := v\<rparr>) = m_max_amount m"
    "m_group (m\<lparr>m_previous_selection := p\<rparr>) = m_group m" "m_descending (m\<lparr>m_previous_selection := p\<rparr>) = m_descending m"
    "m_sort (m\<lparr>m_previous_selection := p\<rparr>) = m_sort m" "m_filter (m\<lparr>m_previous_selection := p\<rparr>) = m_filter m"
    "m_search (m\<lparr>m_previous_selection := p\<rparr>) = m_search m" "m_min_amount (m\<lparr>m_previous_selection := p\<rparr>) = m_min_amount m"
    "m_max_amount (m\<lparr>m_previous_selection := p\<rparr>) = m_max_amount m" for v p by simp_all
  have "coin_less env (m\<lparr>m_visible := v\<rparr>) = coin_less env m" "coin_visible env (m\<lparr>m_visible := v\<rparr>) = coin_visible env m"
    "coin_less env (m\<lparr>m_previous_selection := p\<rparr>) = coin_less env m"
    "coin_visible env (m\<lparr>m_previous_selection := p\<rparr>) = coin_visible env m" for v p
    by (simp_all only: fun_eq_iff coin_less_def coin_visible_def coin_cmp_def sel simp_thms)
  then show "rebuildView env (m\<lparr>m_visible := v\<rparr>) = rebuildView env m"
    "rebuildView env (m\<lparr>m_previous_selection := p\<rparr>) = (rebuildView env m)\<lparr>m_previous_selection := p\<rparr>"
    by (simp_all add: rebuildView_def)
qed

lemma rebuildView_twice: "rebuildView env (rebuildView env m) = rebuildView env m"
  using rebuildView_frame(1) [where env = env and m = m and v = "m_visible (rebuildView env m)"]
  by (simp add: rebuildView_def)

lemma view_ok_rebuild: "grouped m \<Longrightarrow> view_ok env (rebuildView env m)"
  by (simp add: view_ok_def rebuildView_twice grouped_def)

lemma view_ok_previous: "view_ok env m \<Longrightarrow> view_ok env (m\<lparr>m_previous_selection := p\<rparr>)"
  by (simp add: view_ok_def grouped_def rebuildView_frame)

definition outpoints :: "CoinsModel \<Rightarrow> outpoint set" where
  "outpoints m = outpoint ` set (m_coins m)"

text \<open>The view is up to date, each coin occurs once, and only existing coins are selected.\<close>

definition coins_ok :: "coin_env \<Rightarrow> coin_state \<Rightarrow> bool" where
  "coins_ok env s \<longleftrightarrow> view_ok env (snd s) \<and> distinct (map outpoint (m_coins (snd s))) \<and>
     set (selected_coins (fst s)) \<subseteq> outpoints (snd s) \<and> distinct (selected_coins (fst s))"

definition lists_once :: "(nat \<times> (outpoint \<times> txo) list) list \<Rightarrow> bool" where
  "lists_once cs \<longleftrightarrow> distinct (concat (map (\<lambda>(d, outs). map fst outs) cs))"

definition listed :: "(nat \<times> (outpoint \<times> txo) list) list \<Rightarrow> outpoint list" where
  "listed cs = concat (map (\<lambda>(d, outs). map fst (filter (\<lambda>(o1, out). \<not> is_spent out) outs)) cs)"

lemma list_unspent_outpoints: "map outpoint (list_unspent env w) = listed (coins_list w)"
  by (auto simp: list_unspent_def listed_def map_concat Let_def comp_def intro!: arg_cong [of _ _ concat])

lemma listed_subset: "set (listed cs) \<subseteq> set (concat (map (\<lambda>(d, outs). map fst outs) cs))"
  by (force simp: listed_def)

lemma listed_distinct: "lists_once cs \<Longrightarrow> distinct (listed cs)"
proof (induction cs)
  case (Cons c cs)
  obtain d outs where c: "c = (d, outs)" by (cases c)
  have dist: "distinct (map fst (filter (\<lambda>(o1, out). \<not> is_spent out) outs))"
    using Cons.prems c by (simp add: lists_once_def distinct_map_filter)
  have rest: "lists_once cs" using Cons.prems c by (simp add: lists_once_def)
  have "fst ` set outs \<inter> set (concat (map (\<lambda>(d, outs). map fst outs) cs)) = {}"
    using Cons.prems c by (simp add: lists_once_def)
  moreover have "set (map fst (filter (\<lambda>(o1, out). \<not> is_spent out) outs)) \<subseteq> fst ` set outs" by auto
  ultimately have "set (map fst (filter (\<lambda>(o1, out). \<not> is_spent out) outs)) \<inter> set (listed cs) = {}"
    using listed_subset [of cs] by blast
  with Cons.IH [OF rest] dist show ?case by (simp add: c listed_def)
qed (simp add: listed_def)

lemma unselect_loop:
  "fold (\<lambda>sel w. if \<forall>c \<in> set coins. outpoint c \<noteq> sel then unselectCoin sel w else w) sels w =
     w\<lparr>selected_coins := filter (\<lambda>o1. \<not> (o1 \<in> set sels \<and> o1 \<notin> outpoint ` set coins)) (selected_coins w)\<rparr>"
proof (induction sels arbitrary: w)
  case (Cons sel sels)
  have e: "(\<forall>c \<in> set coins. outpoint c \<noteq> sel) \<longleftrightarrow> sel \<notin> outpoint ` set coins" by auto
  have "filter (\<lambda>o1. \<not> (o1 \<in> set sels \<and> o1 \<notin> outpoint ` set coins))
      (if sel \<notin> outpoint ` set coins then removeAll sel xs else xs) =
      filter (\<lambda>o1. \<not> (o1 \<in> set (sel # sels) \<and> o1 \<notin> outpoint ` set coins)) xs" for xs
    by (induction xs) auto
  from this [of "selected_coins w"] show ?case unfolding fold_simps Cons.IH e
    by (simp add: unselectCoin_def split: if_splits)
qed simp

text \<open>What \<open>update\<close> does to the selection: it keeps the coins that still exist.\<close>

lemma coins_update_eq:
  "coins_update env (w, m) =
     (w\<lparr>selected_coins := filter (\<lambda>o1. o1 \<in> set (listed (coins_list w))) (selected_coins w)\<rparr>,
      rebuildView env (m\<lparr>m_coins := list_unspent env w\<rparr>))"
proof -
  have "outpoint ` set (list_unspent env w) = set (listed (coins_list w))"
    by (metis list.set_map list_unspent_outpoints)
  then show ?thesis
    by (simp add: coins_update_def Let_def unselect_loop rebuildView_frame)
      (auto intro!: filter_cong arg_cong [of _ _ "\<lambda>x. w\<lparr>selected_coins := x\<rparr>"])
qed

lemma coins_update_ok:
  assumes "grouped m" "lists_once (coins_list w)" "distinct (selected_coins w)"
  shows "coins_ok env (coins_update env (w, m))"
  using assms list_unspent_outpoints [of env w] listed_distinct [OF assms(2)]
  by (auto simp: coins_ok_def coins_update_eq view_ok_rebuild grouped_def outpoints_def simp flip: list.set_map)

text \<open>The wallet keeps listing every coin once, in the sense of the hypothesis of the theorems below.\<close>

definition coins_inv :: "coin_env \<Rightarrow> coin_state \<Rightarrow> bool" where
  "coins_inv env s \<longleftrightarrow> coins_ok env s \<and> lists_once (coins_list (fst s))"

lemma setSelected_set: "set (selected_coins (setSelectedCoins outs w)) = set outs"
  "distinct (selected_coins (setSelectedCoins outs w))"
proof -
  have "set (selected_coins (fold selectCoin outs w)) = set outs \<union> set (selected_coins w) \<and>
      (distinct (selected_coins w) \<longrightarrow> distinct (selected_coins (fold selectCoin outs w)))" for w
    by (induction outs arbitrary: w) (auto simp: selectCoin_def)
  then show "set (selected_coins (setSelectedCoins outs w)) = set outs"
    "distinct (selected_coins (setSelectedCoins outs w))" by (auto simp: setSelectedCoins_def)
qed

lemma setSelected_list: "coins_list (setSelectedCoins outs w) = coins_list w"
proof -
  have "coins_list (fold selectCoin outs w) = coins_list w" for w
    by (induction outs arbitrary: w) (simp_all add: selectCoin_def)
  then show ?thesis by (simp add: setSelectedCoins_def)
qed

lemma lock_loop_wallet:
  "coins_list (snd (lock_loop env ids b cs ok w)) = coins_list w \<and>
   set (selected_coins (snd (lock_loop env ids b cs ok w))) \<subseteq> set (selected_coins w) \<and>
   (distinct (selected_coins w) \<longrightarrow> distinct (selected_coins (snd (lock_loop env ids b cs ok w))))"
proof (induction cs arbitrary: ok w)
  case (Cons c cs)
  let ?l = "lockCoin env b (outpoint c) w"
  let ?w1 = "if fst ?l \<and> b then unselectCoin (outpoint c) (snd ?l) else snd ?l"
  have "coins_list ?w1 = coins_list w" "set (selected_coins ?w1) \<subseteq> set (selected_coins w)"
    "distinct (selected_coins w) \<longrightarrow> distinct (selected_coins ?w1)"
    by (auto simp: lockCoin_def unselectCoin_def distinct_removeAll)
  with Cons.IH [of "fst ?l \<and> ok" ?w1] Cons.IH [of ok w] show ?case by (auto simp: case_prod_beta Let_def)
qed simp

lemma view_setters:
  assumes "view_ok env m"
  shows "view_ok env (setSearchText env v m)" "view_ok env (setSortBy env t m)" "view_ok env (setSortDescending env b m)"
    "view_ok env (coins_setFilter env t m)" "view_ok env (coins_setGroupBy env t m)"
    "view_ok env (coins_setMinAmount env i m)" "view_ok env (coins_setMaxAmount env i m)"
  using assms
  by (auto simp: setSearchText_def setSortBy_def setSortDescending_def coins_setFilter_def coins_setGroupBy_def
      coins_setMinAmount_def coins_setMaxAmount_def Let_def intro!: view_ok_rebuild)
    (auto simp: view_ok_def grouped_def)

lemma setters_coins:
  "m_coins (setSearchText env v m) = m_coins m" "m_coins (setSortBy env t m) = m_coins m"
  "m_coins (setSortDescending env b m) = m_coins m" "m_coins (coins_setFilter env t m) = m_coins m"
  "m_coins (coins_setGroupBy env t m) = m_coins m" "m_coins (coins_setMinAmount env i m) = m_coins m"
  "m_coins (coins_setMaxAmount env i m) = m_coins m"
  "m_previous_selection (setSearchText env v m) = m_previous_selection m"
  "m_previous_selection (setSortBy env t m) = m_previous_selection m"
  "m_previous_selection (setSortDescending env b m) = m_previous_selection m"
  "m_previous_selection (coins_setFilter env t m) = m_previous_selection m"
  "m_previous_selection (coins_setGroupBy env t m) = m_previous_selection m"
  "m_previous_selection (coins_setMinAmount env i m) = m_previous_selection m"
  "m_previous_selection (coins_setMaxAmount env i m) = m_previous_selection m"
  by (simp_all add: setSearchText_def setSortBy_def setSortDescending_def coins_setFilter_def coins_setGroupBy_def
      coins_setMinAmount_def coins_setMaxAmount_def Let_def)

lemma coins_inv_model:
  "coins_inv env (w, m) \<Longrightarrow> view_ok env m' \<Longrightarrow> m_coins m' = m_coins m \<Longrightarrow> coins_inv env (w, m')"
  by (simp add: coins_inv_def coins_ok_def outpoints_def)

lemma coins_inv_update:
  assumes "grouped m" "lists_once (coins_list w)" "distinct (selected_coins w)"
  shows "coins_inv env (coins_update env (w, m))"
  using coins_update_ok [OF assms, of env] assms(2) by (simp add: coins_inv_def coins_update_eq)

lemma toggle_inv:
  assumes "coins_inv env (w, m)"
  shows "coins_inv env (snd (toggleCoinSelectionById env cid (w, m)))"
proof (cases "find (\<lambda>c. coin_id env c = cid) (m_coins m)")
  case (Some c)
  then have "c \<in> set (m_coins m)" by (auto simp: find_Some_iff)
  with assms Some show ?thesis
    by (auto simp: toggleCoinSelectionById_def coins_inv_def coins_ok_def selectCoin_def unselectCoin_def outpoints_def
        distinct_removeAll)
qed (use assms in \<open>simp add: toggleCoinSelectionById_def\<close>)

definition coin_op_ok :: "coin_op \<Rightarrow> bool" where
  "coin_op_ok p \<longleftrightarrow> (\<forall>cs. p = WalletCoins cs \<longrightarrow> lists_once cs)"

lemma coin_step_inv:
  assumes "coins_inv env s" "coin_op_ok p"
  shows "coins_inv env (coin_step env p s)"
proof -
  obtain w m where s: "s = (w, m)" by (cases s)
  have v: "view_ok env m" "grouped m" "lists_once (coins_list w)" "distinct (selected_coins w)"
    using assms by (auto simp: s coins_inv_def coins_ok_def view_ok_def)
  note upd = coins_inv_update [OF v(2), of _ env]
  show ?thesis
  proof (cases p)
    case (WalletCoins cs)
    with assms v upd [of "w\<lparr>coins_list := cs\<rparr>"] show ?thesis by (simp add: s coin_op_ok_def)
  next
    case BeginSelection
    obtain w1 m1 where u: "coins_update env (w, m) = (w1, m1)" by (cases "coins_update env (w, m)")
    have "coins_inv env (w1, m1)" using upd [of w] v u by simp
    moreover from this have "view_ok env (m1\<lparr>m_previous_selection := x\<rparr>)" for x
      using view_ok_previous by (simp add: coins_inv_def coins_ok_def)
    ultimately show ?thesis using assms(1) u coins_inv_model BeginSelection by (simp add: s beginSelection_def)
  next
    case CancelSelection
    have "coins_inv env (w', m\<lparr>m_previous_selection := None\<rparr>)"
      if "coins_inv env (w', m)" for w' using coins_inv_model [OF that view_ok_previous [OF v(1)]] by simp
    moreover have "coins_inv env (setSelectedCoins (filter (\<lambda>o1. \<exists>c \<in> set (m_coins m). outpoint c = o1) previous) w, m)"
      for previous using assms(1) setSelected_set [of _ w]
      by (auto simp: s coins_inv_def coins_ok_def setSelected_list outpoints_def)
    ultimately show ?thesis using CancelSelection assms(1) by (simp add: s cancelSelection_def split: option.split)
  next
    case (SetLocked ids b)
    note l = lock_loop_wallet [of env ids b "m_coins m" True w]
    obtain ok w1 where w1: "lock_loop env ids b (m_coins m) True w = (ok, w1)" by fastforce
    then show ?thesis using SetLocked upd [of w1] v l by (simp add: s setCoinsLocked_def)
  next
    case (Toggle row)
    with assms(1) toggle_inv show ?thesis by (simp add: s toggleCoinSelection_def)
  next
    case ApplySelection
    with assms(1) coins_inv_model view_ok_previous [OF v(1)] show ?thesis by (simp add: s applySelection_def)
  qed (use assms(1) v upd [of w] view_setters [OF v(1)] coins_inv_model toggle_inv setters_coins in \<open>simp_all add: s\<close>)
qed

lemma coin_run_inv: "coins_inv env s \<Longrightarrow> list_all coin_op_ok ops \<Longrightarrow> coins_inv env (coin_run env ops s)"
  unfolding coin_run_def by (induction ops arbitrary: s) (simp_all add: coin_step_inv)

lemma view_ok_visible: "view_ok env m \<Longrightarrow>
   m_visible m = sort_by (\<lambda>a b. coin_less env m (m_coins m ! a) (m_coins m ! b))
      (filter (\<lambda>i. coin_visible env m (m_coins m ! i)) [0..<length (m_coins m)])"
  unfolding view_ok_def by (metis CoinsModel.select_convs(2) CoinsModel.simps(2) CoinsModel.update_convs(2)
      CoinsModel.surjective rebuildView_def)

lemma groupTitle_key:
  "coin_services env \<Longrightarrow> groupTitle env m x = groupTitle env m y \<longleftrightarrow> group_key env m x = group_key env m y"
  by (auto simp: groupTitle_def group_key_def coin_services_def)

lemma coin_less_not_group: "coin_services env \<Longrightarrow> grouped m \<Longrightarrow> coin_less env m x y \<Longrightarrow> \<not> group_less env m y x"
  using strict_weak.lt_asym [OF group_less_weak [of UNIV env m], of x y] by (auto simp: coin_less_then then_less_def)

lemma group_less_total: "group_key env m x \<noteq> group_key env m y \<Longrightarrow> group_less env m x y \<or> group_less env m y x"
  using qless_total by (auto simp: group_less_def)

lemma group_less_cong:
  "group_key env m x = group_key env m x' \<Longrightarrow> group_less env m x y = group_less env m x' y"
  by (simp add: group_less_def)

lemma coin_less_convex:
  assumes "coin_services env" "grouped m" "coin_less env m x y" "coin_less env m y z" "group_key env m x = group_key env m z"
  shows "group_key env m y = group_key env m x"
  using coin_less_not_group [OF assms(1-3)] coin_less_not_group [OF assms(1,2,4)] group_less_total [of env m y x]
    group_less_cong [OF assms(5), of y] by blast

text \<open>The coins of the model are the unspent coins the wallet lists.\<close>

definition synced :: "coin_state \<Rightarrow> bool" where
  "synced s \<longleftrightarrow> map outpoint (m_coins (snd s)) = listed (coins_list (fst s))"

lemma update_synced: "synced (coins_update env s)"
  by (cases s) (simp add: synced_def coins_update_eq list_unspent_outpoints)

lemma toggle_frame:
  "snd (snd (toggleCoinSelectionById env cid s)) = snd s"
  "coins_list (fst (snd (toggleCoinSelectionById env cid s))) = coins_list (fst s)"
  "snd (toggleCoinSelection env row s) = snd s" "coins_list (fst (toggleCoinSelection env row s)) = coins_list (fst s)"
proof -
  show t: "snd (snd (toggleCoinSelectionById env cid s)) = snd s"
    "coins_list (fst (snd (toggleCoinSelectionById env cid s))) = coins_list (fst s)" for cid
    by (simp_all add: toggleCoinSelectionById_def selectCoin_def unselectCoin_def split: prod.split option.split)
  show "snd (toggleCoinSelection env row s) = snd s" "coins_list (fst (toggleCoinSelection env row s)) = coins_list (fst s)"
    using t [of "coin_id env (coin_at (snd s) (nat row))"] by (cases s, simp add: toggleCoinSelection_def)+
qed

lemma coin_step_synced: "synced s \<Longrightarrow> synced (coin_step env p s)"
proof (cases p)
  case BeginSelection
  assume "synced s"
  with update_synced [of env s] show ?thesis
    using BeginSelection by (auto simp: beginSelection_def synced_def Let_def split: prod.split)
next
  case (SetLocked ids b)
  then show ?thesis by (simp add: setCoinsLocked_def case_prod_beta Let_def update_synced)
qed (simp_all add: update_synced, auto simp: synced_def toggle_frame setters_coins applySelection_def cancelSelection_def
    setSelected_list split: prod.split option.split)

lemma coin_run_synced: "synced s \<Longrightarrow> synced (coin_run env ops s)"
  unfolding coin_run_def by (induction ops arbitrary: s) (simp_all add: coin_step_synced)

text \<open>Only applying or cancelling forgets the selection to return to.\<close>

lemma update_previous: "m_previous_selection (snd (coins_update env s)) = m_previous_selection (snd s)"
  by (cases s) (simp add: coins_update_eq)

lemma coin_step_previous:
  assumes "m_previous_selection (snd s) = Some p" "op \<noteq> ApplySelection" "op \<noteq> CancelSelection"
  shows "m_previous_selection (snd (coin_step env op s)) = Some p"
  using assms by (cases op) (simp_all add: update_previous toggle_frame setters_coins beginSelection_def setCoinsLocked_def
      case_prod_beta Let_def)

lemma coin_run_previous:
  "m_previous_selection (snd s) = Some p \<Longrightarrow> ApplySelection \<notin> set ops \<Longrightarrow> CancelSelection \<notin> set ops \<Longrightarrow>
   m_previous_selection (snd (coin_run env ops s)) = Some p"
  unfolding coin_run_def by (induction ops arbitrary: s) (use coin_step_previous in \<open>simp_all add: eq_commute [of ApplySelection] eq_commute [of CancelSelection]\<close>)

lemma begin_selected:
  assumes "coins_inv env s" "synced s" "m_previous_selection (snd s) = None"
  shows "m_previous_selection (snd (beginSelection env s)) = Some (selected_coins (fst s))"
proof -
  obtain w m where s: "s = (w, m)" by (cases s)
  have "set (selected_coins w) \<subseteq> set (listed (coins_list w))"
  proof -
    have "outpoint ` set (m_coins m) = set (listed (coins_list w))" using assms(2) unfolding s synced_def snd_conv fst_conv by (metis list.set_map)
    then show ?thesis using assms(1) unfolding s coins_inv_def coins_ok_def outpoints_def snd_conv fst_conv by blast
  qed
  then have "filter (\<lambda>o1. o1 \<in> set (listed (coins_list w))) (selected_coins w) = selected_coins w"
    by (auto intro: filter_True)
  then show ?thesis using assms(3) by (simp add: s beginSelection_def coins_update_eq)
qed

definition lock_effect :: "bool \<Rightarrow> outpoint \<Rightarrow> coin_wallet \<Rightarrow> bool" where
  "lock_effect b o1 w \<longleftrightarrow> (o1 \<in> set (locked_coins w) \<longleftrightarrow> b) \<and> (b \<longrightarrow> o1 \<notin> set (selected_coins w))"

definition lock_one :: "coin_env \<Rightarrow> bool \<Rightarrow> outpoint \<Rightarrow> coin_wallet \<Rightarrow> coin_wallet" where
  "lock_one env b o1 w = (let l = lockCoin env b o1 w in if fst l \<and> b then unselectCoin o1 (snd l) else snd l)"

lemma lock_loop_Cons:
  "snd (lock_loop env ids b (x # xs) ok w) =
     (if coin_id env x \<notin> set ids \<or> coin_locked x = b then snd (lock_loop env ids b xs ok w)
      else snd (lock_loop env ids b xs (fst (lockCoin env b (outpoint x) w) \<and> ok) (lock_one env b (outpoint x) w)))"
  by (simp add: lock_one_def case_prod_beta Let_def)

lemma lock_one_kept: "lock_effect b o1 w \<Longrightarrow> lock_effect b o1 (lock_one env b o2 w)"
  by (cases b) (auto simp: lock_one_def Let_def lock_effect_def lockCoin_def unselectCoin_def)

lemma lock_one_effect: "lock_succeeds env o1 b \<Longrightarrow> lock_effect b o1 (lock_one env b o1 w)"
  by (cases b) (simp_all add: lock_one_def Let_def lock_effect_def lockCoin_def unselectCoin_def)

lemma lock_loop_kept: "lock_effect b o1 w \<Longrightarrow> lock_effect b o1 (snd (lock_loop env ids b xs ok w))"
proof (induction xs arbitrary: ok w)
  case (Cons x xs)
  show ?case unfolding lock_loop_Cons using Cons.IH Cons.prems lock_one_kept by presburger
qed simp

lemma lock_loop_locked:
  assumes "c \<in> set cs" "coin_id env c \<in> set ids" "coin_locked c \<noteq> b" "lock_succeeds env (outpoint c) b"
  shows "lock_effect b (outpoint c) (snd (lock_loop env ids b cs ok w))"
  using assms(1)
proof (induction cs arbitrary: ok w)
  case (Cons x xs)
  show ?case
  proof (cases "x = c")
    case True
    then show ?thesis unfolding lock_loop_Cons using assms(2,3) lock_loop_kept lock_one_effect [OF assms(4)] by presburger
  next
    case False
    then have "c \<in> set xs" using Cons.prems by simp
    then show ?thesis unfolding lock_loop_Cons using Cons.IH by presburger
  qed
qed simp

section \<open>Witnesses\<close>

definition demo_env :: coin_env where
  "demo_env = \<lparr>hex = number_nat, op_less = (\<lambda>x y. op_hash x < op_hash y \<or> op_hash x = op_hash y \<and> op_n x < op_n y),
     ExtractDestination = (\<lambda>s. if s = 0 then None else Some s), EncodeDestination = number_nat, getAddressLabel = (\<lambda>a. q ''coin'' @ a),
     fold_unit = (\<lambda>c. c), toCaseFolded = (\<lambda>s. s), localeAwareCompare = (\<lambda>x y. int (length x) - int (length y)),
     date_text = (\<lambda>f d. number_nat (nat d)), lock_succeeds = (\<lambda>o1 b. True)\<rparr>"

definition demo_out :: "nat \<Rightarrow> int \<Rightarrow> outpoint \<times> txo" where
  "demo_out i v = (OutPoint i 0, \<lparr>is_spent = False, script = i, nValue = v, txo_time = 5\<rparr>)"

definition demo_wallet :: coin_wallet where
  "demo_wallet = \<lparr>coins_list = [(9, [demo_out 0 70, demo_out 1 20, demo_out 2 50])], locked_coins = [], selected_coins = [OutPoint 1 0]\<rparr>"

definition demo_before :: "coin_op list" where
  "demo_before = [SortBy ''amount'', MinAmount 30, SetLocked [q ''2:0''] True]"

definition demo_ops :: "coin_op list" where
  "demo_ops = [Toggle 0, ToggleId (q ''1:0''), WalletCoins [(9, [demo_out 0 70, demo_out 1 20, demo_out 3 50])]]"

lemma demo_services: "coin_services demo_env"
proof -
  have "strict_total UNIV (op_less demo_env)"
    unfolding demo_env_def by unfold_locales (auto intro: outpoint.expand)
  moreover have "strict_weak UNIV (\<lambda>x y. localeAwareCompare demo_env x y < 0)"
    unfolding demo_env_def by unfold_locales auto
  ultimately show ?thesis by (auto simp: coin_services_def demo_env_def)
qed

lemma demo_wallet_ok: "lists_once (coins_list demo_wallet)" "distinct (selected_coins demo_wallet)"
  "list_all coin_op_ok demo_before" "list_all coin_op_ok (demo_before @ demo_ops)"
  by (simp_all add: demo_wallet_def demo_out_def lists_once_def coin_op_ok_def demo_before_def demo_ops_def)

section \<open>Properties\<close>

text \<open>
  C6: after any sequence of wallet changes and view operations the list shows exactly the coins that
  pass the search, the lock filter and the inclusive amount bounds, strictly sorted by group, sort key
  and outpoint; this is the only such arrangement, so the result does not depend on the sorting
  routine; and the rows of a group are adjacent, so \<open>groupFirst\<close> and \<open>groupLast\<close> delimit whole groups.
\<close>

theorem coins_view:
  assumes "coin_services env" "lists_once (coins_list w)" "distinct (selected_coins w)" "list_all coin_op_ok ops"
    and "coin_run env ops (coins_update env (w, new_CoinsModel)) = (w', m)"
  defines "lt \<equiv> \<lambda>a b. coin_less env m (m_coins m ! a) (m_coins m ! b)"
  shows "set (m_visible m) = {i. i < length (m_coins m) \<and> coin_visible env m (m_coins m ! i)} \<and>
     distinct (m_visible m) \<and> sorted_wrt lt (m_visible m) \<and>
     (\<forall>ys. sorted_wrt lt ys \<and> set ys = set (m_visible m) \<longrightarrow> ys = m_visible m) \<and>
     (\<forall>i j l. i \<le> j \<and> j \<le> l \<and> l < coins_rowCount m \<and> groupTitle env m (coin_at m i) = groupTitle env m (coin_at m l) \<longrightarrow>
        groupTitle env m (coin_at m j) = groupTitle env m (coin_at m i))"
proof -
  have "grouped new_CoinsModel" by (simp add: grouped_def new_CoinsModel_def)
  then have "coins_inv env (w', m)"
    using coin_run_inv [OF coins_inv_update [OF _ assms(2,3)] assms(4)] assms(5) by metis
  then have v: "view_ok env m" "grouped m" and d: "distinct (map outpoint (m_coins m))"
    by (auto simp: coins_inv_def coins_ok_def view_ok_def)
  let ?A = "{..<length (m_coins m)}"
  have tot: "strict_total ?A lt" unfolding lt_def by (rule index_less_total [OF assms(1) v(2) d])
  define xs where "xs = filter (\<lambda>i. coin_visible env m (m_coins m ! i)) [0..<length (m_coins m)]"
  have vis: "m_visible m = sort_by lt xs" using view_ok_visible [OF v(1)] by (simp add: lt_def xs_def)
  have xs: "distinct xs" "set xs = {i. i < length (m_coins m) \<and> coin_visible env m (m_coins m ! i)}" "set xs \<subseteq> ?A"
    by (auto simp: xs_def)
  have sorted: "sorted_wrt lt (m_visible m)" unfolding vis by (rule strict_total.sort_by_strict [OF tot xs(3,1)])
  have uniq: "ys = m_visible m" if "sorted_wrt lt ys" "set ys = set (m_visible m)" for ys
    unfolding vis using strict_total.sort_by_unique [OF tot xs(3,1) that(1)] that(2) by (simp add: vis)
  have sub: "set (m_visible m) \<subseteq> ?A" using xs by (simp add: vis)
  have conv: "group_key env m (m_coins m ! b) = group_key env m (m_coins m ! a)"
    if "lt a b" "lt b c" "group_key env m (m_coins m ! a) = group_key env m (m_coins m ! c)" for a b c
    using that coin_less_convex [OF assms(1) v(2)] unfolding lt_def by blast
  have cont: "groupTitle env m (coin_at m j) = groupTitle env m (coin_at m i)"
    if "i \<le> j" "j \<le> l" "l < coins_rowCount m" "groupTitle env m (coin_at m i) = groupTitle env m (coin_at m l)" for i j l
    using strict_total.sorted_contiguous [OF tot sorted sub that(1,2), of "\<lambda>a. group_key env m (m_coins m ! a)"] that(3,4) conv
    unfolding groupTitle_key [OF assms(1)] coin_at_def coins_rowCount_def by simp
  show ?thesis
  proof (intro conjI allI impI)
    show "set (m_visible m) = {i. i < length (m_coins m) \<and> coin_visible env m (m_coins m ! i)}"
      unfolding vis set_sort_by by (rule xs(2))
    show "distinct (m_visible m)" unfolding vis distinct_sort_by by (rule xs(1))
    show "sorted_wrt lt (m_visible m)" by (rule sorted)
    show "ys = m_visible m" if "sorted_wrt lt ys \<and> set ys = set (m_visible m)" for ys using uniq that by blast
    show "groupTitle env m (coin_at m j) = groupTitle env m (coin_at m i)"
      if "i \<le> j \<and> j \<le> l \<and> l < coins_rowCount m \<and> groupTitle env m (coin_at m i) = groupTitle env m (coin_at m l)" for i j l
      using cont that by blast
  qed
qed

theorem coins_view_witness:
  "\<exists>w m. coin_run demo_env demo_before (coins_update demo_env (demo_wallet, new_CoinsModel)) = (w, m) \<and> m_visible m = [0, 2] \<and>
     set (m_visible m) = {i. i < 3 \<and> coin_visible demo_env m (m_coins m ! i)}"
proof -
  obtain w m where r: "coin_run demo_env demo_before (coins_update demo_env (demo_wallet, new_CoinsModel)) = (w, m)" by fastforce
  have c: "map_prod id (\<lambda>m. (m_visible m, length (m_coins m)))
      (coin_run demo_env demo_before (coins_update demo_env (demo_wallet, new_CoinsModel))) =
      (fst (coin_run demo_env demo_before (coins_update demo_env (demo_wallet, new_CoinsModel))), [0, 2], 3)" by code_simp
  show ?thesis using coins_view [OF demo_services demo_wallet_ok(1-3) r] r c by simp
qed

text \<open>
  cancelling a selection restores it. Whatever the user toggles, locks, sorts or filters after
  beginning a selection, and whatever coins appear or are spent meanwhile, cancelling selects exactly
  the coins that were selected at the beginning and still exist.
\<close>

theorem selection_cancel:
  assumes "lists_once (coins_list w)" "distinct (selected_coins w)" "list_all coin_op_ok (before @ ops)"
    "ApplySelection \<notin> set ops" "CancelSelection \<notin> set ops"
    and s: "s = coin_run env before (coins_update env (w, new_CoinsModel))" "m_previous_selection (snd s) = None"
    and "coin_run env (BeginSelection # ops @ [CancelSelection]) s = (w', m')"
  shows "set (selected_coins w') = set (selected_coins (fst s)) \<inter> set (listed (coins_list w')) \<and>
     distinct (selected_coins w') \<and> m_previous_selection m' = None \<and> outpoints m' = set (listed (coins_list w'))"
proof -
  let ?b = "beginSelection env s" let ?r = "coin_run env ops ?b"
  have "grouped new_CoinsModel" by (simp add: grouped_def new_CoinsModel_def)
  then have i: "coins_inv env s" "synced s"
    using coin_run_inv [OF coins_inv_update [OF _ assms(1,2)], of new_CoinsModel before] assms(3)
    by (simp_all add: s(1) coin_run_synced update_synced)
  have p: "m_previous_selection (snd ?r) = Some (selected_coins (fst s))"
    by (rule coin_run_previous [OF begin_selected [OF i s(2)] assms(4,5)])
  have y: "synced ?r" using coin_run_synced coin_step_synced [OF i(2), of env BeginSelection] by simp
  obtain w1 m1 where r: "?r = (w1, m1)" by (cases ?r)
  have "cancelSelection (w1, m1) = (w', m')" using assms(8) r by (simp add: coin_run_def)
  then have w': "w' = setSelectedCoins (filter (\<lambda>o1. \<exists>c \<in> set (m_coins m1). outpoint c = o1) (selected_coins (fst s))) w1"
    "m' = m1\<lparr>m_previous_selection := None\<rparr>"
    using p r by (simp_all add: cancelSelection_def)
  have o: "outpoint ` set (m_coins m1) = set (listed (coins_list w1))"
    using y r by (simp add: synced_def flip: list.set_map)
  show ?thesis using setSelected_set by (auto simp: w' setSelected_list outpoints_def simp flip: o)
qed

theorem selection_cancel_witness:
  "\<exists>w' m'. coin_run demo_env (BeginSelection # demo_ops @ [CancelSelection])
       (coin_run demo_env demo_before (coins_update demo_env (demo_wallet, new_CoinsModel))) = (w', m') \<and>
     set (selected_coins w') = {OutPoint 1 0} \<inter> set (listed (coins_list w')) \<and> distinct (selected_coins w')"
proof -
  define s where "s = coin_run demo_env demo_before (coins_update demo_env (demo_wallet, new_CoinsModel))"
  obtain w' m' where r: "coin_run demo_env (BeginSelection # demo_ops @ [CancelSelection]) s = (w', m')" by fastforce
  have c: "(\<lambda>s. (selected_coins (fst s), m_previous_selection (snd s)))
      (coin_run demo_env demo_before (coins_update demo_env (demo_wallet, new_CoinsModel))) = ([OutPoint 1 0], None)" by code_simp
  have "ApplySelection \<notin> set demo_ops" "CancelSelection \<notin> set demo_ops" by (simp_all add: demo_ops_def)
  from selection_cancel [OF demo_wallet_ok(1,2,4) this s_def _ r] c r show ?thesis by (simp add: s_def)
qed

text \<open>
  a successful lock or unlock of coins takes effect on each of them: after \<open>setCoinsLocked\<close> every
  named coin whose wallet operation succeeds shows the requested lock state, and a coin that was
  locked is no longer selected.
\<close>

theorem lock_takes_effect:
  assumes "coin_run env ops (coins_update env (w0, m0)) = (w, m)" "c \<in> set (m_coins m)" "coin_id env c \<in> set ids"
    "coin_locked c \<noteq> b" "lock_succeeds env (outpoint c) b"
    and "setCoinsLocked env ids b (w, m) = (success, (w', m'))"
  shows "(\<exists>c' \<in> set (m_coins m'). outpoint c' = outpoint c) \<and>
     (\<forall>c' \<in> set (m_coins m'). outpoint c' = outpoint c \<longrightarrow> coin_locked c' = b) \<and>
     (b \<longrightarrow> outpoint c \<notin> set (selected_coins w'))"
proof -
  obtain ok w1 where l: "lock_loop env ids b (m_coins m) True w = (ok, w1)" by fastforce
  note e = lock_loop_locked [OF assms(2-5), of True w, unfolded l snd_conv lock_effect_def]
  have u: "w' = fst (coins_update env (w1, m))" "m' = snd (coins_update env (w1, m))"
    using assms(6) l by (auto simp: setCoinsLocked_def)
  have "synced (w, m)" using coin_run_synced [OF update_synced] assms(1) by metis
  then have "map outpoint (m_coins m') = map outpoint (m_coins m)"
    using lock_loop_wallet [of env ids b "m_coins m" True w] l
    by (simp add: u coins_update_eq list_unspent_outpoints synced_def)
  then have "outpoint c \<in> outpoint ` set (m_coins m')" using assms(2) by (metis imageI list.set_map)
  moreover have "coin_locked c' = (outpoint c' \<in> set (locked_coins w1))" if "c' \<in> set (m_coins m')" for c'
    using that by (auto simp: u coins_update_eq list_unspent_def Let_def)
  moreover have "b \<longrightarrow> outpoint c \<notin> set (selected_coins w')" using e by (auto simp: u coins_update_eq)
  ultimately show ?thesis using e by auto
qed

theorem lock_takes_effect_witness:
  "\<exists>w' m'. setCoinsLocked demo_env [q ''1:0''] True (coin_run demo_env [] (coins_update demo_env (demo_wallet, new_CoinsModel)))
       = (True, (w', m')) \<and> OutPoint 1 0 \<notin> set (selected_coins w')"
proof -
  let ?s = "coin_run demo_env [] (coins_update demo_env (demo_wallet, new_CoinsModel))"
  obtain w m where s: "?s = (w, m)" by fastforce
  obtain b w' m' where l: "setCoinsLocked demo_env [q ''1:0''] True (w, m) = (b, (w', m'))" by (metis surj_pair)
  have "fst (setCoinsLocked demo_env [q ''1:0''] True ?s) = True" by code_simp
  then have b: "b = True" using l s by simp
  have "(\<lambda>c. (outpoint c, coin_locked c, coin_id demo_env c, lock_succeeds demo_env (outpoint c) True)) (m_coins (snd ?s) ! 1) =
      (OutPoint 1 0, False, q ''1:0'', True)" "1 < length (m_coins (snd ?s))" by code_simp+
  then show ?thesis using lock_takes_effect [OF s nth_mem _ _ _ l, of 1] s l b by auto
qed

end
