(* ===== verification/Activity.thy ===== *)
theory Activity
  imports Ordering Units
begin

text \<open>
  \<open>src/qml/models/activityfilterproxymodel.{h,cpp}\<close>: the filtered and sorted view of a wallet's activity
  and the totals it caches.

  Qt's \<open>QSortFilterProxyModel\<close> is used with dynamic sorting and filtering in descending order: its
  rows are the accepted source rows, sorted by the reverse of \<open>lessThan\<close>. It decides about all rows after a reset of the
  source and after every \<open>invalidateFilter\<close>, about inserted rows, and about the rows whose data change; other rows keep the
  decision. It announces inserted, removed and moved rows, and passes
  changes of the data of its rows on with their roles. Calendar and text services are the functions
  of the record \<open>activity_env\<close>; a date is a day number, a time a number of seconds, and
  \<open>currentDate\<close> is the day on which an operation happens, any day for each one.
\<close>

section \<open>Definitions\<close>

datatype ActivityType = Send | Receive | Multiple | Consolidation | Split | InternalTransfer | Mined | Other

datatype ActionDirection = SendAction | ReceiveAction | InternalAction

datatype Status = Confirmed | Unconfirmed | Confirming | Conflicted | Abandoned | Immature | NotAccepted

datatype DateFilter = DateAll | Today | ThisWeek | ThisMonth | ThisYear | CustomRange

datatype GroupBy = Month | Day

datatype ActivityRole = AddressRole | LabelRole | StatusRole | TxidRole | TimestampRole | IsPendingRequestRole
  | NetAmountSatRole | ActivityTypeRole | ActionsRole | IsPendingRole | HasPaymentRequestRole | SearchTextRole

record activity_action =
  direction :: ActionDirection
  amountSat :: int
  action_label :: qstring
  action_address :: qstring
  actionId :: qstring

record activity =
  act_id :: qstring
  act_type :: ActivityType
  act_pending :: bool
  act_pending_request :: bool
  act_has_request :: bool
  act_timestamp :: int
  act_net :: int
  act_actions :: "activity_action list"
  act_address :: qstring
  act_label :: qstring
  act_txid :: qstring
  act_search :: qstring
  act_status :: Status
  act_status_known :: bool
  act_depth :: int
  act_replaced_by :: qstring

record activity_env =
  currentDate :: int
  dayOfWeek :: "int \<Rightarrow> int"
  year :: "int \<Rightarrow> int"
  month :: "int \<Rightarrow> int"
  mk_date :: "int \<Rightarrow> int \<Rightarrow> int \<Rightarrow> int"
  addMonths :: "int \<Rightarrow> int \<Rightarrow> int"
  addYears :: "int \<Rightarrow> int \<Rightarrow> int"
  startOfDay :: "int \<Rightarrow> int"
  iso_date :: "qstring \<Rightarrow> int option"
  time_text :: "string \<Rightarrow> int \<Rightarrow> qstring"
  locale_text :: "string \<Rightarrow> int \<Rightarrow> qstring"
  act_fold_unit :: "qchar \<Rightarrow> qchar"
  tr :: "string \<Rightarrow> qstring"
  act_locale :: QLocale

record activity_model =
  am_source :: "(nat \<times> activity list) option"
  am_view :: "activity list"
  am_decided :: "qstring \<Rightarrow> int"
  am_search :: qstring
  am_date_filter :: DateFilter
  am_type_filters :: "int list"
  am_display_unit :: int
  am_min_amount :: int
  am_max_amount :: int
  am_available_max :: int
  am_pending_balance :: "int option"
  am_range_start :: "int option"
  am_range_end :: "int option"
  am_group_by :: GroupBy

definition new_activity_model :: activity_model where
  "new_activity_model = \<lparr>am_source = None, am_view = [], am_decided = (\<lambda>_. 0), am_search = [], am_date_filter = DateAll, am_type_filters = [],
     am_display_unit = 0, am_min_amount = -1, am_max_amount = -1, am_available_max = 0, am_pending_balance = None,
     am_range_start = None, am_range_end = None, am_group_by = Month\<rparr>"

subsection \<open>Which rows are shown\<close>

text \<open>The numbers of the type filters, in the order of the enumeration \<open>TypeFilter\<close>.\<close>

abbreviation (input) "TypeAll \<equiv> (0::int)"
abbreviation (input) "TypeReceived \<equiv> (1::int)"
abbreviation (input) "TypeSent \<equiv> (2::int)"
abbreviation (input) "TypeSentToSelf \<equiv> (3::int)"
abbreviation (input) "TypeMined \<equiv> (4::int)"
abbreviation (input) "TypeOther \<equiv> (5::int)"
abbreviation (input) "TypePaymentRequest \<equiv> (6::int)"
abbreviation (input) "TypeMultiple \<equiv> (7::int)"
abbreviation (input) "TypeConsolidation \<equiv> (8::int)"
abbreviation (input) "TypeSplit \<equiv> (9::int)"

definition typeMatches :: "activity \<Rightarrow> int \<Rightarrow> bool" where
  "typeMatches r t =
     (if t = TypeAll then True
      else if t = TypePaymentRequest then act_has_request r
      else if act_pending_request r then False
      else if t = TypeMultiple then act_type r = Multiple
      else if t = TypeConsolidation then act_type r = Consolidation
      else if t = TypeSplit then act_type r = Split
      else if t = TypeSentToSelf then act_type r = InternalTransfer \<or> act_type r = Consolidation \<or> act_type r = Split
      else if t = TypeMined then act_type r = Mined
      else if t = TypeOther then act_type r = Other
      else if t = TypeReceived \<or> t = TypeSent then
        (if act_type r = Mined then False
         else \<exists>a \<in> set (act_actions r). direction a = (if t = TypeReceived then ReceiveAction else SendAction))
      else False)"

definition dateMatches :: "activity_env \<Rightarrow> activity_model \<Rightarrow> int \<Rightarrow> bool" where
  "dateMatches env m timestamp =
     (if am_date_filter m = DateAll then True
      else if timestamp \<le> 0 then False
      else
        let current = currentDate env;
            between = (\<lambda>start_date end_date.
              timestamp \<ge> startOfDay env start_date \<and> timestamp < startOfDay env end_date)
        in case am_date_filter m of
             Today \<Rightarrow> between current (current + 1)
           | ThisWeek \<Rightarrow>
               (let start_date = current - (dayOfWeek env current - 1) in between start_date (start_date + 7))
           | ThisMonth \<Rightarrow>
               (let start_date = mk_date env (year env current) (month env current) 1
                in between start_date (addMonths env start_date 1))
           | ThisYear \<Rightarrow>
               (let start_date = mk_date env (year env current) 1 1 in between start_date (addYears env start_date 1))
           | CustomRange \<Rightarrow>
               (case am_range_start m of None \<Rightarrow> True | Some d \<Rightarrow> \<not> timestamp < startOfDay env d) \<and>
               (case am_range_end m of None \<Rightarrow> True | Some d \<Rightarrow> \<not> timestamp \<ge> startOfDay env (d + 1))
           | DateAll \<Rightarrow> True)"

definition filterAcceptsRow :: "activity_env \<Rightarrow> activity_model \<Rightarrow> activity \<Rightarrow> bool" where
  "filterAcceptsRow env m r \<longleftrightarrow>
     dateMatches env m (act_timestamp r) \<and>
     (am_type_filters m \<noteq> [] \<longrightarrow> (\<exists>t \<in> set (am_type_filters m). typeMatches r t)) \<and>
     \<not> (am_min_amount m \<ge> 0 \<and> \<bar>act_net r\<bar> < am_min_amount m \<or> am_max_amount m \<ge> 0 \<and> \<bar>act_net r\<bar> > am_max_amount m) \<and>
     (let search = trimmed (am_search m)
      in search \<noteq> [] \<longrightarrow>
           contains_ci (act_fold_unit env) (act_search r) search \<or>
           contains_ci (act_fold_unit env) (act_address r) search \<or>
           contains_ci (act_fold_unit env) (act_label r) search \<or>
           contains_ci (act_fold_unit env) (act_txid r) search)"

definition activity_lessThan :: "activity \<Rightarrow> activity \<Rightarrow> bool" where
  "activity_lessThan left right =
     (if act_pending left \<noteq> act_pending right then \<not> act_pending left
      else if act_timestamp left = act_timestamp right then qless (act_id left) (act_id right)
      else act_timestamp left < act_timestamp right)"

definition source_rows :: "activity_model \<Rightarrow> activity list" where
  "source_rows m = (case am_source m of None \<Rightarrow> [] | Some (p, rows) \<Rightarrow> rows)"

text \<open>
  The rows of the proxy: \<open>sort(0, Qt::DescendingOrder)\<close>. The proxy remembers its decision about a row; since a row and the settings are
  decided about again whenever they change, it is the decision on the day \<open>am_decided\<close> of the row.
\<close>

definition on_day :: "int \<Rightarrow> activity_env \<Rightarrow> activity_env" where
  "on_day d env = env\<lparr>currentDate := d\<rparr>"

definition accepted_row :: "activity_env \<Rightarrow> activity_model \<Rightarrow> activity \<Rightarrow> bool" where
  "accepted_row env m r = filterAcceptsRow (on_day (am_decided m (act_id r)) env) m r"

definition view_of :: "activity_env \<Rightarrow> activity_model \<Rightarrow> activity list" where
  "view_of env m = sort_by (\<lambda>x y. activity_lessThan y x) (filter (accepted_row env m) (source_rows m))"

subsection \<open>Cached totals\<close>

definition invalidatePendingBalance :: "activity_model \<Rightarrow> activity_model" where
  "invalidatePendingBalance m = m\<lparr>am_pending_balance := None\<rparr>"

fun pending_loop :: "activity list \<Rightarrow> int \<Rightarrow> int option" where
  "pending_loop [] acc = Some acc"
| "pending_loop (r # rs) acc =
     (if act_pending r \<and> \<not> act_pending_request r then Option.bind (chk64 (acc + act_net r)) (pending_loop rs)
      else pending_loop rs acc)"

text \<open>The value and the model with the value remembered; \<open>None\<close> is an overflow of the sum.\<close>

definition pendingBalanceSat :: "activity_model \<Rightarrow> (int \<times> activity_model) option" where
  "pendingBalanceSat m =
     (case am_pending_balance m of
        Some v \<Rightarrow> Some (v, m)
      | None \<Rightarrow> Option.bind (pending_loop (am_view m) 0) (\<lambda>v. Some (v, m\<lparr>am_pending_balance := Some v\<rparr>)))"

definition pendingBalance :: "activity_env \<Rightarrow> activity_model \<Rightarrow> (qstring \<times> activity_model) option" where
  "pendingBalance env m =
     map_option (\<lambda>(amount, m').
         let unit = fromDisplayUnit (am_display_unit m)
         in (formatForDisplay unit amount True (act_locale env) @ q '' '' @ displayLabel unit amount, m'))
       (pendingBalanceSat m)"

definition requestCount :: "activity_model \<Rightarrow> nat" where
  "requestCount m = length (filter act_pending_request (am_view m))"

definition transactionCount :: "activity_model \<Rightarrow> nat" where
  "transactionCount m = length (am_view m) - requestCount m"

definition updateAvailableMaxAmount :: "activity_model \<Rightarrow> activity_model" where
  "updateAvailableMaxAmount m =
     m\<lparr>am_available_max := fold (\<lambda>r maximum. if \<not> act_pending_request r then max maximum \<bar>act_net r\<bar> else maximum) (source_rows m) 0\<rparr>"

subsection \<open>The filter settings\<close>

text \<open>Decide about some rows, or about all.\<close>

definition redecide :: "activity_env \<Rightarrow> (qstring \<Rightarrow> bool) \<Rightarrow> activity_model \<Rightarrow> activity_model" where
  "redecide env ids m =
     (let m1 = m\<lparr>am_decided := (\<lambda>k. if ids k then currentDate env else am_decided m k)\<rparr> in m1\<lparr>am_view := view_of env m1\<rparr>)"

definition refilter :: "activity_env \<Rightarrow> activity_model \<Rightarrow> activity_model" where
  "refilter env m = redecide env (\<lambda>_. True) m"

text \<open>\<open>invalidateFilter\<close> followed by \<open>countChanged\<close>, whose slot drops the cached balance.\<close>

definition filter_changed :: "activity_env \<Rightarrow> activity_model \<Rightarrow> activity_model" where
  "filter_changed env m = invalidatePendingBalance (refilter env m)"

definition activity_setSearchText :: "activity_env \<Rightarrow> qstring \<Rightarrow> activity_model \<Rightarrow> activity_model" where
  "activity_setSearchText env s m = (if am_search m = s then m else filter_changed env (m\<lparr>am_search := s\<rparr>))"

definition setDateFilter :: "activity_env \<Rightarrow> DateFilter \<Rightarrow> activity_model \<Rightarrow> activity_model" where
  "setDateFilter env d m = (if am_date_filter m = d then m else filter_changed env (m\<lparr>am_date_filter := d\<rparr>))"

definition normalized_types :: "int list \<Rightarrow> int list" where
  "normalized_types types =
     sort (fold (\<lambda>t acc. if t > TypeAll \<and> t \<le> TypeSplit \<and> t \<notin> set acc then acc @ [t] else acc) types [])"

definition setTypeFilters :: "activity_env \<Rightarrow> int list \<Rightarrow> activity_model \<Rightarrow> activity_model" where
  "setTypeFilters env types m =
     (if am_type_filters m = normalized_types types then m
      else filter_changed env (m\<lparr>am_type_filters := normalized_types types\<rparr>))"

definition setTypeFilter :: "activity_env \<Rightarrow> int \<Rightarrow> activity_model \<Rightarrow> activity_model" where
  "setTypeFilter env t m = setTypeFilters env (if t = TypeAll then [] else [t]) m"

definition typeFilter :: "activity_model \<Rightarrow> int" where
  "typeFilter m = (case am_type_filters m of [] \<Rightarrow> TypeAll | t # ts \<Rightarrow> t)"

definition setDisplayUnit :: "int \<Rightarrow> activity_model \<Rightarrow> activity_model" where
  "setDisplayUnit u m = (if am_display_unit m = u then m else m\<lparr>am_display_unit := u\<rparr>)"

definition setGroupBy :: "GroupBy \<Rightarrow> activity_model \<Rightarrow> activity_model" where
  "setGroupBy g m = (if am_group_by m = g then m else m\<lparr>am_group_by := g\<rparr>)"

definition setAmountRange :: "activity_env \<Rightarrow> int \<Rightarrow> int \<Rightarrow> activity_model \<Rightarrow> bool \<times> activity_model" where
  "setAmountRange env minimum maximum m =
     (let minimum = (if minimum < 0 then -1 else minimum);
          maximum = (if maximum < 0 then -1 else maximum)
      in if minimum \<ge> 0 \<and> maximum \<ge> 0 \<and> minimum > maximum then (False, m)
         else if am_min_amount m = minimum \<and> am_max_amount m = maximum then (True, m)
         else (True, filter_changed env (m\<lparr>am_min_amount := minimum, am_max_amount := maximum\<rparr>)))"

definition setMinAmount :: "activity_env \<Rightarrow> int \<Rightarrow> activity_model \<Rightarrow> activity_model" where
  "setMinAmount env a m = snd (setAmountRange env a (am_max_amount m) m)"

definition setMaxAmount :: "activity_env \<Rightarrow> int \<Rightarrow> activity_model \<Rightarrow> activity_model" where
  "setMaxAmount env a m = snd (setAmountRange env (am_min_amount m) a m)"

definition applyCustomRange :: "activity_env \<Rightarrow> qstring \<Rightarrow> qstring \<Rightarrow> activity_model \<Rightarrow> bool \<times> activity_model" where
  "applyCustomRange env start_iso end_iso m =
     (case (iso_date env start_iso, iso_date env end_iso) of
        (Some start_date, Some end_date) \<Rightarrow>
          if start_date > end_date then (False, m)
          else if am_range_start m = Some start_date \<and> am_range_end m = Some end_date \<and> am_date_filter m = CustomRange
          then (True, m)
          else (True, filter_changed env
                 (m\<lparr>am_range_start := Some start_date, am_range_end := Some end_date, am_date_filter := CustomRange\<rparr>))
      | _ \<Rightarrow> (False, m))"

subsection \<open>The source\<close>

definition setSourceModel :: "activity_env \<Rightarrow> (nat \<times> activity list) option \<Rightarrow> activity_model \<Rightarrow> activity_model" where
  "setSourceModel env source m =
     (if map_option fst (am_source m) = map_option fst source then m
      else invalidatePendingBalance (refilter env (updateAvailableMaxAmount (m\<lparr>am_source := source\<rparr>))))"

definition source_destroyed :: "activity_env \<Rightarrow> activity_model \<Rightarrow> activity_model" where
  "source_destroyed env m = filter_changed env (m\<lparr>am_source := None, am_available_max := 0\<rparr>)"

text \<open>
  The source was reset, or rows were inserted or removed: the proxy announces a reset, or its own
  inserted and removed rows when there are any.
\<close>

definition source_reset :: "activity_env \<Rightarrow> activity list \<Rightarrow> activity_model \<Rightarrow> activity_model" where
  "source_reset env rows m =
     filter_changed env (updateAvailableMaxAmount (m\<lparr>am_source := map_option (\<lambda>(p, old). (p, rows)) (am_source m)\<rparr>))"

definition source_rows_changed :: "activity_env \<Rightarrow> activity list \<Rightarrow> activity_model \<Rightarrow> activity_model" where
  "source_rows_changed env rows m =
     (let m' = redecide env (\<lambda>k. k \<notin> set (map act_id (source_rows m)))
            (updateAvailableMaxAmount (m\<lparr>am_source := map_option (\<lambda>(p, old). (p, rows)) (am_source m)\<rparr>))
      in if map act_id (am_view m') \<noteq> map act_id (am_view m) then invalidatePendingBalance m' else m')"

text \<open>The data of the rows \<open>touched\<close> changed, with the roles the source names (no roles: anything may have changed).\<close>

definition role_changed :: "ActivityRole list \<Rightarrow> ActivityRole \<Rightarrow> bool" where
  "role_changed roles r \<longleftrightarrow> roles = [] \<or> r \<in> set roles"

definition source_data_changed :: "activity_env \<Rightarrow> activity list \<Rightarrow> qstring list \<Rightarrow> ActivityRole list \<Rightarrow> activity_model \<Rightarrow> activity_model" where
  "source_data_changed env rows touched roles m =
     (let m1 = m\<lparr>am_source := map_option (\<lambda>(p, old). (p, rows)) (am_source m)\<rparr>;
          m2 = (if role_changed roles NetAmountSatRole \<or> role_changed roles IsPendingRequestRole
                then updateAvailableMaxAmount m1 else m1);
          m3 = redecide env (\<lambda>k. k \<in> set touched) m2
      in if map act_id (am_view m3) \<noteq> map act_id (am_view m) \<or>
            am_view m3 \<noteq> am_view m \<and>
              (role_changed roles IsPendingRole \<or> role_changed roles NetAmountSatRole \<or> role_changed roles IsPendingRequestRole)
         then invalidatePendingBalance m3 else m3)"

subsection \<open>Sections\<close>


definition sectionLabel :: "activity_env \<Rightarrow> activity_model \<Rightarrow> activity \<Rightarrow> qstring" where
  "sectionLabel env m r =
     (if act_pending r then tr env ''Pending''
      else locale_text env (if am_group_by m = Day then ''MMMM d, yyyy'' else ''MMMM yyyy'') (act_timestamp r))"

definition dateTimeLabel :: "activity_env \<Rightarrow> activity_model \<Rightarrow> activity \<Rightarrow> qstring" where
  "dateTimeLabel env m r =
     locale_text env (if am_group_by m = Day \<and> \<not> act_pending r then ''h:mm AP'' else ''MMM d, h:mm AP'') (act_timestamp r)"

subsection \<open>Histories\<close>

text \<open>
  What the source announces: the identifiers of its rows are distinct and stay with their rows, the
  rows it keeps while inserting or removing others are unchanged, and a change of data names the roles
  that changed. Each operation happens on a day of its own.
\<close>

definition announced :: "ActivityRole list \<Rightarrow> activity \<Rightarrow> activity \<Rightarrow> bool" where
  "announced roles x y \<longleftrightarrow> act_id x = act_id y \<and>
     (act_pending x \<noteq> act_pending y \<longrightarrow> role_changed roles IsPendingRole) \<and>
     (act_pending_request x \<noteq> act_pending_request y \<longrightarrow> role_changed roles IsPendingRequestRole) \<and>
     (act_net x \<noteq> act_net y \<longrightarrow> role_changed roles NetAmountSatRole)"

inductive activity_step :: "activity_env \<Rightarrow> activity_model \<Rightarrow> activity_model \<Rightarrow> bool" for env where
  search: "activity_step env m (activity_setSearchText env s m)"
| date: "activity_step env m (setDateFilter env d m)"
| types: "activity_step env m (setTypeFilters env ts m)"
| type: "activity_step env m (setTypeFilter env ty m)"
| unit: "activity_step env m (setDisplayUnit u m)"
| group: "activity_step env m (setGroupBy g m)"
| range: "activity_step env m (snd (setAmountRange env lo hi m))"
| minimum: "activity_step env m (setMinAmount env lo m)"
| maximum: "activity_step env m (setMaxAmount env hi m)"
| custom: "activity_step env m (snd (applyCustomRange env s e m))"
| balance: "pendingBalanceSat m = Some (v, m') \<Longrightarrow> activity_step env m m'"
| source: "(\<And>p rows. src = Some (p, rows) \<Longrightarrow> distinct (map act_id rows)) \<Longrightarrow> activity_step env m (setSourceModel env src m)"
| destroyed: "activity_step env m (source_destroyed env m)"
| reset: "distinct (map act_id rows) \<Longrightarrow> activity_step env m (source_reset env rows m)"
| rows: "distinct (map act_id rows) \<Longrightarrow>
     (\<And>x y. x \<in> set (source_rows m) \<Longrightarrow> y \<in> set rows \<Longrightarrow> act_id x = act_id y \<Longrightarrow> x = y) \<Longrightarrow>
     activity_step env m (source_rows_changed env rows m)"
| data: "list_all2 (announced roles) (source_rows m) rows \<Longrightarrow>
     list_all2 (\<lambda>x y. x = y \<or> act_id y \<in> set touched) (source_rows m) rows \<Longrightarrow>
     activity_step env m (source_data_changed env rows touched roles m)"

definition activity_turn :: "activity_env \<Rightarrow> activity_model \<Rightarrow> activity_model \<Rightarrow> bool" where
  "activity_turn env m m' \<longleftrightarrow> (\<exists>day. activity_step (on_day day env) m m')"

abbreviation activity_run :: "activity_env \<Rightarrow> activity_model \<Rightarrow> activity_model \<Rightarrow> bool" where
  "activity_run env \<equiv> (activity_turn env)\<^sup>*\<^sup>*"

section \<open>The view\<close>

lemma dateMatches_cong:
  assumes "am_date_filter m = am_date_filter m'" "am_range_start m = am_range_start m'" "am_range_end m = am_range_end m'"
  shows "dateMatches env m = dateMatches env m'"
  unfolding fun_eq_iff dateMatches_def assms by simp

lemma view_of_cong:
  assumes "am_source m = am_source m'" "am_search m = am_search m'" "am_date_filter m = am_date_filter m'"
    "am_type_filters m = am_type_filters m'" "am_min_amount m = am_min_amount m'" "am_max_amount m = am_max_amount m'"
    "am_range_start m = am_range_start m'" "am_range_end m = am_range_end m'" "am_decided m = am_decided m'"
  shows "view_of env m = view_of env m'"
proof -
  have "filterAcceptsRow e m = filterAcceptsRow e m'" for e
    unfolding fun_eq_iff filterAcceptsRow_def assms dateMatches_cong [OF assms(3,7,8)] by simp
  then have "accepted_row env m = accepted_row env m'" unfolding fun_eq_iff accepted_row_def assms(9) by simp
  then show ?thesis by (simp only: view_of_def source_rows_def assms)
qed

lemma on_day_on_day [simp]: "on_day d (on_day d' env) = on_day d env"
  by (simp add: on_day_def)

lemma view_of_day [simp]: "view_of (on_day d env) = view_of env"
proof -
  have "accepted_row (on_day d env) = accepted_row env" by (intro ext) (simp add: accepted_row_def)
  then show ?thesis by (intro ext) (simp add: view_of_def)
qed

lemma redecide_fields [simp]:
  "am_source (redecide env P m) = am_source m" "am_available_max (redecide env P m) = am_available_max m" "am_pending_balance (redecide env P m) = am_pending_balance m"
  "am_view (redecide env P m) = view_of env (redecide env P m)" "source_rows (redecide env P m) = source_rows m"
proof -
  show "am_source (redecide env P m) = am_source m" "am_available_max (redecide env P m) = am_available_max m" "am_pending_balance (redecide env P m) = am_pending_balance m"
    by (simp_all add: redecide_def Let_def)
  have "view_of env (x\<lparr>am_view := v\<rparr>) = view_of env x" for x v by (rule view_of_cong; simp)
  then show "am_view (redecide env P m) = view_of env (redecide env P m)" by (simp add: redecide_def Let_def)
  show "source_rows (redecide env P m) = source_rows m" by (simp add: source_rows_def redecide_def Let_def)
qed

lemma view_of_frame [simp]:
  "view_of env (m\<lparr>am_view := v\<rparr>) = view_of env m"
  "view_of env (m\<lparr>am_pending_balance := p\<rparr>) = view_of env m"
  "view_of env (m\<lparr>am_available_max := a\<rparr>) = view_of env m"
  "view_of env (m\<lparr>am_display_unit := u\<rparr>) = view_of env m"
  "view_of env (m\<lparr>am_group_by := g\<rparr>) = view_of env m"
  by (rule view_of_cong; simp)+

lemma source_rows_frame [simp]:
  "source_rows (m\<lparr>am_view := v\<rparr>) = source_rows m"
  "source_rows (m\<lparr>am_pending_balance := p\<rparr>) = source_rows m"
  "source_rows (m\<lparr>am_available_max := a\<rparr>) = source_rows m"
  by (simp_all add: source_rows_def)



section \<open>The invariant\<close>

definition totals_of :: "activity \<Rightarrow> bool \<times> bool \<times> int" where
  "totals_of r = (act_pending r, act_pending_request r, act_net r)"

definition max_net :: "activity list \<Rightarrow> int" where
  "max_net rows = fold (\<lambda>r maximum. if \<not> act_pending_request r then max maximum \<bar>act_net r\<bar> else maximum) rows 0"

lemma pending_loop_cong: "map totals_of xs = map totals_of ys \<Longrightarrow> pending_loop xs acc = pending_loop ys acc"
proof (induction xs arbitrary: ys acc)
  case (Cons x xs)
  then obtain y ys' where "ys = y # ys'" "totals_of x = totals_of y" "map totals_of xs = map totals_of ys'" by auto
  moreover from this(3) Cons.IH have "pending_loop xs = pending_loop ys'" by (simp add: fun_eq_iff)
  ultimately show ?case by (simp add: totals_of_def)
qed simp

definition settings_ok :: "activity_model \<Rightarrow> bool" where
  "settings_ok m \<longleftrightarrow> sorted_wrt (<) (am_type_filters m) \<and> set (am_type_filters m) \<subseteq> {1..9} \<and>
     -1 \<le> am_min_amount m \<and> -1 \<le> am_max_amount m \<and>
     (0 \<le> am_min_amount m \<and> 0 \<le> am_max_amount m \<longrightarrow> am_min_amount m \<le> am_max_amount m) \<and>
     (case (am_range_start m, am_range_end m) of (Some s, Some e) \<Rightarrow> s \<le> e | (None, None) \<Rightarrow> True | _ \<Rightarrow> False)"

definition source_ok :: "activity_env \<Rightarrow> activity_model \<Rightarrow> bool" where
  "source_ok env m \<longleftrightarrow> am_view m = view_of env m \<and> distinct (map act_id (source_rows m)) \<and>
     am_available_max m = max_net (source_rows m)"

definition balance_ok :: "activity_model \<Rightarrow> bool" where
  "balance_ok m \<longleftrightarrow> (\<forall>v. am_pending_balance m = Some v \<longrightarrow> pending_loop (am_view m) 0 = Some v)"

definition activity_inv :: "activity_env \<Rightarrow> activity_model \<Rightarrow> bool" where
  "activity_inv env m \<longleftrightarrow> source_ok env m \<and> balance_ok m \<and> settings_ok m"

lemma new_activity_inv: "activity_inv env new_activity_model"
  by (simp add: activity_inv_def source_ok_def balance_ok_def settings_ok_def new_activity_model_def view_of_def
      source_rows_def sort_by_def max_net_def)

lemma settings_redecide [simp]: "settings_ok (redecide env P m) = settings_ok m"
  by (simp add: settings_ok_def redecide_def Let_def)

lemma activity_inv_day [simp]: "activity_inv (on_day d env) = activity_inv env"
  by (simp add: activity_inv_def source_ok_def fun_eq_iff)

lemma redecided_inv:
  assumes "distinct (map act_id (source_rows m))" "am_available_max m = max_net (source_rows m)" "settings_ok m"
  shows "activity_inv env (invalidatePendingBalance (redecide env P m))"
proof -
  have "view_of env (x\<lparr>am_pending_balance := p\<rparr>) = view_of env x" for x p by (rule view_of_cong; simp)
  moreover have "settings_ok (x\<lparr>am_pending_balance := p\<rparr>) = settings_ok x" for x p by (simp add: settings_ok_def)
  ultimately show ?thesis using assms by (simp add: activity_inv_def source_ok_def balance_ok_def invalidatePendingBalance_def)
qed

lemma filter_changed_inv:
  assumes "distinct (map act_id (source_rows m))" "am_available_max m = max_net (source_rows m)" "settings_ok m"
  shows "activity_inv env (filter_changed env m)"
  unfolding filter_changed_def refilter_def by (rule redecided_inv [OF assms])

text \<open>A change of settings only.\<close>

lemma setting_inv:
  assumes "activity_inv env m" "settings_ok m'" "am_source m' = am_source m" "am_available_max m' = am_available_max m"
  shows "activity_inv env (filter_changed env m')"
  using assms by (intro filter_changed_inv) (auto simp: activity_inv_def source_ok_def source_rows_def)

lemma normalized_types_ok:
  "sorted_wrt (<) (normalized_types ts)" "set (normalized_types ts) \<subseteq> {1..9}"
proof -
  let ?f = "\<lambda>t acc. if t > TypeAll \<and> t \<le> TypeSplit \<and> t \<notin> set acc then acc @ [t] else acc"
  have "distinct (fold ?f ts acc) \<and> set (fold ?f ts acc) \<subseteq> {1..9}" if "distinct acc" "set acc \<subseteq> {1..9}" for acc
    using that by (induction ts arbitrary: acc) auto
  from this [of "[]"] show "sorted_wrt (<) (normalized_types ts)" "set (normalized_types ts) \<subseteq> {1..9}"
    by (simp_all add: normalized_types_def strict_sorted_iff)
qed

lemma settings_frame:
  assumes "activity_inv env m"
  shows "activity_inv env (m\<lparr>am_display_unit := u\<rparr>)" "activity_inv env (m\<lparr>am_group_by := g\<rparr>)"
  using assms by (auto simp: activity_inv_def source_ok_def balance_ok_def settings_ok_def source_rows_def)

lemma setTypeFilters_inv:
  assumes "activity_inv env m"
  shows "activity_inv env (setTypeFilters env ts m)"
proof -
  have "settings_ok (m\<lparr>am_type_filters := normalized_types ts\<rparr>)"
    using assms normalized_types_ok [of ts] by (simp add: activity_inv_def settings_ok_def)
  from setting_inv [OF assms this] assms show ?thesis by (simp add: setTypeFilters_def)
qed

lemma setAmountRange_inv:
  assumes "activity_inv env m"
  shows "activity_inv env (snd (setAmountRange env lo hi m))"
proof -
  define lo' hi' where "lo' = (if lo < 0 then -1 else lo)" and "hi' = (if hi < 0 then -1 else hi)"
  have "settings_ok (m\<lparr>am_min_amount := lo', am_max_amount := hi'\<rparr>)" if "\<not> (lo' \<ge> 0 \<and> hi' \<ge> 0 \<and> lo' > hi')"
    using assms that by (simp add: activity_inv_def settings_ok_def lo'_def hi'_def split: if_splits)
  from setting_inv [OF assms this] assms show ?thesis
    unfolding setAmountRange_def Let_def lo'_def [symmetric] hi'_def [symmetric] by (simp split: if_split)
qed

lemma applyCustomRange_inv:
  assumes "activity_inv env m"
  shows "activity_inv env (snd (applyCustomRange env s e m))"
proof -
  have "settings_ok (m\<lparr>am_range_start := Some d, am_range_end := Some d', am_date_filter := CustomRange\<rparr>)" if "d \<le> d'" for d d'
    using assms that by (simp add: activity_inv_def settings_ok_def)
  from setting_inv [OF assms this] assms show ?thesis
    unfolding applyCustomRange_def by (simp split: option.split if_split)
qed

lemma setters_inv:
  assumes "activity_inv env m"
  shows "activity_inv env (activity_setSearchText env s m)" "activity_inv env (setDateFilter env d m)"
    "activity_inv env (setDisplayUnit u m)" "activity_inv env (setGroupBy g m)"
proof -
  have "settings_ok (m\<lparr>am_search := s\<rparr>)" "settings_ok (m\<lparr>am_date_filter := d\<rparr>)"
    using assms by (simp_all add: activity_inv_def settings_ok_def)
  note this [THEN setting_inv [OF assms]] settings_frame [OF assms]
  with assms show "activity_inv env (activity_setSearchText env s m)" "activity_inv env (setDateFilter env d m)"
    "activity_inv env (setDisplayUnit u m)" "activity_inv env (setGroupBy g m)"
    by (simp_all add: activity_setSearchText_def setDateFilter_def setDisplayUnit_def setGroupBy_def)
qed

lemma pendingBalance_inv:
  assumes "activity_inv env m" "pendingBalanceSat m = Some (v, m')"
  shows "activity_inv env m'" "pending_loop (am_view m) 0 = Some v"
  using assms by (auto simp: pendingBalanceSat_def activity_inv_def source_ok_def balance_ok_def settings_ok_def
      split: option.splits bind_splits)

subsection \<open>Changes of the source\<close>

definition with_rows :: "activity list \<Rightarrow> activity_model \<Rightarrow> activity_model" where
  "with_rows rows m = m\<lparr>am_source := map_option (\<lambda>(p, old). (p, rows)) (am_source m)\<rparr>"

lemma source_rows_with: "source_rows (with_rows rows m) = (if am_source m = None then [] else rows)"
  by (auto simp: source_rows_def with_rows_def split: option.splits)

lemma with_rows_settings: "settings_ok (with_rows rows m) = settings_ok m"
  by (simp add: with_rows_def settings_ok_def)

lemma update_max_ok: "am_available_max (updateAvailableMaxAmount m) = max_net (source_rows m)"
  "source_rows (updateAvailableMaxAmount m) = source_rows m" "settings_ok (updateAvailableMaxAmount m) = settings_ok m"
  by (simp_all add: updateAvailableMaxAmount_def max_net_def settings_ok_def)

lemma filter_update_inv:
  assumes "settings_ok m" "distinct (map act_id (source_rows m))"
  shows "activity_inv env (filter_changed env (updateAvailableMaxAmount m))"
  using assms by (intro filter_changed_inv) (simp_all add: update_max_ok)

lemma setSource_inv:
  assumes "activity_inv env m" "\<And>p rows. src = Some (p, rows) \<Longrightarrow> distinct (map act_id rows)"
  shows "activity_inv env (setSourceModel env src m)"
proof -
  have "settings_ok (m\<lparr>am_source := src\<rparr>)" using assms(1) by (simp add: activity_inv_def settings_ok_def)
  moreover have "distinct (map act_id (source_rows (m\<lparr>am_source := src\<rparr>)))"
    using assms(2) by (auto simp: source_rows_def split: option.split)
  ultimately show ?thesis using filter_update_inv [of "m\<lparr>am_source := src\<rparr>" env] assms(1)
    by (simp add: setSourceModel_def filter_changed_def)
qed

lemma source_reset_inv: "activity_inv env m \<Longrightarrow> distinct (map act_id rows) \<Longrightarrow> activity_inv env (source_reset env rows m)"
  using filter_update_inv [of "with_rows rows m" env] with_rows_settings [of rows m] source_rows_with [of rows m]
  by (simp add: activity_inv_def source_reset_def with_rows_def)

lemma source_destroyed_inv: "activity_inv env m \<Longrightarrow> activity_inv env (source_destroyed env m)"
  unfolding source_destroyed_def
  by (rule filter_changed_inv) (simp_all add: source_rows_def max_net_def activity_inv_def settings_ok_def)

lemma redecide_balance:
  assumes "activity_inv env m" "settings_ok m'" "distinct (map act_id (source_rows m'))" "am_available_max m' = max_net (source_rows m')"
    "am_pending_balance m' = am_pending_balance m" "map totals_of (view_of env (redecide env P m')) = map totals_of (am_view m)"
  shows "activity_inv env (redecide env P m')"
proof -
  have "pending_loop (view_of env (redecide env P m')) 0 = pending_loop (am_view m) 0" by (rule pending_loop_cong [OF assms(6)])
  then have "balance_ok (redecide env P m')" using assms(1,5) by (simp add: activity_inv_def balance_ok_def)
  with assms(2-4) show ?thesis by (simp add: activity_inv_def source_ok_def)
qed

lemma view_rows: "activity_inv env m \<Longrightarrow> x \<in> set (am_view m) \<Longrightarrow> x \<in> set (source_rows m)"
  by (auto simp: activity_inv_def source_ok_def view_of_def)

lemma view_of_rows: "x \<in> set (view_of env m) \<Longrightarrow> x \<in> set (source_rows m)"
  by (auto simp: view_of_def)

text \<open>Two lists of rows with the same identifiers, row by row, agree in what identifiers determine.\<close>

lemma map_by_id:
  assumes "map act_id xs = map act_id ys"
    and "\<And>x y. x \<in> set xs \<Longrightarrow> y \<in> set ys \<Longrightarrow> act_id x = act_id y \<Longrightarrow> f x = f y"
  shows "map f xs = map f ys"
  using assms by (induction xs arbitrary: ys) (auto simp: map_eq_Cons_conv Cons_eq_map_conv)

lemma source_rows_changed_inv:
  assumes "activity_inv env m" "distinct (map act_id rows)"
    and "\<And>x y. x \<in> set (source_rows m) \<Longrightarrow> y \<in> set rows \<Longrightarrow> act_id x = act_id y \<Longrightarrow> x = y"
  shows "activity_inv env (source_rows_changed env rows m)"
proof -
  let ?m = "updateAvailableMaxAmount (with_rows rows m)"
  define P where "P = (\<lambda>k. k \<notin> set (map act_id (source_rows m)))"
  have s: "settings_ok ?m" "distinct (map act_id (source_rows ?m))" "am_available_max ?m = max_net (source_rows ?m)"
    using assms(1,2) by (simp_all add: update_max_ok with_rows_settings source_rows_with activity_inv_def)
  have keep: "activity_inv env (redecide env P ?m)" if "map act_id (view_of env (redecide env P ?m)) = map act_id (am_view m)"
  proof (rule redecide_balance [OF assms(1) s])
    have "set (view_of env (redecide env P ?m)) \<subseteq> set rows"
      using view_of_rows [of _ env "redecide env P ?m"] unfolding redecide_fields update_max_ok source_rows_with by (cases "am_source m") auto
    then have "totals_of x = totals_of y" if "x \<in> set (view_of env (redecide env P ?m))" "y \<in> set (am_view m)" "act_id x = act_id y" for x y
      using assms(3) [OF view_rows [OF assms(1) that(2)], of x] that by auto
    with that show "map totals_of (view_of env (redecide env P ?m)) = map totals_of (am_view m)" by (rule map_by_id)
  qed (simp add: updateAvailableMaxAmount_def with_rows_def)
  have "activity_inv env (invalidatePendingBalance (redecide env P ?m))" by (rule redecided_inv [OF s(2,3,1)])
  with keep show ?thesis unfolding source_rows_changed_def Let_def with_rows_def [symmetric] P_def [symmetric]
    by (simp split: if_split)
qed

lemma announced_by_id:
  assumes "list_all2 (announced roles) old rows" "distinct (map act_id old)" "x \<in> set old" "y \<in> set rows" "act_id x = act_id y"
  shows "announced roles x y"
proof -
  obtain i where i: "i < length rows" "y = rows ! i" using assms(4) by (metis in_set_conv_nth)
  then have a: "i < length old" "announced roles (old ! i) y" using assms(1) by (auto simp: list_all2_conv_all_nth)
  obtain j where j: "j < length old" "x = old ! j" using assms(3) by (metis in_set_conv_nth)
  have "map act_id old ! i = map act_id old ! j" using a j assms(5) by (simp add: announced_def)
  then have "i = j" using a(1) j(1) nth_eq_iff_index_eq [OF assms(2), of i j] by simp
  with a j show ?thesis by simp
qed

lemma announced_ids: "list_all2 (announced roles) old rows \<Longrightarrow> map act_id rows = map act_id old"
  by (induction rule: list_all2_induct) (simp_all add: announced_def)

lemma announced_max:
  assumes "list_all2 (announced roles) old rows" "\<not> role_changed roles NetAmountSatRole" "\<not> role_changed roles IsPendingRequestRole"
  shows "max_net rows = max_net old"
proof -
  let ?f = "\<lambda>r maximum. if \<not> act_pending_request r then max maximum \<bar>act_net r\<bar> else maximum"
  have "fold ?f rows acc = fold ?f old acc" for acc
    using assms(1) by (induction arbitrary: acc rule: list_all2_induct) (use assms(2,3) in \<open>auto simp: announced_def\<close>)
  then show ?thesis by (simp add: max_net_def)
qed

lemma source_data_changed_inv:
  assumes "activity_inv env m" "list_all2 (announced roles) (source_rows m) rows"
  shows "activity_inv env (source_data_changed env rows touched roles m)"
proof -
  let ?v = "\<lambda>m. view_of env (redecide env (\<lambda>k. k \<in> set touched) m)"
  define upd where "upd \<longleftrightarrow> role_changed roles NetAmountSatRole \<or> role_changed roles IsPendingRequestRole"
  define m2 where "m2 = (if upd then updateAvailableMaxAmount (with_rows rows m) else with_rows rows m)"
  have rows: "source_rows m2 = (if am_source m = None then [] else rows)"
    by (simp add: m2_def update_max_ok source_rows_with)
  have none: "rows = []" if "am_source m = None" using that assms(2) by (simp add: source_rows_def)
  then have r: "source_rows m2 = rows" using rows by simp
  have s: "settings_ok m2" "distinct (map act_id (source_rows m2))"
    using assms(1) announced_ids [OF assms(2)]
    by (simp_all add: m2_def update_max_ok with_rows_settings r [unfolded m2_def] activity_inv_def source_ok_def)
  have "am_available_max m2 = max_net rows"
  proof (cases upd)
    case False
    then have "max_net rows = max_net (source_rows m)" using announced_max [OF assms(2)] by (simp add: upd_def)
    with False assms(1) show ?thesis by (simp add: m2_def with_rows_def activity_inv_def source_ok_def)
  qed (use r in \<open>simp add: m2_def update_max_ok\<close>)
  then have mx: "am_available_max m2 = max_net (source_rows m2)" by (simp add: r)
  have d: "distinct (map act_id (source_rows m))" using assms(1) by (simp add: activity_inv_def source_ok_def)
  have keep: "activity_inv env (redecide env (\<lambda>k. k \<in> set touched) m2)"
    if ids: "map act_id (?v m2) = map act_id (am_view m)"
      and or: "?v m2 = am_view m \<or> \<not> role_changed roles IsPendingRole \<and> \<not> upd"
  proof (rule redecide_balance [OF assms(1) s mx])
    have "totals_of x = totals_of y"
      if "\<not> role_changed roles IsPendingRole \<and> \<not> upd" "x \<in> set (?v m2)" "y \<in> set (am_view m)" "act_id x = act_id y" for x y
      using announced_by_id [OF assms(2) d view_rows [OF assms(1) that(3)], of x] view_of_rows [OF that(2)] that(1,4)
      by (simp add: r announced_def upd_def totals_of_def)
    with or map_by_id [OF ids] show "map totals_of (?v m2) = map totals_of (am_view m)" by metis
  qed (simp add: m2_def updateAvailableMaxAmount_def with_rows_def)
  have f: "activity_inv env (invalidatePendingBalance (redecide env (\<lambda>k. k \<in> set touched) m2))" by (rule redecided_inv [OF s(2) mx s(1)])
  have "source_data_changed env rows touched roles m =
      (if map act_id (?v m2) \<noteq> map act_id (am_view m) \<or>
          ?v m2 \<noteq> am_view m \<and> (role_changed roles IsPendingRole \<or> upd)
       then invalidatePendingBalance (redecide env (\<lambda>k. k \<in> set touched) m2) else redecide env (\<lambda>k. k \<in> set touched) m2)"
    unfolding source_data_changed_def Let_def with_rows_def [symmetric] upd_def [symmetric] m2_def [symmetric]
    by (simp add: upd_def)
  with keep f show ?thesis by (simp split: if_split)
qed

lemma activity_step_inv:
  assumes "activity_step env m m'" "activity_inv env m"
  shows "activity_inv env m'"
  using assms
proof (cases rule: activity_step.cases)
  case (balance v)
  then show ?thesis using pendingBalance_inv(1) [OF assms(2)] by simp
qed (use assms(2) setters_inv setTypeFilters_inv setAmountRange_inv applyCustomRange_inv setSource_inv source_destroyed_inv
    source_reset_inv source_rows_changed_inv source_data_changed_inv in
    \<open>simp_all add: setTypeFilter_def setMinAmount_def setMaxAmount_def\<close>)

lemma activity_run_inv: "activity_run env new_activity_model m \<Longrightarrow> activity_inv env m"
proof (induction rule: rtranclp_induct)
  case (step m m')
  then obtain d where "activity_step (on_day d env) m m'" by (auto simp: activity_turn_def)
  from activity_step_inv [OF this] step.IH show ?case by simp
qed (rule new_activity_inv)

section \<open>What the totals are\<close>

lemma pending_loop_sum:
  "pending_loop rs acc = Some v \<Longrightarrow> v = acc + sum_list (map act_net (filter (\<lambda>r. act_pending r \<and> \<not> act_pending_request r) rs))"
proof (induction rs arbitrary: acc)
  case (Cons r rs)
  then show ?case by (cases "act_pending r \<and> \<not> act_pending_request r") (auto split: bind_splits dest: Cons.IH)
qed simp

lemma pending_loop_returns:
  "\<bar>acc\<bar> + sum_list (map (\<lambda>r. \<bar>act_net r\<bar>) rs) \<le> i64_max \<Longrightarrow> \<exists>v. pending_loop rs acc = Some v"
proof (induction rs arbitrary: acc)
  case (Cons r rs)
  have p: "0 \<le> sum_list (map (\<lambda>r. \<bar>act_net r\<bar>) rs)" by (rule sum_list_nonneg) auto
  have "\<bar>acc + act_net r\<bar> + sum_list (map (\<lambda>r. \<bar>act_net r\<bar>) rs) \<le> i64_max"
    "\<bar>acc\<bar> + sum_list (map (\<lambda>r. \<bar>act_net r\<bar>) rs) \<le> i64_max" using Cons.prems by auto
  moreover have "\<bar>acc + act_net r\<bar> \<le> i64_max" using Cons.prems p by auto
  then have "in_i64 (acc + act_net r)" unfolding in_i64_def i64_min_def i64_max_def by linarith
  ultimately show ?case using Cons.IH by simp
qed simp

lemma max_net_Max: "max_net rows = Max (insert 0 ((\<lambda>r. \<bar>act_net r\<bar>) ` {r \<in> set rows. \<not> act_pending_request r}))"
proof -
  let ?f = "\<lambda>r maximum. if \<not> act_pending_request r then max maximum \<bar>act_net r\<bar> else maximum"
  let ?S = "\<lambda>rows. (\<lambda>r. \<bar>act_net r\<bar>) ` {r \<in> set rows. \<not> act_pending_request r}"
  have "fold ?f rows acc = Max (insert acc (?S rows))" for acc
  proof (induction rows arbitrary: acc)
    case (Cons r rows)
    have "?S (r # rows) = (if act_pending_request r then ?S rows else insert \<bar>act_net r\<bar> (?S rows))" by auto
    moreover have "Max (insert (max acc \<bar>act_net r\<bar>) (?S rows)) = Max (insert acc (insert \<bar>act_net r\<bar> (?S rows)))"
    proof (cases "?S rows = {}")
      case True
      show ?thesis unfolding True by simp
    next
      case False
      then show ?thesis by (simp add: max.assoc)
    qed
    ultimately show ?case using Cons.IH by simp
  qed simp
  then show ?thesis by (simp add: max_net_def)
qed




section \<open>Witnesses\<close>

definition sample_activity :: "nat \<Rightarrow> bool \<Rightarrow> int \<Rightarrow> int \<Rightarrow> activity" where
  "sample_activity i pending time net = \<lparr>act_id = [i], act_type = Receive, act_pending = pending, act_pending_request = False,
     act_has_request = False, act_timestamp = time, act_net = net, act_actions = [], act_address = [], act_label = q ''=1+1'',
     act_txid = [], act_search = [], act_status = Confirmed, act_status_known = True, act_depth = 6, act_replaced_by = []\<rparr>"

definition sample_env :: activity_env where
  "sample_env = \<lparr>currentDate = 100, dayOfWeek = (\<lambda>d. d mod 7 + 1), year = (\<lambda>d. d div 365), month = (\<lambda>d. 1),
     mk_date = (\<lambda>y m d. 365 * y + d - 1), addMonths = (\<lambda>d n. d + 30 * n), addYears = (\<lambda>d n. d + 365 * n),
     startOfDay = (\<lambda>d. 86400 * d), iso_date = (\<lambda>s. None), time_text = (\<lambda>f t. [0, nat t]), locale_text = (\<lambda>f t. number t),
     act_fold_unit = (\<lambda>c. c), tr = q, act_locale = c_locale\<rparr>"

definition sample_source :: "(nat \<times> activity list) option" where
  "sample_source = Some (1, [sample_activity 1 False 50 7, sample_activity 2 True 40 9, sample_activity 3 False 60 2, sample_activity 4 True 10 30])"

definition sample_activity_model :: activity_model where
  "sample_activity_model = snd (setAmountRange sample_env 5 (-1) (setSourceModel sample_env sample_source new_activity_model))"

lemma sample_run: "activity_run sample_env new_activity_model sample_activity_model"
proof -
  have today: "sample_env = on_day 100 sample_env" by (simp add: sample_env_def on_day_def)
  have "activity_turn sample_env new_activity_model (setSourceModel sample_env sample_source new_activity_model)"
    unfolding activity_turn_def
    by (rule exI [of _ 100], subst today [symmetric], rule activity_step.source) (auto simp: sample_source_def sample_activity_def)
  moreover have "activity_turn sample_env m (snd (setAmountRange sample_env lo hi m))" for m lo hi
    unfolding activity_turn_def by (rule exI [of _ 100], subst today [symmetric], rule activity_step.range)
  ultimately show ?thesis unfolding sample_activity_model_def by (rule rtranclp.rtrancl_into_rtrancl [OF r_into_rtranclp])
qed


section \<open>Properties\<close>



text \<open>
  C37: the cached totals never go stale. In every reachable state reading the pending balance gives the
  sum of the net amounts of the shown pending transactions, with or without a remembered value, and it
  returns for amounts that fit; the largest available amount is the maximum over all transactions; and
  the filter settings are consistent: the type filters are normalised, the amount and date ranges are
  never inverted, and a date range is never half set.
\<close>

theorem activity_totals:
  assumes "activity_run env new_activity_model m"
  shows "(\<forall>v m'. pendingBalanceSat m = Some (v, m') \<longrightarrow>
       v = sum_list (map act_net (filter (\<lambda>r. act_pending r \<and> \<not> act_pending_request r) (am_view m)))) \<and>
     (sum_list (map (\<lambda>r. \<bar>act_net r\<bar>) (am_view m)) \<le> i64_max \<longrightarrow> pendingBalanceSat m \<noteq> None) \<and>
     am_available_max m = Max (insert 0 ((\<lambda>r. \<bar>act_net r\<bar>) ` {r \<in> set (source_rows m). \<not> act_pending_request r})) \<and>
     settings_ok m"
proof -
  note i = activity_run_inv [OF assms]
  have "v = sum_list (map act_net (filter (\<lambda>r. act_pending r \<and> \<not> act_pending_request r) (am_view m)))"
    if "pendingBalanceSat m = Some (v, m')" for v m'
    using pending_loop_sum [OF pendingBalance_inv(2) [OF i that]] by simp
  moreover have "pendingBalanceSat m \<noteq> None" if "sum_list (map (\<lambda>r. \<bar>act_net r\<bar>) (am_view m)) \<le> i64_max"
    using pending_loop_returns [of 0 "am_view m"] that by (auto simp: pendingBalanceSat_def split: option.split)
  moreover have "am_available_max m = max_net (source_rows m)" "settings_ok m"
    using i by (simp_all add: activity_inv_def source_ok_def)
  ultimately show ?thesis unfolding max_net_Max [symmetric] by blast
qed

theorem activity_totals_witness:
  "\<exists>m'. pendingBalanceSat sample_activity_model = Some (39, m') \<and> am_available_max sample_activity_model = 30 \<and>
     39 = sum_list (map act_net (filter (\<lambda>r. act_pending r \<and> \<not> act_pending_request r) (am_view sample_activity_model)))"
proof -
  have "map_option fst (pendingBalanceSat sample_activity_model) = Some 39" "am_available_max sample_activity_model = 30" by code_simp+
  then show ?thesis using activity_totals [OF sample_run] by auto
qed

end
