(* ===== verification/ActivityExport.thy ===== *)
theory ActivityExport
  imports Activity
begin

text \<open>
  The CSV export of \<open>src/qml/models/activityfilterproxymodel.cpp\<close>. The written text is a value; opening
  and closing the file are inputs. A reader of quoted CSV is the reference the export is checked
  against: it returns the cells of the rows, or \<open>None\<close> for malformed text.
\<close>

section \<open>Definitions\<close>

definition csv_escape :: "qstring \<Rightarrow> qstring" where
  "csv_escape v = concat (map (\<lambda>c. if c = 34 then [34, 34] else [c]) v)"

definition WriteCsvValue :: "qstring \<Rightarrow> qstring" where
  "WriteCsvValue v = 34 # csv_escape v @ [34]"

definition dangerous_leads :: qstring where
  "dangerous_leads = q ''=+-@'' @ [9, 13, 10]"

definition GuardedCsvText :: "qstring \<Rightarrow> qstring" where
  "GuardedCsvText v = (if v \<noteq> [] \<and> hd v \<in> set dangerous_leads then 39 # v else v)"

fun WriteCsvRow :: "qstring list \<Rightarrow> qstring" where
  "WriteCsvRow [] = [10]"
| "WriteCsvRow [v] = WriteCsvValue v @ [10]"
| "WriteCsvRow (v # w # vs) = WriteCsvValue v @ 44 # WriteCsvRow (w # vs)"

definition exportTypeLabel :: "activity_env \<Rightarrow> activity \<Rightarrow> qstring" where
  "exportTypeLabel env r =
     (if act_pending_request r then tr env ''Payment request''
      else case act_type r of
        Send \<Rightarrow> tr env ''Sent'' | Receive \<Rightarrow> tr env ''Received'' | Multiple \<Rightarrow> tr env ''Multiple actions''
      | Consolidation \<Rightarrow> tr env ''Consolidation'' | Split \<Rightarrow> tr env ''Split''
      | InternalTransfer \<Rightarrow> tr env ''Sent to yourself'' | Mined \<Rightarrow> tr env ''Mined'' | Other \<Rightarrow> tr env ''Other'')"

definition replaced :: "activity \<Rightarrow> bool" where
  "replaced r \<longleftrightarrow> act_replaced_by r \<noteq> [] \<and> (\<not> act_status_known r \<or> act_depth r \<le> 0)"

definition status_label :: "activity_env \<Rightarrow> activity \<Rightarrow> qstring" where
  "status_label env r =
     (if act_pending_request r then tr env ''Awaiting payment''
      else if replaced r then tr env ''Replaced''
      else if \<not> act_status_known r then tr env ''Unknown''
      else case act_status r of
        Confirmed \<Rightarrow> tr env ''Confirmed'' | Confirming \<Rightarrow> tr env ''Confirming'' | Unconfirmed \<Rightarrow> tr env ''Unconfirmed''
      | Conflicted \<Rightarrow> tr env ''Conflicted'' | Abandoned \<Rightarrow> tr env ''Abandoned'' | Immature \<Rightarrow> tr env ''Immature''
      | NotAccepted \<Rightarrow> tr env ''Not accepted'')"

definition csv_header :: "activity_env \<Rightarrow> int \<Rightarrow> qstring list" where
  "csv_header env display_unit =
     (let in_unit = q '' ('' @ unit_label (fromDisplayUnit display_unit) @ q '')''
      in [tr env ''Confirmed'', tr env ''Date'', tr env ''Type'', tr env ''Label'', tr env ''Address'',
          tr env ''Amount'' @ in_unit, tr env ''ID'',
          tr env ''Record'', tr env ''Action ID'', tr env ''Status'', tr env ''Action amount'' @ in_unit])"

definition csv_values :: "activity_env \<Rightarrow> int \<Rightarrow> activity \<Rightarrow> qstring list option" where
  "csv_values env display_unit r =
     (let confirmed = (act_status r = Confirming \<or> act_status r = Confirmed);
          amount = (if replaced r then 0 else act_net r)
      in Option.bind (format (fromDisplayUnit display_unit) amount False NEVER) (\<lambda>amount_text.
           Some [if confirmed then q ''true'' else q ''false'',
                 time_text env ''yyyy-MM-dd HH:mm:ss'' (act_timestamp r),
                 exportTypeLabel env r,
                 GuardedCsvText (act_label r),
                 GuardedCsvText (act_address r),
                 amount_text,
                 if act_pending_request r then [] else act_txid r,
                 if act_pending_request r then tr env ''Payment request'' else tr env ''Transaction'',
                 [], status_label env r, []]))"

definition csv_action :: "activity_env \<Rightarrow> int \<Rightarrow> activity \<Rightarrow> qstring list \<Rightarrow> activity_action \<Rightarrow> qstring list option" where
  "csv_action env display_unit r vals a =
     Option.bind (if direction a = SendAction then chk64 (- amountSat a) else Some (amountSat a)) (\<lambda>amount.
     Option.bind (format (fromDisplayUnit display_unit) amount False NEVER) (\<lambda>amount_text.
       Some [vals ! 0, vals ! 1,
             case direction a of SendAction \<Rightarrow> tr env ''Sent'' | ReceiveAction \<Rightarrow> tr env ''Received'' | InternalAction \<Rightarrow> tr env ''Internal'',
             GuardedCsvText (action_label a),
             GuardedCsvText (action_address a),
             [], vals ! 6, tr env ''Action'', GuardedCsvText (actionId a), status_label env r, amount_text]))"

fun csv_actions :: "activity_env \<Rightarrow> int \<Rightarrow> activity \<Rightarrow> qstring list \<Rightarrow> activity_action list \<Rightarrow> qstring list list option" where
  "csv_actions env u r vals [] = Some []"
| "csv_actions env u r vals (a # as) =
     Option.bind (csv_action env u r vals a) (\<lambda>row. map_option ((#) row) (csv_actions env u r vals as))"

fun csv_rows :: "activity_env \<Rightarrow> int \<Rightarrow> activity list \<Rightarrow> qstring list list option" where
  "csv_rows env u [] = Some []"
| "csv_rows env u (r # rs) =
     Option.bind (csv_values env u r) (\<lambda>vals.
     Option.bind (if act_pending_request r \<or> length (act_actions r) \<le> 1 then Some []
                  else csv_actions env u r vals (act_actions r)) (\<lambda>actions.
     map_option (\<lambda>rest. vals # actions @ rest) (csv_rows env u rs)))"

definition export_text :: "activity_env \<Rightarrow> activity_model \<Rightarrow> qstring option" where
  "export_text env m =
     map_option (\<lambda>rows. concat (map WriteCsvRow (csv_header env (am_display_unit m) # rows)))
       (csv_rows env (am_display_unit m) (am_view m))"

text \<open>
  The result of the call and what was written; \<open>local_file\<close> is \<open>normalizedExportPath\<close>, whose URL parsing
  is Qt's. The outer \<open>None\<close> is an amount whose negation overflows.
\<close>

definition exportCsv ::
  "activity_env \<Rightarrow> (qstring \<Rightarrow> qstring) \<Rightarrow> bool \<Rightarrow> bool \<Rightarrow> qstring \<Rightarrow> activity_model \<Rightarrow> (bool \<times> qstring option) option" where
  "exportCsv env local_file opens no_error path m =
     (if local_file path = [] then Some (False, None)
      else if \<not> opens then Some (False, None)
      else map_option (\<lambda>s. (no_error, Some s)) (export_text env m))"

subsection \<open>The reference reader\<close>

datatype csv_mode = RowStart | CellStart | Quoted | QuoteSeen

fun csv_read :: "csv_mode \<Rightarrow> qstring \<Rightarrow> qstring list \<Rightarrow> qstring list list \<Rightarrow> qstring \<Rightarrow> qstring list list option" where
  "csv_read mode cell cells rows [] = (if mode = RowStart then Some rows else None)"
| "csv_read mode cell cells rows (c # cs) =
     (case mode of
        Quoted \<Rightarrow> if c = 34 then csv_read QuoteSeen cell cells rows cs else csv_read Quoted (cell @ [c]) cells rows cs
      | QuoteSeen \<Rightarrow>
          if c = 34 then csv_read Quoted (cell @ [34]) cells rows cs
          else if c = 44 then csv_read CellStart [] (cells @ [cell]) rows cs
          else if c = 10 then csv_read RowStart [] [] (rows @ [cells @ [cell]]) cs
          else None
      | _ \<Rightarrow> if c = 34 then csv_read Quoted [] cells rows cs else None)"

definition read_csv :: "qstring \<Rightarrow> qstring list list option" where
  "read_csv s = csv_read RowStart [] [] [] s"

section \<open>Reading what was written\<close>

lemma read_escaped: "csv_read Quoted cell cells rows (csv_escape v @ s) = csv_read Quoted (cell @ v) cells rows s"
  by (induction v arbitrary: cell) (simp_all add: csv_escape_def)

lemma read_value:
  "mode = RowStart \<or> mode = CellStart \<Longrightarrow>
   csv_read mode cell cells rows (WriteCsvValue v @ s) = csv_read QuoteSeen v cells rows s"
  by (auto simp: WriteCsvValue_def read_escaped)

lemma read_row:
  "vs \<noteq> [] \<Longrightarrow> mode = RowStart \<or> mode = CellStart \<Longrightarrow>
   csv_read mode cell cells rows (WriteCsvRow vs @ s) = csv_read RowStart [] [] (rows @ [cells @ vs]) s"
proof (induction vs arbitrary: mode cell cells rule: WriteCsvRow.induct)
  case (3 v w vs)
  then show ?case by (simp add: read_value)
qed (simp_all add: read_value)

lemma read_rows:
  "[] \<notin> set rs \<Longrightarrow> csv_read RowStart [] [] rows (concat (map WriteCsvRow rs)) = Some (rows @ rs)"
proof (induction rs arbitrary: rows)
  case (Cons r rs)
  then have "r \<noteq> []" "[] \<notin> set rs" by auto
  then show ?case using Cons.IH [of "rows @ [r]"] read_row [of r RowStart "[]" "[]" rows] by simp
qed simp

section \<open>The rows\<close>

definition unguarded :: "qstring \<Rightarrow> bool" where
  "unguarded v \<longleftrightarrow> v \<noteq> [] \<and> hd v \<in> set dangerous_leads"

lemma guarded [simp]: "\<not> unguarded (GuardedCsvText v)"
  by (simp add: unguarded_def GuardedCsvText_def dangerous_leads_def)

text \<open>The columns that hold text of senders and of the address book.\<close>

definition safe_row :: "qstring list \<Rightarrow> bool" where
  "safe_row row \<longleftrightarrow> length row = 11 \<and> \<not> unguarded (row ! 3) \<and> \<not> unguarded (row ! 4) \<and> \<not> unguarded (row ! 8)"

lemma values_safe: "csv_values env u r = Some row \<Longrightarrow> safe_row row"
  by (auto simp: csv_values_def Let_def safe_row_def unguarded_def [of "[]"] split: bind_splits)

lemma actions_safe:
  "csv_actions env u r vals as = Some rows \<Longrightarrow> list_all safe_row rows \<and> length rows = length as"
  by (induction as arbitrary: rows) (fastforce simp: csv_action_def safe_row_def split: bind_splits)+

definition record_count :: "activity \<Rightarrow> nat" where
  "record_count r = (if act_pending_request r \<or> length (act_actions r) \<le> 1 then 1 else 1 + length (act_actions r))"

lemma rows_safe: "csv_rows env u rs = Some rows \<Longrightarrow> list_all safe_row rows \<and> length rows = sum_list (map record_count rs)"
proof (induction rs arbitrary: rows)
  case (Cons r rs)
  from Cons.prems obtain vals actions rest where
    v: "csv_values env u r = Some vals" and
    a: "(if act_pending_request r \<or> length (act_actions r) \<le> 1 then Some [] else csv_actions env u r vals (act_actions r)) = Some actions" and
    r: "csv_rows env u rs = Some rest" "rows = vals # actions @ rest"
    by (auto split: bind_splits)
  have "list_all safe_row actions \<and> Suc (length actions) = record_count r"
    using a actions_safe [of env u r vals "act_actions r" actions] by (auto simp: record_count_def split: if_splits)
  with Cons.IH [OF r(1)] values_safe [OF v] show ?case by (simp add: r(2))
qed simp

definition fits :: "activity \<Rightarrow> bool" where
  "fits r \<longleftrightarrow> \<bar>act_net r\<bar> \<le> i64_max \<and> (\<forall>a \<in> set (act_actions r). \<bar>amountSat a\<bar> \<le> i64_max)"

lemma format_returns: "\<bar>n\<bar> \<le> i64_max \<Longrightarrow> \<exists>s. format u n p sep = Some s"
  by (auto simp: format_def i64_defs Let_def)

lemma action_returns:
  assumes "\<bar>amountSat a\<bar> \<le> i64_max"
  shows "\<exists>row. csv_action env u r vals a = Some row"
proof -
  have "in_i64 (- amountSat a)" using assms unfolding in_i64_def i64_min_def i64_max_def by linarith
  then obtain n where n: "(if direction a = SendAction then chk64 (- amountSat a) else Some (amountSat a)) = Some n" "\<bar>n\<bar> \<le> i64_max"
    using assms by (cases "direction a = SendAction") simp_all
  obtain s where "format (fromDisplayUnit u) n False NEVER = Some s" using format_returns [OF n(2)] by blast
  then show ?thesis unfolding csv_action_def n(1) by simp
qed

lemma actions_return:
  "\<forall>a \<in> set as. \<bar>amountSat a\<bar> \<le> i64_max \<Longrightarrow> \<exists>rows. csv_actions env u r vals as = Some rows"
proof (induction as)
  case (Cons a as)
  have a: "\<bar>amountSat a\<bar> \<le> i64_max" and as: "\<forall>a \<in> set as. \<bar>amountSat a\<bar> \<le> i64_max"
    using Cons.prems unfolding list.set by blast+
  obtain row where row: "csv_action env u r vals a = Some row" using action_returns [OF a] by blast
  obtain rows where rows: "csv_actions env u r vals as = Some rows" using Cons.IH [OF as] by blast
  show ?case unfolding csv_actions.simps row rows Option.bind.simps option.map by blast
qed simp

lemma values_return:
  assumes "\<bar>act_net r\<bar> \<le> i64_max"
  shows "\<exists>vals. csv_values env u r = Some vals"
proof -
  have "\<bar>if replaced r then 0 else act_net r\<bar> \<le> i64_max" using assms by (simp add: i64_max_def)
  from format_returns [OF this] obtain s where
    s: "format (fromDisplayUnit u) (if replaced r then 0 else act_net r) False NEVER = Some s" by blast
  show ?thesis unfolding csv_values_def Let_def s by simp
qed

lemma rows_return: "list_all fits rs \<Longrightarrow> \<exists>rows. csv_rows env u rs = Some rows"
proof (induction rs)
  case (Cons r rs)
  have f: "\<bar>act_net r\<bar> \<le> i64_max" "\<forall>a \<in> set (act_actions r). \<bar>amountSat a\<bar> \<le> i64_max" and rs: "list_all fits rs"
    using Cons.prems unfolding list.pred_inject fits_def by blast+
  obtain vals where v: "csv_values env u r = Some vals" using values_return [OF f(1)] by blast
  obtain actions where a: "csv_actions env u r vals (act_actions r) = Some actions" using actions_return [OF f(2)] by blast
  obtain rows where rows: "csv_rows env u rs = Some rows" using Cons.IH [OF rs] by blast
  show ?case unfolding csv_rows.simps v a rows Option.bind.simps option.map
    by (cases "act_pending_request r \<or> length (act_actions r) \<le> 1") (simp_all only: if_True if_False Option.bind.simps option.inject simp_thms)
qed simp

section \<open>Properties\<close>

text \<open>
  C28: the export can be read back and is safe to open. For amounts that fit, the text written to a
  file that opens is well-formed CSV whose cells are exactly the header and one record for each shown
  row and for each action of a row with several, eleven cells each, whatever quotes, commas or line
  breaks labels contain; and no label, address or action identifier begins with a character that a
  spreadsheet takes for a formula.
\<close>

theorem csv_export:
  assumes "list_all fits (am_view m)" "local_file path \<noteq> []"
  shows "\<exists>s rows. exportCsv env local_file True no_error path m = Some (no_error, Some s) \<and>
     read_csv s = Some (csv_header env (am_display_unit m) # rows) \<and>
     csv_rows env (am_display_unit m) (am_view m) = Some rows \<and>
     length rows = sum_list (map record_count (am_view m)) \<and> list_all safe_row rows"
proof -
  obtain rows where r: "csv_rows env (am_display_unit m) (am_view m) = Some rows" using rows_return [OF assms(1)] by blast
  note s = rows_safe [OF r]
  then have "[] \<notin> set (csv_header env (am_display_unit m) # rows)" by (auto simp: list_all_iff safe_row_def csv_header_def Let_def)
  from read_rows [OF this, of "[]"] r s assms(2) show ?thesis
    by (simp add: exportCsv_def export_text_def read_csv_def)
qed

theorem csv_export_witness:
  "\<exists>s rows. exportCsv sample_env (\<lambda>p. p) True True (q ''out.csv'') sample_activity_model = Some (True, Some s) \<and>
     read_csv s = Some (csv_header sample_env 0 # rows) \<and> length rows = 3 \<and> list_all safe_row rows"
proof -
  have c: "list_all (\<lambda>r. \<bar>act_net r\<bar> \<le> i64_max \<and> act_actions r = []) (am_view sample_activity_model)"
    "sum_list (map record_count (am_view sample_activity_model)) = 3" "am_display_unit sample_activity_model = 0" by code_simp+
  have "list_all fits (am_view sample_activity_model)" using c(1) by (auto simp: list_all_iff fits_def)
  from csv_export [OF this, of "\<lambda>p. p" "q ''out.csv''" sample_env True] c(2,3) show ?thesis by auto
qed

end
