(* ===== verification/Traffic.thy ===== *)
theory Traffic
  imports Prelude Complex_Main
begin

text \<open>
  \<open>src/qml/models/networktraffictower.{h,cpp}\<close>: the sampling worker with its smoothed history, and the
  GUI object that activates it and shows its snapshots.

  Totals of bytes are naturals. A rate is a rational; the rounding of a value to \<open>float\<close> is the
  parameter \<open>fl\<close>, and the sums, which the code keeps in \<open>double\<close>, are exact, as they are for the integral
  rates below \<open>2^53\<close> that traffic produces.
\<close>

section \<open>The worker\<close>

subsection \<open>Definitions\<close>

definition MAX_SAMPLES :: nat where "MAX_SAMPLES = 86400"

lemma MAX_SAMPLES_bounds: "0 < MAX_SAMPLES" "30 \<le> MAX_SAMPLES"
  by (simp_all add: MAX_SAMPLES_def)

record TrafficSnapshot =
  generation :: nat
  total_bytes_received :: nat
  total_bytes_sent :: nat
  max_received_rate_bps :: rat
  max_sent_rate_bps :: rat
  received_rate_list :: "rat list"
  sent_rate_list :: "rat list"

record NetworkTrafficWorker =
  w_active :: bool
  w_has_baseline :: bool
  w_smoothed_history_valid :: bool
  w_generation :: nat
  w_previous_received :: nat
  w_previous_sent :: nat
  w_total_received :: nat
  w_total_sent :: nat
  w_filter_window_size :: nat
  w_max_received :: rat
  w_max_sent :: rat
  w_received :: "rat list"
  w_smoothed_received :: "rat list"
  w_sent :: "rat list"
  w_smoothed_sent :: "rat list"

definition new_worker :: NetworkTrafficWorker where
  "new_worker = \<lparr>w_active = False, w_has_baseline = False, w_smoothed_history_valid = False, w_generation = 0,
     w_previous_received = 0, w_previous_sent = 0, w_total_received = 0, w_total_sent = 0, w_filter_window_size = 30,
     w_max_received = 0, w_max_sent = 0, w_received = [], w_smoothed_received = [], w_sent = [], w_smoothed_sent = []\<rparr>"

definition NonNegativeTotal :: "int \<Rightarrow> nat" where
  "NonNegativeTotal n = (if n > 0 then nat n else 0)"

definition RateDelta :: "(rat \<Rightarrow> rat) \<Rightarrow> nat \<Rightarrow> nat \<Rightarrow> rat" where
  "RateDelta fl current previous = (if current \<ge> previous then fl (of_nat (current - previous)) else 0)"

definition currentMovingAverage :: "(rat \<Rightarrow> rat) \<Rightarrow> nat \<Rightarrow> rat list \<Rightarrow> rat" where
  "currentMovingAverage fl window rates =
     (let count = min (length rates) window
      in if count = 0 then 0 else fl (sum_list (take count rates) / of_nat count))"

function smooth_loop :: "(rat \<Rightarrow> rat) \<Rightarrow> nat \<Rightarrow> rat list \<Rightarrow> nat \<Rightarrow> rat \<Rightarrow> rat list" where
  "smooth_loop fl window rates i window_sum =
     (if i < length rates then
        fl (window_sum / of_nat (min window (length rates - i))) #
        smooth_loop fl window rates (i + 1)
          (window_sum - rates ! i + (if i + window < length rates then rates ! (i + window) else 0))
      else [])"
  by auto

termination by (relation "measure (\<lambda>(fl, window, rates, i, s). length rates - i)") auto

declare smooth_loop.simps [simp del]

definition calculateSmoothedHistory :: "(rat \<Rightarrow> rat) \<Rightarrow> nat \<Rightarrow> rat list \<Rightarrow> rat list" where
  "calculateSmoothedHistory fl filter_window rates =
     (if rates = [] then []
      else let window = min (length rates) filter_window
           in smooth_loop fl window rates 0 (sum_list (take window rates)))"

definition calculateMaxRate :: "nat \<Rightarrow> rat list \<Rightarrow> rat" where
  "calculateMaxRate window smoothed =
     (let lookback = min (length smoothed) (window * 10) in fold (\<lambda>r m. max m r) (take lookback smoothed) 0)"

definition visibleHistory :: "nat \<Rightarrow> rat list \<Rightarrow> rat list" where
  "visibleHistory window smoothed =
     (let sample_count = min (length smoothed) (window * 10) in map (\<lambda>i. smoothed ! i) [0..<sample_count])"

definition ensureSmoothedHistory :: "(rat \<Rightarrow> rat) \<Rightarrow> NetworkTrafficWorker \<Rightarrow> NetworkTrafficWorker" where
  "ensureSmoothedHistory fl w =
     (if w_smoothed_history_valid w then w
      else
        let window = w_filter_window_size w;
            received = calculateSmoothedHistory fl window (w_received w);
            sent = calculateSmoothedHistory fl window (w_sent w)
        in w\<lparr>w_smoothed_received := received, w_smoothed_sent := sent,
             w_max_received := calculateMaxRate window received, w_max_sent := calculateMaxRate window sent,
             w_smoothed_history_valid := True\<rparr>)"

text \<open>\<open>while (size > n) pop_back()\<close> keeps the first \<open>n\<close> elements.\<close>

definition appendSmoothedSample :: "(rat \<Rightarrow> rat) \<Rightarrow> NetworkTrafficWorker \<Rightarrow> NetworkTrafficWorker" where
  "appendSmoothedSample fl w =
     (let window = w_filter_window_size w;
          received = take (length (w_received w)) (currentMovingAverage fl window (w_received w) # w_smoothed_received w);
          sent = take (length (w_sent w)) (currentMovingAverage fl window (w_sent w) # w_smoothed_sent w)
      in w\<lparr>w_smoothed_received := received, w_smoothed_sent := sent,
           w_max_received := calculateMaxRate window received, w_max_sent := calculateMaxRate window sent\<rparr>)"

definition publishSnapshot :: "NetworkTrafficWorker \<Rightarrow> TrafficSnapshot list" where
  "publishSnapshot w =
     (if \<not> w_active w then []
      else [\<lparr>generation = w_generation w, total_bytes_received = w_total_received w, total_bytes_sent = w_total_sent w,
             max_received_rate_bps = w_max_received w, max_sent_rate_bps = w_max_sent w,
             received_rate_list = visibleHistory (w_filter_window_size w) (w_smoothed_received w),
             sent_rate_list = visibleHistory (w_filter_window_size w) (w_smoothed_sent w)\<rparr>])"

definition worker_sample :: "(rat \<Rightarrow> rat) \<Rightarrow> int \<Rightarrow> int \<Rightarrow> NetworkTrafficWorker \<Rightarrow> NetworkTrafficWorker \<times> TrafficSnapshot list" where
  "worker_sample fl bytes_recv bytes_sent w =
     (let total_received = NonNegativeTotal bytes_recv;
          total_sent = NonNegativeTotal bytes_sent
      in if \<not> w_has_baseline w then
           let w1 = w\<lparr>w_has_baseline := True, w_previous_received := total_received, w_previous_sent := total_sent,
                      w_total_received := total_received, w_total_sent := total_sent\<rparr>
           in (w1, publishSnapshot w1)
         else
           let w1 = w\<lparr>w_received := take MAX_SAMPLES (RateDelta fl total_received (w_previous_received w) # w_received w),
                      w_sent := take MAX_SAMPLES (RateDelta fl total_sent (w_previous_sent w) # w_sent w),
                      w_previous_received := total_received, w_previous_sent := total_sent,
                      w_total_received := total_received, w_total_sent := total_sent\<rparr>
           in if \<not> w_active w1 then (w1\<lparr>w_smoothed_history_valid := False\<rparr>, [])
              else let w2 = (if w_smoothed_history_valid w1 then appendSmoothedSample fl w1 else ensureSmoothedHistory fl w1)
                   in (w2, publishSnapshot w2))"

definition worker_setActive :: "(rat \<Rightarrow> rat) \<Rightarrow> bool \<Rightarrow> nat \<Rightarrow> NetworkTrafficWorker \<Rightarrow> NetworkTrafficWorker \<times> TrafficSnapshot list" where
  "worker_setActive fl active gen w =
     (let w1 = w\<lparr>w_active := active, w_generation := gen\<rparr>
      in if \<not> active then (w1\<lparr>w_smoothed_history_valid := False\<rparr>, [])
         else let w2 = ensureSmoothedHistory fl w1 in (w2, publishSnapshot w2))"

definition worker_setFilterWindowSize :: "(rat \<Rightarrow> rat) \<Rightarrow> int \<Rightarrow> NetworkTrafficWorker \<Rightarrow> NetworkTrafficWorker \<times> TrafficSnapshot list" where
  "worker_setFilterWindowSize fl window_size w =
     (let clamped_size = nat (max 1 (min (int MAX_SAMPLES) window_size))
      in if w_filter_window_size w = clamped_size then (w, [])
         else let w1 = w\<lparr>w_filter_window_size := clamped_size, w_smoothed_history_valid := False\<rparr>
              in if w_active w1 then let w2 = ensureSmoothedHistory fl w1 in (w2, publishSnapshot w2) else (w1, []))"

datatype worker_call = Sample int int | SetActive bool nat | SetWindow int

fun worker_step :: "(rat \<Rightarrow> rat) \<Rightarrow> worker_call \<Rightarrow> NetworkTrafficWorker \<Rightarrow> NetworkTrafficWorker \<times> TrafficSnapshot list" where
  "worker_step fl (Sample r s) w = worker_sample fl r s w"
| "worker_step fl (SetActive a g) w = worker_setActive fl a g w"
| "worker_step fl (SetWindow n) w = worker_setFilterWindowSize fl n w"

fun worker_run :: "(rat \<Rightarrow> rat) \<Rightarrow> worker_call list \<Rightarrow> NetworkTrafficWorker \<Rightarrow> NetworkTrafficWorker \<times> TrafficSnapshot list" where
  "worker_run fl [] w = (w, [])"
| "worker_run fl (c # cs) w = andthen (worker_step fl c w) (worker_run fl cs)"

subsection \<open>The sliding window\<close>

text \<open>The reference: the average of the \<open>window\<close> newest samples at each position of the history.\<close>

definition window_average :: "(rat \<Rightarrow> rat) \<Rightarrow> nat \<Rightarrow> rat list \<Rightarrow> rat" where
  "window_average fl window xs = fl (sum_list (take window xs) / of_nat (min window (length xs)))"

definition moving_average :: "(rat \<Rightarrow> rat) \<Rightarrow> nat \<Rightarrow> rat list \<Rightarrow> rat list" where
  "moving_average fl window rates = map (\<lambda>i. window_average fl window (drop i rates)) [0..<length rates]"

lemma sum_take_slide:
  fixes rates :: "rat list"
  assumes "i < length rates" "0 < window"
  shows "sum_list (take window (drop (Suc i) rates)) =
     sum_list (take window (drop i rates)) - rates ! i + (if i + window < length rates then rates ! (i + window) else 0)"
proof -
  have "drop i rates = rates ! i # drop (Suc i) rates" using assms(1) by (rule Cons_nth_drop_Suc [symmetric])
  then have "sum_list (take window (drop i rates)) = rates ! i + sum_list (take (window - 1) (drop (Suc i) rates))"
    using assms(2) by (cases window) simp_all
  moreover have "take window (drop (Suc i) rates) = take (window - 1) (drop (Suc i) rates) @
      (if i + window < length rates then [rates ! (i + window)] else [])"
    using assms(2) by (cases window) (auto simp: take_Suc_conv_app_nth)
  ultimately show ?thesis by (cases "i + window < length rates") simp_all
qed

lemma smooth_loop_eq:
  assumes "0 < window"
  shows "i \<le> length rates \<Longrightarrow> smooth_loop fl window rates i (sum_list (take window (drop i rates))) =
     map (\<lambda>j. window_average fl window (drop j rates)) [i..<length rates]"
proof (induction "length rates - i" arbitrary: i)
  case 0
  then show ?case by (simp add: smooth_loop.simps)
next
  case (Suc n)
  then have i: "i < length rates" by simp
  have "smooth_loop fl window rates i (sum_list (take window (drop i rates))) =
      window_average fl window (drop i rates) #
      smooth_loop fl window rates (Suc i) (sum_list (take window (drop (Suc i) rates)))"
    using i by (subst smooth_loop.simps) (simp add: sum_take_slide [OF i assms] window_average_def)
  also have "\<dots> = window_average fl window (drop i rates) # map (\<lambda>j. window_average fl window (drop j rates)) [Suc i..<length rates]"
    using Suc i by simp
  finally show ?case using i by (simp add: upt_conv_Cons)
qed

lemma window_average_min: "length xs \<le> n \<Longrightarrow> window_average fl (min n window) xs = window_average fl window xs"
  by (cases "window \<le> n") (auto simp: window_average_def min_def)

lemma calculateSmoothedHistory_eq: "0 < window \<Longrightarrow> calculateSmoothedHistory fl window rates = moving_average fl window rates"
  using smooth_loop_eq [of "min (length rates) window" 0 rates fl]
  by (auto simp: calculateSmoothedHistory_def moving_average_def Let_def window_average_min)

lemma currentMovingAverage_eq: "0 < window \<Longrightarrow> rates \<noteq> [] \<Longrightarrow> currentMovingAverage fl window rates = window_average fl window rates"
  by (auto simp: currentMovingAverage_def window_average_def Let_def min_def)

lemma visibleHistory_take: "visibleHistory window xs = take (window * 10) xs"
  by (rule nth_equalityI) (simp_all add: visibleHistory_def Let_def min.commute)

subsection \<open>The invariant\<close>

text \<open>
  Which entries of the smoothed history are the reference averages: all of them until the raw history
  is full, and afterwards those whose window lies within it. (A dropped sample stays in the averages
  of the oldest entries until the history is rebuilt.)
\<close>

definition smooth_ok :: "(rat \<Rightarrow> rat) \<Rightarrow> nat \<Rightarrow> rat list \<Rightarrow> rat list \<Rightarrow> bool" where
  "smooth_ok fl window rates smoothed \<longleftrightarrow> length smoothed = length rates \<and>
     (\<forall>i < length rates. length rates < MAX_SAMPLES \<or> i + window \<le> length rates \<longrightarrow>
        smoothed ! i = window_average fl window (drop i rates))"

lemma smooth_ok_calculated: "0 < window \<Longrightarrow> smooth_ok fl window rates (calculateSmoothedHistory fl window rates)"
  by (simp add: smooth_ok_def calculateSmoothedHistory_eq moving_average_def)

lemma window_average_cong: "take window xs = take window ys \<Longrightarrow> min window (length xs) = min window (length ys) \<Longrightarrow>
   window_average fl window xs = window_average fl window ys"
  by (simp add: window_average_def)

lemma smooth_ok_append:
  assumes "smooth_ok fl window rates smoothed" "0 < window" "length rates \<le> MAX_SAMPLES"
    and r: "rates' = take MAX_SAMPLES (x # rates)"
  shows "smooth_ok fl window rates' (take (length rates') (currentMovingAverage fl window rates' # smoothed))"
proof -
  have len: "length smoothed = length rates" and ne: "rates' \<noteq> []" using assms(1) MAX_SAMPLES_bounds by (auto simp: smooth_ok_def r)
  have "(take (length rates') (currentMovingAverage fl window rates' # smoothed)) ! i = window_average fl window (drop i rates')"
    if i: "i < length rates'" "length rates' < MAX_SAMPLES \<or> i + window \<le> length rates'" for i
  proof (cases i)
    case 0
    with i(1) show ?thesis by (simp add: currentMovingAverage_eq [OF assms(2) ne])
  next
    case (Suc j)
    have j: "j < length rates" "length rates < MAX_SAMPLES \<or> j + window \<le> length rates"
      using i Suc assms(3) by (auto simp: r)
    then have s: "smoothed ! j = window_average fl window (drop j rates)" using assms(1) unfolding smooth_ok_def by blast
    have "window_average fl window (drop j rates) = window_average fl window (drop i rates')"
    proof (cases "length rates < MAX_SAMPLES")
      case True
      then show ?thesis by (simp add: r Suc)
    next
      case False
      then have l: "length rates = MAX_SAMPLES" using assms(3) by simp
      then have "i + window \<le> MAX_SAMPLES" using i(2) by (simp add: r)
      then have "take window (drop j rates) = take window (drop i rates')" "min window (length (drop j rates)) = min window (length (drop i rates'))"
        using l by (simp_all add: r Suc drop_take)
      then show ?thesis by (rule window_average_cong)
    qed
    with s i(1) Suc show ?thesis by simp
  qed
  moreover have "length (take (length rates') (currentMovingAverage fl window rates' # smoothed)) = length rates'"
    by (simp add: len r)
  ultimately show ?thesis by (simp add: smooth_ok_def)
qed

definition direction_ok :: "(rat \<Rightarrow> rat) \<Rightarrow> bool \<Rightarrow> nat \<Rightarrow> rat list \<Rightarrow> rat list \<Rightarrow> rat \<Rightarrow> bool" where
  "direction_ok fl valid window rates smoothed peak \<longleftrightarrow> length rates \<le> MAX_SAMPLES \<and>
     (valid \<longrightarrow> smooth_ok fl window rates smoothed \<and> peak = calculateMaxRate window smoothed)"

definition worker_ok :: "(rat \<Rightarrow> rat) \<Rightarrow> NetworkTrafficWorker \<Rightarrow> bool" where
  "worker_ok fl w \<longleftrightarrow> 0 < w_filter_window_size w \<and> w_filter_window_size w \<le> MAX_SAMPLES \<and>
     (w_active w \<longrightarrow> w_smoothed_history_valid w) \<and>
     direction_ok fl (w_smoothed_history_valid w) (w_filter_window_size w) (w_received w) (w_smoothed_received w) (w_max_received w) \<and>
     direction_ok fl (w_smoothed_history_valid w) (w_filter_window_size w) (w_sent w) (w_smoothed_sent w) (w_max_sent w)"

lemma direction_calculated: "0 < window \<Longrightarrow> length rates \<le> MAX_SAMPLES \<Longrightarrow>
   direction_ok fl v window rates (calculateSmoothedHistory fl window rates) (calculateMaxRate window (calculateSmoothedHistory fl window rates))"
  by (simp add: direction_ok_def smooth_ok_calculated)

lemma direction_append:
  assumes "direction_ok fl v window rates smoothed peak" v "0 < window" "rates' = take MAX_SAMPLES (x # rates)"
    "sm = take (length rates') (currentMovingAverage fl window rates' # smoothed)"
  shows "direction_ok fl True window rates' sm (calculateMaxRate window sm)"
  using smooth_ok_append [OF _ assms(3) _ assms(4)] assms(1,2,4) unfolding direction_ok_def assms(5) by simp

lemma direction_invalid: "direction_ok fl False window rates smoothed peak \<longleftrightarrow> length rates \<le> MAX_SAMPLES"
  by (simp add: direction_ok_def)

lemma direction_length: "direction_ok fl v window rates smoothed peak \<Longrightarrow> length rates \<le> MAX_SAMPLES"
  by (simp add: direction_ok_def)

lemma ensure_ok:
  assumes "0 < w_filter_window_size w" "w_filter_window_size w \<le> MAX_SAMPLES"
    "direction_ok fl (w_smoothed_history_valid w) (w_filter_window_size w) (w_received w) (w_smoothed_received w) (w_max_received w)"
    "direction_ok fl (w_smoothed_history_valid w) (w_filter_window_size w) (w_sent w) (w_smoothed_sent w) (w_max_sent w)"
  shows "worker_ok fl (ensureSmoothedHistory fl w)"
proof (cases "w_smoothed_history_valid w")
  case True
  with assms show ?thesis by (simp add: ensureSmoothedHistory_def worker_ok_def)
next
  case False
  with assms show ?thesis using direction_length [OF assms(3)] direction_length [OF assms(4)]
    by (simp add: ensureSmoothedHistory_def worker_ok_def direction_calculated Let_def)
qed

lemma ensure_fields [simp]:
  "w_received (ensureSmoothedHistory fl w) = w_received w" "w_sent (ensureSmoothedHistory fl w) = w_sent w"
  "w_active (ensureSmoothedHistory fl w) = w_active w" "w_generation (ensureSmoothedHistory fl w) = w_generation w"
  "w_filter_window_size (ensureSmoothedHistory fl w) = w_filter_window_size w"
  "w_has_baseline (ensureSmoothedHistory fl w) = w_has_baseline w"
  "w_previous_received (ensureSmoothedHistory fl w) = w_previous_received w" "w_previous_sent (ensureSmoothedHistory fl w) = w_previous_sent w"
  "w_total_received (ensureSmoothedHistory fl w) = w_total_received w" "w_total_sent (ensureSmoothedHistory fl w) = w_total_sent w"
  by (simp_all add: ensureSmoothedHistory_def Let_def)

lemma setActive_ok:
  assumes "worker_ok fl w"
  shows "worker_ok fl (fst (worker_setActive fl a g w))"
proof (cases a)
  case True
  have "worker_ok fl (ensureSmoothedHistory fl (w\<lparr>w_active := True, w_generation := g\<rparr>))"
    by (rule ensure_ok) (use assms in \<open>simp_all add: worker_ok_def\<close>)
  with True show ?thesis by (simp add: worker_setActive_def Let_def)
next
  case False
  with assms show ?thesis by (auto simp: worker_setActive_def worker_ok_def direction_invalid dest: direction_length)
qed

lemma setWindow_ok:
  assumes "worker_ok fl w"
  shows "worker_ok fl (fst (worker_setFilterWindowSize fl n w))"
proof -
  define k where "k = nat (max 1 (min (int MAX_SAMPLES) n))"
  have k: "0 < k" "k \<le> MAX_SAMPLES" using MAX_SAMPLES_bounds by (simp_all add: k_def)
  have l: "length (w_received w) \<le> MAX_SAMPLES" "length (w_sent w) \<le> MAX_SAMPLES"
    using assms by (auto simp: worker_ok_def dest: direction_length)
  have e: "worker_ok fl (ensureSmoothedHistory fl (w\<lparr>w_filter_window_size := k, w_smoothed_history_valid := False\<rparr>))"
    by (rule ensure_ok) (simp_all add: k l direction_invalid)
  have i: "\<not> w_active w \<Longrightarrow> worker_ok fl (w\<lparr>w_filter_window_size := k, w_smoothed_history_valid := False\<rparr>)"
    using k l by (simp add: worker_ok_def direction_invalid)
  show ?thesis unfolding worker_setFilterWindowSize_def k_def [symmetric] using e i assms by (simp add: Let_def)
qed

lemma sample_ok:
  assumes "worker_ok fl w"
  shows "worker_ok fl (fst (worker_sample fl r s w))"
proof (cases "w_has_baseline w")
  case False
  with assms show ?thesis by (simp add: worker_sample_def Let_def worker_ok_def)
next
  case True
  let ?w = "w\<lparr>w_received := take MAX_SAMPLES (RateDelta fl (NonNegativeTotal r) (w_previous_received w) # w_received w),
       w_sent := take MAX_SAMPLES (RateDelta fl (NonNegativeTotal s) (w_previous_sent w) # w_sent w),
       w_previous_received := NonNegativeTotal r, w_previous_sent := NonNegativeTotal s,
       w_total_received := NonNegativeTotal r, w_total_sent := NonNegativeTotal s\<rparr>"
  have k: "0 < w_filter_window_size w" "w_filter_window_size w \<le> MAX_SAMPLES" using assms by (simp_all add: worker_ok_def)
  have d: "direction_ok fl (w_smoothed_history_valid w) (w_filter_window_size w) (w_received w) (w_smoothed_received w) (w_max_received w)"
    "direction_ok fl (w_smoothed_history_valid w) (w_filter_window_size w) (w_sent w) (w_smoothed_sent w) (w_max_sent w)"
    using assms by (simp_all add: worker_ok_def)
  show ?thesis
  proof (cases "w_active w")
    case False
    then have "fst (worker_sample fl r s w) = ?w\<lparr>w_smoothed_history_valid := False\<rparr>"
      using True by (simp add: worker_sample_def Let_def)
    then show ?thesis using k False by (simp add: worker_ok_def direction_invalid)
  next
    case active: True
    then have v: "w_smoothed_history_valid w" using assms by (simp add: worker_ok_def)
    then have "fst (worker_sample fl r s w) = appendSmoothedSample fl ?w"
      using True active by (simp add: worker_sample_def Let_def)
    moreover have "worker_ok fl (appendSmoothedSample fl ?w)"
      using k v direction_append [OF d(1) v k(1) refl refl] direction_append [OF d(2) v k(1) refl refl]
      by (simp add: worker_ok_def appendSmoothedSample_def Let_def)
    ultimately show ?thesis by simp
  qed
qed

lemma worker_step_ok: "worker_ok fl w \<Longrightarrow> worker_ok fl (fst (worker_step fl c w))"
  by (cases c) (simp_all add: sample_ok setActive_ok setWindow_ok)

lemma new_worker_ok: "worker_ok fl new_worker"
  using MAX_SAMPLES_bounds by (simp add: worker_ok_def new_worker_def direction_ok_def)

lemma worker_run_ok: "worker_ok fl w \<Longrightarrow> worker_ok fl (fst (worker_run fl cs w))"
  by (induction cs arbitrary: w) (simp_all add: worker_step_ok)

subsection \<open>The raw history\<close>

text \<open>The totals sampled by a sequence of calls, newest first, and the rates between them.\<close>

definition totals :: "(int \<times> int \<Rightarrow> int) \<Rightarrow> worker_call list \<Rightarrow> nat list" where
  "totals dir cs = rev (concat (map (\<lambda>c. case c of Sample r s \<Rightarrow> [NonNegativeTotal (dir (r, s))] | _ \<Rightarrow> []) cs))"

fun deltas :: "(rat \<Rightarrow> rat) \<Rightarrow> nat list \<Rightarrow> rat list" where
  "deltas fl (current # previous # ts) = RateDelta fl current previous # deltas fl (previous # ts)"
| "deltas fl ts = []"

definition history_ok :: "(rat \<Rightarrow> rat) \<Rightarrow> worker_call list \<Rightarrow> NetworkTrafficWorker \<Rightarrow> bool" where
  "history_ok fl cs w \<longleftrightarrow>
     w_received w = take MAX_SAMPLES (deltas fl (totals fst cs)) \<and> w_sent w = take MAX_SAMPLES (deltas fl (totals snd cs)) \<and>
     w_has_baseline w = (totals fst cs \<noteq> []) \<and>
     (case totals fst cs of [] \<Rightarrow> w_total_received w = 0 | t # ts \<Rightarrow> w_previous_received w = t \<and> w_total_received w = t) \<and>
     (case totals snd cs of [] \<Rightarrow> w_total_sent w = 0 | t # ts \<Rightarrow> w_previous_sent w = t \<and> w_total_sent w = t)"

lemma totals_snoc: "totals dir (cs @ [c]) = (case c of Sample r s \<Rightarrow> NonNegativeTotal (dir (r, s)) # totals dir cs | _ \<Rightarrow> totals dir cs)"
  by (simp add: totals_def split: worker_call.split)

lemma totals_same_length: "totals fst cs = [] \<longleftrightarrow> totals snd cs = []"
  by (induction cs rule: rev_induct) (auto simp: totals_snoc totals_def [of _ "[]"] split: worker_call.split)

lemma take_cons_take: "take n (x # take n xs) = take n (x # xs)"
  by (cases n) simp_all

lemma append_fields [simp]:
  "w_received (appendSmoothedSample fl w) = w_received w" "w_sent (appendSmoothedSample fl w) = w_sent w"
  "w_active (appendSmoothedSample fl w) = w_active w" "w_generation (appendSmoothedSample fl w) = w_generation w"
  "w_has_baseline (appendSmoothedSample fl w) = w_has_baseline w"
  "w_previous_received (appendSmoothedSample fl w) = w_previous_received w" "w_previous_sent (appendSmoothedSample fl w) = w_previous_sent w"
  "w_total_received (appendSmoothedSample fl w) = w_total_received w" "w_total_sent (appendSmoothedSample fl w) = w_total_sent w"
  by (simp_all add: appendSmoothedSample_def Let_def)

lemma sample_fields:
  fixes w r s fl defines "w' \<equiv> fst (worker_sample fl r s w)"
  shows "w_has_baseline w'" "w_previous_received w' = NonNegativeTotal r" "w_previous_sent w' = NonNegativeTotal s"
    "w_total_received w' = NonNegativeTotal r" "w_total_sent w' = NonNegativeTotal s"
    "w_received w' = (if w_has_baseline w then take MAX_SAMPLES (RateDelta fl (NonNegativeTotal r) (w_previous_received w) # w_received w) else w_received w)"
    "w_sent w' = (if w_has_baseline w then take MAX_SAMPLES (RateDelta fl (NonNegativeTotal s) (w_previous_sent w) # w_sent w) else w_sent w)"
  by (simp_all add: w'_def worker_sample_def Let_def)

lemma history_sample:
  assumes "history_ok fl cs w"
  shows "history_ok fl (cs @ [Sample r s]) (fst (worker_sample fl r s w))"
proof (cases "totals fst cs")
  case Nil
  then have "totals snd cs = []" using totals_same_length by simp
  with Nil assms show ?thesis by (simp add: history_ok_def totals_snoc sample_fields)
next
  case (Cons t ts)
  then obtain u us where u: "totals snd cs = u # us" using totals_same_length [of cs] by (cases "totals snd cs") auto
  with Cons assms show ?thesis by (simp add: history_ok_def totals_snoc sample_fields take_cons_take)
qed

lemma control_fields:
  "w_received (fst (worker_setActive fl a g w)) = w_received w" "w_sent (fst (worker_setActive fl a g w)) = w_sent w"
  "w_has_baseline (fst (worker_setActive fl a g w)) = w_has_baseline w"
  "w_previous_received (fst (worker_setActive fl a g w)) = w_previous_received w" "w_previous_sent (fst (worker_setActive fl a g w)) = w_previous_sent w"
  "w_total_received (fst (worker_setActive fl a g w)) = w_total_received w" "w_total_sent (fst (worker_setActive fl a g w)) = w_total_sent w"
  "w_received (fst (worker_setFilterWindowSize fl n w)) = w_received w" "w_sent (fst (worker_setFilterWindowSize fl n w)) = w_sent w"
  "w_has_baseline (fst (worker_setFilterWindowSize fl n w)) = w_has_baseline w"
  "w_previous_received (fst (worker_setFilterWindowSize fl n w)) = w_previous_received w"
  "w_previous_sent (fst (worker_setFilterWindowSize fl n w)) = w_previous_sent w"
  "w_total_received (fst (worker_setFilterWindowSize fl n w)) = w_total_received w"
  "w_total_sent (fst (worker_setFilterWindowSize fl n w)) = w_total_sent w"
  by (simp_all add: worker_setActive_def worker_setFilterWindowSize_def Let_def)

lemma history_step: "history_ok fl cs w \<Longrightarrow> history_ok fl (cs @ [c]) (fst (worker_step fl c w))"
  by (cases c) (simp_all add: history_sample, simp_all add: history_ok_def totals_snoc control_fields cong: list.case_cong)

lemma worker_run_snoc: "fst (worker_run fl (cs @ [c]) w) = fst (worker_step fl c (fst (worker_run fl cs w)))"
  by (induction cs arbitrary: w) simp_all

lemma history_run: "history_ok fl cs (fst (worker_run fl cs new_worker))"
proof (induction cs rule: rev_induct)
  case Nil
  show ?case by (simp add: history_ok_def totals_def new_worker_def)
next
  case (snoc c cs)
  then show ?case unfolding worker_run_snoc by (rule history_step)
qed

subsection \<open>The smoothed history over all samples\<close>

text \<open>
  Every entry, full history or not: entry \<open>i\<close> is the average of a window that starts at sample \<open>i\<close> of all
  the rates ever sampled and is cut after the samples that were kept when the entry was computed, which
  are at least those that are kept now (\<open>MAX_SAMPLES - i\<close> from \<open>i\<close> on).
\<close>

definition averaged :: "(rat \<Rightarrow> rat) \<Rightarrow> nat \<Rightarrow> rat list \<Rightarrow> nat \<Rightarrow> rat \<Rightarrow> bool" where
  "averaged fl window rates i v \<longleftrightarrow>
     (\<exists>n \<le> MAX_SAMPLES. MAX_SAMPLES - i \<le> n \<and> v = window_average fl window (take n (drop i rates)))"

definition smooth_full :: "(rat \<Rightarrow> rat) \<Rightarrow> nat \<Rightarrow> rat list \<Rightarrow> rat list \<Rightarrow> bool" where
  "smooth_full fl window rates smoothed \<longleftrightarrow> length smoothed = min MAX_SAMPLES (length rates) \<and>
     (\<forall>i < length smoothed. averaged fl window rates i (smoothed ! i))"

definition full_ok :: "(rat \<Rightarrow> rat) \<Rightarrow> worker_call list \<Rightarrow> NetworkTrafficWorker \<Rightarrow> bool" where
  "full_ok fl cs w \<longleftrightarrow> (w_smoothed_history_valid w \<longrightarrow>
     smooth_full fl (w_filter_window_size w) (deltas fl (totals fst cs)) (w_smoothed_received w) \<and>
     smooth_full fl (w_filter_window_size w) (deltas fl (totals snd cs)) (w_smoothed_sent w))"

lemma smooth_full_calculated:
  assumes "0 < window"
  shows "smooth_full fl window rates (calculateSmoothedHistory fl window (take MAX_SAMPLES rates))"
  unfolding smooth_full_def calculateSmoothedHistory_eq [OF assms]
proof (intro conjI allI impI)
  fix i assume "i < length (moving_average fl window (take MAX_SAMPLES rates))"
  then have "moving_average fl window (take MAX_SAMPLES rates) ! i = window_average fl window (take (MAX_SAMPLES - i) (drop i rates))"
    by (simp add: moving_average_def drop_take)
  then show "averaged fl window rates i (moving_average fl window (take MAX_SAMPLES rates) ! i)"
    unfolding averaged_def by (intro exI [of _ "MAX_SAMPLES - i"]) simp
qed (simp add: moving_average_def min.commute)

lemma averaged_Suc: "averaged fl window rates i v \<Longrightarrow> averaged fl window (x # rates) (Suc i) v"
  unfolding averaged_def by fastforce

lemma smooth_full_append:
  assumes "smooth_full fl window rates smoothed" "0 < window" and r: "rates' = take MAX_SAMPLES (x # rates)"
  shows "smooth_full fl window (x # rates) (take (length rates') (currentMovingAverage fl window rates' # smoothed))"
proof -
  have ne: "rates' \<noteq> []" using MAX_SAMPLES_bounds by (simp add: r)
  have "averaged fl window (x # rates) i (take (length rates') (currentMovingAverage fl window rates' # smoothed) ! i)"
    if "i < length (take (length rates') (currentMovingAverage fl window rates' # smoothed))" for i
  proof (cases i)
    case 0
    have "averaged fl window (x # rates) 0 (window_average fl window rates')"
      unfolding averaged_def by (intro exI [of _ MAX_SAMPLES]) (simp add: r)
    with that 0 show ?thesis by (simp add: currentMovingAverage_eq [OF assms(2) ne])
  next
    case (Suc j)
    with that assms(1) have "averaged fl window rates j (smoothed ! j)" by (simp add: smooth_full_def)
    with that Suc show ?thesis by (simp add: averaged_Suc)
  qed
  moreover have "length (take (length rates') (currentMovingAverage fl window rates' # smoothed)) = min MAX_SAMPLES (length (x # rates))"
    using assms(1) by (simp add: smooth_full_def r)
  ultimately show ?thesis unfolding smooth_full_def by blast
qed

lemma ensure_full:
  assumes "full_ok fl cs w" "0 < w_filter_window_size w"
    "w_received w = take MAX_SAMPLES (deltas fl (totals fst cs))" "w_sent w = take MAX_SAMPLES (deltas fl (totals snd cs))"
  shows "full_ok fl cs (ensureSmoothedHistory fl w)"
proof (cases "w_smoothed_history_valid w")
  case True
  with assms(1) show ?thesis by (simp add: ensureSmoothedHistory_def)
next
  case False
  then show ?thesis by (simp add: ensureSmoothedHistory_def full_ok_def Let_def assms(3,4) smooth_full_calculated [OF assms(2)])
qed

lemma full_sample:
  assumes "full_ok fl cs w" "worker_ok fl w" "history_ok fl cs w"
  shows "full_ok fl (cs @ [Sample r s]) (fst (worker_sample fl r s w))"
proof (cases "totals fst cs")
  case Nil
  then have "totals snd cs = []" using totals_same_length by simp
  with Nil assms show ?thesis by (simp add: full_ok_def history_ok_def totals_snoc worker_sample_def Let_def)
next
  case (Cons t ts)
  then obtain u us where u: "totals snd cs = u # us" using totals_same_length [of cs] by (cases "totals snd cs") auto
  have h: "w_has_baseline w" "w_previous_received w = t" "w_previous_sent w = u"
    "w_received w = take MAX_SAMPLES (deltas fl (t # ts))" "w_sent w = take MAX_SAMPLES (deltas fl (u # us))"
    using assms(3) by (simp_all add: history_ok_def Cons u)
  have k: "0 < w_filter_window_size w" using assms(2) by (simp add: worker_ok_def)
  show ?thesis
  proof (cases "w_active w")
    case False
    then show ?thesis using h by (simp add: full_ok_def worker_sample_def Let_def)
  next
    case True
    then have v: "w_smoothed_history_valid w" using assms(2) by (simp add: worker_ok_def)
    then have f: "smooth_full fl (w_filter_window_size w) (deltas fl (t # ts)) (w_smoothed_received w)"
      "smooth_full fl (w_filter_window_size w) (deltas fl (u # us)) (w_smoothed_sent w)"
      using assms(1) by (simp_all add: full_ok_def Cons u)
    show ?thesis using True v smooth_full_append [OF f(1) k refl] smooth_full_append [OF f(2) k refl]
      by (simp add: full_ok_def worker_sample_def appendSmoothedSample_def Let_def totals_snoc Cons u h take_cons_take)
  qed
qed

lemma full_step:
  assumes "full_ok fl cs w" "worker_ok fl w" "history_ok fl cs w"
  shows "full_ok fl (cs @ [c]) (fst (worker_step fl c w))"
proof (cases c)
  case (Sample r s)
  with full_sample [OF assms] show ?thesis by simp
next
  case (SetActive a g)
  have "full_ok fl cs (ensureSmoothedHistory fl (w\<lparr>w_active := True, w_generation := g\<rparr>))"
    by (rule ensure_full) (use assms in \<open>simp_all add: full_ok_def worker_ok_def history_ok_def\<close>)
  with SetActive show ?thesis by (simp add: worker_setActive_def full_ok_def Let_def totals_snoc)
next
  case (SetWindow n)
  define k where "k = nat (max 1 (min (int MAX_SAMPLES) n))"
  have "0 < k" using MAX_SAMPLES_bounds by (simp add: k_def)
  then have "full_ok fl cs (ensureSmoothedHistory fl (w\<lparr>w_filter_window_size := k, w_smoothed_history_valid := False\<rparr>))"
    using assms(3) by (intro ensure_full) (simp_all add: full_ok_def history_ok_def)
  with SetWindow assms(1) show ?thesis
    by (simp add: worker_setFilterWindowSize_def k_def [symmetric] Let_def) (auto simp: full_ok_def totals_snoc)
qed

lemma full_run: "full_ok fl cs (fst (worker_run fl cs new_worker))"
proof (induction cs rule: rev_induct)
  case Nil
  show ?case by (simp add: full_ok_def new_worker_def)
next
  case (snoc c cs)
  then show ?case unfolding worker_run_snoc
    by (rule full_step [OF _ worker_run_ok [OF new_worker_ok] history_run])
qed

subsection \<open>Published snapshots\<close>

lemma published: "s \<in> set (snd (worker_step fl c w)) \<Longrightarrow> s \<in> set (publishSnapshot (fst (worker_step fl c w)))"
  by (cases c) (auto simp: worker_sample_def worker_setActive_def worker_setFilterWindowSize_def Let_def split: if_splits)

lemma fold_max_Max: "fold (\<lambda>r m. max m r) xs (a :: rat) = Max (insert a (set xs))"
proof (induction xs arbitrary: a)
  case (Cons x xs)
  show ?case
  proof (cases "xs = []")
    case False
    with Cons show ?thesis by (simp add: max.assoc)
  qed (simp add: max.commute)
qed simp

lemma calculateMaxRate_eq: "calculateMaxRate window xs = Max (insert 0 (set (take (window * 10) xs)))"
proof -
  have "take (min (length xs) (window * 10)) xs = take (window * 10) xs" by (simp add: min_def)
  then show ?thesis by (simp add: calculateMaxRate_def Let_def fold_max_Max)
qed

lemma smooth_visible:
  assumes "smooth_ok fl window rates smoothed" "length rates \<le> MAX_SAMPLES" "length rates < MAX_SAMPLES \<or> 11 * window \<le> MAX_SAMPLES"
  shows "take (window * 10) smoothed = take (window * 10) (moving_average fl window rates)"
proof (rule nth_equalityI)
  fix i assume "i < length (take (window * 10) smoothed)"
  then have i: "i < length rates" "i < window * 10" using assms(1) by (simp_all add: smooth_ok_def)
  then have "length rates < MAX_SAMPLES \<or> i + window \<le> length rates" using assms(2,3) by linarith
  with i assms(1) have "smoothed ! i = window_average fl window (drop i rates)" unfolding smooth_ok_def by blast
  with i show "take (window * 10) smoothed ! i = take (window * 10) (moving_average fl window rates) ! i"
    by (simp add: moving_average_def)
qed (use assms(1) in \<open>simp add: smooth_ok_def moving_average_def\<close>)

section \<open>The GUI object\<close>

text \<open>
  Calls queued to the worker thread and snapshots queued to the GUI thread are explicit queues. A call
  queued to a worker that is already gone is the result \<open>None\<close>. The thread ends when the queued quit
  has run; the joining thread then reports back.
\<close>

subsection \<open>Definitions\<close>

datatype tower_msg = WStart | WActive bool nat | WWindow int | WStop

record NetworkTrafficTower =
  t_active :: bool
  t_stopping :: bool
  t_sampling_started :: bool
  t_activation_generation :: nat
  t_total_bytes_received :: nat
  t_total_bytes_sent :: nat
  t_max_received_rate_bps :: rat
  t_max_sent_rate_bps :: rat
  t_received_rate_list :: "rat list"
  t_sent_rate_list :: "rat list"
  t_worker_gone :: bool
  t_worker :: NetworkTrafficWorker
  t_timer :: bool
  t_quit_posted :: bool
  t_thread_finished :: bool
  t_calls :: "tower_msg list"
  t_snapshots :: "TrafficSnapshot list"
  t_drained :: nat

definition new_tower :: NetworkTrafficTower where
  "new_tower = \<lparr>t_active = False, t_stopping = False, t_sampling_started = False, t_activation_generation = 0,
     t_total_bytes_received = 0, t_total_bytes_sent = 0, t_max_received_rate_bps = 0, t_max_sent_rate_bps = 0,
     t_received_rate_list = [], t_sent_rate_list = [], t_worker_gone = False, t_worker = new_worker, t_timer = False,
     t_quit_posted = False, t_thread_finished = False, t_calls = [], t_snapshots = [], t_drained = 0\<rparr>"

definition invoke_worker :: "tower_msg \<Rightarrow> NetworkTrafficTower \<Rightarrow> NetworkTrafficTower option" where
  "invoke_worker c t = (if t_worker_gone t then None else Some (t\<lparr>t_calls := t_calls t @ [c]\<rparr>))"

definition startSampling :: "NetworkTrafficTower \<Rightarrow> NetworkTrafficTower option" where
  "startSampling t =
     (if t_stopping t \<or> t_sampling_started t then Some t else invoke_worker WStart (t\<lparr>t_sampling_started := True\<rparr>))"

definition tower_setActive :: "bool \<Rightarrow> NetworkTrafficTower \<Rightarrow> NetworkTrafficTower option" where
  "tower_setActive active t =
     (if t_stopping t then Some t
      else if t_active t = active then Some t
      else let t1 = t\<lparr>t_active := active, t_activation_generation := t_activation_generation t + 1\<rparr>
           in invoke_worker (WActive active (t_activation_generation t1)) t1)"

definition updateFilterWindowSize :: "int \<Rightarrow> NetworkTrafficTower \<Rightarrow> NetworkTrafficTower option" where
  "updateFilterWindowSize n t = (if t_stopping t then Some t else invoke_worker (WWindow n) t)"

definition tower_beginShutdown :: "NetworkTrafficTower \<Rightarrow> NetworkTrafficTower option" where
  "tower_beginShutdown t =
     (if t_stopping t then Some t
      else let t1 = t\<lparr>t_stopping := True\<rparr>
           in if t_worker_gone t1 then Some (t1\<lparr>t_drained := t_drained t1 + 1\<rparr>) else invoke_worker WStop t1)"

definition on_snapshot :: "TrafficSnapshot \<Rightarrow> NetworkTrafficTower \<Rightarrow> NetworkTrafficTower" where
  "on_snapshot s t =
     (if \<not> t_active t \<or> generation s \<noteq> t_activation_generation t then t
      else t\<lparr>t_total_bytes_received := total_bytes_received s, t_total_bytes_sent := total_bytes_sent s,
             t_max_received_rate_bps := max_received_rate_bps s, t_max_sent_rate_bps := max_sent_rate_bps s,
             t_received_rate_list := received_rate_list s, t_sent_rate_list := sent_rate_list s\<rparr>)"

definition worker_effect :: "(rat \<Rightarrow> rat) \<Rightarrow> worker_call \<Rightarrow> NetworkTrafficTower \<Rightarrow> NetworkTrafficTower" where
  "worker_effect fl c t =
     (let (w, ss) = worker_step fl c (t_worker t) in t\<lparr>t_worker := w, t_snapshots := t_snapshots t @ ss\<rparr>)"

text \<open>One call on the worker thread; \<open>r\<close> and \<open>s\<close> are the node's totals.\<close>

fun on_call :: "(rat \<Rightarrow> rat) \<Rightarrow> int \<Rightarrow> int \<Rightarrow> tower_msg \<Rightarrow> NetworkTrafficTower \<Rightarrow> NetworkTrafficTower" where
  "on_call fl r s WStart t = (worker_effect fl (Sample r s) t)\<lparr>t_timer := True\<rparr>"
| "on_call fl r s (WActive a g) t = worker_effect fl (SetActive a g) t"
| "on_call fl r s (WWindow n) t = worker_effect fl (SetWindow n) t"
| "on_call fl r s WStop t = t\<lparr>t_timer := False, t_quit_posted := True\<rparr>"

datatype tower_event =
    StartSampling | SetTowerActive bool | FilterWindow int | BeginShutdown
  | WorkerTurn int int | TimerTick int int | GuiTurn | QuitRuns | JoinReports

fun tower_step :: "(rat \<Rightarrow> rat) \<Rightarrow> tower_event \<Rightarrow> NetworkTrafficTower \<Rightarrow> NetworkTrafficTower option" where
  "tower_step fl StartSampling t = startSampling t"
| "tower_step fl (SetTowerActive a) t = tower_setActive a t"
| "tower_step fl (FilterWindow n) t = updateFilterWindowSize n t"
| "tower_step fl BeginShutdown t = tower_beginShutdown t"
| "tower_step fl (WorkerTurn r s) t =
     Some (case t_calls t of
             [] \<Rightarrow> t
           | c # cs \<Rightarrow> if t_thread_finished t then t else on_call fl r s c (t\<lparr>t_calls := cs\<rparr>))"
| "tower_step fl (TimerTick r s) t =
     Some (if t_timer t \<and> \<not> t_thread_finished t then worker_effect fl (Sample r s) t else t)"
| "tower_step fl GuiTurn t =
     Some (case t_snapshots t of [] \<Rightarrow> t | s # ss \<Rightarrow> on_snapshot s (t\<lparr>t_snapshots := ss\<rparr>))"
| "tower_step fl QuitRuns t = Some (if t_quit_posted t then t\<lparr>t_thread_finished := True\<rparr> else t)"
| "tower_step fl JoinReports t =
     Some (if t_stopping t \<and> t_thread_finished t \<and> \<not> t_worker_gone t
           then t\<lparr>t_worker_gone := True, t_drained := t_drained t + 1\<rparr> else t)"

fun tower_run :: "(rat \<Rightarrow> rat) \<Rightarrow> tower_event list \<Rightarrow> NetworkTrafficTower \<Rightarrow> NetworkTrafficTower option" where
  "tower_run fl [] t = Some t"
| "tower_run fl (e # es) t = Option.bind (tower_step fl e t) (tower_run fl es)"

subsection \<open>The invariant\<close>

text \<open>
  The activation the worker will have after the calls in its queue is that of the GUI; queued
  activations are newer than the worker's; a queued snapshot is not newer than the worker, and one of
  the worker's generation was published while the worker was active.
\<close>

fun activation_after :: "tower_msg list \<Rightarrow> bool \<times> nat \<Rightarrow> bool \<times> nat" where
  "activation_after [] p = p"
| "activation_after (WActive a g # cs) p = activation_after cs (a, g)"
| "activation_after (c # cs) p = activation_after cs p"

fun queued_generations :: "tower_msg list \<Rightarrow> nat list" where
  "queued_generations [] = []"
| "queued_generations (WActive a g # cs) = g # queued_generations cs"
| "queued_generations (c # cs) = queued_generations cs"

definition queue_ok :: "bool \<Rightarrow> nat \<Rightarrow> tower_msg list \<Rightarrow> NetworkTrafficWorker \<Rightarrow> TrafficSnapshot list \<Rightarrow> bool" where
  "queue_ok active gen calls w snapshots \<longleftrightarrow>
     activation_after calls (w_active w, w_generation w) = (active, gen) \<and>
     sorted_wrt (<) (w_generation w # queued_generations calls) \<and>
     list_all (\<lambda>s. generation s \<le> w_generation w \<and> (generation s = w_generation w \<longrightarrow> w_active w)) snapshots"

definition shutdown_ok :: "NetworkTrafficTower \<Rightarrow> bool" where
  "shutdown_ok t \<longleftrightarrow> (t_worker_gone t \<longrightarrow> t_stopping t \<and> t_thread_finished t) \<and>
     t_drained t = (if t_worker_gone t then 1 else 0) \<and>
     (WStop \<in> set (t_calls t) \<or> t_quit_posted t \<longleftrightarrow> t_stopping t) \<and> (t_thread_finished t \<longrightarrow> t_quit_posted t) \<and>
     (t_quit_posted t \<longrightarrow> \<not> t_timer t \<and> t_calls t = []) \<and>
     (\<forall>cs cs'. t_calls t = cs @ WStop # cs' \<longrightarrow> cs' = [])"

definition tower_ok :: "(rat \<Rightarrow> rat) \<Rightarrow> NetworkTrafficTower \<Rightarrow> bool" where
  "tower_ok fl t \<longleftrightarrow> shutdown_ok t \<and>
     queue_ok (t_active t) (t_activation_generation t) (t_calls t) (t_worker t) (t_snapshots t)"

lemma activation_after_append: "activation_after (cs @ ds) p = activation_after ds (activation_after cs p)"
  by (induction cs p rule: activation_after.induct) simp_all

lemma queued_generations_append: "queued_generations (cs @ ds) = queued_generations cs @ queued_generations ds"
  by (induction cs rule: queued_generations.induct) simp_all

lemma activation_newest:
  "sorted_wrt (<) (g # queued_generations cs) \<Longrightarrow> snd (activation_after cs (a, g)) = last (g # queued_generations cs)"
  by (induction cs "(a, g)" arbitrary: a g rule: activation_after.induct) auto

lemma sorted_le_last: "sorted_wrt (<) (xs :: nat list) \<Longrightarrow> x \<in> set xs \<Longrightarrow> x \<le> last xs"
proof (induction xs)
  case (Cons y ys)
  have "ys \<noteq> [] \<longrightarrow> y \<le> last ys" using Cons.prems(1) by (auto simp: less_imp_le)
  with Cons show ?case by auto
qed simp

lemma queue_generation:
  assumes "queue_ok a g cs w ss"
  shows "\<forall>x \<in> set (w_generation w # queued_generations cs). x \<le> g"
  using assms activation_newest [of "w_generation w" cs "w_active w"] sorted_le_last
  unfolding queue_ok_def by fastforce

lemma queue_post:
  assumes "queue_ok a g cs w ss"
  shows "queue_ok a g (cs @ [WStart]) w ss" "queue_ok a g (cs @ [WWindow n]) w ss" "queue_ok a g (cs @ [WStop]) w ss"
    "queue_ok b (Suc g) (cs @ [WActive b (Suc g)]) w ss"
  using assms queue_generation [OF assms]
  by (auto simp: queue_ok_def activation_after_append queued_generations_append sorted_wrt_append)

lemma step_activation:
  assumes "\<And>b g. c \<noteq> SetActive b g"
  shows "w_active (fst (worker_step fl c w)) = w_active w \<and> w_generation (fst (worker_step fl c w)) = w_generation w"
proof (cases c)
  case (SetActive b g)
  with assms show ?thesis by blast
qed (simp_all add: worker_sample_def worker_setFilterWindowSize_def Let_def)

lemma setActive_activation:
  "w_active (fst (worker_setActive fl b g w)) = b" "w_generation (fst (worker_setActive fl b g w)) = g"
  by (simp_all add: worker_setActive_def Let_def)

lemma step_published:
  "s \<in> set (snd (worker_step fl c w)) \<Longrightarrow>
   generation s = w_generation (fst (worker_step fl c w)) \<and> w_active (fst (worker_step fl c w))"
  using published [of s fl c w] by (auto simp: publishSnapshot_def split: if_splits)

lemma queue_worker_step:
  assumes "queue_ok a g cs w ss" "\<And>b g. c \<noteq> SetActive b g"
  shows "queue_ok a g cs (fst (worker_step fl c w)) (ss @ snd (worker_step fl c w))"
  using assms(1) step_activation [OF assms(2), where fl = fl and w = w] step_published [of _ fl c w]
  by (auto simp: queue_ok_def list_all_iff)

lemma queue_activate:
  assumes "queue_ok a g (WActive b h # cs) w ss"
  shows "queue_ok a g cs (fst (worker_step fl (SetActive b h) w)) (ss @ snd (worker_step fl (SetActive b h) w))"
  using assms setActive_activation [of fl b h w] step_published [of _ fl "SetActive b h" w]
  by (fastforce simp: queue_ok_def list_all_iff)

lemma queue_pop:
  assumes "queue_ok a g (c # cs) w ss" "\<And>b h. c \<noteq> WActive b h"
  shows "queue_ok a g cs w ss"
proof (cases c)
  case (WActive b h)
  with assms show ?thesis by blast
qed (use assms(1) in \<open>simp_all add: queue_ok_def\<close>)

lemma queue_gui: "queue_ok a g cs w (s # ss) \<Longrightarrow> queue_ok a g cs w ss"
  by (simp add: queue_ok_def)

lemma worker_effect_fields [simp]:
  "t_active (worker_effect fl c t) = t_active t" "t_stopping (worker_effect fl c t) = t_stopping t"
  "t_activation_generation (worker_effect fl c t) = t_activation_generation t" "t_calls (worker_effect fl c t) = t_calls t"
  "t_worker_gone (worker_effect fl c t) = t_worker_gone t" "t_timer (worker_effect fl c t) = t_timer t"
  "t_quit_posted (worker_effect fl c t) = t_quit_posted t" "t_thread_finished (worker_effect fl c t) = t_thread_finished t"
  "t_drained (worker_effect fl c t) = t_drained t" "t_worker (worker_effect fl c t) = fst (worker_step fl c (t_worker t))"
  "t_snapshots (worker_effect fl c t) = t_snapshots t @ snd (worker_step fl c (t_worker t))"
  by (simp_all add: worker_effect_def case_prod_beta Let_def)

lemma on_snapshot_fields [simp]:
  "t_active (on_snapshot s t) = t_active t" "t_stopping (on_snapshot s t) = t_stopping t"
  "t_activation_generation (on_snapshot s t) = t_activation_generation t" "t_calls (on_snapshot s t) = t_calls t"
  "t_worker_gone (on_snapshot s t) = t_worker_gone t" "t_timer (on_snapshot s t) = t_timer t"
  "t_quit_posted (on_snapshot s t) = t_quit_posted t" "t_thread_finished (on_snapshot s t) = t_thread_finished t"
  "t_drained (on_snapshot s t) = t_drained t" "t_worker (on_snapshot s t) = t_worker t"
  "t_snapshots (on_snapshot s t) = t_snapshots t"
  by (simp_all add: on_snapshot_def)

lemma stop_last_append:
  "\<forall>ds ds'. cs @ [c] = ds @ WStop # ds' \<longrightarrow> ds' = []" if "WStop \<notin> set cs"
proof (intro allI impI)
  fix ds ds' assume e: "cs @ [c] = ds @ WStop # ds'"
  show "ds' = []"
  proof (rule ccontr)
    assume "ds' \<noteq> []"
    then obtain es x where "ds' = es @ [x]" by (metis rev_exhaust)
    with e have "cs = ds @ WStop # es" by simp
    with that show False by simp
  qed
qed

lemma stop_last_tl: "\<forall>ds ds'. c # cs = ds @ WStop # ds' \<longrightarrow> ds' = [] \<Longrightarrow> \<forall>ds ds'. cs = ds @ WStop # ds' \<longrightarrow> ds' = []"
  by (metis append_Cons)

lemma stop_last_head: "\<forall>ds ds'. WStop # cs = ds @ WStop # ds' \<longrightarrow> ds' = [] \<Longrightarrow> cs = []"
  by (metis append_Nil)

lemma invoke_ok:
  assumes "shutdown_ok t" "\<not> t_stopping t" "c \<noteq> WStop"
  shows "\<exists>t'. invoke_worker c t = Some t' \<and> t' = t\<lparr>t_calls := t_calls t @ [c]\<rparr> \<and> shutdown_ok t'"
  using assms stop_last_append [of "t_calls t" c] by (auto simp: invoke_worker_def shutdown_ok_def)

lemma gui_call_ok:
  assumes "tower_ok fl t"
  shows "\<exists>t'. startSampling t = Some t' \<and> tower_ok fl t'" "\<exists>t'. tower_setActive b t = Some t' \<and> tower_ok fl t'"
    "\<exists>t'. updateFilterWindowSize n t = Some t' \<and> tower_ok fl t'"
proof -
  have s: "shutdown_ok t" and k: "queue_ok (t_active t) (t_activation_generation t) (t_calls t) (t_worker t) (t_snapshots t)"
    using assms by (simp_all add: tower_ok_def)
  have "shutdown_ok (t\<lparr>t_sampling_started := True\<rparr>)"
    "shutdown_ok (t\<lparr>t_active := b, t_activation_generation := Suc (t_activation_generation t)\<rparr>)"
    using s by (simp_all add: shutdown_ok_def)
  note i = invoke_ok [OF s] this [THEN invoke_ok]
  show "\<exists>t'. startSampling t = Some t' \<and> tower_ok fl t'"
    using assms i(2) [of WStart] queue_post(1) [OF k] by (cases "t_stopping t") (auto simp: startSampling_def tower_ok_def)
  show "\<exists>t'. tower_setActive b t = Some t' \<and> tower_ok fl t'"
    using assms i(3) [of "WActive b (Suc (t_activation_generation t))"] queue_post(4) [OF k, of b]
    by (cases "t_stopping t") (auto simp: tower_setActive_def tower_ok_def Let_def)
  show "\<exists>t'. updateFilterWindowSize n t = Some t' \<and> tower_ok fl t'"
    using assms i(1) [of "WWindow n"] queue_post(2) [OF k, of n] by (cases "t_stopping t") (auto simp: updateFilterWindowSize_def tower_ok_def)
qed

lemma beginShutdown_ok:
  assumes "tower_ok fl t"
  shows "\<exists>t'. tower_beginShutdown t = Some t' \<and> tower_ok fl t'"
proof (cases "t_stopping t")
  case False
  have k: "queue_ok (t_active t) (t_activation_generation t) (t_calls t @ [WStop]) (t_worker t) (t_snapshots t)"
    using assms queue_post(3) by (simp add: tower_ok_def)
  have s: "shutdown_ok t" using assms by (simp add: tower_ok_def)
  with False have "WStop \<notin> set (t_calls t)" by (simp add: shutdown_ok_def)
  from stop_last_append [OF this, of WStop] s False k show ?thesis
    by (auto simp: tower_beginShutdown_def tower_ok_def shutdown_ok_def invoke_worker_def Let_def)
qed (use assms in \<open>simp add: tower_beginShutdown_def\<close>)

lemma on_call_ok:
  assumes "tower_ok fl t" "t_calls t = c # cs" "\<not> t_thread_finished t"
  shows "tower_ok fl (on_call fl r s c (t\<lparr>t_calls := cs\<rparr>))"
proof -
  have sd: "shutdown_ok t" and k: "queue_ok (t_active t) (t_activation_generation t) (c # cs) (t_worker t) (t_snapshots t)"
    using assms by (simp_all add: tower_ok_def)
  have q: "\<not> t_quit_posted t" and l: "\<forall>ds ds'. c # cs = ds @ WStop # ds' \<longrightarrow> ds' = []"
    using sd assms(2) by (auto simp: shutdown_ok_def)
  note l' = stop_last_tl [OF l]
  have shut: "shutdown_ok t'" if "c \<noteq> WStop" "t_calls t' = cs" "t_stopping t' = t_stopping t" "t_worker_gone t' = t_worker_gone t"
      "t_quit_posted t' = t_quit_posted t" "t_thread_finished t' = t_thread_finished t" "t_drained t' = t_drained t" for t'
    using sd assms(2,3) q l' that by (auto simp: shutdown_ok_def)
  show ?thesis
  proof (cases c)
    case WStart
    with queue_worker_step [OF queue_pop [OF k], of "Sample r s" fl] shut show ?thesis by (simp add: tower_ok_def)
  next
    case (WActive b h)
    with queue_activate [OF k [unfolded WActive], of fl] shut show ?thesis by (simp add: tower_ok_def)
  next
    case (WWindow n)
    with queue_worker_step [OF queue_pop [OF k], of "SetWindow n" fl] shut show ?thesis by (simp add: tower_ok_def)
  next
    case WStop
    then have "cs = []" using stop_last_head l by blast
    with WStop queue_pop [OF k] sd assms(2,3) show ?thesis by (simp add: tower_ok_def shutdown_ok_def)
  qed
qed

lemma tower_step_ok:
  assumes "tower_ok fl t"
  shows "\<exists>t'. tower_step fl e t = Some t' \<and> tower_ok fl t'"
proof (cases e)
  case (WorkerTurn r s)
  with assms on_call_ok [OF assms] show ?thesis by (cases "t_calls t") simp_all
next
  case (TimerTick r s)
  have "shutdown_ok (worker_effect fl (Sample r s) t) = shutdown_ok t" by (simp add: shutdown_ok_def)
  with TimerTick assms queue_worker_step [of _ _ _ _ _ "Sample r s" fl] show ?thesis
    by (cases "t_timer t \<and> \<not> t_thread_finished t") (simp_all add: tower_ok_def)
next
  case GuiTurn
  have "shutdown_ok (on_snapshot s (t\<lparr>t_snapshots := ss\<rparr>)) = shutdown_ok t" for s ss by (simp add: shutdown_ok_def)
  with GuiTurn assms show ?thesis
    by (cases "t_snapshots t") (auto simp: tower_ok_def dest: queue_gui)
next
  case QuitRuns
  with assms show ?thesis by (cases "t_quit_posted t") (simp_all add: tower_ok_def, simp add: shutdown_ok_def)
next
  case JoinReports
  with assms show ?thesis
    by (cases "t_stopping t"; cases "t_thread_finished t"; cases "t_worker_gone t")
      (simp_all add: tower_ok_def, simp add: shutdown_ok_def)
qed (use gui_call_ok [OF assms] beginShutdown_ok [OF assms] in simp_all)

lemma new_tower_ok: "tower_ok fl new_tower"
  by (simp add: tower_ok_def shutdown_ok_def queue_ok_def new_tower_def new_worker_def)

lemma tower_run_ok: "tower_ok fl t \<Longrightarrow> \<exists>t'. tower_run fl es t = Some t' \<and> tower_ok fl t'"
proof (induction es arbitrary: t)
  case (Cons e es)
  then show ?case using tower_step_ok [OF Cons.prems, of e] by auto
qed simp

section \<open>Properties\<close>

text \<open>
  C30: what the worker publishes is the reference. Whatever sequence of samples, activations and window
  changes came before, the raw history is exactly the newest \<open>MAX_SAMPLES\<close> rates between consecutive
  sampled totals, the published totals are the last sampled ones, the published maximum is that of the
  published rates. The published rates, computed by a sliding window or extended incrementally, are the
  newest ten windows of averages: rate \<open>i\<close> is always the average of the window from sample \<open>i\<close> of all rates,
  cut after the samples kept when it was computed. They are the moving averages of the kept history while
  that is not full, or when the visible part and its windows lie within it (\<open>11 * window \<le> MAX_SAMPLES\<close>,
  every scale of the page but "1 day", whose window is a tenth of \<open>MAX_SAMPLES\<close>).
\<close>

theorem traffic_history:
  assumes "w = fst (worker_run fl (cs @ [c]) new_worker)"
    and "snap \<in> set (snd (worker_step fl c (fst (worker_run fl cs new_worker))))"
  defines "window \<equiv> w_filter_window_size w"
  shows "w_received w = take MAX_SAMPLES (deltas fl (totals fst (cs @ [c]))) \<and>
     w_sent w = take MAX_SAMPLES (deltas fl (totals snd (cs @ [c]))) \<and>
     total_bytes_received snap = (case totals fst (cs @ [c]) of [] \<Rightarrow> 0 | n # ns \<Rightarrow> n) \<and>
     total_bytes_sent snap = (case totals snd (cs @ [c]) of [] \<Rightarrow> 0 | n # ns \<Rightarrow> n) \<and>
     max_received_rate_bps snap = Max (insert 0 (set (received_rate_list snap))) \<and>
     max_sent_rate_bps snap = Max (insert 0 (set (sent_rate_list snap))) \<and>
     (length (w_received w) < MAX_SAMPLES \<or> 11 * window \<le> MAX_SAMPLES \<longrightarrow>
        received_rate_list snap = take (window * 10) (moving_average fl window (w_received w))) \<and>
     (length (w_sent w) < MAX_SAMPLES \<or> 11 * window \<le> MAX_SAMPLES \<longrightarrow>
        sent_rate_list snap = take (window * 10) (moving_average fl window (w_sent w))) \<and>
     length (received_rate_list snap) = min (length (w_received w)) (window * 10) \<and>
     (\<forall>i < length (received_rate_list snap). averaged fl window (deltas fl (totals fst (cs @ [c]))) i (received_rate_list snap ! i)) \<and>
     length (sent_rate_list snap) = min (length (w_sent w)) (window * 10) \<and>
     (\<forall>i < length (sent_rate_list snap). averaged fl window (deltas fl (totals snd (cs @ [c]))) i (sent_rate_list snap ! i))"
proof -
  have f: "full_ok fl (cs @ [c]) w" unfolding assms(1) by (rule full_run)
  have h: "history_ok fl (cs @ [c]) w" unfolding assms(1) by (rule history_run)
  have k: "worker_ok fl w" unfolding assms(1) by (rule worker_run_ok [OF new_worker_ok])
  have p: "snap \<in> set (publishSnapshot w)" using published [OF assms(2)] by (simp only: assms(1) worker_run_snoc)
  then have a: "w_active w" and snap: "snap = \<lparr>generation = w_generation w, total_bytes_received = w_total_received w,
      total_bytes_sent = w_total_sent w, max_received_rate_bps = w_max_received w, max_sent_rate_bps = w_max_sent w,
      received_rate_list = take (window * 10) (w_smoothed_received w), sent_rate_list = take (window * 10) (w_smoothed_sent w)\<rparr>"
    by (auto simp: publishSnapshot_def visibleHistory_take window_def split: if_splits)
  have v: "smooth_ok fl window (w_received w) (w_smoothed_received w)" "w_max_received w = calculateMaxRate window (w_smoothed_received w)"
    "smooth_ok fl window (w_sent w) (w_smoothed_sent w)" "w_max_sent w = calculateMaxRate window (w_smoothed_sent w)"
    "length (w_received w) \<le> MAX_SAMPLES" "length (w_sent w) \<le> MAX_SAMPLES"
    using k a by (auto simp: worker_ok_def direction_ok_def window_def)
  have "w_smoothed_history_valid w" using k a by (simp add: worker_ok_def)
  with f have f': "smooth_full fl window (deltas fl (totals fst (cs @ [c]))) (w_smoothed_received w)"
    "smooth_full fl window (deltas fl (totals snd (cs @ [c]))) (w_smoothed_sent w)"
    by (simp_all add: full_ok_def window_def)
  have l: "length (w_smoothed_received w) = length (w_received w)" "length (w_smoothed_sent w) = length (w_sent w)"
    using v(1,3) by (simp_all add: smooth_ok_def)
  note visible = smooth_visible [OF v(1,5)] smooth_visible [OF v(3,6)]
  show ?thesis
  proof (intro conjI)
    show "max_received_rate_bps snap = Max (insert 0 (set (received_rate_list snap)))"
      "max_sent_rate_bps snap = Max (insert 0 (set (sent_rate_list snap)))"
      by (simp_all add: snap v(2,4) calculateMaxRate_eq)
    show "\<forall>i < length (received_rate_list snap). averaged fl window (deltas fl (totals fst (cs @ [c]))) i (received_rate_list snap ! i)"
      "\<forall>i < length (sent_rate_list snap). averaged fl window (deltas fl (totals snd (cs @ [c]))) i (sent_rate_list snap ! i)"
      using f' by (simp_all add: snap smooth_full_def)
  qed (use h visible l in \<open>auto simp: snap history_ok_def split: list.splits\<close>)
qed

definition sample_calls :: "worker_call list" where
  "sample_calls = [SetActive True 1, Sample 100 0, SetWindow 2, Sample 110 5]"

theorem traffic_history_witness:
  "\<exists>w (snap :: TrafficSnapshot). w = fst (worker_run (\<lambda>x. x) (sample_calls @ [Sample 130 5]) new_worker) \<and>
     w_received w = take MAX_SAMPLES (deltas (\<lambda>x. x) [130, 110, 100]) \<and> total_bytes_received snap = 130 \<and>
     received_rate_list snap = take 20 (moving_average (\<lambda>x. x) 2 (w_received w))"
proof -
  let ?fl = "\<lambda>x :: rat. x"
  obtain w where w: "w = fst (worker_run ?fl (sample_calls @ [Sample 130 5]) new_worker)" by blast
  have n: "length (snd (worker_step ?fl (Sample 130 5) (fst (worker_run ?fl sample_calls new_worker)))) = 1" by code_simp
  then obtain snap where p: "snap \<in> set (snd (worker_step ?fl (Sample 130 5) (fst (worker_run ?fl sample_calls new_worker))))"
    by (metis last_in_set length_0_conv zero_neq_one)
  have c: "w_filter_window_size w = 2" "length (w_received w) < MAX_SAMPLES" "totals fst (sample_calls @ [Sample 130 5]) = [130, 110, 100]"
    unfolding w by code_simp+
  note h = traffic_history [OF w p]
  have "w_received w = take MAX_SAMPLES (deltas ?fl [130, 110, 100])" "total_bytes_received snap = 130"
    "received_rate_list snap = take (2 * 10) (moving_average ?fl 2 (w_received w))"
    using h c by (simp_all only: c list.case simp_thms)
  then show ?thesis using w by (intro exI [of _ w] exI [of _ snap] conjI) simp_all
qed

text \<open>
  the GUI object is safe in every interleaving of its calls, the worker thread, the timer, queued
  snapshots, the quitting thread and its join. It never calls a worker that is gone; it reports being
  drained at most once, and only when the worker has stopped sampling; and when a snapshot changes what
  is shown, the worker had processed the latest activation and was active, so values from before a
  deactivation are never shown again.
\<close>

theorem traffic_tower:
  "\<exists>t. tower_run fl es new_tower = Some t \<and> t_drained t \<le> 1 \<and>
     (t_drained t = 1 \<longrightarrow> t_stopping t \<and> \<not> t_timer t \<and> t_calls t = []) \<and>
     (\<forall>snap ss. t_snapshots t = snap # ss \<and> on_snapshot snap t \<noteq> t \<longrightarrow>
        t_active t \<and> w_active (t_worker t) \<and> w_generation (t_worker t) = t_activation_generation t \<and>
        generation snap = t_activation_generation t \<and> queued_generations (t_calls t) = [])"
proof -
  obtain t where t: "tower_run fl es new_tower = Some t" "tower_ok fl t" using tower_run_ok [OF new_tower_ok] by blast
  have s: "shutdown_ok t" and k: "queue_ok (t_active t) (t_activation_generation t) (t_calls t) (t_worker t) (t_snapshots t)"
    using t(2) by (simp_all add: tower_ok_def)
  have "t_active t \<and> w_active (t_worker t) \<and> w_generation (t_worker t) = t_activation_generation t \<and>
        generation snap = t_activation_generation t \<and> queued_generations (t_calls t) = []"
    if "t_snapshots t = snap # ss" "on_snapshot snap t \<noteq> t" for snap ss
  proof -
    have g: "t_active t" "generation snap = t_activation_generation t" using that(2) by (auto simp: on_snapshot_def split: if_splits)
    have le: "generation snap \<le> w_generation (t_worker t)" "generation snap = w_generation (t_worker t) \<longrightarrow> w_active (t_worker t)"
      using k that(1) by (simp_all add: queue_ok_def)
    have n: "\<forall>x \<in> set (w_generation (t_worker t) # queued_generations (t_calls t)). x \<le> t_activation_generation t"
      by (rule queue_generation [OF k])
    have e: "w_generation (t_worker t) = t_activation_generation t" using n le g by simp
    have "\<forall>x \<in> set (queued_generations (t_calls t)). w_generation (t_worker t) < x" using k by (simp add: queue_ok_def)
    then have "queued_generations (t_calls t) = []" using n e by (cases "queued_generations (t_calls t)") auto
    with g e le show ?thesis by simp
  qed
  moreover have "t_drained t \<le> 1 \<and> (t_drained t = 1 \<longrightarrow> t_stopping t \<and> \<not> t_timer t \<and> t_calls t = [])"
    using s by (auto simp: shutdown_ok_def split: if_splits)
  ultimately show ?thesis using t(1) by blast
qed

definition sample_tower_events :: "tower_event list" where
  "sample_tower_events = [SetTowerActive True, StartSampling, WorkerTurn 100 0, WorkerTurn 100 0]"

theorem traffic_tower_witness:
  "\<exists>t snap ss. tower_run (\<lambda>x. x) (sample_tower_events @ [GuiTurn]) new_tower = Some t \<and> t_snapshots t = snap # ss \<and>
     on_snapshot snap t \<noteq> t \<and> generation snap = 1 \<and> w_active (t_worker t)"
proof -
  let ?fl = "\<lambda>x :: rat. x"
  from traffic_tower [of ?fl "sample_tower_events @ [GuiTurn]"] obtain t where
    t: "tower_run ?fl (sample_tower_events @ [GuiTurn]) new_tower = Some t"
    and p: "\<forall>snap ss. t_snapshots t = snap # ss \<and> on_snapshot snap t \<noteq> t \<longrightarrow>
        t_active t \<and> w_active (t_worker t) \<and> w_generation (t_worker t) = t_activation_generation t \<and>
        generation snap = t_activation_generation t \<and> queued_generations (t_calls t) = []" by blast
  have "map_option (\<lambda>t. (map total_bytes_received (t_snapshots t), map generation (t_snapshots t), t_total_bytes_received t, t_active t, t_activation_generation t))
      (tower_run ?fl (sample_tower_events @ [GuiTurn]) new_tower) = Some ([100], [1], 0, True, 1)" by code_simp
  with t have c: "map total_bytes_received (t_snapshots t) = [100]" "map generation (t_snapshots t) = [1]"
    "t_total_bytes_received t = 0" "t_active t" "t_activation_generation t = 1" by simp_all
  then obtain snap where s: "t_snapshots t = [snap]" "total_bytes_received snap = 100" "generation snap = 1" by auto
  then have "t_total_bytes_received (on_snapshot snap t) \<noteq> t_total_bytes_received t" using c by (simp add: on_snapshot_def)
  then have "on_snapshot snap t \<noteq> t" by metis
  with p s t show ?thesis by blast
qed

end
