(* ===== verification/BlockClock.thy ===== *)
theory BlockClock
  imports Prelude Complex_Main "HOL-Library.AList" "HOL-Library.Multiset"
begin

text \<open>
  \<open>src/qml/models/blockclockhistory.{h,cpp}\<close> and \<open>src/qml/models/blockclockmodel.{h,cpp}\<close>: the cache of block
  times that is filled from a snapshot and from notifications, and the model that shows the blocks of
  the current half day.

  A block is its hash, a number; its time is \<open>time_of\<close> of the hash. The block map and the map of pending
  events are association lists. The cache's mutex makes its operations atomic; the notification thread,
  the initialisation worker and the GUI thread interleave at those operations. Bitcoin Core's side is
  the active chain, newest block first, and the queue of notifications it has not delivered yet.
\<close>

section \<open>Definitions\<close>

definition PERIOD_SECONDS :: int where "PERIOD_SECONDS = 12 * 60 * 60"

record block_history =
  h_changed :: bool
  h_blocks :: "(nat \<times> int) list"
  h_pending :: "(nat \<times> int option) list"
  h_retention_start :: int
  h_initialized :: bool
  h_dirty :: bool
  h_stopped :: bool

definition new_history :: block_history where
  "new_history = \<lparr>h_changed = False, h_blocks = [], h_pending = [], h_retention_start = 0,
     h_initialized = False, h_dirty = False, h_stopped = False\<rparr>"

text \<open>An operation that may call the change callback also returns whether it did.\<close>

definition history_stop :: "block_history \<Rightarrow> block_history" where
  "history_stop h = h\<lparr>h_stopped := True, h_pending := [], h_changed := False\<rparr>"

definition setChangedCallback :: "bool \<Rightarrow> block_history \<Rightarrow> block_history \<times> bool" where
  "setChangedCallback cb h =
     (if h_stopped h then (h, False) else (h\<lparr>h_changed := cb\<rparr>, cb \<and> h_initialized h \<and> h_dirty h))"

definition retentionStart :: "block_history \<Rightarrow> int option" where
  "retentionStart h = (if h_stopped h then None else Some (h_retention_start h))"

definition setRetentionStart :: "int \<Rightarrow> block_history \<Rightarrow> block_history" where
  "setRetentionStart r h =
     (if h_stopped h \<or> h_retention_start h = r then h
      else h\<lparr>h_retention_start := r, h_blocks := filter (\<lambda>(k, t). \<not> t < r) (h_blocks h),
             h_pending := filter (\<lambda>(k, v). case v of None \<Rightarrow> True | Some t \<Rightarrow> \<not> t < r) (h_pending h),
             h_dirty := True\<rparr>)"

definition takeSnapshot :: "block_history \<Rightarrow> int list option \<times> block_history" where
  "takeSnapshot h =
     (if h_stopped h \<or> \<not> h_initialized h \<or> \<not> h_dirty h then (None, h)
      else (Some (map snd (sort_key fst (h_blocks h))), h\<lparr>h_dirty := False\<rparr>))"

fun apply_pending :: "(nat \<times> int option) list \<Rightarrow> (nat \<times> int) list \<Rightarrow> (nat \<times> int) list" where
  "apply_pending [] blocks = blocks"
| "apply_pending ((k, v) # ps) blocks =
     apply_pending ps (case v of Some t \<Rightarrow> AList.update k t blocks | None \<Rightarrow> AList.delete k blocks)"

definition history_initialize :: "(nat \<times> int) list \<Rightarrow> block_history \<Rightarrow> block_history \<times> bool" where
  "history_initialize blocks h =
     (if h_stopped h \<or> h_initialized h then (h, False)
      else (h\<lparr>h_blocks := filter (\<lambda>(k, t). \<not> t < h_retention_start h) (apply_pending (h_pending h) blocks),
              h_pending := [], h_initialized := True, h_dirty := True\<rparr>, h_changed h))"

definition emplace :: "nat \<Rightarrow> int \<Rightarrow> (nat \<times> int) list \<Rightarrow> (nat \<times> int) list" where
  "emplace k t blocks = (if map_of blocks k = None then (k, t) # blocks else blocks)"

definition record_block :: "nat \<Rightarrow> int \<Rightarrow> bool \<Rightarrow> block_history \<Rightarrow> block_history \<times> bool" where
  "record_block hash t conn h =
     (if h_stopped h \<or> t < h_retention_start h then (h, False)
      else if \<not> h_initialized h then
        (h\<lparr>h_pending := AList.update hash (if conn then Some t else None) (h_pending h)\<rparr>, False)
      else if conn \<noteq> (map_of (h_blocks h) hash = None) then (h, False)
      else (h\<lparr>h_blocks := (if conn then emplace hash t (h_blocks h) else AList.delete hash (h_blocks h)),
              h_dirty := True\<rparr>, h_changed h))"

definition blockConnected :: "bool \<Rightarrow> nat \<Rightarrow> int \<Rightarrow> block_history \<Rightarrow> block_history \<times> bool" where
  "blockConnected historical hash t h = (if historical then (h, False) else record_block hash t True h)"

definition blockDisconnected :: "nat \<Rightarrow> int \<Rightarrow> block_history \<Rightarrow> block_history \<times> bool" where
  "blockDisconnected hash t h = record_block hash t False h"

subsection \<open>The initial snapshot\<close>

text \<open>
  The blocks are the ancestors of the anchor, newest first; \<open>max_time\<close> is the largest time up to a block,
  which the block index keeps. \<open>shut k\<close> is the answer to the \<open>k\<close>-th question whether to shut down;
  \<open>None\<close> means the snapshot was abandoned.
\<close>

definition max_time :: "(nat \<times> int) list \<Rightarrow> int" where
  "max_time bs = (case map snd bs of [] \<Rightarrow> 0 | t # ts \<Rightarrow> fold max ts t)"

fun load_loop :: "int \<Rightarrow> (nat \<Rightarrow> bool) \<Rightarrow> nat \<Rightarrow> (nat \<times> int) list \<Rightarrow> (nat \<times> int) list \<Rightarrow> (nat \<times> int) list option" where
  "load_loop r shut n [] blocks = Some blocks"
| "load_loop r shut n ((hash, t) # ancestors) blocks =
     (if \<not> max_time ((hash, t) # ancestors) \<ge> r then Some blocks
      else if shut n then None
      else load_loop r shut (n + 1) ancestors (if t \<ge> r then emplace hash t blocks else blocks))"

definition load_snapshot :: "int \<Rightarrow> (nat \<Rightarrow> bool) \<Rightarrow> (nat \<times> int) list \<Rightarrow> (nat \<times> int) list option" where
  "load_snapshot r shut chain = load_loop r shut 0 chain []"

subsection \<open>The model\<close>

record qtime =
  toSecsSinceEpoch :: int
  msecsSinceStartOfDay :: int

text \<open>
  How far the GUI thread has come in one of its tasks. The cache's mutex is held by each operation of the cache, not by the tasks,
  so that the other threads may come in between: after the snapshot of a refresh, and after the retention start was moved.
\<close>

datatype gui_phase = Gui_idle | Refresh_begun | Refresh_taken | Refresh_retained qtime | Tick_retained qtime

record clock_model =
  c_refresh_pending :: bool
  c_posted :: nat
  c_gui :: gui_phase
  c_cached :: "int list"
  c_period_start :: int
  c_block_timestamps :: "int list"
  c_current_fraction :: rat
  c_fractions :: "rat list"
  c_stopped :: bool

definition new_clock :: clock_model where
  "new_clock = \<lparr>c_refresh_pending = False, c_posted = 0, c_gui = Gui_idle, c_cached = [], c_period_start = 0,
     c_block_timestamps = [], c_current_fraction = 0, c_fractions = [], c_stopped = False\<rparr>"

text \<open>\<open>QTime\<close> counts from the start of the day, so the division and the remainder are of naturals.\<close>

definition PeriodStartFor :: "qtime \<Rightarrow> int" where
  "PeriodStartFor now = toSecsSinceEpoch now - (msecsSinceStartOfDay now div 1000) mod PERIOD_SECONDS"

definition fractionForTimestamp :: "int \<Rightarrow> int \<Rightarrow> rat" where
  "fractionForTimestamp period_start t =
     (if period_start = 0 then 0 else max 0 (min 1 (of_int (t - period_start) / of_int PERIOD_SECONDS)))"

definition replaceBlockHistory :: "int list \<Rightarrow> bool \<Rightarrow> clock_model \<Rightarrow> clock_model" where
  "replaceBlockHistory timestamps period_changed c =
     (let period_end = c_period_start c + PERIOD_SECONDS;
          ts = filter (\<lambda>t. \<not> (t < c_period_start c \<or> t \<ge> period_end)) (sort timestamps)
      in if c_block_timestamps c = ts \<and> \<not> period_changed then c
         else c\<lparr>c_block_timestamps := ts, c_fractions := map (fractionForTimestamp (c_period_start c)) ts\<rparr>)"

definition scheduleHistoryRefresh :: "clock_model \<Rightarrow> clock_model" where
  "scheduleHistoryRefresh c =
     (if c_refresh_pending c then c else c\<lparr>c_refresh_pending := True, c_posted := c_posted c + 1\<rparr>)"

text \<open>
  \<open>updateCurrentTime\<close> in the parts between two operations of the cache: up to the new retention start, the snapshot
  with the new period, and the hand. \<open>fuzzy\<close> is \<open>qFuzzyCompare\<close>, which decides whether the hand has moved.
\<close>

definition update_begin :: "qtime \<Rightarrow> block_history \<times> clock_model \<Rightarrow> (block_history \<times> clock_model) \<times> bool" where
  "update_begin now = (\<lambda>(h, c).
     let period_start = PeriodStartFor now
     in if c_period_start c \<noteq> period_start
        then ((setRetentionStart (period_start - PERIOD_SECONDS) h, c\<lparr>c_period_start := period_start\<rparr>), True)
        else ((h, c), False))"

definition update_take :: "block_history \<times> clock_model \<Rightarrow> block_history \<times> clock_model" where
  "update_take = (\<lambda>(h, c).
     let (snapshot, h1) = takeSnapshot h;
         c1 = (case snapshot of None \<Rightarrow> c | Some ts \<Rightarrow> c\<lparr>c_cached := ts\<rparr>)
     in (h1, replaceBlockHistory (c_cached c1) True c1))"

definition update_hand :: "(rat \<Rightarrow> rat \<Rightarrow> bool) \<Rightarrow> qtime \<Rightarrow> clock_model \<Rightarrow> clock_model" where
  "update_hand fuzzy now c =
     (let fraction = fractionForTimestamp (c_period_start c) (toSecsSinceEpoch now)
      in if fuzzy (c_current_fraction c + 1) (fraction + 1) then c else c\<lparr>c_current_fraction := fraction\<rparr>)"

definition updateCurrentTime ::
  "(rat \<Rightarrow> rat \<Rightarrow> bool) \<Rightarrow> qtime \<Rightarrow> block_history \<times> clock_model \<Rightarrow> block_history \<times> clock_model" where
  "updateCurrentTime fuzzy now = (\<lambda>(h, c).
     if c_stopped c then (h, c)
     else
       let (hc, period_changed) = update_begin now (h, c);
           (h1, c1) = (if period_changed then update_take hc else hc)
       in (h1, update_hand fuzzy now c1))"

definition refreshHistory ::
  "(rat \<Rightarrow> rat \<Rightarrow> bool) \<Rightarrow> qtime \<Rightarrow> block_history \<times> clock_model \<Rightarrow> block_history \<times> clock_model" where
  "refreshHistory fuzzy now = (\<lambda>(h, c).
     if c_stopped c then (h, c)
     else case takeSnapshot h of
            (None, h1) \<Rightarrow> (h1, c)
          | (Some ts, h1) \<Rightarrow>
              let (h2, c2) = updateCurrentTime fuzzy now (h1, c\<lparr>c_cached := ts\<rparr>)
              in (h2, replaceBlockHistory (c_cached c2) False c2))"

text \<open>The same two tasks one operation of the cache at a time: the timer's, and the rest of a task that is under way.\<close>

definition gui_tick :: "(rat \<Rightarrow> rat \<Rightarrow> bool) \<Rightarrow> qtime \<Rightarrow> block_history \<times> clock_model \<Rightarrow> block_history \<times> clock_model" where
  "gui_tick fuzzy now = (\<lambda>(h, c).
     if c_stopped c then (h, c)
     else
       let ((h1, c1), period_changed) = update_begin now (h, c)
       in (h1, if period_changed then c1\<lparr>c_gui := Tick_retained now\<rparr> else update_hand fuzzy now c1))"

definition gui_continue :: "(rat \<Rightarrow> rat \<Rightarrow> bool) \<Rightarrow> qtime \<Rightarrow> block_history \<times> clock_model \<Rightarrow> block_history \<times> clock_model" where
  "gui_continue fuzzy now = (\<lambda>(h, c).
     case c_gui c of
       Gui_idle \<Rightarrow> (h, c)
     | Tick_retained t \<Rightarrow> (let (h1, c1) = update_take (h, c) in (h1, (update_hand fuzzy t c1)\<lparr>c_gui := Gui_idle\<rparr>))
     | Refresh_begun \<Rightarrow>
         if c_stopped c then (h, c\<lparr>c_gui := Gui_idle\<rparr>)
         else (case takeSnapshot h of
                 (None, h1) \<Rightarrow> (h1, c\<lparr>c_gui := Gui_idle\<rparr>)
               | (Some ts, h1) \<Rightarrow> (h1, c\<lparr>c_cached := ts, c_gui := Refresh_taken\<rparr>))
     | Refresh_taken \<Rightarrow>
         (let ((h1, c1), period_changed) = update_begin now (h, c)
          in (h1, if period_changed then c1\<lparr>c_gui := Refresh_retained now\<rparr>
                  else (replaceBlockHistory (c_cached c1) False (update_hand fuzzy now c1))\<lparr>c_gui := Gui_idle\<rparr>))
     | Refresh_retained t \<Rightarrow>
         (let (h1, c1) = update_take (h, c)
          in (h1, (replaceBlockHistory (c_cached c1) False (update_hand fuzzy t c1))\<lparr>c_gui := Gui_idle\<rparr>)))"

definition clock_stop :: "block_history \<times> clock_model \<Rightarrow> block_history \<times> clock_model" where
  "clock_stop = (\<lambda>(h, c). if c_stopped c then (h, c) else (fst (setChangedCallback False h), c\<lparr>c_stopped := True\<rparr>))"

definition scheduled :: "bool \<Rightarrow> clock_model \<Rightarrow> clock_model" where
  "scheduled fired c = (if fired then scheduleHistoryRefresh c else c)"

definition new_BlockClockModel ::
  "(rat \<Rightarrow> rat \<Rightarrow> bool) \<Rightarrow> qtime \<Rightarrow> block_history \<Rightarrow> block_history \<times> clock_model" where
  "new_BlockClockModel fuzzy now h =
     (let (h1, c1) = updateCurrentTime fuzzy now (h, new_clock);
          (h2, fired) = setChangedCallback True h1
      in (h2, scheduled fired c1))"

subsection \<open>The system\<close>

text \<open>
  \<open>max_retention\<close> records the largest retention start so far; no operation reads it. A snapshot is
  loaded with the retention start read before registering.
\<close>

datatype notification = Connected nat | Disconnected nat

record clock_sys =
  chain :: "nat list"
  notifications :: "notification list"
  registered :: "int option"
  snapshot :: "(nat \<times> int) list option"
  cache :: block_history
  clock :: clock_model
  max_retention :: int

datatype clock_event =
    ChainConnect nat | ChainDisconnect | Subscribe | LoadSnapshot "nat \<Rightarrow> bool" | Initialize | Deliver
  | ClockTick qtime | RefreshStart | GuiContinue qtime | StopModel | StopHistory

definition with_gui :: "(block_history \<times> clock_model \<Rightarrow> block_history \<times> clock_model) \<Rightarrow> clock_sys \<Rightarrow> clock_sys" where
  "with_gui f s =
     (let (h, c) = f (cache s, clock s)
      in s\<lparr>cache := h, clock := c, max_retention := max (max_retention s) (h_retention_start h)\<rparr>)"

definition with_callback :: "(block_history \<Rightarrow> block_history \<times> bool) \<Rightarrow> clock_sys \<Rightarrow> clock_sys" where
  "with_callback f s = (let (h, fired) = f (cache s) in s\<lparr>cache := h, clock := scheduled fired (clock s)\<rparr>)"

fun notify :: "(nat \<Rightarrow> int) \<Rightarrow> notification \<Rightarrow> block_history \<Rightarrow> block_history \<times> bool" where
  "notify time_of (Connected k) h = blockConnected False k (time_of k) h"
| "notify time_of (Disconnected k) h = blockDisconnected k (time_of k) h"

definition announce :: "notification \<Rightarrow> clock_sys \<Rightarrow> clock_sys" where
  "announce n s = (if registered s = None then s else s\<lparr>notifications := notifications s @ [n]\<rparr>)"

fun clock_step :: "(rat \<Rightarrow> rat \<Rightarrow> bool) \<Rightarrow> (nat \<Rightarrow> int) \<Rightarrow> clock_event \<Rightarrow> clock_sys \<Rightarrow> clock_sys" where
  "clock_step fuzzy time_of (ChainConnect k) s =
     (if k \<in> set (chain s) then s else announce (Connected k) (s\<lparr>chain := k # chain s\<rparr>))"
| "clock_step fuzzy time_of ChainDisconnect s =
     (case chain s of [] \<Rightarrow> s | k # ks \<Rightarrow> announce (Disconnected k) (s\<lparr>chain := ks\<rparr>))"
| "clock_step fuzzy time_of Subscribe s =
     (if registered s \<noteq> None then s else s\<lparr>registered := retentionStart (cache s)\<rparr>)"
| "clock_step fuzzy time_of (LoadSnapshot shut) s =
     (case (registered s, snapshot s) of
        (Some r, None) \<Rightarrow> s\<lparr>snapshot := load_snapshot r shut (map (\<lambda>k. (k, time_of k)) (chain s))\<rparr>
      | _ \<Rightarrow> s)"
| "clock_step fuzzy time_of Initialize s =
     (case snapshot s of None \<Rightarrow> s | Some blocks \<Rightarrow> with_callback (history_initialize blocks) s)"
| "clock_step fuzzy time_of Deliver s =
     (case notifications s of [] \<Rightarrow> s | n # ns \<Rightarrow> with_callback (notify time_of n) (s\<lparr>notifications := ns\<rparr>))"
| "clock_step fuzzy time_of (ClockTick now) s = (if c_gui (clock s) = Gui_idle then with_gui (gui_tick fuzzy now) s else s)"
| "clock_step fuzzy time_of RefreshStart s =
     (if c_posted (clock s) = 0 \<or> c_gui (clock s) \<noteq> Gui_idle then s
      else s\<lparr>clock := (clock s)\<lparr>c_posted := c_posted (clock s) - 1, c_refresh_pending := False, c_gui := Refresh_begun\<rparr>\<rparr>)"
| "clock_step fuzzy time_of (GuiContinue now) s = with_gui (gui_continue fuzzy now) s"
| "clock_step fuzzy time_of StopModel s = (if c_gui (clock s) = Gui_idle then with_gui clock_stop s else s)"
| "clock_step fuzzy time_of StopHistory s = s\<lparr>cache := history_stop (cache s)\<rparr>"

definition new_clock_sys :: "(rat \<Rightarrow> rat \<Rightarrow> bool) \<Rightarrow> qtime \<Rightarrow> nat list \<Rightarrow> clock_sys" where
  "new_clock_sys fuzzy now ks =
     (let (h, c) = new_BlockClockModel fuzzy now new_history
      in \<lparr>chain = ks, notifications = [], registered = None, snapshot = None, cache = h, clock = c,
          max_retention = max 0 (h_retention_start h)\<rparr>)"

definition clock_run :: "(rat \<Rightarrow> rat \<Rightarrow> bool) \<Rightarrow> (nat \<Rightarrow> int) \<Rightarrow> clock_event list \<Rightarrow> clock_sys \<Rightarrow> clock_sys" where
  "clock_run fuzzy time_of es s = fold (clock_step fuzzy time_of) es s"

section \<open>The snapshot loop\<close>

lemma fold_max_ge: "x \<in> set (a # xs) \<Longrightarrow> x \<le> fold max xs (a :: int)"
proof (induction xs arbitrary: a x)
  case (Cons y ys)
  from Cons.prems consider "x = a" | "x = y" | "x \<in> set ys" by auto
  then show ?case
  proof cases
    case 3
    then show ?thesis using Cons.IH [of x "max y a"] by simp
  qed (use Cons.IH [of "max y a" "max y a"] in auto)
qed simp

lemma max_time_ge: "(k, t) \<in> set bs \<Longrightarrow> t \<le> max_time bs"
proof (cases bs)
  case (Cons b bs')
  assume "(k, t) \<in> set bs"
  then have "t \<in> set (snd b # map snd bs')" using Cons by force
  with fold_max_ge Cons show ?thesis by (simp add: max_time_def)
qed simp

lemma emplace_set: "distinct (map fst blocks) \<Longrightarrow> k \<notin> fst ` set blocks \<Longrightarrow>
   set (emplace k t blocks) = insert (k, t) (set blocks) \<and> distinct (map fst (emplace k t blocks))"
  by (simp add: emplace_def map_of_eq_None_iff)

lemma load_loop_set:
  assumes "distinct (map fst bs)" "distinct (map fst blocks)" "fst ` set bs \<inter> fst ` set blocks = {}"
    "load_loop r shut n bs blocks = Some result"
  shows "set result = set blocks \<union> {(k, t) \<in> set bs. t \<ge> r} \<and> distinct (map fst result)"
  using assms
proof (induction bs arbitrary: n blocks)
  case (Cons b bs)
  obtain k t where b: "b = (k, t)" by (cases b)
  show ?case
  proof (cases "max_time (b # bs) \<ge> r")
    case False
    then have e: "{(k, t) \<in> set (b # bs). t \<ge> r} = {}" using max_time_ge by fastforce
    have "result = blocks" using Cons.prems(4) False by (simp add: b)
    with Cons.prems(2) show ?thesis unfolding e by simp
  next
    case True
    let ?blocks = "if t \<ge> r then emplace k t blocks else blocks"
    have e: "set ?blocks = set blocks \<union> {x. x = (k, t) \<and> t \<ge> r} \<and> distinct (map fst ?blocks)"
      using Cons.prems(2,3) emplace_set [of blocks k t] by (auto simp: b)
    have run: "load_loop r shut (n + 1) bs ?blocks = Some result" using Cons.prems(4) True by (simp add: b split: if_splits)
    have "fst ` set ?blocks \<subseteq> insert k (fst ` set blocks)" using e by auto
    moreover have "k \<notin> fst ` set bs" "fst ` set bs \<inter> fst ` set blocks = {}" using Cons.prems(1,3) by (auto simp: b)
    ultimately have disj: "fst ` set bs \<inter> fst ` set ?blocks = {}" by blast
    have "set result = set ?blocks \<union> {(k, t) \<in> set bs. t \<ge> r} \<and> distinct (map fst result)"
      by (rule Cons.IH [OF _ _ disj run]) (use Cons.prems(1) e in simp_all)
    moreover have "{(k, t) \<in> set (b # bs). t \<ge> r} = {x. x = (k, t) \<and> t \<ge> r} \<union> {(k, t) \<in> set bs. t \<ge> r}" unfolding b by auto
    ultimately show ?thesis using e by (simp only: Un_assoc)
  qed
qed simp

lemma load_loop_returns: "(\<And>k. \<not> shut k) \<Longrightarrow> load_loop r shut n bs blocks \<noteq> None"
  by (induction r shut n bs blocks rule: load_loop.induct) auto

section \<open>What the cache knows of a block\<close>

text \<open>Whether a block is present after the remaining notifications, and after the pending events.\<close>

fun after_notifications :: "notification list \<Rightarrow> nat \<Rightarrow> bool \<Rightarrow> bool" where
  "after_notifications [] x b = b"
| "after_notifications (Connected k # ns) x b = after_notifications ns x (if k = x then True else b)"
| "after_notifications (Disconnected k # ns) x b = after_notifications ns x (if k = x then False else b)"

definition after_pending :: "(nat \<times> int option) list \<Rightarrow> nat \<Rightarrow> bool \<Rightarrow> bool" where
  "after_pending ps x b = (case map_of ps x of None \<Rightarrow> b | Some v \<Rightarrow> v \<noteq> None)"

lemma after_pending_Nil [simp]: "after_pending [] x b = b"
  by (simp add: after_pending_def)

lemma after_notifications_snoc [simp]:
  "after_notifications (ns @ [Connected k]) x b = (if k = x then True else after_notifications ns x b)"
  "after_notifications (ns @ [Disconnected k]) x b = (if k = x then False else after_notifications ns x b)"
  by (induction ns x b rule: after_notifications.induct) auto

lemma keys_delete: "fst ` set (AList.delete k blocks) = fst ` set blocks - {k}"
  by (force simp: AList.delete_eq)

lemma keys_update: "fst ` set (AList.update k v blocks) = insert k (fst ` set blocks)"
proof -
  have "set (map fst (AList.update k v blocks)) = insert k (set (map fst blocks))" by (auto simp: update_keys)
  then show ?thesis by simp
qed

lemma apply_pending_keys:
  "distinct (map fst ps) \<Longrightarrow> x \<in> fst ` set (apply_pending ps blocks) \<longleftrightarrow> after_pending ps x (x \<in> fst ` set blocks)"
proof (induction ps blocks rule: apply_pending.induct)
  case (2 k v ps blocks)
  have d: "map_of ps k = None" using "2.prems" by (simp add: map_of_eq_None_iff)
  have "x \<in> fst ` set (apply_pending ((k, v) # ps) blocks) \<longleftrightarrow>
      after_pending ps x (x \<in> fst ` set (case v of Some t \<Rightarrow> AList.update k t blocks | None \<Rightarrow> AList.delete k blocks))"
    using 2 by simp
  also have "\<dots> \<longleftrightarrow> after_pending ((k, v) # ps) x (x \<in> fst ` set blocks)"
    using d by (cases v; cases "x = k") (simp_all add: after_pending_def keys_update keys_delete)
  finally show ?case .
qed (simp add: after_pending_def)

definition timed :: "(nat \<Rightarrow> int) \<Rightarrow> (nat \<times> int) list \<Rightarrow> bool" where
  "timed time_of blocks \<longleftrightarrow> distinct (map fst blocks) \<and> (\<forall>(k, t) \<in> set blocks. t = time_of k)"

lemma timed_delete: "timed time_of blocks \<Longrightarrow> timed time_of (AList.delete k blocks)"
  by (auto simp: timed_def AList.delete_eq distinct_map_filter)

lemma timed_update: "timed time_of blocks \<Longrightarrow> timed time_of (AList.update k (time_of k) blocks)"
proof -
  assume h: "timed time_of blocks"
  then have d: "distinct (map fst (AList.update k (time_of k) blocks))" by (simp add: timed_def distinct_update)
  have "t = time_of x" if "(x, t) \<in> set (AList.update k (time_of k) blocks)" for x t
    using map_of_is_SomeI [OF d that] h by (auto simp: update_conv' timed_def split: if_splits dest: map_of_SomeD)
  with d show ?thesis by (auto simp: timed_def)
qed

lemma timed_emplace: "timed time_of blocks \<Longrightarrow> timed time_of (emplace k (time_of k) blocks)"
  by (auto simp: timed_def emplace_def map_of_eq_None_iff)

lemma timed_filter: "timed time_of blocks \<Longrightarrow> timed time_of (filter P blocks)"
  by (auto simp: timed_def distinct_map_filter)

definition timed_pending :: "(nat \<Rightarrow> int) \<Rightarrow> (nat \<times> int option) list \<Rightarrow> bool" where
  "timed_pending time_of ps \<longleftrightarrow> distinct (map fst ps) \<and> (\<forall>(k, v) \<in> set ps. v = None \<or> v = Some (time_of k))"

lemma timed_apply: "timed_pending time_of ps \<Longrightarrow> timed time_of blocks \<Longrightarrow> timed time_of (apply_pending ps blocks)"
proof (induction ps blocks rule: apply_pending.induct)
  case (2 k v ps blocks)
  then show ?case by (auto simp: timed_pending_def timed_update timed_delete split: option.splits)
qed simp

section \<open>The invariant\<close>

text \<open>
  For every block not older than every retention start so far, the cache's knowledge, corrected by the
  pending events and by the notifications still to come, is the active chain.
\<close>

definition base :: "bool \<Rightarrow> (nat \<times> int) list \<Rightarrow> (nat \<times> int) list option \<Rightarrow> nat list \<Rightarrow> nat \<Rightarrow> bool" where
  "base init blocks snap ch x =
     (if init then x \<in> fst ` set blocks else case snap of None \<Rightarrow> x \<in> set ch | Some bs \<Rightarrow> x \<in> fst ` set bs)"

definition tracks ::
  "(nat \<Rightarrow> int) \<Rightarrow> int \<Rightarrow> nat list \<Rightarrow> notification list \<Rightarrow> int option \<Rightarrow> (nat \<times> int) list option \<Rightarrow>
   bool \<Rightarrow> (nat \<times> int) list \<Rightarrow> (nat \<times> int option) list \<Rightarrow> int \<Rightarrow> bool" where
  "tracks time_of R ch ns reg snap init blocks pending retention \<longleftrightarrow>
     distinct ch \<and> timed time_of blocks \<and> timed_pending time_of pending \<and> retention \<le> R \<and>
     (case reg of None \<Rightarrow> ns = [] \<and> pending = [] \<and> snap = None \<and> \<not> init | Some r \<Rightarrow> r \<le> R) \<and>
     (init \<longrightarrow> pending = []) \<and> (case snap of None \<Rightarrow> True | Some bs \<Rightarrow> timed time_of bs) \<and>
     (\<forall>x. R \<le> time_of x \<longrightarrow>
        after_notifications ns x (after_pending pending x (base init blocks snap ch x)) = (x \<in> set ch))"

abbreviation sys_tracks :: "(nat \<Rightarrow> int) \<Rightarrow> clock_sys \<Rightarrow> bool" where
  "sys_tracks time_of s \<equiv> tracks time_of (max_retention s) (chain s) (notifications s) (registered s) (snapshot s)
     (h_initialized (cache s)) (h_blocks (cache s)) (h_pending (cache s)) (h_retention_start (cache s))"

lemma tracks_retention:
  assumes "tracks time_of R ch ns reg snap init blocks pending retention"
  shows "tracks time_of (max R r) ch ns reg snap init (filter (\<lambda>(k, t). \<not> t < r) blocks)
     (filter (\<lambda>(k, v). case v of None \<Rightarrow> True | Some t \<Rightarrow> \<not> t < r) pending) r"
proof -
  let ?P = "\<lambda>(k, v). case v of None \<Rightarrow> True | Some t \<Rightarrow> \<not> t < r"
  have tp: "timed_pending time_of pending" and tb: "timed time_of blocks" using assms by (simp_all add: tracks_def)
  then have "timed_pending time_of (filter ?P pending)" by (auto simp: timed_pending_def distinct_map_filter)
  moreover have "timed time_of (filter (\<lambda>(k, t). \<not> t < r) blocks)" using tb by (rule timed_filter)
  moreover have "after_pending (filter ?P pending) x b = after_pending pending x b" if "r \<le> time_of x" for x b
  proof -
    have "(k, v) \<in> set pending \<Longrightarrow> k = x \<Longrightarrow> ?P (k, v)" for k v using tp that by (auto simp: timed_pending_def split: option.splits)
    then have "map_of (filter ?P pending) x = map_of pending x"
      by (induction pending) (auto simp del: split_paired_All)
    then show ?thesis by (simp add: after_pending_def)
  qed
  moreover have "base init (filter (\<lambda>(k, t). \<not> t < r) blocks) snap ch x = base init blocks snap ch x" if "r \<le> time_of x" for x
    using tb that by (force simp: base_def timed_def)
  ultimately show ?thesis using assms by (auto simp: tracks_def split: option.splits)
qed

lemma tracks_mono: "tracks time_of R ch ns reg snap init blocks pending retention \<Longrightarrow> R \<le> R' \<Longrightarrow>
   tracks time_of R' ch ns reg snap init blocks pending retention"
  by (auto simp: tracks_def split: option.splits)

lemma tracks_setRetention:
  assumes "tracks time_of R ch ns reg snap (h_initialized h) (h_blocks h) (h_pending h) (h_retention_start h)" "h' = setRetentionStart r h"
  shows "tracks time_of (max R (h_retention_start h')) ch ns reg snap (h_initialized h') (h_blocks h') (h_pending h') (h_retention_start h')"
  using tracks_retention [OF assms(1), of r] tracks_mono [OF assms(1)] assms(2) by (simp add: setRetentionStart_def)

lemma takeSnapshot_fields [simp]:
  "h_initialized (snd (takeSnapshot h)) = h_initialized h" "h_blocks (snd (takeSnapshot h)) = h_blocks h"
  "h_pending (snd (takeSnapshot h)) = h_pending h" "h_retention_start (snd (takeSnapshot h)) = h_retention_start h"
  "h_stopped (snd (takeSnapshot h)) = h_stopped h" "h_changed (snd (takeSnapshot h)) = h_changed h"
  by (simp_all add: takeSnapshot_def)

lemma callback_fields [simp]:
  "h_initialized (fst (setChangedCallback b h)) = h_initialized h" "h_blocks (fst (setChangedCallback b h)) = h_blocks h"
  "h_pending (fst (setChangedCallback b h)) = h_pending h" "h_retention_start (fst (setChangedCallback b h)) = h_retention_start h"
  "h_stopped (fst (setChangedCallback b h)) = h_stopped h" "h_dirty (fst (setChangedCallback b h)) = h_dirty h"
  by (simp_all add: setChangedCallback_def)

text \<open>Every part of a GUI task leaves the cache as it is, moves the retention start or takes a snapshot.\<close>

lemma begin_cache:
  "fst (fst (update_begin now (h, c))) = h \<or> fst (fst (update_begin now (h, c))) = setRetentionStart (PeriodStartFor now - PERIOD_SECONDS) h"
  by (simp add: update_begin_def Let_def)

lemma take_cache: "fst (update_take (h, c)) = snd (takeSnapshot h)"
  by (simp add: update_take_def Let_def case_prod_beta)

lemma gui_cache:
  assumes "f = gui_tick fuzzy now \<or> f = gui_continue fuzzy now"
  shows "\<exists>r. fst (f (h, c)) \<in> {h, setRetentionStart r h, snd (takeSnapshot h)}"
  using assms
proof
  assume "f = gui_tick fuzzy now"
  then show ?thesis using begin_cache [of now h c] by (auto simp: gui_tick_def Let_def case_prod_beta)
next
  assume "f = gui_continue fuzzy now"
  then show ?thesis using begin_cache [of now h c] take_cache [of h c]
    by (auto simp: gui_continue_def Let_def case_prod_beta split: gui_phase.split option.split)
qed

lemma tracks_gui:
  assumes "f = gui_tick fuzzy now \<or> f = gui_continue fuzzy now"
    "tracks time_of R ch ns reg snap (h_initialized h) (h_blocks h) (h_pending h) (h_retention_start h)" "h' = fst (f (h, c))"
  shows "tracks time_of (max R (h_retention_start h')) ch ns reg snap (h_initialized h') (h_blocks h') (h_pending h') (h_retention_start h')"
proof -
  obtain r where "h' \<in> {h, setRetentionStart r h, snd (takeSnapshot h)}" using gui_cache [OF assms(1), of h c] assms(3) by auto
  then consider "h' = h" | "h' = setRetentionStart r h" | "h' = snd (takeSnapshot h)" by blast
  then show ?thesis
  proof cases
    case 2
    then show ?thesis by (rule tracks_setRetention [OF assms(2)])
  qed (use tracks_mono [OF assms(2)] in simp_all)
qed

subsection \<open>Chain, snapshot and notifications\<close>

lemma tracks_connect:
  assumes "tracks time_of R ch ns (Some r) snap init blocks pending retention" "k \<notin> set ch"
  shows "tracks time_of R (k # ch) (ns @ [Connected k]) (Some r) snap init blocks pending retention"
proof -
  have "after_notifications (ns @ [Connected k]) x (after_pending pending x (base init blocks snap (k # ch) x)) = (x \<in> set (k # ch))"
    if "R \<le> time_of x" for x
    using assms that by (cases "x = k") (auto simp: tracks_def base_def split: option.splits)
  with assms show ?thesis by (simp add: tracks_def)
qed

lemma tracks_disconnect:
  assumes "tracks time_of R (k # ch) ns (Some r) snap init blocks pending retention"
  shows "tracks time_of R ch (ns @ [Disconnected k]) (Some r) snap init blocks pending retention"
proof -
  have k: "k \<notin> set ch" using assms by (simp add: tracks_def)
  have "after_notifications (ns @ [Disconnected k]) x (after_pending pending x (base init blocks snap ch x)) = (x \<in> set ch)"
    if "R \<le> time_of x" for x
    using assms that k by (cases "x = k") (auto simp: tracks_def base_def split: option.splits)
  with assms show ?thesis by (simp add: tracks_def)
qed

lemma tracks_unregistered:
  "tracks time_of R ch ns None snap init blocks pending retention \<Longrightarrow> distinct ch' \<Longrightarrow>
   tracks time_of R ch' ns None snap init blocks pending retention"
  by (auto simp: tracks_def base_def)

lemma tracks_subscribe:
  "tracks time_of R ch ns None snap init blocks pending retention \<Longrightarrow> r \<le> R \<Longrightarrow>
   tracks time_of R ch ns (Some r) snap init blocks pending retention"
  by (auto simp: tracks_def)

lemma tracks_load:
  assumes "tracks time_of R ch ns (Some r) None init blocks pending retention"
    "load_snapshot r shut (map (\<lambda>k. (k, time_of k)) ch) = Some bs"
  shows "tracks time_of R ch ns (Some r) (Some bs) init blocks pending retention"
proof -
  have d: "distinct ch" "r \<le> R" using assms(1) by (simp_all add: tracks_def)
  have bs: "set bs = {(k, t) \<in> set (map (\<lambda>k. (k, time_of k)) ch). t \<ge> r} \<and> distinct (map fst bs)"
    using load_loop_set [OF _ _ _ assms(2) [unfolded load_snapshot_def]] d(1) by (simp add: comp_def)
  then have "timed time_of bs" by (auto simp: timed_def)
  moreover have "base init blocks (Some bs) ch x = base init blocks None ch x" if "R \<le> time_of x" for x
    using bs d(2) that by (force simp: base_def)
  ultimately show ?thesis using assms(1) by (simp add: tracks_def)
qed

lemma tracks_initialize:
  assumes "tracks time_of R ch ns reg (Some bs) False blocks pending retention"
  shows "tracks time_of R ch ns reg (Some bs) True (filter (\<lambda>(k, t). \<not> t < retention) (apply_pending pending bs)) [] retention"
proof -
  have t: "timed_pending time_of pending" "timed time_of bs" "retention \<le> R" using assms by (simp_all add: tracks_def)
  have ta: "timed time_of (apply_pending pending bs)" by (rule timed_apply [OF t(1,2)])
  have "x \<in> fst ` set (filter (\<lambda>(k, t). \<not> t < retention) (apply_pending pending bs)) \<longleftrightarrow> after_pending pending x (x \<in> fst ` set bs)"
    if "R \<le> time_of x" for x
  proof -
    have "x \<in> fst ` set (filter (\<lambda>(k, t). \<not> t < retention) (apply_pending pending bs)) \<longleftrightarrow> x \<in> fst ` set (apply_pending pending bs)"
      using ta that t(3) by (force simp: timed_def)
    with apply_pending_keys t(1) show ?thesis by (simp add: timed_pending_def)
  qed
  then show ?thesis using assms timed_filter [OF ta]
    by (auto simp: tracks_def base_def timed_pending_def after_pending_def split: option.splits)
qed

text \<open>Delivering the oldest notification moves its effect into the cache.\<close>

lemma after_pending_update: "after_pending (AList.update k v ps) x b = (if x = k then v \<noteq> None else after_pending ps x b)"
  by (simp add: after_pending_def update_conv')

lemma timed_pending_update: "timed_pending time_of ps \<Longrightarrow> v = None \<or> v = Some (time_of k) \<Longrightarrow> timed_pending time_of (AList.update k v ps)"
proof -
  assume h: "timed_pending time_of ps" "v = None \<or> v = Some (time_of k)"
  then have d: "distinct (map fst (AList.update k v ps))" by (simp add: timed_pending_def distinct_update)
  have "w = None \<or> w = Some (time_of x)" if "(x, w) \<in> set (AList.update k v ps)" for x w
    using map_of_is_SomeI [OF d that] h by (auto simp: update_conv' timed_pending_def split: if_splits dest: map_of_SomeD)
  with d show ?thesis by (auto simp: timed_pending_def)
qed

lemma deliver_effect:
  assumes "R \<le> time_of x" "h_retention_start h \<le> R" "\<not> h_stopped h" "h_initialized h \<longrightarrow> h_pending h = []"
    "h' = fst (notify time_of n h)"
  shows "after_notifications ns x (after_pending (h_pending h') x (base (h_initialized h') (h_blocks h') snap ch x)) =
     after_notifications (n # ns) x (after_pending (h_pending h) x (base (h_initialized h) (h_blocks h) snap ch x))"
proof (cases n)
  case (Connected k)
  then show ?thesis
    using assms by (cases "x = k") (auto simp: blockConnected_def record_block_def base_def after_pending_update
        emplace_def map_of_eq_None_iff keys_update)
next
  case (Disconnected k)
  then show ?thesis
    using assms by (cases "x = k") (auto simp: blockDisconnected_def record_block_def base_def after_pending_update
        map_of_eq_None_iff keys_delete)
qed

lemma notify_fields:
  assumes "timed time_of (h_blocks h)" "timed_pending time_of (h_pending h)"
  shows "timed time_of (h_blocks (fst (notify time_of n h)))" "timed_pending time_of (h_pending (fst (notify time_of n h)))"
    "h_initialized (fst (notify time_of n h)) = h_initialized h" "h_retention_start (fst (notify time_of n h)) = h_retention_start h"
    "h_initialized h \<Longrightarrow> h_pending (fst (notify time_of n h)) = h_pending h" "h_stopped (fst (notify time_of n h)) = h_stopped h"
    "h_changed (fst (notify time_of n h)) = h_changed h"
  using assms by (cases n; simp add: blockConnected_def blockDisconnected_def record_block_def timed_emplace timed_delete timed_pending_update)+

lemma tracks_deliver:
  assumes "tracks time_of R ch (n # ns) reg snap (h_initialized h) (h_blocks h) (h_pending h) (h_retention_start h)"
    "\<not> h_stopped h" "h' = fst (notify time_of n h)"
  shows "tracks time_of R ch ns reg snap (h_initialized h') (h_blocks h') (h_pending h') (h_retention_start h')"
proof -
  have t: "timed time_of (h_blocks h)" "timed_pending time_of (h_pending h)" "h_retention_start h \<le> R"
    "h_initialized h \<longrightarrow> h_pending h = []" "reg \<noteq> None" using assms(1) by (auto simp: tracks_def split: option.splits)
  note f = notify_fields [OF t(1,2), of n]
  have "after_notifications ns x (after_pending (h_pending h') x (base (h_initialized h') (h_blocks h') snap ch x)) = (x \<in> set ch)"
    if "R \<le> time_of x" for x
    using deliver_effect [where h = h and n = n and ns = ns and snap = snap and ch = ch, OF that t(3) assms(2) t(4) assms(3)] assms(1) that by (simp only: tracks_def)
  with assms(1) t(5) f show ?thesis by (auto simp: tracks_def assms(3) split: option.splits)
qed

subsection \<open>The model follows the cache\<close>

definition in_period :: "int \<Rightarrow> int \<Rightarrow> bool" where
  "in_period p t \<longleftrightarrow> p \<le> t \<and> t < p + PERIOD_SECONDS"

definition dial_ok :: "clock_model \<Rightarrow> bool" where
  "dial_ok c \<longleftrightarrow> c_block_timestamps c = filter (in_period (c_period_start c)) (sort (c_cached c)) \<and>
     c_fractions c = map (fractionForTimestamp (c_period_start c)) (c_block_timestamps c)"

definition fresh :: "block_history \<Rightarrow> clock_model \<Rightarrow> bool" where
  "fresh h c \<longleftrightarrow> (\<not> h_initialized h \<longrightarrow> c_cached c = []) \<and>
     (h_initialized h \<and> \<not> h_dirty h \<longrightarrow> mset (c_cached c) = mset (map snd (h_blocks h)))"

definition posted :: "clock_model \<Rightarrow> bool" where
  "posted c \<longleftrightarrow> (c_refresh_pending c \<longrightarrow> 0 < c_posted c)"

definition woken :: "block_history \<Rightarrow> clock_model \<Rightarrow> bool" where
  "woken h c \<longleftrightarrow> (h_initialized h \<and> h_dirty h \<longrightarrow> c_refresh_pending c)"

definition fractions_ok :: "clock_model \<Rightarrow> bool" where
  "fractions_ok c \<longleftrightarrow> c_fractions c = map (fractionForTimestamp (c_period_start c)) (c_block_timestamps c)"

text \<open>What holds in each phase of the GUI thread: a task still to take its snapshot need not have been woken, and the dial is redrawn at its end.\<close>

definition follows :: "block_history \<Rightarrow> clock_model \<Rightarrow> bool" where
  "follows h c \<longleftrightarrow> fresh h c \<and> h_changed h \<and> posted c \<and>
     (case c_gui c of
        Gui_idle \<Rightarrow> woken h c \<and> dial_ok c
      | Refresh_begun \<Rightarrow> dial_ok c
      | Refresh_taken \<Rightarrow> woken h c \<and> fractions_ok c
      | Refresh_retained t \<Rightarrow> True
      | Tick_retained t \<Rightarrow> True)"

lemma not_in_period: "(\<lambda>t. \<not> (t < p \<or> t \<ge> p + PERIOD_SECONDS)) = in_period p"
  by (auto simp: in_period_def)

lemma replace_ok:
  assumes "b \<or> fractions_ok c"
  shows "dial_ok (replaceBlockHistory (c_cached c) b c)"
  using assms unfolding replaceBlockHistory_def Let_def not_in_period by (auto simp: dial_ok_def fractions_ok_def)

lemma replace_fields [simp]:
  "c_cached (replaceBlockHistory ts b c) = c_cached c" "c_period_start (replaceBlockHistory ts b c) = c_period_start c"
  "c_refresh_pending (replaceBlockHistory ts b c) = c_refresh_pending c" "c_posted (replaceBlockHistory ts b c) = c_posted c"
  "c_gui (replaceBlockHistory ts b c) = c_gui c" "c_stopped (replaceBlockHistory ts b c) = c_stopped c"
  by (simp_all add: replaceBlockHistory_def Let_def)

text \<open>Taking a snapshot of the cache into the model.\<close>

definition pull :: "block_history \<Rightarrow> clock_model \<Rightarrow> clock_model" where
  "pull h c = (case fst (takeSnapshot h) of None \<Rightarrow> c | Some ts \<Rightarrow> c\<lparr>c_cached := ts\<rparr>)"

lemma pull_fields [simp]:
  "c_period_start (pull h c) = c_period_start c" "c_refresh_pending (pull h c) = c_refresh_pending c" "c_posted (pull h c) = c_posted c"
  "c_gui (pull h c) = c_gui c" "c_stopped (pull h c) = c_stopped c" "c_fractions (pull h c) = c_fractions c"
  "c_block_timestamps (pull h c) = c_block_timestamps c"
  by (simp_all add: pull_def split: option.split)

lemma pull_fresh: "\<not> h_stopped h \<Longrightarrow> fresh h c \<Longrightarrow> fresh (snd (takeSnapshot h)) (pull h c)"
proof -
  have "mset (map snd (sort_key fst (h_blocks h))) = mset (map snd (h_blocks h))" by (simp add: image_mset.compositionality)
  then show "\<not> h_stopped h \<Longrightarrow> fresh h c \<Longrightarrow> fresh (snd (takeSnapshot h)) (pull h c)"
    by (auto simp: pull_def takeSnapshot_def fresh_def)
qed

lemma pull_clean: "\<not> h_stopped h \<Longrightarrow> h_initialized h \<Longrightarrow> \<not> h_dirty (snd (takeSnapshot h))"
  by (simp add: takeSnapshot_def)

lemma retention_fresh: "fresh h c \<Longrightarrow> fresh (setRetentionStart r h) c"
  by (simp add: setRetentionStart_def fresh_def)

lemma retention_fields [simp]:
  "h_stopped (setRetentionStart r h) = h_stopped h" "h_changed (setRetentionStart r h) = h_changed h"
  "h_initialized (setRetentionStart r h) = h_initialized h"
  by (simp_all add: setRetentionStart_def)

lemma hand_fields [simp]:
  "c_period_start (update_hand fuzzy now c) = c_period_start c" "c_refresh_pending (update_hand fuzzy now c) = c_refresh_pending c"
  "c_posted (update_hand fuzzy now c) = c_posted c" "c_gui (update_hand fuzzy now c) = c_gui c" "c_cached (update_hand fuzzy now c) = c_cached c"
  "c_block_timestamps (update_hand fuzzy now c) = c_block_timestamps c" "c_fractions (update_hand fuzzy now c) = c_fractions c"
  "c_stopped (update_hand fuzzy now c) = c_stopped c"
  by (simp_all add: update_hand_def Let_def)

lemma take_eq: "update_take (h, c) = (snd (takeSnapshot h), replaceBlockHistory (c_cached (pull h c)) True (pull h c))"
  by (simp add: update_take_def pull_def Let_def case_prod_beta)

lemma begin_eq:
  "update_begin now (h, c) =
     (if c_period_start c \<noteq> PeriodStartFor now
      then ((setRetentionStart (PeriodStartFor now - PERIOD_SECONDS) h, c\<lparr>c_period_start := PeriodStartFor now\<rparr>), True) else ((h, c), False))"
  by (simp add: update_begin_def Let_def)

text \<open>The tasks, when no other thread comes in between, are the functions of the code.\<close>

lemma tick_alone:
  assumes "c_gui c = Gui_idle"
  shows "gui_continue fuzzy now (gui_tick fuzzy now (h, c)) = updateCurrentTime fuzzy now (h, c)"
proof -
  have id: "c'\<lparr>c_gui := Gui_idle\<rparr> = c'" if "c_gui c' = Gui_idle" for c' :: clock_model using that by (cases c') simp
  show ?thesis
  proof (cases "c_stopped c \<or> c_period_start c = PeriodStartFor now")
    case True
    then show ?thesis using assms by (auto simp: gui_tick_def updateCurrentTime_def begin_eq gui_continue_def)
  next
    case False
    let ?c = "c\<lparr>c_period_start := PeriodStartFor now\<rparr>" let ?h = "setRetentionStart (PeriodStartFor now - PERIOD_SECONDS) h"
    have pull: "pull ?h (?c\<lparr>c_gui := g\<rparr>) = (pull ?h ?c)\<lparr>c_gui := g\<rparr>" for g by (simp add: pull_def split: option.split)
    have repl: "replaceBlockHistory ts b (c\<lparr>c_gui := g\<rparr>) = (replaceBlockHistory ts b c)\<lparr>c_gui := g\<rparr>" for ts b c g
      by (simp add: replaceBlockHistory_def Let_def)
    have hand: "update_hand fuzzy now (c\<lparr>c_gui := g\<rparr>) = (update_hand fuzzy now c)\<lparr>c_gui := g\<rparr>" for c g
      by (simp add: update_hand_def Let_def)
    show ?thesis using False assms by (simp add: gui_tick_def updateCurrentTime_def begin_eq gui_continue_def take_eq pull repl hand id)
  qed
qed

lemma take_follows:
  assumes "\<not> h_stopped h" "fresh h c" "h_changed h" "posted c"
  shows "fresh (snd (takeSnapshot h)) (pull h c)" "woken (snd (takeSnapshot h)) (pull h c)" "h_changed (snd (takeSnapshot h))" "posted (pull h c)"
  using pull_fresh [OF assms(1,2)] pull_clean [OF assms(1)] assms(3,4) by (auto simp: woken_def posted_def)

lemma idle_follows:
  assumes "fresh h c" "h_changed h" "posted c" "woken h c" "dial_ok c"
  shows "follows h (c\<lparr>c_gui := Gui_idle\<rparr>)"
  using assms by (simp add: follows_def fresh_def posted_def woken_def dial_ok_def)

lemma begin_follows:
  assumes "fresh h c" "h_changed h" "posted c" "h1 = setRetentionStart r h"
  shows "fresh h1 (c\<lparr>c_period_start := p, c_gui := g\<rparr>)" "h_changed h1" "posted (c\<lparr>c_period_start := p, c_gui := g\<rparr>)"
  using retention_fresh [OF assms(1), of r] assms(2-4) by (simp_all add: fresh_def posted_def)

lemma tick_follows:
  assumes "\<not> c_stopped c" "c_gui c = Gui_idle" "follows h c" "gui_tick fuzzy now (h, c) = (h', c')"
  shows "follows h' c'"
proof (cases "c_period_start c = PeriodStartFor now")
  case True
  then have "h' = h" "c' = update_hand fuzzy now c" using assms(1,4) by (simp_all add: gui_tick_def begin_eq)
  then show ?thesis using assms(2,3) by (simp add: follows_def fresh_def posted_def woken_def dial_ok_def)
next
  case False
  then have "h' = setRetentionStart (PeriodStartFor now - PERIOD_SECONDS) h" "c' = c\<lparr>c_period_start := PeriodStartFor now, c_gui := Tick_retained now\<rparr>"
    using assms(1,4) by (simp_all add: gui_tick_def begin_eq)
  then show ?thesis using begin_follows [of h c h'] assms(3) by (simp add: follows_def)
qed

text \<open>The end of a task that takes the new period into the dial.\<close>

lemma taken_follows:
  assumes "\<not> h_stopped h" "fresh h c" "h_changed h" "posted c" "update_take (h, c) = (h1, c1)"
  shows "follows h1 ((update_hand fuzzy t c1)\<lparr>c_gui := Gui_idle\<rparr>)"
    "follows h1 ((replaceBlockHistory (c_cached c1) False (update_hand fuzzy t c1))\<lparr>c_gui := Gui_idle\<rparr>)"
proof -
  have e: "h1 = snd (takeSnapshot h)" "c1 = replaceBlockHistory (c_cached (pull h c)) True (pull h c)" using assms(5) by (simp_all add: take_eq)
  note t = take_follows [OF assms(1-4)]
  have d: "dial_ok c1" unfolding e(2) by (rule replace_ok) simp
  have f: "fresh h1 (update_hand fuzzy t c1)" "h_changed h1" "posted (update_hand fuzzy t c1)" "woken h1 (update_hand fuzzy t c1)" "dial_ok (update_hand fuzzy t c1)"
    using t d by (simp_all add: e fresh_def posted_def woken_def dial_ok_def)
  show "follows h1 ((update_hand fuzzy t c1)\<lparr>c_gui := Gui_idle\<rparr>)" by (rule idle_follows [OF f])
  let ?c2 = "replaceBlockHistory (c_cached c1) False (update_hand fuzzy t c1)"
  have "dial_ok ?c2" using replace_ok [of False "update_hand fuzzy t c1"] f(5) by (simp add: fractions_ok_def dial_ok_def)
  with f show "follows h1 (?c2\<lparr>c_gui := Gui_idle\<rparr>)" by (intro idle_follows) (simp_all add: fresh_def posted_def woken_def)
qed

lemma continue_begun:
  assumes "\<not> h_stopped h" "\<not> c_stopped c" "follows h c" "c_gui c = Refresh_begun" "gui_continue fuzzy now (h, c) = (h', c')"
  shows "follows h' c'"
proof -
  have f: "fresh h c" "h_changed h" "posted c" "dial_ok c" using assms(3,4) by (simp_all add: follows_def)
  obtain x h2 where snap: "takeSnapshot h = (x, h2)" by fastforce
  show ?thesis
  proof (cases x)
    case None
    have w: "woken h c" "h2 = h" using snap None assms(1) by (auto simp: takeSnapshot_def woken_def split: if_splits)
    have "h' = h" "c' = c\<lparr>c_gui := Gui_idle\<rparr>" using assms(2,4,5) None w(2) snap by (simp_all add: gui_continue_def)
    then show ?thesis using idle_follows [OF f(1-3) w(1) f(4)] by simp
  next
    case (Some ts)
    have e: "h' = h2" "c' = c\<lparr>c_cached := ts, c_gui := Refresh_taken\<rparr>"
      using assms(2,4,5) Some snap by (simp_all add: gui_continue_def)
    have p: "pull h c = c\<lparr>c_cached := ts\<rparr>" using Some snap by (simp add: pull_def)
    have "fresh h2 (c\<lparr>c_cached := ts\<rparr>)" "woken h2 (c\<lparr>c_cached := ts\<rparr>)" "h_changed h2"
      using take_follows [OF assms(1) f(1-3)] unfolding p snap by simp_all
    moreover have "fractions_ok c" using f(4) by (simp add: dial_ok_def fractions_ok_def)
    ultimately show ?thesis using f(3) by (simp add: e follows_def fresh_def woken_def posted_def fractions_ok_def)
  qed
qed

lemma continue_taken:
  assumes "follows h c" "c_gui c = Refresh_taken" "gui_continue fuzzy now (h, c) = (h', c')"
  shows "follows h' c'"
proof -
  have f: "fresh h c" "h_changed h" "posted c" "woken h c" "fractions_ok c" using assms(1,2) by (simp_all add: follows_def)
  show ?thesis
  proof (cases "c_period_start c = PeriodStartFor now")
    case True
    define c1 where "c1 = update_hand fuzzy now c"
    have c1: "fresh h c1" "posted c1" "woken h c1" "fractions_ok c1" using f by (simp_all add: c1_def fresh_def posted_def woken_def fractions_ok_def)
    define c2 where "c2 = replaceBlockHistory (c_cached c1) False c1"
    have c2: "fresh h c2" "posted c2" "woken h c2" using c1 by (simp_all add: c2_def fresh_def posted_def woken_def)
    have d: "dial_ok c2" unfolding c2_def by (rule replace_ok [OF disjI2 [OF c1(4)]])
    have e: "h' = h" "c' = c2\<lparr>c_gui := Gui_idle\<rparr>"
      using assms(2,3) True by (simp_all add: gui_continue_def begin_eq c2_def c1_def)
    show ?thesis unfolding e by (rule idle_follows [OF c2(1) f(2) c2(2,3) d])
  next
    case False
    then have e: "h' = setRetentionStart (PeriodStartFor now - PERIOD_SECONDS) h" "c' = c\<lparr>c_period_start := PeriodStartFor now, c_gui := Refresh_retained now\<rparr>"
      using assms(2,3) by (simp_all add: gui_continue_def begin_eq)
    show ?thesis using begin_follows [OF f(1-3) e(1)] by (simp add: e(2) follows_def)
  qed
qed

lemma continue_retained:
  assumes "\<not> h_stopped h" "follows h c" "c_gui c = Tick_retained t \<or> c_gui c = Refresh_retained t" "gui_continue fuzzy now (h, c) = (h', c')"
  shows "follows h' c'"
proof -
  have f: "fresh h c" "h_changed h" "posted c" using assms(2) by (simp_all add: follows_def)
  obtain h1 c1 where take: "update_take (h, c) = (h1, c1)" by fastforce
  have "h' = h1" "c' = (update_hand fuzzy t c1)\<lparr>c_gui := Gui_idle\<rparr> \<or>
      c' = (replaceBlockHistory (c_cached c1) False (update_hand fuzzy t c1))\<lparr>c_gui := Gui_idle\<rparr>"
    using assms(3,4) by (auto simp: gui_continue_def take)
  then show ?thesis using taken_follows [OF assms(1) f take] by metis
qed

lemma continue_follows:
  assumes "\<not> h_stopped h" "\<not> c_stopped c" "follows h c" "gui_continue fuzzy now (h, c) = (h', c')"
  shows "follows h' c'"
proof (cases "c_gui c")
  case Gui_idle
  then have "h' = h" "c' = c" using assms(4) by (simp_all add: gui_continue_def)
  then show ?thesis using assms(3) by simp
next
  case Refresh_begun
  then show ?thesis by (rule continue_begun [OF assms(1-3) _ assms(4)])
next
  case Refresh_taken
  then show ?thesis by (rule continue_taken [OF assms(3) _ assms(4)])
next
  case (Refresh_retained t)
  then show ?thesis by (intro continue_retained [OF assms(1,3) _ assms(4)] disjI2)
next
  case (Tick_retained t)
  then show ?thesis by (intro continue_retained [OF assms(1,3) _ assms(4)] disjI1)
qed

text \<open>A change of the cache calls the callback, which schedules a refresh.\<close>

lemma follows_changed:
  assumes "follows h c" "h_changed h' = h_changed h" "h_initialized h'" "h_dirty h'"
  shows "follows h' (scheduled (h_changed h) c)"
  using assms by (auto simp: follows_def fresh_def woken_def posted_def dial_ok_def fractions_ok_def scheduled_def scheduleHistoryRefresh_def
      split: gui_phase.splits)

lemma follows_same:
  assumes "follows h c" "h_changed h' = h_changed h" "h_initialized h' = h_initialized h" "h_dirty h' = h_dirty h" "h_blocks h' = h_blocks h"
  shows "follows h' c"
proof -
  have "woken h' c = woken h c" "fresh h' c = fresh h c" using assms(2-5) by (simp_all add: woken_def fresh_def)
  then show ?thesis using assms(1,2) by (cases "c_gui c") (simp_all add: follows_def)
qed

lemma follows_notify:
  assumes "follows h c"
  shows "follows (fst (notify time_of n h)) (scheduled (snd (notify time_of n h)) c)"
proof -
  let ?r = "notify time_of n h"
  have "snd ?r = h_changed h \<and> h_initialized (fst ?r) \<and> h_dirty (fst ?r) \<and> h_changed (fst ?r) = h_changed h \<or>
      \<not> snd ?r \<and> h_changed (fst ?r) = h_changed h \<and> h_initialized (fst ?r) = h_initialized h \<and> h_dirty (fst ?r) = h_dirty h \<and>
      h_blocks (fst ?r) = h_blocks h"
    by (cases n) (auto simp: blockConnected_def blockDisconnected_def record_block_def)
  then show ?thesis
    using follows_changed [OF assms, of "fst ?r"] follows_same [OF assms, of "fst ?r"] by (auto simp: scheduled_def)
qed

lemma follows_initialize:
  assumes "follows h c"
  shows "follows (fst (history_initialize blocks h)) (scheduled (snd (history_initialize blocks h)) c)"
proof (cases "h_stopped h \<or> h_initialized h")
  case True
  with assms show ?thesis by (simp add: history_initialize_def scheduled_def)
next
  case False
  then show ?thesis using follows_changed [OF assms] by (simp add: history_initialize_def)
qed

subsection \<open>Every step\<close>

definition clock_ok :: "(nat \<Rightarrow> int) \<Rightarrow> clock_sys \<Rightarrow> bool" where
  "clock_ok time_of s \<longleftrightarrow>
     (\<not> h_stopped (cache s) \<longrightarrow> sys_tracks time_of s \<and> (\<not> c_stopped (clock s) \<longrightarrow> follows (cache s) (clock s)))"

lemma scheduled_stopped [simp]: "c_stopped (scheduled b c) = c_stopped c"
  by (simp add: scheduled_def scheduleHistoryRefresh_def)

lemma gui_stopped:
  assumes "f = gui_tick fuzzy now \<or> f = gui_continue fuzzy now" "f (h, c) = (h', c')"
  shows "h_stopped h' = h_stopped h" "c_stopped c' = c_stopped c"
proof -
  obtain r where "h' \<in> {h, setRetentionStart r h, snd (takeSnapshot h)}" using gui_cache [OF assms(1), of h c] assms(2) by auto
  then show "h_stopped h' = h_stopped h" by auto
  show "c_stopped c' = c_stopped c" using assms
    by (auto simp: gui_tick_def gui_continue_def begin_eq take_eq Let_def split: gui_phase.splits if_splits prod.splits option.splits)
qed

lemma with_gui_ok:
  assumes "f (cache s, clock s) = (h', c')" "h_stopped h' = h_stopped (cache s)"
    and "\<not> h_stopped (cache s) \<Longrightarrow> tracks time_of (max (max_retention s) (h_retention_start h')) (chain s) (notifications s)
        (registered s) (snapshot s) (h_initialized h') (h_blocks h') (h_pending h') (h_retention_start h')"
    and "\<not> h_stopped (cache s) \<Longrightarrow> \<not> c_stopped c' \<Longrightarrow> follows h' c'"
  shows "clock_ok time_of (with_gui f s)"
  using assms by (auto simp: clock_ok_def with_gui_def)

lemma gui_ok:
  assumes "f = gui_tick fuzzy now \<and> c_gui (clock s) = Gui_idle \<or> f = gui_continue fuzzy now" "clock_ok time_of s"
  shows "clock_ok time_of (with_gui f s)"
proof -
  obtain h' c' where r: "f (cache s, clock s) = (h', c')" by fastforce
  have st: "h_stopped h' = h_stopped (cache s)" "c_stopped c' = c_stopped (clock s)" using gui_stopped [where f = f and fuzzy = fuzzy and now = now, OF _ r] assms(1) by auto
  show ?thesis
  proof (rule with_gui_ok [where f = f and s = s, OF r st(1)])
    assume a: "\<not> h_stopped (cache s)"
    then have "sys_tracks time_of s" using assms(2) by (simp add: clock_ok_def)
    from tracks_gui [OF _ this, of f fuzzy now h' "clock s"] r assms(1)
    show "tracks time_of (max (max_retention s) (h_retention_start h')) (chain s) (notifications s)
        (registered s) (snapshot s) (h_initialized h') (h_blocks h') (h_pending h') (h_retention_start h')" by auto
    assume "\<not> c_stopped c'"
    then have c: "\<not> c_stopped (clock s)" "follows (cache s) (clock s)" using assms(2) a st(2) by (simp_all add: clock_ok_def)
    show "follows h' c'"
      using assms(1)
    proof
      assume "f = gui_tick fuzzy now \<and> c_gui (clock s) = Gui_idle"
      then show ?thesis using tick_follows [OF c(1) _ c(2)] r by simp
    next
      assume "f = gui_continue fuzzy now"
      then show ?thesis using continue_follows [OF a c] r by simp
    qed
  qed
qed

lemma stop_ok:
  assumes "clock_ok time_of s"
  shows "clock_ok time_of (with_gui clock_stop s)"
proof -
  obtain h' c' where r: "clock_stop (cache s, clock s) = (h', c')" by fastforce
  have h': "h' = cache s \<or> h' = fst (setChangedCallback False (cache s))" and c': "c_stopped c'"
    using r by (auto simp: clock_stop_def split: if_splits)
  show ?thesis
    by (rule with_gui_ok [where f = clock_stop and s = s, OF r]) (use h' c' assms tracks_mono in \<open>auto simp: clock_ok_def\<close>)
qed

lemma with_callback_ok:
  assumes "f (cache s) = (h', b)" "h_stopped h' = h_stopped (cache s)"
    and "\<not> h_stopped (cache s) \<Longrightarrow> tracks time_of (max_retention s) (chain s) (notifications s)
        (registered s) (snapshot s) (h_initialized h') (h_blocks h') (h_pending h') (h_retention_start h')"
    and "\<not> h_stopped (cache s) \<Longrightarrow> \<not> c_stopped (clock s) \<Longrightarrow> follows h' (scheduled b (clock s))"
  shows "clock_ok time_of (with_callback f s)"
  using assms by (auto simp: clock_ok_def with_callback_def)

lemma deliver_ok:
  assumes "clock_ok time_of s" "notifications s = n # ns"
  shows "clock_ok time_of (with_callback (notify time_of n) (s\<lparr>notifications := ns\<rparr>))"
proof -
  obtain h' b where r: "notify time_of n (cache (s\<lparr>notifications := ns\<rparr>)) = (h', b)" by fastforce
  have st: "h_stopped h' = h_stopped (cache (s\<lparr>notifications := ns\<rparr>))"
    using r by (cases n) (auto simp: blockConnected_def blockDisconnected_def record_block_def split: if_splits)
  show ?thesis
    by (rule with_callback_ok [where f = "notify time_of n" and s = "s\<lparr>notifications := ns\<rparr>", OF r st])
      (use assms r tracks_deliver [of time_of _ _ n ns _ _ "cache s" h'] follows_notify [of "cache s" "clock s" time_of n] in \<open>auto simp: clock_ok_def\<close>)
qed

lemma initialize_ok:
  assumes "clock_ok time_of s" "snapshot s = Some bs"
  shows "clock_ok time_of (with_callback (history_initialize bs) s)"
proof -
  obtain h' b where r: "history_initialize bs (cache s) = (h', b)" by fastforce
  have st: "h_stopped h' = h_stopped (cache s)" using r by (auto simp: history_initialize_def split: if_splits)
  show ?thesis
  proof (rule with_callback_ok [where f = "history_initialize bs" and s = s, OF r st])
    assume a: "\<not> h_stopped (cache s)"
    then have t: "sys_tracks time_of s" using assms(1) by (simp add: clock_ok_def)
    show "tracks time_of (max_retention s) (chain s) (notifications s)
        (registered s) (snapshot s) (h_initialized h') (h_blocks h') (h_pending h') (h_retention_start h')"
    proof (cases "h_initialized (cache s)")
      case True
      with r t show ?thesis by (auto simp: history_initialize_def)
    next
      case False
      with r t a tracks_initialize [of time_of _ _ _ _ bs] assms(2) show ?thesis by (auto simp: history_initialize_def)
    qed
    show "follows h' (scheduled b (clock s))" if "\<not> c_stopped (clock s)"
      using follows_initialize [of "cache s" "clock s" bs] r assms(1) a that by (simp add: clock_ok_def)
  qed
qed

lemma announce_ok:
  assumes "clock_ok time_of s"
  shows "k \<notin> set (chain s) \<Longrightarrow> clock_ok time_of (announce (Connected k) (s\<lparr>chain := k # chain s\<rparr>))"
    "chain s = k # ks \<Longrightarrow> clock_ok time_of (announce (Disconnected k) (s\<lparr>chain := ks\<rparr>))"
proof -
  show "clock_ok time_of (announce (Connected k) (s\<lparr>chain := k # chain s\<rparr>))" if "k \<notin> set (chain s)"
  proof (cases "registered s")
    case None
    have "distinct (k # chain s)" if "sys_tracks time_of s" using that \<open>k \<notin> set (chain s)\<close> by (simp add: tracks_def)
    with None assms tracks_unregistered show ?thesis by (auto simp: clock_ok_def announce_def)
  next
    case (Some r)
    with assms tracks_connect that show ?thesis by (auto simp: clock_ok_def announce_def)
  qed
  show "clock_ok time_of (announce (Disconnected k) (s\<lparr>chain := ks\<rparr>))" if "chain s = k # ks"
  proof (cases "registered s")
    case None
    have "distinct ks" if "sys_tracks time_of s" using that \<open>chain s = k # ks\<close> by (simp add: tracks_def)
    with None assms tracks_unregistered show ?thesis by (auto simp: clock_ok_def announce_def)
  next
    case (Some r)
    with assms tracks_disconnect that show ?thesis by (auto simp: clock_ok_def announce_def)
  qed
qed

lemma subscribe_ok:
  assumes "clock_ok time_of s" "registered s = None"
  shows "clock_ok time_of (s\<lparr>registered := retentionStart (cache s)\<rparr>)"
proof (cases "h_stopped (cache s)")
  case False
  with assms have t: "sys_tracks time_of s" by (simp add: clock_ok_def)
  then have "h_retention_start (cache s) \<le> max_retention s" by (simp add: tracks_def)
  with tracks_subscribe t assms False show ?thesis by (auto simp: clock_ok_def retentionStart_def)
qed (simp add: clock_ok_def)

lemma load_ok:
  assumes "clock_ok time_of s" "registered s = Some r" "snapshot s = None"
  shows "clock_ok time_of (s\<lparr>snapshot := load_snapshot r shut (map (\<lambda>k. (k, time_of k)) (chain s))\<rparr>)"
proof (cases "load_snapshot r shut (map (\<lambda>k. (k, time_of k)) (chain s))")
  case None
  with assms show ?thesis by (simp add: clock_ok_def)
next
  case (Some bs)
  with assms tracks_load show ?thesis by (auto simp: clock_ok_def)
qed

lemma refresh_start_ok:
  assumes "clock_ok time_of s" "c_gui (clock s) = Gui_idle"
  shows "clock_ok time_of (s\<lparr>clock := (clock s)\<lparr>c_posted := c_posted (clock s) - Suc 0, c_refresh_pending := False, c_gui := Refresh_begun\<rparr>\<rparr>)"
  using assms by (auto simp: clock_ok_def follows_def fresh_def posted_def woken_def dial_ok_def)

lemma tick_ok: "clock_ok time_of s \<Longrightarrow> c_gui (clock s) = Gui_idle \<Longrightarrow> clock_ok time_of (with_gui (gui_tick fuzzy now) s)"
  by (rule gui_ok [where fuzzy = fuzzy and now = now]) simp_all

lemma continue_ok: "clock_ok time_of s \<Longrightarrow> clock_ok time_of (with_gui (gui_continue fuzzy now) s)"
  by (rule gui_ok [where fuzzy = fuzzy and now = now]) simp_all

lemma clock_step_ok: "clock_ok time_of s \<Longrightarrow> clock_ok time_of (clock_step fuzzy time_of e s)"
  by (cases e) (auto simp: tick_ok continue_ok stop_ok deliver_ok initialize_ok announce_ok subscribe_ok load_ok refresh_start_ok
      split: list.split option.split, simp_all add: clock_ok_def history_stop_def)

lemma new_model_ok:
  assumes "new_BlockClockModel fuzzy now new_history = (h, c)"
  shows "follows h c" "\<not> h_initialized h" "h_blocks h = []" "h_pending h = []" "\<not> h_stopped h"
proof -
  obtain h1 c1 where u: "updateCurrentTime fuzzy now (new_history, new_clock) = (h1, c1)" by fastforce
  have n: "h_initialized new_history = False" "h_stopped new_history = False" "h_blocks new_history = []" "h_pending new_history = []"
    by (simp_all add: new_history_def)
  have r: "\<not> h_initialized h1" "\<not> h_stopped h1" "h_blocks h1 = []" "h_pending h1 = []" "c_cached c1 = []" "dial_ok c1"
      "\<not> c_refresh_pending c1" "c_gui c1 = Gui_idle"
  proof -
    have "\<not> h_initialized h1 \<and> \<not> h_stopped h1 \<and> h_blocks h1 = [] \<and> h_pending h1 = [] \<and> c_cached c1 = [] \<and> dial_ok c1 \<and>
        \<not> c_refresh_pending c1 \<and> c_gui c1 = Gui_idle" (is ?all)
    proof (cases "PeriodStartFor now = 0")
    case True
    then have "h1 = new_history" "c1 = update_hand fuzzy now new_clock" using u by (simp_all add: updateCurrentTime_def begin_eq new_clock_def)
    then show ?all using n by (simp add: dial_ok_def new_clock_def)
  next
    case False
    let ?h = "setRetentionStart (PeriodStartFor now - PERIOD_SECONDS) new_history" let ?c = "new_clock\<lparr>c_period_start := PeriodStartFor now\<rparr>"
    have p: "pull ?h ?c = ?c" by (simp add: pull_def takeSnapshot_def n)
    have "h1 = snd (takeSnapshot ?h)" "c1 = update_hand fuzzy now (replaceBlockHistory (c_cached ?c) True ?c)"
    proof -
      have "c_period_start new_clock \<noteq> PeriodStartFor now" "\<not> c_stopped new_clock" using False by (simp_all add: new_clock_def)
      then have "updateCurrentTime fuzzy now (new_history, new_clock) =
          (snd (takeSnapshot ?h), update_hand fuzzy now (replaceBlockHistory (c_cached (pull ?h ?c)) True (pull ?h ?c)))"
        by (simp add: updateCurrentTime_def begin_eq take_eq)
      then show "h1 = snd (takeSnapshot ?h)" "c1 = update_hand fuzzy now (replaceBlockHistory (c_cached ?c) True ?c)"
        using u unfolding p by simp_all
    qed
    moreover have "dial_ok (replaceBlockHistory (c_cached ?c) True ?c)" by (rule replace_ok) simp
    then have "dial_ok (update_hand fuzzy now (replaceBlockHistory (c_cached ?c) True ?c))" by (simp add: dial_ok_def)
    ultimately show ?all using n by (simp add: setRetentionStart_def new_clock_def)
    qed
    then show "\<not> h_initialized h1" "\<not> h_stopped h1" "h_blocks h1 = []" "h_pending h1 = []" "c_cached c1 = []" "dial_ok c1"
      "\<not> c_refresh_pending c1" "c_gui c1 = Gui_idle" by blast+
  qed
  have "h = h1\<lparr>h_changed := True\<rparr>" "c = c1" using assms u r by (auto simp: new_BlockClockModel_def setChangedCallback_def scheduled_def)
  with r show "follows h c" "\<not> h_initialized h" "h_blocks h = []" "h_pending h = []" "\<not> h_stopped h"
    by (simp_all add: follows_def fresh_def woken_def posted_def)
qed

lemma new_clock_sys_ok: "distinct ks \<Longrightarrow> clock_ok time_of (new_clock_sys fuzzy now ks)"
proof -
  obtain h c where r: "new_BlockClockModel fuzzy now new_history = (h, c)" by fastforce
  note n = new_model_ok [OF r]
  assume "distinct ks"
  with n show ?thesis
    by (auto simp: new_clock_sys_def r clock_ok_def tracks_def timed_def timed_pending_def base_def)
qed

lemma clock_run_ok: "clock_ok time_of s \<Longrightarrow> clock_ok time_of (clock_run fuzzy time_of es s)"
  unfolding clock_run_def by (induction es arbitrary: s) (simp_all add: clock_step_ok)

section \<open>Properties\<close>

text \<open>
  the initial snapshot is complete. Walking back from the anchor until the largest time so far is
  older than the retention start, which looks at no more blocks than there are, collects exactly the
  blocks not older than that, although block times are not monotonic; it is abandoned only when a
  shutdown is requested.
\<close>

theorem snapshot_complete:
  assumes "distinct (map fst ancestors)"
  shows "(\<forall>bs. load_snapshot r shut ancestors = Some bs \<longrightarrow>
       set bs = {(k, t) \<in> set ancestors. t \<ge> r} \<and> distinct (map fst bs)) \<and>
     ((\<forall>n. \<not> shut n) \<longrightarrow> load_snapshot r shut ancestors \<noteq> None)"
  using load_loop_set [of ancestors "[]" r shut 0] assms load_loop_returns [of shut r 0 ancestors "[]"]
  by (auto simp: load_snapshot_def)

theorem snapshot_complete_witness:
  "load_snapshot 50 (\<lambda>n. False) [(5, 70), (4, 40), (3, 60), (2, 45), (1, 49)] = Some [(3, 60), (5, 70)] \<and>
   set [(3, 60), (5, 70)] = {(k, t) \<in> set [(5, 70), (4, 40), (3, 60), (2, 45), (1 :: nat, 49 :: int)]. t \<ge> 50}"
proof -
  have c: "load_snapshot 50 (\<lambda>n. False) [(5, 70), (4, 40), (3, 60), (2, 45), (1, 49)] = Some [(3, 60), (5, 70)]" by code_simp
  have "distinct (map fst [(5, 70), (4, 40), (3, 60), (2, 45), (1 :: nat, 49 :: int)])" by simp
  from snapshot_complete [OF this, of 50 "\<lambda>n. False"] c show ?thesis by blast
qed

text \<open>
  C5: the dial shows the active chain. In every interleaving of the chain's changes, the subscription,
  the loading and installing of the snapshot, the delivery of notifications, clock ticks and refreshes, in which the other threads may also
  come in between the operations of a task on the GUI thread: once the snapshot is installed and all notifications and tasks have been
  handled, the shown timestamps are those of the blocks of the active chain in the shown half day,
  sorted and with equal times kept. The clock may go back, but not so far that blocks of the half day shown have been
  discarded: no retention start so far lies after its beginning.
\<close>

theorem block_clock_shows_chain:
  assumes "distinct ks" and s: "s = clock_run fuzzy time_of es (new_clock_sys fuzzy now ks)"
    and "\<not> h_stopped (cache s)" "\<not> c_stopped (clock s)" "h_initialized (cache s)"
    and "notifications s = []" "c_posted (clock s) = 0" "c_gui (clock s) = Gui_idle"
    and "max_retention s \<le> c_period_start (clock s)"
  shows "c_block_timestamps (clock s) =
     sort (map time_of (filter (\<lambda>k. in_period (c_period_start (clock s)) (time_of k)) (chain s)))"
proof -
  let ?P = "in_period (c_period_start (clock s))" let ?bs = "h_blocks (cache s)"
  have "clock_ok time_of s" unfolding s by (rule clock_run_ok [OF new_clock_sys_ok [OF assms(1)]])
  then have t: "sys_tracks time_of s" and f: "follows (cache s) (clock s)" using assms(3,4) by (simp_all add: clock_ok_def)
  have d: "distinct (chain s)" "timed time_of ?bs" using t by (simp_all add: tracks_def)
  have "x \<in> fst ` set ?bs \<longleftrightarrow> x \<in> set (chain s)" if "?P (time_of x)" for x
  proof -
    have "max_retention s \<le> time_of x" "h_pending (cache s) = []" using that assms(5,9) t by (auto simp: in_period_def tracks_def)
    with t assms(5,6) show ?thesis by (simp add: tracks_def base_def)
  qed
  then have "set (filter (\<lambda>k. ?P (time_of k)) (map fst ?bs)) = set (filter (\<lambda>k. ?P (time_of k)) (chain s))" unfolding set_filter set_map by blast
  moreover have "distinct (filter (\<lambda>k. ?P (time_of k)) (map fst ?bs))" "distinct (filter (\<lambda>k. ?P (time_of k)) (chain s))"
    using d by (simp_all add: timed_def)
  ultimately have m: "mset (filter (\<lambda>k. ?P (time_of k)) (map fst ?bs)) = mset (filter (\<lambda>k. ?P (time_of k)) (chain s))"
    by (metis set_eq_iff_mset_eq_distinct)
  have v: "map snd ?bs = map time_of (map fst ?bs)" using d(2) by (auto simp: timed_def)
  have "\<not> h_dirty (cache s)" using f assms(5,7,8) by (auto simp: follows_def woken_def posted_def)
  then have "mset (c_cached (clock s)) = mset (map snd ?bs)" using f assms(5) by (simp add: follows_def fresh_def)
  then have "mset (filter ?P (c_cached (clock s))) = mset (filter ?P (map time_of (map fst ?bs)))"
    unfolding v by (simp only: mset_filter)
  also have "\<dots> = mset (map time_of (filter (\<lambda>k. ?P (time_of k)) (map fst ?bs)))" unfolding filter_map [of ?P time_of] comp_def ..
  also have "\<dots> = mset (map time_of (filter (\<lambda>k. ?P (time_of k)) (chain s)))" using m by (simp only: mset_map)
  finally have "sort (filter ?P (c_cached (clock s))) = sort (map time_of (filter (\<lambda>k. ?P (time_of k)) (chain s)))"
    by (metis properties_for_sort mset_sort sorted_sort)
  moreover have "c_block_timestamps (clock s) = sort (filter ?P (c_cached (clock s)))"
    using f assms(8) by (simp add: follows_def dial_ok_def filter_sort)
  ultimately show ?thesis by simp
qed

definition sample_now :: qtime where
  "sample_now = \<lparr>toSecsSinceEpoch = 100000, msecsSinceStartOfDay = 0\<rparr>"

definition sample_time :: "nat \<Rightarrow> int" where
  "sample_time k = (if k = 1 then 50000 else if k > 20 then 143300 else 100000 + 10 * int (k mod 4))"

text \<open>The second half day begins during a refresh, and a notification arrives between the operations of the refresh.\<close>

definition sample_later :: qtime where
  "sample_later = \<lparr>toSecsSinceEpoch = 143210, msecsSinceStartOfDay = 43210000\<rparr>"

definition sample_clock :: clock_sys where
  "sample_clock = clock_run (=) sample_time
     [Subscribe, ChainConnect 3, LoadSnapshot (\<lambda>n. False), ChainDisconnect, ChainConnect 6, Deliver, Initialize, Deliver, Deliver,
      ChainConnect 21, RefreshStart, GuiContinue sample_later, GuiContinue sample_later, Deliver, GuiContinue sample_later,
      RefreshStart, GuiContinue sample_later, GuiContinue sample_later] (new_clock_sys (=) sample_now [2, 1])"

theorem block_clock_shows_chain_witness:
  "c_block_timestamps (clock sample_clock) = [143300] \<and>
   c_block_timestamps (clock sample_clock) =
     sort (map sample_time (filter (\<lambda>k. in_period (c_period_start (clock sample_clock)) (sample_time k)) (chain sample_clock)))"
proof -
  have c: "\<not> h_stopped (cache sample_clock)" "\<not> c_stopped (clock sample_clock)" "h_initialized (cache sample_clock)"
    "notifications sample_clock = []" "c_posted (clock sample_clock) = 0" "c_gui (clock sample_clock) = Gui_idle"
    "max_retention sample_clock \<le> c_period_start (clock sample_clock)" by code_simp+
  have "c_block_timestamps (clock sample_clock) = [143300]" by code_simp
  moreover have "distinct [2, 1 :: nat]" by simp
  note block_clock_shows_chain [OF this sample_clock_def c]
  ultimately show ?thesis by blast
qed

end
