(* ===== verification/Requests.thy ===== *)
theory Requests
  imports Ordering Units
begin

text \<open>
  \<open>src/qml/models/receiverequesthistorymodel.{h,cpp}\<close> and \<open>receiverequestentry.h\<close>: the list of receive
  requests with its two indexes, the stored form of a request and the payment URI of a request.

  A \<open>std::string\<close> is a list of bytes; its conversion to a \<open>QString\<close>, percent-encoding and date texts are the
  functions of the record \<open>request_env\<close>. The stream operators of Bitcoin Core are the functions of the
  record \<open>codec\<close>: writers that return bytes and readers that return a value and the rest, or \<open>None\<close>
  for the exception on malformed data.
\<close>

section \<open>Definitions\<close>

record QmlReceiveRequestRecipient =
  rr_version :: int
  rr_address :: bytes
  rr_label :: bytes
  rr_amount :: int
  rr_message :: bytes
  rr_sPaymentRequest :: bytes
  rr_authenticatedMerchant :: bytes
  rr_noteSelf :: bytes

record QmlRecentRequestEntry =
  re_version :: int
  re_id :: int
  re_date :: int
  re_recipient :: QmlReceiveRequestRecipient
  re_payment_received :: bool

definition default_entry :: QmlRecentRequestEntry where
  "default_entry = \<lparr>re_version = 1, re_id = 0, re_date = 0, re_recipient = \<lparr>rr_version = 1, rr_address = [], rr_label = [],
     rr_amount = 0, rr_message = [], rr_sPaymentRequest = [], rr_authenticatedMerchant = [], rr_noteSelf = []\<rparr>,
     re_payment_received = False\<rparr>"

record request_env =
  fromStdString :: "bytes \<Rightarrow> qstring"
  toPercentEncoding :: "qstring \<Rightarrow> qstring"
  local_date_text :: "int \<Rightarrow> qstring"
  utc_date_text :: "int \<Rightarrow> qstring"

subsection \<open>The stored form\<close>

record codec =
  put_i32 :: "int \<Rightarrow> bytes"
  get_i32 :: "bytes \<Rightarrow> (int \<times> bytes) option"
  put_u32 :: "int \<Rightarrow> bytes"
  get_u32 :: "bytes \<Rightarrow> (int \<times> bytes) option"
  put_i64 :: "int \<Rightarrow> bytes"
  get_i64 :: "bytes \<Rightarrow> (int \<times> bytes) option"
  put_str :: "bytes \<Rightarrow> bytes"
  get_str :: "bytes \<Rightarrow> (bytes \<times> bytes) option"
  put_bool :: "bool \<Rightarrow> bytes"
  get_bool :: "bytes \<Rightarrow> (bool \<times> bytes) option"

definition write_recipient :: "codec \<Rightarrow> QmlReceiveRequestRecipient \<Rightarrow> bytes" where
  "write_recipient cd r = put_i32 cd (rr_version r) @ put_str cd (rr_address r) @ put_str cd (rr_label r) @
     put_i64 cd (rr_amount r) @ put_str cd (rr_message r) @ put_str cd (rr_sPaymentRequest r) @
     put_str cd (rr_authenticatedMerchant r)"

definition read_recipient :: "codec \<Rightarrow> bytes \<Rightarrow> (QmlReceiveRequestRecipient \<times> bytes) option" where
  "read_recipient cd s = do {
     (ver, s) \<leftarrow> get_i32 cd s;
     (address, s) \<leftarrow> get_str cd s;
     (label, s) \<leftarrow> get_str cd s;
     (amount, s) \<leftarrow> get_i64 cd s;
     (message, s) \<leftarrow> get_str cd s;
     (request, s) \<leftarrow> get_str cd s;
     (merchant, s) \<leftarrow> get_str cd s;
     Some (\<lparr>rr_version = ver, rr_address = address, rr_label = label, rr_amount = amount, rr_message = message,
            rr_sPaymentRequest = request, rr_authenticatedMerchant = merchant, rr_noteSelf = []\<rparr>, s)
   }"

text \<open>
  A date (\<open>QDateTime\<close>) is its number of milliseconds since the epoch. It is written as an unsigned 32-bit
  number of whole seconds; \<open>toSecsSinceEpoch\<close> divides as C++ does, towards zero.
\<close>

definition toSecsSinceEpoch :: "int \<Rightarrow> int" where
  "toSecsSinceEpoch msecs = (if msecs < 0 then - (- msecs div 1000) else msecs div 1000)"

definition fromSecsSinceEpoch :: "int \<Rightarrow> int" where
  "fromSecsSinceEpoch secs = secs * 1000"

definition write_entry :: "codec \<Rightarrow> QmlRecentRequestEntry \<Rightarrow> bytes" where
  "write_entry cd e = put_i32 cd (re_version e) @ put_i64 cd (re_id e) @ put_u32 cd (toSecsSinceEpoch (re_date e) mod 2 ^ 32) @
     write_recipient cd (re_recipient e)"

definition read_entry :: "codec \<Rightarrow> bytes \<Rightarrow> (QmlRecentRequestEntry \<times> bytes) option" where
  "read_entry cd s = do {
     (ver, s) \<leftarrow> get_i32 cd s;
     (id, s) \<leftarrow> get_i64 cd s;
     (date, s) \<leftarrow> get_u32 cd s;
     (recipient, s) \<leftarrow> read_recipient cd s;
     Some (\<lparr>re_version = ver, re_id = id, re_date = fromSecsSinceEpoch date, re_recipient = recipient, re_payment_received = False\<rparr>, s)
   }"

definition SerializeEntry :: "codec \<Rightarrow> QmlRecentRequestEntry \<Rightarrow> bytes" where
  "SerializeEntry cd e = write_entry cd e @
     (if rr_noteSelf (re_recipient e) \<noteq> [] \<or> re_payment_received e
      then put_str cd (rr_noteSelf (re_recipient e)) @ (if re_payment_received e then put_bool cd (re_payment_received e) else [])
      else [])"

definition DeserializeEntry :: "codec \<Rightarrow> bytes \<Rightarrow> QmlRecentRequestEntry option" where
  "DeserializeEntry cd blob = do {
     (e, s) \<leftarrow> read_entry cd blob;
     if s = [] then Some e
     else do {
       (noteSelf, s) \<leftarrow> get_str cd s;
       let e = e\<lparr>re_recipient := (re_recipient e)\<lparr>rr_noteSelf := noteSelf\<rparr>\<rparr>;
       if s = [] then Some e
       else do {
         (received, s) \<leftarrow> get_bool cd s;
         Some (e\<lparr>re_payment_received := received\<rparr>)
       }
     }
   }"

definition DeserializeEntries :: "codec \<Rightarrow> bytes list \<Rightarrow> QmlRecentRequestEntry list" where
  "DeserializeEntries cd blobs = List.map_filter (DeserializeEntry cd) blobs"

subsection \<open>The payment URI\<close>

definition FormatAmountBtc :: "int \<Rightarrow> qstring option" where
  "FormatAmountBtc amount_sats = (if amount_sats \<le> 0 then Some [] else format QBTC amount_sats False NEVER)"

fun join :: "qstring \<Rightarrow> qstring list \<Rightarrow> qstring" where
  "join sep [] = []"
| "join sep [p] = p"
| "join sep (p # p' # ps) = p @ sep @ join sep (p' # ps)"

definition uri_params :: "(qstring \<Rightarrow> qstring) \<Rightarrow> qstring \<Rightarrow> int \<Rightarrow> qstring \<Rightarrow> qstring \<Rightarrow> qstring list" where
  "uri_params encode amount_str amount_sats label message =
     (if amount_sats > 0 \<and> amount_str \<noteq> [] then [q ''amount='' @ amount_str] else []) @
     (if label \<noteq> [] then [q ''label='' @ encode label] else []) @
     (if message \<noteq> [] then [q ''message='' @ encode message] else [])"

definition BuildBitcoinUri :: "(qstring \<Rightarrow> qstring) \<Rightarrow> qstring \<Rightarrow> int \<Rightarrow> qstring \<Rightarrow> qstring \<Rightarrow> qstring option" where
  "BuildBitcoinUri encode address amount_sats label message =
     (if address = [] then Some []
      else do {
        amount_str \<leftarrow> FormatAmountBtc amount_sats;
        let params = uri_params encode amount_str amount_sats label message;
        Some (q ''bitcoin:'' @ address @ (if params \<noteq> [] then q ''?'' @ join (q ''&'') params else []))
      })"

subsection \<open>The list\<close>

record RequestHistory =
  rh_entries :: "QmlRecentRequestEntry list"
  rh_row_by_id :: "int \<rightharpoonup> nat"
  rh_ids_by_address :: "qstring \<rightharpoonup> int list"

definition new_RequestHistory :: RequestHistory where
  "new_RequestHistory = \<lparr>rh_entries = [], rh_row_by_id = Map.empty, rh_ids_by_address = Map.empty\<rparr>"

datatype RequestRole = RIdRole | RDateRole | RDateIsoRole | RAddressRole | RAddressShortRole | RLabelRole | RMessageRole
  | RNoteSelfRole | RAmountSatRole | RAmountDisplayRole | RUriRole

datatype request_value = RText qstring | RInt int

definition dataForEntry :: "request_env \<Rightarrow> QmlRecentRequestEntry \<Rightarrow> RequestRole \<Rightarrow> request_value option" where
  "dataForEntry env e role =
     (let r = re_recipient e; s = fromStdString env in
      case role of
        RIdRole \<Rightarrow> Some (RText (number (re_id e)))
      | RDateRole \<Rightarrow> Some (RText (local_date_text env (re_date e)))
      | RDateIsoRole \<Rightarrow> Some (RText (utc_date_text env (re_date e)))
      | RAddressRole \<Rightarrow> Some (RText (s (rr_address r)))
      | RAddressShortRole \<Rightarrow>
          (let addr = s (rr_address r)
           in Some (RText (if length addr \<le> 16 then addr else take 8 addr @ [8230] @ drop (length addr - 6) addr)))
      | RLabelRole \<Rightarrow> Some (RText (s (rr_label r)))
      | RMessageRole \<Rightarrow> Some (RText (s (rr_message r)))
      | RNoteSelfRole \<Rightarrow> Some (RText (s (rr_noteSelf r)))
      | RAmountSatRole \<Rightarrow> Some (RInt (rr_amount r))
      | RAmountDisplayRole \<Rightarrow> map_option RText (FormatAmountBtc (rr_amount r))
      | RUriRole \<Rightarrow>
          (if re_payment_received e then Some (RText [])
           else map_option RText (BuildBitcoinUri (toPercentEncoding env) (s (rr_address r)) (rr_amount r) (s (rr_label r)) (s (rr_message r)))))"

definition requests_data :: "request_env \<Rightarrow> RequestHistory \<Rightarrow> int \<Rightarrow> RequestRole \<Rightarrow> request_value option" where
  "requests_data env h row role =
     (if row < 0 \<or> row \<ge> int (length (rh_entries h)) then None else dataForEntry env (rh_entries h ! nat row) role)"

text \<open>The map of an entry: its roles by name, and whether a payment was received.\<close>

definition entryMap :: "request_env \<Rightarrow> QmlRecentRequestEntry \<Rightarrow> (string \<times> request_value option) list \<times> bool" where
  "entryMap env e =
     ([(''requestId'', dataForEntry env e RIdRole), (''date'', dataForEntry env e RDateRole),
       (''dateIso'', dataForEntry env e RDateIsoRole), (''address'', dataForEntry env e RAddressRole),
       (''addressShort'', dataForEntry env e RAddressShortRole), (''label'', dataForEntry env e RLabelRole),
       (''message'', dataForEntry env e RMessageRole), (''noteSelf'', dataForEntry env e RNoteSelfRole),
       (''amountSat'', dataForEntry env e RAmountSatRole), (''amountDisplay'', dataForEntry env e RAmountDisplayRole),
       (''uri'', dataForEntry env e RUriRole)],
      re_payment_received e)"

definition indexOfId :: "RequestHistory \<Rightarrow> int \<Rightarrow> int" where
  "indexOfId h i = (case rh_row_by_id h i of None \<Rightarrow> -1 | Some row \<Rightarrow> int row)"

fun index_loop :: "request_env \<Rightarrow> nat \<Rightarrow> QmlRecentRequestEntry list \<Rightarrow>
    (int \<rightharpoonup> nat) \<times> (qstring \<rightharpoonup> int list) \<Rightarrow> (int \<rightharpoonup> nat) \<times> (qstring \<rightharpoonup> int list)" where
  "index_loop env row [] ix = ix"
| "index_loop env row (e # es) (rows, ids) =
     (let a = fromStdString env (rr_address (re_recipient e))
      in index_loop env (row + 1) es
           (rows(re_id e \<mapsto> row), ids(a \<mapsto> (case ids a of None \<Rightarrow> [] | Some l \<Rightarrow> l) @ [re_id e])))"

definition rebuildIndex :: "request_env \<Rightarrow> RequestHistory \<Rightarrow> RequestHistory" where
  "rebuildIndex env h =
     (let (rows, ids) = index_loop env 0 (rh_entries h) (Map.empty, Map.empty)
      in h\<lparr>rh_row_by_id := rows, rh_ids_by_address := ids\<rparr>)"

definition newer :: "QmlRecentRequestEntry \<Rightarrow> QmlRecentRequestEntry \<Rightarrow> bool" where
  "newer a b = (if re_date a \<noteq> re_date b then re_date a > re_date b else re_id a > re_id b)"

definition setEntries :: "request_env \<Rightarrow> QmlRecentRequestEntry list \<Rightarrow> RequestHistory \<Rightarrow> RequestHistory" where
  "setEntries env entries h = rebuildIndex env (h\<lparr>rh_entries := sort_by newer entries\<rparr>)"

definition prependOrReplace :: "request_env \<Rightarrow> QmlRecentRequestEntry \<Rightarrow> RequestHistory \<Rightarrow> RequestHistory" where
  "prependOrReplace env e h =
     (let existing = indexOfId h (re_id e)
      in if existing \<ge> 0 then
           let row = nat existing;
               address_changed = (rr_address (re_recipient (rh_entries h ! row)) \<noteq> rr_address (re_recipient e));
               h1 = h\<lparr>rh_entries := (rh_entries h)[row := e]\<rparr>
           in if address_changed then rebuildIndex env h1 else h1
         else rebuildIndex env (h\<lparr>rh_entries := e # rh_entries h\<rparr>))"

text \<open>\<open>toLongLong(&ok)\<close>: \<open>None\<close> when the text is not a number.\<close>

definition parseLongLong :: "qstring \<Rightarrow> int option" where
  "parseLongLong s =
     (let t = trimmed s;
          neg = (t \<noteq> [] \<and> hd t = 45);
          body = (if t \<noteq> [] \<and> (hd t = 45 \<or> hd t = 43) then tl t else t);
          v = (if neg then - int (dec_value body) else int (dec_value body))
      in if body \<noteq> [] \<and> list_all is_digit body \<and> in_i64 v then Some v else None)"

definition removeByRequestId :: "request_env \<Rightarrow> qstring \<Rightarrow> RequestHistory \<Rightarrow> bool \<times> RequestHistory" where
  "removeByRequestId env request_id h =
     (case parseLongLong request_id of
        None \<Rightarrow> (False, h)
      | Some i \<Rightarrow>
          let row = indexOfId h i
          in if row < 0 then (False, h)
             else (True, rebuildIndex env (h\<lparr>rh_entries := take (nat row) (rh_entries h) @ drop (nat row + 1) (rh_entries h)\<rparr>)))"

definition ids_for :: "RequestHistory \<Rightarrow> qstring \<Rightarrow> int list" where
  "ids_for h address = (case rh_ids_by_address h address of None \<Rightarrow> [] | Some l \<Rightarrow> l)"

definition entriesForAddress :: "RequestHistory \<Rightarrow> qstring \<Rightarrow> QmlRecentRequestEntry list" where
  "entriesForAddress h address =
     (if address = [] then [] else map (\<lambda>i. rh_entries h ! nat (indexOfId h i)) (ids_for h address))"

definition matchingEntriesForAddress :: "request_env \<Rightarrow> RequestHistory \<Rightarrow> qstring \<Rightarrow> ((string \<times> request_value option) list \<times> bool) list" where
  "matchingEntriesForAddress env h address =
     (if address = [] then [] else map (\<lambda>i. entryMap env (rh_entries h ! nat (indexOfId h i))) (ids_for h address))"

definition requestAddresses :: "RequestHistory \<Rightarrow> qstring set" where
  "requestAddresses h = dom (rh_ids_by_address h)"

definition entryById :: "RequestHistory \<Rightarrow> qstring \<Rightarrow> QmlRecentRequestEntry option" where
  "entryById h request_id =
     (case parseLongLong request_id of
        None \<Rightarrow> None
      | Some i \<Rightarrow> let row = indexOfId h i in if row < 0 then None else Some (rh_entries h ! nat row))"

definition maxId :: "RequestHistory \<Rightarrow> int" where
  "maxId h = fold (\<lambda>e max_id. if re_id e > max_id then re_id e else max_id) (rh_entries h) 0"

datatype request_op = SetEntries "QmlRecentRequestEntry list" | PrependOrReplace QmlRecentRequestEntry | RemoveById qstring

fun request_step :: "request_env \<Rightarrow> request_op \<Rightarrow> RequestHistory \<Rightarrow> RequestHistory" where
  "request_step env (SetEntries es) h = setEntries env es h"
| "request_step env (PrependOrReplace e) h = prependOrReplace env e h"
| "request_step env (RemoveById s) h = snd (removeByRequestId env s h)"

definition request_run :: "request_env \<Rightarrow> request_op list \<Rightarrow> RequestHistory \<Rightarrow> RequestHistory" where
  "request_run env ops h = fold (request_step env) ops h"

section \<open>Reading what was stored\<close>

text \<open>
  What the stream operators promise: fixed-width integers, strings up to the size limit of the stream
  and booleans are read back with the rest of the data untouched, and strings and booleans take space.
\<close>

definition MAX_SIZE :: nat where "MAX_SIZE = 33554432"

definition codec_ok :: "codec \<Rightarrow> bool" where
  "codec_ok cd \<longleftrightarrow>
     (\<forall>x r. - (2 ^ 31) \<le> x \<and> x < 2 ^ 31 \<longrightarrow> get_i32 cd (put_i32 cd x @ r) = Some (x, r)) \<and>
     (\<forall>x r. 0 \<le> x \<and> x < 2 ^ 32 \<longrightarrow> get_u32 cd (put_u32 cd x @ r) = Some (x, r)) \<and>
     (\<forall>x r. in_i64 x \<longrightarrow> get_i64 cd (put_i64 cd x @ r) = Some (x, r)) \<and>
     (\<forall>x r. length x \<le> MAX_SIZE \<longrightarrow> get_str cd (put_str cd x @ r) = Some (x, r)) \<and>
     (\<forall>x r. get_bool cd (put_bool cd x @ r) = Some (x, r)) \<and>
     (\<forall>x. put_str cd x \<noteq> []) \<and> (\<forall>x. put_bool cd x \<noteq> [])"

definition storable :: "QmlRecentRequestEntry \<Rightarrow> bool" where
  "storable e \<longleftrightarrow> - (2 ^ 31) \<le> re_version e \<and> re_version e < 2 ^ 31 \<and> in_i64 (re_id e) \<and> 0 \<le> re_date e \<and> re_date e < 1000 * 2 ^ 32 \<and>
     - (2 ^ 31) \<le> rr_version (re_recipient e) \<and> rr_version (re_recipient e) < 2 ^ 31 \<and> in_i64 (rr_amount (re_recipient e)) \<and>
     length (rr_address (re_recipient e)) \<le> MAX_SIZE \<and> length (rr_label (re_recipient e)) \<le> MAX_SIZE \<and>
     length (rr_message (re_recipient e)) \<le> MAX_SIZE \<and> length (rr_sPaymentRequest (re_recipient e)) \<le> MAX_SIZE \<and>
     length (rr_authenticatedMerchant (re_recipient e)) \<le> MAX_SIZE \<and> length (rr_noteSelf (re_recipient e)) \<le> MAX_SIZE"

lemma codec_simps:
  assumes "codec_ok cd"
  shows "- (2 ^ 31) \<le> i \<Longrightarrow> i < 2 ^ 31 \<Longrightarrow> get_i32 cd (put_i32 cd i @ r) = Some (i, r)"
    "0 \<le> i \<Longrightarrow> i < 2 ^ 32 \<Longrightarrow> get_u32 cd (put_u32 cd i @ r) = Some (i, r)"
    "in_i64 i \<Longrightarrow> get_i64 cd (put_i64 cd i @ r) = Some (i, r)"
    "length s \<le> MAX_SIZE \<Longrightarrow> get_str cd (put_str cd s @ r) = Some (s, r)"
    "get_bool cd (put_bool cd b @ r) = Some (b, r)" "put_str cd s \<noteq> []" "put_bool cd b \<noteq> []"
  using assms unfolding codec_ok_def by blast+

lemma read_write_recipient:
  assumes "codec_ok cd" "storable e"
  shows "read_recipient cd (write_recipient cd (re_recipient e) @ r) = Some ((re_recipient e)\<lparr>rr_noteSelf := []\<rparr>, r)"
  using assms(2) by (simp add: read_recipient_def write_recipient_def codec_simps [OF assms(1)] storable_def)

text \<open>What is kept of an entry: its date to the second.\<close>

definition whole_seconds :: "QmlRecentRequestEntry \<Rightarrow> QmlRecentRequestEntry" where
  "whole_seconds e = e\<lparr>re_date := 1000 * (re_date e div 1000)\<rparr>"

lemma secs_storable:
  assumes "storable e"
  shows "0 \<le> toSecsSinceEpoch (re_date e)" "toSecsSinceEpoch (re_date e) < 2 ^ 32"
    "fromSecsSinceEpoch (toSecsSinceEpoch (re_date e)) = 1000 * (re_date e div 1000)"
  using assms by (auto simp: storable_def toSecsSinceEpoch_def fromSecsSinceEpoch_def)

lemma Serialize_whole_seconds: "storable e \<Longrightarrow> SerializeEntry cd (whole_seconds e) = SerializeEntry cd e"
  by (simp add: SerializeEntry_def write_entry_def whole_seconds_def toSecsSinceEpoch_def storable_def)

lemma read_write_entry:
  assumes "codec_ok cd" "storable e"
  shows "read_entry cd (write_entry cd e @ r) =
     Some ((whole_seconds e)\<lparr>re_recipient := (re_recipient e)\<lparr>rr_noteSelf := []\<rparr>, re_payment_received := False\<rparr>, r)"
proof -
  note s = secs_storable [OF assms(2)]
  have "toSecsSinceEpoch (re_date e) mod 2 ^ 32 = toSecsSinceEpoch (re_date e)" using s(1,2) by simp
  then show ?thesis using assms(2)
    by (simp add: read_entry_def write_entry_def read_write_recipient [OF assms] s whole_seconds_def
        codec_simps(2) [OF assms(1) s(1,2)] codec_simps(1,3) [OF assms(1)] storable_def)
qed

lemma Deserialize_Serialize:
  assumes "codec_ok cd" "storable e"
  shows "DeserializeEntry cd (SerializeEntry cd e) = Some (whole_seconds e)"
proof -
  have n: "length (rr_noteSelf (re_recipient e)) \<le> MAX_SIZE" using assms(2) by (simp add: storable_def)
  note w = read_write_entry [OF assms] read_write_entry [OF assms, of "[]", simplified]
  note c = codec_simps [OF assms(1)] codec_simps(4) [OF assms(1) n, of "[]", simplified] codec_simps(5) [OF assms(1), of _ "[]", simplified]
  show ?thesis
  proof (cases "re_payment_received e")
    case True
    then show ?thesis using n by (simp add: DeserializeEntry_def SerializeEntry_def whole_seconds_def w c)
  next
    case False
    then show ?thesis using n by (cases "rr_noteSelf (re_recipient e) = []") (simp_all add: DeserializeEntry_def SerializeEntry_def whole_seconds_def w c)
  qed
qed

section \<open>The indexes\<close>

definition entry_address :: "request_env \<Rightarrow> QmlRecentRequestEntry \<Rightarrow> qstring" where
  "entry_address env e = fromStdString env (rr_address (re_recipient e))"

definition ids_at :: "request_env \<Rightarrow> QmlRecentRequestEntry list \<Rightarrow> qstring \<Rightarrow> int list" where
  "ids_at env es a = map re_id (filter (\<lambda>e. entry_address env e = a) es)"

lemma index_loop_rows:
  "distinct (map re_id es) \<Longrightarrow>
   fst (index_loop env row es (rows, ids)) i = Some k \<longleftrightarrow>
     (\<exists>j < length es. re_id (es ! j) = i \<and> k = row + j) \<or> (i \<notin> re_id ` set es \<and> rows i = Some k)"
proof (induction es arbitrary: row rows ids)
  case (Cons e es)
  have "(\<exists>j < length (e # es). re_id ((e # es) ! j) = i \<and> k = row + j) \<longleftrightarrow>
      re_id e = i \<and> k = row \<or> (\<exists>j < length es. re_id (es ! j) = i \<and> k = Suc row + j)"
    by (auto simp: less_Suc_eq_0_disj)
  with Cons show ?case by (auto simp: Let_def)
qed simp

lemma index_loop_ids:
  "snd (index_loop env row es (rows, ids)) a =
     (if ids_at env es a = [] then ids a else Some ((case ids a of None \<Rightarrow> [] | Some l \<Rightarrow> l) @ ids_at env es a))"
  by (induction es arbitrary: row rows ids) (auto simp: Let_def ids_at_def entry_address_def split: option.split)

definition indexed :: "request_env \<Rightarrow> RequestHistory \<Rightarrow> bool" where
  "indexed env h \<longleftrightarrow> distinct (map re_id (rh_entries h)) \<and>
     (\<forall>i k. rh_row_by_id h i = Some k \<longleftrightarrow> k < length (rh_entries h) \<and> re_id (rh_entries h ! k) = i) \<and>
     (\<forall>a. rh_ids_by_address h a = (if ids_at env (rh_entries h) a = [] then None else Some (ids_at env (rh_entries h) a)))"

lemma rebuild_indexed: "distinct (map re_id (rh_entries h)) \<Longrightarrow> indexed env (rebuildIndex env h)"
  by (auto simp: indexed_def rebuildIndex_def case_prod_beta Let_def index_loop_rows index_loop_ids)

lemma rebuild_entries [simp]: "rh_entries (rebuildIndex env h) = rh_entries h"
  by (simp add: rebuildIndex_def case_prod_beta Let_def)

lemma indexed_find:
  assumes "indexed env h"
  shows "(indexOfId h i < 0 \<longleftrightarrow> i \<notin> re_id ` set (rh_entries h)) \<and>
     (\<not> indexOfId h i < 0 \<longrightarrow> nat (indexOfId h i) < length (rh_entries h) \<and> re_id (rh_entries h ! nat (indexOfId h i)) = i)"
proof (cases "rh_row_by_id h i")
  case None
  then have "\<not> (k < length (rh_entries h) \<and> re_id (rh_entries h ! k) = i)" for k using assms by (metis indexed_def option.distinct(1))
  then have "i \<notin> re_id ` set (rh_entries h)" by (metis imageE in_set_conv_nth)
  with None show ?thesis by (simp add: indexOfId_def)
next
  case (Some k)
  then have "k < length (rh_entries h)" "re_id (rh_entries h ! k) = i" using assms by (auto simp: indexed_def)
  then have "i \<in> re_id ` set (rh_entries h)" by (metis image_eqI nth_mem)
  with Some \<open>k < _\<close> \<open>re_id _ = i\<close> show ?thesis by (simp add: indexOfId_def)
qed

text \<open>The reference: a list without indexes.\<close>

fun spec_step :: "request_op \<Rightarrow> QmlRecentRequestEntry list \<Rightarrow> QmlRecentRequestEntry list" where
  "spec_step (SetEntries es) xs = sort_by newer es"
| "spec_step (PrependOrReplace e) xs =
     (if re_id e \<in> re_id ` set xs then map (\<lambda>x. if re_id x = re_id e then e else x) xs else e # xs)"
| "spec_step (RemoveById s) xs = (case parseLongLong s of None \<Rightarrow> xs | Some i \<Rightarrow> filter (\<lambda>x. re_id x \<noteq> i) xs)"

lemma nth_unique:
  assumes "distinct (map re_id xs)" "k < length xs" "j < length xs" "re_id (xs ! j) = re_id (xs ! k)"
  shows "j = k"
  using nth_eq_iff_index_eq [OF assms(1), of j k] assms by simp

lemma update_is_map:
  assumes "distinct (map re_id xs)" "k < length xs" "re_id (xs ! k) = re_id e"
  shows "xs[k := e] = map (\<lambda>x. if re_id x = re_id e then e else x) xs"
proof (rule nth_equalityI)
  fix j assume "j < length (xs[k := e])"
  then have "re_id (xs ! j) = re_id e \<longleftrightarrow> j = k" using nth_unique [OF assms(1,2), of j] assms(3) by auto
  with \<open>j < _\<close> show "xs[k := e] ! j = map (\<lambda>x. if re_id x = re_id e then e else x) xs ! j" by (simp add: nth_list_update)
qed simp

lemma remove_is_filter:
  assumes "distinct (map re_id xs)" "k < length xs" "re_id (xs ! k) = i"
  shows "take k xs @ drop (k + 1) xs = filter (\<lambda>x. re_id x \<noteq> i) xs"
proof -
  have x: "xs = take k xs @ xs ! k # drop (k + 1) xs" using assms(2) by (simp add: id_take_nth_drop)
  have "re_id x \<noteq> i" if "x \<in> set (take k xs) \<union> set (drop (k + 1) xs)" for x
    using assms(1,3) that by (subst (asm) x) (auto simp: rev_image_eqI)
  then have "filter (\<lambda>x. re_id x \<noteq> i) (take k xs @ xs ! k # drop (k + 1) xs) = take k xs @ drop (k + 1) xs"
    using assms(3) by (simp add: filter_id_conv)
  then show ?thesis using x by metis
qed

definition request_op_ok :: "request_op \<Rightarrow> bool" where
  "request_op_ok p \<longleftrightarrow> (\<forall>es. p = SetEntries es \<longrightarrow> distinct (map re_id es))"

lemma replace_indexed:
  assumes "indexed env h" "k < length (rh_entries h)" "re_id (rh_entries h ! k) = re_id e"
    "rr_address (re_recipient (rh_entries h ! k)) = rr_address (re_recipient e)"
  shows "indexed env (h\<lparr>rh_entries := (rh_entries h)[k := e]\<rparr>)"
proof -
  let ?es = "rh_entries h"
  have a: "entry_address env (?es ! k) = entry_address env e" using assms(4) by (simp add: entry_address_def)
  have m: "map re_id (?es[k := e]) = map re_id ?es" using assms(2,3) by (metis list_update_id map_update nth_map)
  have "map (\<lambda>e. (re_id e, entry_address env e)) (?es[k := e]) = map (\<lambda>e. (re_id e, entry_address env e)) ?es"
    using assms(2,3) a by (metis (no_types, lifting) list_update_id map_update nth_map)
  moreover have "ids_at env es a = map fst (filter (\<lambda>(i, b). b = a) (map (\<lambda>e. (re_id e, entry_address env e)) es))" for es a
    by (simp add: ids_at_def filter_map comp_def)
  ultimately have i: "ids_at env (?es[k := e]) a = ids_at env ?es a" for a by simp
  have n: "re_id (?es[k := e] ! j) = re_id (?es ! j)" for j using assms(2,3) by (cases "j = k") simp_all
  show ?thesis using assms(1) by (simp add: indexed_def m [unfolded map_update] m i n)
qed

lemma request_step_refines:
  assumes "indexed env h" "request_op_ok p"
  shows "indexed env (request_step env p h) \<and> rh_entries (request_step env p h) = spec_step p (rh_entries h)"
proof -
  have d: "distinct (map re_id (rh_entries h))" using assms(1) by (simp add: indexed_def)
  show ?thesis
  proof (cases p)
    case (SetEntries es)
    have "distinct (map re_id (sort_by newer es))"
      using assms(2) SetEntries by (simp add: request_op_ok_def distinct_map)
    with SetEntries rebuild_indexed show ?thesis by (simp add: setEntries_def)
  next
    case (PrependOrReplace e)
    note f = indexed_find [OF assms(1), of "re_id e"]
    show ?thesis
    proof (cases "indexOfId h (re_id e) < 0")
      case True
      with f d have "distinct (map re_id (e # rh_entries h))" "re_id e \<notin> re_id ` set (rh_entries h)" by simp_all
      with True PrependOrReplace rebuild_indexed show ?thesis by (simp add: prependOrReplace_def)
    next
      case False
      let ?k = "nat (indexOfId h (re_id e))"
      have k: "?k < length (rh_entries h)" "re_id (rh_entries h ! ?k) = re_id e" "re_id e \<in> re_id ` set (rh_entries h)"
        using f False by auto
      have u: "(rh_entries h)[?k := e] = map (\<lambda>x. if re_id x = re_id e then e else x) (rh_entries h)"
        by (rule update_is_map [OF d k(1,2)])
      have "map re_id ((rh_entries h)[?k := e]) = map re_id (rh_entries h)" by (simp add: u)
      with d have "distinct (map re_id ((rh_entries h)[?k := e]))" by metis
      then have "indexed env (rebuildIndex env (h\<lparr>rh_entries := (rh_entries h)[?k := e]\<rparr>))" by (simp add: rebuild_indexed)
      with False replace_indexed [OF assms(1) k(1,2)] PrependOrReplace k(3) u show ?thesis
        by (simp add: prependOrReplace_def Let_def)
    qed
  next
    case (RemoveById s)
    show ?thesis
    proof (cases "parseLongLong s")
      case None
      with RemoveById assms show ?thesis by (simp add: removeByRequestId_def)
    next
      case (Some i)
      note f = indexed_find [OF assms(1), of i]
      show ?thesis
      proof (cases "indexOfId h i < 0")
        case True
        with f have "filter (\<lambda>x. re_id x \<noteq> i) (rh_entries h) = rh_entries h" by (auto simp: filter_id_conv)
        with True Some RemoveById assms show ?thesis by (simp add: removeByRequestId_def Let_def)
      next
        case False
        let ?k = "nat (indexOfId h i)"
        have r: "take ?k (rh_entries h) @ drop (?k + 1) (rh_entries h) = filter (\<lambda>x. re_id x \<noteq> i) (rh_entries h)"
          using remove_is_filter [OF d] f False by simp
        have "distinct (map re_id (filter (\<lambda>x. re_id x \<noteq> i) (rh_entries h)))" using d by (rule distinct_map_filter)
        with False Some RemoveById r rebuild_indexed [of "h\<lparr>rh_entries := filter (\<lambda>x. re_id x \<noteq> i) (rh_entries h)\<rparr>" env] show ?thesis
          by (simp add: removeByRequestId_def Let_def)
      qed
    qed
  qed
qed

lemma request_run_refines:
  "indexed env h \<Longrightarrow> list_all request_op_ok ops \<Longrightarrow>
   indexed env (request_run env ops h) \<and> rh_entries (request_run env ops h) = fold spec_step ops (rh_entries h)"
  unfolding request_run_def by (induction ops arbitrary: h) (simp_all add: request_step_refines)

lemma new_indexed: "indexed env new_RequestHistory"
  by (simp add: indexed_def new_RequestHistory_def ids_at_def)

lemma find_unique: "distinct (map re_id xs) \<Longrightarrow> k < length xs \<Longrightarrow> find (\<lambda>e. re_id e = re_id (xs ! k)) xs = Some (xs ! k)"
  by (auto simp: find_Some_iff dest: nth_unique intro!: exI [of _ k]) (metis nth_unique order.strict_trans less_irrefl)

lemma indexed_entryById:
  assumes "indexed env h"
  shows "entryById h s = (case parseLongLong s of None \<Rightarrow> None | Some i \<Rightarrow> find (\<lambda>e. re_id e = i) (rh_entries h))"
proof (cases "parseLongLong s")
  case (Some i)
  note f = indexed_find [OF assms, of i]
  have d: "distinct (map re_id (rh_entries h))" using assms by (simp add: indexed_def)
  show ?thesis
  proof (cases "indexOfId h i < 0")
    case True
    with f have "find (\<lambda>e. re_id e = i) (rh_entries h) = None" by (auto simp: find_None_iff)
    with True Some show ?thesis by (simp add: entryById_def)
  next
    case False
    with f find_unique [OF d, of "nat (indexOfId h i)"] Some show ?thesis by (simp add: entryById_def)
  qed
qed (simp add: entryById_def)

lemma indexed_entriesForAddress:
  assumes "indexed env h" "a \<noteq> []"
  shows "entriesForAddress h a = filter (\<lambda>e. entry_address env e = a) (rh_entries h)"
proof -
  have d: "distinct (map re_id (rh_entries h))" using assms(1) by (simp add: indexed_def)
  have i: "ids_for h a = ids_at env (rh_entries h) a" using assms(1) by (simp add: indexed_def ids_for_def)
  let ?f = "\<lambda>i. rh_entries h ! nat (indexOfId h i)"
  have at: "?f (re_id e) = e" if e: "e \<in> set (rh_entries h)" for e
  proof -
    obtain k where k: "k < length (rh_entries h)" "rh_entries h ! k = e" using e by (auto simp: in_set_conv_nth)
    have "re_id e \<in> re_id ` set (rh_entries h)" using e by (rule imageI)
    then have j: "nat (indexOfId h (re_id e)) < length (rh_entries h)" "re_id (?f (re_id e)) = re_id e"
      using indexed_find [OF assms(1), of "re_id e"] by blast+
    have "nat (indexOfId h (re_id e)) = k" by (rule nth_unique [OF d k(1) j(1)]) (simp only: j(2) k(2))
    then show ?thesis using k(2) by simp
  qed
  have "map ?f (map re_id xs) = xs" if "set xs \<subseteq> set (rh_entries h)" for xs
    using that by (induction xs) (simp_all add: at)
  then have "map ?f (ids_at env (rh_entries h) a) = filter (\<lambda>e. entry_address env e = a) (rh_entries h)"
    unfolding ids_at_def by auto
  with i assms(2) show ?thesis by (simp add: entriesForAddress_def)
qed

lemma maxId_ge: "e \<in> set (rh_entries h) \<Longrightarrow> re_id e \<le> maxId h"
proof -
  let ?f = "\<lambda>e max_id. if re_id e > max_id then re_id e else max_id"
  have "a \<le> fold ?f es a \<and> (\<forall>e \<in> set es. re_id e \<le> fold ?f es a)" for es a
  proof (induction es arbitrary: a)
    case (Cons x es)
    from Cons.IH [of "?f x a"] show ?case by (auto split: if_splits)
  qed simp
  then show "e \<in> set (rh_entries h) \<Longrightarrow> re_id e \<le> maxId h" unfolding maxId_def by blast
qed

section \<open>Witnesses\<close>

text \<open>A stream of cells: every value is one cell, a string is its length and its bytes.\<close>

definition sample_codec :: codec where
  "sample_codec = \<lparr>put_i32 = (\<lambda>i. [nat (i + 2 ^ 31)]), get_i32 = (\<lambda>s. case s of [] \<Rightarrow> None | c # r \<Rightarrow> Some (int c - 2 ^ 31, r)),
     put_u32 = (\<lambda>i. [nat i]), get_u32 = (\<lambda>s. case s of [] \<Rightarrow> None | c # r \<Rightarrow> Some (int c, r)),
     put_i64 = (\<lambda>i. [nat (i + 2 ^ 63)]), get_i64 = (\<lambda>s. case s of [] \<Rightarrow> None | c # r \<Rightarrow> Some (int c - 2 ^ 63, r)),
     put_str = (\<lambda>s. length s # s), get_str = (\<lambda>s. case s of [] \<Rightarrow> None | n # r \<Rightarrow> if n \<le> length r then Some (take n r, drop n r) else None),
     put_bool = (\<lambda>b. [if b then 1 else 0]), get_bool = (\<lambda>s. case s of [] \<Rightarrow> None | c # r \<Rightarrow> Some (c \<noteq> 0, r))\<rparr>"

definition sample_entry :: "int \<Rightarrow> int \<Rightarrow> QmlRecentRequestEntry" where
  "sample_entry i date = default_entry\<lparr>re_id := i, re_date := date, re_payment_received := True,
     re_recipient := (re_recipient default_entry)\<lparr>rr_address := [98, 99], rr_amount := 5, rr_noteSelf := [104, 105]\<rparr>\<rparr>"

definition sample_request_env :: request_env where
  "sample_request_env = \<lparr>fromStdString = (\<lambda>s. s), toPercentEncoding = (\<lambda>s. s), local_date_text = number, utc_date_text = number\<rparr>"

lemma sample_codec_ok: "codec_ok sample_codec"
  by (simp add: codec_ok_def sample_codec_def i64_defs)

section \<open>Properties\<close>

text \<open>
  C35: stored requests are read back with their dates to the second. Whatever malformed records
  surround them, entries whose fields fit the stored widths are returned by \<open>DeserializeEntries\<close> in
  order and exactly as they were given to \<open>SerializeEntry\<close>, private note and payment flag included,
  but for the milliseconds of their dates, which are dropped; an entry dated to the second comes back
  unchanged, and storing what was read writes the same bytes again.
\<close>

theorem request_storage_roundtrip:
  assumes "codec_ok cd" "list_all storable es" "\<forall>b \<in> set junk. DeserializeEntry cd b = None"
  shows "DeserializeEntries cd (junk @ map (SerializeEntry cd) es @ junk) = map whole_seconds es \<and>
     (\<forall>e \<in> set es. 1000 dvd re_date e \<longrightarrow> whole_seconds e = e) \<and>
     map (SerializeEntry cd) (map whole_seconds es) = map (SerializeEntry cd) es"
proof -
  have j: "List.map_filter (DeserializeEntry cd) junk = []" using assms(3) by (induction junk) (simp_all add: map_filter_simps)
  have "List.map_filter (DeserializeEntry cd) (map (SerializeEntry cd) es) = map whole_seconds es"
    using assms(2) by (induction es) (simp_all add: map_filter_simps Deserialize_Serialize [OF assms(1)])
  moreover have "map (SerializeEntry cd) (map whole_seconds es) = map (SerializeEntry cd) es"
    using assms(2) by (induction es) (simp_all add: Serialize_whole_seconds)
  moreover have "1000 dvd re_date e \<Longrightarrow> whole_seconds e = e" for e by (simp add: whole_seconds_def)
  ultimately show ?thesis using j by (simp add: DeserializeEntries_def map_filter_def)
qed

theorem request_storage_roundtrip_witness:
  "DeserializeEntries sample_codec ([[7]] @ map (SerializeEntry sample_codec) [sample_entry 3 9876, default_entry] @ [[7]]) =
     [sample_entry 3 9000, default_entry]"
proof -
  let ?es = "[sample_entry 3 9876, default_entry]"
  have "list_all storable ?es" by (simp add: storable_def sample_entry_def default_entry_def i64_defs MAX_SIZE_def)
  moreover have "\<forall>b \<in> set [[7]]. DeserializeEntry sample_codec b = None" by code_simp
  ultimately have "DeserializeEntries sample_codec ([[7]] @ map (SerializeEntry sample_codec) ?es @ [[7]]) = map whole_seconds ?es"
    using request_storage_roundtrip [OF sample_codec_ok] by blast
  then show ?thesis by (simp add: whole_seconds_def sample_entry_def default_entry_def)
qed

text \<open>
  C16: the indexed list behaves like a plain list. After any sequence of loading, adding or replacing
  and removing requests the entries are those of the reference, which has no indexes; looking up an
  identifier finds its entry and no other; looking up an address gives exactly the entries with that
  address, in order; the known addresses are those of the entries; and the largest identifier bounds
  every identifier, so that the next one is new.
\<close>

theorem request_history_refines:
  assumes "list_all request_op_ok ops" "h = request_run env ops new_RequestHistory"
  shows "rh_entries h = fold spec_step ops [] \<and> distinct (map re_id (rh_entries h)) \<and>
     (\<forall>s. entryById h s = (case parseLongLong s of None \<Rightarrow> None | Some i \<Rightarrow> find (\<lambda>e. re_id e = i) (rh_entries h))) \<and>
     (\<forall>a. a \<noteq> [] \<longrightarrow> entriesForAddress h a = filter (\<lambda>e. entry_address env e = a) (rh_entries h)) \<and>
     requestAddresses h = entry_address env ` set (rh_entries h) \<and> (\<forall>e \<in> set (rh_entries h). re_id e \<le> maxId h)"
proof -
  have r: "indexed env h" "rh_entries h = fold spec_step ops []"
    using request_run_refines [OF new_indexed assms(1), of env] by (simp_all add: assms(2) new_RequestHistory_def)
  have "requestAddresses h = entry_address env ` set (rh_entries h)"
    using r(1) by (auto simp: requestAddresses_def indexed_def ids_at_def dom_def filter_empty_conv)
  with r indexed_entryById [OF r(1)] indexed_entriesForAddress [OF r(1)] maxId_ge show ?thesis
    by (auto simp: indexed_def)
qed

theorem request_history_refines_witness:
  "map re_id (rh_entries (request_run sample_request_env
     [SetEntries [sample_entry 1 5, sample_entry 2 9], PrependOrReplace (sample_entry 4 1), PrependOrReplace (sample_entry 1 8), RemoveById (q ''2'')]
     new_RequestHistory)) = [4, 1] \<and>
   rh_entries (request_run sample_request_env
     [SetEntries [sample_entry 1 5, sample_entry 2 9], PrependOrReplace (sample_entry 4 1), PrependOrReplace (sample_entry 1 8), RemoveById (q ''2'')]
     new_RequestHistory) =
   fold spec_step [SetEntries [sample_entry 1 5, sample_entry 2 9], PrependOrReplace (sample_entry 4 1), PrependOrReplace (sample_entry 1 8), RemoveById (q ''2'')] []"
proof -
  let ?ops = "[SetEntries [sample_entry 1 5, sample_entry 2 9], PrependOrReplace (sample_entry 4 1), PrependOrReplace (sample_entry 1 8), RemoveById (q ''2'')]"
  have "list_all request_op_ok ?ops" by (simp add: request_op_ok_def sample_entry_def)
  note h = request_history_refines [OF this refl, of sample_request_env]
  have "map re_id (rh_entries (request_run sample_request_env ?ops new_RequestHistory)) = [4, 1]" by code_simp
  with h show ?thesis by blast
qed

end
