(* ===== verification/Uri.thy ===== *)
theory Uri
  imports Requests Amount
begin

text \<open>
  \<open>src/qml/models/bitcoinuri.{h,cpp}\<close> and \<open>bitcoinurimodel.cpp\<close>: reading payment URIs, and that the URIs
  built for receive requests are read back. \<open>QUrl\<close>, address decoding, \<open>ParseMoney\<close> and translation are the
  functions of the record \<open>uri_env\<close>.
\<close>

section \<open>Definitions\<close>

record uri_env =
  url_isValid :: "qstring \<Rightarrow> bool"
  url_scheme :: "qstring \<Rightarrow> qstring"
  url_path :: "qstring \<Rightarrow> qstring"
  url_queryItems :: "qstring \<Rightarrow> (qstring \<times> qstring) list"
  IsValidAddress :: "qstring \<Rightarrow> bool"
  ParseMoney :: "qstring \<Rightarrow> int option"
  uri_tr :: "string \<Rightarrow> qstring"
  uri_arg :: "qstring \<Rightarrow> qstring \<Rightarrow> qstring"
  url_isLocalFile :: "qstring \<Rightarrow> bool"
  url_toLocalFile :: "qstring \<Rightarrow> qstring"
  open_file :: "qstring \<Rightarrow> qstring + (nat \<times> qstring)"

record BitcoinUriParseResult =
  success :: bool
  uri_error :: qstring
  uri_address :: qstring
  amount_sats :: int
  has_amount :: bool
  uri_label :: qstring
  has_label :: bool
  uri_message :: qstring
  has_message :: bool

definition new_result :: BitcoinUriParseResult where
  "new_result = \<lparr>success = False, uri_error = [], uri_address = [], amount_sats = 0, has_amount = False, uri_label = [],
     has_label = False, uri_message = [], has_message = False\<rparr>"

definition BuildError :: "qstring \<Rightarrow> BitcoinUriParseResult" where
  "BuildError message = new_result\<lparr>success := False, uri_error := message\<rparr>"

definition ascii_lower :: "qchar \<Rightarrow> qchar" where
  "ascii_lower c = (if 65 \<le> c \<and> c \<le> 90 then c + 32 else c)"

definition startsWith :: "qstring \<Rightarrow> qstring \<Rightarrow> bool" where
  "startsWith s p \<longleftrightarrow> take (length p) s = p"

definition LABEL :: qstring where "LABEL = q ''label''"
definition MESSAGE :: qstring where "MESSAGE = q ''message''"
definition AMOUNT :: qstring where "AMOUNT = q ''amount''"
definition REQ :: qstring where "REQ = q ''req-''"

text \<open>One query item: the error to return, or the result so far.\<close>

definition parse_item :: "uri_env \<Rightarrow> qstring \<times> qstring \<Rightarrow> BitcoinUriParseResult \<Rightarrow> BitcoinUriParseResult + BitcoinUriParseResult" where
  "parse_item env = (\<lambda>(key, value) result.
     let required = startsWith key REQ;
         key = (if required then drop 4 key else key)
     in if key = LABEL then Inr (result\<lparr>uri_label := value, has_label := True\<rparr>)
        else if key = MESSAGE then Inr (result\<lparr>uri_message := value, has_message := True\<rparr>)
        else if key = AMOUNT then
          (if trimmed value \<noteq> [] then
             case ParseMoney env value of
               None \<Rightarrow> Inl (BuildError (uri_tr env ''Invalid Bitcoin amount.''))
             | Some a \<Rightarrow> Inr (result\<lparr>amount_sats := a, has_amount := True\<rparr>)
           else Inr result)
        else if required then Inl (BuildError (uri_arg env (uri_tr env ''Unsupported required parameter: %1'') key))
        else Inr result)"

fun parse_items :: "uri_env \<Rightarrow> (qstring \<times> qstring) list \<Rightarrow> BitcoinUriParseResult \<Rightarrow> BitcoinUriParseResult" where
  "parse_items env [] result = result\<lparr>success := True\<rparr>"
| "parse_items env (i # items) result =
     (case parse_item env i result of Inl err \<Rightarrow> err | Inr result' \<Rightarrow> parse_items env items result')"

definition Parse :: "uri_env \<Rightarrow> qstring \<Rightarrow> BitcoinUriParseResult" where
  "Parse env uri_text =
     (let raw = trimmed uri_text
      in if raw = [] then BuildError (uri_tr env ''Enter a Bitcoin payment URI.'')
         else if contains_at ascii_lower raw (q ''bitcoin://'') then
           BuildError (uri_tr env ([CHR 0x27] @ ''bitcoin://'' @ [CHR 0x27] @ '' is not a valid URI. Use '' @ [CHR 0x27] @ ''bitcoin:'' @ [CHR 0x27] @ '' instead.''))
         else if \<not> url_isValid env raw \<or> url_scheme env raw \<noteq> q ''bitcoin'' then
           BuildError (uri_tr env ''Not a valid Bitcoin payment URI.'')
         else
           let path = url_path env raw;
               address = (if path \<noteq> [] \<and> last path = 47 then butlast path else path)
           in if \<not> IsValidAddress env address then BuildError (uri_tr env ''Not a valid Bitcoin address.'')
              else parse_items env (url_queryItems env raw) (new_result\<lparr>uri_address := address\<rparr>))"

datatype uri_value = UBool bool | UText qstring | UInt int

definition BuildBitcoinUriResultMap :: "BitcoinUriParseResult \<Rightarrow> (string \<times> uri_value) list" where
  "BuildBitcoinUriResultMap r =
     [(''success'', UBool (success r)), (''error'', UText (uri_error r)), (''address'', UText (uri_address r)),
      (''amountSats'', UInt (amount_sats r)), (''hasAmount'', UBool (has_amount r)), (''label'', UText (uri_label r)),
      (''hasLabel'', UBool (has_label r)), (''uriMessage'', UText (uri_message r)), (''hasMessage'', UBool (has_message r))]"

definition parseBitcoinUri :: "uri_env \<Rightarrow> qstring \<Rightarrow> (string \<times> uri_value) list" where
  "parseBitcoinUri env uri_text = BuildBitcoinUriResultMap (Parse env uri_text)"

text \<open>\<open>open_file\<close> is what opening and reading a path gives: an error text, or the file's size and its text.\<close>

definition MAX_FILE_SIZE :: nat where "MAX_FILE_SIZE = 1024 * 1024"

definition parseBitcoinUriFromFile :: "uri_env \<Rightarrow> qstring \<Rightarrow> (string \<times> uri_value) list" where
  "parseBitcoinUriFromFile env source_path =
     (let local_path = (if url_isLocalFile env source_path then url_toLocalFile env source_path else source_path)
      in case open_file env local_path of
        Inl errorString \<Rightarrow> BuildBitcoinUriResultMap (new_result\<lparr>uri_error := uri_arg env (uri_tr env ''Cannot open file: %1'') errorString\<rparr>)
      | Inr (file_size, content) \<Rightarrow>
          if file_size > MAX_FILE_SIZE
          then BuildBitcoinUriResultMap (new_result\<lparr>uri_error := uri_tr env ''File is too large to be a payment URI.''\<rparr>)
          else BuildBitcoinUriResultMap (Parse env (trimmed content)))"

section \<open>When a URI is accepted\<close>

definition plain_key :: "qstring \<Rightarrow> qstring" where
  "plain_key key = (if startsWith key REQ then drop 4 key else key)"

definition item_ok :: "uri_env \<Rightarrow> qstring \<times> qstring \<Rightarrow> bool" where
  "item_ok env = (\<lambda>(key, value).
     (startsWith key REQ \<longrightarrow> plain_key key \<in> {LABEL, MESSAGE, AMOUNT}) \<and>
     (plain_key key = AMOUNT \<and> trimmed value \<noteq> [] \<longrightarrow> ParseMoney env value \<noteq> None))"

lemma keys_distinct [simp]:
  "LABEL \<noteq> MESSAGE" "LABEL \<noteq> AMOUNT" "MESSAGE \<noteq> AMOUNT" "MESSAGE \<noteq> LABEL" "AMOUNT \<noteq> LABEL" "AMOUNT \<noteq> MESSAGE"
  by (simp_all add: LABEL_def MESSAGE_def AMOUNT_def)

lemma BuildError_fails [simp]: "\<not> success (BuildError m)"
  by (simp add: BuildError_def)

lemma parse_item_eq:
  "parse_item env (key, v) r =
     (if plain_key key = LABEL then Inr (r\<lparr>uri_label := v, has_label := True\<rparr>)
      else if plain_key key = MESSAGE then Inr (r\<lparr>uri_message := v, has_message := True\<rparr>)
      else if plain_key key = AMOUNT then
        (if trimmed v \<noteq> [] then
           case ParseMoney env v of
             None \<Rightarrow> Inl (BuildError (uri_tr env ''Invalid Bitcoin amount.''))
           | Some a \<Rightarrow> Inr (r\<lparr>amount_sats := a, has_amount := True\<rparr>)
         else Inr r)
      else if startsWith key REQ then Inl (BuildError (uri_arg env (uri_tr env ''Unsupported required parameter: %1'') (plain_key key)))
      else Inr r)"
  unfolding parse_item_def plain_key_def by (simp only: Let_def prod.case)

lemma parse_item_ok: "(\<exists>r'. parse_item env (key, v) r = Inr r') \<longleftrightarrow> item_ok env (key, v)"
  unfolding parse_item_eq item_ok_def prod.case
  by (cases "plain_key key = LABEL"; cases "plain_key key = MESSAGE"; cases "plain_key key = AMOUNT"; cases "ParseMoney env v") simp_all

lemma parse_item_keeps:
  "parse_item env (key, v) r = Inr r' \<Longrightarrow> uri_address r' = uri_address r \<and> uri_error r' = uri_error r"
  unfolding parse_item_eq by (auto split: if_splits option.splits)

lemma parse_item_error: "parse_item env (key, v) r = Inl err \<Longrightarrow> \<not> success err"
  unfolding parse_item_eq by (auto split: if_splits option.splits)

lemma parse_items_ok:
  "(success (parse_items env items r) \<longleftrightarrow> list_all (item_ok env) items) \<and>
   (success (parse_items env items r) \<longrightarrow> uri_address (parse_items env items r) = uri_address r)"
proof (induction items arbitrary: r)
  case (Cons i items)
  obtain key v where i: "i = (key, v)" by (cases i)
  show ?case
  proof (cases "parse_item env i r")
    case (Inl err)
    then have "\<not> item_ok env i" "\<not> success err" using parse_item_ok [of env key v r] parse_item_error [of env key v r] by (auto simp: i)
    with Inl show ?thesis by simp
  next
    case (Inr r')
    then have "item_ok env i" "uri_address r' = uri_address r"
      using parse_item_ok [of env key v r] parse_item_keeps [of env key v r r'] by (auto simp: i)
    with Inr Cons.IH [of r'] show ?thesis by simp
  qed
qed simp

section \<open>Built URIs\<close>

text \<open>
  What \<open>QUrl\<close> promises: percent-encoding leaves only unreserved characters and percent signs, decoding
  inverts it on well-formed UTF-16 and leaves texts without percent signs alone, and a URI made of the
  scheme, a path of letters and digits and parameters that are percent-encoded or need no encoding is
  split into these parts, its values decoded.
\<close>

fun utf16_ok :: "qstring \<Rightarrow> bool" where
  "utf16_ok [] \<longleftrightarrow> True"
| "utf16_ok (c # s) \<longleftrightarrow>
     (if 55296 \<le> c \<and> c < 56320 then (case s of [] \<Rightarrow> False | d # s' \<Rightarrow> 56320 \<le> d \<and> d < 57344 \<and> utf16_ok s')
      else c < 65536 \<and> \<not> (56320 \<le> c \<and> c < 57344) \<and> utf16_ok s)"

definition alnum :: "qchar \<Rightarrow> bool" where
  "alnum c \<longleftrightarrow> is_digit c \<or> 65 \<le> c \<and> c \<le> 90 \<or> 97 \<le> c \<and> c \<le> 122"

definition unreserved :: "qchar \<Rightarrow> bool" where
  "unreserved c \<longleftrightarrow> alnum c \<or> c \<in> {45, 46, 95, 126, 37}"

definition uri_text :: "qstring \<Rightarrow> (qstring \<times> qstring) list \<Rightarrow> qstring" where
  "uri_text path ps = q ''bitcoin:'' @ path @
     (if ps \<noteq> [] then q ''?'' @ join (q ''&'') (map (\<lambda>(k, v). k @ q ''='' @ v) ps) else [])"

definition param_ok :: "(qstring \<Rightarrow> qstring) \<Rightarrow> qstring \<times> qstring \<Rightarrow> bool" where
  "param_ok encode = (\<lambda>(k, v). k \<noteq> [] \<and> list_all alnum k \<and>
     (list_all unreserved v \<and> 37 \<notin> set v \<or> (\<exists>s. utf16_ok s \<and> v = encode s)))"

definition url_laws :: "uri_env \<Rightarrow> (qstring \<Rightarrow> qstring) \<Rightarrow> (qstring \<Rightarrow> qstring) \<Rightarrow> bool" where
  "url_laws env encode decode \<longleftrightarrow>
     (\<forall>s. list_all unreserved (encode s)) \<and> (\<forall>s. utf16_ok s \<longrightarrow> decode (encode s) = s) \<and>
     (\<forall>s. 37 \<notin> set s \<longrightarrow> decode s = s) \<and>
     (\<forall>path ps. path \<noteq> [] \<and> list_all alnum path \<and> list_all (param_ok encode) ps \<longrightarrow>
        url_isValid env (uri_text path ps) \<and> url_scheme env (uri_text path ps) = q ''bitcoin'' \<and>
        url_path env (uri_text path ps) = path \<and> url_queryItems env (uri_text path ps) = map (\<lambda>(k, v). (k, decode v)) ps)"

text \<open>\<open>ParseMoney\<close> reads a whole number of coins of at most ten digits and eight decimals, within the limit on money.\<close>

definition MAX_MONEY :: int where "MAX_MONEY = 21000000 * 100000000"

definition money_law :: "uri_env \<Rightarrow> bool" where
  "money_law env \<longleftrightarrow> (\<forall>w f. w \<noteq> [] \<and> length w \<le> 10 \<and> list_all is_digit w \<and> list_all is_digit f \<and> length f = 8 \<and>
       int (dec_value w) * 100000000 + int (dec_value f) \<le> MAX_MONEY \<longrightarrow>
     ParseMoney env (w @ q ''.'' @ f) = Some (int (dec_value w) * 100000000 + int (dec_value f)))"

definition param_pairs :: "(qstring \<Rightarrow> qstring) \<Rightarrow> qstring \<Rightarrow> int \<Rightarrow> qstring \<Rightarrow> qstring \<Rightarrow> (qstring \<times> qstring) list" where
  "param_pairs encode amount_str amount label message =
     (if amount > 0 \<and> amount_str \<noteq> [] then [(AMOUNT, amount_str)] else []) @
     (if label \<noteq> [] then [(LABEL, encode label)] else []) @
     (if message \<noteq> [] then [(MESSAGE, encode message)] else [])"

lemma uri_params_pairs: "uri_params encode s a l m = map (\<lambda>(k, v). k @ q ''='' @ v) (param_pairs encode s a l m)"
  by (simp add: uri_params_def param_pairs_def LABEL_def MESSAGE_def AMOUNT_def)

lemma BuildBitcoinUri_text:
  assumes "address \<noteq> []" "BuildBitcoinUri encode address amount label message = Some uri"
  shows "\<exists>s. FormatAmountBtc amount = Some s \<and> uri = uri_text address (param_pairs encode s amount label message)"
  using assms by (auto simp: BuildBitcoinUri_def uri_text_def uri_params_pairs Let_def simp del: q_simps split: bind_splits)

lemma amount_text:
  assumes "0 < amount" "amount \<le> MAX_MONEY"
  shows "FormatAmountBtc amount =
     Some (number_nat (nat (amount div 100000000)) @ q ''.'' @ rightJustified 8 48 (number_nat (nat (amount mod 100000000))))"
  using assms
  by (simp add: FormatAmountBtc_def format_def i64_defs MAX_MONEY_def Let_def group_quotient_def number_def
      pos_imp_zdiv_nonneg_iff not_less pos_mod_sign [THEN leD])

lemma amount_text_parsed:
  assumes "0 < amount" "amount \<le> MAX_MONEY" "money_law env" "FormatAmountBtc amount = Some s"
  shows "ParseMoney env s = Some amount" "trimmed s \<noteq> []" "s \<noteq> []" "list_all unreserved s" "37 \<notin> set s"
proof -
  let ?w = "number_nat (nat (amount div 100000000))" let ?f = "rightJustified 8 48 (number_nat (nat (amount mod 100000000)))"
  have s: "s = ?w @ q ''.'' @ ?f" using amount_text [OF assms(1,2)] assms(4) by simp
  have d: "list_all is_digit ?w" "list_all is_digit ?f" by simp_all
  have "nat (amount mod 100000000) < 10 ^ 8" by (simp add: nat_less_iff)
  then have l: "length ?f = 8" using rightJustified_number_length [of "nat (amount mod 100000000)" 8] by simp
  have "amount div 100000000 \<le> 21000000" using assms(2) zdiv_mono1 [OF assms(2), of 100000000] by (simp add: MAX_MONEY_def)
  then have lw: "length ?w \<le> 10" by (intro number_nat_length) (simp_all add: nat_less_iff)
  have v: "dec_value ?f = nat (amount mod 100000000)" by simp
  have "int (dec_value ?w) * 100000000 + int (dec_value ?f) = amount"
  proof -
    have "int (dec_value ?w) = amount div 100000000" using assms(1) by (simp add: pos_imp_zdiv_nonneg_iff)
    moreover have "int (dec_value ?f) = amount mod 100000000" unfolding v by simp
    ultimately show ?thesis by (simp only: div_mult_mod_eq)
  qed
  then show "ParseMoney env s = Some amount" using assms(2,3) d l lw number_nat_not_Nil unfolding money_law_def s by presburger
  show "s \<noteq> []" by (simp add: s)
  have "hd ?w \<in> set ?w" by simp
  then have "is_digit (hd ?w)" using d(1) by (simp add: list_all_iff)
  then show "trimmed s \<noteq> []" by (intro trimmed_not_Nil [of "hd ?w"] digit_not_space) (simp_all add: s)
  show "list_all unreserved s" "37 \<notin> set s" using d by (auto simp: s list_all_iff unreserved_def alnum_def)
qed

lemma trimmed_nonspace: "list_all (\<lambda>c. \<not> isSpace c) s \<Longrightarrow> trimmed s = s"
proof -
  have "list_all (\<lambda>c. \<not> isSpace c) s \<Longrightarrow> dropWhile isSpace s = s" for s by (cases s) simp_all
  from this [of s] this [of "rev s"] show "list_all (\<lambda>c. \<not> isSpace c) s \<Longrightarrow> trimmed s = s" by (simp add: trimmed_def)
qed

lemma unreserved_nonspace: "unreserved c \<Longrightarrow> \<not> isSpace c"
  by (auto simp: unreserved_def alnum_def isSpace_def)

lemma join_set: "set (join sep ps) \<subseteq> set sep \<union> (\<Union>p \<in> set ps. set p)"
  by (induction sep ps rule: join.induct) auto

lemma uri_text_nonspace:
  assumes "list_all alnum path" "list_all (\<lambda>(k, v). k \<noteq> [] \<and> list_all alnum k \<and> list_all unreserved v) ps"
  shows "list_all (\<lambda>c. \<not> isSpace c) (uri_text path ps)"
proof -
  have a: "alnum c \<Longrightarrow> \<not> isSpace c" for c using unreserved_nonspace by (simp add: unreserved_def)
  have "\<not> isSpace c" if c: "c \<in> set (join (q ''&'') (map (\<lambda>(k, v). k @ q ''='' @ v) ps))" for c
  proof -
    from c join_set [of "q ''&''" "map (\<lambda>(k, v). k @ q ''='' @ v) ps"] have "c = 38 \<or> c = 61 \<or> (\<exists>(k, v) \<in> set ps. c \<in> set k \<union> set v)"
      by fastforce
    then show ?thesis using assms(2) a unreserved_nonspace by (fastforce simp: list_all_iff isSpace_def)
  qed
  moreover have "list_all (\<lambda>c. \<not> isSpace c) (q ''bitcoin:'')" by (simp add: isSpace_def)
  ultimately show ?thesis using assms(1) a by (auto simp: uri_text_def list_all_iff isSpace_def)
qed

lemma uri_text_not_slashes: "list_all alnum path \<Longrightarrow> path \<noteq> [] \<Longrightarrow> \<not> contains_at ascii_lower (uri_text path ps) (q ''bitcoin://'')"
  by (cases path) (auto simp: uri_text_def ascii_lower_def alnum_def split: if_splits)

lemma params_ok:
  assumes "amount > 0 \<longrightarrow> list_all unreserved s \<and> 37 \<notin> set s" "utf16_ok label" "utf16_ok message"
  shows "list_all (param_ok encode) (param_pairs encode s amount label message)"
  using assms by (auto simp: param_pairs_def param_ok_def LABEL_def MESSAGE_def AMOUNT_def alnum_def)

lemma param_ok_unreserved:
  assumes "url_laws env encode decode" "list_all (param_ok encode) ps"
  shows "list_all (\<lambda>(k, v). k \<noteq> [] \<and> list_all alnum k \<and> list_all unreserved v) ps"
  using assms by (fastforce simp: param_ok_def url_laws_def list_all_iff)

lemma plain_keys: "plain_key LABEL = LABEL" "plain_key MESSAGE = MESSAGE" "plain_key AMOUNT = AMOUNT"
  by (simp_all add: plain_key_def startsWith_def LABEL_def MESSAGE_def AMOUNT_def REQ_def)

text \<open>The result of reading the parameters of a built URI.\<close>

lemma read_params:
  assumes "amount > 0 \<longrightarrow> ParseMoney env s = Some amount \<and> trimmed s \<noteq> [] \<and> s \<noteq> []"
  shows "parse_items env ((if amount > 0 \<and> s \<noteq> [] then [(AMOUNT, s)] else []) @ (if label \<noteq> [] then [(LABEL, label)] else []) @
       (if message \<noteq> [] then [(MESSAGE, message)] else [])) (new_result\<lparr>uri_address := address\<rparr>) =
     \<lparr>success = True, uri_error = [], uri_address = address, amount_sats = (if amount > 0 then amount else 0), has_amount = (amount > 0),
      uri_label = label, has_label = (label \<noteq> []), uri_message = message, has_message = (message \<noteq> [])\<rparr>"
  using assms by (cases "amount > 0"; cases "label = []"; cases "message = []")
    (simp_all add: parse_item_eq plain_keys new_result_def)

section \<open>A reader that satisfies the laws\<close>

text \<open>
  The hypotheses on \<open>QUrl\<close> and \<open>ParseMoney\<close> can hold: here is a plain reader and a percent-encoding for
  which they do.
\<close>

definition pct :: "qstring \<Rightarrow> qstring" where
  "pct s = concat (map (\<lambda>c. if alnum c then [c] else 37 # rightJustified 5 48 (number_nat (c mod 65536))) s)"

fun unpct :: "qstring \<Rightarrow> qstring" where
  "unpct [] = []"
| "unpct (c # s) = (if c = 37 then dec_value (take 5 s) # unpct (drop 5 s) else c # unpct s)"

definition before :: "qchar \<Rightarrow> qstring \<Rightarrow> qstring" where "before c = takeWhile (\<lambda>d. d \<noteq> c)"
definition after :: "qchar \<Rightarrow> qstring \<Rightarrow> qstring" where "after c s = tl (dropWhile (\<lambda>d. d \<noteq> c) s)"

definition plain_env :: uri_env where
  "plain_env = \<lparr>url_isValid = (\<lambda>_. True), url_scheme = before 58, url_path = (\<lambda>s. before 63 (after 58 s)),
     url_queryItems = (\<lambda>s. let r = after 63 s in
       if r = [] then [] else map (\<lambda>i. (before 61 i, unpct (after 61 i))) (split_on 38 r)),
     IsValidAddress = (\<lambda>s. s \<noteq> []),
     ParseMoney = (\<lambda>s. Some (int (dec_value (before 46 s)) * 100000000 + int (dec_value (after 46 s)))),
     uri_tr = q, uri_arg = (@), url_isLocalFile = (\<lambda>_. False), url_toLocalFile = id, open_file = (\<lambda>_. Inl [])\<rparr>"

lemma before_after: "c \<notin> set s \<Longrightarrow> before c (s @ c # r) = s" "c \<notin> set s \<Longrightarrow> after c (s @ c # r) = r"
  "c \<notin> set s \<Longrightarrow> before c s = s" "c \<notin> set s \<Longrightarrow> after c s = []"
  by (induction s) (auto simp: before_def after_def)

lemma utf16_bounded: "utf16_ok s \<Longrightarrow> \<forall>c \<in> set s. c < 65536"
  by (induction s rule: utf16_ok.induct) (auto split: if_splits list.splits)

lemma pct_unreserved: "list_all unreserved (pct s)"
proof (induction s)
  case (Cons c s)
  have "list_all is_digit (rightJustified 5 48 (number_nat (c mod 65536)))" by simp
  then have "list_all unreserved (rightJustified 5 48 (number_nat (c mod 65536)))" by (auto simp: unreserved_def alnum_def list_all_iff)
  moreover have "unreserved 37" by (simp add: unreserved_def)
  moreover have "alnum c \<Longrightarrow> unreserved c" by (simp add: unreserved_def)
  ultimately show ?case using Cons by (simp add: pct_def)
qed (simp add: pct_def)

lemma unpct_pct: "\<forall>c \<in> set s. c < 65536 \<Longrightarrow> unpct (pct s) = s"
proof (induction s)
  case (Cons c s)
  have "length (rightJustified 5 48 (number_nat c)) = 5" using Cons.prems by (intro rightJustified_number_length) auto
  then show ?case using Cons by (auto simp: pct_def alnum_def)
qed (simp add: pct_def)

lemma unpct_plain: "37 \<notin> set s \<Longrightarrow> unpct s = s"
  by (induction s) auto

lemma split_join: "ps \<noteq> [] \<Longrightarrow> list_all (\<lambda>p. 38 \<notin> set p) ps \<Longrightarrow> split_on 38 (join (q ''&'') ps) = ps"
  by (induction "q ''&''" ps rule: join.induct) (simp_all add: split_on_append split_on_none)

lemma alnum_text: "list_all alnum s \<Longrightarrow> 58 \<notin> set s \<and> 63 \<notin> set s \<and> 61 \<notin> set s \<and> 38 \<notin> set s"
  by (auto simp: list_all_iff alnum_def)

lemma unreserved_text: "list_all unreserved s \<Longrightarrow> 58 \<notin> set s \<and> 63 \<notin> set s \<and> 61 \<notin> set s \<and> 38 \<notin> set s"
  by (auto simp: list_all_iff unreserved_def alnum_def)

lemma plain_items:
  assumes "ps \<noteq> []" "list_all (\<lambda>(k, v). k \<noteq> [] \<and> list_all alnum k \<and> list_all unreserved v) ps"
  shows "map (\<lambda>i. (before 61 i, unpct (after 61 i))) (split_on 38 (join (q ''&'') (map (\<lambda>(k, v). k @ q ''='' @ v) ps))) =
     map (\<lambda>(k, v). (k, unpct v)) ps"
proof -
  have "list_all (\<lambda>p. 38 \<notin> set p) (map (\<lambda>(k, v). k @ q ''='' @ v) ps)"
    using assms(2) alnum_text unreserved_text by (fastforce simp: list_all_iff)
  then have "split_on 38 (join (q ''&'') (map (\<lambda>(k, v). k @ q ''='' @ v) ps)) = map (\<lambda>(k, v). k @ q ''='' @ v) ps"
    using assms(1) by (intro split_join) simp_all
  moreover have "(before 61 (k @ q ''='' @ v), unpct (after 61 (k @ q ''='' @ v))) = (k, unpct v)" if "(k, v) \<in> set ps" for k v
    using assms(2) that alnum_text [of k] by (auto simp: list_all_iff before_after)
  ultimately show ?thesis by auto
qed

lemma plain_url:
  assumes "list_all alnum path" "list_all (\<lambda>(k, v). k \<noteq> [] \<and> list_all alnum k \<and> list_all unreserved v) ps"
  shows "url_scheme plain_env (uri_text path ps) = q ''bitcoin'' \<and> url_path plain_env (uri_text path ps) = path \<and>
     url_queryItems plain_env (uri_text path ps) = map (\<lambda>(k, v). (k, unpct v)) ps"
proof -
  let ?j = "join (q ''&'') (map (\<lambda>(k, v). k @ q ''='' @ v) ps)"
  let ?r = "path @ (if ps \<noteq> [] then q ''?'' @ ?j else [])"
  have t: "uri_text path ps = q ''bitcoin'' @ 58 # ?r" by (simp add: uri_text_def)
  have b: "58 \<notin> set (q ''bitcoin'')" "63 \<notin> set (q ''bitcoin'' @ 58 # path)" "63 \<notin> set path"
    using alnum_text [OF assms(1)] by auto
  have "before 63 ?r = path" using before_after(1) [OF b(3)] before_after(3) [OF b(3)] by simp
  moreover have "after 63 (q ''bitcoin'' @ 58 # ?r) = (if ps \<noteq> [] then ?j else [])"
    using before_after(2) [OF b(2), of ?j] before_after(4) [OF b(2)] by simp
  moreover have "?j \<noteq> []" if "ps \<noteq> []" using that by (cases ps rule: remdups_adj.cases) auto
  ultimately show ?thesis
    using before_after(1,2) [OF b(1), of ?r] plain_items [OF _ assms(2)] unfolding t by (auto simp: plain_env_def Let_def simp del: q_simps)
qed

lemma plain_env_laws: "url_laws plain_env pct unpct" "money_law plain_env"
proof -
  have u: "list_all (param_ok pct) ps \<Longrightarrow> list_all (\<lambda>(k, v). k \<noteq> [] \<and> list_all alnum k \<and> list_all unreserved v) ps" for ps
    using pct_unreserved by (fastforce simp: param_ok_def list_all_iff)
  show "url_laws plain_env pct unpct"
    unfolding url_laws_def using pct_unreserved unpct_pct [OF utf16_bounded] unpct_plain plain_url u by (simp add: plain_env_def)
  have "46 \<notin> set w" if "list_all is_digit w" for w using that by (auto simp: list_all_iff)
  then show "money_law plain_env" by (auto simp: money_law_def plain_env_def before_after)
qed

lemma parse_built_uri:
  assumes "url_laws env encode decode" "money_law env"
    and "address \<noteq> []" "list_all alnum address" "IsValidAddress env address" "amount \<le> MAX_MONEY"
    and "utf16_ok label" "utf16_ok message"
    and "BuildBitcoinUri encode address amount label message = Some uri"
  shows "Parse env uri =
     \<lparr>success = True, uri_error = [], uri_address = address, amount_sats = (if amount > 0 then amount else 0), has_amount = (amount > 0),
      uri_label = label, has_label = (label \<noteq> []), uri_message = message, has_message = (message \<noteq> [])\<rparr>"
proof -
  obtain s where s: "FormatAmountBtc amount = Some s" "uri = uri_text address (param_pairs encode s amount label message)"
    using BuildBitcoinUri_text [OF assms(3,9)] by blast
  let ?ps = "param_pairs encode s amount label message"
  have m: "amount > 0 \<longrightarrow> ParseMoney env s = Some amount \<and> trimmed s \<noteq> [] \<and> s \<noteq> [] \<and> list_all unreserved s \<and> 37 \<notin> set s"
    using amount_text_parsed [OF _ assms(6,2) s(1)] by blast
  have pp: "list_all (param_ok encode) ?ps" using params_ok [OF _ assms(7,8)] m by blast
  note ps = param_ok_unreserved [OF assms(1) pp]
  have u: "url_isValid env uri" "url_scheme env uri = q ''bitcoin''" "url_path env uri = address"
    "url_queryItems env uri = map (\<lambda>(k, v). (k, decode v)) ?ps"
    using assms(1,3,4) pp unfolding url_laws_def s(2) by blast+
  have tr: "trimmed uri = uri" unfolding s(2) by (rule trimmed_nonspace [OF uri_text_nonspace [OF assms(4) ps]])
  have ne: "uri \<noteq> []" by (simp add: s(2) uri_text_def)
  have sl: "\<not> contains_at ascii_lower uri (q ''bitcoin://'')" unfolding s(2) by (rule uri_text_not_slashes [OF assms(4,3)])
  have "last address \<in> set address" using assms(3) by simp
  then have la: "last address \<noteq> 47" using assms(4) by (auto simp: list_all_iff alnum_def)
  have it: "map (\<lambda>(k, v). (k, decode v)) ?ps = (if amount > 0 \<and> s \<noteq> [] then [(AMOUNT, s)] else []) @
      (if label \<noteq> [] then [(LABEL, label)] else []) @ (if message \<noteq> [] then [(MESSAGE, message)] else [])"
    using assms(1,7,8) m by (simp add: param_pairs_def url_laws_def)
  have "Parse env uri = parse_items env (map (\<lambda>(k, v). (k, decode v)) ?ps) (new_result\<lparr>uri_address := address\<rparr>)"
    unfolding Parse_def Let_def tr u using ne sl la u(1) assms(5) by simp
  then show ?thesis unfolding it using read_params [of amount env s label message address] m by simp
qed

lemma built_uri_exists: "amount \<le> MAX_MONEY \<Longrightarrow> \<exists>uri. BuildBitcoinUri encode address amount label message = Some uri"
  using amount_text [of amount] by (cases "0 < amount") (auto simp: BuildBitcoinUri_def FormatAmountBtc_def Let_def)

section \<open>Properties\<close>

text \<open>
  C21: a payment URI built for a request is read back. For an address of letters and digits that is
  valid, an amount within the limit on money and any label and message of well-formed
  text, whatever characters they contain, reading the built URI succeeds and returns the address, the amount if there is one, the
  label and the message.
\<close>

theorem uri_roundtrip:
  assumes "url_laws env encode decode" "money_law env"
    and "address \<noteq> []" "list_all alnum address" "IsValidAddress env address" "amount \<le> MAX_MONEY"
    and "utf16_ok label" "utf16_ok message"
    and "BuildBitcoinUri encode address amount label message = Some uri"
  shows "Parse env uri =
     \<lparr>success = True, uri_error = [], uri_address = address, amount_sats = (if amount > 0 then amount else 0), has_amount = (amount > 0),
      uri_label = label, has_label = (label \<noteq> []), uri_message = message, has_message = (message \<noteq> [])\<rparr>"
  by (rule parse_built_uri [OF assms])

theorem uri_roundtrip_witness:
  "\<exists>env encode decode address amount label message uri. url_laws env encode decode \<and> money_law env \<and>
     BuildBitcoinUri encode address amount label message = Some uri \<and> amount = 150000000 \<and> label = q ''A & B?'' \<and>
     success (Parse env uri) \<and> amount_sats (Parse env uri) = 150000000 \<and> uri_label (Parse env uri) = label"
proof -
  have b: "BuildBitcoinUri pct (q ''bc1qxy'') 150000000 (q ''A & B?'') [] \<noteq> None" by code_simp
  then obtain uri where u: "BuildBitcoinUri pct (q ''bc1qxy'') 150000000 (q ''A & B?'') [] = Some uri" by blast
  have a: "list_all alnum (q ''bc1qxy'')" "IsValidAddress plain_env (q ''bc1qxy'')" "utf16_ok (q ''A & B?'')" "q ''bc1qxy'' \<noteq> []"
    by code_simp+
  note r = uri_roundtrip [OF plain_env_laws a(4,1,2) _ a(3) _ u]
  have "Parse plain_env uri = \<lparr>success = True, uri_error = [], uri_address = q ''bc1qxy'', amount_sats = 150000000, has_amount = True,
      uri_label = q ''A & B?'', has_label = True, uri_message = [], has_message = False\<rparr>"
    using r by (simp add: MAX_MONEY_def)
  with u plain_env_laws show ?thesis
    by (intro exI [of _ plain_env] exI [of _ pct] exI [of _ unpct] exI [of _ "q ''bc1qxy''"] exI [of _ 150000000] exI [of _ "q ''A & B?''"]
        exI [of _ "[]"] exI [of _ uri]) simp
qed

text \<open>
  exactly the right URIs are accepted. Reading succeeds if and only if the trimmed text is not
  empty, does not begin with \<open>bitcoin://\<close>, is a valid URL of the bitcoin scheme whose path, less a final
  slash, is a valid address, every parameter marked as required is known, and every amount that is not
  blank is a valid amount; the returned address is then that path.
\<close>

theorem uri_accepted:
  fixes env :: uri_env and input :: qstring
  defines "raw \<equiv> trimmed input"
  defines "path \<equiv> url_path env raw"
  defines "address \<equiv> (if path \<noteq> [] \<and> last path = 47 then butlast path else path)"
  shows "(success (Parse env input) \<longleftrightarrow>
       raw \<noteq> [] \<and> \<not> contains_at ascii_lower raw (q ''bitcoin://'') \<and> url_isValid env raw \<and> url_scheme env raw = q ''bitcoin'' \<and>
       IsValidAddress env address \<and> list_all (item_ok env) (url_queryItems env raw)) \<and>
     (success (Parse env input) \<longrightarrow> uri_address (Parse env input) = address)"
proof -
  note p = parse_items_ok [of env "url_queryItems env raw" "new_result\<lparr>uri_address := address\<rparr>"]
  have e: "Parse env input =
     (if raw = [] then BuildError (uri_tr env ''Enter a Bitcoin payment URI.'')
      else if contains_at ascii_lower raw (q ''bitcoin://'') then
        BuildError (uri_tr env ([CHR 0x27] @ ''bitcoin://'' @ [CHR 0x27] @ '' is not a valid URI. Use '' @ [CHR 0x27] @ ''bitcoin:'' @ [CHR 0x27] @ '' instead.''))
      else if \<not> url_isValid env raw \<or> url_scheme env raw \<noteq> q ''bitcoin'' then BuildError (uri_tr env ''Not a valid Bitcoin payment URI.'')
      else if \<not> IsValidAddress env address then BuildError (uri_tr env ''Not a valid Bitcoin address.'')
      else parse_items env (url_queryItems env raw) (new_result\<lparr>uri_address := address\<rparr>))"
    unfolding Parse_def Let_def raw_def path_def address_def ..
  show ?thesis unfolding e using p by (auto simp del: q_simps)
qed

theorem uri_accepted_witness: "uri_address (Parse plain_env (q '' bitcoin:bc1qxy?x=1'')) = q ''bc1qxy''"
proof -
  have "success (Parse plain_env (q '' bitcoin:bc1qxy?x=1''))" by code_simp
  moreover have "(let p = url_path plain_env (trimmed (q '' bitcoin:bc1qxy?x=1''))
      in if p \<noteq> [] \<and> last p = 47 then butlast p else p) = q ''bc1qxy''"
    by code_simp
  ultimately show ?thesis using uri_accepted [of plain_env "q '' bitcoin:bc1qxy?x=1''"] unfolding Let_def by metis
qed

end
