(* ===== verification/PaymentRequest.thy ===== *)
theory PaymentRequest
  imports Uri Address
begin

text \<open>
  \<open>src/qml/models/paymentrequest.{h,cpp}\<close>: the receive request being edited. An operation returns the
  new object and the signals it emits, each with the object as a slot connected to it reads it. The
  signals the constructor connects to \<open>qrPayloadChanged\<close> are followed by it. \<open>EncodeDestination\<close>, the
  percent-encoding of \<open>QUrl\<close> and the ISO form of a time are the functions of the record \<open>pay_env\<close>;
  of \<open>CTxDestination\<close> the alternatives that the code distinguishes are constructors. The time of
  creation is in milliseconds, \<open>None\<close> for an invalid \<open>QDateTime\<close>.
\<close>

section \<open>Definitions\<close>

datatype CTxDestination =
  CNoDestination | PKHash nat | ScriptHash nat | WitnessV0KeyHash nat | WitnessV0ScriptHash nat | WitnessV1Taproot nat | OtherDestination nat

record pay_env =
  EncodeDestination :: "CTxDestination \<Rightarrow> qstring"
  toPercentEncoding :: "qstring \<Rightarrow> qstring"
  isoDate :: "int \<Rightarrow> qstring"

record PaymentRequest =
  pr_destination :: CTxDestination
  pr_label :: qstring
  pr_message :: qstring
  pr_address_type :: qstring
  pr_noteSelf :: qstring
  pr_amountError :: qstring
  pr_amount :: BitcoinAmount
  pr_id :: qstring
  pr_needs_unlock :: bool
  pr_unlock_error :: qstring
  pr_created :: "int option"
  pr_is_editing :: bool
  pr_payment_received :: bool
  pr_received_amount :: int

datatype PaySignal =
  PayAddressChanged | PayLabelChanged | PayMessageChanged | PayAddressTypeChanged | PayNoteSelfChanged | PayAmountErrorChanged |
  PayIdChanged | PayNeedsUnlockChanged | PayUnlockErrorChanged | QrPayloadChanged | CreatedIsoChanged | IsEditingChanged |
  PaymentReceivedChanged | ReceivedAmountChanged

type_synonym pay_trace = "(PaySignal \<times> PaymentRequest) list"

definition new_PaymentRequest :: PaymentRequest where
  "new_PaymentRequest = \<lparr>pr_destination = CNoDestination, pr_label = [], pr_message = [], pr_address_type = [], pr_noteSelf = [],
     pr_amountError = [], pr_amount = new_BitcoinAmount, pr_id = [], pr_needs_unlock = False, pr_unlock_error = [], pr_created = None,
     pr_is_editing = True, pr_payment_received = False, pr_received_amount = 0\<rparr>"

text \<open>The connections made by the constructor: from the signals of the request, and from those of its amount.\<close>

definition emit :: "PaySignal \<Rightarrow> PaymentRequest \<Rightarrow> pay_trace" where
  "emit sig r = (sig, r) # (if sig \<in> {PayAddressChanged, PayLabelChanged, PayMessageChanged} then [(QrPayloadChanged, r)] else [])"

definition emit_amount :: "AmountSignal list \<Rightarrow> PaymentRequest \<Rightarrow> pay_trace" where
  "emit_amount sigs r = map (\<lambda>_. (QrPayloadChanged, r)) (filter (\<lambda>s. s = amountChanged) sigs)"

definition FormatAddress :: "qstring \<Rightarrow> qstring" where
  "FormatAddress s = format_loop 0 [] s"

definition pr_address :: "pay_env \<Rightarrow> PaymentRequest \<Rightarrow> qstring" where
  "pr_address env r = EncodeDestination env (pr_destination r)"

definition addressFormatted :: "pay_env \<Rightarrow> PaymentRequest \<Rightarrow> qstring" where
  "addressFormatted env r = FormatAddress (pr_address env r)"

definition derived_type :: "CTxDestination \<Rightarrow> qstring" where
  "derived_type d =
     (case d of
        PKHash _ \<Rightarrow> q ''Legacy''
      | ScriptHash _ \<Rightarrow> q ''P2SH-SegWit''
      | WitnessV0KeyHash _ \<Rightarrow> q ''Bech32''
      | WitnessV0ScriptHash _ \<Rightarrow> q ''Bech32''
      | WitnessV1Taproot _ \<Rightarrow> q ''Bech32m''
      | _ \<Rightarrow> [])"

definition addressType :: "PaymentRequest \<Rightarrow> qstring" where
  "addressType r = (if derived_type (pr_destination r) = [] then pr_address_type r else derived_type (pr_destination r))"

definition pr_setLabel :: "qstring \<Rightarrow> PaymentRequest \<Rightarrow> PaymentRequest \<times> pay_trace" where
  "pr_setLabel label r =
     (if pr_label r = label then (r, []) else let r' = r\<lparr>pr_label := label\<rparr> in (r', emit PayLabelChanged r'))"

definition pr_setMessage :: "qstring \<Rightarrow> PaymentRequest \<Rightarrow> PaymentRequest \<times> pay_trace" where
  "pr_setMessage message r =
     (if pr_message r = message then (r, []) else let r' = r\<lparr>pr_message := message\<rparr> in (r', emit PayMessageChanged r'))"

definition setAddressType :: "qstring \<Rightarrow> PaymentRequest \<Rightarrow> PaymentRequest \<times> pay_trace" where
  "setAddressType address_type r =
     (if pr_address_type r = address_type then (r, [])
      else let r' = r\<lparr>pr_address_type := address_type\<rparr> in (r', emit PayAddressTypeChanged r'))"

definition setNoteSelf :: "qstring \<Rightarrow> PaymentRequest \<Rightarrow> PaymentRequest \<times> pay_trace" where
  "setNoteSelf self_note r =
     (if pr_noteSelf r = self_note then (r, []) else let r' = r\<lparr>pr_noteSelf := self_note\<rparr> in (r', emit PayNoteSelfChanged r'))"

definition pr_setAmountError :: "qstring \<Rightarrow> PaymentRequest \<Rightarrow> PaymentRequest \<times> pay_trace" where
  "pr_setAmountError err r =
     (if pr_amountError r = err then (r, []) else let r' = r\<lparr>pr_amountError := err\<rparr> in (r', emit PayAmountErrorChanged r'))"

definition setId :: "nat \<Rightarrow> PaymentRequest \<Rightarrow> PaymentRequest \<times> pay_trace" where
  "setId i r =
     (let new_id = number_nat i
      in if pr_id r = new_id then (r, []) else let r' = r\<lparr>pr_id := new_id\<rparr> in (r', emit PayIdChanged r'))"

definition setNeedsUnlock :: "bool \<Rightarrow> PaymentRequest \<Rightarrow> PaymentRequest \<times> pay_trace" where
  "setNeedsUnlock needs_unlock r =
     (if pr_needs_unlock r = needs_unlock then (r, [])
      else let r' = r\<lparr>pr_needs_unlock := needs_unlock\<rparr> in (r', emit PayNeedsUnlockChanged r'))"

definition setUnlockError :: "qstring \<Rightarrow> PaymentRequest \<Rightarrow> PaymentRequest \<times> pay_trace" where
  "setUnlockError err r =
     (if pr_unlock_error r = err then (r, []) else let r' = r\<lparr>pr_unlock_error := err\<rparr> in (r', emit PayUnlockErrorChanged r'))"

definition setDestination :: "CTxDestination \<Rightarrow> PaymentRequest \<Rightarrow> PaymentRequest \<times> pay_trace" where
  "setDestination destination r =
     (let r' = r\<lparr>pr_destination := destination\<rparr> in (r', emit PayAddressChanged r' @ emit PayAddressTypeChanged r'))"

definition qrPayload :: "pay_env \<Rightarrow> PaymentRequest \<Rightarrow> qstring option" where
  "qrPayload env r =
     (if pr_payment_received r then Some []
      else let addr = pr_address env r
           in if addr = [] then Some []
              else BuildBitcoinUri (toPercentEncoding env) addr (m_satoshi (pr_amount r)) (pr_label r) (pr_message r))"

definition createdIso :: "pay_env \<Rightarrow> PaymentRequest \<Rightarrow> qstring" where
  "createdIso env r = (case pr_created r of None \<Rightarrow> [] | Some t \<Rightarrow> isoDate env t)"

definition setCreated :: "int option \<Rightarrow> PaymentRequest \<Rightarrow> PaymentRequest \<times> pay_trace" where
  "setCreated dt r =
     (if pr_created r = dt then (r, []) else let r' = r\<lparr>pr_created := dt\<rparr> in (r', emit CreatedIsoChanged r'))"

definition hasPaymentInfo :: "PaymentRequest \<Rightarrow> bool" where
  "hasPaymentInfo r \<longleftrightarrow> pr_label r \<noteq> [] \<or> pr_message r \<noteq> [] \<or> m_satoshi (pr_amount r) > 0"

definition setIsEditing :: "bool \<Rightarrow> PaymentRequest \<Rightarrow> PaymentRequest \<times> pay_trace" where
  "setIsEditing editing r =
     (if pr_is_editing r = editing then (r, []) else let r' = r\<lparr>pr_is_editing := editing\<rparr> in (r', emit IsEditingChanged r'))"

definition setPaymentReceived :: "bool \<Rightarrow> PaymentRequest \<Rightarrow> PaymentRequest \<times> pay_trace" where
  "setPaymentReceived received r =
     (if pr_payment_received r = received then (r, [])
      else let r' = r\<lparr>pr_payment_received := received\<rparr> in (r', emit PaymentReceivedChanged r' @ emit QrPayloadChanged r'))"

definition setReceivedAmountSatoshi :: "int \<Rightarrow> PaymentRequest \<Rightarrow> PaymentRequest \<times> pay_trace" where
  "setReceivedAmountSatoshi amount r =
     (if pr_received_amount r = amount then (r, [])
      else let r' = r\<lparr>pr_received_amount := amount\<rparr> in (r', emit ReceivedAmountChanged r'))"

definition pr_clear :: "PaymentRequest \<Rightarrow> PaymentRequest \<times> pay_trace" where
  "pr_clear r =
     (let r = r\<lparr>pr_payment_received := False\<rparr>;
          (r, tr1) = setReceivedAmountSatoshi 0 r;
          r = r\<lparr>pr_destination := CNoDestination, pr_label := [], pr_message := [], pr_address_type := [], pr_noteSelf := []\<rparr>;
          (amount, sigs) = amount_clear (pr_amount r);
          r = r\<lparr>pr_amount := amount\<rparr>;
          tr2 = emit_amount sigs r;
          r = r\<lparr>pr_amountError := [], pr_id := [], pr_needs_unlock := False, pr_unlock_error := [], pr_created := None,
                pr_is_editing := True\<rparr>
      in (r, tr1 @ tr2 @ concat (map (\<lambda>sig. emit sig r)
            [PayAddressChanged, PayLabelChanged, PayMessageChanged, PayAddressTypeChanged, PayNoteSelfChanged, PayAmountErrorChanged,
             PayIdChanged, PayNeedsUnlockChanged, PayUnlockErrorChanged, CreatedIsoChanged, IsEditingChanged, PaymentReceivedChanged])))"

definition pr_edit :: "PaymentRequest \<Rightarrow> PaymentRequest \<times> pay_trace" where
  "pr_edit r = setIsEditing True r"

text \<open>The operations on a request, those on its amount included: QML edits \<open>request.amount\<close> directly.\<close>

datatype PayOp =
  SetLabel qstring | SetMessage qstring | SetAddressType qstring | SetNoteSelf qstring | SetAmountError qstring | SetId nat |
  SetNeedsUnlock bool | SetUnlockError qstring | SetDestination CTxDestination | SetCreated "int option" | SetIsEditing bool |
  SetPaymentReceived bool | SetReceivedAmountSatoshi int | PayClear | PayEdit | OnAmount AmountOp

fun pay_step :: "int \<Rightarrow> PayOp \<Rightarrow> PaymentRequest \<Rightarrow> (PaymentRequest \<times> pay_trace) option" where
  "pay_step COIN (SetLabel s) r = Some (pr_setLabel s r)"
| "pay_step COIN (SetMessage s) r = Some (pr_setMessage s r)"
| "pay_step COIN (SetAddressType s) r = Some (setAddressType s r)"
| "pay_step COIN (SetNoteSelf s) r = Some (setNoteSelf s r)"
| "pay_step COIN (SetAmountError s) r = Some (pr_setAmountError s r)"
| "pay_step COIN (SetId i) r = Some (setId i r)"
| "pay_step COIN (SetNeedsUnlock b) r = Some (setNeedsUnlock b r)"
| "pay_step COIN (SetUnlockError s) r = Some (setUnlockError s r)"
| "pay_step COIN (SetDestination d) r = Some (setDestination d r)"
| "pay_step COIN (SetCreated dt) r = Some (setCreated dt r)"
| "pay_step COIN (SetIsEditing b) r = Some (setIsEditing b r)"
| "pay_step COIN (SetPaymentReceived b) r = Some (setPaymentReceived b r)"
| "pay_step COIN (SetReceivedAmountSatoshi n) r = Some (setReceivedAmountSatoshi n r)"
| "pay_step COIN PayClear r = Some (pr_clear r)"
| "pay_step COIN PayEdit r = Some (pr_edit r)"
| "pay_step COIN (OnAmount op) r =
     (case amount_step COIN op (pr_amount r) of
        None \<Rightarrow> None
      | Some (a, sigs) \<Rightarrow> let r' = r\<lparr>pr_amount := a\<rparr> in Some (r', emit_amount sigs r'))"

text \<open>The properties that QML binds to, how each is read and the signal declared for it.\<close>

datatype PayProperty =
  P_address | P_addressFormatted | P_label | P_message | P_addressType | P_noteSelf | P_amountError | P_id | P_needsUnlock |
  P_unlockError | P_qrPayload | P_createdIso | P_hasPaymentInfo | P_isEditing | P_paymentReceived | P_receivedAmountSatoshi

datatype pay_value = PayText "qstring option" | PayBool bool | PayInt int

fun pay_read :: "pay_env \<Rightarrow> PayProperty \<Rightarrow> PaymentRequest \<Rightarrow> pay_value" where
  "pay_read env P_address r = PayText (Some (pr_address env r))"
| "pay_read env P_addressFormatted r = PayText (Some (addressFormatted env r))"
| "pay_read env P_label r = PayText (Some (pr_label r))"
| "pay_read env P_message r = PayText (Some (pr_message r))"
| "pay_read env P_addressType r = PayText (Some (addressType r))"
| "pay_read env P_noteSelf r = PayText (Some (pr_noteSelf r))"
| "pay_read env P_amountError r = PayText (Some (pr_amountError r))"
| "pay_read env P_id r = PayText (Some (pr_id r))"
| "pay_read env P_needsUnlock r = PayBool (pr_needs_unlock r)"
| "pay_read env P_unlockError r = PayText (Some (pr_unlock_error r))"
| "pay_read env P_qrPayload r = PayText (qrPayload env r)"
| "pay_read env P_createdIso r = PayText (Some (createdIso env r))"
| "pay_read env P_hasPaymentInfo r = PayBool (hasPaymentInfo r)"
| "pay_read env P_isEditing r = PayBool (pr_is_editing r)"
| "pay_read env P_paymentReceived r = PayBool (pr_payment_received r)"
| "pay_read env P_receivedAmountSatoshi r = PayInt (pr_received_amount r)"

fun pay_notify :: "PayProperty \<Rightarrow> PaySignal" where
  "pay_notify P_address = PayAddressChanged"
| "pay_notify P_addressFormatted = PayAddressChanged"
| "pay_notify P_label = PayLabelChanged"
| "pay_notify P_message = PayMessageChanged"
| "pay_notify P_addressType = PayAddressTypeChanged"
| "pay_notify P_noteSelf = PayNoteSelfChanged"
| "pay_notify P_amountError = PayAmountErrorChanged"
| "pay_notify P_id = PayIdChanged"
| "pay_notify P_needsUnlock = PayNeedsUnlockChanged"
| "pay_notify P_unlockError = PayUnlockErrorChanged"
| "pay_notify P_qrPayload = QrPayloadChanged"
| "pay_notify P_createdIso = CreatedIsoChanged"
| "pay_notify P_hasPaymentInfo = QrPayloadChanged"
| "pay_notify P_isEditing = IsEditingChanged"
| "pay_notify P_paymentReceived = PaymentReceivedChanged"
| "pay_notify P_receivedAmountSatoshi = ReceivedAmountChanged"

section \<open>Bindings\<close>

text \<open>
  A binding evaluates its property whenever the signal is emitted, in the state that slot sees, and
  shows the value it read last. A component whose operations end with every binding on the current
  value keeps its bindings current over any sequence of operations.
\<close>

definition shown :: "'sig \<Rightarrow> ('s \<Rightarrow> 'v) \<Rightarrow> ('sig \<times> 's) list \<Rightarrow> 'v \<Rightarrow> 'v" where
  "shown sig view tr v = fold (\<lambda>(s, st) v. if s = sig then view st else v) tr v"

fun watch_run :: "('op \<Rightarrow> 's \<Rightarrow> ('s \<times> ('sig \<times> 's) list) option) \<Rightarrow> ('s \<Rightarrow> 'v) \<Rightarrow> 'sig \<Rightarrow> 'op list \<Rightarrow> 's \<times> 'v \<Rightarrow> ('s \<times> 'v) option" where
  "watch_run step view sig [] sv = Some sv"
| "watch_run step view sig (op # ops) (s, v) =
     (case step op s of None \<Rightarrow> None | Some (s', tr) \<Rightarrow> watch_run step view sig ops (s', shown sig view tr v))"

locale traced =
  fixes step :: "'op \<Rightarrow> 's \<Rightarrow> ('s \<times> ('sig \<times> 's) list) option"
    and view :: "'s \<Rightarrow> 'v"
    and sig :: 'sig
  assumes step_shown: "step op s = Some (s', tr) \<Longrightarrow> shown sig view tr (view s) = view s'"
begin

lemma watch_current: "watch_run step view sig ops (s, view s) = Some (s', v) \<Longrightarrow> v = view s'"
  by (induction ops arbitrary: s) (auto simp: step_shown split: option.splits)

end

lemma shown_simps [simp]:
  "shown sig view [] v = v"
  "shown sig view ((s, st) # tr) v = shown sig view tr (if s = sig then view st else v)"
  by (simp_all add: shown_def)

lemma shown_append [simp]: "shown sig view (tr @ tr') v = shown sig view tr' (shown sig view tr v)"
  by (simp add: shown_def)

lemma shown_emit [simp]:
  "shown sig view (emit s r) v = (if s = sig \<or> sig = QrPayloadChanged \<and> s \<in> {PayAddressChanged, PayLabelChanged, PayMessageChanged}
     then view r else v)"
  by (auto simp: emit_def)

lemma shown_emit_amount [simp]:
  "shown sig view (emit_amount sigs r) v = (if sig = QrPayloadChanged \<and> amountChanged \<in> set sigs then view r else v)"
proof -
  have "shown sig view (map (\<lambda>_. (QrPayloadChanged, r)) xs) v = (if sig = QrPayloadChanged \<and> xs \<noteq> [] then view r else v)" for xs :: "AmountSignal list"
    by (induction xs arbitrary: v) auto
  moreover have "filter (\<lambda>s. s = amountChanged) sigs \<noteq> [] \<longleftrightarrow> amountChanged \<in> set sigs" by (auto simp: filter_empty_conv)
  ultimately show ?thesis by (simp add: emit_amount_def)
qed

text \<open>What a property reads.\<close>

lemma pay_read_amount:
  "m_satoshi a = m_satoshi (pr_amount r) \<or> pay_notify p \<noteq> QrPayloadChanged \<Longrightarrow> pay_read env p (r\<lparr>pr_amount := a\<rparr>) = pay_read env p r"
  by (cases p) (simp_all add: pr_address_def addressFormatted_def addressType_def qrPayload_def createdIso_def hasPaymentInfo_def Let_def)

lemmas pay_read_defs = pr_address_def addressFormatted_def addressType_def qrPayload_def createdIso_def hasPaymentInfo_def

lemmas pay_setter_defs = pr_setLabel_def pr_setMessage_def setAddressType_def setNoteSelf_def pr_setAmountError_def setId_def setNeedsUnlock_def
  setUnlockError_def setDestination_def setCreated_def setIsEditing_def setPaymentReceived_def setReceivedAmountSatoshi_def pr_edit_def

lemma pay_clear_shown: "pr_clear r = (r', tr) \<Longrightarrow> shown (pay_notify p) (pay_read env p) tr (pay_read env p r) = pay_read env p r'"
  by (cases p) (auto simp: pr_clear_def setReceivedAmountSatoshi_def pay_read_defs Let_def split: prod.splits if_splits)

lemma pay_amount_shown:
  assumes "pay_step COIN (OnAmount op) r = Some (r', tr)"
  shows "shown (pay_notify p) (pay_read env p) tr (pay_read env p r) = pay_read env p r'"
proof -
  obtain a sigs where a: "amount_step COIN op (pr_amount r) = Some (a, sigs)" and r: "r' = r\<lparr>pr_amount := a\<rparr>" "tr = emit_amount sigs r'"
    using assms by (auto simp: Let_def split: option.splits)
  show ?thesis
  proof (cases "pay_notify p = QrPayloadChanged \<and> amountChanged \<in> set sigs")
    case False
    then have "m_satoshi a = m_satoshi (pr_amount r) \<or> pay_notify p \<noteq> QrPayloadChanged" using amount_step_cases [OF a] by auto
    then show ?thesis using False pay_read_amount [of a r p env] by (auto simp: r)
  qed (simp add: r)
qed

lemma pay_step_shown:
  assumes "pay_step COIN op r = Some (r', tr)"
  shows "shown (pay_notify p) (pay_read env p) tr (pay_read env p r) = pay_read env p r'"
proof (cases op)
  case PayClear
  with assms show ?thesis using pay_clear_shown by simp
next
  case (OnAmount aop)
  with assms show ?thesis using pay_amount_shown by blast
qed (use assms in \<open>cases p; auto simp: pay_setter_defs pay_read_defs Let_def split: if_splits\<close>)+

interpretation pay: traced "pay_step COIN" "pay_read env p" "pay_notify p"
  by unfold_locales (rule pay_step_shown)

section \<open>Properties\<close>

text \<open>
  C34: the receive page never shows a stale value. For every property that the request declares to QML,
  a binding that re-reads it on the signal declared for it, at the moment of each emission, shows the
  current value after any sequence of operations on the request and on its amount, clearing it included.
\<close>

theorem payment_request_current:
  "watch_run (pay_step COIN) (pay_read env p) (pay_notify p) ops (r, pay_read env p r) = Some (r', v) \<Longrightarrow> v = pay_read env p r'"
  by (rule pay.watch_current)

definition demo_env :: pay_env where
  "demo_env = \<lparr>EncodeDestination = (\<lambda>d. case d of WitnessV0KeyHash n \<Rightarrow> q ''bc1q'' @ number_nat n | _ \<Rightarrow> []),
     toPercentEncoding = pct, isoDate = number\<rparr>"

theorem payment_request_current_witness:
  "\<exists>(r' :: PaymentRequest) v. watch_run (pay_step 100000000) (pay_read demo_env P_qrPayload) QrPayloadChanged
       [SetDestination (WitnessV0KeyHash 7), SetLabel (q ''x''), OnAmount (SetSatoshi 5), SetPaymentReceived True]
       (new_PaymentRequest, pay_read demo_env P_qrPayload new_PaymentRequest) = Some (r', v) \<and> v = PayText (Some [])"
proof -
  let ?run = "watch_run (pay_step 100000000) (pay_read demo_env P_qrPayload) QrPayloadChanged
       [SetDestination (WitnessV0KeyHash 7), SetLabel (q ''x''), OnAmount (SetSatoshi 5), SetPaymentReceived True]
       (new_PaymentRequest, pay_read demo_env P_qrPayload new_PaymentRequest)"
  have "(case ?run of None \<Rightarrow> False | Some (r', v) \<Rightarrow> pay_read demo_env P_qrPayload r' = PayText (Some []))" by code_simp
  then obtain r' v where r: "?run = Some (r', v)" "pay_read demo_env P_qrPayload r' = PayText (Some [])" by (auto split: option.splits)
  then have "v = PayText (Some [])" using payment_request_current [of 100000000 demo_env P_qrPayload] by (metis pay_notify.simps(11))
  with r show ?thesis by blast
qed

text \<open>
  C20: what the QR code says. Once the payment has arrived, or without an address, the code is empty;
  otherwise, for a valid address and an amount within the limit on money, the code is a payment URI that
  the application itself reads back as exactly the request's address, amount, label and message.
\<close>

theorem qr_payload_pays:
  assumes "url_laws uenv (toPercentEncoding env) decode" "money_law uenv"
    and "list_all alnum (pr_address env r)" "IsValidAddress uenv (pr_address env r)" "m_satoshi (pr_amount r) \<le> MAX_MONEY"
    and "utf16_ok (pr_label r)" "utf16_ok (pr_message r)"
  shows "if pr_payment_received r \<or> pr_address env r = [] then qrPayload env r = Some []
     else \<exists>uri. qrPayload env r = Some uri \<and>
       Parse uenv uri =
         \<lparr>success = True, uri_error = [], uri_address = pr_address env r,
          amount_sats = (if m_satoshi (pr_amount r) > 0 then m_satoshi (pr_amount r) else 0), has_amount = (m_satoshi (pr_amount r) > 0),
          uri_label = pr_label r, has_label = (pr_label r \<noteq> []), uri_message = pr_message r, has_message = (pr_message r \<noteq> [])\<rparr>"
proof (cases "pr_payment_received r \<or> pr_address env r = []")
  case True
  then show ?thesis by (auto simp: qrPayload_def Let_def)
next
  case False
  obtain uri where u: "BuildBitcoinUri (toPercentEncoding env) (pr_address env r) (m_satoshi (pr_amount r)) (pr_label r) (pr_message r) = Some uri"
    using built_uri_exists [OF assms(5)] by blast
  then have "qrPayload env r = Some uri" using False by (simp add: qrPayload_def Let_def)
  with False parse_built_uri [OF assms(1,2) _ assms(3-7) u] show ?thesis by auto
qed

theorem qr_payload_pays_witness:
  "\<exists>(r :: PaymentRequest) uri. qrPayload demo_env r = Some uri \<and> uri_address (Parse plain_env uri) = q ''bc1q7'' \<and>
     uri_label (Parse plain_env uri) = q ''x y''"
proof -
  define r :: PaymentRequest where "r = new_PaymentRequest\<lparr>pr_destination := WitnessV0KeyHash 7, pr_label := q ''x y''\<rparr>"
  have a: "pr_address demo_env r = q ''bc1q7''" unfolding r_def by code_simp
  have f: "pr_label r = q ''x y''" "pr_message r = []" "m_satoshi (pr_amount r) = 0" "\<not> pr_payment_received r" "toPercentEncoding demo_env = pct"
    by (simp_all add: r_def new_PaymentRequest_def new_BitcoinAmount_def demo_env_def)
  have h: "list_all alnum (q ''bc1q7'')" "IsValidAddress plain_env (q ''bc1q7'')" "utf16_ok (q ''x y'')" "(0::int) \<le> MAX_MONEY" "utf16_ok []"
    by code_simp+
  have "\<not> (pr_payment_received r \<or> pr_address demo_env r = [])" using a f by simp
  moreover note qr_payload_pays [of plain_env demo_env unpct r, unfolded a f, OF plain_env_laws h(1,2,4,3,5)]
  ultimately show ?thesis unfolding a by (intro exI [of _ r]) (auto simp del: q_simps)
qed

end
