(* ===== verification/Rpc.thy ===== *)
theory Rpc
  imports Prelude
begin

text \<open>
  \<open>src/qml/models/rpccommandexecutor.{h,cpp}\<close>: the parser of the RPC console, which splits a command
  line, runs the commands it contains and hides the arguments of sensitive commands. A byte string is a
  list of numbers. The parser is a state machine over the bytes; its variables are the record
  \<open>parser\<close>, the stack of argument lists with its last element first. Exceptions, failed assertions and
  accesses outside a vector (undefined behaviour) are values of \<open>rpc_error\<close>. The node, the functions of
  \<open>UniValue\<close>, the conversion of parameters and Qt's case folding are the functions of the record
  \<open>rpc_env\<close>; a call of the node may depend on the calls made before.
\<close>

section \<open>Definitions\<close>

datatype rpc_error = Thrown bytes | RpcError UniValue | Undefined | Assertion

type_synonym rpc_call = "bytes \<times> UniValue \<times> bytes"

record rpc_env =
  casefold :: "bytes \<Rightarrow> bytes"
  uv_write :: "UniValue \<Rightarrow> bytes"
  uv_at :: "UniValue \<Rightarrow> nat \<Rightarrow> UniValue"
  uv_find :: "UniValue \<Rightarrow> bytes \<Rightarrow> UniValue"
  ToIntegral :: "bytes \<Rightarrow> nat option"
  ConvertValues :: "bytes \<Rightarrow> bytes list \<Rightarrow> rpc_error + UniValue"
  executeRpc :: "rpc_call list \<Rightarrow> rpc_call \<Rightarrow> rpc_error + UniValue"
  walletPath :: "bytes \<Rightarrow> bytes"

fun ebind :: "'e + 'a \<Rightarrow> ('a \<Rightarrow> 'e + 'b) \<Rightarrow> 'e + 'b" where
  "ebind (Inl e) f = Inl e"
| "ebind (Inr x) f = f x"

datatype CmdParseState =
  STATE_EATING_SPACES | STATE_EATING_SPACES_IN_ARG | STATE_EATING_SPACES_IN_BRACKETS | STATE_ARGUMENT | STATE_SINGLEQUOTED |
  STATE_DOUBLEQUOTED | STATE_ESCAPE_OUTER | STATE_ESCAPE_DOUBLEQUOTED | STATE_COMMAND_EXECUTED | STATE_COMMAND_EXECUTED_INNER

record parser =
  ps_stack :: "bytes list list"
  ps_state :: CmdParseState
  ps_curarg :: bytes
  ps_last :: UniValue
  ps_depth :: nat
  ps_begin :: nat
  ps_ranges :: "(nat \<times> nat) list"
  ps_result :: bytes
  ps_calls :: "rpc_call list"

definition new_parser :: parser where
  "new_parser = \<lparr>ps_stack = [[]], ps_state = STATE_EATING_SPACES, ps_curarg = [], ps_last = VNULL, ps_depth = 0, ps_begin = 0,
     ps_ranges = [], ps_result = [], ps_calls = []\<rparr>"

definition HISTORY_FILTER :: "bytes list" where
  "HISTORY_FILTER = [q ''signmessagewithprivkey'', q ''signrawtransactionwithkey'', q ''walletpassphrase'', q ''walletpassphrasechange'',
     q ''encryptwallet'']"

definition sensitive :: "rpc_env \<Rightarrow> bytes \<Rightarrow> bool" where
  "sensitive env arg \<longleftrightarrow> list_ex (\<lambda>f. casefold env f = casefold env arg) HISTORY_FILTER"

text \<open>\<open>stack.back()\<close> is read before the test for an empty stack.\<close>

definition add_to_current_stack :: "rpc_env \<Rightarrow> nat \<Rightarrow> bytes \<Rightarrow> parser \<Rightarrow> rpc_error + parser" where
  "add_to_current_stack env chpos arg s =
     (case ps_stack s of
        [] \<Rightarrow> Inl Undefined
      | frame # rest \<Rightarrow>
          let s1 = (if frame = [] \<and> ps_depth s = 0 \<and> sensitive env arg then s\<lparr>ps_depth := 1, ps_begin := chpos\<rparr> else s)
          in Inr (s1\<lparr>ps_stack := (frame @ [arg]) # rest\<rparr>))"

definition close_out_params :: "nat \<Rightarrow> parser \<Rightarrow> rpc_error + parser" where
  "close_out_params chpos s =
     ebind
       (if ps_depth s \<noteq> 0 then
          if ps_depth s - 1 = 0 then
            if ps_begin s = 0 then Inl Assertion
            else Inr (s\<lparr>ps_depth := 0, ps_ranges := ps_ranges s @ [(ps_begin s, chpos)], ps_begin := 0\<rparr>)
          else Inr (s\<lparr>ps_depth := ps_depth s - 1\<rparr>)
        else Inr s)
       (\<lambda>s. case ps_stack s of [] \<Rightarrow> Inl Undefined | _ # rest \<Rightarrow> Inr (s\<lparr>ps_stack := rest\<rparr>))"

definition result_text :: "rpc_env \<Rightarrow> UniValue \<Rightarrow> bytes" where
  "result_text env v = (case v of VSTR t \<Rightarrow> t | _ \<Rightarrow> uv_write env v)"

definition subscript :: "rpc_env \<Rightarrow> bytes \<Rightarrow> UniValue \<Rightarrow> rpc_error + UniValue" where
  "subscript env key v =
     (case v of
        VARR _ \<Rightarrow> (case ToIntegral env key of None \<Rightarrow> Inl (Thrown (q ''Invalid result query'')) | Some i \<Rightarrow> Inr (uv_at env v i))
      | VOBJ _ \<Rightarrow> Inr (uv_find env v key)
      | _ \<Rightarrow> Inl (Thrown (q ''Invalid result query'')))"

text \<open>The states after a command; the flag tells that the byte is done with.\<close>

definition executed_char :: "rpc_env \<Rightarrow> bool \<Rightarrow> nat \<Rightarrow> nat \<Rightarrow> parser \<Rightarrow> rpc_error + (parser \<times> bool)" where
  "executed_char env fExecute chpos ch s =
     (if ch = 91 then Inr (s\<lparr>ps_curarg := [], ps_state := STATE_COMMAND_EXECUTED_INNER\<rparr>, True)
      else if ps_state s = STATE_COMMAND_EXECUTED_INNER then
        if ch \<noteq> 93 then Inr (s\<lparr>ps_curarg := ps_curarg s @ [ch]\<rparr>, True)
        else ebind (if ps_curarg s \<noteq> [] \<and> fExecute then subscript env (ps_curarg s) (ps_last s) else Inr (ps_last s))
               (\<lambda>v. Inr (s\<lparr>ps_last := v, ps_state := STATE_COMMAND_EXECUTED\<rparr>, True))
      else
        ebind (close_out_params chpos s) (\<lambda>s.
          let curarg = result_text env (ps_last s)
          in ebind (if curarg \<noteq> [] then
                      if ps_stack s \<noteq> [] then add_to_current_stack env chpos curarg s else Inr (s\<lparr>ps_result := curarg\<rparr>)
                    else Inr s)
               (\<lambda>s. Inr (s\<lparr>ps_curarg := [], ps_state := STATE_EATING_SPACES\<rparr>, False))))"

definition run_command :: "rpc_env \<Rightarrow> bytes \<Rightarrow> parser \<Rightarrow> rpc_error + parser" where
  "run_command env wallet_name s =
     (case hd (ps_stack s) of
        [] \<Rightarrow> Inl Undefined
      | method # args \<Rightarrow>
          ebind (ConvertValues env method args) (\<lambda>params.
            let call = (method, params, if wallet_name \<noteq> [] then walletPath env wallet_name else [])
            in ebind (executeRpc env (ps_calls s) call) (\<lambda>v. Inr (s\<lparr>ps_last := v, ps_calls := ps_calls s @ [call]\<rparr>))))"

definition finish_command :: "rpc_env \<Rightarrow> bool \<Rightarrow> bytes \<Rightarrow> nat \<Rightarrow> parser \<Rightarrow> rpc_error + parser" where
  "finish_command env fExecute wallet_name ch s =
     (if (ch = 41 \<or> ch = 10) \<and> ps_stack s \<noteq> [] then
        ebind (if fExecute then run_command env wallet_name s else Inr s)
          (\<lambda>s. Inr (s\<lparr>ps_state := STATE_COMMAND_EXECUTED, ps_curarg := []\<rparr>))
      else Inr s)"

definition bracket_char :: "rpc_env \<Rightarrow> bool \<Rightarrow> bytes \<Rightarrow> nat \<Rightarrow> nat \<Rightarrow> parser \<Rightarrow> rpc_error + parser" where
  "bracket_char env fExecute wallet_name chpos ch s =
     (if ps_state s = STATE_EATING_SPACES_IN_ARG then Inl (Thrown (q ''Invalid Syntax''))
      else
        ebind
          (if ps_state s = STATE_ARGUMENT then
             let s1 = (if ch = 40 \<and> ps_stack s \<noteq> [] \<and> hd (ps_stack s) \<noteq> []
                       then s\<lparr>ps_depth := (if ps_depth s \<noteq> 0 then ps_depth s + 1 else 0), ps_stack := [] # ps_stack s\<rparr> else s)
             in if ps_stack s1 = [] then Inl (Thrown (q ''Invalid Syntax''))
                else ebind (add_to_current_stack env chpos (ps_curarg s1) s1)
                       (\<lambda>s. Inr (s\<lparr>ps_curarg := [], ps_state := STATE_EATING_SPACES_IN_BRACKETS\<rparr>))
           else Inr s)
          (finish_command env fExecute wallet_name ch))"

definition space_char :: "rpc_env \<Rightarrow> nat \<Rightarrow> nat \<Rightarrow> parser \<Rightarrow> rpc_error + parser" where
  "space_char env chpos ch s =
     (if ps_state s = STATE_EATING_SPACES_IN_ARG \<and> ps_curarg s = [] \<and> ch = 44 then Inl (Thrown (q ''Invalid Syntax''))
      else
        ebind (if ps_state s = STATE_ARGUMENT
               then ebind (add_to_current_stack env chpos (ps_curarg s) s) (\<lambda>s. Inr (s\<lparr>ps_curarg := []\<rparr>)) else Inr s)
          (\<lambda>s'. if (ps_state s' = STATE_EATING_SPACES_IN_BRACKETS \<or> ps_state s' = STATE_ARGUMENT) \<and> ch = 44
                 then Inr (s'\<lparr>ps_state := STATE_EATING_SPACES_IN_ARG\<rparr>)
                 else Inr (s'\<lparr>ps_state := STATE_EATING_SPACES\<rparr>)))"

definition outer_char :: "rpc_env \<Rightarrow> bool \<Rightarrow> bytes \<Rightarrow> nat \<Rightarrow> nat \<Rightarrow> parser \<Rightarrow> rpc_error + parser" where
  "outer_char env fExecute wallet_name chpos ch s =
     (if ch = 34 then Inr (s\<lparr>ps_state := STATE_DOUBLEQUOTED\<rparr>)
      else if ch = 39 then Inr (s\<lparr>ps_state := STATE_SINGLEQUOTED\<rparr>)
      else if ch = 92 then Inr (s\<lparr>ps_state := STATE_ESCAPE_OUTER\<rparr>)
      else if ch = 40 \<or> ch = 41 \<or> ch = 10 then bracket_char env fExecute wallet_name chpos ch s
      else if ch = 32 \<or> ch = 44 \<or> ch = 9 then space_char env chpos ch s
      else Inr (s\<lparr>ps_curarg := ps_curarg s @ [ch], ps_state := STATE_ARGUMENT\<rparr>))"

definition rpc_char :: "rpc_env \<Rightarrow> bool \<Rightarrow> bytes \<Rightarrow> nat \<Rightarrow> nat \<Rightarrow> parser \<Rightarrow> rpc_error + parser" where
  "rpc_char env fExecute wallet_name chpos ch s =
     (if ps_state s = STATE_COMMAND_EXECUTED \<or> ps_state s = STATE_COMMAND_EXECUTED_INNER then
        ebind (executed_char env fExecute chpos ch s)
          (\<lambda>(s, breakParsing). if breakParsing then Inr s else outer_char env fExecute wallet_name chpos ch s)
      else if ps_state s = STATE_SINGLEQUOTED then
        Inr (if ch = 39 then s\<lparr>ps_state := STATE_ARGUMENT\<rparr> else s\<lparr>ps_curarg := ps_curarg s @ [ch]\<rparr>)
      else if ps_state s = STATE_DOUBLEQUOTED then
        Inr (if ch = 34 then s\<lparr>ps_state := STATE_ARGUMENT\<rparr>
             else if ch = 92 then s\<lparr>ps_state := STATE_ESCAPE_DOUBLEQUOTED\<rparr>
             else s\<lparr>ps_curarg := ps_curarg s @ [ch]\<rparr>)
      else if ps_state s = STATE_ESCAPE_OUTER then Inr (s\<lparr>ps_curarg := ps_curarg s @ [ch], ps_state := STATE_ARGUMENT\<rparr>)
      else if ps_state s = STATE_ESCAPE_DOUBLEQUOTED then
        Inr (s\<lparr>ps_curarg := ps_curarg s @ (if ch \<noteq> 34 \<and> ch \<noteq> 92 then [92] else []) @ [ch], ps_state := STATE_DOUBLEQUOTED\<rparr>)
      else outer_char env fExecute wallet_name chpos ch s)"

fun rpc_loop :: "rpc_env \<Rightarrow> bool \<Rightarrow> bytes \<Rightarrow> nat \<Rightarrow> bytes \<Rightarrow> parser \<Rightarrow> rpc_error + parser" where
  "rpc_loop env fExecute wallet_name chpos [] s = Inr s"
| "rpc_loop env fExecute wallet_name chpos (ch # chs) s =
     ebind (rpc_char env fExecute wallet_name chpos ch s) (rpc_loop env fExecute wallet_name (chpos + 1) chs)"

definition terminated :: "bytes \<Rightarrow> bytes" where
  "terminated cmd = (if last cmd \<noteq> 10 then cmd @ [10] else cmd)"

text \<open>\<open>(\<^verbatim>\<open>...\<close>)\<close>, with an ellipsis in UTF-8.\<close>

definition HIDDEN :: bytes where "HIDDEN = [40, 226, 128, 166, 41]"

fun replace_ranges :: "(nat \<times> nat) list \<Rightarrow> bytes \<Rightarrow> rpc_error + bytes" where
  "replace_ranges [] t = Inr t"
| "replace_ranges ((first, second) # rs) t =
     (if first > length t then Inl (Thrown (q ''basic_string::replace''))
      else replace_ranges rs (take first t @ HIDDEN @ drop (first + (second - first)) t))"

definition final_close :: "nat \<Rightarrow> parser \<Rightarrow> rpc_error + parser" where
  "final_close chpos s =
     (if ps_state s = STATE_COMMAND_EXECUTED then if ps_stack s = [] then Inl Assertion else close_out_params chpos s else Inr s)"

record rpc_outcome =
  returned :: bool
  strResult :: bytes
  filteredOut :: "bytes option"
  node_calls :: "rpc_call list"

definition RPCParseCommandLine :: "rpc_env \<Rightarrow> bool \<Rightarrow> bool \<Rightarrow> bytes \<Rightarrow> bytes \<Rightarrow> rpc_error + rpc_outcome" where
  "RPCParseCommandLine env fExecute want_filtered wallet_name strCommand =
     (if strCommand = [] then Inl Undefined
      else
        ebind (rpc_loop env fExecute wallet_name 0 (terminated strCommand) new_parser) (\<lambda>s.
          ebind
            (if want_filtered then
               ebind (final_close (length (terminated strCommand)) s) (\<lambda>s.
                 ebind (replace_ranges (rev (ps_ranges s)) strCommand) (\<lambda>t. Inr (s, Some t)))
             else Inr (s, None))
            (\<lambda>(s, filtered). Inr
               \<lparr>returned = (ps_state s \<in> {STATE_COMMAND_EXECUTED, STATE_ARGUMENT, STATE_EATING_SPACES}),
                strResult = (if ps_state s = STATE_COMMAND_EXECUTED then result_text env (ps_last s) else ps_result s),
                filteredOut = filtered, node_calls = ps_calls s\<rparr>)))"

definition RPCExecuteCommandLine :: "rpc_env \<Rightarrow> bytes \<Rightarrow> bytes \<Rightarrow> rpc_error + rpc_outcome" where
  "RPCExecuteCommandLine env wallet_name strCommand = RPCParseCommandLine env True False wallet_name strCommand"

section \<open>The invariant of the parser\<close>

text \<open>
  A frame of the stack is sensitive when its command is. The depth counter is the number of frames
  from the outermost sensitive one to the top.
\<close>

definition sens_frame :: "rpc_env \<Rightarrow> bytes list \<Rightarrow> bool" where
  "sens_frame env f \<longleftrightarrow> f \<noteq> [] \<and> sensitive env (hd f)"

definition sens_open :: "rpc_env \<Rightarrow> parser \<Rightarrow> bool" where
  "sens_open env s \<longleftrightarrow> list_ex (sens_frame env) (ps_stack s)"

definition open_depth :: "rpc_env \<Rightarrow> bytes list list \<Rightarrow> nat" where
  "open_depth env st = length (dropWhile (\<lambda>f. \<not> sens_frame env f) (rev st))"

fun ranges_ok :: "nat \<Rightarrow> (nat \<times> nat) list \<Rightarrow> bool" where
  "ranges_ok n [] \<longleftrightarrow> True"
| "ranges_ok n ((b, e) # rs) \<longleftrightarrow> b < e \<and> e \<le> n \<and> ranges_ok b rs"

definition core_inv :: "rpc_env \<Rightarrow> nat \<Rightarrow> bytes list list \<Rightarrow> nat \<Rightarrow> nat \<Rightarrow> (nat \<times> nat) list \<Rightarrow> bool" where
  "core_inv env i st d b rs \<longleftrightarrow>
     (st = [[]] \<or> list_all (\<lambda>f. f \<noteq> []) st) \<and> d = open_depth env st \<and>
     (if d = 0 then b = 0 \<and> ranges_ok i (rev rs) else 0 < b \<and> b < i \<and> ranges_ok b (rev rs))"

text \<open>How the counter and the ranges move when the byte at position \<open>i\<close> is read.\<close>

definition moved :: "nat \<Rightarrow> nat \<Rightarrow> nat \<Rightarrow> (nat \<times> nat) list \<Rightarrow> nat \<Rightarrow> nat \<Rightarrow> (nat \<times> nat) list \<Rightarrow> bool" where
  "moved i d b rs d' b' rs' \<longleftrightarrow>
     (if d > 0 \<and> d' = 0 then rs' = rs @ [(b, i)] \<and> b' = 0
      else rs' = rs \<and> b' = (if d = 0 \<and> d' > 0 then i else b))"

definition rpc_inv :: "rpc_env \<Rightarrow> nat \<Rightarrow> parser \<Rightarrow> bool" where
  "rpc_inv env i s \<longleftrightarrow>
     core_inv env i (ps_stack s) (ps_depth s) (ps_begin s) (ps_ranges s) \<and>
     (ps_state s \<in> {STATE_COMMAND_EXECUTED, STATE_COMMAND_EXECUTED_INNER} \<longrightarrow> ps_stack s \<noteq> []) \<and>
     (i = 0 \<longrightarrow> ps_state s = STATE_EATING_SPACES)"

definition step_to :: "rpc_env \<Rightarrow> nat \<Rightarrow> parser \<Rightarrow> parser \<Rightarrow> bool" where
  "step_to env i s s' \<longleftrightarrow>
     core_inv env (Suc i) (ps_stack s') (ps_depth s') (ps_begin s') (ps_ranges s') \<and>
     moved i (ps_depth s) (ps_begin s) (ps_ranges s) (ps_depth s') (ps_begin s') (ps_ranges s')"

text \<open>No failed assertion, and the postcondition if the computation returns.\<close>

definition sound :: "('a \<Rightarrow> bool) \<Rightarrow> rpc_error + 'a \<Rightarrow> bool" where
  "sound P m \<longleftrightarrow> (case m of Inl e \<Rightarrow> e \<noteq> Assertion | Inr x \<Rightarrow> P x)"

definition env_sound :: "rpc_env \<Rightarrow> bool" where
  "env_sound env \<longleftrightarrow> (\<forall>m a. ConvertValues env m a \<noteq> Inl Assertion) \<and> (\<forall>cs c. executeRpc env cs c \<noteq> Inl Assertion)"

lemma sound_simps [simp]:
  "sound P (Inr x) = P x" "sound P (Inl e) \<longleftrightarrow> e \<noteq> Assertion" "sound P (ebind m f) = sound (\<lambda>x. sound P (f x)) m"
  by (cases m; simp add: sound_def)+

lemma sound_if [simp]: "sound P (if c then m else n) \<longleftrightarrow> (if c then sound P m else sound P n)"
  by simp

lemma sound_mono: "sound P m \<Longrightarrow> (\<And>x. P x \<Longrightarrow> Q x) \<Longrightarrow> sound Q m"
  by (simp add: sound_def split: sum.splits)

lemma open_depth_simps [simp]:
  "open_depth env [] = 0"
  "open_depth env (f # st) = (if open_depth env st > 0 then Suc (open_depth env st) else if sens_frame env f then 1 else 0)"
proof -
  show "open_depth env [] = 0" by (simp add: open_depth_def)
  have d: "dropWhile P (xs @ [x]) = (if dropWhile P xs \<noteq> [] then dropWhile P xs @ [x] else if P x then [] else [x])" for P and xs :: "'x list" and x
    by (induction xs) auto
  show "open_depth env (f # st) = (if open_depth env st > 0 then Suc (open_depth env st) else if sens_frame env f then 1 else 0)"
    by (auto simp: open_depth_def d)
qed

lemma sens_open_depth: "open_depth env (ps_stack s) > 0 \<longleftrightarrow> sens_open env s"
proof -
  have "open_depth env st > 0 \<longleftrightarrow> list_ex (sens_frame env) st" for st by (induction st) auto
  then show ?thesis by (simp add: sens_open_def)
qed

lemma ranges_ok_mono: "ranges_ok n rs \<Longrightarrow> n \<le> m \<Longrightarrow> ranges_ok m rs"
  by (cases rs) auto

lemma core_idle: "core_inv env i st d b rs \<Longrightarrow> core_inv env (Suc i) st d b rs"
  by (auto simp: core_inv_def intro: ranges_ok_mono split: if_splits)

lemma sens_frame_snoc: "f \<noteq> [] \<Longrightarrow> sens_frame env (f @ [a]) = sens_frame env f"
  by (simp add: sens_frame_def)

text \<open>The three ways the stack changes.\<close>

lemma core_add:
  assumes "core_inv env i (f # st) d b rs" "f \<noteq> []"
  shows "core_inv env i ((f @ [a]) # st) d b rs"
  using assms by (auto simp: core_inv_def sens_frame_snoc)

lemma core_name:
  assumes "core_inv env i st d b rs" "st = [] \<or> hd st \<noteq> []" "0 < i"
    and "d' = (if d > 0 then Suc d else if sensitive env a then 1 else 0)" "b' = (if d = 0 \<and> sensitive env a then i else b)"
  shows "core_inv env (Suc i) ([a] # st) d' b' rs \<and> moved i d b rs d' b' rs"
  using assms by (cases "d = 0"; cases "sensitive env a") (auto simp: core_inv_def moved_def sens_frame_def intro: ranges_ok_mono)

lemma core_pop:
  assumes "core_inv env i (f # st) d b rs" "d \<noteq> 1"
  shows "core_inv env (Suc i) st (d - 1) b rs \<and> moved i d b rs (d - 1) b rs"
  using assms by (auto simp: core_inv_def moved_def intro: ranges_ok_mono split: if_splits)

lemma core_close:
  assumes "core_inv env i (f # st) 1 b rs"
  shows "core_inv env (Suc i) st 0 0 (rs @ [(b, i)]) \<and> moved i 1 b rs 0 0 (rs @ [(b, i)]) \<and> b \<noteq> 0"
  using assms by (auto simp: core_inv_def moved_def split: if_splits)

lemma ebind_assoc: "ebind (ebind m f) g = ebind m (\<lambda>x. ebind (f x) g)"
  by (cases m) simp_all

text \<open>The operations of the parser keep the invariant.\<close>

lemma add_top:
  assumes "core_inv env i (ps_stack s) (ps_depth s) (ps_begin s) (ps_ranges s)" "list_all (\<lambda>f. f \<noteq> []) (ps_stack s)" "ps_stack s \<noteq> []"
  shows "sound (\<lambda>s'. core_inv env i (ps_stack s') (ps_depth s') (ps_begin s') (ps_ranges s') \<and> ps_depth s' = ps_depth s \<and>
     ps_begin s' = ps_begin s \<and> ps_ranges s' = ps_ranges s \<and> ps_state s' = ps_state s) (add_to_current_stack env i a s)"
  using assms core_add [of env i "hd (ps_stack s)" "tl (ps_stack s)" "ps_depth s" "ps_begin s" "ps_ranges s" a]
  by (cases "ps_stack s") (auto simp: add_to_current_stack_def Let_def)

lemma add_step:
  assumes "core_inv env i (ps_stack s) (ps_depth s) (ps_begin s) (ps_ranges s)" "0 < i"
  shows "sound (\<lambda>s'. step_to env i s s' \<and> ps_stack s' \<noteq> [] \<and> ps_state s' = ps_state s) (add_to_current_stack env i a s)"
proof (cases "ps_stack s")
  case (Cons f st)
  show ?thesis
  proof (cases "f = []")
    case True
    with assms(1) Cons have e: "st = []" "ps_depth s = 0" "ps_begin s = 0" "ranges_ok i (rev (ps_ranges s))"
      by (auto simp: core_inv_def sens_frame_def)
    then have "core_inv env i [] 0 0 (ps_ranges s)" by (simp add: core_inv_def)
    from core_name [OF this, of _ a] assms(2) e Cons True show ?thesis
      by (auto simp: add_to_current_stack_def step_to_def Let_def)
  next
    case False
    with assms(1) Cons have "core_inv env (Suc i) ((f @ [a]) # st) (ps_depth s) (ps_begin s) (ps_ranges s)"
      by (intro core_add core_idle) simp_all
    with Cons False show ?thesis by (auto simp: add_to_current_stack_def step_to_def moved_def Let_def)
  qed
qed (simp add: add_to_current_stack_def)

lemma push_step:
  assumes "core_inv env i (ps_stack s) (ps_depth s) (ps_begin s) (ps_ranges s)" "0 < i" "hd (ps_stack s) \<noteq> []"
    and "s1 = s\<lparr>ps_depth := (if ps_depth s \<noteq> 0 then ps_depth s + 1 else 0), ps_stack := [] # ps_stack s\<rparr>"
  shows "sound (\<lambda>s'. step_to env i s s' \<and> ps_stack s' \<noteq> [] \<and> ps_state s' = ps_state s) (add_to_current_stack env i a s1)"
  using core_name [OF assms(1) _ assms(2), of _ a] assms(3,4)
  by (auto simp: add_to_current_stack_def step_to_def Let_def)

lemma close_step:
  assumes "core_inv env i (ps_stack s) (ps_depth s) (ps_begin s) (ps_ranges s)"
  shows "sound (\<lambda>s'. step_to env i s s' \<and> list_all (\<lambda>f. f \<noteq> []) (ps_stack s') \<and> ps_state s' = ps_state s) (close_out_params i s)"
proof (cases "ps_stack s")
  case Nil
  with assms have "ps_depth s = 0" by (simp add: core_inv_def)
  with Nil show ?thesis by (simp add: close_out_params_def)
next
  case (Cons f st)
  then have ne: "list_all (\<lambda>f. f \<noteq> []) st" using assms by (auto simp: core_inv_def)
  show ?thesis
  proof (cases "ps_depth s = 1")
    case True
    with core_close [of env i f st "ps_begin s" "ps_ranges s"] assms Cons ne show ?thesis
      by (simp add: close_out_params_def step_to_def)
  next
    case False
    with core_pop [of env i f st "ps_depth s" "ps_begin s" "ps_ranges s"] assms Cons ne show ?thesis
      by (cases "ps_depth s") (auto simp: close_out_params_def step_to_def)
  qed
qed

lemma run_sound:
  assumes "env_sound env"
  shows "sound (\<lambda>s'. ps_stack s' = ps_stack s \<and> ps_depth s' = ps_depth s \<and> ps_begin s' = ps_begin s \<and> ps_ranges s' = ps_ranges s)
     (run_command env w s)"
proof -
  have "sound (\<lambda>_. True) (ConvertValues env m a)" "sound (\<lambda>_. True) (executeRpc env cs c)" for m a cs c
    using assms by (cases c; auto simp: env_sound_def sound_def split: sum.splits)+
  then show ?thesis by (auto simp: run_command_def Let_def intro: sound_mono split: list.splits)
qed

lemma step_idle:
  assumes "core_inv env i (ps_stack s) (ps_depth s) (ps_begin s) (ps_ranges s)"
    and "ps_stack s' = ps_stack s" "ps_depth s' = ps_depth s" "ps_begin s' = ps_begin s" "ps_ranges s' = ps_ranges s"
  shows "step_to env i s s'"
  using assms by (auto simp: step_to_def core_idle moved_def)

definition after_ok :: "rpc_env \<Rightarrow> nat \<Rightarrow> parser \<Rightarrow> parser \<Rightarrow> bool" where
  "after_ok env i s s' \<longleftrightarrow> step_to env i s s' \<and>
     (ps_state s' \<in> {STATE_COMMAND_EXECUTED, STATE_COMMAND_EXECUTED_INNER} \<longrightarrow> ps_stack s' \<noteq> [])"

lemma step_to_fields:
  "step_to env i s s' \<Longrightarrow> ps_stack s'' = ps_stack s' \<Longrightarrow> ps_depth s'' = ps_depth s' \<Longrightarrow> ps_begin s'' = ps_begin s' \<Longrightarrow>
   ps_ranges s'' = ps_ranges s' \<Longrightarrow> step_to env i s s''"
  by (simp add: step_to_def)

text \<open>An outer byte, when a previous operation on this byte may already have stepped.\<close>

lemma bracket_rest:
  assumes "env_sound env" "step_to env i s0 s" "ps_state s \<notin> {STATE_COMMAND_EXECUTED, STATE_COMMAND_EXECUTED_INNER}"
  shows "sound (after_ok env i s0) (finish_command env x w ch s)"
  using assms by (auto simp: finish_command_def after_ok_def intro!: sound_mono [OF run_sound [OF assms(1), of s w]] elim: step_to_fields)

lemma outer_stepped:
  assumes "env_sound env" "step_to env i s0 s" "ps_state s = STATE_EATING_SPACES"
  shows "sound (after_ok env i s0) (outer_char env x w i ch s)"
proof -
  have "sound (after_ok env i s0) (bracket_char env x w i ch s)" using bracket_rest [OF assms(1,2)] assms(3) by (simp add: bracket_char_def)
  moreover have "sound (after_ok env i s0) (space_char env i ch s)" using assms by (auto simp: space_char_def after_ok_def elim: step_to_fields)
  ultimately show ?thesis using assms(2) by (auto simp: outer_char_def after_ok_def elim: step_to_fields)
qed

lemma bracket_sound:
  assumes "env_sound env" "core_inv env i (ps_stack s) (ps_depth s) (ps_begin s) (ps_ranges s)"
    and "ps_state s \<notin> {STATE_COMMAND_EXECUTED, STATE_COMMAND_EXECUTED_INNER}" "ps_state s = STATE_ARGUMENT \<longrightarrow> 0 < i"
  shows "sound (after_ok env i s) (bracket_char env x w i ch s)"
proof (cases "ps_state s = STATE_ARGUMENT")
  case True
  let ?s1 = "if ch = 40 \<and> ps_stack s \<noteq> [] \<and> hd (ps_stack s) \<noteq> []
     then s\<lparr>ps_depth := (if ps_depth s \<noteq> 0 then ps_depth s + 1 else 0), ps_stack := [] # ps_stack s\<rparr> else s"
  have a: "sound (\<lambda>s'. step_to env i s s' \<and> ps_stack s' \<noteq> [] \<and> ps_state s' = ps_state s) (add_to_current_stack env i c ?s1)" for c
    using add_step [OF assms(2), of c] push_step [OF assms(2) _ _ refl, of c] assms(4) True by simp
  have "sound (\<lambda>s'. sound (after_ok env i s) (finish_command env x w ch s')) (ebind (add_to_current_stack env i (ps_curarg ?s1) ?s1) (\<lambda>s. Inr (s\<lparr>ps_curarg := [], ps_state := STATE_EATING_SPACES_IN_BRACKETS\<rparr>)))"
    unfolding sound_simps
    by (rule sound_mono [OF a], rule bracket_rest [OF assms(1)]) (auto elim: step_to_fields)
  then show ?thesis using True unfolding bracket_char_def Let_def sound_simps by (simp del: sound_if)
next
  case False
  then show ?thesis using bracket_rest [OF assms(1) step_idle [OF assms(2)], of s x w ch] assms(3) by (simp add: bracket_char_def)
qed

lemma executed_sound:
  assumes "env_sound env" "core_inv env i (ps_stack s) (ps_depth s) (ps_begin s) (ps_ranges s)" "ps_stack s \<noteq> []"
  shows "sound (\<lambda>(s', brk). if brk then after_ok env i s s' else step_to env i s s' \<and> ps_state s' = STATE_EATING_SPACES)
     (executed_char env x i ch s)"
proof -
  have idle: "step_to env i s s'" if "ps_stack s' = ps_stack s" "ps_depth s' = ps_depth s" "ps_begin s' = ps_begin s" "ps_ranges s' = ps_ranges s" for s'
    using step_idle [OF assms(2) that] .
  have sub: "sound (\<lambda>_. True) (subscript env k v)" for k v by (simp add: subscript_def split: UniValue.splits option.splits)
  have put: "sound (step_to env i s) (if c \<noteq> [] then if ps_stack s' \<noteq> [] then add_to_current_stack env i c s' else Inr (s'\<lparr>ps_result := c\<rparr>) else Inr s')"
    if s': "step_to env i s s'" "list_all (\<lambda>f. f \<noteq> []) (ps_stack s')" for c s'
  proof (cases "c \<noteq> [] \<and> ps_stack s' \<noteq> []")
    case True
    have "sound (step_to env i s) (add_to_current_stack env i c s')"
      using s' True core_add [of env "Suc i" "hd (ps_stack s')" "tl (ps_stack s')" "ps_depth s'" "ps_begin s'" "ps_ranges s'" c]
      by (cases "ps_stack s'") (auto simp: step_to_def add_to_current_stack_def Let_def)
    with True show ?thesis by simp
  qed (use s' in \<open>auto elim: step_to_fields\<close>)
  have "sound (\<lambda>(s', brk). if brk then after_ok env i s s' else step_to env i s s' \<and> ps_state s' = STATE_EATING_SPACES)
      (ebind (close_out_params i s) (\<lambda>s.
          let curarg = result_text env (ps_last s)
          in ebind (if curarg \<noteq> [] then
                      if ps_stack s \<noteq> [] then add_to_current_stack env i curarg s else Inr (s\<lparr>ps_result := curarg\<rparr>)
                    else Inr s)
               (\<lambda>s. Inr (s\<lparr>ps_curarg := [], ps_state := STATE_EATING_SPACES\<rparr>, False))))"
    unfolding sound_simps(3) Let_def
    by (rule sound_mono [OF close_step [OF assms(2)]], rule sound_mono [OF put]) (auto elim: step_to_fields)
  moreover have "sound (\<lambda>(s', brk). if brk then after_ok env i s s' else step_to env i s s' \<and> ps_state s' = STATE_EATING_SPACES)
      (ebind (if ps_curarg s \<noteq> [] \<and> x then subscript env (ps_curarg s) (ps_last s) else Inr (ps_last s))
               (\<lambda>v. Inr (s\<lparr>ps_last := v, ps_state := STATE_COMMAND_EXECUTED\<rparr>, True)))"
    using assms(3) by (auto simp: after_ok_def intro!: idle sound_mono [OF sub])
  ultimately show ?thesis unfolding executed_char_def using assms(3) by (auto simp: after_ok_def simp del: sound_simps(3) intro!: idle)
qed

lemma space_sound:
  assumes "core_inv env i (ps_stack s) (ps_depth s) (ps_begin s) (ps_ranges s)" "ps_state s = STATE_ARGUMENT \<longrightarrow> 0 < i"
  shows "sound (after_ok env i s) (space_char env i ch s)"
proof (cases "ps_state s = STATE_ARGUMENT")
  case True
  with assms(2) show ?thesis
    by (auto simp: space_char_def after_ok_def intro!: sound_mono [OF add_step [OF assms(1), of "ps_curarg s"]] elim: step_to_fields)
qed (auto simp: space_char_def after_ok_def intro!: step_idle [OF assms(1)])

lemma outer_sound:
  assumes "env_sound env" "core_inv env i (ps_stack s) (ps_depth s) (ps_begin s) (ps_ranges s)"
    and "ps_state s \<notin> {STATE_COMMAND_EXECUTED, STATE_COMMAND_EXECUTED_INNER}" "ps_state s = STATE_ARGUMENT \<longrightarrow> 0 < i"
  shows "sound (after_ok env i s) (outer_char env x w i ch s)"
  using bracket_sound [OF assms] space_sound [OF assms(2,4)] assms(2)
  by (auto simp: outer_char_def after_ok_def intro!: step_idle)

lemma rpc_char_sound:
  assumes "env_sound env" "rpc_inv env i s"
  shows "sound (\<lambda>s'. rpc_inv env (Suc i) s' \<and> step_to env i s s') (rpc_char env x w i ch s)"
proof -
  have c: "core_inv env i (ps_stack s) (ps_depth s) (ps_begin s) (ps_ranges s)"
    and e: "ps_state s \<in> {STATE_COMMAND_EXECUTED, STATE_COMMAND_EXECUTED_INNER} \<longrightarrow> ps_stack s \<noteq> []"
    and z: "ps_state s = STATE_ARGUMENT \<longrightarrow> 0 < i"
    using assms(2) by (auto simp: rpc_inv_def)
  have "sound (after_ok env i s) (rpc_char env x w i ch s)"
  proof (cases "ps_state s = STATE_COMMAND_EXECUTED \<or> ps_state s = STATE_COMMAND_EXECUTED_INNER")
    case True
    have "sound (\<lambda>(s', brk). sound (after_ok env i s) (if brk then Inr s' else outer_char env x w i ch s')) (executed_char env x i ch s)"
      using True e by (intro sound_mono [OF executed_sound [OF assms(1) c]]) (auto intro: outer_stepped [OF assms(1)])
    then show ?thesis using True by (simp add: rpc_char_def case_prod_beta')
  next
    case False
    then show ?thesis using outer_sound [OF assms(1) c _ z, of x w ch]
      by (auto simp: rpc_char_def after_ok_def intro!: step_idle [OF c])
  qed
  then show ?thesis by (rule sound_mono) (simp add: after_ok_def rpc_inv_def step_to_def)
qed

lemma rpc_inv_new: "rpc_inv env 0 new_parser"
  by (simp add: rpc_inv_def new_parser_def core_inv_def sens_frame_def)

lemma rpc_loop_sound:
  "env_sound env \<Longrightarrow> rpc_inv env i s \<Longrightarrow> sound (rpc_inv env (i + length chs)) (rpc_loop env x w i chs s)"
proof (induction chs arbitrary: i s)
  case (Cons ch chs)
  show ?case by (auto intro!: sound_mono [OF rpc_char_sound [OF Cons.prems]] dest: Cons.IH [OF Cons.prems(1)])
qed simp

section \<open>Redaction\<close>

text \<open>
  The reference: a byte is hidden when, after it has been read, a frame of a sensitive command is
  open; every run of hidden bytes is replaced by one mark.
\<close>

fun open_marks :: "rpc_env \<Rightarrow> bool \<Rightarrow> bytes \<Rightarrow> nat \<Rightarrow> bytes \<Rightarrow> parser \<Rightarrow> bool list" where
  "open_marks env x w i [] s = []"
| "open_marks env x w i (ch # chs) s =
     (case rpc_char env x w i ch s of Inl _ \<Rightarrow> [] | Inr s' \<Rightarrow> sens_open env s' # open_marks env x w (i + 1) chs s')"

fun redact :: "bool \<Rightarrow> (bool \<times> nat) list \<Rightarrow> bytes" where
  "redact prev [] = []"
| "redact prev ((hide, c) # cs) = (if hide then if prev then [] else HIDDEN else [c]) @ redact hide cs"

definition rpc_final :: "rpc_env \<Rightarrow> bool \<Rightarrow> bytes \<Rightarrow> bytes \<Rightarrow> rpc_error + parser" where
  "rpc_final env x w cmd = ebind (rpc_loop env x w 0 cmd new_parser) (final_close (length cmd))"

fun cut :: "(nat \<times> nat) list \<Rightarrow> bytes \<Rightarrow> bytes" where
  "cut [] t = t"
| "cut ((b, e) # rs) t = cut rs (take b t) @ HIDDEN @ drop e t"

lemma cut_append: "ranges_ok (length t) rs \<Longrightarrow> cut rs (t @ u) = cut rs t @ u"
  by (cases rs) auto

lemma replace_ranges_cut: "ranges_ok (length t) rs \<Longrightarrow> replace_ranges rs t = Inr (cut rs t)"
proof (induction rs arbitrary: t)
  case (Cons r rs)
  obtain b e where r: "r = (b, e)" by (cases r)
  with Cons.prems have b: "b < e" "e \<le> length t" "ranges_ok b rs" by simp_all
  then have "replace_ranges (r # rs) t = Inr (cut rs (take b t @ HIDDEN @ drop e t))"
    using Cons.IH [of "take b t @ HIDDEN @ drop e t"] by (simp add: r ranges_ok_mono)
  then show ?case using cut_append [of "take b t" rs "HIDDEN @ drop e t"] b by (simp add: r)
qed simp

text \<open>The text shown for the part that has been read.\<close>

definition shown_part :: "nat \<Rightarrow> nat \<Rightarrow> (nat \<times> nat) list \<Rightarrow> nat \<Rightarrow> bytes \<Rightarrow> bytes" where
  "shown_part d b rs i t = (if d = 0 then cut (rev rs) (take i t) else cut (rev rs) (take b t) @ HIDDEN)"

lemma shown_step:
  assumes "core_inv env i st d b rs" "moved i d b rs d' b' rs'" "i < length t"
  shows "shown_part d' b' rs' (Suc i) t = shown_part d b rs i t @ (if d' > 0 then if d > 0 then [] else HIDDEN else [t ! i])"
proof -
  have u: "take (Suc i) t = take i t @ [t ! i]" using assms(3) by (rule take_Suc_conv_app_nth)
  have "cut (rev rs) (take (Suc i) t) = cut (rev rs) (take i t) @ [t ! i]" if "d = 0"
    unfolding u using assms that by (intro cut_append) (simp add: core_inv_def)
  moreover have "cut (rev (rs @ [(b, i)])) (take (Suc i) t) = cut (rev rs) (take b t) @ HIDDEN @ [t ! i]" if "d > 0"
  proof -
    have "b < i" using assms(1) that by (simp add: core_inv_def)
    then have "take b (take (Suc i) t) = take b t" "drop i (take (Suc i) t) = [t ! i]" using assms(3) u by (simp_all add: min_def)
    then show ?thesis by simp
  qed
  ultimately show ?thesis using assms(2) by (cases "d = 0"; cases "d' = 0") (simp_all add: shown_part_def moved_def)
qed

lemma rpc_loop_redact:
  assumes "env_sound env"
  shows "rpc_inv env i s \<Longrightarrow> rpc_loop env x w i chs s = Inr s' \<Longrightarrow> length pre = i \<Longrightarrow>
     shown_part (ps_depth s') (ps_begin s') (ps_ranges s') (i + length chs) (pre @ chs) =
     shown_part (ps_depth s) (ps_begin s) (ps_ranges s) i (pre @ chs) @ redact (ps_depth s > 0) (zip (open_marks env x w i chs s) chs)"
proof (induction chs arbitrary: i s pre)
  case (Cons ch chs)
  then obtain t where t: "rpc_char env x w i ch s = Inr t" "rpc_loop env x w (i + 1) chs t = Inr s'"
    by (cases "rpc_char env x w i ch s") auto
  have c: "rpc_inv env (Suc i) t" "step_to env i s t" using rpc_char_sound [OF assms Cons.prems(1), of x w ch] t(1) by simp_all
  have "sens_open env t \<longleftrightarrow> ps_depth t > 0" using c(1) sens_open_depth [of env t] by (simp add: rpc_inv_def core_inv_def)
  moreover have "shown_part (ps_depth t) (ps_begin t) (ps_ranges t) (Suc i) (pre @ ch # chs) =
      shown_part (ps_depth s) (ps_begin s) (ps_ranges s) i (pre @ ch # chs) @
      (if ps_depth t > 0 then if ps_depth s > 0 then [] else HIDDEN else [ch])"
    using shown_step [of env i "ps_stack s" "ps_depth s" "ps_begin s" "ps_ranges s" "ps_depth t" "ps_begin t" "ps_ranges t" "pre @ ch # chs"]
      Cons.prems(1,3) c(2) by (auto simp: rpc_inv_def step_to_def nth_append)
  ultimately show ?case using Cons.IH [OF _ t(2), of "pre @ [ch]"] c(1) t(1) Cons.prems(3) by simp
qed simp

lemma final_redact:
  assumes "rpc_inv env n s" "final_close n s = Inr s'" "\<not> sens_open env s'" "length cmd = n"
  shows "replace_ranges (rev (ps_ranges s')) cmd = Inr (shown_part (ps_depth s) (ps_begin s) (ps_ranges s) n cmd)"
proof (cases "ps_state s = STATE_COMMAND_EXECUTED")
  case True
  have c: "core_inv env n (ps_stack s) (ps_depth s) (ps_begin s) (ps_ranges s)" using assms(1) by (simp add: rpc_inv_def)
  have m: "step_to env n s s'" using close_step [OF c] assms(2) True by (simp add: final_close_def split: if_splits)
  then have "ps_depth s' = 0" using assms(3) sens_open_depth [of env s'] by (simp add: step_to_def core_inv_def)
  with m have "if ps_depth s > 0 then ps_ranges s' = ps_ranges s @ [(ps_begin s, n)] else ps_ranges s' = ps_ranges s"
    by (auto simp: step_to_def moved_def)
  with c show ?thesis using assms(4) replace_ranges_cut [of cmd "rev (ps_ranges s')"]
    by (cases "ps_depth s = 0") (simp_all add: core_inv_def shown_part_def)
next
  case False
  then have "s' = s" using assms(2) by (simp add: final_close_def)
  moreover have "ps_depth s = 0" using assms(1,3) sens_open_depth [of env s] \<open>s' = s\<close> by (simp add: rpc_inv_def core_inv_def)
  ultimately show ?thesis using assms(1,4) by (simp add: rpc_inv_def core_inv_def shown_part_def replace_ranges_cut)
qed

lemma final_close_sound: "rpc_inv env n s \<Longrightarrow> sound (\<lambda>s'. ranges_ok n (rev (ps_ranges s'))) (final_close n s)"
proof (cases "ps_state s = STATE_COMMAND_EXECUTED")
  case True
  assume i: "rpc_inv env n s"
  then have c: "core_inv env n (ps_stack s) (ps_depth s) (ps_begin s) (ps_ranges s)" and st: "ps_stack s \<noteq> []" using True by (auto simp: rpc_inv_def)
  have r: "ranges_ok n (rev (ps_ranges s))" using c by (auto simp: core_inv_def intro: ranges_ok_mono split: if_splits)
  have "sound (\<lambda>s'. ranges_ok n (rev (ps_ranges s'))) (close_out_params n s)"
    using c by (intro sound_mono [OF close_step [OF c]]) (auto simp: step_to_def moved_def core_inv_def r split: if_splits)
  then show ?thesis using True st by (simp add: final_close_def)
next
  case False
  assume "rpc_inv env n s"
  with False show ?thesis by (auto simp: final_close_def rpc_inv_def core_inv_def intro: ranges_ok_mono split: if_splits)
qed

section \<open>Words and quoted arguments\<close>

definition plain :: "nat \<Rightarrow> bool" where
  "plain c \<longleftrightarrow> c \<notin> {9, 10, 32, 34, 39, 40, 41, 44, 92}"

definition quote :: "bytes \<Rightarrow> bytes" where
  "quote a = 34 # concat (map (\<lambda>c. if c = 34 \<or> c = 92 then [92, c] else [c]) a) @ [34]"

definition quoted_line :: "bytes list \<Rightarrow> bytes" where
  "quoted_line args = concat (map (\<lambda>a. 32 # quote a) args)"

lemma rpc_loop_append:
  "rpc_loop env x w i (a @ b) s = ebind (rpc_loop env x w i a s) (rpc_loop env x w (i + length a) b)"
proof (induction a arbitrary: i s)
  case (Cons c a)
  then show ?case by (cases "rpc_char env x w i c s") simp_all
qed simp

lemma read_word:
  "list_all plain v \<Longrightarrow> ps_state s \<in> {STATE_EATING_SPACES, STATE_EATING_SPACES_IN_BRACKETS, STATE_ARGUMENT} \<Longrightarrow>
   rpc_loop env x w i v s = Inr (if v = [] then s else s\<lparr>ps_curarg := ps_curarg s @ v, ps_state := STATE_ARGUMENT\<rparr>)"
  by (induction v arbitrary: i s) (auto simp: rpc_char_def outer_char_def plain_def)

lemma read_escapes:
  "ps_state s = STATE_DOUBLEQUOTED \<Longrightarrow>
   rpc_loop env x w i (concat (map (\<lambda>c. if c = 34 \<or> c = 92 then [92, c] else [c]) a)) s = Inr (s\<lparr>ps_curarg := ps_curarg s @ a\<rparr>)"
  by (induction a arbitrary: i s) (auto simp: rpc_char_def)

lemma read_quote:
  "ps_state s = STATE_EATING_SPACES \<Longrightarrow>
   rpc_loop env x w i (quote a) s = Inr (s\<lparr>ps_curarg := ps_curarg s @ a, ps_state := STATE_ARGUMENT\<rparr>)"
  by (simp add: quote_def rpc_loop_append read_escapes rpc_char_def outer_char_def)

lemma add_shape:
  "ps_stack s = f # rest \<Longrightarrow> \<exists>d b. add_to_current_stack env i a s = Inr (s\<lparr>ps_stack := (f @ [a]) # rest, ps_depth := d, ps_begin := b\<rparr>)"
  by (cases s) (auto simp: add_to_current_stack_def Let_def)

lemma read_args:
  assumes "ps_state s = STATE_ARGUMENT" "ps_stack s = [f]"
  shows "\<exists>d b. rpc_loop env x w i (quoted_line args) s =
     Inr (s\<lparr>ps_state := STATE_ARGUMENT, ps_stack := [f @ butlast (ps_curarg s # args)], ps_curarg := last (ps_curarg s # args),
       ps_depth := d, ps_begin := b\<rparr>)"
  using assms
proof (induction args arbitrary: i s f)
  case (Cons a args)
  obtain d b where 1: "rpc_char env x w i 32 s = Inr (s\<lparr>ps_stack := [f @ [ps_curarg s]], ps_depth := d, ps_begin := b, ps_curarg := [],
      ps_state := STATE_EATING_SPACES\<rparr>)"
    using Cons.prems add_shape [of s f "[]" env i "ps_curarg s"] by (auto simp: rpc_char_def outer_char_def space_char_def)
  let ?s = "s\<lparr>ps_stack := [f @ [ps_curarg s]], ps_depth := d, ps_begin := b, ps_curarg := a, ps_state := STATE_ARGUMENT\<rparr>"
  obtain d' b' where 2: "rpc_loop env x w (i + 1 + length (quote a)) (quoted_line args) ?s =
      Inr (?s\<lparr>ps_stack := [(f @ [ps_curarg s]) @ butlast (a # args)], ps_curarg := last (a # args), ps_depth := d', ps_begin := b'\<rparr>)"
    using Cons.IH [where i = "i + 1 + length (quote a)" and s = ?s and f = "f @ [ps_curarg s]"] by auto
  have "rpc_loop env x w i (quoted_line (a # args)) s = rpc_loop env x w (i + 1 + length (quote a)) (quoted_line args) ?s"
    using 1 by (simp add: quoted_line_def rpc_loop_append read_quote)
  with 2 show ?case by - (rule exI [of _ d'], rule exI [of _ b'], simp)
next
  case Nil
  then show ?case by - (rule exI [of _ "ps_depth s"], rule exI [of _ "ps_begin s"], cases s, simp add: quoted_line_def)
qed

lemma quoted_line_last: "args \<noteq> [] \<Longrightarrow> last (quoted_line args) = 34"
  by (induction args) (auto simp: quoted_line_def quote_def last_append)

lemma replace_ranges_defined: "ranges_ok n rs \<Longrightarrow> n \<le> Suc (length t) \<Longrightarrow> \<exists>u. replace_ranges rs t = Inr u"
proof (induction rs arbitrary: n t)
  case (Cons r rs)
  obtain b e where r: "r = (b, e)" by (cases r)
  with Cons.prems have b: "b < e" "e \<le> n" "ranges_ok b rs" by simp_all
  then show ?case using Cons.IH [OF b(3), of "take b t @ HIDDEN @ drop e t"] Cons.prems(2) by (simp add: r)
qed simp

lemma marks_length: "rpc_loop env x w i chs s = Inr s' \<Longrightarrow> length (open_marks env x w i chs s) = length chs"
proof (induction chs arbitrary: i s)
  case (Cons c chs)
  then show ?case by (cases "rpc_char env x w i c s") auto
qed simp

lemma sensitive_line:
  assumes "sensitive env m" "list_all plain m" "m \<noteq> []" "list_all plain v" "v \<noteq> []"
  shows "rpc_loop env False w 0 (m @ 32 # v) new_parser =
     Inr (new_parser\<lparr>ps_stack := [[m]], ps_depth := 1, ps_begin := length m, ps_curarg := v, ps_state := STATE_ARGUMENT\<rparr>)"
  using assms read_word [of m new_parser env False w 0]
  by (simp add: rpc_loop_append read_word new_parser_def rpc_char_def outer_char_def space_char_def add_to_current_stack_def)

lemma read_blanks:
  "list_all (\<lambda>c. c \<in> {9, 32, 40, 44}) b \<Longrightarrow> rpc_loop env x w i b new_parser = Inr new_parser"
  by (induction b arbitrary: i) (auto simp: rpc_char_def outer_char_def bracket_char_def finish_command_def space_char_def new_parser_def)

definition demo_rpc :: rpc_env where
  "demo_rpc = \<lparr>casefold = id, uv_write = (\<lambda>_. q ''null''), uv_at = (\<lambda>v _. v), uv_find = (\<lambda>v _. v), ToIntegral = (\<lambda>_. None),
     ConvertValues = (\<lambda>m args. Inr (VARR (map VSTR args))), executeRpc = (\<lambda>cs (m, p, u). Inr (VSTR m)), walletPath = id\<rparr>"

lemma demo_rpc_sound: "env_sound demo_rpc"
  by (simp add: env_sound_def demo_rpc_def)

section \<open>Properties\<close>

text \<open>
  C7: what the console remembers and displays of a command line. If the parser gives a filtered line
  and has closed every sensitive command at its end, the filtered line is the line in which exactly the
  bytes read while a sensitive command was open are hidden, each run of them behind one mark, and
  all other bytes stand unchanged.
\<close>

theorem rpc_redaction:
  assumes "env_sound env" "RPCParseCommandLine env x True w (line @ [10]) = Inr r"
    and "\<forall>s. rpc_final env x w (line @ [10]) = Inr s \<longrightarrow> \<not> sens_open env s"
  shows "filteredOut r = Some (redact False (zip (open_marks env x w 0 (line @ [10]) new_parser) (line @ [10]))) \<and>
     length (open_marks env x w 0 (line @ [10]) new_parser) = length (line @ [10])"
proof -
  let ?c = "line @ [10]"
  have tm: "terminated ?c = ?c" by (simp add: terminated_def)
  obtain s where s: "rpc_loop env x w 0 ?c new_parser = Inr s"
    using assms(2) by (cases "rpc_loop env x w 0 ?c new_parser") (auto simp: RPCParseCommandLine_def tm)
  obtain s' where s': "final_close (length ?c) s = Inr s'"
    using assms(2) s by (cases "final_close (length ?c) s") (auto simp: RPCParseCommandLine_def tm)
  have i: "rpc_inv env (length ?c) s" using rpc_loop_sound [OF assms(1) rpc_inv_new, of ?c x w] s by simp
  have "\<not> sens_open env s'" using assms(3) s s' by (simp add: rpc_final_def)
  note f = final_redact [OF i s' this refl]
  have "filteredOut r = Some (shown_part (ps_depth s) (ps_begin s) (ps_ranges s) (length ?c) ?c)"
    using assms(2) s s' f by (auto simp: RPCParseCommandLine_def tm)
  moreover have "shown_part (ps_depth s) (ps_begin s) (ps_ranges s) (length ?c) ?c = redact False (zip (open_marks env x w 0 ?c new_parser) ?c)"
    using rpc_loop_redact [OF assms(1) rpc_inv_new s, of "[]"] by (simp add: shown_part_def new_parser_def)
  ultimately show ?thesis using marks_length [OF s] by simp
qed

theorem rpc_redaction_witness:
  "redact False (zip (open_marks demo_rpc False [] 0 (q ''walletpassphrase(pw 60)'' @ [10]) new_parser) (q ''walletpassphrase(pw 60)'' @ [10])) =
   q ''walletpassphrase'' @ HIDDEN @ [10]"
proof -
  have p: "RPCParseCommandLine demo_rpc False True [] (q ''walletpassphrase(pw 60)'' @ [10]) =
      Inr \<lparr>returned = True, strResult = q ''null'', filteredOut = Some (q ''walletpassphrase'' @ HIDDEN @ [10]), node_calls = []\<rparr>"
    by code_simp
  have "(case rpc_final demo_rpc False [] (q ''walletpassphrase(pw 60)'' @ [10]) of Inl _ \<Rightarrow> True | Inr s \<Rightarrow> \<not> sens_open demo_rpc s)" by code_simp
  then have "\<forall>s. rpc_final demo_rpc False [] (q ''walletpassphrase(pw 60)'' @ [10]) = Inr s \<longrightarrow> \<not> sens_open demo_rpc s" by auto
  from rpc_redaction [OF demo_rpc_sound p this] show ?thesis by simp
qed

text \<open>
  quoting is exact. A line of arguments in double quotes, with quotes and backslashes escaped by a
  backslash, makes exactly one call of the node: the first argument is the method and the others, whatever
  bytes they contain, are its parameters, in the wallet selected; the text of the call's result is returned, and an
  error of the conversion or of the call is passed on.
\<close>

theorem rpc_quoted_command:
  "RPCParseCommandLine env True False w (quoted_line (m # args)) =
     ebind (ConvertValues env m args) (\<lambda>params.
       let call = (m, params, if w \<noteq> [] then walletPath env w else [])
       in ebind (executeRpc env [] call) (\<lambda>v.
            Inr \<lparr>returned = True, strResult = result_text env v, filteredOut = None, node_calls = [call]\<rparr>))"
proof -
  let ?l = "quoted_line (m # args)"
  have tm: "terminated ?l = ?l @ [10]" "?l \<noteq> []" using quoted_line_last [of "m # args"] by (auto simp: terminated_def quoted_line_def)
  let ?s = "new_parser\<lparr>ps_curarg := m, ps_state := STATE_ARGUMENT\<rparr>"
  have "rpc_loop env True w 0 ?l new_parser = rpc_loop env True w (1 + length (quote m)) (quoted_line args) ?s"
    by (simp add: quoted_line_def rpc_loop_append read_quote rpc_char_def outer_char_def space_char_def new_parser_def)
  moreover obtain d b where "rpc_loop env True w (1 + length (quote m)) (quoted_line args) ?s =
      Inr (?s\<lparr>ps_stack := [butlast (m # args)], ps_curarg := last (m # args), ps_depth := d, ps_begin := b\<rparr>)"
    using read_args [of ?s "[]" env True w "1 + length (quote m)" args] by (auto simp: new_parser_def)
  ultimately have l: "rpc_loop env True w 0 ?l new_parser =
      Inr (?s\<lparr>ps_stack := [butlast (m # args)], ps_curarg := last (m # args), ps_depth := d, ps_begin := b\<rparr>)" by simp
  have bl: "butlast (m # args) @ [last (m # args)] = m # args" by (rule append_butlast_last_id) simp
  let ?t = "?s\<lparr>ps_stack := [butlast (m # args)], ps_curarg := last (m # args), ps_depth := d, ps_begin := b\<rparr>"
  obtain d' b' where "add_to_current_stack env (length ?l) (ps_curarg ?t) ?t = Inr (?t\<lparr>ps_stack := [m # args], ps_depth := d', ps_begin := b'\<rparr>)"
    using add_shape [of ?t "butlast (m # args)" "[]" env "length ?l" "ps_curarg ?t"] bl by auto
  then have "rpc_char env True w (length ?l) 10 ?t = ebind (run_command env w (?t\<lparr>ps_stack := [m # args], ps_depth := d', ps_begin := b',
      ps_curarg := [], ps_state := STATE_EATING_SPACES_IN_BRACKETS\<rparr>)) (\<lambda>s. Inr (s\<lparr>ps_state := STATE_COMMAND_EXECUTED, ps_curarg := []\<rparr>))"
    by (simp add: rpc_char_def outer_char_def bracket_char_def finish_command_def new_parser_def del: butlast.simps last.simps)
  moreover have "run_command env w (?t\<lparr>ps_stack := [m # args], ps_depth := d', ps_begin := b',
      ps_curarg := [], ps_state := STATE_EATING_SPACES_IN_BRACKETS\<rparr>) =
      ebind (ConvertValues env m args) (\<lambda>params. ebind (executeRpc env [] (m, params, if w \<noteq> [] then walletPath env w else [])) (\<lambda>v.
        Inr (?t\<lparr>ps_stack := [m # args], ps_depth := d', ps_begin := b', ps_curarg := [], ps_state := STATE_EATING_SPACES_IN_BRACKETS,
             ps_last := v, ps_calls := [(m, params, if w \<noteq> [] then walletPath env w else [])]\<rparr>)))"
    by (simp add: run_command_def new_parser_def Let_def del: butlast.simps last.simps)
  ultimately have "rpc_loop env True w 0 (?l @ [10]) new_parser =
      ebind (ConvertValues env m args) (\<lambda>params. ebind (executeRpc env [] (m, params, if w \<noteq> [] then walletPath env w else [])) (\<lambda>v.
        Inr (?t\<lparr>ps_stack := [m # args], ps_depth := d', ps_begin := b', ps_curarg := [], ps_state := STATE_COMMAND_EXECUTED,
             ps_last := v, ps_calls := [(m, params, if w \<noteq> [] then walletPath env w else [])]\<rparr>)))"
    unfolding rpc_loop_append l by (simp add: ebind_assoc new_parser_def del: butlast.simps last.simps)
  then show ?thesis unfolding RPCParseCommandLine_def tm(1) using tm(2) by (simp add: ebind_assoc Let_def del: butlast.simps last.simps)
qed

text \<open>
  C39: the parser's own assertions hold. On every command line, in either mode, no assertion of the parser
  fails, and every range it has noted for hiding lies within the line, so that the replacement cannot throw.
\<close>

theorem rpc_asserts_hold:
  assumes "env_sound env"
  shows "RPCParseCommandLine env x f w cmd \<noteq> Inl Assertion \<and>
     (\<forall>s. rpc_final env x w (terminated cmd) = Inr s \<longrightarrow> (\<exists>t. replace_ranges (rev (ps_ranges s)) cmd = Inr t))"
proof -
  let ?t = "terminated cmd"
  have n: "length ?t \<le> Suc (length cmd)" by (simp add: terminated_def)
  have b: "sound (\<lambda>s. sound (\<lambda>s'. ranges_ok (length ?t) (rev (ps_ranges s'))) (final_close (length ?t) s)) (rpc_loop env x w 0 ?t new_parser)"
    using rpc_loop_sound [OF assms rpc_inv_new, of ?t x w] final_close_sound by (auto elim: sound_mono)
  have "sound (\<lambda>s. sound (\<lambda>_. True) (replace_ranges (rev (ps_ranges s)) cmd)) (Inr s')" if "ranges_ok (length ?t) (rev (ps_ranges s'))" for s'
    using replace_ranges_defined [OF that n] by auto
  with b have "sound (\<lambda>_. True) (RPCParseCommandLine env x f w cmd)"
    by (auto simp: RPCParseCommandLine_def case_prod_beta' elim!: sound_mono)
  moreover have "\<exists>t. replace_ranges (rev (ps_ranges s)) cmd = Inr t" if "rpc_final env x w ?t = Inr s" for s
    using b that replace_ranges_defined [OF _ n] by (cases "rpc_loop env x w 0 ?t new_parser") (auto simp: rpc_final_def)
  ultimately show ?thesis by (auto simp: sound_def)
qed

theorem rpc_asserts_hold_witness: "RPCParseCommandLine demo_rpc True True [] (q ''a(b(x),3)[1]'') \<noteq> Inl Assertion"
  using rpc_asserts_hold [OF demo_rpc_sound] by blast

text \<open>
  C40: when the filter lets a secret through. For every sensitive command, if the first word of the arguments contains an
  opening bracket that is not closed, or if the line ends in a backslash, the parser accepts the line and the
  filtered line is the line itself, with its arguments in clear.
\<close>

theorem rpc_redaction_leaks:
  assumes "sensitive env m" "list_all plain m" "m \<noteq> []" "list_all plain v" "v \<noteq> []" "list_all plain u" "u \<noteq> []"
  shows "RPCParseCommandLine env False True w (m @ 32 # v @ 40 # u @ [10]) =
       Inr \<lparr>returned = True, strResult = result_text env VNULL, filteredOut = Some (m @ 32 # v @ 40 # u @ [10]), node_calls = []\<rparr> \<and>
     RPCParseCommandLine env False True w (m @ 32 # v @ [92, 10]) =
       Inr \<lparr>returned = True, strResult = [], filteredOut = Some (m @ 32 # v @ [92, 10]), node_calls = []\<rparr>"
proof
  note l = sensitive_line [OF assms(1-5), of w]
  have t: "terminated (m @ 32 # v @ 40 # u @ [10]) = (m @ 32 # v) @ 40 # u @ [10]" "terminated (m @ 32 # v @ [92, 10]) = (m @ 32 # v) @ [92, 10]"
    by (simp_all add: terminated_def)
  have "rpc_loop env False w 0 ((m @ 32 # v) @ 40 # u @ [10]) new_parser =
      Inr (new_parser\<lparr>ps_stack := [[v, u], [m]], ps_depth := 2, ps_begin := length m, ps_curarg := [], ps_state := STATE_COMMAND_EXECUTED\<rparr>)"
    unfolding rpc_loop_append [of env False w 0 "m @ 32 # v"] l ebind.simps using assms(6,7)
    by (simp add: rpc_loop_append read_word new_parser_def rpc_char_def outer_char_def bracket_char_def finish_command_def add_to_current_stack_def)
  then show "RPCParseCommandLine env False True w (m @ 32 # v @ 40 # u @ [10]) =
       Inr \<lparr>returned = True, strResult = result_text env VNULL, filteredOut = Some (m @ 32 # v @ 40 # u @ [10]), node_calls = []\<rparr>"
    using assms(3) unfolding RPCParseCommandLine_def t by (simp add: final_close_def close_out_params_def new_parser_def)
  have "rpc_loop env False w 0 ((m @ 32 # v) @ [92, 10]) new_parser =
      Inr (new_parser\<lparr>ps_stack := [[m]], ps_depth := 1, ps_begin := length m, ps_curarg := v @ [10], ps_state := STATE_ARGUMENT\<rparr>)"
    unfolding rpc_loop_append [of env False w 0 "m @ 32 # v"] l ebind.simps by (simp add: new_parser_def rpc_char_def outer_char_def)
  then show "RPCParseCommandLine env False True w (m @ 32 # v @ [92, 10]) =
       Inr \<lparr>returned = True, strResult = [], filteredOut = Some (m @ 32 # v @ [92, 10]), node_calls = []\<rparr>"
    using assms(3) unfolding RPCParseCommandLine_def t by (simp add: final_close_def new_parser_def)
qed

theorem rpc_redaction_leaks_witness:
  "\<exists>r. RPCParseCommandLine demo_rpc False True [] (q ''walletpassphrase my(pass'' @ [10]) = Inr r \<and> returned r \<and>
     filteredOut r = Some (q ''walletpassphrase my(pass'' @ [10])"
proof -
  have h: "sensitive demo_rpc (q ''walletpassphrase'')" "list_all plain (q ''walletpassphrase'')" "q ''walletpassphrase'' \<noteq> []"
    "list_all plain (q ''my'')" "q ''my'' \<noteq> []" "list_all plain (q ''pass'')" "q ''pass'' \<noteq> []"
    by code_simp+
  have e: "q ''walletpassphrase'' @ 32 # q ''my'' @ 40 # q ''pass'' @ [10] = q ''walletpassphrase my(pass'' @ [10]" by code_simp
  show ?thesis using rpc_redaction_leaks [OF h, of "[]"] unfolding e by auto
qed

text \<open>
  lines that reach undefined behaviour. A line in which a closing bracket, or the end, follows nothing but
  blanks, commas and opening brackets is accepted by the parser, and executing it reads the first element of an empty
  vector. After a complete call in brackets, a further word that is not the last one reads the last element of an empty
  stack, even without execution.
\<close>

theorem rpc_undefined_lines:
  assumes "list_all (\<lambda>c. c \<in> {9, 32, 40, 44}) b" "list_all plain m" "m \<noteq> []" "list_all plain u" "u \<noteq> []"
  shows "RPCParseCommandLine env True f w (b @ 41 # rest) = Inl Undefined \<and> RPCParseCommandLine env True f w (b @ [10]) = Inl Undefined \<and>
     RPCParseCommandLine env False True w (b @ [10]) =
       Inr \<lparr>returned = True, strResult = result_text env VNULL, filteredOut = Some (b @ [10]), node_calls = []\<rparr> \<and>
     RPCParseCommandLine env False f w (m @ 40 # 41 # 32 # u @ 32 # rest) = Inl Undefined"
proof (intro conjI)
  have t: "\<exists>r. terminated (b @ 41 # rest) = b @ 41 # r" "terminated (b @ [10]) = b @ [10]"
    "\<exists>r. terminated (m @ 40 # 41 # 32 # u @ 32 # rest) = m @ 40 # 41 # 32 # u @ 32 # r"
    by (auto simp: terminated_def)
  have e: "rpc_char env True w i c new_parser = Inl Undefined" if "c = 41 \<or> c = 10" for i c
    using that by (auto simp: rpc_char_def outer_char_def bracket_char_def finish_command_def run_command_def new_parser_def)
  note b = read_blanks [OF assms(1), of env _ w]
  show "RPCParseCommandLine env True f w (b @ 41 # rest) = Inl Undefined"
    using t(1) by (auto simp: RPCParseCommandLine_def rpc_loop_append b e)
  show "RPCParseCommandLine env True f w (b @ [10]) = Inl Undefined"
    by (simp add: RPCParseCommandLine_def t rpc_loop_append b e)
  have "rpc_loop env False w 0 (b @ [10]) new_parser = Inr (new_parser\<lparr>ps_state := STATE_COMMAND_EXECUTED\<rparr>)"
    unfolding rpc_loop_append b ebind.simps
    by (simp add: rpc_char_def outer_char_def bracket_char_def finish_command_def new_parser_def)
  then show "RPCParseCommandLine env False True w (b @ [10]) =
       Inr \<lparr>returned = True, strResult = result_text env VNULL, filteredOut = Some (b @ [10]), node_calls = []\<rparr>"
    by (simp add: RPCParseCommandLine_def t final_close_def close_out_params_def new_parser_def)
  obtain r where r: "terminated (m @ 40 # 41 # 32 # u @ 32 # rest) = m @ 40 # 41 # 32 # u @ 32 # r" using t(3) by blast
  have "rpc_loop env False w 0 (m @ 40 # 41 # 32 # u @ 32 # r) new_parser = Inl Undefined"
    using assms(2-5) read_word [of m new_parser env False w 0]
    by (auto simp: rpc_loop_append read_word new_parser_def rpc_char_def outer_char_def bracket_char_def finish_command_def space_char_def
        executed_char_def close_out_params_def add_to_current_stack_def Let_def)
  then show "RPCParseCommandLine env False f w (m @ 40 # 41 # 32 # u @ 32 # rest) = Inl Undefined"
    by (simp add: RPCParseCommandLine_def r)
qed

theorem rpc_undefined_lines_witness:
  "RPCParseCommandLine demo_rpc True False [] (q ''('' @ [10]) = Inl Undefined \<and>
   RPCParseCommandLine demo_rpc False True [] (q ''x() y z'' @ [10]) = Inl Undefined"
proof -
  have h: "list_all (\<lambda>c. c \<in> {9, 32, 40, 44}) (q ''('')" "list_all plain (q ''x'')" "q ''x'' \<noteq> []" "list_all plain (q ''y'')" "q ''y'' \<noteq> []"
    by code_simp+
  have e: "q ''x'' @ 40 # 41 # 32 # q ''y'' @ 32 # q ''z'' @ [10] = q ''x() y z'' @ [10]" by code_simp
  show ?thesis using rpc_undefined_lines [OF h, of demo_rpc _ "[]"] e by metis
qed

end
