(* ===== verification/Console.thy ===== *)
theory Console
  imports Rpc
begin

text \<open>
  \<open>src/qml/models/rpcconsolemodel.{h,cpp}\<close>: the RPC console. The state is the record \<open>console\<close>: the output
  rows, the history of filtered commands, and the two queues between the GUI thread and the worker thread.
  A submission, a turn of the worker, the delivery of its reply and the join of the thread are separate
  events, in any order. Conversions between \<open>QString\<close> and \<open>std::string\<close>, translation, sorting and
  reading JSON are the functions of the record \<open>console_env\<close>. \<open>None\<close> stands for undefined behaviour or an exception
  that nobody catches.
\<close>

section \<open>Definitions\<close>

record console_env =
  con_rpc :: rpc_env
  toStdString :: "qstring \<Rightarrow> bytes"
  fromStdString :: "bytes \<Rightarrow> qstring"
  con_fold :: "qstring \<Rightarrow> qstring"
  con_tr :: "string \<Rightarrow> qstring"
  con_arg :: "qstring \<Rightarrow> qstring \<Rightarrow> qstring"
  con_read :: "bytes \<Rightarrow> UniValue option"
  err_code :: "UniValue \<Rightarrow> int option"
  err_message :: "UniValue \<Rightarrow> bytes option"
  err_write :: "UniValue \<Rightarrow> bytes"
  listRpcCommands :: "bytes list"
  sort_ci :: "qstring list \<Rightarrow> qstring list"

subsection \<open>Output rows and their HTML\<close>

datatype MessageCategory = CMD_REQUEST | CMD_REPLY | CMD_ERROR

type_synonym console_row = "qstring \<times> qstring \<times> MessageCategory"

definition kMaxRows :: nat where "kMaxRows = 5000"
definition HISTORY_MAX :: nat where "HISTORY_MAX = 50"

definition appendRow :: "console_row \<Rightarrow> console_row list \<Rightarrow> console_row list" where
  "appendRow row rows = (if length rows \<ge> kMaxRows then drop (length rows - kMaxRows + 1) rows else rows) @ [row]"

definition html_char :: "qchar \<Rightarrow> qstring" where
  "html_char c = (if c = 60 then q ''&lt;'' else if c = 62 then q ''&gt;'' else if c = 38 then q ''&amp;'' else if c = 34 then q ''&quot;'' else [c])"

definition toHtmlEscaped :: "qstring \<Rightarrow> qstring" where
  "toHtmlEscaped s = concat (map html_char s)"

fun convert_whitespace :: "bool \<Rightarrow> qstring \<Rightarrow> qstring" where
  "convert_whitespace at_line_start [] = []"
| "convert_whitespace at_line_start (c # cs) =
     (if c = 10 then q ''<br>'' @ convert_whitespace True cs
      else if c = 32 \<and> at_line_start then q ''&nbsp;'' @ convert_whitespace True cs
      else c # convert_whitespace (at_line_start \<and> c = 32) cs)"

definition EscapeAndConvertWhitespace :: "qstring \<Rightarrow> qstring" where
  "EscapeAndConvertWhitespace s = convert_whitespace True (toHtmlEscaped s)"

definition AppendIndent :: "nat \<Rightarrow> qstring" where
  "AppendIndent depth = concat (replicate (depth * 2) (q ''&nbsp;''))"

definition key_html :: "(bytes \<Rightarrow> qstring) \<Rightarrow> qstring \<Rightarrow> bytes \<Rightarrow> qstring" where
  "key_html dec colour k = q ''<span style='' @ [39] @ q ''color:'' @ colour @ [39] @ q ''>'' @ [34] @ toHtmlEscaped (dec k) @ [34] @ q ''</span>: ''"

fun AppendValue :: "(bytes \<Rightarrow> qstring) \<Rightarrow> qstring \<Rightarrow> nat \<Rightarrow> UniValue \<Rightarrow> qstring"
and AppendObject :: "(bytes \<Rightarrow> qstring) \<Rightarrow> qstring \<Rightarrow> nat \<Rightarrow> (bytes \<times> UniValue) list \<Rightarrow> qstring"
and AppendArray :: "(bytes \<Rightarrow> qstring) \<Rightarrow> qstring \<Rightarrow> nat \<Rightarrow> UniValue list \<Rightarrow> qstring" where
  "AppendValue dec colour depth (VOBJ kvs) =
     (if kvs = [] then q ''{}'' else q ''{<br>'' @ AppendObject dec colour depth kvs @ AppendIndent depth @ q ''}'')"
| "AppendValue dec colour depth (VARR vs) =
     (if vs = [] then q ''[]'' else q ''[<br>'' @ AppendArray dec colour depth vs @ AppendIndent depth @ q '']'')"
| "AppendValue dec colour depth (VSTR s) = [34] @ toHtmlEscaped (dec s) @ [34]"
| "AppendValue dec colour depth (VNUM n) = dec n"
| "AppendValue dec colour depth (VBOOL b) = (if b then q ''true'' else q ''false'')"
| "AppendValue dec colour depth VNULL = q ''null''"
| "AppendObject dec colour depth [] = []"
| "AppendObject dec colour depth ((k, v) # kvs) =
     AppendIndent (depth + 1) @ key_html dec colour k @ AppendValue dec colour (depth + 1) v @
     (if kvs \<noteq> [] then q '','' else []) @ q ''<br>'' @ AppendObject dec colour depth kvs"
| "AppendArray dec colour depth [] = []"
| "AppendArray dec colour depth (v # vs) =
     AppendIndent (depth + 1) @ AppendValue dec colour (depth + 1) v @
     (if vs \<noteq> [] then q '','' else []) @ q ''<br>'' @ AppendArray dec colour depth vs"

definition FormatJsonReply :: "console_env \<Rightarrow> bytes \<Rightarrow> qstring \<Rightarrow> qstring" where
  "FormatJsonReply env raw colour =
     (case con_read env raw of
        Some (VOBJ kvs) \<Rightarrow> AppendValue (fromStdString env) colour 0 (VOBJ kvs)
      | Some (VARR vs) \<Rightarrow> AppendValue (fromStdString env) colour 0 (VARR vs)
      | _ \<Rightarrow> EscapeAndConvertWhitespace (fromStdString env raw))"

subsection \<open>The worker\<close>

definition MAX_RESULT_CHARS :: nat where "MAX_RESULT_CHARS = 50000"

definition PARSE_ERROR :: string where
  "PARSE_ERROR = ''Parse error: unbalanced '' @ [CHR 0x27] @ '' or '' @ [CHR 0x22]"

definition help_console :: string where
  "help_console = concat (map (\<lambda>l. l @ [CHR 0x0A])
     ['''', ''This console accepts RPC commands using the standard syntax.'',
      ''   example:    getblockhash 0'', '''', ''This console can also accept RPC commands using the parenthesized syntax.'',
      ''   example:    getblockhash(0)'', '''', ''Commands may be nested when specified with the parenthesized syntax.'',
      ''   example:    getblock(getblockhash(0) 1)'', '''', ''A space or a comma can be used to delimit arguments for either syntax.'',
      ''   example:    getblockhash 0'', ''               getblockhash,0'', '''',
      ''Named results can be queried with a non-quoted key string in brackets.'',
      ''   example:    getblock(getblockhash(0) 1)[tx]'', '''', ''Results without keys can be queried with an integer in brackets.'',
      ''   example:    getblock(getblockhash(0),1)[tx][0]'', ''''])"

definition truncated :: "console_env \<Rightarrow> qstring \<Rightarrow> qstring" where
  "truncated env s =
     (if length s > MAX_RESULT_CHARS
      then take MAX_RESULT_CHARS s @ [10] @
        con_arg env (con_tr env ''[Output truncated at %1 characters. Use bitcoin-cli for the full result.]'') (number_nat MAX_RESULT_CHARS)
      else s)"

definition error_text :: "console_env \<Rightarrow> UniValue \<Rightarrow> qstring" where
  "error_text env v =
     (case (err_code env v, err_message env v) of
        (Some code, Some message) \<Rightarrow> fromStdString env message @ q '' (code '' @ number code @ q '')''
      | _ \<Rightarrow> fromStdString env (err_write env v))"

definition worker_execute :: "console_env \<Rightarrow> qstring \<Rightarrow> qstring \<Rightarrow> (MessageCategory \<times> qstring) option" where
  "worker_execute env command wallet_name =
     (if con_fold env (trimmed command) = con_fold env (q ''help-console'') then Some (CMD_REPLY, con_tr env help_console)
      else case RPCExecuteCommandLine (con_rpc env) wallet_name (toStdString env command @ [10]) of
        Inr r \<Rightarrow> Some (if \<not> returned r then (CMD_ERROR, con_tr env PARSE_ERROR)
                     else (CMD_REPLY, truncated env (fromStdString env (strResult r))))
      | Inl (RpcError v) \<Rightarrow> Some (CMD_ERROR, error_text env v)
      | Inl (Thrown what) \<Rightarrow> Some (CMD_ERROR, con_arg env (con_tr env ''Error: %1'') (fromStdString env what))
      | Inl _ \<Rightarrow> None)"

subsection \<open>The model\<close>

record console =
  con_executing :: bool
  con_commands :: "qstring list"
  con_rows :: "console_row list"
  con_key_color :: qstring
  con_history :: "qstring list"
  con_history_idx :: int
  con_pending_text :: qstring
  con_last_wallet :: qstring
  con_stopping :: bool
  con_worker_queue :: "(qstring \<times> qstring) list"
  con_replies :: "(qstring \<times> MessageCategory \<times> qstring) list"
  con_drained :: bool

definition new_console :: console where
  "new_console = \<lparr>con_executing = False, con_commands = [], con_rows = [], con_key_color = q ''#98c379'', con_history = [], con_history_idx = - 1,
     con_pending_text = [], con_last_wallet = [], con_stopping = False, con_worker_queue = [], con_replies = [], con_drained = False\<rparr>"

definition appendFormattedRow :: "console_env \<Rightarrow> qstring \<Rightarrow> MessageCategory \<Rightarrow> qstring \<Rightarrow> console \<Rightarrow> console" where
  "appendFormattedRow env time category rawText c =
     (let body = (case category of
                    CMD_REQUEST \<Rightarrow> EscapeAndConvertWhitespace rawText
                  | CMD_REPLY \<Rightarrow> FormatJsonReply env (toStdString env rawText) (con_key_color c)
                  | CMD_ERROR \<Rightarrow> EscapeAndConvertWhitespace rawText)
      in c\<lparr>con_rows := appendRow (time, body, category) (con_rows c)\<rparr>)"

definition add_history :: "qstring \<Rightarrow> qstring list \<Rightarrow> qstring list" where
  "add_history cmd h =
     (if h = [] \<or> last h \<noteq> cmd then let h' = h @ [cmd] in if length h' > HISTORY_MAX then tl h' else h' else h)"

definition announce_wallet :: "console_env \<Rightarrow> qstring \<Rightarrow> qstring \<Rightarrow> console \<Rightarrow> console" where
  "announce_wallet env time wallet_name c =
     (if con_last_wallet c \<noteq> wallet_name then
        (appendFormattedRow env time CMD_REQUEST
           (if wallet_name \<noteq> [] then con_arg env (con_tr env (''Executing command using '' @ [CHR 0x22] @ ''%1'' @ [CHR 0x22] @ '' wallet'')) wallet_name
            else con_tr env ''Executing command without any wallet'') c)\<lparr>con_last_wallet := wallet_name\<rparr>
      else c)"

definition dispatch :: "console_env \<Rightarrow> qstring \<Rightarrow> qstring \<Rightarrow> qstring \<Rightarrow> qstring \<Rightarrow> console \<Rightarrow> console" where
  "dispatch env time filteredCmd trimmed_command wallet_name c =
     (let c1 = c\<lparr>con_history := add_history filteredCmd (con_history c), con_history_idx := - 1, con_pending_text := []\<rparr>;
          c2 = announce_wallet env time wallet_name c1;
          c3 = appendFormattedRow env time CMD_REQUEST filteredCmd c2
      in c3\<lparr>con_executing := True, con_worker_queue := con_worker_queue c3 @ [(trimmed_command, wallet_name)]\<rparr>)"

definition STOP :: qstring where "STOP = q ''stop''"

definition submitCommand :: "console_env \<Rightarrow> qstring \<Rightarrow> qstring \<Rightarrow> qstring \<Rightarrow> console \<Rightarrow> (bool \<times> console) option" where
  "submitCommand env time command wallet_name c =
     (if con_stopping c then Some (False, c)
      else
        let trimmed_command = trimmed command
        in if trimmed_command = [] then Some (False, c)
           else case RPCParseCommandLine (con_rpc env) False True [] (toStdString env trimmed_command @ [10]) of
             Inl (Thrown what) \<Rightarrow> Some (True, appendFormattedRow env time CMD_ERROR (con_arg env (con_tr env ''Error: %1'') (fromStdString env what)) c)
           | Inl _ \<Rightarrow> None
           | Inr r \<Rightarrow>
               if \<not> returned r then Some (True, appendFormattedRow env time CMD_ERROR (con_tr env PARSE_ERROR) c)
               else
                 let filteredCmd = trimmed (fromStdString env (the (filteredOut r)))
                 in if trimmed_command = STOP then
                      (case RPCExecuteCommandLine (con_rpc env) [] (toStdString env trimmed_command) of Inl _ \<Rightarrow> None | Inr _ \<Rightarrow> Some (True, c))
                    else if con_executing c then Some (False, c)
                    else Some (True, dispatch env time filteredCmd trimmed_command wallet_name c))"

definition browseHistory :: "int \<Rightarrow> qstring \<Rightarrow> console \<Rightarrow> qstring \<times> console" where
  "browseHistory direction currentText c =
     (if con_history c = [] then (currentText, c)
      else
        let c1 = (if con_history_idx c = - 1 then c\<lparr>con_pending_text := currentText\<rparr> else c);
            newIdx = con_history_idx c1 + direction
        in if newIdx < 0 then (con_pending_text c1, c1\<lparr>con_history_idx := - 1\<rparr>)
           else
             let newIdx = (if newIdx \<ge> int (length (con_history c1)) then int (length (con_history c1)) - 1 else newIdx)
             in (con_history c1 ! (length (con_history c1) - 1 - nat newIdx), c1\<lparr>con_history_idx := newIdx\<rparr>))"

definition resetHistoryNavigation :: "console \<Rightarrow> console" where
  "resetHistoryNavigation c = c\<lparr>con_history_idx := - 1, con_pending_text := []\<rparr>"

definition console_clear :: "console \<Rightarrow> console" where
  "console_clear c = c\<lparr>con_rows := []\<rparr>"

fun removeDuplicates :: "qstring list \<Rightarrow> qstring list" where
  "removeDuplicates [] = []"
| "removeDuplicates (x # xs) = x # removeDuplicates (filter (\<lambda>y. y \<noteq> x) xs)"

definition onNodeInitialized :: "console_env \<Rightarrow> console \<Rightarrow> console" where
  "onNodeInitialized env c =
     (if con_stopping c then c
      else
        let names = map (fromStdString env) (listRpcCommands env);
            all = concat (map (\<lambda>n. [n, q ''help '' @ n]) names) @ [q ''help-console'']
        in c\<lparr>con_commands := removeDuplicates (sort_ci env all)\<rparr>)"

definition onResultReady :: "console_env \<Rightarrow> qstring \<Rightarrow> MessageCategory \<Rightarrow> qstring \<Rightarrow> console \<Rightarrow> console" where
  "onResultReady env time category rawText c =
     (if con_stopping c then c else (appendFormattedRow env time category rawText c)\<lparr>con_executing := False\<rparr>)"

definition console_beginShutdown :: "console \<Rightarrow> console" where
  "console_beginShutdown c = (if con_stopping c then c else c\<lparr>con_stopping := True\<rparr>)"

text \<open>
  The events: what QML and the node call, a turn of the worker thread with the time and the node it then
  sees, the delivery of a queued reply, and the end of the worker thread, possible once it was told to quit.
\<close>

datatype console_event =
  Submit qstring qstring qstring | Browse int qstring | ResetNavigation | ClearOutput | SetKeyColor qstring | NodeInitialized |
  WorkerTurn qstring rpc_env | DeliverReply | BeginShutdown | ThreadJoined

definition console_worker_turn :: "console_env \<Rightarrow> qstring \<Rightarrow> rpc_env \<Rightarrow> console \<Rightarrow> console option" where
  "console_worker_turn env time node c =
     (case con_worker_queue c of
        [] \<Rightarrow> Some c
      | (command, wallet_name) # queue \<Rightarrow>
          if con_drained c then Some c
          else case worker_execute (env\<lparr>con_rpc := node\<rparr>) command wallet_name of
            None \<Rightarrow> None
          | Some (category, reply) \<Rightarrow> Some (c\<lparr>con_worker_queue := queue, con_replies := con_replies c @ [(time, category, reply)]\<rparr>))"

definition deliver_reply :: "console_env \<Rightarrow> console \<Rightarrow> console" where
  "deliver_reply env c =
     (case con_replies c of
        [] \<Rightarrow> c
      | (time, category, reply) # replies \<Rightarrow> onResultReady env time category reply (c\<lparr>con_replies := replies\<rparr>))"

fun console_step :: "console_env \<Rightarrow> console_event \<Rightarrow> console \<Rightarrow> console option" where
  "console_step env (Submit time command wallet_name) c = map_option snd (submitCommand env time command wallet_name c)"
| "console_step env (Browse direction currentText) c = Some (snd (browseHistory direction currentText c))"
| "console_step env ResetNavigation c = Some (resetHistoryNavigation c)"
| "console_step env ClearOutput c = Some (console_clear c)"
| "console_step env (SetKeyColor colour) c = Some (c\<lparr>con_key_color := colour\<rparr>)"
| "console_step env NodeInitialized c = Some (onNodeInitialized env c)"
| "console_step env (WorkerTurn time node) c = console_worker_turn env time node c"
| "console_step env DeliverReply c = Some (deliver_reply env c)"
| "console_step env BeginShutdown c = Some (console_beginShutdown c)"
| "console_step env ThreadJoined c = Some (if con_stopping c then c\<lparr>con_drained := True\<rparr> else c)"

fun console_run :: "console_env \<Rightarrow> console_event list \<Rightarrow> console \<Rightarrow> console option" where
  "console_run env [] c = Some c"
| "console_run env (e # es) c = (case console_step env e c of None \<Rightarrow> None | Some c' \<Rightarrow> console_run env es c')"

section \<open>Reading the HTML back\<close>

text \<open>
  What a rich-text view shows: tags vanish, but \<open><br>\<close> breaks the line, and the named characters are replaced by what they
  stand for. The reference output is the plain text of a value.
\<close>

definition entity :: "qstring \<Rightarrow> qstring" where
  "entity e = (if e = q ''lt'' then [60] else if e = q ''gt'' then [62] else if e = q ''amp'' then [38] else if e = q ''quot'' then [34]
     else if e = q ''nbsp'' then [32] else [])"

function html_text :: "qstring \<Rightarrow> qstring" where
  "html_text [] = []"
| "html_text (c # cs) =
     (if c = 60 then (if takeWhile (\<lambda>d. d \<noteq> 62) cs = q ''br'' then [10] else []) @ html_text (tl (dropWhile (\<lambda>d. d \<noteq> 62) cs))
      else if c = 38 then entity (takeWhile (\<lambda>d. d \<noteq> 59) cs) @ html_text (tl (dropWhile (\<lambda>d. d \<noteq> 59) cs))
      else c # html_text cs)"
  by pat_completeness auto

termination html_text
proof (relation "measure length")
  have "length (tl (dropWhile P cs)) \<le> length cs" for P and cs :: qstring using length_dropWhile_le [of P cs] by simp
  then show "(tl (dropWhile (\<lambda>d. d \<noteq> 62) cs), c # cs) \<in> measure length" "(tl (dropWhile (\<lambda>d. d \<noteq> 59) cs), c # cs) \<in> measure length"
    for c :: nat and cs :: qstring
    by (simp_all only: in_measure list.size less_Suc_eq_le add_0_right add_Suc_right One_nat_def)
qed simp_all

fun plain_value :: "(bytes \<Rightarrow> qstring) \<Rightarrow> nat \<Rightarrow> UniValue \<Rightarrow> qstring"
and plain_object :: "(bytes \<Rightarrow> qstring) \<Rightarrow> nat \<Rightarrow> (bytes \<times> UniValue) list \<Rightarrow> qstring"
and plain_array :: "(bytes \<Rightarrow> qstring) \<Rightarrow> nat \<Rightarrow> UniValue list \<Rightarrow> qstring" where
  "plain_value dec depth (VOBJ kvs) =
     (if kvs = [] then q ''{}'' else 123 # 10 # plain_object dec depth kvs @ replicate (2 * depth) 32 @ q ''}'')"
| "plain_value dec depth (VARR vs) =
     (if vs = [] then q ''[]'' else 91 # 10 # plain_array dec depth vs @ replicate (2 * depth) 32 @ q '']'')"
| "plain_value dec depth (VSTR s) = 34 # dec s @ [34]"
| "plain_value dec depth (VNUM n) = dec n"
| "plain_value dec depth (VBOOL b) = (if b then q ''true'' else q ''false'')"
| "plain_value dec depth VNULL = q ''null''"
| "plain_object dec depth [] = []"
| "plain_object dec depth ((k, v) # kvs) =
     replicate (2 * (depth + 1)) 32 @ (34 # dec k @ 34 # q '': '') @ plain_value dec (depth + 1) v @
     (if kvs \<noteq> [] then q '','' else []) @ 10 # plain_object dec depth kvs"
| "plain_array dec depth [] = []"
| "plain_array dec depth (v # vs) =
     replicate (2 * (depth + 1)) 32 @ plain_value dec (depth + 1) v @ (if vs \<noteq> [] then q '','' else []) @ 10 # plain_array dec depth vs"

text \<open>The text of a JSON number has no markup in it.\<close>

fun numbers_ok :: "(bytes \<Rightarrow> qstring) \<Rightarrow> UniValue \<Rightarrow> bool" where
  "numbers_ok dec (VOBJ kvs) \<longleftrightarrow> (\<forall>kv \<in> set kvs. numbers_ok dec (snd kv))"
| "numbers_ok dec (VARR vs) \<longleftrightarrow> (\<forall>v \<in> set vs. numbers_ok dec v)"
| "numbers_ok dec (VNUM n) \<longleftrightarrow> list_all (\<lambda>c. c \<noteq> 60 \<and> c \<noteq> 38) (dec n)"
| "numbers_ok dec v \<longleftrightarrow> True"

lemma html_plain: "c \<noteq> 60 \<Longrightarrow> c \<noteq> 38 \<Longrightarrow> html_text (c # r) = c # html_text r"
  by simp

lemma html_plains: "list_all (\<lambda>c. c \<noteq> 60 \<and> c \<noteq> 38) s \<Longrightarrow> html_text (s @ r) = s @ html_text r"
  by (induction s) auto

lemma html_escaped: "html_text (toHtmlEscaped s @ r) = s @ html_text r"
  by (induction s) (auto simp: toHtmlEscaped_def html_char_def entity_def)

lemma html_br: "html_text (q ''<br>'' @ r) = 10 # html_text r"
  by simp

lemma html_nbsp: "html_text (q ''&nbsp;'' @ r) = 32 # html_text r"
  by (simp add: entity_def)

lemma html_indent: "html_text (AppendIndent n @ r) = replicate (2 * n) 32 @ html_text r"
proof -
  have "html_text (concat (replicate k (q ''&nbsp;'')) @ r) = replicate k 32 @ html_text r" for k
    by (induction k) (simp_all add: entity_def)
  then show ?thesis by (simp add: AppendIndent_def mult.commute)
qed

lemma html_tag: "62 \<notin> set t \<Longrightarrow> t \<noteq> q ''br'' \<Longrightarrow> html_text (60 # t @ 62 # r) = html_text r"
proof -
  assume "62 \<notin> set t" "t \<noteq> q ''br''"
  moreover then have "takeWhile (\<lambda>d. d \<noteq> 62) (t @ 62 # r) = t" "dropWhile (\<lambda>d. d \<noteq> 62) (t @ 62 # r) = 62 # r"
    by (simp_all add: takeWhile_append dropWhile_append)
  ultimately show ?thesis by simp
qed

lemma html_key: "62 \<notin> set colour \<Longrightarrow> html_text (key_html dec colour k @ r) = 34 # dec k @ 34 # q '': '' @ html_text r"
proof -
  assume "62 \<notin> set colour"
  then have "html_text (key_html dec colour k @ r) = html_text ([34] @ toHtmlEscaped (dec k) @ [34] @ q ''</span>: '' @ r)"
    using html_tag [of "q ''span style='' @ [39] @ q ''color:'' @ colour @ [39]"] by (simp add: key_html_def)
  also have "\<dots> = 34 # dec k @ 34 # html_text (q ''</span>: '' @ r)" by (simp add: html_escaped)
  also have "html_text (q ''</span>: '' @ r) = q '': '' @ html_text r" by simp
  finally show ?thesis .
qed

lemmas html_rules = html_plains html_escaped html_br html_nbsp html_indent html_key

lemma html_value:
  "62 \<notin> set colour \<Longrightarrow> numbers_ok dec v \<Longrightarrow> html_text (AppendValue dec colour depth v @ r) = plain_value dec depth v @ html_text r"
  "62 \<notin> set colour \<Longrightarrow> \<forall>kv \<in> set kvs. numbers_ok dec (snd kv) \<Longrightarrow>
     html_text (AppendObject dec colour depth kvs @ r) = plain_object dec depth kvs @ html_text r"
  "62 \<notin> set colour \<Longrightarrow> \<forall>v \<in> set vs. numbers_ok dec v \<Longrightarrow>
     html_text (AppendArray dec colour depth vs @ r) = plain_array dec depth vs @ html_text r"
  by (induction dec colour depth v and dec colour depth kvs and dec colour depth vs arbitrary: r and r and r
      rule: AppendValue_AppendObject_AppendArray.induct) (simp_all add: html_rules)

lemma convert_entity: "list_all (\<lambda>c. c \<noteq> 10 \<and> c \<noteq> 32) e \<Longrightarrow> e \<noteq> [] \<Longrightarrow> convert_whitespace b (e @ r) = e @ convert_whitespace False r"
proof -
  have "list_all (\<lambda>c. c \<noteq> 10 \<and> c \<noteq> 32) e \<Longrightarrow> convert_whitespace False (e @ r) = e @ convert_whitespace False r" for e by (induction e) auto
  then show "list_all (\<lambda>c. c \<noteq> 10 \<and> c \<noteq> 32) e \<Longrightarrow> e \<noteq> [] \<Longrightarrow> ?thesis" by (cases e) auto
qed

lemma html_whitespace: "html_text (convert_whitespace b (toHtmlEscaped s)) = s"
proof (induction s arbitrary: b)
  case (Cons c s)
  consider "c = 10" | "c = 32" | "c \<noteq> 10" "c \<noteq> 32" by blast
  then show ?case
  proof cases
    case 3
    then have "convert_whitespace b (html_char c @ toHtmlEscaped s) = html_char c @ convert_whitespace False (toHtmlEscaped s)"
      by (intro convert_entity) (auto simp: html_char_def)
    then show ?thesis using Cons.IH html_escaped [of "[c]"] by (simp add: toHtmlEscaped_def)
  qed (use Cons.IH in \<open>simp_all add: toHtmlEscaped_def html_char_def entity_def\<close>)
qed (simp add: toHtmlEscaped_def)

section \<open>The console's invariant\<close>

text \<open>
  At most one command is under way, in the queue of the worker or as a reply on its way back, and the
  console knows it. Rows and history are bounded, the history repeats no entry, and each of its entries is the
  filtered form of a line the parser accepted.
\<close>

definition recorded :: "console_env \<Rightarrow> qstring \<Rightarrow> bool" where
  "recorded env h \<longleftrightarrow> (\<exists>line r. RPCParseCommandLine (con_rpc env) False True [] (line @ [10]) = Inr r \<and> returned r \<and>
     h = trimmed (fromStdString env (the (filteredOut r))))"

definition flight_inv :: "bool \<Rightarrow> bool \<Rightarrow> nat \<Rightarrow> bool" where
  "flight_inv executing stopping n \<longleftrightarrow> n \<le> 1 \<and> (\<not> executing \<longrightarrow> n = 0) \<and> (executing \<and> \<not> stopping \<longrightarrow> n = 1)"

definition history_inv :: "console_env \<Rightarrow> qstring list \<Rightarrow> int \<Rightarrow> bool" where
  "history_inv env h i \<longleftrightarrow> length h \<le> HISTORY_MAX \<and> distinct_adj h \<and> (\<forall>x \<in> set h. recorded env x) \<and> - 1 \<le> i \<and> i < int (length h)"

definition under_way :: "console \<Rightarrow> nat" where
  "under_way c = length (con_worker_queue c) + length (con_replies c)"

definition console_inv :: "console_env \<Rightarrow> console \<Rightarrow> bool" where
  "console_inv env c \<longleftrightarrow> length (con_rows c) \<le> kMaxRows \<and> history_inv env (con_history c) (con_history_idx c) \<and>
     flight_inv (con_executing c) (con_stopping c) (under_way c)"

lemma appendRow_bound: "length rows \<le> kMaxRows \<Longrightarrow> length (appendRow row rows) \<le> kMaxRows"
  by (simp add: appendRow_def kMaxRows_def)

lemma appendFormattedRow_fields [simp]:
  "con_history (appendFormattedRow env t k r c) = con_history c" "con_history_idx (appendFormattedRow env t k r c) = con_history_idx c"
  "con_executing (appendFormattedRow env t k r c) = con_executing c" "con_stopping (appendFormattedRow env t k r c) = con_stopping c"
  "con_worker_queue (appendFormattedRow env t k r c) = con_worker_queue c" "con_replies (appendFormattedRow env t k r c) = con_replies c"
  "con_last_wallet (appendFormattedRow env t k r c) = con_last_wallet c"
  "con_rows (appendFormattedRow env t k r c) = appendRow (t, (case k of CMD_REPLY \<Rightarrow> FormatJsonReply env (toStdString env r) (con_key_color c) |
     _ \<Rightarrow> EscapeAndConvertWhitespace r), k) (con_rows c)"
  by (simp_all add: appendFormattedRow_def Let_def split: MessageCategory.splits)

lemma append_inv: "console_inv env c \<Longrightarrow> console_inv env (appendFormattedRow env' t k r c)"
  by (simp add: console_inv_def under_way_def appendRow_bound)

lemma announce_fields [simp]:
  "con_history (announce_wallet env t w c) = con_history c" "con_history_idx (announce_wallet env t w c) = con_history_idx c"
  "con_worker_queue (announce_wallet env t w c) = con_worker_queue c" "con_replies (announce_wallet env t w c) = con_replies c"
  "con_stopping (announce_wallet env t w c) = con_stopping c"
  by (simp_all add: announce_wallet_def)

lemma announce_rows: "length (con_rows c) \<le> kMaxRows \<Longrightarrow> length (con_rows (announce_wallet env t w c)) \<le> kMaxRows"
  by (simp add: announce_wallet_def appendRow_bound)

lemma add_history_inv:
  assumes "history_inv env h i" "recorded env cmd"
  shows "history_inv env (add_history cmd h) (- 1)"
proof -
  have "set (add_history cmd h) \<subseteq> insert cmd (set h)" by (auto simp: add_history_def Let_def dest: list.set_sel(2) [rotated])
  moreover have "distinct_adj (add_history cmd h)"
  proof -
    have "distinct_adj xs \<Longrightarrow> distinct_adj (tl xs)" for xs :: "qstring list" by (cases xs) (auto dest: distinct_adj_ConsD)
    moreover have "h = [] \<or> last h \<noteq> cmd \<Longrightarrow> distinct_adj (h @ [cmd])" using assms(1) by (auto simp: history_inv_def distinct_adj_append_iff)
    ultimately show ?thesis using assms(1) unfolding add_history_def history_inv_def Let_def by presburger
  qed
  moreover have "length (add_history cmd h) \<le> HISTORY_MAX" "add_history cmd h \<noteq> []"
    using assms(1) by (auto simp: add_history_def history_inv_def Let_def HISTORY_MAX_def tl_append split: list.splits)
  ultimately show ?thesis using assms by (auto simp: history_inv_def)
qed

lemma dispatch_inv:
  assumes "console_inv env c" "recorded env cmd" "\<not> con_executing c" "\<not> con_stopping c"
  shows "console_inv env (dispatch env t cmd raw w c)"
proof -
  have "history_inv env (add_history cmd (con_history c)) (- 1)" using assms(1,2) by (auto simp: console_inv_def intro: add_history_inv)
  moreover have "under_way c = 0" using assms(1,3) by (simp add: console_inv_def flight_inv_def)
  ultimately show ?thesis using assms
    by (simp add: dispatch_def Let_def console_inv_def flight_inv_def under_way_def appendRow_bound announce_rows)
qed

lemma submit_cases:
  assumes "submitCommand env t cmd w c = Some (b, c')"
  obtains "c' = c" | k x where "c' = appendFormattedRow env t k x c"
  | r where "RPCParseCommandLine (con_rpc env) False True [] (toStdString env (trimmed cmd) @ [10]) = Inr r" "returned r"
      "\<not> con_executing c" "\<not> con_stopping c" "c' = dispatch env t (trimmed (fromStdString env (the (filteredOut r)))) (trimmed cmd) w c"
proof (cases "con_stopping c \<or> trimmed cmd = []")
  case True
  then show thesis using assms that(1) by (cases "con_stopping c") (simp_all add: submitCommand_def)
next
  case go: False
  show thesis
  proof (cases "RPCParseCommandLine (con_rpc env) False True [] (toStdString env (trimmed cmd) @ [10])")
    case (Inl err)
    then show thesis using assms go that(2) by (cases err) (simp_all add: submitCommand_def, metis)
  next
    case (Inr r)
    consider "\<not> returned r" | "returned r" "trimmed cmd = STOP" | "returned r" "trimmed cmd \<noteq> STOP" "con_executing c"
      | "returned r" "trimmed cmd \<noteq> STOP" "\<not> con_executing c" by blast
    then show thesis
    proof cases
      case 1 then show thesis using assms go Inr that(2) by (simp add: submitCommand_def) metis
    next
      case 2 then show thesis using assms go Inr that(1) by (simp add: submitCommand_def split: sum.splits)
    next
      case 3 then show thesis using assms go Inr that(1) by (simp add: submitCommand_def)
    next
      case 4 then show thesis using assms go Inr that(3) by (simp add: submitCommand_def)
    qed
  qed
qed

lemma recordedI:
  "RPCParseCommandLine (con_rpc env) False True [] (line @ [10]) = Inr r \<Longrightarrow> returned r \<Longrightarrow>
   recorded env (trimmed (fromStdString env (the (filteredOut r))))"
  unfolding recorded_def by blast

lemma submit_inv: "console_inv env c \<Longrightarrow> submitCommand env t cmd w c = Some (b, c') \<Longrightarrow> console_inv env c'"
  by (erule submit_cases) (auto intro: append_inv dispatch_inv recordedI)

lemma browse_inv: "console_inv env c \<Longrightarrow> console_inv env (snd (browseHistory d t c))"
  by (auto simp: browseHistory_def Let_def console_inv_def under_way_def history_inv_def)

lemma deliver_inv: "console_inv env c \<Longrightarrow> console_inv env (deliver_reply env' c)"
  by (cases "con_replies c"; cases "con_stopping c")
    (auto simp: deliver_reply_def onResultReady_def console_inv_def under_way_def flight_inv_def appendRow_bound split: prod.splits)

lemma worker_inv: "console_inv env c \<Longrightarrow> console_worker_turn env' t node c = Some c' \<Longrightarrow> console_inv env c'"
  by (auto simp: console_worker_turn_def console_inv_def under_way_def split: list.splits if_splits option.splits)

lemma quiet_inv:
  "console_inv env c \<Longrightarrow> console_inv env (resetHistoryNavigation c)" "console_inv env c \<Longrightarrow> console_inv env (console_clear c)"
  "console_inv env c \<Longrightarrow> console_inv env (c\<lparr>con_key_color := colour\<rparr>)" "console_inv env c \<Longrightarrow> console_inv env (onNodeInitialized env' c)"
  "console_inv env c \<Longrightarrow> console_inv env (console_beginShutdown c)" "console_inv env c \<Longrightarrow> console_inv env (c\<lparr>con_drained := True\<rparr>)"
  by (simp_all add: resetHistoryNavigation_def console_clear_def onNodeInitialized_def console_beginShutdown_def console_inv_def
      under_way_def history_inv_def flight_inv_def Let_def)

lemma console_step_inv: "console_inv env c \<Longrightarrow> console_step env e c = Some c' \<Longrightarrow> console_inv env c'"
  by (cases e) (auto intro: submit_inv browse_inv worker_inv deliver_inv quiet_inv)

lemma console_run_inv: "console_inv env c \<Longrightarrow> console_run env es c = Some c' \<Longrightarrow> console_inv env c'"
  by (induction es arbitrary: c) (auto intro: console_step_inv split: option.splits)

lemma new_console_inv: "console_inv env new_console"
  by (simp add: console_inv_def new_console_def history_inv_def flight_inv_def under_way_def)

section \<open>Properties\<close>

text \<open>
  C8: the console in every order of events. Whatever is submitted, browsed, cleared and delivered, and whenever the worker runs or
  shutdown begins, at most one command is under way, the console refuses another until its reply has arrived, the output has at most
  5000 rows and the history at most 50 entries, no entry repeats the one before, browsing stays within the history, and every
  entry is the filtered form of a line the parser accepted.
\<close>

theorem console_serialised:
  assumes "console_run env es new_console = Some c"
  shows "length (con_worker_queue c) + length (con_replies c) \<le> 1 \<and>
     (\<not> con_stopping c \<longrightarrow> (con_executing c \<longleftrightarrow> length (con_worker_queue c) + length (con_replies c) = 1)) \<and>
     length (con_rows c) \<le> 5000 \<and> length (con_history c) \<le> 50 \<and> distinct_adj (con_history c) \<and>
     con_history_idx c < int (length (con_history c)) \<and> (\<forall>h \<in> set (con_history c). recorded env h) \<and>
     (\<forall>t cmd w b c'. con_executing c \<and> submitCommand env t cmd w c = Some (b, c') \<longrightarrow> con_worker_queue c' = con_worker_queue c)"
proof -
  have i: "console_inv env c" using console_run_inv [OF new_console_inv assms] .
  have "con_worker_queue c' = con_worker_queue c" if "con_executing c" "submitCommand env t cmd w c = Some (b, c')" for t cmd w b c'
    using that(2) by (rule submit_cases) (use that(1) in simp_all)
  with i show ?thesis
    unfolding console_inv_def history_inv_def flight_inv_def under_way_def kMaxRows_def HISTORY_MAX_def by auto
qed

definition demo_console :: console_env where
  "demo_console = \<lparr>con_rpc = demo_rpc, toStdString = id, fromStdString = id, con_fold = id, con_tr = q, con_arg = (@), con_read = (\<lambda>_. None),
     err_code = (\<lambda>_. None), err_message = (\<lambda>_. None), err_write = (\<lambda>_. []), listRpcCommands = [], sort_ci = id\<rparr>"

definition demo_events :: "console_event list" where
  "demo_events = [Submit [] (q '' getinfo '') [], Submit [] (q ''walletpassphrase pw 60'') [], WorkerTurn [] demo_rpc, DeliverReply,
     Submit [] (q ''walletpassphrase pw 60'') [], BeginShutdown]"

theorem console_serialised_witness:
  "\<exists>c. console_run demo_console demo_events new_console = Some c \<and> distinct_adj (con_history c) \<and>
     con_history c = [q ''getinfo'', q ''walletpassphrase'' @ HIDDEN] \<and> length (con_rows c) = 3"
proof -
  have "(case console_run demo_console demo_events new_console of None \<Rightarrow> False
      | Some c \<Rightarrow> con_history c = [q ''getinfo'', q ''walletpassphrase'' @ HIDDEN] \<and> length (con_rows c) = 3)"
    by code_simp
  then obtain c where c: "console_run demo_console demo_events new_console = Some c"
    "con_history c = [q ''getinfo'', q ''walletpassphrase'' @ HIDDEN]" "length (con_rows c) = 3"
    by (auto simp del: q_simps split: option.splits)
  from console_serialised [OF c(1)] c show ?thesis by blast
qed

text \<open>
  nothing a reply contains can pose as markup. What a rich-text view shows for a request or an error is exactly its text,
  line breaks and leading blanks included; and for a JSON reply, whatever strings and keys it has, it is exactly the
  indented plain text of the value.
\<close>

theorem console_html:
  assumes "62 \<notin> set colour" "numbers_ok dec v"
  shows "html_text (EscapeAndConvertWhitespace s) = s \<and> html_text (AppendValue dec colour 0 v) = plain_value dec 0 v"
  using html_whitespace [of True s] html_value(1) [OF assms, of 0 "[]"] by (simp add: EscapeAndConvertWhitespace_def)

theorem console_html_witness:
  "html_text (AppendValue id (q ''#98c379'') 0 (VOBJ [(q ''<b>'', VARR [VSTR (q ''a&b''), VNUM (q ''1'')])])) =
   plain_value id 0 (VOBJ [(q ''<b>'', VARR [VSTR (q ''a&b''), VNUM (q ''1'')])])"
proof -
  have "62 \<notin> set (q ''#98c379'')" "numbers_ok id (VOBJ [(q ''<b>'', VARR [VSTR (q ''a&b''), VNUM (q ''1'')])])" by simp_all
  from console_html [OF this] show ?thesis by blast
qed

end
