(* ===== verification/Settings.thy ===== *)
theory Settings
  imports Prelude "HOL-Library.Monad_Syntax"
begin

text \<open>
  \<open>src/qml/core_settings.{h,cpp}\<close>: the settings shared with the node, where they come from, what the GUI stores for
  them, and the session in which the user edits them. The layers of Core's settings that the code touches are
  the record \<open>settings\<close>; looking a setting up through all layers, conversions of a setting, address parsing
  and the defaults are the functions of the record \<open>settings_env\<close>. An error message is its untranslated text, and no
  message is \<open>None\<close>. Integers have their C++ widths: a signed overflow is \<open>None\<close>, unsigned arithmetic wraps.
\<close>

section \<open>Definitions\<close>

record settings =
  forced_settings :: "string \<rightharpoonup> UniValue"
  command_line_options :: "string \<Rightarrow> UniValue list"
  rw_settings :: "string \<rightharpoonup> UniValue"

record settings_env =
  GetSetting :: "settings \<Rightarrow> string \<Rightarrow> UniValue"
  GetPersistentSetting :: "settings \<Rightarrow> string \<Rightarrow> UniValue"
  ConfigSetting :: "string \<Rightarrow> UniValue"
  SettingToBool :: "UniValue \<Rightarrow> bool option"
  SettingToInt :: "UniValue \<Rightarrow> int option"
  SettingToString :: "UniValue \<Rightarrow> bytes option"
  write_value :: "UniValue \<Rightarrow> bytes"
  s_enc :: "qstring \<Rightarrow> bytes"
  s_dec :: "bytes \<Rightarrow> qstring"
  IsUnixSocketPath :: "bytes \<Rightarrow> bool"
  SplitHostPort :: "bytes \<Rightarrow> bytes option"
  NumericProxyValid :: "bytes \<Rightarrow> bool"
  DEFAULT_LISTEN :: bool
  DEFAULT_NATPMP :: bool
  DEFAULT_DB_CACHE_MIB :: int
  DEFAULT_SCRIPTCHECK_THREADS :: int
  DEFAULT_MAX_MEMPOOL_SIZE_MB :: int

subsection \<open>Names\<close>

definition IsBoolCoreSetting :: "string \<Rightarrow> bool" where
  "IsBoolCoreSetting name \<longleftrightarrow> name \<in> {''listen'', ''natpmp'', ''server''}"

definition IsIntCoreSetting :: "string \<Rightarrow> bool" where
  "IsIntCoreSetting name \<longleftrightarrow> name \<in> {''dbcache'', ''par'', ''maxmempool'', ''prune''}"

definition IsParameterInteractionSetting :: "string \<Rightarrow> bool" where
  "IsParameterInteractionSetting name \<longleftrightarrow> name \<in> {''listen'', ''natpmp'', ''maxmempool''}"

definition IsLegacyNumericRwSetting :: "string \<Rightarrow> bool" where
  "IsLegacyNumericRwSetting name \<longleftrightarrow> name \<in> {''dbcache'', ''par'', ''prune'', ''prune-prev''}"

definition IsOptionalStringCoreSetting :: "string \<Rightarrow> bool" where
  "IsOptionalStringCoreSetting name \<longleftrightarrow> name \<in> {''proxy'', ''onion'', ''signer'', ''lang''}"

definition IsSessionSetting :: "string \<Rightarrow> bool" where
  "IsSessionSetting name \<longleftrightarrow> name \<in> {''listen'', ''natpmp'', ''server'', ''prune'', ''proxy'', ''onion''}"

definition CoreSettingNames :: "string list" where
  "CoreSettingNames = [''listen'', ''natpmp'', ''server'', ''prune'', ''dbcache'', ''par'', ''maxmempool'', ''proxy'', ''onion'', ''signer'', ''lang'']"

definition OnboardingCoreSettingNames :: "string list" where
  "OnboardingCoreSettingNames = [''listen'', ''natpmp'', ''server'', ''prune'', ''proxy'', ''onion'']"

subsection \<open>Host names\<close>

definition TrimTrailingRootDot :: "bytes \<Rightarrow> bytes" where
  "TrimTrailingRootDot host = (if host \<noteq> [] \<and> last host = 46 then butlast host else host)"

fun dotted_loop :: "bool \<Rightarrow> bool \<Rightarrow> bytes \<Rightarrow> bool" where
  "dotted_loop has_dot has_digit [] = (has_dot \<and> has_digit)"
| "dotted_loop has_dot has_digit (c # cs) =
     (if c = 46 then dotted_loop True has_digit cs else if is_digit c then dotted_loop has_dot True cs else False)"

definition IsDottedNumericHost :: "bytes \<Rightarrow> bool" where
  "IsDottedNumericHost host = dotted_loop False False host"

definition isalnum :: "nat \<Rightarrow> bool" where
  "isalnum c \<longleftrightarrow> is_digit c \<or> 65 \<le> c \<and> c \<le> 90 \<or> 97 \<le> c \<and> c \<le> 122"

fun hostname_loop :: "nat \<Rightarrow> nat \<Rightarrow> bytes \<Rightarrow> bool" where
  "hostname_loop label_len previous [] = (label_len > 0 \<and> previous \<noteq> 45)"
| "hostname_loop label_len previous (c # cs) =
     (if c = 46 then (if label_len = 0 \<or> previous = 45 then False else hostname_loop 0 c cs)
      else if \<not> isalnum c \<and> c \<noteq> 45 then False
      else if label_len = 0 \<and> c = 45 then False
      else if label_len + 1 > 63 then False
      else hostname_loop (label_len + 1) c cs)"

definition IsValidHostnameSyntax :: "bytes \<Rightarrow> bool" where
  "IsValidHostnameSyntax host =
     (if host = [] \<or> length host > 253 \<or> 0 \<in> set host then False
      else let hostname = TrimTrailingRootDot host
           in if hostname = [] \<or> IsDottedNumericHost hostname then False else hostname_loop 0 0 hostname)"

subsection \<open>Pruning and proxies\<close>

definition GB_BYTES :: int where "GB_BYTES = 1000000000"
definition DEFAULT_PRUNE_TARGET_GB :: int where "DEFAULT_PRUNE_TARGET_GB = 2"

definition wrap_i32 :: "int \<Rightarrow> int" where "wrap_i32 x = (x + 2 ^ 31) mod 2 ^ 32 - 2 ^ 31"
definition wrap_i64 :: "int \<Rightarrow> int" where "wrap_i64 x = (x + 2 ^ 63) mod 2 ^ 64 - 2 ^ 63"

definition PruneMiBToGB :: "int \<Rightarrow> int option" where
  "PruneMiBToGB mib = do {
     kib \<leftarrow> chk64 (mib * 1024);
     b \<leftarrow> chk64 (kib * 1024);
     Some (wrap_i32 ((b + GB_BYTES - 1) mod 2 ^ 64 div GB_BYTES))
   }"

definition PruneGBToMiB :: "int \<Rightarrow> int" where
  "PruneGBToMiB gb = wrap_i64 ((gb mod 2 ^ 64 * GB_BYTES) mod 2 ^ 64 div 1024 div 1024)"

definition PruneEnabled :: "settings_env \<Rightarrow> UniValue \<Rightarrow> bool" where
  "PruneEnabled env v \<longleftrightarrow> (case SettingToInt env v of None \<Rightarrow> 0 | Some n \<Rightarrow> n) > 1"

definition PruneSizeGBFromSetting :: "settings_env \<Rightarrow> UniValue \<Rightarrow> int option" where
  "PruneSizeGBFromSetting env v =
     (let value = (case SettingToInt env v of None \<Rightarrow> 0 | Some n \<Rightarrow> n)
      in if value > 1 then PruneMiBToGB value else Some DEFAULT_PRUNE_TARGET_GB)"

definition PruneSetting :: "bool \<Rightarrow> int \<Rightarrow> UniValue" where
  "PruneSetting enabled prune_size_gb =
     (if enabled then VNUM (number (PruneGBToMiB (if prune_size_gb < 1 then 1 else prune_size_gb))) else VNUM (number 0))"

definition DefaultProxyAddress :: qstring where
  "DefaultProxyAddress = q ''127.0.0.1:9050''"

definition ADDR_PREFIX_UNIX :: bytes where "ADDR_PREFIX_UNIX = q ''unix:''"

definition ProxyValidationError :: "settings_env \<Rightarrow> qstring \<Rightarrow> string option" where
  "ProxyValidationError env location =
     (let trimmed_location = trimmed location; value = s_enc env trimmed_location
      in if trimmed_location = [] then Some ''Proxy location is required.''
         else if 0 \<in> set value then Some ''The supplied proxy location is invalid.''
         else if 61 \<in> set trimmed_location then Some ''Per-network proxy values are not supported in this field.''
         else if take (length ADDR_PREFIX_UNIX) value = ADDR_PREFIX_UNIX then
           (if IsUnixSocketPath env value then None
            else Some ''This Unix socket proxy path is not supported on this platform or is too long.'')
         else case SplitHostPort env value of
           None \<Rightarrow> Some ''Enter a proxy location as host, host:port, [IPv6], [IPv6]:port, or unix:/path.''
         | Some host \<Rightarrow>
             if host = [] then Some ''Enter a proxy location as host, host:port, [IPv6], [IPv6]:port, or unix:/path.''
             else if \<not> NumericProxyValid env value then
               (if IsValidHostnameSyntax host then None else Some ''The supplied proxy location is invalid.'')
             else None)"

definition ProxySetting :: "settings_env \<Rightarrow> bool \<Rightarrow> qstring \<Rightarrow> UniValue" where
  "ProxySetting env enabled address =
     (let trimmed_address = trimmed address
      in if enabled \<and> trimmed_address \<noteq> [] then VSTR (s_enc env trimmed_address) else VBOOL False)"

definition ProxyAddressFromSetting :: "settings_env \<Rightarrow> UniValue \<Rightarrow> qstring" where
  "ProxyAddressFromSetting env v =
     (let proxy_setting = s_dec env (case SettingToString env v of None \<Rightarrow> [] | Some s \<Rightarrow> s)
      in if proxy_setting = q ''0'' then [] else proxy_setting)"

subsection \<open>Loading\<close>

record Values =
  v_prune :: bool
  v_prune_size_gb :: int
  v_listen :: bool
  v_natpmp :: bool
  v_server :: bool
  v_proxy_enabled :: bool
  v_proxy_address :: qstring
  v_tor_enabled :: bool
  v_tor_address :: qstring

definition or_default :: "'a \<Rightarrow> 'a option \<Rightarrow> 'a" where
  "or_default d v = (case v of None \<Rightarrow> d | Some x \<Rightarrow> x)"

text \<open>The part the two loaders share: \<open>get\<close> is the lookup they use and \<open>prev\<close> that of the remembered values.\<close>

definition load_values :: "settings_env \<Rightarrow> (string \<Rightarrow> UniValue) \<Rightarrow> (string \<Rightarrow> UniValue) \<Rightarrow> Values option" where
  "load_values env get prev = do {
     prune_size_gb \<leftarrow> (if PruneEnabled env (get ''prune'') then PruneSizeGBFromSetting env (get ''prune'')
                      else PruneSizeGBFromSetting env (prev ''prune-prev''));
     let proxy_setting = ProxyAddressFromSetting env (get ''proxy'');
     let onion_setting = ProxyAddressFromSetting env (get ''onion'');
     Some \<lparr>v_prune = PruneEnabled env (get ''prune''), v_prune_size_gb = prune_size_gb,
       v_listen = or_default (DEFAULT_LISTEN env) (SettingToBool env (get ''listen'')),
       v_natpmp = or_default (DEFAULT_NATPMP env) (SettingToBool env (get ''natpmp'')),
       v_server = or_default False (SettingToBool env (get ''server'')),
       v_proxy_enabled = (proxy_setting \<noteq> []),
       v_proxy_address = (if proxy_setting \<noteq> [] then proxy_setting else s_dec env (or_default [] (SettingToString env (prev ''proxy-prev'')))),
       v_tor_enabled = (onion_setting \<noteq> []),
       v_tor_address = (if onion_setting \<noteq> [] then onion_setting else s_dec env (or_default [] (SettingToString env (prev ''onion-prev''))))\<rparr>
   }"

definition LoadPersistentValues :: "settings_env \<Rightarrow> settings \<Rightarrow> Values option" where
  "LoadPersistentValues env s = load_values env (GetPersistentSetting env s) (GetPersistentSetting env s)"

definition LoadEffectiveValues :: "settings_env \<Rightarrow> settings \<Rightarrow> Values option" where
  "LoadEffectiveValues env s = do {
     v \<leftarrow> load_values env (GetSetting env s) (GetPersistentSetting env s);
     Some (v\<lparr>v_proxy_address := (if v_proxy_address v = [] then DefaultProxyAddress else v_proxy_address v),
             v_tor_address := (if v_tor_address v = [] then DefaultProxyAddress else v_tor_address v)\<rparr>)
   }"

definition IsCommandLineOverridden :: "settings \<Rightarrow> string \<Rightarrow> bool" where
  "IsCommandLineOverridden s name \<longleftrightarrow> command_line_options s name \<noteq> []"

definition HasEffectiveSetting :: "settings_env \<Rightarrow> settings \<Rightarrow> string \<Rightarrow> bool" where
  "HasEffectiveSetting env s name \<longleftrightarrow> GetSetting env s name \<noteq> VNULL"

definition LoadDisplayValues :: "settings_env \<Rightarrow> settings \<Rightarrow> Values option" where
  "LoadDisplayValues env s = do {
     v \<leftarrow> LoadPersistentValues env s;
     e \<leftarrow> LoadEffectiveValues env s;
     let v = (if HasEffectiveSetting env s ''listen'' then v\<lparr>v_listen := v_listen e\<rparr> else v);
     let v = (if HasEffectiveSetting env s ''natpmp'' then v\<lparr>v_natpmp := v_natpmp e\<rparr> else v);
     let v = (if HasEffectiveSetting env s ''server'' then v\<lparr>v_server := v_server e\<rparr> else v);
     let v = (if HasEffectiveSetting env s ''prune'' then v\<lparr>v_prune := v_prune e, v_prune_size_gb := v_prune_size_gb e\<rparr> else v);
     let v = (if HasEffectiveSetting env s ''proxy'' then v\<lparr>v_proxy_enabled := v_proxy_enabled e, v_proxy_address := v_proxy_address e\<rparr> else v);
     Some (if HasEffectiveSetting env s ''onion'' then v\<lparr>v_tor_enabled := v_tor_enabled e, v_tor_address := v_tor_address e\<rparr> else v)
   }"

subsection \<open>What is stored\<close>

definition ForcedParameterInteractionValue :: "settings \<Rightarrow> string \<Rightarrow> UniValue" where
  "ForcedParameterInteractionValue s name =
     (if \<not> IsParameterInteractionSetting name then VNULL else or_default VNULL (forced_settings s name))"

definition DefaultCoreSettingValue :: "settings_env \<Rightarrow> string \<Rightarrow> UniValue" where
  "DefaultCoreSettingValue env name =
     (if name = ''listen'' then VBOOL (DEFAULT_LISTEN env)
      else if name = ''natpmp'' then VBOOL (DEFAULT_NATPMP env)
      else if name = ''server'' then VBOOL False
      else if name = ''prune'' then VNUM (number 0)
      else if name = ''dbcache'' then VNUM (number (DEFAULT_DB_CACHE_MIB env))
      else if name = ''par'' then VNUM (number (DEFAULT_SCRIPTCHECK_THREADS env))
      else if name = ''maxmempool'' then VNUM (number (DEFAULT_MAX_MEMPOOL_SIZE_MB env))
      else VNULL)"

definition DisplaySettingValue :: "settings_env \<Rightarrow> settings \<Rightarrow> string \<Rightarrow> UniValue" where
  "DisplaySettingValue env s name =
     (if GetSetting env s name \<noteq> VNULL then GetSetting env s name else GetPersistentSetting env s name)"

definition empty_text :: "bytes option \<Rightarrow> bool" where
  "empty_text t \<longleftrightarrow> t = None \<or> t = Some [] \<or> t = Some (q ''0'')"

definition CoreSettingValuesEqual :: "settings_env \<Rightarrow> string \<Rightarrow> UniValue \<Rightarrow> UniValue \<Rightarrow> bool" where
  "CoreSettingValuesEqual env name left right =
     (if left = VNULL \<and> right = VNULL then True
      else if IsBoolCoreSetting name then SettingToBool env left \<noteq> None \<and> SettingToBool env left = SettingToBool env right
      else if IsIntCoreSetting name then SettingToInt env left \<noteq> None \<and> SettingToInt env left = SettingToInt env right
      else if IsOptionalStringCoreSetting name then
        (if empty_text (SettingToString env left) \<and> empty_text (SettingToString env right) then True
         else SettingToString env left \<noteq> None \<and> SettingToString env left = SettingToString env right)
      else write_value env left = write_value env right)"

record CoreStatus =
  st_source :: string
  st_canEdit :: bool
  st_commandLineOverridden :: bool
  st_hasRwSetting :: bool
  st_hasConfigSetting :: bool
  st_createsGuiOverride :: bool
  st_startupAdjusted :: bool
  st_infoText :: string

definition CoreSettingStatus :: "settings_env \<Rightarrow> settings \<Rightarrow> string \<Rightarrow> CoreStatus" where
  "CoreSettingStatus env s name =
     (let command_line_overridden = IsCommandLineOverridden s name;
          has_rw_setting = (or_default VNULL (rw_settings s name) \<noteq> VNULL);
          has_config_setting = (ConfigSetting env name \<noteq> VNULL);
          startup_adjusted = (\<not> command_line_overridden \<and> ForcedParameterInteractionValue s name \<noteq> VNULL);
          can_edit = (\<not> command_line_overridden);
          creates_gui_override = (can_edit \<and> \<not> has_rw_setting \<and> (has_config_setting \<or> startup_adjusted))
      in \<lparr>st_source = (if command_line_overridden then ''command_line''
                      else if startup_adjusted then ''startup''
                      else if has_rw_setting then ''settings_json''
                      else if has_config_setting then ''bitcoin_conf''
                      else ''default''),
          st_canEdit = can_edit, st_commandLineOverridden = command_line_overridden, st_hasRwSetting = has_rw_setting,
          st_hasConfigSetting = has_config_setting, st_createsGuiOverride = creates_gui_override, st_startupAdjusted = startup_adjusted,
          st_infoText =
            (if command_line_overridden then ''Set by command line (-'' @ name @ ''). Remove the command-line option to change this here.''
             else if startup_adjusted then
               (if has_rw_setting then ''Adjusted by related startup options. The saved GUI override will apply after restart.''
                else ''Adjusted by related startup options. Changing this saves a GUI override in settings.json.'')
             else if creates_gui_override then ''Loaded from bitcoin.conf. Changing this saves a GUI override in settings.json.''
             else [])\<rparr>)"

text \<open>
  The statuses are a \<open>QVariantMap\<close> from names to statuses, kept as the list of its pairs in the order of the names they are
  built for, which is the same order everywhere, so that two of them are equal when the maps are.
\<close>

type_synonym statuses = "(string \<times> CoreStatus) list"

definition BuildCoreSettingStatuses :: "settings_env \<Rightarrow> settings \<Rightarrow> string list \<Rightarrow> statuses" where
  "BuildCoreSettingStatuses env s names = map (\<lambda>n. (n, CoreSettingStatus env s n)) names"

definition CanEditCoreSetting :: "settings_env \<Rightarrow> settings \<Rightarrow> string \<Rightarrow> bool" where
  "CanEditCoreSetting env s name = st_canEdit (CoreSettingStatus env s name)"

definition GuiOverrideValue :: "settings_env \<Rightarrow> settings \<Rightarrow> string \<Rightarrow> UniValue \<Rightarrow> UniValue" where
  "GuiOverrideValue env s name v =
     (let forced_value = ForcedParameterInteractionValue s name
      in if forced_value \<noteq> VNULL then (if CoreSettingValuesEqual env name v forced_value then VNULL else v)
         else
           let config_value = ConfigSetting env name; default_value = DefaultCoreSettingValue env name
           in if config_value \<noteq> VNULL then (if CoreSettingValuesEqual env name v config_value then VNULL else v)
              else if CoreSettingValuesEqual env name v default_value then VNULL
              else v)"

definition LegacyCompatibleRwSettingValue :: "string \<Rightarrow> UniValue \<Rightarrow> UniValue" where
  "LegacyCompatibleRwSettingValue name v =
     (case v of VNUM t \<Rightarrow> if IsLegacyNumericRwSetting name then VSTR t else v | _ \<Rightarrow> v)"

definition SetRwSetting :: "string \<Rightarrow> UniValue \<Rightarrow> settings \<Rightarrow> settings" where
  "SetRwSetting name v s =
     (let stored_value = LegacyCompatibleRwSettingValue name v
      in s\<lparr>rw_settings := (rw_settings s)(name := if stored_value = VNULL then None else Some stored_value)\<rparr>)"

definition WriteCoreSettingOverride :: "settings_env \<Rightarrow> string \<Rightarrow> UniValue \<Rightarrow> settings \<Rightarrow> bool \<times> settings" where
  "WriteCoreSettingOverride env name v s =
     (if \<not> CanEditCoreSetting env s name then (False, s) else (True, SetRwSetting name (GuiOverrideValue env s name v) s))"

definition WritePruneSetting :: "settings_env \<Rightarrow> bool \<Rightarrow> int \<Rightarrow> settings \<Rightarrow> bool \<times> settings" where
  "WritePruneSetting env enabled prune_size_gb s =
     (if \<not> CanEditCoreSetting env s ''prune'' then (False, s)
      else if enabled then
        let (ok, s1) = WriteCoreSettingOverride env ''prune'' (PruneSetting True prune_size_gb) s
        in if \<not> ok then (False, s1) else (True, SetRwSetting ''prune-prev'' VNULL s1)
      else
        let s1 = SetRwSetting ''prune-prev'' (PruneSetting True prune_size_gb) s
        in WriteCoreSettingOverride env ''prune'' (PruneSetting False prune_size_gb) s1)"

definition WriteProxySetting :: "settings_env \<Rightarrow> string \<Rightarrow> bool \<Rightarrow> qstring \<Rightarrow> settings \<Rightarrow> bool \<times> settings" where
  "WriteProxySetting env key enabled address s =
     (let trimmed_address = trimmed address; prev_key = key @ ''-prev''
      in if \<not> CanEditCoreSetting env s key then (False, s)
         else if enabled \<and> ProxyValidationError env trimmed_address \<noteq> None then (False, s)
         else if enabled then
           let (ok, s1) = WriteCoreSettingOverride env key (ProxySetting env True trimmed_address) s
           in if \<not> ok then (False, s1) else (True, SetRwSetting prev_key VNULL s1)
         else
           let s1 = (if trimmed_address \<noteq> [] then SetRwSetting prev_key (VSTR (s_enc env trimmed_address)) s else s)
           in WriteCoreSettingOverride env key (ProxySetting env False trimmed_address) s1)"

section \<open>Host names\<close>

definition label_ok :: "bytes \<Rightarrow> bool" where
  "label_ok l \<longleftrightarrow> l \<noteq> [] \<and> length l \<le> 63 \<and> list_all (\<lambda>c. isalnum c \<or> c = 45) l \<and> hd l \<noteq> 45 \<and> last l \<noteq> 45"

definition label_prefix :: "bytes \<Rightarrow> bool" where
  "label_prefix l \<longleftrightarrow> length l \<le> 63 \<and> list_all (\<lambda>c. isalnum c \<or> c = 45) l \<and> (l \<noteq> [] \<longrightarrow> hd l \<noteq> 45)"

lemma label_ok_prefix: "label_ok (l @ x) \<Longrightarrow> label_prefix l"
  by (cases l) (auto simp: label_ok_def label_prefix_def)

lemma hostname_loop_labels:
  "label_prefix l \<Longrightarrow> (l \<noteq> [] \<longrightarrow> p = last l) \<Longrightarrow>
   hostname_loop (length l) p cs \<longleftrightarrow> label_ok (l @ hd (split_on 46 cs)) \<and> list_all label_ok (tl (split_on 46 cs))"
proof (induction cs arbitrary: l p)
  case Nil
  then show ?case by (auto simp: label_ok_def label_prefix_def)
next
  case (Cons c cs)
  show ?case
  proof (cases "c = 46")
    case True
    have "hostname_loop 0 46 cs \<longleftrightarrow> label_ok (hd (split_on 46 cs)) \<and> list_all label_ok (tl (split_on 46 cs))"
      using Cons.IH [of "[]" 46] by (simp add: label_prefix_def)
    then have "hostname_loop 0 46 cs \<longleftrightarrow> list_all label_ok (split_on 46 cs)" using split_on_not_Nil [of 46 cs] by (cases "split_on 46 cs") auto
    with True Cons.prems show ?thesis by (auto simp: label_ok_def [of l] label_prefix_def)
  next
    case False
    obtain x xs where x: "split_on 46 cs = x # xs" using split_on_not_Nil [of 46 cs] by (cases "split_on 46 cs") auto
    show ?thesis
    proof (cases "label_prefix (l @ [c])")
      case True
      with Cons.IH [of "l @ [c]" c] False x Cons.prems show ?thesis
        by (cases l) (auto simp: label_prefix_def)
    next
      case bad: False
      then have "\<not> label_ok (l @ c # x)" using label_ok_prefix [of "l @ [c]" x] by auto
      with bad False x Cons.prems show ?thesis by (cases l) (auto simp: label_prefix_def)
    qed
  qed
qed

lemma dotted_loop_eq:
  "dotted_loop d g cs \<longleftrightarrow> list_all (\<lambda>c. c = 46 \<or> is_digit c) cs \<and> (d \<or> 46 \<in> set cs) \<and> (g \<or> list_ex is_digit cs)"
  by (induction cs arbitrary: d g) auto

lemma split_on_all: "list_all P (concat (split_on sep s)) \<longleftrightarrow> list_all (\<lambda>c. c = sep \<or> P c) s" if "\<not> P sep"
  using that by (induction s) (auto split: list.splits simp: split_on_not_Nil)

lemma dotted_numeric:
  assumes "list_all label_ok (split_on 46 h)"
  shows "IsDottedNumericHost h \<longleftrightarrow> 2 \<le> length (split_on 46 h) \<and> list_all (list_all is_digit) (split_on 46 h)"
proof -
  have a: "list_all (list_all is_digit) (split_on 46 h) \<longleftrightarrow> list_all (\<lambda>c. c = 46 \<or> is_digit c) h"
    using split_on_all [of is_digit 46 h] by (auto simp: list_all_iff)
  have d: "list_ex is_digit h" if "list_all (list_all is_digit) (split_on 46 h)"
  proof -
    have m: "hd (split_on 46 h) \<in> set (split_on 46 h)" by simp
    then have "hd (split_on 46 h) \<noteq> []" "list_all is_digit (hd (split_on 46 h))" using assms that by (auto simp: list_all_iff label_ok_def)
    with split_on_parts [OF m] show ?thesis by (cases "hd (split_on 46 h)") (auto simp: list_ex_iff)
  qed
  have "2 \<le> length (split_on 46 h) \<longleftrightarrow> 46 \<in> set h" using count_list_0_iff [of h 46] by (auto simp: split_on_length)
  with a d show ?thesis by (auto simp: IsDottedNumericHost_def dotted_loop_eq)
qed

section \<open>Properties\<close>

text \<open>
  which names are accepted as host names. A name is accepted exactly when it has 1 to 253 bytes and, without one
  final dot, consists of labels separated by dots, each of 1 to 63 letters, digits and hyphens with no hyphen at its
  start or end, and not of digits alone in two or more labels.
\<close>

theorem hostname_syntax:
  "IsValidHostnameSyntax host \<longleftrightarrow>
     (let labels = split_on 46 (TrimTrailingRootDot host)
      in 1 \<le> length host \<and> length host \<le> 253 \<and> list_all label_ok labels \<and> \<not> (2 \<le> length labels \<and> list_all (list_all is_digit) labels))"
proof -
  let ?h = "TrimTrailingRootDot host"
  have loop: "hostname_loop 0 0 ?h \<longleftrightarrow> list_all label_ok (split_on 46 ?h)"
    using hostname_loop_labels [of "[]" 0 ?h] split_on_not_Nil [of 46 ?h] by (cases "split_on 46 ?h") (auto simp: label_prefix_def)
  have "?h \<noteq> []" if "list_all label_ok (split_on 46 ?h)" using that by (auto simp: label_ok_def)
  moreover have "0 \<notin> set host" if l: "list_all label_ok (split_on 46 ?h)"
  proof -
    have "list_all (\<lambda>c. c = 46 \<or> (isalnum c \<or> c = 45)) ?h"
      using l split_on_all [of "\<lambda>c. isalnum c \<or> c = 45" 46 ?h] by (auto simp: list_all_iff label_ok_def isalnum_def)
    then have "0 \<notin> set ?h" by (auto simp: list_all_iff isalnum_def)
    then show ?thesis by (cases host rule: rev_cases) (auto simp: TrimTrailingRootDot_def split: if_splits)
  qed
  ultimately show ?thesis using dotted_numeric [of ?h] loop unfolding IsValidHostnameSyntax_def Let_def
    by (cases "list_all label_ok (split_on 46 ?h)"; cases "host = []") (auto simp: not_less Suc_le_eq)
qed

lemma div_between: "a div m * m \<le> a \<and> a < (a div m + 1) * m" if "0 < m" for a m :: int
proof -
  have "a div m * m + m = (a div m + 1) * m" by (simp add: ring_distribs)
  with that pos_mod_bound [of m a] pos_mod_sign [of m a] div_mult_mod_eq [of a m] show ?thesis by linarith
qed

lemma PruneGBToMiB_eq: "PruneGBToMiB gb = gb * GB_BYTES div 1048576" if "1 \<le> gb" "gb < 2 ^ 31"
proof -
  have "gb * GB_BYTES < 2 ^ 61" "0 \<le> gb * GB_BYTES" using that by (auto simp: GB_BYTES_def)
  moreover from this have "gb * GB_BYTES div 1048576 < 2 ^ 61" "0 \<le> gb * GB_BYTES div 1048576" by simp_all
  moreover have "gb * GB_BYTES div 1024 div 1024 = gb * GB_BYTES div 1048576" by (simp add: zdiv_zmult2_eq [symmetric])
  ultimately show ?thesis using that by (simp add: PruneGBToMiB_def wrap_i64_def)
qed

lemma PruneMiBToGB_eq: "PruneMiBToGB mib = Some ((mib * 1048576 + GB_BYTES - 1) div GB_BYTES)"
  if "0 \<le> mib" "mib * 1048576 \<le> gb * GB_BYTES" "gb < 2 ^ 31"
proof -
  have "mib * 1048576 < 2 ^ 62" using that by (auto simp: GB_BYTES_def)
  moreover have "mib * 1048576 + GB_BYTES - 1 \<le> gb * GB_BYTES + (GB_BYTES - 1)" using that by simp
  then have "(mib * 1048576 + GB_BYTES - 1) div GB_BYTES < 2 ^ 31" using that by (simp add: GB_BYTES_def)
  moreover from calculation have "in_i64 (mib * 1024)" "in_i64 (mib * 1024 * 1024)" using that(1) by (auto simp: i64_defs)
  ultimately show ?thesis using that by (simp add: PruneMiBToGB_def chk64_def wrap_i32_def GB_BYTES_def mult.commute)
qed

lemma PruneRound:
  assumes "1 \<le> gb" "gb < 2 ^ 31"
  shows "PruneMiBToGB (PruneGBToMiB gb) = Some gb"
proof -
  have g: "PruneGBToMiB gb = gb * 1000000000 div 1048576" using PruneGBToMiB_eq [of gb] assms by (simp add: GB_BYTES_def)
  have down: "gb * 1000000000 div 1048576 * 1048576 \<le> gb * 1000000000" "gb * 1000000000 < (gb * 1000000000 div 1048576 + 1) * 1048576"
    using div_between [of 1048576 "gb * 1000000000"] by simp_all
  have "PruneMiBToGB (PruneGBToMiB gb) = Some ((PruneGBToMiB gb * 1048576 + GB_BYTES - 1) div GB_BYTES)"
    using PruneMiBToGB_eq [of "PruneGBToMiB gb" gb] assms g down by (simp add: GB_BYTES_def)
  moreover have "(gb * 1000000000 div 1048576 * 1048576 + 999999999) div 1000000000 = gb"
    using down by (intro int_div_pos_eq [of _ _ _ "gb * 1000000000 div 1048576 * 1048576 + 999999999 - gb * 1000000000"]) auto
  ultimately show ?thesis using g by (simp add: GB_BYTES_def add.commute)
qed

text \<open>
  a prune size survives. For every positive size that fits an \<open>int\<close>, the size in MiB that is stored is the greatest that
  fits into it, converting back gives the same size, and no conversion overflows; and every stored target up to the
  same bound is shown as the least number of GB that holds it.
\<close>

theorem prune_size_exact:
  assumes "1 \<le> gb" "gb < 2 ^ 31" "0 \<le> mib" "mib * 1048576 \<le> gb * GB_BYTES"
  shows "PruneMiBToGB (PruneGBToMiB gb) = Some gb \<and> PruneGBToMiB gb * 1048576 \<le> gb * GB_BYTES \<and>
     gb * GB_BYTES < (PruneGBToMiB gb + 1) * 1048576 \<and>
     (\<exists>g. PruneMiBToGB mib = Some g \<and> mib * 1048576 \<le> g * GB_BYTES \<and> (g - 1) * GB_BYTES < mib * 1048576)"
proof -
  let ?g = "(mib * 1048576 + GB_BYTES - 1) div GB_BYTES"
  have "?g * GB_BYTES \<le> mib * 1048576 + GB_BYTES - 1 \<and> mib * 1048576 + GB_BYTES - 1 < (?g + 1) * GB_BYTES"
    by (rule div_between) (simp add: GB_BYTES_def)
  then have "mib * 1048576 \<le> ?g * GB_BYTES \<and> (?g - 1) * GB_BYTES < mib * 1048576"
    by (simp add: left_diff_distrib distrib_right)
  moreover have "PruneMiBToGB mib = Some ?g" by (rule PruneMiBToGB_eq [OF assms(3,4,2)])
  ultimately show ?thesis
    using PruneGBToMiB_eq [OF assms(1,2)] PruneRound [OF assms(1,2)] div_between [of 1048576 "gb * GB_BYTES"] by simp
qed

theorem prune_size_exact_witness:
  "PruneMiBToGB (PruneGBToMiB 2) = Some 2 \<and> PruneGBToMiB 2 * 1048576 \<le> 2 * GB_BYTES \<and>
     2 * GB_BYTES < (PruneGBToMiB 2 + 1) * 1048576 \<and>
     (\<exists>g. PruneMiBToGB 1500 = Some g \<and> 1500 * 1048576 \<le> g * GB_BYTES \<and> (g - 1) * GB_BYTES < 1500 * 1048576)"
  by (rule prune_size_exact) (simp_all add: GB_BYTES_def)

end
