(* ===== verification/SettingsSession.thy ===== *)
theory SettingsSession
  imports Settings
begin

text \<open>
  \<open>src/qml/core_settings.{h,cpp}\<close>, class \<open>Session\<close> and \<open>PersistSettings\<close>: the edits a user makes to the six settings of
  a session, which of them are written, to the settings directly or through the node, and the transaction that
  writes the settings file and rolls back when it cannot. The settings a session is written to are those of
  theory \<open>Settings\<close>; the node's \<open>updateRwSetting\<close>, the writing of the file and what other threads do between two
  locked sections are parameters.
\<close>

section \<open>Definitions\<close>

record Session =
  m_values :: Values
  m_touched_settings :: "string set"
  m_statuses :: statuses

record Change =
  accepted :: bool
  setting_name :: string
  before :: Values
  after :: Values
  before_statuses :: statuses
  after_statuses :: statuses

definition default_values :: Values where
  "default_values = \<lparr>v_prune = True, v_prune_size_gb = 2, v_listen = True, v_natpmp = False, v_server = False,
     v_proxy_enabled = False, v_proxy_address = [], v_tor_enabled = False, v_tor_address = []\<rparr>"

definition new_Session :: Session where
  "new_Session = \<lparr>m_values = default_values\<lparr>v_proxy_address := DefaultProxyAddress, v_tor_address := DefaultProxyAddress\<rparr>,
     m_touched_settings = {}, m_statuses = []\<rparr>"

definition new_Session_of :: "Values \<Rightarrow> statuses \<Rightarrow> Session" where
  "new_Session_of v st = \<lparr>m_values = v, m_touched_settings = {}, m_statuses = st\<rparr>"

definition SettingStatusCanEdit :: "statuses \<Rightarrow> string \<Rightarrow> bool" where
  "SettingStatusCanEdit st name = (case map_of st name of None \<Rightarrow> True | Some x \<Rightarrow> st_canEdit x)"

definition canEdit :: "string \<Rightarrow> Session \<Rightarrow> bool" where
  "canEdit name s = SettingStatusCanEdit (m_statuses s) name"

definition markTouched :: "string \<Rightarrow> Session \<Rightarrow> Session" where
  "markTouched name s = s\<lparr>m_touched_settings := insert name (m_touched_settings s)\<rparr>"

definition settingValue :: "settings_env \<Rightarrow> string \<Rightarrow> Session \<Rightarrow> UniValue" where
  "settingValue env name s =
     (if name = ''listen'' then VBOOL (v_listen (m_values s))
      else if name = ''natpmp'' then VBOOL (v_natpmp (m_values s))
      else if name = ''server'' then VBOOL (v_server (m_values s))
      else if name = ''prune'' then PruneSetting (v_prune (m_values s)) (v_prune_size_gb (m_values s))
      else if name = ''proxy'' then ProxySetting env (v_proxy_enabled (m_values s)) (v_proxy_address (m_values s))
      else if name = ''onion'' then ProxySetting env (v_tor_enabled (m_values s)) (v_tor_address (m_values s))
      else VNULL)"

subsection \<open>Edits\<close>

definition beginChange :: "string \<Rightarrow> Session \<Rightarrow> Change" where
  "beginChange name s = \<lparr>accepted = False, setting_name = name, before = m_values s, after = m_values s,
     before_statuses = m_statuses s, after_statuses = m_statuses s\<rparr>"

definition finishChange :: "Change \<Rightarrow> bool \<Rightarrow> Session \<Rightarrow> Change" where
  "finishChange change ok s = change\<lparr>accepted := ok, after := m_values s, after_statuses := m_statuses s\<rparr>"

definition changeListen :: "bool \<Rightarrow> Session \<Rightarrow> Change \<times> Session" where
  "changeListen listen s =
     (let change = beginChange ''listen'' s
      in if \<not> canEdit ''listen'' s \<or> listen = v_listen (m_values s) then (finishChange change False s, s)
         else let s1 = markTouched ''listen'' s; s2 = s1\<lparr>m_values := (m_values s1)\<lparr>v_listen := listen\<rparr>\<rparr>
              in (finishChange change True s2, s2))"

definition changeNatpmp :: "bool \<Rightarrow> Session \<Rightarrow> Change \<times> Session" where
  "changeNatpmp natpmp s =
     (let change = beginChange ''natpmp'' s
      in if \<not> canEdit ''natpmp'' s \<or> natpmp = v_natpmp (m_values s) then (finishChange change False s, s)
         else let s1 = markTouched ''natpmp'' s; s2 = s1\<lparr>m_values := (m_values s1)\<lparr>v_natpmp := natpmp\<rparr>\<rparr>
              in (finishChange change True s2, s2))"

definition changeServer :: "bool \<Rightarrow> Session \<Rightarrow> Change \<times> Session" where
  "changeServer server s =
     (let change = beginChange ''server'' s
      in if \<not> canEdit ''server'' s \<or> server = v_server (m_values s) then (finishChange change False s, s)
         else let s1 = markTouched ''server'' s; s2 = s1\<lparr>m_values := (m_values s1)\<lparr>v_server := server\<rparr>\<rparr>
              in (finishChange change True s2, s2))"

definition changePrune :: "bool \<Rightarrow> Session \<Rightarrow> Change \<times> Session" where
  "changePrune prune s =
     (let change = beginChange ''prune'' s
      in if \<not> canEdit ''prune'' s \<or> prune = v_prune (m_values s) then (finishChange change False s, s)
         else let s1 = markTouched ''prune'' s; s2 = s1\<lparr>m_values := (m_values s1)\<lparr>v_prune := prune\<rparr>\<rparr>
              in (finishChange change True s2, s2))"

definition changePruneSizeGB :: "int \<Rightarrow> Session \<Rightarrow> Change \<times> Session" where
  "changePruneSizeGB prune_size_gb s =
     (let change = beginChange ''prune'' s
      in if \<not> canEdit ''prune'' s \<or> prune_size_gb < 1 \<or> prune_size_gb = v_prune_size_gb (m_values s) then (finishChange change False s, s)
         else let s1 = markTouched ''prune'' s; s2 = s1\<lparr>m_values := (m_values s1)\<lparr>v_prune_size_gb := prune_size_gb\<rparr>\<rparr>
              in (finishChange change True s2, s2))"

definition changeProxyEnabled :: "settings_env \<Rightarrow> bool \<Rightarrow> Session \<Rightarrow> Change \<times> Session" where
  "changeProxyEnabled env enabled s =
     (let change = beginChange ''proxy'' s
      in if \<not> canEdit ''proxy'' s \<or> enabled = v_proxy_enabled (m_values s) then (finishChange change False s, s)
         else
           let s1 = (if enabled \<and> v_proxy_address (m_values s) = [] then s\<lparr>m_values := (m_values s)\<lparr>v_proxy_address := DefaultProxyAddress\<rparr>\<rparr> else s)
           in if enabled \<and> ProxyValidationError env (v_proxy_address (m_values s1)) \<noteq> None then (finishChange change False s1, s1)
              else let s2 = markTouched ''proxy'' s1; s3 = s2\<lparr>m_values := (m_values s2)\<lparr>v_proxy_enabled := enabled\<rparr>\<rparr>
                   in (finishChange change True s3, s3))"

definition changeTorEnabled :: "settings_env \<Rightarrow> bool \<Rightarrow> Session \<Rightarrow> Change \<times> Session" where
  "changeTorEnabled env enabled s =
     (let change = beginChange ''onion'' s
      in if \<not> canEdit ''onion'' s \<or> enabled = v_tor_enabled (m_values s) then (finishChange change False s, s)
         else
           let s1 = (if enabled \<and> v_tor_address (m_values s) = [] then s\<lparr>m_values := (m_values s)\<lparr>v_tor_address := DefaultProxyAddress\<rparr>\<rparr> else s)
           in if enabled \<and> ProxyValidationError env (v_tor_address (m_values s1)) \<noteq> None then (finishChange change False s1, s1)
              else let s2 = markTouched ''onion'' s1; s3 = s2\<lparr>m_values := (m_values s2)\<lparr>v_tor_enabled := enabled\<rparr>\<rparr>
                   in (finishChange change True s3, s3))"

definition changeProxyLocation :: "settings_env \<Rightarrow> qstring \<Rightarrow> Session \<Rightarrow> Change \<times> Session" where
  "changeProxyLocation env location s =
     (let change = beginChange ''proxy'' s; trimmed_location = trimmed location
      in if \<not> canEdit ''proxy'' s then (finishChange change False s, s)
         else if ProxyValidationError env trimmed_location \<noteq> None then (finishChange change False s, s)
         else if trimmed_location = v_proxy_address (m_values s) then (finishChange change True s, s)
         else let s1 = markTouched ''proxy'' s; s2 = s1\<lparr>m_values := (m_values s1)\<lparr>v_proxy_address := trimmed_location\<rparr>\<rparr>
              in (finishChange change True s2, s2))"

definition changeTorLocation :: "settings_env \<Rightarrow> qstring \<Rightarrow> Session \<Rightarrow> Change \<times> Session" where
  "changeTorLocation env location s =
     (let change = beginChange ''onion'' s; trimmed_location = trimmed location
      in if \<not> canEdit ''onion'' s then (finishChange change False s, s)
         else if ProxyValidationError env trimmed_location \<noteq> None then (finishChange change False s, s)
         else if trimmed_location = v_tor_address (m_values s) then (finishChange change True s, s)
         else let s1 = markTouched ''onion'' s; s2 = s1\<lparr>m_values := (m_values s1)\<lparr>v_tor_address := trimmed_location\<rparr>\<rparr>
              in (finishChange change True s2, s2))"

definition changePruneRecommendation :: "bool \<Rightarrow> int \<Rightarrow> bool \<Rightarrow> Session \<Rightarrow> Change \<times> Session" where
  "changePruneRecommendation prune prune_size_gb mark_touched s =
     (let change = beginChange ''prune'' s;
          s1 = s\<lparr>m_values := (m_values s)\<lparr>v_prune := prune\<rparr>\<rparr>;
          s2 = (if prune then s1\<lparr>m_values := (m_values s1)\<lparr>v_prune_size_gb := prune_size_gb\<rparr>\<rparr> else s1);
          s3 = (if mark_touched then s2\<lparr>m_touched_settings := insert ''prune'' (m_touched_settings s2)\<rparr>
                else s2\<lparr>m_touched_settings := m_touched_settings s2 - {''prune''}\<rparr>)
      in (finishChange change True s3, s3))"

definition preview_values :: "string set \<Rightarrow> Values \<Rightarrow> Values \<Rightarrow> Values" where
  "preview_values touched new v =
     (let v = (if ''listen'' \<notin> touched then v\<lparr>v_listen := v_listen new\<rparr> else v);
          v = (if ''natpmp'' \<notin> touched then v\<lparr>v_natpmp := v_natpmp new\<rparr> else v);
          v = (if ''server'' \<notin> touched then v\<lparr>v_server := v_server new\<rparr> else v);
          v = (if ''prune'' \<notin> touched then v\<lparr>v_prune := v_prune new, v_prune_size_gb := v_prune_size_gb new\<rparr> else v);
          v = (if ''proxy'' \<notin> touched then v\<lparr>v_proxy_enabled := v_proxy_enabled new, v_proxy_address := v_proxy_address new\<rparr> else v)
      in if ''onion'' \<notin> touched then v\<lparr>v_tor_enabled := v_tor_enabled new, v_tor_address := v_tor_address new\<rparr> else v)"

definition applyPreviewValuesPreservingTouched :: "Values \<Rightarrow> statuses \<Rightarrow> Session \<Rightarrow> Change \<times> Session" where
  "applyPreviewValuesPreservingTouched new st s =
     (let change = beginChange [] s;
          s1 = s\<lparr>m_statuses := st, m_values := preview_values (m_touched_settings s) new (m_values s)\<rparr>
      in (finishChange change True s1, s1))"

subsection \<open>Writing a session\<close>

definition writeToArgs :: "settings_env \<Rightarrow> Session \<Rightarrow> string \<Rightarrow> settings \<Rightarrow> bool \<times> settings" where
  "writeToArgs env sess name s =
     (let v = m_values sess
      in if \<not> IsSessionSetting name then (False, s)
         else if name = ''proxy'' then WriteProxySetting env ''proxy'' (v_proxy_enabled v) (v_proxy_address v) s
         else if name = ''onion'' then WriteProxySetting env ''onion'' (v_tor_enabled v) (v_tor_address v) s
         else if name = ''prune'' then WritePruneSetting env (v_prune v) (v_prune_size_gb v) s
         else WriteCoreSettingOverride env name (settingValue env name sess) s)"

text \<open>The loop of the two \<open>writeTouched\<close> functions, over the names of a session and the function that writes one.\<close>

fun write_touched :: "(string \<Rightarrow> settings \<Rightarrow> bool \<times> settings) \<Rightarrow> string set \<Rightarrow> string list \<Rightarrow> bool \<Rightarrow> settings \<Rightarrow> bool \<times> settings" where
  "write_touched wr touched [] ok s = (ok, s)"
| "write_touched wr touched (name # names) ok s =
     (if name \<in> touched then let (r, s1) = wr name s in write_touched wr touched names (r \<and> ok) s1
      else write_touched wr touched names ok s)"

definition writeTouchedToArgs :: "settings_env \<Rightarrow> Session \<Rightarrow> settings \<Rightarrow> bool \<times> settings" where
  "writeTouchedToArgs env sess s = write_touched (writeToArgs env sess) (m_touched_settings sess) OnboardingCoreSettingNames True s"

type_synonym node_update = "string \<Rightarrow> UniValue \<Rightarrow> settings \<Rightarrow> settings"

definition UpdateRwSetting :: "node_update \<Rightarrow> string \<Rightarrow> UniValue \<Rightarrow> settings \<Rightarrow> settings" where
  "UpdateRwSetting updateRwSetting name v = updateRwSetting name (LegacyCompatibleRwSettingValue name v)"

definition writeToNode :: "node_update \<Rightarrow> settings_env \<Rightarrow> Session \<Rightarrow> string \<Rightarrow> settings \<Rightarrow> bool \<times> settings" where
  "writeToNode upd env sess name s =
     (let v = m_values sess
      in if \<not> IsSessionSetting name \<or> \<not> CanEditCoreSetting env s name then (False, s)
         else if name = ''proxy'' \<or> name = ''onion'' then
           let enabled = (if name = ''proxy'' then v_proxy_enabled v else v_tor_enabled v);
               address = (if name = ''proxy'' then v_proxy_address v else v_tor_address v);
               trimmed_address = trimmed address; prev_key = name @ ''-prev''
           in if enabled \<and> ProxyValidationError env trimmed_address \<noteq> None then (False, s)
              else if enabled then
                let s1 = UpdateRwSetting upd name (GuiOverrideValue env s name (ProxySetting env True trimmed_address)) s
                in (True, UpdateRwSetting upd prev_key VNULL s1)
              else
                let s1 = (if trimmed_address \<noteq> [] then UpdateRwSetting upd prev_key (VSTR (s_enc env trimmed_address)) s else s)
                in (True, UpdateRwSetting upd name (GuiOverrideValue env s1 name (ProxySetting env False trimmed_address)) s1)
         else if name = ''prune'' then
           (if v_prune v then
              let s1 = UpdateRwSetting upd name (GuiOverrideValue env s name (PruneSetting True (v_prune_size_gb v))) s
              in (True, UpdateRwSetting upd ''prune-prev'' VNULL s1)
            else
              let s1 = UpdateRwSetting upd ''prune-prev'' (PruneSetting True (v_prune_size_gb v)) s
              in (True, UpdateRwSetting upd name (GuiOverrideValue env s1 name (PruneSetting False (v_prune_size_gb v))) s1))
         else (True, UpdateRwSetting upd name (GuiOverrideValue env s name (settingValue env name sess)) s))"

definition writeTouchedToNode :: "node_update \<Rightarrow> settings_env \<Rightarrow> Session \<Rightarrow> settings \<Rightarrow> bool \<times> settings" where
  "writeTouchedToNode upd env sess s = write_touched (writeToNode upd env sess) (m_touched_settings sess) OnboardingCoreSettingNames True s"

subsection \<open>The transaction\<close>

datatype mutation_result = Returned bool | Threw_exception bytes | Threw_other

datatype file_result = Written | Write_errors "bytes list" | File_threw bytes

type_synonym Saved = "string \<rightharpoonup> UniValue option"

definition read_keys :: "string list \<Rightarrow> settings \<Rightarrow> Saved" where
  "read_keys keys s = (\<lambda>k. if k \<in> set keys then Some (rw_settings s k) else None)"

definition still_ours :: "settings_env \<Rightarrow> UniValue option \<Rightarrow> UniValue option \<Rightarrow> bool" where
  "still_ours env written current =
     (case written of
        Some w \<Rightarrow> (case current of None \<Rightarrow> False | Some c \<Rightarrow> write_value env c = write_value env w)
      | None \<Rightarrow> current = None)"

definition rollback :: "settings_env \<Rightarrow> Saved \<Rightarrow> Saved \<Rightarrow> settings \<Rightarrow> settings" where
  "rollback env saved attempted s = s\<lparr>rw_settings := (\<lambda>k.
     case saved k of
       None \<Rightarrow> rw_settings s k
     | Some old_value \<Rightarrow> (case attempted k of
           None \<Rightarrow> rw_settings s k
         | Some written \<Rightarrow> if still_ours env written (rw_settings s k) then old_value else rw_settings s k))\<rparr>"

fun join_lines :: "qstring \<Rightarrow> qstring list \<Rightarrow> qstring" where
  "join_lines failure [] = failure"
| "join_lines failure (m # ms) = join_lines ((if failure \<noteq> [] then failure @ [10] else failure) @ m) ms"

definition unable_to_save :: qstring where "unable_to_save = q ''Unable to save settings.''"

text \<open>
  One transaction. The result is what the function returns, the text it leaves in \<open>*error\<close> and the settings. What other
  threads do is \<open>other1\<close> after the mutation has released the lock, \<open>other2\<close> before the file is written and \<open>other3\<close> before
  the values are rolled back; what they do while the mutation runs is part of \<open>mutation\<close>.
\<close>

definition finish_failed :: "settings_env \<Rightarrow> Saved \<Rightarrow> Saved \<Rightarrow> qstring \<Rightarrow> settings \<Rightarrow> bool \<times> qstring \<times> settings" where
  "finish_failed env saved attempted failure s =
     (False, if failure = [] then unable_to_save else failure, rollback env saved attempted s)"

definition PersistSettings ::
  "settings_env \<Rightarrow> string list \<Rightarrow> (settings \<Rightarrow> mutation_result \<times> settings) \<Rightarrow> (settings \<Rightarrow> file_result) \<Rightarrow>
   (settings \<Rightarrow> settings) \<Rightarrow> (settings \<Rightarrow> settings) \<Rightarrow> (settings \<Rightarrow> settings) \<Rightarrow> settings \<Rightarrow> bool \<times> qstring \<times> settings"
where
  "PersistSettings env keys mutation WriteSettingsFile other1 other2 other3 s =
     (let saved = read_keys keys s;
          (r, s1) = mutation s;
          s2 = other1 s1;
          attempted = read_keys keys s2;
          s3 = other2 s2;
          failed = (\<lambda>failure. finish_failed env saved attempted failure (other3 s3))
      in case r of
           Returned False \<Rightarrow> failed (q ''This setting cannot be changed.'')
         | Returned True \<Rightarrow> (case WriteSettingsFile s3 of
               Written \<Rightarrow> (True, [], s3)
             | Write_errors errors \<Rightarrow> failed (join_lines [] (map (s_dec env) errors))
             | File_threw what \<Rightarrow> failed (s_dec env what))
         | Threw_exception what \<Rightarrow> failed (s_dec env what)
         | Threw_other \<Rightarrow> failed unable_to_save)"


section \<open>What is stored, and what is loaded from it\<close>

text \<open>
  What the code relies on of Core's settings. A setting that is neither forced nor given on the command line is the one
  of \<open>settings.json\<close> and, without one there, that of the configuration file; conversions of the values the code stores.
\<close>

definition settings_laws :: "settings_env \<Rightarrow> bool" where
  "settings_laws env \<longleftrightarrow>
     (\<forall>s n. forced_settings s n = None \<and> command_line_options s n = [] \<longrightarrow> GetSetting env s n = or_default (ConfigSetting env n) (rw_settings s n)) \<and>
     (\<forall>s n. GetPersistentSetting env s n = or_default (ConfigSetting env n) (rw_settings s n)) \<and>
     (\<forall>b. SettingToBool env (VBOOL b) = Some b) \<and> SettingToBool env VNULL = None \<and>
     (\<forall>i. 0 \<le> i \<and> in_i64 i \<longrightarrow> SettingToInt env (VNUM (number i)) = Some i \<and> SettingToInt env (VSTR (number i)) = Some i) \<and> SettingToInt env VNULL = None \<and>
     (\<forall>t. SettingToString env (VSTR t) = Some t) \<and> SettingToString env (VBOOL False) = Some (q ''0'') \<and> SettingToString env VNULL = None \<and>
     s_dec env [] = [] \<and> s_dec env (q ''0'') = q ''0''"

definition unforced :: "settings \<Rightarrow> bool" where
  "unforced s \<longleftrightarrow> (\<forall>n\<in>set OnboardingCoreSettingNames. forced_settings s n = None \<and> command_line_options s n = [])"

lemma settings_laws_simps:
  assumes "settings_laws env"
  shows "forced_settings s n = None \<Longrightarrow> command_line_options s n = [] \<Longrightarrow> GetSetting env s n = or_default (ConfigSetting env n) (rw_settings s n)"
    and "GetPersistentSetting env s n = or_default (ConfigSetting env n) (rw_settings s n)"
    and "SettingToBool env (VBOOL b) = Some b" and "SettingToBool env VNULL = None"
    and "0 \<le> i \<Longrightarrow> in_i64 i \<Longrightarrow> SettingToInt env (VNUM (number i)) = Some i" and "0 \<le> i \<Longrightarrow> in_i64 i \<Longrightarrow> SettingToInt env (VSTR (number i)) = Some i"
    and "SettingToInt env VNULL = None" and "SettingToString env (VSTR t) = Some t"
    and "SettingToString env (VBOOL False) = Some (q ''0'')" and "SettingToString env VNULL = None"
    and "s_dec env [] = []" and "s_dec env [48] = [48]"
  using assms by (auto simp: settings_laws_def)

lemma SetRwSetting_sel [simp]:
  "forced_settings (SetRwSetting n v s) = forced_settings s"
  "command_line_options (SetRwSetting n v s) = command_line_options s"
  "rw_settings (SetRwSetting n v s) = (rw_settings s)(n := if v = VNULL then None else Some (LegacyCompatibleRwSettingValue n v))"
  by (auto simp: SetRwSetting_def Let_def LegacyCompatibleRwSettingValue_def split: UniValue.splits)

lemma CanEdit_iff [simp]: "CanEditCoreSetting env s n \<longleftrightarrow> command_line_options s n = []"
  by (simp add: CanEditCoreSetting_def CoreSettingStatus_def Let_def IsCommandLineOverridden_def)

lemma GuiOverride_cong: "forced_settings s = forced_settings t \<Longrightarrow> GuiOverrideValue env s n v = GuiOverrideValue env t n v"
  by (simp add: GuiOverrideValue_def ForcedParameterInteractionValue_def)

lemma GuiOverride_SetRw [simp]: "GuiOverrideValue env (SetRwSetting m w s) n v = GuiOverrideValue env s n v"
  by (rule GuiOverride_cong) simp

text \<open>A value that was written and is not the value that already applies is read back as it was written; and otherwise equal.\<close>

lemma override_cases:
  assumes "forced_settings s n = None"
  obtains (same_config) "GuiOverrideValue env s n v = VNULL" "ConfigSetting env n \<noteq> VNULL" "CoreSettingValuesEqual env n v (ConfigSetting env n)"
  | (same_default) "GuiOverrideValue env s n v = VNULL" "ConfigSetting env n = VNULL" "CoreSettingValuesEqual env n v (DefaultCoreSettingValue env n)"
  | (stored) "GuiOverrideValue env s n v = v"
proof -
  have "GuiOverrideValue env s n v = (if CoreSettingValuesEqual env n v
      (if ConfigSetting env n \<noteq> VNULL then ConfigSetting env n else DefaultCoreSettingValue env n) then VNULL else v)"
    using assms by (simp add: GuiOverrideValue_def ForcedParameterInteractionValue_def or_default_def)
  with that show thesis by (metis (full_types))
qed

text \<open>\<open>s'\<close> holds for the setting \<open>n\<close> what writing \<open>v\<close> over \<open>s\<close> stores.\<close>

definition overridden :: "settings_env \<Rightarrow> string \<Rightarrow> UniValue \<Rightarrow> settings \<Rightarrow> bool" where
  "overridden env n v s' \<longleftrightarrow> forced_settings s' n = None \<and> command_line_options s' n = [] \<and>
     (let g = GuiOverrideValue env s' n v in rw_settings s' n = (if g = VNULL then None else Some (LegacyCompatibleRwSettingValue n g)))"

lemma overridden_cases:
  assumes laws: "settings_laws env" and o: "overridden env n v s'" and v: "v \<noteq> VNULL"
  obtains (config) "GetSetting env s' n \<noteq> VNULL" "CoreSettingValuesEqual env n v (GetSetting env s' n)"
  | (default) "GetSetting env s' n = VNULL" "CoreSettingValuesEqual env n v (DefaultCoreSettingValue env n)"
  | (stored) "GetSetting env s' n = LegacyCompatibleRwSettingValue n v"
proof -
  have f: "forced_settings s' n = None" "command_line_options s' n = []" using o by (auto simp: overridden_def Let_def)
  have g: "GetSetting env s' n = or_default (ConfigSetting env n) (rw_settings s' n)" by (rule settings_laws_simps(1) [OF laws f])
  from f(1) show thesis
  proof (cases rule: override_cases [of s' n env v])
    case same_config
    with o g config show thesis by (simp add: overridden_def or_default_def)
  next
    case same_default
    with o g default show thesis by (simp add: overridden_def or_default_def)
  next
    case stored
    with o g v that(3) show thesis by (simp add: overridden_def or_default_def)
  qed
qed

lemma Legacy_simps [simp]:
  "LegacyCompatibleRwSettingValue n (VBOOL b) = VBOOL b" "LegacyCompatibleRwSettingValue n (VSTR t) = VSTR t"
  "LegacyCompatibleRwSettingValue ''prune'' (VNUM t) = VSTR t" "LegacyCompatibleRwSettingValue ''prune-prev'' (VNUM t) = VSTR t"
  by (simp_all add: LegacyCompatibleRwSettingValue_def IsLegacyNumericRwSetting_def)

lemma VNUM_not_VNULL: "VNUM t \<noteq> VNULL"
  by simp

lemma read_bool:
  assumes "settings_laws env" "overridden env n (VBOOL b) s'" "IsBoolCoreSetting n" "DefaultCoreSettingValue env n = VBOOL d"
  shows "or_default d (SettingToBool env (GetSetting env s' n)) = b"
  using assms(1,2)
  by (cases rule: overridden_cases)
    (use assms(3,4) in \<open>auto simp: CoreSettingValuesEqual_def settings_laws_simps [OF assms(1)] or_default_def split: option.splits\<close>)

lemma read_prune:
  assumes "settings_laws env" "overridden env ''prune'' (VNUM (number i)) s'" "in_i64 i" "0 \<le> i"
  shows "or_default 0 (SettingToInt env (GetSetting env s' ''prune'')) = i"
  using assms(1,2) VNUM_not_VNULL [of "number i"]
proof (cases rule: overridden_cases)
  case default
  have "in_i64 0" by (simp add: i64_defs)
  with default assms(3,4) show ?thesis
    by (simp add: CoreSettingValuesEqual_def IsBoolCoreSetting_def IsIntCoreSetting_def DefaultCoreSettingValue_def settings_laws_simps [OF assms(1)] or_default_def)
qed (use assms(3,4) in \<open>auto simp: CoreSettingValuesEqual_def IsBoolCoreSetting_def IsIntCoreSetting_def settings_laws_simps [OF assms(1)] or_default_def split: option.splits\<close>)

text \<open>An address that can be stored: nothing to trim, not the text that stands for a disabled proxy, and one that UTF-8 can carry.\<close>

definition addr_ok :: "settings_env \<Rightarrow> qstring \<Rightarrow> bool" where
  "addr_ok env a \<longleftrightarrow> a \<noteq> [] \<and> trimmed a = a \<and> a \<noteq> q ''0'' \<and> s_dec env (s_enc env a) = a"

lemma ProxyAddress_text:
  "ProxyAddressFromSetting env v = (let t = s_dec env (or_default [] (SettingToString env v)) in if t = q ''0'' then [] else t)"
  by (simp add: ProxyAddressFromSetting_def or_default_def)

lemma addr_not_empty_text: "settings_laws env \<Longrightarrow> addr_ok env a \<Longrightarrow> \<not> empty_text (Some (s_enc env a))"
  by (auto simp: addr_ok_def empty_text_def settings_laws_simps)

lemma read_proxy:
  assumes laws: "settings_laws env" and o: "overridden env n (ProxySetting env e a) s'" and a: "addr_ok env a" and n: "n \<in> {''proxy'', ''onion''}"
  shows "ProxyAddressFromSetting env (GetSetting env s' n) = (if e then a else [])"
proof -
  have nn: "\<not> IsBoolCoreSetting n" "\<not> IsIntCoreSetting n" "IsOptionalStringCoreSetting n" "DefaultCoreSettingValue env n = VNULL"
    using n by (auto simp: IsBoolCoreSetting_def IsIntCoreSetting_def IsOptionalStringCoreSetting_def DefaultCoreSettingValue_def)
  have v: "ProxySetting env e a = (if e then VSTR (s_enc env a) else VBOOL False)" "ProxySetting env e a \<noteq> VNULL"
    using a by (auto simp: ProxySetting_def addr_ok_def)
  have ea: "s_dec env (s_enc env a) = a" "a \<noteq> q ''0''" "a \<noteq> []" using a by (auto simp: addr_ok_def)
  note sl = settings_laws_simps [OF laws]
  have same: "ProxyAddressFromSetting env w = (if e then a else [])" if "CoreSettingValuesEqual env n (ProxySetting env e a) w" for w
    using that nn v addr_not_empty_text [OF laws a] ea
    by (auto simp: CoreSettingValuesEqual_def ProxyAddress_text or_default_def sl empty_text_def Let_def split: if_splits)
  from laws o v(2) show ?thesis
  proof (cases rule: overridden_cases)
    case config
    from config(2) show ?thesis by (rule same)
  next
    case default
    with same [of VNULL] nn show ?thesis by simp
  next
    case stored
    with v ea show ?thesis by (auto simp: ProxyAddress_text sl or_default_def)
  qed
qed

section \<open>Writing the touched settings\<close>

definition setting_storable :: "settings_env \<Rightarrow> Session \<Rightarrow> string \<Rightarrow> bool" where
  "setting_storable env sess n \<longleftrightarrow> (let v = m_values sess in
     (n = ''prune'' \<longrightarrow> 1 \<le> v_prune_size_gb v \<and> v_prune_size_gb v < 2 ^ 31) \<and>
     (n = ''proxy'' \<longrightarrow> addr_ok env (v_proxy_address v) \<and> (v_proxy_enabled v \<longrightarrow> ProxyValidationError env (v_proxy_address v) = None)) \<and>
     (n = ''onion'' \<longrightarrow> addr_ok env (v_tor_address v) \<and> (v_tor_enabled v \<longrightarrow> ProxyValidationError env (v_tor_address v) = None)))"

text \<open>\<open>s'\<close> holds what writing the setting \<open>n\<close> of the session stores, the remembered value included.\<close>

definition remembered :: "settings_env \<Rightarrow> Session \<Rightarrow> string \<Rightarrow> UniValue option" where
  "remembered env sess n = (let v = m_values sess in
     if n = ''prune'' \<and> \<not> v_prune v then Some (VSTR (number (PruneGBToMiB (v_prune_size_gb v))))
     else if n = ''proxy'' \<and> \<not> v_proxy_enabled v then Some (VSTR (s_enc env (v_proxy_address v)))
     else if n = ''onion'' \<and> \<not> v_tor_enabled v then Some (VSTR (s_enc env (v_tor_address v)))
     else None)"

definition holds_setting :: "settings_env \<Rightarrow> Session \<Rightarrow> string \<Rightarrow> settings \<Rightarrow> bool" where
  "holds_setting env sess n s' \<longleftrightarrow> overridden env n (settingValue env n sess) s' \<and>
     (remembered env sess n \<noteq> None \<longrightarrow> rw_settings s' (n @ ''-prev'') = remembered env sess n)"

abbreviation keys_of :: "string \<Rightarrow> string set" where
  "keys_of n \<equiv> {n, n @ ''-prev''}"

definition same_elsewhere :: "string set \<Rightarrow> settings \<Rightarrow> settings \<Rightarrow> bool" where
  "same_elsewhere K s s' \<longleftrightarrow> forced_settings s' = forced_settings s \<and> command_line_options s' = command_line_options s \<and>
     (\<forall>k. k \<notin> K \<longrightarrow> rw_settings s' k = rw_settings s k)"

lemma same_elsewhere_refl [simp]: "same_elsewhere K s s"
  by (simp add: same_elsewhere_def)

lemma same_elsewhere_trans: "same_elsewhere K s t \<Longrightarrow> same_elsewhere L t u \<Longrightarrow> same_elsewhere (K \<union> L) s u"
  by (simp add: same_elsewhere_def)

lemma same_elsewhere_mono: "same_elsewhere K s t \<Longrightarrow> K \<subseteq> L \<Longrightarrow> same_elsewhere L s t"
  by (auto simp: same_elsewhere_def)

lemma SetRw_frame: "n \<in> K \<Longrightarrow> same_elsewhere K s t \<Longrightarrow> same_elsewhere K s (SetRwSetting n v t)"
  by (auto simp: same_elsewhere_def)

lemma WriteOverride_frame: "n \<in> K \<Longrightarrow> same_elsewhere K s t \<Longrightarrow> same_elsewhere K s (snd (WriteCoreSettingOverride env n v t))"
  by (simp add: WriteCoreSettingOverride_def SetRw_frame)

lemma WriteProxy_frame: "same_elsewhere (keys_of n) s (snd (WriteProxySetting env n e a s))"
  by (simp add: WriteProxySetting_def Let_def case_prod_beta SetRw_frame WriteOverride_frame)

lemma WritePrune_frame: "same_elsewhere {''prune'', ''prune-prev''} s (snd (WritePruneSetting env e gb s))"
  by (simp add: WritePruneSetting_def Let_def case_prod_beta SetRw_frame WriteOverride_frame)

lemma writeToArgs_frame: "same_elsewhere (keys_of n) s (snd (writeToArgs env sess n s))"
  using WriteProxy_frame [of "''proxy''"] WriteProxy_frame [of "''onion''"] WritePrune_frame
  by (simp add: writeToArgs_def Let_def WriteOverride_frame)

lemma overridden_SetRw:
  "forced_settings s n = None \<Longrightarrow> command_line_options s n = [] \<Longrightarrow> overridden env n v (SetRwSetting n (GuiOverrideValue env s n v) s)"
  by (simp add: overridden_def Let_def)

lemma overridden_SetRw_other: "m \<noteq> n \<Longrightarrow> overridden env n v (SetRwSetting m w s) = overridden env n v s"
  by (simp add: overridden_def Let_def)

lemma WriteProxy_stores:
  assumes "forced_settings s n = None" "command_line_options s n = []" "addr_ok env a" "e \<longrightarrow> ProxyValidationError env a = None"
  shows "fst (WriteProxySetting env n e a s) \<and> overridden env n (ProxySetting env e a) (snd (WriteProxySetting env n e a s)) \<and>
     (\<not> e \<longrightarrow> rw_settings (snd (WriteProxySetting env n e a s)) (n @ ''-prev'') = Some (VSTR (s_enc env a)))"
proof -
  have a: "trimmed a = a" "a \<noteq> []" using assms(3) by (auto simp: addr_ok_def)
  have o: "overridden env n (ProxySetting env e a) (SetRwSetting n (GuiOverrideValue env s' n (ProxySetting env e a)) s')"
    if "forced_settings s' = forced_settings s" "command_line_options s' = command_line_options s" for s'
    using that assms(1,2) by (simp add: overridden_SetRw)
  show ?thesis
  proof (cases e)
    case True
    with assms a o [of s] show ?thesis by (simp add: WriteProxySetting_def WriteCoreSettingOverride_def Let_def overridden_SetRw_other)
  next
    case False
    with assms a o [of "SetRwSetting (n @ ''-prev'') (VSTR (s_enc env a)) s"] show ?thesis
      by (simp add: WriteProxySetting_def WriteCoreSettingOverride_def Let_def)
  qed
qed

lemma WritePrune_stores:
  assumes "forced_settings s ''prune'' = None" "command_line_options s ''prune'' = []" "1 \<le> gb"
  shows "fst (WritePruneSetting env e gb s) \<and> overridden env ''prune'' (PruneSetting e gb) (snd (WritePruneSetting env e gb s)) \<and>
     (\<not> e \<longrightarrow> rw_settings (snd (WritePruneSetting env e gb s)) ''prune-prev'' = Some (VSTR (number (PruneGBToMiB gb))))"
proof (cases e)
  case True
  with assms show ?thesis by (simp add: WritePruneSetting_def WriteCoreSettingOverride_def Let_def overridden_SetRw_other overridden_SetRw)
next
  case False
  let ?s = "SetRwSetting ''prune-prev'' (PruneSetting True gb) s"
  have "overridden env ''prune'' (PruneSetting False gb) (SetRwSetting ''prune'' (GuiOverrideValue env ?s ''prune'' (PruneSetting False gb)) ?s)"
    using assms by (intro overridden_SetRw) simp_all
  with False assms show ?thesis by (simp add: WritePruneSetting_def WriteCoreSettingOverride_def Let_def PruneSetting_def)
qed

lemma writeToArgs_proxy:
  assumes "forced_settings s ''proxy'' = None" "command_line_options s ''proxy'' = []" "setting_storable env sess ''proxy''"
  shows "fst (writeToArgs env sess ''proxy'' s) \<and> holds_setting env sess ''proxy'' (snd (writeToArgs env sess ''proxy'' s))"
  using assms WriteProxy_stores [of s "''proxy''" env "v_proxy_address (m_values sess)" "v_proxy_enabled (m_values sess)"]
  by (simp add: writeToArgs_def holds_setting_def remembered_def settingValue_def setting_storable_def Let_def IsSessionSetting_def)

lemma writeToArgs_onion:
  assumes "forced_settings s ''onion'' = None" "command_line_options s ''onion'' = []" "setting_storable env sess ''onion''"
  shows "fst (writeToArgs env sess ''onion'' s) \<and> holds_setting env sess ''onion'' (snd (writeToArgs env sess ''onion'' s))"
  using assms WriteProxy_stores [of s "''onion''" env "v_tor_address (m_values sess)" "v_tor_enabled (m_values sess)"]
  by (simp add: writeToArgs_def holds_setting_def remembered_def settingValue_def setting_storable_def Let_def IsSessionSetting_def)

lemma writeToArgs_prune:
  assumes "forced_settings s ''prune'' = None" "command_line_options s ''prune'' = []" "setting_storable env sess ''prune''"
  shows "fst (writeToArgs env sess ''prune'' s) \<and> holds_setting env sess ''prune'' (snd (writeToArgs env sess ''prune'' s))"
  using assms WritePrune_stores [of s "v_prune_size_gb (m_values sess)" env "v_prune (m_values sess)"]
  by (simp add: writeToArgs_def holds_setting_def remembered_def settingValue_def setting_storable_def Let_def IsSessionSetting_def)

lemma writeToArgs_bool:
  assumes "IsSessionSetting n" "n \<noteq> ''proxy''" "n \<noteq> ''onion''" "n \<noteq> ''prune''" "forced_settings s n = None" "command_line_options s n = []"
  shows "fst (writeToArgs env sess n s) \<and> holds_setting env sess n (snd (writeToArgs env sess n s))"
  using assms overridden_SetRw [of s n env "settingValue env n sess"]
  by (simp add: writeToArgs_def holds_setting_def remembered_def WriteCoreSettingOverride_def)

lemma writeToArgs_stores:
  assumes "IsSessionSetting n" "forced_settings s n = None" "command_line_options s n = []" "setting_storable env sess n"
  shows "fst (writeToArgs env sess n s) \<and> holds_setting env sess n (snd (writeToArgs env sess n s))"
proof (cases "n \<in> {''proxy'', ''onion'', ''prune''}")
  case True
  then show ?thesis using assms(2-4) by (elim insertE emptyE) (simp_all add: writeToArgs_proxy writeToArgs_onion writeToArgs_prune)
next
  case False
  then show ?thesis using assms(1-3) by (intro writeToArgs_bool) simp_all
qed

lemma holds_setting_cong:
  assumes "same_elsewhere K s s'" "keys_of n \<inter> K = {}" "holds_setting env sess n s"
  shows "holds_setting env sess n s'"
proof -
  have f: "forced_settings s' = forced_settings s" "command_line_options s' = command_line_options s"
    and rw: "rw_settings s' n = rw_settings s n" "rw_settings s' (n @ ''-prev'') = rw_settings s (n @ ''-prev'')"
    using assms(1,2) by (auto simp: same_elsewhere_def)
  have "overridden env n v s' = overridden env n v s" for v
    using f rw GuiOverride_cong [of s' s env n v] by (simp add: overridden_def)
  then show ?thesis using assms(3) rw(2) by (simp add: holds_setting_def)
qed

lemma not_prev: "n \<in> set OnboardingCoreSettingNames \<Longrightarrow> n \<noteq> m @ ''-prev''"
proof -
  assume "n \<in> set OnboardingCoreSettingNames"
  then have "last n \<noteq> CHR ''v''" by (auto simp: OnboardingCoreSettingNames_def)
  then show ?thesis by auto
qed

lemma keys_disjoint:
  assumes "n \<in> set OnboardingCoreSettingNames" "m \<in> set OnboardingCoreSettingNames" "n \<noteq> m"
  shows "keys_of n \<inter> keys_of m = {}"
  using not_prev [OF assms(1), of m] not_prev [OF assms(2), of n] assms(3) by simp

lemma session_name: "n \<in> set OnboardingCoreSettingNames \<longleftrightarrow> IsSessionSetting n"
  by (simp add: OnboardingCoreSettingNames_def IsSessionSetting_def)

lemma write_touched_stores:
  assumes "distinct names" "set names \<subseteq> set OnboardingCoreSettingNames" "unforced s" "\<forall>n\<in>set names \<inter> T. setting_storable env sess n"
  shows "let (r, s') = write_touched (writeToArgs env sess) T names ok s in
    (r \<longleftrightarrow> ok) \<and> (\<forall>n\<in>set names \<inter> T. holds_setting env sess n s') \<and> same_elsewhere (\<Union> (keys_of ` (set names \<inter> T))) s s'"
  using assms
proof (induction names arbitrary: ok s)
  case (Cons n names)
  show ?case
  proof (cases "n \<in> T")
    case False
    with Cons show ?thesis by auto
  next
    case True
    obtain r s1 where w: "writeToArgs env sess n s = (r, s1)" by fastforce
    have st: "r" "holds_setting env sess n s1" using writeToArgs_stores [of n s env sess] session_name [of n] Cons.prems True w by (auto simp: unforced_def)
    have fr: "same_elsewhere (keys_of n) s s1" using writeToArgs_frame [of n s env sess] w by simp
    then have "unforced s1" using Cons.prems(3) by (simp add: unforced_def same_elsewhere_def)
    with Cons.IH [of s1 ok] Cons.prems obtain s' where s': "write_touched (writeToArgs env sess) T names ok s1 = (ok, s')"
      "\<forall>m\<in>set names \<inter> T. holds_setting env sess m s'" "same_elsewhere (\<Union> (keys_of ` (set names \<inter> T))) s1 s'"
      by (cases "write_touched (writeToArgs env sess) T names ok s1") (auto simp: Let_def)
    have "keys_of n \<inter> keys_of m = {}" if "m \<in> set names" for m
      using that Cons.prems by (intro keys_disjoint) auto
    then have "keys_of n \<inter> \<Union> (keys_of ` (set names \<inter> T)) = {}" by blast
    from holds_setting_cong [OF s'(3) this st(2)] have "holds_setting env sess n s'" .
    moreover have "same_elsewhere (\<Union> (keys_of ` (set (n # names) \<inter> T))) s s'"
      using same_elsewhere_trans [OF fr s'(3)] True by (simp add: Int_insert_left)
    ultimately show ?thesis using s' w st True by (auto simp: Let_def)
  qed
qed simp

section \<open>Loading what was written\<close>

definition bool_part :: "settings_env \<Rightarrow> settings \<Rightarrow> string \<Rightarrow> bool" where
  "bool_part env s n = or_default (n = ''listen'' \<and> DEFAULT_LISTEN env \<or> n = ''natpmp'' \<and> DEFAULT_NATPMP env) (SettingToBool env (GetSetting env s n))"

definition prune_part :: "settings_env \<Rightarrow> settings \<Rightarrow> bool \<times> int option" where
  "prune_part env s = (PruneEnabled env (GetSetting env s ''prune''),
     PruneSizeGBFromSetting env (if PruneEnabled env (GetSetting env s ''prune'') then GetSetting env s ''prune'' else GetPersistentSetting env s ''prune-prev''))"

definition addr_part :: "settings_env \<Rightarrow> settings \<Rightarrow> string \<Rightarrow> bool \<times> qstring" where
  "addr_part env s n =
     (let a = ProxyAddressFromSetting env (GetSetting env s n);
          b = (if a \<noteq> [] then a else s_dec env (or_default [] (SettingToString env (GetPersistentSetting env s (n @ ''-prev'')))))
      in (a \<noteq> [], if b = [] then DefaultProxyAddress else b))"

lemma LoadEffective_parts:
  "LoadEffectiveValues env s = Some v \<longleftrightarrow>
     prune_part env s = (v_prune v, Some (v_prune_size_gb v)) \<and> bool_part env s ''listen'' = v_listen v \<and>
     bool_part env s ''natpmp'' = v_natpmp v \<and> bool_part env s ''server'' = v_server v \<and>
     addr_part env s ''proxy'' = (v_proxy_enabled v, v_proxy_address v) \<and> addr_part env s ''onion'' = (v_tor_enabled v, v_tor_address v)"
proof -
  have "LoadEffectiveValues env s = do {
      n \<leftarrow> snd (prune_part env s);
      Some \<lparr>v_prune = fst (prune_part env s), v_prune_size_gb = n, v_listen = bool_part env s ''listen'', v_natpmp = bool_part env s ''natpmp'',
        v_server = bool_part env s ''server'', v_proxy_enabled = fst (addr_part env s ''proxy''), v_proxy_address = snd (addr_part env s ''proxy''),
        v_tor_enabled = fst (addr_part env s ''onion''), v_tor_address = snd (addr_part env s ''onion'')\<rparr> }"
    by (simp add: LoadEffectiveValues_def load_values_def prune_part_def bool_part_def addr_part_def Let_def split: bind_split)
  then show ?thesis by (cases v; cases "prune_part env s"; cases "snd (prune_part env s)") (auto simp: prod_eq_iff)
qed

lemma parts_untouched:
  assumes "settings_laws env" "same_elsewhere K s s'" "keys_of n \<inter> K = {}" "forced_settings s n = None" "command_line_options s n = []"
  shows "GetSetting env s' n = GetSetting env s n" "GetPersistentSetting env s' (n @ ''-prev'') = GetPersistentSetting env s (n @ ''-prev'')"
  using assms by (auto simp: same_elsewhere_def settings_laws_simps [OF assms(1)])

lemma bool_part_written:
  assumes "settings_laws env" "holds_setting env sess n s'" "settingValue env n sess = VBOOL b" "n \<in> {''listen'', ''natpmp'', ''server''}"
  shows "bool_part env s' n = b"
proof -
  have "DefaultCoreSettingValue env n = VBOOL (n = ''listen'' \<and> DEFAULT_LISTEN env \<or> n = ''natpmp'' \<and> DEFAULT_NATPMP env)"
    "IsBoolCoreSetting n" using assms(4) by (elim insertE emptyE; simp add: DefaultCoreSettingValue_def IsBoolCoreSetting_def)+
  with read_bool [OF assms(1), of n b s'] assms(2,3) show ?thesis by (simp add: bool_part_def holds_setting_def)
qed

lemma PruneGBToMiB_range: "1 \<le> gb \<Longrightarrow> gb < 2 ^ 31 \<Longrightarrow> 1 < PruneGBToMiB gb \<and> in_i64 (PruneGBToMiB gb) \<and> PruneMiBToGB (PruneGBToMiB gb) = Some gb"
proof -
  assume gb: "1 \<le> gb" "gb < 2 ^ 31"
  have "PruneGBToMiB gb = gb * 1000000000 div 1048576" using PruneGBToMiB_eq [OF gb] by (simp add: GB_BYTES_def)
  moreover have "2 \<le> gb * 1000000000 div 1048576" using gb by (simp add: zdiv_mono1 [of 1000000000 "gb * 1000000000" 1048576, simplified] order_trans)
  moreover have "gb * 1000000000 div 1048576 \<le> 2 ^ 31 * 1000000000 div 1048576" using gb by (intro zdiv_mono1) auto
  ultimately show ?thesis using PruneRound [OF gb] by (simp add: i64_defs)
qed

lemma PruneEnabled_iff: "PruneEnabled env v \<longleftrightarrow> 1 < or_default 0 (SettingToInt env v)"
  by (simp add: PruneEnabled_def or_default_def)

lemma PruneSize_eq: "PruneSizeGBFromSetting env v = (let x = or_default 0 (SettingToInt env v) in if 1 < x then PruneMiBToGB x else Some DEFAULT_PRUNE_TARGET_GB)"
  by (simp add: PruneSizeGBFromSetting_def or_default_def)

lemma prune_part_written:
  assumes "settings_laws env" "holds_setting env sess ''prune'' s'" "setting_storable env sess ''prune''"
  shows "prune_part env s' = (v_prune (m_values sess), Some (v_prune_size_gb (m_values sess)))"
proof -
  let ?e = "v_prune (m_values sess)" and ?gb = "v_prune_size_gb (m_values sess)"
  have r: "1 < PruneGBToMiB ?gb" "in_i64 (PruneGBToMiB ?gb)" "PruneMiBToGB (PruneGBToMiB ?gb) = Some ?gb" and gb: "1 \<le> ?gb"
    using PruneGBToMiB_range [of ?gb] assms(3) by (auto simp: setting_storable_def Let_def)
  have "settingValue env ''prune'' sess = VNUM (number (if ?e then PruneGBToMiB ?gb else 0))"
    using gb by (simp add: settingValue_def PruneSetting_def)
  then have g: "or_default 0 (SettingToInt env (GetSetting env s' ''prune'')) = (if ?e then PruneGBToMiB ?gb else 0)"
    using read_prune [OF assms(1)] assms(2) r(1,2) by (simp add: holds_setting_def i64_defs)
  have p: "or_default 0 (SettingToInt env (GetPersistentSetting env s' ''prune-prev'')) = PruneGBToMiB ?gb" if "\<not> ?e"
    using assms(2) r(1,2) that by (simp add: holds_setting_def remembered_def settings_laws_simps [OF assms(1)] or_default_def)
  show ?thesis using g p r by (simp add: prune_part_def PruneEnabled_iff PruneSize_eq Let_def)
qed

lemma addr_part_written:
  assumes "settings_laws env" "holds_setting env sess n s'" "settingValue env n sess = ProxySetting env e a" "n \<in> {''proxy'', ''onion''}"
    "addr_ok env a" "\<not> e \<Longrightarrow> remembered env sess n = Some (VSTR (s_enc env a))"
  shows "addr_part env s' n = (e, a)"
proof -
  have "ProxyAddressFromSetting env (GetSetting env s' n) = (if e then a else [])"
    using read_proxy [OF assms(1) _ assms(5,4)] assms(2,3) by (simp add: holds_setting_def)
  moreover have "GetPersistentSetting env s' (n @ ''-prev'') = VSTR (s_enc env a)" if "\<not> e"
    using assms(2,6) that by (simp add: holds_setting_def settings_laws_simps [OF assms(1)] or_default_def)
  ultimately show ?thesis using assms(5) by (simp add: addr_part_def addr_ok_def settings_laws_simps [OF assms(1)] or_default_def Let_def)
qed

lemma preview_values_sel [simp]:
  "v_listen (preview_values T new v) = (if ''listen'' \<in> T then v_listen v else v_listen new)"
  "v_natpmp (preview_values T new v) = (if ''natpmp'' \<in> T then v_natpmp v else v_natpmp new)"
  "v_server (preview_values T new v) = (if ''server'' \<in> T then v_server v else v_server new)"
  "v_prune (preview_values T new v) = (if ''prune'' \<in> T then v_prune v else v_prune new)"
  "v_prune_size_gb (preview_values T new v) = (if ''prune'' \<in> T then v_prune_size_gb v else v_prune_size_gb new)"
  "v_proxy_enabled (preview_values T new v) = (if ''proxy'' \<in> T then v_proxy_enabled v else v_proxy_enabled new)"
  "v_proxy_address (preview_values T new v) = (if ''proxy'' \<in> T then v_proxy_address v else v_proxy_address new)"
  "v_tor_enabled (preview_values T new v) = (if ''onion'' \<in> T then v_tor_enabled v else v_tor_enabled new)"
  "v_tor_address (preview_values T new v) = (if ''onion'' \<in> T then v_tor_address v else v_tor_address new)"
  by (simp_all add: preview_values_def Let_def)

lemma write_touched_effect:
  assumes laws: "settings_laws env" and un: "unforced s" and st: "\<forall>n\<in>m_touched_settings sess. setting_storable env sess n"
  obtains s' where "writeTouchedToArgs env sess s = (True, s')"
    "\<And>n. n \<in> set OnboardingCoreSettingNames \<Longrightarrow> n \<in> m_touched_settings sess \<Longrightarrow> holds_setting env sess n s'"
    "\<And>n. n \<in> set OnboardingCoreSettingNames \<Longrightarrow> n \<notin> m_touched_settings sess \<Longrightarrow>
       GetSetting env s' n = GetSetting env s n \<and> GetPersistentSetting env s' (n @ ''-prev'') = GetPersistentSetting env s (n @ ''-prev'')"
proof -
  let ?T = "m_touched_settings sess" let ?K = "\<Union> (keys_of ` (set OnboardingCoreSettingNames \<inter> ?T))"
  obtain r s' where w: "writeTouchedToArgs env sess s = (r, s')" by fastforce
  have "distinct OnboardingCoreSettingNames" by code_simp
  from write_touched_stores [OF this subset_refl un, of ?T env sess True] st w
  have s': "r" "\<forall>n\<in>set OnboardingCoreSettingNames \<inter> ?T. holds_setting env sess n s'" "same_elsewhere ?K s s'"
    by (simp_all add: writeTouchedToArgs_def)
  have "GetSetting env s' n = GetSetting env s n \<and> GetPersistentSetting env s' (n @ ''-prev'') = GetPersistentSetting env s (n @ ''-prev'')"
    if n: "n \<in> set OnboardingCoreSettingNames" "n \<notin> ?T" for n
  proof -
    have "keys_of n \<inter> keys_of m = {}" if "m \<in> set OnboardingCoreSettingNames \<inter> ?T" for m
      using n that by (intro keys_disjoint) auto
    then have k: "keys_of n \<inter> ?K = {}" by blast
    have "forced_settings s n = None" "command_line_options s n = []" using un n(1) by (simp_all add: unforced_def)
    with parts_untouched [OF laws s'(3) k] show ?thesis by simp
  qed
  with that [of s'] w s' show thesis by simp
qed

lemma load_after_write:
  assumes laws: "settings_laws env" and un: "unforced s" and v0: "LoadEffectiveValues env s = Some v0"
    and st: "\<forall>n\<in>m_touched_settings sess. setting_storable env sess n"
  shows "\<exists>s'. writeTouchedToArgs env sess s = (True, s') \<and> LoadEffectiveValues env s' = Some (preview_values (m_touched_settings sess) v0 (m_values sess))"
proof -
  let ?T = "m_touched_settings sess" and ?v = "m_values sess"
  obtain s' where s': "writeTouchedToArgs env sess s = (True, s')"
    and h: "\<And>n. n \<in> set OnboardingCoreSettingNames \<Longrightarrow> n \<in> ?T \<Longrightarrow> holds_setting env sess n s'"
    and un': "\<And>n. n \<in> set OnboardingCoreSettingNames \<Longrightarrow> n \<notin> ?T \<Longrightarrow>
       GetSetting env s' n = GetSetting env s n \<and> GetPersistentSetting env s' (n @ ''-prev'') = GetPersistentSetting env s (n @ ''-prev'')"
    using write_touched_effect [OF laws un st] by blast
  have names: "''prune'' \<in> set OnboardingCoreSettingNames" "''proxy'' \<in> set OnboardingCoreSettingNames" "''onion'' \<in> set OnboardingCoreSettingNames"
    "''listen'' \<in> set OnboardingCoreSettingNames" "''natpmp'' \<in> set OnboardingCoreSettingNames" "''server'' \<in> set OnboardingCoreSettingNames"
    by (simp_all add: OnboardingCoreSettingNames_def)
  have b: "bool_part env s' ''listen'' = (if ''listen'' \<in> ?T then v_listen ?v else bool_part env s ''listen'')"
    "bool_part env s' ''natpmp'' = (if ''natpmp'' \<in> ?T then v_natpmp ?v else bool_part env s ''natpmp'')"
    "bool_part env s' ''server'' = (if ''server'' \<in> ?T then v_server ?v else bool_part env s ''server'')"
    using bool_part_written [OF laws h [OF names(4)], of "v_listen ?v"] un' [OF names(4)]
      bool_part_written [OF laws h [OF names(5)], of "v_natpmp ?v"] un' [OF names(5)]
      bool_part_written [OF laws h [OF names(6)], of "v_server ?v"] un' [OF names(6)]
    by (simp_all add: bool_part_def settingValue_def)
  have pr: "prune_part env s' = (if ''prune'' \<in> ?T then (v_prune ?v, Some (v_prune_size_gb ?v)) else prune_part env s)"
  proof (cases "''prune'' \<in> ?T")
    case True
    with prune_part_written [OF laws h [OF names(1)]] st show ?thesis by simp
  next
    case False
    with un' [OF names(1)] show ?thesis by (simp add: prune_part_def)
  qed
  have px: "addr_part env s' ''proxy'' = (if ''proxy'' \<in> ?T then (v_proxy_enabled ?v, v_proxy_address ?v) else addr_part env s ''proxy'')"
  proof (cases "''proxy'' \<in> ?T")
    case True
    with addr_part_written [OF laws h [OF names(2)], of "v_proxy_enabled ?v" "v_proxy_address ?v"] bspec [OF st True] show ?thesis
      by (simp add: settingValue_def setting_storable_def remembered_def Let_def)
  next
    case False
    with un' [OF names(2)] show ?thesis by (simp add: addr_part_def Let_def)
  qed
  have on: "addr_part env s' ''onion'' = (if ''onion'' \<in> ?T then (v_tor_enabled ?v, v_tor_address ?v) else addr_part env s ''onion'')"
  proof (cases "''onion'' \<in> ?T")
    case True
    with addr_part_written [OF laws h [OF names(3)], of "v_tor_enabled ?v" "v_tor_address ?v"] bspec [OF st True] show ?thesis
      by (simp add: settingValue_def setting_storable_def remembered_def Let_def)
  next
    case False
    with un' [OF names(3)] show ?thesis by (simp add: addr_part_def Let_def)
  qed
  have "LoadEffectiveValues env s' = Some (preview_values ?T v0 ?v)"
    using v0 unfolding LoadEffective_parts pr px on b by simp
  with s' show ?thesis by blast
qed

text \<open>The edits of a user.\<close>

datatype session_edit = EditListen bool | EditNatpmp bool | EditServer bool | EditPrune bool | EditPruneSize int
  | EditProxyEnabled bool | EditTorEnabled bool | EditProxyLocation qstring | EditTorLocation qstring

fun apply_edit :: "settings_env \<Rightarrow> session_edit \<Rightarrow> Session \<Rightarrow> Change \<times> Session" where
  "apply_edit env (EditListen b) s = changeListen b s"
| "apply_edit env (EditNatpmp b) s = changeNatpmp b s"
| "apply_edit env (EditServer b) s = changeServer b s"
| "apply_edit env (EditPrune b) s = changePrune b s"
| "apply_edit env (EditPruneSize n) s = changePruneSizeGB n s"
| "apply_edit env (EditProxyEnabled b) s = changeProxyEnabled env b s"
| "apply_edit env (EditTorEnabled b) s = changeTorEnabled env b s"
| "apply_edit env (EditProxyLocation a) s = changeProxyLocation env a s"
| "apply_edit env (EditTorLocation a) s = changeTorLocation env a s"

definition edit_all :: "settings_env \<Rightarrow> session_edit list \<Rightarrow> Session \<Rightarrow> Session" where
  "edit_all env es s = fold (\<lambda>e s. snd (apply_edit env e s)) es s"

text \<open>Arguments in the range of their types, and locations that can be stored.\<close>

fun edit_ok :: "settings_env \<Rightarrow> session_edit \<Rightarrow> bool" where
  "edit_ok env (EditPruneSize n) \<longleftrightarrow> n < 2 ^ 31"
| "edit_ok env (EditProxyLocation a) \<longleftrightarrow> trimmed a \<noteq> q ''0'' \<and> s_dec env (s_enc env (trimmed a)) = trimmed a"
| "edit_ok env (EditTorLocation a) \<longleftrightarrow> trimmed a \<noteq> q ''0'' \<and> s_dec env (s_enc env (trimmed a)) = trimmed a"
| "edit_ok env _ \<longleftrightarrow> True"

text \<open>What edits keep: untouched settings have the values the session started with, and touched ones can be stored.\<close>

definition session_inv :: "settings_env \<Rightarrow> Values \<Rightarrow> Session \<Rightarrow> bool" where
  "session_inv env v0 s \<longleftrightarrow> m_values s = preview_values (m_touched_settings s) v0 (m_values s) \<and>
     1 \<le> v_prune_size_gb (m_values s) \<and> v_prune_size_gb (m_values s) < 2 ^ 31 \<and>
     addr_ok env (v_proxy_address (m_values s)) \<and> addr_ok env (v_tor_address (m_values s)) \<and>
     (''proxy'' \<in> m_touched_settings s \<and> v_proxy_enabled (m_values s) \<longrightarrow> ProxyValidationError env (v_proxy_address (m_values s)) = None) \<and>
     (''onion'' \<in> m_touched_settings s \<and> v_tor_enabled (m_values s) \<longrightarrow> ProxyValidationError env (v_tor_address (m_values s)) = None)"

lemma session_inv_storable: "session_inv env v0 s \<Longrightarrow> n \<in> m_touched_settings s \<Longrightarrow> setting_storable env s n"
  by (auto simp: session_inv_def setting_storable_def Let_def)

lemma preview_fix:
  "v = preview_values T v0 v \<longleftrightarrow>
     (''listen'' \<in> T \<or> v_listen v = v_listen v0) \<and> (''natpmp'' \<in> T \<or> v_natpmp v = v_natpmp v0) \<and> (''server'' \<in> T \<or> v_server v = v_server v0) \<and>
     (''prune'' \<in> T \<or> v_prune v = v_prune v0 \<and> v_prune_size_gb v = v_prune_size_gb v0) \<and>
     (''proxy'' \<in> T \<or> v_proxy_enabled v = v_proxy_enabled v0 \<and> v_proxy_address v = v_proxy_address v0) \<and>
     (''onion'' \<in> T \<or> v_tor_enabled v = v_tor_enabled v0 \<and> v_tor_address v = v_tor_address v0)"
  (is "?l \<longleftrightarrow> ?r")
proof
  assume l: ?l
  note a = arg_cong [OF l]
  from a [of v_listen] a [of v_natpmp] a [of v_server] a [of v_prune] a [of v_prune_size_gb] a [of v_proxy_enabled]
    a [of v_proxy_address] a [of v_tor_enabled] a [of v_tor_address]
  show ?r by (simp split: if_splits)
next
  assume ?r then show ?l by (intro Values.equality) auto
qed

lemma last_dropWhile_snoc: "\<not> P x \<Longrightarrow> last (dropWhile P (xs @ [x])) = x"
  by (induction xs) auto

lemma trimmed_trimmed [simp]: "trimmed (trimmed a) = trimmed a"
proof (cases "dropWhile isSpace a")
  case Nil
  then show ?thesis by (simp only: trimmed_def rev.simps dropWhile.simps)
next
  case (Cons x xs)
  then have x: "\<not> isSpace x" by (metis dropWhile_eq_Cons_conv)
  let ?r = "dropWhile isSpace (rev xs @ [x])"
  have "?r \<noteq> []" using x by simp
  moreover have "last ?r = x" using last_dropWhile_snoc x by metis
  ultimately have "dropWhile isSpace (rev ?r) = rev ?r" using x by (simp add: dropWhile_eq_self_iff hd_rev)
  then show ?thesis using Cons by (simp add: trimmed_def dropWhile_idem)
qed

lemma ProxyValidationError_nonempty: "ProxyValidationError env a = None \<Longrightarrow> trimmed a \<noteq> []"
  by (auto simp: ProxyValidationError_def Let_def)

lemma ProxyValidationError_trimmed [simp]: "ProxyValidationError env (trimmed a) = ProxyValidationError env a"
  by (simp add: ProxyValidationError_def)

lemmas session_ops = changeListen_def changeNatpmp_def changeServer_def changePrune_def changePruneSizeGB_def

lemma inv_flag_edits:
  assumes "session_inv env v0 s"
  shows "session_inv env v0 (snd (changeListen b s))" "session_inv env v0 (snd (changeNatpmp b s))" "session_inv env v0 (snd (changeServer b s))"
    "session_inv env v0 (snd (changePrune b s))" "n < 2 ^ 31 \<Longrightarrow> session_inv env v0 (snd (changePruneSizeGB n s))"
  using assms unfolding session_inv_def preview_fix by (simp_all add: session_ops markTouched_def Let_def)

lemma changeProxyEnabled_cases:
  assumes "v_proxy_address (m_values s) \<noteq> []"
  obtains "snd (changeProxyEnabled env b s) = s"
  | "b \<longrightarrow> ProxyValidationError env (v_proxy_address (m_values s)) = None"
    "snd (changeProxyEnabled env b s) = s\<lparr>m_values := (m_values s)\<lparr>v_proxy_enabled := b\<rparr>, m_touched_settings := insert ''proxy'' (m_touched_settings s)\<rparr>"
  using assms by (cases "\<not> canEdit ''proxy'' s \<or> b = v_proxy_enabled (m_values s) \<or> b \<and> ProxyValidationError env (v_proxy_address (m_values s)) \<noteq> None")
    (auto simp: changeProxyEnabled_def markTouched_def Let_def)

lemma changeTorEnabled_cases:
  assumes "v_tor_address (m_values s) \<noteq> []"
  obtains "snd (changeTorEnabled env b s) = s"
  | "b \<longrightarrow> ProxyValidationError env (v_tor_address (m_values s)) = None"
    "snd (changeTorEnabled env b s) = s\<lparr>m_values := (m_values s)\<lparr>v_tor_enabled := b\<rparr>, m_touched_settings := insert ''onion'' (m_touched_settings s)\<rparr>"
  using assms by (cases "\<not> canEdit ''onion'' s \<or> b = v_tor_enabled (m_values s) \<or> b \<and> ProxyValidationError env (v_tor_address (m_values s)) \<noteq> None")
    (auto simp: changeTorEnabled_def markTouched_def Let_def)

lemma inv_proxy_edits:
  assumes "session_inv env v0 s"
  shows "session_inv env v0 (snd (changeProxyEnabled env b s))" and "session_inv env v0 (snd (changeTorEnabled env b s))"
proof -
  have "v_proxy_address (m_values s) \<noteq> []" "v_tor_address (m_values s) \<noteq> []" using assms by (auto simp: session_inv_def addr_ok_def)
  note a = this
  from a(1) show "session_inv env v0 (snd (changeProxyEnabled env b s))"
    by (cases rule: changeProxyEnabled_cases [of s env b]) (use assms in \<open>simp_all add: session_inv_def preview_fix\<close>)
  from a(2) show "session_inv env v0 (snd (changeTorEnabled env b s))"
    by (cases rule: changeTorEnabled_cases [of s env b]) (use assms in \<open>simp_all add: session_inv_def preview_fix\<close>)
qed

lemma inv_location_edits:
  assumes "session_inv env v0 s" "trimmed a \<noteq> q ''0''" "s_dec env (s_enc env (trimmed a)) = trimmed a"
  shows "session_inv env v0 (snd (changeProxyLocation env a s))" "session_inv env v0 (snd (changeTorLocation env a s))"
proof -
  have "addr_ok env (trimmed a)" if "ProxyValidationError env a = None"
    using assms(2,3) ProxyValidationError_nonempty [OF that] by (simp add: addr_ok_def)
  with assms(1) show "session_inv env v0 (snd (changeProxyLocation env a s))" "session_inv env v0 (snd (changeTorLocation env a s))"
    unfolding session_inv_def preview_fix by (simp_all add: changeProxyLocation_def changeTorLocation_def markTouched_def Let_def)
qed

lemma inv_edit: "session_inv env v0 s \<Longrightarrow> edit_ok env e \<Longrightarrow> session_inv env v0 (snd (apply_edit env e s))"
  by (cases e) (simp_all add: inv_flag_edits inv_proxy_edits inv_location_edits)

lemma inv_edits: "session_inv env v0 s \<Longrightarrow> list_all (edit_ok env) es \<Longrightarrow> session_inv env v0 (edit_all env es s)"
  unfolding edit_all_def by (induction es arbitrary: s) (auto intro: inv_edit)

section \<open>Properties\<close>

lemma SetRw_UpdateRw:
  assumes "\<And>n v s. upd n v s = s\<lparr>rw_settings := (rw_settings s)(n := if v = VNULL then None else Some v)\<rparr>"
  shows "UpdateRwSetting upd n v s = SetRwSetting n v s"
  by (simp add: UpdateRwSetting_def SetRwSetting_def assms Let_def)

lemma write_node_args:
  assumes "\<And>n v s. upd n v s = s\<lparr>rw_settings := (rw_settings s)(n := if v = VNULL then None else Some v)\<rparr>"
  shows "writeToNode upd env sess name s = writeToArgs env sess name s"
proof (cases "IsSessionSetting name \<and> command_line_options s name = []")
  case False
  then show ?thesis
    by (auto simp: writeToNode_def writeToArgs_def WriteProxySetting_def WritePruneSetting_def WriteCoreSettingOverride_def Let_def)
next
  case True
  then show ?thesis
    by (auto simp: writeToNode_def writeToArgs_def WriteProxySetting_def WritePruneSetting_def WriteCoreSettingOverride_def
      SetRw_UpdateRw [OF assms] Let_def)
qed

text \<open>
  C10: what the user chose is what is loaded. A session starts with the settings that are in effect: none of them is forced or
  given on the command line, the prune size is positive and below \<open>2 ^ 31\<close>, and the two proxy addresses can be
  stored (not empty, without surrounding space, not \<open>0\<close>, and text that survives UTF-8). The user makes any
  sequence of edits, of which only those of a proxy location are restricted: the trimmed location is not \<open>0\<close>, which the code stores like any other
  but reads back as a disabled proxy, and it survives the conversion to UTF-8 and back. The touched settings are then written, which
  succeeds, and loading the settings again gives exactly the values of the session, disabled proxies and a disabled prune size included.
\<close>

theorem settings_roundtrip:
  assumes "settings_laws env" "unforced s" "LoadEffectiveValues env s = Some v0" "list_all (edit_ok env) es"
    "1 \<le> v_prune_size_gb v0" "v_prune_size_gb v0 < 2 ^ 31" "addr_ok env (v_proxy_address v0)" "addr_ok env (v_tor_address v0)"
  shows "\<exists>s'. writeTouchedToArgs env (edit_all env es (new_Session_of v0 st)) s = (True, s') \<and>
     LoadEffectiveValues env s' = Some (m_values (edit_all env es (new_Session_of v0 st)))"
proof -
  let ?sess = "edit_all env es (new_Session_of v0 st)"
  have "session_inv env v0 (new_Session_of v0 st)"
    using assms(5-8) unfolding session_inv_def preview_fix by (simp add: new_Session_of_def)
  from inv_edits [OF this assms(4)] have inv: "session_inv env v0 ?sess" .
  have "m_values ?sess = preview_values (m_touched_settings ?sess) v0 (m_values ?sess)" using inv unfolding session_inv_def by blast
  with load_after_write [OF assms(1-3), of ?sess] session_inv_storable [OF inv] show ?thesis by simp
qed

definition example_env :: settings_env where
  "example_env = \<lparr>
     GetSetting = (\<lambda>s n. or_default (if command_line_options s n \<noteq> [] then last (command_line_options s n)
        else or_default (if n = ''proxy'' then VSTR (q ''tor:9050'') else VNULL) (rw_settings s n)) (forced_settings s n)),
     GetPersistentSetting = (\<lambda>s n. or_default (if n = ''proxy'' then VSTR (q ''tor:9050'') else VNULL) (rw_settings s n)),
     ConfigSetting = (\<lambda>n. if n = ''proxy'' then VSTR (q ''tor:9050'') else VNULL),
     SettingToBool = (\<lambda>v. case v of VNULL \<Rightarrow> None | VBOOL b \<Rightarrow> Some b | _ \<Rightarrow> Some True),
     SettingToInt = (\<lambda>v. case v of VNUM t \<Rightarrow> Some (toLongLong t) | VSTR t \<Rightarrow> Some (toLongLong t) | VBOOL b \<Rightarrow> Some (if b then 1 else 0) | _ \<Rightarrow> None),
     SettingToString = (\<lambda>v. case v of VSTR t \<Rightarrow> Some t | VNUM t \<Rightarrow> Some t | VBOOL b \<Rightarrow> Some (if b then q ''1'' else q ''0'') | _ \<Rightarrow> None),
     write_value = (\<lambda>v. case v of VSTR t \<Rightarrow> 34 # t @ [34] | VNUM t \<Rightarrow> t | VBOOL b \<Rightarrow> (if b then q ''true'' else q ''false'') | _ \<Rightarrow> q ''null''),
     s_enc = id, s_dec = id, IsUnixSocketPath = (\<lambda>_. True), SplitHostPort = (\<lambda>v. Some (takeWhile (\<lambda>c. c \<noteq> 58) v)), NumericProxyValid = (\<lambda>_. False),
     DEFAULT_LISTEN = True, DEFAULT_NATPMP = True, DEFAULT_DB_CACHE_MIB = 450, DEFAULT_SCRIPTCHECK_THREADS = 0, DEFAULT_MAX_MEMPOOL_SIZE_MB = 300\<rparr>"

lemma example_laws: "settings_laws example_env"
  by (simp add: settings_laws_def example_env_def or_default_def i64_defs number_def)

definition example_settings :: settings where
  "example_settings = \<lparr>forced_settings = Map.empty, command_line_options = (\<lambda>_. []), rw_settings = Map.empty\<rparr>"

definition example_values :: Values where
  "example_values = \<lparr>v_prune = False, v_prune_size_gb = 2, v_listen = True, v_natpmp = True, v_server = False,
     v_proxy_enabled = True, v_proxy_address = q ''tor:9050'', v_tor_enabled = False, v_tor_address = DefaultProxyAddress\<rparr>"

theorem settings_roundtrip_witness:
  "\<exists>s'. writeTouchedToArgs example_env (edit_all example_env [EditProxyEnabled False, EditPruneSize 7, EditTorLocation (q '' a.b ''), EditListen False]
       (new_Session_of example_values [])) example_settings = (True, s') \<and>
     LoadEffectiveValues example_env s' = Some (m_values (edit_all example_env
       [EditProxyEnabled False, EditPruneSize 7, EditTorLocation (q '' a.b ''), EditListen False] (new_Session_of example_values [])))"
proof (rule settings_roundtrip)
  show "settings_laws example_env" by (rule example_laws)
  show "unforced example_settings" by (simp add: unforced_def example_settings_def)
  show "LoadEffectiveValues example_env example_settings = Some example_values" by code_simp
  show "list_all (edit_ok example_env) [EditProxyEnabled False, EditPruneSize 7, EditTorLocation (q '' a.b ''), EditListen False]" by code_simp
  show "addr_ok example_env (v_proxy_address example_values)" "addr_ok example_env (v_tor_address example_values)" by code_simp+
qed (simp_all add: example_values_def)

text \<open>
  the two ways of storing a session agree. Where the node's \<open>updateRwSetting\<close> stores a value in \<open>settings.json\<close>, or
  removes it when it is null, writing the touched settings through the node and writing them to the arguments
  report the same and leave the same settings, and so does each setting alone.
\<close>

theorem settings_node_same:
  assumes "\<And>n v s. upd n v s = s\<lparr>rw_settings := (rw_settings s)(n := if v = VNULL then None else Some v)\<rparr>"
  shows "writeTouchedToNode upd env sess s = writeTouchedToArgs env sess s \<and> writeToNode upd env sess name s = writeToArgs env sess name s"
proof -
  have "writeToNode upd env sess = writeToArgs env sess" using write_node_args [OF assms] by blast
  then show ?thesis by (simp add: writeTouchedToNode_def writeTouchedToArgs_def)
qed


theorem settings_node_same_witness:
  "writeTouchedToNode (\<lambda>n v s. s\<lparr>rw_settings := (rw_settings s)(n := if v = VNULL then None else Some v)\<rparr>) example_env
     (edit_all example_env [EditPrune True] (new_Session_of example_values [])) example_settings =
   writeTouchedToArgs example_env (edit_all example_env [EditPrune True] (new_Session_of example_values [])) example_settings"
  using settings_node_same [of "\<lambda>n v s. s\<lparr>rw_settings := (rw_settings s)(n := if v = VNULL then None else Some v)\<rparr>" example_env
    "edit_all example_env [EditPrune True] (new_Session_of example_values [])" example_settings "''prune''"] by simp

end
