(* ===== verification/SettingsModel.thy ===== *)
theory SettingsModel
  imports SettingsSession
begin

text \<open>
  \<open>src/qml/models/core_settings_model.{h,cpp}\<close>: the settings session as QML sees it. An entry is the object for one
  setting, made on demand; every operation runs the owner's two handlers around the change of the session and
  notifies the entries whose properties changed. The calls of the handlers and the signals are one list of events, in
  the order of the code; the entries of the \<open>QHash\<close> are visited in the order in which they were made.
\<close>

section \<open>Definitions\<close>

datatype ChangeOrigin = User | Preview | Recommendation

datatype settings_event =
  BeforeChange ChangeOrigin | AfterChange Change ChangeOrigin | StatusesChanged
  | valueChanged string | enabledChanged string | addressChanged string | statusChanged string

record CoreSettingsModel =
  m_session :: Session
  m_entries :: "string list"

definition new_CoreSettingsModel :: "Session \<Rightarrow> CoreSettingsModel" where
  "new_CoreSettingsModel s = \<lparr>m_session = s, m_entries = []\<rparr>"

definition ensureEntry :: "string \<Rightarrow> CoreSettingsModel \<Rightarrow> CoreSettingsModel" where
  "ensureEntry key m = (if key \<in> set (m_entries m) then m else m\<lparr>m_entries := m_entries m @ [key]\<rparr>)"

definition ValuesChanged :: "Change \<Rightarrow> bool" where "ValuesChanged c \<longleftrightarrow> before c \<noteq> after c"
definition StatusesDiffer :: "Change \<Rightarrow> bool" where "StatusesDiffer c \<longleftrightarrow> before_statuses c \<noteq> after_statuses c"
definition ListenChanged :: "Change \<Rightarrow> bool" where "ListenChanged c \<longleftrightarrow> v_listen (before c) \<noteq> v_listen (after c)"
definition NatpmpChanged :: "Change \<Rightarrow> bool" where "NatpmpChanged c \<longleftrightarrow> v_natpmp (before c) \<noteq> v_natpmp (after c)"
definition ServerChanged :: "Change \<Rightarrow> bool" where "ServerChanged c \<longleftrightarrow> v_server (before c) \<noteq> v_server (after c)"
definition PruneChanged :: "Change \<Rightarrow> bool" where "PruneChanged c \<longleftrightarrow> v_prune (before c) \<noteq> v_prune (after c)"
definition PruneSizeGBChanged :: "Change \<Rightarrow> bool" where "PruneSizeGBChanged c \<longleftrightarrow> v_prune_size_gb (before c) \<noteq> v_prune_size_gb (after c)"
definition ProxyEnabledChanged :: "Change \<Rightarrow> bool" where "ProxyEnabledChanged c \<longleftrightarrow> v_proxy_enabled (before c) \<noteq> v_proxy_enabled (after c)"
definition ProxyAddressChanged :: "Change \<Rightarrow> bool" where "ProxyAddressChanged c \<longleftrightarrow> v_proxy_address (before c) \<noteq> v_proxy_address (after c)"
definition TorEnabledChanged :: "Change \<Rightarrow> bool" where "TorEnabledChanged c \<longleftrightarrow> v_tor_enabled (before c) \<noteq> v_tor_enabled (after c)"
definition TorAddressChanged :: "Change \<Rightarrow> bool" where "TorAddressChanged c \<longleftrightarrow> v_tor_address (before c) \<noteq> v_tor_address (after c)"

text \<open>One line of \<open>notifyChange\<close>: when the test holds, the entry is made if need be and emits its signals.\<close>

definition notify_entry :: "bool \<Rightarrow> string \<Rightarrow> settings_event list \<Rightarrow> CoreSettingsModel \<times> settings_event list \<Rightarrow> CoreSettingsModel \<times> settings_event list" where
  "notify_entry test key sigs r = (if test then (ensureEntry key (fst r), snd r @ sigs) else r)"

definition notifyStatusesChanged :: "CoreSettingsModel \<Rightarrow> settings_event list" where
  "notifyStatusesChanged m = StatusesChanged # map statusChanged (m_entries m)"

definition notifyChange :: "Change \<Rightarrow> CoreSettingsModel \<Rightarrow> CoreSettingsModel \<times> settings_event list" where
  "notifyChange c m =
     (if \<not> accepted c then (m, [])
      else
        let r = (m, if StatusesDiffer c then notifyStatusesChanged m else []);
            r = notify_entry (ListenChanged c) ''listen'' [valueChanged ''listen'', enabledChanged ''listen''] r;
            r = notify_entry (NatpmpChanged c) ''natpmp'' [valueChanged ''natpmp'', enabledChanged ''natpmp''] r;
            r = notify_entry (ServerChanged c) ''server'' [valueChanged ''server'', enabledChanged ''server''] r;
            r = notify_entry (PruneChanged c) ''prune'' [enabledChanged ''prune''] r;
            r = notify_entry (PruneSizeGBChanged c) ''prune'' [valueChanged ''prune''] r;
            r = notify_entry (ProxyEnabledChanged c) ''proxy'' [enabledChanged ''proxy''] r;
            r = notify_entry (ProxyAddressChanged c) ''proxy'' [addressChanged ''proxy'', valueChanged ''proxy''] r;
            r = notify_entry (TorEnabledChanged c) ''onion'' [enabledChanged ''onion''] r
        in notify_entry (TorAddressChanged c) ''onion'' [addressChanged ''onion'', valueChanged ''onion''] r)"

definition mutate :: "ChangeOrigin \<Rightarrow> (Session \<Rightarrow> Change \<times> Session) \<Rightarrow> CoreSettingsModel \<Rightarrow> Change \<times> CoreSettingsModel \<times> settings_event list" where
  "mutate origin mutation m =
     (let (change, s) = mutation (m_session m);
          (m1, sigs) = notifyChange change (m\<lparr>m_session := s\<rparr>)
      in (change, m1, BeforeChange origin # sigs @ (if accepted change then [AfterChange change origin] else [])))"

definition setStatuses :: "statuses \<Rightarrow> CoreSettingsModel \<Rightarrow> CoreSettingsModel \<times> settings_event list" where
  "setStatuses st m =
     (if m_statuses (m_session m) = st then (m, [])
      else let m1 = m\<lparr>m_session := (m_session m)\<lparr>m_statuses := st\<rparr>\<rparr> in (m1, notifyStatusesChanged m1))"

subsection \<open>Entries\<close>

datatype variant = VBool bool | VInt int | VString qstring | VInvalid

definition entry_value :: "string \<Rightarrow> CoreSettingsModel \<Rightarrow> variant" where
  "entry_value key m =
     (let v = m_values (m_session m)
      in if key = ''listen'' then VBool (v_listen v)
         else if key = ''natpmp'' then VBool (v_natpmp v)
         else if key = ''server'' then VBool (v_server v)
         else if key = ''prune'' then VInt (v_prune_size_gb v)
         else if key = ''proxy'' then VString (v_proxy_address v)
         else if key = ''onion'' then VString (v_tor_address v)
         else VInvalid)"

definition entry_enabled :: "string \<Rightarrow> CoreSettingsModel \<Rightarrow> bool" where
  "entry_enabled key m =
     (let v = m_values (m_session m)
      in if key = ''listen'' then v_listen v
         else if key = ''natpmp'' then v_natpmp v
         else if key = ''server'' then v_server v
         else if key = ''prune'' then v_prune v
         else if key = ''proxy'' then v_proxy_enabled v
         else if key = ''onion'' then v_tor_enabled v
         else False)"

definition setting_address :: "string \<Rightarrow> CoreSettingsModel \<Rightarrow> qstring" where
  "setting_address key m =
     (if key = ''proxy'' then v_proxy_address (m_values (m_session m))
      else if key = ''onion'' then v_tor_address (m_values (m_session m))
      else [])"

definition entry_status :: "string \<Rightarrow> CoreSettingsModel \<Rightarrow> CoreStatus option" where
  "entry_status key m = map_of (m_statuses (m_session m)) key"

definition entry_canEdit :: "string \<Rightarrow> CoreSettingsModel \<Rightarrow> bool" where
  "entry_canEdit key m = (case entry_status key m of None \<Rightarrow> True | Some st \<Rightarrow> st_canEdit st)"

definition entry_infoText :: "string \<Rightarrow> CoreSettingsModel \<Rightarrow> string" where
  "entry_infoText key m = (case entry_status key m of None \<Rightarrow> [] | Some st \<Rightarrow> st_infoText st)"

definition entry_createsGuiOverride :: "string \<Rightarrow> CoreSettingsModel \<Rightarrow> bool" where
  "entry_createsGuiOverride key m = (case entry_status key m of None \<Rightarrow> False | Some st \<Rightarrow> st_createsGuiOverride st)"

definition IsProxyEntry :: "string \<Rightarrow> bool" where
  "IsProxyEntry key \<longleftrightarrow> key = ''proxy'' \<or> key = ''onion''"

definition entry_validate :: "settings_env \<Rightarrow> string \<Rightarrow> qstring \<Rightarrow> string option" where
  "entry_validate env key v = (if IsProxyEntry key then ProxyValidationError env v else None)"

text \<open>\<open>toBool\<close>, \<open>toInt\<close> and \<open>toString\<close> of the \<open>QVariant\<close> that QML passes are the argument's three readings.\<close>

record variant_arg =
  arg_bool :: bool
  arg_int :: int
  arg_string :: qstring

definition entry_setValue_edit :: "string \<Rightarrow> variant_arg \<Rightarrow> session_edit option" where
  "entry_setValue_edit key v =
     (if key = ''listen'' then Some (EditListen (arg_bool v))
      else if key = ''natpmp'' then Some (EditNatpmp (arg_bool v))
      else if key = ''server'' then Some (EditServer (arg_bool v))
      else if key = ''prune'' then Some (EditPruneSize (arg_int v))
      else if key = ''proxy'' then Some (EditProxyLocation (arg_string v))
      else if key = ''onion'' then Some (EditTorLocation (arg_string v))
      else None)"

definition entry_setEnabled_edit :: "string \<Rightarrow> bool \<Rightarrow> session_edit option" where
  "entry_setEnabled_edit key b =
     (if key = ''listen'' then Some (EditListen b)
      else if key = ''natpmp'' then Some (EditNatpmp b)
      else if key = ''server'' then Some (EditServer b)
      else if key = ''prune'' then Some (EditPrune b)
      else if key = ''proxy'' then Some (EditProxyEnabled b)
      else if key = ''onion'' then Some (EditTorEnabled b)
      else None)"

definition entry_commitAddress_edit :: "string \<Rightarrow> qstring \<Rightarrow> session_edit option" where
  "entry_commitAddress_edit key a =
     (if key = ''proxy'' then Some (EditProxyLocation a)
      else if key = ''onion'' then Some (EditTorLocation a)
      else None)"

subsection \<open>Operations\<close>

datatype settings_op =
  OpEdit session_edit | OpRecommend bool int bool | OpPreview Values statuses | OpStatuses statuses
  | OpEntry string | OpSetValue string variant_arg | OpSetEnabled string bool | OpCommitAddress string qstring
  | OpMarkTouched string | OpClearTouched string | OpClearTouchedSettings

definition user_edit :: "settings_env \<Rightarrow> session_edit option \<Rightarrow> CoreSettingsModel \<Rightarrow> CoreSettingsModel \<times> settings_event list" where
  "user_edit env e m = (case e of None \<Rightarrow> (m, []) | Some e \<Rightarrow> snd (mutate User (apply_edit env e) m))"

fun settings_step :: "settings_env \<Rightarrow> settings_op \<Rightarrow> CoreSettingsModel \<Rightarrow> CoreSettingsModel \<times> settings_event list" where
  "settings_step env (OpEdit e) m = user_edit env (Some e) m"
| "settings_step env (OpRecommend p n t) m = snd (mutate Recommendation (changePruneRecommendation p n t) m)"
| "settings_step env (OpPreview v st) m = snd (mutate Preview (applyPreviewValuesPreservingTouched v st) m)"
| "settings_step env (OpStatuses st) m = setStatuses st m"
| "settings_step env (OpEntry key) m = (ensureEntry key m, [])"
| "settings_step env (OpSetValue key v) m = user_edit env (entry_setValue_edit key v) m"
| "settings_step env (OpSetEnabled key b) m = user_edit env (entry_setEnabled_edit key b) m"
| "settings_step env (OpCommitAddress key a) m = user_edit env (entry_commitAddress_edit key a) m"
| "settings_step env (OpMarkTouched key) m = (m\<lparr>m_session := markTouched key (m_session m)\<rparr>, [])"
| "settings_step env (OpClearTouched key) m = (m\<lparr>m_session := (m_session m)\<lparr>m_touched_settings := m_touched_settings (m_session m) - {key}\<rparr>\<rparr>, [])"
| "settings_step env OpClearTouchedSettings m = (m\<lparr>m_session := (m_session m)\<lparr>m_touched_settings := {}\<rparr>\<rparr>, [])"


section \<open>A change says what happened\<close>

text \<open>
  What the code relies on of Core's address parsing: the default location is a numeric host with a port.
\<close>

definition default_proxy_laws :: "settings_env \<Rightarrow> bool" where
  "default_proxy_laws env \<longleftrightarrow> s_enc env DefaultProxyAddress = DefaultProxyAddress \<and>
     SplitHostPort env DefaultProxyAddress = Some (q ''127.0.0.1'') \<and> NumericProxyValid env DefaultProxyAddress"

definition honest :: "(Session \<Rightarrow> Change \<times> Session) \<Rightarrow> bool" where
  "honest f \<longleftrightarrow> (\<forall>s. let (c, s') = f s in before c = m_values s \<and> after c = m_values s' \<and> before_statuses c = m_statuses s \<and>
     after_statuses c = m_statuses s' \<and> (\<not> accepted c \<longrightarrow> m_values s' = m_values s \<and> m_statuses s' = m_statuses s))"

lemma begin_finish [simp]:
  "before (finishChange (beginChange n s) ok t) = m_values s" "after (finishChange c ok t) = m_values t"
  "before_statuses (finishChange (beginChange n s) ok t) = m_statuses s" "after_statuses (finishChange c ok t) = m_statuses t"
  "accepted (finishChange c ok t) = ok" "setting_name (finishChange (beginChange n s) ok t) = n"
  by (simp_all add: beginChange_def finishChange_def)

lemma default_proxy_valid: "default_proxy_laws env \<Longrightarrow> ProxyValidationError env DefaultProxyAddress = None"
proof -
  assume laws: "default_proxy_laws env"
  have t: "trimmed DefaultProxyAddress = DefaultProxyAddress" "DefaultProxyAddress \<noteq> []" "0 \<notin> set DefaultProxyAddress"
    "61 \<notin> set DefaultProxyAddress" "take (length ADDR_PREFIX_UNIX) DefaultProxyAddress \<noteq> ADDR_PREFIX_UNIX" "q ''127.0.0.1'' \<noteq> []" by code_simp+
  show ?thesis unfolding ProxyValidationError_def Let_def t using laws t by (simp add: default_proxy_laws_def del: q_def)
qed

lemma honest_edits:
  "honest (changeListen b)" "honest (changeNatpmp b)" "honest (changeServer b)" "honest (changePrune b)" "honest (changePruneSizeGB n)"
  "honest (changeProxyLocation env a)" "honest (changeTorLocation env a)" "honest (changePruneRecommendation b n t)"
  "honest (applyPreviewValuesPreservingTouched v st)"
  by (simp_all add: honest_def session_ops changeProxyLocation_def changeTorLocation_def changePruneRecommendation_def
    applyPreviewValuesPreservingTouched_def Let_def)

lemma honest_enabled:
  assumes "default_proxy_laws env"
  shows "honest (changeProxyEnabled env b)" "honest (changeTorEnabled env b)"
  using default_proxy_valid [OF assms] by (auto simp: honest_def changeProxyEnabled_def changeTorEnabled_def Let_def)

lemma apply_edit_fun:
  "apply_edit env (EditListen b) = changeListen b" "apply_edit env (EditNatpmp b) = changeNatpmp b" "apply_edit env (EditServer b) = changeServer b"
  "apply_edit env (EditPrune b) = changePrune b" "apply_edit env (EditPruneSize n) = changePruneSizeGB n"
  "apply_edit env (EditProxyEnabled b) = changeProxyEnabled env b" "apply_edit env (EditTorEnabled b) = changeTorEnabled env b"
  "apply_edit env (EditProxyLocation a) = changeProxyLocation env a" "apply_edit env (EditTorLocation a) = changeTorLocation env a"
  by (simp_all add: fun_eq_iff)

lemma honest_apply: "default_proxy_laws env \<Longrightarrow> honest (apply_edit env e)"
  by (cases e) (simp_all add: apply_edit_fun honest_edits honest_enabled)


section \<open>Notification\<close>

lemma ensureEntry_simps [simp]:
  "m_session (ensureEntry k m) = m_session m" "set (m_entries (ensureEntry k m)) = insert k (set (m_entries m))"
  by (auto simp: ensureEntry_def)

lemma notify_entry_simps [simp]:
  "m_session (fst (notify_entry b k sg r)) = m_session (fst r)"
  "set (m_entries (fst (notify_entry b k sg r))) = (if b then insert k (set (m_entries (fst r))) else set (m_entries (fst r)))"
  "x \<in> set (snd (notify_entry b k sg r)) \<longleftrightarrow> x \<in> set (snd r) \<or> b \<and> x \<in> set sg"
  by (auto simp: notify_entry_def)

lemma notifyChange_session [simp]: "m_session (fst (notifyChange c m)) = m_session m"
  by (simp add: notifyChange_def)

lemma notifyChange_entries: "set (m_entries m) \<subseteq> set (m_entries (fst (notifyChange c m)))"
  by (auto simp: notifyChange_def)

lemma notifyChange_signals:
  assumes "accepted c"
  shows "x \<in> set (snd (notifyChange c m)) \<longleftrightarrow>
    StatusesDiffer c \<and> x \<in> insert StatusesChanged (statusChanged ` set (m_entries m)) \<or>
    ListenChanged c \<and> x \<in> {valueChanged ''listen'', enabledChanged ''listen''} \<or>
    NatpmpChanged c \<and> x \<in> {valueChanged ''natpmp'', enabledChanged ''natpmp''} \<or>
    ServerChanged c \<and> x \<in> {valueChanged ''server'', enabledChanged ''server''} \<or>
    PruneChanged c \<and> x \<in> {enabledChanged ''prune''} \<or> PruneSizeGBChanged c \<and> x \<in> {valueChanged ''prune''} \<or>
    ProxyEnabledChanged c \<and> x \<in> {enabledChanged ''proxy''} \<or>
    ProxyAddressChanged c \<and> x \<in> {addressChanged ''proxy'', valueChanged ''proxy''} \<or>
    TorEnabledChanged c \<and> x \<in> {enabledChanged ''onion''} \<or>
    TorAddressChanged c \<and> x \<in> {addressChanged ''onion'', valueChanged ''onion''}"
  using assms by (simp add: notifyChange_def notifyStatusesChanged_def Let_def disj_assoc)

text \<open>The four properties an entry notifies, and the signal of each.\<close>

datatype role = RValue | REnabled | RAddress | RStatus

datatype entry_shown = SVariant variant | SBool bool | SText qstring | SStatus "CoreStatus option"

fun entry_view :: "string \<Rightarrow> role \<Rightarrow> CoreSettingsModel \<Rightarrow> entry_shown" where
  "entry_view key RValue m = SVariant (entry_value key m)"
| "entry_view key REnabled m = SBool (entry_enabled key m)"
| "entry_view key RAddress m = SText (setting_address key m)"
| "entry_view key RStatus m = SStatus (entry_status key m)"

fun entry_signal :: "string \<Rightarrow> role \<Rightarrow> settings_event" where
  "entry_signal key RValue = valueChanged key"
| "entry_signal key REnabled = enabledChanged key"
| "entry_signal key RAddress = addressChanged key"
| "entry_signal key RStatus = statusChanged key"

lemma view_cong:
  "m_values (m_session m') = m_values (m_session m) \<Longrightarrow> m_statuses (m_session m') = m_statuses (m_session m) \<Longrightarrow> entry_view key r m' = entry_view key r m"
  by (cases r) (simp_all add: entry_value_def entry_enabled_def setting_address_def entry_status_def)

lemma notifyChange_notifies:
  assumes "accepted c" "before c = m_values (m_session m0)" "after c = m_values (m_session m)"
    "before_statuses c = m_statuses (m_session m0)" "after_statuses c = m_statuses (m_session m)"
    "key \<in> set (m_entries m)" "entry_view key r m \<noteq> entry_view key r m0"
  shows "entry_signal key r \<in> set (snd (notifyChange c m))"
proof -
  note sig = notifyChange_signals [OF assms(1)]
  note changed = ListenChanged_def NatpmpChanged_def ServerChanged_def PruneChanged_def PruneSizeGBChanged_def ProxyEnabledChanged_def
    ProxyAddressChanged_def TorEnabledChanged_def TorAddressChanged_def StatusesDiffer_def assms(2-5)
  show ?thesis
  proof (cases r)
    case RValue
    with assms(7) show ?thesis unfolding sig by (simp add: entry_value_def changed Let_def split: if_splits)
  next
    case REnabled
    with assms(7) show ?thesis unfolding sig by (simp add: entry_enabled_def changed Let_def split: if_splits)
  next
    case RAddress
    with assms(7) show ?thesis unfolding sig by (simp add: setting_address_def changed split: if_splits)
  next
    case RStatus
    with assms(6,7) show ?thesis unfolding sig by (auto simp: entry_status_def changed)
  qed
qed


text \<open>What every operation on the model keeps and announces.\<close>

definition announces :: "CoreSettingsModel \<Rightarrow> CoreSettingsModel \<times> settings_event list \<Rightarrow> bool" where
  "announces m r \<longleftrightarrow> set (m_entries m) \<subseteq> set (m_entries (fst r)) \<and>
     (\<forall>key\<in>set (m_entries m). \<forall>ro. entry_view key ro (fst r) \<noteq> entry_view key ro m \<longrightarrow> entry_signal key ro \<in> set (snd r))"

lemma mutate_announces:
  assumes "honest f"
  shows "announces m (snd (mutate origin f m))"
proof -
  obtain c s where c: "f (m_session m) = (c, s)" by fastforce
  let ?m = "m\<lparr>m_session := s\<rparr>"
  have h: "before c = m_values (m_session m)" "after c = m_values s" "before_statuses c = m_statuses (m_session m)" "after_statuses c = m_statuses s"
    "\<not> accepted c \<Longrightarrow> m_values s = m_values (m_session m) \<and> m_statuses s = m_statuses (m_session m)"
    using assms c by (auto simp: honest_def dest: spec [of _ "m_session m"])
  have v: "entry_view key ro (fst (notifyChange c ?m)) = entry_view key ro ?m" for key ro by (rule view_cong) simp_all
  have n: "entry_signal key ro \<in> set (snd (notifyChange c ?m))" if "key \<in> set (m_entries m)" "entry_view key ro ?m \<noteq> entry_view key ro m" for key ro
  proof -
    have "accepted c" using that(2) h(5) view_cong [of ?m m key ro] by auto
    then show ?thesis by (rule notifyChange_notifies [where ?m0.0 = m]) (use h that in simp_all)
  qed
  show ?thesis using n v notifyChange_entries [of ?m c] by (auto simp: announces_def mutate_def c case_prod_beta)
qed

lemma announces_same: "m_values (m_session m') = m_values (m_session m) \<Longrightarrow> m_statuses (m_session m') = m_statuses (m_session m) \<Longrightarrow>
  set (m_entries m) \<subseteq> set (m_entries m') \<Longrightarrow> announces m (m', sg)"
  using view_cong [of m' m] by (simp add: announces_def)

lemma setStatuses_announces: "announces m (setStatuses st m)"
proof (cases "m_statuses (m_session m) = st")
  case True
  then show ?thesis by (simp add: setStatuses_def announces_same)
next
  case False
  have "ro = RStatus" if "entry_view key ro (fst (setStatuses st m)) \<noteq> entry_view key ro m" for key ro
    using that False by (cases ro) (simp_all add: setStatuses_def entry_value_def entry_enabled_def setting_address_def Let_def cong: if_cong)
  with False show ?thesis by (fastforce simp: announces_def setStatuses_def notifyStatusesChanged_def)
qed

lemma user_edit_announces: "default_proxy_laws env \<Longrightarrow> announces m (user_edit env e m)"
  by (cases e) (simp_all add: user_edit_def announces_same mutate_announces honest_apply)

lemma settings_step_announces: "default_proxy_laws env \<Longrightarrow> announces m (settings_step env op m)"
  by (cases op) (auto simp: user_edit_announces setStatuses_announces mutate_announces honest_edits markTouched_def intro!: announces_same)

text \<open>A binding on an entry lives while the entry does: a step of the model as the bindings on \<open>key\<close> see it.\<close>

definition entry_step :: "settings_env \<Rightarrow> string \<Rightarrow> settings_op \<Rightarrow> CoreSettingsModel \<Rightarrow> (CoreSettingsModel \<times> settings_event list) option" where
  "entry_step env key op m = (if key \<in> set (m_entries m) then Some (settings_step env op m) else None)"

lemma entry_notifying: "default_proxy_laws env \<Longrightarrow> notifying (entry_step env key) (entry_view key r) (entry_signal key r)"
proof
  fix op m m' sigs
  assume "default_proxy_laws env" "entry_step env key op m = Some (m', sigs)" "entry_view key r m' \<noteq> entry_view key r m"
  then show "entry_signal key r \<in> set sigs"
    using settings_step_announces [of env m op] by (auto simp: entry_step_def announces_def split: if_splits)
qed

lemma entry_run_defined:
  "default_proxy_laws env \<Longrightarrow> key \<in> set (m_entries m) \<Longrightarrow> \<exists>m' x'. binding_run (entry_step env key) v sg ops (m, x) = Some (m', x')"
proof (induction ops arbitrary: m x)
  case (Cons op ops)
  obtain m1 sigs where s: "settings_step env op m = (m1, sigs)" by fastforce
  have "key \<in> set (m_entries m1)" using settings_step_announces [OF Cons.prems(1), of m op] Cons.prems(2) s by (auto simp: announces_def)
  with Cons.IH [OF Cons.prems(1) this, of "if sg \<in> set sigs then v m1 else x"] Cons.prems s show ?case by (simp add: entry_step_def)
qed simp

section \<open>Properties\<close>

text \<open>
  C32: what a settings page shows is never stale. Take the entry of any setting and a QML binding on its value, its
  enabled flag, its address or its status, and run any sequence of operations: edits through the model or
  through entries, accepted or refused, recommendations, previews of another data directory, new statuses and new
  entries. The binding, which is evaluated again only when its signal is emitted, then shows the present value.
  This needs the default proxy location to be valid, because an edit that is refused announces nothing.
\<close>

theorem settings_bindings_coherent:
  assumes "default_proxy_laws env" "key \<in> set (m_entries m)"
  shows "\<exists>m'. binding_run (entry_step env key) (entry_view key r) (entry_signal key r) ops (m, entry_view key r m) = Some (m', entry_view key r m')"
proof -
  obtain m' x where run: "binding_run (entry_step env key) (entry_view key r) (entry_signal key r) ops (m, entry_view key r m) = Some (m', x)"
    using entry_run_defined [OF assms, of "entry_view key r" "entry_signal key r" ops "entry_view key r m"] by blast
  moreover have "x = entry_view key r m'" using notifying.binding_coherent [OF entry_notifying [OF assms(1)] run] .
  ultimately show ?thesis by blast
qed

theorem settings_bindings_coherent_witness:
  "\<exists>m'. binding_run (entry_step (example_env\<lparr>SplitHostPort := (\<lambda>_. Some (q ''127.0.0.1'')), NumericProxyValid := (\<lambda>_. True)\<rparr>) ''proxy'')
     (entry_view ''proxy'' RAddress) (entry_signal ''proxy'' RAddress)
     [OpCommitAddress ''proxy'' (q '' 10.0.0.1 ''), OpSetEnabled ''proxy'' True, OpClearTouchedSettings, OpPreview example_values []]
     (ensureEntry ''proxy'' (new_CoreSettingsModel new_Session),
      entry_view ''proxy'' RAddress (ensureEntry ''proxy'' (new_CoreSettingsModel new_Session))) =
   Some (m', entry_view ''proxy'' RAddress m')"
proof (rule settings_bindings_coherent)
  show "default_proxy_laws (example_env\<lparr>SplitHostPort := (\<lambda>_. Some (q ''127.0.0.1'')), NumericProxyValid := (\<lambda>_. True)\<rparr>)"
    by (simp add: default_proxy_laws_def example_env_def)
qed simp

end
