(* ===== verification/Options.thy ===== *)
theory Options
  imports SettingsModel
begin

text \<open>
  \<open>src/qml/models/options_model.{h,cpp}\<close>: the model behind the settings pages. The GUI thread changes what is shown at
  once and submits a command; the worker of its executor runs commands in order, each ending with a snapshot of all
  settings; a reply is applied only when no later command was submitted. The state is the object, what it persists to
  (\<open>world\<close>), the jobs that wait for the worker and the replies that wait for the GUI thread. The order in which the
  executor runs jobs and delivers replies is the one theory \<open>Executor\<close> proves; revisions are natural numbers.
\<close>

section \<open>Definitions\<close>

datatype gui_value = GText qstring | GInt int

type_synonym gui_settings = "string \<rightharpoonup> gui_value"

record world =
  w_settings :: settings
  w_gui :: gui_settings
  w_mapPort :: "bool option"

record options_env =
  e_core :: settings_env
  WriteSettingsFile :: "settings \<Rightarrow> file_result"
  other1 :: "settings \<Rightarrow> settings"
  other2 :: "settings \<Rightarrow> settings"
  other3 :: "settings \<Rightarrow> settings"
  forceSetting :: "string \<Rightarrow> UniValue \<Rightarrow> settings \<Rightarrow> settings"
  gui_sync :: "gui_settings \<Rightarrow> bool"
  gui_toInt :: "gui_value \<Rightarrow> int"
  gui_toString :: "gui_value \<Rightarrow> qstring"
  ReadLegacyGuiLanguage :: qstring
  ReadLegacyGuiDisplayUnit :: int
  GetArg_lang :: "settings \<Rightarrow> bytes"
  url_local_file :: "qstring \<Rightarrow> qstring option"
  homePath :: qstring
  isAbsolutePath :: "qstring \<Rightarrow> bool"
  file_exists :: "qstring \<Rightarrow> bool"
  file_isFile :: "qstring \<Rightarrow> bool"
  file_isExecutable :: "qstring \<Rightarrow> bool"
  NormalizeLocalPath :: "qstring \<Rightarrow> qstring"
  PersistGuiDataDirSelection :: "qstring \<Rightarrow> gui_settings \<Rightarrow> qstring \<times> gui_settings"
  PersistDefaultDataDirSelection :: "gui_settings \<Rightarrow> qstring \<times> gui_settings"
  ReadGuiDataDir :: "gui_settings \<Rightarrow> qstring"
  IsDefaultDataDir :: "qstring \<Rightarrow> bool"
  HasExplicitDataDirArg :: bool
  ActiveDataDir :: qstring
  DefaultDataDirString :: qstring

subsection \<open>Signer commands\<close>

definition NormalizeCommandPath :: "options_env \<Rightarrow> qstring \<Rightarrow> qstring" where
  "NormalizeCommandPath env path =
     (let trimmed_path = trimmed path
      in if trimmed_path = [] then [] else (case url_local_file env trimmed_path of None \<Rightarrow> trimmed_path | Some f \<Rightarrow> f))"

text \<open>A quoted part: a quote, at least one other character, and the closing quote.\<close>

definition quoted :: "nat \<Rightarrow> qstring \<Rightarrow> qstring option" where
  "quoted quote s =
     (case s of
        [] \<Rightarrow> None
      | c # cs \<Rightarrow>
          let inner = takeWhile (\<lambda>x. x \<noteq> quote) cs
          in if c = quote \<and> inner \<noteq> [] \<and> length inner < length cs then Some inner else None)"

definition FirstCommandToken :: "qstring \<Rightarrow> qstring" where
  "FirstCommandToken command =
     (let s = dropWhile re_space command
      in case quoted 34 s of
           Some t \<Rightarrow> t
         | None \<Rightarrow> (case quoted 39 s of Some t \<Rightarrow> t | None \<Rightarrow> takeWhile (\<lambda>c. \<not> re_space c) s))"

definition ExpandUserPath :: "options_env \<Rightarrow> qstring \<Rightarrow> qstring" where
  "ExpandUserPath env path =
     (if path = q ''~'' then homePath env
      else if take 2 path = q ''~/'' then homePath env @ drop 1 path
      else path)"

definition TokenLooksLikePath :: "options_env \<Rightarrow> qstring \<Rightarrow> bool" where
  "TokenLooksLikePath env token \<longleftrightarrow> take 1 token = q ''/'' \<or> take 2 token = q ''./'' \<or> take 3 token = q ''../'' \<or> take 2 token = q ''~/'' \<or>
     47 \<in> set token \<or> 92 \<in> set token \<or> isAbsolutePath env token"

definition SignerPathError :: "options_env \<Rightarrow> qstring \<Rightarrow> qstring" where
  "SignerPathError env normalized_path =
     (let token = FirstCommandToken normalized_path; f = ExpandUserPath env token
      in if normalized_path = [] then []
         else if token = [] \<or> \<not> TokenLooksLikePath env token then []
         else if \<not> file_exists env f then q ''The configured signer path does not exist.''
         else if \<not> file_isFile env f then q ''The configured signer path is not a file.''
         else if \<not> file_isExecutable env f then q ''The configured signer path is not executable.''
         else [])"

subsection \<open>Reading everything\<close>

definition KEY_LANGUAGE :: string where "KEY_LANGUAGE = ''language''"
definition KEY_DISPLAY_UNIT :: string where "KEY_DISPLAY_UNIT = ''DisplayBitcoinUnit''"
definition KEY_URLS :: string where "KEY_URLS = ''strThirdPartyTxUrls''"
definition KEY_MONEY_FONT :: string where "KEY_MONEY_FONT = ''FontForMoney''"
definition MONEY_FONT_EMBEDDED :: qstring where "MONEY_FONT_EMBEDDED = q ''embedded''"
definition MONEY_FONT_BEST_SYSTEM :: qstring where "MONEY_FONT_BEST_SYSTEM = q ''best_system''"

definition NormalizeDisplayUnit :: "int \<Rightarrow> int" where
  "NormalizeDisplayUnit u = (if u \<ge> 0 \<and> u \<le> 3 then u else 0)"

record Snapshot =
  s_core :: Values
  s_effective_core :: Values
  s_statuses :: statuses
  s_dbcache :: int
  s_mempool :: int
  s_effective_mempool :: int
  s_threads :: int
  s_signer :: qstring
  s_data_dir :: qstring
  s_default_data_dir :: qstring
  s_custom_data_dir :: qstring
  s_language :: qstring
  s_display_unit :: int
  s_transaction_urls :: qstring
  s_money_font :: qstring

definition saved_override :: "statuses \<Rightarrow> string \<Rightarrow> bool" where
  "saved_override st name = (case map_of st name of None \<Rightarrow> False | Some x \<Rightarrow> st_startupAdjusted x \<and> st_hasRwSetting x)"

definition display_value :: "settings_env \<Rightarrow> settings \<Rightarrow> statuses \<Rightarrow> string \<Rightarrow> UniValue" where
  "display_value env s st name = (if saved_override st name then GetPersistentSetting env s name else DisplaySettingValue env s name)"

definition read_language :: "options_env \<Rightarrow> world \<Rightarrow> qstring" where
  "read_language env w =
     (let c = e_core env; s = w_settings w;
          language = s_dec c (or_default [] (SettingToString c (DisplaySettingValue c s ''lang'')));
          language = (if language = [] \<and> \<not> IsCommandLineOverridden s ''lang''
                      then (case w_gui w KEY_LANGUAGE of None \<Rightarrow> ReadLegacyGuiLanguage env | Some v \<Rightarrow> gui_toString env v) else language);
          command_line_language = s_dec c (GetArg_lang env s)
      in if command_line_language \<noteq> [] then command_line_language else language)"

definition read_data_dir :: "options_env \<Rightarrow> gui_settings \<Rightarrow> qstring" where
  "read_data_dir env g =
     (if ActiveDataDir env \<noteq> [] \<and> (HasExplicitDataDirArg env \<or> IsDefaultDataDir env (ReadGuiDataDir env g)) then ActiveDataDir env else ReadGuiDataDir env g)"

definition readSnapshot :: "options_env \<Rightarrow> world \<Rightarrow> Snapshot option" where
  "readSnapshot env w = do {
     let c = e_core env;
     let s = w_settings w;
     core \<leftarrow> LoadDisplayValues c s;
     let st = BuildCoreSettingStatuses c s CoreSettingNames;
     let shown = display_value c s st;
     let core1 = (if saved_override st ''listen'' then core\<lparr>v_listen := or_default (v_listen core) (SettingToBool c (shown ''listen''))\<rparr> else core);
     let core2 = (if saved_override st ''natpmp'' then core1\<lparr>v_natpmp := or_default (v_natpmp core1) (SettingToBool c (shown ''natpmp''))\<rparr> else core1);
     let font = (case w_gui w KEY_MONEY_FONT of None \<Rightarrow> MONEY_FONT_EMBEDDED | Some v \<Rightarrow> gui_toString env v);
     let data_dir = read_data_dir env (w_gui w);
     Some \<lparr>s_core = core2, s_effective_core = core, s_statuses = st,
       s_dbcache = wrap_i32 (or_default (DEFAULT_DB_CACHE_MIB c) (SettingToInt c (shown ''dbcache''))),
       s_mempool = wrap_i32 (or_default (DEFAULT_MAX_MEMPOOL_SIZE_MB c) (SettingToInt c (shown ''maxmempool''))),
       s_effective_mempool = wrap_i32 (or_default (DEFAULT_MAX_MEMPOOL_SIZE_MB c) (SettingToInt c (DisplaySettingValue c s ''maxmempool''))),
       s_threads = wrap_i32 (or_default (DEFAULT_SCRIPTCHECK_THREADS c) (SettingToInt c (shown ''par''))),
       s_signer = s_dec c (or_default [] (SettingToString c (DisplaySettingValue c s ''signer''))),
       s_data_dir = data_dir, s_default_data_dir = DefaultDataDirString env,
       s_custom_data_dir = (if IsDefaultDataDir env data_dir then [] else data_dir),
       s_language = read_language env w,
       s_display_unit = NormalizeDisplayUnit (case w_gui w KEY_DISPLAY_UNIT of None \<Rightarrow> ReadLegacyGuiDisplayUnit env | Some v \<Rightarrow> gui_toInt env v),
       s_transaction_urls = (case w_gui w KEY_URLS of None \<Rightarrow> [] | Some v \<Rightarrow> gui_toString env v),
       s_money_font = (if font \<noteq> MONEY_FONT_EMBEDDED \<and> font \<noteq> MONEY_FONT_BEST_SYSTEM then MONEY_FONT_EMBEDDED else font)\<rparr>
   }"

subsection \<open>Commands of the worker\<close>

datatype command =
  CmdRead | CmdCore Values string | CmdOverride string UniValue | CmdSigner qstring | CmdLanguage qstring | CmdGui string gui_value

definition persist :: "options_env \<Rightarrow> string list \<Rightarrow> (settings \<Rightarrow> bool \<times> settings) \<Rightarrow> settings \<Rightarrow> bool \<times> qstring \<times> settings" where
  "persist env keys mutation s =
     PersistSettings (e_core env) keys (\<lambda>s. let (ok, s1) = mutation s in (Returned ok, s1)) (WriteSettingsFile env) (other1 env) (other2 env) (other3 env) s"

definition SaveGuiSetting :: "options_env \<Rightarrow> string \<Rightarrow> gui_value \<Rightarrow> gui_settings \<Rightarrow> qstring \<times> gui_settings" where
  "SaveGuiSetting env key v g =
     (if gui_sync env (g(key \<mapsto> v)) then ([], g(key \<mapsto> v))
      else (q ''Unable to save application settings.'', (g(key \<mapsto> v))(key := g key)))"

fun run_cmd :: "options_env \<Rightarrow> command \<Rightarrow> world \<Rightarrow> qstring \<times> world" where
  "run_cmd env CmdRead w = ([], w)"
| "run_cmd env (CmdCore v name) w =
     (let sess = new_Session_of v [];
          (saved, error, s) = persist env [name, name @ ''-prev''] (writeToArgs (e_core env) sess name) (w_settings w);
          w1 = w\<lparr>w_settings := s\<rparr>
      in (error, if saved \<and> name = ''natpmp'' then w1\<lparr>w_mapPort := Some (v_natpmp v)\<rparr> else w1))"
| "run_cmd env (CmdOverride name v) w =
     (let (saved, error, s) = persist env [name] (WriteCoreSettingOverride (e_core env) name v) (w_settings w);
          w1 = w\<lparr>w_settings := s\<rparr>
      in (error, if saved \<and> name = ''signer'' then w1\<lparr>w_settings := forceSetting env ''signer'' v (w_settings w1)\<rparr> else w1))"
| "run_cmd env (CmdSigner path) w =
     (if SignerPathError env path \<noteq> [] then (SignerPathError env path, w)
      else
        let v = (if path = [] then VNULL else VSTR (s_enc (e_core env) path));
            (saved, error, s) = persist env [''signer''] (WriteCoreSettingOverride (e_core env) ''signer'' v) (w_settings w)
        in (error, w\<lparr>w_settings := if saved then forceSetting env ''signer'' v s else s\<rparr>))"
| "run_cmd env (CmdLanguage language) w =
     (let (saved, error, s) = persist env [''lang''] (WriteCoreSettingOverride (e_core env) ''lang'' (VSTR (s_enc (e_core env) language))) (w_settings w);
          w1 = w\<lparr>w_settings := s\<rparr>
      in if saved then (let (error, g) = SaveGuiSetting env KEY_LANGUAGE (GText language) (w_gui w1) in (error, w1\<lparr>w_gui := g\<rparr>)) else (error, w1))"
| "run_cmd env (CmdGui key v) w = (let (error, g) = SaveGuiSetting env key v (w_gui w) in (error, w\<lparr>w_gui := g\<rparr>))"


subsection \<open>The model\<close>

record options =
  m_core_settings :: CoreSettingsModel
  m_core_setting_statuses :: statuses
  m_ready :: bool
  m_pending :: bool
  m_pending_commands :: nat
  m_command_revision :: nat
  m_stopping :: bool
  m_validation_pending :: bool
  m_error :: qstring
  m_dbcache_size_mib :: int
  m_max_mempool_size_mb :: int
  m_script_threads :: int
  m_external_signer_path :: qstring
  m_dataDir :: qstring
  m_default_data_dir :: qstring
  m_custom_datadir_string :: qstring
  m_validated_data_dir :: qstring
  m_data_dir_validation_error :: qstring
  m_language :: qstring
  m_display_unit :: int
  m_third_party_transaction_urls :: qstring
  m_money_font_choice :: qstring
  m_initial_core_values :: Values
  m_initial_dbcache_size_mib :: int
  m_initial_max_mempool_size_mb :: int
  m_initial_script_threads :: int
  m_initial_external_signer_path :: qstring
  m_requested_signer_path :: qstring
  m_signer_validation_revision :: nat
  m_signer_validation_pending :: bool
  m_signer_validation_in_flight :: bool
  m_validated_signer_path :: qstring
  m_signer_validation_error :: qstring

text \<open>A job of the executor with what its completion captures, and the reply it delivers; \<open>Inl\<close> is an exception.\<close>

datatype job = Job_command nat command | Job_data_dir qstring | Job_default_data_dir | Job_signer qstring nat

datatype reply =
  Reply_command nat "qstring + Snapshot \<times> qstring"
  | Reply_data_dir qstring "unit + qstring" | Reply_default_data_dir "unit + qstring"
  | Reply_signer qstring nat "unit + qstring"

record options_system =
  opt :: options
  sys_world :: world
  sys_jobs :: "job list"
  sys_replies :: "reply list"

definition empty_status :: CoreStatus where
  "empty_status = \<lparr>st_source = [], st_canEdit = True, st_commandLineOverridden = False, st_hasRwSetting = False, st_hasConfigSetting = False,
     st_createsGuiOverride = False, st_startupAdjusted = False, st_infoText = []\<rparr>"

definition coreSettingStatuses :: "options \<Rightarrow> statuses" where
  "coreSettingStatuses m =
     (if \<not> m_ready m \<or> m_stopping m then
        map (\<lambda>n. (n, (or_default empty_status (map_of (m_core_setting_statuses m) n))\<lparr>st_canEdit := False\<rparr>)) CoreSettingNames @
        filter (\<lambda>(n, _). n \<notin> set CoreSettingNames) (m_core_setting_statuses m)
      else m_core_setting_statuses m)"

definition CoreSettingStatusesForNames :: "statuses \<Rightarrow> string list \<Rightarrow> statuses" where
  "CoreSettingStatusesForNames st names = List.map_filter (\<lambda>n. map_option (Pair n) (map_of st n)) names"

definition refreshCoreSettingStatuses :: "options \<Rightarrow> options" where
  "refreshCoreSettingStatuses m =
     m\<lparr>m_core_settings := fst (setStatuses (CoreSettingStatusesForNames (coreSettingStatuses m) OnboardingCoreSettingNames) (m_core_settings m))\<rparr>"

definition setError :: "qstring \<Rightarrow> options \<Rightarrow> options" where
  "setError error m = (if m_error m = error then m else m\<lparr>m_error := error\<rparr>)"

definition setPending :: "bool \<Rightarrow> options \<Rightarrow> options" where
  "setPending pending m = (if m_pending m = pending then m else refreshCoreSettingStatuses (m\<lparr>m_pending := pending\<rparr>))"

definition runCommand :: "command \<Rightarrow> options_system \<Rightarrow> options_system" where
  "runCommand cmd sy =
     (let m = opt sy
      in if m_stopping m then sy
         else
           let m1 = (if m_pending_commands m = 0 then setError [] m else m);
               m2 = m1\<lparr>m_pending_commands := m_pending_commands m1 + 1, m_command_revision := m_command_revision m1 + 1\<rparr>;
               revision = m_command_revision m2;
               m3 = setPending True m2
           in sy\<lparr>opt := m3, sys_jobs := sys_jobs sy @ [Job_command revision cmd]\<rparr>)"

definition canEditCoreSetting :: "string \<Rightarrow> options \<Rightarrow> bool" where
  "canEditCoreSetting name m =
     (if \<not> m_ready m \<or> m_stopping m \<or> m_validation_pending m then False
      else (case map_of (coreSettingStatuses m) name of None \<Rightarrow> False | Some st \<Rightarrow> st_canEdit st))"

definition applyRuntimeCoreChange :: "Change \<Rightarrow> options_system \<Rightarrow> options_system" where
  "applyRuntimeCoreChange change sy =
     (if \<not> accepted change \<or> \<not> ValuesChanged change then sy else runCommand (CmdCore (after change) (setting_name change)) sy)"

text \<open>
  An edit of a session setting, from a setter of the model or an entry: the session changes and, when it accepted,
  the handler of the owner runs.
\<close>

definition edit_setting :: "options_env \<Rightarrow> session_edit \<Rightarrow> options_system \<Rightarrow> options_system" where
  "edit_setting env e sy =
     (let (change, core, _) = mutate User (apply_edit (e_core env) e) (m_core_settings (opt sy));
          sy1 = sy\<lparr>opt := (opt sy)\<lparr>m_core_settings := core\<rparr>\<rparr>
      in if accepted change then applyRuntimeCoreChange change sy1 else sy1)"

definition writeCoreSettingOverride :: "string \<Rightarrow> UniValue \<Rightarrow> options_system \<Rightarrow> options_system" where
  "writeCoreSettingOverride name v sy = (if \<not> canEditCoreSetting name (opt sy) then sy else runCommand (CmdOverride name v) sy)"

definition setDbcacheSizeMiB :: "int \<Rightarrow> options_system \<Rightarrow> options_system" where
  "setDbcacheSizeMiB n sy =
     (if \<not> canEditCoreSetting ''dbcache'' (opt sy) then sy
      else if n \<noteq> m_dbcache_size_mib (opt sy) then
        writeCoreSettingOverride ''dbcache'' (VNUM (number n)) (sy\<lparr>opt := (opt sy)\<lparr>m_dbcache_size_mib := n\<rparr>\<rparr>)
      else sy)"

definition setMaxMempoolSizeMB :: "int \<Rightarrow> options_system \<Rightarrow> options_system" where
  "setMaxMempoolSizeMB n sy =
     (if \<not> canEditCoreSetting ''maxmempool'' (opt sy) then sy
      else if n \<noteq> m_max_mempool_size_mb (opt sy) then
        writeCoreSettingOverride ''maxmempool'' (VNUM (number n)) (sy\<lparr>opt := (opt sy)\<lparr>m_max_mempool_size_mb := n\<rparr>\<rparr>)
      else sy)"

definition setScriptThreads :: "int \<Rightarrow> options_system \<Rightarrow> options_system" where
  "setScriptThreads n sy =
     (if \<not> canEditCoreSetting ''par'' (opt sy) then sy
      else if n \<noteq> m_script_threads (opt sy) then
        writeCoreSettingOverride ''par'' (VNUM (number n)) (sy\<lparr>opt := (opt sy)\<lparr>m_script_threads := n\<rparr>\<rparr>)
      else sy)"

definition setExternalSignerPath :: "options_env \<Rightarrow> qstring \<Rightarrow> options_system \<Rightarrow> options_system" where
  "setExternalSignerPath env path sy =
     (let normalized_path = NormalizeCommandPath env path
      in if \<not> canEditCoreSetting ''signer'' (opt sy) then sy
         else if normalized_path = m_external_signer_path (opt sy) then sy
         else runCommand (CmdSigner normalized_path) (sy\<lparr>opt := (opt sy)\<lparr>m_external_signer_path := normalized_path\<rparr>\<rparr>))"

definition setLanguage :: "qstring \<Rightarrow> options_system \<Rightarrow> options_system" where
  "setLanguage new_language sy =
     (if \<not> canEditCoreSetting ''lang'' (opt sy) \<or> new_language = m_language (opt sy) then sy
      else runCommand (CmdLanguage new_language) (sy\<lparr>opt := (opt sy)\<lparr>m_language := new_language\<rparr>\<rparr>))"

definition persistGuiSetting :: "string \<Rightarrow> gui_value \<Rightarrow> options_system \<Rightarrow> options_system" where
  "persistGuiSetting key v sy =
     (let m = opt sy in if \<not> m_ready m \<or> m_stopping m \<or> m_validation_pending m then sy else runCommand (CmdGui key v) sy)"

definition options_setDisplayUnit :: "int \<Rightarrow> options_system \<Rightarrow> options_system" where
  "options_setDisplayUnit u sy =
     (let u = NormalizeDisplayUnit u; m = opt sy
      in if \<not> m_ready m \<or> m_stopping m \<or> m_validation_pending m \<or> u = m_display_unit m then sy
         else persistGuiSetting KEY_DISPLAY_UNIT (GInt u) (sy\<lparr>opt := m\<lparr>m_display_unit := u\<rparr>\<rparr>))"

definition setThirdPartyTransactionUrls :: "qstring \<Rightarrow> options_system \<Rightarrow> options_system" where
  "setThirdPartyTransactionUrls urls sy =
     (let m = opt sy
      in if \<not> m_ready m \<or> m_stopping m \<or> m_validation_pending m \<or> urls = m_third_party_transaction_urls m then sy
         else persistGuiSetting KEY_URLS (GText urls) (sy\<lparr>opt := m\<lparr>m_third_party_transaction_urls := urls\<rparr>\<rparr>))"

definition setMoneyFontChoice :: "qstring \<Rightarrow> options_system \<Rightarrow> options_system" where
  "setMoneyFontChoice choice sy =
     (let normalized = (if choice = MONEY_FONT_BEST_SYSTEM then MONEY_FONT_BEST_SYSTEM else MONEY_FONT_EMBEDDED); m = opt sy
      in if \<not> m_ready m \<or> m_stopping m \<or> m_validation_pending m \<or> normalized = m_money_font_choice m then sy
         else persistGuiSetting KEY_MONEY_FONT (GText normalized) (sy\<lparr>opt := m\<lparr>m_money_font_choice := normalized\<rparr>\<rparr>))"

subsection \<open>Data directory and signer validation\<close>

definition setDataDir :: "options_env \<Rightarrow> qstring \<Rightarrow> options \<Rightarrow> options" where
  "setDataDir env d m =
     (let normalized = NormalizeLocalPath env d; effective = (if normalized = [] then m_default_data_dir m else normalized)
      in if effective = m_dataDir m then m else m\<lparr>m_dataDir := effective\<rparr>)"

definition selectCustomDataDir :: "options_env \<Rightarrow> qstring \<Rightarrow> options_system \<Rightarrow> bool \<times> options_system" where
  "selectCustomDataDir env path sy =
     (let m = opt sy
      in if \<not> m_ready m \<or> m_stopping m \<or> m_pending m \<or> m_validation_pending m then (False, sy)
         else (True, sy\<lparr>opt := setError [] (m\<lparr>m_validation_pending := True\<rparr>), sys_jobs := sys_jobs sy @ [Job_data_dir (NormalizeLocalPath env path)]\<rparr>))"

definition useDefaultDataDir :: "options_system \<Rightarrow> options_system" where
  "useDefaultDataDir sy =
     (let m = opt sy
      in if \<not> m_ready m \<or> m_stopping m \<or> m_pending m \<or> m_validation_pending m then sy
         else sy\<lparr>opt := m\<lparr>m_validation_pending := True\<rparr>, sys_jobs := sys_jobs sy @ [Job_default_data_dir]\<rparr>)"

definition DATA_DIR_ERROR :: qstring where "DATA_DIR_ERROR = q ''Unable to select the data directory.''"

definition data_dir_selected :: "options_env \<Rightarrow> qstring \<Rightarrow> unit + qstring \<Rightarrow> options \<Rightarrow> options" where
  "data_dir_selected env local_path r m =
     (case r of
        Inr error \<Rightarrow>
          let m1 = m\<lparr>m_validated_data_dir := local_path, m_data_dir_validation_error := error\<rparr>;
              m2 = (if error = [] then setDataDir env local_path (m1\<lparr>m_custom_datadir_string := local_path\<rparr>) else m1)
          in (setError error m2)\<lparr>m_validation_pending := False\<rparr>
      | Inl _ \<Rightarrow> (setError DATA_DIR_ERROR m)\<lparr>m_validation_pending := False\<rparr>)"

definition default_data_dir_selected :: "options_env \<Rightarrow> unit + qstring \<Rightarrow> options \<Rightarrow> options" where
  "default_data_dir_selected env r m =
     (case r of
        Inr error \<Rightarrow>
          let m1 = (if error = [] then setDataDir env (m_default_data_dir m) (m\<lparr>m_custom_datadir_string := []\<rparr>) else m)
          in (setError error m1)\<lparr>m_validation_pending := False\<rparr>
      | Inl _ \<Rightarrow> (setError DATA_DIR_ERROR m)\<lparr>m_validation_pending := False\<rparr>)"

text \<open>\<open>submit\<close> does nothing once the executor is shut down.\<close>

definition startSignerValidation :: "options_system \<Rightarrow> options_system" where
  "startSignerValidation sy =
     (let m = opt sy
      in sy\<lparr>opt := m\<lparr>m_signer_validation_in_flight := True\<rparr>,
            sys_jobs := sys_jobs sy @ (if m_stopping m then [] else [Job_signer (m_requested_signer_path m) (m_signer_validation_revision m)])\<rparr>)"

definition requestExternalSignerPathValidation :: "options_env \<Rightarrow> qstring \<Rightarrow> options_system \<Rightarrow> options_system" where
  "requestExternalSignerPathValidation env path sy =
     (let m = opt sy
      in if m_stopping m then sy
         else
           let sy1 = sy\<lparr>opt := m\<lparr>m_requested_signer_path := NormalizeCommandPath env path,
                 m_signer_validation_revision := m_signer_validation_revision m + 1, m_signer_validation_pending := True, m_signer_validation_error := []\<rparr>\<rparr>
           in if \<not> m_signer_validation_in_flight m then startSignerValidation sy1 else sy1)"

definition SIGNER_ERROR :: qstring where "SIGNER_ERROR = q ''Unable to validate the signer path.''"

definition signer_validated :: "qstring \<Rightarrow> nat \<Rightarrow> unit + qstring \<Rightarrow> options_system \<Rightarrow> options_system" where
  "signer_validated normalized revision r sy =
     (let m = (opt sy)\<lparr>m_signer_validation_in_flight := False\<rparr>; sy1 = sy\<lparr>opt := m\<rparr>
      in if revision \<noteq> m_signer_validation_revision m then startSignerValidation sy1
         else case r of
             Inr error \<Rightarrow> sy1\<lparr>opt := m\<lparr>m_validated_signer_path := normalized, m_signer_validation_error := error, m_signer_validation_pending := False\<rparr>\<rparr>
           | Inl _ \<Rightarrow> sy1\<lparr>opt := m\<lparr>m_signer_validation_error := SIGNER_ERROR, m_signer_validation_pending := False\<rparr>\<rparr>)"

definition externalSignerPathValidationError :: "options_env \<Rightarrow> qstring \<Rightarrow> options \<Rightarrow> qstring" where
  "externalSignerPathValidationError env path m =
     (if NormalizeCommandPath env path = m_validated_signer_path m then m_signer_validation_error m else [])"


subsection \<open>What needs a restart\<close>

definition connectionSettingsDirty :: "options \<Rightarrow> bool" where
  "connectionSettingsDirty m =
     (let v = m_values (m_session (m_core_settings m)); i = m_initial_core_values m in v_listen v \<noteq> v_listen i \<or> v_server v \<noteq> v_server i)"

definition storageSettingsDirty :: "options \<Rightarrow> bool" where
  "storageSettingsDirty m =
     (let v = m_values (m_session (m_core_settings m)); i = m_initial_core_values m
      in if v_prune v \<noteq> v_prune i then True else v_prune v \<and> v_prune_size_gb v \<noteq> v_prune_size_gb i)"

definition developerSettingsDirty :: "options \<Rightarrow> bool" where
  "developerSettingsDirty m \<longleftrightarrow> m_dbcache_size_mib m \<noteq> m_initial_dbcache_size_mib m \<or> m_script_threads m \<noteq> m_initial_script_threads m"

definition mempoolSettingsDirty :: "options \<Rightarrow> bool" where
  "mempoolSettingsDirty m \<longleftrightarrow> m_max_mempool_size_mb m \<noteq> m_initial_max_mempool_size_mb m"

definition proxySettingsDirty :: "options \<Rightarrow> bool" where
  "proxySettingsDirty m =
     (let v = m_values (m_session (m_core_settings m)); i = m_initial_core_values m
      in if v_proxy_enabled v \<noteq> v_proxy_enabled i then True
         else if v_proxy_enabled v \<and> v_proxy_address v \<noteq> v_proxy_address i then True
         else if v_tor_enabled v \<noteq> v_tor_enabled i then True
         else if v_tor_enabled v \<and> v_tor_address v \<noteq> v_tor_address i then True
         else False)"

definition walletSettingsDirty :: "options \<Rightarrow> bool" where
  "walletSettingsDirty m \<longleftrightarrow> m_external_signer_path m \<noteq> m_initial_external_signer_path m"

definition restartRequired :: "options \<Rightarrow> bool" where
  "restartRequired m \<longleftrightarrow> connectionSettingsDirty m \<or> storageSettingsDirty m \<or> developerSettingsDirty m \<or> mempoolSettingsDirty m \<or>
     proxySettingsDirty m \<or> walletSettingsDirty m"

definition resetDirtySnapshots :: "options \<Rightarrow> options" where
  "resetDirtySnapshots m = m\<lparr>m_initial_core_values := m_values (m_session (m_core_settings m)), m_initial_dbcache_size_mib := m_dbcache_size_mib m,
     m_initial_max_mempool_size_mb := m_max_mempool_size_mb m, m_initial_script_threads := m_script_threads m,
     m_initial_external_signer_path := m_external_signer_path m\<rparr>"

subsection \<open>Replies\<close>

definition clearTouchedSettings :: "CoreSettingsModel \<Rightarrow> CoreSettingsModel" where
  "clearTouchedSettings c = c\<lparr>m_session := (m_session c)\<lparr>m_touched_settings := {}\<rparr>\<rparr>"

definition applySnapshot :: "Snapshot \<Rightarrow> options \<Rightarrow> options" where
  "applySnapshot snap m =
     (let initial = (\<not> m_ready m);
          (_, core, _) = mutate Preview (applyPreviewValuesPreservingTouched (s_core snap) []) (clearTouchedSettings (m_core_settings m));
          m1 = m\<lparr>m_core_settings := core, m_core_setting_statuses := s_statuses snap, m_ready := True, m_dbcache_size_mib := s_dbcache snap,
            m_max_mempool_size_mb := s_mempool snap, m_script_threads := s_threads snap, m_external_signer_path := s_signer snap,
            m_dataDir := s_data_dir snap, m_default_data_dir := s_default_data_dir snap, m_custom_datadir_string := s_custom_data_dir snap,
            m_language := s_language snap, m_display_unit := s_display_unit snap, m_third_party_transaction_urls := s_transaction_urls snap,
            m_money_font_choice := s_money_font snap\<rparr>;
          m2 = (if initial then (resetDirtySnapshots m1)\<lparr>m_initial_core_values := s_effective_core snap, m_initial_max_mempool_size_mb := s_effective_mempool snap\<rparr>
                else m1)
      in refreshCoreSettingStatuses m2)"

definition finish_pending :: "options \<Rightarrow> options" where
  "finish_pending m =
     (let m1 = m\<lparr>m_pending_commands := m_pending_commands m - 1\<rparr> in if m_pending_commands m1 = 0 then setPending False m1 else m1)"

definition command_done :: "nat \<Rightarrow> qstring + Snapshot \<times> qstring \<Rightarrow> options \<Rightarrow> options" where
  "command_done revision r m =
     (case r of
        Inr (snap, error) \<Rightarrow>
          let m1 = (if revision = m_command_revision m then applySnapshot snap m else m);
              m2 = (if error \<noteq> [] then setError error m1 else m1)
          in finish_pending m2
      | Inl what \<Rightarrow> finish_pending (setError what m))"

fun deliver_reply_to :: "options_env \<Rightarrow> reply \<Rightarrow> options_system \<Rightarrow> options_system" where
  "deliver_reply_to env (Reply_command revision r) sy = sy\<lparr>opt := command_done revision r (opt sy)\<rparr>"
| "deliver_reply_to env (Reply_data_dir path r) sy = sy\<lparr>opt := data_dir_selected env path r (opt sy)\<rparr>"
| "deliver_reply_to env (Reply_default_data_dir r) sy = sy\<lparr>opt := default_data_dir_selected env r (opt sy)\<rparr>"
| "deliver_reply_to env (Reply_signer path revision r) sy = signer_validated path revision r sy"

subsection \<open>The worker\<close>

text \<open>
  The worker runs one job. \<open>what\<close> is the text of an exception that leaves the job after its work, for which
  \<open>runCommand\<close> uses a text of its own when it is no \<open>std::exception\<close>.
\<close>

fun run_job :: "options_env \<Rightarrow> qstring option \<Rightarrow> job \<Rightarrow> world \<Rightarrow> (reply \<times> world) option" where
  "run_job env what (Job_command revision cmd) w =
     (let (error, w1) = run_cmd env cmd w
      in case what of
           Some t \<Rightarrow> Some (Reply_command revision (Inl t), w1)
         | None \<Rightarrow> (case readSnapshot env w1 of None \<Rightarrow> None | Some snap \<Rightarrow> Some (Reply_command revision (Inr (snap, error)), w1)))"
| "run_job env what (Job_data_dir path) w =
     (case what of
        Some t \<Rightarrow> Some (Reply_data_dir path (Inl ()), w)
      | None \<Rightarrow> (let (error, g) = PersistGuiDataDirSelection env path (w_gui w) in Some (Reply_data_dir path (Inr error), w\<lparr>w_gui := g\<rparr>)))"
| "run_job env what Job_default_data_dir w =
     (case what of
        Some t \<Rightarrow> Some (Reply_default_data_dir (Inl ()), w)
      | None \<Rightarrow> (let (error, g) = PersistDefaultDataDirSelection env (w_gui w) in Some (Reply_default_data_dir (Inr error), w\<lparr>w_gui := g\<rparr>)))"
| "run_job env what (Job_signer path revision) w =
     Some (Reply_signer path revision (if what = None then Inr (SignerPathError env path) else Inl ()), w)"

subsection \<open>Everything that can happen\<close>

datatype options_event =
  EvEdit session_edit | EvEntry string | EvDbcache int | EvMempool int | EvThreads int | EvSigner qstring | EvLanguage qstring
  | EvUnit int | EvUrls qstring | EvFont qstring | EvSelectDir qstring | EvDefaultDir | EvCustomDir qstring | EvValidateSigner qstring
  | EvShutdown | EvWorker "qstring option" | EvDeliver

definition options_beginShutdown :: "options \<Rightarrow> options" where
  "options_beginShutdown m = (if m_stopping m then m else refreshCoreSettingStatuses (m\<lparr>m_stopping := True\<rparr>))"

text \<open>After \<open>shutdown\<close> the accepted jobs still run, but no completion is delivered.\<close>

fun options_step :: "options_env \<Rightarrow> options_event \<Rightarrow> options_system \<Rightarrow> options_system option" where
  "options_step env (EvEdit e) sy = Some (edit_setting env e sy)"
| "options_step env (EvEntry key) sy = Some (sy\<lparr>opt := (opt sy)\<lparr>m_core_settings := ensureEntry key (m_core_settings (opt sy))\<rparr>\<rparr>)"
| "options_step env (EvDbcache n) sy = Some (setDbcacheSizeMiB n sy)"
| "options_step env (EvMempool n) sy = Some (setMaxMempoolSizeMB n sy)"
| "options_step env (EvThreads n) sy = Some (setScriptThreads n sy)"
| "options_step env (EvSigner p) sy = Some (setExternalSignerPath env p sy)"
| "options_step env (EvLanguage l) sy = Some (setLanguage l sy)"
| "options_step env (EvUnit u) sy = Some (options_setDisplayUnit u sy)"
| "options_step env (EvUrls u) sy = Some (setThirdPartyTransactionUrls u sy)"
| "options_step env (EvFont f) sy = Some (setMoneyFontChoice f sy)"
| "options_step env (EvSelectDir d) sy = Some (snd (selectCustomDataDir env d sy))"
| "options_step env EvDefaultDir sy = Some (useDefaultDataDir sy)"
| "options_step env (EvCustomDir d) sy = Some (sy\<lparr>opt := (opt sy)\<lparr>m_custom_datadir_string := d\<rparr>\<rparr>)"
| "options_step env (EvValidateSigner p) sy = Some (requestExternalSignerPathValidation env p sy)"
| "options_step env EvShutdown sy = Some (sy\<lparr>opt := options_beginShutdown (opt sy)\<rparr>)"
| "options_step env (EvWorker what) sy =
     (case sys_jobs sy of
        [] \<Rightarrow> Some sy
      | job # jobs \<Rightarrow> (case run_job env what job (sys_world sy) of
            None \<Rightarrow> None
          | Some (r, w) \<Rightarrow> Some (sy\<lparr>sys_jobs := jobs, sys_world := w, sys_replies := sys_replies sy @ [r]\<rparr>)))"
| "options_step env EvDeliver sy =
     (case sys_replies sy of
        [] \<Rightarrow> Some sy
      | r # rs \<Rightarrow> if m_stopping (opt sy) then Some (sy\<lparr>sys_replies := rs\<rparr>) else Some (deliver_reply_to env r (sy\<lparr>sys_replies := rs\<rparr>)))"

fun options_run :: "options_env \<Rightarrow> options_event list \<Rightarrow> options_system \<Rightarrow> options_system option" where
  "options_run env [] sy = Some sy"
| "options_run env (e # es) sy = (case options_step env e sy of None \<Rightarrow> None | Some sy1 \<Rightarrow> options_run env es sy1)"

definition new_options :: "options_env \<Rightarrow> options" where
  "new_options env = (let c = e_core env in
     \<lparr>m_core_settings = new_CoreSettingsModel new_Session, m_core_setting_statuses = [], m_ready = False, m_pending = False, m_pending_commands = 0,
      m_command_revision = 0, m_stopping = False, m_validation_pending = False, m_error = [],
      m_dbcache_size_mib = DEFAULT_DB_CACHE_MIB c, m_max_mempool_size_mb = DEFAULT_MAX_MEMPOOL_SIZE_MB c,
      m_script_threads = DEFAULT_SCRIPTCHECK_THREADS c, m_external_signer_path = [], m_dataDir = [], m_default_data_dir = [], m_custom_datadir_string = [],
      m_validated_data_dir = [], m_data_dir_validation_error = [], m_language = [], m_display_unit = 0, m_third_party_transaction_urls = [],
      m_money_font_choice = [], m_initial_core_values = default_values, m_initial_dbcache_size_mib = DEFAULT_DB_CACHE_MIB c,
      m_initial_max_mempool_size_mb = DEFAULT_MAX_MEMPOOL_SIZE_MB c, m_initial_script_threads = DEFAULT_SCRIPTCHECK_THREADS c,
      m_initial_external_signer_path = [], m_requested_signer_path = [], m_signer_validation_revision = 0, m_signer_validation_pending = False,
      m_signer_validation_in_flight = False, m_validated_signer_path = [], m_signer_validation_error = []\<rparr>)"

text \<open>The constructor: the statuses forbid every edit until the first command has read the settings.\<close>

definition new_OptionsModel :: "options_env \<Rightarrow> world \<Rightarrow> options_system" where
  "new_OptionsModel env w =
     runCommand CmdRead \<lparr>opt = refreshCoreSettingStatuses (resetDirtySnapshots (new_options env)), sys_world = w, sys_jobs = [], sys_replies = []\<rparr>"


section \<open>What the model shows\<close>

abbreviation values_of :: "options \<Rightarrow> Values" where
  "values_of m \<equiv> m_values (m_session (m_core_settings m))"

text \<open>The saved settings of a snapshot: all of it but the data directories, which have a path of their own to the model.\<close>

definition settings_part :: "Snapshot \<Rightarrow> Snapshot" where
  "settings_part s = s\<lparr>s_data_dir := [], s_default_data_dir := [], s_custom_data_dir := []\<rparr>"

definition agrees :: "options_env \<Rightarrow> world \<Rightarrow> Snapshot \<Rightarrow> bool" where
  "agrees env w snap \<longleftrightarrow> map_option settings_part (readSnapshot env w) = Some (settings_part snap)"

definition shows_snapshot :: "Snapshot \<Rightarrow> options \<Rightarrow> bool" where
  "shows_snapshot s m \<longleftrightarrow> values_of m = s_core s \<and> m_core_setting_statuses m = s_statuses s \<and> m_dbcache_size_mib m = s_dbcache s \<and>
     m_max_mempool_size_mb m = s_mempool s \<and> m_script_threads m = s_threads s \<and> m_external_signer_path m = s_signer s \<and>
     m_language m = s_language s \<and> m_display_unit m = s_display_unit s \<and> m_third_party_transaction_urls m = s_transaction_urls s \<and>
     m_money_font_choice m = s_money_font s"

text \<open>The data directories of a snapshot.\<close>

definition shows_directories :: "Snapshot \<Rightarrow> options \<Rightarrow> bool" where
  "shows_directories s m \<longleftrightarrow> m_dataDir m = s_data_dir s \<and> m_default_data_dir m = s_default_data_dir s \<and> m_custom_datadir_string m = s_custom_data_dir s"

lemma shows_part: "settings_part s = settings_part t \<Longrightarrow> shows_snapshot s m = shows_snapshot t m"
  by (cases s; cases t) (simp add: settings_part_def shows_snapshot_def)

text \<open>Commands between submission and delivery, oldest first.\<close>

fun reply_revision :: "reply \<Rightarrow> nat option" where
  "reply_revision (Reply_command r x) = Some r"
| "reply_revision _ = None"

fun job_revision :: "job \<Rightarrow> nat option" where
  "job_revision (Job_command r x) = Some r"
| "job_revision _ = None"

definition inflight :: "options_system \<Rightarrow> nat list" where
  "inflight sy = List.map_filter reply_revision (sys_replies sy) @ List.map_filter job_revision (sys_jobs sy)"

definition command_protocol :: "options_system \<Rightarrow> bool" where
  "command_protocol sy \<longleftrightarrow> m_pending_commands (opt sy) = length (inflight sy) \<and> (m_pending (opt sy) \<longleftrightarrow> inflight sy \<noteq> []) \<and>
     sorted_wrt (<) (inflight sy) \<and> (\<forall>r\<in>set (inflight sy). r \<le> m_command_revision (opt sy)) \<and>
     (inflight sy \<noteq> [] \<longrightarrow> last (inflight sy) = m_command_revision (opt sy))"

definition statuses_ok :: "options \<Rightarrow> bool" where
  "statuses_ok m \<longleftrightarrow> m_statuses (m_session (m_core_settings m)) = CoreSettingStatusesForNames (coreSettingStatuses m) OnboardingCoreSettingNames"

definition replies_ok :: "options_env \<Rightarrow> options_system \<Rightarrow> bool" where
  "replies_ok env sy \<longleftrightarrow> (\<forall>r x. Reply_command r x \<in> set (sys_replies sy) \<longrightarrow> (\<exists>snap error. x = Inr (snap, error) \<and>
     (r = m_command_revision (opt sy) \<longrightarrow> agrees env (sys_world sy) snap)))"

definition settled :: "options_env \<Rightarrow> options_system \<Rightarrow> bool" where
  "settled env sy \<longleftrightarrow> m_ready (opt sy) \<and> (\<exists>snap. agrees env (sys_world sy) snap \<and> shows_snapshot snap (opt sy))"

definition options_inv :: "options_env \<Rightarrow> options_system \<Rightarrow> bool" where
  "options_inv env sy \<longleftrightarrow> command_protocol sy \<and> statuses_ok (opt sy) \<and> replies_ok env sy \<and> (inflight sy = [] \<longrightarrow> settled env sy)"

section \<open>Preservation\<close>

lemma setStatuses_sel [simp]:
  "m_statuses (m_session (fst (setStatuses st c))) = st" "m_values (m_session (fst (setStatuses st c))) = m_values (m_session c)"
  by (simp_all add: setStatuses_def Let_def)

lemma shows_upd [simp]:
  "shows_snapshot s (m\<lparr>m_pending := b\<rparr>) = shows_snapshot s m" "shows_snapshot s (m\<lparr>m_error := e\<rparr>) = shows_snapshot s m"
  "shows_snapshot s (m\<lparr>m_pending_commands := n\<rparr>) = shows_snapshot s m" "shows_snapshot s (m\<lparr>m_validation_pending := b\<rparr>) = shows_snapshot s m"
  by (simp_all add: shows_snapshot_def)

lemma refresh_sel [simp]:
  "m_core_setting_statuses (refreshCoreSettingStatuses m) = m_core_setting_statuses m" "m_ready (refreshCoreSettingStatuses m) = m_ready m"
  "m_stopping (refreshCoreSettingStatuses m) = m_stopping m" "m_pending (refreshCoreSettingStatuses m) = m_pending m"
  "m_pending_commands (refreshCoreSettingStatuses m) = m_pending_commands m" "m_command_revision (refreshCoreSettingStatuses m) = m_command_revision m"
  "values_of (refreshCoreSettingStatuses m) = values_of m" "shows_snapshot s (refreshCoreSettingStatuses m) = shows_snapshot s m"
  by (simp_all add: refreshCoreSettingStatuses_def shows_snapshot_def)

lemma coreSettingStatuses_cong:
  "m_core_setting_statuses m = m_core_setting_statuses m' \<Longrightarrow> m_ready m = m_ready m' \<Longrightarrow> m_stopping m = m_stopping m' \<Longrightarrow>
   coreSettingStatuses m = coreSettingStatuses m'"
  unfolding coreSettingStatuses_def by presburger

lemma statuses_ok_cong:
  "m_core_settings m' = m_core_settings m \<Longrightarrow> m_core_setting_statuses m' = m_core_setting_statuses m \<Longrightarrow> m_ready m' = m_ready m \<Longrightarrow>
   m_stopping m' = m_stopping m \<Longrightarrow> statuses_ok m' = statuses_ok m"
  using coreSettingStatuses_cong [of m' m] by (simp add: statuses_ok_def)

lemma statuses_ok_refresh [simp]: "statuses_ok (refreshCoreSettingStatuses m)"
  using coreSettingStatuses_cong [of "refreshCoreSettingStatuses m" m] by (simp add: statuses_ok_def) (simp add: refreshCoreSettingStatuses_def)

lemma setPending_sel [simp]:
  "m_core_setting_statuses (setPending b m) = m_core_setting_statuses m" "m_ready (setPending b m) = m_ready m" "m_stopping (setPending b m) = m_stopping m"
  "m_pending (setPending b m) = b" "m_pending_commands (setPending b m) = m_pending_commands m" "m_command_revision (setPending b m) = m_command_revision m"
  "shows_snapshot s (setPending b m) = shows_snapshot s m"
  by (simp_all add: setPending_def)

lemma statuses_ok_setPending: "statuses_ok m \<Longrightarrow> statuses_ok (setPending b m)"
  by (simp add: setPending_def)

lemma statuses_upd [simp]:
  "statuses_ok (m\<lparr>m_error := e\<rparr>) = statuses_ok m" "statuses_ok (m\<lparr>m_pending_commands := n\<rparr>) = statuses_ok m"
  "statuses_ok (m\<lparr>m_command_revision := n\<rparr>) = statuses_ok m" "statuses_ok (m\<lparr>m_validation_pending := b\<rparr>) = statuses_ok m"
  by (rule statuses_ok_cong; simp)+

lemma setError_sel [simp]:
  "m_core_settings (setError e m) = m_core_settings m"
  "m_core_setting_statuses (setError e m) = m_core_setting_statuses m" "m_ready (setError e m) = m_ready m" "m_stopping (setError e m) = m_stopping m"
  "m_pending (setError e m) = m_pending m" "m_pending_commands (setError e m) = m_pending_commands m" "m_command_revision (setError e m) = m_command_revision m"
  "shows_snapshot s (setError e m) = shows_snapshot s m" "statuses_ok (setError e m) = statuses_ok m"
  by (simp_all add: setError_def)

lemma map_filter_append [simp]: "List.map_filter f (xs @ ys) = List.map_filter f xs @ List.map_filter f ys"
  by (simp add: List.map_filter_def)

lemma map_filter_Cons: "List.map_filter f (x # xs) = (case f x of None \<Rightarrow> List.map_filter f xs | Some y \<Rightarrow> y # List.map_filter f xs)"
  by (auto simp: List.map_filter_def split: option.splits)

lemma map_filter_Nil [simp]: "List.map_filter f [] = []"
  by (simp add: List.map_filter_def)

lemma runCommand_inv:
  assumes "command_protocol sy" "statuses_ok (opt sy)" "replies_ok env sy" "\<not> m_stopping (opt sy)"
  shows "options_inv env (runCommand cmd sy) \<and> \<not> m_stopping (opt (runCommand cmd sy))"
proof -
  let ?sy = "runCommand cmd sy"
  have f: "inflight ?sy = inflight sy @ [m_command_revision (opt sy) + 1]" "m_command_revision (opt ?sy) = m_command_revision (opt sy) + 1"
    "m_pending_commands (opt ?sy) = m_pending_commands (opt sy) + 1" "m_pending (opt ?sy)" "\<not> m_stopping (opt ?sy)" "sys_replies ?sy = sys_replies sy"
    using assms(4) by (simp_all add: runCommand_def Let_def inflight_def map_filter_Cons)
  have "command_protocol ?sy" using assms(1) f by (auto simp: command_protocol_def sorted_wrt_append less_Suc_eq_le)
  moreover have "statuses_ok (opt ?sy)" using assms(2,4) by (simp add: runCommand_def Let_def statuses_ok_setPending)
  moreover have "r \<le> m_command_revision (opt sy)" if "Reply_command r x \<in> set (sys_replies sy)" for r x
  proof -
    have "r \<in> set (inflight sy)" using that by (force simp: inflight_def List.map_filter_def)
    then show ?thesis using assms(1) by (auto simp: command_protocol_def)
  qed
  then have "replies_ok env ?sy" using assms(3) f unfolding replies_ok_def by fastforce
  ultimately show ?thesis using f by (simp add: options_inv_def)
qed


text \<open>A change of the object that leaves the protocol's fields alone.\<close>

definition same_control :: "options \<Rightarrow> options \<Rightarrow> bool" where
  "same_control m m' \<longleftrightarrow> m_pending m' = m_pending m \<and> m_pending_commands m' = m_pending_commands m \<and> m_command_revision m' = m_command_revision m \<and>
     m_stopping m' = m_stopping m"

lemma same_control_protocol:
  "same_control (opt sy) m' \<Longrightarrow> command_protocol (sy\<lparr>opt := m'\<rparr>) = command_protocol sy" "same_control (opt sy) m' \<Longrightarrow> replies_ok env (sy\<lparr>opt := m'\<rparr>) = replies_ok env sy"
  by (simp_all add: same_control_def command_protocol_def replies_ok_def inflight_def)

lemma options_submit_inv:
  assumes "options_inv env sy" "\<not> m_stopping (opt sy)" "same_control (opt sy) m'" "statuses_ok m'"
  shows "options_inv env (runCommand cmd (sy\<lparr>opt := m'\<rparr>))"
  using assms by (intro runCommand_inv [THEN conjunct1]) (simp_all add: options_inv_def same_control_protocol, simp add: same_control_def)

lemma canEdit_ready: "canEditCoreSetting n m \<Longrightarrow> m_ready m \<and> \<not> m_stopping m \<and> \<not> m_validation_pending m"
  by (simp add: canEditCoreSetting_def split: if_splits)

text \<open>What every operation of the GUI thread must keep.\<close>

definition keeps_inv :: "options_env \<Rightarrow> (options_system \<Rightarrow> options_system) \<Rightarrow> bool" where
  "keeps_inv env f \<longleftrightarrow> (\<forall>sy. (m_stopping (opt sy) \<longrightarrow> m_stopping (opt (f sy))) \<and> (m_stopping (opt sy) \<or> options_inv env sy \<longrightarrow> m_stopping (opt (f sy)) \<or> options_inv env (f sy)))"

lemma keeps_setter:
  assumes "\<And>sy. f sy = (if guard (opt sy) then sy else runCommand cmd (sy\<lparr>opt := upd (opt sy)\<rparr>))"
    "\<And>m. \<not> guard m \<Longrightarrow> \<not> m_stopping m" "\<And>m. same_control m (upd m)" "\<And>m. statuses_ok (upd m) = statuses_ok m"
  shows "keeps_inv env f"
  unfolding keeps_inv_def
proof (intro allI)
  fix sy :: options_system
  show "(m_stopping (opt sy) \<longrightarrow> m_stopping (opt (f sy))) \<and> (m_stopping (opt sy) \<or> options_inv env sy \<longrightarrow> m_stopping (opt (f sy)) \<or> options_inv env (f sy))"
  proof (cases "guard (opt sy)")
    case True
    then show ?thesis using assms(1) by simp
  next
    case False
    moreover have "\<not> m_stopping (opt sy)" using False by (rule assms(2))
    moreover have "options_inv env sy \<Longrightarrow> options_inv env (f sy)"
      using options_submit_inv [of env sy "upd (opt sy)" cmd] assms False by (simp add: options_inv_def)
    ultimately show ?thesis by simp
  qed
qed

lemma overrides_submit: "canEditCoreSetting n m' \<Longrightarrow> writeCoreSettingOverride n v (sy\<lparr>opt := m'\<rparr>) = runCommand (CmdOverride n v) (sy\<lparr>opt := m'\<rparr>)"
  by (simp add: writeCoreSettingOverride_def)

lemma canEdit_upd [simp]:
  "canEditCoreSetting n (m\<lparr>m_dbcache_size_mib := x\<rparr>) = canEditCoreSetting n m" "canEditCoreSetting n (m\<lparr>m_max_mempool_size_mb := x\<rparr>) = canEditCoreSetting n m"
  "canEditCoreSetting n (m\<lparr>m_script_threads := x\<rparr>) = canEditCoreSetting n m"
  by (simp_all add: canEditCoreSetting_def coreSettingStatuses_def)

lemma statuses_upd2 [simp]:
  "statuses_ok (m\<lparr>m_dbcache_size_mib := x\<rparr>) = statuses_ok m" "statuses_ok (m\<lparr>m_max_mempool_size_mb := x\<rparr>) = statuses_ok m"
  "statuses_ok (m\<lparr>m_script_threads := x\<rparr>) = statuses_ok m" "statuses_ok (m\<lparr>m_external_signer_path := y\<rparr>) = statuses_ok m"
  "statuses_ok (m\<lparr>m_language := y\<rparr>) = statuses_ok m" "statuses_ok (m\<lparr>m_display_unit := x\<rparr>) = statuses_ok m"
  "statuses_ok (m\<lparr>m_third_party_transaction_urls := y\<rparr>) = statuses_ok m" "statuses_ok (m\<lparr>m_money_font_choice := y\<rparr>) = statuses_ok m"
  by (rule statuses_ok_cong; simp)+

lemma keeps_numbers: "keeps_inv env (setDbcacheSizeMiB n)" "keeps_inv env (setMaxMempoolSizeMB n)" "keeps_inv env (setScriptThreads n)"
proof -
  show "keeps_inv env (setDbcacheSizeMiB n)"
    by (rule keeps_setter [where guard = "\<lambda>m. \<not> canEditCoreSetting ''dbcache'' m \<or> n = m_dbcache_size_mib m" and upd = "m_dbcache_size_mib_update (\<lambda>_. n)"
        and cmd = "CmdOverride ''dbcache'' (VNUM (number n))"])
      (auto simp: setDbcacheSizeMiB_def overrides_submit same_control_def dest: canEdit_ready)
  show "keeps_inv env (setMaxMempoolSizeMB n)"
    by (rule keeps_setter [where guard = "\<lambda>m. \<not> canEditCoreSetting ''maxmempool'' m \<or> n = m_max_mempool_size_mb m" and upd = "m_max_mempool_size_mb_update (\<lambda>_. n)"
        and cmd = "CmdOverride ''maxmempool'' (VNUM (number n))"])
      (auto simp: setMaxMempoolSizeMB_def overrides_submit same_control_def dest: canEdit_ready)
  show "keeps_inv env (setScriptThreads n)"
    by (rule keeps_setter [where guard = "\<lambda>m. \<not> canEditCoreSetting ''par'' m \<or> n = m_script_threads m" and upd = "m_script_threads_update (\<lambda>_. n)"
        and cmd = "CmdOverride ''par'' (VNUM (number n))"])
      (auto simp: setScriptThreads_def overrides_submit same_control_def dest: canEdit_ready)
qed

lemma keeps_texts: "keeps_inv env (setExternalSignerPath env p)" "keeps_inv env (setLanguage l)"
proof -
  show "keeps_inv env (setExternalSignerPath env p)"
    by (rule keeps_setter [where guard = "\<lambda>m. \<not> canEditCoreSetting ''signer'' m \<or> NormalizeCommandPath env p = m_external_signer_path m"
        and upd = "m_external_signer_path_update (\<lambda>_. NormalizeCommandPath env p)" and cmd = "CmdSigner (NormalizeCommandPath env p)"])
      (auto simp: setExternalSignerPath_def Let_def same_control_def dest: canEdit_ready)
  show "keeps_inv env (setLanguage l)"
    by (rule keeps_setter [where guard = "\<lambda>m. \<not> canEditCoreSetting ''lang'' m \<or> l = m_language m" and upd = "m_language_update (\<lambda>_. l)" and cmd = "CmdLanguage l"])
      (auto simp: setLanguage_def same_control_def dest: canEdit_ready)
qed

lemma keeps_gui: "keeps_inv env (options_setDisplayUnit u)" "keeps_inv env (setThirdPartyTransactionUrls l)" "keeps_inv env (setMoneyFontChoice l)"
proof -
  let ?g = "\<lambda>m. \<not> m_ready m \<or> m_stopping m \<or> m_validation_pending m"
  let ?f = "if l = MONEY_FONT_BEST_SYSTEM then MONEY_FONT_BEST_SYSTEM else MONEY_FONT_EMBEDDED"
  show "keeps_inv env (options_setDisplayUnit u)"
    by (rule keeps_setter [where guard = "\<lambda>m. ?g m \<or> NormalizeDisplayUnit u = m_display_unit m" and upd = "m_display_unit_update (\<lambda>_. NormalizeDisplayUnit u)"
        and cmd = "CmdGui KEY_DISPLAY_UNIT (GInt (NormalizeDisplayUnit u))"])
      (auto simp: options_setDisplayUnit_def persistGuiSetting_def Let_def same_control_def)
  show "keeps_inv env (setThirdPartyTransactionUrls l)"
    by (rule keeps_setter [where guard = "\<lambda>m. ?g m \<or> l = m_third_party_transaction_urls m" and upd = "m_third_party_transaction_urls_update (\<lambda>_. l)"
        and cmd = "CmdGui KEY_URLS (GText l)"])
      (auto simp: setThirdPartyTransactionUrls_def persistGuiSetting_def Let_def same_control_def)
  show "keeps_inv env (setMoneyFontChoice l)"
    by (rule keeps_setter [where guard = "\<lambda>m. ?g m \<or> ?f = m_money_font_choice m" and upd = "m_money_font_choice_update (\<lambda>_. ?f)"
        and cmd = "CmdGui KEY_MONEY_FONT (GText ?f)"])
      (simp_all add: setMoneyFontChoice_def persistGuiSetting_def Let_def same_control_def)
qed


text \<open>Steps that leave commands, shown settings and the world alone.\<close>

definition unnoticed :: "options_system \<Rightarrow> options_system \<Rightarrow> bool" where
  "unnoticed sy sy' \<longleftrightarrow> same_control (opt sy) (opt sy') \<and> inflight sy' = inflight sy \<and> sys_world sy' = sys_world sy \<and>
     (\<forall>r x. Reply_command r x \<in> set (sys_replies sy') \<longrightarrow> Reply_command r x \<in> set (sys_replies sy)) \<and> m_ready (opt sy') = m_ready (opt sy) \<and>
     (statuses_ok (opt sy) \<longrightarrow> statuses_ok (opt sy')) \<and> (\<forall>s. shows_snapshot s (opt sy') = shows_snapshot s (opt sy))"

lemma unnoticed_inv: "unnoticed sy sy' \<Longrightarrow> options_inv env sy \<Longrightarrow> options_inv env sy'"
  unfolding unnoticed_def options_inv_def same_control_def command_protocol_def replies_ok_def settled_def by metis

lemma keeps_unnoticed: "(\<And>sy. unnoticed sy (f sy)) \<Longrightarrow> keeps_inv env f"
  using unnoticed_inv unfolding keeps_inv_def by (metis unnoticed_def same_control_def)

lemma apply_edit_statuses: "m_statuses (snd (apply_edit env e s)) = m_statuses s"
  by (cases e) (simp_all add: session_ops changeProxyEnabled_def changeTorEnabled_def changeProxyLocation_def changeTorLocation_def markTouched_def Let_def)

lemma mutate_sel:
  "fst (mutate origin f c) = fst (f (m_session c))" "m_session (fst (snd (mutate origin f c))) = snd (f (m_session c))"
  by (simp_all add: mutate_def case_prod_beta)

lemma statuses_ok_core:
  "m_statuses (m_session core) = m_statuses (m_session (m_core_settings m)) \<Longrightarrow> statuses_ok (m\<lparr>m_core_settings := core\<rparr>) = statuses_ok m"
  using coreSettingStatuses_cong [of "m\<lparr>m_core_settings := core\<rparr>" m] by (simp add: statuses_ok_def)

lemma keeps_edit:
  assumes "default_proxy_laws (e_core env)"
  shows "keeps_inv env (edit_setting env e)"
  unfolding keeps_inv_def
proof (intro allI conjI)
  fix sy :: options_system
  obtain c s where cs: "apply_edit (e_core env) e (m_session (m_core_settings (opt sy))) = (c, s)" by fastforce
  obtain core ev where core: "mutate User (apply_edit (e_core env) e) (m_core_settings (opt sy)) = (c, core, ev)" "m_session core = s"
    using mutate_sel [of User "apply_edit (e_core env) e" "m_core_settings (opt sy)"] cs
    by (cases "mutate User (apply_edit (e_core env) e) (m_core_settings (opt sy))") (auto simp: prod_eq_iff)
  let ?m = "(opt sy)\<lparr>m_core_settings := core\<rparr>"
  have f: "edit_setting env e sy = (if accepted c \<and> ValuesChanged c then runCommand (CmdCore (after c) (setting_name c)) (sy\<lparr>opt := ?m\<rparr>) else sy\<lparr>opt := ?m\<rparr>)"
    using core by (simp add: edit_setting_def applyRuntimeCoreChange_def Let_def)
  then show "m_stopping (opt sy) \<longrightarrow> m_stopping (opt (edit_setting env e sy))" by (simp add: runCommand_def)
  have st: "m_statuses s = m_statuses (m_session (m_core_settings (opt sy)))" using apply_edit_statuses [of "e_core env" e "m_session (m_core_settings (opt sy))"] cs by simp
  have h: "before c = values_of (opt sy)" "after c = m_values s" "\<not> accepted c \<longrightarrow> m_values s = values_of (opt sy)"
    using honest_apply [OF assms, of e] cs by (auto simp: honest_def dest: spec [of _ "m_session (m_core_settings (opt sy))"])
  have ok: "statuses_ok ?m = statuses_ok (opt sy)" using st core(2) by (intro statuses_ok_core) simp
  show "m_stopping (opt sy) \<or> options_inv env sy \<longrightarrow> m_stopping (opt (edit_setting env e sy)) \<or> options_inv env (edit_setting env e sy)"
  proof (cases "m_stopping (opt sy)")
    case True
    then show ?thesis by (simp add: f runCommand_def)
  next
    case False
    have "options_inv env (edit_setting env e sy)" if inv: "options_inv env sy"
    proof (cases "accepted c \<and> ValuesChanged c")
      case True
      then show ?thesis using options_submit_inv [OF inv False, of ?m] inv ok f by (simp add: same_control_def options_inv_def)
    next
      case same: False
      then have "m_values s = values_of (opt sy)" using h by (auto simp: ValuesChanged_def)
      then have "unnoticed sy (sy\<lparr>opt := ?m\<rparr>)" using ok core(2) by (simp add: unnoticed_def same_control_def inflight_def shows_snapshot_def)
      from unnoticed_inv [OF this inv] show ?thesis using same f by auto
    qed
    with False show ?thesis by simp
  qed
qed


lemma upd_directories [simp]:
  "shows_snapshot s (m\<lparr>m_custom_datadir_string := x\<rparr>) = shows_snapshot s m" "shows_snapshot s (m\<lparr>m_dataDir := x\<rparr>) = shows_snapshot s m"
  "shows_snapshot s (m\<lparr>m_validated_data_dir := x\<rparr>) = shows_snapshot s m" "shows_snapshot s (m\<lparr>m_data_dir_validation_error := x\<rparr>) = shows_snapshot s m"
  "statuses_ok (m\<lparr>m_custom_datadir_string := x\<rparr>) = statuses_ok m" "statuses_ok (m\<lparr>m_dataDir := x\<rparr>) = statuses_ok m"
  "statuses_ok (m\<lparr>m_validated_data_dir := x\<rparr>) = statuses_ok m" "statuses_ok (m\<lparr>m_data_dir_validation_error := x\<rparr>) = statuses_ok m"
  by (simp_all add: shows_snapshot_def cong: statuses_ok_cong)

lemma upd_signer [simp]:
  "shows_snapshot s (m\<lparr>m_requested_signer_path := x\<rparr>) = shows_snapshot s m" "shows_snapshot s (m\<lparr>m_signer_validation_revision := n\<rparr>) = shows_snapshot s m"
  "shows_snapshot s (m\<lparr>m_signer_validation_pending := b\<rparr>) = shows_snapshot s m" "shows_snapshot s (m\<lparr>m_signer_validation_in_flight := b\<rparr>) = shows_snapshot s m"
  "shows_snapshot s (m\<lparr>m_validated_signer_path := x\<rparr>) = shows_snapshot s m" "shows_snapshot s (m\<lparr>m_signer_validation_error := x\<rparr>) = shows_snapshot s m"
  "statuses_ok (m\<lparr>m_requested_signer_path := x\<rparr>) = statuses_ok m" "statuses_ok (m\<lparr>m_signer_validation_revision := n\<rparr>) = statuses_ok m"
  "statuses_ok (m\<lparr>m_signer_validation_pending := b\<rparr>) = statuses_ok m" "statuses_ok (m\<lparr>m_signer_validation_in_flight := b\<rparr>) = statuses_ok m"
  "statuses_ok (m\<lparr>m_validated_signer_path := x\<rparr>) = statuses_ok m" "statuses_ok (m\<lparr>m_signer_validation_error := x\<rparr>) = statuses_ok m"
  by (simp_all add: shows_snapshot_def) (rule statuses_ok_cong; simp)+

lemma keeps_other:
  "keeps_inv env (\<lambda>sy. sy\<lparr>opt := (opt sy)\<lparr>m_core_settings := ensureEntry key (m_core_settings (opt sy))\<rparr>\<rparr>)"
  "keeps_inv env (\<lambda>sy. sy\<lparr>opt := (opt sy)\<lparr>m_custom_datadir_string := d\<rparr>\<rparr>)"
  "keeps_inv env (\<lambda>sy. snd (selectCustomDataDir env d sy))" "keeps_inv env useDefaultDataDir"
  "keeps_inv env (requestExternalSignerPathValidation env d)"
  by (rule keeps_unnoticed; simp add: unnoticed_def same_control_def inflight_def map_filter_Cons statuses_ok_core selectCustomDataDir_def useDefaultDataDir_def
    requestExternalSignerPathValidation_def startSignerValidation_def Let_def; simp add: shows_snapshot_def)+

lemma shutdown_stops: "m_stopping (options_beginShutdown m)"
  by (simp add: options_beginShutdown_def)


text \<open>
  What the code relies on of the functions that save a data directory: they leave the other application settings alone.
\<close>

definition gui_keys :: "string set" where
  "gui_keys = {KEY_LANGUAGE, KEY_DISPLAY_UNIT, KEY_URLS, KEY_MONEY_FONT}"

definition data_dir_laws :: "options_env \<Rightarrow> bool" where
  "data_dir_laws env \<longleftrightarrow> (\<forall>p g. \<forall>k\<in>gui_keys. snd (PersistGuiDataDirSelection env p g) k = g k \<and> snd (PersistDefaultDataDirSelection env g) k = g k)"

lemma agrees_gui: "(\<And>k. k \<in> gui_keys \<Longrightarrow> g k = w_gui w k) \<Longrightarrow> agrees env (w\<lparr>w_gui := g\<rparr>) snap = agrees env w snap"
  unfolding agrees_def readSnapshot_def read_language_def gui_keys_def Let_def settings_part_def
  by (cases "LoadDisplayValues (e_core env) (w_settings w)") simp_all

lemma clearTouched_sel [simp]:
  "m_values (m_session (clearTouchedSettings c)) = m_values (m_session c)" "m_touched_settings (m_session (clearTouchedSettings c)) = {}"
  by (simp_all add: clearTouchedSettings_def)

lemma preview_values_untouched: "preview_values {} v w = v"
  by (rule Values.equality) simp_all

lemma resetDirty_sel [simp]: "shows_snapshot s (resetDirtySnapshots m) = shows_snapshot s m" "m_ready (resetDirtySnapshots m) = m_ready m"
  "same_control m (resetDirtySnapshots m)"
  by (simp_all add: resetDirtySnapshots_def shows_snapshot_def same_control_def)

lemma applySnapshot_sel:
  "shows_snapshot snap (applySnapshot snap m)" "m_ready (applySnapshot snap m)" "statuses_ok (applySnapshot snap m)" "same_control m (applySnapshot snap m)"
proof -
  obtain c core ev where p: "mutate Preview (applyPreviewValuesPreservingTouched (s_core snap) []) (clearTouchedSettings (m_core_settings m)) = (c, core, ev)"
    by (metis prod_cases3)
  have "m_session core = snd (applyPreviewValuesPreservingTouched (s_core snap) [] (m_session (clearTouchedSettings (m_core_settings m))))"
    using mutate_sel(2) [of Preview "applyPreviewValuesPreservingTouched (s_core snap) []" "clearTouchedSettings (m_core_settings m)"] p by simp
  then have v: "m_values (m_session core) = s_core snap"
    by (simp add: applyPreviewValuesPreservingTouched_def Let_def preview_values_untouched)
  show "shows_snapshot snap (applySnapshot snap m)" using v
    by (simp add: applySnapshot_def p Let_def) (simp add: shows_snapshot_def resetDirtySnapshots_def)
  show "m_ready (applySnapshot snap m)" "statuses_ok (applySnapshot snap m)" "same_control m (applySnapshot snap m)"
    by (simp_all add: applySnapshot_def p Let_def resetDirtySnapshots_def same_control_def)
qed


lemma inflight_reply: "Reply_command r x \<in> set (sys_replies sy) \<Longrightarrow> r \<in> set (inflight sy)"
  by (force simp: inflight_def List.map_filter_def)

lemma finish_pending_sel:
  "m_pending_commands (finish_pending m) = m_pending_commands m - 1" "m_command_revision (finish_pending m) = m_command_revision m"
  "m_stopping (finish_pending m) = m_stopping m" "m_ready (finish_pending m) = m_ready m" "shows_snapshot s (finish_pending m) = shows_snapshot s m"
  "statuses_ok m \<Longrightarrow> statuses_ok (finish_pending m)" "m_pending (finish_pending m) = (m_pending m \<and> 1 < m_pending_commands m)"
  if "m_pending m \<longleftrightarrow> 0 < m_pending_commands m"
  using that by (auto simp: finish_pending_def Let_def statuses_ok_setPending)

lemma deliver_command_inv:
  assumes inv: "options_inv env sy" and r: "sys_replies sy = Reply_command r x # rs" and ns: "\<not> m_stopping (opt sy)"
  shows "options_inv env (sy\<lparr>sys_replies := rs, opt := command_done r x (opt sy)\<rparr>) \<and> \<not> m_stopping (command_done r x (opt sy))"
proof -
  let ?m = "opt sy" let ?rest = "inflight (sy\<lparr>sys_replies := rs\<rparr>)"
  have inf: "inflight sy = r # ?rest" by (simp add: inflight_def r map_filter_Cons)
  have pr: "command_protocol sy" and ro: "replies_ok env sy" and so: "statuses_ok ?m" using inv by (simp_all add: options_inv_def)
  obtain snap error where x: "x = Inr (snap, error)" and ag: "r = m_command_revision ?m \<Longrightarrow> agrees env (sys_world sy) snap"
    using ro [unfolded replies_ok_def, rule_format, of r x] r by auto
  have p: "m_pending ?m" "m_pending_commands ?m = Suc (length ?rest)" "sorted_wrt (<) ?rest" "\<forall>y\<in>set ?rest. r < y \<and> y \<le> m_command_revision ?m"
    "last (r # ?rest) = m_command_revision ?m"
    using pr unfolding command_protocol_def inf by auto
  have last: "r = m_command_revision ?m \<longleftrightarrow> ?rest = []"
  proof (cases "?rest = []")
    case False
    then have "r < last ?rest" using p(4) last_in_set by blast
    with False p(5) show ?thesis by simp
  qed (use p(5) in simp)
  define m1 where "m1 = (if error \<noteq> [] then setError error (if r = m_command_revision ?m then applySnapshot snap ?m else ?m)
      else (if r = m_command_revision ?m then applySnapshot snap ?m else ?m))"
  have m1: "same_control ?m m1" "statuses_ok m1" "r = m_command_revision ?m \<Longrightarrow> shows_snapshot snap m1 \<and> m_ready m1"
    using so applySnapshot_sel [where snap = snap and m = ?m] by (simp_all add: m1_def same_control_def)
  have d: "command_done r x ?m = finish_pending m1" by (simp add: command_done_def x m1_def Let_def)
  have pend: "m_pending m1 \<longleftrightarrow> 0 < m_pending_commands m1" using m1(1) p by (simp add: same_control_def)
  note f = finish_pending_sel [OF pend]
  have i: "inflight (sy\<lparr>sys_replies := rs, opt := finish_pending m1\<rparr>) = ?rest" by (simp add: inflight_def)
  have "command_protocol (sy\<lparr>sys_replies := rs, opt := finish_pending m1\<rparr>)"
    unfolding command_protocol_def i using m1(1) p by (auto simp: f same_control_def)
  moreover have "replies_ok env (sy\<lparr>sys_replies := rs, opt := finish_pending m1\<rparr>)"
    using ro r m1(1) by (simp add: replies_ok_def f same_control_def)
  moreover have "settled env (sy\<lparr>sys_replies := rs, opt := finish_pending m1\<rparr>)" if "?rest = []"
    using that last ag m1(3) by (auto simp: settled_def f)
  ultimately show ?thesis using m1(1,2) ns unfolding d options_inv_def i by (simp add: f same_control_def)
qed


lemma setDataDir_sel [simp]:
  "shows_snapshot s (setDataDir env d m) = shows_snapshot s m" "statuses_ok (setDataDir env d m) = statuses_ok m" "m_ready (setDataDir env d m) = m_ready m"
  "m_pending (setDataDir env d m) = m_pending m" "m_pending_commands (setDataDir env d m) = m_pending_commands m"
  "m_command_revision (setDataDir env d m) = m_command_revision m" "m_stopping (setDataDir env d m) = m_stopping m"
  by (simp_all add: setDataDir_def Let_def)

lemma deliver_other:
  "sys_replies sy = Reply_data_dir d y # rs \<Longrightarrow> unnoticed sy (deliver_reply_to env (Reply_data_dir d y) (sy\<lparr>sys_replies := rs\<rparr>))"
  "sys_replies sy = Reply_default_data_dir y # rs \<Longrightarrow> unnoticed sy (deliver_reply_to env (Reply_default_data_dir y) (sy\<lparr>sys_replies := rs\<rparr>))"
  "sys_replies sy = Reply_signer d n y # rs \<Longrightarrow> unnoticed sy (deliver_reply_to env (Reply_signer d n y) (sy\<lparr>sys_replies := rs\<rparr>))"
proof -
  show "unnoticed sy (deliver_reply_to env (Reply_data_dir d y) (sy\<lparr>sys_replies := rs\<rparr>))" if "sys_replies sy = Reply_data_dir d y # rs"
    using that by (cases y) (simp_all add: unnoticed_def same_control_def inflight_def map_filter_Cons data_dir_selected_def Let_def)
  show "unnoticed sy (deliver_reply_to env (Reply_default_data_dir y) (sy\<lparr>sys_replies := rs\<rparr>))" if "sys_replies sy = Reply_default_data_dir y # rs"
    using that by (cases y) (simp_all add: unnoticed_def same_control_def inflight_def map_filter_Cons default_data_dir_selected_def Let_def)
  show "unnoticed sy (deliver_reply_to env (Reply_signer d n y) (sy\<lparr>sys_replies := rs\<rparr>))" if "sys_replies sy = Reply_signer d n y # rs"
    using that by (cases y) (simp_all add: unnoticed_def same_control_def inflight_def map_filter_Cons signer_validated_def startSignerValidation_def Let_def)
qed

lemma options_deliver_inv:
  assumes "options_inv env sy" "sys_replies sy = r # rs" "\<not> m_stopping (opt sy)"
  shows "options_inv env (deliver_reply_to env r (sy\<lparr>sys_replies := rs\<rparr>))"
proof (cases r)
  case (Reply_command n x)
  then show ?thesis using deliver_command_inv [of env sy n x rs] assms by simp
qed (use assms deliver_other [of sy] unnoticed_inv [of sy] in \<open>metis\<close>)+

lemma run_command_job:
  assumes inv: "options_inv env sy" and j: "sys_jobs sy = Job_command n cmd # jobs"
    and run: "run_job env None (Job_command n cmd) (sys_world sy) = Some (r, w)"
  shows "options_inv env (sy\<lparr>sys_jobs := jobs, sys_world := w, sys_replies := sys_replies sy @ [r]\<rparr>)"
proof -
  let ?sy = "sy\<lparr>sys_jobs := jobs, sys_world := w, sys_replies := sys_replies sy @ [r]\<rparr>"
  obtain snap error where r: "r = Reply_command n (Inr (snap, error))" and ag: "agrees env w snap"
    using run by (auto simp: agrees_def split: prod.splits option.splits)
  have i: "inflight ?sy = inflight sy" by (simp add: inflight_def j r map_filter_Cons)
  have pr: "command_protocol sy" and ro: "replies_ok env sy" using inv by (simp_all add: options_inv_def)
  have "k \<noteq> m_command_revision (opt sy)" if "Reply_command k x \<in> set (sys_replies sy)" for k x
  proof -
    have "k \<in> set (List.map_filter reply_revision (sys_replies sy))" using that by (force simp: List.map_filter_def)
    moreover have "inflight sy = List.map_filter reply_revision (sys_replies sy) @ n # List.map_filter job_revision jobs"
      by (simp add: inflight_def j map_filter_Cons)
    ultimately have "k < n" "n \<le> m_command_revision (opt sy)" using pr by (auto simp: command_protocol_def sorted_wrt_append)
    then show ?thesis by simp
  qed
  then have "replies_ok env ?sy" using ro ag r by (auto simp: replies_ok_def)
  moreover have "inflight sy \<noteq> []" by (simp add: inflight_def j map_filter_Cons)
  ultimately show ?thesis using inv i by (simp add: options_inv_def command_protocol_def)
qed

lemma world_inv:
  assumes "options_inv env sy" "\<And>snap. agrees env (sys_world sy) snap \<Longrightarrow> agrees env w snap" "reply_revision r = None"
    "sys_jobs sy = j # jobs" "job_revision j = None"
  shows "options_inv env (sy\<lparr>sys_jobs := jobs, sys_world := w, sys_replies := sys_replies sy @ [r]\<rparr>)"
proof -
  have i: "inflight (sy\<lparr>sys_jobs := jobs, sys_world := w, sys_replies := sys_replies sy @ [r]\<rparr>) = inflight sy"
    using assms(3-5) by (simp add: inflight_def map_filter_Cons)
  have "r \<noteq> Reply_command k x" for k x using assms(3) by auto
  then have "replies_ok env (sy\<lparr>sys_jobs := jobs, sys_world := w, sys_replies := sys_replies sy @ [r]\<rparr>)"
    using assms(1,2) unfolding options_inv_def replies_ok_def by simp blast
  moreover have "settled env (sy\<lparr>sys_jobs := jobs, sys_world := w, sys_replies := sys_replies sy @ [r]\<rparr>)" if "settled env sy"
    using that assms(2) unfolding settled_def by auto
  ultimately show ?thesis using assms(1) i by (simp add: options_inv_def command_protocol_def)
qed

lemma options_worker_inv:
  assumes inv: "options_inv env sy" and laws: "data_dir_laws env" and j: "sys_jobs sy = job # jobs" and run: "run_job env None job (sys_world sy) = Some (r, w)"
  shows "options_inv env (sy\<lparr>sys_jobs := jobs, sys_world := w, sys_replies := sys_replies sy @ [r]\<rparr>)"
proof (cases job)
  case (Job_command n cmd)
  then show ?thesis using run_command_job [OF inv] j run by simp
next
  case (Job_data_dir d)
  have "agrees env ((sys_world sy)\<lparr>w_gui := snd (PersistGuiDataDirSelection env d (w_gui (sys_world sy)))\<rparr>) snap = agrees env (sys_world sy) snap" for snap
    using laws by (intro agrees_gui) (simp add: data_dir_laws_def)
  with Job_data_dir run show ?thesis by (intro world_inv [OF inv _ _ j]) (auto split: prod.splits)
next
  case Job_default_data_dir
  have "agrees env ((sys_world sy)\<lparr>w_gui := snd (PersistDefaultDataDirSelection env (w_gui (sys_world sy)))\<rparr>) snap = agrees env (sys_world sy) snap" for snap
    using laws by (intro agrees_gui) (simp add: data_dir_laws_def)
  with Job_default_data_dir run show ?thesis by (intro world_inv [OF inv _ _ j]) (auto split: prod.splits)
next
  case (Job_signer d n)
  with run show ?thesis by (intro world_inv [OF inv _ _ j]) auto
qed

definition no_exception :: "options_event \<Rightarrow> bool" where
  "no_exception e \<longleftrightarrow> (case e of EvWorker (Some t) \<Rightarrow> False | _ \<Rightarrow> True)"

lemma keepsD: "keeps_inv env f \<Longrightarrow> m_stopping (opt sy) \<or> options_inv env sy \<Longrightarrow> m_stopping (opt (f sy)) \<or> options_inv env (f sy)"
  unfolding keeps_inv_def by blast

definition is_gui_event :: "options_event \<Rightarrow> bool" where
  "is_gui_event e \<longleftrightarrow> (case e of EvWorker _ \<Rightarrow> False | EvDeliver \<Rightarrow> False | EvShutdown \<Rightarrow> False | _ \<Rightarrow> True)"

lemma gui_step:
  assumes "default_proxy_laws (e_core env)" "is_gui_event e"
  shows "\<exists>f. keeps_inv env f \<and> (\<forall>sy. options_step env e sy = Some (f sy))"
proof (cases e)
  case (EvEdit x) then show ?thesis using keeps_edit [OF assms(1)] by (intro exI [of _ "edit_setting env x"]) simp
next
  case (EvEntry x) then show ?thesis using keeps_other(1)
    by (intro exI [of _ "\<lambda>sy. sy\<lparr>opt := (opt sy)\<lparr>m_core_settings := ensureEntry x (m_core_settings (opt sy))\<rparr>\<rparr>"]) simp
next
  case (EvDbcache x) then show ?thesis using keeps_numbers(1) by (intro exI [of _ "setDbcacheSizeMiB x"]) simp
next
  case (EvMempool x) then show ?thesis using keeps_numbers(2) by (intro exI [of _ "setMaxMempoolSizeMB x"]) simp
next
  case (EvThreads x) then show ?thesis using keeps_numbers(3) by (intro exI [of _ "setScriptThreads x"]) simp
next
  case (EvSigner x) then show ?thesis using keeps_texts(1) by (intro exI [of _ "setExternalSignerPath env x"]) simp
next
  case (EvLanguage x) then show ?thesis using keeps_texts(2) by (intro exI [of _ "setLanguage x"]) simp
next
  case (EvUnit x) then show ?thesis using keeps_gui(1) by (intro exI [of _ "options_setDisplayUnit x"]) simp
next
  case (EvUrls x) then show ?thesis using keeps_gui(2) by (intro exI [of _ "setThirdPartyTransactionUrls x"]) simp
next
  case (EvFont x) then show ?thesis using keeps_gui(3) by (intro exI [of _ "setMoneyFontChoice x"]) simp
next
  case (EvSelectDir x) then show ?thesis using keeps_other(3) by (intro exI [of _ "\<lambda>sy. snd (selectCustomDataDir env x sy)"]) simp
next
  case EvDefaultDir then show ?thesis using keeps_other(4) by (intro exI [of _ useDefaultDataDir]) simp
next
  case (EvCustomDir x) then show ?thesis using keeps_other(2) by (intro exI [of _ "\<lambda>sy. sy\<lparr>opt := (opt sy)\<lparr>m_custom_datadir_string := x\<rparr>\<rparr>"]) simp
next
  case (EvValidateSigner x) then show ?thesis using keeps_other(5) by (intro exI [of _ "requestExternalSignerPathValidation env x"]) simp
qed (use assms(2) in \<open>simp_all add: is_gui_event_def\<close>)

lemma options_step_inv:
  assumes laws: "default_proxy_laws (e_core env)" "data_dir_laws env" and inv: "m_stopping (opt sy) \<or> options_inv env sy"
    and step: "options_step env e sy = Some sy'" and e: "no_exception e"
  shows "m_stopping (opt sy') \<or> options_inv env sy'"
proof (cases "is_gui_event e")
  case True
  then obtain f where f: "keeps_inv env f" "options_step env e sy = Some (f sy)" using gui_step [OF laws(1)] by blast
  with step keepsD [OF f(1) inv] show ?thesis by simp
next
  case False
  then consider "e = EvWorker None" | "e = EvDeliver" | "e = EvShutdown"
    using e by (cases e) (auto simp: is_gui_event_def no_exception_def split: option.splits)
  then show ?thesis
  proof cases
    case 1
    with step inv options_worker_inv [OF _ laws(2)] show ?thesis by (auto split: list.splits option.splits prod.splits)
  next
    case 2
    with step inv options_deliver_inv show ?thesis by (auto split: list.splits if_splits)
  next
    case 3
    with step shutdown_stops show ?thesis by auto
  qed
qed

lemma options_run_inv:
  assumes "default_proxy_laws (e_core env)" "data_dir_laws env" "list_all no_exception es" "options_run env es sy = Some sy'" "m_stopping (opt sy) \<or> options_inv env sy"
  shows "m_stopping (opt sy') \<or> options_inv env sy'"
  using assms(3-5)
proof (induction es arbitrary: sy)
  case (Cons e es)
  then obtain sy1 where "options_step env e sy = Some sy1" "options_run env es sy1 = Some sy'" by (auto split: option.splits)
  with Cons options_step_inv [OF assms(1,2) Cons.prems(3)] show ?case by auto
qed simp

lemma new_options_inv: "options_inv env (new_OptionsModel env w)"
  unfolding new_OptionsModel_def
  by (rule runCommand_inv [THEN conjunct1]) (simp_all add: command_protocol_def inflight_def replies_ok_def resetDirtySnapshots_def new_options_def Let_def)


section \<open>The data directories\<close>

text \<open>
  A chosen directory has a path of its own to the model, and does not always come back from the next reading. Where none was chosen, the
  directories are those of the last reading, like everything else.
\<close>

fun directory_event :: "options_event \<Rightarrow> bool" where
  "directory_event (EvSelectDir d) = True"
| "directory_event EvDefaultDir = True"
| "directory_event (EvCustomDir d) = True"
| "directory_event _ = False"

fun other_job :: "job \<Rightarrow> bool" where
  "other_job (Job_data_dir d) = False"
| "other_job Job_default_data_dir = False"
| "other_job _ = True"

fun other_reply :: "reply \<Rightarrow> bool" where
  "other_reply (Reply_data_dir d x) = False"
| "other_reply (Reply_default_data_dir x) = False"
| "other_reply _ = True"

definition same_dirs :: "options \<Rightarrow> options \<Rightarrow> bool" where
  "same_dirs m m' \<longleftrightarrow> m_dataDir m' = m_dataDir m \<and> m_default_data_dir m' = m_default_data_dir m \<and> m_custom_datadir_string m' = m_custom_datadir_string m"

lemma same_dirs_shows: "same_dirs m m' \<Longrightarrow> shows_directories s m' = shows_directories s m"
  by (simp add: same_dirs_def shows_directories_def)

text \<open>A call of the GUI thread that only submits commands.\<close>

definition dirs_kept :: "options_system \<Rightarrow> options_system \<Rightarrow> bool" where
  "dirs_kept sy sy' \<longleftrightarrow> same_dirs (opt sy) (opt sy') \<and> sys_world sy' = sys_world sy \<and> sys_replies sy' = sys_replies sy \<and>
     (list_all other_job (sys_jobs sy) \<longrightarrow> list_all other_job (sys_jobs sy')) \<and>
     (m_command_revision (opt sy') = m_command_revision (opt sy) \<and> inflight sy' = inflight sy \<or>
      m_command_revision (opt sy') > m_command_revision (opt sy) \<and> inflight sy' \<noteq> [])"

definition dirs_inv :: "options_env \<Rightarrow> options_system \<Rightarrow> bool" where
  "dirs_inv env sy \<longleftrightarrow> list_all other_job (sys_jobs sy) \<and> list_all other_reply (sys_replies sy) \<and>
     (\<forall>snap error. Reply_command (m_command_revision (opt sy)) (Inr (snap, error)) \<in> set (sys_replies sy) \<longrightarrow> readSnapshot env (sys_world sy) = Some snap) \<and>
     (inflight sy = [] \<longrightarrow> (\<exists>snap. readSnapshot env (sys_world sy) = Some snap \<and> shows_directories snap (opt sy)))"

lemma dirs_kept_refl: "dirs_kept sy sy"
  by (simp add: dirs_kept_def same_dirs_def)

lemma dirs_sel [simp]:
  "m_dataDir (refreshCoreSettingStatuses m) = m_dataDir m" "m_default_data_dir (refreshCoreSettingStatuses m) = m_default_data_dir m"
  "m_custom_datadir_string (refreshCoreSettingStatuses m) = m_custom_datadir_string m"
  "m_dataDir (setPending b m) = m_dataDir m" "m_default_data_dir (setPending b m) = m_default_data_dir m" "m_custom_datadir_string (setPending b m) = m_custom_datadir_string m"
  "m_dataDir (setError e m) = m_dataDir m" "m_default_data_dir (setError e m) = m_default_data_dir m" "m_custom_datadir_string (setError e m) = m_custom_datadir_string m"
  by (simp_all add: refreshCoreSettingStatuses_def setPending_def setError_def)

lemma runCommand_dirs:
  assumes "same_dirs (opt sy) m" "m_command_revision m = m_command_revision (opt sy)"
  shows "dirs_kept sy (runCommand cmd (sy\<lparr>opt := m\<rparr>))"
proof (cases "m_stopping m")
  case True
  then show ?thesis using assms by (simp add: runCommand_def dirs_kept_def inflight_def)
next
  case False
  then show ?thesis using assms by (simp add: runCommand_def dirs_kept_def same_dirs_def inflight_def map_filter_Cons Let_def)
qed

lemma changed_dirs: "same_dirs (opt sy) m \<Longrightarrow> m_command_revision m = m_command_revision (opt sy) \<Longrightarrow> dirs_kept sy (sy\<lparr>opt := m\<rparr>)"
  by (simp add: dirs_kept_def inflight_def)

lemma edit_dirs: "dirs_kept sy (edit_setting env e sy)"
proof -
  obtain c core ev where core: "mutate User (apply_edit (e_core env) e) (m_core_settings (opt sy)) = (c, core, ev)" by (metis prod_cases3)
  let ?m = "(opt sy)\<lparr>m_core_settings := core\<rparr>"
  have "dirs_kept sy (sy\<lparr>opt := ?m\<rparr>)" by (simp add: dirs_kept_def same_dirs_def inflight_def)
  moreover have "dirs_kept sy (runCommand cmd (sy\<lparr>opt := ?m\<rparr>))" for cmd by (rule runCommand_dirs) (simp_all add: same_dirs_def)
  ultimately show ?thesis by (simp add: edit_setting_def core applyRuntimeCoreChange_def Let_def)
qed

lemma override_dirs:
  assumes "same_dirs (opt sy) m" "m_command_revision m = m_command_revision (opt sy)"
  shows "dirs_kept sy (writeCoreSettingOverride n v (sy\<lparr>opt := m\<rparr>))" "dirs_kept sy (persistGuiSetting k x (sy\<lparr>opt := m\<rparr>))"
  using runCommand_dirs [OF assms] changed_dirs [OF assms] by (simp_all add: writeCoreSettingOverride_def persistGuiSetting_def Let_def)

lemma setter_dirs:
  "dirs_kept sy (setDbcacheSizeMiB n sy)" "dirs_kept sy (setMaxMempoolSizeMB n sy)" "dirs_kept sy (setScriptThreads n sy)" "dirs_kept sy (setExternalSignerPath env p sy)"
  "dirs_kept sy (setLanguage l sy)" "dirs_kept sy (options_setDisplayUnit u sy)" "dirs_kept sy (setThirdPartyTransactionUrls l sy)" "dirs_kept sy (setMoneyFontChoice l sy)"
  by (simp_all add: setDbcacheSizeMiB_def setMaxMempoolSizeMB_def setScriptThreads_def setExternalSignerPath_def setLanguage_def options_setDisplayUnit_def
      setThirdPartyTransactionUrls_def setMoneyFontChoice_def dirs_kept_refl Let_def override_dirs runCommand_dirs same_dirs_def)

lemma signer_dirs: "dirs_kept sy (requestExternalSignerPathValidation env p sy)"
  by (simp add: requestExternalSignerPathValidation_def startSignerValidation_def dirs_kept_def same_dirs_def inflight_def map_filter_Cons Let_def)

lemma gui_dirs:
  assumes "is_gui_event e" "\<not> directory_event e" "options_step env e sy = Some sy'"
  shows "dirs_kept sy sy'"
  using assms edit_dirs setter_dirs signer_dirs changed_dirs [of sy "(opt sy)\<lparr>m_core_settings := x\<rparr>" for x]
  by (cases e) (simp_all add: is_gui_event_def, auto simp: same_dirs_def)

lemma kept_inv:
  assumes "dirs_kept sy sy'" "dirs_inv env sy" "options_inv env sy"
  shows "dirs_inv env sy'"
proof -
  have old: "r \<le> m_command_revision (opt sy)" if "Reply_command r x \<in> set (sys_replies sy)" for r x
    using inflight_reply [OF that] assms(3) by (auto simp: options_inv_def command_protocol_def)
  have "readSnapshot env (sys_world sy) = Some snap" if r: "Reply_command (m_command_revision (opt sy')) (Inr (snap, error)) \<in> set (sys_replies sy)" for snap error
  proof -
    have "m_command_revision (opt sy') = m_command_revision (opt sy)" using assms(1) old [OF r] by (auto simp: dirs_kept_def)
    with r assms(2) show ?thesis by (auto simp: dirs_inv_def)
  qed
  then show ?thesis using assms(1,2) same_dirs_shows [of "opt sy" "opt sy'"] by (auto simp: dirs_inv_def dirs_kept_def)
qed

lemma older_replies:
  assumes "options_inv env sy" "sys_jobs sy = Job_command n cmd # jobs" "Reply_command k x \<in> set (sys_replies sy)"
  shows "k < m_command_revision (opt sy)"
proof -
  have pr: "command_protocol sy" using assms(1) by (simp add: options_inv_def)
  have "k \<in> set (List.map_filter reply_revision (sys_replies sy))" using assms(3) by (force simp: List.map_filter_def)
  moreover have "inflight sy = List.map_filter reply_revision (sys_replies sy) @ n # List.map_filter job_revision jobs"
    by (simp add: inflight_def assms(2) map_filter_Cons)
  ultimately have "k < n" "n \<le> m_command_revision (opt sy)" using pr by (auto simp: command_protocol_def sorted_wrt_append)
  then show ?thesis by simp
qed

lemma worker_dirs:
  assumes inv: "dirs_inv env sy" "options_inv env sy" and j: "sys_jobs sy = job # jobs" and run: "run_job env None job (sys_world sy) = Some (r, w)"
  shows "dirs_inv env (sy\<lparr>sys_jobs := jobs, sys_world := w, sys_replies := sys_replies sy @ [r]\<rparr>)"
proof (cases job)
  case (Job_command n cmd)
  then obtain snap error where r: "r = Reply_command n (Inr (snap, error))" and s: "readSnapshot env w = Some snap"
    using run by (auto split: prod.splits option.splits)
  have "Reply_command (m_command_revision (opt sy)) x \<notin> set (sys_replies sy)" for x
    using older_replies [OF inv(2) j [unfolded Job_command]] by blast
  then show ?thesis using inv(1) j Job_command r s by (auto simp: dirs_inv_def inflight_def map_filter_Cons)
next
  case (Job_signer d n)
  then show ?thesis using inv(1) j run by (auto simp: dirs_inv_def inflight_def map_filter_Cons)
qed (use inv(1) j in \<open>simp_all add: dirs_inv_def\<close>)

lemma applySnapshot_dirs: "shows_directories snap (applySnapshot snap m)"
proof -
  obtain c core ev where p: "mutate Preview (applyPreviewValuesPreservingTouched (s_core snap) []) (clearTouchedSettings (m_core_settings m)) = (c, core, ev)"
    by (metis prod_cases3)
  show ?thesis by (simp add: shows_directories_def applySnapshot_def p Let_def resetDirtySnapshots_def)
qed

lemma finish_dirs: "same_dirs m (finish_pending (setError e m))" "same_dirs m (finish_pending m)"
  by (simp_all add: finish_pending_def same_dirs_def Let_def)

lemma command_done_revision: "m_command_revision (command_done r (Inr (snap, error)) m) = m_command_revision m"
  using applySnapshot_sel(4) [where m = m and snap = snap] by (simp add: command_done_def finish_pending_def Let_def same_control_def)

lemma command_done_dirs:
  "shows_directories snap (command_done (m_command_revision m) (Inr (snap, error)) m)" "r \<noteq> m_command_revision m \<Longrightarrow> same_dirs m (command_done r (Inr (snap, error)) m)"
  using same_dirs_shows [OF finish_dirs(1) [of "applySnapshot snap m" error]] same_dirs_shows [OF finish_dirs(2) [of "applySnapshot snap m"]] applySnapshot_dirs [of snap m]
    finish_dirs(1) [of m error] finish_dirs(2) [of m] by (simp_all add: command_done_def Let_def)

lemma deliver_dirs:
  assumes inv: "dirs_inv env sy" "options_inv env sy" and q: "sys_replies sy = r # rs"
  shows "dirs_inv env (deliver_reply_to env r (sy\<lparr>sys_replies := rs\<rparr>))"
proof (cases r)
  case (Reply_command n x)
  have ro: "replies_ok env sy" and pr: "command_protocol sy" using inv(2) by (simp_all add: options_inv_def)
  obtain snap error where x: "x = Inr (snap, error)" using ro [unfolded replies_ok_def, rule_format, of n x] q Reply_command by auto
  have inf: "inflight sy = n # inflight (sy\<lparr>sys_replies := rs\<rparr>)" by (simp add: inflight_def q Reply_command map_filter_Cons)
  let ?sy = "sy\<lparr>sys_replies := rs, opt := command_done n x (opt sy)\<rparr>"
  have s: "deliver_reply_to env r (sy\<lparr>sys_replies := rs\<rparr>) = ?sy" by (simp add: Reply_command)
  have f: "list_all other_job (sys_jobs ?sy)" "list_all other_reply (sys_replies ?sy)" "inflight ?sy = inflight (sy\<lparr>sys_replies := rs\<rparr>)"
    "m_command_revision (opt ?sy) = m_command_revision (opt sy)" using inv(1) q command_done_revision by (simp_all add: dirs_inv_def inflight_def x)
  have read: "readSnapshot env (sys_world sy) = Some snap'" if "Reply_command (m_command_revision (opt sy)) (Inr (snap', error')) \<in> set (sys_replies sy)" for snap' error'
    using inv(1) that by (auto simp: dirs_inv_def)
  have "\<exists>snap. readSnapshot env (sys_world sy) = Some snap \<and> shows_directories snap (opt ?sy)" if "inflight ?sy = []"
  proof -
    have n: "n = m_command_revision (opt sy)" using pr inf f(3) that by (simp add: command_protocol_def)
    then have "readSnapshot env (sys_world sy) = Some snap" using read [of snap error] q Reply_command x by simp
    then show ?thesis using command_done_dirs(1) [of snap "opt sy" error] n x by simp
  qed
  moreover have "\<forall>snap error. Reply_command (m_command_revision (opt sy)) (Inr (snap, error)) \<in> set rs \<longrightarrow> readSnapshot env (sys_world sy) = Some snap"
    using read q by auto
  ultimately show ?thesis unfolding s dirs_inv_def using f by simp
next
  case (Reply_signer d n x)
  have f: "m_command_revision (opt (signer_validated d n x y)) = m_command_revision (opt y)" "sys_world (signer_validated d n x y) = sys_world y"
    "sys_replies (signer_validated d n x y) = sys_replies y" "inflight (signer_validated d n x y) = inflight y" "same_dirs (opt y) (opt (signer_validated d n x y))"
    "list_all other_job (sys_jobs y) \<Longrightarrow> list_all other_job (sys_jobs (signer_validated d n x y))" for y
    by (cases x; simp add: signer_validated_def startSignerValidation_def same_dirs_def inflight_def map_filter_Cons Let_def)+
  moreover have "inflight (sy\<lparr>sys_replies := rs\<rparr>) = inflight sy" by (simp add: inflight_def q Reply_signer map_filter_Cons)
  moreover from f(5) [of "sy\<lparr>sys_replies := rs\<rparr>"] have "shows_directories s (opt (signer_validated d n x (sy\<lparr>sys_replies := rs\<rparr>))) = shows_directories s (opt sy)" for s
    using same_dirs_shows [of "opt (sy\<lparr>sys_replies := rs\<rparr>)"] by simp
  ultimately show ?thesis using inv(1) q by (simp add: dirs_inv_def Reply_signer)
qed (use inv(1) q in \<open>simp_all add: dirs_inv_def\<close>)

lemma stopping_step: "m_stopping (opt sy) \<Longrightarrow> options_step env e sy = Some sy' \<Longrightarrow> default_proxy_laws (e_core env) \<Longrightarrow> m_stopping (opt sy')"
proof (cases "is_gui_event e")
  case True
  assume a: "m_stopping (opt sy)" "options_step env e sy = Some sy'" "default_proxy_laws (e_core env)"
  obtain f where "keeps_inv env f" "options_step env e sy = Some (f sy)" using gui_step [OF a(3) True] by blast
  with a show ?thesis unfolding keeps_inv_def by (metis option.inject)
next
  case False
  assume a: "m_stopping (opt sy)" "options_step env e sy = Some sy'"
  with False show ?thesis
    by (cases e) (auto simp: is_gui_event_def options_beginShutdown_def split: list.splits option.splits prod.splits)
qed

lemma dirs_step:
  assumes laws: "default_proxy_laws (e_core env)" "data_dir_laws env" and inv: "m_stopping (opt sy) \<or> options_inv env sy \<and> dirs_inv env sy"
    and step: "options_step env e sy = Some sy'" and e: "no_exception e" "\<not> directory_event e"
  shows "m_stopping (opt sy') \<or> options_inv env sy' \<and> dirs_inv env sy'"
proof (cases "m_stopping (opt sy)")
  case True
  then show ?thesis using stopping_step step laws(1) by blast
next
  case run: False
  with inv have i: "options_inv env sy" "dirs_inv env sy" by auto
  have o: "m_stopping (opt sy') \<or> options_inv env sy'" using options_step_inv [OF laws _ step e(1)] i(1) by blast
  have "m_stopping (opt sy') \<or> dirs_inv env sy'"
  proof (cases "is_gui_event e")
    case True
    then show ?thesis using kept_inv [OF gui_dirs [OF True e(2) step] i(2,1)] by simp
  next
    case False
    then consider "e = EvWorker None" | "e = EvDeliver" | "e = EvShutdown"
      using e(1) by (cases e) (auto simp: is_gui_event_def no_exception_def split: option.splits)
    then show ?thesis
    proof cases
      case 1
      with step i worker_dirs [OF i(2,1)] show ?thesis by (auto split: list.splits option.splits prod.splits)
    next
      case 2
      with step i run deliver_dirs [OF i(2,1)] show ?thesis by (auto split: list.splits)
    next
      case 3
      with step shutdown_stops show ?thesis by auto
    qed
  qed
  with o show ?thesis by blast
qed

lemma dirs_run:
  assumes "default_proxy_laws (e_core env)" "data_dir_laws env" "list_all (\<lambda>e. no_exception e \<and> \<not> directory_event e) es" "options_run env es sy = Some sy'"
    "m_stopping (opt sy) \<or> options_inv env sy \<and> dirs_inv env sy"
  shows "m_stopping (opt sy') \<or> options_inv env sy' \<and> dirs_inv env sy'"
  using assms(3-5)
proof (induction es arbitrary: sy)
  case (Cons e es)
  then obtain sy1 where "options_step env e sy = Some sy1" "options_run env es sy1 = Some sy'" by (auto split: option.splits)
  with Cons dirs_step [OF assms(1,2) Cons.prems(3)] show ?case by simp
qed simp

lemma new_options_dirs: "dirs_inv env (new_OptionsModel env w)"
  by (simp add: new_OptionsModel_def runCommand_def dirs_inv_def inflight_def map_filter_Cons resetDirtySnapshots_def new_options_def Let_def)

section \<open>The transaction of a setting\<close>

lemma rollback_rw:
  "rw_settings (rollback env (read_keys keys s) (read_keys keys s2) s4) k =
     (if k \<in> set keys \<and> still_ours env (rw_settings s2 k) (rw_settings s4 k) then rw_settings s k else rw_settings s4 k)"
  by (simp add: rollback_def read_keys_def)

lemma still_ours_refl [simp]: "still_ours env x x"
  by (simp add: still_ours_def split: option.splits)

text \<open>A transaction with a mutation that does not throw: it commits or it rolls back.\<close>

lemma persist_cases:
  assumes "persist env keys mutation s = (saved, error, s')" "mutation s = (ok, s1)"
  obtains (committed) "saved" "error = []" "ok" "s' = other2 env (other1 env s1)" "WriteSettingsFile env s' = Written"
  | (rolled_back) "\<not> saved" "error \<noteq> []"
    "s' = rollback (e_core env) (read_keys keys s) (read_keys keys (other1 env s1)) (other3 env (other2 env (other1 env s1)))"
  using assms by (cases ok) (auto simp: persist_def PersistSettings_def finish_failed_def unable_to_save_def Let_def split: file_result.splits if_splits)

section \<open>Properties\<close>

text \<open>
  C11: what the settings pages show in the end is what is saved. From the construction of the model on, let anything happen
  in any order, as long as no job of the worker ends in an exception: edits, also while commands are under way, commands running and
  failing on the worker, replies arriving, data directories and signer paths being checked. While the model is not shutting down,
  the pages report saving exactly while a command is under way; and whenever none is, the model is ready and shows exactly the settings
  that reading everything again would give, and, if no data directory has been chosen in this history, the data directories as well.
  An edit that could not be saved is therefore taken back, and a reply that a later edit has overtaken changes nothing. After an
  exception nothing is read, and the page keeps the edit that was not saved; a directory that was chosen is shown as it was chosen, which
  the next reading does not always give.
\<close>

theorem options_settle:
  assumes "default_proxy_laws (e_core env)" "data_dir_laws env" "list_all no_exception es"
    "options_run env es (new_OptionsModel env w) = Some sy" "\<not> m_stopping (opt sy)"
  shows "(m_pending (opt sy) \<longleftrightarrow> inflight sy \<noteq> []) \<and>
     (\<not> m_pending (opt sy) \<longrightarrow> m_ready (opt sy) \<and> (\<exists>snap. readSnapshot env (sys_world sy) = Some snap \<and> shows_snapshot snap (opt sy) \<and>
        (list_all (\<lambda>e. \<not> directory_event e) es \<longrightarrow> shows_directories snap (opt sy))))"
proof -
  have inv: "options_inv env sy" using options_run_inv [OF assms(1-4)] new_options_inv assms(5) by blast
  have "\<exists>snap. readSnapshot env (sys_world sy) = Some snap \<and> shows_snapshot snap (opt sy)" if st: "settled env sy"
  proof -
    obtain snap where snap: "agrees env (sys_world sy) snap" "shows_snapshot snap (opt sy)" using st unfolding settled_def by blast
    then obtain s where "readSnapshot env (sys_world sy) = Some s" "settings_part s = settings_part snap" unfolding agrees_def map_option_eq_Some by blast
    with snap(2) shows_part [of s snap "opt sy"] show ?thesis by blast
  qed
  moreover have "\<exists>snap. readSnapshot env (sys_world sy) = Some snap \<and> shows_directories snap (opt sy)"
    if "inflight sy = []" "list_all (\<lambda>e. \<not> directory_event e) es"
  proof -
    have "list_all (\<lambda>e. no_exception e \<and> \<not> directory_event e) es" using assms(3) that(2) by (simp add: list_all_iff)
    then have "dirs_inv env sy" using dirs_run [OF assms(1,2) _ assms(4)] new_options_inv new_options_dirs assms(5) by blast
    with that(1) show ?thesis by (simp add: dirs_inv_def)
  qed
  ultimately have "\<exists>snap. readSnapshot env (sys_world sy) = Some snap \<and> shows_snapshot snap (opt sy) \<and>
      (list_all (\<lambda>e. \<not> directory_event e) es \<longrightarrow> shows_directories snap (opt sy))" if "inflight sy = []" "settled env sy"
    using that by (metis option.inject)
  with inv show ?thesis by (simp add: options_inv_def command_protocol_def settled_def)
qed

text \<open>
  C31: saving a setting is all or nothing. The worker saves the setting of a session that the user changed while other
  threads write other settings. When it reports no error, the session accepted, the settings file was written and
  the setting and its remembered value are as the session stores them. When it reports an error, both are as they
  were before. No other setting is ever rolled back.
\<close>

theorem settings_transaction:
  assumes "run_cmd env (CmdCore v name) w = (error, w')"
    "writeToArgs (e_core env) (new_Session_of v []) name (w_settings w) = (ok, s1)"
    "\<And>s k. k \<in> keys_of name \<Longrightarrow> rw_settings (other1 env s) k = rw_settings s k" "\<And>s k. k \<in> keys_of name \<Longrightarrow> rw_settings (other2 env s) k = rw_settings s k"
    "\<And>s k. k \<in> keys_of name \<Longrightarrow> rw_settings (other3 env s) k = rw_settings s k"
  shows "(error = [] \<longrightarrow> ok \<and> WriteSettingsFile env (w_settings w') = Written \<and> (\<forall>k\<in>keys_of name. rw_settings (w_settings w') k = rw_settings s1 k) \<and>
       (\<forall>k. k \<notin> keys_of name \<longrightarrow> rw_settings (w_settings w') k = rw_settings (other2 env (other1 env s1)) k)) \<and>
     (error \<noteq> [] \<longrightarrow> (\<forall>k\<in>keys_of name. rw_settings (w_settings w') k = rw_settings (w_settings w) k) \<and>
       (\<forall>k. k \<notin> keys_of name \<longrightarrow> rw_settings (w_settings w') k = rw_settings (other3 env (other2 env (other1 env s1))) k))"
proof -
  obtain saved error' s' where p: "persist env [name, name @ ''-prev''] (writeToArgs (e_core env) (new_Session_of v []) name) (w_settings w) = (saved, error', s')"
    using prod_cases3 by blast
  then have r: "error = error'" "w_settings w' = s'" using assms(1) by (auto simp: Let_def split: if_splits)
  from p assms(2) show ?thesis
  proof (cases rule: persist_cases)
    case committed
    then show ?thesis using assms(3,4) r by simp
  next
    case rolled_back
    then show ?thesis using assms(3-5) r by (simp add: rollback_rw)
  qed
qed


text \<open>A concrete environment: the file cannot be written once the proxy is to be changed, and saving application settings works.\<close>

definition options_example :: options_env where
  "options_example = \<lparr>e_core = example_env\<lparr>SplitHostPort := (\<lambda>_. Some (q ''127.0.0.1'')), NumericProxyValid := (\<lambda>_. True)\<rparr>,
     WriteSettingsFile = (\<lambda>s. if rw_settings s ''proxy'' = None then Written else Write_errors [q ''disk full'']),
     other1 = id, other2 = id, other3 = id, forceSetting = (\<lambda>n v s. s\<lparr>forced_settings := (forced_settings s)(n := if v = VNULL then None else Some v)\<rparr>),
     gui_sync = (\<lambda>_. True), gui_toInt = (\<lambda>v. case v of GInt i \<Rightarrow> i | GText _ \<Rightarrow> 0), gui_toString = (\<lambda>v. case v of GText s \<Rightarrow> s | GInt _ \<Rightarrow> []),
     ReadLegacyGuiLanguage = [], ReadLegacyGuiDisplayUnit = 0, GetArg_lang = (\<lambda>_. []), url_local_file = (\<lambda>_. None), homePath = q ''/root'', isAbsolutePath = (\<lambda>p. take 1 p = q ''/''),
     file_exists = (\<lambda>_. True), file_isFile = (\<lambda>_. True), file_isExecutable = (\<lambda>_. True),
     NormalizeLocalPath = id, PersistGuiDataDirSelection = (\<lambda>p g. ([], g(''strDataDir'' \<mapsto> GText p))),
     PersistDefaultDataDirSelection = (\<lambda>g. ([], g(''strDataDir'' := None))), ReadGuiDataDir = (\<lambda>g. case g ''strDataDir'' of Some (GText p) \<Rightarrow> p | _ \<Rightarrow> []),
     IsDefaultDataDir = (\<lambda>p. p = []), HasExplicitDataDirArg = False, ActiveDataDir = q ''/root'', DefaultDataDirString = q ''/root''\<rparr>"

definition world_example :: world where
  "world_example = \<lparr>w_settings = example_settings, w_gui = Map.empty, w_mapPort = None\<rparr>"

definition events_example :: "options_event list" where
  "events_example = [EvWorker None, EvDeliver, EvEdit (EditListen False), EvWorker None, EvEdit (EditProxyLocation (q ''10.0.0.1'')), EvDbcache 600, EvDeliver, EvWorker None, EvWorker None, EvDeliver, EvDeliver]"

theorem options_settle_witness:
  "\<exists>sy snap. options_run options_example events_example (new_OptionsModel options_example world_example) = Some sy \<and>
     \<not> m_pending (opt sy) \<and> m_ready (opt sy) \<and> readSnapshot options_example (sys_world sy) = Some snap \<and> shows_snapshot snap (opt sy) \<and> shows_directories snap (opt sy) \<and>
     \<not> v_listen (values_of (opt sy)) \<and> m_dbcache_size_mib (opt sy) = 600 \<and> m_dataDir (opt sy) = q ''/root''"
proof -
  let ?run = "options_run options_example events_example (new_OptionsModel options_example world_example)"
  have d: "list_all no_exception events_example" "list_all (\<lambda>e. \<not> directory_event e) events_example" by code_simp+
  have "map_option (\<lambda>sy. (m_stopping (opt sy), m_pending (opt sy), v_listen (values_of (opt sy)), m_dbcache_size_mib (opt sy), m_dataDir (opt sy))) ?run
    = Some (False, False, False, 600, q ''/root'')" by code_simp
  then obtain sy where s: "?run = Some sy" "\<not> m_stopping (opt sy)" "\<not> m_pending (opt sy)" "\<not> v_listen (values_of (opt sy))" "m_dbcache_size_mib (opt sy) = 600"
    "m_dataDir (opt sy) = q ''/root''" by auto
  have "default_proxy_laws (e_core options_example)" by (simp add: default_proxy_laws_def example_env_def options_example_def)
  moreover have "data_dir_laws options_example"
    by (simp add: data_dir_laws_def options_example_def gui_keys_def KEY_LANGUAGE_def KEY_DISPLAY_UNIT_def KEY_URLS_def KEY_MONEY_FONT_def)
  ultimately have "m_ready (opt sy) \<and> (\<exists>snap. readSnapshot options_example (sys_world sy) = Some snap \<and> shows_snapshot snap (opt sy) \<and> shows_directories snap (opt sy))"
    using conjunct2 [OF options_settle [OF _ _ d(1) s(1,2)]] s(3) d(2) by blast
  with s show ?thesis by blast
qed


theorem settings_transaction_witness:
  "\<exists>error w' s1. run_cmd options_example (CmdCore (example_values\<lparr>v_proxy_address := q ''10.0.0.1''\<rparr>) ''proxy'') world_example = (error, w') \<and>
     writeToArgs (e_core options_example) (new_Session_of (example_values\<lparr>v_proxy_address := q ''10.0.0.1''\<rparr>) []) ''proxy'' (w_settings world_example) = (True, s1) \<and>
     rw_settings s1 ''proxy'' = Some (VSTR (q ''10.0.0.1'')) \<and> error = q ''disk full'' \<and>
     (\<forall>k\<in>keys_of ''proxy''. rw_settings (w_settings w') k = rw_settings (w_settings world_example) k)"
proof -
  let ?v = "example_values\<lparr>v_proxy_address := q ''10.0.0.1''\<rparr>"
  let ?r = "run_cmd options_example (CmdCore ?v ''proxy'') world_example"
  let ?w = "writeToArgs (e_core options_example) (new_Session_of ?v []) ''proxy'' (w_settings world_example)"
  obtain error w' where r: "?r = (error, w')" by fastforce
  obtain ok s1 where w: "?w = (ok, s1)" by fastforce
  have "fst ?w = True" "rw_settings (snd ?w) ''proxy'' = Some (VSTR (q ''10.0.0.1''))" "fst ?r = q ''disk full''" "fst ?r \<noteq> []" by code_simp+
  then have e: "ok" "rw_settings s1 ''proxy'' = Some (VSTR (q ''10.0.0.1''))" "error = q ''disk full''" "error \<noteq> []" unfolding r w by simp_all
  have o: "other1 options_example = id" "other2 options_example = id" "other3 options_example = id" by (simp_all add: options_example_def)
  have "\<forall>k\<in>keys_of ''proxy''. rw_settings (w_settings w') k = rw_settings (w_settings world_example) k"
    using settings_transaction [OF r w] e(4) unfolding o by simp
  with e show ?thesis unfolding r w by blast
qed

end
