(* ===== verification/LogReader.thy ===== *)
theory LogReader
  imports Prelude
begin

text \<open>
  \<open>src/qml/models/debuglogmodel.cpp\<close>, the part that runs on the worker thread: parsing lines of the debug log, reading the
  tail of the file backwards in blocks, and reading what was appended since the last read. A file is its size and
  what a read at an offset returns, so that short reads are branches; a byte is its number. Decoding UTF-8, lower case,
  local time and the node's log categories are parameters. A read that is cancelled is dropped whole by its caller, so the
  tests for it inside the loops are left out. In the regular expressions the dot matches every
  character but a line feed, which no line contains.
\<close>

section \<open>Definitions\<close>

definition TAIL_READ_BLOCK_SIZE :: nat where "TAIL_READ_BLOCK_SIZE = 65536"
definition FILE_ANCHOR_SIZE :: nat where "FILE_ANCHOR_SIZE = 256"
definition MAX_DELTA_BYTES :: nat where "MAX_DELTA_BYTES = 8388608"
definition kMaxLoadLimit :: nat where "kMaxLoadLimit = 50000"
definition kMaxLogLineBytes :: nat where "kMaxLogLineBytes = 1048576"

record log_env =
  le_fromUtf8 :: "bytes \<Rightarrow> qstring"
  le_toLower :: "qstring \<Rightarrow> qstring"
  le_category :: "qstring \<Rightarrow> bool"
  le_localTime :: "qstring \<Rightarrow> qstring option"

record LogLine =
  l_message :: qstring
  l_timestamp :: qstring
  l_source_offset :: nat
  l_is_error :: bool
  l_is_warning :: bool

subsection \<open>A line\<close>

definition IsLogLevel :: "qstring \<Rightarrow> bool" where
  "IsLogLevel v \<longleftrightarrow> v \<in> {q ''trace'', q ''debug'', q ''info'', q ''warning'', q ''error''}"

text \<open>\<open>TIMESTAMP_RX\<close>: the time stamp (capture 1) and what follows it (capture 3).\<close>

definition stamp_pattern :: qstring where "stamp_pattern = q ''dddd-dd-ddTdd:dd:dd''"

definition stamp_ok :: "qstring \<Rightarrow> bool" where
  "stamp_ok s = list_all2 (\<lambda>p c. if p = 100 then is_digit c else c = p) stamp_pattern s"

definition skip_fraction :: "qstring \<Rightarrow> qstring" where
  "skip_fraction s =
     (case s of
        [] \<Rightarrow> []
      | c # cs \<Rightarrow> if c = 46 \<and> takeWhile is_digit cs \<noteq> [] then dropWhile is_digit cs else s)"

definition match_timestamp :: "qstring \<Rightarrow> (qstring \<times> qstring) option" where
  "match_timestamp line =
     (let s = (if take 3 line = q ''[*]'' then dropWhile re_space (drop 3 line) else line); stamp = take 19 s
      in if stamp_ok stamp then
           (case skip_fraction (drop 19 s) of
              [] \<Rightarrow> None
            | c # cs \<Rightarrow> if c = 90 then Some (stamp, dropWhile re_space cs) else None)
         else None)"

text \<open>\<open>BRACKET_PREFIX_RX\<close>: the text in brackets and what remains after the match.\<close>

definition bracket_prefix :: "qstring \<Rightarrow> (qstring \<times> qstring) option" where
  "bracket_prefix s =
     (case s of
        [] \<Rightarrow> None
      | c # cs \<Rightarrow>
          let inner = takeWhile (\<lambda>x. x \<noteq> 93) cs
          in if c = 91 \<and> inner \<noteq> [] \<and> length inner < length cs then Some (inner, dropWhile re_space (drop (length inner + 1) cs)) else None)"

definition level_lower :: "qstring \<Rightarrow> qstring" where
  "level_lower s = map (\<lambda>c. if 65 \<le> c \<and> c \<le> 90 then c + 32 else c) s"

text \<open>\<open>LEGACY_LEVEL_RX\<close>: whether the level is \<open>ERROR\<close> and the text after it.\<close>

definition legacy_level :: "qstring \<Rightarrow> (bool \<times> qstring) option" where
  "legacy_level s =
     (if level_lower (take 6 s) = q ''error:'' then Some (True, dropWhile re_space (drop 6 s))
      else if level_lower (take 8 s) = q ''warning:'' then Some (False, dropWhile re_space (drop 8 s))
      else None)"

definition FormatTime :: "log_env \<Rightarrow> qstring \<Rightarrow> qstring" where
  "FormatTime env utc_seconds =
     (case le_localTime env (utc_seconds @ [90]) of Some t \<Rightarrow> t | None \<Rightarrow> drop (length utc_seconds - 8) utc_seconds)"

text \<open>What a bracketed prefix means: \<open>None\<close> when it is not recognised, otherwise the level it sets, if any, as (error, warning).\<close>

definition recognise :: "log_env \<Rightarrow> qstring \<Rightarrow> (bool \<times> bool) option option" where
  "recognise env v =
     (if IsLogLevel v then Some (Some (v = q ''error'', v = q ''warning''))
      else
        let category = takeWhile (\<lambda>c. c \<noteq> 58) v; level = drop (length category + 1) v
        in if 58 \<in> set v \<and> category \<noteq> [] \<and> 58 \<notin> set level then
             (if le_category env category \<and> IsLogLevel level then Some (Some (level = q ''error'', level = q ''warning'')) else None)
           else if le_category env v then Some None
           else None)"

lemma trimmed_length: "length (trimmed s) \<le> length s"
  by (simp add: trimmed_def) (metis length_dropWhile_le length_rev order_trans)

lemma bracket_prefix_shorter: "bracket_prefix s = Some (x, r) \<Longrightarrow> length (trimmed r) < length s"
proof -
  assume "bracket_prefix s = Some (x, r)"
  then have "length r < length s"
    by (auto simp: bracket_prefix_def Let_def split: list.splits if_splits) (metis Suc_leI diff_le_self le_imp_less_Suc length_drop length_dropWhile_le order_trans)
  then show ?thesis using trimmed_length [of r] by simp
qed

function populate_loop :: "log_env \<Rightarrow> qstring \<Rightarrow> qstring list \<Rightarrow> bool \<times> bool \<Rightarrow> qstring \<times> qstring list \<times> bool \<times> bool" where
  "populate_loop env remaining preserved lv =
     (case bracket_prefix remaining of
        None \<Rightarrow> (remaining, preserved, lv)
      | Some (captured, rest) \<Rightarrow>
          (case recognise env (le_toLower env (trimmed captured)) of
             None \<Rightarrow> populate_loop env (trimmed rest) (preserved @ [91 # captured @ [93]]) lv
           | Some None \<Rightarrow> populate_loop env (trimmed rest) preserved lv
           | Some (Some lv1) \<Rightarrow> populate_loop env (trimmed rest) preserved lv1))"
  by auto
termination
  by (relation "measure (\<lambda>(env, remaining, preserved, lv). length remaining)") (auto simp: bracket_prefix_shorter)

fun join_space :: "qstring list \<Rightarrow> qstring" where
  "join_space [] = []"
| "join_space [x] = x"
| "join_space (x # xs) = x @ 32 # join_space xs"

definition PopulateParsedFields :: "log_env \<Rightarrow> LogLine \<Rightarrow> qstring \<Rightarrow> LogLine" where
  "PopulateParsedFields env entry raw_message =
     (let (remaining, preserved, err, warn) = populate_loop env (trimmed raw_message) [] (False, False);
          (remaining, err, warn) =
            (case legacy_level remaining of
               None \<Rightarrow> (remaining, err, warn)
             | Some (is_err, rest) \<Rightarrow> (trimmed rest, is_err, \<not> is_err));
          remaining = (if preserved \<noteq> [] then join_space preserved @ 32 # remaining else remaining)
      in entry\<lparr>l_message := trimmed remaining, l_is_error := err, l_is_warning := warn\<rparr>)"

definition parse_line :: "log_env \<Rightarrow> nat \<Rightarrow> bytes \<Rightarrow> LogLine option" where
  "parse_line env offset raw =
     (let raw = (if raw \<noteq> [] \<and> last raw = 13 then butlast raw else raw);
          line = le_fromUtf8 env raw;
          (timestamp, raw_message) =
            (case match_timestamp line of
               None \<Rightarrow> ([], line)
             | Some (stamp, rest) \<Rightarrow> (FormatTime env stamp, if take 3 line = q ''[*]'' then q ''[*] '' @ rest else rest));
          entry = PopulateParsedFields env \<lparr>l_message = [], l_timestamp = timestamp, l_source_offset = offset, l_is_error = False, l_is_warning = False\<rparr> raw_message
      in if l_message entry \<noteq> [] \<or> l_timestamp entry \<noteq> [] then Some entry else None)"

subsection \<open>Complete lines, newest first\<close>

text \<open>\<open>lastIndexOf('\n', n - 1)\<close> and \<open>indexOf('\n')\<close>.\<close>

fun last_newline :: "bytes \<Rightarrow> nat \<Rightarrow> nat option" where
  "last_newline b 0 = None"
| "last_newline b (Suc n) = (if n < length b \<and> b ! n = 10 then Some n else last_newline b n)"

fun first_newline :: "bytes \<Rightarrow> nat option" where
  "first_newline [] = None"
| "first_newline (c # cs) = (if c = 10 then Some 0 else map_option Suc (first_newline cs))"

lemma last_newline_less: "last_newline b n = Some i \<Longrightarrow> i < n"
  by (induction n) (auto split: if_splits)

lemma last_newline_char: "last_newline b n = Some i \<Longrightarrow> i < length b \<and> b ! i = 10"
  by (induction n) (auto split: if_splits)

definition line_end :: "bytes \<Rightarrow> nat \<Rightarrow> nat" where
  "line_end b scan_end = (if b ! (scan_end - 1) = 10 then scan_end - 1 else scan_end)"

lemma line_step_less: "0 < scan_end \<Longrightarrow> last_newline b (line_end b scan_end) = Some i \<Longrightarrow> Suc i < scan_end"
proof -
  assume a: "0 < scan_end" and i: "last_newline b (line_end b scan_end) = Some i"
  show ?thesis
  proof (cases "b ! (scan_end - 1) = 10")
    case True
    then show ?thesis using last_newline_less [OF i] a by (simp add: line_end_def)
  next
    case False
    have "i < scan_end" using last_newline_less [OF i] False by (simp add: line_end_def)
    moreover have "i \<noteq> scan_end - 1" using last_newline_char [OF i] False by auto
    ultimately show ?thesis by simp
  qed
qed

function parse_backwards :: "log_env \<Rightarrow> bytes \<Rightarrow> nat \<Rightarrow> nat \<Rightarrow> nat \<Rightarrow> LogLine list \<Rightarrow> LogLine list" where
  "parse_backwards env b base_offset max_lines scan_end result =
     (if scan_end = 0 \<or> length result \<ge> max_lines then result
      else
        let terminator = line_end b scan_end;
            previous_newline = last_newline b terminator;
            start = (case previous_newline of None \<Rightarrow> 0 | Some i \<Rightarrow> i + 1);
            line_size = terminator - start;
            result = (if line_size \<le> kMaxLogLineBytes
                      then (case parse_line env (base_offset + start) (take line_size (drop start b)) of None \<Rightarrow> result | Some e \<Rightarrow> result @ [e])
                      else result)
        in case previous_newline of
             None \<Rightarrow> result
           | Some i \<Rightarrow> parse_backwards env b base_offset max_lines (i + 1) result)"
  by pat_completeness auto
termination
  by (relation "measure (\<lambda>(env, b, base, mx, scan_end, result). scan_end)") (auto simp: line_step_less)

definition ParseCompleteLines :: "log_env \<Rightarrow> bytes \<Rightarrow> nat \<Rightarrow> nat \<Rightarrow> LogLine list" where
  "ParseCompleteLines env b base_offset max_filtered_lines = parse_backwards env b base_offset max_filtered_lines (length b) []"


subsection \<open>Reading the file\<close>

record logfile =
  lf_size :: nat
  lf_seek :: "nat \<Rightarrow> bool"
  lf_read :: "nat \<Rightarrow> nat \<Rightarrow> bytes"

datatype log_source = Log_missing | Log_unreadable | Log_open logfile

record ReadResult =
  file_opened :: bool
  error_message :: qstring
  rr_lines :: "LogLine list"
  full_snapshot :: bool
  continuity_lost :: bool
  rr_has_more_lines :: bool
  snapshot_limit :: nat
  rr_file_size :: "nat option"
  trailing_partial :: bytes
  discarding_oversized_line :: bool
  rr_file_anchor :: bytes

definition empty_result :: ReadResult where
  "empty_result = \<lparr>file_opened = False, error_message = [], rr_lines = [], full_snapshot = True, continuity_lost = False, rr_has_more_lines = False,
     snapshot_limit = 0, rr_file_size = None, trailing_partial = [], discarding_oversized_line = False, rr_file_anchor = []\<rparr>"

definition unopened :: "qstring \<Rightarrow> log_source \<Rightarrow> ReadResult" where
  "unopened path src = empty_result\<lparr>error_message := (if src = Log_missing then q ''Debug log file not found: '' else q ''Could not open debug log file: '') @ path\<rparr>"

definition ReadAnchor :: "logfile \<Rightarrow> nat \<Rightarrow> bytes" where
  "ReadAnchor f file_size =
     (let anchor_size = min file_size FILE_ANCHOR_SIZE
      in if anchor_size = 0 \<or> \<not> lf_seek f (file_size - anchor_size) then [] else lf_read f (file_size - anchor_size) anchor_size)"

text \<open>One block before \<open>cursor\<close>; \<open>None\<close> when it cannot be read in full.\<close>

definition read_block :: "logfile \<Rightarrow> nat \<Rightarrow> (nat \<times> bytes) option" where
  "read_block f cursor =
     (let start = cursor - TAIL_READ_BLOCK_SIZE
      in if \<not> lf_seek f start then None
         else let chunk = lf_read f start (cursor - start)
              in if length chunk \<noteq> cursor - start then None else Some (start, chunk))"

lemma read_block_less: "read_block f cursor = Some (start, chunk) \<Longrightarrow> 0 < cursor \<Longrightarrow> start < cursor"
  by (auto simp: read_block_def Let_def TAIL_READ_BLOCK_SIZE_def split: if_splits)

function find_end :: "logfile \<Rightarrow> nat \<Rightarrow> nat option option" where
  "find_end f cursor =
     (if cursor = 0 then Some None
      else case read_block f cursor of
          None \<Rightarrow> None
        | Some (start, chunk) \<Rightarrow> (case last_newline chunk (length chunk) of Some i \<Rightarrow> Some (Some (start + i + 1)) | None \<Rightarrow> find_end f start))"
  by pat_completeness auto
termination
  by (relation "measure (\<lambda>(f, cursor). cursor)") (auto dest: read_block_less)

function tail_loop :: "log_env \<Rightarrow> logfile \<Rightarrow> nat \<Rightarrow> nat \<Rightarrow> LogLine list \<Rightarrow> bytes \<Rightarrow> bool \<Rightarrow> LogLine list option" where
  "tail_loop env f target cursor newest_first carry discarding =
     (if cursor = 0 \<or> length newest_first \<ge> target then Some newest_first
      else case read_block f cursor of
          None \<Rightarrow> None
        | Some (start, chunk) \<Rightarrow>
            (case (if discarding then map_option (\<lambda>i. take (i + 1) chunk) (last_newline chunk (length chunk)) else Some (chunk @ carry)) of
               None \<Rightarrow> tail_loop env f target start newest_first carry discarding
             | Some data \<Rightarrow>
                 if start = 0 then tail_loop env f target start (newest_first @ ParseCompleteLines env data start (target - length newest_first)) [] False
                 else (case first_newline data of
                     None \<Rightarrow>
                       if length data > kMaxLogLineBytes then tail_loop env f target start newest_first [] True
                       else tail_loop env f target start newest_first data False
                   | Some i \<Rightarrow>
                       let oversized = (length (take (i + 1) data) > kMaxLogLineBytes)
                       in tail_loop env f target start
                            (newest_first @ ParseCompleteLines env (drop (i + 1) data) (start + i + 1) (target - length newest_first))
                            (if oversized then [] else take (i + 1) data) oversized)))"
  by pat_completeness auto
termination
  by (relation "measure (\<lambda>(env, f, target, cursor, newest, carry, discarding). cursor)") (auto dest: read_block_less)

declare tail_loop.simps [simp del] find_end.simps [simp del] parse_backwards.simps [simp del] populate_loop.simps [simp del]

definition tail_partial :: "logfile \<Rightarrow> nat \<Rightarrow> (bytes \<times> bool) option" where
  "tail_partial f partial_start =
     (let partial_size = lf_size f - partial_start
      in if partial_size > kMaxLogLineBytes then Some ([], True)
         else if partial_size > 0 then
           (if \<not> lf_seek f partial_start then None
            else let p = lf_read f partial_start partial_size in if length p \<noteq> partial_size then None else Some (p, False))
         else Some ([], False))"

definition ReadTail :: "log_env \<Rightarrow> qstring \<Rightarrow> log_source \<Rightarrow> nat \<Rightarrow> ReadResult" where
  "ReadTail env path src load_limit =
     (case src of
        Log_open f \<Rightarrow>
          let result = empty_result\<lparr>file_opened := True, full_snapshot := True, snapshot_limit := min load_limit kMaxLoadLimit,
                rr_file_size := Some (lf_size f), rr_file_anchor := ReadAnchor f (lf_size f)\<rparr>
          in (case find_end f (lf_size f) of
                None \<Rightarrow> empty_result
              | Some complete_end \<Rightarrow>
                  (case tail_partial f (case complete_end of None \<Rightarrow> 0 | Some e \<Rightarrow> e) of
                     None \<Rightarrow> empty_result
                   | Some (partial, oversized) \<Rightarrow>
                       let result = result\<lparr>trailing_partial := partial, discarding_oversized_line := oversized\<rparr>
                       in (case complete_end of
                             None \<Rightarrow> result
                           | Some e \<Rightarrow>
                               (case tail_loop env f (min load_limit kMaxLoadLimit + 1) e [] [] False of
                                  None \<Rightarrow> empty_result
                                | Some newest_first \<Rightarrow>
                                    result\<lparr>rr_has_more_lines := (length newest_first > load_limit),
                                      rr_lines := (if length newest_first > load_limit then butlast newest_first else newest_first)\<rparr>))))
      | _ \<Rightarrow> unopened path src)"

text \<open>The part of \<open>ReadAndFilter\<close> after the appended bytes were read.\<close>

definition delta_result :: "log_env \<Rightarrow> logfile \<Rightarrow> nat \<Rightarrow> nat \<Rightarrow> bytes \<Rightarrow> bool \<Rightarrow> bytes \<Rightarrow> ReadResult" where
  "delta_result env f load_limit previous_file_size previous_partial previous_discarding appended =
     (let result = empty_result\<lparr>file_opened := True, full_snapshot := False, rr_file_size := Some (lf_size f), rr_file_anchor := ReadAnchor f (lf_size f)\<rparr>
      in case (if previous_discarding then
                 (case first_newline appended of None \<Rightarrow> None | Some i \<Rightarrow> Some (drop (i + 1) appended, previous_file_size + i + 1))
               else Some (previous_partial @ appended, previous_file_size - length previous_partial)) of
           None \<Rightarrow> result\<lparr>discarding_oversized_line := True\<rparr>
         | Some (combined, combined_offset) \<Rightarrow>
             (case last_newline combined (length combined) of
                None \<Rightarrow>
                  if length combined \<le> kMaxLogLineBytes then result\<lparr>trailing_partial := combined\<rparr> else result\<lparr>discarding_oversized_line := True\<rparr>
              | Some last_nl \<Rightarrow>
                  let complete_size = last_nl + 1; partial = drop complete_size combined;
                      result = (if length partial > kMaxLogLineBytes then result\<lparr>discarding_oversized_line := True\<rparr> else result\<lparr>trailing_partial := partial\<rparr>);
                      ls = ParseCompleteLines env (take complete_size combined) combined_offset (min load_limit kMaxLoadLimit + 1)
                  in result\<lparr>rr_lines := ls, rr_has_more_lines := (length ls > load_limit)\<rparr>))"

definition ReadAndFilter :: "log_env \<Rightarrow> qstring \<Rightarrow> log_source \<Rightarrow> nat \<Rightarrow> bool \<Rightarrow> nat option \<Rightarrow> bytes \<Rightarrow> bool \<Rightarrow> bytes \<Rightarrow> ReadResult" where
  "ReadAndFilter env path src load_limit full_load previous_file_size previous_partial previous_discarding previous_anchor =
     (case (if full_load then None else previous_file_size) of
        None \<Rightarrow> ReadTail env path src load_limit
      | Some previous_size \<Rightarrow>
          (case src of
             Log_open f \<Rightarrow>
               let snapshot_size = lf_size f;
                   continuity_valid = (snapshot_size \<ge> previous_size \<and> length previous_partial \<le> previous_size \<and>
                     (previous_size > 0 \<longrightarrow> previous_anchor \<noteq> [] \<and> length previous_anchor \<le> previous_size \<and> lf_seek f (previous_size - length previous_anchor) \<and>
                        lf_read f (previous_size - length previous_anchor) (length previous_anchor) = previous_anchor));
                   appended_size = snapshot_size - previous_size;
                   again = (let r = ReadTail env path src load_limit in r\<lparr>continuity_lost := file_opened r\<rparr>)
               in if \<not> continuity_valid then again
                  else if appended_size > MAX_DELTA_BYTES \<or> length previous_partial > MAX_DELTA_BYTES - appended_size then ReadTail env path src load_limit
                  else if \<not> lf_seek f previous_size then empty_result
                  else
                    let appended = lf_read f previous_size appended_size
                    in if length appended \<noteq> appended_size then again
                       else delta_result env f load_limit previous_size previous_partial previous_discarding appended
           | _ \<Rightarrow> unopened path src))"


section \<open>Reference: the records of a log\<close>

text \<open>The lines of a text with their offsets, oldest first; a last line need not be terminated.\<close>

function lines_at :: "nat \<Rightarrow> bytes \<Rightarrow> (nat \<times> bytes) list" where
  "lines_at off [] = []"
| "lines_at off (c # cs) = (let l = takeWhile (\<lambda>x. x \<noteq> 10) (c # cs) in (off, l) # lines_at (off + length l + 1) (drop (length l + 1) (c # cs)))"
  by pat_completeness auto
termination
  by (relation "measure (\<lambda>(off, b). length b)") auto

declare lines_at.simps(2) [simp del]

definition record_of :: "log_env \<Rightarrow> nat \<times> bytes \<Rightarrow> LogLine option" where
  "record_of env ol = (if length (snd ol) \<le> kMaxLogLineBytes then parse_line env (fst ol) (snd ol) else None)"

definition log_records :: "log_env \<Rightarrow> nat \<Rightarrow> bytes \<Rightarrow> LogLine list" where
  "log_records env off b = List.map_filter (record_of env) (lines_at off b)"

lemma takeWhile_line [simp]: "10 \<notin> set l \<Longrightarrow> takeWhile (\<lambda>x. x \<noteq> (10 :: nat)) (l @ 10 # r) = l"
  by (induction l) auto

lemma takeWhile_open [simp]: "10 \<notin> set l \<Longrightarrow> takeWhile (\<lambda>x. x \<noteq> (10 :: nat)) l = l"
  by (induction l) auto

lemma lines_at_line: "10 \<notin> set l \<Longrightarrow> lines_at off (l @ 10 # r) = (off, l) # lines_at (off + length l + 1) r"
  by (cases l) (simp_all add: lines_at.simps(2) Let_def)

lemma lines_at_open: "10 \<notin> set l \<Longrightarrow> l \<noteq> [] \<Longrightarrow> lines_at off l = [(off, l)]"
  by (cases l) (simp_all add: lines_at.simps(2) Let_def)

text \<open>A text that ends where a line ends.\<close>

definition whole_lines :: "bytes \<Rightarrow> bool" where
  "whole_lines b \<longleftrightarrow> b = [] \<or> last b = 10"

lemma split_first_line: "10 \<in> set b \<Longrightarrow> \<exists>l r. b = l @ 10 # r \<and> 10 \<notin> set l"
  by (rule split_list_first)

lemma lines_at_append: "whole_lines a \<Longrightarrow> lines_at off (a @ b) = lines_at off a @ lines_at (off + length a) b"
proof (induction "length a" arbitrary: a off rule: less_induct)
  case less
  show ?case
  proof (cases "a = []")
    case False
    then have "10 \<in> set a" using less.prems by (metis whole_lines_def last_in_set)
    then obtain l r where a: "a = l @ 10 # r" "10 \<notin> set l" using split_first_line by blast
    have "whole_lines r" using less.prems False a by (cases r) (simp_all add: whole_lines_def)
    then have "lines_at (off + length l + 1) (r @ b) = lines_at (off + length l + 1) r @ lines_at (off + length l + 1 + length r) b"
      using less.hyps a by simp
    then show ?thesis using a by (simp add: lines_at_line add.assoc add.commute add.left_commute)
  qed simp
qed

lemma records_append: "whole_lines a \<Longrightarrow> log_records env off (a @ b) = log_records env off a @ log_records env (off + length a) b"
  by (simp add: log_records_def lines_at_append List.map_filter_def)

lemma records_line: "10 \<notin> set l \<Longrightarrow> log_records env off (l @ [10]) = (case record_of env (off, l) of None \<Rightarrow> [] | Some e \<Rightarrow> [e])"
  by (simp add: log_records_def lines_at_line List.map_filter_def split: option.splits)

lemma records_open: "10 \<notin> set l \<Longrightarrow> l \<noteq> [] \<Longrightarrow> log_records env off l = (case record_of env (off, l) of None \<Rightarrow> [] | Some e \<Rightarrow> [e])"
  by (simp add: log_records_def lines_at_open List.map_filter_def split: option.splits)

lemma records_Nil [simp]: "log_records env off [] = []"
  by (simp add: log_records_def List.map_filter_def)

lemma last_newline_None: "last_newline b n = None \<longleftrightarrow> 10 \<notin> set (take n b)"
proof (induction n)
  case (Suc n)
  then show ?case by (cases "n < length b") (auto simp: take_Suc_conv_app_nth)
qed simp

lemma last_newline_Some: "last_newline b n = Some i \<Longrightarrow> i < n \<and> i < length b \<and> b ! i = 10 \<and> 10 \<notin> set (drop (i + 1) (take n b))"
proof (induction n)
  case (Suc n)
  show ?case
  proof (cases "n < length b \<and> b ! n = 10")
    case True
    with Suc.prems show ?thesis by simp
  next
    case False
    then have i: "last_newline b n = Some i" using Suc.prems by (simp split: if_splits)
    with Suc.IH have h: "i < n" "i < length b" "b ! i = 10" "10 \<notin> set (drop (i + 1) (take n b))" by auto
    then show ?thesis using False by (cases "n < length b") (auto simp: take_Suc_conv_app_nth)
  qed
qed simp

lemma first_newline_None: "first_newline b = None \<longleftrightarrow> 10 \<notin> set b"
  by (induction b) auto

lemma first_newline_Some: "first_newline b = Some i \<Longrightarrow> i < length b \<and> b ! i = 10 \<and> 10 \<notin> set (take i b)"
  by (induction b arbitrary: i) (auto split: if_splits)

text \<open>What is before \<open>scan_end\<close>: earlier lines, and the last line with or without its end.\<close>

lemma last_line_split:
  assumes "0 < k" "k \<le> length b"
  defines "e \<equiv> line_end b k"
  defines "s \<equiv> (case last_newline b e of None \<Rightarrow> 0 | Some i \<Rightarrow> i + 1)"
  shows "take k b = take s b @ take (e - s) (drop s b) @ (if e < k then [10] else [])" "whole_lines (take s b)"
    "10 \<notin> set (take (e - s) (drop s b))" "s \<le> e" "s < k"
proof -
  have e: "e \<le> k" "e = k \<or> e + 1 = k \<and> b ! e = 10" "b ! (k - 1) \<noteq> 10 \<or> e + 1 = k" using assms(1) by (auto simp: e_def line_end_def)
  show se: "s \<le> e" using last_newline_less [of b e] by (auto simp: s_def split: option.splits)
  show "s < k"
  proof (cases "last_newline b e")
    case (Some i)
    then have "i < e" "b ! i = 10" using last_newline_less [OF Some] last_newline_char [OF Some] by auto
    with Some e show ?thesis by (cases "i = k - 1") (auto simp: s_def)
  qed (use assms(1) in \<open>simp add: s_def\<close>)
  have "take e b = take s b @ take (e - s) (drop s b)" using se by (metis append_take_drop_id drop_take min.absorb1 take_take)
  moreover have "take k b = take e b @ (if e < k then [10] else [])"
    using e assms(2) by (auto simp: take_Suc_conv_app_nth dest!: sym [of "Suc e"])
  ultimately show "take k b = take s b @ take (e - s) (drop s b) @ (if e < k then [10] else [])" by simp
  show "whole_lines (take s b)"
    using last_newline_Some [of b e] by (auto simp: s_def whole_lines_def take_Suc_conv_app_nth split: option.splits)
  show "10 \<notin> set (take (e - s) (drop s b))"
    using last_newline_None [of b e] last_newline_Some [of b e] by (auto simp: s_def drop_take split: option.splits)
qed


lemma parse_step:
  assumes "0 < k" "k \<le> length b"
  defines "e \<equiv> line_end b k"
  defines "s \<equiv> (case last_newline b e of None \<Rightarrow> 0 | Some i \<Rightarrow> i + 1)"
  shows "log_records env base (take k b) = log_records env base (take s b) @
     (case record_of env (base + s, take (e - s) (drop s b)) of None \<Rightarrow> [] | Some x \<Rightarrow> [x])"
proof -
  note sp = last_line_split [OF assms(1,2), folded e_def, folded s_def]
  let ?l = "take (e - s) (drop s b)"
  have len: "length (take s b) = s" using sp(5) assms(2) by simp
  have "log_records env (base + s) (?l @ (if e < k then [10] else [])) = (case record_of env (base + s, ?l) of None \<Rightarrow> [] | Some x \<Rightarrow> [x])"
  proof (cases "e < k")
    case False
    then have "e = k" using sp(1) by (auto simp: e_def line_end_def)
    then have "?l \<noteq> []" using sp(5) assms(2) by simp
    with False sp(3) show ?thesis by (simp add: records_open)
  qed (use sp(3) in \<open>simp add: records_line\<close>)
  then show ?thesis unfolding sp(1) using records_append [OF sp(2), of env base] len by simp
qed

lemma parse_backwards_spec:
  "k \<le> length b \<Longrightarrow> length res \<le> mx \<Longrightarrow> parse_backwards env b base mx k res = take mx (res @ rev (log_records env base (take k b)))"
proof (induction k arbitrary: res rule: less_induct)
  case (less k)
  show ?case
  proof (cases "k = 0 \<or> mx \<le> length res")
    case True
    then show ?thesis using less.prems by (auto simp: parse_backwards.simps [of env b base mx k res])
  next
    case False
    define e where "e = line_end b k"
    define s where "s = (case last_newline b e of None \<Rightarrow> 0 | Some i \<Rightarrow> i + 1)"
    define x where "x = (case record_of env (base + s, take (e - s) (drop s b)) of None \<Rightarrow> [] | Some x \<Rightarrow> [x])"
    have k: "0 < k" "k \<le> length b" using False less.prems by auto
    have le: "length (take (e - s) (drop s b)) = e - s"
      using k last_line_split(4,5) [OF k, folded e_def, folded s_def] by (auto simp: e_def line_end_def)
    have st: "log_records env base (take k b) = log_records env base (take s b) @ x"
      using parse_step [OF k, of env base] by (simp add: e_def s_def x_def)
    have lx: "length (res @ x) \<le> mx" "rev x = x" using False by (auto simp: x_def split: option.splits)
    have r: "(if e - s \<le> kMaxLogLineBytes then case parse_line env (base + s) (take (e - s) (drop s b)) of None \<Rightarrow> res | Some e \<Rightarrow> res @ [e] else res) = res @ x"
      using le by (simp add: x_def record_of_def split: option.splits)
    have "parse_backwards env b base mx k res = (case last_newline b e of
        None \<Rightarrow> (if e - s \<le> kMaxLogLineBytes then case parse_line env (base + s) (take (e - s) (drop s b)) of None \<Rightarrow> res | Some e \<Rightarrow> res @ [e] else res)
      | Some i \<Rightarrow> parse_backwards env b base mx (i + 1)
          (if e - s \<le> kMaxLogLineBytes then case parse_line env (base + s) (take (e - s) (drop s b)) of None \<Rightarrow> res | Some e \<Rightarrow> res @ [e] else res))"
      using False unfolding e_def s_def by (subst parse_backwards.simps) (simp add: Let_def)
    then have u: "parse_backwards env b base mx k res = (case last_newline b e of None \<Rightarrow> res @ x | Some i \<Rightarrow> parse_backwards env b base mx (i + 1) (res @ x))"
      unfolding r .
    show ?thesis
    proof (cases "last_newline b e")
      case None
      then have "s = 0" by (simp add: s_def)
      then show ?thesis using None u st lx by simp
    next
      case (Some i)
      then have "s = i + 1" by (simp add: s_def)
      moreover have "i + 1 \<le> length b" using last_newline_char [OF Some] by simp
      moreover have "i + 1 < k" using line_step_less [OF k(1), of b i] Some by (simp add: e_def)
      ultimately show ?thesis using Some u st lx less.IH [of "i + 1" "res @ x"] by simp
    qed
  qed
qed

lemma ParseCompleteLines_spec: "ParseCompleteLines env b base mx = take mx (rev (log_records env base b))"
  using parse_backwards_spec [of "length b" b "[]" mx env base] by (simp add: ParseCompleteLines_def)


section \<open>Reading backwards\<close>

definition file_of :: "bytes \<Rightarrow> logfile" where
  "file_of c = \<lparr>lf_size = length c, lf_seek = (\<lambda>_. True), lf_read = (\<lambda>p n. take n (drop p c))\<rparr>"

lemma file_of_sel [simp]: "lf_size (file_of c) = length c" "lf_seek (file_of c) p" "lf_read (file_of c) p n = take n (drop p c)"
  by (simp_all add: file_of_def)

lemma read_block_file: "cursor \<le> length c \<Longrightarrow>
  read_block (file_of c) cursor = Some (cursor - TAIL_READ_BLOCK_SIZE, take (cursor - (cursor - TAIL_READ_BLOCK_SIZE)) (drop (cursor - TAIL_READ_BLOCK_SIZE) c))"
  by (simp add: read_block_def Let_def)

lemma last_newline_drop:
  "last_newline c (start + n) = (case last_newline (drop start c) n of Some i \<Rightarrow> Some (start + i) | None \<Rightarrow> last_newline c start)"
  by (induction n) (auto split: option.splits)

lemma last_newline_take: "n \<le> m \<Longrightarrow> last_newline (take m b) n = last_newline b n"
  by (induction n) auto

lemma find_end_spec: "cursor \<le> length c \<Longrightarrow> find_end (file_of c) cursor = Some (map_option Suc (last_newline c cursor))"
proof (induction cursor rule: less_induct)
  case (less k)
  show ?case
  proof (cases "k = 0")
    case False
    define s where "s = k - TAIL_READ_BLOCK_SIZE"
    have s: "s < k" using False by (simp add: s_def TAIL_READ_BLOCK_SIZE_def)
    have "last_newline c k = (case last_newline (take (k - s) (drop s c)) (k - s) of Some i \<Rightarrow> Some (s + i) | None \<Rightarrow> last_newline c s)"
      using last_newline_drop [of c s "k - s"] s by (simp add: last_newline_take)
    moreover have "length (take (k - s) (drop s c)) = k - s" using less.prems by simp
    moreover have "find_end (file_of c) s = Some (map_option Suc (last_newline c s))" using less s by simp
    ultimately show ?thesis using False read_block_file [OF less.prems] unfolding find_end.simps [of "file_of c" k]
      by (simp add: s_def [symmetric] split: option.splits)
  qed (simp add: find_end.simps)
qed

text \<open>No line has exactly the greatest length that is shown: the reader of the tail counts the line feed when such a line starts a block and drops it.\<close>

definition no_boundary_line :: "bytes \<Rightarrow> bool" where
  "no_boundary_line d \<longleftrightarrow> (\<forall>ol\<in>set (lines_at 0 d). length (snd ol) \<noteq> kMaxLogLineBytes)"

lemma whole_lines_simps [simp]: "whole_lines []" "whole_lines (x @ [10])"
  by (simp_all add: whole_lines_def)

lemma whole_lines_append: "whole_lines a \<Longrightarrow> whole_lines b \<Longrightarrow> whole_lines (a @ b)"
  by (cases "b = []") (auto simp: whole_lines_def)

lemma whole_lines_suffix: "whole_lines (a @ b) \<Longrightarrow> whole_lines b"
  by (cases "b = []") (auto simp: whole_lines_def)

lemma oversized_gone:
  assumes "no_boundary_line (p @ (x @ [10]) @ rest)" "whole_lines p" "10 \<notin> set x" "kMaxLogLineBytes < length (x @ [10])"
  shows "log_records env off ((x @ [10]) @ rest) = log_records env (off + length (x @ [10])) rest"
proof -
  have "(length p, x) \<in> set (lines_at 0 (p @ (x @ [10]) @ rest))" using assms(2,3) by (simp add: lines_at_append lines_at_line)
  then have "length x \<noteq> kMaxLogLineBytes" using assms(1) by (auto simp: no_boundary_line_def)
  then have "log_records env off (x @ [10]) = []" using assms(3,4) by (simp add: records_line record_of_def)
  then show ?thesis using records_append [of "x @ [10]" env off rest] by simp
qed

text \<open>The records found so far are the newest ones of the lines already passed.\<close>

definition found :: "log_env \<Rightarrow> nat \<Rightarrow> nat \<Rightarrow> bytes \<Rightarrow> LogLine list \<Rightarrow> bool" where
  "found env target off rest newest \<longleftrightarrow> newest = take target (rev (log_records env off rest))"

lemma found_more:
  assumes "found env target (off + length seg) rest newest" "whole_lines seg" "length newest < target"
  shows "found env target off (seg @ rest) (newest @ ParseCompleteLines env seg off (target - length newest))"
proof -
  have n: "newest = rev (log_records env (off + length seg) rest)" using assms(1,3) by (auto simp: found_def)
  show ?thesis unfolding found_def records_append [OF assms(2)] ParseCompleteLines_spec using assms(3) by (simp add: n)
qed

lemma found_all: "found env target (off + length seg) rest newest \<Longrightarrow> whole_lines seg \<Longrightarrow> target \<le> length newest \<Longrightarrow> newest = take target (rev (log_records env off (seg @ rest)))"
  by (auto simp: found_def records_append)


text \<open>Where the loop stands: what it has passed, and the end of a line that reaches beyond what it has passed.\<close>

inductive tail_state :: "log_env \<Rightarrow> bytes \<Rightarrow> bytes \<Rightarrow> nat \<Rightarrow> nat \<Rightarrow> LogLine list \<Rightarrow> bytes \<Rightarrow> bool \<Rightarrow> bool"
  for env c d target where
  at_line: "d = take k c @ rest \<Longrightarrow> whole_lines (take k c) \<Longrightarrow> found env target k rest newest \<Longrightarrow> tail_state env c d target k newest [] False"
| carrying: "d = take k c @ (x @ [10]) @ rest \<Longrightarrow> 10 \<notin> set x \<Longrightarrow> 0 < k \<Longrightarrow> found env target (k + length (x @ [10])) rest newest \<Longrightarrow>
    tail_state env c d target k newest (x @ [10]) False"
| discarding: "d = take k c @ (x @ [10]) @ rest \<Longrightarrow> 10 \<notin> set x \<Longrightarrow> kMaxLogLineBytes < length (x @ [10]) \<Longrightarrow>
    found env target (k + length (x @ [10])) rest newest \<Longrightarrow> tail_state env c d target k newest [] True"

lemma tail_state_done:
  assumes "tail_state env c d target k newest carry disc" "k \<le> length c" "k = 0 \<or> target \<le> length newest" "no_boundary_line d" "whole_lines d"
  shows "newest = take target (rev (log_records env 0 d))"
  using assms(1)
proof cases
  case (at_line rest)
  then show ?thesis using assms(2,3) found_all [of env target 0 "take k c" rest newest] by (auto simp: found_def)
next
  case (carrying x rest)
  have "whole_lines (take k c @ x @ [10])" using whole_lines_simps(2) [of "take k c @ x"] by simp
  with carrying show ?thesis using assms(2,3) found_all [of env target 0 "take k c @ x @ [10]" rest newest] by (simp add: add.assoc)
next
  case (discarding x rest)
  show ?thesis
  proof (cases "k = 0")
    case True
    then show ?thesis using discarding assms(4) oversized_gone [of "[]" x rest env 0] by (simp add: found_def)
  next
    case False
    have "whole_lines (take k c @ x @ [10])" using whole_lines_simps(2) [of "take k c @ x"] by simp
    with discarding False show ?thesis using assms(2,3) found_all [of env target 0 "take k c @ x @ [10]" rest newest] by (simp add: add.assoc)
  qed
qed


lemma data_step_start:
  assumes "d = data @ rest" "whole_lines data" "found env target (length data) rest newest" "length newest < target"
  shows "tail_state env c d target 0 (newest @ ParseCompleteLines env data 0 (target - length newest)) [] False"
  using assms found_more [of env target 0 data rest newest] by (intro at_line [of _ _ _ "data @ rest"]) simp_all

lemma data_step:
  assumes d: "d = take s c @ data @ rest" and w: "whole_lines data" "data \<noteq> []" and f: "found env target (s + length data) rest newest"
    and n: "length newest < target" and s: "0 < s"
  obtains i where "first_newline data = Some i"
    "tail_state env c d target s (newest @ ParseCompleteLines env (drop (i + 1) data) (s + i + 1) (target - length newest))
       (if kMaxLogLineBytes < length (take (i + 1) data) then [] else take (i + 1) data) (kMaxLogLineBytes < length (take (i + 1) data))"
proof -
  have "10 \<in> set data" using w by (metis last_in_set whole_lines_def)
  then obtain i where i: "first_newline data = Some i" using first_newline_None [of data] by auto
  note fi = first_newline_Some [OF i]
  have t: "take (i + 1) data = take i data @ [10]" using fi by (simp add: take_Suc_conv_app_nth)
  have dd: "data = (take i data @ [10]) @ drop (i + 1) data" using t by (metis append_take_drop_id)
  have wd: "whole_lines (drop (i + 1) data)" using w(1) dd whole_lines_suffix by metis
  have "s + i + 1 + length (drop (i + 1) data) = s + length data" using fi by (simp only: length_drop) arith
  then have fm: "found env target (s + i + 1) (drop (i + 1) data @ rest) (newest @ ParseCompleteLines env (drop (i + 1) data) (s + i + 1) (target - length newest))"
    using found_more [OF _ wd n, of env "s + i + 1" rest] f by metis
  have l: "s + length (take i data @ [10]) = s + i + 1" using fi by simp
  have d2: "d = take s c @ (take i data @ [10]) @ drop (i + 1) data @ rest" using d dd by simp
  show thesis
  proof (rule that [OF i], cases "kMaxLogLineBytes < length (take (i + 1) data)")
    case True
    then show "tail_state env c d target s (newest @ ParseCompleteLines env (drop (i + 1) data) (s + i + 1) (target - length newest))
       (if kMaxLogLineBytes < length (take (i + 1) data) then [] else take (i + 1) data) (kMaxLogLineBytes < length (take (i + 1) data))"
      using tail_state.discarding [OF d2, of env target] fi fm l unfolding t by simp
  next
    case False
    then show "tail_state env c d target s (newest @ ParseCompleteLines env (drop (i + 1) data) (s + i + 1) (target - length newest))
       (if kMaxLogLineBytes < length (take (i + 1) data) then [] else take (i + 1) data) (kMaxLogLineBytes < length (take (i + 1) data))"
      using tail_state.carrying [OF d2 _ s, of env target] fi fm l unfolding t by simp
  qed
qed


text \<open>The state after one block, with what the loop goes on with.\<close>

lemma block_data:
  assumes st: "tail_state env c d target k newest carry disc" and k: "0 < k" "k \<le> length c" and nb: "no_boundary_line d"
    and s: "s < k" and chunk: "chunk = take (k - s) (drop s c)"
  shows "(case (if disc then map_option (\<lambda>i. take (i + 1) chunk) (last_newline chunk (length chunk)) else Some (chunk @ carry)) of
      None \<Rightarrow> tail_state env c d target s newest carry disc
    | Some data \<Rightarrow> data \<noteq> [] \<and> whole_lines data \<and> (\<exists>rest. d = take s c @ data @ rest \<and> found env target (s + length data) rest newest))"
proof -
  have tk: "take k c = take s c @ chunk" using s k by (simp add: chunk flip: take_add)
  have ch: "length chunk = k - s" "chunk \<noteq> []" using s k by (auto simp: chunk)
  from st show ?thesis
  proof cases
    case (at_line rest)
    have "whole_lines chunk" using at_line(4) tk whole_lines_suffix by metis
    then show ?thesis using at_line tk ch s by (auto intro!: exI [of _ rest])
  next
    case (carrying x rest)
    have "whole_lines (chunk @ x @ [10])" using whole_lines_simps(2) [of "chunk @ x"] by simp
    then show ?thesis using carrying tk ch s by (auto intro!: exI [of _ rest])
  next
    case (discarding x rest)
    show ?thesis
    proof (cases "last_newline chunk (length chunk)")
      case None
      then have "10 \<notin> set (chunk @ x)" using discarding(4) by (simp add: last_newline_None)
      then have "tail_state env c d target s newest [] True"
        using discarding tk ch s tail_state.discarding [of d s c "chunk @ x" rest env target newest] by simp
      with None discarding show ?thesis by simp
    next
      case (Some i)
      note li = last_newline_Some [OF Some]
      let ?y = "drop (i + 1) chunk @ x"
      have y: "10 \<notin> set ?y" using li discarding(4) by simp
      have data: "take (i + 1) chunk = take i chunk @ [10]" using li by (simp add: take_Suc_conv_app_nth)
      have d2: "d = (take s c @ take (i + 1) chunk) @ (?y @ [10]) @ rest" using discarding(3) tk by (metis append.assoc append_take_drop_id)
      have "whole_lines (take s c @ take (i + 1) chunk)" using data whole_lines_simps(2) [of "take s c @ take i chunk"] by simp
      with oversized_gone [of "take s c @ take (i + 1) chunk" ?y rest env "s + (i + 1)"] nb d2 y discarding(5)
      have "log_records env (s + (i + 1)) ((?y @ [10]) @ rest) = log_records env (s + (i + 1) + length (?y @ [10])) rest" by simp
      moreover have "s + (i + 1) + length (?y @ [10]) = k + length (x @ [10])" using li ch s by simp arith
      ultimately have "found env target (s + (i + 1)) ((?y @ [10]) @ rest) newest" using discarding(6) unfolding found_def by metis
      moreover have "length (take (i + 1) chunk) = i + 1" using li by simp
      ultimately show ?thesis using Some discarding d2 data by simp
    qed
  qed
qed


lemma tail_loop_spec:
  assumes "no_boundary_line d" "whole_lines d"
  shows "tail_state env c d target k newest carry disc \<Longrightarrow> k \<le> length c \<Longrightarrow>
    tail_loop env (file_of c) target k newest carry disc = Some (take target (rev (log_records env 0 d)))"
proof (induction k arbitrary: newest carry disc rule: less_induct)
  case (less k)
  show ?case
  proof (cases "k = 0 \<or> target \<le> length newest")
    case True
    then show ?thesis using tail_state_done [OF less.prems True assms] unfolding tail_loop.simps [of env "file_of c" target k] by simp
  next
    case False
    define s where "s = k - TAIL_READ_BLOCK_SIZE"
    define chunk where "chunk = take (k - s) (drop s c)"
    define opt where "opt = (if disc then map_option (\<lambda>i. take (i + 1) chunk) (last_newline chunk (length chunk)) else Some (chunk @ carry))"
    have s: "s < k" using False by (simp add: s_def TAIL_READ_BLOCK_SIZE_def)
    have rb: "read_block (file_of c) k = Some (s, chunk)" using read_block_file [OF less.prems(2)] by (simp add: s_def chunk_def)
    note bd = block_data [OF less.prems(1) _ less.prems(2) assms(1) s chunk_def, folded opt_def]
    note IH = less.IH [OF s]
    have u: "tail_loop env (file_of c) target k newest carry disc =
      (case opt of
         None \<Rightarrow> tail_loop env (file_of c) target s newest carry disc
       | Some data \<Rightarrow>
           if s = 0 then tail_loop env (file_of c) target s (newest @ ParseCompleteLines env data s (target - length newest)) [] False
           else (case first_newline data of
               None \<Rightarrow> if kMaxLogLineBytes < length data then tail_loop env (file_of c) target s newest [] True else tail_loop env (file_of c) target s newest data False
             | Some i \<Rightarrow> tail_loop env (file_of c) target s (newest @ ParseCompleteLines env (drop (i + 1) data) (s + i + 1) (target - length newest))
                 (if kMaxLogLineBytes < length (take (i + 1) data) then [] else take (i + 1) data) (kMaxLogLineBytes < length (take (i + 1) data))))"
      unfolding tail_loop.simps [of env "file_of c" target k newest carry disc] rb opt_def Let_def by (simp only: False if_False option.case prod.case)
    show ?thesis
    proof (cases opt)
      case None
      then show ?thesis using bd IH less.prems(2) s False unfolding u by simp
    next
      case (Some data)
      then obtain rest where r: "data \<noteq> []" "whole_lines data" "d = take s c @ data @ rest" "found env target (s + length data) rest newest"
        using bd False by auto
      show ?thesis
      proof (cases "s = 0")
        case True
        then show ?thesis using data_step_start [of d data rest env target newest c] r IH False Some unfolding u by simp
      next
        case F: False
        then have "0 < s" by simp
        from data_step [OF r(3,2,1,4) _ this] False obtain i where i: "first_newline data = Some i"
          "tail_state env c d target s (newest @ ParseCompleteLines env (drop (i + 1) data) (s + i + 1) (target - length newest))
             (if kMaxLogLineBytes < length (take (i + 1) data) then [] else take (i + 1) data) (kMaxLogLineBytes < length (take (i + 1) data))"
          by (metis not_le)
        show ?thesis using IH [OF i(2)] less.prems(2) s F Some i(1) unfolding u by simp
      qed
    qed
  qed
qed


section \<open>What a read returns\<close>

text \<open>The terminated lines of a text, the unfinished line after them, and what a reader keeps of it.\<close>

definition complete_part :: "bytes \<Rightarrow> bytes" where
  "complete_part c = (case last_newline c (length c) of None \<Rightarrow> [] | Some i \<Rightarrow> take (i + 1) c)"

definition partial_part :: "bytes \<Rightarrow> bytes" where
  "partial_part c = drop (length (complete_part c)) c"

definition kept_partial :: "bytes \<Rightarrow> bytes" where
  "kept_partial c = (if kMaxLogLineBytes < length (partial_part c) then [] else partial_part c)"

definition unfinished_oversized :: "bytes \<Rightarrow> bool" where
  "unfinished_oversized c \<longleftrightarrow> kMaxLogLineBytes < length (partial_part c)"

definition anchor_of :: "bytes \<Rightarrow> bytes" where
  "anchor_of c = drop (length c - min (length c) FILE_ANCHOR_SIZE) c"

definition all_records :: "log_env \<Rightarrow> bytes \<Rightarrow> LogLine list" where
  "all_records env c = log_records env 0 (complete_part c)"

definition new_records :: "log_env \<Rightarrow> bytes \<Rightarrow> bytes \<Rightarrow> LogLine list" where
  "new_records env c app = log_records env (length (complete_part c)) (complete_part (partial_part c @ app))"

lemma complete_partial [simp]: "complete_part c @ partial_part c = c"
  by (auto simp: complete_part_def partial_part_def min_def dest!: last_newline_char split: option.splits)

lemma complete_part_none: "10 \<notin> set c \<Longrightarrow> complete_part c = []"
  using last_newline_None [of c "length c"] by (simp add: complete_part_def)

lemma complete_part_snoc: "10 \<notin> set p \<Longrightarrow> complete_part (a @ 10 # p) = a @ [10]"
proof -
  assume p: "10 \<notin> set p"
  have "last_newline (a @ 10 # p) (length a + 1 + length p) = Some (length a)"
    using last_newline_drop [of "a @ 10 # p" "length a + 1" "length p"] p last_newline_None [of p "length p"] by simp
  then show ?thesis by (simp add: complete_part_def)
qed

lemma split_last_line: "10 \<in> set b \<Longrightarrow> \<exists>l r. b = l @ 10 # r \<and> 10 \<notin> set r"
  using split_list_last [of 10 b] by auto

lemma complete_part_append: "complete_part (a @ b) = (if 10 \<in> set b then a @ complete_part b else complete_part a)"
proof (cases "10 \<in> set b")
  case True
  then obtain l r where "b = l @ 10 # r" "10 \<notin> set r" using split_last_line by blast
  then show ?thesis using complete_part_snoc [of r "a @ l"] complete_part_snoc [of r l] by simp
next
  case b: False
  show ?thesis
  proof (cases "10 \<in> set a")
    case True
    then obtain l r where "a = l @ 10 # r" "10 \<notin> set r" using split_last_line by blast
    then show ?thesis using b complete_part_snoc [of "r @ b" l] complete_part_snoc [of r l] by simp
  qed (use b complete_part_none [of a] complete_part_none [of "a @ b"] in auto)
qed

lemma partial_part_append: "partial_part (a @ b) = (if 10 \<in> set b then partial_part b else partial_part a @ b)"
  using complete_part_append [of a b] complete_partial [of a] complete_partial [of "a @ b"] complete_partial [of b]
  by (metis append.assoc append_eq_append_conv)

lemma no_newline_partial: "10 \<notin> set (partial_part c)"
proof (cases "10 \<in> set c")
  case True
  then obtain l r where "c = l @ 10 # r" "10 \<notin> set r" using split_last_line by blast
  then show ?thesis using complete_part_snoc [of r l] by (simp add: partial_part_def)
qed (metis UnI2 complete_partial set_append)

lemma whole_complete [simp]: "whole_lines (complete_part c)"
proof (cases "10 \<in> set c")
  case True
  then obtain l r where "c = l @ 10 # r" "10 \<notin> set r" using split_last_line by blast
  then show ?thesis using complete_part_snoc [of r l] by simp
qed (simp add: complete_part_none)

lemma complete_extend: "complete_part (c @ app) = complete_part c @ complete_part (partial_part c @ app)"
  using no_newline_partial [of c] complete_partial [of c] complete_part_none [of "partial_part c @ app"]
  by (simp add: complete_part_append flip: append.assoc)

lemma all_records_extend: "all_records env (c @ app) = all_records env c @ new_records env c app"
  unfolding all_records_def new_records_def complete_extend [of c app] records_append [OF whole_complete [of c]] by simp

lemma find_end_complete: "find_end (file_of c) (length c) = Some (if complete_part c = [] then None else Some (length (complete_part c)))"
  by (auto simp: find_end_spec complete_part_def dest!: last_newline_char split: option.splits)

lemma ReadAnchor_spec: "ReadAnchor (file_of c) (length c) = anchor_of c"
  by (auto simp: ReadAnchor_def anchor_of_def FILE_ANCHOR_SIZE_def Let_def)

lemma tail_partial_spec: "tail_partial (file_of c) (length (complete_part c)) = Some (kept_partial c, unfinished_oversized c)"
proof -
  have "length (partial_part c) = length c - length (complete_part c)" by (simp add: partial_part_def)
  moreover have "partial_part c = drop (length (complete_part c)) c" by (simp add: partial_part_def)
  ultimately show ?thesis by (auto simp: tail_partial_def Let_def kept_partial_def unfinished_oversized_def)
qed

text \<open>The result of reading the content \<open>c\<close> with the lines \<open>ls\<close>.\<close>

definition read_of :: "bytes \<Rightarrow> bool \<Rightarrow> nat \<Rightarrow> LogLine list \<Rightarrow> bool \<Rightarrow> ReadResult" where
  "read_of c snapshot n ls has_more = empty_result\<lparr>file_opened := True, full_snapshot := snapshot, snapshot_limit := n,
     rr_file_size := Some (length c), rr_file_anchor := anchor_of c, trailing_partial := kept_partial c,
     discarding_oversized_line := unfinished_oversized c, rr_lines := ls, rr_has_more_lines := has_more\<rparr>"

lemma ReadTail_spec:
  assumes nb: "no_boundary_line (complete_part c)" and n: "n \<le> kMaxLoadLimit"
  shows "ReadTail env path (Log_open (file_of c)) n = read_of c True n (take n (rev (all_records env c))) (n < length (all_records env c))"
proof (cases "complete_part c = []")
  case True
  then show ?thesis using tail_partial_spec [of c] n
    by (simp add: ReadTail_def find_end_complete ReadAnchor_spec read_of_def empty_result_def all_records_def)
next
  case False
  let ?k = "length (complete_part c)"
  have "take ?k c = complete_part c" "?k \<le> length c" using complete_partial [of c] by (metis append_eq_conv_conj, metis le_add1 length_append)
  then have "tail_state env c (complete_part c) (n + 1) ?k [] [] False"
    by (intro at_line [of _ _ _ "[]"]) (simp_all add: found_def)
  then have "tail_loop env (file_of c) (n + 1) ?k [] [] False = Some (take (n + 1) (rev (all_records env c)))"
    using tail_loop_spec [OF nb whole_complete, of env c] \<open>?k \<le> length c\<close> by (simp add: all_records_def)
  moreover have "n < length (all_records env c) \<Longrightarrow> butlast (take (n + 1) (rev (all_records env c))) = take n (rev (all_records env c))"
    by (simp add: butlast_take)
  ultimately show ?thesis using False n tail_partial_spec [of c]
    by (auto simp: ReadTail_def find_end_complete ReadAnchor_spec read_of_def empty_result_def min_absorb1)
qed


lemma length_complete_partial: "length (complete_part c) + length (partial_part c) = length c"
  by (metis complete_partial length_append)

lemma partial_after_line: "partial_part ((x @ [10]) @ b) = partial_part b"
  using complete_part_append [of "x @ [10]" b] complete_part_snoc [of "[]" x] by (simp add: partial_part_def complete_part_none)

lemma ReadAnchor_append: "ReadAnchor (file_of (c @ app)) (length c + length app) = anchor_of (c @ app)"
  using ReadAnchor_spec [of "c @ app"] by simp

text \<open>An unfinished line that is already too long leaves nothing when it is finished.\<close>

lemma discarded_line:
  assumes "unfinished_oversized c" "first_newline app = Some i"
  shows "complete_part (partial_part c @ app) = (partial_part c @ take (i + 1) app) @ complete_part (drop (i + 1) app)"
    "new_records env c app = log_records env (length c + i + 1) (complete_part (drop (i + 1) app))"
proof -
  note fi = first_newline_Some [OF assms(2)]
  have t: "take (i + 1) app = take i app @ [10]" using fi by (simp add: take_Suc_conv_app_nth)
  have "10 \<in> set app" using fi nth_mem [of i app] by simp
  have "complete_part ((take i app @ [10]) @ drop (i + 1) app) = (take i app @ [10]) @ complete_part (drop (i + 1) app)"
    using complete_part_append [of "take i app @ [10]" "drop (i + 1) app"] complete_part_snoc [of "[]" "take i app"]
    by (simp add: complete_part_none)
  then have "complete_part app = take (i + 1) app @ complete_part (drop (i + 1) app)" using t by (metis append_take_drop_id)
  then show cp: "complete_part (partial_part c @ app) = (partial_part c @ take (i + 1) app) @ complete_part (drop (i + 1) app)"
    using complete_part_append [of "partial_part c" app] \<open>10 \<in> set app\<close> by simp
  let ?l = "partial_part c @ take i app"
  have l: "10 \<notin> set ?l" using fi no_newline_partial [of c] by simp
  have "log_records env (length (complete_part c)) (?l @ [10]) = []"
    using assms(1) unfolding records_line [OF l] by (simp add: record_of_def unfinished_oversized_def)
  moreover have "length (complete_part c) + length (?l @ [10]) = length c + i + 1"
    using fi length_complete_partial [of c] by simp
  ultimately show "new_records env c app = log_records env (length c + i + 1) (complete_part (drop (i + 1) app))"
    using records_append [OF whole_lines_simps(2) [of ?l], of env "length (complete_part c)" "complete_part (drop (i + 1) app)"] cp t by (simp add: new_records_def)
qed


text \<open>What is parsed after an append: the text from the end of the last terminated or discarded line.\<close>

lemma delta_combined:
  assumes "(if unfinished_oversized c then case first_newline app of None \<Rightarrow> None | Some i \<Rightarrow> Some (drop (i + 1) app, length c + i + 1)
    else Some (kept_partial c @ app, length c - length (kept_partial c))) = Some (b, off)"
  shows "partial_part b = partial_part (c @ app)" "log_records env off (complete_part b) = new_records env c app"
proof -
  have "partial_part b = partial_part (c @ app) \<and> log_records env off (complete_part b) = new_records env c app"
  proof (cases "unfinished_oversized c")
    case True
    then obtain i where i: "first_newline app = Some i" "b = drop (i + 1) app" "off = length c + i + 1" using assms by (auto split: option.splits)
    note fi = first_newline_Some [OF i(1)]
    have "app = (take i app @ [10]) @ b" using fi i(2) id_take_nth_drop [of i app] by simp
    then have "partial_part (c @ app) = partial_part b" using partial_after_line [of "c @ take i app" b] by simp
    then show ?thesis using discarded_line(2) [OF True i(1)] i by simp
  next
    case False
    then have "b = partial_part c @ app" "off = length (complete_part c)"
      using assms length_complete_partial [of c] by (auto simp: kept_partial_def unfinished_oversized_def)
    moreover have "partial_part (partial_part c @ app) = partial_part (c @ app)"
      using partial_part_append [of "partial_part c" app] partial_part_append [of c app] no_newline_partial [of c]
      by (simp add: partial_part_def [of "partial_part c"] complete_part_none)
    ultimately show ?thesis by (simp add: new_records_def)
  qed
  then show "partial_part b = partial_part (c @ app)" "log_records env off (complete_part b) = new_records env c app" by simp_all
qed

text \<open>The lines a read of the appended bytes parses, and what it keeps.\<close>

lemma delta_parse:
  "delta_result env (file_of (c @ app)) n (length c) (kept_partial c) (unfinished_oversized c) app =
     (let new = new_records env c app; ls = take (min n kMaxLoadLimit + 1) (rev new) in read_of (c @ app) False 0 ls (n < length ls))"
proof -
  define comb where "comb = (if unfinished_oversized c then case first_newline app of None \<Rightarrow> None | Some i \<Rightarrow> Some (drop (i + 1) app, length c + i + 1)
    else Some (kept_partial c @ app, length c - length (kept_partial c)))"
  have fin: "(case last_newline b (length b) of
                None \<Rightarrow> if length b \<le> kMaxLogLineBytes then r\<lparr>trailing_partial := b\<rparr> else r\<lparr>discarding_oversized_line := True\<rparr>
              | Some last_nl \<Rightarrow>
                  let complete_size = last_nl + 1; partial = drop complete_size b;
                      result = (if length partial > kMaxLogLineBytes then r\<lparr>discarding_oversized_line := True\<rparr> else r\<lparr>trailing_partial := partial\<rparr>);
                      ls = ParseCompleteLines env (take complete_size b) off m
                  in result\<lparr>rr_lines := ls, rr_has_more_lines := (length ls > n)\<rparr>) =
      r\<lparr>trailing_partial := kept_partial b, discarding_oversized_line := unfinished_oversized b,
         rr_lines := take m (rev (log_records env off (complete_part b))), rr_has_more_lines := n < length (take m (rev (log_records env off (complete_part b))))\<rparr>"
    if "trailing_partial r = []" "\<not> discarding_oversized_line r" "rr_lines r = []" "\<not> rr_has_more_lines r" for b r off m
    using that last_newline_char [of b "length b"]
    by (cases r) (auto simp: complete_part_def kept_partial_def unfinished_oversized_def partial_part_def ParseCompleteLines_spec min_def Let_def split: option.splits)
  show ?thesis
  proof (cases "comb")
    case None
    then have u: "unfinished_oversized c" "first_newline app = None" by (auto simp: comb_def split: if_splits option.splits)
    then have "10 \<notin> set app" by (simp add: first_newline_None)
    with u show ?thesis
      by (simp add: delta_result_def new_records_def complete_part_none no_newline_partial read_of_def empty_result_def ReadAnchor_append kept_partial_def
          unfinished_oversized_def partial_part_append Let_def)
  next
    case (Some bo)
    obtain b off where bo: "bo = (b, off)" by (cases bo)
    have k: "kept_partial b = kept_partial (c @ app)" "unfinished_oversized b = unfinished_oversized (c @ app)"
      "log_records env off (complete_part b) = new_records env c app"
      using delta_combined [of c app b off] Some bo by (simp_all add: comb_def kept_partial_def unfinished_oversized_def)
    show ?thesis unfolding delta_result_def comb_def [symmetric] Some bo Let_def option.case prod.case
      by (subst fin [unfolded Let_def]) (simp_all add: k empty_result_def read_of_def ReadAnchor_append)
  qed
qed


lemma anchor_matches:
  "length (kept_partial c) \<le> length c" "length (anchor_of c) \<le> length c" "0 < length c \<Longrightarrow> anchor_of c \<noteq> []"
  "take (length (anchor_of c)) (drop (length c - length (anchor_of c)) (c @ app)) = anchor_of c"
  by (auto simp: kept_partial_def partial_part_def anchor_of_def FILE_ANCHOR_SIZE_def min_def)

text \<open>Reading on after an append: the records of the lines it completes, or the newest ones when too much was appended.\<close>

definition read_after :: "log_env \<Rightarrow> nat \<Rightarrow> bytes \<Rightarrow> bytes \<Rightarrow> ReadResult" where
  "read_after env n c app =
     (if length app > MAX_DELTA_BYTES \<or> length (kept_partial c) > MAX_DELTA_BYTES - length app
      then read_of (c @ app) True n (take n (rev (all_records env (c @ app)))) (n < length (all_records env (c @ app)))
      else read_of (c @ app) False 0 (take (n + 1) (rev (new_records env c app))) (n < length (new_records env c app)))"

lemma ReadAndFilter_full:
  assumes "no_boundary_line (complete_part c)" "n \<le> kMaxLoadLimit" "full \<or> prev = None"
  shows "ReadAndFilter env path (Log_open (file_of c)) n full prev p disc a =
    read_of c True n (take n (rev (all_records env c))) (n < length (all_records env c))"
  using assms ReadTail_spec [OF assms(1,2)] by (auto simp: ReadAndFilter_def)

lemma ReadAndFilter_append:
  assumes "no_boundary_line (complete_part (c @ app))" "n \<le> kMaxLoadLimit"
  shows "ReadAndFilter env path (Log_open (file_of (c @ app))) n False (Some (length c)) (kept_partial c) (unfinished_oversized c) (anchor_of c) =
    read_after env n c app"
  using anchor_matches [of c] ReadTail_spec [OF assms] delta_parse [of env c app n] assms(2)
  by (simp add: ReadAndFilter_def read_after_def Let_def min_absorb1)


section \<open>Property\<close>

lemma no_boundary_before: "no_boundary_line (complete_part (c @ app)) \<Longrightarrow> no_boundary_line (complete_part c)"
  by (simp add: complete_extend [of c app] no_boundary_line_def lines_at_append)

text \<open>
  C33: Reading on after an append gives what reading the whole log again would give: the new lines before the ones already
  loaded are the newest lines of the file, and the same state is kept for the next read. No complete line of the log has exactly
  \<open>kMaxLogLineBytes\<close> bytes: the reader of the tail drops such a line when it starts a block, and both ways of reading may then differ.
\<close>

theorem log_delta_equals_reload:
  assumes "no_boundary_line (complete_part (c @ app))" "n \<le> kMaxLoadLimit" "old = ReadTail env path (Log_open (file_of c)) n"
    "full = ReadTail env path (Log_open (file_of (c @ app))) n"
    "d = ReadAndFilter env path (Log_open (file_of (c @ app))) n False (rr_file_size old) (trailing_partial old) (discarding_oversized_line old) (rr_file_anchor old)"
  shows "take n (if full_snapshot d then rr_lines d else rr_lines d @ rr_lines old) = rr_lines full \<and> file_opened d \<and> rr_file_size d = rr_file_size full \<and>
    trailing_partial d = trailing_partial full \<and> discarding_oversized_line d = discarding_oversized_line full \<and> rr_file_anchor d = rr_file_anchor full"
proof -
  have old: "old = read_of c True n (take n (rev (all_records env c))) (n < length (all_records env c))"
    using ReadTail_spec [OF no_boundary_before [OF assms(1)] assms(2)] assms(3) by simp
  have full: "full = read_of (c @ app) True n (take n (rev (all_records env (c @ app)))) (n < length (all_records env (c @ app)))"
    using ReadTail_spec [OF assms(1,2)] assms(4) by simp
  have d: "d = read_after env n c app" using ReadAndFilter_append [OF assms(1,2), of env path] assms(5) by (simp add: old read_of_def empty_result_def)
  have "take n (take (n + 1) (rev (new_records env c app)) @ take n (rev (all_records env c))) = take n (rev (all_records env (c @ app)))"
    by (cases "length (new_records env c app) \<le> n") (simp_all add: all_records_extend min_def)
  then show ?thesis by (simp add: d full old read_after_def read_of_def empty_result_def)
qed

text \<open>An append that ends one line and begins another.\<close>

theorem log_delta_equals_reload_witness:
  "\<exists>env old full d. old = ReadTail env [] (Log_open (file_of [97, 10, 98])) 5 \<and> full = ReadTail env [] (Log_open (file_of ([97, 10, 98] @ [98, 10, 99]))) 5 \<and>
     d = ReadAndFilter env [] (Log_open (file_of ([97, 10, 98] @ [98, 10, 99]))) 5 False (rr_file_size old) (trailing_partial old) (discarding_oversized_line old) (rr_file_anchor old) \<and>
     rr_file_size d = rr_file_size full \<and> trailing_partial d = trailing_partial full"
proof -
  have "complete_part ([97, 10, 98] @ [98, 10, 99]) = [97] @ 10 # [98, 98] @ 10 # []" using complete_part_snoc [of "[99]" "[97, 10, 98, 98]"] by simp
  moreover have "lines_at 0 ([97] @ 10 # [98, 98] @ 10 # []) = [(0, [97]), (2, [98, 98])]"
    using lines_at_line [of "[97]" 0 "[98, 98] @ 10 # []"] lines_at_line [of "[98, 98]" 2 "[]"] by (simp add: numeral_2_eq_2)
  ultimately have nb: "no_boundary_line (complete_part ([97, 10, 98] @ [98, 10, 99]))" by (simp add: no_boundary_line_def kMaxLogLineBytes_def)
  have "(5 :: nat) \<le> kMaxLoadLimit" by (simp add: kMaxLoadLimit_def)
  from log_delta_equals_reload [OF nb this refl refl refl] show ?thesis by blast
qed

end
