(* ===== verification/ListView.thy ===== *)
theory ListView
  imports Main
begin

text \<open>
  What a list model of Qt announces to its views, and a view that only follows these announcements. An announcement comes with the rows the
  view reads when it handles it. A removal or an insertion must fit the rows the view has, otherwise the view is lost (\<open>None\<close>); a change of
  data names roles, and the view reads only these again: \<open>upd\<close> puts the named roles of the new row into the old one.
\<close>

section \<open>Definitions\<close>

datatype ('o, 'r) row_signal =
    Rows_removed nat nat
  | Rows_inserted nat nat "'r list"
  | Rows_changed nat nat "'o list" "'r list"
  | Model_reset "'r list"

text \<open>The rows \<open>a\<close> to \<open>b\<close>.\<close>

definition rows_between :: "nat \<Rightarrow> nat \<Rightarrow> 'r list \<Rightarrow> 'r list" where
  "rows_between a b ls = take (b + 1 - a) (drop a ls)"

fun mirror :: "('o list \<Rightarrow> 'r \<Rightarrow> 'r \<Rightarrow> 'r) \<Rightarrow> 'r list \<Rightarrow> ('o, 'r) row_signal \<Rightarrow> 'r list option" where
  "mirror upd v (Rows_removed a b) = (if a \<le> b \<and> b < length v then Some (take a v @ drop (b + 1) v) else None)"
| "mirror upd v (Rows_inserted a b ls) =
     (if a \<le> length v \<and> a \<le> b \<and> length ls = length v + (b + 1 - a) then Some (take a v @ rows_between a b ls @ drop a v) else None)"
| "mirror upd v (Rows_changed a b roles ls) =
     (if a \<le> b \<and> b < length v \<and> length ls = length v then Some (take a v @ map2 (upd roles) (rows_between a b v) (rows_between a b ls) @ drop (b + 1) v) else None)"
| "mirror upd v (Model_reset ls) = Some ls"

fun replay :: "('o list \<Rightarrow> 'r \<Rightarrow> 'r \<Rightarrow> 'r) \<Rightarrow> 'r list \<Rightarrow> ('o, 'r) row_signal list \<Rightarrow> 'r list option" where
  "replay upd v [] = Some v"
| "replay upd v (s # ss) = (case mirror upd v s of None \<Rightarrow> None | Some v' \<Rightarrow> replay upd v' ss)"

text \<open>A view that reads whole rows.\<close>

definition whole_row :: "'o list \<Rightarrow> 'r \<Rightarrow> 'r \<Rightarrow> 'r" where
  "whole_row roles old new = new"

section \<open>Following announcements\<close>

lemma replay_append: "replay upd v (ss @ ts) = (case replay upd v ss of None \<Rightarrow> None | Some v' \<Rightarrow> replay upd v' ts)"
  by (induction ss arbitrary: v) (auto split: option.splits)

lemma replay_snoc: "replay upd v ss = Some v' \<Longrightarrow> replay upd v (ss @ [s]) = mirror upd v' s"
  by (simp add: replay_append split: option.splits)

lemma mirror_removed: "v = u @ x @ w \<Longrightarrow> x \<noteq> [] \<Longrightarrow> a = length u \<Longrightarrow> b = a + length x - 1 \<Longrightarrow> mirror upd v (Rows_removed a b) = Some (u @ w)"
  by (cases x) simp_all

lemma mirror_inserted:
  "v = u @ w \<Longrightarrow> ls = u @ x @ w \<Longrightarrow> x \<noteq> [] \<Longrightarrow> a = length u \<Longrightarrow> b = a + length x - 1 \<Longrightarrow> mirror upd v (Rows_inserted a b ls) = Some ls"
  by (cases x) (simp_all add: rows_between_def)

lemma mirror_changed:
  "v = u @ x @ w \<Longrightarrow> ls = u @ y @ w \<Longrightarrow> length y = length x \<Longrightarrow> map2 (upd roles) x y = y \<Longrightarrow> x \<noteq> [] \<Longrightarrow> a = length u \<Longrightarrow> b = a + length x - 1 \<Longrightarrow>
    mirror upd v (Rows_changed a b roles ls) = Some ls"
  by (cases x) (simp_all add: rows_between_def)

end
