(* ===== verification/DebugLog.thy ===== *)
theory DebugLog
  imports LogReader ListView Ordering "HOL-Library.Word" "HOL-Library.Sublist"
begin

text \<open>
  \<open>src/qml/models/debuglogmodel.cpp\<close>, the part that runs on the GUI thread: the list of shown lines with the rows it announces to the
  view, the limit, the filters, requests to the reader and their completion, and the file watcher. A read is one job on
  the reader thread; the queue of that thread and the queue of completions are lists, so that any event can happen
  between a request, the read and its completion.
\<close>

section \<open>Definitions\<close>

record read_job =
  j_load_limit :: nat
  j_full :: bool
  j_size :: "nat option"
  j_partial :: bytes
  j_discarding :: bool
  j_anchor :: bytes
  j_generation :: "64 word"

record DebugLogModel =
  dl_path :: qstring
  dl_log_to_file :: bool
  dl_all_lines :: "LogLine list"
  dl_display_lines :: "LogLine list"
  dl_filter :: qstring
  dl_warnings_only :: bool
  dl_load_limit :: nat
  dl_has_more_lines :: bool
  dl_loaded_limit :: nat
  dl_open_error :: qstring
  dl_external_open_error :: qstring
  dl_log_available :: bool
  dl_file_size :: "nat option"
  dl_trailing_partial :: bytes
  dl_discarding :: bool
  dl_file_anchor :: bytes
  dl_watch_file :: bool
  dl_watch_dir :: bool
  dl_debounce :: bool
  dl_reader_running :: bool
  dl_read_in_flight :: bool
  dl_refresh_pending :: bool
  dl_pending_full_load :: bool
  dl_active :: bool
  dl_stopping :: bool
  dl_generation :: "64 word"
  dl_jobs :: "read_job list"
  dl_results :: "(ReadResult \<times> bool \<times> 64 word) list"
  dl_rows :: "(unit, LogLine) row_signal list"

text \<open>What the file system answers: whether the log exists, and whether the watcher accepts the file and its directory.\<close>

record watch_env =
  we_exists :: bool
  we_file_ok :: bool
  we_dir_ok :: bool

definition LOGGING_OFF :: qstring where "LOGGING_OFF = q ''Writing the debug log to a file is turned off.''"

definition new_DebugLogModel :: "qstring \<Rightarrow> bool \<Rightarrow> DebugLogModel" where
  "new_DebugLogModel log_path log_to_file =
     \<lparr>dl_path = log_path, dl_log_to_file = log_to_file, dl_all_lines = [], dl_display_lines = [], dl_filter = [], dl_warnings_only = False,
      dl_load_limit = 1000, dl_has_more_lines = False, dl_loaded_limit = 0,
      dl_open_error = (if log_to_file then [] else LOGGING_OFF), dl_external_open_error = [], dl_log_available = log_to_file,
      dl_file_size = None, dl_trailing_partial = [], dl_discarding = False, dl_file_anchor = [], dl_watch_file = False, dl_watch_dir = False,
      dl_debounce = False, dl_reader_running = True, dl_read_in_flight = False, dl_refresh_pending = False, dl_pending_full_load = False,
      dl_active = False, dl_stopping = False, dl_generation = 0, dl_jobs = [], dl_results = [], dl_rows = []\<rparr>"

subsection \<open>Shown lines\<close>

definition line_kind :: "LogLine \<Rightarrow> qstring" where
  "line_kind l = (if l_is_error l then q ''error '' else if l_is_warning l then q ''warning '' else q ''regular '')"

definition line_accepted :: "(qchar \<Rightarrow> qchar) \<Rightarrow> DebugLogModel \<Rightarrow> LogLine \<Rightarrow> bool" where
  "line_accepted fold_unit m l \<longleftrightarrow>
     \<not> (dl_warnings_only m \<and> \<not> l_is_error l \<and> \<not> l_is_warning l) \<and>
     (dl_filter m \<noteq> [] \<longrightarrow> contains_ci fold_unit (l_timestamp l @ 32 # line_kind l @ l_message l) (dl_filter m))"

definition filteredLines :: "(qchar \<Rightarrow> qchar) \<Rightarrow> DebugLogModel \<Rightarrow> LogLine list \<Rightarrow> LogLine list" where
  "filteredLines fold_unit m ls = filter (line_accepted fold_unit m) ls"

definition remove_rows :: "nat \<Rightarrow> nat \<Rightarrow> DebugLogModel \<Rightarrow> DebugLogModel" where
  "remove_rows first lst m =
     m\<lparr>dl_display_lines := take first (dl_display_lines m) @ drop (lst + 1) (dl_display_lines m), dl_rows := dl_rows m @ [Rows_removed first lst]\<rparr>"

definition insert_rows :: "nat \<Rightarrow> nat \<Rightarrow> LogLine list \<Rightarrow> DebugLogModel \<Rightarrow> DebugLogModel" where
  "insert_rows first lst ls m = m\<lparr>dl_display_lines := ls, dl_rows := dl_rows m @ [Rows_inserted first lst ls]\<rparr>"

definition reset_rows :: "LogLine list \<Rightarrow> DebugLogModel \<Rightarrow> DebugLogModel" where
  "reset_rows ls m = m\<lparr>dl_display_lines := ls, dl_rows := dl_rows m @ [Model_reset ls]\<rparr>"

definition new_positions :: "LogLine list \<Rightarrow> nat \<Rightarrow> nat option" where
  "new_positions ls = fold (\<lambda>(i, l) pos. pos(l_source_offset l \<mapsto> i)) (enumerate 0 ls) Map.empty"

text \<open>The first shown line that stays, as its old and its new row.\<close>

fun common_start :: "LogLine list \<Rightarrow> nat \<Rightarrow> LogLine list \<Rightarrow> (nat \<times> nat) option" where
  "common_start ls i [] = None"
| "common_start ls i (x # xs) =
     (case new_positions ls (l_source_offset x) of
        None \<Rightarrow> common_start ls (i + 1) xs
      | Some p \<Rightarrow> if x = ls ! p then Some (i, p) else common_start ls (i + 1) xs)"

fun common_count :: "LogLine list \<Rightarrow> LogLine list \<Rightarrow> nat" where
  "common_count (x # xs) (y # ys) = (if x = y then common_count xs ys + 1 else 0)"
| "common_count _ _ = 0"

definition keep_common :: "LogLine list \<Rightarrow> nat \<Rightarrow> nat \<Rightarrow> nat \<Rightarrow> DebugLogModel \<Rightarrow> DebugLogModel" where
  "keep_common ls old_start new_start cnt m =
     (let m1 = (if length (dl_display_lines m) - old_start - cnt > 0
                then remove_rows (old_start + cnt) (length (dl_display_lines m) - 1) m else m);
          m2 = (if old_start > 0 then remove_rows 0 (old_start - 1) m1 else m1);
          m3 = (if new_start > 0 then insert_rows 0 (new_start - 1) (take new_start ls @ dl_display_lines m2) m2 else m2)
      in if new_start + cnt < length ls
         then insert_rows (length (dl_display_lines m3)) (length (dl_display_lines m3) + (length ls - (new_start + cnt)) - 1)
                (dl_display_lines m3 @ drop (new_start + cnt) ls) m3
         else m3)"

definition applyDisplayLines :: "LogLine list \<Rightarrow> bool \<Rightarrow> DebugLogModel \<Rightarrow> DebugLogModel" where
  "applyDisplayLines ls force_reset m =
     (if \<not> force_reset \<and> ls = dl_display_lines m then m
      else if force_reset then reset_rows ls m
      else if dl_display_lines m = [] then (if ls = [] then m else insert_rows 0 (length ls - 1) ls m)
      else if ls = [] then remove_rows 0 (length (dl_display_lines m) - 1) m
      else
        let (old_start, new_start, cnt) =
              (case common_start ls 0 (dl_display_lines m) of
                 None \<Rightarrow> (0, 0, 0)
               | Some (i, p) \<Rightarrow> (i, p, common_count (drop i (dl_display_lines m)) (drop p ls)))
        in if cnt = 0 then insert_rows 0 (length ls - 1) ls (remove_rows 0 (length (dl_display_lines m) - 1) m)
           else keep_common ls old_start new_start cnt m)"

definition buildDisplayLines :: "(qchar \<Rightarrow> qchar) \<Rightarrow> bool \<Rightarrow> DebugLogModel \<Rightarrow> DebugLogModel" where
  "buildDisplayLines fold_unit force_reset m = applyDisplayLines (filteredLines fold_unit m (dl_all_lines m)) force_reset m"

definition applyLines :: "(qchar \<Rightarrow> qchar) \<Rightarrow> LogLine list \<Rightarrow> bool \<Rightarrow> DebugLogModel \<Rightarrow> DebugLogModel" where
  "applyLines fold_unit ls force_reset m =
     (let display = filteredLines fold_unit m ls
      in if force_reset then reset_rows display (m\<lparr>dl_all_lines := ls\<rparr>) else applyDisplayLines display False (m\<lparr>dl_all_lines := ls\<rparr>))"

text \<open>The new lines come newest first; returns whether lines were left out or pruned.\<close>

definition applyDelta :: "(qchar \<Rightarrow> qchar) \<Rightarrow> LogLine list \<Rightarrow> DebugLogModel \<Rightarrow> bool \<times> DebugLogModel" where
  "applyDelta fold_unit ls m =
     (if ls = [] then (False, m)
      else
        let omitted_new_lines = length ls > dl_load_limit m;
            ls = rev (if omitted_new_lines then take (dl_load_limit m) ls else ls);
            old_size = length (dl_all_lines m);
            old_keep_count = min old_size (dl_load_limit m - length ls);
            old_remove_count = old_size - old_keep_count;
            display_remove_count = (if old_remove_count > 0 then length (filteredLines fold_unit m (take old_remove_count (dl_all_lines m))) else 0);
            display_insert = filteredLines fold_unit m ls;
            m1 = (if display_remove_count > 0 then remove_rows 0 (display_remove_count - 1) m else m);
            first = length (dl_display_lines m1);
            m2 = (if display_insert \<noteq> [] then insert_rows first (first + length display_insert - 1) (dl_display_lines m1 @ display_insert) m1 else m1)
        in (omitted_new_lines \<or> old_remove_count > 0,
            m2\<lparr>dl_all_lines := take old_keep_count (drop old_remove_count (dl_all_lines m)) @ ls\<rparr>))"

subsection \<open>Requests and the watcher\<close>

definition watchLogPath :: "watch_env \<Rightarrow> DebugLogModel \<Rightarrow> DebugLogModel" where
  "watchLogPath we m =
     (if \<not> dl_active m \<or> dl_stopping m \<or> \<not> dl_log_to_file m \<or> dl_path m = [] then m
      else
        let m1 = (if we_exists we \<and> \<not> dl_watch_file m then m\<lparr>dl_watch_file := we_file_ok we\<rparr> else m)
        in if we_exists we \<and> dl_watch_file m1 then m1\<lparr>dl_watch_dir := False\<rparr>
           else let m2 = m1\<lparr>dl_watch_file := False\<rparr> in if \<not> dl_watch_dir m2 then m2\<lparr>dl_watch_dir := we_dir_ok we\<rparr> else m2)"

definition watcher_changed :: "watch_env \<Rightarrow> DebugLogModel \<Rightarrow> DebugLogModel" where
  "watcher_changed we m = (if \<not> dl_active m \<or> dl_stopping m then m else (watchLogPath we m)\<lparr>dl_debounce := True\<rparr>)"

definition log_refresh :: "bool \<Rightarrow> DebugLogModel \<Rightarrow> DebugLogModel" where
  "log_refresh full_load m =
     (if \<not> dl_active m \<or> dl_stopping m then m
      else if \<not> dl_log_to_file m then m
      else if dl_read_in_flight m then m\<lparr>dl_refresh_pending := True, dl_pending_full_load := full_load \<or> dl_pending_full_load m\<rparr>
      else if \<not> dl_reader_running m then m
      else
        m\<lparr>dl_read_in_flight := True,
          dl_jobs := dl_jobs m @ [\<lparr>j_load_limit = dl_load_limit m, j_full = full_load, j_size = dl_file_size m, j_partial = dl_trailing_partial m,
            j_discarding = dl_discarding m, j_anchor = dl_file_anchor m, j_generation = dl_generation m\<rparr>]\<rparr>)"

definition debounce_timeout :: "DebugLogModel \<Rightarrow> DebugLogModel" where
  "debounce_timeout m = log_refresh False (m\<lparr>dl_debounce := False\<rparr>)"

definition setLoadLimit :: "(qchar \<Rightarrow> qchar) \<Rightarrow> int \<Rightarrow> DebugLogModel \<Rightarrow> DebugLogModel" where
  "setLoadLimit fold_unit limit m =
     (let limit = nat (max 1 (min limit (int kMaxLoadLimit)))
      in if dl_load_limit m = limit then m
         else
           let previous_limit = dl_load_limit m;
               m1 = m\<lparr>dl_load_limit := limit\<rparr>;
               m2 = (if length (dl_all_lines m1) > limit then
                       let m' = applyLines fold_unit (drop (length (dl_all_lines m1) - limit) (dl_all_lines m1)) False m1
                       in m'\<lparr>dl_loaded_limit := min (dl_loaded_limit m') limit, dl_has_more_lines := (limit < kMaxLoadLimit)\<rparr>
                     else m1)
           in if limit > previous_limit \<and> dl_active m2 then log_refresh True m2 else m2)"

definition setActive :: "watch_env \<Rightarrow> bool \<Rightarrow> DebugLogModel \<Rightarrow> DebugLogModel" where
  "setActive we active m =
     (if dl_active m = active \<or> dl_stopping m then m
      else
        let m1 = m\<lparr>dl_active := active, dl_generation := dl_generation m + 1\<rparr>
        in if active then let m2 = watchLogPath we m1 in log_refresh (dl_loaded_limit m2 < dl_load_limit m2) m2
           else m1\<lparr>dl_debounce := False, dl_watch_file := False, dl_watch_dir := False, dl_refresh_pending := False, dl_pending_full_load := False\<rparr>)"

definition setFilter :: "(qchar \<Rightarrow> qchar) \<Rightarrow> qstring \<Rightarrow> DebugLogModel \<Rightarrow> DebugLogModel" where
  "setFilter fold_unit s m = (if dl_filter m = s then m else buildDisplayLines fold_unit True (m\<lparr>dl_filter := s\<rparr>))"

definition setWarningsAndErrorsOnly :: "(qchar \<Rightarrow> qchar) \<Rightarrow> bool \<Rightarrow> DebugLogModel \<Rightarrow> DebugLogModel" where
  "setWarningsAndErrorsOnly fold_unit b m = (if dl_warnings_only m = b then m else buildDisplayLines fold_unit True (m\<lparr>dl_warnings_only := b\<rparr>))"

definition loadMore :: "DebugLogModel \<Rightarrow> DebugLogModel" where
  "loadMore m =
     (if dl_load_limit m \<ge> kMaxLoadLimit then m\<lparr>dl_has_more_lines := False\<rparr>
      else log_refresh True (m\<lparr>dl_load_limit := min (dl_load_limit m + 1000) kMaxLoadLimit\<rparr>))"

definition OPEN_ERROR :: qstring where
  "OPEN_ERROR = q ''Could not open debug log file. No application is associated with this file type.''"

definition openLogFile :: "bool \<Rightarrow> bool \<Rightarrow> DebugLogModel \<Rightarrow> bool \<times> DebugLogModel" where
  "openLogFile file_exists open_ok m =
     (if \<not> dl_log_to_file m \<or> \<not> file_exists then (False, m)
      else if \<not> open_ok then (False, m\<lparr>dl_external_open_error := OPEN_ERROR\<rparr>)
      else (True, m\<lparr>dl_external_open_error := []\<rparr>))"

definition clearOpenError :: "DebugLogModel \<Rightarrow> DebugLogModel" where
  "clearOpenError m = m\<lparr>dl_external_open_error := []\<rparr>"

definition openError :: "DebugLogModel \<Rightarrow> qstring" where
  "openError m = (if dl_external_open_error m = [] then dl_open_error m else dl_external_open_error m)"

definition stop_log :: "DebugLogModel \<Rightarrow> DebugLogModel" where
  "stop_log m =
     (if dl_stopping m then m
      else m\<lparr>dl_stopping := True, dl_debounce := False, dl_watch_file := False, dl_watch_dir := False, dl_refresh_pending := False,
             dl_pending_full_load := False, dl_read_in_flight := False, dl_reader_running := False\<rparr>)"

subsection \<open>Reads and their completion\<close>

text \<open>The pending request is run again, as a full load when one was asked for.\<close>

definition run_pending :: "DebugLogModel \<Rightarrow> DebugLogModel" where
  "run_pending m =
     (if dl_refresh_pending m then log_refresh (dl_pending_full_load m) (m\<lparr>dl_refresh_pending := False, dl_pending_full_load := False\<rparr>) else m)"

definition apply_result :: "(qchar \<Rightarrow> qchar) \<Rightarrow> ReadResult \<Rightarrow> DebugLogModel \<Rightarrow> DebugLogModel" where
  "apply_result fold_unit r m =
     (if full_snapshot r then
        let next_lines = rev (if length (rr_lines r) > dl_load_limit m then take (dl_load_limit m) (rr_lines r) else rr_lines r);
            next_has_more = ((rr_has_more_lines r \<or> length (rr_lines r) > dl_load_limit m) \<and> dl_load_limit m < kMaxLoadLimit);
            m1 = applyLines fold_unit next_lines (continuity_lost r \<or> dl_all_lines m = []) m
        in m1\<lparr>dl_loaded_limit := min (snapshot_limit r) (dl_load_limit m1), dl_has_more_lines := next_has_more\<rparr>
      else
        let (pruned, m1) = applyDelta fold_unit (rr_lines r) m
        in m1\<lparr>dl_has_more_lines := ((dl_has_more_lines m1 \<or> rr_has_more_lines r \<or> pruned) \<and> dl_load_limit m1 < kMaxLoadLimit)\<rparr>)"

definition onReadCompleted :: "(qchar \<Rightarrow> qchar) \<Rightarrow> watch_env \<Rightarrow> ReadResult \<Rightarrow> DebugLogModel \<Rightarrow> DebugLogModel" where
  "onReadCompleted fold_unit we r m =
     (if \<not> dl_active m \<or> dl_stopping m then m
      else
        let m1 = m\<lparr>dl_log_available := file_opened r\<rparr>
        in if \<not> file_opened r then
             run_pending ((watchLogPath we (m1\<lparr>dl_open_error := error_message r\<rparr>))\<lparr>dl_read_in_flight := False\<rparr>)
           else
             let m2 = watchLogPath we (m1\<lparr>dl_open_error := []\<rparr>);
                 m3 = m2\<lparr>dl_file_size := rr_file_size r, dl_trailing_partial := trailing_partial r,
                         dl_discarding := discarding_oversized_line r, dl_file_anchor := rr_file_anchor r\<rparr>;
                 m4 = apply_result fold_unit r m3;
                 needs_wider_tail = dl_loaded_limit m4 < dl_load_limit m4;
                 run_trailing_refresh = (dl_refresh_pending m4 \<or> needs_wider_tail);
                 do_full = (dl_pending_full_load m4 \<or> needs_wider_tail);
                 m5 = m4\<lparr>dl_refresh_pending := False, dl_pending_full_load := False, dl_read_in_flight := False\<rparr>
             in if \<not> dl_stopping m5 \<and> run_trailing_refresh then log_refresh do_full m5 else m5)"

text \<open>The reader thread runs its next job; a job that finds the reads cancelled returns nothing.\<close>

definition run_read :: "log_env \<Rightarrow> log_source \<Rightarrow> DebugLogModel \<Rightarrow> DebugLogModel" where
  "run_read env src m =
     (case dl_jobs m of
        [] \<Rightarrow> m
      | j # js \<Rightarrow>
          if dl_stopping m then m\<lparr>dl_jobs := js\<rparr>
          else
            let r = ReadAndFilter env (dl_path m) src (j_load_limit j) (j_full j) (j_size j) (j_partial j) (j_discarding j) (j_anchor j)
            in m\<lparr>dl_jobs := js, dl_results := dl_results m @ [(r, j_full j, j_generation j)]\<rparr>)"

definition deliver_read :: "(qchar \<Rightarrow> qchar) \<Rightarrow> watch_env \<Rightarrow> DebugLogModel \<Rightarrow> DebugLogModel" where
  "deliver_read fold_unit we m =
     (case dl_results m of
        [] \<Rightarrow> m
      | (r, full_load, gen) # rs \<Rightarrow>
          let m1 = m\<lparr>dl_results := rs\<rparr>
          in if dl_stopping m1 then m1
             else if \<not> dl_active m1 \<or> gen \<noteq> dl_generation m1 then
               (let m2 = m1\<lparr>dl_read_in_flight := False\<rparr> in if dl_active m2 then run_pending m2 else m2)
             else onReadCompleted fold_unit we r m1)"


section \<open>The view\<close>

definition mirrored :: "DebugLogModel \<Rightarrow> bool" where
  "mirrored m \<longleftrightarrow> replay whole_row [] (dl_rows m) = Some (dl_display_lines m)"

lemma mirrored_remove [simp]: "mirrored m \<Longrightarrow> a \<le> b \<Longrightarrow> b < length (dl_display_lines m) \<Longrightarrow> mirrored (remove_rows a b m)"
  by (simp add: mirrored_def remove_rows_def replay_snoc)

lemma mirrored_insert:
  "mirrored m \<Longrightarrow> dl_display_lines m = u @ w \<Longrightarrow> ls = u @ x @ w \<Longrightarrow> x \<noteq> [] \<Longrightarrow> a = length u \<Longrightarrow> b = a + length x - 1 \<Longrightarrow> mirrored (insert_rows a b ls m)"
  using mirror_inserted [of "dl_display_lines m" u w ls x a b whole_row]
  by (simp add: mirrored_def insert_rows_def replay_snoc del: mirror.simps)

lemma mirrored_reset [simp]: "mirrored m \<Longrightarrow> mirrored (reset_rows ls m)"
  by (simp add: mirrored_def reset_rows_def replay_snoc)

lemma rows_display [simp]:
  "dl_display_lines (remove_rows a b m) = take a (dl_display_lines m) @ drop (b + 1) (dl_display_lines m)"
  "dl_display_lines (insert_rows a b ls m) = ls"
  "dl_display_lines (reset_rows ls m) = ls"
  by (simp_all add: remove_rows_def insert_rows_def reset_rows_def)

lemma new_positions_sound: "new_positions ls off = Some p \<Longrightarrow> p < length ls"
proof -
  have "fold (\<lambda>(i, l) pos. pos(l_source_offset l \<mapsto> i)) (enumerate n ls) pos off = Some p \<Longrightarrow> p < n + length ls \<or> pos off = Some p" for n pos
    by (induction ls arbitrary: n pos) (fastforce split: if_splits)+
  from this [of 0 Map.empty] show "new_positions ls off = Some p \<Longrightarrow> p < length ls" by (simp add: new_positions_def)
qed

lemma common_start_sound: "common_start ls i xs = Some (j, p) \<Longrightarrow> i \<le> j \<and> j < i + length xs \<and> p < length ls"
  by (induction xs arbitrary: i) (fastforce dest: new_positions_sound split: option.splits if_splits)+

lemma common_count_take: "common_count xs ys \<le> length xs \<and> common_count xs ys \<le> length ys \<and> take (common_count xs ys) xs = take (common_count xs ys) ys"
  by (induction xs ys rule: common_count.induct) auto

text \<open>Keeping a common run: the list ends up as the new one, and the announcements describe the change.\<close>

lemma keep_common_spec:
  assumes d: "dl_display_lines m = u @ c @ w" and l: "ls = u' @ c @ w'" and c: "c \<noteq> []" and m: "mirrored m"
  shows "dl_display_lines (keep_common ls (length u) (length u') (length c) m) = ls" "mirrored (keep_common ls (length u) (length u') (length c) m)"
proof -
  define m1 where "m1 = (if length (dl_display_lines m) - length u - length c > 0 then remove_rows (length u + length c) (length (dl_display_lines m) - 1) m else m)"
  define m2 where "m2 = (if length u > 0 then remove_rows 0 (length u - 1) m1 else m1)"
  define m3 where "m3 = (if length u' > 0 then insert_rows 0 (length u' - 1) (take (length u') ls @ dl_display_lines m2) m2 else m2)"
  have 1: "dl_display_lines m1 = u @ c" "mirrored m1" using d m c by (cases w; auto simp: m1_def)+
  have 2: "dl_display_lines m2 = c" "mirrored m2" using 1 c by (cases u; auto simp: m2_def)+
  have 3: "dl_display_lines m3 = u' @ c" "mirrored m3" using 2 l by (auto simp: m3_def intro: mirrored_insert [where u = "[]" and w = c])
  have 4: "keep_common ls (length u) (length u') (length c) m =
      (if w' \<noteq> [] then insert_rows (length (u' @ c)) (length (u' @ c) + length w' - 1) ls m3 else m3)"
    unfolding keep_common_def Let_def m1_def [symmetric] m2_def [symmetric] m3_def [symmetric] using 3 l by simp
  show "dl_display_lines (keep_common ls (length u) (length u') (length c) m) = ls" using 3 4 l by auto
  show "mirrored (keep_common ls (length u) (length u') (length c) m)"
    using 3 4 l by (auto intro: mirrored_insert [where u = "u' @ c" and w = "[]" and x = w'])
qed

lemma applyDisplayLines_spec:
  assumes "mirrored m"
  shows "dl_display_lines (applyDisplayLines ls force m) = ls" "mirrored (applyDisplayLines ls force m)"
proof -
  have "dl_display_lines (applyDisplayLines ls force m) = ls \<and> mirrored (applyDisplayLines ls force m)"
  proof (cases "force \<or> ls = dl_display_lines m \<or> dl_display_lines m = [] \<or> ls = []")
    case True
    then show ?thesis using assms mirrored_insert [of m "[]" "[]" ls ls 0 "length ls - 1"] by (auto simp: applyDisplayLines_def)
  next
    case False
    show ?thesis
    proof (cases "common_start ls 0 (dl_display_lines m)")
      case None
      then show ?thesis using False assms
        by (auto simp: applyDisplayLines_def intro: mirrored_insert [where u = "[]" and w = "[]"])
    next
      case (Some ip)
      obtain i p where ip: "ip = (i, p)" by (cases ip)
      define k where "k = common_count (drop i (dl_display_lines m)) (drop p ls)"
      have b: "i < length (dl_display_lines m)" "p < length ls" using common_start_sound Some ip by fastforce+
      show ?thesis
      proof (cases "k = 0")
        case True
        then show ?thesis using False assms Some ip
          by (auto simp: applyDisplayLines_def k_def [symmetric] intro: mirrored_insert [where u = "[]" and w = "[]"])
      next
        case k: False
        note ck = common_count_take [of "drop i (dl_display_lines m)" "drop p ls", folded k_def]
        define c where "c = take k (drop p ls)"
        have lc: "length c = k" using ck by (simp add: c_def)
        have "dl_display_lines m = take i (dl_display_lines m) @ c @ drop k (drop i (dl_display_lines m))"
          using ck by (metis append_take_drop_id c_def)
        moreover have "ls = take p ls @ c @ drop k (drop p ls)" by (metis append_take_drop_id c_def)
        moreover have "c \<noteq> []" using k lc by auto
        ultimately have "dl_display_lines (keep_common ls i p k m) = ls \<and> mirrored (keep_common ls i p k m)"
          using keep_common_spec [OF _ _ _ assms, of "take i (dl_display_lines m)" c _ ls "take p ls"] b lc by (metis length_take min.absorb4)
        then show ?thesis using False k Some ip by (simp add: applyDisplayLines_def k_def [symmetric])
      qed
    qed
  qed
  then show "dl_display_lines (applyDisplayLines ls force m) = ls" "mirrored (applyDisplayLines ls force m)" by simp_all
qed


lemma rows_eq:
  "remove_rows a b m = m\<lparr>dl_display_lines := dl_display_lines (remove_rows a b m), dl_rows := dl_rows (remove_rows a b m)\<rparr>"
  "insert_rows a b ls m = m\<lparr>dl_display_lines := dl_display_lines (insert_rows a b ls m), dl_rows := dl_rows (insert_rows a b ls m)\<rparr>"
  by (simp_all add: remove_rows_def insert_rows_def)

definition only_rows :: "DebugLogModel \<Rightarrow> DebugLogModel \<Rightarrow> bool" where
  "only_rows m m' \<longleftrightarrow> (\<exists>d rs. m' = m\<lparr>dl_display_lines := d, dl_rows := rs\<rparr>)"

lemma only_rows_refl [simp]: "only_rows m m"
  unfolding only_rows_def by (rule exI [of _ "dl_display_lines m"], rule exI [of _ "dl_rows m"]) simp

lemma only_rows_trans [trans]: "only_rows m m' \<Longrightarrow> only_rows m' m'' \<Longrightarrow> only_rows m m''"
proof -
  assume "only_rows m m'" "only_rows m' m''"
  then obtain d rs d' rs' where "m' = m\<lparr>dl_display_lines := d, dl_rows := rs\<rparr>" "m'' = m'\<lparr>dl_display_lines := d', dl_rows := rs'\<rparr>"
    unfolding only_rows_def by blast
  then have "m'' = m\<lparr>dl_display_lines := d', dl_rows := rs'\<rparr>" by simp
  then show "only_rows m m''" unfolding only_rows_def by blast
qed

lemma only_rows_change [simp]: "only_rows m (remove_rows a b m)" "only_rows m (insert_rows a b ls m)" "only_rows m (reset_rows ls m)"
  by (auto simp: only_rows_def remove_rows_def insert_rows_def reset_rows_def)

lemma only_rows_step: "only_rows m m' \<Longrightarrow> only_rows m (remove_rows a b m')" "only_rows m m' \<Longrightarrow> only_rows m (insert_rows a b ls m')"
  by (meson only_rows_change only_rows_trans)+

lemma only_rows_keep: "only_rows m (keep_common ls i p k m)"
proof -
  have if_rows: "only_rows m x \<Longrightarrow> only_rows m y \<Longrightarrow> only_rows m (if b then x else y)" for x y b by simp
  show ?thesis unfolding keep_common_def Let_def by (intro if_rows only_rows_step only_rows_refl)
qed

lemma only_rows_apply: "only_rows m (applyDisplayLines ls force m)"
  by (auto simp: applyDisplayLines_def only_rows_keep intro: only_rows_step split: option.splits)

lemma applyDisplayLines_eq:
  assumes "mirrored m"
  obtains rs where "applyDisplayLines ls force m = m\<lparr>dl_display_lines := ls, dl_rows := rs\<rparr>" "replay whole_row [] rs = Some ls"
proof -
  obtain d rs where e: "applyDisplayLines ls force m = m\<lparr>dl_display_lines := d, dl_rows := rs\<rparr>" using only_rows_apply unfolding only_rows_def by blast
  then have "d = ls" "replay whole_row [] rs = Some d" using applyDisplayLines_spec [OF assms, of ls force] by (simp_all add: mirrored_def)
  with e that show thesis by blast
qed

lemma filteredLines_cong: "dl_filter m = dl_filter m' \<Longrightarrow> dl_warnings_only m = dl_warnings_only m' \<Longrightarrow> filteredLines fu m = filteredLines fu m'"
  unfolding filteredLines_def line_accepted_def by (intro ext filter_cong) simp_all

lemma filteredLines_frame [simp]:
  "filteredLines fu (m\<lparr>dl_all_lines := x_all_lines\<rparr>) = filteredLines fu m"
  "filteredLines fu (m\<lparr>dl_display_lines := x_display_lines\<rparr>) = filteredLines fu m"
  "filteredLines fu (m\<lparr>dl_rows := x_rows\<rparr>) = filteredLines fu m"
  "filteredLines fu (m\<lparr>dl_load_limit := x_load_limit\<rparr>) = filteredLines fu m"
  "filteredLines fu (m\<lparr>dl_loaded_limit := x_loaded_limit\<rparr>) = filteredLines fu m"
  "filteredLines fu (m\<lparr>dl_has_more_lines := x_has_more_lines\<rparr>) = filteredLines fu m"
  "filteredLines fu (m\<lparr>dl_open_error := x_open_error\<rparr>) = filteredLines fu m"
  "filteredLines fu (m\<lparr>dl_external_open_error := x_external_open_error\<rparr>) = filteredLines fu m"
  "filteredLines fu (m\<lparr>dl_log_available := x_log_available\<rparr>) = filteredLines fu m"
  "filteredLines fu (m\<lparr>dl_file_size := x_file_size\<rparr>) = filteredLines fu m"
  "filteredLines fu (m\<lparr>dl_trailing_partial := x_trailing_partial\<rparr>) = filteredLines fu m"
  "filteredLines fu (m\<lparr>dl_discarding := x_discarding\<rparr>) = filteredLines fu m"
  "filteredLines fu (m\<lparr>dl_file_anchor := x_file_anchor\<rparr>) = filteredLines fu m"
  "filteredLines fu (m\<lparr>dl_watch_file := x_watch_file\<rparr>) = filteredLines fu m"
  "filteredLines fu (m\<lparr>dl_watch_dir := x_watch_dir\<rparr>) = filteredLines fu m"
  "filteredLines fu (m\<lparr>dl_debounce := x_debounce\<rparr>) = filteredLines fu m"
  "filteredLines fu (m\<lparr>dl_reader_running := x_reader_running\<rparr>) = filteredLines fu m"
  "filteredLines fu (m\<lparr>dl_read_in_flight := x_read_in_flight\<rparr>) = filteredLines fu m"
  "filteredLines fu (m\<lparr>dl_refresh_pending := x_refresh_pending\<rparr>) = filteredLines fu m"
  "filteredLines fu (m\<lparr>dl_pending_full_load := x_pending_full_load\<rparr>) = filteredLines fu m"
  "filteredLines fu (m\<lparr>dl_active := x_active\<rparr>) = filteredLines fu m"
  "filteredLines fu (m\<lparr>dl_stopping := x_stopping\<rparr>) = filteredLines fu m"
  "filteredLines fu (m\<lparr>dl_generation := x_generation\<rparr>) = filteredLines fu m"
  "filteredLines fu (m\<lparr>dl_jobs := x_jobs\<rparr>) = filteredLines fu m"
  "filteredLines fu (m\<lparr>dl_results := x_results\<rparr>) = filteredLines fu m"
  by (rule filteredLines_cong; simp)+

lemma applyLines_eq:
  assumes "mirrored m"
  obtains rs where "applyLines fu ls force m = m\<lparr>dl_all_lines := ls, dl_display_lines := filteredLines fu m ls, dl_rows := rs\<rparr>" "replay whole_row [] rs = Some (filteredLines fu m ls)"
proof (cases force)
  case True
  then show thesis using assms that [of "dl_rows m @ [Model_reset (filteredLines fu m ls)]"]
    by (simp add: applyLines_def reset_rows_def mirrored_def replay_snoc Let_def)
next
  case False
  have "mirrored (m\<lparr>dl_all_lines := ls\<rparr>)" using assms by (simp add: mirrored_def)
  then show thesis using that False by (auto simp: applyLines_def Let_def elim: applyDisplayLines_eq [of _ "filteredLines fu m ls" False])
qed

text \<open>The newest \<open>n\<close> entries of a chronological list.\<close>

definition lastn :: "nat \<Rightarrow> 'a list \<Rightarrow> 'a list" where
  "lastn n xs = drop (length xs - n) xs"

lemma length_lastn [simp]: "length (lastn n xs) = min (length xs) n"
  by (simp add: lastn_def)

lemma lastn_all [simp]: "length xs \<le> n \<Longrightarrow> lastn n xs = xs"
  by (simp add: lastn_def)

lemma lastn_0 [simp]: "lastn 0 xs = []"
  by (simp add: lastn_def)

lemma lastn_append: "lastn n (xs @ ys) = lastn (n - length ys) xs @ lastn n ys"
  by (cases "n \<le> length ys") (auto simp: lastn_def)

lemma lastn_lastn: "lastn a (lastn b xs) = lastn (min a b) xs"
  by (auto simp: lastn_def min_def intro!: arg_cong [where f = "\<lambda>k. drop k xs"])

lemma lastn_mono: "lastn b xs = lastn b ys \<Longrightarrow> a \<le> b \<Longrightarrow> lastn a xs = lastn a ys"
  by (metis lastn_lastn min.absorb1)

lemma rev_take: "rev (take n xs) = lastn n (rev xs)"
  by (simp add: lastn_def rev_take)

text \<open>Appending the new records: the newest lines of the old ones and the new ones together.\<close>

lemma applyDelta_eq:
  assumes "mirrored m" "dl_display_lines m = filteredLines fu m (dl_all_lines m)" "length (dl_all_lines m) \<le> dl_load_limit m"
  obtains rs pruned where "applyDelta fu ls m = (pruned, m\<lparr>dl_all_lines := lastn (dl_load_limit m) (dl_all_lines m @ rev ls),
      dl_display_lines := filteredLines fu m (lastn (dl_load_limit m) (dl_all_lines m @ rev ls)), dl_rows := rs\<rparr>)"
    "replay whole_row [] rs = Some (filteredLines fu m (lastn (dl_load_limit m) (dl_all_lines m @ rev ls)))"
proof (cases "ls = []")
  case True
  then show thesis using assms that [of False "dl_rows m"] by (simp add: applyDelta_def mirrored_def)
next
  case False
  define new where "new = rev (if length ls > dl_load_limit m then take (dl_load_limit m) ls else ls)"
  define keep where "keep = min (length (dl_all_lines m)) (dl_load_limit m - length new)"
  define gone where "gone = length (dl_all_lines m) - keep"
  define k where "k = (if gone > 0 then length (filteredLines fu m (take gone (dl_all_lines m))) else 0)"
  define m1 where "m1 = (if k > 0 then remove_rows 0 (k - 1) m else m)"
  define m2 where "m2 = (if filteredLines fu m new \<noteq> [] then insert_rows (length (dl_display_lines m1)) (length (dl_display_lines m1) + length (filteredLines fu m new) - 1)
      (dl_display_lines m1 @ filteredLines fu m new) m1 else m1)"
  have new: "new = lastn (dl_load_limit m) (rev ls)" by (simp add: new_def rev_take)
  have ret: "take keep (drop gone (dl_all_lines m)) @ new = lastn (dl_load_limit m) (dl_all_lines m @ rev ls)"
    by (auto simp: new lastn_append keep_def gone_def) (simp add: lastn_def min_def)
  have f: "filteredLines fu m (dl_all_lines m) = filteredLines fu m (take gone (dl_all_lines m)) @ filteredLines fu m (drop gone (dl_all_lines m))"
    by (metis append_take_drop_id filter_append filteredLines_def)
  have k: "k = length (filteredLines fu m (take gone (dl_all_lines m)))" by (simp add: k_def filteredLines_def)
  have 1: "dl_display_lines m1 = filteredLines fu m (drop gone (dl_all_lines m))" "mirrored m1" "only_rows m m1"
    using assms(1,2) f k by (cases "filteredLines fu m (take gone (dl_all_lines m))"; auto simp: m1_def)+
  have "filteredLines fu m (lastn (dl_load_limit m) (dl_all_lines m @ rev ls)) = filteredLines fu m (drop gone (dl_all_lines m)) @ filteredLines fu m new"
    using ret by (simp add: keep_def gone_def filteredLines_def flip: ret)
  then have 2: "dl_display_lines m2 = filteredLines fu m (lastn (dl_load_limit m) (dl_all_lines m @ rev ls))" "mirrored m2" "only_rows m m2"
    using 1 by (auto simp: m2_def intro: mirrored_insert [where w = "[]"] only_rows_step)
  obtain d rs where m2: "m2 = m\<lparr>dl_display_lines := d, dl_rows := rs\<rparr>" using 2(3) by (auto simp: only_rows_def)
  have "applyDelta fu ls m = (length ls > dl_load_limit m \<or> gone > 0, m2\<lparr>dl_all_lines := take keep (drop gone (dl_all_lines m)) @ new\<rparr>)"
    using False unfolding applyDelta_def Let_def new_def [symmetric] keep_def [symmetric] gone_def [symmetric] k_def [symmetric] m1_def [symmetric] m2_def [symmetric]
    by simp
  then show thesis using that [of "length ls > dl_load_limit m \<or> gone > 0" rs] 2(1,2) ret by (simp add: m2 mirrored_def)
qed


section \<open>Events\<close>

text \<open>
  The model beside a log that only grows, and what an observer notes: how long the log was when each result on its way was read, how long it was at
  the last read that the page was told of while it was active and since it was, and whether the limit was ever lowered
  below the capacity of the last load while fewer lines are loaded. After that the capacity is kept, lines are pruned to the lower limit,
  and raising the limit again while the page is inactive does not load them again.
\<close>

definition clamp_limit :: "int \<Rightarrow> nat" where
  "clamp_limit n = nat (max 1 (min n (int kMaxLoadLimit)))"

record log_notes =
  reads_at :: "nat list"
  seen_at :: "nat option"
  lowered :: bool

definition no_notes :: log_notes where
  "no_notes = \<lparr>reads_at = [], seen_at = None, lowered = False\<rparr>"

definition lowers :: "int \<Rightarrow> DebugLogModel \<Rightarrow> bool" where
  "lowers n m \<longleftrightarrow> \<not> (dl_loaded_limit m \<le> clamp_limit n \<or> clamp_limit n < length (dl_all_lines m))"

definition note_read :: "DebugLogModel \<Rightarrow> bytes \<Rightarrow> log_notes \<Rightarrow> log_notes" where
  "note_read m c g = (if dl_jobs m \<noteq> [] \<and> \<not> dl_stopping m then g\<lparr>reads_at := reads_at g @ [length c]\<rparr> else g)"

definition told :: "DebugLogModel \<Rightarrow> bool" where
  "told m \<longleftrightarrow> (case dl_results m of [] \<Rightarrow> False | (r, full, gen) # rs \<Rightarrow> dl_active m \<and> \<not> dl_stopping m \<and> gen = dl_generation m \<and> file_opened r)"

definition note_delivered :: "DebugLogModel \<Rightarrow> log_notes \<Rightarrow> log_notes" where
  "note_delivered m g = g\<lparr>reads_at := tl (reads_at g), seen_at := if told m then Some (hd (reads_at g)) else seen_at g\<rparr>"

type_synonym log_world = "DebugLogModel \<times> bytes \<times> log_notes"

inductive log_step :: "log_env \<Rightarrow> (qchar \<Rightarrow> qchar) \<Rightarrow> log_world \<Rightarrow> log_world \<Rightarrow> bool" for env fu where
  grow: "no_boundary_line (complete_part (c @ app)) \<Longrightarrow> log_step env fu (m, c, g) (m, c @ app, g)"
| limit: "log_step env fu (m, c, g) (setLoadLimit fu n m, c, g\<lparr>lowered := lowered g \<or> lowers n m\<rparr>)"
| more: "log_step env fu (m, c, g) (loadMore m, c, g)"
| activity: "log_step env fu (m, c, g) (setActive we b m, c, g)"
| search: "log_step env fu (m, c, g) (setFilter fu s m, c, g)"
| warnings: "log_step env fu (m, c, g) (setWarningsAndErrorsOnly fu b m, c, g)"
| refresh: "log_step env fu (m, c, g) (log_refresh b m, c, g)"
| changed: "log_step env fu (m, c, g) (watcher_changed we m, c, g)"
| timeout: "log_step env fu (m, c, g) (debounce_timeout m, c, g)"
| opened: "log_step env fu (m, c, g) (snd (openLogFile b1 b2 m), c, g)"
| cleared: "log_step env fu (m, c, g) (clearOpenError m, c, g)"
| stopped: "log_step env fu (m, c, g) (stop_log m, c, g)"
| read: "log_step env fu (m, c, g) (run_read env (Log_open (file_of c)) m, c, note_read m c g)"
| read_failed: "src \<in> {Log_missing, Log_unreadable} \<Longrightarrow> log_step env fu (m, c, g) (run_read env src m, c, note_read m c g)"
| delivered: "log_step env fu (m, c, g) (deliver_read fu we m, c, note_delivered m g)"

inductive log_run :: "log_env \<Rightarrow> (qchar \<Rightarrow> qchar) \<Rightarrow> log_world \<Rightarrow> bool" for env fu where
  start: "no_boundary_line (complete_part c) \<Longrightarrow> log_run env fu (new_DebugLogModel path b, c, no_notes)"
| step: "log_run env fu s \<Longrightarrow> log_step env fu s s' \<Longrightarrow> log_run env fu s'"

section \<open>The invariant\<close>

definition view_ok :: "(qchar \<Rightarrow> qchar) \<Rightarrow> DebugLogModel \<Rightarrow> bool" where
  "view_ok fu m \<longleftrightarrow> mirrored m \<and> dl_display_lines m = filteredLines fu m (dl_all_lines m)"

definition limits_ok :: "DebugLogModel \<Rightarrow> bool" where
  "limits_ok m \<longleftrightarrow> 1 \<le> dl_load_limit m \<and> dl_load_limit m \<le> kMaxLoadLimit \<and> dl_loaded_limit m \<le> dl_load_limit m \<and> length (dl_all_lines m) \<le> dl_load_limit m"

text \<open>What is held of the content \<open>c\<close> of the last read.\<close>

definition holds_state :: "bytes \<Rightarrow> nat option \<Rightarrow> bytes \<Rightarrow> bool \<Rightarrow> bytes \<Rightarrow> bool" where
  "holds_state c sz partial disc anchor \<longleftrightarrow>
     (sz \<noteq> None \<longrightarrow> sz = Some (length c) \<and> partial = kept_partial c \<and> disc = unfinished_oversized c \<and> anchor = anchor_of c)"

definition known :: "log_env \<Rightarrow> bytes \<Rightarrow> DebugLogModel \<Rightarrow> bool" where
  "known env c m \<longleftrightarrow>
     holds_state c (dl_file_size m) (dl_trailing_partial m) (dl_discarding m) (dl_file_anchor m) \<and>
     lastn (dl_loaded_limit m) (dl_all_lines m) = lastn (dl_loaded_limit m) (all_records env c)"

text \<open>What a read of \<open>c @ app\<close> returns when it starts from what is held of \<open>c\<close>.\<close>

definition read_result_of :: "log_env \<Rightarrow> bytes \<Rightarrow> bytes \<Rightarrow> nat \<Rightarrow> ReadResult \<Rightarrow> bool" where
  "read_result_of env c app n r \<longleftrightarrow>
     r = read_of (c @ app) True n (take n (rev (all_records env (c @ app)))) (n < length (all_records env (c @ app))) \<or>
     r = read_of (c @ app) False 0 (take (n + 1) (rev (new_records env c app))) (n < length (new_records env c app))"

definition job_ok :: "DebugLogModel \<Rightarrow> read_job \<Rightarrow> bool" where
  "job_ok m j \<longleftrightarrow> dl_loaded_limit m \<le> j_load_limit j \<and> j_load_limit j \<le> kMaxLoadLimit \<and>
     j_size j = dl_file_size m \<and> j_partial j = dl_trailing_partial m \<and> j_discarding j = dl_discarding m \<and> j_anchor j = dl_file_anchor m"

definition result_ok :: "log_env \<Rightarrow> bytes \<Rightarrow> bytes \<Rightarrow> nat \<Rightarrow> ReadResult \<Rightarrow> bool" where
  "result_ok env c0 c loaded r \<longleftrightarrow>
     (file_opened r \<longrightarrow> (\<exists>app n. prefix (c0 @ app) c \<and> loaded \<le> n \<and> n \<le> kMaxLoadLimit \<and> read_result_of env c0 app n r))"

definition generations :: "DebugLogModel \<Rightarrow> 64 word list" where
  "generations m = map j_generation (dl_jobs m) @ map (\<lambda>(r, full, gen). gen) (dl_results m)"

definition flight_ok :: "DebugLogModel \<Rightarrow> bool" where
  "flight_ok m \<longleftrightarrow>
     (\<not> dl_stopping m \<longrightarrow> dl_reader_running m \<and> length (generations m) = (if dl_read_in_flight m then 1 else 0)) \<and>
     (generations m \<noteq> [] \<or> dl_log_available m \<longrightarrow> dl_log_to_file m) \<and>
     (dl_active m \<and> \<not> dl_stopping m \<longrightarrow> (\<forall>g\<in>set (generations m). g \<noteq> dl_generation m \<longrightarrow> dl_refresh_pending m))"

definition base_inv :: "log_env \<Rightarrow> (qchar \<Rightarrow> qchar) \<Rightarrow> bytes \<Rightarrow> bytes \<Rightarrow> DebugLogModel \<Rightarrow> bool" where
  "base_inv env fu c0 c m \<longleftrightarrow>
     prefix c0 c \<and> view_ok fu m \<and> limits_ok m \<and> known env c0 m \<and> flight_ok m \<and>
     (\<forall>j\<in>set (dl_jobs m). job_ok m j) \<and> (\<forall>r\<in>set (dl_results m). result_ok env c0 c (dl_loaded_limit m) (fst r))"

text \<open>When no read is under way, as many lines are loaded as asked for.\<close>

definition idle_ok :: "DebugLogModel \<Rightarrow> bool" where
  "idle_ok m \<longleftrightarrow> (dl_active m \<and> \<not> dl_stopping m \<and> dl_log_available m \<and> \<not> dl_read_in_flight m \<longrightarrow> dl_loaded_limit m = dl_load_limit m)"

definition log_inv :: "log_env \<Rightarrow> (qchar \<Rightarrow> qchar) \<Rightarrow> DebugLogModel \<times> bytes \<Rightarrow> bool" where
  "log_inv env fu s \<longleftrightarrow> no_boundary_line (complete_part (snd s)) \<and> idle_ok (fst s) \<and> (\<exists>c0. base_inv env fu c0 (snd s) (fst s))"

lemmas inv_defs = base_inv_def view_ok_def limits_ok_def known_def flight_ok_def job_ok_def generations_def mirrored_def

lemma new_inv: "no_boundary_line (complete_part c) \<Longrightarrow> log_inv env fu (new_DebugLogModel path b, c)"
  unfolding log_inv_def by (auto simp: inv_defs idle_ok_def new_DebugLogModel_def holds_state_def filteredLines_def kMaxLoadLimit_def intro!: exI [of _ "[]"])

lemma refresh_base: "base_inv env fu c0 c m \<Longrightarrow> base_inv env fu c0 c (log_refresh full m)"
  by (auto simp: log_refresh_def inv_defs)

lemma refresh_idle: "base_inv env fu c0 c m \<Longrightarrow> idle_ok (log_refresh full m)"
  by (auto simp: log_refresh_def inv_defs idle_ok_def)

lemma refresh_inv: "base_inv env fu c0 c m \<Longrightarrow> no_boundary_line (complete_part c) \<Longrightarrow> log_inv env fu (log_refresh full m, c)"
  unfolding log_inv_def fst_conv snd_conv by (intro conjI exI [of _ c0] refresh_base refresh_idle)


lemma log_invE:
  assumes "log_inv env fu (m, c)"
  obtains c0 where "base_inv env fu c0 c m" "idle_ok m" "no_boundary_line (complete_part c)"
  using assms by (auto simp: log_inv_def)

lemma log_invI: "base_inv env fu c0 c m \<Longrightarrow> idle_ok m \<Longrightarrow> no_boundary_line (complete_part c) \<Longrightarrow> log_inv env fu (m, c)"
  by (auto simp: log_inv_def)

lemma watch_eq: "\<exists>a b. watchLogPath we m = m\<lparr>dl_watch_file := a, dl_watch_dir := b\<rparr>"
proof -
  have "watchLogPath we m = m\<lparr>dl_watch_file := dl_watch_file (watchLogPath we m), dl_watch_dir := dl_watch_dir (watchLogPath we m)\<rparr>"
    by (simp add: watchLogPath_def Let_def)
  then show ?thesis by blast
qed

text \<open>The watcher, the timer and the error of opening the file elsewhere do not matter.\<close>

lemma base_watch: "base_inv env fu c0 c (watchLogPath we m) = base_inv env fu c0 c m"
proof -
  obtain a b where "watchLogPath we m = m\<lparr>dl_watch_file := a, dl_watch_dir := b\<rparr>" using watch_eq by blast
  then show ?thesis by (simp add: inv_defs)
qed

lemma idle_watch: "idle_ok (watchLogPath we m) = idle_ok m"
proof -
  obtain a b where "watchLogPath we m = m\<lparr>dl_watch_file := a, dl_watch_dir := b\<rparr>" using watch_eq by blast
  then show ?thesis by (simp add: idle_ok_def)
qed

lemma base_frame:
  "base_inv env fu c0 c (m\<lparr>dl_debounce := b\<rparr>) = base_inv env fu c0 c m"
  "base_inv env fu c0 c (m\<lparr>dl_external_open_error := e\<rparr>) = base_inv env fu c0 c m"
  "base_inv env fu c0 c (m\<lparr>dl_open_error := e\<rparr>) = base_inv env fu c0 c m"
  "base_inv env fu c0 c (m\<lparr>dl_has_more_lines := b\<rparr>) = base_inv env fu c0 c m"
  "idle_ok (m\<lparr>dl_debounce := b\<rparr>) = idle_ok m"
  "idle_ok (m\<lparr>dl_external_open_error := e\<rparr>) = idle_ok m"
  "idle_ok (m\<lparr>dl_has_more_lines := b\<rparr>) = idle_ok m"
  by (simp_all add: inv_defs idle_ok_def)

lemma result_ok_mono: "result_ok env c0 c loaded r \<Longrightarrow> k \<le> loaded \<Longrightarrow> result_ok env c0 c k r"
  unfolding result_ok_def by (meson order_trans)

lemma grow_inv: "log_inv env fu (m, c) \<Longrightarrow> no_boundary_line (complete_part (c @ app)) \<Longrightarrow> log_inv env fu (m, c @ app)"
proof (elim log_invE, rule log_invI)
  fix c0 assume "base_inv env fu c0 c m"
  then show "base_inv env fu c0 (c @ app) m" by (force simp: base_inv_def result_ok_def)
qed simp_all

lemma changed_inv: "log_inv env fu (m, c) \<Longrightarrow> log_inv env fu (watcher_changed we m, c)"
  by (auto simp: watcher_changed_def log_inv_def base_frame base_watch idle_watch)

lemma timeout_inv: "log_inv env fu (m, c) \<Longrightarrow> log_inv env fu (debounce_timeout m, c)"
  by (auto simp: debounce_timeout_def base_frame elim!: log_invE intro: refresh_inv)

lemma open_inv: "log_inv env fu (m, c) \<Longrightarrow> log_inv env fu (snd (openLogFile b1 b2 m), c)" "log_inv env fu (m, c) \<Longrightarrow> log_inv env fu (clearOpenError m, c)"
  by (simp_all add: log_inv_def openLogFile_def clearOpenError_def base_frame)

lemma stop_inv: "log_inv env fu (m, c) \<Longrightarrow> log_inv env fu (stop_log m, c)"
proof (elim log_invE)
  fix c0 assume b: "base_inv env fu c0 c m" "idle_ok m" "no_boundary_line (complete_part c)"
  then have "base_inv env fu c0 c (stop_log m)" "idle_ok (stop_log m)" by (auto simp: stop_log_def inv_defs idle_ok_def)
  with b(3) show ?thesis by (intro log_invI)
qed

lemma filter_inv:
  assumes "log_inv env fu (m, c)"
  shows "log_inv env fu (setFilter fu s m, c)" "log_inv env fu (setWarningsAndErrorsOnly fu w m, c)"
proof -
  obtain c0 where b: "base_inv env fu c0 c m" "idle_ok m" "no_boundary_line (complete_part c)" using assms by (rule log_invE)
  have r: "buildDisplayLines fu True x = x\<lparr>dl_display_lines := filteredLines fu x (dl_all_lines x), dl_rows := dl_rows x @ [Model_reset (filteredLines fu x (dl_all_lines x))]\<rparr>" for x
    by (simp add: buildDisplayLines_def applyDisplayLines_def reset_rows_def)
  have "base_inv env fu c0 c (setFilter fu s m)" "idle_ok (setFilter fu s m)" "base_inv env fu c0 c (setWarningsAndErrorsOnly fu w m)" "idle_ok (setWarningsAndErrorsOnly fu w m)"
    using b(1,2) by (auto simp: setFilter_def setWarningsAndErrorsOnly_def r inv_defs idle_ok_def replay_snoc)
  with b(3) show "log_inv env fu (setFilter fu s m, c)" "log_inv env fu (setWarningsAndErrorsOnly fu w m, c)" by (auto intro: log_invI)
qed

lemma active_inv: "log_inv env fu (m, c) \<Longrightarrow> log_inv env fu (setActive we b m, c)"
proof (elim log_invE)
  fix c0 assume i: "base_inv env fu c0 c m" "idle_ok m" "no_boundary_line (complete_part c)"
  show ?thesis
  proof (cases "dl_active m = b \<or> dl_stopping m")
    case False
    define m1 where "m1 = m\<lparr>dl_active := b, dl_generation := dl_generation m + 1\<rparr>"
    show ?thesis
    proof (cases b)
      case True
      obtain w d where w: "watchLogPath we m1 = m1\<lparr>dl_watch_file := w, dl_watch_dir := d\<rparr>" using watch_eq by blast
      then have e: "setActive we b m = log_refresh (dl_loaded_limit m < dl_load_limit m) (watchLogPath we m1)"
        using False True by (simp add: setActive_def m1_def [symmetric]) (simp add: m1_def)
      show ?thesis
      proof (cases "generations m = []")
        case g: True
        then have "base_inv env fu c0 c m1" using i(1) by (auto simp: m1_def inv_defs)
        then show ?thesis unfolding e using i(3) by (intro refresh_inv) (simp_all add: base_watch)
      next
        case g: False
        then have "dl_log_to_file m" "dl_read_in_flight m" using i(1) False by (auto simp: base_inv_def flight_ok_def split: if_splits)
        then show ?thesis unfolding e w using i True False by (intro log_invI [of _ _ c0]) (auto simp: m1_def log_refresh_def inv_defs idle_ok_def)
      qed
    next
      case F: False
      then show ?thesis using i False by (auto simp: setActive_def inv_defs idle_ok_def intro!: log_invI [of _ _ c0])
    qed
  qed (use i in \<open>auto simp: setActive_def intro: log_invI\<close>)
qed

lemma more_inv: "log_inv env fu (m, c) \<Longrightarrow> log_inv env fu (loadMore m, c)"
proof (elim log_invE)
  fix c0 assume i: "base_inv env fu c0 c m" "idle_ok m" "no_boundary_line (complete_part c)"
  have "dl_load_limit m < kMaxLoadLimit \<Longrightarrow> base_inv env fu c0 c (m\<lparr>dl_load_limit := min (dl_load_limit m + 1000) kMaxLoadLimit\<rparr>)"
    using i(1) by (auto simp: inv_defs)
  then show ?thesis using i by (auto simp: loadMore_def base_frame intro: refresh_inv log_invI)
qed

lemma limit_inv:
  assumes "log_inv env fu (m, c)" "\<not> lowers n m"
  shows "log_inv env fu (setLoadLimit fu n m, c)"
proof -
  note fits = assms(2) [unfolded lowers_def not_not]
  obtain c0 where b: "base_inv env fu c0 c m" "idle_ok m" "no_boundary_line (complete_part c)" using assms(1) by (rule log_invE)
  define k where "k = clamp_limit n"
  have k: "1 \<le> k" "k \<le> kMaxLoadLimit" by (auto simp: k_def clamp_limit_def kMaxLoadLimit_def)
  define m1 where "m1 = m\<lparr>dl_load_limit := k\<rparr>"
  define m2 where "m2 = (if length (dl_all_lines m1) > k then
                       let m' = applyLines fu (drop (length (dl_all_lines m1) - k) (dl_all_lines m1)) False m1
                       in m'\<lparr>dl_loaded_limit := min (dl_loaded_limit m') k, dl_has_more_lines := (k < kMaxLoadLimit)\<rparr>
                     else m1)"
  have "base_inv env fu c0 c m2 \<and> dl_active m2 = dl_active m \<and> dl_stopping m2 = dl_stopping m \<and> dl_log_available m2 = dl_log_available m \<and>
      dl_read_in_flight m2 = dl_read_in_flight m \<and> dl_load_limit m2 = k \<and> dl_loaded_limit m2 = (if length (dl_all_lines m) > k then min (dl_loaded_limit m) k else dl_loaded_limit m)"
  proof (cases "length (dl_all_lines m) > k")
    case True
    have "mirrored m1" using b(1) by (simp add: m1_def inv_defs)
    then obtain rs where "applyLines fu (lastn k (dl_all_lines m)) False m1 = m1\<lparr>dl_all_lines := lastn k (dl_all_lines m), dl_display_lines := filteredLines fu m1 (lastn k (dl_all_lines m)), dl_rows := rs\<rparr>"
      "replay whole_row [] rs = Some (filteredLines fu m1 (lastn k (dl_all_lines m)))" by (rule applyLines_eq)
    moreover have "lastn (min (dl_loaded_limit m) k) (dl_all_lines m) = lastn (min (dl_loaded_limit m) k) (all_records env c0)"
      using b(1) by (auto simp: inv_defs intro: lastn_mono)
    ultimately show ?thesis using b(1) k True
      by (auto simp: m2_def m1_def lastn_def [symmetric] Let_def inv_defs lastn_lastn min.assoc intro: result_ok_mono)
  next
    case False
    then show ?thesis using b(1) k fits by (auto simp: m2_def m1_def inv_defs k_def [symmetric])
  qed
  note m2 = this
  have idle: "k \<le> dl_load_limit m \<or> \<not> dl_active m2 \<Longrightarrow> idle_ok m2"
    using b(2) fits m2 by (auto simp: idle_ok_def k_def [symmetric] split: if_splits)
  have "setLoadLimit fu n m = (if dl_load_limit m = k then m else if k > dl_load_limit m \<and> dl_active m2 then log_refresh True m2 else m2)"
    unfolding setLoadLimit_def clamp_limit_def [symmetric] k_def [symmetric] Let_def m2_def m1_def by simp
  then show ?thesis using b m2 idle by (auto intro: refresh_inv log_invI)
qed


text \<open>A job returns what a read of the present content returns, or that the file cannot be opened.\<close>

lemma job_read:
  assumes "job_ok m j" "known env c0 m" "c = c0 @ app" "no_boundary_line (complete_part c)"
  shows "read_result_of env c0 app (j_load_limit j)
    (ReadAndFilter env p (Log_open (file_of c)) (j_load_limit j) (j_full j) (j_size j) (j_partial j) (j_discarding j) (j_anchor j))"
proof (cases "j_full j \<or> j_size j = None")
  case True
  have "j_load_limit j \<le> kMaxLoadLimit" using assms(1) by (simp add: job_ok_def)
  from ReadAndFilter_full [OF assms(4) this True] show ?thesis by (simp add: read_result_of_def assms(3))
next
  case False
  then have s: "\<not> j_full j" "j_size j = Some (length c0)" "j_partial j = kept_partial c0" "j_discarding j = unfinished_oversized c0" "j_anchor j = anchor_of c0"
    "j_load_limit j \<le> kMaxLoadLimit" using assms(1,2) by (auto simp: job_ok_def known_def holds_state_def)
  show ?thesis using ReadAndFilter_append [of c0 app "j_load_limit j" env p] assms(3,4) s by (auto simp: read_after_def read_result_of_def)
qed

lemma job_result:
  assumes "job_ok m j" "known env c0 m" "prefix c0 c" "no_boundary_line (complete_part c)"
  shows "result_ok env c0 c (dl_loaded_limit m) (ReadAndFilter env p (Log_open (file_of c)) (j_load_limit j) (j_full j) (j_size j) (j_partial j) (j_discarding j) (j_anchor j))"
proof -
  obtain app where c: "c = c0 @ app" using assms(3) by (auto simp: prefix_def)
  with job_read [OF assms(1,2) c assms(4)] show ?thesis using assms(1) unfolding result_ok_def job_ok_def by blast
qed

lemma unopened_result: "src \<in> {Log_missing, Log_unreadable} \<Longrightarrow> \<not> file_opened (ReadAndFilter env p src n full sz part disc a)"
  by (auto simp: ReadAndFilter_def ReadTail_def unopened_def empty_result_def split: option.splits)

lemma run_read_base:
  assumes "base_inv env fu c0 c m"
    "\<And>j p. j \<in> set (dl_jobs m) \<Longrightarrow> result_ok env c0 c (dl_loaded_limit m) (ReadAndFilter env p src (j_load_limit j) (j_full j) (j_size j) (j_partial j) (j_discarding j) (j_anchor j))"
  shows "base_inv env fu c0 c (run_read env src m)"
proof (cases "dl_jobs m")
  case Nil
  then show ?thesis using assms by (simp add: run_read_def)
next
  case (Cons j js)
  then show ?thesis using assms(1) assms(2) [of j] by (auto simp: run_read_def inv_defs Let_def)
qed

lemma run_read_idle: "idle_ok m \<Longrightarrow> idle_ok (run_read env src m)"
  by (auto simp: run_read_def idle_ok_def Let_def split: list.splits)

lemma read_base: "base_inv env fu c0 c m \<Longrightarrow> no_boundary_line (complete_part c) \<Longrightarrow> base_inv env fu c0 c (run_read env (Log_open (file_of c)) m)"
  by (intro run_read_base job_result) (auto simp: base_inv_def)

lemma read_inv: "log_inv env fu (m, c) \<Longrightarrow> log_inv env fu (run_read env (Log_open (file_of c)) m, c)"
  by (elim log_invE) (intro log_invI read_base run_read_idle)

lemma read_failed_inv: "src \<in> {Log_missing, Log_unreadable} \<Longrightarrow> log_inv env fu (m, c) \<Longrightarrow> log_inv env fu (run_read env src m, c)"
proof (elim log_invE)
  fix c0 assume s: "src \<in> {Log_missing, Log_unreadable}" and i: "base_inv env fu c0 c m" "idle_ok m" "no_boundary_line (complete_part c)"
  have "base_inv env fu c0 c (run_read env src m)"
    using i unopened_result [OF s] by (intro run_read_base) (auto simp: result_ok_def)
  then show ?thesis using i run_read_idle by (intro log_invI)
qed

text \<open>What applying a result does, with a content that the result is a read of.\<close>

lemma lastn_read:
  assumes "lastn k xs = lastn k R" "k \<le> l" "k \<le> n + 1"
  shows "lastn k (lastn l (xs @ lastn (n + 1) N)) = lastn k (R @ N)"
proof -
  have "lastn k (xs @ lastn (n + 1) N) = lastn k (R @ N)"
  proof (cases "length N \<le> n + 1")
    case True
    have "lastn (k - length N) xs = lastn (k - length N) R" using assms(1) by (rule lastn_mono) simp
    with True show ?thesis by (simp add: lastn_append)
  next
    case False
    then show ?thesis using assms(3) by (simp add: lastn_append lastn_lastn min_def)
  qed
  then show ?thesis using assms(2) by (simp add: lastn_lastn min_def)
qed

lemma apply_result_eq:
  assumes "view_ok fu m" "limits_ok m" "lastn (dl_loaded_limit m) (dl_all_lines m) = lastn (dl_loaded_limit m) (all_records env c)"
    "dl_loaded_limit m \<le> n" "n \<le> kMaxLoadLimit" "read_result_of env c app n r"
  obtains ls rs k more where "apply_result fu r m = m\<lparr>dl_all_lines := ls, dl_display_lines := filteredLines fu m ls, dl_rows := rs, dl_loaded_limit := k, dl_has_more_lines := more\<rparr>"
    "replay whole_row [] rs = Some (filteredLines fu m ls)" "length ls \<le> dl_load_limit m" "dl_loaded_limit m \<le> k" "k \<le> dl_load_limit m" "lastn k ls = lastn k (all_records env (c @ app))"
proof (cases "full_snapshot r")
  case True
  then have r: "r = read_of (c @ app) True n (take n (rev (all_records env (c @ app)))) (n < length (all_records env (c @ app)))"
    using assms(6) by (auto simp: read_result_of_def read_of_def empty_result_def)
  let ?ls = "rev (take (dl_load_limit m) (rr_lines r))"
  have ls: "?ls = lastn (min (dl_load_limit m) n) (all_records env (c @ app))" by (simp add: r read_of_def empty_result_def rev_take min.commute)
  have "mirrored m" using assms(1) by (simp add: view_ok_def)
  then obtain rs where a: "applyLines fu ?ls (continuity_lost r \<or> dl_all_lines m = []) m = m\<lparr>dl_all_lines := ?ls, dl_display_lines := filteredLines fu m ?ls, dl_rows := rs\<rparr>"
    "replay whole_row [] rs = Some (filteredLines fu m ?ls)" by (rule applyLines_eq)
  have t: "(if length (rr_lines r) > dl_load_limit m then take (dl_load_limit m) (rr_lines r) else rr_lines r) = take (dl_load_limit m) (rr_lines r)" by simp
  show thesis
    by (rule that [where ls = ?ls and rs = rs and k = "min n (dl_load_limit m)" and more = "(rr_has_more_lines r \<or> length (rr_lines r) > dl_load_limit m) \<and> dl_load_limit m < kMaxLoadLimit"])
      (use True a ls assms(2,4) in \<open>simp_all add: apply_result_def Let_def t lastn_lastn limits_ok_def, simp_all add: r read_of_def empty_result_def min.commute\<close>)
next
  case False
  then have r: "r = read_of (c @ app) False 0 (take (n + 1) (rev (new_records env c app))) (n < length (new_records env c app))"
    using assms(6) by (auto simp: read_result_of_def read_of_def empty_result_def)
  have rl: "rev (rr_lines r) = lastn (n + 1) (new_records env c app)" by (simp add: r read_of_def empty_result_def rev_take)
  obtain pruned rs where d: "applyDelta fu (rr_lines r) m = (pruned, m\<lparr>dl_all_lines := lastn (dl_load_limit m) (dl_all_lines m @ rev (rr_lines r)),
      dl_display_lines := filteredLines fu m (lastn (dl_load_limit m) (dl_all_lines m @ rev (rr_lines r))), dl_rows := rs\<rparr>)"
    "replay whole_row [] rs = Some (filteredLines fu m (lastn (dl_load_limit m) (dl_all_lines m @ rev (rr_lines r))))"
    by (rule applyDelta_eq [of m fu "rr_lines r"]) (use assms(1,2) in \<open>simp_all add: view_ok_def limits_ok_def\<close>)
  have "lastn (dl_loaded_limit m) (lastn (dl_load_limit m) (dl_all_lines m @ rev (rr_lines r))) = lastn (dl_loaded_limit m) (all_records env (c @ app))"
    unfolding rl all_records_extend using assms(2,3,4) by (intro lastn_read) (auto simp: limits_ok_def)
  then show thesis using False d assms(2)
    by (intro that [where ls = "lastn (dl_load_limit m) (dl_all_lines m @ rev (rr_lines r))" and rs = rs and k = "dl_loaded_limit m" and
          more = "(dl_has_more_lines m \<or> rr_has_more_lines r \<or> pruned) \<and> dl_load_limit m < kMaxLoadLimit"])
      (simp_all add: apply_result_def limits_ok_def)
qed


text \<open>A request that was folded into the read under way runs when it ends.\<close>

lemma run_pending_inv:
  assumes "base_inv env fu c0 c m" "generations m = []" "no_boundary_line (complete_part c)" "dl_refresh_pending m \<or> idle_ok m"
  shows "log_inv env fu (run_pending m, c)"
proof (cases "dl_refresh_pending m")
  case True
  have "base_inv env fu c0 c (m\<lparr>dl_refresh_pending := False, dl_pending_full_load := False\<rparr>)" using assms(1,2) by (auto simp: inv_defs)
  then show ?thesis using True assms(3) by (simp add: run_pending_def refresh_inv)
next
  case False
  then show ?thesis using assms by (auto simp: run_pending_def intro: log_invI)
qed

text \<open>A successful read is applied: from then on the model holds the state of the content that was read.\<close>

definition settle_read :: "(qchar \<Rightarrow> qchar) \<Rightarrow> watch_env \<Rightarrow> ReadResult \<Rightarrow> DebugLogModel \<Rightarrow> DebugLogModel" where
  "settle_read fu we r m = apply_result fu r ((watchLogPath we (m\<lparr>dl_log_available := True, dl_open_error := []\<rparr>))
     \<lparr>dl_file_size := rr_file_size r, dl_trailing_partial := trailing_partial r, dl_discarding := discarding_oversized_line r, dl_file_anchor := rr_file_anchor r\<rparr>)"

lemma settle_read_base:
  assumes b: "base_inv env fu c0 c m" and g: "dl_jobs m = []" "dl_results m = [(r, full, gen)]" and o: "file_opened r" and s: "\<not> dl_stopping m"
  obtains app where "base_inv env fu (c0 @ app) c
    ((settle_read fu we r (m\<lparr>dl_results := []\<rparr>))\<lparr>dl_refresh_pending := False, dl_pending_full_load := False, dl_read_in_flight := False\<rparr>)"
    "\<not> dl_stopping (settle_read fu we r (m\<lparr>dl_results := []\<rparr>))" "dl_file_size (settle_read fu we r (m\<lparr>dl_results := []\<rparr>)) = rr_file_size r"
    "dl_loaded_limit m \<le> dl_loaded_limit (settle_read fu we r (m\<lparr>dl_results := []\<rparr>))" "dl_refresh_pending (settle_read fu we r (m\<lparr>dl_results := []\<rparr>)) = dl_refresh_pending m"
    "dl_load_limit (settle_read fu we r (m\<lparr>dl_results := []\<rparr>)) = dl_load_limit m" "prefix (c0 @ app) c" "\<exists>n. read_result_of env c0 app n r"
proof -
  have r: "result_ok env c0 c (dl_loaded_limit m) r" using b g by (simp add: base_inv_def)
  then obtain app n where n: "prefix (c0 @ app) c" "dl_loaded_limit m \<le> n" "n \<le> kMaxLoadLimit" "read_result_of env c0 app n r" using o by (auto simp: result_ok_def)
  obtain w d where w: "watchLogPath we (m\<lparr>dl_results := [], dl_log_available := True, dl_open_error := []\<rparr>) =
      m\<lparr>dl_results := [], dl_log_available := True, dl_open_error := [], dl_watch_file := w, dl_watch_dir := d\<rparr>" using watch_eq by blast
  define m3 where "m3 = m\<lparr>dl_results := [], dl_log_available := True, dl_open_error := [], dl_watch_file := w, dl_watch_dir := d, dl_file_size := rr_file_size r,
      dl_trailing_partial := trailing_partial r, dl_discarding := discarding_oversized_line r, dl_file_anchor := rr_file_anchor r\<rparr>"
  have v: "view_ok fu m3" "limits_ok m3" "lastn (dl_loaded_limit m3) (dl_all_lines m3) = lastn (dl_loaded_limit m3) (all_records env c0)" "dl_loaded_limit m3 \<le> n"
    using b n(2) by (simp_all add: m3_def inv_defs)
  obtain ls rs k more where e: "apply_result fu r m3 = m3\<lparr>dl_all_lines := ls, dl_display_lines := filteredLines fu m3 ls, dl_rows := rs, dl_loaded_limit := k, dl_has_more_lines := more\<rparr>"
    and p: "replay whole_row [] rs = Some (filteredLines fu m3 ls)" "length ls \<le> dl_load_limit m3" "dl_loaded_limit m3 \<le> k" "k \<le> dl_load_limit m3" "lastn k ls = lastn k (all_records env (c0 @ app))"
    by (rule apply_result_eq [OF v n(3,4)])
  have st: "holds_state (c0 @ app) (rr_file_size r) (trailing_partial r) (discarding_oversized_line r) (rr_file_anchor r)"
    using n(4) by (auto simp: read_result_of_def read_of_def empty_result_def holds_state_def)
  have sr: "settle_read fu we r (m\<lparr>dl_results := []\<rparr>) = apply_result fu r m3" unfolding settle_read_def w m3_def ..
  have b3: "base_inv env fu (c0 @ app) c ((apply_result fu r m3)\<lparr>dl_refresh_pending := False, dl_pending_full_load := False, dl_read_in_flight := False\<rparr>)"
    unfolding e using b g p st n(1) s by (auto simp: m3_def inv_defs)
  have "\<not> dl_stopping (apply_result fu r m3)" "dl_file_size (apply_result fu r m3) = rr_file_size r" "dl_loaded_limit m \<le> dl_loaded_limit (apply_result fu r m3)"
    "dl_refresh_pending (apply_result fu r m3) = dl_refresh_pending m" "dl_load_limit (apply_result fu r m3) = dl_load_limit m"
    using s p(3) unfolding e by (simp_all add: m3_def)
  with b3 n(1,4) show thesis by (intro that [of app] exI [of _ n]) (simp_all only: sr not_False_eq_True)
qed

lemma onReadCompleted_opened:
  assumes "dl_active m" "\<not> dl_stopping m" "file_opened r" "\<not> dl_stopping (settle_read fu we r m)"
  shows "onReadCompleted fu we r m =
    (let m4 = settle_read fu we r m; m5 = m4\<lparr>dl_refresh_pending := False, dl_pending_full_load := False, dl_read_in_flight := False\<rparr>; wider = dl_loaded_limit m4 < dl_load_limit m4
     in if dl_refresh_pending m4 \<or> wider then log_refresh (dl_pending_full_load m4 \<or> wider) m5 else m5)"
  using assms by (simp add: onReadCompleted_def settle_read_def Let_def)

lemma log_deliver_inv: "log_inv env fu (m, c) \<Longrightarrow> log_inv env fu (deliver_read fu we m, c)"
proof (elim log_invE)
  fix c0 assume i: "base_inv env fu c0 c m" "idle_ok m" "no_boundary_line (complete_part c)"
  show ?thesis
  proof (cases "dl_results m")
    case Nil
    then show ?thesis using i by (auto simp: deliver_read_def intro: log_invI)
  next
    case (Cons h rs)
    obtain r full gen where h: "h = (r, full, gen)" by (cases h)
    let ?m1 = "m\<lparr>dl_results := rs\<rparr>"
    show ?thesis
    proof (cases "dl_stopping m")
      case True
      then have "base_inv env fu c0 c ?m1" using i(1) Cons by (auto simp: inv_defs)
      then show ?thesis using True Cons h i by (auto simp: deliver_read_def idle_ok_def intro: log_invI)
    next
      case ns: False
      then have g: "dl_jobs m = []" "rs = []" "dl_read_in_flight m" "dl_log_to_file m" using i(1) Cons by (auto simp: inv_defs split: if_splits)
      let ?m2 = "?m1\<lparr>dl_read_in_flight := False\<rparr>"
      have b2: "base_inv env fu c0 c ?m2" "generations ?m2 = []" using i(1) g ns by (auto simp: inv_defs)
      show ?thesis
      proof (cases "\<not> dl_active m \<or> gen \<noteq> dl_generation m")
        case True
        have "dl_active m \<Longrightarrow> dl_refresh_pending ?m2" using True i(1) ns Cons h g by (auto simp: base_inv_def flight_ok_def generations_def)
        then show ?thesis using True ns Cons h i(3) run_pending_inv [OF b2 i(3)] log_invI [OF b2(1)] by (auto simp: deliver_read_def Let_def idle_ok_def)
      next
        case act: False
        then have d: "deliver_read fu we m = onReadCompleted fu we r ?m1" using ns Cons h by (simp add: deliver_read_def Let_def)
        show ?thesis
        proof (cases "file_opened r")
          case o: False
          obtain w dd where w: "watchLogPath we (?m1\<lparr>dl_log_available := False, dl_open_error := error_message r\<rparr>) =
            ?m1\<lparr>dl_log_available := False, dl_open_error := error_message r, dl_watch_file := w, dl_watch_dir := dd\<rparr>" using watch_eq by blast
          have "base_inv env fu c0 c (?m1\<lparr>dl_log_available := False, dl_open_error := error_message r, dl_watch_file := w, dl_watch_dir := dd, dl_read_in_flight := False\<rparr>)"
            using b2(1) g ns by (simp add: inv_defs)
          then show ?thesis unfolding d using act ns o w i(3) g run_pending_inv
            by (auto simp: onReadCompleted_def idle_ok_def generations_def)
        next
          case o: True
          let ?m4 = "settle_read fu we r ?m1"
          let ?m5 = "?m4\<lparr>dl_refresh_pending := False, dl_pending_full_load := False, dl_read_in_flight := False\<rparr>"
          have res: "dl_results m = [(r, full, gen)]" using Cons h g by simp
          obtain app where b5: "base_inv env fu (c0 @ app) c ?m5" and st: "\<not> dl_stopping ?m4" unfolding g(2) by (rule settle_read_base [OF i(1) g(1) res o ns])
          have "idle_ok ?m5 \<or> dl_loaded_limit ?m4 < dl_load_limit ?m4" using b5 by (auto simp: inv_defs idle_ok_def)
          then show ?thesis unfolding d using onReadCompleted_opened [of ?m1 r fu we] act ns o st b5 i(3)
            by (auto simp: Let_def intro: refresh_inv log_invI)
        qed
      qed
    qed
  qed
qed


text \<open>What was noted agrees with what the model holds of the reads.\<close>

definition notes_ok :: "DebugLogModel \<Rightarrow> log_notes \<Rightarrow> bool" where
  "notes_ok m g \<longleftrightarrow> list_all2 (\<lambda>n x. file_opened (fst x) \<longrightarrow> rr_file_size (fst x) = Some n) (reads_at g) (dl_results m) \<and>
     dl_file_size m = seen_at g \<and> (seen_at g = None \<longrightarrow> dl_loaded_limit m = 0)"

definition same_reads :: "DebugLogModel \<Rightarrow> DebugLogModel \<Rightarrow> bool" where
  "same_reads m m' \<longleftrightarrow> dl_results m' = dl_results m \<and> dl_file_size m' = dl_file_size m \<and> (dl_loaded_limit m = 0 \<longrightarrow> dl_loaded_limit m' = 0)"

lemma same_reads_notes: "same_reads m m' \<Longrightarrow> notes_ok m g \<Longrightarrow> notes_ok m' g"
  by (auto simp: same_reads_def notes_ok_def)

lemma notes_lowered [simp]: "notes_ok m (g\<lparr>lowered := b\<rparr>) = notes_ok m g"
  by (simp add: notes_ok_def)

lemma same_trans: "same_reads m m' \<Longrightarrow> same_reads m' m'' \<Longrightarrow> same_reads m m''"
  by (simp add: same_reads_def)

lemma same_reads_rows: "only_rows m m' \<Longrightarrow> same_reads m m'"
  by (auto simp: only_rows_def same_reads_def)

lemma same_reads_watch: "same_reads m (watchLogPath we m)"
  using watch_eq [of we m] by (auto simp: same_reads_def)

lemma same_reads_refresh: "same_reads m (log_refresh b m)" "same_reads m (run_pending m)"
  by (simp_all add: log_refresh_def run_pending_def same_reads_def)

lemma same_reads_lines: "same_reads m (applyLines fu ls b m)" "same_reads m (buildDisplayLines fu b m)"
proof -
  have "same_reads m (m\<lparr>dl_all_lines := ls\<rparr>)" by (simp add: same_reads_def)
  from same_trans [OF this same_reads_rows] show "same_reads m (applyLines fu ls b m)" unfolding applyLines_def Let_def
    by (simp add: only_rows_apply)
  show "same_reads m (buildDisplayLines fu b m)" by (simp add: buildDisplayLines_def same_reads_rows only_rows_apply)
qed

lemma same_reads_quiet:
  "same_reads m (loadMore m)" "same_reads m (setActive we b m)" "same_reads m (setFilter fu s m)" "same_reads m (setWarningsAndErrorsOnly fu b m)"
  "same_reads m (watcher_changed we m)" "same_reads m (debounce_timeout m)" "same_reads m (snd (openLogFile b b' m))" "same_reads m (clearOpenError m)" "same_reads m (stop_log m)"
proof -
  have refresh: "same_reads m x \<Longrightarrow> same_reads m (log_refresh b x)" "same_reads m x \<Longrightarrow> same_reads m (watchLogPath we x)" "same_reads m x \<Longrightarrow> same_reads m (buildDisplayLines fu b x)" for x b
    using same_trans same_reads_refresh same_reads_watch same_reads_lines by blast+
  show "same_reads m (loadMore m)" unfolding loadMore_def by (auto intro!: refresh) (simp_all add: same_reads_def)
  show "same_reads m (setActive we b m)" unfolding setActive_def Let_def by (auto intro!: refresh) (simp_all add: same_reads_def)
  show "same_reads m (setFilter fu s m)" by (auto simp: setFilter_def intro!: refresh) (simp_all add: same_reads_def)
  show "same_reads m (setWarningsAndErrorsOnly fu b m)" by (auto simp: setWarningsAndErrorsOnly_def intro!: refresh) (simp_all add: same_reads_def)
  show "same_reads m (watcher_changed we m)" using same_reads_watch [of m we] by (simp add: watcher_changed_def same_reads_def)
  show "same_reads m (debounce_timeout m)" unfolding debounce_timeout_def by (intro refresh) (simp add: same_reads_def)
qed (simp_all add: openLogFile_def clearOpenError_def stop_log_def same_reads_def)

lemma same_reads_limit: "same_reads m (setLoadLimit fu n m)"
proof -
  have "same_reads m x \<Longrightarrow> same_reads m (x\<lparr>dl_loaded_limit := min (dl_loaded_limit x) k, dl_has_more_lines := b\<rparr>)" for x k b by (simp add: same_reads_def)
  moreover have "same_reads m (applyLines fu ls b (m\<lparr>dl_load_limit := k\<rparr>))" for ls b k by (rule same_trans [OF _ same_reads_lines(1)]) (simp add: same_reads_def)
  moreover have "same_reads m x \<Longrightarrow> same_reads m (log_refresh True x)" for x using same_trans same_reads_refresh(1) by blast
  ultimately show ?thesis unfolding setLoadLimit_def Let_def by (auto simp: same_reads_def)
qed

lemma applied_reads: "dl_results (apply_result fu r m) = dl_results m" "dl_file_size (apply_result fu r m) = dl_file_size m"
proof -
  have d: "dl_results (snd (applyDelta fu ls m)) = dl_results m \<and> dl_file_size (snd (applyDelta fu ls m)) = dl_file_size m" for ls
    by (simp add: applyDelta_def remove_rows_def insert_rows_def Let_def)
  note l = same_reads_lines(1) [of m fu, unfolded same_reads_def]
  show "dl_results (apply_result fu r m) = dl_results m" "dl_file_size (apply_result fu r m) = dl_file_size m"
    using d l by (simp_all add: apply_result_def Let_def case_prod_beta)
qed

lemma deliver_notes:
  assumes "notes_ok m g"
  shows "notes_ok (deliver_read fu we m) (note_delivered m g)"
proof (cases "dl_results m")
  case Nil
  then show ?thesis using assms by (simp add: deliver_read_def note_delivered_def told_def notes_ok_def)
next
  case (Cons h rs)
  obtain r full gen where h: "h = (r, full, gen)" by (cases h)
  obtain n ns where g: "reads_at g = n # ns" "file_opened r \<longrightarrow> rr_file_size r = Some n"
      "list_all2 (\<lambda>n x. file_opened (fst x) \<longrightarrow> rr_file_size (fst x) = Some n) ns rs" and f: "dl_file_size m = seen_at g" "seen_at g = None \<longrightarrow> dl_loaded_limit m = 0"
    using assms Cons h by (auto simp: notes_ok_def list_all2_Cons2)
  let ?m1 = "m\<lparr>dl_results := rs\<rparr>"
  show ?thesis
  proof (cases "told m")
    case True
    then have t: "dl_active m" "\<not> dl_stopping m" "gen = dl_generation m" "file_opened r" by (auto simp: told_def Cons h)
    have "same_reads ?m1 (watchLogPath we (?m1\<lparr>dl_log_available := True, dl_open_error := []\<rparr>))"
      by (rule same_trans [OF _ same_reads_watch]) (simp add: same_reads_def)
    then have s: "dl_results (settle_read fu we r ?m1) = rs" "dl_file_size (settle_read fu we r ?m1) = Some n"
      using t(4) g(2) by (simp_all add: settle_read_def applied_reads same_reads_def)
    have "deliver_read fu we m = onReadCompleted fu we r ?m1" using t by (simp add: deliver_read_def Cons h Let_def)
    moreover have "dl_results (onReadCompleted fu we r ?m1) = rs \<and> dl_file_size (onReadCompleted fu we r ?m1) = Some n"
      using s t same_reads_refresh(1) by (simp add: onReadCompleted_def settle_read_def Let_def) (simp add: same_reads_def)
    ultimately show ?thesis using True g by (simp add: notes_ok_def note_delivered_def)
  next
    case False
    have k: "same_reads ?m1 x \<Longrightarrow> same_reads ?m1 (run_pending x)" for x using same_trans same_reads_refresh(2) by blast
    have w: "same_reads ?m1 ((watchLogPath we (?m1\<lparr>dl_log_available := False, dl_open_error := error_message r\<rparr>))\<lparr>dl_read_in_flight := False\<rparr>)"
      using same_trans [OF _ same_reads_watch, of ?m1 "?m1\<lparr>dl_log_available := False, dl_open_error := error_message r\<rparr>" we] by (simp add: same_reads_def)
    have "same_reads ?m1 (deliver_read fu we m)"
      using False k [OF w] k [of "?m1\<lparr>dl_read_in_flight := False\<rparr>"] unfolding deliver_read_def onReadCompleted_def told_def Cons h Let_def
      by (auto simp: same_reads_def)
    moreover have "notes_ok ?m1 (note_delivered m g)" using False g f by (simp add: notes_ok_def note_delivered_def)
    ultimately show ?thesis by (rule same_reads_notes)
  qed
qed

lemma read_notes:
  assumes "log_inv env fu (m, c)" "notes_ok m g"
  shows "notes_ok (run_read env (Log_open (file_of c)) m) (note_read m c g)"
proof (cases "dl_jobs m = [] \<or> dl_stopping m")
  case True
  then show ?thesis using assms(2) by (auto simp: run_read_def note_read_def notes_ok_def split: list.splits)
next
  case False
  then obtain j js where j: "dl_jobs m = j # js" by (cases "dl_jobs m") auto
  obtain c0 where i: "base_inv env fu c0 c m" and nb: "no_boundary_line (complete_part c)" using assms(1) by (rule log_invE)
  have "job_ok m j" "known env c0 m" "prefix c0 c" using i j by (auto simp: inv_defs)
  then have "file_opened r \<longrightarrow> rr_file_size r = Some (length c)"
    if "r = ReadAndFilter env (dl_path m) (Log_open (file_of c)) (j_load_limit j) (j_full j) (j_size j) (j_partial j) (j_discarding j) (j_anchor j)" for r
    using job_read [of m j env c0 c _ "dl_path m"] nb that by (auto simp: prefix_def read_result_of_def read_of_def empty_result_def)
  with False assms(2) j show ?thesis by (auto simp: run_read_def note_read_def notes_ok_def Let_def list_all2_appendI)
qed

lemma read_failed_notes:
  assumes "src \<in> {Log_missing, Log_unreadable}" "notes_ok m g"
  shows "notes_ok (run_read env src m) (note_read m c g)"
  using assms unopened_result [OF assms(1)] by (auto simp: run_read_def note_read_def notes_ok_def Let_def list_all2_appendI split: list.splits)

fun world_inv :: "log_env \<Rightarrow> (qchar \<Rightarrow> qchar) \<Rightarrow> log_world \<Rightarrow> bool" where
  "world_inv env fu (m, c, g) \<longleftrightarrow> lowered g \<or> log_inv env fu (m, c) \<and> notes_ok m g"

lemma note_lowered [simp]: "lowered (note_read m c g) = lowered g" "lowered (note_delivered m g) = lowered g"
  by (simp_all add: note_read_def note_delivered_def)

lemma world_step: "log_step env fu s s' \<Longrightarrow> world_inv env fu s \<Longrightarrow> world_inv env fu s'"
proof (induction rule: log_step.induct)
  case (limit m c g n)
  then show ?case using limit_inv same_reads_notes [OF same_reads_limit] by auto
next
  case (refresh m c g b)
  then show ?case using same_reads_notes [OF same_reads_refresh(1)] by (auto elim!: log_invE intro: refresh_inv)
next
  case (read m c g)
  then show ?case using read_inv read_notes by auto
next
  case (read_failed src m c g)
  then show ?case using read_failed_inv read_failed_notes by auto
next
  case (delivered m c g we)
  then show ?case using log_deliver_inv deliver_notes by auto
qed (use same_reads_notes [OF same_reads_quiet(1)] same_reads_notes [OF same_reads_quiet(2)] same_reads_notes [OF same_reads_quiet(3)] same_reads_notes [OF same_reads_quiet(4)]
    same_reads_notes [OF same_reads_quiet(5)] same_reads_notes [OF same_reads_quiet(6)] same_reads_notes [OF same_reads_quiet(7)] same_reads_notes [OF same_reads_quiet(8)]
    same_reads_notes [OF same_reads_quiet(9)] grow_inv more_inv active_inv filter_inv changed_inv timeout_inv open_inv stop_inv in auto)

lemma log_run_inv:
  assumes "log_run env fu (m, c, g)" "\<not> lowered g"
  shows "log_inv env fu (m, c)" "notes_ok m g"
proof -
  have "log_run env fu s \<Longrightarrow> world_inv env fu s" for s
  proof (induction rule: log_run.induct)
    case (start c path b)
    then show ?case using new_inv by (simp add: notes_ok_def no_notes_def new_DebugLogModel_def)
  qed (rule world_step)
  then show "log_inv env fu (m, c)" "notes_ok m g" using assms by fastforce+
qed

text \<open>A request is only pending while the page is active and a read is under way.\<close>

definition pending_ok :: "DebugLogModel \<Rightarrow> bool" where
  "pending_ok m \<longleftrightarrow> (dl_refresh_pending m \<longrightarrow> dl_read_in_flight m \<and> dl_active m)"

lemma only_rows_pending: "only_rows m m' \<Longrightarrow> pending_ok m' = pending_ok m"
  by (auto simp: only_rows_def pending_ok_def)

lemma pending_frame:
  "pending_ok (m\<lparr>dl_all_lines := ls\<rparr>) = pending_ok m" "pending_ok (m\<lparr>dl_loaded_limit := n\<rparr>) = pending_ok m" "pending_ok (m\<lparr>dl_load_limit := n\<rparr>) = pending_ok m"
  "pending_ok (m\<lparr>dl_has_more_lines := b\<rparr>) = pending_ok m" "pending_ok (m\<lparr>dl_filter := s\<rparr>) = pending_ok m" "pending_ok (m\<lparr>dl_warnings_only := b\<rparr>) = pending_ok m"
  "pending_ok (m\<lparr>dl_debounce := b\<rparr>) = pending_ok m" "pending_ok (m\<lparr>dl_external_open_error := s\<rparr>) = pending_ok m"
  "pending_ok (m\<lparr>dl_jobs := js\<rparr>) = pending_ok m" "pending_ok (m\<lparr>dl_results := rs\<rparr>) = pending_ok m"
  by (simp_all add: pending_ok_def)

lemma pending_lines:
  "pending_ok (applyDisplayLines ls force m) = pending_ok m" "pending_ok (applyLines fu ls force m) = pending_ok m" "pending_ok (buildDisplayLines fu force m) = pending_ok m"
proof -
  show 1: "pending_ok (applyDisplayLines ls force m) = pending_ok m" for ls force m by (rule only_rows_pending [OF only_rows_apply])
  show "pending_ok (applyLines fu ls force m) = pending_ok m" by (simp add: applyLines_def Let_def 1 pending_frame) (simp add: reset_rows_def pending_ok_def)
  show "pending_ok (buildDisplayLines fu force m) = pending_ok m" by (simp add: buildDisplayLines_def 1)
qed

lemma pending_refresh: "pending_ok m \<Longrightarrow> pending_ok (log_refresh b m)"
  by (auto simp: log_refresh_def pending_ok_def)

lemma pending_watch: "pending_ok (watchLogPath we m) = pending_ok m"
  using watch_eq [of we m] by (auto simp: pending_ok_def)

lemma pending_run: "pending_ok (run_pending m)"
  by (auto simp: run_pending_def log_refresh_def pending_ok_def)

lemma pending_limit: "pending_ok m \<Longrightarrow> pending_ok (setLoadLimit fu n m)"
  by (auto simp: setLoadLimit_def Let_def pending_lines pending_frame intro!: pending_refresh)

lemma pending_completed: "pending_ok m \<Longrightarrow> pending_ok (onReadCompleted fu we r m)"
  unfolding onReadCompleted_def Let_def by (auto simp: pending_run intro!: pending_refresh) (simp_all add: pending_ok_def)

lemma pending_deliver: "pending_ok m \<Longrightarrow> pending_ok (deliver_read fu we m)"
  unfolding deliver_read_def Let_def
  by (auto simp: pending_run pending_frame split: list.splits intro!: pending_completed) (simp_all add: pending_ok_def)

lemma pending_step: "log_step env fu s s' \<Longrightarrow> pending_ok (fst s) \<Longrightarrow> pending_ok (fst s')"
proof (induction rule: log_step.induct)
  case (activity m c g we b)
  then show ?case unfolding setActive_def Let_def
    by (cases b) (auto simp: pending_watch intro!: pending_refresh, simp_all add: pending_ok_def)
next
  case (stopped m c g) then show ?case by (simp add: stop_log_def) (simp add: pending_ok_def)
qed (auto simp: pending_refresh pending_limit pending_deliver loadMore_def setFilter_def setWarningsAndErrorsOnly_def pending_lines pending_frame pending_watch watcher_changed_def
    debounce_timeout_def openLogFile_def clearOpenError_def run_read_def Let_def split: list.splits)

lemma log_run_pending: "log_run env fu s \<Longrightarrow> pending_ok (fst s)"
proof (induction rule: log_run.induct)
  case (start c path b) show ?case by (simp add: new_DebugLogModel_def pending_ok_def)
qed (rule pending_step)

section \<open>Properties\<close>

text \<open>
  C12: beside a log that only grows, and however events are ordered: while the log page is active and no read is under way, the list shows the newest
  \<open>loadLimit\<close> records, filtered, of the log as it was when the last read was made whose result the active page was given, and the rows
  announced to the view rebuild this list. Read results that arrive late, after the page was left or entered again, or of a file that
  could not be opened, do not count. The limit has never been lowered below the loaded capacity while fewer lines were loaded (nothing in the program
  does), and no complete line has exactly \<open>kMaxLogLineBytes\<close> bytes, which the reader of the tail can drop.
\<close>

theorem debug_log_shows_tail:
  assumes "log_run env fu (m, c, g)" "\<not> lowered g" "dl_active m" "\<not> dl_stopping m" "dl_log_available m" "\<not> dl_read_in_flight m"
  shows "(\<exists>n. seen_at g = Some n \<and> n \<le> length c \<and> dl_display_lines m = filteredLines fu m (lastn (dl_load_limit m) (all_records env (take n c)))) \<and>
    replay whole_row [] (dl_rows m) = Some (dl_display_lines m)"
proof -
  obtain c0 where b: "base_inv env fu c0 c m" "idle_ok m" using log_run_inv(1) [OF assms(1,2)] by (rule log_invE)
  then have l: "dl_loaded_limit m = dl_load_limit m" using assms(3-) by (simp add: idle_ok_def)
  moreover have "length (dl_all_lines m) \<le> dl_load_limit m" "lastn (dl_loaded_limit m) (dl_all_lines m) = lastn (dl_loaded_limit m) (all_records env c0)" "1 \<le> dl_load_limit m"
    using b(1) by (simp_all add: inv_defs)
  ultimately have "dl_all_lines m = lastn (dl_load_limit m) (all_records env c0)" by simp
  moreover have "prefix c0 c" "dl_display_lines m = filteredLines fu m (dl_all_lines m)" "replay whole_row [] (dl_rows m) = Some (dl_display_lines m)"
    using b(1) by (simp_all add: inv_defs)
  moreover obtain n where "seen_at g = Some n" "dl_file_size m = Some n"
    using log_run_inv(2) [OF assms(1,2)] l \<open>1 \<le> dl_load_limit m\<close> by (cases "seen_at g") (auto simp: notes_ok_def)
  moreover from this have "n = length c0" using b(1) by (auto simp: inv_defs holds_state_def)
  ultimately show ?thesis by (auto simp: prefix_def)
qed

text \<open>A first read of a log with the lines \<open>a\<close> and \<open>b\<close>.\<close>

lemmas log_eval = setActive_def log_refresh_def watchLogPath_def run_read_def deliver_read_def onReadCompleted_def apply_result_def applyLines_def
  reset_rows_def new_DebugLogModel_def read_of_def empty_result_def ReadAndFilter_full kMaxLoadLimit_def Let_def

lemma demo_run:
  fixes c :: bytes
  assumes env: "env = \<lparr>le_fromUtf8 = id, le_toLower = id, le_category = (\<lambda>_. False), le_localTime = (\<lambda>_. None)\<rparr>"
    and we: "we = \<lparr>we_exists = True, we_file_ok = True, we_dir_ok = True\<rparr>" and c: "c = [97, 10, 98, 10]"
    and m: "m = deliver_read id we (run_read env (Log_open (file_of c)) (setActive we True (new_DebugLogModel (q ''debug.log'') True)))"
  shows "log_run env id (m, c, \<lparr>reads_at = [], seen_at = Some 4, lowered = False\<rparr>)" "dl_active m" "\<not> dl_stopping m" "dl_log_available m" "\<not> dl_read_in_flight m"
    "length (all_records env c) = 2"
proof -
  have "complete_part c = [97] @ 10 # [98] @ 10 # []" using complete_part_snoc [of "[]" "[97, 10, 98]"] by (simp add: c)
  moreover have "lines_at 0 ([97] @ 10 # [98] @ 10 # []) = [(0, [97]), (2, [98])]"
    using lines_at_line [of "[97]" 0 "[98] @ 10 # []"] lines_at_line [of "[98]" 2 "[]"] by (simp add: numeral_2_eq_2)
  ultimately have nb: "no_boundary_line (complete_part c)" by (simp add: no_boundary_line_def kMaxLogLineBytes_def)
  let ?m0 = "new_DebugLogModel (q ''debug.log'') True"
  let ?m2 = "run_read env (Log_open (file_of c)) (setActive we True ?m0)"
  have "log_run env id (m, c, note_delivered ?m2 (note_read (setActive we True ?m0) c no_notes))" using nb
    unfolding m by (intro log_run.step [OF _ delivered] log_run.step [OF _ read] log_run.step [OF _ activity] log_run.start)
  moreover have "note_delivered ?m2 (note_read (setActive we True ?m0) c no_notes) = \<lparr>reads_at = [], seen_at = Some 4, lowered = False\<rparr>"
    using nb by (simp add: we log_eval note_read_def note_delivered_def no_notes_def told_def) (simp add: c)
  ultimately show "log_run env id (m, c, \<lparr>reads_at = [], seen_at = Some 4, lowered = False\<rparr>)" by simp
  show "length (all_records env c) = 2" unfolding env c by code_simp
  show "dl_active m" "\<not> dl_stopping m" "dl_log_available m" "\<not> dl_read_in_flight m" using nb by (simp_all add: m we log_eval)
qed

theorem debug_log_shows_tail_witness:
  "\<exists>env fu m c g. log_run env fu (m, c, g) \<and> dl_active m \<and> seen_at g = Some (length c) \<and> length (all_records env c) = 2 \<and>
     dl_display_lines m = filteredLines fu m (lastn (dl_load_limit m) (all_records env c))"
proof -
  note d = demo_run [OF refl refl refl refl]
  note s = debug_log_shows_tail [OF d(1) _ d(2-5)]
  then show ?thesis using d(1,2,6) by (auto intro!: exI)
qed

text \<open>
  A refresh while nothing else happens brings the list up to date: it then shows the newest \<open>loadLimit\<close> records of the present log.
\<close>

theorem debug_log_catches_up:
  assumes "log_run env fu (m, c, g)" "dl_active m" "\<not> dl_stopping m" "dl_log_available m" "\<not> dl_read_in_flight m"
    "m' = deliver_read fu we (run_read env (Log_open (file_of c)) (log_refresh b m))" "\<not> lowered g"
  shows "dl_display_lines m' = filteredLines fu m' (lastn (dl_load_limit m') (all_records env c)) \<and> \<not> dl_read_in_flight m' \<and> dl_load_limit m' = dl_load_limit m"
proof -
  obtain c0 where i: "base_inv env fu c0 c m" "idle_ok m" and nb: "no_boundary_line (complete_part c)" using log_run_inv(1) [OF assms(1,7)] by (rule log_invE)
  have l: "dl_loaded_limit m = dl_load_limit m" and np: "\<not> dl_refresh_pending m"
    using assms(2-5) i(2) log_run_pending [OF assms(1)] by (simp_all add: idle_ok_def pending_ok_def)
  define m1 where "m1 = run_read env (Log_open (file_of c)) (log_refresh b m)"
  have b1: "base_inv env fu c0 c m1" unfolding m1_def using i(1) nb by (intro read_base refresh_base)
  define j where "j = \<lparr>j_load_limit = dl_load_limit m, j_full = b, j_size = dl_file_size m, j_partial = dl_trailing_partial m,
            j_discarding = dl_discarding m, j_anchor = dl_file_anchor m, j_generation = dl_generation m\<rparr>"
  define r where "r = ReadAndFilter env (dl_path m) (Log_open (file_of c)) (j_load_limit j) (j_full j) (j_size j) (j_partial j) (j_discarding j) (j_anchor j)"
  have "job_ok m j" "known env c0 m" "prefix c0 c" using i(1) by (auto simp: j_def inv_defs)
  then have ro: "file_opened r" "rr_file_size r = Some (length c)"
    using job_read [of m j env c0 c _ "dl_path m"] nb by (auto simp: prefix_def r_def read_result_of_def read_of_def empty_result_def)
  have m1: "m1 = m\<lparr>dl_read_in_flight := True, dl_jobs := [], dl_results := [(r, b, dl_generation m)]\<rparr>"
    using i(1) assms(2-5) by (simp add: m1_def log_refresh_def run_read_def r_def j_def inv_defs)
  let ?m2 = "m1\<lparr>dl_results := []\<rparr>"
  have d: "m' = onReadCompleted fu we r ?m2" using assms(2-3) by (simp add: assms(6) m1_def [symmetric]) (simp add: deliver_read_def m1)
  obtain app where s: "base_inv env fu (c0 @ app) c ((settle_read fu we r ?m2)\<lparr>dl_refresh_pending := False, dl_pending_full_load := False, dl_read_in_flight := False\<rparr>)"
    "\<not> dl_stopping (settle_read fu we r ?m2)" "dl_file_size (settle_read fu we r ?m2) = rr_file_size r" "dl_loaded_limit m1 \<le> dl_loaded_limit (settle_read fu we r ?m2)"
    "dl_refresh_pending (settle_read fu we r ?m2) = dl_refresh_pending m1" "dl_load_limit (settle_read fu we r ?m2) = dl_load_limit m1" "prefix (c0 @ app) c"
    by (rule settle_read_base [OF b1 _ _ ro(1), where full = b and gen = "dl_generation m"]) (use assms(3) in \<open>simp_all add: m1\<close>)
  define m4 where "m4 = settle_read fu we r ?m2"
  have f: "dl_file_size m4 = Some (length (c0 @ app))" "dl_loaded_limit m4 \<le> dl_load_limit m4" "length (dl_all_lines m4) \<le> dl_load_limit m4"
    "lastn (dl_loaded_limit m4) (dl_all_lines m4) = lastn (dl_loaded_limit m4) (all_records env (c0 @ app))" "dl_display_lines m4 = filteredLines fu m4 (dl_all_lines m4)"
    using s(1,3) ro(2) by (simp_all add: m4_def [symmetric]) (auto simp: inv_defs holds_state_def)
  have c: "c0 @ app = c" using f(1) s(3,7) ro(2) by (auto simp: m4_def prefix_def)
  have w: "dl_loaded_limit m4 = dl_load_limit m4" "\<not> dl_refresh_pending m4" "dl_load_limit m4 = dl_load_limit m"
    using s(4-6) f(2) l np by (simp_all add: m4_def [symmetric]) (simp_all add: m1)
  have "m' = m4\<lparr>dl_refresh_pending := False, dl_pending_full_load := False, dl_read_in_flight := False\<rparr>"
    unfolding d using onReadCompleted_opened [of ?m2 r fu we] s(2) ro(1) assms(2,3) w by (simp add: m4_def [symmetric] Let_def) (simp add: m1)
  then show ?thesis using f w c by simp
qed

theorem debug_log_catches_up_witness:
  "\<exists>env fu we m m' c g. log_run env fu (m, c, g) \<and> m' = deliver_read fu we (run_read env (Log_open (file_of c)) (log_refresh False m)) \<and>
     dl_display_lines m' = filteredLines fu m' (lastn (dl_load_limit m') (all_records env c))"
proof -
  note d = demo_run [OF refl refl refl refl]
  have "\<not> lowered \<lparr>reads_at = [], seen_at = Some 4, lowered = False\<rparr>" by simp
  from debug_log_catches_up [OF d(1-5) refl this, where b = False] d(1) show ?thesis by blast
qed

end
