(* ===== verification/TxActivity.thy ===== *)
theory TxActivity
  imports Activity
begin

text \<open>
  \<open>src/qml/models/transactionactivity.{h,cpp}\<close> and \<open>src/qml/models/transaction.{h,cpp}\<close>: what a wallet transaction means to its
  wallet, as one activity with actions, and as the older list of parts. The transaction, its hash as text, encoding
  addresses and scripts are Core's. An amount is an \<open>int\<close>: the outputs of a transaction in a wallet have passed Core's check that
  each value and their sum lie in the money range, so that no sum here leaves 64 bits.
\<close>

section \<open>Definitions\<close>

datatype destination = CNoDestination | Destination bytes

record tx_out =
  o_value :: int
  o_script :: bytes

record tx_in =
  i_hash :: qstring
  i_n :: nat

record core_tx =
  t_hash :: qstring
  t_vin :: "tx_in list"
  t_vout :: "tx_out list"
  t_version :: int
  t_locktime :: int

record wallet_tx =
  w_tx :: "core_tx option"
  txin_is_mine :: "bool list"
  txout_is_mine :: "bool list"
  txout_is_change :: "bool list"
  txout_address :: "destination list"
  txout_address_is_mine :: "bool list"
  w_credit :: int
  w_debit :: int
  w_time :: int
  w_value_map :: "(string \<times> qstring) list"
  w_is_coinbase :: bool

record tx_env =
  te_EncodeDestination :: "destination \<Rightarrow> qstring"
  te_IsUnspendable :: "bytes \<Rightarrow> bool"
  te_GetValueOut :: "core_tx \<Rightarrow> int"

datatype ActionSource = Output | WalletInputs

record TransactionAction =
  ta_id :: qstring
  ta_direction :: ActionDirection
  ta_source :: ActionSource
  ta_amount :: int
  ta_address :: qstring
  ta_output_index :: int
  ta_inputs :: "tx_in list"

record TransactionActivity =
  ty_txid :: qstring
  ty_type :: ActivityType
  ty_timestamp :: int
  ty_debit :: int
  ty_credit :: int
  ty_fee :: "int option"
  ty_replaces :: qstring
  ty_replaced_by :: qstring
  ty_actions :: "TransactionAction list"

definition walletImpact :: "TransactionActivity \<Rightarrow> int" where
  "walletImpact a = ty_credit a - ty_debit a"

text \<open>The outputs with their position, ownership, change flag and address.\<close>

definition tx_outputs :: "wallet_tx \<Rightarrow> core_tx \<Rightarrow> (nat \<times> tx_out \<times> bool \<times> bool \<times> destination) list" where
  "tx_outputs w tx = zip [0..<length (t_vout tx)] (zip (t_vout tx) (zip (txout_is_mine w) (zip (txout_is_change w) (txout_address w))))"

definition is_data_output :: "tx_env \<Rightarrow> tx_out \<Rightarrow> bool" where
  "is_data_output env out \<longleftrightarrow> o_value out = 0 \<and> te_IsUnspendable env (o_script out)"

definition map_value :: "wallet_tx \<Rightarrow> string \<Rightarrow> qstring" where
  "map_value w key = (case map_of (w_value_map w) key of None \<Rightarrow> [] | Some v \<Rightarrow> v)"

definition incomplete_snapshot :: "wallet_tx \<Rightarrow> bool" where
  "incomplete_snapshot w \<longleftrightarrow>
     (case w_tx w of
        None \<Rightarrow> True
      | Some tx \<Rightarrow> t_vin tx = [] \<or> t_vout tx = [] \<or> length (txin_is_mine w) \<noteq> length (t_vin tx) \<or> length (txout_is_mine w) \<noteq> length (t_vout tx) \<or>
          length (txout_is_change w) \<noteq> length (t_vout tx) \<or> length (txout_address w) \<noteq> length (t_vout tx))"

definition owned_inputs :: "wallet_tx \<Rightarrow> nat" where
  "owned_inputs w = (if w_is_coinbase w then 0 else length (filter id (txin_is_mine w)))"

definition owned_outputs :: "wallet_tx \<Rightarrow> nat" where
  "owned_outputs w = length (filter id (txout_is_mine w))"

definition all_from_wallet :: "wallet_tx \<Rightarrow> core_tx \<Rightarrow> bool" where
  "all_from_wallet w tx \<longleftrightarrow> \<not> w_is_coinbase w \<and> owned_inputs w = length (t_vin tx)"

text \<open>Whether only the wallet is paid, how many of its outputs carry value or a spendable script, and how many of them are no change.\<close>

fun scan_outputs :: "tx_env \<Rightarrow> (nat \<times> tx_out \<times> bool \<times> bool \<times> destination) list \<Rightarrow> bool \<times> nat \<times> nat" where
  "scan_outputs env [] = (True, 0, 0)"
| "scan_outputs env ((i, out, mine, change, addr) # outs) =
     (let (all_to, internal, recipients) = scan_outputs env outs
      in if is_data_output env out then (all_to, internal, recipients)
         else if mine then (all_to, internal + 1, if change then recipients else recipients + 1)
         else (False, internal, recipients))"

definition wallet_inputs_action :: "wallet_tx \<Rightarrow> core_tx \<Rightarrow> TransactionAction" where
  "wallet_inputs_action w tx =
     \<lparr>ta_id = t_hash tx @ q '':wallet-inputs'', ta_direction = SendAction, ta_source = WalletInputs, ta_amount = w_debit w, ta_address = [],
      ta_output_index = -1, ta_inputs = map fst (filter snd (zip (t_vin tx) (txin_is_mine w)))\<rparr>"

fun output_actions :: "tx_env \<Rightarrow> qstring \<Rightarrow> bool \<Rightarrow> bool \<Rightarrow> bool \<Rightarrow> (nat \<times> tx_out \<times> bool \<times> bool \<times> destination) list \<Rightarrow> TransactionAction list" where
  "output_actions env txid all_from internal self_send [] = []"
| "output_actions env txid all_from internal self_send ((i, out, mine, change, addr) # outs) =
     (if is_data_output env out then output_actions env txid all_from internal self_send outs
      else if \<not> all_from \<and> \<not> mine then output_actions env txid all_from internal self_send outs
      else if all_from \<and> (\<not> internal \<or> self_send) \<and> mine \<and> change then output_actions env txid all_from internal self_send outs
      else \<lparr>ta_id = txid @ q '':output:'' @ number (int i),
            ta_direction = (if all_from then if mine then InternalAction else SendAction else ReceiveAction), ta_source = Output,
            ta_amount = o_value out, ta_address = te_EncodeDestination env addr, ta_output_index = int i, ta_inputs = []\<rparr>
          # output_actions env txid all_from internal self_send outs)"

definition activity_type :: "bool \<Rightarrow> bool \<Rightarrow> bool \<Rightarrow> bool \<Rightarrow> nat \<Rightarrow> nat \<Rightarrow> TransactionAction list \<Rightarrow> ActivityType" where
  "activity_type coinbase internal consolidation self_send owned_in internal_outs actions =
     (if coinbase then Mined
      else if internal then
        (if consolidation then Consolidation else if \<not> self_send \<and> owned_in < internal_outs then Split else InternalTransfer)
      else if length actions > 1 then Multiple
      else if length actions = 1 then (if ta_direction (hd actions) = SendAction then Send else Receive)
      else Other)"

definition activity_fromWalletTx :: "tx_env \<Rightarrow> wallet_tx \<Rightarrow> TransactionActivity option" where
  "activity_fromWalletTx env w =
     (case w_tx w of
        None \<Rightarrow> None
      | Some tx \<Rightarrow>
          if incomplete_snapshot w \<or> (owned_inputs w = 0 \<and> owned_outputs w = 0) then None
          else
            let outs = tx_outputs w tx;
                credit = (if w_is_coinbase w then sum_list (map (\<lambda>(i, out, mine, rest). if mine then o_value out else 0) outs) else w_credit w);
                all_from = all_from_wallet w tx;
                mixed_inputs = (owned_inputs w > 0 \<and> \<not> all_from);
                fee = (if all_from then let f = w_debit w - te_GetValueOut env tx in if f \<ge> 0 then Some f else None else None);
                (all_to, internal_outs, recipients) = scan_outputs env outs;
                internal = (all_from \<and> all_to \<and> internal_outs > 0);
                consolidation = (internal \<and> owned_inputs w > internal_outs);
                self_send = (internal \<and> \<not> consolidation \<and> recipients = 1);
                actions = (if mixed_inputs then [wallet_inputs_action w tx] else []) @ output_actions env (t_hash tx) all_from internal self_send outs
            in Some \<lparr>ty_txid = t_hash tx,
                     ty_type = activity_type (w_is_coinbase w) internal consolidation self_send (owned_inputs w) internal_outs actions,
                     ty_timestamp = w_time w, ty_debit = w_debit w, ty_credit = credit, ty_fee = fee,
                     ty_replaces = map_value w ''replaces_txid'', ty_replaced_by = map_value w ''replaced_by_txid'', ty_actions = actions\<rparr>)"

subsection \<open>The parts of a transaction\<close>

datatype TransactionType = OtherType | Generated | SendToAddress | SendToOther | RecvWithAddress | RecvFromOther | SendToSelf

record Transaction =
  tr_address :: qstring
  tr_credit :: int
  tr_debit :: int
  tr_depth :: int
  tr_idx :: nat
  tr_status :: Status
  tr_time :: int
  tr_type :: TransactionType
  tr_txid :: qstring
  tr_fee :: int
  tr_replaces :: qstring
  tr_replaced_by :: qstring
  tr_counts :: bool
  tr_pending_request :: bool
  tr_used_request :: bool

definition new_Transaction :: "qstring \<Rightarrow> int \<Rightarrow> TransactionType \<Rightarrow> qstring \<Rightarrow> int \<Rightarrow> int \<Rightarrow> Transaction" where
  "new_Transaction hash time type address debit credit =
     \<lparr>tr_address = address, tr_credit = credit, tr_debit = debit, tr_depth = 0, tr_idx = 0, tr_status = Unconfirmed, tr_time = time, tr_type = type,
      tr_txid = hash, tr_fee = 0, tr_replaces = [], tr_replaced_by = [], tr_counts = False, tr_pending_request = False, tr_used_request = False\<rparr>"

definition netAmount :: "Transaction \<Rightarrow> int" where
  "netAmount t = tr_credit t + tr_debit t"

definition prettyAmount :: "int \<Rightarrow> Transaction \<Rightarrow> qstring option" where
  "prettyAmount display_unit t = format (fromDisplayUnit display_unit) (netAmount t) (netAmount t > 0) STANDARD"

record tx_status =
  ws_depth :: int
  ws_blocks_to_maturity :: int
  ws_in_main_chain :: bool
  ws_abandoned :: bool
  ws_trusted :: bool
  ws_block_height :: int

definition RecommendedNumConfirmations :: int where "RecommendedNumConfirmations = 6"

definition transaction_updateStatus :: "tx_status \<Rightarrow> Transaction \<Rightarrow> Transaction" where
  "transaction_updateStatus s t =
     t\<lparr>tr_counts := ws_trusted s \<and> \<not> ws_blocks_to_maturity s > 0, tr_depth := ws_depth s,
       tr_status :=
         (if tr_type t = Generated then
            (if ws_blocks_to_maturity s > 0 then (if \<not> ws_in_main_chain s then NotAccepted else Immature) else Confirmed)
          else if ws_depth s < 0 then Conflicted
          else if ws_depth s = 0 then (if ws_abandoned s then Abandoned else Unconfirmed)
          else if ws_depth s < RecommendedNumConfirmations then Confirming
          else Confirmed)\<rparr>"

definition from_part :: "wallet_tx \<Rightarrow> core_tx \<Rightarrow> nat \<Rightarrow> Transaction" where
  "from_part w tx i = (new_Transaction (t_hash tx) (w_time w) OtherType [] 0 0)\<lparr>tr_idx := i, tr_replaces := map_value w ''replaces_txid'',
     tr_replaced_by := map_value w ''replaced_by_txid''\<rparr>"

text \<open>The parts for each output, with the fee that is not yet charged.\<close>

fun output_parts :: "tx_env \<Rightarrow> wallet_tx \<Rightarrow> core_tx \<Rightarrow> bool \<Rightarrow> int \<Rightarrow> ((nat \<times> tx_out \<times> bool \<times> bool \<times> destination) \<times> bool) list \<Rightarrow> Transaction list" where
  "output_parts env w tx from_me fee [] = []"
| "output_parts env w tx from_me fee (((i, out, mine, change, addr), address_mine) # outs) =
     (if from_me \<and> change then output_parts env w tx from_me fee outs
      else
        let sent = (if from_me then
              [(from_part w tx i)\<lparr>tr_type := (if addr \<noteq> CNoDestination then SendToAddress else SendToOther),
                 tr_address := (if addr \<noteq> CNoDestination then te_EncodeDestination env addr else map_value w ''to''),
                 tr_fee := (if fee > 0 then fee else 0), tr_debit := - (if fee > 0 then o_value out + fee else o_value out)\<rparr>] else []);
            received = (if mine then
              [(from_part w tx i)\<lparr>tr_credit := o_value out,
                 tr_type := (if w_is_coinbase w then Generated else if address_mine then RecvWithAddress else RecvFromOther),
                 tr_address := (if address_mine then te_EncodeDestination env addr else map_value w ''from'')\<rparr>] else [])
        in sent @ received @ output_parts env w tx from_me (if from_me \<and> fee > 0 then 0 else fee) outs)"

definition parts_fromWalletTx :: "tx_env \<Rightarrow> wallet_tx \<Rightarrow> core_tx \<Rightarrow> Transaction list" where
  "parts_fromWalletTx env w tx =
     (let all_from_me = (\<not> w_is_coinbase w \<and> list_all id (txin_is_mine w));
          any_from_me = (\<not> w_is_coinbase w \<and> list_ex id (txin_is_mine w))
      in if all_from_me \<or> \<not> any_from_me
         then output_parts env w tx all_from_me (w_debit w - te_GetValueOut env tx) (zip (tx_outputs w tx) (txout_address_is_mine w))
         else [(new_Transaction (t_hash tx) (w_time w) OtherType [] (w_credit w - w_debit w) 0)\<lparr>tr_replaces := map_value w ''replaces_txid'',
                 tr_replaced_by := map_value w ''replaced_by_txid''\<rparr>])"

text \<open>How long ago, from the seconds since; division truncates towards zero.\<close>

definition tdiv :: "int \<Rightarrow> int \<Rightarrow> int" where
  "tdiv a b = (if a < 0 then - (- a div b) else a div b)"

definition dateTimeString :: "(int \<Rightarrow> int) \<Rightarrow> (int \<Rightarrow> string \<Rightarrow> qstring) \<Rightarrow> int \<Rightarrow> Transaction \<Rightarrow> qstring" where
  "dateTimeString yr date_text now t =
     (if tr_pending_request t \<and> \<not> tr_used_request t then q ''Pending receive''
      else
        let minutes = tdiv (now - tr_time t) 60
        in if minutes < 60 then (if minutes = 1 then q ''1 minute ago'' else number minutes @ q '' minutes ago'')
           else
             let hours = tdiv minutes 60
             in if hours < 24 then (if hours = 1 then q ''1 hour ago'' else number hours @ q '' hours ago'')
                else if yr (tr_time t) = yr now then date_text (tr_time t) ''MMMM d'' else date_text (tr_time t) ''MMMM d, yyyy'')"


section \<open>Amounts\<close>

type_synonym output_row = "nat \<times> tx_out \<times> bool \<times> bool \<times> destination"

definition row_value :: "output_row \<Rightarrow> int" where "row_value r = o_value (fst (snd r))"
definition row_mine :: "output_row \<Rightarrow> bool" where "row_mine r = fst (snd (snd r))"
definition row_change :: "output_row \<Rightarrow> bool" where "row_change r = fst (snd (snd (snd r)))"

lemma row_sel [simp]: "row_value (i, out, mine, change, addr) = o_value out" "row_mine (i, out, mine, change, addr) = mine" "row_change (i, out, mine, change, addr) = change"
  by (simp_all add: row_value_def row_mine_def row_change_def)

definition total :: "output_row list \<Rightarrow> int" where "total rs = sum_list (map row_value rs)"

lemma total_simps [simp]: "total [] = 0" "total (r # rs) = row_value r + total rs" "total (rs @ ss) = total rs + total ss"
  by (simp_all add: total_def)

text \<open>The sum of the actions of one direction.\<close>

definition flow_sum :: "ActionDirection \<Rightarrow> TransactionAction list \<Rightarrow> int" where
  "flow_sum d actions = sum_list (map ta_amount (filter (\<lambda>a. ta_direction a = d) actions))"

lemma flow_sum_simps [simp]:
  "flow_sum d [] = 0" "flow_sum d (a # as) = (if ta_direction a = d then ta_amount a else 0) + flow_sum d as" "flow_sum d (as @ bs) = flow_sum d as + flow_sum d bs"
  by (simp_all add: flow_sum_def)

lemma total_split: "total rs = total (filter row_mine rs) + total (filter (\<lambda>r. \<not> row_mine r) rs)"
  by (induction rs) auto

lemma actions_sums:
  "flow_sum SendAction (output_actions env txid True internal self_send rs) = total (filter (\<lambda>r. \<not> row_mine r) rs)"
  "flow_sum ReceiveAction (output_actions env txid True internal self_send rs) = 0"
  "flow_sum SendAction (output_actions env txid False internal self_send rs) = 0"
  "flow_sum ReceiveAction (output_actions env txid False internal self_send rs) = total (filter row_mine rs)"
  by (induction rs; clarsimp simp: is_data_output_def)+

text \<open>What Core says of the amounts of a transaction of the wallet.\<close>

definition core_amounts :: "tx_env \<Rightarrow> wallet_tx \<Rightarrow> core_tx \<Rightarrow> bool" where
  "core_amounts env w tx \<longleftrightarrow>
     te_GetValueOut env tx = sum_list (map o_value (t_vout tx)) \<and>
     (\<not> w_is_coinbase w \<longrightarrow> w_credit w = sum_list (map (\<lambda>(out, mine). if mine then o_value out else 0) (zip (t_vout tx) (txout_is_mine w)))) \<and>
     (owned_inputs w = 0 \<longrightarrow> w_debit w = 0) \<and>
     (all_from_wallet w tx \<longrightarrow> te_GetValueOut env tx \<le> w_debit w)"

lemma outputs_total:
  assumes "w_tx w = Some tx" "\<not> incomplete_snapshot w"
  shows "total (tx_outputs w tx) = sum_list (map o_value (t_vout tx))"
    "total (filter row_mine (tx_outputs w tx)) = sum_list (map (\<lambda>(out, mine). if mine then o_value out else 0) (zip (t_vout tx) (txout_is_mine w)))"
    "sum_list (map (\<lambda>(i, out, mine, rest). if mine then o_value out else 0) (tx_outputs w tx)) = total (filter row_mine (tx_outputs w tx))"
proof -
  have l: "length (txout_is_mine w) = length (t_vout tx)" "length (txout_is_change w) = length (t_vout tx)" "length (txout_address w) = length (t_vout tx)"
    using assms by (auto simp: incomplete_snapshot_def)
  have v: "map (\<lambda>r. fst (snd r)) (tx_outputs w tx) = t_vout tx" "map (\<lambda>r. (fst (snd r), fst (snd (snd r)))) (tx_outputs w tx) = zip (t_vout tx) (txout_is_mine w)"
    using l by (auto simp: tx_outputs_def intro!: nth_equalityI)
  show "total (tx_outputs w tx) = sum_list (map o_value (t_vout tx))" unfolding v(1) [symmetric] by (simp add: total_def row_value_def [abs_def] comp_def)
  have "sum_list (map (\<lambda>(out, mine). if mine then o_value out else 0) (map (\<lambda>r. (fst (snd r), fst (snd (snd r)))) rs)) = total (filter row_mine rs)" for rs :: "output_row list"
    by (induction rs) auto
  then show "total (filter row_mine (tx_outputs w tx)) = sum_list (map (\<lambda>(out, mine). if mine then o_value out else 0) (zip (t_vout tx) (txout_is_mine w)))"
    unfolding v(2) [symmetric] by simp
  have "sum_list (map (\<lambda>(i, out, mine, rest). if mine then o_value out else 0) rs) = total (filter row_mine rs)" for rs :: "output_row list"
    by (induction rs) auto
  then show "sum_list (map (\<lambda>(i, out, mine, rest). if mine then o_value out else 0) (tx_outputs w tx)) = total (filter row_mine (tx_outputs w tx))" .
qed

text \<open>
  C15: What a transaction changes in the wallet is what its actions and the fee say: the receipts less the sends and the fee,
  whether all, some or none of its inputs are the wallet's.
\<close>

theorem activity_accounts:
  assumes "w_tx w = Some tx" "activity_fromWalletTx env w = Some a" "core_amounts env w tx"
  shows "walletImpact a = flow_sum ReceiveAction (ty_actions a) - flow_sum SendAction (ty_actions a) - (case ty_fee a of None \<Rightarrow> 0 | Some fee \<Rightarrow> fee)"
proof -
  have ok: "\<not> incomplete_snapshot w" using assms(1,2) by (auto simp: activity_fromWalletTx_def split: if_splits)
  note ot = outputs_total [OF assms(1) ok]
  obtain all_to n k where sc: "scan_outputs env (tx_outputs w tx) = (all_to, n, k)" by (cases "scan_outputs env (tx_outputs w tx)")
  show ?thesis
  proof (cases "all_from_wallet w tx")
    case True
    then have "\<not> w_is_coinbase w" by (simp add: all_from_wallet_def)
    with True assms ok ot show ?thesis
      by (auto simp: activity_fromWalletTx_def Let_def sc core_amounts_def walletImpact_def actions_sums total_split [of "tx_outputs w tx"] split: if_splits)
  next
    case False
    then show ?thesis using assms ok ot
      by (auto simp: activity_fromWalletTx_def Let_def sc core_amounts_def walletImpact_def actions_sums wallet_inputs_action_def split: if_splits)
  qed
qed


lemma all_true: "(length (filter id xs) = length xs) = list_all id xs"
proof -
  have "(length (filter id xs) = length xs) = (length (filter (\<lambda>x. \<not> id x) xs) = 0)" using sum_length_filter_compl [of id xs] by arith
  then show ?thesis by (simp add: list_all_iff filter_empty_conv)
qed

lemma owned_all:
  assumes "\<not> incomplete_snapshot w" "w_tx w = Some tx"
  shows "all_from_wallet w tx = (\<not> w_is_coinbase w \<and> list_all id (txin_is_mine w))"
proof -
  have "length (t_vin tx) = length (txin_is_mine w)" using assms by (simp add: incomplete_snapshot_def)
  then show ?thesis unfolding all_from_wallet_def owned_inputs_def by (cases "w_is_coinbase w") (simp_all only: all_true if_True if_False simp_thms)
qed

lemma owned_any: "(owned_inputs w > 0) = (\<not> w_is_coinbase w \<and> list_ex id (txin_is_mine w))"
proof -
  have "(0 < length (filter id xs)) = list_ex id xs" for xs :: "bool list" by (induction xs) auto
  then show ?thesis by (simp add: owned_inputs_def)
qed

lemma part_net [simp]: "tr_credit (from_part w tx i) = 0" "tr_debit (from_part w tx i) = 0"
  by (simp_all add: from_part_def new_Transaction_def)

lemma parts_received:
  "sum_list (map netAmount (output_parts env w tx False fee rs)) = total (filter row_mine (map fst rs))"
  by (induction rs arbitrary: fee; clarsimp simp: netAmount_def Let_def)

lemma parts_sent:
  assumes "\<forall>r\<in>set (map fst rs). row_change r \<longrightarrow> row_mine r" "0 \<le> fee"
  shows "sum_list (map netAmount (output_parts env w tx True fee rs)) =
    - total (filter (\<lambda>r. \<not> row_mine r) (map fst rs)) - (if \<exists>r\<in>set (map fst rs). \<not> row_change r then fee else 0)"
  using assms
proof (induction rs arbitrary: fee)
  case (Cons r rs)
  obtain i out mine change addr am where r: "r = ((i, out, mine, change, addr), am)" by (metis prod.exhaust)
  show ?case using Cons.IH [of fee] Cons.IH [of 0] Cons.prems by (auto simp: r netAmount_def Let_def)
qed simp

text \<open>
  The older list of parts and the activity agree on what a transaction changes in the wallet, wherever the fee has an output to be
  charged to.
\<close>

theorem parts_agree_with_activity:
  assumes "w_tx w = Some tx" "activity_fromWalletTx env w = Some a" "core_amounts env w tx" "length (txout_address_is_mine w) = length (t_vout tx)"
    "list_all2 (\<lambda>change mine. change \<longrightarrow> mine) (txout_is_change w) (txout_is_mine w)" "all_from_wallet w tx \<Longrightarrow> list_ex Not (txout_is_change w)"
  shows "sum_list (map netAmount (parts_fromWalletTx env w tx)) = walletImpact a"
proof -
  have ok: "\<not> incomplete_snapshot w" using assms(1,2) by (auto simp: activity_fromWalletTx_def split: if_splits)
  note ot = outputs_total [OF assms(1) ok]
  have imp: "walletImpact a = (if w_is_coinbase w then total (filter row_mine (tx_outputs w tx)) else w_credit w) - w_debit w"
    using assms(1,2) ok ot by (auto simp: activity_fromWalletTx_def Let_def walletImpact_def split: if_splits prod.splits)
  have l: "length (tx_outputs w tx) = length (t_vout tx)" "length (txout_is_mine w) = length (t_vout tx)" "length (txout_is_change w) = length (t_vout tx)"
    "length (txout_address w) = length (t_vout tx)" using assms(1) ok by (auto simp: tx_outputs_def incomplete_snapshot_def)
  have rows: "map fst (zip (tx_outputs w tx) (txout_address_is_mine w)) = tx_outputs w tx" using l assms(4) by simp
  have flags: "map row_mine (tx_outputs w tx) = txout_is_mine w" "map row_change (tx_outputs w tx) = txout_is_change w"
    using l by (auto simp: tx_outputs_def row_mine_def row_change_def intro!: nth_equalityI)
  show ?thesis
  proof (cases "all_from_wallet w tx")
    case True
    have fee: "0 \<le> w_debit w - te_GetValueOut env tx" using True assms(3) by (simp add: core_amounts_def)
    have "\<forall>r\<in>set (tx_outputs w tx). row_change r \<longrightarrow> row_mine r"
      using assms(5) unfolding flags [symmetric] by (simp add: list_all2_conv_all_nth) (metis in_set_conv_nth)
    moreover have "\<exists>r\<in>set (tx_outputs w tx). \<not> row_change r"
      using assms(6) [OF True] unfolding flags [symmetric] by (auto simp: list_ex_iff)
    ultimately have "sum_list (map netAmount (parts_fromWalletTx env w tx)) = - total (filter (\<lambda>r. \<not> row_mine r) (tx_outputs w tx)) - (w_debit w - te_GetValueOut env tx)"
      using True owned_all [OF ok assms(1)] parts_sent [of "zip (tx_outputs w tx) (txout_address_is_mine w)", unfolded rows, OF _ fee]
      by (simp add: parts_fromWalletTx_def Let_def)
    then show ?thesis using imp True assms(3) ot total_split [of "tx_outputs w tx"] by (simp add: all_from_wallet_def core_amounts_def)
  next
    case False
    show ?thesis
    proof (cases "owned_inputs w > 0")
      case True
      then show ?thesis using False imp owned_any [of w] owned_all [OF ok assms(1)] by (simp add: parts_fromWalletTx_def Let_def netAmount_def new_Transaction_def)
    next
      case none: False
      then have "sum_list (map netAmount (parts_fromWalletTx env w tx)) = total (filter row_mine (tx_outputs w tx))"
        using False owned_any [of w] owned_all [OF ok assms(1)] parts_received [of env w tx _ "zip (tx_outputs w tx) (txout_address_is_mine w)", unfolded rows]
        by (auto simp: parts_fromWalletTx_def Let_def)
      then show ?thesis using imp none assms(3) ot by (simp add: core_amounts_def)
    qed
  qed
qed

text \<open>The identifiers of the actions of a transaction are distinct and name it.\<close>

lemma number_inj: "number (int i) = number (int j) \<Longrightarrow> i = j"
  by (metis number_nat_value number_nonneg nat_int of_nat_0_le_iff)

lemma output_action_ids: "a \<in> set (output_actions env txid af internal ss rs) \<Longrightarrow> \<exists>i\<in>set (map fst rs). ta_id a = txid @ q '':output:'' @ number (int i)"
proof (induction rs)
  case (Cons r rs)
  obtain i out mine change addr where "r = (i, out, mine, change, addr)" by (metis prod.exhaust)
  with Cons show ?case by (auto split: if_splits)
qed simp

lemma output_actions_distinct: "distinct (map fst rs) \<Longrightarrow> distinct (map ta_id (output_actions env txid af internal ss rs))"
proof (induction rs)
  case (Cons r rs)
  obtain i out mine change addr where r: "r = (i, out, mine, change, addr)" by (metis prod.exhaust)
  have "txid @ q '':output:'' @ number (int i) \<notin> ta_id ` set (output_actions env txid af internal ss rs)"
    using Cons.prems output_action_ids [of _ env txid af internal ss rs] number_inj by (fastforce simp: r)
  with Cons show ?case by (auto simp: r)
qed simp

lemma activity_ids:
  assumes "activity_fromWalletTx env w = Some a"
  shows "distinct (map ta_id (ty_actions a))"
proof -
  obtain tx where tx: "w_tx w = Some tx" using assms by (auto simp: activity_fromWalletTx_def split: option.splits)
  have "map fst (tx_outputs w tx) = take (length (tx_outputs w tx)) [0..<length (t_vout tx)]" by (simp add: tx_outputs_def map_fst_zip_take)
  then have d: "distinct (map fst (tx_outputs w tx))" by (metis distinct_take distinct_upt)
  have "ta_id (wallet_inputs_action w tx) \<notin> ta_id ` set (output_actions env (t_hash tx) af internal ss rs)" for af internal ss rs
    using output_action_ids [of _ env "t_hash tx" af internal ss rs] by (fastforce simp: wallet_inputs_action_def)
  then show ?thesis using assms tx output_actions_distinct [OF d]
    by (auto simp: activity_fromWalletTx_def Let_def split: if_splits prod.splits)
qed


section \<open>An example\<close>

text \<open>A payment of 3 with 6 change and a fee of 1, from one input of 10.\<close>

definition sample_tx_env :: tx_env where
  "sample_tx_env = \<lparr>te_EncodeDestination = (\<lambda>d. case d of CNoDestination \<Rightarrow> [] | Destination b \<Rightarrow> b), te_IsUnspendable = (\<lambda>s. s = [106]),
     te_GetValueOut = (\<lambda>tx. sum_list (map o_value (t_vout tx)))\<rparr>"

definition sample_tx :: core_tx where
  "sample_tx = \<lparr>t_hash = q ''ab'', t_vin = [\<lparr>i_hash = q ''cd'', i_n = 0\<rparr>], t_vout = [\<lparr>o_value = 3, o_script = []\<rparr>, \<lparr>o_value = 6, o_script = []\<rparr>], t_version = 2, t_locktime = 0\<rparr>"

definition sample_wallet_tx :: wallet_tx where
  "sample_wallet_tx = \<lparr>w_tx = Some sample_tx, txin_is_mine = [True], txout_is_mine = [False, True], txout_is_change = [False, True],
     txout_address = [Destination [1], Destination [2]], txout_address_is_mine = [False, True], w_credit = 6, w_debit = 10, w_time = 0, w_value_map = [], w_is_coinbase = False\<rparr>"

lemma sample_activity:
  "\<exists>a. activity_fromWalletTx sample_tx_env sample_wallet_tx = Some a \<and> walletImpact a = -4 \<and> ty_fee a = Some 1 \<and> ty_type a = Send"
  "core_amounts sample_tx_env sample_wallet_tx sample_tx" "w_tx sample_wallet_tx = Some sample_tx"
  by (simp_all add: activity_fromWalletTx_def sample_wallet_tx_def sample_tx_def sample_tx_env_def tx_outputs_def incomplete_snapshot_def owned_inputs_def
      all_from_wallet_def is_data_output_def activity_type_def walletImpact_def core_amounts_def upt_rec Let_def)

theorem activity_accounts_witness:
  "\<exists>a. activity_fromWalletTx sample_tx_env sample_wallet_tx = Some a \<and> walletImpact a = -4 \<and>
     flow_sum ReceiveAction (ty_actions a) - flow_sum SendAction (ty_actions a) - 1 = -4"
  using activity_accounts [OF sample_activity(3) _ sample_activity(2)] sample_activity(1) by fastforce

theorem parts_agree_with_activity_witness:
  "sum_list (map netAmount (parts_fromWalletTx sample_tx_env sample_wallet_tx sample_tx)) = -4"
proof -
  obtain a where "activity_fromWalletTx sample_tx_env sample_wallet_tx = Some a" "walletImpact a = -4" using sample_activity(1) by blast
  with parts_agree_with_activity [OF sample_activity(3) this(1) sample_activity(2)] show ?thesis by (simp add: sample_wallet_tx_def sample_tx_def)
qed

end
