(* ===== verification/TxFlow.thy ===== *)
theory TxFlow
  imports TxActivity
begin

text \<open>
  \<open>src/qml/models/transactionflow.{h,cpp}\<close>: the inputs and outputs of a transaction as the details page shows them, in full or with the
  outputs of others collapsed into one entry. A map of the code is a record whose fields are \<open>None\<close> where the map has no such key.
  Script parsing, sizes and the money limit are Core's.
\<close>

section \<open>Definitions\<close>

record flow_env =
  fe_tx :: tx_env
  fe_ExtractDestination :: "bytes \<Rightarrow> destination option"
  fe_script_ops :: "bytes \<Rightarrow> (nat \<times> bytes) list \<times> bool"
  fe_IsCoinBase :: "core_tx \<Rightarrow> bool"
  fe_MaxMoney :: int
  fe_VirtualSize :: "core_tx \<Rightarrow> int"
  fe_Size :: "core_tx \<Rightarrow> int"
  fe_Weight :: "core_tx \<Rightarrow> int"
  fe_SignalsRbf :: "core_tx \<Rightarrow> bool"
  fe_fromUtf8 :: "bytes \<Rightarrow> qstring"
  fe_toUtf8 :: "qstring \<Rightarrow> bytes"
  fe_toUcs4 :: "qstring \<Rightarrow> nat list"
  fe_isPrint :: "nat \<Rightarrow> bool"

definition MoneyRange :: "flow_env \<Rightarrow> int \<Rightarrow> bool" where
  "MoneyRange env v \<longleftrightarrow> 0 \<le> v \<and> v \<le> fe_MaxMoney env"

definition output_address :: "flow_env \<Rightarrow> tx_out \<Rightarrow> qstring" where
  "output_address env out = (case fe_ExtractDestination env (o_script out) of None \<Rightarrow> [] | Some d \<Rightarrow> te_EncodeDestination (fe_tx env) d)"

definition OP_RETURN :: nat where "OP_RETURN = 106"
definition OP_PUSHDATA4 :: nat where "OP_PUSHDATA4 = 78"

definition hex_digit :: "nat \<Rightarrow> qchar" where "hex_digit n = (if n < 10 then 48 + n else 87 + n)"
definition toHex :: "bytes \<Rightarrow> qstring" where "toHex b = concat (map (\<lambda>c. [hex_digit (c div 16), hex_digit (c mod 16)]) b)"

fun join_with :: "qchar \<Rightarrow> qstring list \<Rightarrow> qstring" where
  "join_with c [] = []"
| "join_with c [x] = x"
| "join_with c (x # xs) = x @ c # join_with c xs"

record data_output =
  d_scriptHex :: qstring
  d_dataHex :: "qstring option"
  d_dataText :: "qstring option"

definition readable :: "flow_env \<Rightarrow> bytes \<Rightarrow> bool" where
  "readable env payload \<longleftrightarrow>
     (let text = fe_fromUtf8 env payload
      in fe_toUtf8 env text = payload \<and> list_all (\<lambda>c. fe_isPrint env c \<or> c \<in> {10, 13, 9}) (fe_toUcs4 env text))"

definition DataOutput :: "flow_env \<Rightarrow> bytes \<Rightarrow> data_output option" where
  "DataOutput env script =
     (if script = [] \<or> hd script \<noteq> OP_RETURN then None
      else
        let (ops, parsed) = fe_script_ops env (tl script); result = \<lparr>d_scriptHex = toHex script, d_dataHex = None, d_dataText = None\<rparr>
        in if \<not> parsed \<or> list_ex (\<lambda>(opcode, b). opcode > OP_PUSHDATA4) ops then Some result
           else Some (result\<lparr>d_dataHex := Some (join_with 32 (map (toHex \<circ> snd) ops)),
                  d_dataText := if list_all (readable env \<circ> snd) ops then Some (join_with 10 (map (fe_fromUtf8 env \<circ> snd) ops)) else None\<rparr>))"

record flow_entry =
  en_id :: qstring
  en_index :: "int option"
  en_kind :: qstring
  en_amount :: "int option"
  en_known :: bool
  en_address :: qstring
  en_ownership :: qstring
  en_change :: "bool option"
  en_data :: "data_output option"
  en_previous :: "(qstring \<times> nat) option"
  en_count :: "int option"

definition WALLET :: qstring where "WALLET = q ''wallet''"
definition EXTERNAL :: qstring where "EXTERNAL = q ''external''"

definition output_entry :: "flow_env \<Rightarrow> nat \<Rightarrow> tx_out \<Rightarrow> bool \<Rightarrow> bool \<Rightarrow> flow_entry" where
  "output_entry env i out mine change =
     \<lparr>en_id = q ''output:'' @ number (int i), en_index = Some (int i), en_kind = (if te_IsUnspendable (fe_tx env) (o_script out) then q ''data'' else q ''output''),
      en_amount = Some (o_value out), en_known = True, en_address = output_address env out, en_ownership = (if mine then WALLET else EXTERNAL),
      en_change = Some change, en_data = DataOutput env (o_script out), en_previous = None, en_count = None\<rparr>"

definition group_entry :: "int \<Rightarrow> int \<Rightarrow> flow_entry" where
  "group_entry cnt amount =
     \<lparr>en_id = q ''non-wallet-outputs'', en_index = None, en_kind = q ''output-group'', en_amount = Some amount, en_known = True, en_address = [],
      en_ownership = EXTERNAL, en_change = None, en_data = None, en_previous = None, en_count = Some cnt\<rparr>"

text \<open>
  The loop over the outputs: total, grouped amount and entries so far; the place of the group is an empty entry until the
  end. \<open>None\<close> when an amount is out of range.
\<close>

fun outputs_loop :: "flow_env \<Rightarrow> bool \<Rightarrow> int \<Rightarrow> int \<Rightarrow> flow_entry option list \<Rightarrow> bool \<Rightarrow> (nat \<times> tx_out \<times> bool \<times> bool) list \<Rightarrow> (int \<times> int \<times> flow_entry option list) option" where
  "outputs_loop env grp tot grouped outs placed [] = Some (tot, grouped, outs)"
| "outputs_loop env grp tot grouped outs placed ((i, out, mine, change) # rest) =
     (if \<not> MoneyRange env (o_value out) \<or> \<not> MoneyRange env (tot + o_value out) then None
      else if grp \<and> \<not> mine then
        outputs_loop env grp (tot + o_value out) (grouped + o_value out) (if placed then outs else outs @ [None]) True rest
      else outputs_loop env grp (tot + o_value out) grouped (outs @ [Some (output_entry env i out mine change)]) placed rest)"

definition coinbase_entry :: "int \<Rightarrow> flow_entry" where
  "coinbase_entry amount =
     \<lparr>en_id = q ''coinbase'', en_index = Some (-1), en_kind = q ''coinbase'', en_amount = Some amount, en_known = True, en_address = [],
      en_ownership = q ''unknown'', en_change = None, en_data = None, en_previous = None, en_count = None\<rparr>"

definition input_entry :: "flow_env \<Rightarrow> nat \<Rightarrow> tx_in \<Rightarrow> bool \<Rightarrow> tx_out option \<Rightarrow> flow_entry" where
  "input_entry env i inp mine prev =
     \<lparr>en_id = q ''input:'' @ number (int i), en_index = Some (int i), en_kind = q ''input'', en_amount = map_option o_value prev, en_known = (prev \<noteq> None),
      en_address = (case prev of None \<Rightarrow> [] | Some out \<Rightarrow> output_address env out), en_ownership = (if mine then WALLET else EXTERNAL),
      en_change = None, en_data = None, en_previous = Some (i_hash inp, i_n inp), en_count = None\<rparr>"

definition known_prevout :: "flow_env \<Rightarrow> tx_out option list \<Rightarrow> nat \<Rightarrow> tx_out option" where
  "known_prevout env prevouts i = (if i < length prevouts then (case prevouts ! i of Some out \<Rightarrow> if MoneyRange env (o_value out) then Some out else None | None \<Rightarrow> None) else None)"

fun inputs_loop :: "flow_env \<Rightarrow> tx_out option list \<Rightarrow> int \<Rightarrow> bool \<Rightarrow> (nat \<times> tx_in \<times> bool) list \<Rightarrow> (int \<times> bool \<times> flow_entry list) option" where
  "inputs_loop env prevouts tot known [] = Some (tot, known, [])"
| "inputs_loop env prevouts tot known ((i, inp, mine) # rest) =
     (case known_prevout env prevouts i of
        Some out \<Rightarrow>
          if \<not> MoneyRange env (tot + o_value out) then None
          else map_option (\<lambda>(t, k, es). (t, k, input_entry env i inp mine (Some out) # es)) (inputs_loop env prevouts (tot + o_value out) known rest)
      | None \<Rightarrow> map_option (\<lambda>(t, k, es). (t, k, input_entry env i inp mine None # es)) (inputs_loop env prevouts tot False rest))"

record tx_flow =
  fl_inputs :: "flow_entry list"
  fl_outputs :: "flow_entry list"
  fl_inputCount :: nat
  fl_outputCount :: nat
  fl_totalInput :: "int option"
  fl_totalOutput :: int
  fl_fee :: "int option"
  fl_coinbase :: bool
  fl_complete :: bool
  fl_virtualSize :: int
  fl_signalsRbf :: bool
  fl_size :: int
  fl_weight :: int
  fl_version :: int
  fl_lockTime :: int

definition flow_inputs :: "flow_env \<Rightarrow> wallet_tx \<Rightarrow> core_tx \<Rightarrow> tx_out option list \<Rightarrow> int \<Rightarrow> (int \<times> bool \<times> flow_entry list) option" where
  "flow_inputs env w tx prevouts total_output =
     (if fe_IsCoinBase env tx then Some (total_output, t_vin tx \<noteq> [], [coinbase_entry total_output])
      else inputs_loop env prevouts 0 (t_vin tx \<noteq> []) (zip [0..<length (t_vin tx)] (zip (t_vin tx) (txin_is_mine w))))"

definition flow_fee :: "flow_env \<Rightarrow> wallet_tx \<Rightarrow> core_tx \<Rightarrow> bool \<Rightarrow> int \<Rightarrow> int \<Rightarrow> int option" where
  "flow_fee env w tx inputs_known total_input total_output =
     (if fe_IsCoinBase env tx then None
      else
        let all_mine = (t_vin tx \<noteq> [] \<and> list_all id (txin_is_mine w));
            debit = (if inputs_known then Some total_input else if all_mine \<and> MoneyRange env (w_debit w) then Some (w_debit w) else None)
        in case debit of None \<Rightarrow> None | Some d \<Rightarrow> if d \<ge> total_output then Some (d - total_output) else None)"

definition BuildTransactionFlow :: "flow_env \<Rightarrow> wallet_tx \<Rightarrow> tx_out option list \<Rightarrow> bool \<Rightarrow> tx_flow option" where
  "BuildTransactionFlow env w prevouts collapse_outputs =
     (case w_tx w of
        None \<Rightarrow> None
      | Some tx \<Rightarrow>
          if length (txin_is_mine w) \<noteq> length (t_vin tx) \<or> length (txout_is_mine w) \<noteq> length (t_vout tx) \<or> length (txout_is_change w) \<noteq> length (t_vout tx) then None
          else
            let non_wallet_outputs = length (filter Not (txout_is_mine w));
                group_outputs = (collapse_outputs \<and> length (t_vout tx) > 10 \<and> non_wallet_outputs > 1)
            in (case outputs_loop env group_outputs 0 0 [] False (zip [0..<length (t_vout tx)] (zip (t_vout tx) (zip (txout_is_mine w) (txout_is_change w)))) of
                  None \<Rightarrow> None
                | Some (total_output, grouped, outs) \<Rightarrow>
                    (case flow_inputs env w tx prevouts total_output of
                       None \<Rightarrow> None
                     | Some (total_input, inputs_known, inputs) \<Rightarrow>
                         let fee = flow_fee env w tx inputs_known total_input total_output
                         in Some \<lparr>fl_inputs = inputs,
                              fl_outputs = map (\<lambda>e. case e of None \<Rightarrow> group_entry (int non_wallet_outputs) grouped | Some e \<Rightarrow> e) outs,
                              fl_inputCount = length (t_vin tx), fl_outputCount = length (t_vout tx),
                              fl_totalInput = (if inputs_known then Some total_input else None), fl_totalOutput = total_output, fl_fee = fee,
                              fl_coinbase = fe_IsCoinBase env tx, fl_complete = (inputs_known \<and> (fe_IsCoinBase env tx \<or> fee \<noteq> None)),
                              fl_virtualSize = fe_VirtualSize env tx, fl_signalsRbf = fe_SignalsRbf env tx, fl_size = fe_Size env tx,
                              fl_weight = fe_Weight env tx, fl_version = t_version tx, fl_lockTime = t_locktime tx\<rparr>)))"

section \<open>The flow balances\<close>

definition amounts :: "flow_entry list \<Rightarrow> int" where
  "amounts es = sum_list (map (\<lambda>e. case en_amount e of None \<Rightarrow> 0 | Some a \<Rightarrow> a) es)"

lemma amounts_simps [simp]: "amounts [] = 0" "amounts (e # es) = (case en_amount e of None \<Rightarrow> 0 | Some a \<Rightarrow> a) + amounts es" "amounts (es @ fs) = amounts es + amounts fs"
  by (simp_all add: amounts_def)

definition filled :: "int \<Rightarrow> int \<Rightarrow> flow_entry option list \<Rightarrow> flow_entry list" where
  "filled cnt grouped = map (\<lambda>e. case e of None \<Rightarrow> group_entry cnt grouped | Some e \<Rightarrow> e)"

lemma filled_simps [simp]: "filled cnt g [] = []" "filled cnt g (es @ fs) = filled cnt g es @ filled cnt g fs" "filled cnt g (None # es) = group_entry cnt g # filled cnt g es"
  "filled cnt g (Some e # es) = e # filled cnt g es"
  by (simp_all add: filled_def)

lemma ownership_distinct [simp]: "WALLET \<noteq> EXTERNAL" "EXTERNAL \<noteq> WALLET"
proof -
  have "length WALLET \<noteq> length EXTERNAL" by (simp add: WALLET_def EXTERNAL_def q_def)
  then show "WALLET \<noteq> EXTERNAL" "EXTERNAL \<noteq> WALLET" by auto
qed

lemma entry_sel [simp]:
  "en_amount (group_entry cnt g) = Some g" "en_amount (output_entry env i out mine change) = Some (o_value out)"
  "en_ownership (group_entry cnt g) = EXTERNAL" "en_ownership (output_entry env i out mine change) = (if mine then WALLET else EXTERNAL)"
  unfolding group_entry_def output_entry_def by (simp_all only: flow_entry.select_convs)

text \<open>The group is placed at most once, and only when something was grouped.\<close>

definition groups :: "flow_entry option list \<Rightarrow> nat" where "groups outs = length (filter (\<lambda>e. e = None) outs)"

lemma groups_simps [simp]: "groups [] = 0" "groups (es @ fs) = groups es + groups fs" "groups (None # es) = Suc (groups es)" "groups (Some e # es) = groups es"
  by (simp_all add: groups_def)

definition outputs_state :: "int \<Rightarrow> int \<Rightarrow> flow_entry option list \<Rightarrow> bool \<Rightarrow> bool" where
  "outputs_state tot grouped outs placed \<longleftrightarrow> groups outs = (if placed then 1 else 0) \<and> (\<not> placed \<longrightarrow> grouped = 0) \<and> (\<forall>g cnt. amounts (filled cnt g outs) = tot - grouped + (if placed then g else 0))"

lemma outputs_loop_state:
  "outputs_loop env grp tot grouped outs placed rs = Some (tot', grouped', outs') \<Longrightarrow> outputs_state tot grouped outs placed \<Longrightarrow> \<exists>placed'. outputs_state tot' grouped' outs' placed'"
proof (induction rs arbitrary: tot grouped outs placed)
  case (Cons r rs)
  obtain i out mine change where r: "r = (i, out, mine, change)" by (metis prod.exhaust)
  have ok: "MoneyRange env (o_value out)" "MoneyRange env (tot + o_value out)" using Cons.prems(1) by (auto simp: r split: if_splits)
  show ?case
  proof (cases "grp \<and> \<not> mine")
    case True
    then have "outputs_loop env grp (tot + o_value out) (grouped + o_value out) (if placed then outs else outs @ [None]) True rs = Some (tot', grouped', outs')"
      using Cons.prems(1) ok by (simp add: r)
    moreover have "outputs_state (tot + o_value out) (grouped + o_value out) (if placed then outs else outs @ [None]) True"
      using Cons.prems(2) by (cases placed) (simp_all add: outputs_state_def)
    ultimately show ?thesis by (rule Cons.IH)
  next
    case False
    then have "outputs_loop env grp (tot + o_value out) grouped (outs @ [Some (output_entry env i out mine change)]) placed rs = Some (tot', grouped', outs')"
      using Cons.prems(1) by (simp only: r outputs_loop.simps ok False if_False simp_thms)
    moreover have "outputs_state (tot + o_value out) grouped (outs @ [Some (output_entry env i out mine change)]) placed"
      using Cons.prems(2) by (simp add: outputs_state_def)
    ultimately show ?thesis by (rule Cons.IH)
  qed
qed auto

text \<open>The totals do not depend on collapsing, and the wallet's own entries stay.\<close>

definition own_entries :: "flow_entry option list \<Rightarrow> flow_entry list" where
  "own_entries outs = filter (\<lambda>e. en_ownership e = WALLET) (filled 0 0 outs)"

lemma own_entries_filled: "filter (\<lambda>e. en_ownership e = WALLET) (filled cnt g outs) = own_entries outs"
  by (induction outs) (auto simp: own_entries_def filled_def split: option.splits)

lemma outputs_loop_collapse:
  assumes "own_entries outs = own_entries outs2"
  shows "(case outputs_loop env grp tot grouped outs placed rs of None \<Rightarrow> outputs_loop env False tot g2 outs2 p2 rs = None
    | Some (t, g, os) \<Rightarrow> \<exists>g' os'. outputs_loop env False tot g2 outs2 p2 rs = Some (t, g', os') \<and> own_entries os = own_entries os')"
  using assms
proof (induction rs arbitrary: tot grouped outs placed g2 outs2 p2)
  case (Cons r rs)
  obtain i out mine change where r: "r = (i, out, mine, change)" by (metis prod.exhaust)
  let ?e = "Some (output_entry env i out mine change)"
  show ?case
  proof (cases "MoneyRange env (o_value out) \<and> MoneyRange env (tot + o_value out)")
    case ok: True
    show ?thesis
    proof (cases "grp \<and> \<not> mine")
      case True
      have "own_entries (if placed then outs else outs @ [None]) = own_entries (outs2 @ [?e])" using Cons.prems True by (simp add: own_entries_def)
      from Cons.IH [OF this, where tot = "tot + o_value out" and grouped = "grouped + o_value out" and placed = True and ?g2.0 = g2 and ?p2.0 = p2]
      show ?thesis by (simp only: r outputs_loop.simps ok True if_True if_False simp_thms)
    next
      case False
      have "own_entries (outs @ [?e]) = own_entries (outs2 @ [?e])" using Cons.prems by (simp add: own_entries_def)
      from Cons.IH [OF this, where tot = "tot + o_value out" and grouped = grouped and placed = placed and ?g2.0 = g2 and ?p2.0 = p2]
      show ?thesis by (simp only: r outputs_loop.simps ok False if_True if_False simp_thms)
    qed
  qed (auto simp: r)
qed simp

lemma inputs_loop_total:
  "inputs_loop env prevouts tot known rs = Some (t, k, es) \<Longrightarrow> t = tot + amounts es \<and> (k \<longrightarrow> known \<and> list_all en_known es)"
proof (induction rs arbitrary: tot known t k es)
  case (Cons r rs)
  obtain i inp mine where r: "r = (i, inp, mine)" by (metis prod.exhaust)
  have e: "en_amount (input_entry env i inp mine p) = map_option o_value p" "en_known (input_entry env i inp mine p) = (p \<noteq> None)" for p by (simp_all add: input_entry_def)
  show ?case
  proof (cases "known_prevout env prevouts i")
    case None
    then obtain es' where "inputs_loop env prevouts tot False rs = Some (t, k, es')" "es = input_entry env i inp mine None # es'"
      using Cons.prems by (auto simp: r)
    then show ?thesis using Cons.IH [of tot False t k es'] by (simp add: e)
  next
    case (Some out)
    then obtain es' where "inputs_loop env prevouts (tot + o_value out) known rs = Some (t, k, es')" "es = input_entry env i inp mine (Some out) # es'"
      using Cons.prems by (auto simp: r split: if_splits)
    then show ?thesis using Cons.IH [of "tot + o_value out" known t k es'] by (simp add: e)
  qed
qed simp

lemma flow_inputs_total: "flow_inputs env w tx prevouts tot = Some (t, k, es) \<Longrightarrow> t = amounts es \<and> (fe_IsCoinBase env tx \<longrightarrow> t = tot)"
  by (auto simp: flow_inputs_def coinbase_entry_def dest: inputs_loop_total split: if_splits)

text \<open>
  C27: The details of a transaction balance: the shown outputs, collapsed or not, add up to the total output, the shown inputs to
  the total input, and when the details are complete the inputs are the outputs and the fee.
\<close>

theorem flow_balances:
  assumes "BuildTransactionFlow env w prevouts collapse = Some f"
  shows "amounts (fl_outputs f) = fl_totalOutput f \<and> (fl_totalInput f \<noteq> None \<longrightarrow> fl_totalInput f = Some (amounts (fl_inputs f))) \<and>
    (fl_complete f \<longrightarrow> amounts (fl_inputs f) = fl_totalOutput f + (case fl_fee f of None \<Rightarrow> 0 | Some fee \<Rightarrow> fee)) \<and> (\<forall>fee. fl_fee f = Some fee \<longrightarrow> 0 \<le> fee)"
proof -
  obtain tx where tx: "w_tx w = Some tx" using assms by (auto simp: BuildTransactionFlow_def split: option.splits)
  define n where "n = length (filter Not (txout_is_mine w))"
  define rs where "rs = zip [0..<length (t_vout tx)] (zip (t_vout tx) (zip (txout_is_mine w) (txout_is_change w)))"
  define grp where "grp \<longleftrightarrow> collapse \<and> length (t_vout tx) > 10 \<and> n > 1"
  obtain tot g outs where o: "outputs_loop env grp 0 0 [] False rs = Some (tot, g, outs)"
    using assms by (auto simp: BuildTransactionFlow_def tx n_def rs_def grp_def Let_def split: option.splits if_splits)
  obtain tin known es where i: "flow_inputs env w tx prevouts tot = Some (tin, known, es)"
    using assms o by (auto simp: BuildTransactionFlow_def tx n_def rs_def grp_def Let_def split: option.splits if_splits)
  have f: "fl_outputs f = filled (int n) g outs" "fl_inputs f = es" "fl_totalOutput f = tot" "fl_totalInput f = (if known then Some tin else None)"
    "fl_fee f = flow_fee env w tx known tin tot" "fl_complete f = (known \<and> (fe_IsCoinBase env tx \<or> flow_fee env w tx known tin tot \<noteq> None))"
    using assms o i by (auto simp: BuildTransactionFlow_def tx n_def rs_def grp_def Let_def filled_def split: if_splits)
  obtain p where "outputs_state tot g outs p" using outputs_loop_state [OF o] by (auto simp: outputs_state_def)
  then have a: "amounts (filled (int n) g outs) = tot" by (cases p) (simp_all add: outputs_state_def)
  note t = flow_inputs_total [OF i]
  show ?thesis unfolding f using a t by (auto simp: flow_fee_def Let_def split: if_splits)
qed


text \<open>
  Collapsing the outputs of others changes neither when there are details nor the inputs, the totals, the fee, the counts and the
  wallet's own outputs.
\<close>

theorem flow_collapse_agrees:
  "case BuildTransactionFlow env w prevouts True of
     None \<Rightarrow> BuildTransactionFlow env w prevouts False = None
   | Some f \<Rightarrow> \<exists>g. BuildTransactionFlow env w prevouts False = Some g \<and> fl_inputs f = fl_inputs g \<and> fl_totalInput f = fl_totalInput g \<and>
       fl_totalOutput f = fl_totalOutput g \<and> fl_fee f = fl_fee g \<and> fl_complete f = fl_complete g \<and> fl_outputCount f = fl_outputCount g \<and>
       amounts (fl_outputs f) = amounts (fl_outputs g) \<and>
       filter (\<lambda>e. en_ownership e = WALLET) (fl_outputs f) = filter (\<lambda>e. en_ownership e = WALLET) (fl_outputs g)"
proof (cases "w_tx w")
  case None
  then show ?thesis by (simp add: BuildTransactionFlow_def)
next
  case (Some tx)
  define n where "n = length (filter Not (txout_is_mine w))"
  define rs where "rs = zip [0..<length (t_vout tx)] (zip (t_vout tx) (zip (txout_is_mine w) (txout_is_change w)))"
  define grp where "grp \<longleftrightarrow> 10 < length (t_vout tx) \<and> Suc 0 < n"
  show ?thesis
  proof (cases "outputs_loop env grp 0 0 [] False rs")
    case None
    have "outputs_loop env False 0 0 [] False rs = None" using outputs_loop_collapse [OF refl, where env = env and grp = grp and tot = 0 and grouped = 0 and outs = "[]" and placed = False and rs = rs and ?g2.0 = 0 and ?p2.0 = False] None by simp
    then show ?thesis using Some None by (simp add: BuildTransactionFlow_def n_def [symmetric] rs_def [symmetric] grp_def [symmetric] Let_def)
  next
    case (Some r)
    obtain tot g outs where r: "outputs_loop env grp 0 0 [] False rs = Some (tot, g, outs)" using Some by (cases r) auto
    obtain g' outs' where r': "outputs_loop env False 0 0 [] False rs = Some (tot, g', outs')" "own_entries outs = own_entries outs'"
      using outputs_loop_collapse [OF refl, where env = env and grp = grp and tot = 0 and grouped = 0 and outs = "[]" and placed = False and rs = rs and ?g2.0 = 0 and ?p2.0 = False] r by auto
    have a: "amounts (filled (int n) g outs) = amounts (filled (int n) g' outs')"
      using outputs_loop_state [OF r] outputs_loop_state [OF r'(1)] by (auto simp: outputs_state_def split: if_splits)
    show ?thesis using \<open>w_tx w = Some tx\<close> r r' a
      by (auto simp: BuildTransactionFlow_def n_def [symmetric] rs_def [symmetric] grp_def [symmetric] Let_def filled_def [symmetric] own_entries_filled split: option.splits)
  qed
qed

text \<open>The details of the example payment, its input known.\<close>

definition sample_flow_env :: flow_env where
  "sample_flow_env = \<lparr>fe_tx = sample_tx_env, fe_ExtractDestination = (\<lambda>_. None), fe_script_ops = (\<lambda>_. ([], True)), fe_IsCoinBase = (\<lambda>_. False),
     fe_MaxMoney = 100, fe_VirtualSize = (\<lambda>_. 1), fe_Size = (\<lambda>_. 1), fe_Weight = (\<lambda>_. 4), fe_SignalsRbf = (\<lambda>_. False), fe_fromUtf8 = id, fe_toUtf8 = id,
     fe_toUcs4 = id, fe_isPrint = (\<lambda>_. True)\<rparr>"

theorem flow_balances_witness:
  "\<exists>f. BuildTransactionFlow sample_flow_env sample_wallet_tx [Some \<lparr>o_value = 10, o_script = []\<rparr>] False = Some f \<and> fl_fee f = Some 1 \<and>
     amounts (fl_outputs f) = 9 \<and> amounts (fl_inputs f) = 10"
proof -
  obtain f where "BuildTransactionFlow sample_flow_env sample_wallet_tx [Some \<lparr>o_value = 10, o_script = []\<rparr>] False = Some f"
    "fl_fee f = Some 1" "fl_totalOutput f = 9" "fl_complete f"
    by (simp add: BuildTransactionFlow_def sample_wallet_tx_def sample_tx_def sample_flow_env_def MoneyRange_def flow_inputs_def flow_fee_def known_prevout_def
        output_entry_def input_entry_def upt_rec Let_def)
  with flow_balances [OF this(1)] show ?thesis by auto
qed

end
