(* ===== verification/ActivityRows.thy ===== *)
theory ActivityRows
  imports TxActivity Requests ListView
begin

text \<open>
  \<open>src/qml/models/transactionactivitymodel.{h,cpp}\<close>, the rows of the activity list: what \<open>rebuildRows\<close> makes of the wallet's records and the
  receive requests, and how it brings the old rows to the new ones while announcing as little as possible. A row is a map from roles to
  values; a \<open>QVariant\<close> without a value is \<open>TNull\<close>, which is also what an absent role reads as. The list of requests is the
  model of \<open>Requests\<close>.
\<close>

section \<open>Definitions\<close>

record tx_record =
  rec_activity :: TransactionActivity
  rec_labels :: "qstring list"
  rec_status :: Status
  rec_depth :: int
  rec_maturity :: int
  rec_height :: int
  rec_known :: bool
  rec_tx :: "core_tx option"
  rec_inputs_mine :: "bool list"
  rec_outputs_mine :: "bool list"
  rec_outputs_change :: "bool list"

datatype TRole = TAddress | TAmount | TDateTime | TDepth | TLabel | TStatus | TTypeRole | TTxid | TReplaces | TReplacedBy | TTimestamp | TIsPendingRequest
  | TRequestId | TNetAmountSat | TId | TActivityType | TActionsRole | TActionCount | TWalletDebit | TWalletCredit | TFeeSat | TFeeKnown | TStatusKnown
  | TIsPending | TIsInactive | TPaymentRequests | THasPaymentRequest | TSearchText | TBlocksToMaturity | TCanBump

definition all_roles :: "TRole list" where
  "all_roles = [TAddress, TAmount, TDateTime, TDepth, TLabel, TStatus, TTypeRole, TTxid, TReplaces, TReplacedBy, TTimestamp, TIsPendingRequest,
     TRequestId, TNetAmountSat, TId, TActivityType, TActionsRole, TActionCount, TWalletDebit, TWalletCredit, TFeeSat, TFeeKnown, TStatusKnown,
     TIsPending, TIsInactive, TPaymentRequests, THasPaymentRequest, TSearchText, TBlocksToMaturity, TCanBump]"

record action_map =
  av_action :: TransactionAction
  av_label :: qstring
  av_amount :: qstring
  av_requests :: "QmlRecentRequestEntry list"

datatype tvalue = TNull | TText qstring | TInt int | TBool bool | TTime int | TKind ActivityType | TLegacy TransactionType | TState Status
  | TActions "action_map list" | TRequests "QmlRecentRequestEntry list"

type_synonym row = "TRole \<Rightarrow> tvalue option"

definition row_val :: "row \<Rightarrow> TRole \<Rightarrow> tvalue" where
  "row_val r role = (case r role of None \<Rightarrow> TNull | Some v \<Rightarrow> v)"

definition row_id :: "row \<Rightarrow> qstring" where
  "row_id r = (case row_val r TId of TText s \<Rightarrow> s | _ \<Rightarrow> [])"

definition row_is_request :: "row \<Rightarrow> bool" where
  "row_is_request r = (row_val r TIsPendingRequest = TBool True)"

fun LegacyType :: "ActivityType \<Rightarrow> TransactionType" where
  "LegacyType Send = SendToAddress"
| "LegacyType Receive = RecvWithAddress"
| "LegacyType Mined = Generated"
| "LegacyType Consolidation = SendToSelf"
| "LegacyType Split = SendToSelf"
| "LegacyType InternalTransfer = SendToSelf"
| "LegacyType _ = OtherType"

record rows_env =
  we_requests :: request_env
  we_locale :: QLocale
  we_parse_iso :: "qstring \<Rightarrow> int"

definition formatAmount :: "rows_env \<Rightarrow> int \<Rightarrow> int \<Rightarrow> bool \<Rightarrow> qstring" where
  "formatAmount env display_unit amount receive =
     (let u = fromDisplayUnit display_unit in formatForDisplay u \<bar>amount\<bar> receive (we_locale env) @ 32 # label_for u amount)"

text \<open>What the code reads of a request.\<close>

definition rq_id :: "QmlRecentRequestEntry \<Rightarrow> qstring" where "rq_id e = number (re_id e)"
definition rq_address :: "rows_env \<Rightarrow> QmlRecentRequestEntry \<Rightarrow> qstring" where "rq_address env e = fromStdString (we_requests env) (rr_address (re_recipient e))"
definition rq_label :: "rows_env \<Rightarrow> QmlRecentRequestEntry \<Rightarrow> qstring" where "rq_label env e = fromStdString (we_requests env) (rr_label (re_recipient e))"
definition rq_message :: "rows_env \<Rightarrow> QmlRecentRequestEntry \<Rightarrow> qstring" where "rq_message env e = fromStdString (we_requests env) (rr_message (re_recipient e))"
definition rq_note :: "rows_env \<Rightarrow> QmlRecentRequestEntry \<Rightarrow> qstring" where "rq_note env e = fromStdString (we_requests env) (rr_noteSelf (re_recipient e))"
definition rq_date :: "rows_env \<Rightarrow> QmlRecentRequestEntry \<Rightarrow> int" where "rq_date env e = we_parse_iso env (utc_date_text (we_requests env) (re_date e))"

text \<open>A \<open>QMap\<close>: an association list in the order of its keys.\<close>

fun qmap_insert :: "qstring \<Rightarrow> 'v \<Rightarrow> (qstring \<times> 'v) list \<Rightarrow> (qstring \<times> 'v) list" where
  "qmap_insert k v [] = [(k, v)]"
| "qmap_insert k v ((k', v') # m) = (if qless k k' then (k, v) # (k', v') # m else if k = k' then (k, v) # m else (k', v') # qmap_insert k v m)"

definition qmap_value :: "'v \<Rightarrow> (qstring \<times> 'v) list \<Rightarrow> qstring \<Rightarrow> 'v" where
  "qmap_value d m k = (case map_of m k of None \<Rightarrow> d | Some v \<Rightarrow> v)"

text \<open>\<open>requests_by_address\<close>.\<close>

definition requests_by_address :: "rows_env \<Rightarrow> RequestHistory \<Rightarrow> (qstring \<times> QmlRecentRequestEntry list) list" where
  "requests_by_address env h =
     fold (\<lambda>e m. let a = rq_address env e in if map_of m a = None then qmap_insert a (entriesForAddress h a) m else m) (rh_entries h) []"

subsection \<open>The rows\<close>

definition rec_replaced :: "tx_record \<Rightarrow> bool" where
  "rec_replaced r \<longleftrightarrow> ty_replaced_by (rec_activity r) \<noteq> [] \<and> (\<not> rec_known r \<or> rec_depth r \<le> 0)"

definition rec_inactive :: "tx_record \<Rightarrow> bool" where
  "rec_inactive r \<longleftrightarrow> rec_replaced r \<or> (rec_known r \<and> rec_status r \<in> {Conflicted, Abandoned, NotAccepted})"

definition action_matches :: "(qstring \<times> QmlRecentRequestEntry list) list \<Rightarrow> TransactionAction \<Rightarrow> QmlRecentRequestEntry list" where
  "action_matches by_addr a = (if ta_output_index a \<ge> 0 \<and> ta_direction a \<noteq> SendAction \<and> ta_amount a > 0 then qmap_value [] by_addr (ta_address a) else [])"

text \<open>The requests matched for the first time, in order.\<close>

fun add_requests :: "QmlRecentRequestEntry list \<Rightarrow> QmlRecentRequestEntry list \<Rightarrow> QmlRecentRequestEntry list" where
  "add_requests reqs [] = reqs"
| "add_requests reqs (e # es) = add_requests (if rq_id e \<in> rq_id ` set reqs then reqs else reqs @ [e]) es"

definition request_search :: "rows_env \<Rightarrow> QmlRecentRequestEntry list \<Rightarrow> qstring list" where
  "request_search env es = concat (map (\<lambda>e. [rq_label env e, rq_message env e, rq_note env e]) es)"

definition action_label_of :: "rows_env \<Rightarrow> QmlRecentRequestEntry list \<Rightarrow> TransactionAction \<Rightarrow> qstring \<Rightarrow> qstring" where
  "action_label_of env matches a label = (if matches \<noteq> [] then rq_note env (hd matches) else if ta_direction a = SendAction then label else [])"

text \<open>The loop over the actions with their labels: action maps, matched requests and search texts.\<close>

fun actions_loop :: "rows_env \<Rightarrow> int \<Rightarrow> (qstring \<times> QmlRecentRequestEntry list) list \<Rightarrow> action_map list \<Rightarrow> QmlRecentRequestEntry list \<Rightarrow> qstring list \<Rightarrow>
    (TransactionAction \<times> qstring) list \<Rightarrow> action_map list \<times> QmlRecentRequestEntry list \<times> qstring list" where
  "actions_loop env du by_addr maps reqs search [] = (maps, reqs, search)"
| "actions_loop env du by_addr maps reqs search ((a, lab) # rest) =
     (let matches = action_matches by_addr a;
          label = action_label_of env matches a lab;
          reqs' = add_requests reqs matches
      in actions_loop env du by_addr
           (maps @ [\<lparr>av_action = a, av_label = label, av_amount = formatAmount env du (ta_amount a) (ta_direction a = ReceiveAction), av_requests = matches\<rparr>])
           reqs' (search @ request_search env (drop (length reqs) reqs') @ [ta_address a, label, lab]) rest)"

definition tx_row_id :: "tx_record \<Rightarrow> qstring" where "tx_row_id r = q ''tx:'' @ ty_txid (rec_activity r)"

definition tx_row :: "rows_env \<Rightarrow> int \<Rightarrow> (qstring \<times> QmlRecentRequestEntry list) list \<Rightarrow> tx_record \<Rightarrow> row" where
  "tx_row env du by_addr r =
     (let tx = rec_activity r;
          (maps, reqs, search) = actions_loop env du by_addr [] [] [ty_txid tx] (zip (ty_actions tx) (rec_labels r));
          single = (length maps = 1);
          label = (if single then av_label (hd maps) else []);
          inactive = rec_inactive r
      in [TId \<mapsto> TText (tx_row_id r), TTxid \<mapsto> TText (ty_txid tx), TLabel \<mapsto> TText label,
          TAddress \<mapsto> TText (if single then ta_address (av_action (hd maps)) else []),
          TTimestamp \<mapsto> TInt (ty_timestamp tx), TDateTime \<mapsto> TTime (ty_timestamp tx), TNetAmountSat \<mapsto> TInt (walletImpact tx),
          TAmount \<mapsto> TText (formatAmount env du (walletImpact tx) (walletImpact tx > 0)),
          TTypeRole \<mapsto> TLegacy (LegacyType (ty_type tx)), TActivityType \<mapsto> TKind (ty_type tx), TDepth \<mapsto> TInt (rec_depth r),
          TStatus \<mapsto> TState (rec_status r), TStatusKnown \<mapsto> TBool (rec_known r), TBlocksToMaturity \<mapsto> TInt (rec_maturity r),
          TCanBump \<mapsto> TBool False, TIsInactive \<mapsto> TBool inactive, TReplaces \<mapsto> TText (ty_replaces tx), TReplacedBy \<mapsto> TText (ty_replaced_by tx),
          TIsPending \<mapsto> TBool (rec_known r \<and> \<not> inactive \<and> rec_depth r = 0), TIsPendingRequest \<mapsto> TBool False, TRequestId \<mapsto> TText [],
          TWalletDebit \<mapsto> TInt (ty_debit tx), TWalletCredit \<mapsto> TInt (ty_credit tx),
          TFeeKnown \<mapsto> TBool (ty_fee tx \<noteq> None), TFeeSat \<mapsto> (case ty_fee tx of None \<Rightarrow> TNull | Some f \<Rightarrow> TInt f),
          TActionsRole \<mapsto> TActions maps, TActionCount \<mapsto> TInt (int (length maps)),
          TPaymentRequests \<mapsto> TRequests reqs, THasPaymentRequest \<mapsto> TBool (reqs \<noteq> []),
          TSearchText \<mapsto> TText (join [10] (search @ [label]))])"

text \<open>The identifiers of the requests a record pays.\<close>

definition rec_fulfils :: "(qstring \<times> QmlRecentRequestEntry list) list \<Rightarrow> tx_record \<Rightarrow> qstring list" where
  "rec_fulfils by_addr r =
     (if rec_known r \<and> \<not> rec_inactive r
      then concat (map (\<lambda>(a, lab). map rq_id (action_matches by_addr a)) (zip (ty_actions (rec_activity r)) (rec_labels r))) else [])"

definition request_row_id :: "QmlRecentRequestEntry \<Rightarrow> qstring" where "request_row_id e = q ''request:'' @ rq_id e"

definition request_row :: "rows_env \<Rightarrow> int \<Rightarrow> QmlRecentRequestEntry \<Rightarrow> row" where
  "request_row env du e =
     (let amount = rr_amount (re_recipient e)
      in [TId \<mapsto> TText (request_row_id e), TTxid \<mapsto> TText [], TRequestId \<mapsto> TText (rq_id e), TAddress \<mapsto> TText (rq_address env e), TLabel \<mapsto> TText (rq_note env e),
          TTimestamp \<mapsto> TInt (rq_date env e), TDateTime \<mapsto> TTime (rq_date env e), TAmount \<mapsto> TText (formatAmount env du amount False), TNetAmountSat \<mapsto> TInt amount,
          TIsPendingRequest \<mapsto> TBool True, TIsPending \<mapsto> TBool True, TIsInactive \<mapsto> TBool False, TTypeRole \<mapsto> TLegacy RecvWithAddress, TActivityType \<mapsto> TKind Receive,
          TDepth \<mapsto> TInt 0, TStatus \<mapsto> TState Unconfirmed, TStatusKnown \<mapsto> TBool False, TCanBump \<mapsto> TBool False, TFeeKnown \<mapsto> TBool False,
          TBlocksToMaturity \<mapsto> TInt 0, TReplaces \<mapsto> TText [], TReplacedBy \<mapsto> TText [], TActionsRole \<mapsto> TActions [], TActionCount \<mapsto> TInt 0,
          TPaymentRequests \<mapsto> TRequests [e], THasPaymentRequest \<mapsto> TBool True,
          TSearchText \<mapsto> TText (join [10] [rq_address env e, rq_note env e, rq_label env e, rq_message env e])])"

definition target_rows :: "rows_env \<Rightarrow> int \<Rightarrow> RequestHistory \<Rightarrow> (qstring \<times> tx_record) list \<Rightarrow> (qstring \<times> row) list" where
  "target_rows env du h records =
     (let by_addr = requests_by_address env h;
          fulfilled = concat (map (rec_fulfils by_addr \<circ> snd) records);
          rows = fold (\<lambda>(k, r) m. qmap_insert (tx_row_id r) (tx_row env du by_addr r) m) records []
      in fold (\<lambda>e m. if rq_id e \<in> set fulfilled then m else qmap_insert (request_row_id e) (request_row env du e) m) (concat (map snd by_addr)) rows)"

subsection \<open>Reconciliation\<close>

text \<open>The changed range waiting to be announced: first and last row, and the roles.\<close>

type_synonym pending_change = "(nat \<times> nat \<times> TRole list) option"
type_synonym shown_row = "TRole \<Rightarrow> tvalue"

definition flush_changes :: "row list \<Rightarrow> pending_change \<Rightarrow> (TRole, shown_row) row_signal list" where
  "flush_changes rows chg = (case chg of None \<Rightarrow> [] | Some (a, b, roles) \<Rightarrow> [Rows_changed a b roles (map row_val rows)])"

definition same_row :: "row \<Rightarrow> row \<Rightarrow> bool" where
  "same_row r s \<longleftrightarrow> list_all (\<lambda>role. r role = s role) all_roles"

definition changed_roles :: "TRole list \<Rightarrow> row \<Rightarrow> row \<Rightarrow> TRole list" where
  "changed_roles roles old new =
     (let roles1 = roles @ filter (\<lambda>role. new role \<noteq> None \<and> row_val old role \<noteq> row_val new role \<and> role \<notin> set roles) all_roles
      in roles1 @ filter (\<lambda>role. old role \<noteq> None \<and> new role = None \<and> role \<notin> set roles1) all_roles)"

text \<open>The rows up to \<open>i\<close> are final (\<open>ready\<close>), \<open>old\<close> are the rows from there on, \<open>rest\<close> the new rows from there on.\<close>

function reconcile :: "row list \<Rightarrow> row list \<Rightarrow> (qstring \<times> row) list \<Rightarrow> pending_change \<Rightarrow> row list \<times> (TRole, shown_row) row_signal list" where
  "reconcile ready old rest chg =
     (case rest of
        [] \<Rightarrow> (ready, flush_changes (ready @ old) chg @ (if old \<noteq> [] then [Rows_removed (length ready) (length ready + length old - 1)] else []))
      | (key, value) # rest' \<Rightarrow>
          let gone = takeWhile (\<lambda>r. qless (row_id r) key) old; old1 = drop (length gone) old;
              sigs1 = (if gone \<noteq> [] then flush_changes (ready @ old) chg @ [Rows_removed (length ready) (length ready + length gone - 1)] else []);
              chg1 = (if gone \<noteq> [] then None else chg)
          in case old1 of
               [] \<Rightarrow>
                 (let (rows, sigs) = reconcile (ready @ map snd rest) [] [] None
                  in (rows, sigs1 @ flush_changes (ready @ old1) chg1 @
                       [Rows_inserted (length ready) (length ready + length rest - 1) (map row_val (ready @ map snd rest))] @ sigs))
             | o1 # old2 \<Rightarrow>
                 if row_id o1 \<noteq> key then
                   (let new = (key, value) # takeWhile (\<lambda>(k, v). qless k (row_id o1)) rest';
                        (rows, sigs) = reconcile (ready @ map snd new) old1 (drop (length new) rest) None
                    in (rows, sigs1 @ flush_changes (ready @ old1) chg1 @
                         [Rows_inserted (length ready) (length ready + length new - 1) (map row_val (ready @ map snd new @ old1))] @ sigs))
                 else
                   (let chg2 = (if same_row o1 value then chg1
                                else case chg1 of None \<Rightarrow> Some (length ready, length ready, changed_roles [] o1 value)
                                   | Some (a, b, roles) \<Rightarrow> Some (a, length ready, changed_roles roles o1 value));
                        (rows, sigs) = reconcile (ready @ [value]) old2 rest' chg2
                    in (rows, sigs1 @ sigs)))"
  by pat_completeness auto
termination
  by (relation "measure (\<lambda>(ready, old, rest, chg). length rest)") auto

text \<open>\<open>count\<close> is the number of rows; \<open>transactionCount\<close> and \<open>requestCount\<close> come from it and the records. The third result says whether \<open>countChanged\<close>
  is emitted.\<close>

definition source_requestCount :: "(qstring \<times> tx_record) list \<Rightarrow> row list \<Rightarrow> int" where
  "source_requestCount records rows = int (length rows) - int (length records)"

definition rebuildRows :: "rows_env \<Rightarrow> int \<Rightarrow> RequestHistory \<Rightarrow> (qstring \<times> tx_record) list \<Rightarrow> row list \<Rightarrow>
    row list \<times> (TRole, shown_row) row_signal list \<times> bool" where
  "rebuildRows env du h records rows =
     (let (rows', sigs) = reconcile [] rows (target_rows env du h records) None
      in (rows', sigs, length rows \<noteq> length rows' \<or> int (length (filter row_is_request rows)) \<noteq> source_requestCount records rows'))"

declare reconcile.simps [simp del]

section \<open>Sorted maps\<close>

definition qsorted :: "(qstring \<times> 'v) list \<Rightarrow> bool" where
  "qsorted m \<longleftrightarrow> sorted_wrt qless (map fst m)"

lemma qsorted_simps [simp]: "qsorted []" "qsorted ((k, v) # m) = ((\<forall>k'\<in>fst ` set m. qless k k') \<and> qsorted m)"
  by (auto simp: qsorted_def)

lemma qmap_keys [simp]: "fst ` set (qmap_insert k v m) = insert k (fst ` set m)"
  by (induction k v m rule: qmap_insert.induct) auto

lemma qmap_sorted [simp]: "qsorted m \<Longrightarrow> qsorted (qmap_insert k v m)"
proof (induction k v m rule: qmap_insert.induct)
  case (2 k v k' v' m)
  then show ?case using qless_total [of k k'] by (auto intro: qless_trans)
qed simp

lemma qmap_of [simp]: "qsorted m \<Longrightarrow> map_of (qmap_insert k v m) = (map_of m)(k \<mapsto> v)"
proof (induction k v m rule: qmap_insert.induct)
  case (2 k v k' v' m)
  then show ?case by (auto simp: qless_irrefl)
qed simp

lemma qsorted_distinct: "qsorted m \<Longrightarrow> distinct (map fst m)"
  using qless_irrefl by (induction m) fastforce+

lemma qmap_entries: "qsorted m \<Longrightarrow> set (qmap_insert k v m) = insert (k, v) {kv \<in> set m. fst kv \<noteq> k}"
proof (induction k v m rule: qmap_insert.induct)
  case (2 k v k' v' m)
  have "qless k k' \<Longrightarrow> kv \<in> set m \<Longrightarrow> fst kv \<noteq> k" for kv using "2.prems" by (metis image_eqI qless_irrefl qless_trans qsorted_simps(2))
  moreover have "kv \<in> set m \<Longrightarrow> fst kv \<noteq> k'" for kv using "2.prems" by (metis image_eqI qless_irrefl qsorted_simps(2))
  ultimately show ?case using 2 by (auto simp: qless_irrefl)
qed simp

section \<open>What the view shows\<close>

definition copy_roles :: "TRole list \<Rightarrow> shown_row \<Rightarrow> shown_row \<Rightarrow> shown_row" where
  "copy_roles roles old new = (\<lambda>role. if role \<in> set roles then new role else old role)"

text \<open>The view while a change waits to be announced: it has the old rows in the range, and they differ only in the noted roles.\<close>

definition lags :: "pending_change \<Rightarrow> shown_row list \<Rightarrow> row list \<Rightarrow> bool" where
  "lags chg view rows \<longleftrightarrow> length view = length rows \<and>
     (case chg of
        None \<Rightarrow> view = map row_val rows
      | Some (a, b, roles) \<Rightarrow> a \<le> b \<and> b < length rows \<and>
          (\<forall>i<length rows. if a \<le> i \<and> i \<le> b then \<forall>role. role \<notin> set roles \<longrightarrow> (view ! i) role = row_val (rows ! i) role else view ! i = row_val (rows ! i)))"

lemma flush_replay:
  assumes "lags chg view rows"
  shows "replay copy_roles (view @ map row_val old) (flush_changes (rows @ old) chg) = Some (map row_val (rows @ old))"
proof (cases chg)
  case None
  then show ?thesis using assms by (simp add: lags_def flush_changes_def)
next
  case (Some abr)
  obtain a b roles where abr: "abr = (a, b, roles)" by (cases abr) auto
  have l: "length view = length rows" "a \<le> b" "b < length rows"
    "\<And>i. i < length rows \<Longrightarrow> a \<le> i \<Longrightarrow> i \<le> b \<Longrightarrow> role \<notin> set roles \<Longrightarrow> (view ! i) role = row_val (rows ! i) role"
    "\<And>i. i < length rows \<Longrightarrow> \<not> (a \<le> i \<and> i \<le> b) \<Longrightarrow> view ! i = row_val (rows ! i)" for role
    using assms by (auto simp: lags_def Some abr split: if_splits)
  define mid where "mid xs = take (b + 1 - a) (drop a xs)" for xs :: "shown_row list"
  have parts: "xs = take a xs @ mid xs @ drop (b + 1) xs" for xs
    using l(2) by (simp add: mid_def) (metis Suc_diff_le add.commute append.assoc append_take_drop_id le_add_diff_inverse2 le_SucI take_add)
  have same: "take a view = take a (map row_val rows)" "drop (b + 1) view = drop (b + 1) (map row_val rows)"
    using l by (auto intro!: nth_equalityI)
  have len: "length (mid view) = b + 1 - a" "length (mid (map row_val rows)) = b + 1 - a" "length (take a view) = a" using l by (auto simp: mid_def)
  have upd: "map2 (copy_roles roles) (mid view) (mid (map row_val rows)) = mid (map row_val rows)"
    using l len by (intro nth_equalityI) (auto simp: mid_def copy_roles_def fun_eq_iff)
  have "mirror copy_roles (view @ map row_val old) (Rows_changed a b roles (map row_val (rows @ old))) = Some (map row_val (rows @ old))"
  proof (rule mirror_changed [where u = "take a view" and x = "mid view" and w = "drop (b + 1) view @ map row_val old" and y = "mid (map row_val rows)"])
    show "view @ map row_val old = take a view @ mid view @ drop (b + 1) view @ map row_val old" using parts [of view] by simp
    show "map row_val (rows @ old) = take a view @ mid (map row_val rows) @ drop (b + 1) view @ map row_val old"
      using parts [of "map row_val rows"] unfolding same by simp
    show "mid view \<noteq> []" using len(1) l(2) by (metis Suc_eq_plus1 Suc_diff_le list.size(3) nat.simps(3))
  qed (use len l upd in auto)
  then show ?thesis by (simp add: flush_changes_def Some abr)
qed


lemma changed_roles_cover: "role \<notin> set (changed_roles roles old new) \<Longrightarrow> row_val old role = row_val new role \<and> role \<notin> set roles"
proof -
  have all: "role \<in> set all_roles" by (cases role) (simp_all add: all_roles_def)
  assume "role \<notin> set (changed_roles roles old new)"
  then show ?thesis using all by (cases "new role"; cases "old role") (auto simp: changed_roles_def Let_def row_val_def)
qed

lemma same_row_eq: "same_row r s = (r = s)"
proof -
  have "role \<in> set all_roles" for role by (cases role) (simp_all add: all_roles_def)
  then show ?thesis by (auto simp: same_row_def list_all_iff fun_eq_iff)
qed

text \<open>Going over one row that stays.\<close>

definition note_change :: "nat \<Rightarrow> row \<Rightarrow> row \<Rightarrow> pending_change \<Rightarrow> pending_change" where
  "note_change i old new chg =
     (if same_row old new then chg
      else case chg of None \<Rightarrow> Some (i, i, changed_roles [] old new) | Some (a, b, roles) \<Rightarrow> Some (a, i, changed_roles roles old new))"

lemma lags_kept:
  assumes "lags chg view rows"
  shows "lags (note_change (length rows) old new chg) (view @ [row_val old]) (rows @ [new])"
proof (cases "same_row old new")
  case True
  then show ?thesis using assms by (auto simp: note_change_def same_row_eq lags_def nth_append split: option.splits)
next
  case False
  have cover: "(view @ [row_val old]) ! i = row_val ((rows @ [new]) ! i) \<or>
      (\<forall>role. role \<notin> set (changed_roles roles old new) \<longrightarrow> ((view @ [row_val old]) ! i) role = row_val ((rows @ [new]) ! i) role)"
    if "i < length rows \<longrightarrow> view ! i = row_val (rows ! i) \<or> (\<forall>role. role \<notin> set roles \<longrightarrow> (view ! i) role = row_val (rows ! i) role)" "i \<le> length rows" "length view = length rows" for i roles
    using that changed_roles_cover [of _ roles old new] by (auto simp: nth_append)
  show ?thesis
  proof (cases chg)
    case None
    then have v: "view = map row_val rows" using assms by (simp add: lags_def)
    show ?thesis using False None changed_roles_cover [of _ "[]" old new] by (auto simp: note_change_def lags_def v nth_append less_Suc_eq)
  next
    case (Some abr)
    obtain a b roles where abr: "abr = (a, b, roles)" by (cases abr) auto
    have l: "length view = length rows" "a \<le> b" "b < length rows"
      "\<And>i. i < length rows \<Longrightarrow> if a \<le> i \<and> i \<le> b then \<forall>role. role \<notin> set roles \<longrightarrow> (view ! i) role = row_val (rows ! i) role else view ! i = row_val (rows ! i)"
      using assms by (auto simp: lags_def Some abr)
    have "if a \<le> i \<and> i \<le> length rows then \<forall>role. role \<notin> set (changed_roles roles old new) \<longrightarrow> ((view @ [row_val old]) ! i) role = row_val ((rows @ [new]) ! i) role
        else (view @ [row_val old]) ! i = row_val ((rows @ [new]) ! i)" if "i < length (rows @ [new])" for i
      using l(1,2,3) l(4) [of i] that cover [of i roles] by (cases "i < length rows") (auto simp: nth_append split: if_splits)
    then show ?thesis using False Some abr l by (simp add: note_change_def lags_def)
  qed
qed

lemma lags_None: "lags None (map row_val rows) rows"
  by (simp add: lags_def)

lemma takeWhile_drop_hd: "drop (length (takeWhile P xs)) xs = y # ys \<Longrightarrow> \<not> P y"
  by (induction xs) (auto split: if_splits)

lemma sorted_takeWhile_drop: "sorted_wrt R xs \<Longrightarrow> sorted_wrt R (drop n xs)"
  by (induction xs arbitrary: n) (auto simp: drop_Cons split: nat.split)

text \<open>One step of the removal before a new row.\<close>

lemma removal_replay:
  assumes "lags chg view ready" "gone = takeWhile P old"
  shows "\<exists>view'. lags (if gone \<noteq> [] then None else chg) view' ready \<and>
    replay copy_roles (view @ map row_val old) (if gone \<noteq> [] then flush_changes (ready @ old) chg @ [Rows_removed (length ready) (length ready + length gone - 1)] else []) =
      Some (view' @ map row_val (drop (length gone) old))"
proof (cases "gone = []")
  case True
  then show ?thesis using assms(1) by auto
next
  case False
  have o: "old = gone @ drop (length gone) old" using assms(2) by (metis takeWhile_eq_take append_take_drop_id)
  have "mirror copy_roles (map row_val (ready @ old)) (Rows_removed (length ready) (length ready + length gone - 1)) = Some (map row_val ready @ map row_val (drop (length gone) old))"
    by (rule mirror_removed [where x = "map row_val gone"]) (use False o in \<open>auto simp flip: map_append\<close>)
  then show ?thesis using False flush_replay [OF assms(1), of old] lags_None [of ready] by (auto simp: replay_append simp del: mirror.simps)
qed


section \<open>The rows after a rebuild\<close>

lemma lags_change: "lags chg view ready \<Longrightarrow> lags (note_change (length ready) o1 value chg) (view @ [row_val o1]) (ready @ [value])"
  by (rule lags_kept)

lemma reconcile_Nil: "reconcile ready old [] chg = (ready, flush_changes (ready @ old) chg @ (if old \<noteq> [] then [Rows_removed (length ready) (length ready + length old - 1)] else []))"
  by (simp add: reconcile.simps)

lemma reconcile_spec:
  assumes "lags chg view ready" "sorted_wrt qless (map row_id old)" "qsorted rest" "\<forall>kv\<in>set rest. row_id (snd kv) = fst kv"
  shows "fst (reconcile ready old rest chg) = ready @ map snd rest \<and>
    replay copy_roles (view @ map row_val old) (snd (reconcile ready old rest chg)) = Some (map row_val (ready @ map snd rest))"
  using assms
proof (induction "length rest" arbitrary: ready old rest chg view rule: less_induct)
  case less
  show ?case
  proof (cases rest)
    case Nil
    have "mirror copy_roles (map row_val (ready @ old)) (Rows_removed (length ready) (length ready + length old - 1)) = Some (map row_val ready)" if "old \<noteq> []"
      using mirror_removed [of "map row_val (ready @ old)" "map row_val ready" "map row_val old" "[]"] that by simp
    then show ?thesis using flush_replay [OF less.prems(1), of old]
      by (auto simp: Nil reconcile_Nil replay_append simp del: mirror.simps)
  next
    case (Cons kv rest')
    obtain key "value" where kv: "kv = (key, value)" by (cases kv)
    define gone where "gone = takeWhile (\<lambda>r. qless (row_id r) key) old"
    define old1 where "old1 = drop (length gone) old"
    define sigs1 where "sigs1 = (if gone \<noteq> [] then flush_changes (ready @ old) chg @ [Rows_removed (length ready) (length ready + length gone - 1)] else [])"
    define chg1 where "chg1 = (if gone \<noteq> [] then None else chg)"
    obtain view1 where v1: "lags chg1 view1 ready" "replay copy_roles (view @ map row_val old) sigs1 = Some (view1 @ map row_val old1)"
      using removal_replay [OF less.prems(1) gone_def] unfolding chg1_def sigs1_def old1_def by blast
    have s1: "sorted_wrt qless (map row_id old1)" unfolding old1_def drop_map [symmetric] using less.prems(2) by (rule sorted_takeWhile_drop)
    have fl: "replay copy_roles (view1 @ map row_val old1) (flush_changes (ready @ old1) chg1) = Some (map row_val (ready @ old1))"
      by (rule flush_replay [OF v1(1)])
    have step: "reconcile ready old rest chg =
        (case old1 of
           [] \<Rightarrow> (let (rows, sigs) = reconcile (ready @ map snd rest) [] [] None
                 in (rows, sigs1 @ flush_changes (ready @ old1) chg1 @
                       [Rows_inserted (length ready) (length ready + length rest - 1) (map row_val (ready @ map snd rest))] @ sigs))
         | o1 # old2 \<Rightarrow>
             if row_id o1 \<noteq> key then
               (let new = (key, value) # takeWhile (\<lambda>(k, v). qless k (row_id o1)) rest';
                    (rows, sigs) = reconcile (ready @ map snd new) old1 (drop (length new) rest) None
                in (rows, sigs1 @ flush_changes (ready @ old1) chg1 @
                      [Rows_inserted (length ready) (length ready + length new - 1) (map row_val (ready @ map snd new @ old1))] @ sigs))
             else (let (rows, sigs) = reconcile (ready @ [value]) old2 rest' (note_change (length ready) o1 value chg1) in (rows, sigs1 @ sigs)))"
      by (subst reconcile.simps) (simp only: Cons kv list.case prod.case Let_def gone_def old1_def sigs1_def chg1_def note_change_def)
    show ?thesis
    proof (cases old1)
      case Nil
      have "mirror copy_roles (map row_val ready) (Rows_inserted (length ready) (length ready + length rest - 1) (map row_val (ready @ map snd rest))) = Some (map row_val (ready @ map snd rest))"
        by (rule mirror_inserted [where w = "[]" and u = "map row_val ready" and x = "map row_val (map snd rest)"]) (simp_all add: Cons)
      then show ?thesis using v1(2) fl unfolding step by (simp add: Nil reconcile_Nil flush_changes_def replay_append del: mirror.simps)
    next
      case o: (Cons o1 old2)
      then have nless: "\<not> qless (row_id o1) key" unfolding old1_def gone_def by (rule takeWhile_drop_hd)
      show ?thesis
      proof (cases "row_id o1 = key")
        case True
        have "lags (note_change (length ready) o1 value chg1) (view1 @ [row_val o1]) (ready @ [value])" by (rule lags_kept [OF v1(1)])
        from less.hyps [OF _ this, of rest' old2]
        show ?thesis unfolding step using True less.prems(3,4) s1 v1(2) by (simp add: o Cons kv replay_append split_beta)
      next
        case False
        then have lt: "qless key (row_id o1)" using nless qless_total by metis
        define new where "new = (key, value) # takeWhile (\<lambda>(k, v). qless k (row_id o1)) rest'"
        have new: "new = takeWhile (\<lambda>(k, v). qless k (row_id o1)) rest" using lt by (simp add: new_def Cons kv)
        then have rest: "rest = new @ drop (length new) rest" by (metis takeWhile_eq_take append_take_drop_id)
        have "length (drop (length new) rest) < length rest" by (simp add: new_def Cons)
        moreover have "qsorted (drop (length new) rest)"
          using less.prems(3) unfolding qsorted_def drop_map [symmetric] by (rule sorted_takeWhile_drop)
        moreover have "\<forall>kv\<in>set (drop (length new) rest). row_id (snd kv) = fst kv" using less.prems(4) by (meson in_set_dropD)
        ultimately have ih: "fst (reconcile (ready @ map snd new) old1 (drop (length new) rest) None) = (ready @ map snd new) @ map snd (drop (length new) rest) \<and>
            replay copy_roles (map row_val (ready @ map snd new) @ map row_val old1) (snd (reconcile (ready @ map snd new) old1 (drop (length new) rest) None)) =
              Some (map row_val ((ready @ map snd new) @ map snd (drop (length new) rest)))"
          using less.hyps [OF _ lags_None s1] by blast
        have all: "(ready @ map snd new) @ map snd (drop (length new) rest) = ready @ map snd rest"
          using rest by (metis append.assoc map_append)
        have "mirror copy_roles (map row_val (ready @ old1)) (Rows_inserted (length ready) (length ready + length new - 1) (map row_val (ready @ map snd new @ old1))) =
            Some (map row_val (ready @ map snd new @ old1))"
          by (rule mirror_inserted [where w = "map row_val old1" and u = "map row_val ready" and x = "map row_val (map snd new)"]) (simp_all add: new_def)
        then show ?thesis using ih fl v1(2) False unfolding step all
          by (simp add: o Let_def new_def [symmetric] replay_append split_beta del: mirror.simps)
      qed
    qed
  qed
qed


section \<open>The new rows\<close>

lemma fold_insert:
  assumes "qsorted m"
  shows "qsorted (fold (\<lambda>x m. if P x then m else qmap_insert (g x) (f x) m) xs m)"
  using assms by (induction xs arbitrary: m) auto

lemma fold_insert_of:
  assumes "qsorted m" "\<And>x y. x \<in> set xs \<Longrightarrow> y \<in> set xs \<Longrightarrow> g x = g y \<Longrightarrow> f x = f y"
  shows "map_of (fold (\<lambda>x m. if P x then m else qmap_insert (g x) (f x) m) xs m) k =
    (case find (\<lambda>x. \<not> P x \<and> g x = k) xs of Some x \<Rightarrow> Some (f x) | None \<Rightarrow> map_of m k)"
  using assms
proof (induction xs arbitrary: m)
  case (Cons x xs)
  have "f y = f x" if "find (\<lambda>x. \<not> P x \<and> g x = k) xs = Some y" "g x = k" for y
    using that Cons.prems(2) by (auto simp: find_Some_iff)
  then show ?case using Cons.IH [of "if P x then m else qmap_insert (g x) (f x) m"] Cons.prems by (auto split: option.splits)
qed simp

lemma qmap_mem: "qsorted m \<Longrightarrow> ((k, v) \<in> set m) = (map_of m k = Some v)"
  by (metis map_of_eq_Some_iff qsorted_distinct)

lemma fold_insert_mem:
  assumes "qsorted m" "\<And>x y. x \<in> set xs \<Longrightarrow> y \<in> set xs \<Longrightarrow> g x = g y \<Longrightarrow> f x = f y" "\<And>x. x \<in> set xs \<Longrightarrow> map_of m (g x) = None"
  shows "((k, v) \<in> set (fold (\<lambda>x m. if P x then m else qmap_insert (g x) (f x) m) xs m)) = ((k, v) \<in> set m \<or> (\<exists>x\<in>set xs. \<not> P x \<and> k = g x \<and> v = f x))"
proof -
  have eq: "map_of (fold (\<lambda>x m. if P x then m else qmap_insert (g x) (f x) m) xs m) k = (case find (\<lambda>x. \<not> P x \<and> g x = k) xs of Some x \<Rightarrow> Some (f x) | None \<Rightarrow> map_of m k)"
    by (rule fold_insert_of) (use assms(1,2) in blast)+
  show ?thesis
  proof (cases "find (\<lambda>x. \<not> P x \<and> g x = k) xs")
    case None
    then have "\<forall>x\<in>set xs. P x \<or> g x \<noteq> k" by (auto simp: find_None_iff)
    with None show ?thesis unfolding qmap_mem [OF fold_insert [OF assms(1)]] qmap_mem [OF assms(1)] eq by auto
  next
    case (Some x)
    then have x: "x \<in> set xs" "\<not> P x" "k = g x" by (auto simp: find_Some_iff)
    then have "(\<exists>x\<in>set xs. \<not> P x \<and> k = g x \<and> v = f x) = (v = f x)" using assms(2) by blast
    with Some x assms(3) show ?thesis unfolding qmap_mem [OF fold_insert [OF assms(1)]] qmap_mem [OF assms(1)] eq by auto
  qed
qed

lemma number_eq: "(number i = number j) = (i = j)"
proof -
  have *: "hd (number_nat n) \<noteq> 45" for n
    using number_nat_digits [of n] number_nat_not_Nil [of n] by (cases "number_nat n") auto
  have nat: "number_nat m = number_nat n \<Longrightarrow> m = n" for m n by (metis number_nat_value)
  have head: "number_nat m \<noteq> 45 # s" for m s using * [of m] by auto
  then have "number i = number j \<Longrightarrow> i = j"
    using nat [of "nat (- i)" "nat (- j)"] nat [of "nat i" "nat j"] by (auto simp: number_def split: if_splits) metis
  then show ?thesis by auto
qed


lemma tx_row_id [simp]: "row_id (tx_row env du m r) = tx_row_id r"
  by (simp add: row_id_def row_val_def tx_row_def Let_def split_beta)

lemma tx_row_kind [simp]: "\<not> row_is_request (tx_row env du m r)"
  by (simp add: row_is_request_def row_val_def tx_row_def Let_def split_beta)

lemma request_row_id [simp]: "row_id (request_row env du e) = request_row_id e"
  by (simp add: row_id_def row_val_def request_row_def Let_def)

lemma request_row_kind [simp]: "row_is_request (request_row env du e)"
  by (simp add: row_is_request_def row_val_def request_row_def Let_def)

lemma row_ids_differ: "tx_row_id r \<noteq> request_row_id e"
  by (simp add: tx_row_id_def request_row_id_def q_def)

text \<open>The rows of the transactions alone, before the requests.\<close>

definition tx_rows :: "rows_env \<Rightarrow> int \<Rightarrow> (qstring \<times> QmlRecentRequestEntry list) list \<Rightarrow> (qstring \<times> tx_record) list \<Rightarrow> (qstring \<times> row) list" where
  "tx_rows env du by_addr records = fold (\<lambda>kr m. if False then m else qmap_insert (tx_row_id (snd kr)) (tx_row env du by_addr (snd kr)) m) records []"

definition is_fulfilled :: "(qstring \<times> QmlRecentRequestEntry list) list \<Rightarrow> (qstring \<times> tx_record) list \<Rightarrow> QmlRecentRequestEntry \<Rightarrow> bool" where
  "is_fulfilled by_addr records e \<longleftrightarrow> (\<exists>kr\<in>set records. rq_id e \<in> set (rec_fulfils by_addr (snd kr)))"

lemma target_rows_split:
  "target_rows env du h records =
     fold (\<lambda>e m. if is_fulfilled (requests_by_address env h) records e then m else qmap_insert (request_row_id e) (request_row env du e) m)
       (concat (map snd (requests_by_address env h))) (tx_rows env du (requests_by_address env h) records)"
  by (simp add: target_rows_def tx_rows_def Let_def case_prod_unfold is_fulfilled_def)

lemma target_sorted: "qsorted (target_rows env du h records)"
  unfolding target_rows_split by (intro fold_insert) (unfold tx_rows_def, intro fold_insert, simp)

lemma by_address_fold:
  assumes "qsorted m" "\<And>a. map_of m a = None \<or> map_of m a = Some (F a)"
  shows "let m' = fold (\<lambda>e m. let a = G e in if map_of m a = None then qmap_insert a (F a) m else m) es m
    in qsorted m' \<and> (\<forall>a. map_of m' a = (if a \<in> G ` set es \<or> map_of m a \<noteq> None then Some (F a) else None))"
  using assms
proof (induction es arbitrary: m)
  case Nil
  then show ?case by (auto simp: Let_def) (metis option.distinct(1) option.inject)
next
  case (Cons e es)
  let ?m = "if map_of m (G e) = None then qmap_insert (G e) (F (G e)) m else m"
  have "qsorted ?m" "\<And>a. map_of ?m a = None \<or> map_of ?m a = Some (F a)" using Cons.prems by auto
  from Cons.IH [OF this] show ?case using Cons.prems by (auto simp: Let_def)
qed

lemma requests_by_address_spec:
  "qsorted (requests_by_address env h)"
  "map_of (requests_by_address env h) a = (if a \<in> rq_address env ` set (rh_entries h) then Some (entriesForAddress h a) else None)"
  using by_address_fold [of "[]" "entriesForAddress h" "rq_address env" "rh_entries h"] by (simp_all add: requests_by_address_def Let_def)


text \<open>The records as the model keeps them: a map by transaction identifier, with one label for each action.\<close>

definition records_ok :: "(qstring \<times> tx_record) list \<Rightarrow> bool" where
  "records_ok records \<longleftrightarrow> qsorted records \<and> (\<forall>(k, r)\<in>set records. ty_txid (rec_activity r) = k \<and> length (rec_labels r) = length (ty_actions (rec_activity r)))"

text \<open>A record pays a request: the transaction is known to be active and one of its outputs pays the wallet at the address.\<close>

definition pays :: "rows_env \<Rightarrow> tx_record \<Rightarrow> QmlRecentRequestEntry \<Rightarrow> bool" where
  "pays env r e \<longleftrightarrow> rec_known r \<and> \<not> rec_inactive r \<and>
     (\<exists>a\<in>set (ty_actions (rec_activity r)). ta_output_index a \<ge> 0 \<and> ta_direction a \<noteq> SendAction \<and> ta_amount a > 0 \<and> ta_address a = rq_address env e)"

lemma action_matches_spec:
  assumes "indexed (we_requests env) h"
  shows "set (action_matches (requests_by_address env h) a) =
    {e \<in> set (rh_entries h). ta_output_index a \<ge> 0 \<and> ta_direction a \<noteq> SendAction \<and> ta_amount a > 0 \<and> ta_address a = rq_address env e \<and> rq_address env e \<noteq> []}"
proof (cases "ta_address a = []")
  case True
  then show ?thesis by (auto simp: action_matches_def qmap_value_def requests_by_address_spec entriesForAddress_def)
next
  case False
  then show ?thesis using indexed_entriesForAddress [OF assms False]
    by (auto simp: action_matches_def qmap_value_def requests_by_address_spec entry_address_def rq_address_def)
qed

lemma mem_concat_snd: "e \<in> set (concat (map snd m)) \<longleftrightarrow> (\<exists>a es. (a, es) \<in> set m \<and> e \<in> set es)"
  by (simp add: Bex_def split_paired_Ex)

lemma requests_listed:
  assumes "indexed (we_requests env) h"
  shows "set (concat (map snd (requests_by_address env h))) = {e \<in> set (rh_entries h). rq_address env e \<noteq> []}"
proof -
  have entries: "e \<in> set (entriesForAddress h a) \<longleftrightarrow> a \<noteq> [] \<and> e \<in> set (rh_entries h) \<and> rq_address env e = a" for e a
    using indexed_entriesForAddress [OF assms, of a] by (cases "a = []") (auto simp: entriesForAddress_def entry_address_def rq_address_def)
  have rows: "(a, es) \<in> set (requests_by_address env h) \<longleftrightarrow> a \<in> rq_address env ` set (rh_entries h) \<and> es = entriesForAddress h a" for a es
    unfolding qmap_mem [OF requests_by_address_spec(1)] requests_by_address_spec(2) by (simp add: eq_commute)
  have "e \<in> set (concat (map snd (requests_by_address env h))) \<longleftrightarrow> e \<in> set (rh_entries h) \<and> rq_address env e \<noteq> []" for e
    unfolding mem_concat_snd rows by (auto simp: entries)
  then show ?thesis by (intro set_eqI) (simp only: mem_Collect_eq)
qed

lemma fulfilled_spec:
  assumes "indexed (we_requests env) h" "records_ok records" "e \<in> set (rh_entries h)" "rq_address env e \<noteq> []"
  shows "is_fulfilled (requests_by_address env h) records e \<longleftrightarrow> (\<exists>kr\<in>set records. pays env (snd kr) e)"
proof -
  have id: "rq_id e' = rq_id e \<Longrightarrow> e' \<in> set (rh_entries h) \<Longrightarrow> e' = e" for e'
    using inj_onD [of re_id "set (rh_entries h)" e' e] assms(1,3) by (simp add: rq_id_def number_eq indexed_def distinct_map)
  have "rq_id e \<in> set (rec_fulfils (requests_by_address env h) r) \<longleftrightarrow> pays env r e" if "length (rec_labels r) = length (ty_actions (rec_activity r))" for r
  proof -
    have acts: "set (ty_actions (rec_activity r)) = fst ` set (zip (ty_actions (rec_activity r)) (rec_labels r))" using that by (metis map_fst_zip list.set_map)
    have "rq_id e \<in> rq_id ` set (action_matches (requests_by_address env h) a) \<longleftrightarrow> e \<in> set (action_matches (requests_by_address env h) a)" for a
      using id unfolding action_matches_spec [OF assms(1)] by fastforce
    then have "rq_id e \<in> rq_id ` set (action_matches (requests_by_address env h) a) \<longleftrightarrow>
        ta_output_index a \<ge> 0 \<and> ta_direction a \<noteq> SendAction \<and> ta_amount a > 0 \<and> ta_address a = rq_address env e" for a
      using assms(3,4) unfolding action_matches_spec [OF assms(1)] by blast
    moreover have "rq_id e \<in> set (concat (map (\<lambda>(a, lab). map rq_id (action_matches (requests_by_address env h) a)) (zip (ty_actions (rec_activity r)) (rec_labels r)))) \<longleftrightarrow>
        (\<exists>a\<in>set (ty_actions (rec_activity r)). rq_id e \<in> rq_id ` set (action_matches (requests_by_address env h) a))"
      unfolding acts by (simp add: case_prod_unfold)
    ultimately show ?thesis by (simp add: rec_fulfils_def pays_def)
  qed
  moreover have "length (rec_labels (snd kr)) = length (ty_actions (rec_activity (snd kr)))" if "kr \<in> set records" for kr
    using assms(2) that by (auto simp: records_ok_def case_prod_unfold)
  ultimately show ?thesis unfolding is_fulfilled_def by blast
qed

lemma tx_rows_spec:
  assumes "records_ok records"
  shows "qsorted (tx_rows env du m records)" "set (tx_rows env du m records) = (\<lambda>kr. (tx_row_id (snd kr), tx_row env du m (snd kr))) ` set records"
proof -
  show "qsorted (tx_rows env du m records)" unfolding tx_rows_def by (rule fold_insert) simp
  have inj: "snd x = snd y" if "x \<in> set records" "y \<in> set records" "tx_row_id (snd x) = tx_row_id (snd y)" for x y
  proof -
    have "fst x = fst y" using that assms by (auto simp: records_ok_def tx_row_id_def case_prod_unfold)
    then show ?thesis using that assms unfolding records_ok_def by (metis prod.collapse qmap_mem option.inject)
  qed
  have "(k, v) \<in> set (tx_rows env du m records) \<longleftrightarrow> (k, v) \<in> set [] \<or> (\<exists>x\<in>set records. \<not> False \<and> k = tx_row_id (snd x) \<and> v = tx_row env du m (snd x))" for k v
    unfolding tx_rows_def by (rule fold_insert_mem) (simp_all, metis inj)
  then show "set (tx_rows env du m records) = (\<lambda>kr. (tx_row_id (snd kr), tx_row env du m (snd kr))) ` set records" by auto
qed

lemma target_rows_spec:
  assumes "indexed (we_requests env) h" "records_ok records"
  shows "set (target_rows env du h records) = (\<lambda>kr. (tx_row_id (snd kr), tx_row env du (requests_by_address env h) (snd kr))) ` set records \<union>
    (\<lambda>e. (request_row_id e, request_row env du e)) ` {e \<in> set (rh_entries h). rq_address env e \<noteq> [] \<and> \<not> (\<exists>kr\<in>set records. pays env (snd kr) e)}"
proof -
  let ?m = "requests_by_address env h" let ?es = "concat (map snd (requests_by_address env h))"
  have inj: "request_row env du x = request_row env du y" if "x \<in> set ?es" "y \<in> set ?es" "request_row_id x = request_row_id y" for x y
  proof -
    have "x \<in> set (rh_entries h)" "y \<in> set (rh_entries h)" using that requests_listed [OF assms(1)] by blast+
    then have "x = y" using inj_onD [of re_id "set (rh_entries h)" x y] that(3) assms(1) by (simp add: request_row_id_def rq_id_def number_eq indexed_def distinct_map)
    then show ?thesis by simp
  qed
  have new: "map_of (tx_rows env du ?m records) (request_row_id e) = None" for e
    unfolding map_of_eq_None_iff tx_rows_spec(2) [OF assms(2)] image_image fst_conv using row_ids_differ [of _ e] by (metis image_iff)
  have mem: "(k, v) \<in> set (target_rows env du h records) \<longleftrightarrow> (k, v) \<in> set (tx_rows env du ?m records) \<or>
      (\<exists>e\<in>set ?es. \<not> is_fulfilled ?m records e \<and> k = request_row_id e \<and> v = request_row env du e)" for k v
    unfolding target_rows_split by (rule fold_insert_mem) (rule tx_rows_spec(1) [OF assms(2)], fact inj, rule new)
  then have "set (target_rows env du h records) = set (tx_rows env du ?m records) \<union>
      (\<lambda>e. (request_row_id e, request_row env du e)) ` {e \<in> set ?es. \<not> is_fulfilled ?m records e}"
    by (intro set_eqI) (simp only: split_paired_all Un_iff image_iff Bex_def mem_Collect_eq prod.inject conj_assoc)
  moreover have "{e \<in> set ?es. \<not> is_fulfilled ?m records e} = {e \<in> set (rh_entries h). rq_address env e \<noteq> [] \<and> \<not> (\<exists>kr\<in>set records. pays env (snd kr) e)}"
    unfolding requests_listed [OF assms(1)] using fulfilled_spec [OF assms] by (intro Collect_cong) auto
  ultimately show ?thesis by (simp only: tx_rows_spec(2) [OF assms(2)])
qed


lemma reconcile_same: "\<forall>kv\<in>set rest. row_id (snd kv) = fst kv \<Longrightarrow> reconcile ready (map snd rest) rest None = (ready @ map snd rest, [])"
proof (induction rest arbitrary: ready)
  case Nil
  then show ?case by (simp add: reconcile_Nil flush_changes_def)
next
  case (Cons kv rest)
  then show ?case by (subst reconcile.simps) (simp add: case_prod_unfold qless_irrefl same_row_eq Let_def)
qed

lemma fold_insert_ids:
  assumes "\<forall>x. row_id (f x) = g x"
  shows "qsorted m \<Longrightarrow> \<forall>kv\<in>set m. row_id (snd kv) = fst kv \<Longrightarrow>
    \<forall>kv\<in>set (fold (\<lambda>x m. if P x then m else qmap_insert (g x) (f x) m) xs m). row_id (snd kv) = fst kv"
proof (induction xs arbitrary: m)
  case (Cons x xs)
  have "qsorted (if P x then m else qmap_insert (g x) (f x) m)" using Cons.prems(1) by simp
  moreover have "\<forall>kv\<in>set (if P x then m else qmap_insert (g x) (f x) m). row_id (snd kv) = fst kv"
    using Cons.prems assms by (simp add: qmap_entries)
  ultimately show ?case unfolding fold_simps by (rule Cons.IH)
qed simp

lemma target_row_ids: "\<forall>kv\<in>set (target_rows env du h records). row_id (snd kv) = fst kv"
  unfolding target_rows_split tx_rows_def by (intro fold_insert_ids fold_insert allI) simp_all

lemma target_ids: "map row_id (map snd (target_rows env du h records)) = map fst (target_rows env du h records)"
  using target_row_ids by simp

text \<open>Counting the rows of both kinds.\<close>

lemma target_counts:
  assumes "indexed (we_requests env) h" "records_ok records"
  shows "length (filter (\<lambda>r. \<not> row_is_request r) (map snd (target_rows env du h records))) = length records"
proof -
  let ?t = "target_rows env du h records" and ?f = "\<lambda>kr. (tx_row_id (snd kr), tx_row env du (requests_by_address env h) (snd kr))"
  have d: "distinct ?t" using qsorted_distinct [OF target_sorted] by (simp add: distinct_map)
  have "{kv \<in> set ?t. \<not> row_is_request (snd kv)} = ?f ` set records" unfolding target_rows_spec [OF assms] by auto
  moreover have "length (filter (\<lambda>kv. \<not> row_is_request (snd kv)) ?t) = card {kv \<in> set ?t. \<not> row_is_request (snd kv)}"
    using distinct_card [OF distinct_filter [OF d]] by (metis set_filter)
  moreover have "inj_on ?f (set records)"
  proof (rule inj_onI)
    fix x y assume xy: "x \<in> set records" "y \<in> set records" "?f x = ?f y"
    then have "fst x = fst y" using assms(2) by (auto simp: records_ok_def tx_row_id_def case_prod_unfold)
    moreover have "distinct (map fst records)" using assms(2) by (simp add: records_ok_def qsorted_distinct)
    ultimately show "x = y" using xy(1,2) by (metis distinct_map inj_onD)
  qed
  moreover have "distinct records" using assms(2) using qsorted_distinct by (auto simp: records_ok_def distinct_map)
  ultimately show ?thesis by (simp add: filter_map comp_def card_image distinct_card)
qed

lemma filter_parts: "length (filter P xs) + length (filter (\<lambda>x. \<not> P x) xs) = length xs"
  by (induction xs) auto


section \<open>Properties\<close>

definition sample_rows_env :: rows_env where
  "sample_rows_env = \<lparr>we_requests = sample_request_env, we_locale = c_locale, we_parse_iso = (\<lambda>s. int (length s))\<rparr>"

text \<open>A history with two requests, for the addresses \<open>bc\<close> and \<open>de\<close>, and a transaction that pays the first one.\<close>

definition sample_history :: RequestHistory where
  "sample_history = setEntries sample_request_env
     [sample_entry 7 20, (sample_entry 8 10)\<lparr>re_recipient := (re_recipient (sample_entry 8 10))\<lparr>rr_address := [100, 101]\<rparr>\<rparr>] new_RequestHistory"

definition sample_pay_record :: tx_record where
  "sample_pay_record = \<lparr>rec_activity = \<lparr>ty_txid = [97], ty_type = Receive, ty_timestamp = 5, ty_debit = 0, ty_credit = 5, ty_fee = None,
       ty_replaces = [], ty_replaced_by = [],
       ty_actions = [\<lparr>ta_id = [97, 48], ta_direction = ReceiveAction, ta_source = Output, ta_amount = 5, ta_address = [98, 99], ta_output_index = 0, ta_inputs = []\<rparr>]\<rparr>,
     rec_labels = [[]], rec_status = Unconfirmed, rec_depth = 0, rec_maturity = 0, rec_height = 0, rec_known = True, rec_tx = None,
     rec_inputs_mine = [], rec_outputs_mine = [], rec_outputs_change = []\<rparr>"

text \<open>
  C13: rebuilding the activity list is right for the model and for its views. Starting from rows in the order of their identifiers, the new
  rows are exactly the wanted ones in that order; a view that only follows the announced removals, insertions and changes, and reads nothing
  but the named roles, shows every role of every new row; the number of open requests the model reports is the number of request rows; the
  counts are announced exactly if one of them changed; and rebuilding once more announces nothing.
\<close>

theorem rebuild_rows:
  assumes "sorted_wrt qless (map row_id rows)" "records_ok records" "indexed (we_requests env) h"
    and "rebuildRows env du h records rows = (rows', sigs, counts)"
  shows "rows' = map snd (target_rows env du h records) \<and> sorted_wrt qless (map row_id rows') \<and>
    replay copy_roles (map row_val rows) sigs = Some (map row_val rows') \<and>
    source_requestCount records rows' = int (length (filter row_is_request rows')) \<and>
    counts = (length rows \<noteq> length rows' \<or> length (filter row_is_request rows) \<noteq> length (filter row_is_request rows')) \<and>
    rebuildRows env du h records rows' = (rows', [], False)"
proof -
  let ?t = "target_rows env du h records"
  have spec: "fst (reconcile [] rows ?t None) = map snd ?t" "replay copy_roles (map row_val rows) (snd (reconcile [] rows ?t None)) = Some (map row_val (map snd ?t))"
    using reconcile_spec [OF _ assms(1) target_sorted target_row_ids, of None "[]" "[]" env du h records] by (simp_all add: lags_def)
  obtain sigs0 where eq: "reconcile [] rows ?t None = (map snd ?t, sigs0)" using spec(1) by (metis prod.collapse)
  have rows': "rows' = map snd ?t" and sigs: "sigs = sigs0"
    and counts: "counts = (length rows \<noteq> length rows' \<or> int (length (filter row_is_request rows)) \<noteq> source_requestCount records rows')"
    using assms(4) by (simp_all add: rebuildRows_def eq) auto
  have n: "source_requestCount records rows' = int (length (filter row_is_request rows'))"
    using target_counts [OF assms(3,2), of du] filter_parts [of row_is_request rows'] by (simp add: source_requestCount_def rows')
  moreover have "sorted_wrt qless (map row_id rows')" using target_sorted [of env du h records] by (simp only: rows' target_ids qsorted_def)
  moreover have "rebuildRows env du h records rows' = (rows', [], False)"
    using reconcile_same [OF target_row_ids, of "[]"] n by (simp add: rebuildRows_def rows')
  ultimately show ?thesis using spec(2) by (simp add: eq rows' sigs counts)
qed

text \<open>
  C23: what the activity list shows. There is one row for every transaction of the wallet, whatever its state, and one for every receive request
  with an address that no transaction pays: a transaction pays a request only while it is known to be active (neither replaced nor
  conflicted, abandoned or rejected) and one of its outputs with a positive amount comes to the wallet at the address of the request. Nothing else
  is shown, and no row twice.
\<close>

theorem activity_rows_shown:
  assumes "records_ok records" "indexed (we_requests env) h" "sorted_wrt qless (map row_id rows)"
    and "rebuildRows env du h records rows = (rows', sigs, counts)"
  shows "set rows' = (\<lambda>kr. tx_row env du (requests_by_address env h) (snd kr)) ` set records \<union>
      request_row env du ` {e \<in> set (rh_entries h). rq_address env e \<noteq> [] \<and> \<not> (\<exists>kr\<in>set records. pays env (snd kr) e)} \<and>
    distinct (map row_id rows')"
proof -
  have "fst (reconcile [] rows (target_rows env du h records) None) = map snd (target_rows env du h records)"
    using reconcile_spec [OF _ assms(3) target_sorted target_row_ids, of None "[]" "[]" env du h records] by (simp add: lags_def)
  then have rows': "rows' = map snd (target_rows env du h records)" using assms(4) by (auto simp: rebuildRows_def case_prod_unfold)
  have "distinct (map row_id rows')" using qsorted_distinct [OF target_sorted] by (simp only: rows' target_ids)
  then show ?thesis unfolding rows' set_map target_rows_spec [OF assms(2,1)] by (simp add: image_Un image_image)
qed

lemma sample_rows_ok: "records_ok [([97], sample_pay_record)]" "indexed (we_requests sample_rows_env) sample_history"
proof -
  show "records_ok [([97], sample_pay_record)]" by (simp add: records_ok_def sample_pay_record_def)
  have "indexed sample_request_env (setEntries sample_request_env [sample_entry 7 20, (sample_entry 8 10)\<lparr>re_recipient := (re_recipient (sample_entry 8 10))\<lparr>rr_address := [100, 101]\<rparr>\<rparr>] new_RequestHistory)"
    unfolding setEntries_def by (rule rebuild_indexed) code_simp
  then show "indexed (we_requests sample_rows_env) sample_history" by (simp add: sample_rows_env_def sample_history_def)
qed


theorem rebuild_rows_witness:
  "\<exists>rows' sigs. rebuildRows sample_rows_env 0 sample_history [([97], sample_pay_record)] [] = (rows', sigs, True) \<and>
     replay copy_roles [] sigs = Some (map row_val rows') \<and> length (filter row_is_request rows') = 1 \<and> length rows' = 2"
proof -
  obtain rows' sigs counts where r: "rebuildRows sample_rows_env 0 sample_history [([97], sample_pay_record)] [] = (rows', sigs, counts)" by (metis prod_cases3)
  note rows = rebuild_rows [OF _ sample_rows_ok r]
  have "length (target_rows sample_rows_env 0 sample_history [([97], sample_pay_record)]) = 2" by code_simp
  then have "length rows' = 2" using rows by simp
  then show ?thesis using r rows by (auto simp: source_requestCount_def)
qed

definition sample_open_request :: QmlRecentRequestEntry where
  "sample_open_request = (sample_entry 8 10)\<lparr>re_recipient := (re_recipient (sample_entry 8 10))\<lparr>rr_address := [100, 101]\<rparr>\<rparr>"

lemma sample_history_entries: "rh_entries sample_history = [sample_entry 7 20, sample_open_request]"
  by (simp add: sample_history_def setEntries_def sort_by_def sample_open_request_def newer_def sample_entry_def default_entry_def)

lemma sample_pays: "pays sample_rows_env sample_pay_record (sample_entry 7 20)" "\<not> pays sample_rows_env sample_pay_record sample_open_request"
  by (simp_all add: pays_def sample_pay_record_def rec_inactive_def rec_replaced_def rq_address_def sample_rows_env_def sample_request_env_def
      sample_open_request_def sample_entry_def default_entry_def)

lemma sample_row_ids: "request_row_id sample_open_request = q ''request:8''" "tx_row_id sample_pay_record = q ''tx:a''"
  "rq_address sample_rows_env sample_open_request = [100, 101]"
  by (simp_all add: request_row_id_def rq_id_def sample_open_request_def sample_entry_def number_def number_nat.simps rq_address_def sample_rows_env_def
      sample_request_env_def q_def of_char_def tx_row_id_def sample_pay_record_def)

theorem activity_rows_shown_witness:
  "\<exists>rows' sigs counts. rebuildRows sample_rows_env 0 sample_history [([97], sample_pay_record)] [] = (rows', sigs, counts) \<and>
     row_id ` set rows' = {q ''tx:a'', q ''request:8''}"
proof -
  obtain rows' sigs counts where r: "rebuildRows sample_rows_env 0 sample_history [([97], sample_pay_record)] [] = (rows', sigs, counts)" by (metis prod_cases3)
  have s: "sorted_wrt qless (map row_id [])" by simp
  let ?p = "\<lambda>e. rq_address sample_rows_env e \<noteq> [] \<and> \<not> (\<exists>kr\<in>set [([97] :: qstring, sample_pay_record)]. pays sample_rows_env (snd kr) e)"
  have "{e \<in> set (rh_entries sample_history). ?p e} = {sample_open_request}"
    using sample_pays sample_row_ids(3) unfolding sample_history_entries by auto
  then have req: "request_row_id ` {e \<in> set (rh_entries sample_history). ?p e} = {q ''request:8''}" by (simp only: image_insert image_empty sample_row_ids)
  have "set rows' = (\<lambda>kr. tx_row sample_rows_env 0 (requests_by_address sample_rows_env sample_history) (snd kr)) ` set [([97] :: qstring, sample_pay_record)] \<union>
      request_row sample_rows_env 0 ` {e \<in> set (rh_entries sample_history). ?p e}"
    by (rule activity_rows_shown [OF sample_rows_ok s r, THEN conjunct1])
  then have "row_id ` set rows' = {tx_row_id sample_pay_record} \<union> request_row_id ` {e \<in> set (rh_entries sample_history). ?p e}"
    by (simp only: image_Un image_image tx_row_id request_row_id list.set image_insert image_empty snd_conv)
  then have "row_id ` set rows' = {q ''tx:a'', q ''request:8''}" by (simp only: req sample_row_ids Un_insert_left Un_empty_left)
  with r show ?thesis by (intro exI conjI)
qed

end
