(* ===== verification/ActivitySource.thy ===== *)
theory ActivitySource
  imports TxFlow ActivityRows
begin

text \<open>
  \<open>src/qml/models/transactionactivitymodel.{h,cpp}\<close>, the source of the activity list: it collects requests for work, reads the wallet on
  the worker thread from a copy of its state, and takes the result over unless a notification has overtaken it. What the wallet
  answers, hashes as text, addresses and the encoding of transactions are parameters. \<open>stop\<close> marks the model before it sets the flag that
  makes a read return early, and the result of such a read is dropped; so the flag is not modelled.
\<close>

section \<open>Definitions\<close>

record source_env =
  se_flow :: flow_env
  se_rows :: rows_env
  se_valid_hash :: "qstring \<Rightarrow> bool"
  se_decode :: "qstring \<Rightarrow> destination"
  se_hex :: "core_tx \<Rightarrow> qstring"

text \<open>The answers of the wallet during one read.\<close>

record wallet_api =
  wa_txs :: "wallet_tx list"
  wa_tx :: "qstring \<Rightarrow> wallet_tx"
  wa_status :: "qstring \<Rightarrow> tx_status option"
  wa_tip :: "qstring option"
  wa_label :: "destination \<Rightarrow> qstring option"
  wa_parent :: "qstring \<Rightarrow> core_tx option"
  wa_can_bump :: "qstring \<Rightarrow> bool"

subsection \<open>One record\<close>

definition AddressLabel :: "source_env \<Rightarrow> wallet_api \<Rightarrow> qstring \<Rightarrow> qstring" where
  "AddressLabel env api address =
     (if address = [] then []
      else if se_decode env address = CNoDestination then []
      else case wa_label api (se_decode env address) of None \<Rightarrow> [] | Some l \<Rightarrow> l)"

definition updateLabels :: "source_env \<Rightarrow> wallet_api \<Rightarrow> tx_record \<Rightarrow> tx_record" where
  "updateLabels env api r = r\<lparr>rec_labels := map (\<lambda>a. AddressLabel env api (ta_address a)) (ty_actions (rec_activity r))\<rparr>"

definition updateStatus :: "wallet_api \<Rightarrow> tx_record \<Rightarrow> bool \<times> tx_record" where
  "updateStatus api r =
     (case wa_status api (ty_txid (rec_activity r)) of
        None \<Rightarrow> (False, r)
      | Some s \<Rightarrow>
          (True, r\<lparr>rec_known := True, rec_depth := ws_depth s, rec_maturity := ws_blocks_to_maturity s,
             rec_height := (if ws_depth s > 0 then ws_block_height s else 0),
             rec_status :=
               (if ty_type (rec_activity r) = Mined then
                  (if \<not> ws_in_main_chain s then NotAccepted else if ws_blocks_to_maturity s > 0 then Immature else Confirmed)
                else if ws_depth s < 0 then Conflicted
                else if ws_abandoned s then Abandoned
                else if ws_depth s = 0 then Unconfirmed
                else if ws_depth s < 6 then Confirming else Confirmed)\<rparr>))"

definition empty_activity :: TransactionActivity where
  "empty_activity = \<lparr>ty_txid = [], ty_type = Other, ty_timestamp = 0, ty_debit = 0, ty_credit = 0, ty_fee = None, ty_replaces = [], ty_replaced_by = [], ty_actions = []\<rparr>"

definition new_record :: tx_record where
  "new_record = \<lparr>rec_activity = empty_activity, rec_labels = [], rec_status = Unconfirmed, rec_depth = 0, rec_maturity = 0, rec_height = 0, rec_known = False,
     rec_tx = None, rec_inputs_mine = [], rec_outputs_mine = [], rec_outputs_change = []\<rparr>"

subsection \<open>Work and snapshots\<close>

record Work =
  wk_reload :: bool
  wk_labels :: bool
  wk_statuses :: bool
  wk_poll :: bool
  wk_details :: bool
  wk_transactions :: "qstring list"

definition no_work :: Work where
  "no_work = \<lparr>wk_reload = False, wk_labels = False, wk_statuses = False, wk_poll = False, wk_details = False, wk_transactions = []\<rparr>"

definition work_empty :: "Work \<Rightarrow> bool" where
  "work_empty w \<longleftrightarrow> \<not> wk_reload w \<and> \<not> wk_labels w \<and> \<not> wk_statuses w \<and> \<not> wk_poll w \<and> \<not> wk_details w \<and> wk_transactions w = []"

definition work_merge :: "Work \<Rightarrow> Work \<Rightarrow> Work" where
  "work_merge w other =
     \<lparr>wk_reload = (wk_reload w \<or> wk_reload other), wk_labels = (wk_labels w \<or> wk_labels other), wk_statuses = (wk_statuses w \<or> wk_statuses other),
      wk_poll = (wk_poll w \<or> wk_poll other), wk_details = (wk_details w \<or> wk_details other),
      wk_transactions = fold List.insert (wk_transactions other) (wk_transactions w)\<rparr>"

record SourceSnapshot =
  sn_records :: "(qstring \<times> tx_record) list"
  sn_retry :: "qstring list"
  sn_tip :: "qstring option"
  sn_detail_txid :: qstring
  sn_raw :: qstring
  sn_flow :: "tx_flow option"
  sn_labels :: "(qstring \<times> qstring) list"
  sn_can_bump :: bool
  sn_missing :: bool
  sn_rows_changed :: bool
  sn_details_changed :: bool
  sn_flow_resolved :: bool

definition qmap_erase :: "qstring \<Rightarrow> (qstring \<times> 'v) list \<Rightarrow> (qstring \<times> 'v) list" where
  "qmap_erase k m = filter (\<lambda>kv. fst kv \<noteq> k) m"

definition set_retry :: "bool \<Rightarrow> qstring \<Rightarrow> qstring list \<Rightarrow> qstring list" where
  "set_retry known k s = (if known then removeAll k s else List.insert k s)"

definition read_record :: "source_env \<Rightarrow> wallet_api \<Rightarrow> wallet_tx \<Rightarrow> SourceSnapshot \<Rightarrow> SourceSnapshot" where
  "read_record env api w s =
     (case activity_fromWalletTx (fe_tx (se_flow env)) w of
        None \<Rightarrow> s
      | Some a \<Rightarrow>
          let r = (qmap_value new_record (sn_records s) (ty_txid a))\<lparr>rec_activity := a, rec_tx := w_tx w, rec_inputs_mine := txin_is_mine w,
                rec_outputs_mine := txout_is_mine w, rec_outputs_change := txout_is_change w\<rparr>;
              (known, r') = updateStatus api (updateLabels env api r)
          in s\<lparr>sn_retry := set_retry known (ty_txid a) (sn_retry s), sn_records := qmap_insert (ty_txid a) r' (sn_records s)\<rparr>)"

definition present_txids :: "wallet_tx list \<Rightarrow> qstring list" where
  "present_txids ws = concat (map (\<lambda>w. case w_tx w of None \<Rightarrow> [] | Some tx \<Rightarrow> [t_hash tx]) ws)"

definition reload_step :: "source_env \<Rightarrow> wallet_api \<Rightarrow> SourceSnapshot \<Rightarrow> SourceSnapshot" where
  "reload_step env api s =
     (let s1 = fold (read_record env api) (wa_txs api) s; present = present_txids (wa_txs api);
          gone = filter (\<lambda>k. k \<notin> set present) (map fst (sn_records s1))
      in s1\<lparr>sn_retry := filter (\<lambda>k. k \<notin> set gone) (sn_retry s1), sn_records := filter (\<lambda>kr. fst kr \<in> set present) (sn_records s1)\<rparr>)"

definition transaction_step :: "source_env \<Rightarrow> wallet_api \<Rightarrow> qstring \<Rightarrow> SourceSnapshot \<Rightarrow> SourceSnapshot" where
  "transaction_step env api k s =
     (if \<not> se_valid_hash env k then s
      else if w_tx (wa_tx api k) \<noteq> None then read_record env api (wa_tx api k) s
      else s\<lparr>sn_records := qmap_erase k (sn_records s), sn_retry := removeAll k (sn_retry s)\<rparr>)"

definition labels_step :: "source_env \<Rightarrow> wallet_api \<Rightarrow> SourceSnapshot \<Rightarrow> SourceSnapshot" where
  "labels_step env api s = s\<lparr>sn_records := map (\<lambda>(k, r). (k, updateLabels env api r)) (sn_records s)\<rparr>"

text \<open>The tip is read only by a poll; a new one means that all statuses are read.\<close>

definition poll_step :: "wallet_api \<Rightarrow> Work \<Rightarrow> SourceSnapshot \<Rightarrow> bool \<times> SourceSnapshot" where
  "poll_step api work s =
     (case if wk_poll work then wa_tip api else None of
        None \<Rightarrow> (wk_statuses work, s)
      | Some tip \<Rightarrow> if sn_tip s \<noteq> Some tip then (True, s\<lparr>sn_tip := Some tip\<rparr>) else (wk_statuses work, s))"

fun status_loop :: "wallet_api \<Rightarrow> bool \<Rightarrow> qstring list \<Rightarrow> (qstring \<times> tx_record) list \<Rightarrow> (qstring \<times> tx_record) list \<times> qstring list" where
  "status_loop api statuses retry [] = ([], retry)"
| "status_loop api statuses retry ((k, r) # rs) =
     (if \<not> statuses \<and> ty_txid (rec_activity r) \<notin> set retry then
        (let (rs', retry') = status_loop api statuses retry rs in ((k, r) # rs', retry'))
      else
        (let (known, r') = updateStatus api r;
             (rs', retry') = status_loop api statuses (set_retry known (ty_txid (rec_activity r)) retry) rs
         in ((k, r') # rs', retry')))"

definition status_step :: "wallet_api \<Rightarrow> bool \<Rightarrow> bool \<Rightarrow> SourceSnapshot \<Rightarrow> SourceSnapshot" where
  "status_step api statuses retry s =
     (if statuses \<or> retry then let (rs, again) = status_loop api statuses (sn_retry s) (sn_records s) in s\<lparr>sn_records := rs, sn_retry := again\<rparr> else s)"

subsection \<open>The details\<close>

definition read_prevouts :: "source_env \<Rightarrow> wallet_api \<Rightarrow> core_tx \<Rightarrow> tx_out option list" where
  "read_prevouts env api tx =
     (if fe_IsCoinBase (se_flow env) tx then []
      else map (\<lambda>i. case wa_parent api (i_hash i) of None \<Rightarrow> None | Some p \<Rightarrow> if i_n i < length (t_vout p) then Some (t_vout p ! i_n i) else None) (t_vin tx))"

definition flow_addresses :: "tx_flow option \<Rightarrow> qstring list" where
  "flow_addresses f = (case f of None \<Rightarrow> [] | Some f \<Rightarrow> map en_address (fl_inputs f) @ map en_address (fl_outputs f))"

definition add_labels :: "source_env \<Rightarrow> wallet_api \<Rightarrow> qstring list \<Rightarrow> (qstring \<times> qstring) list \<Rightarrow> (qstring \<times> qstring) list" where
  "add_labels env api addresses m = fold (\<lambda>a m. if map_of m a = None then qmap_insert a (AddressLabel env api a) m else m) addresses m"

definition flow_step :: "source_env \<Rightarrow> wallet_api \<Rightarrow> Work \<Rightarrow> SourceSnapshot \<Rightarrow> SourceSnapshot" where
  "flow_step env api work s =
     (let s1 = (if wk_labels work then s\<lparr>sn_labels := []\<rparr> else s);
          s2 = s1\<lparr>sn_labels := add_labels env api (flow_addresses (sn_flow s1)) (sn_labels s1)\<rparr>;
          r = qmap_value new_record (sn_records s2) (sn_detail_txid s2)
      in if rec_known r \<and> rec_status r = Unconfirmed \<and> ty_replaced_by (rec_activity r) = [] then s2\<lparr>sn_can_bump := wa_can_bump api (sn_detail_txid s2)\<rparr> else s2)"

definition details_step :: "source_env \<Rightarrow> wallet_api \<Rightarrow> Work \<Rightarrow> SourceSnapshot \<Rightarrow> SourceSnapshot" where
  "details_step env api work s =
     (let k = sn_detail_txid s; valid = se_valid_hash env k;
          s1 = (if valid \<and> map_of (sn_records s) k = None then (read_record env api (wa_tx api k) s)\<lparr>sn_rows_changed := True\<rparr> else s);
          s2 = s1\<lparr>sn_missing := (\<not> valid \<or> map_of (sn_records s1) k = None), sn_can_bump := False\<rparr>
      in if sn_missing s2 then s2\<lparr>sn_flow := None\<rparr>
         else if \<not> sn_flow_resolved s2 \<or> sn_flow s2 = None \<or> wk_reload work \<or> wk_transactions work \<noteq> [] then
           (case w_tx (wa_tx api k) of
              None \<Rightarrow> s2\<lparr>sn_missing := True, sn_flow := None\<rparr>
            | Some tx \<Rightarrow> flow_step env api work
                (s2\<lparr>sn_flow := BuildTransactionFlow (se_flow env) (wa_tx api k) (read_prevouts env api tx) False, sn_flow_resolved := True,
                    sn_raw := se_hex env tx, sn_labels := []\<rparr>))
         else flow_step env api work s2)"

definition source_readSnapshot :: "source_env \<Rightarrow> wallet_api \<Rightarrow> SourceSnapshot \<Rightarrow> Work \<Rightarrow> SourceSnapshot" where
  "source_readSnapshot env api s work =
     (let s1 = (if wk_reload work then reload_step env api s else s);
          s2 = fold (transaction_step env api) (wk_transactions work) s1;
          s3 = (if wk_labels work then labels_step env api s2 else s2);
          (statuses, s4) = poll_step api work s3;
          retry = (wk_poll work \<and> sn_retry s4 \<noteq> []);
          s5 = status_step api statuses retry s4;
          rows_changed = (wk_reload work \<or> wk_labels work \<or> statuses \<or> retry \<or> wk_transactions work \<noteq> []);
          s6 = s5\<lparr>sn_rows_changed := rows_changed, sn_details_changed := (wk_details work \<or> rows_changed)\<rparr>
      in if sn_detail_txid s6 = [] \<or> \<not> sn_details_changed s6 then s6 else details_step env api work s6)"


subsection \<open>The model\<close>

text \<open>A task of the reader: what it was given and, once it has run, its result.\<close>

record source_job =
  jb_snapshot :: SourceSnapshot
  jb_work :: Work
  jb_generation :: nat
  jb_detail_generation :: nat
  jb_result :: "SourceSnapshot option"

text \<open>
  The members, the task at the reader and the row changes announced so far. The generations count notifications and requests for
  details.
\<close>

record activity_source =
  as_wallet :: bool
  as_display_unit :: int
  as_records :: "(qstring \<times> tx_record) list"
  as_retry :: "qstring list"
  as_rows :: "row list"
  as_timer :: bool
  as_tip :: "qstring option"
  as_detail_txid :: qstring
  as_raw :: qstring
  as_flow :: "tx_flow option"
  as_flow_resolved :: bool
  as_labels :: "(qstring \<times> qstring) list"
  as_can_bump :: bool
  as_missing :: bool
  as_details_loading :: bool
  as_pending :: Work
  as_work_pending :: bool
  as_cancelled :: bool
  as_generation :: nat
  as_detail_generation :: nat
  as_scheduled :: bool
  as_stopped :: bool
  as_loading :: bool
  as_rebuild_pending :: bool
  as_error :: bool
  as_job :: "source_job option"
  as_out :: "(TRole, shown_row) row_signal list"

definition schedule :: "activity_source \<Rightarrow> activity_source" where
  "schedule m =
     (if as_stopped m \<or> work_empty (as_pending m) \<or> \<not> as_wallet m then m
      else
        let m1 = (if \<not> as_loading m \<or> as_error m
                  then m\<lparr>as_loading := True, as_error := as_error m \<and> \<not> (wk_reload (as_pending m) \<or> wk_details (as_pending m))\<rparr> else m)
        in if as_work_pending m1 \<or> as_scheduled m1 then m1 else m1\<lparr>as_scheduled := True\<rparr>)"

definition source_reload :: "activity_source \<Rightarrow> activity_source" where
  "source_reload m = schedule (m\<lparr>as_generation := as_generation m + 1, as_pending := (as_pending m)\<lparr>wk_reload := True\<rparr>\<rparr>)"

definition updateTransaction :: "qstring \<Rightarrow> activity_source \<Rightarrow> activity_source" where
  "updateTransaction k m =
     schedule (m\<lparr>as_generation := as_generation m + 1, as_pending := (as_pending m)\<lparr>wk_transactions := List.insert k (wk_transactions (as_pending m))\<rparr>\<rparr>)"

definition addresses_changed :: "activity_source \<Rightarrow> activity_source" where
  "addresses_changed m = schedule (m\<lparr>as_generation := as_generation m + 1, as_pending := (as_pending m)\<lparr>wk_labels := True\<rparr>\<rparr>)"

definition refreshStatuses :: "activity_source \<Rightarrow> activity_source" where
  "refreshStatuses m = schedule (m\<lparr>as_pending := (as_pending m)\<lparr>wk_statuses := True\<rparr>\<rparr>)"

definition source_poll :: "activity_source \<Rightarrow> activity_source" where
  "source_poll m = schedule (m\<lparr>as_pending := (as_pending m)\<lparr>wk_poll := True\<rparr>\<rparr>)"

definition source_stop :: "activity_source \<Rightarrow> activity_source" where
  "source_stop m =
     (if as_stopped m then m else m\<lparr>as_stopped := True, as_timer := False, as_loading := False, as_details_loading := False, as_cancelled := True\<rparr>)"

definition source_rebuild :: "source_env \<Rightarrow> RequestHistory \<Rightarrow> activity_source \<Rightarrow> activity_source" where
  "source_rebuild env h m =
     (let (rows, sigs, counts) = rebuildRows (se_rows env) (as_display_unit m) h (as_records m) (as_rows m)
      in m\<lparr>as_rows := rows, as_out := as_out m @ sigs\<rparr>)"

definition source_setDisplayUnit :: "source_env \<Rightarrow> RequestHistory \<Rightarrow> int \<Rightarrow> activity_source \<Rightarrow> activity_source" where
  "source_setDisplayUnit env h u m = (if as_display_unit m = u then m else source_rebuild env h (m\<lparr>as_display_unit := u\<rparr>))"

text \<open>A request was edited: while the requests are being reconciled, one rebuild is left to the event loop.\<close>

definition requests_edited :: "source_env \<Rightarrow> RequestHistory \<Rightarrow> bool \<Rightarrow> activity_source \<Rightarrow> activity_source" where
  "requests_edited env h applying m =
     (if \<not> applying then (if as_rebuild_pending m then m else source_rebuild env h m) else m\<lparr>as_rebuild_pending := True\<rparr>)"

definition delayed_rebuild :: "source_env \<Rightarrow> RequestHistory \<Rightarrow> activity_source \<Rightarrow> activity_source" where
  "delayed_rebuild env h m = (let m1 = m\<lparr>as_rebuild_pending := False\<rparr> in if as_stopped m then m1 else source_rebuild env h m1)"

text \<open>What is shown of a transaction before the wallet is asked.\<close>

definition cached_tx :: "tx_record \<Rightarrow> wallet_tx" where
  "cached_tx r = \<lparr>w_tx = rec_tx r, txin_is_mine = rec_inputs_mine r, txout_is_mine = rec_outputs_mine r, txout_is_change = rec_outputs_change r, txout_address = [],
     txout_address_is_mine = [], w_credit = 0, w_debit = ty_debit (rec_activity r), w_time = 0, w_value_map = [], w_is_coinbase = False\<rparr>"

definition preview :: "source_env \<Rightarrow> qstring \<Rightarrow> activity_source \<Rightarrow> tx_flow option" where
  "preview env txid m = (case map_of (as_records m) txid of None \<Rightarrow> None | Some r \<Rightarrow> BuildTransactionFlow (se_flow env) (cached_tx r) [] True)"

definition requestTransactionDetails :: "source_env \<Rightarrow> qstring \<Rightarrow> activity_source \<Rightarrow> activity_source" where
  "requestTransactionDetails env txid m =
     (if as_stopped m then m
      else
        let m1 = m\<lparr>as_detail_generation := as_detail_generation m + 1\<rparr>;
            m2 = (if as_detail_txid m1 \<noteq> txid then m1\<lparr>as_flow := None, as_flow_resolved := False, as_labels := [], as_raw := []\<rparr> else m1);
            m3 = m2\<lparr>as_detail_txid := txid\<rparr>;
            m4 = (if as_flow m3 = None then m3\<lparr>as_flow_resolved := False, as_raw := [], as_flow := preview env txid m3\<rparr> else m3)
        in schedule (m4\<lparr>as_can_bump := False, as_missing := False, as_details_loading := (txid \<noteq> []), as_pending := (as_pending m4)\<lparr>wk_details := (txid \<noteq> [])\<rparr>\<rparr>))"

definition take_snapshot :: "activity_source \<Rightarrow> SourceSnapshot" where
  "take_snapshot m = \<lparr>sn_records = as_records m, sn_retry = as_retry m, sn_tip = as_tip m, sn_detail_txid = as_detail_txid m, sn_raw = as_raw m, sn_flow = as_flow m,
     sn_labels = as_labels m, sn_can_bump = as_can_bump m, sn_missing = as_missing m, sn_rows_changed = False, sn_details_changed = False,
     sn_flow_resolved = as_flow_resolved m\<rparr>"

definition startWork :: "activity_source \<Rightarrow> activity_source" where
  "startWork m0 =
     (let m = m0\<lparr>as_scheduled := False\<rparr>
      in if as_stopped m \<or> as_work_pending m \<or> work_empty (as_pending m) \<or> \<not> as_wallet m then m
         else m\<lparr>as_pending := no_work, as_work_pending := True,
                as_job := Some \<lparr>jb_snapshot = take_snapshot m, jb_work = as_pending m, jb_generation = as_generation m,
                  jb_detail_generation = as_detail_generation m, jb_result = None\<rparr>\<rparr>)"

text \<open>The task runs, with the answers the wallet gives meanwhile.\<close>

definition run_work :: "source_env \<Rightarrow> wallet_api \<Rightarrow> activity_source \<Rightarrow> activity_source" where
  "run_work env api m = m\<lparr>as_job := map_option (\<lambda>j. j\<lparr>jb_result := Some (source_readSnapshot env api (jb_snapshot j) (jb_work j))\<rparr>) (as_job m)\<rparr>"

text \<open>The result of a task that nothing has overtaken.\<close>

definition take_over :: "source_env \<Rightarrow> RequestHistory \<Rightarrow> source_job \<Rightarrow> SourceSnapshot \<Rightarrow> activity_source \<Rightarrow> activity_source" where
  "take_over env h j s m =
     (let m1 = m\<lparr>as_records := sn_records s, as_retry := sn_retry s, as_tip := sn_tip s\<rparr>;
          m2 = (if jb_detail_generation j = as_detail_generation m1
                then m1\<lparr>as_flow := sn_flow s, as_flow_resolved := sn_flow_resolved s, as_raw := sn_raw s, as_labels := sn_labels s, as_can_bump := sn_can_bump s,
                        as_missing := sn_missing s, as_details_loading := False\<rparr> else m1)
      in if sn_rows_changed s then source_rebuild env h m2 else m2)"

definition work_done :: "source_env \<Rightarrow> RequestHistory \<Rightarrow> source_job \<Rightarrow> SourceSnapshot \<Rightarrow> activity_source \<Rightarrow> activity_source" where
  "work_done env h j s m0 =
     (let m = m0\<lparr>as_work_pending := False, as_job := None\<rparr>
      in if as_stopped m then m
         else
           let m1 = (if jb_generation j \<noteq> as_generation m then m\<lparr>as_pending := work_merge (as_pending m) (jb_work j)\<rparr> else take_over env h j s m)
           in schedule (m1\<lparr>as_loading := \<not> work_empty (as_pending m1)\<rparr>))"

definition work_failed :: "source_job \<Rightarrow> activity_source \<Rightarrow> activity_source" where
  "work_failed j m0 =
     (let m = m0\<lparr>as_work_pending := False, as_job := None\<rparr>
      in if as_stopped m then m
         else
           let m1 = (if jb_generation j \<noteq> as_generation m then m\<lparr>as_pending := work_merge (as_pending m) (jb_work j)\<rparr>
                     else if jb_detail_generation j = as_detail_generation m then m\<lparr>as_error := True, as_details_loading := False\<rparr> else m)
           in schedule (m1\<lparr>as_loading := \<not> work_empty (as_pending m1)\<rparr>))"

definition new_source :: "bool \<Rightarrow> int \<Rightarrow> activity_source" where
  "new_source wallet u =
     (source_reload \<lparr>as_wallet = wallet, as_display_unit = u, as_records = [], as_retry = [], as_rows = [], as_timer = False, as_tip = None, as_detail_txid = [], as_raw = [],
        as_flow = None, as_flow_resolved = False, as_labels = [], as_can_bump = False, as_missing = False, as_details_loading = False, as_pending = no_work,
        as_work_pending = False, as_cancelled = False, as_generation = 0, as_detail_generation = 0, as_scheduled = False, as_stopped = False, as_loading = False,
        as_rebuild_pending = False, as_error = False, as_job = None, as_out = []\<rparr>)\<lparr>as_timer := wallet\<rparr>"


subsection \<open>What the pages ask\<close>

definition rawTransaction :: "source_env \<Rightarrow> activity_source \<Rightarrow> qstring \<Rightarrow> qstring" where
  "rawTransaction env m txid =
     (case map_of (as_records m) txid of None \<Rightarrow> [] | Some r \<Rightarrow> (case rec_tx r of None \<Rightarrow> [] | Some tx \<Rightarrow> se_hex env tx))"

definition paymentRequestUri :: "request_env \<Rightarrow> bool \<Rightarrow> RequestHistory \<Rightarrow> qstring \<Rightarrow> qstring option" where
  "paymentRequestUri env reconciling h request_id =
     (if reconciling then Some []
      else case entryById h request_id of
        None \<Rightarrow> Some []
      | Some e \<Rightarrow>
          if re_payment_received e then Some []
          else let r = re_recipient e
               in BuildBitcoinUri (toPercentEncoding env) (fromStdString env (rr_address r)) (rr_amount r) (fromStdString env (rr_label r)) (fromStdString env (rr_message r)))"

text \<open>An input or output with what the page adds: requests, label and amount as text.\<close>

record shown_entry =
  sh_entry :: flow_entry
  sh_requests :: "QmlRecentRequestEntry list"
  sh_label :: qstring
  sh_amount :: qstring

definition show_entry :: "source_env \<Rightarrow> RequestHistory \<Rightarrow> activity_source \<Rightarrow> bool \<Rightarrow> flow_entry \<Rightarrow> shown_entry" where
  "show_entry env h m output e =
     (let mine = (en_ownership e = WALLET);
          requests = (if output \<and> mine \<and> (case en_amount e of None \<Rightarrow> 0 | Some a \<Rightarrow> a) > 0 then entriesForAddress h (en_address e) else [])
      in \<lparr>sh_entry = e, sh_requests = requests,
          sh_label = (if requests \<noteq> [] then rq_note (se_rows env) (hd requests) else if \<not> output \<or> \<not> mine then qmap_value [] (as_labels m) (en_address e) else []),
          sh_amount = (if en_known e then formatAmount (se_rows env) (as_display_unit m) (case en_amount e of None \<Rightarrow> 0 | Some a \<Rightarrow> a) False else [])\<rparr>)"

text \<open>The parts of the answer; a key the code does not insert is \<open>None\<close>. The fee rate is a quotient of two integers.\<close>

record shown_details =
  sd_row :: "row option"
  sd_height :: "int option"
  sd_loading :: "bool option"
  sd_error :: "string option"
  sd_can_bump :: "bool option"
  sd_flow :: "tx_flow option"
  sd_inputs :: "shown_entry list"
  sd_outputs :: "shown_entry list"
  sd_fee_amount :: qstring
  sd_raw :: "qstring option"
  sd_fee_rate :: "(int \<times> int) option"

definition NOT_AVAILABLE :: string where "NOT_AVAILABLE = ''This transaction is no longer available.''"
definition LOAD_ERROR :: string where "LOAD_ERROR = ''Wallet activity could not be loaded. Please try again.''"

definition detail_error :: "activity_source \<Rightarrow> string" where
  "detail_error m = (if as_missing m then NOT_AVAILABLE else if as_error m then LOAD_ERROR else [])"

definition empty_details :: shown_details where
  "empty_details = \<lparr>sd_row = None, sd_height = None, sd_loading = None, sd_error = None, sd_can_bump = None, sd_flow = None, sd_inputs = [], sd_outputs = [],
     sd_fee_amount = [], sd_raw = None, sd_fee_rate = None\<rparr>"

definition transactionDetails :: "source_env \<Rightarrow> RequestHistory \<Rightarrow> activity_source \<Rightarrow> qstring \<Rightarrow> bool \<Rightarrow> shown_details option" where
  "transactionDetails env h m txid include_flow =
     (case find (\<lambda>row. row_val row TTxid = TText txid \<and> \<not> row_is_request row) (as_rows m) of
        Some row \<Rightarrow>
          let r = qmap_value new_record (as_records m) txid;
              d1 = empty_details\<lparr>sd_row := Some row, sd_height := (if rec_known r \<and> rec_depth r > 0 then Some (rec_height r) else None)\<rparr>;
              d2 = d1\<lparr>sd_loading := Some (as_details_loading m), sd_error := Some (detail_error m),
                     sd_can_bump := Some (as_can_bump m \<and> row_val row TIsInactive \<noteq> TBool True)\<rparr>
          in Some (if \<not> include_flow \<or> as_detail_txid m \<noteq> txid then d1
             else case as_flow m of
               None \<Rightarrow> d2
             | Some f \<Rightarrow>
                 d2\<lparr>sd_flow := Some f, sd_inputs := map (show_entry env h m False) (fl_inputs f), sd_outputs := map (show_entry env h m True) (fl_outputs f),
                    sd_fee_amount := (case fl_fee f of None \<Rightarrow> [] | Some fee \<Rightarrow> formatAmount (se_rows env) (as_display_unit m) fee False),
                    sd_raw := (if as_flow_resolved m then Some (as_raw m) else None),
                    sd_fee_rate := (case fl_fee f of None \<Rightarrow> None | Some fee \<Rightarrow> if fl_virtualSize f > 0 then Some (fee, fl_virtualSize f) else None)\<rparr>)
      | None \<Rightarrow>
          if include_flow \<and> txid = as_detail_txid m then Some (empty_details\<lparr>sd_loading := Some (as_details_loading m), sd_error := Some (detail_error m)\<rparr>)
          else None)"

section \<open>Reading\<close>

subsection \<open>The records stay well formed\<close>

definition rec_wf :: "source_env \<Rightarrow> qstring \<Rightarrow> tx_record \<Rightarrow> bool" where
  "rec_wf env k r \<longleftrightarrow> ty_txid (rec_activity r) = k \<and> length (rec_labels r) = length (ty_actions (rec_activity r)) \<and> se_valid_hash env k \<and>
     (\<exists>tx. rec_tx r = Some tx \<and> t_hash tx = k)"

definition recs_wf :: "source_env \<Rightarrow> (qstring \<times> tx_record) list \<Rightarrow> bool" where
  "recs_wf env rs \<longleftrightarrow> qsorted rs \<and> (\<forall>kr\<in>set rs. rec_wf env (fst kr) (snd kr))"

definition wtx_ok :: "source_env \<Rightarrow> wallet_tx \<Rightarrow> bool" where
  "wtx_ok env w \<longleftrightarrow> (\<forall>tx. w_tx w = Some tx \<longrightarrow> se_valid_hash env (t_hash tx))"

lemma recs_wf_ok: "recs_wf env rs \<Longrightarrow> records_ok rs"
  by (auto simp: recs_wf_def records_ok_def rec_wf_def case_prod_unfold)

lemma recs_wf_Nil [simp]: "recs_wf env []"
  by (simp add: recs_wf_def)

lemma recs_wf_insert: "recs_wf env rs \<Longrightarrow> rec_wf env k r \<Longrightarrow> recs_wf env (qmap_insert k r rs)"
  by (auto simp: recs_wf_def qmap_entries)

lemma qsorted_filter: "qsorted m \<Longrightarrow> qsorted (filter P m)"
  by (induction m) auto

lemma recs_wf_filter: "recs_wf env rs \<Longrightarrow> recs_wf env (filter P rs)"
  by (auto simp: recs_wf_def qsorted_filter)

lemma recs_wf_map:
  assumes "recs_wf env rs" "\<And>k r. rec_wf env k r \<Longrightarrow> rec_wf env k (f r)"
  shows "recs_wf env (map (\<lambda>(k, r). (k, f r)) rs)"
proof -
  have keys: "map fst (map (\<lambda>(k, r). (k, f r)) rs) = map fst rs" by (simp add: case_prod_unfold comp_def)
  have "qsorted (map (\<lambda>(k, r). (k, f r)) rs)" unfolding qsorted_def keys using assms(1) by (simp add: recs_wf_def qsorted_def)
  then show ?thesis using assms by (auto simp: recs_wf_def)
qed

lemma activity_txid: "activity_fromWalletTx env w = Some a \<Longrightarrow> \<exists>tx. w_tx w = Some tx \<and> ty_txid a = t_hash tx"
  by (auto simp: activity_fromWalletTx_def Let_def case_prod_unfold split: option.splits if_splits)

text \<open>What a record says of the transaction itself, apart from labels and status.\<close>

definition rec_content :: "tx_record \<Rightarrow> TransactionActivity \<times> core_tx option \<times> bool list \<times> bool list \<times> bool list" where
  "rec_content r = (rec_activity r, rec_tx r, rec_inputs_mine r, rec_outputs_mine r, rec_outputs_change r)"

definition tx_content :: "wallet_tx \<Rightarrow> TransactionActivity \<Rightarrow> TransactionActivity \<times> core_tx option \<times> bool list \<times> bool list \<times> bool list" where
  "tx_content w a = (a, w_tx w, txin_is_mine w, txout_is_mine w, txout_is_change w)"

lemma updateStatus_frame: "rec_content (snd (updateStatus api r)) = rec_content r" "rec_labels (snd (updateStatus api r)) = rec_labels r"
  by (simp_all add: updateStatus_def rec_content_def split: option.split)

lemma updateLabels_frame: "rec_content (updateLabels env api r) = rec_content r" "length (rec_labels (updateLabels env api r)) = length (ty_actions (rec_activity r))"
  by (simp_all add: updateLabels_def rec_content_def)

lemma content_activity: "rec_content r = rec_content r' \<Longrightarrow> rec_activity r = rec_activity r' \<and> rec_tx r = rec_tx r'"
  by (simp add: rec_content_def)

lemma status_wf: "rec_wf env k r \<Longrightarrow> rec_wf env k (snd (updateStatus api r))"
  using content_activity [OF updateStatus_frame(1) [of api r]] by (simp add: rec_wf_def updateStatus_frame(2))

lemma labels_wf: "rec_wf env k r \<Longrightarrow> rec_wf env k (updateLabels env' api r)"
  using content_activity [OF updateLabels_frame(1) [of env' api r]] updateLabels_frame(2) [of env' api r] by (simp add: rec_wf_def)

text \<open>The record a wallet transaction leads to.\<close>

lemma read_record_cases:
  "activity_fromWalletTx (fe_tx (se_flow env)) w = None \<and> read_record env api w s = s \<or>
   (\<exists>a r known. activity_fromWalletTx (fe_tx (se_flow env)) w = Some a \<and> rec_content r = tx_content w a \<and> length (rec_labels r) = length (ty_actions a) \<and>
      read_record env api w s = s\<lparr>sn_retry := set_retry known (ty_txid a) (sn_retry s), sn_records := qmap_insert (ty_txid a) r (sn_records s)\<rparr>)"
proof (cases "activity_fromWalletTx (fe_tx (se_flow env)) w")
  case None
  then show ?thesis by (simp add: read_record_def)
next
  case (Some a)
  define r0 where "r0 = (qmap_value new_record (sn_records s) (ty_txid a))\<lparr>rec_activity := a, rec_tx := w_tx w, rec_inputs_mine := txin_is_mine w,
    rec_outputs_mine := txout_is_mine w, rec_outputs_change := txout_is_change w\<rparr>"
  obtain known r where u: "updateStatus api (updateLabels env api r0) = (known, r)" by (cases "updateStatus api (updateLabels env api r0)")
  have "rec_content r0 = tx_content w a" "rec_activity r0 = a" by (simp_all add: r0_def rec_content_def tx_content_def)
  then have "rec_content r = tx_content w a" "length (rec_labels r) = length (ty_actions a)"
    using updateStatus_frame [of api "updateLabels env api r0"] updateLabels_frame [of env api r0] by (simp_all add: u)
  moreover have "read_record env api w s = s\<lparr>sn_retry := set_retry known (ty_txid a) (sn_retry s), sn_records := qmap_insert (ty_txid a) r (sn_records s)\<rparr>"
    by (simp add: read_record_def Some r0_def [symmetric] u)
  ultimately show ?thesis using Some by blast
qed

lemma read_record_wf:
  assumes "recs_wf env (sn_records s)" "wtx_ok env w"
  shows "recs_wf env (sn_records (read_record env api w s))"
  using read_record_cases [of env w api s]
proof (elim disjE exE conjE)
  fix a r known
  assume a: "activity_fromWalletTx (fe_tx (se_flow env)) w = Some a" and r: "rec_content r = tx_content w a" "length (rec_labels r) = length (ty_actions a)"
    and eq: "read_record env api w s = s\<lparr>sn_retry := set_retry known (ty_txid a) (sn_retry s), sn_records := qmap_insert (ty_txid a) r (sn_records s)\<rparr>"
  obtain tx where "w_tx w = Some tx" "ty_txid a = t_hash tx" using activity_txid [OF a] by blast
  then have "rec_wf env (ty_txid a) r" using r assms(2) by (simp add: rec_wf_def rec_content_def tx_content_def wtx_ok_def)
  then show ?thesis using assms(1) by (simp add: eq recs_wf_insert)
qed (simp add: assms(1))


text \<open>What the reading does not touch: the selected transaction and its details.\<close>

definition detail_part :: "SourceSnapshot \<Rightarrow> qstring \<times> tx_flow option \<times> qstring" where
  "detail_part s = (sn_detail_txid s, sn_flow s, sn_raw s)"

lemma read_record_detail [simp]: "detail_part (read_record env api w s) = detail_part s" "sn_rows_changed (read_record env api w s) = sn_rows_changed s"
  "sn_flow_resolved (read_record env api w s) = sn_flow_resolved s"
  by (simp_all add: read_record_def detail_part_def Let_def split: option.split prod.split)

lemma reload_detail [simp]: "detail_part (reload_step env api s) = detail_part s"
proof -
  have "detail_part (fold (read_record env api) ws s) = detail_part s" for ws by (induction ws arbitrary: s) simp_all
  moreover have "detail_part (s\<lparr>sn_retry := y, sn_records := x\<rparr>) = detail_part s" for s x y by (simp add: detail_part_def)
  ultimately show ?thesis by (simp add: reload_step_def Let_def)
qed

lemma transaction_detail [simp]: "detail_part (transaction_step env api k s) = detail_part s"
  by (simp add: transaction_step_def) (simp add: detail_part_def)

lemma transactions_detail [simp]: "detail_part (fold (transaction_step env api) ks s) = detail_part s"
  by (induction ks arbitrary: s) simp_all

lemma labels_detail [simp]: "detail_part (labels_step env api s) = detail_part s"
  by (simp add: labels_step_def detail_part_def)

lemma poll_detail [simp]: "detail_part (snd (poll_step api work s)) = detail_part s" "sn_records (snd (poll_step api work s)) = sn_records s"
  by (simp_all add: poll_step_def detail_part_def split: option.split)

lemma status_detail [simp]: "detail_part (status_step api a b s) = detail_part s"
  by (simp add: status_step_def detail_part_def split: prod.split)

lemma status_loop_wf:
  "map fst (fst (status_loop api statuses retry rs)) = map fst rs \<and>
   map (rec_content \<circ> snd) (fst (status_loop api statuses retry rs)) = map (rec_content \<circ> snd) rs \<and>
   ((\<forall>kr\<in>set rs. rec_wf env (fst kr) (snd kr)) \<longrightarrow> (\<forall>kr\<in>set (fst (status_loop api statuses retry rs)). rec_wf env (fst kr) (snd kr)))"
proof (induction rs arbitrary: retry)
  case (Cons kr rs)
  obtain k r where kr: "kr = (k, r)" by (cases kr)
  obtain known r' where u: "updateStatus api r = (known, r')" by (cases "updateStatus api r")
  have r': "rec_content r' = rec_content r" "rec_wf env k r \<Longrightarrow> rec_wf env k r'"
    using updateStatus_frame(1) [of api r] status_wf [of env k r api] by (simp_all add: u)
  show ?case
  proof (cases "\<not> statuses \<and> ty_txid (rec_activity r) \<notin> set retry")
    case True
    then show ?thesis using Cons.IH [of retry] by (simp add: kr case_prod_unfold comp_def Let_def)
  next
    case False
    then show ?thesis using Cons.IH [of "set_retry known (ty_txid (rec_activity r)) retry"] r' by (auto simp: kr u case_prod_unfold comp_def Let_def)
  qed
qed simp

definition content_at :: "(qstring \<times> tx_record) list \<Rightarrow> qstring \<Rightarrow> (TransactionActivity \<times> core_tx option \<times> bool list \<times> bool list \<times> bool list) option" where
  "content_at rs k = map_option rec_content (map_of rs k)"

lemma content_at_cong: "map fst rs = map fst rs' \<Longrightarrow> map (rec_content \<circ> snd) rs = map (rec_content \<circ> snd) rs' \<Longrightarrow> content_at rs k = content_at rs' k"
  by (induction rs rs' rule: list_induct2') (auto simp: content_at_def)

lemma status_loop_content: "content_at (fst (status_loop api a retry rs)) k = content_at rs k"
  using status_loop_wf by (intro content_at_cong) blast+

lemma status_step_content [simp]: "content_at (sn_records (status_step api a b s)) k = content_at (sn_records s) k"
  by (simp add: status_step_def case_prod_unfold Let_def status_loop_content)

lemma status_step_wf [simp]: "recs_wf env (sn_records s) \<Longrightarrow> recs_wf env (sn_records (status_step api a b s))"
  using status_loop_wf [of api _ "sn_retry s" "sn_records s" env] by (simp add: status_step_def recs_wf_def qsorted_def case_prod_unfold Let_def)

lemma labels_step_content [simp]: "content_at (sn_records (labels_step env api s)) k = content_at (sn_records s) k"
  by (rule content_at_cong) (simp_all add: labels_step_def case_prod_unfold comp_def updateLabels_frame)

lemma labels_step_wf [simp]: "recs_wf env (sn_records s) \<Longrightarrow> recs_wf env (sn_records (labels_step env api s))"
  using recs_wf_map labels_wf by (simp add: labels_step_def)


subsection \<open>Reading brings the records up to date\<close>

text \<open>The record of one transaction says what the wallet says; a transaction the activity does not describe leaves no mark.\<close>

definition up_to_date :: "source_env \<Rightarrow> (qstring \<Rightarrow> wallet_tx option) \<Rightarrow> (qstring \<times> tx_record) list \<Rightarrow> qstring \<Rightarrow> bool" where
  "up_to_date env wallet rs k \<longleftrightarrow>
     (case wallet k of
        None \<Rightarrow> map_of rs k = None
      | Some w \<Rightarrow> (\<forall>a. activity_fromWalletTx (fe_tx (se_flow env)) w = Some a \<longrightarrow> content_at rs k = Some (tx_content w a)))"

lemma up_to_date_cong: "content_at rs k = content_at rs' k \<Longrightarrow> up_to_date env wallet rs k = up_to_date env wallet rs' k"
  by (auto simp: up_to_date_def content_at_def split: option.split)

definition wallet_ok :: "source_env \<Rightarrow> (qstring \<Rightarrow> wallet_tx option) \<Rightarrow> bool" where
  "wallet_ok env wallet \<longleftrightarrow> (\<forall>k w. wallet k = Some w \<longrightarrow> (\<exists>tx. w_tx w = Some tx \<and> t_hash tx = k) \<and> se_valid_hash env k)"

text \<open>Whatever a wallet transaction says of \<open>k\<close> is true.\<close>

definition truthful :: "(qstring \<Rightarrow> wallet_tx option) \<Rightarrow> qstring \<Rightarrow> wallet_tx \<Rightarrow> bool" where
  "truthful wallet k w \<longleftrightarrow> (\<forall>tx. w_tx w = Some tx \<and> t_hash tx = k \<longrightarrow> wallet k = Some w)"

lemma read_record_content:
  assumes "qsorted (sn_records s)"
  shows "content_at (sn_records (read_record env api w s)) k =
    (case activity_fromWalletTx (fe_tx (se_flow env)) w of Some a \<Rightarrow> if ty_txid a = k then Some (tx_content w a) else content_at (sn_records s) k
     | None \<Rightarrow> content_at (sn_records s) k)"
  using read_record_cases [of env w api s] assms by (auto simp: content_at_def)

lemma content_None: "(content_at rs k = None) = (map_of rs k = None)"
  by (simp add: content_at_def)

lemma read_record_keeps:
  assumes "qsorted (sn_records s)" "truthful wallet k w" "up_to_date env wallet (sn_records s) k"
  shows "up_to_date env wallet (sn_records (read_record env api w s)) k"
proof (cases "activity_fromWalletTx (fe_tx (se_flow env)) w")
  case None
  then show ?thesis using assms(3) read_record_cases [of env w api s] by auto
next
  case (Some a)
  obtain tx where tx: "w_tx w = Some tx" "ty_txid a = t_hash tx" using activity_txid [OF Some] by blast
  show ?thesis
  proof (cases "ty_txid a = k")
    case True
    then have "wallet k = Some w" using assms(2) tx by (simp add: truthful_def)
    then show ?thesis using read_record_content [OF assms(1), of env api w k] True Some by (simp add: up_to_date_def)
  next
    case False
    then have "content_at (sn_records (read_record env api w s)) k = content_at (sn_records s) k" using read_record_content [OF assms(1), of env api w k] Some by simp
    then show ?thesis using assms(3) up_to_date_cong by blast
  qed
qed

lemma read_record_refreshes:
  assumes "qsorted (sn_records s)" "wallet k = Some w" "w_tx w = Some tx" "t_hash tx = k"
  shows "up_to_date env wallet (sn_records (read_record env api w s)) k"
proof (cases "activity_fromWalletTx (fe_tx (se_flow env)) w")
  case None
  then show ?thesis using assms(2) by (simp add: up_to_date_def)
next
  case (Some a)
  then have "ty_txid a = k" using activity_txid [OF Some] assms(3,4) by auto
  then show ?thesis using read_record_content [OF assms(1), of env api w k] Some assms(2) by (simp add: up_to_date_def)
qed

lemma read_all_wf: "recs_wf env (sn_records s) \<Longrightarrow> \<forall>w\<in>set ws. wtx_ok env w \<Longrightarrow> recs_wf env (sn_records (fold (read_record env api) ws s))"
  by (induction ws arbitrary: s) (simp_all add: read_record_wf)

lemma read_all:
  assumes "recs_wf env (sn_records s)" "\<forall>w\<in>set ws. wtx_ok env w \<and> truthful wallet k w"
  shows "up_to_date env wallet (sn_records s) k \<or> (\<exists>w tx. w \<in> set ws \<and> wallet k = Some w \<and> w_tx w = Some tx \<and> t_hash tx = k) \<longrightarrow>
    up_to_date env wallet (sn_records (fold (read_record env api) ws s)) k"
  using assms
proof (induction ws arbitrary: s)
  case (Cons w ws)
  have wf: "recs_wf env (sn_records (read_record env api w s))" using Cons.prems by (intro read_record_wf) auto
  have q: "qsorted (sn_records s)" using Cons.prems(1) by (simp add: recs_wf_def)
  have "up_to_date env wallet (sn_records s) k \<Longrightarrow> up_to_date env wallet (sn_records (read_record env api w s)) k"
    using read_record_keeps [OF q, of wallet k w env api] Cons.prems(2) by simp
  moreover have "up_to_date env wallet (sn_records (read_record env api w s)) k" if "wallet k = Some w" "w_tx w = Some tx" "t_hash tx = k" for tx
    using read_record_refreshes [OF q, of wallet k w tx env api] that by simp
  ultimately show ?case using Cons.IH [OF wf] Cons.prems(2) by (auto; blast)
qed auto

text \<open>
  The answers during a read: transactions carry their own identifier, and everything said of a transaction outside \<open>D\<close> is true of the
  present wallet. \<open>D\<close> is what may change while the read goes on.
\<close>

definition api_ok :: "source_env \<Rightarrow> (qstring \<Rightarrow> wallet_tx option) \<Rightarrow> qstring set \<Rightarrow> wallet_api \<Rightarrow> bool" where
  "api_ok env wallet D api \<longleftrightarrow>
     (\<forall>w\<in>set (wa_txs api). wtx_ok env w) \<and>
     (\<forall>k tx. w_tx (wa_tx api k) = Some tx \<longrightarrow> t_hash tx = k \<and> se_valid_hash env k) \<and>
     (\<forall>k. k \<notin> D \<longrightarrow>
        (case wallet k of None \<Rightarrow> w_tx (wa_tx api k) = None | Some w \<Rightarrow> wa_tx api k = w \<and> w \<in> set (wa_txs api)) \<and>
        (\<forall>w\<in>set (wa_txs api). truthful wallet k w))"


lemma api_okD:
  assumes "api_ok env wallet D api"
  shows "\<And>w. w \<in> set (wa_txs api) \<Longrightarrow> wtx_ok env w" "wtx_ok env (wa_tx api k)" "w_tx (wa_tx api k) = Some tx \<Longrightarrow> t_hash tx = k"
    "k \<notin> D \<Longrightarrow> wallet k = None \<Longrightarrow> w_tx (wa_tx api k) = None" "k \<notin> D \<Longrightarrow> wallet k = Some w \<Longrightarrow> wa_tx api k = w \<and> w \<in> set (wa_txs api)"
    "\<And>w. k \<notin> D \<Longrightarrow> w \<in> set (wa_txs api) \<Longrightarrow> truthful wallet k w" "k \<notin> D \<Longrightarrow> truthful wallet k (wa_tx api k')"
proof -
  have d: "k \<notin> D \<Longrightarrow> (case wallet k of None \<Rightarrow> w_tx (wa_tx api k) = None | Some w \<Rightarrow> wa_tx api k = w \<and> w \<in> set (wa_txs api)) \<and>
      (\<forall>w\<in>set (wa_txs api). truthful wallet k w)" and own: "\<And>k tx. w_tx (wa_tx api k) = Some tx \<Longrightarrow> t_hash tx = k \<and> se_valid_hash env k"
    and all: "\<forall>w\<in>set (wa_txs api). wtx_ok env w"
    using assms by (simp_all add: api_ok_def)
  show "\<And>w. w \<in> set (wa_txs api) \<Longrightarrow> wtx_ok env w" using all by blast
  show "wtx_ok env (wa_tx api k)" using own by (auto simp: wtx_ok_def)
  show "w_tx (wa_tx api k) = Some tx \<Longrightarrow> t_hash tx = k" using own by blast
  show "k \<notin> D \<Longrightarrow> wallet k = None \<Longrightarrow> w_tx (wa_tx api k) = None" "k \<notin> D \<Longrightarrow> wallet k = Some w \<Longrightarrow> wa_tx api k = w \<and> w \<in> set (wa_txs api)"
    "\<And>w. k \<notin> D \<Longrightarrow> w \<in> set (wa_txs api) \<Longrightarrow> truthful wallet k w" using d by simp_all
  show "k \<notin> D \<Longrightarrow> truthful wallet k (wa_tx api k')" using d own by (cases "wallet k") (auto simp: truthful_def)
qed

lemma present_mem: "(k \<in> set (present_txids ws)) = (\<exists>w tx. w \<in> set ws \<and> w_tx w = Some tx \<and> t_hash tx = k)"
  by (force simp: present_txids_def split: option.splits)

lemma map_of_filter_key: "map_of (filter (\<lambda>kr. P (fst kr)) rs) k = (if P k then map_of rs k else None)"
  by (induction rs) auto

lemma reload_step_spec:
  assumes "recs_wf env (sn_records s)" "api_ok env wallet D api" "wallet_ok env wallet"
  shows "recs_wf env (sn_records (reload_step env api s)) \<and> (k \<notin> D \<longrightarrow> up_to_date env wallet (sn_records (reload_step env api s)) k)"
proof -
  let ?s = "fold (read_record env api) (wa_txs api) s"
  have recs: "sn_records (reload_step env api s) = filter (\<lambda>kr. fst kr \<in> set (present_txids (wa_txs api))) (sn_records ?s)" by (simp add: reload_step_def Let_def)
  note of = map_of_filter_key [of "\<lambda>x. x \<in> set (present_txids (wa_txs api))" "sn_records ?s" k]
  have wf: "recs_wf env (sn_records ?s)" using read_all_wf [OF assms(1)] api_okD(1) [OF assms(2)] by blast
  have "up_to_date env wallet (sn_records (reload_step env api s)) k" if k: "k \<notin> D"
  proof -
    note ok = api_okD(1,6) [OF assms(2)]
    have all: "\<forall>w\<in>set (wa_txs api). wtx_ok env w \<and> truthful wallet k w" using ok k by blast
    show ?thesis
    proof (cases "wallet k")
      case None
      then have "k \<notin> set (present_txids (wa_txs api))" using all by (auto simp: present_mem truthful_def)
      then show ?thesis using of by (simp add: recs up_to_date_def None)
    next
      case (Some w)
      then obtain tx where tx: "w_tx w = Some tx" "t_hash tx = k" using assms(3) by (auto simp: wallet_ok_def)
      have "w \<in> set (wa_txs api)" using api_okD(5) [OF assms(2) k Some] by simp
      then have "up_to_date env wallet (sn_records ?s) k" "k \<in> set (present_txids (wa_txs api))"
        using read_all [OF assms(1) all] Some tx by (auto simp: present_mem)
      then show ?thesis using up_to_date_cong [of "sn_records (reload_step env api s)" k "sn_records ?s"] of by (simp add: recs content_at_def)
    qed
  qed
  then show ?thesis using wf by (simp add: recs recs_wf_filter)
qed


lemma erase_step: "content_at (qmap_erase k' rs) k = (if k = k' then None else content_at rs k)"
  unfolding qmap_erase_def content_at_def using map_of_filter_key [of "\<lambda>x. x \<noteq> k'" rs k] by simp

lemma transaction_step_spec:
  assumes "recs_wf env (sn_records s)" "api_ok env wallet D api" "wallet_ok env wallet"
  shows "recs_wf env (sn_records (transaction_step env api k' s)) \<and>
    (k \<notin> D \<and> (k' = k \<or> up_to_date env wallet (sn_records s) k) \<longrightarrow> up_to_date env wallet (sn_records (transaction_step env api k' s)) k)"
proof -
  have q: "qsorted (sn_records s)" using assms(1) by (simp add: recs_wf_def)
  have wf: "recs_wf env (sn_records (transaction_step env api k' s))"
    using read_record_wf [OF assms(1) api_okD(2) [OF assms(2)]] assms(1) by (auto simp: transaction_step_def qmap_erase_def recs_wf_filter)
  have inv: "map_of (sn_records s) k' = None" if "\<not> se_valid_hash env k'"
  proof (rule ccontr)
    assume "map_of (sn_records s) k' \<noteq> None"
    then obtain r where "(k', r) \<in> set (sn_records s)" by (auto dest: map_of_SomeD)
    then show False using that assms(1) by (auto simp: recs_wf_def rec_wf_def)
  qed
  have "up_to_date env wallet (sn_records (transaction_step env api k' s)) k" if k: "k \<notin> D" "k' = k \<or> up_to_date env wallet (sn_records s) k"
  proof (cases "se_valid_hash env k'")
    case False
    then have "transaction_step env api k' s = s" by (simp add: transaction_step_def)
    moreover have "wallet k' = None" using False assms(3) by (cases "wallet k'") (auto simp: wallet_ok_def)
    ultimately show ?thesis using k(2) inv [OF False] by (auto simp: up_to_date_def)
  next
    case True
    show ?thesis
    proof (cases "w_tx (wa_tx api k')")
      case None
      then have s: "sn_records (transaction_step env api k' s) = qmap_erase k' (sn_records s)" using True by (simp add: transaction_step_def)
      show ?thesis
      proof (cases "k' = k")
        case True
        have "wallet k = None"
        proof (rule ccontr)
          assume "wallet k \<noteq> None"
          then obtain w where w: "wallet k = Some w" by blast
          then obtain tx where "w_tx w = Some tx" using assms(3) unfolding wallet_ok_def by blast
          then show False using None True api_okD(5) [OF assms(2) k(1) w] by simp
        qed
        moreover have "content_at (sn_records (transaction_step env api k' s)) k = None" unfolding s using erase_step [of k' "sn_records s" k] True by simp
        ultimately show ?thesis by (simp add: up_to_date_def content_None)
      next
        case False
        then show ?thesis using k(2) up_to_date_cong [of "qmap_erase k' (sn_records s)" k "sn_records s"] by (simp add: s erase_step)
      qed
    next
      case (Some tx)
      then have s: "transaction_step env api k' s = read_record env api (wa_tx api k') s" using True by (simp add: transaction_step_def)
      have h: "t_hash tx = k'" using api_okD(3) [OF assms(2)] Some by blast
      show ?thesis
      proof (cases "k' = k")
        case True
        then have "wallet k = Some (wa_tx api k')" using api_okD(7) [OF assms(2) k(1)] Some h by (auto simp: truthful_def)
        then show ?thesis unfolding s using read_record_refreshes [OF q] Some h True by blast
      next
        case False
        then show ?thesis unfolding s using read_record_keeps [OF q api_okD(7) [OF assms(2) k(1)]] k(2) by blast
      qed
    qed
  qed
  with wf show ?thesis by blast
qed

lemma transactions_spec:
  assumes "recs_wf env (sn_records s)" "api_ok env wallet D api" "wallet_ok env wallet"
  shows "recs_wf env (sn_records (fold (transaction_step env api) ks s)) \<and>
    (k \<notin> D \<and> (k \<in> set ks \<or> up_to_date env wallet (sn_records s) k) \<longrightarrow> up_to_date env wallet (sn_records (fold (transaction_step env api) ks s)) k)"
  using assms(1)
proof (induction ks arbitrary: s)
  case (Cons k' ks)
  note step = transaction_step_spec [OF Cons.prems assms(2,3), of k' k]
  show ?case using Cons.IH [OF step [THEN conjunct1]] step by auto
qed auto


text \<open>The details that belong to a transaction.\<close>

definition details_of :: "source_env \<Rightarrow> qstring \<times> tx_flow option \<times> qstring \<Rightarrow> bool" where
  "details_of env d \<longleftrightarrow>
     (case d of (txid, flow, raw) \<Rightarrow>
        (flow = None \<or> (\<exists>w tx prevouts collapse. w_tx w = Some tx \<and> t_hash tx = txid \<and> flow = BuildTransactionFlow (se_flow env) w prevouts collapse)) \<and>
        (raw = [] \<or> (\<exists>tx. t_hash tx = txid \<and> raw = se_hex env tx)))"

lemma details_of_built: "w_tx w = Some tx \<Longrightarrow> t_hash tx = t \<Longrightarrow> details_of env (t, BuildTransactionFlow (se_flow env) w prevouts collapse, se_hex env tx)"
  unfolding details_of_def prod.case by blast

lemma details_of_none: "details_of env (t, f, raw) \<Longrightarrow> details_of env (t, None, raw)"
  by (simp add: details_of_def)

lemma flow_step_frame [simp]: "detail_part (flow_step env api work s) = detail_part s" "sn_records (flow_step env api work s) = sn_records s"
  "sn_rows_changed (flow_step env api work s) = sn_rows_changed s"
  by (simp_all add: flow_step_def detail_part_def Let_def)

lemma details_step_spec:
  assumes "recs_wf env (sn_records s)" "api_ok env wallet D api" "wallet_ok env wallet"
  shows "recs_wf env (sn_records (details_step env api work s)) \<and>
    (k \<notin> D \<and> up_to_date env wallet (sn_records s) k \<longrightarrow> up_to_date env wallet (sn_records (details_step env api work s)) k) \<and>
    (sn_rows_changed s \<longrightarrow> sn_rows_changed (details_step env api work s)) \<and>
    (\<not> sn_rows_changed (details_step env api work s) \<longrightarrow> sn_records (details_step env api work s) = sn_records s) \<and>
    sn_detail_txid (details_step env api work s) = sn_detail_txid s \<and>
    (details_of env (detail_part s) \<longrightarrow> details_of env (detail_part (details_step env api work s)))"
proof -
  define t where "t = sn_detail_txid s"
  define s1 where "s1 = (if se_valid_hash env t \<and> map_of (sn_records s) t = None then (read_record env api (wa_tx api t) s)\<lparr>sn_rows_changed := True\<rparr> else s)"
  have rr: "detail_part (read_record env api (wa_tx api t) s) = detail_part s" by simp
  have s1: "detail_part s1 = detail_part s" "sn_rows_changed s \<Longrightarrow> sn_rows_changed s1" "\<not> sn_rows_changed s1 \<Longrightarrow> sn_records s1 = sn_records s"
    using rr by (auto simp: s1_def detail_part_def)
  have wf: "recs_wf env (sn_records s1)" using assms(1) read_record_wf [OF assms(1) api_okD(2) [OF assms(2)]] by (simp add: s1_def)
  have up: "up_to_date env wallet (sn_records s1) k" if "k \<notin> D" "up_to_date env wallet (sn_records s) k"
    using that read_record_keeps [OF _ api_okD(7) [OF assms(2) that(1)] that(2)] assms(1) by (simp add: s1_def recs_wf_def)
  obtain s2 where s2: "s2 = details_step env api work s" by simp
  have res: "sn_records s2 = sn_records s1 \<and> sn_rows_changed s2 = sn_rows_changed s1 \<and> sn_detail_txid s2 = t \<and>
      (detail_part s2 = (t, None, sn_raw s1) \<or> detail_part s2 = detail_part s1 \<or>
       (\<exists>tx. w_tx (wa_tx api t) = Some tx \<and> detail_part s2 = (t, BuildTransactionFlow (se_flow env) (wa_tx api t) (read_prevouts env api tx) False, se_hex env tx)))"
  proof -
    define s3 where "s3 = s1\<lparr>sn_missing := (\<not> se_valid_hash env t \<or> map_of (sn_records s1) t = None), sn_can_bump := False\<rparr>"
    have t1: "sn_detail_txid s1 = t" using s1(1) by (simp add: detail_part_def t_def)
    have eq: "s2 = (if sn_missing s3 then s3\<lparr>sn_flow := None\<rparr>
         else if \<not> sn_flow_resolved s3 \<or> sn_flow s3 = None \<or> wk_reload work \<or> wk_transactions work \<noteq> [] then
           (case w_tx (wa_tx api t) of
              None \<Rightarrow> s3\<lparr>sn_missing := True, sn_flow := None\<rparr>
            | Some tx \<Rightarrow> flow_step env api work
                (s3\<lparr>sn_flow := BuildTransactionFlow (se_flow env) (wa_tx api t) (read_prevouts env api tx) False, sn_flow_resolved := True,
                    sn_raw := se_hex env tx, sn_labels := []\<rparr>))
         else flow_step env api work s3)"
      unfolding s2 details_step_def Let_def t_def [symmetric] s1_def [symmetric] s3_def [symmetric] ..
    have tx: "sn_detail_txid (flow_step env api work x) = sn_detail_txid x" for x using flow_step_frame(1) [of env api work x] by (simp add: detail_part_def)
    have s3: "sn_records s3 = sn_records s1" "sn_rows_changed s3 = sn_rows_changed s1" "sn_detail_txid s3 = t" "detail_part s3 = detail_part s1" "sn_raw s3 = sn_raw s1"
      by (simp_all add: s3_def t1 detail_part_def)
    show ?thesis
    proof (cases "sn_missing s3")
      case True
      then show ?thesis using s3 by (simp add: eq detail_part_def)
    next
      case False
      then show ?thesis using s3 by (auto simp: eq tx split: option.split) (auto simp: detail_part_def)
    qed
  qed
  have "details_of env (detail_part s2)" if "details_of env (detail_part s)"
  proof -
    have d1: "details_of env (t, sn_flow s1, sn_raw s1)" using that s1(1) by (simp add: detail_part_def t_def)
    from res consider "detail_part s2 = (t, None, sn_raw s1)" | "detail_part s2 = detail_part s1"
      | tx where "w_tx (wa_tx api t) = Some tx" "detail_part s2 = (t, BuildTransactionFlow (se_flow env) (wa_tx api t) (read_prevouts env api tx) False, se_hex env tx)" by blast
    then show ?thesis
    proof cases
      case 1
      then show ?thesis using details_of_none [OF d1] by simp
    next
      case 2
      then show ?thesis using that s1(1) by simp
    next
      case 3
      then show ?thesis using details_of_built api_okD(3) [OF assms(2)] by metis
    qed
  qed
  then show ?thesis using res s1 wf up by (auto simp: s2 [symmetric] t_def)
qed

lemma source_readSnapshot_spec:
  assumes "recs_wf env (sn_records s)" "api_ok env wallet D api" "wallet_ok env wallet" "r = source_readSnapshot env api s work"
  shows "recs_wf env (sn_records r) \<and>
    (k \<notin> D \<and> (wk_reload work \<or> k \<in> set (wk_transactions work) \<or> up_to_date env wallet (sn_records s) k) \<longrightarrow> up_to_date env wallet (sn_records r) k) \<and>
    (wk_reload work \<longrightarrow> sn_rows_changed r) \<and> (\<not> sn_rows_changed r \<longrightarrow> sn_records r = sn_records s) \<and> sn_detail_txid r = sn_detail_txid s \<and>
    (details_of env (detail_part s) \<longrightarrow> details_of env (detail_part r))"
proof -
  define s1 where "s1 = (if wk_reload work then reload_step env api s else s)"
  define s2 where "s2 = fold (transaction_step env api) (wk_transactions work) s1"
  define s3 where "s3 = (if wk_labels work then labels_step env api s2 else s2)"
  obtain statuses s4 where s4: "poll_step api work s3 = (statuses, s4)" by (cases "poll_step api work s3")
  define retry where "retry = (wk_poll work \<and> sn_retry s4 \<noteq> [])"
  define s5 where "s5 = status_step api statuses retry s4"
  define ch where "ch = (wk_reload work \<or> wk_labels work \<or> statuses \<or> retry \<or> wk_transactions work \<noteq> [])"
  define s6 where "s6 = s5\<lparr>sn_rows_changed := ch, sn_details_changed := (wk_details work \<or> ch)\<rparr>"
  have r: "r = (if sn_detail_txid s6 = [] \<or> \<not> sn_details_changed s6 then s6 else details_step env api work s6)"
    unfolding assms(4) source_readSnapshot_def Let_def s1_def [symmetric] s2_def [symmetric] s3_def [symmetric] s4 prod.case retry_def [symmetric] s5_def [symmetric]
      ch_def [symmetric] s6_def [symmetric] ..
  have w1: "recs_wf env (sn_records s1)" "k \<notin> D \<Longrightarrow> wk_reload work \<or> up_to_date env wallet (sn_records s) k \<Longrightarrow> up_to_date env wallet (sn_records s1) k"
    using reload_step_spec [OF assms(1-3), of k] assms(1) by (auto simp: s1_def)
  have w2: "recs_wf env (sn_records s2)"
    "k \<notin> D \<Longrightarrow> wk_reload work \<or> k \<in> set (wk_transactions work) \<or> up_to_date env wallet (sn_records s) k \<Longrightarrow> up_to_date env wallet (sn_records s2) k"
    using transactions_spec [OF w1(1) assms(2,3), of "wk_transactions work" k] w1(2) by (auto simp: s2_def)
  have p: "detail_part s4 = detail_part s3" "sn_records s4 = sn_records s3" using poll_detail [of api work s3] by (simp_all add: s4)
  have w5: "recs_wf env (sn_records s5)" "content_at (sn_records s5) k = content_at (sn_records s2) k" using w2(1) p(2) by (auto simp: s5_def s3_def)
  have d6: "detail_part s6 = detail_part s" "sn_records s6 = sn_records s5" "sn_rows_changed s6 = ch"
  proof -
    have "detail_part s6 = detail_part s5" by (simp add: s6_def detail_part_def)
    then show "detail_part s6 = detail_part s" by (simp add: s5_def p s3_def s2_def s1_def)
  qed (simp_all add: s6_def)
  have same: "sn_records s5 = sn_records s" if "\<not> ch" using that p(2) by (simp add: ch_def s5_def status_step_def s3_def s2_def s1_def)
  have tx: "sn_detail_txid s6 = sn_detail_txid s" using d6(1) by (simp add: detail_part_def)
  have u6: "k \<notin> D \<Longrightarrow> wk_reload work \<or> k \<in> set (wk_transactions work) \<or> up_to_date env wallet (sn_records s) k \<Longrightarrow> up_to_date env wallet (sn_records s6) k"
    using w2(2) w5(2) up_to_date_cong d6(2) by metis
  have w6: "recs_wf env (sn_records s6)" using w5(1) d6(2) by simp
  show ?thesis
  proof (cases "sn_detail_txid s6 = [] \<or> \<not> sn_details_changed s6")
    case True
    then have "r = s6" by (simp add: r)
    then show ?thesis using w6 u6 d6 same tx by (auto simp: ch_def)
  next
    case False
    then have "r = details_step env api work s6" unfolding r by argo
    then show ?thesis using details_step_spec [OF w6 assms(2,3), of work k] u6 d6 same tx by (auto simp: ch_def)
  qed
qed


section \<open>The model and its wallet\<close>

text \<open>
  A state of the whole: the model, the wallet by transaction identifier, the transactions that changed without a delivered notification, the
  requests, and whether a failed read has dropped a reload or a notification.
\<close>

type_synonym source_world = "activity_source \<times> (qstring \<Rightarrow> wallet_tx option) \<times> qstring set \<times> RequestHistory \<times> bool"

definition drops_content :: "source_job \<Rightarrow> activity_source \<Rightarrow> bool" where
  "drops_content j m \<longleftrightarrow> jb_generation j = as_generation m \<and> (wk_reload (jb_work j) \<or> wk_transactions (jb_work j) \<noteq> [])"

text \<open>
  The steps, in any order. The wallet changes at any time, and what changed is notified later; a failed read ends in an error the user can
  answer with a reload.
\<close>

inductive source_step :: "source_env \<Rightarrow> source_world \<Rightarrow> source_world \<Rightarrow> bool" for env where
  change: "wallet_ok env wallet' \<Longrightarrow> D \<subseteq> D' \<Longrightarrow> (\<forall>k. k \<notin> D' \<longrightarrow> wallet' k = wallet k) \<Longrightarrow> source_step env (m, wallet, D, h, lost) (m, wallet', D', h, lost)"
| notify: "source_step env (m, wallet, D, h, lost) (updateTransaction k m, wallet, D - {k}, h, lost)"
| addresses: "source_step env (m, wallet, D, h, lost) (addresses_changed m, wallet, D, h, lost)"
| reload: "source_step env (m, wallet, D, h, lost) (source_reload m, wallet, D, h, False)"
| refresh: "source_step env (m, wallet, D, h, lost) (refreshStatuses m, wallet, D, h, lost)"
| poll: "source_step env (m, wallet, D, h, lost) (source_poll m, wallet, D, h, lost)"
| details: "source_step env (m, wallet, D, h, lost) (requestTransactionDetails env k m, wallet, D, h, lost)"
| unit: "source_step env (m, wallet, D, h, lost) (source_setDisplayUnit env h u m, wallet, D, h, lost)"
| requests: "source_step env (m, wallet, D, h, lost) (source_rebuild env h' m, wallet, D, h', lost)"
| edited: "source_step env (m, wallet, D, h, lost) (requests_edited env h' applying m, wallet, D, h', lost)"
| delayed: "as_rebuild_pending m \<Longrightarrow> source_step env (m, wallet, D, h, lost) (delayed_rebuild env h m, wallet, D, h, lost)"
| start: "as_scheduled m \<Longrightarrow> source_step env (m, wallet, D, h, lost) (startWork m, wallet, D, h, lost)"
| run: "as_job m = Some j \<Longrightarrow> jb_result j = None \<Longrightarrow> api_ok env wallet (D \<union> set (wk_transactions (as_pending m))) api \<Longrightarrow>
    source_step env (m, wallet, D, h, lost) (run_work env api m, wallet, D, h, lost)"
| finish: "as_job m = Some j \<Longrightarrow> jb_result j = Some s \<Longrightarrow> source_step env (m, wallet, D, h, lost) (work_done env h j s m, wallet, D, h, lost)"
| fail: "as_job m = Some j \<Longrightarrow> source_step env (m, wallet, D, h, lost) (work_failed j m, wallet, D, h, lost \<or> drops_content j m)"
| unload: "source_step env (m, wallet, D, h, lost) (source_stop (m\<lparr>as_wallet := False\<rparr>), wallet, D, h, lost)"
| stop: "source_step env (m, wallet, D, h, lost) (source_stop m, wallet, D, h, lost)"

definition source_start :: "source_env \<Rightarrow> source_world \<Rightarrow> bool" where
  "source_start env W \<longleftrightarrow> (\<exists>loaded u wallet h. W = (new_source loaded u, wallet, {}, h, False) \<and> wallet_ok env wallet)"

inductive source_reachable :: "source_env \<Rightarrow> source_world \<Rightarrow> bool" for env where
  init: "source_start env W \<Longrightarrow> source_reachable env W"
| step: "source_reachable env W \<Longrightarrow> source_step env W W' \<Longrightarrow> source_reachable env W'"

section \<open>The invariant\<close>

definition covers :: "Work \<Rightarrow> qstring \<Rightarrow> bool" where
  "covers w k \<longleftrightarrow> wk_reload w \<or> k \<in> set (wk_transactions w)"

definition rows_current :: "source_env \<Rightarrow> RequestHistory \<Rightarrow> activity_source \<Rightarrow> bool" where
  "rows_current env h m \<longleftrightarrow> as_rows m = map snd (target_rows (se_rows env) (as_display_unit m) h (as_records m))"

text \<open>Of the task at the reader.\<close>

definition job_inv :: "source_env \<Rightarrow> source_world \<Rightarrow> source_job \<Rightarrow> bool" where
  "job_inv env W j \<longleftrightarrow>
     (case W of (m, wallet, D, h, lost) \<Rightarrow>
        recs_wf env (sn_records (jb_snapshot j)) \<and> (\<not> as_stopped m \<longrightarrow> sn_records (jb_snapshot j) = as_records m) \<and>
        details_of env (detail_part (jb_snapshot j)) \<and> jb_generation j \<le> as_generation m \<and> jb_detail_generation j \<le> as_detail_generation m \<and>
        (jb_detail_generation j = as_detail_generation m \<longrightarrow> sn_detail_txid (jb_snapshot j) = as_detail_txid m) \<and>
        (\<forall>s. jb_result j = Some s \<longrightarrow>
           recs_wf env (sn_records s) \<and> (wk_reload (jb_work j) \<longrightarrow> sn_rows_changed s) \<and> (\<not> sn_rows_changed s \<longrightarrow> sn_records s = sn_records (jb_snapshot j)) \<and>
           sn_detail_txid s = sn_detail_txid (jb_snapshot j) \<and> details_of env (detail_part s) \<and>
           (jb_generation j = as_generation m \<and> \<not> as_stopped m \<and> \<not> lost \<longrightarrow>
              (\<forall>k. up_to_date env wallet (sn_records s) k \<or> k \<in> D \<or> covers (as_pending m) k))))"

text \<open>What holds before \<open>schedule\<close>, whatever it will do.\<close>

definition source_inv0 :: "source_env \<Rightarrow> source_world \<Rightarrow> bool" where
  "source_inv0 env W \<longleftrightarrow>
     (case W of (m, wallet, D, h, lost) \<Rightarrow>
        wallet_ok env wallet \<and> recs_wf env (as_records m) \<and> sorted_wrt qless (map row_id (as_rows m)) \<and>
        replay copy_roles [] (as_out m) = Some (map row_val (as_rows m)) \<and>
        details_of env (as_detail_txid m, as_flow m, as_raw m) \<and>
        (\<forall>j. as_job m = Some j \<longrightarrow> job_inv env W j) \<and> (as_work_pending m = (as_job m \<noteq> None)) \<and>
        (\<not> as_stopped m \<longrightarrow>
           (\<forall>k. lost \<or> up_to_date env wallet (as_records m) k \<or> k \<in> D \<or> covers (as_pending m) k \<or> (\<exists>j. as_job m = Some j \<and> covers (jb_work j) k)) \<and>
           (lost \<or> rows_current env h m \<or> as_rebuild_pending m \<or> wk_reload (as_pending m) \<or> (\<exists>j. as_job m = Some j \<and> wk_reload (jb_work j))) \<and>
           (as_details_loading m \<longrightarrow> wk_details (as_pending m) \<or>
              (\<exists>j. as_job m = Some j \<and> wk_details (jb_work j) \<and> jb_detail_generation j = as_detail_generation m))))"

definition busy_inv :: "activity_source \<Rightarrow> bool" where
  "busy_inv m \<longleftrightarrow>
     (\<not> as_stopped m \<and> as_wallet m \<longrightarrow>
        (\<not> work_empty (as_pending m) \<or> as_work_pending m \<longrightarrow> as_loading m) \<and> (\<not> work_empty (as_pending m) \<longrightarrow> as_scheduled m \<or> as_work_pending m))"

definition source_inv :: "source_env \<Rightarrow> source_world \<Rightarrow> bool" where
  "source_inv env W \<longleftrightarrow> source_inv0 env W \<and> busy_inv (fst W)"

lemma schedule_frame:
  "schedule m = m\<lparr>as_loading := as_loading (schedule m), as_error := as_error (schedule m), as_scheduled := as_scheduled (schedule m)\<rparr>"
  by (simp add: schedule_def Let_def)

lemma frame_inv0: "source_inv0 env (m\<lparr>as_loading := a, as_error := b, as_scheduled := c\<rparr>, wallet, D, h, lost) = source_inv0 env (m, wallet, D, h, lost)"
  by (simp add: source_inv0_def job_inv_def rows_current_def)

lemma schedule_inv:
  assumes "source_inv0 env (m, wallet, D, h, lost)" "work_empty (as_pending m) \<Longrightarrow> as_wallet m \<Longrightarrow> \<not> as_stopped m \<Longrightarrow> as_work_pending m \<Longrightarrow> as_loading m"
  shows "source_inv env (schedule m, wallet, D, h, lost)"
proof -
  have "source_inv0 env (schedule m, wallet, D, h, lost)" using assms(1) frame_inv0 schedule_frame by metis
  moreover have "busy_inv (schedule m)" using assms(2) by (auto simp: busy_inv_def schedule_def Let_def)
  ultimately show ?thesis by (simp add: source_inv_def)
qed


lemma grow_job:
  assumes "job_inv env (m, wallet, D, h, lost) j" "as_generation m \<le> g" "\<And>k. covers (as_pending m) k \<or> (k \<in> D \<and> k \<notin> D') \<Longrightarrow> covers p k"
    and "lost' = lost \<or> as_generation m < g"
  shows "job_inv env (m\<lparr>as_generation := g, as_pending := p\<rparr>, wallet, D', h, lost') j"
proof -
  note inv = assms(1) [unfolded job_inv_def prod.case]
  have up: "up_to_date env wallet (sn_records s) k \<or> k \<in> D' \<or> covers p k"
    if s: "jb_result j = Some s" "jb_generation j = g" "\<not> as_stopped m" "\<not> lost'" for s k
  proof -
    have "jb_generation j \<le> as_generation m" using inv by blast
    then have "lost' = lost" "as_generation m = g" using assms(2,4) s(2) by auto
    then have "up_to_date env wallet (sn_records s) k \<or> k \<in> D \<or> covers (as_pending m) k" using inv s by blast
    then show ?thesis using assms(3) by blast
  qed
  have le: "jb_generation j \<le> g" using inv assms(2) by linarith
  define m' where "m' = m\<lparr>as_generation := g, as_pending := p\<rparr>"
  have eqs: "as_records m' = as_records m" "as_generation m' = g" "as_detail_generation m' = as_detail_generation m" "as_detail_txid m' = as_detail_txid m"
    "as_stopped m' = as_stopped m" "as_pending m' = p" by (simp_all add: m'_def)
  show ?thesis unfolding job_inv_def prod.case m'_def [symmetric] eqs by (intro conjI allI impI) (use inv le up in blast)+
qed

lemma grow_inv0:
  assumes "source_inv0 env (m, wallet, D, h, lost)" "as_generation m \<le> g" "\<And>k. covers (as_pending m) k \<or> (k \<in> D \<and> k \<notin> D') \<Longrightarrow> covers p k"
    and "wk_reload (as_pending m) \<Longrightarrow> wk_reload p" "wk_details (as_pending m) \<Longrightarrow> wk_details p" "lost' = lost \<or> wk_reload p \<and> as_generation m < g"
  shows "source_inv0 env (m\<lparr>as_generation := g, as_pending := p\<rparr>, wallet, D', h, lost')"
proof -
  note inv = assms(1) [unfolded source_inv0_def prod.case]
  have job: "job_inv env (m\<lparr>as_generation := g, as_pending := p\<rparr>, wallet, D', h, lost') j" if "as_job m = Some j" for j
    by (rule grow_job [where D = D and lost = lost]) (use inv that assms in blast)+
  have content: "lost' \<or> up_to_date env wallet (as_records m) k \<or> k \<in> D' \<or> covers p k \<or> (\<exists>j. as_job m = Some j \<and> covers (jb_work j) k)" if "\<not> as_stopped m" for k
  proof (cases "wk_reload p")
    case False
    then have "lost' = lost" using assms(6) by blast
    then show ?thesis using inv that assms(3) [of k] by blast
  qed (simp add: covers_def)
  have rows: "lost' \<or> rows_current env h m \<or> as_rebuild_pending m \<or> wk_reload p \<or> (\<exists>j. as_job m = Some j \<and> wk_reload (jb_work j))" if "\<not> as_stopped m"
    using inv that assms(4,6) by blast
  define m' where "m' = m\<lparr>as_generation := g, as_pending := p\<rparr>"
  have eqs: "as_records m' = as_records m" "as_rows m' = as_rows m" "as_out m' = as_out m" "as_detail_generation m' = as_detail_generation m"
    "as_detail_txid m' = as_detail_txid m" "as_flow m' = as_flow m" "as_raw m' = as_raw m" "as_job m' = as_job m" "as_work_pending m' = as_work_pending m"
    "as_stopped m' = as_stopped m" "as_pending m' = p" "as_rebuild_pending m' = as_rebuild_pending m" "as_details_loading m' = as_details_loading m"
    "rows_current env h m' = rows_current env h m" by (simp_all add: m'_def rows_current_def)
  note job = job [folded m'_def]
  show ?thesis unfolding source_inv0_def prod.case m'_def [symmetric] eqs by (intro conjI allI impI) (use inv job content rows assms(5) in blast)+
qed

lemma merge_covers [simp]: "covers (work_merge p w) k = (covers p k \<or> covers w k)"
proof -
  have "set (fold List.insert xs ys) = set xs \<union> set ys" for xs ys :: "qstring list" by (induction xs arbitrary: ys) auto
  then show ?thesis by (auto simp: covers_def work_merge_def)
qed

lemma merge_simps [simp]: "wk_reload (work_merge p w) = (wk_reload p \<or> wk_reload w)" "wk_details (work_merge p w) = (wk_details p \<or> wk_details w)"
  by (simp_all add: work_merge_def)

lemma insert_not_Nil: "List.insert k ks \<noteq> []"
  by (auto simp: List.insert_def)

lemma source_invD: "source_inv env (m, wallet, D, h, lost) \<Longrightarrow> source_inv0 env (m, wallet, D, h, lost)"
  by (simp add: source_inv_def)

lemma notify_inv: "source_inv env (m, wallet, D, h, lost) \<Longrightarrow> source_inv env (updateTransaction k m, wallet, D - {k}, h, lost)"
  unfolding updateTransaction_def by (intro schedule_inv grow_inv0) (auto simp: covers_def work_empty_def insert_not_Nil dest: source_invD)

lemma addresses_inv: "source_inv env (m, wallet, D, h, lost) \<Longrightarrow> source_inv env (addresses_changed m, wallet, D, h, lost)"
  unfolding addresses_changed_def by (intro schedule_inv grow_inv0) (auto simp: covers_def work_empty_def insert_not_Nil dest: source_invD)

lemma reload_inv: "source_inv env (m, wallet, D, h, lost) \<Longrightarrow> source_inv env (source_reload m, wallet, D, h, False)"
  unfolding source_reload_def by (intro schedule_inv grow_inv0) (auto simp: covers_def work_empty_def insert_not_Nil dest: source_invD)


lemma same_generation: "m\<lparr>as_pending := p\<rparr> = m\<lparr>as_generation := as_generation m, as_pending := p\<rparr>"
  by simp

lemma source_refresh_inv: "source_inv env (m, wallet, D, h, lost) \<Longrightarrow> source_inv env (refreshStatuses m, wallet, D, h, lost)"
  unfolding refreshStatuses_def by (intro schedule_inv, subst same_generation, intro grow_inv0) (auto simp: covers_def work_empty_def dest: source_invD)

lemma poll_inv: "source_inv env (m, wallet, D, h, lost) \<Longrightarrow> source_inv env (source_poll m, wallet, D, h, lost)"
  unfolding source_poll_def by (intro schedule_inv, subst same_generation, intro grow_inv0) (auto simp: covers_def work_empty_def dest: source_invD)

text \<open>Other rows.\<close>

lemma rows_inv0:
  assumes "source_inv0 env (m, wallet, D, h, lost)" "m' = m\<lparr>as_display_unit := u, as_rebuild_pending := b, as_rows := rows, as_out := out\<rparr>"
    and "sorted_wrt qless (map row_id rows)" "replay copy_roles [] out = Some (map row_val rows)" "\<not> as_stopped m \<Longrightarrow> b \<or> rows_current env h' m'"
  shows "source_inv0 env (m', wallet, D, h', lost)"
proof -
  note inv = assms(1) [unfolded source_inv0_def prod.case]
  have eqs: "as_records m' = as_records m" "as_rows m' = rows" "as_out m' = out" "as_detail_generation m' = as_detail_generation m"
    "as_detail_txid m' = as_detail_txid m" "as_flow m' = as_flow m" "as_raw m' = as_raw m" "as_job m' = as_job m" "as_work_pending m' = as_work_pending m"
    "as_stopped m' = as_stopped m" "as_pending m' = as_pending m" "as_rebuild_pending m' = b" "as_details_loading m' = as_details_loading m"
    "as_generation m' = as_generation m" by (simp_all add: assms(2))
  have job: "job_inv env (m', wallet, D, h', lost) j = job_inv env (m, wallet, D, h, lost) j" for j by (simp add: job_inv_def eqs)
  show ?thesis unfolding source_inv0_def prod.case eqs job by (intro conjI allI impI) (use inv assms(3-5) in blast)+
qed

lemma rebuild_eq:
  assumes "sorted_wrt qless (map row_id (as_rows m))" "replay copy_roles [] (as_out m) = Some (map row_val (as_rows m))"
  obtains sigs where
    "source_rebuild env h m = m\<lparr>as_rows := map snd (target_rows (se_rows env) (as_display_unit m) h (as_records m)), as_out := as_out m @ sigs\<rparr>"
    "sorted_wrt qless (map row_id (map snd (target_rows (se_rows env) (as_display_unit m) h (as_records m))))"
    "replay copy_roles [] (as_out m @ sigs) = Some (map row_val (map snd (target_rows (se_rows env) (as_display_unit m) h (as_records m))))"
proof -
  let ?t = "target_rows (se_rows env) (as_display_unit m) h (as_records m)"
  have spec: "fst (reconcile [] (as_rows m) ?t None) = map snd ?t"
    "replay copy_roles (map row_val (as_rows m)) (snd (reconcile [] (as_rows m) ?t None)) = Some (map row_val (map snd ?t))"
    using reconcile_spec [OF _ assms(1) target_sorted target_row_ids, of None "[]" "[]" "se_rows env" "as_display_unit m" h "as_records m"] by (simp_all add: lags_def)
  show thesis
  proof (rule that)
    show "source_rebuild env h m = m\<lparr>as_rows := map snd ?t, as_out := as_out m @ snd (reconcile [] (as_rows m) ?t None)\<rparr>"
      by (simp add: source_rebuild_def rebuildRows_def case_prod_unfold Let_def spec(1))
    show "sorted_wrt qless (map row_id (map snd ?t))" using target_sorted [of "se_rows env" "as_display_unit m" h "as_records m"] by (simp only: target_ids qsorted_def)
    show "replay copy_roles [] (as_out m @ snd (reconcile [] (as_rows m) ?t None)) = Some (map row_val (map snd ?t))"
      using spec(2) assms(2) by (simp add: replay_append)
  qed
qed

lemma rebuild_inv0:
  assumes "source_inv0 env (m, wallet, D, h, lost)"
  shows "source_inv0 env (source_rebuild env h' (m\<lparr>as_display_unit := u, as_rebuild_pending := b\<rparr>), wallet, D, h', lost)"
proof -
  let ?m = "m\<lparr>as_display_unit := u, as_rebuild_pending := b\<rparr>"
  have "sorted_wrt qless (map row_id (as_rows ?m))" "replay copy_roles [] (as_out ?m) = Some (map row_val (as_rows ?m))"
    using assms by (simp_all add: source_inv0_def)
  then obtain sigs where r: "source_rebuild env h' ?m = ?m\<lparr>as_rows := map snd (target_rows (se_rows env) (as_display_unit ?m) h' (as_records ?m)), as_out := as_out ?m @ sigs\<rparr>"
    "sorted_wrt qless (map row_id (map snd (target_rows (se_rows env) (as_display_unit ?m) h' (as_records ?m))))"
    "replay copy_roles [] (as_out ?m @ sigs) = Some (map row_val (map snd (target_rows (se_rows env) (as_display_unit ?m) h' (as_records ?m))))"
    by (rule rebuild_eq)
  show ?thesis by (rule rows_inv0 [OF assms _ r(2,3)]) (simp_all add: r(1) rows_current_def)
qed

lemma rebuild_busy [simp]: "busy_inv (source_rebuild env h m) = busy_inv m"
  by (simp add: source_rebuild_def busy_inv_def Let_def case_prod_unfold)

lemma busy_frame [simp]: "busy_inv (m\<lparr>as_display_unit := u\<rparr>) = busy_inv m" "busy_inv (m\<lparr>as_rebuild_pending := b\<rparr>) = busy_inv m"
  by (simp_all add: busy_inv_def)

lemma rebuild_inv: "source_inv env (m, wallet, D, h, lost) \<Longrightarrow> source_inv env (source_rebuild env h' m, wallet, D, h', lost)"
  using rebuild_inv0 [of env m wallet D h lost h' "as_rebuild_pending m" "as_display_unit m"] by (simp add: source_inv_def)

lemma unit_inv: "source_inv env (m, wallet, D, h, lost) \<Longrightarrow> source_inv env (source_setDisplayUnit env h u m, wallet, D, h, lost)"
  using rebuild_inv0 [of env m wallet D h lost h "as_rebuild_pending m" u] by (simp add: source_inv_def source_setDisplayUnit_def)

lemma marked_inv:
  assumes "source_inv0 env (m, wallet, D, h, lost)" "b \<or> as_stopped m"
  shows "source_inv0 env (m\<lparr>as_rebuild_pending := b\<rparr>, wallet, D, h', lost)"
  by (rule rows_inv0 [OF assms(1), where u = "as_display_unit m" and rows = "as_rows m" and out = "as_out m"]) (use assms in \<open>auto simp: source_inv0_def\<close>)

lemma edited_inv:
  assumes "source_inv env (m, wallet, D, h, lost)"
  shows "source_inv env (requests_edited env h' applying m, wallet, D, h', lost)"
proof (cases "\<not> applying \<and> \<not> as_rebuild_pending m")
  case True
  then show ?thesis using rebuild_inv [OF assms, of h'] by (simp add: requests_edited_def)
next
  case False
  then have "requests_edited env h' applying m = m\<lparr>as_rebuild_pending := True\<rparr>" by (auto simp: requests_edited_def)
  then show ?thesis using marked_inv [OF source_invD [OF assms], of True h'] assms by (simp add: source_inv_def)
qed

lemma delayed_inv:
  assumes "source_inv env (m, wallet, D, h, lost)"
  shows "source_inv env (delayed_rebuild env h m, wallet, D, h, lost)"
  using marked_inv [OF source_invD [OF assms], of False h] rebuild_inv0 [OF source_invD [OF assms], of h False "as_display_unit m"] assms
  by (auto simp: delayed_rebuild_def source_inv_def Let_def)


lemma change_inv:
  assumes "source_inv env (m, wallet, D, h, lost)" "wallet_ok env wallet'" "D \<subseteq> D'" "\<forall>k. k \<notin> D' \<longrightarrow> wallet' k = wallet k"
  shows "source_inv env (m, wallet', D', h, lost)"
proof -
  note inv = source_invD [OF assms(1), unfolded source_inv0_def prod.case]
  have up: "up_to_date env wallet rs k \<or> k \<in> D \<Longrightarrow> up_to_date env wallet' rs k \<or> k \<in> D'" for rs k
    using assms(3,4) by (auto simp: up_to_date_def)
  have job: "job_inv env (m, wallet', D', h, lost) j" if j: "job_inv env (m, wallet, D, h, lost) j" for j
  proof -
    note ji = j [unfolded job_inv_def prod.case]
    have last: "up_to_date env wallet' (sn_records s) k \<or> k \<in> D' \<or> covers (as_pending m) k"
      if "jb_result j = Some s" "jb_generation j = as_generation m" "\<not> as_stopped m" "\<not> lost" for s k
    proof -
      have "up_to_date env wallet (sn_records s) k \<or> k \<in> D \<or> covers (as_pending m) k" using ji that by blast
      then show ?thesis using up by blast
    qed
    show ?thesis unfolding job_inv_def prod.case by (intro conjI allI impI) (use ji last in blast)+
  qed
  have content: "lost \<or> up_to_date env wallet' (as_records m) k \<or> k \<in> D' \<or> covers (as_pending m) k \<or> (\<exists>j. as_job m = Some j \<and> covers (jb_work j) k)" if "\<not> as_stopped m" for k
  proof -
    have "lost \<or> up_to_date env wallet (as_records m) k \<or> k \<in> D \<or> covers (as_pending m) k \<or> (\<exists>j. as_job m = Some j \<and> covers (jb_work j) k)" using inv that by blast
    then show ?thesis using up by blast
  qed
  have "source_inv0 env (m, wallet', D', h, lost)"
    unfolding source_inv0_def prod.case by (intro conjI allI impI) (use inv assms(2) job content in blast)+
  then show ?thesis using assms(1) by (simp add: source_inv_def)
qed

lemma source_stop_inv:
  assumes "source_inv env (m, wallet, D, h, lost)"
  shows "source_inv env (source_stop m, wallet, D, h, lost)"
proof (cases "as_stopped m")
  case False
  define m' where "m' = m\<lparr>as_stopped := True, as_timer := False, as_loading := False, as_details_loading := False, as_cancelled := True\<rparr>"
  note inv = source_invD [OF assms, unfolded source_inv0_def prod.case]
  have eqs: "as_records m' = as_records m" "as_rows m' = as_rows m" "as_out m' = as_out m" "as_detail_generation m' = as_detail_generation m"
    "as_detail_txid m' = as_detail_txid m" "as_flow m' = as_flow m" "as_raw m' = as_raw m" "as_job m' = as_job m" "as_work_pending m' = as_work_pending m"
    "as_stopped m' = True" "as_pending m' = as_pending m" "as_generation m' = as_generation m" by (simp_all add: m'_def)
  have job: "job_inv env (m', wallet, D, h, lost) j" if "job_inv env (m, wallet, D, h, lost) j" for j
    unfolding job_inv_def prod.case eqs by (intro conjI allI impI) (use that [unfolded job_inv_def prod.case] in blast)+
  have "source_inv0 env (m', wallet, D, h, lost)" unfolding source_inv0_def prod.case eqs by (intro conjI allI impI) (use inv job in blast)+
  then have "source_inv env (m', wallet, D, h, lost)" by (simp add: source_inv_def busy_inv_def eqs)
  then show ?thesis using False by (simp add: source_stop_def m'_def)
qed (use assms in \<open>simp add: source_stop_def\<close>)

lemma unload_inv:
  assumes "source_inv env (m, wallet, D, h, lost)"
  shows "source_inv env (source_stop (m\<lparr>as_wallet := False\<rparr>), wallet, D, h, lost)"
proof -
  have "job_inv env (m\<lparr>as_wallet := False\<rparr>, wallet, D, h, lost) j = job_inv env (m, wallet, D, h, lost) j" for j by (simp add: job_inv_def)
  then have "source_inv env (m\<lparr>as_wallet := False\<rparr>, wallet, D, h, lost)"
    using assms by (simp add: source_inv_def source_inv0_def busy_inv_def rows_current_def)
  then show ?thesis by (rule source_stop_inv)
qed

text \<open>A request for details.\<close>

lemma details_eq:
  assumes "source_inv0 env (m, wallet, D, h, lost)" "\<not> as_stopped m"
  obtains f raw res labs where
    "requestTransactionDetails env k m = schedule (m\<lparr>as_detail_generation := as_detail_generation m + 1, as_detail_txid := k, as_flow := f, as_raw := raw,
       as_flow_resolved := res, as_labels := labs, as_can_bump := False, as_missing := False, as_details_loading := (k \<noteq> []),
       as_pending := (as_pending m)\<lparr>wk_details := (k \<noteq> [])\<rparr>\<rparr>)" "details_of env (k, f, raw)"
proof -
  define old where "old = (if as_detail_txid m \<noteq> k then None else as_flow m)"
  define oraw where "oraw = (if as_detail_txid m \<noteq> k then [] else as_raw m)"
  define labs where "labs = (if as_detail_txid m \<noteq> k then [] else as_labels m)"
  define res where "res = (if old = None then False else as_flow_resolved m)"
  have wf: "recs_wf env (as_records m)" and d: "details_of env (as_detail_txid m, as_flow m, as_raw m)" using assms(1) by (simp_all add: source_inv0_def)
  have d1: "details_of env (k, old, oraw)" using d by (cases "as_detail_txid m = k") (simp_all add: old_def oraw_def, simp add: details_of_def)
  define f where "f = (if old = None then preview env k m else old)"
  define raw where "raw = (if old = None then [] else oraw)"
  have "details_of env (k, preview env k m, [])"
  proof (cases "map_of (as_records m) k")
    case (Some r)
    then have "rec_wf env k r" using wf by (auto simp: recs_wf_def dest!: map_of_SomeD)
    then obtain tx where "w_tx (cached_tx r) = Some tx" "t_hash tx = k" by (auto simp: rec_wf_def cached_tx_def)
    then show ?thesis unfolding details_of_def prod.case preview_def Some option.case by blast
  qed (simp add: preview_def details_of_def)
  then have "details_of env (k, f, raw)" using d1 by (simp add: f_def raw_def)
  moreover have "requestTransactionDetails env k m = schedule (m\<lparr>as_detail_generation := as_detail_generation m + 1, as_detail_txid := k, as_flow := f, as_raw := raw,
       as_flow_resolved := res, as_labels := labs, as_can_bump := False, as_missing := False, as_details_loading := (k \<noteq> []),
       as_pending := (as_pending m)\<lparr>wk_details := (k \<noteq> [])\<rparr>\<rparr>)"
  proof -
    have *: "requestTransactionDetails env k m = schedule X" if "X = (let m1 = m\<lparr>as_detail_generation := as_detail_generation m + 1\<rparr>;
        m2 = (if as_detail_txid m1 \<noteq> k then m1\<lparr>as_flow := None, as_flow_resolved := False, as_labels := [], as_raw := []\<rparr> else m1);
        m3 = m2\<lparr>as_detail_txid := k\<rparr>;
        m4 = (if as_flow m3 = None then m3\<lparr>as_flow_resolved := False, as_raw := [], as_flow := preview env k m3\<rparr> else m3)
      in m4\<lparr>as_can_bump := False, as_missing := False, as_details_loading := (k \<noteq> []), as_pending := (as_pending m4)\<lparr>wk_details := (k \<noteq> [])\<rparr>\<rparr>)" for X
      unfolding that requestTransactionDetails_def using assms(2) by (simp only: Let_def if_False)
    show ?thesis
      by (rule *, cases "as_detail_txid m = k"; cases "as_flow m"; rule activity_source.equality)
        (simp_all add: Let_def f_def raw_def res_def labs_def old_def oraw_def preview_def)
  qed
  ultimately show thesis by (rule that [rotated])
qed

lemma details_txid: "\<not> as_stopped m \<Longrightarrow> as_detail_txid (requestTransactionDetails env k m) = k"
proof -
  have "as_detail_txid (schedule x) = as_detail_txid x" for x by (simp add: schedule_def Let_def)
  then show "\<not> as_stopped m \<Longrightarrow> as_detail_txid (requestTransactionDetails env k m) = k" by (simp add: requestTransactionDetails_def Let_def)
qed

lemma details_inv:
  assumes "source_inv env (m, wallet, D, h, lost)"
  shows "source_inv env (requestTransactionDetails env k m, wallet, D, h, lost)"
proof (cases "as_stopped m")
  case True
  then show ?thesis using assms by (simp add: requestTransactionDetails_def)
next
  case False
  note inv = source_invD [OF assms, unfolded source_inv0_def prod.case]
  obtain f raw res labs where r: "requestTransactionDetails env k m = schedule (m\<lparr>as_detail_generation := as_detail_generation m + 1, as_detail_txid := k, as_flow := f, as_raw := raw,
       as_flow_resolved := res, as_labels := labs, as_can_bump := False, as_missing := False, as_details_loading := (k \<noteq> []),
       as_pending := (as_pending m)\<lparr>wk_details := (k \<noteq> [])\<rparr>\<rparr>)" and d: "details_of env (k, f, raw)"
    using details_eq [OF source_invD [OF assms] False] by metis
  define m' where "m' = m\<lparr>as_detail_generation := as_detail_generation m + 1, as_detail_txid := k, as_flow := f, as_raw := raw,
       as_flow_resolved := res, as_labels := labs, as_can_bump := False, as_missing := False, as_details_loading := (k \<noteq> []),
       as_pending := (as_pending m)\<lparr>wk_details := (k \<noteq> [])\<rparr>\<rparr>"
  have eqs: "as_records m' = as_records m" "as_rows m' = as_rows m" "as_out m' = as_out m" "as_detail_generation m' = as_detail_generation m + 1"
    "as_detail_txid m' = k" "as_flow m' = f" "as_raw m' = raw" "as_job m' = as_job m" "as_work_pending m' = as_work_pending m"
    "as_stopped m' = as_stopped m" "covers (as_pending m') = covers (as_pending m)" "wk_reload (as_pending m') = wk_reload (as_pending m)"
    "wk_details (as_pending m') = (k \<noteq> [])" "as_rebuild_pending m' = as_rebuild_pending m" "as_details_loading m' = (k \<noteq> [])"
    "as_generation m' = as_generation m" "rows_current env h m' = rows_current env h m"
    by (simp_all add: m'_def rows_current_def covers_def fun_eq_iff)
  have job: "job_inv env (m', wallet, D, h, lost) j" if "job_inv env (m, wallet, D, h, lost) j" for j
  proof -
    note ji = that [unfolded job_inv_def prod.case]
    have le: "jb_detail_generation j \<le> as_detail_generation m + 1" "jb_detail_generation j \<noteq> as_detail_generation m + 1" using ji by auto
    have "covers (as_pending m') = covers (as_pending m)" by (rule eqs)
    then show ?thesis unfolding job_inv_def prod.case eqs by (intro conjI allI impI) (use ji le in blast)+
  qed
  have "source_inv0 env (m', wallet, D, h, lost)" unfolding source_inv0_def prod.case eqs by (intro conjI allI impI) (use inv d job in blast)+
  then show ?thesis unfolding r m'_def [symmetric]
    by (rule schedule_inv) (use assms in \<open>simp add: source_inv_def busy_inv_def m'_def\<close>)
qed


lemma start_inv:
  assumes "source_inv env (m, wallet, D, h, lost)"
  shows "source_inv env (startWork m, wallet, D, h, lost)"
proof -
  note inv = source_invD [OF assms, unfolded source_inv0_def prod.case]
  have busy: "busy_inv m" using assms by (simp add: source_inv_def)
  have frame: "m\<lparr>as_scheduled := False\<rparr> = m\<lparr>as_loading := as_loading m, as_error := as_error m, as_scheduled := False\<rparr>" by simp
  have inv1: "source_inv0 env (m\<lparr>as_scheduled := False\<rparr>, wallet, D, h, lost)" unfolding frame frame_inv0 using assms by (simp add: source_inv_def)
  show ?thesis
  proof (cases "as_stopped m \<or> as_work_pending m \<or> work_empty (as_pending m) \<or> \<not> as_wallet m")
    case True
    then have "startWork m = m\<lparr>as_scheduled := False\<rparr>" by (auto simp: startWork_def Let_def)
    then show ?thesis using inv1 True busy by (auto simp: source_inv_def busy_inv_def)
  next
    case False
    define j where "j = \<lparr>jb_snapshot = take_snapshot m, jb_work = as_pending m, jb_generation = as_generation m, jb_detail_generation = as_detail_generation m, jb_result = None\<rparr>"
    define m' where "m' = m\<lparr>as_scheduled := False, as_pending := no_work, as_work_pending := True, as_job := Some j\<rparr>"
    have start: "startWork m = m'" using False by (simp add: startWork_def Let_def m'_def j_def take_snapshot_def)
    have eqs: "as_records m' = as_records m" "as_rows m' = as_rows m" "as_out m' = as_out m" "as_detail_generation m' = as_detail_generation m"
      "as_detail_txid m' = as_detail_txid m" "as_flow m' = as_flow m" "as_raw m' = as_raw m" "as_job m' = Some j" "as_work_pending m' = True"
      "as_stopped m' = as_stopped m" "as_pending m' = no_work" "as_generation m' = as_generation m" "as_rebuild_pending m' = as_rebuild_pending m"
      "as_details_loading m' = as_details_loading m" "rows_current env h m' = rows_current env h m" by (simp_all add: m'_def rows_current_def)
    have jeqs: "sn_records (jb_snapshot j) = as_records m" "detail_part (jb_snapshot j) = (as_detail_txid m, as_flow m, as_raw m)" "jb_work j = as_pending m"
      "jb_generation j = as_generation m" "jb_detail_generation j = as_detail_generation m" "jb_result j = None" "sn_detail_txid (jb_snapshot j) = as_detail_txid m"
      by (simp_all add: j_def take_snapshot_def detail_part_def)
    have none: "\<not> covers no_work k" "\<not> wk_reload no_work" "\<not> wk_details no_work" for k by (simp_all add: covers_def no_work_def)
    have old: "as_job m = None" using inv False by blast
    have job: "job_inv env (m', wallet, D, h, lost) j" unfolding job_inv_def prod.case eqs jeqs using inv by simp
    have "source_inv0 env (m', wallet, D, h, lost)"
      unfolding source_inv0_def prod.case eqs using inv job none old by (simp add: jeqs)
    moreover have "busy_inv m'" using busy False by (auto simp: busy_inv_def m'_def no_work_def work_empty_def)
    ultimately show ?thesis by (simp add: start source_inv_def)
  qed
qed

lemma run_inv:
  assumes "source_inv env (m, wallet, D, h, lost)" "as_job m = Some j" "jb_result j = None" "api_ok env wallet (D \<union> set (wk_transactions (as_pending m))) api"
  shows "source_inv env (run_work env api m, wallet, D, h, lost)"
proof -
  note inv = source_invD [OF assms(1), unfolded source_inv0_def prod.case]
  define s where "s = source_readSnapshot env api (jb_snapshot j) (jb_work j)"
  define j' where "j' = j\<lparr>jb_result := Some s\<rparr>"
  define m' where "m' = m\<lparr>as_job := Some j'\<rparr>"
  have run: "run_work env api m = m'" by (simp add: run_work_def assms(2) m'_def j'_def s_def)
  have eqs: "as_records m' = as_records m" "as_rows m' = as_rows m" "as_out m' = as_out m" "as_detail_generation m' = as_detail_generation m"
    "as_detail_txid m' = as_detail_txid m" "as_flow m' = as_flow m" "as_raw m' = as_raw m" "as_job m' = Some j'" "as_work_pending m' = as_work_pending m"
    "as_stopped m' = as_stopped m" "as_pending m' = as_pending m" "as_generation m' = as_generation m" "as_rebuild_pending m' = as_rebuild_pending m"
    "as_details_loading m' = as_details_loading m" "rows_current env h m' = rows_current env h m" by (simp_all add: m'_def rows_current_def)
  have jeqs: "jb_snapshot j' = jb_snapshot j" "jb_work j' = jb_work j" "jb_generation j' = jb_generation j" "jb_detail_generation j' = jb_detail_generation j"
    "jb_result j' = Some s" by (simp_all add: j'_def)
  have ji: "job_inv env (m, wallet, D, h, lost) j" using inv assms(2) by blast
  note jinv = ji [unfolded job_inv_def prod.case]
  have wf: "recs_wf env (sn_records (jb_snapshot j))" and wok: "wallet_ok env wallet" using jinv inv by blast+
  note spec = source_readSnapshot_spec [OF wf assms(4) wok s_def]
  have up: "up_to_date env wallet (sn_records s) k \<or> k \<in> D \<or> covers (as_pending m) k" if "\<not> as_stopped m" "\<not> lost" for k
  proof (cases "k \<in> D \<union> set (wk_transactions (as_pending m))")
    case True
    then show ?thesis by (auto simp: covers_def)
  next
    case False
    have "up_to_date env wallet (as_records m) k \<or> k \<in> D \<or> covers (as_pending m) k \<or> covers (jb_work j) k"
      using inv that assms(2) by (metis option.inject)
    moreover have "sn_records (jb_snapshot j) = as_records m" using jinv that by blast
    ultimately show ?thesis using spec [of k] False unfolding covers_def by metis
  qed
  have job: "job_inv env (m', wallet, D, h, lost) j'"
    unfolding job_inv_def prod.case eqs jeqs using jinv spec up by simp
  have "source_inv0 env (m', wallet, D, h, lost)"
    unfolding source_inv0_def prod.case eqs using inv job assms(2) by (simp add: jeqs)
  then show ?thesis using assms(1) by (simp add: run source_inv_def busy_inv_def m'_def)
qed


text \<open>The end of a task. A stopped model drops it.\<close>

lemma loading_inv0: "source_inv0 env (m\<lparr>as_loading := a\<rparr>, wallet, D, h, lost) = source_inv0 env (m, wallet, D, h, lost)"
  using frame_inv0 [where m = m and a = a and b = "as_error m" and c = "as_scheduled m"] by simp

lemma error_inv0: "source_inv0 env (m\<lparr>as_error := a\<rparr>, wallet, D, h, lost) = source_inv0 env (m, wallet, D, h, lost)"
  using frame_inv0 [where m = m and a = "as_loading m" and b = a and c = "as_scheduled m"] by simp

lemma ended_inv0:
  assumes "source_inv0 env (m, wallet, D, h, lost)" "as_stopped m"
  shows "source_inv0 env (m\<lparr>as_work_pending := False, as_job := None\<rparr>, wallet, D, h, lost')"
  using assms by (simp add: source_inv0_def)

lemma ended_inv:
  assumes "source_inv env (m, wallet, D, h, lost)" "as_stopped m"
  shows "source_inv env (m\<lparr>as_work_pending := False, as_job := None\<rparr>, wallet, D, h, lost')"
  using ended_inv0 [OF source_invD [OF assms(1)] assms(2)] assms(2) by (simp add: source_inv_def busy_inv_def)

text \<open>Its work returns to what is pending, or is lost.\<close>

lemma returned_inv0:
  assumes "source_inv0 env (m, wallet, D, h, lost)" "as_job m = Some j"
    and "covers p = covers (work_merge (as_pending m) (jb_work j)) \<or> lost'" "wk_reload p = wk_reload (work_merge (as_pending m) (jb_work j)) \<or> lost'"
    and "lost \<Longrightarrow> lost'" "dl \<Longrightarrow> as_details_loading m" "dl \<Longrightarrow> \<not> as_stopped m \<Longrightarrow> wk_details (as_pending m) \<or> jb_detail_generation j = as_detail_generation m \<and> wk_details (jb_work j) \<Longrightarrow> wk_details p"
  shows "source_inv0 env (m\<lparr>as_work_pending := False, as_job := None, as_pending := p, as_details_loading := dl\<rparr>, wallet, D, h, lost')"
proof -
  note inv = assms(1) [unfolded source_inv0_def prod.case]
  define m' where "m' = m\<lparr>as_work_pending := False, as_job := None, as_pending := p, as_details_loading := dl\<rparr>"
  have eqs: "as_records m' = as_records m" "as_rows m' = as_rows m" "as_out m' = as_out m" "as_detail_generation m' = as_detail_generation m"
    "as_detail_txid m' = as_detail_txid m" "as_flow m' = as_flow m" "as_raw m' = as_raw m" "as_job m' = None" "as_work_pending m' = False"
    "as_stopped m' = as_stopped m" "as_pending m' = p" "as_generation m' = as_generation m" "as_rebuild_pending m' = as_rebuild_pending m"
    "as_details_loading m' = dl" "rows_current env h m' = rows_current env h m" by (simp_all add: m'_def rows_current_def)
  have content: "lost' \<or> up_to_date env wallet (as_records m) k \<or> k \<in> D \<or> covers p k" if "\<not> as_stopped m" for k
  proof -
    have "lost \<or> up_to_date env wallet (as_records m) k \<or> k \<in> D \<or> covers (as_pending m) k \<or> covers (jb_work j) k" using inv that assms(2) by (metis option.inject)
    then show ?thesis using assms(3,5) by auto
  qed
  have rows: "lost' \<or> rows_current env h m \<or> as_rebuild_pending m \<or> wk_reload p" if "\<not> as_stopped m"
  proof -
    have "lost \<or> rows_current env h m \<or> as_rebuild_pending m \<or> wk_reload (as_pending m) \<or> wk_reload (jb_work j)" using inv that assms(2) by (metis option.inject)
    then show ?thesis using assms(4,5) by auto
  qed
  have details: "wk_details p" if "\<not> as_stopped m" "dl"
  proof -
    have "wk_details (as_pending m) \<or> wk_details (jb_work j) \<and> jb_detail_generation j = as_detail_generation m"
      using inv that assms(2) assms(6) by (metis option.inject)
    then show ?thesis using assms(7) that by blast
  qed
  show ?thesis unfolding source_inv0_def prod.case m'_def [symmetric] eqs by (intro conjI allI impI) (use inv content rows details in blast)+
qed

lemma fail_inv:
  assumes "source_inv env (m, wallet, D, h, lost)" "as_job m = Some j"
  shows "source_inv env (work_failed j m, wallet, D, h, lost \<or> drops_content j m)"
proof (cases "as_stopped m")
  case True
  then show ?thesis using ended_inv [OF assms(1) True] by (simp add: work_failed_def)
next
  case False
  note inv0 = source_invD [OF assms(1)]
  note inv = inv0 [unfolded source_inv0_def prod.case]
  show ?thesis
  proof (cases "jb_generation j = as_generation m")
    case gen: False
    let ?p = "work_merge (as_pending m) (jb_work j)"
    have "source_inv0 env (m\<lparr>as_work_pending := False, as_job := None, as_pending := ?p, as_details_loading := as_details_loading m\<rparr>, wallet, D, h, lost \<or> drops_content j m)"
      by (rule returned_inv0 [OF inv0 assms(2)]) auto
    then have "source_inv0 env (m\<lparr>as_work_pending := False, as_job := None, as_pending := ?p\<rparr>, wallet, D, h, lost \<or> drops_content j m)" by simp
    then show ?thesis using False gen by (simp add: work_failed_def Let_def) (rule schedule_inv; simp add: loading_inv0)
  next
    case gen: True
    let ?dl = "as_details_loading m \<and> jb_detail_generation j \<noteq> as_detail_generation m"
    have c: "covers (as_pending m) = covers (work_merge (as_pending m) (jb_work j)) \<or> lost \<or> drops_content j m"
    proof -
      have "\<not> drops_content j m \<Longrightarrow> \<not> covers (jb_work j) k" for k using gen by (simp add: drops_content_def covers_def)
      then show ?thesis by (auto simp: fun_eq_iff)
    qed
    have r: "wk_reload (as_pending m) = wk_reload (work_merge (as_pending m) (jb_work j)) \<or> lost \<or> drops_content j m" using gen by (auto simp: drops_content_def)
    have "source_inv0 env (m\<lparr>as_work_pending := False, as_job := None, as_pending := as_pending m, as_details_loading := ?dl\<rparr>, wallet, D, h, lost \<or> drops_content j m)"
      by (rule returned_inv0 [OF inv0 assms(2) c r]) auto
    then have i: "source_inv0 env (m\<lparr>as_work_pending := False, as_job := None, as_details_loading := ?dl\<rparr>, wallet, D, h, lost \<or> drops_content j m)" by simp
    show ?thesis
    proof (cases "jb_detail_generation j = as_detail_generation m")
      case True
      then have "work_failed j m = schedule (m\<lparr>as_work_pending := False, as_job := None, as_details_loading := ?dl, as_error := True, as_loading := \<not> work_empty (as_pending m)\<rparr>)"
        using False gen by (simp add: work_failed_def Let_def) (rule arg_cong [where f = schedule], rule activity_source.equality; simp)
      then show ?thesis using i by (simp only: loading_inv0 error_inv0) (rule schedule_inv; simp add: loading_inv0 error_inv0)
    next
      case other: False
      then have "work_failed j m = schedule (m\<lparr>as_work_pending := False, as_job := None, as_details_loading := ?dl, as_loading := \<not> work_empty (as_pending m)\<rparr>)"
        using False gen by (simp add: work_failed_def Let_def)
      then show ?thesis using i by (simp only: loading_inv0 error_inv0) (rule schedule_inv; simp add: loading_inv0 error_inv0)
    qed
  qed
qed


text \<open>A result that nothing has overtaken.\<close>

lemma taken_inv0:
  assumes "source_inv0 env (m, wallet, D, h, lost)" "as_job m = Some j" "jb_result j = Some s" "jb_generation j = as_generation m" "\<not> as_stopped m"
    and "details_of env (as_detail_txid m, f, raw)" "dl \<Longrightarrow> wk_details (as_pending m)" "rp \<or> rp = as_rebuild_pending m \<and> \<not> sn_rows_changed s"
    and "m' = m\<lparr>as_work_pending := False, as_job := None, as_records := sn_records s, as_retry := ry, as_tip := tp, as_flow := f, as_flow_resolved := res, as_raw := raw,
      as_labels := labs, as_can_bump := cb, as_missing := ms, as_details_loading := dl, as_rebuild_pending := rp\<rparr>"
  shows "source_inv0 env (m', wallet, D, h, lost)"
proof -
  note inv = assms(1) [unfolded source_inv0_def prod.case]
  have ji: "job_inv env (m, wallet, D, h, lost) j" using inv assms(2) by blast
  note jinv = ji [unfolded job_inv_def prod.case]
  have eqs: "as_records m' = sn_records s" "as_rows m' = as_rows m" "as_out m' = as_out m" "as_detail_generation m' = as_detail_generation m"
    "as_detail_txid m' = as_detail_txid m" "as_flow m' = f" "as_raw m' = raw" "as_job m' = None" "as_work_pending m' = False"
    "as_stopped m' = as_stopped m" "as_pending m' = as_pending m" "as_generation m' = as_generation m" "as_rebuild_pending m' = rp"
    "as_details_loading m' = dl" by (simp_all add: assms(9))
  have content: "lost \<or> up_to_date env wallet (sn_records s) k \<or> k \<in> D \<or> covers (as_pending m) k" for k using jinv assms(3-5) by blast
  have rows: "lost \<or> rows_current env h m' \<or> rp \<or> wk_reload (as_pending m)"
  proof (cases "rp")
    case False
    then have rp: "rp = as_rebuild_pending m" and same: "\<not> sn_rows_changed s" using assms(8) by blast+
    then have "sn_records s = as_records m" "\<not> wk_reload (jb_work j)" using jinv assms(3,5) by auto
    moreover have "rows_current env h m' = rows_current env h m" using \<open>sn_records s = as_records m\<close> by (simp add: rows_current_def assms(9))
    moreover have "lost \<or> rows_current env h m \<or> as_rebuild_pending m \<or> wk_reload (as_pending m) \<or> wk_reload (jb_work j)" using inv assms(2,5) by (metis option.inject)
    ultimately show ?thesis using False rp by blast
  qed simp
  have wf: "recs_wf env (sn_records s)" using jinv assms(3) by blast
  show ?thesis unfolding source_inv0_def prod.case eqs by (intro conjI allI impI) (use inv wf content rows assms(6,7) in blast)+
qed

lemma take_over_inv0:
  assumes "source_inv0 env (m, wallet, D, h, lost)" "as_job m = Some j" "jb_result j = Some s" "jb_generation j = as_generation m" "\<not> as_stopped m"
  shows "source_inv0 env (take_over env h j s (m\<lparr>as_work_pending := False, as_job := None\<rparr>), wallet, D, h, lost) \<and>
    as_pending (take_over env h j s (m\<lparr>as_work_pending := False, as_job := None\<rparr>)) = as_pending m \<and>
    \<not> as_work_pending (take_over env h j s (m\<lparr>as_work_pending := False, as_job := None\<rparr>))"
proof -
  note inv = assms(1) [unfolded source_inv0_def prod.case]
  have ji: "job_inv env (m, wallet, D, h, lost) j" using inv assms(2) by blast
  note jinv = ji [unfolded job_inv_def prod.case]
  define same where "same = (jb_detail_generation j = as_detail_generation m)"
  define f where "f = (if same then sn_flow s else as_flow m)"
  define raw where "raw = (if same then sn_raw s else as_raw m)"
  define dl where "dl = (\<not> same \<and> as_details_loading m)"
  have txid: "same \<Longrightarrow> sn_detail_txid s = as_detail_txid m" using jinv assms(3) by (simp add: same_def)
  have "details_of env (detail_part s)" using jinv assms(3) by blast
  then have d: "details_of env (as_detail_txid m, f, raw)" using inv txid by (cases same) (simp_all add: f_def raw_def detail_part_def)
  have l: "wk_details (as_pending m)" if dl
  proof -
    have "as_details_loading m" "jb_detail_generation j \<noteq> as_detail_generation m" using that by (simp_all add: dl_def same_def)
    then show ?thesis using inv assms(2,5) by (metis option.inject)
  qed
  define mk where "mk rp = m\<lparr>as_work_pending := False, as_job := None, as_records := sn_records s, as_retry := sn_retry s, as_tip := sn_tip s, as_flow := f,
      as_flow_resolved := if same then sn_flow_resolved s else as_flow_resolved m, as_raw := raw,
      as_labels := if same then sn_labels s else as_labels m, as_can_bump := if same then sn_can_bump s else as_can_bump m,
      as_missing := if same then sn_missing s else as_missing m, as_details_loading := dl, as_rebuild_pending := rp\<rparr>" for rp
  have take: "take_over env h j s (m\<lparr>as_work_pending := False, as_job := None\<rparr>) =
      (if sn_rows_changed s then source_rebuild env h (mk (as_rebuild_pending m)) else mk (as_rebuild_pending m))"
  proof -
    have "(if jb_detail_generation j = as_detail_generation m
        then m\<lparr>as_work_pending := False, as_job := None, as_records := sn_records s, as_retry := sn_retry s, as_tip := sn_tip s, as_flow := sn_flow s,
          as_flow_resolved := sn_flow_resolved s, as_raw := sn_raw s, as_labels := sn_labels s, as_can_bump := sn_can_bump s, as_missing := sn_missing s, as_details_loading := False\<rparr>
        else m\<lparr>as_work_pending := False, as_job := None, as_records := sn_records s, as_retry := sn_retry s, as_tip := sn_tip s\<rparr>) = mk (as_rebuild_pending m)"
      by (cases same) (simp_all add: mk_def f_def raw_def dl_def same_def)
    then show ?thesis by (simp add: take_over_def Let_def)
  qed
  show ?thesis
  proof (cases "sn_rows_changed s")
    case True
    have i: "source_inv0 env (mk True, wallet, D, h, lost)" by (rule taken_inv0 [OF assms d l _ mk_def]) simp_all
    have "source_inv0 env (source_rebuild env h ((mk True)\<lparr>as_display_unit := as_display_unit m, as_rebuild_pending := as_rebuild_pending m\<rparr>), wallet, D, h, lost)"
      by (rule rebuild_inv0 [OF i])
    moreover have "(mk True)\<lparr>as_display_unit := as_display_unit m, as_rebuild_pending := as_rebuild_pending m\<rparr> = mk (as_rebuild_pending m)"
      by (rule activity_source.equality) (simp_all add: mk_def)
    ultimately show ?thesis using True by (simp add: take source_rebuild_def Let_def case_prod_unfold mk_def)
  next
    case False
    have "source_inv0 env (mk (as_rebuild_pending m), wallet, D, h, lost)" by (rule taken_inv0 [OF assms d l _ mk_def]) (simp_all add: False)
    then show ?thesis using False by (simp add: take mk_def)
  qed
qed

lemma finish_inv:
  assumes "source_inv env (m, wallet, D, h, lost)" "as_job m = Some j" "jb_result j = Some s"
  shows "source_inv env (work_done env h j s m, wallet, D, h, lost)"
proof (cases "as_stopped m")
  case True
  then show ?thesis using ended_inv [OF assms(1) True] by (simp add: work_done_def)
next
  case False
  note inv0 = source_invD [OF assms(1)]
  show ?thesis
  proof (cases "jb_generation j = as_generation m")
    case gen: False
    let ?p = "work_merge (as_pending m) (jb_work j)"
    have "source_inv0 env (m\<lparr>as_work_pending := False, as_job := None, as_pending := ?p, as_details_loading := as_details_loading m\<rparr>, wallet, D, h, lost)"
      by (rule returned_inv0 [OF inv0 assms(2)]) auto
    then have "source_inv0 env (m\<lparr>as_work_pending := False, as_job := None, as_pending := ?p\<rparr>, wallet, D, h, lost)" by simp
    then show ?thesis using False gen by (simp add: work_done_def Let_def) (rule schedule_inv; simp add: loading_inv0)
  next
    case gen: True
    let ?m = "take_over env h j s (m\<lparr>as_work_pending := False, as_job := None\<rparr>)"
    have "work_done env h j s m = schedule (?m\<lparr>as_loading := \<not> work_empty (as_pending ?m)\<rparr>)" using False gen by (simp add: work_done_def Let_def)
    then show ?thesis using take_over_inv0 [OF inv0 assms(2,3) gen False] by (simp only:) (rule schedule_inv; simp add: loading_inv0)
  qed
qed


lemma new_source_eq:
  "new_source loaded u = schedule (m\<lparr>as_generation := 1, as_pending := no_work\<lparr>wk_reload := True\<rparr>\<rparr>)\<lparr>as_timer := loaded\<rparr>"
  if "m = \<lparr>as_wallet = loaded, as_display_unit = u, as_records = [], as_retry = [], as_rows = [], as_timer = False, as_tip = None, as_detail_txid = [], as_raw = [],
        as_flow = None, as_flow_resolved = False, as_labels = [], as_can_bump = False, as_missing = False, as_details_loading = False, as_pending = no_work,
        as_work_pending = False, as_cancelled = False, as_generation = 0, as_detail_generation = 0, as_scheduled = False, as_stopped = False, as_loading = False,
        as_rebuild_pending = False, as_error = False, as_job = None, as_out = []\<rparr>"
  unfolding that by (simp add: new_source_def source_reload_def)

lemma timer_inv: "source_inv env (m\<lparr>as_timer := b\<rparr>, wallet, D, h, lost) = source_inv env (m, wallet, D, h, lost)"
  by (simp add: source_inv_def source_inv0_def job_inv_def rows_current_def busy_inv_def)

lemma start_world_inv:
  assumes "source_start env W"
  shows "source_inv env W"
proof -
  obtain loaded u wallet h where W: "W = (new_source loaded u, wallet, {}, h, False)" and ok: "wallet_ok env wallet" using assms by (auto simp: source_start_def)
  define m where "m = \<lparr>as_wallet = loaded, as_display_unit = u, as_records = [], as_retry = [], as_rows = [], as_timer = False, as_tip = None, as_detail_txid = [], as_raw = [],
        as_flow = None, as_flow_resolved = False, as_labels = [], as_can_bump = False, as_missing = False, as_details_loading = False, as_pending = no_work,
        as_work_pending = False, as_cancelled = False, as_generation = 0, as_detail_generation = 0, as_scheduled = False, as_stopped = False, as_loading = False,
        as_rebuild_pending = False, as_error = False, as_job = None, as_out = []\<rparr>"
  have "source_inv0 env (m\<lparr>as_generation := 1, as_pending := no_work\<lparr>wk_reload := True\<rparr>\<rparr>, wallet, {}, h, False)"
    by (simp add: source_inv0_def m_def ok covers_def details_of_def)
  then have "source_inv env (schedule (m\<lparr>as_generation := 1, as_pending := no_work\<lparr>wk_reload := True\<rparr>\<rparr>), wallet, {}, h, False)"
    by (rule schedule_inv) (simp add: m_def)
  then show ?thesis unfolding W new_source_eq [OF m_def] timer_inv .
qed

lemma source_step_inv: "source_step env W W' \<Longrightarrow> source_inv env W \<Longrightarrow> source_inv env W'"
proof (induction rule: source_step.induct)
  case change
  then show ?case by (blast intro: change_inv)
qed (blast intro: notify_inv addresses_inv reload_inv source_refresh_inv poll_inv details_inv unit_inv rebuild_inv edited_inv delayed_inv start_inv run_inv finish_inv
    fail_inv unload_inv source_stop_inv)+

lemma reachable_inv: "source_reachable env W \<Longrightarrow> source_inv env W"
  by (induction rule: source_reachable.induct) (auto intro: start_world_inv source_step_inv)


section \<open>Settling\<close>

text \<open>A turn of the event loop and the reader while nothing else happens: the reader runs its task, its result is handed over, or a scheduled start is done.\<close>

definition source_turn :: "source_env \<Rightarrow> wallet_api \<Rightarrow> RequestHistory \<Rightarrow> activity_source \<Rightarrow> activity_source" where
  "source_turn env api h m =
     (case as_job m of
        Some j \<Rightarrow> (case jb_result j of Some s \<Rightarrow> work_done env h j s m | None \<Rightarrow> run_work env api m)
      | None \<Rightarrow> if as_scheduled m then startWork m else m)"

definition idle :: "activity_source \<Rightarrow> bool" where
  "idle m \<longleftrightarrow> as_job m = None \<and> work_empty (as_pending m) \<and> \<not> as_loading m"

definition alive :: "activity_source \<Rightarrow> bool" where
  "alive m \<longleftrightarrow> \<not> as_stopped m \<and> as_wallet m"

lemma api_ok_mono: "api_ok env wallet {} api \<Longrightarrow> api_ok env wallet D api"
  by (simp add: api_ok_def)

lemma turn_inv:
  assumes "source_inv env (m, wallet, D, h, lost)" "api_ok env wallet {} api"
  shows "source_inv env (source_turn env api h m, wallet, D, h, lost)"
proof (cases "as_job m")
  case None
  then show ?thesis using start_inv [OF assms(1)] assms(1) by (simp add: source_turn_def)
next
  case (Some j)
  then show ?thesis using finish_inv [OF assms(1) Some] run_inv [OF assms(1) Some _ api_ok_mono [OF assms(2)]]
    by (cases "jb_result j") (simp_all add: source_turn_def)
qed

lemma schedule_alive [simp]: "alive (schedule m) = alive m" "as_job (schedule m) = as_job m" "as_pending (schedule m) = as_pending m"
  by (simp_all add: alive_def schedule_def Let_def)

lemma rebuild_alive [simp]: "alive (source_rebuild env h m) = alive m" "as_job (source_rebuild env h m) = as_job m" "as_pending (source_rebuild env h m) = as_pending m"
  by (simp_all add: alive_def source_rebuild_def case_prod_unfold Let_def)

lemma take_over_alive [simp]: "alive (take_over env h j s m) = alive m" "as_job (take_over env h j s m) = as_job m" "as_pending (take_over env h j s m) = as_pending m"
  by (simp_all add: take_over_def Let_def) (simp_all add: alive_def)

lemma alive_frame [simp]: "alive (m\<lparr>as_loading := a\<rparr>) = alive m" "alive (m\<lparr>as_job := jo\<rparr>) = alive m" "alive (m\<lparr>as_work_pending := a\<rparr>) = alive m"
  "alive (m\<lparr>as_pending := p\<rparr>) = alive m"
  by (simp_all add: alive_def)

lemma work_done_alive:
  assumes "alive m" "\<not> work_empty (as_pending m)"
  shows "alive (work_done env h j s m)" "as_job (work_done env h j s m) = None" "\<not> work_empty (as_pending (work_done env h j s m))"
proof -
  have "\<not> as_stopped m" using assms(1) by (simp add: alive_def)
  moreover have "\<not> work_empty (work_merge (as_pending m) (jb_work j))"
  proof -
    have "covers (as_pending m) k \<Longrightarrow> covers (work_merge (as_pending m) (jb_work j)) k" for k by simp
    moreover have "wk_transactions w = [] \<longleftrightarrow> (\<forall>k. \<not> covers w k)" if "\<not> wk_reload w" for w using that by (auto simp: covers_def)
    moreover have "wk_reload (as_pending m) \<Longrightarrow> wk_reload (work_merge (as_pending m) (jb_work j))" by simp
    ultimately have "wk_transactions (work_merge (as_pending m) (jb_work j)) = [] \<Longrightarrow> \<not> wk_reload (work_merge (as_pending m) (jb_work j)) \<Longrightarrow> wk_transactions (as_pending m) = []" by blast
    then show ?thesis using assms(2) by (auto simp: work_empty_def) (auto simp: work_merge_def)
  qed
  ultimately show "alive (work_done env h j s m)" "as_job (work_done env h j s m) = None" "\<not> work_empty (as_pending (work_done env h j s m))"
    using assms by (simp_all add: work_done_def Let_def)
qed

lemma no_work_empty [simp]: "work_empty no_work"
  by (simp add: work_empty_def no_work_def)

lemma turn_idle: "idle m \<Longrightarrow> idle (source_turn env api h m)"
  by (auto simp: idle_def source_turn_def startWork_def Let_def)

lemma turn_alive: "alive m \<Longrightarrow> alive (source_turn env api h m)"
proof -
  assume a: "alive m"
  then have "\<not> as_stopped m" by (simp add: alive_def)
  then have "alive (work_done env h j s m)" for j s using a by (simp add: work_done_def Let_def)
  moreover have "alive (startWork m)" using a by (simp add: alive_def startWork_def Let_def)
  ultimately show ?thesis using a by (simp add: source_turn_def run_work_def split: option.split)
qed

lemma turns_alive: "alive m \<Longrightarrow> alive ((source_turn env api h ^^ n) m)"
  by (induction n) (simp_all add: turn_alive)

text \<open>From a scheduled start to the end of its task.\<close>

lemma turns_from_start:
  assumes "alive m" "as_job m = None" "\<not> as_work_pending m" "\<not> work_empty (as_pending m)" "as_scheduled m"
  shows "idle ((source_turn env api h ^^ 3) m)"
proof -
  define j where "j = \<lparr>jb_snapshot = take_snapshot m, jb_work = as_pending m, jb_generation = as_generation m, jb_detail_generation = as_detail_generation m, jb_result = None\<rparr>"
  define m1 where "m1 = m\<lparr>as_scheduled := False, as_pending := no_work, as_work_pending := True, as_job := Some j\<rparr>"
  define s where "s = source_readSnapshot env api (jb_snapshot j) (jb_work j)"
  define m2 where "m2 = m1\<lparr>as_job := Some (j\<lparr>jb_result := Some s\<rparr>)\<rparr>"
  have t1: "source_turn env api h m = m1"
    using assms by (simp add: source_turn_def startWork_def Let_def m1_def j_def alive_def take_snapshot_def)
  have t2: "source_turn env api h m1 = m2" by (simp add: source_turn_def run_work_def m1_def m2_def s_def j_def)
  have t3: "source_turn env api h m2 = work_done env h (j\<lparr>jb_result := Some s\<rparr>) s m2" by (simp add: source_turn_def m2_def)
  have "\<not> as_stopped m2" "as_generation m2 = jb_generation j" "as_pending m2 = no_work" using assms(1) by (simp_all add: m2_def m1_def j_def alive_def)
  then have "idle (work_done env h (j\<lparr>jb_result := Some s\<rparr>) s m2)" by (simp add: work_done_def Let_def idle_def) (simp add: schedule_def)
  then show ?thesis by (simp add: numeral_3_eq_3 t1 t2 t3)
qed

lemma turns_settle:
  assumes "source_inv env (m, wallet, D, h, lost)" "api_ok env wallet {} api" "alive m" "\<not> work_empty (as_pending m)"
  shows "idle ((source_turn env api h ^^ 5) m)"
proof -
  have ready: "idle ((source_turn env api h ^^ 3) m)"
    if "source_inv env (m, wallet, D, h, lost)" "alive m" "\<not> work_empty (as_pending m)" "as_job m = None" for m
    using that by (intro turns_from_start) (auto simp: source_inv_def source_inv0_def busy_inv_def alive_def)
  have finished: "idle ((source_turn env api h ^^ 4) m)"
    if m: "source_inv env (m, wallet, D, h, lost)" "alive m" "\<not> work_empty (as_pending m)" "as_job m = Some j" "jb_result j = Some s" for m j s
  proof -
    have "source_turn env api h m = work_done env h j s m" using m by (simp add: source_turn_def)
    moreover have "idle ((source_turn env api h ^^ 3) (work_done env h j s m))"
      using work_done_alive [OF m(2,3)] by (intro ready finish_inv [OF m(1,4,5)])
    ultimately show ?thesis by (simp add: eval_nat_numeral)
  qed
  show ?thesis
  proof (cases "as_job m")
    case None
    then show ?thesis using turn_idle [OF turn_idle [OF ready [OF assms(1,3,4)]]] by (simp add: eval_nat_numeral)
  next
    case (Some j)
    show ?thesis
    proof (cases "jb_result j")
      case None
      let ?m = "run_work env api m"
      have "source_turn env api h m = ?m" using Some None by (simp add: source_turn_def)
      moreover obtain s where run: "as_job ?m = Some (j\<lparr>jb_result := Some s\<rparr>)" "alive ?m" "\<not> work_empty (as_pending ?m)"
        using assms(3,4) Some by (simp add: run_work_def)
      have "jb_result (j\<lparr>jb_result := Some s\<rparr>) = Some s" by simp
      then have "idle ((source_turn env api h ^^ 4) ?m)"
        using finished [OF run_inv [OF assms(1) Some None api_ok_mono [OF assms(2)]] run(2,3,1)] by blast
      ultimately show ?thesis by (simp add: eval_nat_numeral)
    next
      case result: (Some s)
      then show ?thesis using turn_idle [OF finished [OF assms(1,3,4) Some result]] by (simp add: eval_nat_numeral)
    qed
  qed
qed

lemma turns_inv: "source_inv env (m, wallet, D, h, lost) \<Longrightarrow> api_ok env wallet {} api \<Longrightarrow> source_inv env ((source_turn env api h ^^ n) m, wallet, D, h, lost)"
  by (induction n) (simp_all add: turn_inv)


section \<open>A failure that nobody sees\<close>

text \<open>A read fails that no notification has overtaken, and nothing else waits.\<close>

lemma schedule_nothing: "work_empty (as_pending m) \<Longrightarrow> schedule m = m"
  by (simp add: schedule_def)

lemma work_failed_idle:
  assumes "\<not> as_stopped m" "work_empty (as_pending m)" "jb_generation j = as_generation m"
  shows "work_failed j m = (let m1 = m\<lparr>as_work_pending := False, as_job := None\<rparr>
    in (if jb_detail_generation j = as_detail_generation m then m1\<lparr>as_error := True, as_details_loading := False\<rparr> else m1)\<lparr>as_loading := False\<rparr>)"
  using assms by (simp add: work_failed_def schedule_nothing Let_def)

section \<open>Properties\<close>


text \<open>
  C14: the activity list comes to rest, up to date. In every order of events before, once a last poll is queued and nothing new happens and no
  read fails any more, five turns of the event loop and the reader leave no work, and nothing is marked as loading. If no read has failed
  before without a reload since, the content of every transaction whose notification has arrived is then what the wallet says, and a
  transaction the wallet does not have, or does not describe, has no record. Statuses and labels are not compared.
\<close>

theorem activity_settles:
  assumes "source_reachable env (m, wallet, D, h, lost)" "\<not> as_stopped m" "as_wallet m" "api_ok env wallet {} api"
    and "m' = (source_turn env api h ^^ 5) (source_poll m)"
  shows "as_job m' = None \<and> work_empty (as_pending m') \<and> \<not> as_loading m' \<and> \<not> as_details_loading m' \<and>
    (\<not> lost \<longrightarrow> (\<forall>k. k \<notin> D \<longrightarrow> up_to_date env wallet (as_records m') k))"
proof -
  have inv: "source_inv env (source_poll m, wallet, D, h, lost)" by (rule poll_inv [OF reachable_inv [OF assms(1)]])
  have idle: "idle m'" unfolding assms(5)
    by (rule turns_settle [OF inv assms(4)]) (use assms(2,3) in \<open>simp_all add: source_poll_def alive_def work_empty_def schedule_def Let_def\<close>)
  have "alive m'" unfolding assms(5) by (rule turns_alive) (use assms(2,3) in \<open>simp add: source_poll_def alive_def schedule_def Let_def\<close>)
  then have run: "\<not> as_stopped m'" by (simp add: alive_def)
  have inv': "source_inv env (m', wallet, D, h, lost)" unfolding assms(5) by (rule turns_inv [OF inv assms(4)])
  have none: "\<not> covers (as_pending m') k" "\<not> wk_details (as_pending m')" "as_job m' = None" for k using idle by (simp_all add: idle_def work_empty_def covers_def)
  show ?thesis using idle none run source_invD [OF inv'] by (auto simp: idle_def source_inv0_def)
qed

text \<open>
  C24: the details page never mixes transactions. In every order of requests and results, the inputs and outputs the model holds were built
  from a transaction with the identifier asked for last, and so was the raw transaction.
\<close>

theorem details_belong:
  assumes "source_reachable env (m, wallet, D, h, lost)"
  shows "(as_flow m = None \<or>
      (\<exists>w tx prevouts collapse. w_tx w = Some tx \<and> t_hash tx = as_detail_txid m \<and> as_flow m = BuildTransactionFlow (se_flow env) w prevouts collapse)) \<and>
    (as_raw m = [] \<or> (\<exists>tx. t_hash tx = as_detail_txid m \<and> as_raw m = se_hex env tx))"
  using reachable_inv [OF assms] by (simp add: source_inv_def source_inv0_def details_of_def)


text \<open>
  C26: a failed reload can pass without a word. In every reachable state in which a reload is at the reader that nothing has overtaken, its
  failure is reported. When the details page is closed in between, which asks for the details of no transaction and so only raises the
  generation of the details, the same failure is not reported: the model comes to rest with no error and nothing marked as loading,
  with the records it had before and no work left that would bring in what the reload was for.
\<close>

theorem failed_reload_unreported:
  assumes "source_reachable env (m, wallet, D, h, lost)" "\<not> as_stopped m" "as_job m = Some j" "wk_reload (jb_work j)"
    and "jb_generation j = as_generation m" "jb_detail_generation j = as_detail_generation m" "work_empty (as_pending m)" "\<not> as_error m"
    and "m' = work_failed j (requestTransactionDetails env [] m)"
  shows "as_error (work_failed j m) \<and> source_reachable env (m', wallet, D, h, True) \<and> \<not> as_error m' \<and> detail_error m' = [] \<and> \<not> as_loading m' \<and>
    as_job m' = None \<and> work_empty (as_pending m') \<and> as_records m' = as_records m"
proof -
  note inv = source_invD [OF reachable_inv [OF assms(1)]]
  define m1 where "m1 = requestTransactionDetails env [] m"
  obtain f raw res labs where "m1 = schedule (m\<lparr>as_detail_generation := as_detail_generation m + 1, as_detail_txid := [], as_flow := f, as_raw := raw,
       as_flow_resolved := res, as_labels := labs, as_can_bump := False, as_missing := False, as_details_loading := ([] \<noteq> ([] :: qstring)),
       as_pending := (as_pending m)\<lparr>wk_details := ([] \<noteq> ([] :: qstring))\<rparr>\<rparr>)" 
    unfolding m1_def by (rule details_eq [OF inv assms(2), of "[]"])
  moreover have "work_empty ((as_pending m)\<lparr>wk_details := False\<rparr>)" using assms(7) by (simp add: work_empty_def)
  ultimately have m1: "as_job m1 = Some j" "\<not> as_stopped m1" "work_empty (as_pending m1)" "as_generation m1 = as_generation m" "\<not> as_error m1"
    "as_detail_generation m1 = as_detail_generation m + 1" "as_records m1 = as_records m" "\<not> as_missing m1"
    using assms(2,3,8) by (simp_all add: schedule_nothing)
  have "source_reachable env (m1, wallet, D, h, lost)" unfolding m1_def by (rule source_reachable.step [OF assms(1) source_step.details])
  then have "source_reachable env (work_failed j m1, wallet, D, h, lost \<or> drops_content j m1)"
    by (rule source_reachable.step [OF _ source_step.fail [OF m1(1)]])
  moreover have "drops_content j m1" using m1(4) assms(4,5) by (simp add: drops_content_def)
  moreover have m': "m' = work_failed j m1" by (simp add: assms(9) m1_def)
  ultimately have "source_reachable env (m', wallet, D, h, True)" by simp
  moreover have "m' = m1\<lparr>as_work_pending := False, as_job := None, as_loading := False\<rparr>"
    using work_failed_idle [OF m1(2,3)] m1(4,6) assms(5,6) by (simp add: m' Let_def)
  moreover have "as_error (work_failed j m)" using work_failed_idle [OF assms(2,7,5)] assms(6) by simp
  ultimately show ?thesis using m1(3,5,7,8) by (simp add: detail_error_def)
qed


text \<open>An example: a wallet with the example payment.\<close>

definition sample_source_env :: source_env where
  "sample_source_env = \<lparr>se_flow = sample_flow_env, se_rows = sample_rows_env, se_valid_hash = (\<lambda>_. True), se_decode = (\<lambda>_. CNoDestination), se_hex = t_hash\<rparr>"

definition sample_wallet_map :: "qstring \<Rightarrow> wallet_tx option" where
  "sample_wallet_map k = (if k = t_hash sample_tx then Some sample_wallet_tx else None)"

definition sample_api :: wallet_api where
  "sample_api = \<lparr>wa_txs = [sample_wallet_tx], wa_tx = (\<lambda>k. if k = t_hash sample_tx then sample_wallet_tx else sample_wallet_tx\<lparr>w_tx := None\<rparr>), wa_status = (\<lambda>_. None),
     wa_tip = None, wa_label = (\<lambda>_. None), wa_parent = (\<lambda>_. None), wa_can_bump = (\<lambda>_. False)\<rparr>"

lemma sample_source:
  "wallet_ok sample_source_env sample_wallet_map" "api_ok sample_source_env sample_wallet_map {} sample_api" "sample_wallet_map (t_hash sample_tx) = Some sample_wallet_tx"
  "\<exists>a. activity_fromWalletTx (fe_tx (se_flow sample_source_env)) sample_wallet_tx = Some a"
proof -
  have w: "w_tx sample_wallet_tx = Some sample_tx" by (simp add: sample_wallet_tx_def)
  show "wallet_ok sample_source_env sample_wallet_map" by (simp add: wallet_ok_def sample_wallet_map_def sample_source_env_def w)
  show "api_ok sample_source_env sample_wallet_map {} sample_api" by (simp add: api_ok_def wtx_ok_def truthful_def sample_wallet_map_def sample_source_env_def sample_api_def w)
  show "sample_wallet_map (t_hash sample_tx) = Some sample_wallet_tx" by (simp add: sample_wallet_map_def)
  show "\<exists>a. activity_fromWalletTx (fe_tx (se_flow sample_source_env)) sample_wallet_tx = Some a"
    using sample_activity(1) by (auto simp: sample_source_env_def sample_flow_env_def)
qed

lemma sample_source_reachable: "source_reachable sample_source_env (new_source True 0, sample_wallet_map, {}, sample_history, False)"
  by (rule source_reachable.init) (auto simp: source_start_def sample_source(1))



text \<open>The payment's details are asked for and its notification arrives; five turns after a poll both have been read.\<close>

definition sample_asked :: activity_source where
  "sample_asked = requestTransactionDetails sample_source_env (t_hash sample_tx) (updateTransaction (t_hash sample_tx) (new_source True 0))"

lemma sample_asked_reachable: "source_reachable sample_source_env (sample_asked, sample_wallet_map, {}, sample_history, False)"
proof -
  have "source_reachable sample_source_env (updateTransaction (t_hash sample_tx) (new_source True 0), sample_wallet_map, {} - {t_hash sample_tx}, sample_history, False)"
    by (rule source_reachable.step [OF sample_source_reachable source_step.notify])
  then show ?thesis unfolding sample_asked_def by (auto intro: source_reachable.step source_step.details)
qed

lemma sample_asked_alive: "\<not> as_stopped sample_asked" "as_wallet sample_asked"
  by code_simp+

theorem activity_settles_witness:
  "source_reachable sample_source_env (sample_asked, sample_wallet_map, {}, sample_history, False) \<and> as_records sample_asked = [] \<and>
   (let m = (source_turn sample_source_env sample_api sample_history ^^ 5) (source_poll sample_asked)
    in as_job m = None \<and> \<not> as_loading m \<and> \<not> as_details_loading m \<and>
       (\<exists>r. map_of (as_records m) (t_hash sample_tx) = Some r \<and> activity_fromWalletTx sample_tx_env sample_wallet_tx = Some (rec_activity r)))"
proof -
  obtain a where a: "activity_fromWalletTx (fe_tx (se_flow sample_source_env)) sample_wallet_tx = Some a" using sample_source(4) by blast
  define m where "m = (source_turn sample_source_env sample_api sample_history ^^ 5) (source_poll sample_asked)"
  note s = activity_settles [OF sample_asked_reachable sample_asked_alive sample_source(2) m_def]
  then have "up_to_date sample_source_env sample_wallet_map (as_records m) (t_hash sample_tx)" by blast
  then have "content_at (as_records m) (t_hash sample_tx) = Some (tx_content sample_wallet_tx a)" using a sample_source(3) by (simp add: up_to_date_def)
  then obtain r where "map_of (as_records m) (t_hash sample_tx) = Some r" "rec_activity r = a" by (auto simp: content_at_def rec_content_def tx_content_def)
  moreover have "as_records sample_asked = []" by code_simp
  ultimately show ?thesis using a s sample_asked_reachable unfolding Let_def m_def [symmetric] by (auto simp: sample_source_env_def sample_flow_env_def)
qed

text \<open>The details of the payment have been read, and then another transaction is asked for.\<close>

lemma sample_turn_reachable:
  assumes "source_reachable sample_source_env (m, sample_wallet_map, {}, sample_history, False)"
  shows "source_reachable sample_source_env ((source_turn sample_source_env sample_api sample_history ^^ n) m, sample_wallet_map, {}, sample_history, False)"
proof (induction n)
  case (Suc n)
  then show ?case using api_ok_mono [OF sample_source(2)] source_step.start source_step.run source_step.finish
    by (auto simp: source_turn_def split: option.split intro: source_reachable.step)
qed (simp add: assms)

definition sample_read :: activity_source where
  "sample_read = (source_turn sample_source_env sample_api sample_history ^^ 3) sample_asked"

theorem details_belong_witness:
  "source_reachable sample_source_env (sample_read, sample_wallet_map, {}, sample_history, False) \<and>
   as_raw sample_read = t_hash sample_tx \<and> as_raw sample_read \<noteq> [] \<and>
   (\<exists>w tx prevouts collapse f. w_tx w = Some tx \<and> t_hash tx = t_hash sample_tx \<and> as_flow sample_read = Some f \<and>
      Some f = BuildTransactionFlow sample_flow_env w prevouts collapse) \<and>
   (let m = requestTransactionDetails sample_source_env (q ''ef'') sample_read in as_detail_txid m = q ''ef'' \<and> as_flow m = None \<and> as_raw m = [])"
proof -
  have r: "source_reachable sample_source_env (sample_read, sample_wallet_map, {}, sample_history, False)"
    unfolding sample_read_def by (rule sample_turn_reachable [OF sample_asked_reachable])
  have c: "as_detail_txid sample_read = t_hash sample_tx \<and> as_raw sample_read = t_hash sample_tx \<and> as_raw sample_read \<noteq> [] \<and> as_flow sample_read \<noteq> None \<and>
    (let m = requestTransactionDetails sample_source_env (q ''ef'') sample_read in as_detail_txid m = q ''ef'' \<and> as_flow m = None \<and> as_raw m = [])"
    by code_simp
  have env: "se_flow sample_source_env = sample_flow_env" by (simp add: sample_source_env_def)
  note flow = conjunct1 [OF details_belong [OF r], unfolded env]
  from c obtain f where f: "as_detail_txid sample_read = t_hash sample_tx" "as_flow sample_read = Some f" by blast
  with flow have "\<exists>w tx prevouts collapse f. w_tx w = Some tx \<and> t_hash tx = t_hash sample_tx \<and> as_flow sample_read = Some f \<and>
      Some f = BuildTransactionFlow sample_flow_env w prevouts collapse" by auto
  with r c show ?thesis by blast
qed

text \<open>The first reload fails after the page was closed.\<close>

theorem failed_reload_unreported_witness:
  "\<exists>m j m'. as_job m = Some j \<and> m' = work_failed j (requestTransactionDetails sample_source_env [] m) \<and> as_error (work_failed j m) \<and>
     source_reachable sample_source_env (m', sample_wallet_map, {}, sample_history, True) \<and> \<not> as_error m' \<and> \<not> as_loading m' \<and> work_empty (as_pending m') \<and>
     \<not> up_to_date sample_source_env sample_wallet_map (as_records m') (t_hash sample_tx)"
proof -
  define m where "m = startWork (new_source True 0)"
  have r: "source_reachable sample_source_env (m, sample_wallet_map, {}, sample_history, False)" unfolding m_def
    by (rule source_reachable.step [OF sample_source_reachable source_step.start]) (simp add: new_source_def source_reload_def schedule_def Let_def work_empty_def no_work_def)
  have f: "\<not> as_stopped m" "work_empty (as_pending m)" "\<not> as_error m" "as_records m = []" unfolding m_def by code_simp+
  have "(case as_job m of None \<Rightarrow> False | Some j \<Rightarrow> wk_reload (jb_work j) \<and> jb_generation j = as_generation m \<and> jb_detail_generation j = as_detail_generation m)"
    unfolding m_def by code_simp
  then obtain j where j: "as_job m = Some j" "wk_reload (jb_work j)" "jb_generation j = as_generation m" "jb_detail_generation j = as_detail_generation m"
    by (cases "as_job m") auto
  have "\<not> up_to_date sample_source_env sample_wallet_map [] (t_hash sample_tx)" using sample_source(3,4) by (auto simp: up_to_date_def content_at_def)
  then show ?thesis using failed_reload_unreported [OF r f(1) j f(2,3) refl] f(4) j(1) by metis
qed

end
