(* ===== verification/Peers.thy ===== *)
theory Peers
  imports Ordering "HOL-Library.Word"
begin

text \<open>
  \<open>src/qml/models/peerlistmodel.{h,cpp}\<close>, \<open>peerlistsortproxy.{h,cpp}\<close>, \<open>peerdetailsmodel.{h,cpp}\<close>, \<open>banlistmodel.{h,cpp}\<close> and
  \<open>src/qml/peerstatsutil.cpp\<close>: the peers of the node as a list, its filters and sort order, the objects that show one peer, and the banned
  subnets. Times are counts of the clock's unit, nanoseconds; what the node answers, comparing texts by the locale and folding case are parameters.
  An object for one peer holds a pointer into the rows of the list, which \<open>refresh\<close> replaces: a pointer is the number of the storage and a row.
\<close>

section \<open>Definitions\<close>

datatype ConnectionType = INBOUND | OUTBOUND_FULL_RELAY | MANUAL | FEELER | BLOCK_RELAY | ADDR_FETCH | PRIVATE_BROADCAST
datatype Network = NET_UNROUTABLE | NET_IPV4 | NET_IPV6 | NET_ONION | NET_I2P | NET_CJDNS | NET_INTERNAL | NET_MAX
datatype TransportProtocolType = DETECTING | V1 | V2

record peer_stats =
  ps_nodeid :: int
  ps_connected :: int
  ps_addr_name :: qstring
  ps_inbound :: bool
  ps_conn_type :: ConnectionType
  ps_network :: Network
  ps_min_ping :: int
  ps_send_bytes :: nat
  ps_recv_bytes :: nat
  ps_subver :: qstring
  ps_transport :: TransportProtocolType
  ps_state_available :: bool

subsection \<open>Texts\<close>

fun ConnectionTypeToQString :: "ConnectionType \<Rightarrow> bool \<Rightarrow> qstring" where
  "ConnectionTypeToQString t prepend =
     (let prefix = (if prepend then if t = INBOUND then q ''Inbound'' else q ''Outbound '' else [])
      in case t of
           INBOUND \<Rightarrow> prefix
         | OUTBOUND_FULL_RELAY \<Rightarrow> prefix @ q ''Full Relay''
         | BLOCK_RELAY \<Rightarrow> prefix @ q ''Block Relay''
         | MANUAL \<Rightarrow> prefix @ q ''Manual''
         | FEELER \<Rightarrow> prefix @ q ''Feeler''
         | ADDR_FETCH \<Rightarrow> prefix @ q ''Address Fetch''
         | PRIVATE_BROADCAST \<Rightarrow> prefix @ q ''Private Broadcast'')"

text \<open>\<open>None\<close> is the failed assertion.\<close>

fun NetworkToQString :: "Network \<Rightarrow> qstring option" where
  "NetworkToQString NET_UNROUTABLE = Some (q ''Unroutable'')"
| "NetworkToQString NET_IPV4 = Some (q ''IPv4'')"
| "NetworkToQString NET_IPV6 = Some (q ''IPv6'')"
| "NetworkToQString NET_ONION = Some (q ''Onion'')"
| "NetworkToQString NET_I2P = Some (q ''I2P'')"
| "NetworkToQString NET_CJDNS = Some (q ''CJDNS'')"
| "NetworkToQString NET_INTERNAL = Some (q ''Internal'')"
| "NetworkToQString NET_MAX = None"

text \<open>Division of durations cuts towards zero.\<close>

definition cut_div :: "int \<Rightarrow> int \<Rightarrow> int" where
  "cut_div a b = (if a < 0 then - (- a div b) else a div b)"

definition SECOND :: int where "SECOND = 1000000000"

definition duration_parts :: "int \<Rightarrow> (int \<times> string) list" where
  "duration_parts dur =
     (let day = 86400 * SECOND; hour = 3600 * SECOND; minute = 60 * SECOND;
          d = cut_div dur day; r1 = dur - d * day;
          h = cut_div r1 hour; r2 = r1 - h * hour;
          m = cut_div r2 minute; r3 = r2 - m * minute;
          s = cut_div r3 SECOND;
          parts = (if d \<noteq> 0 then [(d, '' d'')] else []) @ (if h \<noteq> 0 then [(h, '' h'')] else []) @ (if m \<noteq> 0 then [(m, '' m'')] else [])
      in parts @ (if s \<noteq> 0 \<or> parts = [] then [(s, '' s'')] else []))"

fun join_blank :: "qstring list \<Rightarrow> qstring" where
  "join_blank [] = []"
| "join_blank [x] = x"
| "join_blank (x # y # xs) = x @ 32 # join_blank (y # xs)"

definition FormatDurationStr :: "int \<Rightarrow> qstring" where
  "FormatDurationStr dur = join_blank (map (\<lambda>(n, u). number n @ q u) (duration_parts dur))"

definition FormatPeerAge :: "int \<Rightarrow> int \<Rightarrow> qstring" where
  "FormatPeerAge now connected =
     (let age = now - connected
      in if age \<ge> 86400 * SECOND then number (cut_div age (86400 * SECOND)) @ q '' d''
         else if age \<ge> 3600 * SECOND then number (cut_div age (3600 * SECOND)) @ q '' h''
         else if age \<ge> 60 * SECOND then number (cut_div age (60 * SECOND)) @ q '' m''
         else number (cut_div age SECOND) @ q '' s'')"

definition DURATION_MAX :: int where "DURATION_MAX = 9223372036854775807"

definition FormatPingTime :: "int \<Rightarrow> qstring" where
  "FormatPingTime t = (if t = DURATION_MAX \<or> t = 0 then [] else number (cut_div t 1000000) @ q '' ms'')"

definition int32 :: "int \<Rightarrow> int" where
  "int32 n = sint (word_of_int n :: 32 word)"

definition FormatTimeOffset :: "int \<Rightarrow> qstring" where
  "FormatTimeOffset s = number (int32 s) @ q '' s''"

definition FormatBytes :: "nat \<Rightarrow> qstring" where
  "FormatBytes b =
     (if b < 1000 then number (int b) @ q '' B''
      else if b < 1000000 then number (int (b div 1000)) @ q '' kB''
      else if b < 1000000000 then number (int (b div 1000000)) @ q '' MB''
      else number (int (b div 1000000000)) @ q '' GB'')"


subsection \<open>The list\<close>

record PeerListModel =
  pl_rows :: "peer_stats list"
  pl_store :: nat
  pl_timer :: bool
  pl_stopping :: bool
  pl_backend_ready :: bool
  pl_auto_refresh :: bool

datatype peer_signal = Peers_reset | Peers_changed

text \<open>\<open>refresh\<close> with the answer of the node; the rows get a new storage, the old one is freed.\<close>

definition peers_refresh :: "peer_stats list option \<Rightarrow> PeerListModel \<Rightarrow> PeerListModel \<times> peer_signal list" where
  "peers_refresh answer m =
     (if pl_stopping m \<or> \<not> pl_backend_ready m then (m, [])
      else case answer of
        None \<Rightarrow> (m, [])
      | Some new \<Rightarrow>
          let count_changed = (length (pl_rows m) \<noteq> length new);
              order_changed = (\<not> count_changed \<and> map ps_nodeid (pl_rows m) \<noteq> map ps_nodeid new);
              m' = m\<lparr>pl_rows := new, pl_store := pl_store m + 1\<rparr>
          in if count_changed \<or> order_changed then (m', [Peers_reset])
             else if new \<noteq> [] then (m', [Peers_changed]) else (m', []))"

definition new_PeerListModel :: "bool \<Rightarrow> peer_stats list option \<Rightarrow> PeerListModel" where
  "new_PeerListModel ready answer =
     fst (peers_refresh answer \<lparr>pl_rows = [], pl_store = 0, pl_timer = False, pl_stopping = False, pl_backend_ready = ready, pl_auto_refresh = False\<rparr>)"

definition startAutoRefresh :: "PeerListModel \<Rightarrow> PeerListModel" where
  "startAutoRefresh m = (if pl_stopping m then m else m\<lparr>pl_auto_refresh := True, pl_timer := pl_timer m \<or> pl_backend_ready m\<rparr>)"

definition stopAutoRefresh :: "PeerListModel \<Rightarrow> PeerListModel" where
  "stopAutoRefresh m = m\<lparr>pl_auto_refresh := False, pl_timer := False\<rparr>"

definition peers_backendInitialized :: "peer_stats list option \<Rightarrow> PeerListModel \<Rightarrow> PeerListModel \<times> peer_signal list" where
  "peers_backendInitialized answer m =
     (if pl_stopping m \<or> pl_backend_ready m then (m, [])
      else let (m', sigs) = peers_refresh answer (m\<lparr>pl_backend_ready := True\<rparr>)
           in (m'\<lparr>pl_timer := pl_timer m' \<or> pl_auto_refresh m'\<rparr>, sigs))"

definition peers_beginShutdown :: "PeerListModel \<Rightarrow> PeerListModel" where
  "peers_beginShutdown m = stopAutoRefresh (m\<lparr>pl_stopping := True\<rparr>)"

datatype peer_role = NetNodeId | Age | PAddress | PDirection | ConnectionTypeRole | NetworkRole | Ping | Sent | Received | Subversion | TransportRole | StatsRole

record peer_env =
  pe_now :: int
  pe_TransportTypeAsString :: "TransportProtocolType \<Rightarrow> qstring"
  pe_locale_less :: "qstring \<Rightarrow> qstring \<Rightarrow> bool"
  pe_fold :: "qchar \<Rightarrow> qchar"

text \<open>
  The texts of a row; a pointer has none. A network that fails the assertion is \<open>None\<close>; the node reports no peer with it, and
  the filters and the order below take it for an empty text.
\<close>

fun peers_data :: "peer_env \<Rightarrow> peer_stats \<Rightarrow> peer_role \<Rightarrow> qstring option" where
  "peers_data env r NetNodeId = Some (number (ps_nodeid r))"
| "peers_data env r Age = Some (FormatPeerAge (pe_now env) (ps_connected r))"
| "peers_data env r PAddress = Some (ps_addr_name r)"
| "peers_data env r PDirection = Some (if ps_inbound r then q ''Inbound'' else q ''Outbound'')"
| "peers_data env r ConnectionTypeRole = Some (ConnectionTypeToQString (ps_conn_type r) False)"
| "peers_data env r NetworkRole = NetworkToQString (ps_network r)"
| "peers_data env r Ping = Some (FormatPingTime (ps_min_ping r))"
| "peers_data env r Sent = Some (FormatBytes (ps_send_bytes r))"
| "peers_data env r Received = Some (FormatBytes (ps_recv_bytes r))"
| "peers_data env r Subversion = Some (ps_subver r)"
| "peers_data env r TransportRole = Some (pe_TransportTypeAsString env (ps_transport r))"
| "peers_data env r StatsRole = Some []"

subsection \<open>Filters and order\<close>

definition DirectionKey :: "peer_stats \<Rightarrow> qstring" where
  "DirectionKey r = (if ps_inbound r then q ''inbound'' else q ''outbound'')"

fun ConnectionTypeKey :: "ConnectionType \<Rightarrow> qstring" where
  "ConnectionTypeKey INBOUND = q ''inbound''"
| "ConnectionTypeKey OUTBOUND_FULL_RELAY = q ''full-relay''"
| "ConnectionTypeKey MANUAL = q ''manual''"
| "ConnectionTypeKey FEELER = q ''feeler''"
| "ConnectionTypeKey BLOCK_RELAY = q ''block-relay''"
| "ConnectionTypeKey ADDR_FETCH = q ''address-fetch''"
| "ConnectionTypeKey PRIVATE_BROADCAST = q ''private-broadcast''"

fun NetworkKey :: "Network \<Rightarrow> qstring" where
  "NetworkKey NET_UNROUTABLE = q ''unroutable''"
| "NetworkKey NET_IPV4 = q ''ipv4''"
| "NetworkKey NET_IPV6 = q ''ipv6''"
| "NetworkKey NET_ONION = q ''onion''"
| "NetworkKey NET_I2P = q ''i2p''"
| "NetworkKey NET_CJDNS = q ''cjdns''"
| "NetworkKey NET_INTERNAL = q ''internal''"
| "NetworkKey NET_MAX = []"

fun TransportKey :: "TransportProtocolType \<Rightarrow> qstring" where
  "TransportKey DETECTING = q ''detecting''"
| "TransportKey V1 = q ''v1''"
| "TransportKey V2 = q ''v2''"

record PeerListSortProxy =
  pp_sort_role :: peer_role
  pp_sort_by :: qstring
  pp_ascending :: bool
  pp_search :: qstring
  pp_directions :: "qstring list"
  pp_conn_types :: "qstring list"
  pp_networks :: "qstring list"
  pp_transports :: "qstring list"
  pp_sorted :: bool

definition new_PeerListSortProxy :: PeerListSortProxy where
  "new_PeerListSortProxy = \<lparr>pp_sort_role = NetNodeId, pp_sort_by = [], pp_ascending = True, pp_search = [], pp_directions = [], pp_conn_types = [], pp_networks = [],
     pp_transports = [], pp_sorted = False\<rparr>"

definition role_names :: "(qstring \<times> peer_role) list" where
  "role_names = [(q ''nodeId'', NetNodeId), (q ''age'', Age), (q ''address'', PAddress), (q ''direction'', PDirection), (q ''connectionType'', ConnectionTypeRole),
     (q ''network'', NetworkRole), (q ''ping'', Ping), (q ''sent'', Sent), (q ''received'', Received), (q ''subversion'', Subversion), (q ''transport'', TransportRole), (q ''stats'', StatsRole)]"

definition RoleNameToRole :: "qstring \<Rightarrow> peer_role" where
  "RoleNameToRole name = (case map_of role_names name of None \<Rightarrow> NetNodeId | Some r \<Rightarrow> r)"

definition peers_setSortBy :: "qstring \<Rightarrow> PeerListSortProxy \<Rightarrow> PeerListSortProxy" where
  "peers_setSortBy name p = (if pp_sort_by p = name then p else p\<lparr>pp_sort_by := name, pp_sort_role := RoleNameToRole name, pp_sorted := True\<rparr>)"

definition peers_setSortAscending :: "bool \<Rightarrow> PeerListSortProxy \<Rightarrow> PeerListSortProxy" where
  "peers_setSortAscending asc p = (if pp_ascending p = asc then p else p\<lparr>pp_ascending := asc, pp_sorted := True\<rparr>)"

definition peers_setSearchText :: "qstring \<Rightarrow> PeerListSortProxy \<Rightarrow> PeerListSortProxy" where "peers_setSearchText s p = p\<lparr>pp_search := s\<rparr>"
definition peers_setDirectionFilters :: "qstring list \<Rightarrow> PeerListSortProxy \<Rightarrow> PeerListSortProxy" where "peers_setDirectionFilters fs p = p\<lparr>pp_directions := fs\<rparr>"
definition peers_setConnectionTypeFilters :: "qstring list \<Rightarrow> PeerListSortProxy \<Rightarrow> PeerListSortProxy" where "peers_setConnectionTypeFilters fs p = p\<lparr>pp_conn_types := fs\<rparr>"
definition peers_setNetworkFilters :: "qstring list \<Rightarrow> PeerListSortProxy \<Rightarrow> PeerListSortProxy" where "peers_setNetworkFilters fs p = p\<lparr>pp_networks := fs\<rparr>"
definition peers_setTransportFilters :: "qstring list \<Rightarrow> PeerListSortProxy \<Rightarrow> PeerListSortProxy" where "peers_setTransportFilters fs p = p\<lparr>pp_transports := fs\<rparr>"

definition searchable_roles :: "peer_role list" where
  "searchable_roles = [NetNodeId, PAddress, PDirection, ConnectionTypeRole, NetworkRole, TransportRole, Subversion, Sent, Received]"

definition peer_accepted :: "peer_env \<Rightarrow> PeerListSortProxy \<Rightarrow> peer_stats \<Rightarrow> bool" where
  "peer_accepted env p r =
     (if pp_directions p \<noteq> [] \<and> DirectionKey r \<notin> set (pp_directions p) then False
      else if pp_conn_types p \<noteq> [] \<and> ConnectionTypeKey (ps_conn_type r) \<notin> set (pp_conn_types p) then False
      else if pp_networks p \<noteq> [] \<and> NetworkKey (ps_network r) \<notin> set (pp_networks p) then False
      else if pp_transports p \<noteq> [] \<and> TransportKey (ps_transport r) \<notin> set (pp_transports p) then False
      else
        let needle = trimmed (pp_search p)
        in if needle = [] then True
           else list_ex (\<lambda>role. case peers_data env r role of None \<Rightarrow> False | Some s \<Rightarrow> contains_ci (pe_fold env) s needle) searchable_roles)"

definition role_text :: "peer_env \<Rightarrow> peer_role \<Rightarrow> peer_stats \<Rightarrow> qstring" where
  "role_text env role r = (case peers_data env r role of None \<Rightarrow> [] | Some s \<Rightarrow> s)"

fun peer_lessThan :: "peer_env \<Rightarrow> peer_role \<Rightarrow> peer_stats \<Rightarrow> peer_stats \<Rightarrow> bool" where
  "peer_lessThan env NetNodeId l r = (ps_nodeid l < ps_nodeid r)"
| "peer_lessThan env Age l r = (ps_connected l > ps_connected r)"
| "peer_lessThan env Ping l r = (ps_min_ping l < ps_min_ping r)"
| "peer_lessThan env Sent l r = (ps_send_bytes l < ps_send_bytes r)"
| "peer_lessThan env Received l r = (ps_recv_bytes l < ps_recv_bytes r)"
| "peer_lessThan env StatsRole l r = False"
| "peer_lessThan env role l r = pe_locale_less env (role_text env role l) (role_text env role r)"

text \<open>
  The rows after a sort (Qt sorts stably; a row that changes later is moved, among equal ones anywhere): those accepted, by the order, in the other direction if descending.
\<close>

definition peer_view :: "peer_env \<Rightarrow> PeerListSortProxy \<Rightarrow> peer_stats list \<Rightarrow> peer_stats list" where
  "peer_view env p rows =
     (let acc = filter (peer_accepted env p) rows; lt = peer_lessThan env (pp_sort_role p)
      in if \<not> pp_sorted p then acc else sort_by (if pp_ascending p then lt else (\<lambda>x y. lt y x)) acc)"

fun index_of_node :: "int \<Rightarrow> nat \<Rightarrow> peer_stats list \<Rightarrow> int" where
  "index_of_node k i [] = -1"
| "index_of_node k i (r # rs) = (if ps_nodeid r = k then int i else index_of_node k (i + 1) rs)"

definition indexOfNodeId :: "peer_stats list \<Rightarrow> int \<Rightarrow> int" where
  "indexOfNodeId view k = index_of_node k 0 view"

subsection \<open>One peer\<close>

record PeerDetails =
  pd_node_id :: int
  pd_row :: int
  pd_pointer :: "nat \<times> nat"
  pd_disconnected :: bool
  pd_delete_later :: bool

text \<open>The list, the objects (\<open>None\<close> once deleted) and the proxy's map from node identifiers to objects.\<close>

record peers_world =
  pw_list :: PeerListModel
  pw_details :: "PeerDetails option list"
  pw_map :: "(int \<times> nat) list"

fun find_row :: "int \<Rightarrow> nat \<Rightarrow> peer_stats list \<Rightarrow> int" where
  "find_row k i [] = -1"
| "find_row k i (r # rs) = (if int32 (ps_nodeid r) = k then int i else find_row k (i + 1) rs)"

definition new_PeerDetails :: "PeerListModel \<Rightarrow> nat \<Rightarrow> PeerDetails" where
  "new_PeerDetails m row =
     (let k = int32 (ps_nodeid (pl_rows m ! row))
      in \<lparr>pd_node_id = k, pd_row = find_row k 0 (pl_rows m), pd_pointer = (pl_store m, row), pd_disconnected = False, pd_delete_later = False\<rparr>)"

text \<open>The slots of the object; the second result is whether \<open>disconnected\<close> is emitted.\<close>

definition onModelDataChanged :: "PeerListModel \<Rightarrow> PeerDetails \<Rightarrow> PeerDetails \<times> bool" where
  "onModelDataChanged m d =
     (if pd_row d < 0 \<or> int (length (pl_rows m)) \<le> pd_row d \<or> int32 (ps_nodeid (pl_rows m ! nat (pd_row d))) \<noteq> pd_node_id d
      then (if pd_disconnected d then (d, False) else (d\<lparr>pd_disconnected := True\<rparr>, True))
      else (d\<lparr>pd_pointer := (pl_store m, nat (pd_row d))\<rparr>, False))"

definition onModelReset :: "PeerListModel \<Rightarrow> PeerDetails \<Rightarrow> PeerDetails \<times> bool" where
  "onModelReset m d =
     (if pd_disconnected d then (d, False)
      else let row = find_row (pd_node_id d) 0 (pl_rows m)
           in if row \<ge> 0 then (d\<lparr>pd_row := row, pd_pointer := (pl_store m, nat row)\<rparr>, False) else (d\<lparr>pd_disconnected := True\<rparr>, True))"

definition peer_slot :: "peer_signal \<Rightarrow> PeerListModel \<Rightarrow> PeerDetails \<Rightarrow> PeerDetails \<times> bool" where
  "peer_slot s = (case s of Peers_reset \<Rightarrow> onModelReset | Peers_changed \<Rightarrow> onModelDataChanged)"

text \<open>A signal of the list reaches every object; the proxy forgets one that emits \<open>disconnected\<close> and has it deleted later.\<close>

definition deliver_to :: "peer_signal \<Rightarrow> nat \<Rightarrow> peers_world \<Rightarrow> peers_world" where
  "deliver_to s i w =
     (case pw_details w ! i of
        None \<Rightarrow> w
      | Some d \<Rightarrow>
          let (d', gone) = peer_slot s (pw_list w) d
          in if gone then w\<lparr>pw_details := (pw_details w)[i := Some (d'\<lparr>pd_delete_later := True\<rparr>)], pw_map := filter (\<lambda>(k, j). j \<noteq> i) (pw_map w)\<rparr>
             else w\<lparr>pw_details := (pw_details w)[i := Some d']\<rparr>)"

definition deliver_signal :: "peers_world \<Rightarrow> peer_signal \<Rightarrow> peers_world" where
  "deliver_signal w s = fold (deliver_to s) [0..<length (pw_details w)] w"

definition world_update :: "PeerListModel \<times> peer_signal list \<Rightarrow> peers_world \<Rightarrow> peers_world" where
  "world_update r w = foldl deliver_signal (w\<lparr>pw_list := fst r\<rparr>) (snd r)"

text \<open>\<open>peerDetailsAt\<close> for the row of the list the proxy's row is mapped to. A deleted object in the map counts as none.\<close>

definition peerDetailsAt :: "nat \<Rightarrow> peers_world \<Rightarrow> peers_world \<times> nat option" where
  "peerDetailsAt row w =
     (if length (pl_rows (pw_list w)) \<le> row then (w, None)
      else
        let k = ps_nodeid (pl_rows (pw_list w) ! row); found = map_of (pw_map w) k
        in case (case found of None \<Rightarrow> None | Some i \<Rightarrow> map_option (\<lambda>d. i) (pw_details w ! i)) of
             Some i \<Rightarrow> (w, Some i)
           | None \<Rightarrow>
               let i = length (pw_details w)
               in (w\<lparr>pw_details := pw_details w @ [Some (new_PeerDetails (pw_list w) row)], pw_map := (k, i) # filter (\<lambda>(k', j). k' \<noteq> k) (pw_map w)\<rparr>, Some i))"

definition run_deletions :: "peers_world \<Rightarrow> peers_world" where
  "run_deletions w = w\<lparr>pw_details := map (\<lambda>d. case d of Some d \<Rightarrow> if pd_delete_later d then None else Some d | None \<Rightarrow> None) (pw_details w)\<rparr>"

text \<open>What the pointer of an object leads to; \<open>None\<close> is freed memory.\<close>

definition points_to :: "PeerListModel \<Rightarrow> PeerDetails \<Rightarrow> peer_stats option" where
  "points_to m d = (if fst (pd_pointer d) = pl_store m \<and> snd (pd_pointer d) < length (pl_rows m) then Some (pl_rows m ! snd (pd_pointer d)) else None)"

subsection \<open>Banned subnets\<close>

record 'b BanListModel =
  bl_list :: "'b list"
  bl_stopping :: bool
  bl_backend_ready :: bool

definition bans_refresh :: "'b list \<Rightarrow> 'b BanListModel \<Rightarrow> 'b BanListModel" where
  "bans_refresh answer m = (if bl_stopping m \<or> \<not> bl_backend_ready m then m else m\<lparr>bl_list := answer\<rparr>)"

definition bans_backendInitialized :: "'b list \<Rightarrow> 'b BanListModel \<Rightarrow> 'b BanListModel" where
  "bans_backendInitialized answer m = (if bl_stopping m \<or> bl_backend_ready m then m else bans_refresh answer (m\<lparr>bl_backend_ready := True\<rparr>))"

text \<open>The subnet that is given to the node for unbanning, if any.\<close>

definition unbanAt :: "int \<Rightarrow> 'b BanListModel \<Rightarrow> 'b option" where
  "unbanAt row m = (if bl_stopping m \<or> \<not> bl_backend_ready m \<or> row < 0 \<or> int (length (bl_list m)) \<le> row then None else Some (bl_list m ! nat row))"


section \<open>Order\<close>

lemma strict_weak_on_key: "strict_weak UNIV (\<lambda>x y. (k x :: 'b :: linorder) < k y)"
  by (rule strict_weak_key [OF strict_total_weak [OF strict_total_linorder]])

text \<open>Under a locale whose comparison is an order, every role sorts, in both directions.\<close>

lemma peer_lessThan_weak:
  assumes "strict_weak UNIV (pe_locale_less env)"
  shows "strict_weak UNIV (peer_lessThan env role)"
proof -
  have loc: "strict_weak UNIV (\<lambda>x y. pe_locale_less env (role_text env role x) (role_text env role y))" for role by (rule strict_weak_key [OF assms])
  have rev: "strict_weak UNIV (\<lambda>x y :: peer_stats. ps_connected y < ps_connected x)" by (rule strict_weak_rev [OF strict_weak_on_key])
  have eqs:
    "peer_lessThan env NetNodeId = (\<lambda>x y. ps_nodeid x < ps_nodeid y)" "peer_lessThan env Age = (\<lambda>x y. ps_connected y < ps_connected x)"
    "peer_lessThan env Ping = (\<lambda>x y. ps_min_ping x < ps_min_ping y)" "peer_lessThan env Sent = (\<lambda>x y. ps_send_bytes x < ps_send_bytes y)"
    "peer_lessThan env Received = (\<lambda>x y. ps_recv_bytes x < ps_recv_bytes y)" "peer_lessThan env StatsRole = (\<lambda>x y. False)"
    by (intro ext; simp)+
  have texts: "peer_lessThan env role = (\<lambda>x y. pe_locale_less env (role_text env role x) (role_text env role y))"
    if "role \<in> {PAddress, PDirection, ConnectionTypeRole, NetworkRole, Subversion, TransportRole}" for role
    using that by (intro ext; cases role; simp)
  show ?thesis
  proof (cases "role \<in> {PAddress, PDirection, ConnectionTypeRole, NetworkRole, Subversion, TransportRole}")
    case True
    show ?thesis unfolding texts [OF True] by (rule loc)
  next
    case False
    then show ?thesis by (cases role) (simp_all only: eqs rev strict_weak_on_key strict_weak_none, simp_all)
  qed
qed

text \<open>The table shows the rows that pass the filters and contain the text searched for, sorted in the direction chosen.\<close>

lemma peer_view_sorted:
  assumes "strict_weak UNIV (pe_locale_less env)" "pp_sorted p"
  shows "mset (peer_view env p rows) = mset (filter (peer_accepted env p) rows) \<and>
    sorted_wrt (\<lambda>x y. if pp_ascending p then \<not> peer_lessThan env (pp_sort_role p) y x else \<not> peer_lessThan env (pp_sort_role p) x y) (peer_view env p rows)"
proof -
  let ?lt = "peer_lessThan env (pp_sort_role p)" and ?acc = "filter (peer_accepted env p) rows"
  have w: "strict_weak UNIV ?lt" by (rule peer_lessThan_weak [OF assms(1)])
  show ?thesis
    using strict_weak.sort_by_sorted [OF w, of ?acc] strict_weak.sort_by_sorted [OF strict_weak_rev [OF w], of ?acc] assms(2)
    by (cases "pp_ascending p") (simp_all add: peer_view_def Let_def)
qed

lemma peer_accepted_iff:
  "peer_accepted env p r \<longleftrightarrow>
     (pp_directions p = [] \<or> DirectionKey r \<in> set (pp_directions p)) \<and>
     (pp_conn_types p = [] \<or> ConnectionTypeKey (ps_conn_type r) \<in> set (pp_conn_types p)) \<and>
     (pp_networks p = [] \<or> NetworkKey (ps_network r) \<in> set (pp_networks p)) \<and>
     (pp_transports p = [] \<or> TransportKey (ps_transport r) \<in> set (pp_transports p)) \<and>
     (trimmed (pp_search p) = [] \<or> (\<exists>role\<in>set searchable_roles. \<exists>s. peers_data env r role = Some s \<and> contains_ci (pe_fold env) s (trimmed (pp_search p))))"
  by (auto simp: peer_accepted_def Let_def list_ex_iff split: option.splits)

lemma index_of_node_spec:
  "index_of_node k i rows = -1 \<and> k \<notin> ps_nodeid ` set rows \<or>
   (\<exists>j<length rows. index_of_node k i rows = int (i + j) \<and> ps_nodeid (rows ! j) = k \<and> (\<forall>l<j. ps_nodeid (rows ! l) \<noteq> k))"
proof (induction rows arbitrary: i)
  case (Cons r rows)
  show ?case
  proof (cases "ps_nodeid r = k")
    case False
    from Cons.IH [of "i + 1"] show ?thesis
    proof (elim disjE exE conjE)
      fix j assume j: "j < length rows" "index_of_node k (i + 1) rows = int (i + 1 + j)" "ps_nodeid (rows ! j) = k" "\<forall>l<j. ps_nodeid (rows ! l) \<noteq> k"
      have "\<forall>l<Suc j. ps_nodeid ((r # rows) ! l) \<noteq> k" using j(4) False by (auto simp: nth_Cons split: nat.split)
      then show ?thesis using j False by (intro disjI2 exI [of _ "Suc j"]) simp
    qed (use False in simp)
  qed force
qed simp

section \<open>Objects follow their peer\<close>

definition follows_peer :: "PeerListModel \<Rightarrow> PeerDetails \<Rightarrow> bool" where
  "follows_peer m d \<longleftrightarrow> (\<exists>r. points_to m d = Some r \<and> int32 (ps_nodeid r) = pd_node_id d) \<and>
     0 \<le> pd_row d \<and> nat (pd_row d) < length (pl_rows m) \<and> int32 (ps_nodeid (pl_rows m ! nat (pd_row d))) = pd_node_id d"

lemma find_row_spec:
  "find_row k i rs = -1 \<or> (\<exists>j<length rs. find_row k i rs = int (i + j) \<and> int32 (ps_nodeid (rs ! j)) = k)"
proof (induction rs arbitrary: i)
  case (Cons r rs)
  show ?case
  proof (cases "int32 (ps_nodeid r) = k")
    case True
    then have "find_row k i (r # rs) = int (i + 0) \<and> int32 (ps_nodeid ((r # rs) ! 0)) = k" by simp
    then show ?thesis by blast
  next
    case False
    then have f: "find_row k i (r # rs) = find_row k (i + 1) rs" by simp
    show ?thesis
    proof (cases "find_row k (i + 1) rs = -1")
      case False
      then obtain j where "j < length rs" "find_row k (i + 1) rs = int (i + 1 + j)" "int32 (ps_nodeid (rs ! j)) = k" using Cons.IH [of "i + 1"] by blast
      then have "Suc j < length (r # rs)" "find_row k i (r # rs) = int (i + Suc j)" "int32 (ps_nodeid ((r # rs) ! Suc j)) = k" using f by simp_all
      then show ?thesis by blast
    qed (use f in simp)
  qed
qed simp

lemma slot_spec:
  assumes "peer_slot s m d = (d', gone)"
  shows "pd_node_id d' = pd_node_id d \<and> pd_delete_later d' = pd_delete_later d \<and> pd_disconnected d' = (pd_disconnected d \<or> gone) \<and>
    (\<not> pd_disconnected d' \<longrightarrow> follows_peer m d')"
proof (cases s)
  case Peers_reset
  then show ?thesis using assms find_row_spec [of "pd_node_id d" 0 "pl_rows m"]
    by (auto simp: peer_slot_def onModelReset_def Let_def follows_peer_def points_to_def split: if_splits)
next
  case Peers_changed
  then show ?thesis using assms
    by (auto simp: peer_slot_def onModelDataChanged_def follows_peer_def points_to_def nat_less_iff split: if_splits)
qed

lemma slot_gone_pointer:
  assumes "peer_slot s m d = (d', True)"
  shows "pd_pointer d' = pd_pointer d"
  using assms by (cases s) (auto simp: peer_slot_def onModelReset_def onModelDataChanged_def Let_def split: if_splits)

lemma slot_reset_gone: "\<not> pd_disconnected d \<Longrightarrow> snd (peer_slot Peers_reset m d) \<longleftrightarrow> \<not> 0 \<le> find_row (pd_node_id d) 0 (pl_rows m)"
  by (simp add: peer_slot_def onModelReset_def Let_def)

lemma slot_changed_gone:
  assumes "0 \<le> pd_row d" "nat (pd_row d) < length (pl_rows m)" "int32 (ps_nodeid (pl_rows m ! nat (pd_row d))) = pd_node_id d"
  shows "\<not> snd (peer_slot Peers_changed m d)"
  using assms by (simp add: peer_slot_def onModelDataChanged_def nat_less_iff)

definition slot_result :: "peer_signal \<Rightarrow> PeerListModel \<Rightarrow> PeerDetails option \<Rightarrow> PeerDetails option" where
  "slot_result s m x = map_option (\<lambda>d. let (d', gone) = peer_slot s m d in if gone then d'\<lparr>pd_delete_later := True\<rparr> else d') x"

definition slot_gone :: "peer_signal \<Rightarrow> PeerListModel \<Rightarrow> PeerDetails option \<Rightarrow> bool" where
  "slot_gone s m x \<longleftrightarrow> (case x of None \<Rightarrow> False | Some d \<Rightarrow> snd (peer_slot s m d))"

lemma deliver_prefix:
  assumes "n \<le> length (pw_details w)"
  shows "fold (deliver_to s) [0..<n] w =
    w\<lparr>pw_details := map (slot_result s (pw_list w)) (take n (pw_details w)) @ drop n (pw_details w),
      pw_map := filter (\<lambda>(k, j). \<not> (j < n \<and> slot_gone s (pw_list w) (pw_details w ! j))) (pw_map w)\<rparr>"
  using assms
proof (induction n)
  case (Suc n)
  let ?w = "fold (deliver_to s) [0..<n] w"
  have w: "?w = w\<lparr>pw_details := map (slot_result s (pw_list w)) (take n (pw_details w)) @ drop n (pw_details w),
      pw_map := filter (\<lambda>(k, j). \<not> (j < n \<and> slot_gone s (pw_list w) (pw_details w ! j))) (pw_map w)\<rparr>"
    using Suc by simp
  define x where "x = pw_details w ! n"
  have at: "pw_details ?w ! n = x" "pw_list ?w = pw_list w" using Suc.prems by (simp_all add: w x_def nth_append)
  have drop: "drop n (pw_details w) = x # drop (Suc n) (pw_details w)" using Suc.prems by (simp add: x_def Cons_nth_drop_Suc)
  have upd: "(map (slot_result s (pw_list w)) (take n (pw_details w)) @ drop n (pw_details w))[n := y] =
      map (slot_result s (pw_list w)) (take n (pw_details w)) @ y # drop (Suc n) (pw_details w)" for y
    using Suc.prems by (simp add: drop list_update_append)
  have take: "take (Suc n) (pw_details w) = take n (pw_details w) @ [x]" using Suc.prems by (simp add: x_def take_Suc_conv_app_nth)
  have flt: "filter (\<lambda>(k, j). j \<noteq> n) (filter (\<lambda>(k, j). \<not> (j < n \<and> P j)) m) = filter (\<lambda>(k, j). \<not> (j < Suc n \<and> P j)) m" if "P n" for P and m :: "(int \<times> nat) list"
    using that by (induction m) (auto simp: less_Suc_eq)
  have flt': "filter (\<lambda>(k, j). \<not> (j < n \<and> P j)) m = filter (\<lambda>(k, j). \<not> (j < Suc n \<and> P j)) m" if "\<not> P n" for P and m :: "(int \<times> nat) list"
    using that by (induction m) (auto simp: less_Suc_eq)
  have "fold (deliver_to s) [0..<Suc n] w = deliver_to s n ?w" by simp
  also have "\<dots> = w\<lparr>pw_details := map (slot_result s (pw_list w)) (take (Suc n) (pw_details w)) @ drop (Suc n) (pw_details w),
      pw_map := filter (\<lambda>(k, j). \<not> (j < Suc n \<and> slot_gone s (pw_list w) (pw_details w ! j))) (pw_map w)\<rparr>"
  proof (cases x)
    case None
    then have "\<not> slot_gone s (pw_list w) (pw_details w ! n)" by (simp add: x_def [symmetric] slot_gone_def)
    moreover have "deliver_to s n ?w = ?w" by (simp add: deliver_to_def at None)
    ultimately show ?thesis using None flt' [of "\<lambda>j. slot_gone s (pw_list w) (pw_details w ! j)"] by (simp add: w take slot_result_def drop)
  next
    case (Some d)
    obtain d' gone where dg: "peer_slot s (pw_list w) d = (d', gone)" by (cases "peer_slot s (pw_list w) d")
    have g: "slot_gone s (pw_list w) (pw_details w ! n) = gone" by (simp add: x_def [symmetric] slot_gone_def Some dg)
    have "deliver_to s n ?w = (if gone then ?w\<lparr>pw_details := (pw_details ?w)[n := Some (d'\<lparr>pd_delete_later := True\<rparr>)], pw_map := filter (\<lambda>(k, j). j \<noteq> n) (pw_map ?w)\<rparr>
        else ?w\<lparr>pw_details := (pw_details ?w)[n := Some d']\<rparr>)" by (simp add: deliver_to_def at Some dg)
    then show ?thesis using Some dg g flt [of "\<lambda>j. slot_gone s (pw_list w) (pw_details w ! j)"] flt' [of "\<lambda>j. slot_gone s (pw_list w) (pw_details w ! j)"]
      by (cases gone) (simp_all only: w if_True if_False, simp_all add: upd take slot_result_def dg)
  qed
  finally show ?case .
qed simp


lemma deliver_signal_eq:
  "deliver_signal w s = w\<lparr>pw_details := map (slot_result s (pw_list w)) (pw_details w),
     pw_map := filter (\<lambda>(k, j). \<not> (j < length (pw_details w) \<and> slot_gone s (pw_list w) (pw_details w ! j))) (pw_map w)\<rparr>"
  using deliver_prefix [of "length (pw_details w)" w s] by (simp add: deliver_signal_def)

text \<open>
  The invariant. \<open>A\<close> says whether the objects have been told of the present rows; only then do their pointers have to be good.
\<close>

definition details_ok :: "bool \<Rightarrow> peers_world \<Rightarrow> bool" where
  "details_ok A w \<longleftrightarrow>
     (\<forall>i<length (pw_details w). \<forall>d. pw_details w ! i = Some d \<longrightarrow> (A \<and> \<not> pd_disconnected d \<longrightarrow> follows_peer (pw_list w) d) \<and> pd_delete_later d = pd_disconnected d) \<and>
     (\<forall>(k, i)\<in>set (pw_map w). i < length (pw_details w) \<and> (\<forall>d. pw_details w ! i = Some d \<longrightarrow> \<not> pd_disconnected d \<and> pd_node_id d = int32 k))"

lemma signal_details_ok:
  assumes "details_ok False w"
  shows "details_ok True (deliver_signal w s)"
proof -
  let ?m = "pw_list w" and ?ds = "pw_details w"
  have one: "\<exists>e. ?ds ! i = Some e \<and> (\<not> pd_disconnected d \<longrightarrow> follows_peer ?m d) \<and> pd_delete_later d = pd_disconnected d \<and> pd_node_id d = pd_node_id e \<and>
      pd_disconnected d = (pd_disconnected e \<or> slot_gone s ?m (?ds ! i))"
    if i: "i < length ?ds" "slot_result s ?m (?ds ! i) = Some d" for i d
  proof -
    obtain e where e: "?ds ! i = Some e" using i(2) by (auto simp: slot_result_def)
    obtain d' gone where dg: "peer_slot s ?m e = (d', gone)" by (cases "peer_slot s ?m e")
    have d: "d = (if gone then d'\<lparr>pd_delete_later := True\<rparr> else d')" using i(2) by (simp add: slot_result_def e dg)
    have old: "pd_delete_later e = pd_disconnected e" using assms i(1) e by (auto simp: details_ok_def)
    have "follows_peer ?m (d'\<lparr>pd_delete_later := True\<rparr>) = follows_peer ?m d'" by (simp add: follows_peer_def points_to_def)
    then show ?thesis using slot_spec [OF dg] old e by (auto simp: d slot_gone_def dg)
  qed
  show ?thesis unfolding details_ok_def deliver_signal_eq
  proof (intro conjI allI impI ballI, goal_cases)
    case (1 i d)
    then show ?case using one [of i d] by auto
  next
    case (2 i d)
    then show ?case using one [of i d] by auto
  next
    case (3 ki)
    obtain k i where ki: "ki = (k, i)" by (cases ki)
    have m: "(k, i) \<in> set (pw_map w)" "\<not> slot_gone s ?m (?ds ! i)" "i < length ?ds" using 3 assms by (auto simp: ki details_ok_def)
    have "\<not> pd_disconnected d \<and> pd_node_id d = int32 k" if "slot_result s ?m (?ds ! i) = Some d" for d
      using one [OF m(3) that] m assms by (fastforce simp: details_ok_def)
    then show ?case using m(3) by (simp add: ki)
  qed
qed

lemma find_row_found: "find_row k i rs = -1 \<longleftrightarrow> k \<notin> (\<lambda>r. int32 (ps_nodeid r)) ` set rs"
proof (induction rs arbitrary: i)
  case (Cons r rs)
  show ?case using Cons [of "i + 1"] by (cases "int32 (ps_nodeid r) = k") simp_all
qed simp

lemma new_details_follow:
  assumes "row < length (pl_rows m)"
  shows "follows_peer m (new_PeerDetails m row)"
proof -
  let ?k = "int32 (ps_nodeid (pl_rows m ! row))"
  have "find_row ?k 0 (pl_rows m) \<noteq> -1" using assms by (simp add: find_row_found)
  then obtain j where "j < length (pl_rows m)" "find_row ?k 0 (pl_rows m) = int j" "int32 (ps_nodeid (pl_rows m ! j)) = ?k"
    using find_row_spec [of ?k 0 "pl_rows m"] by auto
  then show ?thesis using assms by (simp add: follows_peer_def new_PeerDetails_def Let_def points_to_def)
qed

text \<open>The program: the timer and the calls of the pages, each step with its signals delivered.\<close>

inductive peers_step :: "peers_world \<Rightarrow> peers_world \<Rightarrow> bool" where
  refreshed: "peers_step w (world_update (peers_refresh answer (pw_list w)) w)"
| initialized: "peers_step w (world_update (peers_backendInitialized answer (pw_list w)) w)"
| started: "peers_step w (w\<lparr>pw_list := startAutoRefresh (pw_list w)\<rparr>)"
| stopped: "peers_step w (w\<lparr>pw_list := stopAutoRefresh (pw_list w)\<rparr>)"
| shutdown_begun: "peers_step w (w\<lparr>pw_list := peers_beginShutdown (pw_list w)\<rparr>)"
| selected: "peers_step w (fst (peerDetailsAt row w))"
| deleted: "peers_step w (run_deletions w)"

definition new_peers_world :: "bool \<Rightarrow> peer_stats list option \<Rightarrow> peers_world" where
  "new_peers_world ready answer = \<lparr>pw_list = new_PeerListModel ready answer, pw_details = [], pw_map = []\<rparr>"

definition peers_reachable :: "peers_world \<Rightarrow> bool" where
  "peers_reachable w \<longleftrightarrow> (\<exists>ready answer. peers_step\<^sup>*\<^sup>* (new_peers_world ready answer) w)"

lemma refresh_signals:
  "snd (peers_refresh answer m) = [] \<and> pl_rows (fst (peers_refresh answer m)) = pl_rows m \<and> (pl_store (fst (peers_refresh answer m)) = pl_store m \<or> pl_rows m = []) \<or>
   (\<exists>s. snd (peers_refresh answer m) = [s])"
  by (auto simp: peers_refresh_def Let_def split: option.splits)

lemma initialized_signals:
  "snd (peers_backendInitialized answer m) = [] \<and> pl_rows (fst (peers_backendInitialized answer m)) = pl_rows m \<and>
     (pl_store (fst (peers_backendInitialized answer m)) = pl_store m \<or> pl_rows m = []) \<or>
   (\<exists>s. snd (peers_backendInitialized answer m) = [s])"
  using refresh_signals [of answer "m\<lparr>pl_backend_ready := True\<rparr>"]
  by (cases "peers_refresh answer (m\<lparr>pl_backend_ready := True\<rparr>)") (auto simp: peers_backendInitialized_def)

lemma follows_peer_cong:
  assumes "pl_rows m' = pl_rows m" "pl_store m' = pl_store m \<or> pl_rows m = []"
  shows "follows_peer m' d \<longleftrightarrow> follows_peer m d"
  using assms by (auto simp: follows_peer_def points_to_def)

lemma details_ok_list:
  assumes "details_ok A w" "A' \<Longrightarrow> A \<and> (\<forall>d. follows_peer (pw_list w) d \<longrightarrow> follows_peer m d)"
  shows "details_ok A' (w\<lparr>pw_list := m\<rparr>)"
proof -
  have eqs: "pw_details (w\<lparr>pw_list := m\<rparr>) = pw_details w" "pw_list (w\<lparr>pw_list := m\<rparr>) = m" "pw_map (w\<lparr>pw_list := m\<rparr>) = pw_map w" by simp_all
  show ?thesis using assms unfolding details_ok_def eqs by blast
qed

lemma world_update_ok:
  assumes "details_ok True w" and
    "snd r = [] \<and> pl_rows (fst r) = pl_rows (pw_list w) \<and> (pl_store (fst r) = pl_store (pw_list w) \<or> pl_rows (pw_list w) = []) \<or> (\<exists>s. snd r = [s])"
  shows "details_ok True (world_update r w)"
  using assms(2)
proof
  assume s: "snd r = [] \<and> pl_rows (fst r) = pl_rows (pw_list w) \<and> (pl_store (fst r) = pl_store (pw_list w) \<or> pl_rows (pw_list w) = [])"
  then have "follows_peer (fst r) d = follows_peer (pw_list w) d" for d by (intro follows_peer_cong) simp_all
  then show ?thesis using s details_ok_list [OF assms(1), of True "fst r"] by (simp add: world_update_def)
next
  assume "\<exists>s. snd r = [s]"
  then show ?thesis using signal_details_ok [OF details_ok_list [OF assms(1), of False "fst r"]] by (auto simp: world_update_def)
qed

lemma peerDetailsAt_ok:
  assumes "details_ok True w"
  shows "details_ok True (fst (peerDetailsAt row w))"
proof (cases "fst (peerDetailsAt row w) = w")
  case False
  define k where "k = ps_nodeid (pl_rows (pw_list w) ! row)"
  define d0 where "d0 = new_PeerDetails (pw_list w) row"
  have row: "row < length (pl_rows (pw_list w))" using False by (cases "row < length (pl_rows (pw_list w))") (simp_all add: peerDetailsAt_def)
  have w': "fst (peerDetailsAt row w) = w\<lparr>pw_details := pw_details w @ [Some d0], pw_map := (k, length (pw_details w)) # filter (\<lambda>(k', j). k' \<noteq> k) (pw_map w)\<rparr>"
    using False by (auto simp: peerDetailsAt_def Let_def k_def d0_def split: option.splits if_splits)
  have d0: "follows_peer (pw_list w) d0" "\<not> pd_disconnected d0" "\<not> pd_delete_later d0" "pd_node_id d0 = int32 k"
    using new_details_follow [OF row] by (simp_all add: d0_def new_PeerDetails_def Let_def k_def)
  show ?thesis unfolding w' details_ok_def
  proof (intro conjI allI impI ballI, goal_cases)
    case (1 i d)
    then show ?case using assms d0 by (cases "i = length (pw_details w)") (simp_all add: details_ok_def nth_append less_Suc_eq)
  next
    case (2 i d)
    then show ?case using assms d0 by (cases "i = length (pw_details w)") (simp_all add: details_ok_def nth_append less_Suc_eq)
  next
    case (3 ki)
    then show ?case using assms d0 by (fastforce simp: details_ok_def nth_append)
  qed
qed (use assms in simp)

lemma run_deletions_ok:
  assumes "details_ok True w"
  shows "details_ok True (run_deletions w)"
proof -
  have nth: "pw_details (run_deletions w) ! i = Some d \<Longrightarrow> pw_details w ! i = Some d" if "i < length (pw_details w)" for i d
    using that by (simp add: run_deletions_def split: option.splits if_splits)
  have eqs: "length (pw_details (run_deletions w)) = length (pw_details w)" "pw_list (run_deletions w) = pw_list w" "pw_map (run_deletions w) = pw_map w"
    by (simp_all add: run_deletions_def)
  show ?thesis using assms nth unfolding details_ok_def eqs by blast
qed

lemma peers_step_ok:
  assumes "peers_step w w'" "details_ok True w"
  shows "details_ok True w'"
  using assms(1)
proof (cases rule: peers_step.cases)
  case (refreshed answer)
  then show ?thesis using world_update_ok [OF assms(2) refresh_signals] by simp
next
  case (initialized answer)
  then show ?thesis using world_update_ok [OF assms(2) initialized_signals] by simp
qed (use assms(2) in \<open>simp_all add: peerDetailsAt_ok run_deletions_ok details_ok_list follows_peer_def points_to_def startAutoRefresh_def stopAutoRefresh_def peers_beginShutdown_def\<close>)

lemma reachable_details_ok:
  assumes "peers_reachable w"
  shows "details_ok True w"
proof -
  obtain ready answer where "peers_step\<^sup>*\<^sup>* (new_peers_world ready answer) w" using assms by (auto simp: peers_reachable_def)
  then show ?thesis
  proof (induction rule: rtranclp_induct)
    case base
    show ?case by (simp add: details_ok_def new_peers_world_def)
  next
    case (step y z)
    then show ?case by (blast intro: peers_step_ok)
  qed
qed

lemma refresh_spec:
  assumes "\<not> pl_stopping m" "pl_backend_ready m" "pl_rows m \<noteq> []"
  obtains s where "peers_refresh (Some new) m = (m\<lparr>pl_rows := new, pl_store := pl_store m + 1\<rparr>, [s])"
    "s = Peers_reset \<or> s = Peers_changed \<and> map ps_nodeid (pl_rows m) = map ps_nodeid new"
proof (cases "map ps_nodeid (pl_rows m) = map ps_nodeid new")
  case True
  then have "length (pl_rows m) = length new" by (metis length_map)
  moreover from this have "new \<noteq> []" using assms(3) by auto
  ultimately show ?thesis using that [of Peers_changed] assms True by (simp add: peers_refresh_def Let_def)
next
  case False
  then show ?thesis using that [of Peers_reset] assms by (simp add: peers_refresh_def Let_def)
qed

text \<open>
  C29: An object for one peer is told to go exactly when its peer is gone. A refresh of the list keeps an object connected
  if some peer of the new answer has its node identifier, and disconnects it and schedules its deletion if none has. An object that
  goes keeps its old pointer, which then leads to memory that was freed, until it is deleted.
\<close>

theorem details_disconnect:
  assumes "peers_reachable w" "\<not> pl_stopping (pw_list w)" "pl_backend_ready (pw_list w)"
    and "i < length (pw_details w)" "pw_details w ! i = Some d" "\<not> pd_disconnected d"
    and "w' = world_update (peers_refresh (Some new) (pw_list w)) w"
  shows "\<exists>d'. pw_details w' ! i = Some d' \<and> pd_node_id d' = pd_node_id d \<and>
    (pd_disconnected d' \<longleftrightarrow> pd_node_id d \<notin> (\<lambda>r. int32 (ps_nodeid r)) ` set new) \<and>
    pd_delete_later d' = pd_disconnected d' \<and>
    (if pd_disconnected d' then points_to (pw_list w') d' = None \<and> i \<notin> snd ` set (pw_map w')
     else \<exists>r\<in>set new. points_to (pw_list w') d' = Some r \<and> int32 (ps_nodeid r) = pd_node_id d)"
proof -
  let ?m = "pw_list w" and ?k = "pd_node_id d"
  define m' where "m' = ?m\<lparr>pl_rows := new, pl_store := pl_store ?m + 1\<rparr>"
  have m': "pl_rows m' = new" "pl_store m' \<noteq> pl_store ?m" by (simp_all add: m'_def)
  have ok: "follows_peer ?m d" "\<not> pd_delete_later d" using reachable_details_ok [OF assms(1)] assms(4-6) by (auto simp: details_ok_def)
  then have ne: "pl_rows ?m \<noteq> []" and ptr: "fst (pd_pointer d) = pl_store ?m" by (auto simp: follows_peer_def points_to_def split: if_splits)
  obtain s where s: "peers_refresh (Some new) ?m = (m', [s])" "s = Peers_reset \<or> s = Peers_changed \<and> map ps_nodeid (pl_rows ?m) = map ps_nodeid new"
    using refresh_spec [OF assms(2,3) ne] unfolding m'_def by metis
  have w': "w' = deliver_signal (w\<lparr>pw_list := m'\<rparr>) s" by (simp add: assms(7) world_update_def s(1))
  have l': "pw_list w' = m'" by (simp add: w' deliver_signal_eq)
  obtain d1 gone where slot: "peer_slot s m' d = (d1, gone)" by (cases "peer_slot s m' d")
  define d' where "d' = (if gone then d1\<lparr>pd_delete_later := True\<rparr> else d1)"
  have at: "pw_details w' ! i = Some d'" using assms(4,5) slot by (simp add: w' deliver_signal_eq slot_result_def d'_def)
  have spec: "pd_node_id d1 = ?k" "pd_delete_later d1 = pd_delete_later d" "pd_disconnected d1 = gone" "\<not> gone \<longrightarrow> follows_peer m' d1"
    using slot_spec [OF slot] assms(6) by simp_all
  have gone: "gone \<longleftrightarrow> ?k \<notin> (\<lambda>r. int32 (ps_nodeid r)) ` set new"
    using s(2)
  proof
    assume "s = Peers_reset"
    then have "gone \<longleftrightarrow> \<not> find_row ?k 0 new \<ge> 0" using slot_reset_gone [OF assms(6), of m'] slot m' by simp
    also have "\<dots> \<longleftrightarrow> find_row ?k 0 new = -1" using find_row_spec [of ?k 0 new] by fastforce
    finally show ?thesis by (simp only: find_row_found)
  next
    assume c: "s = Peers_changed \<and> map ps_nodeid (pl_rows ?m) = map ps_nodeid new"
    then have len: "length (pl_rows ?m) = length new" by (metis length_map)
    have row: "0 \<le> pd_row d" "nat (pd_row d) < length new" "int32 (ps_nodeid (pl_rows ?m ! nat (pd_row d))) = ?k"
      using ok(1) by (auto simp: follows_peer_def len)
    have "ps_nodeid (new ! nat (pd_row d)) = ps_nodeid (pl_rows ?m ! nat (pd_row d))" using c row(2) len by (metis nth_map)
    then have k: "int32 (ps_nodeid (new ! nat (pd_row d))) = ?k" using row(3) by simp
    then have "\<not> gone" using slot_changed_gone [of d m'] slot conjunct1 [OF c] row(1,2) m' k by simp
    moreover have "?k \<in> (\<lambda>r. int32 (ps_nodeid r)) ` set new" by (metis (no_types, lifting) image_eqI k nth_mem row(2))
    ultimately show ?thesis by simp
  qed
  have kept: "pd_pointer d1 = pd_pointer d" if gone
    using slot_gone_pointer [of s m' d d1] slot that by simp
  have dead: "points_to m' d' = None" if gone using kept [OF that] ptr that m'(2) by (simp add: points_to_def d'_def)
  have forgot: "i \<notin> snd ` set (pw_map w')" if gone
  proof -
    have "slot_gone s m' (pw_details w ! i)" using that by (simp add: slot_gone_def assms(5) slot)
    then show ?thesis using assms(4) by (auto simp: w' deliver_signal_eq)
  qed
  have live: "\<exists>r\<in>set new. points_to m' d' = Some r \<and> int32 (ps_nodeid r) = ?k" if ng: "\<not> gone"
  proof -
    obtain r where r: "points_to m' d1 = Some r" "int32 (ps_nodeid r) = ?k" using spec(1,4) ng by (auto simp: follows_peer_def)
    then have "r \<in> set new" by (auto simp: points_to_def m' split: if_splits)
    then show ?thesis using r ng by (auto simp: d'_def)
  qed
  have fields: "pd_node_id d' = ?k" "pd_disconnected d' = gone" "pd_delete_later d' = gone" using spec ok(2) by (simp_all add: d'_def)
  show ?thesis unfolding l'
    by (rule exI [of _ d'], cases gone) (use at fields gone dead forgot live in simp_all)
qed

text \<open>
  C25: In every reachable state, an object for one peer that has not been told to go points into the present rows of the
  list, to a row with its node identifier; and selecting a row, when no two rows have the same identifier, gives an object that
  shows exactly that row.
\<close>

theorem details_follow_peer:
  assumes "peers_reachable w"
  shows "(\<forall>i<length (pw_details w). \<forall>d. pw_details w ! i = Some d \<and> \<not> pd_disconnected d \<longrightarrow>
      (\<exists>r\<in>set (pl_rows (pw_list w)). points_to (pw_list w) d = Some r \<and> int32 (ps_nodeid r) = pd_node_id d)) \<and>
    (row < length (pl_rows (pw_list w)) \<and> distinct (map (\<lambda>r. int32 (ps_nodeid r)) (pl_rows (pw_list w))) \<longrightarrow>
      (\<exists>w' i d. peerDetailsAt row w = (w', Some i) \<and> pw_list w' = pw_list w \<and> pw_details w' ! i = Some d \<and> \<not> pd_disconnected d \<and>
        points_to (pw_list w') d = Some (pl_rows (pw_list w) ! row)))"
proof (intro conjI allI impI, goal_cases)
  case (1 i d)
  then show ?case using reachable_details_ok [OF assms] by (auto simp: details_ok_def follows_peer_def points_to_def split: if_splits)
next
  case 2
  let ?m = "pw_list w" and ?id = "\<lambda>r. int32 (ps_nodeid r)"
  obtain w' i where w': "peerDetailsAt row w = (w', Some i)" "pw_list w' = ?m" "i < length (pw_details w')"
    "\<exists>d. pw_details w' ! i = Some d \<and> \<not> pd_disconnected d \<and> pd_node_id d = ?id (pl_rows ?m ! row)"
  proof (cases "\<exists>i d. map_of (pw_map w) (ps_nodeid (pl_rows ?m ! row)) = Some i \<and> pw_details w ! i = Some d")
    case True
    then obtain i d where i: "map_of (pw_map w) (ps_nodeid (pl_rows ?m ! row)) = Some i" "pw_details w ! i = Some d" by blast
    then have "(ps_nodeid (pl_rows ?m ! row), i) \<in> set (pw_map w)" by (blast dest: map_of_SomeD)
    then have "i < length (pw_details w)" "\<not> pd_disconnected d" "pd_node_id d = ?id (pl_rows ?m ! row)"
      using reachable_details_ok [OF assms] i(2) by (auto simp: details_ok_def)
    then show ?thesis using that [of w i] i 2 by (simp add: peerDetailsAt_def Let_def)
  next
    case False
    then have "peerDetailsAt row w = (w\<lparr>pw_details := pw_details w @ [Some (new_PeerDetails ?m row)],
        pw_map := (ps_nodeid (pl_rows ?m ! row), length (pw_details w)) # filter (\<lambda>(k', j). k' \<noteq> ps_nodeid (pl_rows ?m ! row)) (pw_map w)\<rparr>, Some (length (pw_details w)))"
      using 2 by (auto simp: peerDetailsAt_def Let_def split: option.splits)
    then show ?thesis using that by (simp add: new_PeerDetails_def Let_def)
  qed
  then obtain d where d: "pw_details w' ! i = Some d" "\<not> pd_disconnected d" "pd_node_id d = ?id (pl_rows ?m ! row)" by blast
  have "details_ok True w'" using peerDetailsAt_ok [OF reachable_details_ok [OF assms], of row] w'(1) by simp
  then have "follows_peer ?m d" using d w'(2,3) by (simp add: details_ok_def)
  then obtain r where r: "points_to ?m d = Some r" "?id r = ?id (pl_rows ?m ! row)" using d(3) by (auto simp: follows_peer_def)
  then obtain j where j: "j < length (pl_rows ?m)" "r = pl_rows ?m ! j" by (auto simp: points_to_def split: if_splits)
  have "j = row" using 2 j r(2) by (auto simp: distinct_conv_nth)
  then show ?case using w' d r(1) j(2) by auto
qed

text \<open>A node with one peer; the page selects it, then the peer leaves.\<close>

definition demo_peer :: "int \<Rightarrow> peer_stats" where
  "demo_peer n = \<lparr>ps_nodeid = n, ps_connected = 0, ps_addr_name = q ''a'', ps_inbound = True, ps_conn_type = INBOUND, ps_network = NET_IPV4, ps_min_ping = 0,
     ps_send_bytes = 0, ps_recv_bytes = 0, ps_subver = [], ps_transport = V2, ps_state_available = True\<rparr>"

definition demo_peers_world :: peers_world where
  "demo_peers_world = fst (peerDetailsAt 0 (new_peers_world True (Some [demo_peer 7])))"

lemma demo_peers_reachable: "peers_reachable demo_peers_world"
  unfolding peers_reachable_def demo_peers_world_def
  by (intro exI [of _ True] exI [of _ "Some [demo_peer 7]"] r_into_rtranclp) (rule peers_step.selected)

lemma demo_peers_facts:
  "\<not> pl_stopping (pw_list demo_peers_world)" "pl_backend_ready (pw_list demo_peers_world)" "pl_rows (pw_list demo_peers_world) = [demo_peer 7]"
  "pw_details demo_peers_world = [Some (new_PeerDetails (pw_list demo_peers_world) 0)]" "pd_node_id (new_PeerDetails (pw_list demo_peers_world) 0) = 7"
  "\<not> pd_disconnected (new_PeerDetails (pw_list demo_peers_world) 0)"
  by (simp_all add: demo_peers_world_def new_peers_world_def new_PeerListModel_def peers_refresh_def peerDetailsAt_def Let_def new_PeerDetails_def demo_peer_def int32_def)

theorem details_disconnect_witness:
  "\<exists>d'. pw_details (world_update (peers_refresh (Some [demo_peer 8]) (pw_list demo_peers_world)) demo_peers_world) ! 0 = Some d' \<and> pd_disconnected d' \<and>
     points_to (pw_list (world_update (peers_refresh (Some [demo_peer 8]) (pw_list demo_peers_world)) demo_peers_world)) d' = None"
proof -
  have "0 < length (pw_details demo_peers_world)" "pw_details demo_peers_world ! 0 = Some (new_PeerDetails (pw_list demo_peers_world) 0)"
    by (simp_all add: demo_peers_facts)
  moreover have "(7 :: int) \<notin> (\<lambda>r. int32 (ps_nodeid r)) ` set [demo_peer 8]" by (simp add: demo_peer_def int32_def)
  ultimately show ?thesis
    using details_disconnect [OF demo_peers_reachable demo_peers_facts(1,2) _ _ demo_peers_facts(6) refl, of 0 "[demo_peer 8]"] demo_peers_facts(5) by auto
qed

theorem details_follow_peer_witness:
  "\<exists>r. points_to (pw_list demo_peers_world) (new_PeerDetails (pw_list demo_peers_world) 0) = Some r \<and> int32 (ps_nodeid r) = 7"
  using conjunct1 [OF details_follow_peer [OF demo_peers_reachable, of 0], rule_format, of 0 "new_PeerDetails (pw_list demo_peers_world) 0"] demo_peers_facts
  by auto

end
