(* ===== verification/Spec2Isabelle.thy ===== *)
theory Spec2Isabelle
  imports Recipients Registry Shutdown Coins ActivityExport Traffic BlockClock PaymentRequest Console Options DebugLog TxFlow ActivitySource Peers
begin

text \<open>
  A verification library for the QML front end of Bitcoin Core (\<open>src/qml\<close>).

  \<^bold>\<open>The program.\<close> The application shows a node and its wallets in QML. Its C++ part consists of
  small objects whose properties QML binds to (amounts, addresses, recipients, payment requests), list
  models with filters and sort orders (coins, activity, receive requests), objects that live on two
  threads (the backend executor, the traffic sampler, the block clock, the RPC console, the options, the debug log, the activity list), and the
  code that starts and stops them all. Core's own libraries (consensus, wallet, node, \<open>UniValue\<close>) are not
  part of the repository: they are functions in environment records, with what the code relies on as
  named hypotheses, each with an instance that satisfies them. Of Qt, strings are lists of UTF-16 code units,
  signals are the lists of signals an operation emits, and queued calls are explicit queues.

  \<^bold>\<open>Theories and sources.\<close>

  \<^item> \<open>Prelude\<close>: strings and numbers of Qt, 64-bit bounds with overflow as \<open>None\<close>, emitted signals,
    and the locale \<open>notifying\<close>: an object all of whose changes of a property are notified; its
    client's lemma is that a QML binding is never stale.
  \<^item> \<open>Units\<close> (\<open>bitcoinunits\<close>), \<open>Amount\<close> (\<open>bitcoinamount\<close>), \<open>Address\<close> (\<open>models/bitcoinaddress\<close>),
    \<open>Recipient\<close> (\<open>models/sendrecipient\<close>), \<open>Recipients\<close> (\<open>models/sendrecipientslistmodel\<close>): the send form. An
    amount survives being shown and read back, parsing is exact up to saturation, a
    recipient is valid exactly when it can be paid from the wallet as its amount was last checked against it, the list
    always has a valid current recipient and the exact total, and is valid as a whole exactly when every payment can be
    sent. The wallet may change between operations, which validates nothing again. Two faults of the code are
    proved as lemmas: the limit on decimals is skipped after a second point (\<open>Amount.sanitize_second_point\<close>), and
    the total can overflow (\<open>Recipients.total_overflow_reachable\<close>).
  \<^item> \<open>Executor\<close>, \<open>Registry\<close>, \<open>Channel\<close>, \<open>Shutdown\<close> (\<open>backendexecutor\<close>, \<open>asyncjoin.h\<close>, \<open>initexecutor\<close>,
    \<open>shutdowncoordinator\<close>): threads as event systems. Work runs and completes in order and at most once in every
    interleaving, a shut down executor drains, the registries call back exactly when everything
    has been joined, and the shutdown protocol holds whatever throws, and completes. \<open>Channel\<close> is the abstract
    task queue that \<open>Shutdown\<close> uses, with an action for everything a client can observe; every run of the executor is a run of
    it with the same actions.
  \<^item> \<open>Ordering\<close>: the locales \<open>strict_weak\<close> and \<open>strict_total\<close> and sorting by a comparison, shared by \<open>Coins\<close>
    (\<open>models/coinslistmodel\<close>), \<open>Activity\<close> and \<open>ActivityExport\<close> (\<open>models/activityfilterproxymodel\<close>): the lists shown are the
    only sorted arrangement of the rows that pass the filters, groups are contiguous, cached totals are
    never stale, a cancelled coin selection is restored, and exported CSV reads back and holds no formula. Every operation on the
    activity has its own day: a row is shown by the day on which it was last decided about, since nothing decides again at midnight.
  \<^item> \<open>Traffic\<close> (\<open>models/networktraffictower\<close>): every published average is that of a window of the samples, the published list is the
    moving average of the kept history (once a day is kept, for windows of at most an eleventh of it), and the
    object is safe in every interleaving with its worker.
  \<^item> \<open>BlockClock\<close> (\<open>models/blockclockhistory\<close>, \<open>models/blockclockmodel\<close>): the dial refines the active chain of the half day
    once notifications are delivered, unless the clock was set back past what is retained, and the walk over ancestors ends with
    exactly the blocks wanted. Notifications, the initialisation worker and the GUI thread interleave at the single locked operations.
  \<^item> \<open>Requests\<close>, \<open>Uri\<close>, \<open>PaymentRequest\<close> (\<open>models/receiverequesthistorymodel\<close>, \<open>models/receiverequestentry.h\<close>,
    \<open>models/bitcoinuri\<close>, \<open>models/bitcoinurimodel\<close>, \<open>models/paymentrequest\<close>): stored requests read back with dates to the second, the indexed list
    refines a plain list, payment URIs read back, and the QR code of a request pays it, for amounts up to \<open>MAX_MONEY\<close> (\<open>ParseMoney\<close> is used only on
    the whole parts of at most ten digits it accepts). The locale
    \<open>traced\<close> is about bindings that read in the middle of an operation.
  \<^item> \<open>Rpc\<close>, \<open>Console\<close> (\<open>models/rpccommandexecutor\<close>, \<open>models/rpcconsolemodel\<close>): the parser of the RPC console hides exactly what is
    read inside a sensitive command, if that command is closed at the end of the line, and the lines on which it does
    not, or on which it reads outside a vector, are exhibited; quoting is exact; the console runs one command at a
    time, bounds its output and history, and its HTML shows the text as it is.
  \<^item> \<open>Settings\<close>, \<open>SettingsSession\<close> (\<open>core_settings\<close>), \<open>SettingsModel\<close> (\<open>models/core_settings_model\<close>), \<open>Options\<close> (\<open>models/options_model\<close>):
    where a setting comes from, what is stored for it, and the pages that edit it. What the user chose is what is
    loaded after it was written (when no command line or forced value overrides it and its text is UTF-8), through the arguments and through the node alike; the check of host names and the
    conversions of prune sizes are characterised (the latter by the lemma \<open>Settings.prune_size_exact\<close>); a page is never stale,
    shows in the end what is saved, the data directories too until one is chosen, unless a command ended in an exception, and saving a setting is all or nothing while other threads write others.
  \<^item> \<open>LogReader\<close>, \<open>DebugLog\<close> (\<open>models/debuglogmodel\<close>): the functions on the reader thread and the list on the GUI thread.
    Reading backwards in blocks finds exactly the newest records, reading on after an append equals reading again, and
    the page shows the newest records of the log as the last read it took over found it, whatever the order of edits, reads and
    completions; the rows it announces rebuild the list it shows. These hold for a log that only grows and has no line of exactly the
    greatest length shown (the reader drops some of these), and while the limit has not been lowered below
    what is loaded, which no page does.
  \<^item> \<open>ListView\<close>: what list models announce, and a view that knows only that; shared by \<open>DebugLog\<close> and \<open>ActivityRows\<close>.
  \<^item> \<open>TxActivity\<close>, \<open>TxFlow\<close> (\<open>models/transactionactivity\<close>, \<open>models/transaction\<close>, \<open>models/transactionflow\<close>): what a wallet transaction
    means to its wallet and what its details page lists. Receipts less sends and fee are what the transaction changes in the
    wallet, the older list of parts agrees, and the details balance, collapsed or not.
  \<^item> \<open>ActivityRows\<close>, \<open>ActivitySource\<close> (\<open>models/transactionactivitymodel\<close>): the rows of the activity list and their reconciliation, and
    the model that reads the wallet on another thread. The rows are those of all transactions and of the requests no active transaction
    pays; views that follow the announcements show them; whatever the order of notifications, reads, results, failures and requests for
    details, no change of the wallet is missed unless a read failed, the list comes to rest after five turns of the event loop, and the details page
    never shows another transaction. The answers during a read are those of the present wallet, except for transactions whose notification
    is on its way or waits as work: the wallet may change while it is read. A failed reload is reported,
    but not when details were asked for since, even by a page that was closed again: that is a theorem, as is coming to rest for reads that
    do not fail and notifications that are not lost.

  \<^item> \<open>Peers\<close> (\<open>models/peerlistmodel\<close>, \<open>models/peerlistsortproxy\<close>, \<open>models/peerdetailsmodel\<close>, \<open>models/banlistmodel\<close>,
    \<open>peerstatsutil\<close>): the peers, their filters and order, and the objects that show one peer by a pointer into rows that every
    refresh replaces. A pointer is a storage number and a row, so that freed memory is visible: connected objects always point to the
    row of their peer, an object is told to go exactly when its peer is gone, and it then holds a dead pointer until it is deleted.

  \<^bold>\<open>Conventions.\<close> A definition has the name of what it models, with a prefix where two classes share
  it. An operation returns the new object, with the signals it emits where they matter; undefined
  behaviour (signed overflow, access outside a vector), failed assertions and uncaught exceptions are
  \<open>None\<close> or an error value, never a value. Concurrency is a step function over events with explicit queues;
  theorems quantify over all event sequences. Loops are structural recursion, or functions with a measure;
  there is no fuel, except that liveness is stated with a bound on the number of internal steps.

  \<^bold>\<open>Not modelled.\<close> The wallet model and controller beyond coin selection, the node model,
  onboarding and migration, the wallet and address lists, fee bumping and PSBT: they are listed in the manifest, the
  larger of them as the next steps of the plan (the lists, node model, wallet model, in this order). Painting,
  tray and notification code, image providers, \<open>main\<close> and the QML files are glue or declarative and hold no logic of their own.
\<close>

end
